(* ===== verification/C_Prelude.thy ===== *)
theory C_Prelude
  imports Main "HOL-Library.Word"
begin

unbundle bit_operations_syntax

section \<open>Shared vocabulary of the development\<close>

text \<open>
  The fixed-width integer types of the C sources, the combinator that stands for the idiom
  \<^verbatim>\<open>if (!f(...)) return 0;\<close>, the allocator oracle, and the generic facts about words,
  byte strings and big-endian numbers that every component uses.

  Integers keep their width: \<open>u8\<close>, \<open>u16\<close>, \<open>u32\<close>, \<open>u64\<close> are machine words whose arithmetic
  wraps as the C standard says for unsigned types; \<open>size_t\<close> and \<open>crypto_word_t\<close> are 64 bits
  wide (the LP64 targets of the pods), \<open>unsigned\<close> is 32 bits wide.
\<close>

named_theorems c_defs \<open>definitions unfolded by the component proofs\<close>
named_theorems reader_simps \<open>how a byte reader acts on the bytes it is given\<close>

type_synonym u8 = "8 word"
type_synonym u16 = "16 word"
type_synonym u32 = "32 word"
type_synonym u64 = "64 word"
type_synonym size_t = "64 word"
type_synonym bytes = "u8 list"

text \<open>
  The C functions of the bytestring library return 1 with their results in out-parameters, or 0.
  A model function returns \<open>Some\<close> of the out-parameters or \<open>None\<close>, together with the state as the
  call leaves it (also on failure: a failing call may have consumed input).
  \<open>and_then r f\<close> goes on with \<open>f\<close> after success and returns at once after a failure.
\<close>

definition and_then :: "'a option \<times> 's \<Rightarrow> ('a \<Rightarrow> 's \<Rightarrow> 'b option \<times> 's) \<Rightarrow> 'b option \<times> 's" where
  "and_then r f = (case r of (None, s) \<Rightarrow> (None, s) | (Some x, s) \<Rightarrow> f x s)"

lemma and_then_simps [simp]:
  "and_then (None, s) f = (None, s)"
  "and_then (Some x, s) f = f x s"
  by (simp_all add: and_then_def)

lemma and_then_Some_iff:
  "and_then r f = (Some y, t) \<longleftrightarrow> (\<exists>x s. r = (Some x, s) \<and> f x s = (Some y, t))"
  by (auto simp: and_then_def split: prod.splits option.splits)

lemma and_then_SomeE:
  assumes "and_then r f = (Some y, t)"
  obtains x s where "r = (Some x, s)" "f x s = (Some y, t)"
  using assms by (auto simp: and_then_Some_iff)

lemma and_then_cong [fundef_cong]:
  "r = r' \<Longrightarrow> (\<And>x s. r' = (Some x, s) \<Longrightarrow> f x s = g x s) \<Longrightarrow> and_then r f = and_then r' g"
  by (auto simp: and_then_def split: prod.splits option.splits)

subsection \<open>Words\<close>

text \<open>
  The bit operations of the sources, read as arithmetic on \<open>nat\<close>: a mask is a remainder, a right
  shift a quotient, and a left shift followed by an OR of the vacated bits a sum.
\<close>

lemma unat_lt_len: "unat (x :: 'a::len word) < 2 ^ LENGTH('a)"
  by (rule unsigned_less)

lemma unat_u8_less [simp]: "unat (x :: u8) < 256"
  using unat_lt_len [of x] by simp

lemma unat_u16_less [simp]: "unat (x :: u16) < 65536"
  using unat_lt_len [of x] by simp

lemma unat_u32_less [simp]: "unat (x :: u32) < 4294967296"
  using unat_lt_len [of x] by simp

lemma unat_u64_less [simp]: "unat (x :: u64) < 18446744073709551616"
  using unat_lt_len [of x] by simp

lemma unat_ucast_mod: "unat (ucast (x :: 'a::len word) :: 'b::len word) = unat x mod 2 ^ LENGTH('b)"
  by (simp add: unsigned_ucast_eq take_bit_eq_mod)

lemma unat_ucast_up: "LENGTH('a) \<le> LENGTH('b) \<Longrightarrow>
    unat (ucast (x :: 'a::len word) :: 'b::len word) = unat x"
  by (metis mod_less unat_lt_len unat_ucast_mod power_increasing_iff one_less_numeral_iff
      order_less_le_trans semiring_norm(76))

lemma unat_ucast_widen [simp]:
  "unat (ucast (a :: u8) :: u16) = unat a"
  "unat (ucast (a :: u8) :: u32) = unat a"
  "unat (ucast (a :: u8) :: u64) = unat a"
  "unat (ucast (b :: u16) :: u32) = unat b"
  "unat (ucast (b :: u16) :: u64) = unat b"
  "unat (ucast (c :: u32) :: u64) = unat c"
  by (simp_all add: unat_ucast_up)

lemma unat_and_mask: "unat (w AND mask n) = unat w mod 2 ^ n"
  by (metis take_bit_eq_mask take_bit_eq_mod unsigned_take_bit_eq)

lemma unat_shr: "unat (drop_bit n w) = unat w div 2 ^ n"
  by (simp only: unat_drop_bit_eq) (simp add: drop_bit_eq_div)

lemma unat_shl: "unat (push_bit n (w :: 'a::len word)) = (unat w * 2 ^ n) mod 2 ^ LENGTH('a)"
  by (simp only: unsigned_push_bit_eq) (simp add: push_bit_eq_mult take_bit_eq_mod)

lemma bit_unat: "bit w k \<longleftrightarrow> bit (unat w) k"
  by (metis bit_imp_le_length bit_unsigned_iff possible_bit_nat)

lemma and_pow_eq_0: "(w AND 2 ^ n = 0) \<longleftrightarrow> even (unat w div 2 ^ n)"
  by (simp only: and_exp_eq_0_iff_not_bit bit_unat [of w]) (simp add: bit_iff_odd)

lemma shl_or_eq_add:
  assumes "unat y < 2 ^ n"
  shows "push_bit n x OR y = push_bit n x + y"
proof -
  have "\<not> bit y k" if "n \<le> k" for k
  proof -
    have "unat y div 2 ^ k = 0"
      using assms that by (meson div_less order_less_le_trans power_increasing_iff one_less_numeral_iff
          semiring_norm(76))
    then have "\<not> bit (unat y) k" by (simp add: bit_iff_odd)
    then show ?thesis by (simp only: bit_unat [of y]) simp
  qed
  then have "\<not> bit (push_bit n x) k \<or> \<not> bit y k" for k
    by (cases "n \<le> k") (auto simp: bit_push_bit_iff)
  then show ?thesis by (simp add: disjunctive_add)
qed

lemma unat_shl_or:
  fixes x y :: "'a::len word"
  assumes "unat y < 2 ^ n" and "n \<le> LENGTH('a)"
  shows "unat (push_bit n x OR y) = (unat x * 2 ^ n) mod 2 ^ LENGTH('a) + unat y"
proof -
  let ?a = "(unat x * 2 ^ n) mod 2 ^ LENGTH('a)"
  have split: "(2::nat) ^ LENGTH('a) = 2 ^ n * 2 ^ (LENGTH('a) - n)"
    using assms(2) by (simp flip: power_add)
  have "?a = (unat x mod 2 ^ (LENGTH('a) - n)) * 2 ^ n"
    by (simp only: split mult.commute [of _ "2 ^ n"] mult_mod_right)
  moreover have "unat x mod 2 ^ (LENGTH('a) - n) + 1 \<le> 2 ^ (LENGTH('a) - n)"
    by (simp add: Suc_leI)
  then have "(unat x mod 2 ^ (LENGTH('a) - n) + 1) * 2 ^ n \<le> 2 ^ (LENGTH('a) - n) * 2 ^ n"
    by (rule mult_le_mono1)
  ultimately have "?a + unat y < 2 ^ LENGTH('a)"
    using assms(1) split by (simp add: algebra_simps)
  then show ?thesis
    by (simp add: shl_or_eq_add [OF assms(1)] unat_word_ariths unat_shl)
qed

lemma unat_of_nat_small: "n < 2 ^ LENGTH('a) \<Longrightarrow> unat (of_nat n :: 'a::len word) = n"
  by (simp add: unat_of_nat)

lemma u8_and_7f [simp]: "unat (b AND 0x7f :: u8) = unat b mod 128"
  using unat_and_mask [of b 7] by (simp add: mask_eq_exp_minus_1)

lemma u8_and_80 [simp]: "(b AND 0x80 = (0 :: u8)) \<longleftrightarrow> unat b < 128"
proof -
  have "(b AND 0x80 = 0) \<longleftrightarrow> even (unat b div 128)"
    using and_pow_eq_0 [of b 7] by simp
  moreover have "unat b div 128 < 2"
    using unat_u8_less [of b] by (simp add: div_less_iff_less_mult)
  ultimately show ?thesis by (auto simp: div_eq_0_iff less_2_cases_iff)
qed

lemma and_not_mask: "w AND NOT (mask n) = push_bit n (drop_bit n (w :: 'a::len word))"
  by (rule bit_eqI) (auto simp: bit_and_iff bit_not_iff bit_mask_iff bit_push_bit_iff bit_drop_bit_eq)

lemma unat_and_not_mask: "unat (w AND NOT (mask n)) = unat w div 2 ^ n * 2 ^ n"
proof -
  have "unat w div 2 ^ n * 2 ^ n \<le> unat w" by simp
  then have "unat w div 2 ^ n * 2 ^ n < 2 ^ LENGTH('a)" using unat_lt_len [of w] by linarith
  then show ?thesis unfolding and_not_mask by (simp only: unat_shl unat_shr mod_less)
qed

lemma u8_and_1f [simp]: "unat (b AND 0x1f :: u8) = unat b mod 32"
  using unat_and_mask [of b 5] by (simp add: mask_eq_exp_minus_1)

lemma u8_and_e0 [simp]: "unat (b AND 0xe0 :: u8) = unat b div 32 * 32"
proof -
  have "(0xe0 :: u8) = NOT (mask 5)" by code_simp
  then show ?thesis by (simp only: unat_and_not_mask) simp
qed

text \<open>A statement about a byte, checked on all 256 of them.\<close>

lemma u8_all: "list_all (\<lambda>n. P (of_nat n)) [0..<256] \<Longrightarrow> P (b :: u8)"
proof -
  assume "list_all (\<lambda>n. P (of_nat n)) [0..<256]"
  then have a: "\<forall>n < 256. P (of_nat n)" by (simp add: list_all_iff)
  have "P (of_nat (unat b))" using a unat_u8_less by blast
  then show ?thesis by (simp add: ucast_id)
qed

subsection \<open>Big-endian numbers\<close>

definition be_val :: "bytes \<Rightarrow> nat" where
  "be_val bs = foldl (\<lambda>v b. v * 256 + unat b) 0 bs"

fun be_bytes :: "nat \<Rightarrow> nat \<Rightarrow> bytes" where
  "be_bytes 0 v = []"
| "be_bytes (Suc n) v = be_bytes n (v div 256) @ [of_nat (v mod 256)]"

lemma be_val_Nil [simp]: "be_val [] = 0"
  by (simp add: be_val_def)

lemma be_val_snoc [simp]: "be_val (bs @ [b]) = be_val bs * 256 + unat b"
  by (simp add: be_val_def)

lemma be_val_Cons: "be_val (b # bs) = unat b * 256 ^ length bs + be_val bs"
proof (induction bs rule: rev_induct)
  case (snoc x xs)
  then show ?case by (simp flip: append_Cons add: algebra_simps)
qed (simp add: be_val_def)

lemma be_val_append: "be_val (xs @ ys) = be_val xs * 256 ^ length ys + be_val ys"
  by (induction ys rule: rev_induct) (simp_all flip: append_assoc add: algebra_simps)

lemma be_val_less: "be_val bs < 256 ^ length bs"
proof (induction bs rule: rev_induct)
  case (snoc b bs)
  then have "be_val bs * 256 + unat b < 256 ^ length bs * 256"
    using unat_u8_less [of b] by linarith
  then show ?case by (simp add: mult.commute)
qed simp

lemma length_be_bytes [simp]: "length (be_bytes n v) = n"
  by (induction n arbitrary: v) auto

lemma unat_of_nat_mod256 [simp]: "unat (of_nat (v mod 256) :: u8) = v mod 256"
  by (simp add: unat_of_nat)

lemma be_val_be_bytes: "be_val (be_bytes n v) = v mod 256 ^ n"
proof (induction n arbitrary: v)
  case (Suc n)
  have "v div 256 mod 256 ^ n * 256 + v mod 256 = v mod (256 * 256 ^ n)"
    by (simp add: mod_mult2_eq mult.commute)
  with Suc show ?case by simp
qed simp

lemma be_val_be_bytes_id: "v < 256 ^ n \<Longrightarrow> be_val (be_bytes n v) = v"
  by (simp add: be_val_be_bytes)

lemma be_bytes_be_val: "be_bytes (length bs) (be_val bs) = bs"
proof (induction bs rule: rev_induct)
  case (snoc b bs)
  then show ?case by simp
qed simp

lemma be_bytes_unique: "length bs = n \<Longrightarrow> be_val bs = v \<Longrightarrow> be_bytes n v = bs"
  using be_bytes_be_val by blast

lemma be_val_cong: "length xs = length ys \<Longrightarrow> be_val xs = be_val ys \<Longrightarrow> xs = ys"
  by (metis be_bytes_be_val)

subsection \<open>Lists\<close>

lemma map_nth_upt_take: "n \<le> length xs \<Longrightarrow> map (\<lambda>i. xs ! i) [0..<n] = take n xs"
  by (rule nth_equalityI) auto

lemma foldl_upt_nth:
  "n \<le> length xs \<Longrightarrow> foldl (\<lambda>r i. f r (xs ! i)) a [0..<n] = foldl f a (take n xs)"
  by (simp add: map_nth_upt_take [symmetric] foldl_map)

lemma append_split:
  assumes "xs @ ys = zs @ rest" and "length xs \<le> length zs"
  obtains c where "zs = xs @ c" and "ys = c @ rest"
proof -
  have "zs = xs @ drop (length xs) zs" "ys = drop (length xs) zs @ rest"
    using assms by (auto simp: append_eq_append_conv_if split: if_splits)
      (metis append_take_drop_id)
  then show thesis by (rule that)
qed

lemma take_eq_imp_append_drop: "take n xs = ys \<Longrightarrow> xs = ys @ drop n xs"
  by auto

end
