(* ===== verification/Mem.thy ===== *)
theory Mem
  imports C_Prelude
begin

section \<open>Memory and string helpers (crypto/mem.c, crypto/internal.h)\<close>

text \<open>
  A block of memory is the list of its bytes, a pointer into a block the list of the bytes from
  there to the end of the block. The allocator of the C library is a state: \<open>next_ok\<close> says for each
  future call of \<open>malloc\<close> whether it succeeds, \<open>junk\<close> is the byte found in memory that has not been
  written yet. Nothing is assumed about either. A read past the end of a block is \<open>None\<close> (a fault)
  where a function of this file could make one.

  \<open>OPENSSL_malloc\<close>, \<open>OPENSSL_realloc\<close> follow the default branch of mem.c (the weak symbols
  \<open>OPENSSL_memory_alloc\<close>, \<open>sdallocx\<close> not overridden); the size prefix they keep in front of a block
  shows up as the length of the block.
\<close>

record allocator =
  next_ok :: "nat \<Rightarrow> bool"
  junk :: u8

definition malloc_turn :: "allocator \<Rightarrow> allocator" where
  "malloc_turn a = a\<lparr>next_ok := (\<lambda>i. next_ok a (Suc i))\<rparr>"

definition OPENSSL_malloc :: "size_t \<Rightarrow> allocator \<Rightarrow> bytes option \<times> allocator" where
  "OPENSSL_malloc sz a =
     (if sz + 8 < sz then (None, a)
      else if next_ok a 0 then (Some (replicate (unat sz) (junk a)), malloc_turn a)
      else (None, malloc_turn a))"

definition OPENSSL_realloc :: "bytes option \<Rightarrow> size_t \<Rightarrow> allocator \<Rightarrow> bytes option \<times> allocator" where
  "OPENSSL_realloc orig new_size a =
     (case orig of
        None \<Rightarrow> OPENSSL_malloc new_size a
      | Some old \<Rightarrow>
          and_then (OPENSSL_malloc new_size a) (\<lambda>ret a'.
            let to_copy = min (length old) (unat new_size)
            in (Some (take to_copy old @ drop to_copy ret), a')))"

definition OPENSSL_memdup :: "bytes \<Rightarrow> size_t \<Rightarrow> allocator \<Rightarrow> bytes option \<times> allocator" where
  "OPENSSL_memdup data sz a =
     (if sz = 0 then (None, a)
      else and_then (OPENSSL_malloc sz a) (\<lambda>ret a'.
             (Some (take (unat sz) data), a')))"

definition CRYPTO_memcmp :: "bytes \<Rightarrow> bytes \<Rightarrow> size_t \<Rightarrow> u8" where
  "CRYPTO_memcmp a b len = foldl (\<lambda>x i. x OR (a ! i XOR b ! i)) 0 [0..<unat len]"

definition OPENSSL_hash32 :: "bytes \<Rightarrow> size_t \<Rightarrow> u32" where
  "OPENSSL_hash32 ptr len =
     foldl (\<lambda>h i. (h XOR ucast (ptr ! i)) * 16777619) 2166136261 [0..<unat len]"

text \<open>\<open>strlen\<close> of the C library: \<open>None\<close> when the block holds no terminator.\<close>

fun strlen :: "bytes \<Rightarrow> nat option" where
  "strlen [] = None"
| "strlen (c # s) = (if c = 0 then Some 0 else map_option Suc (strlen s))"

definition OPENSSL_strhash :: "bytes \<Rightarrow> u32 option" where
  "OPENSSL_strhash s = map_option (\<lambda>n. OPENSSL_hash32 s (of_nat n)) (strlen s)"

text \<open>The loop of \<open>OPENSSL_strnlen\<close> from index \<open>i\<close> on, \<open>s\<close> being the bytes from there.\<close>

fun strnlen_from :: "size_t \<Rightarrow> bytes \<Rightarrow> size_t \<Rightarrow> size_t option" where
  "strnlen_from i [] len = (if i < len then None else Some len)"
| "strnlen_from i (c # s) len =
     (if i < len then if c = 0 then Some i else strnlen_from (i + 1) s len else Some len)"

definition OPENSSL_strnlen :: "bytes \<Rightarrow> size_t \<Rightarrow> size_t option" where
  "OPENSSL_strnlen s len = strnlen_from 0 s len"

definition OPENSSL_strndup :: "bytes \<Rightarrow> size_t \<Rightarrow> allocator \<Rightarrow> (bytes option \<times> allocator) option" where
  "OPENSSL_strndup str sz a =
     (case OPENSSL_strnlen str sz of
        None \<Rightarrow> None
      | Some sz' \<Rightarrow>
          let alloc_size = sz' + 1
          in if alloc_size < sz' then Some (None, a)
             else Some (and_then (OPENSSL_malloc alloc_size a) (\<lambda>ret a'.
                          (Some (take (unat sz') str @ [0]), a'))))"

definition OPENSSL_strdup :: "bytes option \<Rightarrow> allocator \<Rightarrow> (bytes option \<times> allocator) option" where
  "OPENSSL_strdup s a =
     (case s of
        None \<Rightarrow> Some (None, a)
      | Some str \<Rightarrow>
         (case strlen str of
            None \<Rightarrow> None
          | Some n \<Rightarrow>
              let len = of_nat n + 1
              in Some (and_then (OPENSSL_malloc len a) (\<lambda>ret a'.
                   (Some (take (unat len) str), a')))))"

text \<open>\<open>char\<close> is signed on the targets: \<open>sint\<close> gives the \<open>int\<close> a \<open>char\<close> is promoted to.\<close>

definition OPENSSL_tolower :: "int \<Rightarrow> int" where
  "OPENSSL_tolower c = (if 65 \<le> c \<and> c \<le> 90 then c + (97 - 65) else c)"

fun OPENSSL_strcasecmp :: "bytes \<Rightarrow> bytes \<Rightarrow> int option" where
  "OPENSSL_strcasecmp (a # as) (b # bs) =
     (let aa = OPENSSL_tolower (sint a); bb = OPENSSL_tolower (sint b)
      in if aa < bb then Some (-1) else if aa > bb then Some 1
         else if aa = 0 then Some 0 else OPENSSL_strcasecmp as bs)"
| "OPENSSL_strcasecmp _ _ = None"

fun OPENSSL_strncasecmp :: "bytes \<Rightarrow> bytes \<Rightarrow> nat \<Rightarrow> int option" where
  "OPENSSL_strncasecmp _ _ 0 = Some 0"
| "OPENSSL_strncasecmp (a # as) (b # bs) (Suc n) =
     (let aa = OPENSSL_tolower (sint a); bb = OPENSSL_tolower (sint b)
      in if aa < bb then Some (-1) else if aa > bb then Some 1
         else if aa = 0 then Some 0 else OPENSSL_strncasecmp as bs n)"
| "OPENSSL_strncasecmp _ _ (Suc n) = None"

text \<open>
  \<open>OPENSSL_strlcpy\<close> and \<open>OPENSSL_strlcat\<close> return the length they tried to make and the destination
  block afterwards; \<open>dst_size\<close> counts down in the loop as in the source.
\<close>

fun strlcpy_from :: "bytes \<Rightarrow> bytes \<Rightarrow> nat \<Rightarrow> (nat \<times> bytes) option" where
  "strlcpy_from dst [] dst_size = None"
| "strlcpy_from dst (c # src) dst_size =
     (if 1 < dst_size \<and> c \<noteq> 0
      then (case dst of
              [] \<Rightarrow> None
            | d # ds \<Rightarrow> map_option (\<lambda>(l, ds'). (Suc l, c # ds')) (strlcpy_from ds src (dst_size - 1)))
      else case strlen (c # src) of
             None \<Rightarrow> None
           | Some n \<Rightarrow>
               if dst_size = 0 then Some (n, dst)
               else (case dst of [] \<Rightarrow> None | d # ds \<Rightarrow> Some (n, 0 # ds)))"

definition OPENSSL_strlcpy :: "bytes \<Rightarrow> bytes \<Rightarrow> size_t \<Rightarrow> (nat \<times> bytes) option" where
  "OPENSSL_strlcpy dst src dst_size = strlcpy_from dst src (unat dst_size)"

fun strlcat_from :: "bytes \<Rightarrow> bytes \<Rightarrow> nat \<Rightarrow> (nat \<times> bytes) option" where
  "strlcat_from dst src 0 = strlcpy_from dst src 0"
| "strlcat_from [] src (Suc n) = None"
| "strlcat_from (d # ds) src (Suc n) =
     (if d \<noteq> 0 then map_option (\<lambda>(l, ds'). (Suc l, d # ds')) (strlcat_from ds src n)
      else strlcpy_from (d # ds) src (Suc n))"

definition OPENSSL_strlcat :: "bytes \<Rightarrow> bytes \<Rightarrow> size_t \<Rightarrow> (nat \<times> bytes) option" where
  "OPENSSL_strlcat dst src dst_size = strlcat_from dst src (unat dst_size)"

text \<open>\<open>memchr\<close> gives the offset of the first match, \<open>memcmp\<close> the sign of the first difference.\<close>

definition OPENSSL_memchr :: "bytes \<Rightarrow> u8 \<Rightarrow> size_t \<Rightarrow> nat option" where
  "OPENSSL_memchr s c n = find (\<lambda>i. s ! i = c) [0..<unat n]"

fun memcmp :: "bytes \<Rightarrow> bytes \<Rightarrow> nat \<Rightarrow> int" where
  "memcmp (a # as) (b # bs) (Suc n) =
     (if a < b then -1 else if b < a then 1 else memcmp as bs n)"
| "memcmp _ _ _ = 0"

definition OPENSSL_memcmp :: "bytes \<Rightarrow> bytes \<Rightarrow> size_t \<Rightarrow> int" where
  "OPENSSL_memcmp s1 s2 n = memcmp s1 s2 (unat n)"

definition CRYPTO_bswap2 :: "u16 \<Rightarrow> u16" where
  "CRYPTO_bswap2 x = drop_bit 8 x OR push_bit 8 x"

definition CRYPTO_bswap4 :: "u32 \<Rightarrow> u32" where
  "CRYPTO_bswap4 x =
     (let x = drop_bit 16 x OR push_bit 16 x
      in drop_bit 8 (x AND 0xff00ff00) OR push_bit 8 (x AND 0x00ff00ff))"

definition CRYPTO_bswap8 :: "u64 \<Rightarrow> u64" where
  "CRYPTO_bswap8 x =
     ucast (CRYPTO_bswap4 (ucast (drop_bit 32 x))) OR push_bit 32 (ucast (CRYPTO_bswap4 (ucast x)))"

end
