(* ===== verification/Cbs.thy ===== *)
theory Cbs
  imports Mem
begin

section \<open>CBS: reading byte strings and DER (crypto/bytestring/cbs.c)\<close>

text \<open>
  A \<open>CBS\<close> is the C struct: \<open>cbs_data\<close> is the memory from the pointer \<open>data\<close> on, \<open>cbs_len\<close> the field
  \<open>len\<close>. The struct is sound (\<open>cbs_ok\<close>) when \<open>len\<close> bytes are there to be read; \<open>cbs_bytes\<close> is the byte
  string it stands for. Every reader returns its out-parameters and the \<open>CBS\<close> it leaves.
  A NULL out-parameter of the source is a result the caller ignores.
\<close>

record cbs =
  cbs_data :: bytes
  cbs_len :: size_t

definition cbs_ok :: "cbs \<Rightarrow> bool" where
  "cbs_ok c \<longleftrightarrow> unat (cbs_len c) \<le> length (cbs_data c)"

definition cbs_bytes :: "cbs \<Rightarrow> bytes" where
  "cbs_bytes c = take (unat (cbs_len c)) (cbs_data c)"

definition CBS_init :: "bytes \<Rightarrow> size_t \<Rightarrow> cbs" where
  "CBS_init data len = \<lparr>cbs_data = data, cbs_len = len\<rparr>"

definition cbs_get :: "cbs \<Rightarrow> size_t \<Rightarrow> bytes option \<times> cbs" where
  "cbs_get c n =
     (if cbs_len c < n then (None, c)
      else (Some (cbs_data c),
            c\<lparr>cbs_data := drop (unat n) (cbs_data c), cbs_len := cbs_len c - n\<rparr>))"

definition CBS_skip :: "cbs \<Rightarrow> size_t \<Rightarrow> unit option \<times> cbs" where
  "CBS_skip c len = and_then (cbs_get c len) (\<lambda>dummy c'. (Some (), c'))"

text \<open>
  \<open>CBS_stow\<close> and \<open>CBS_strdup\<close> copy into fresh memory. The result of \<open>CBS_stow\<close> is the return value,
  \<open>*out_ptr\<close> and \<open>*out_len\<close>.
\<close>

definition CBS_stow :: "cbs \<Rightarrow> allocator \<Rightarrow> (bool \<times> bytes option \<times> size_t) \<times> allocator" where
  "CBS_stow c a =
     (if cbs_len c = 0 then ((True, None, 0), a)
      else case OPENSSL_memdup (cbs_data c) (cbs_len c) a of
             (None, a') \<Rightarrow> ((False, None, 0), a')
           | (Some p, a') \<Rightarrow> ((True, Some p, cbs_len c), a'))"

definition CBS_strdup :: "cbs \<Rightarrow> allocator \<Rightarrow> (bytes option \<times> allocator) option" where
  "CBS_strdup c a = OPENSSL_strndup (cbs_data c) (cbs_len c) a"

definition CBS_contains_zero_byte :: "cbs \<Rightarrow> bool" where
  "CBS_contains_zero_byte c \<longleftrightarrow> OPENSSL_memchr (cbs_data c) 0 (cbs_len c) \<noteq> None"

definition CBS_mem_equal :: "cbs \<Rightarrow> bytes \<Rightarrow> size_t \<Rightarrow> bool" where
  "CBS_mem_equal c data len \<longleftrightarrow>
     (if len \<noteq> cbs_len c then False else CRYPTO_memcmp (cbs_data c) data len = 0)"

subsection \<open>Fixed-width integers\<close>

definition cbs_get_u :: "cbs \<Rightarrow> size_t \<Rightarrow> u64 option \<times> cbs" where
  "cbs_get_u c len =
     and_then (cbs_get c len) (\<lambda>data c'.
       (Some (foldl (\<lambda>result i. push_bit 8 result OR ucast (data ! i)) 0 [0..<unat len]), c'))"

definition CBS_get_u8 :: "cbs \<Rightarrow> u8 option \<times> cbs" where
  "CBS_get_u8 c = and_then (cbs_get c 1) (\<lambda>v c'. (Some (v ! 0), c'))"

definition CBS_get_u16 :: "cbs \<Rightarrow> u16 option \<times> cbs" where
  "CBS_get_u16 c = and_then (cbs_get_u c 2) (\<lambda>v c'. (Some (ucast v), c'))"

definition CBS_get_u16le :: "cbs \<Rightarrow> u16 option \<times> cbs" where
  "CBS_get_u16le c = and_then (CBS_get_u16 c) (\<lambda>v c'. (Some (CRYPTO_bswap2 v), c'))"

definition CBS_get_u24 :: "cbs \<Rightarrow> u32 option \<times> cbs" where
  "CBS_get_u24 c = and_then (cbs_get_u c 3) (\<lambda>v c'. (Some (ucast v), c'))"

definition CBS_get_u32 :: "cbs \<Rightarrow> u32 option \<times> cbs" where
  "CBS_get_u32 c = and_then (cbs_get_u c 4) (\<lambda>v c'. (Some (ucast v), c'))"

definition CBS_get_u32le :: "cbs \<Rightarrow> u32 option \<times> cbs" where
  "CBS_get_u32le c = and_then (CBS_get_u32 c) (\<lambda>v c'. (Some (CRYPTO_bswap4 v), c'))"

definition CBS_get_u64 :: "cbs \<Rightarrow> u64 option \<times> cbs" where
  "CBS_get_u64 c = cbs_get_u c 8"

definition CBS_get_u64le :: "cbs \<Rightarrow> u64 option \<times> cbs" where
  "CBS_get_u64le c = and_then (cbs_get_u c 8) (\<lambda>v c'. (Some (CRYPTO_bswap8 v), c'))"

definition CBS_get_last_u8 :: "cbs \<Rightarrow> u8 option \<times> cbs" where
  "CBS_get_last_u8 c =
     (if cbs_len c = 0 then (None, c)
      else (Some (cbs_data c ! unat (cbs_len c - 1)), c\<lparr>cbs_len := cbs_len c - 1\<rparr>))"

subsection \<open>Substrings\<close>

definition CBS_get_bytes :: "cbs \<Rightarrow> size_t \<Rightarrow> cbs option \<times> cbs" where
  "CBS_get_bytes c len = and_then (cbs_get c len) (\<lambda>v c'. (Some (CBS_init v len), c'))"

definition CBS_copy_bytes :: "cbs \<Rightarrow> size_t \<Rightarrow> bytes option \<times> cbs" where
  "CBS_copy_bytes c len = and_then (cbs_get c len) (\<lambda>v c'. (Some (take (unat len) v), c'))"

definition cbs_get_length_prefixed :: "cbs \<Rightarrow> size_t \<Rightarrow> cbs option \<times> cbs" where
  "cbs_get_length_prefixed c len_len =
     and_then (cbs_get_u c len_len) (\<lambda>len c'. CBS_get_bytes c' len)"

definition CBS_get_u8_length_prefixed :: "cbs \<Rightarrow> cbs option \<times> cbs" where
  "CBS_get_u8_length_prefixed c = cbs_get_length_prefixed c 1"

definition CBS_get_u16_length_prefixed :: "cbs \<Rightarrow> cbs option \<times> cbs" where
  "CBS_get_u16_length_prefixed c = cbs_get_length_prefixed c 2"

definition CBS_get_u24_length_prefixed :: "cbs \<Rightarrow> cbs option \<times> cbs" where
  "CBS_get_u24_length_prefixed c = cbs_get_length_prefixed c 3"

definition CBS_get_until_first :: "cbs \<Rightarrow> u8 \<Rightarrow> cbs option \<times> cbs" where
  "CBS_get_until_first c x =
     (case OPENSSL_memchr (cbs_data c) x (cbs_len c) of
        None \<Rightarrow> (None, c)
      | Some split \<Rightarrow> CBS_get_bytes c (of_nat split))"

subsection \<open>Readers refine parsers of byte lists\<close>

text \<open>
  \<open>cbs_view c bs\<close>: the struct is sound and stands for \<open>bs\<close>. A parser is a function from bytes to a
  result and the bytes it leaves, or \<open>None\<close>. \<open>refines R r p\<close>: the outcome \<open>r\<close> of a C reader is the one
  the parser outcome \<open>p\<close> describes, their results related by \<open>R\<close>; after a failure the struct is still
  sound. Every reader of this file refines a parser, so its memory safety and its meaning are proved
  together, and properties are then proved about the parsers.
\<close>

type_synonym 'a parse = "('a \<times> bytes) option"

definition cbs_view :: "cbs \<Rightarrow> bytes \<Rightarrow> bool" where
  "cbs_view c bs \<longleftrightarrow> cbs_ok c \<and> cbs_bytes c = bs"

definition refines :: "('a \<Rightarrow> 'b \<Rightarrow> bool) \<Rightarrow> 'a option \<times> cbs \<Rightarrow> 'b parse \<Rightarrow> bool" where
  "refines R r p \<longleftrightarrow>
     (case r of
        (None, c) \<Rightarrow> p = None \<and> cbs_ok c
      | (Some x, c) \<Rightarrow> (\<exists>y bs. p = Some (y, bs) \<and> R x y \<and> cbs_view c bs))"

lemma cbs_view_self: "cbs_ok c \<Longrightarrow> cbs_view c (cbs_bytes c)"
  by (simp add: cbs_view_def)

lemma cbs_view_ok: "cbs_view c bs \<Longrightarrow> cbs_ok c"
  by (simp add: cbs_view_def)

lemma cbs_view_len: "cbs_view c bs \<Longrightarrow> unat (cbs_len c) = length bs"
  by (auto simp: cbs_view_def cbs_ok_def cbs_bytes_def)

lemma cbs_view_bound: "cbs_view c bs \<Longrightarrow> length bs < 2 ^ 64"
  using cbs_view_len [of c bs] unat_lt_len [of "cbs_len c"] by simp

lemma cbs_view_init:
  "length bs < 2 ^ 64 \<Longrightarrow> cbs_view (CBS_init bs (of_nat (length bs))) bs"
  by (simp add: cbs_view_def cbs_ok_def cbs_bytes_def CBS_init_def unat_of_nat)

lemma cbs_view_data: "cbs_view c bs \<Longrightarrow> take (length bs) (cbs_data c) = bs \<and> length bs \<le> length (cbs_data c)"
  by (auto simp: cbs_view_def cbs_ok_def cbs_bytes_def)

lemma cbs_view_nth: "cbs_view c bs \<Longrightarrow> i < length bs \<Longrightarrow> cbs_data c ! i = bs ! i"
  by (metis cbs_view_data nth_take)

lemma refines_None [simp]: "refines R (None, c) p \<longleftrightarrow> p = None \<and> cbs_ok c"
  by (simp add: refines_def)

lemma refines_Some [simp]:
  "refines R (Some x, c) p \<longleftrightarrow> (\<exists>y bs. p = Some (y, bs) \<and> R x y \<and> cbs_view c bs)"
  by (simp add: refines_def)

lemma refines_SomeD: "refines R r (Some (y, bs)) \<Longrightarrow> \<exists>x c. r = (Some x, c) \<and> R x y \<and> cbs_view c bs"
  by (cases r; cases "fst r") (auto simp: refines_def)

lemma refines_NoneD: "refines R r None \<Longrightarrow> \<exists>c. r = (None, c) \<and> cbs_ok c"
  by (cases r; cases "fst r") (auto simp: refines_def)

lemma refines_mono: "refines R r p \<Longrightarrow> (\<And>x y. R x y \<Longrightarrow> Q x y) \<Longrightarrow> refines Q r p"
  by (auto simp: refines_def split: prod.splits option.splits)

lemma refines_ok: "refines R r p \<Longrightarrow> cbs_ok (snd r)"
  by (auto simp: refines_def cbs_view_def split: prod.splits option.splits)

lemma refines_bind:
  assumes "refines R r p"
    and "\<And>x c y bs. R x y \<Longrightarrow> cbs_view c bs \<Longrightarrow> p = Some (y, bs) \<Longrightarrow> refines Q (f x c) (g (y, bs))"
  shows "refines Q (and_then r f) (Option.bind p g)"
proof (cases p)
  case None
  with assms(1) show ?thesis by (auto dest!: refines_NoneD)
next
  case (Some a)
  with assms(1) obtain x c where "r = (Some x, c)" "R x (fst a)" "cbs_view c (snd a)"
    by (cases a) (auto dest!: refines_SomeD)
  with Some assms(2) [of x "fst a" c "snd a"] show ?thesis by simp
qed

lemma refines_map:
  assumes "refines R r p" and "\<And>x y. R x y \<Longrightarrow> Q (f x) (g y)"
  shows "refines Q (and_then r (\<lambda>x c. (Some (f x), c))) (map_option (\<lambda>(y, bs). (g y, bs)) p)"
  using assms by (auto simp: refines_def and_then_def split: prod.splits option.splits)

text \<open>The parsers of the basic readers.\<close>

definition p_take :: "nat \<Rightarrow> bytes \<Rightarrow> bytes parse" where
  "p_take n bs = (if n \<le> length bs then Some (take n bs, drop n bs) else None)"

definition p_uint :: "nat \<Rightarrow> bytes \<Rightarrow> nat parse" where
  "p_uint n bs = map_option (\<lambda>(xs, bs'). (be_val xs, bs')) (p_take n bs)"

fun p_u8 :: "bytes \<Rightarrow> u8 parse" where
  "p_u8 [] = None"
| "p_u8 (b # bs) = Some (b, bs)"

lemma p_take_Some_iff: "p_take n bs = Some (xs, bs') \<longleftrightarrow> bs = xs @ bs' \<and> length xs = n"
  by (auto simp: p_take_def)

lemma p_take_None_iff: "p_take n bs = None \<longleftrightarrow> length bs < n"
  by (auto simp: p_take_def)

lemma p_u8_Some_iff [simp]: "p_u8 bs = Some (b, bs') \<longleftrightarrow> bs = b # bs'"
  by (cases bs) auto

lemma p_u8_None_iff [simp]: "p_u8 bs = None \<longleftrightarrow> bs = []"
  by (cases bs) auto

lemma p_uint_Some_iff:
  "p_uint n bs = Some (v, bs') \<longleftrightarrow> (\<exists>xs. bs = xs @ bs' \<and> length xs = n \<and> v = be_val xs)"
  by (auto simp: p_uint_def p_take_Some_iff)

lemma cbs_get_refines:
  assumes "cbs_view c bs"
  shows "refines (\<lambda>p xs. take (unat n) p = xs \<and> unat n \<le> length p) (cbs_get c n) (p_take (unat n) bs)"
proof (cases "unat n \<le> length bs")
  case True
  have l: "unat (cbs_len c) = length bs" using assms by (rule cbs_view_len)
  have le: "n \<le> cbs_len c" using True l by (simp add: word_le_nat_alt)
  note d = cbs_view_data [OF assms]
  have "take (length bs - unat n) (drop (unat n) (cbs_data c)) = drop (unat n) bs"
    by (metis d drop_take)
  then have "cbs_view (c\<lparr>cbs_data := drop (unat n) (cbs_data c), cbs_len := cbs_len c - n\<rparr>) (drop (unat n) bs)"
    using d True le l by (auto simp: cbs_view_def cbs_ok_def cbs_bytes_def unat_sub)
  moreover have "take (unat n) (cbs_data c) = take (unat n) bs"
    by (metis True d min.absorb1 take_take)
  ultimately show ?thesis
    using d True le by (auto simp: cbs_get_def p_take_def not_less)
next
  case False
  then show ?thesis
    using assms by (auto simp: cbs_get_def p_take_def word_less_nat_alt cbs_view_len cbs_view_def)
qed

lemma cbs_get_u_refines:
  assumes "cbs_view c bs" and "unat len \<le> 8"
  shows "refines (\<lambda>v n. unat v = n) (cbs_get_u c len) (p_uint (unat len) bs)"
proof -
  have fold: "unat (foldl (\<lambda>r b. push_bit 8 r OR ucast b) (0 :: u64) xs) = be_val xs"
    if "length xs \<le> 8" for xs :: bytes
    using that
  proof (induction xs rule: rev_induct)
    case (snoc b xs)
    have "(256::nat) ^ length xs \<le> 256 ^ 7"
      using snoc.prems by (intro power_increasing) auto
    with be_val_less [of xs] have "be_val xs < 256 ^ 7" by linarith
    with snoc show ?case by (simp add: unat_shl_or)
  qed simp
  show ?thesis
    unfolding cbs_get_u_def p_uint_def
    using assms(2)
    by (intro refines_map [OF cbs_get_refines [OF assms(1)]])
      (auto simp: foldl_upt_nth [of _ _ "\<lambda>r b. push_bit 8 r OR ucast b"] fold)
qed

lemma CBS_get_u8_refines: "cbs_view c bs \<Longrightarrow> refines (=) (CBS_get_u8 c) (p_u8 bs)"
  using cbs_get_refines [of c bs 1] unfolding CBS_get_u8_def
  by (cases bs) (auto simp: refines_def and_then_def p_take_def take_Suc neq_Nil_conv Suc_le_length_iff
      split: prod.splits option.splits)

text \<open>Casting the 64-bit accumulator down loses nothing: the value has at most \<open>n\<close> bytes.\<close>

lemma p_uint_less: "p_uint n bs = Some (v, bs') \<Longrightarrow> v < 256 ^ n"
  using be_val_less by (auto simp: p_uint_Some_iff)

lemma refines_uint_cast:
  assumes "refines (\<lambda>v n. unat v = n) r (p_uint k bs)" and "256 ^ k \<le> (2::nat) ^ LENGTH('a)"
  shows "refines (\<lambda>(v :: 'a::len word) n. unat v = n) (and_then r (\<lambda>v c. (Some (ucast (v :: u64)), c)))
    (p_uint k bs)"
proof (cases "p_uint k bs")
  case None
  with assms(1) show ?thesis by (auto dest!: refines_NoneD)
next
  case (Some a)
  with assms(1) obtain v c where r: "r = (Some v, c)" "unat v = fst a" "cbs_view c (snd a)"
    by (cases a) (auto dest!: refines_SomeD)
  have "fst a < 256 ^ k" using Some p_uint_less by (cases a) auto
  with r assms(2) have "unat (ucast v :: 'a word) = fst a" by (simp add: unat_ucast_mod)
  with r Some show ?thesis by (cases a) auto
qed

lemma CBS_get_u16_refines: "cbs_view c bs \<Longrightarrow> refines (\<lambda>v n. unat v = n) (CBS_get_u16 c) (p_uint 2 bs)"
  using cbs_get_u_refines [of c bs 2] unfolding CBS_get_u16_def by (intro refines_uint_cast) auto

lemma CBS_get_u24_refines: "cbs_view c bs \<Longrightarrow> refines (\<lambda>v n. unat v = n) (CBS_get_u24 c) (p_uint 3 bs)"
  using cbs_get_u_refines [of c bs 3] unfolding CBS_get_u24_def by (intro refines_uint_cast) auto

lemma CBS_get_u32_refines: "cbs_view c bs \<Longrightarrow> refines (\<lambda>v n. unat v = n) (CBS_get_u32 c) (p_uint 4 bs)"
  using cbs_get_u_refines [of c bs 4] unfolding CBS_get_u32_def by (intro refines_uint_cast) auto

lemma CBS_get_u64_refines: "cbs_view c bs \<Longrightarrow> refines (\<lambda>v n. unat v = n) (CBS_get_u64 c) (p_uint 8 bs)"
  using cbs_get_u_refines [of c bs 8] unfolding CBS_get_u64_def by simp

lemma cbs_view_of_prefix:
  "take (unat n) p = xs \<Longrightarrow> unat n \<le> length p \<Longrightarrow> cbs_view (CBS_init p n) xs"
  by (simp add: cbs_view_def cbs_ok_def cbs_bytes_def CBS_init_def)

lemma CBS_get_bytes_refines:
  "cbs_view c bs \<Longrightarrow> refines cbs_view (CBS_get_bytes c n) (p_take (unat n) bs)"
  using cbs_get_refines [of c bs n] unfolding CBS_get_bytes_def
  by (auto simp: refines_def and_then_def cbs_view_of_prefix split: prod.splits option.splits)

lemma CBS_copy_bytes_refines:
  "cbs_view c bs \<Longrightarrow> refines (=) (CBS_copy_bytes c n) (p_take (unat n) bs)"
  using cbs_get_refines [of c bs n] unfolding CBS_copy_bytes_def
  by (auto simp: refines_def and_then_def split: prod.splits option.splits)

lemma CBS_skip_refines:
  "cbs_view c bs \<Longrightarrow> refines (\<lambda>_ _. True) (CBS_skip c n) (p_take (unat n) bs)"
  using cbs_get_refines [of c bs n] unfolding CBS_skip_def
  by (auto simp: refines_def and_then_def split: prod.splits option.splits)

definition p_prefixed :: "nat \<Rightarrow> bytes \<Rightarrow> bytes parse" where
  "p_prefixed k bs = Option.bind (p_uint k bs) (\<lambda>(n, bs'). p_take n bs')"

lemma cbs_get_length_prefixed_refines:
  assumes "cbs_view c bs" and "unat k \<le> 3"
  shows "refines cbs_view (cbs_get_length_prefixed c k) (p_prefixed (unat k) bs)"
  unfolding cbs_get_length_prefixed_def p_prefixed_def
  using assms(2)
  by (intro refines_bind [OF cbs_get_u_refines [OF assms(1)]]) (auto dest: CBS_get_bytes_refines)

lemma p_prefixed_Some_iff:
  "p_prefixed k bs = Some (xs, bs') \<longleftrightarrow> length xs < 256 ^ k \<and> bs = be_bytes k (length xs) @ xs @ bs'"
proof
  assume "p_prefixed k bs = Some (xs, bs')"
  then obtain hd where h: "length hd = k" "be_val hd = length xs" "bs = hd @ xs @ bs'"
    by (auto simp: p_prefixed_def bind_eq_Some_conv p_uint_Some_iff p_take_Some_iff)
  then show "length xs < 256 ^ k \<and> bs = be_bytes k (length xs) @ xs @ bs'"
    using be_val_less [of hd] be_bytes_unique [of hd k "length xs"] by auto
next
  assume a: "length xs < 256 ^ k \<and> bs = be_bytes k (length xs) @ xs @ bs'"
  then have "p_uint k bs = Some (length xs, xs @ bs')"
    unfolding p_uint_Some_iff by (intro exI [of _ "be_bytes k (length xs)"]) (simp add: be_val_be_bytes_id)
  then show "p_prefixed k bs = Some (xs, bs')"
    by (simp add: p_prefixed_def p_take_Some_iff)
qed

lemma CBS_get_last_u8_spec:
  assumes "cbs_view c bs"
  shows "CBS_get_last_u8 c = (None, c) \<and> bs = [] \<or>
    (\<exists>b c' xs. CBS_get_last_u8 c = (Some b, c') \<and> bs = xs @ [b] \<and> cbs_view c' xs)"
proof (cases "bs = []")
  case True
  with assms show ?thesis by (auto simp: CBS_get_last_u8_def dest: cbs_view_len simp flip: unat_eq_0)
next
  case False
  then obtain xs b where bs: "bs = xs @ [b]" by (metis rev_exhaust)
  with assms have l: "unat (cbs_len c) = Suc (length xs)" by (auto dest: cbs_view_len)
  then have nz: "cbs_len c \<noteq> 0" by auto
  then have l1: "unat (cbs_len c - 1) = length xs" using l by (simp add: unat_minus_one)
  have "cbs_view (c\<lparr>cbs_len := cbs_len c - 1\<rparr>) xs"
    using cbs_view_data [OF assms] l1 bs
    by (auto simp: cbs_view_def cbs_ok_def cbs_bytes_def) (metis append_take_drop_id append_same_eq
        append_eq_conv_conj butlast_snoc take_butlast Suc_le_eq butlast_take diff_Suc_1 le_SucI lessI)
  moreover have "cbs_data c ! unat (cbs_len c - 1) = b"
    using cbs_view_nth [OF assms, of "length xs"] bs l1 by simp
  ultimately show ?thesis using nz bs by (auto simp: CBS_get_last_u8_def)
qed

subsection \<open>The interface of the readers\<close>

text \<open>
  What the clients of the byte string library rely on: a reader \<open>read\<close> accepts exactly the encodings
  \<open>enc v\<close> of the valid values \<open>v\<close> of its type, whatever follows them, and leaves what follows. The
  results of the C function are related to the values by \<open>R\<close>. The lemmas of the locale are the
  consequences for the C function: exactness, round trip, unique decoding and failure.
\<close>

locale cbs_codec =
  fixes read :: "cbs \<Rightarrow> 'a option \<times> cbs"
    and R :: "'a \<Rightarrow> 'b \<Rightarrow> bool"
    and parse :: "bytes \<Rightarrow> 'b parse"
    and enc :: "'b \<Rightarrow> bytes"
    and valid :: "'b \<Rightarrow> bool"
  assumes read_refines: "cbs_view c bs \<Longrightarrow> refines R (read c) (parse bs)"
    and parse_iff: "parse bs = Some (v, rest) \<longleftrightarrow> valid v \<and> bs = enc v @ rest"
begin

lemma prefix_free: "valid v \<Longrightarrow> valid w \<Longrightarrow> enc v @ r = enc w @ s \<Longrightarrow> v = w \<and> r = s"
  using parse_iff [of "enc v @ r" v r] parse_iff [of "enc v @ r" w s] by simp

lemma read_enc:
  "cbs_view c (enc v @ rest) \<Longrightarrow> valid v \<Longrightarrow> \<exists>x c'. read c = (Some x, c') \<and> R x v \<and> cbs_view c' rest"
  using read_refines [of c "enc v @ rest"] parse_iff [of "enc v @ rest" v rest]
  by (auto dest!: refines_SomeD)

lemma read_sound:
  assumes "cbs_view c bs" and "read c = (Some x, c')"
  obtains v rest where "R x v" "valid v" "bs = enc v @ rest" "cbs_view c' rest"
  using read_refines [OF assms(1)] assms(2) by (auto simp: parse_iff)

lemma read_iff:
  assumes "cbs_view c bs" and "\<And>x v w. R x v \<Longrightarrow> R x w \<Longrightarrow> v = w"
  shows "(\<exists>x c'. read c = (Some x, c') \<and> R x v \<and> cbs_view c' rest) \<longleftrightarrow> valid v \<and> bs = enc v @ rest"
proof
  assume "\<exists>x c'. read c = (Some x, c') \<and> R x v \<and> cbs_view c' rest"
  then obtain x c' where x: "read c = (Some x, c')" "R x v" "cbs_view c' rest" by blast
  obtain w r where "R x w" "valid w" "bs = enc w @ r" "cbs_view c' r"
    using read_sound [OF assms(1) x(1)] .
  with x assms(2) show "valid v \<and> bs = enc v @ rest" by (auto simp: cbs_view_def)
next
  assume "valid v \<and> bs = enc v @ rest"
  then show "\<exists>x c'. read c = (Some x, c') \<and> R x v \<and> cbs_view c' rest"
    using read_enc assms(1) by blast
qed

lemma read_fails:
  assumes "cbs_view c bs"
  shows "fst (read c) = None \<longleftrightarrow> (\<forall>v rest. valid v \<longrightarrow> bs \<noteq> enc v @ rest)"
proof (cases "parse bs")
  case None
  then have "\<not> (valid v \<and> bs = enc v @ rest)" for v rest by (simp flip: parse_iff)
  with None show ?thesis using read_refines [OF assms] by (auto dest!: refines_NoneD)
next
  case (Some a)
  then have "valid (fst a) \<and> bs = enc (fst a) @ snd a" by (simp flip: parse_iff)
  with Some show ?thesis using read_refines [OF assms] by (cases a) (auto dest!: refines_SomeD)
qed

lemma read_ok: "cbs_view c bs \<Longrightarrow> cbs_ok (snd (read c))"
  using read_refines refines_ok by blast

end

lemma p_uint_iff: "p_uint n bs = Some (v, rest) \<longleftrightarrow> v < 256 ^ n \<and> bs = be_bytes n v @ rest"
proof
  assume "p_uint n bs = Some (v, rest)"
  then show "v < 256 ^ n \<and> bs = be_bytes n v @ rest"
    using be_val_less be_bytes_unique by (auto simp: p_uint_Some_iff)
next
  assume "v < 256 ^ n \<and> bs = be_bytes n v @ rest"
  then show "p_uint n bs = Some (v, rest)"
    unfolding p_uint_Some_iff by (intro exI [of _ "be_bytes n v"]) (simp add: be_val_be_bytes_id)
qed

interpretation r_u8: cbs_codec CBS_get_u8 "(=)" p_u8 "\<lambda>b. [b]" "\<lambda>_. True"
  by unfold_locales (auto simp: CBS_get_u8_refines)

interpretation r_u16: cbs_codec CBS_get_u16 "\<lambda>v n. unat v = n" "p_uint 2" "be_bytes 2" "\<lambda>v. v < 256 ^ 2"
  by unfold_locales (auto simp: CBS_get_u16_refines p_uint_iff)

interpretation r_u24: cbs_codec CBS_get_u24 "\<lambda>v n. unat v = n" "p_uint 3" "be_bytes 3" "\<lambda>v. v < 256 ^ 3"
  by unfold_locales (auto simp: CBS_get_u24_refines p_uint_iff)

interpretation r_u32: cbs_codec CBS_get_u32 "\<lambda>v n. unat v = n" "p_uint 4" "be_bytes 4" "\<lambda>v. v < 256 ^ 4"
  by unfold_locales (auto simp: CBS_get_u32_refines p_uint_iff)

interpretation r_u64: cbs_codec CBS_get_u64 "\<lambda>v n. unat v = n" "p_uint 8" "be_bytes 8" "\<lambda>v. v < 256 ^ 8"
  by unfold_locales (auto simp: CBS_get_u64_refines p_uint_iff)

definition prefixed_enc :: "nat \<Rightarrow> bytes \<Rightarrow> bytes" where
  "prefixed_enc k xs = be_bytes k (length xs) @ xs"

interpretation r_p8: cbs_codec CBS_get_u8_length_prefixed cbs_view "p_prefixed 1" "prefixed_enc 1"
    "\<lambda>xs. length xs < 256 ^ 1"
  using cbs_get_length_prefixed_refines [where k = 1]
  by unfold_locales (auto simp: CBS_get_u8_length_prefixed_def p_prefixed_Some_iff prefixed_enc_def)

interpretation r_p16: cbs_codec CBS_get_u16_length_prefixed cbs_view "p_prefixed 2" "prefixed_enc 2"
    "\<lambda>xs. length xs < 256 ^ 2"
  using cbs_get_length_prefixed_refines [where k = 2]
  by unfold_locales (auto simp: CBS_get_u16_length_prefixed_def p_prefixed_Some_iff prefixed_enc_def)

interpretation r_p24: cbs_codec CBS_get_u24_length_prefixed cbs_view "p_prefixed 3" "prefixed_enc 3"
    "\<lambda>xs. length xs < 256 ^ 3"
  using cbs_get_length_prefixed_refines [where k = 3]
  by unfold_locales (auto simp: CBS_get_u24_length_prefixed_def p_prefixed_Some_iff prefixed_enc_def)

lemma cbs_view_unique: "cbs_view x v \<Longrightarrow> cbs_view x w \<Longrightarrow> v = w"
  by (simp add: cbs_view_def)

end
