(* ===== verification/Der.thy ===== *)
theory Der
  imports Cbs
begin

section \<open>CBS: parsing DER and BER elements (crypto/bytestring/cbs.c)\<close>

text \<open>
  Tags are the 32-bit values of bytestring.h: the class and constructed bits in the top three bits,
  the tag number below. The readers of this file are followed by the encodings they accept:
  \<open>base128_enc\<close>, \<open>tag_enc\<close>, \<open>len_enc\<close> and \<open>der_enc\<close> are the DER encodings of ITU-T X.690, and the
  theorems say that each reader accepts exactly those (\<open>CBS_get_any_asn1_element\<close> accepts one
  encoding per element and no other).
\<close>

definition CBS_ASN1_CONSTRUCTED :: u32 where "CBS_ASN1_CONSTRUCTED = push_bit 24 0x20"
definition CBS_ASN1_TAG_NUMBER_MASK :: u32 where "CBS_ASN1_TAG_NUMBER_MASK = push_bit 29 1 - 1"
definition CBS_ASN1_BOOLEAN :: u32 where "CBS_ASN1_BOOLEAN = 0x1"
definition CBS_ASN1_INTEGER :: u32 where "CBS_ASN1_INTEGER = 0x2"
definition CBS_ASN1_OCTETSTRING :: u32 where "CBS_ASN1_OCTETSTRING = 0x4"

text \<open>
  The loop of \<open>parse_base128_integer\<close>; \<open>v\<close> is the value read so far. It ends because every turn takes
  a byte from the \<open>CBS\<close>.
\<close>

lemma CBS_get_u8_decreases: "CBS_get_u8 c = (Some b, c') \<Longrightarrow> unat (cbs_len c') < unat (cbs_len c)"
  by (auto simp: CBS_get_u8_def cbs_get_def word_less_nat_alt unat_sub_if' split: if_splits)

function parse_base128_loop :: "u64 \<Rightarrow> cbs \<Rightarrow> u64 option \<times> cbs" where
  "parse_base128_loop v c =
     (case CBS_get_u8 c of
        (None, c') \<Rightarrow> (None, c')
      | (Some b, c') \<Rightarrow>
          if drop_bit (64 - 7) v \<noteq> 0 then (None, c')
          else if v = 0 \<and> b = 0x80 then (None, c')
          else let v' = push_bit 7 v OR ucast (b AND 0x7f)
               in if b AND 0x80 \<noteq> 0 then parse_base128_loop v' c' else (Some v', c'))"
  by pat_completeness auto
termination
  by (relation "measure (\<lambda>(v, c). unat (cbs_len c))") (auto dest: CBS_get_u8_decreases [OF sym])

declare parse_base128_loop.simps [simp del]

definition parse_base128_integer :: "cbs \<Rightarrow> u64 option \<times> cbs" where
  "parse_base128_integer c = parse_base128_loop 0 c"

definition parse_asn1_tag :: "cbs \<Rightarrow> u32 option \<times> cbs" where
  "parse_asn1_tag c =
     and_then (CBS_get_u8 c) (\<lambda>tag_byte c.
       let tag = push_bit 24 (ucast tag_byte AND 0xe0);
           tag_number = ucast (tag_byte AND 0x1f)
       in if tag_number = 0x1f
          then and_then (parse_base128_integer c) (\<lambda>v c.
                 if v > ucast CBS_ASN1_TAG_NUMBER_MASK \<or> v < 0x1f then (None, c)
                 else (Some (tag OR ucast v), c))
          else (Some (tag OR tag_number), c))"

text \<open>
  The out-parameters of \<open>cbs_get_any_asn1_element\<close>: the element, its tag, the length of its header
  and whether a BER form that is not DER was found. The \<open>CBS\<close> moves only in the final
  \<open>CBS_get_bytes\<close>: the header is read from a copy.
\<close>

definition cbs_get_any_asn1_element :: "cbs \<Rightarrow> bool \<Rightarrow> (cbs \<times> u32 \<times> size_t \<times> bool) option \<times> cbs" where
  "cbs_get_any_asn1_element c ber_ok =
     (case parse_asn1_tag c of
        (None, _) \<Rightarrow> (None, c)
      | (Some tag, header) \<Rightarrow>
       (case CBS_get_u8 header of
          (None, _) \<Rightarrow> (None, c)
        | (Some length_byte, header) \<Rightarrow>
            let header_len = cbs_len c - cbs_len header
            in if length_byte AND 0x80 = 0
               then and_then (CBS_get_bytes c (ucast length_byte + header_len)) (\<lambda>out c'.
                      (Some (out, tag, header_len, False), c'))
               else
                 let num_bytes = ucast (length_byte AND 0x7f)
                 in if ber_ok \<and> tag AND CBS_ASN1_CONSTRUCTED \<noteq> 0 \<and> num_bytes = 0
                    then and_then (CBS_get_bytes c header_len) (\<lambda>out c'.
                           (Some (out, tag, header_len, True), c'))
                    else if num_bytes = 0 \<or> num_bytes > 4 then (None, c)
                    else
                     (case cbs_get_u header num_bytes of
                        (None, _) \<Rightarrow> (None, c)
                      | (Some len64, _) \<Rightarrow>
                          let short = len64 < 128;
                              padded = drop_bit (unat ((num_bytes - 1) * 8)) len64 = 0
                          in if (short \<or> padded) \<and> \<not> ber_ok then (None, c)
                             else if len64 + header_len + num_bytes < len64 then (None, c)
                             else and_then (CBS_get_bytes c (len64 + (header_len + num_bytes))) (\<lambda>out c'.
                                    (Some (out, tag, header_len + num_bytes, short \<or> padded), c')))))"

definition CBS_get_any_asn1_element :: "cbs \<Rightarrow> (cbs \<times> u32 \<times> size_t) option \<times> cbs" where
  "CBS_get_any_asn1_element c =
     and_then (cbs_get_any_asn1_element c False) (\<lambda>(out, tag, header_len, _) c'.
       (Some (out, tag, header_len), c'))"

definition CBS_get_any_ber_asn1_element :: "cbs \<Rightarrow> (cbs \<times> u32 \<times> size_t \<times> bool) option \<times> cbs" where
  "CBS_get_any_ber_asn1_element c = cbs_get_any_asn1_element c True"

definition CBS_get_any_asn1 :: "cbs \<Rightarrow> (cbs \<times> u32) option \<times> cbs" where
  "CBS_get_any_asn1 c =
     and_then (CBS_get_any_asn1_element c) (\<lambda>(out, tag, header_len) c'.
       case CBS_skip out header_len of
         (None, _) \<Rightarrow> (None, c')
       | (Some _, out') \<Rightarrow> (Some (out', tag), c'))"

definition cbs_get_asn1 :: "cbs \<Rightarrow> u32 \<Rightarrow> bool \<Rightarrow> cbs option \<times> cbs" where
  "cbs_get_asn1 c tag_value skip_header =
     and_then (CBS_get_any_asn1_element c) (\<lambda>(out, tag, header_len) c'.
       if tag \<noteq> tag_value then (None, c')
       else if skip_header
       then (case CBS_skip out header_len of
               (None, _) \<Rightarrow> (None, c')
             | (Some _, out') \<Rightarrow> (Some out', c'))
       else (Some out, c'))"

definition CBS_get_asn1 :: "cbs \<Rightarrow> u32 \<Rightarrow> cbs option \<times> cbs" where
  "CBS_get_asn1 c tag_value = cbs_get_asn1 c tag_value True"

definition CBS_get_asn1_element :: "cbs \<Rightarrow> u32 \<Rightarrow> cbs option \<times> cbs" where
  "CBS_get_asn1_element c tag_value = cbs_get_asn1 c tag_value False"

definition CBS_peek_asn1_tag :: "cbs \<Rightarrow> u32 \<Rightarrow> bool" where
  "CBS_peek_asn1_tag c tag_value \<longleftrightarrow>
     (if cbs_len c < 1 then False
      else case fst (parse_asn1_tag c) of None \<Rightarrow> False | Some actual_tag \<Rightarrow> tag_value = actual_tag)"

subsection \<open>Base-128 numbers\<close>

text \<open>\<open>b128_hi v\<close>: the digits of \<open>v > 0\<close>, each with the continuation bit; nothing for 0.\<close>

fun b128_hi :: "nat \<Rightarrow> bytes" where
  "b128_hi v = (if v = 0 then [] else b128_hi (v div 128) @ [of_nat (v mod 128 + 128)])"

declare b128_hi.simps [simp del]

definition base128_enc :: "nat \<Rightarrow> bytes" where
  "base128_enc v = b128_hi (v div 128) @ [of_nat (v mod 128)]"

fun p_base128_from :: "nat \<Rightarrow> bytes \<Rightarrow> nat parse" where
  "p_base128_from v [] = None"
| "p_base128_from v (b # bs) =
     (if 2 ^ 57 \<le> v then None
      else if v = 0 \<and> b = 0x80 then None
      else let v' = v * 128 + unat b mod 128
           in if 128 \<le> unat b then p_base128_from v' bs else Some (v', bs))"

lemma b128_hi_0 [simp]: "b128_hi 0 = []"
  by (simp add: b128_hi.simps)

lemma b128_hi_snoc: "v * 128 + d \<noteq> 0 \<Longrightarrow> d < 128 \<Longrightarrow>
    b128_hi (v * 128 + d) = b128_hi v @ [of_nat (d + 128)]"
  by (subst b128_hi.simps) simp

lemma mod128_high: "128 \<le> unat (b :: u8) \<Longrightarrow> unat b mod 128 = unat b - 128"
proof -
  assume "128 \<le> unat b"
  then have "unat b mod 128 = (unat b - 128) mod 128" by (rule le_mod_geq)
  moreover have "unat b - 128 < 128" using unat_u8_less [of b] by linarith
  ultimately show ?thesis by simp
qed

lemma of_nat_mod128_high [simp]: "128 \<le> unat (b :: u8) \<Longrightarrow> of_nat (unat b mod 128) + 128 = b"
proof -
  assume le: "128 \<le> unat b"
  then have "of_nat (unat b mod 128) + 128 = (of_nat (unat b mod 128 + 128) :: u8)" by simp
  also have "\<dots> = of_nat (unat b)" using le by (simp only: mod128_high) simp
  finally show ?thesis by (simp add: ucast_id)
qed

lemma u8_eq_80_iff: "(b :: u8) = 0x80 \<longleftrightarrow> unat b = 128"
  by (auto simp: word_unat_eq_iff)

lemma unat_digit_high: "unat (of_nat (v mod 128 + 128) :: u8) = v mod 128 + 128"
proof -
  have "v mod 128 + 128 < 256" by simp
  then show ?thesis by (simp only: unat_of_nat) simp
qed

lemma unat_digit_low: "unat (of_nat (v mod 128) :: u8) = v mod 128"
proof -
  have "v mod 128 < 256" by (rule less_trans [of _ 128]) simp_all
  then show ?thesis by (simp add: unat_of_nat)
qed

lemma p_base128_from_sound:
  "p_base128_from a bs = Some (v, bs') \<Longrightarrow> a < 2 ^ 64 \<Longrightarrow>
   \<exists>xs. bs = xs @ bs' \<and> b128_hi a @ xs = base128_enc v \<and> v < 2 ^ 64"
proof (induction a bs rule: p_base128_from.induct)
  case (2 a b bs)
  let ?d = "unat b mod 128"
  from "2.prems" have a: "a < 2 ^ 57" by (simp split: if_splits)
  then have v': "a * 128 + ?d < 2 ^ 64" by simp
  show ?case
  proof (cases "128 \<le> unat b")
    case True
    with "2.prems" have nz: "a * 128 + ?d \<noteq> 0" and rest: "p_base128_from (a * 128 + ?d) bs = Some (v, bs')"
      using True by (auto simp: u8_eq_80_iff mod128_high split: if_splits)
    obtain xs where xs: "bs = xs @ bs'" "b128_hi (a * 128 + ?d) @ xs = base128_enc v" "v < 2 ^ 64"
      using "2.IH" [OF _ _ refl True rest v'] "2.prems" by (auto split: if_splits)
    then show ?thesis
      using True nz by (intro exI [of _ "b # xs"]) (simp add: b128_hi_snoc)
  next
    case False
    with "2.prems" have "v = a * 128 + unat b" "bs' = bs"
      by (auto split: if_splits)
    with False v' show ?thesis
      by (intro exI [of _ "[b]"]) (simp add: base128_enc_def)
  qed
qed simp

lemma p_base128_from_hi:
  "w < 2 ^ 57 \<Longrightarrow> p_base128_from 0 (b128_hi w @ bs) = p_base128_from w bs"
proof (induction w arbitrary: bs rule: b128_hi.induct)
  case (1 w)
  show ?case
  proof (cases "w = 0")
    case False
    let ?b = "of_nat (w mod 128 + 128) :: u8"
    have ub: "unat ?b = w mod 128 + 128" by (rule unat_digit_high)
    have "p_base128_from 0 (b128_hi w @ bs) = p_base128_from 0 (b128_hi (w div 128) @ ?b # bs)"
      using False by (simp add: b128_hi.simps [of w])
    also have "\<dots> = p_base128_from (w div 128) (?b # bs)"
      using "1" False by (simp add: "1.IH")
    also have "\<dots> = p_base128_from w bs"
      using "1.prems" False ub by (auto simp: u8_eq_80_iff div_eq_0_iff)
    finally show ?thesis .
  qed simp
qed

lemma p_base128_complete:
  assumes "v < 2 ^ 64"
  shows "p_base128_from 0 (base128_enc v @ bs) = Some (v, bs)"
proof -
  have "v div 128 < 2 ^ 57" using assms by (simp add: div_less_iff_less_mult)
  moreover have "\<not> 128 \<le> v mod 128" by (simp add: not_le)
  ultimately show ?thesis
    by (simp add: base128_enc_def p_base128_from_hi u8_eq_80_iff unat_digit_low)
qed

lemma p_base128_iff:
  "p_base128_from 0 bs = Some (v, bs') \<longleftrightarrow> v < 2 ^ 64 \<and> bs = base128_enc v @ bs'"
  using p_base128_from_sound [of 0 bs v bs'] p_base128_complete by force

lemma length_b128_hi: "v < 128 ^ k \<Longrightarrow> length (b128_hi v) \<le> k"
proof (induction k arbitrary: v)
  case (Suc k)
  then have "v div 128 < 128 ^ k" by (simp add: div_less_iff_less_mult mult.commute)
  with Suc.IH show ?case by (subst b128_hi.simps) auto
qed simp

lemma parse_base128_loop_refines:
  "cbs_view c bs \<Longrightarrow> refines (\<lambda>v n. unat v = n) (parse_base128_loop v c) (p_base128_from (unat v) bs)"
proof (induction v c arbitrary: bs rule: parse_base128_loop.induct)
  case (1 v c)
  show ?case
  proof (cases bs)
    case Nil
    with CBS_get_u8_refines [OF "1.prems"] show ?thesis
      by (subst parse_base128_loop.simps) (auto simp: refines_def split: prod.splits option.splits)
  next
    case (Cons b bs')
    with CBS_get_u8_refines [OF "1.prems"] obtain c' where c': "CBS_get_u8 c = (Some b, c')" "cbs_view c' bs'"
      by (auto simp: refines_def split: prod.splits option.splits)
    have top: "drop_bit 57 v \<noteq> 0 \<longleftrightarrow> 2 ^ 57 \<le> unat v"
      by (auto simp: unat_shr div_eq_0_iff simp flip: unat_eq_0)
    have v': "unat (push_bit 7 v OR ucast (b AND 0x7f)) = unat v * 128 + unat b mod 128"
      if "unat v < 2 ^ 57" using that by (simp add: unat_shl_or)
    show ?thesis
      using "1.IH" [OF c'(1) [symmetric] refl _ _ refl _ c'(2)] c' Cons top v'
      by (subst parse_base128_loop.simps)
        (auto simp: cbs_view_ok not_le not_less unat_eq_zero Let_def)
  qed
qed

lemma parse_base128_integer_refines:
  "cbs_view c bs \<Longrightarrow> refines (\<lambda>v n. unat v = n) (parse_base128_integer c) (p_base128_from 0 bs)"
  using parse_base128_loop_refines [of c bs 0] by (simp add: parse_base128_integer_def)

subsection \<open>Tags\<close>

definition tag_enc :: "nat \<Rightarrow> bytes" where
  "tag_enc t =
     (let cls = t div 2 ^ 29; num = t mod 2 ^ 29
      in if 31 \<le> num then of_nat (cls * 32 + 31) # base128_enc num else [of_nat (cls * 32 + num)])"

definition p_tag :: "bytes \<Rightarrow> nat parse" where
  "p_tag bs =
     Option.bind (p_u8 bs) (\<lambda>(b, bs).
       let cls = unat b div 32; num = unat b mod 32
       in if num = 31
          then Option.bind (p_base128_from 0 bs) (\<lambda>(v, bs).
                 if 2 ^ 29 \<le> v \<or> v < 31 then None else Some (cls * 2 ^ 29 + v, bs))
          else Some (cls * 2 ^ 29 + num, bs))"

lemma p_tag_sound: "p_tag bs = Some (t, bs') \<Longrightarrow> t < 2 ^ 32 \<and> bs = tag_enc t @ bs'"
proof -
  assume p: "p_tag bs = Some (t, bs')"
  then obtain b rest where b: "bs = b # rest" by (cases bs) (auto simp: p_tag_def)
  define cls num where "cls = unat b div 32" and "num = unat b mod 32"
  have cls8: "cls < 8" by (simp add: cls_def div_less_iff_less_mult)
  have bq: "unat b = cls * 32 + num" by (simp add: cls_def num_def)
  have b_eq: "b = of_nat (cls * 32 + num)" unfolding bq [symmetric] by (simp add: ucast_id)
  have n32: "num < 32" by (simp add: num_def)
  have split: "(cls * 2 ^ 29 + x) div 2 ^ 29 = cls" "(cls * 2 ^ 29 + x) mod 2 ^ 29 = x"
    "cls * 2 ^ 29 + x < 2 ^ 32" if "x < 2 ^ 29" for x :: nat
    using that cls8 by simp_all
  show ?thesis
  proof (cases "num = 31")
    case True
    with p b have "\<exists>v. p_base128_from 0 rest = Some (v, bs') \<and> v < 2 ^ 29 \<and> 31 \<le> v \<and> t = cls * 2 ^ 29 + v"
      by (auto simp: p_tag_def bind_eq_Some_conv Let_def cls_def num_def not_le split: if_splits)
    then obtain v where v: "rest = base128_enc v @ bs'" "v < 2 ^ 29" "31 \<le> v" "t = cls * 2 ^ 29 + v"
      by (auto simp: p_base128_iff)
    show ?thesis
      unfolding v(4) tag_enc_def Let_def split [OF v(2)] using v b b_eq True split(3) [OF v(2)] by simp
  next
    case False
    then have n: "num < 2 ^ 29" "\<not> 31 \<le> num" using n32 by auto
    from False p b have t: "t = cls * 2 ^ 29 + num" "bs' = rest"
      by (auto simp: p_tag_def Let_def cls_def num_def)
    show ?thesis
      unfolding t(1) tag_enc_def Let_def split [OF n(1)] using t(2) n b b_eq split(3) [OF n(1)] by simp
  qed
qed

lemma p_tag_complete: "t < 2 ^ 32 \<Longrightarrow> p_tag (tag_enc t @ bs) = Some (t, bs)"
proof -
  assume t: "t < 2 ^ 32"
  define cls num where "cls = t div 2 ^ 29" and "num = t mod 2 ^ 29"
  have cls8: "cls < 8" using t by (simp add: cls_def div_less_iff_less_mult)
  have t_eq: "cls * 2 ^ 29 + num = t" by (simp add: cls_def num_def)
  have n29: "num < 2 ^ 29" by (simp add: num_def)
  have u: "unat (of_nat (cls * 32 + k) :: u8) = cls * 32 + k" if "k < 32" for k
    using cls8 that by (intro unat_of_nat_small) simp
  have d: "(cls * 32 + k) div 32 = cls" "(cls * 32 + k) mod 32 = k" if "k < 32" for k
    using that by simp_all
  show ?thesis
  proof (cases "31 \<le> num")
    case True
    then have "tag_enc t = of_nat (cls * 32 + 31) # base128_enc num"
      by (simp add: tag_enc_def Let_def cls_def num_def)
    then show ?thesis
      using True n29 t_eq by (simp add: p_tag_def u d Let_def p_base128_complete del: of_nat_add of_nat_mult)
  next
    case False
    then have "tag_enc t = [of_nat (cls * 32 + num)]" and "num < 32" "num \<noteq> 31"
      by (auto simp: tag_enc_def Let_def cls_def num_def)
    then show ?thesis
      using t_eq by (simp add: p_tag_def u d Let_def del: of_nat_add of_nat_mult)
  qed
qed

lemma p_tag_iff: "p_tag bs = Some (t, bs') \<longleftrightarrow> t < 2 ^ 32 \<and> bs = tag_enc t @ bs'"
  using p_tag_sound p_tag_complete by blast

lemma length_tag_enc: "t < 2 ^ 32 \<Longrightarrow> 1 \<le> length (tag_enc t) \<and> length (tag_enc t) \<le> 6"
proof -
  have "length (b128_hi (t mod 2 ^ 29 div 128)) \<le> 4" by (rule length_b128_hi) (simp add: div_less_iff_less_mult)
  then show ?thesis by (simp add: tag_enc_def base128_enc_def Let_def)
qed

lemma unat_tag_word:
  assumes "unat (num :: u32) < 2 ^ 29"
  shows "unat (push_bit 24 (ucast (b :: u8) AND 0xe0) OR num) = unat b div 32 * 2 ^ 29 + unat num"
proof -
  have b8: "unat b div 32 < 8" by (simp add: div_less_iff_less_mult)
  have "ucast b AND 0xe0 = (ucast (b AND 0xe0) :: u32)" by (simp add: unsigned_and_eq)
  then have a: "unat (ucast b AND 0xe0 :: u32) = unat b div 32 * 32" by simp
  have "push_bit 24 (ucast b AND 0xe0) = push_bit 29 (of_nat (unat b div 32) :: u32)"
    by (simp only: word_unat_eq_iff unat_shl a unat_of_nat) (use b8 in simp)
  then show ?thesis
    using assms b8 by (simp only: unat_shl_or) (simp add: unat_shl_or unat_of_nat)
qed

lemma parse_asn1_tag_refines:
  "cbs_view c bs \<Longrightarrow> refines (\<lambda>t n. unat t = n) (parse_asn1_tag c) (p_tag bs)"
  unfolding parse_asn1_tag_def p_tag_def
proof (erule refines_bind [OF CBS_get_u8_refines], goal_cases)
  case (1 b c x bs)
  then have v: "cbs_view c bs" and x: "x = b" by auto
  have w: "unat (ucast (b AND 0x1f) :: u32) < 2 ^ 29"
    by (simp add: less_trans [of _ 32])
  have e: "(ucast (b AND 0x1f) :: u32) = 0x1f \<longleftrightarrow> unat b mod 32 = 31"
    by (auto simp: word_unat_eq_iff)
  have m: "unat (ucast CBS_ASN1_TAG_NUMBER_MASK :: u64) = 2 ^ 29 - 1"
    by (simp add: CBS_ASN1_TAG_NUMBER_MASK_def)
  have r: "refines (\<lambda>v n. unat v = n) (parse_base128_integer c) (p_base128_from 0 bs)"
    using v by (rule parse_base128_integer_refines)
  show ?case
  proof (cases "unat b mod 32 = 31")
    case True
    have "refines (\<lambda>(t :: u32) n. unat t = n)
        (if v > ucast CBS_ASN1_TAG_NUMBER_MASK \<or> v < 0x1f then (None, c')
         else (Some (push_bit 24 (ucast b AND 0xe0) OR ucast v), c'))
        (if 2 ^ 29 \<le> n \<or> n < 31 then None else Some (unat b div 32 * 2 ^ 29 + n, bs'))"
      if "unat v = n" "cbs_view c' bs'" for v :: u64 and n c' bs'
    proof -
      have g: "v > ucast CBS_ASN1_TAG_NUMBER_MASK \<longleftrightarrow> 2 ^ 29 \<le> n" "v < 0x1f \<longleftrightarrow> n < 31"
        using that(1) m by (auto simp: word_less_nat_alt)
      show ?thesis
      proof (cases "2 ^ 29 \<le> n \<or> n < 31")
        case False
        then have "unat (ucast v :: u32) = n" using that(1) by (simp add: unat_ucast_mod)
        with False have "unat (push_bit 24 (ucast b AND 0xe0) OR (ucast v :: u32)) = unat b div 32 * 2 ^ 29 + n"
          using unat_tag_word [of "ucast v" b] by simp
        with False that(2) show ?thesis unfolding g by auto
      qed (use that(2) in \<open>auto simp: g cbs_view_ok\<close>)
    qed
    then show ?thesis
      unfolding x Let_def prod.case e if_P [OF True] by (intro refines_bind [OF r]) (simp only: prod.case)
  next
    case False
    with v show ?thesis
      unfolding x Let_def prod.case e if_not_P [OF False] using unat_tag_word [OF w, of b] by simp
  qed
qed

subsection \<open>Elements\<close>

definition p_element :: "bool \<Rightarrow> bytes \<Rightarrow> (bytes \<times> nat \<times> nat \<times> bool) parse" where
  "p_element ber_ok bs =
     Option.bind (p_tag bs) (\<lambda>(t, h). Option.bind (p_u8 h) (\<lambda>(lb, h).
       let hl = length bs - length h
       in if unat lb < 128
          then map_option (\<lambda>(x, r). ((x, t, hl, False), r)) (p_take (unat lb + hl) bs)
          else let nb = unat lb mod 128
            in if ber_ok \<and> odd (t div 2 ^ 29) \<and> nb = 0
               then map_option (\<lambda>(x, r). ((x, t, hl, True), r)) (p_take hl bs)
               else if nb = 0 \<or> 4 < nb then None
               else Option.bind (p_uint nb h) (\<lambda>(len, _).
                      let alt = (len < 128 \<or> len < 256 ^ (nb - 1))
                      in if alt \<and> \<not> ber_ok then None
                         else map_option (\<lambda>(x, r). ((x, t, hl + nb, alt), r))
                                (p_take (len + (hl + nb)) bs))))"

definition element_rel :: "cbs \<times> u32 \<times> size_t \<times> bool \<Rightarrow> bytes \<times> nat \<times> nat \<times> bool \<Rightarrow> bool" where
  "element_rel = (\<lambda>(out, tag, hl, bf) (x, t, n, b).
     cbs_view out x \<and> unat tag = t \<and> unat hl = n \<and> bf = b)"

lemma constructed_bit: "tag AND CBS_ASN1_CONSTRUCTED = 0 \<longleftrightarrow> even (unat tag div 2 ^ 29)"
  using and_pow_eq_0 [of tag 29] by (simp add: CBS_ASN1_CONSTRUCTED_def)

lemma get_bytes_element:
  assumes "cbs_view c bs" and "unat n = k" and "unat tag = t" and "unat hl = m"
  shows "refines element_rel (and_then (CBS_get_bytes c n) (\<lambda>out c'. (Some (out, tag, hl, bf), c')))
    (map_option (\<lambda>(x, r). ((x, t, m, bf), r)) (p_take k bs))"
  using CBS_get_bytes_refines [OF assms(1), of n] assms
  by (intro refines_map [of cbs_view]) (auto simp: element_rel_def)

lemma p_tag_header:
  assumes "p_tag bs = Some (t, lb # h)"
  shows "length bs - length h = length (tag_enc t) + 1 \<and> length h < length bs \<and>
    length bs - length h \<le> 7 \<and> t < 2 ^ 32"
  using assms length_tag_enc [of t] by (auto simp: p_tag_iff)

lemma long_form_refines:
  assumes c: "cbs_view c bs" and h: "cbs_view hc h" and nb: "1 \<le> unat nb" "unat nb \<le> 4"
    and hl: "unat hl = k" "k \<le> 7" and tag: "unat tag = t"
  shows "refines element_rel
    (case cbs_get_u hc nb of
       (None, _) \<Rightarrow> (None, c)
     | (Some len64, _) \<Rightarrow>
         if (len64 < 128 \<or> drop_bit (unat ((nb - 1) * 8)) len64 = 0) \<and> \<not> ber_ok then (None, c)
         else if len64 + hl + nb < len64 then (None, c)
         else and_then (CBS_get_bytes c (len64 + (hl + nb))) (\<lambda>out c'.
                (Some (out, tag, hl + nb, len64 < 128 \<or> drop_bit (unat ((nb - 1) * 8)) len64 = 0), c')))
    (Option.bind (p_uint (unat nb) h) (\<lambda>(len, _).
       if (len < 128 \<or> len < 256 ^ (unat nb - 1)) \<and> \<not> ber_ok then None
       else map_option (\<lambda>(x, r). ((x, t, k + unat nb, len < 128 \<or> len < 256 ^ (unat nb - 1)), r))
              (p_take (len + (k + unat nb)) bs)))"
proof (cases "p_uint (unat nb) h")
  case None
  with cbs_get_u_refines [OF h, of nb] nb c show ?thesis
    by (auto simp: cbs_view_ok dest!: refines_NoneD)
next
  case (Some a)
  obtain len r where a: "a = (len, r)" by fastforce
  from cbs_get_u_refines [OF h, of nb] nb Some a obtain v c1 where
    v: "cbs_get_u hc nb = (Some v, c1)" "unat v = len" by (auto dest!: refines_SomeD)
  have "len < 256 ^ unat nb" using Some a by (auto dest: p_uint_less)
  also have "(256::nat) ^ unat nb \<le> 256 ^ 4" using nb by (intro power_increasing) auto
  finally have len: "len < 2 ^ 32" by simp
  have sh: "unat ((nb - 1) * 8) = 8 * (unat nb - 1)"
    using nb by (simp add: unat_word_ariths unat_minus_one word_le_nat_alt unat_sub)
  have pad: "drop_bit (unat ((nb - 1) * 8)) v = 0 \<longleftrightarrow> len < 256 ^ (unat nb - 1)"
    using v(2) by (simp only: sh unat_shr div_eq_0_iff flip: unat_eq_0) (simp add: power_mult)
  have short: "v < 128 \<longleftrightarrow> len < 128" using v(2) by (simp add: word_less_nat_alt)
  have add: "unat (hl + nb) = k + unat nb" "unat (v + (hl + nb)) = len + (k + unat nb)"
    using nb hl len v(2) by (simp_all add: unat_word_ariths)
  then have no: "\<not> v + hl + nb < v" using v(2) by (simp add: word_less_nat_alt add.assoc)
  show ?thesis
    unfolding v(1) Some a bind.bind_lunit prod.case option.case pad short if_not_P [OF no]
    using get_bytes_element [OF c add(2) tag add(1)] c by (simp add: cbs_view_ok)
qed

lemma cbs_get_any_asn1_element_refines:
  assumes c: "cbs_view c bs"
  shows "refines element_rel (cbs_get_any_asn1_element c ber_ok) (p_element ber_ok bs)"
proof (cases "p_tag bs")
  case None
  with parse_asn1_tag_refines [OF c] c show ?thesis
    by (auto simp: cbs_get_any_asn1_element_def p_element_def cbs_view_ok dest!: refines_NoneD)
next
  case (Some a)
  obtain t h0 where a: "a = (t, h0)" by fastforce
  from Some a parse_asn1_tag_refines [OF c] obtain tag hc0 where
    tag: "parse_asn1_tag c = (Some tag, hc0)" "unat tag = t" "cbs_view hc0 h0"
    by (auto dest!: refines_SomeD)
  show ?thesis
  proof (cases h0)
    case Nil
    with CBS_get_u8_refines [OF tag(3)] Some a tag c show ?thesis
      by (auto simp: cbs_get_any_asn1_element_def p_element_def cbs_view_ok dest!: refines_NoneD)
  next
    case (Cons lb h)
    from CBS_get_u8_refines [OF tag(3)] Cons obtain hc where
      lb: "CBS_get_u8 hc0 = (Some lb, hc)" "cbs_view hc h"
      by (auto dest!: refines_SomeD)
    define hl where "hl = length bs - length h"
    have hd: "length h < length bs" "hl \<le> 7" "t < 2 ^ 32"
      using p_tag_header [of bs t lb h] Some a Cons by (auto simp: hl_def)
    have uhl: "unat (cbs_len c - cbs_len hc) = hl"
      using hd(1) cbs_view_len [OF c] cbs_view_len [OF lb(2)]
      by (simp add: hl_def unat_sub word_le_nat_alt)
    note eq = cbs_get_any_asn1_element_def p_element_def tag(1) lb(1) Some a Cons
      bind.bind_lunit p_u8.simps prod.case option.case Let_def
    show ?thesis
    proof (cases "unat lb < 128")
      case True
      have "unat (ucast lb + (cbs_len c - cbs_len hc) :: size_t) = unat lb + hl"
        using hd(2) uhl True by (simp add: unat_word_ariths)
      then show ?thesis
        unfolding eq u8_and_80 if_P [OF True] hl_def [symmetric]
        using tag(2) uhl by (intro get_bytes_element [OF c])
    next
      case long: False
      let ?nb = "ucast (lb AND 0x7f) :: size_t"
      have nb: "unat ?nb = unat lb mod 128" by simp
      have nb_simps: "?nb = 0 \<longleftrightarrow> unat lb mod 128 = 0" "?nb > 4 \<longleftrightarrow> 4 < unat lb mod 128"
        using nb by (auto simp: word_less_nat_alt simp flip: unat_eq_0)
      note eq' = eq u8_and_80 if_not_P [OF long] constructed_bit tag(2) nb_simps hl_def [symmetric]
      show ?thesis
      proof (cases "ber_ok \<and> odd (t div 2 ^ 29) \<and> unat lb mod 128 = 0")
        case True
        show ?thesis
          unfolding eq' if_P [OF True] by (rule get_bytes_element [OF c uhl tag(2) uhl])
      next
        case indef: False
        show ?thesis
        proof (cases "unat lb mod 128 = 0 \<or> 4 < unat lb mod 128")
          case True
          with c show ?thesis unfolding eq' if_not_P [OF indef] by (simp add: cbs_view_ok)
        next
          case range: False
          then have nb14: "1 \<le> unat ?nb" "unat ?nb \<le> 4" by auto
          show ?thesis
            unfolding eq' if_not_P [OF indef] if_not_P [OF range]
            using long_form_refines [OF c lb(2) nb14 uhl hd(2) tag(2), of ber_ok]
            by (simp only: nb)
        qed
      qed
    qed
  qed
qed

subsection \<open>The DER encoding of an element\<close>

definition len_bytes :: "nat \<Rightarrow> nat" where
  "len_bytes n = (if n < 256 then 1 else if n < 65536 then 2 else if n < 16777216 then 3 else 4)"

definition len_enc :: "nat \<Rightarrow> bytes" where
  "len_enc n = (if n < 128 then [of_nat n] else of_nat (128 + len_bytes n) # be_bytes (len_bytes n) n)"

definition der_enc :: "nat \<Rightarrow> bytes \<Rightarrow> bytes" where
  "der_enc t content = tag_enc t @ len_enc (length content) @ content"

lemma len_bytes_unique:
  assumes "1 \<le> k" "k \<le> 4" "256 ^ (k - 1) \<le> n" "n < 256 ^ k"
  shows "len_bytes n = k"
proof -
  have "k = 1 \<or> k = 2 \<or> k = 3 \<or> k = 4" using assms by linarith
  with assms show ?thesis by (auto simp: len_bytes_def)
qed

lemma len_bytes_bounds:
  assumes "128 \<le> n" "n < 2 ^ 32"
  shows "1 \<le> len_bytes n" "len_bytes n \<le> 4" "256 ^ (len_bytes n - 1) \<le> n" "n < 256 ^ len_bytes n"
  using assms by (simp_all add: len_bytes_def)

lemma p_element_der_sound:
  assumes "p_element False bs = Some ((x, t, hl, bf), rest)"
  shows "\<exists>content. length content < 2 ^ 32 \<and> t < 2 ^ 32 \<and> \<not> bf \<and> x = der_enc t content
    \<and> hl + length content = length x \<and> bs = x @ rest"
proof -
  from assms obtain h0 where tag: "p_tag bs = Some (t, h0)"
    by (auto simp: p_element_def bind_eq_Some_conv Let_def split: if_splits)
  with assms obtain lb h where h0: "h0 = lb # h"
    by (cases h0) (auto simp: p_element_def)
  from tag h0 have t: "t < 2 ^ 32" and bs: "bs = tag_enc t @ lb # h" by (auto simp: p_tag_iff)
  have hl0: "length bs - length h = Suc (length (tag_enc t))" using bs by simp
  note u = p_element_def tag h0 bind.bind_lunit p_u8.simps prod.case Let_def hl0
  show ?thesis
  proof (cases "unat lb < 128")
    case True
    with assms have x: "bs = x @ rest" "length x = unat lb + Suc (length (tag_enc t))"
      and r: "hl = Suc (length (tag_enc t))" "\<not> bf"
      by (auto simp: u p_take_Some_iff)
    obtain content where c: "x = (tag_enc t @ [lb]) @ content" "h = content @ rest"
      using append_split [of "tag_enc t @ [lb]" h x rest] x bs by auto
    then have "x = tag_enc t @ lb # content" "length content = unat lb" using x by simp_all
    moreover from this True have "len_enc (length content) = [lb]" by (simp add: len_enc_def ucast_id)
    ultimately show ?thesis
      using x r t True by (intro exI [of _ content]) (simp add: der_enc_def)
  next
    case long: False
    let ?nb = "unat lb mod 128"
    from assms long have nb: "1 \<le> ?nb" "?nb \<le> 4" by (auto simp: u split: if_splits)
    with assms long obtain len h' where len: "p_uint ?nb h = Some (len, h')"
      by (auto simp: u bind_eq_Some_conv split: if_splits)
    with assms long nb have alt: "128 \<le> len" "256 ^ (?nb - 1) \<le> len" "\<not> bf"
      and x: "bs = x @ rest" "length x = len + (Suc (length (tag_enc t)) + ?nb)"
      and hl: "hl = Suc (length (tag_enc t)) + ?nb"
      by (auto simp: u p_take_Some_iff not_less split: if_splits)
    from len obtain ls where ls: "h = ls @ h'" "length ls = ?nb" "be_val ls = len"
      by (auto simp: p_uint_Some_iff)
    have "len < 256 ^ ?nb" using be_val_less [of ls] ls by simp
    then have lb': "len_bytes len = ?nb" and len32: "len < 2 ^ 32"
      using len_bytes_unique nb alt power_increasing [of ?nb 4 "256::nat"] by auto
    have lb_eq: "lb = of_nat (128 + ?nb)" using long mod128_high [of lb] by (simp add: add.commute)
    have ls_eq: "ls = be_bytes ?nb len" using ls be_bytes_be_val by metis
    obtain content where c: "x = (tag_enc t @ lb # ls) @ content" "h' = content @ rest"
      using append_split [of "tag_enc t @ lb # ls" h' x rest] x bs ls by auto
    then have "length content = len" using x ls by simp
    moreover from this alt(1) lb' lb_eq ls_eq have "len_enc (length content) = lb # ls"
      by (simp add: len_enc_def)
    ultimately show ?thesis
      using c x hl t alt ls len32 by (intro exI [of _ content]) (simp add: der_enc_def)
  qed
qed

lemma p_element_der_complete:
  assumes "t < 2 ^ 32" and "length content < 2 ^ 32"
  shows "p_element False (der_enc t content @ rest) =
    Some ((der_enc t content, t, length (der_enc t content) - length content, False), rest)"
proof (cases "length content < 128")
  case True
  then have lb: "unat (of_nat (length content) :: u8) = length content" by (simp add: unat_of_nat)
  with True assms show ?thesis
    by (simp add: p_element_def der_enc_def len_enc_def p_tag_complete p_take_def Let_def)
next
  case False
  let ?n = "length content" and ?k = "len_bytes (length content)"
  have k: "1 \<le> ?k" "?k \<le> 4" "256 ^ (?k - 1) \<le> ?n" "?n < 256 ^ ?k"
    using len_bytes_bounds False assms(2) by auto
  then have lb: "unat (of_nat (128 + ?k) :: u8) = 128 + ?k" by (intro unat_of_nat_small) simp
  have "p_uint ?k (be_bytes ?k ?n @ content @ rest) = Some (?n, content @ rest)"
    using k by (auto simp: p_uint_Some_iff be_val_be_bytes_id intro!: exI [of _ "be_bytes ?k ?n"])
  then show ?thesis
    using k False assms(1) lb
    by (simp add: p_element_def der_enc_def len_enc_def p_tag_complete p_take_def Let_def not_less
        del: of_nat_add)
qed

lemma p_element_der_iff:
  "p_element False bs = Some ((x, t, hl, bf), rest) \<longleftrightarrow>
   (\<exists>content. length content < 2 ^ 32 \<and> t < 2 ^ 32 \<and> \<not> bf \<and> x = der_enc t content
     \<and> hl + length content = length x \<and> bs = x @ rest)"
proof
  assume "\<exists>content. length content < 2 ^ 32 \<and> t < 2 ^ 32 \<and> \<not> bf \<and> x = der_enc t content
     \<and> hl + length content = length x \<and> bs = x @ rest"
  then obtain content where c: "length content < 2 ^ 32" "t < 2 ^ 32" "\<not> bf" "x = der_enc t content"
     "hl + length content = length x" "bs = x @ rest" by blast
  then have "hl = length (der_enc t content) - length content" by simp
  with c show "p_element False bs = Some ((x, t, hl, bf), rest)"
    using p_element_der_complete by simp
qed (rule p_element_der_sound)

subsection \<open>Progress\<close>

text \<open>
  A header has at most 12 bytes before the long form length, so the sums of lengths in
  \<open>cbs_get_any_asn1_element\<close> do not wrap and every successful call takes at least one byte. Loops over
  elements end for this reason.
\<close>

lemma base128_step_grows:
  assumes "drop_bit (64 - 7) (v :: u64) = 0" and "128 ^ k \<le> unat v"
  shows "128 ^ Suc k \<le> unat (push_bit 7 v OR ucast (b AND 0x7f :: u8))"
proof -
  have "unat v < 2 ^ 57"
    using arg_cong [OF assms(1), of unat] by (simp add: unat_shr div_eq_0_iff)
  then have "unat (push_bit 7 v) = 128 * unat v" by (simp add: push_bit_eq_mult unat_word_ariths)
  moreover have "unat (push_bit 7 v) \<le> unat (push_bit 7 v OR ucast (b AND 0x7f :: u8))"
    by (simp add: word_le_nat_alt [symmetric] le_word_or2)
  ultimately show ?thesis using assms(2) by simp
qed

lemma CBS_get_u8_takes: "CBS_get_u8 c = (Some b, c') \<Longrightarrow> unat (cbs_len c) = Suc (unat (cbs_len c'))"
  by (auto simp: CBS_get_u8_def cbs_get_def unat_minus_one unat_gt_0 split: if_splits)

lemma parse_base128_loop_takes:
  "parse_base128_loop v c = (Some a, c') \<Longrightarrow> 128 ^ k \<le> unat v \<Longrightarrow>
   unat (cbs_len c') < unat (cbs_len c) \<and> unat (cbs_len c) \<le> unat (cbs_len c') + (9 - k)"
proof (induction v c arbitrary: k rule: parse_base128_loop.induct)
  case (1 v c)
  obtain r d where g: "CBS_get_u8 c = (r, d)" by (metis surj_pair)
  from "1.prems"(1) obtain b where b: "r = Some b" by (cases r) (auto simp: parse_base128_loop.simps [of v c] g)
  then have l: "unat (cbs_len c) = Suc (unat (cbs_len d))" using CBS_get_u8_takes g by simp
  from "1.prems"(1) g b have c: "drop_bit (64 - 7) v = 0" "\<not> (v = 0 \<and> b = 0x80)"
      "if b AND 0x80 = 0 then d = c' else parse_base128_loop (push_bit 7 v OR ucast (b AND 0x7f)) d = (Some a, c')"
    by (auto simp: parse_base128_loop.simps [of v c] Let_def split: if_splits)
  have "unat v < 2 ^ 57" using arg_cong [OF c(1), of unat] by (simp add: unat_shr div_eq_0_iff)
  then have "128 ^ k < (128 :: nat) ^ 9" using "1.prems"(2) by simp
  then have k: "k < 9" by (rule power_less_imp_less_exp [rotated]) simp
  show ?case
  proof (cases "b AND 0x80 = 0")
    case True
    then show ?thesis using c(3) l k by simp
  next
    case False
    have "\<not> drop_bit (64 - 7) v \<noteq> 0" using c(1) by simp
    from "1.IH" [OF g [symmetric] b this c(2) refl False _ base128_step_grows [OF c(1) "1.prems"(2)]] c(3) False l k
    show ?thesis by auto
  qed
qed

lemma parse_base128_takes:
  assumes "parse_base128_integer c = (Some a, c')"
  shows "unat (cbs_len c') < unat (cbs_len c)" "unat (cbs_len c) \<le> unat (cbs_len c') + 10"
proof -
  obtain r d where g: "CBS_get_u8 c = (r, d)" by (metis surj_pair)
  from assms obtain b where b: "r = Some b" by (cases r) (auto simp: parse_base128_integer_def parse_base128_loop.simps [of 0 c] g)
  then have l: "unat (cbs_len c) = Suc (unat (cbs_len d))" using CBS_get_u8_takes g by simp
  from assms g b have c: "b \<noteq> 0x80"
      "if b AND 0x80 = 0 then d = c' else parse_base128_loop (ucast (b AND 0x7f)) d = (Some a, c')"
    by (auto simp: parse_base128_integer_def parse_base128_loop.simps [of 0 c] Let_def split: if_splits)
  have "unat (cbs_len c') < unat (cbs_len c) \<and> unat (cbs_len c) \<le> unat (cbs_len c') + 10"
  proof (cases "b AND 0x80 = 0")
    case False
    have "128 \<le> unat b" "unat b \<noteq> 128" "unat b < 256" using False c(1) by (simp_all add: u8_eq_80_iff)
    then have "unat b mod 128 \<noteq> 0" by presburger
    then have "128 ^ 0 \<le> unat (ucast (b AND 0x7f) :: u64)" by simp
    from parse_base128_loop_takes [OF _ this] c(2) False l show ?thesis by fastforce
  qed (use c l in simp)
  then show "unat (cbs_len c') < unat (cbs_len c)" "unat (cbs_len c) \<le> unat (cbs_len c') + 10" by simp_all
qed

lemma parse_asn1_tag_takes:
  assumes "parse_asn1_tag c = (Some t, c')"
  shows "unat (cbs_len c') < unat (cbs_len c)" "unat (cbs_len c) \<le> unat (cbs_len c') + 11"
proof -
  obtain b d where b: "CBS_get_u8 c = (Some b, d)" and "c' = d \<or> (\<exists>v. parse_base128_integer d = (Some v, c'))"
    using assms by (auto simp: parse_asn1_tag_def and_then_def Let_def split: prod.splits option.splits if_splits)
  then show "unat (cbs_len c') < unat (cbs_len c)" "unat (cbs_len c) \<le> unat (cbs_len c') + 11"
    using CBS_get_u8_takes [OF b] parse_base128_takes [of d _ c'] by fastforce+
qed

lemma CBS_get_bytes_takes:
  "CBS_get_bytes c n = (Some out, c') \<Longrightarrow> unat (cbs_len c) = unat (cbs_len c') + unat n"
  by (auto simp: CBS_get_bytes_def cbs_get_def not_less word_le_nat_alt unat_sub and_then_def split: if_splits)

lemma cbs_get_any_asn1_element_decreases:
  assumes "cbs_get_any_asn1_element c ber_ok = (Some r, c')"
  shows "unat (cbs_len c') < unat (cbs_len c)"
proof -
  from assms obtain t d lb e where t: "parse_asn1_tag c = (Some t, d)" and lb: "CBS_get_u8 d = (Some lb, e)"
    by (auto simp: cbs_get_any_asn1_element_def split: prod.splits option.splits)
  let ?hl = "cbs_len c - cbs_len e"
  have e: "unat (cbs_len e) < unat (cbs_len c)" "unat (cbs_len c) \<le> unat (cbs_len e) + 12"
    using parse_asn1_tag_takes [OF t] CBS_get_u8_takes [OF lb] by simp_all
  then have hl: "0 < unat ?hl" "unat ?hl \<le> 12" by (simp_all add: unat_sub word_le_nat_alt)
  have "\<exists>n out. CBS_get_bytes c n = (Some out, c') \<and> 0 < unat n"
  proof (cases "lb AND 0x80 = 0")
    case True
    have "unat (ucast lb + ?hl) = unat lb + unat ?hl" using hl unat_u8_less [of lb] by (simp add: unat_word_ariths del: unat_u8_less)
    then have "0 < unat (ucast lb + ?hl)" using hl by simp
    then show ?thesis
      using assms t lb True by (auto simp: cbs_get_any_asn1_element_def Let_def and_then_Some_iff)
  next
    case False
    let ?nb = "ucast (lb AND 0x7f) :: size_t"
    have nb: "unat ?nb < 128" by simp
    have s: "unat (?hl + ?nb) = unat ?hl + unat ?nb" using hl nb by (simp add: unat_word_ariths)
    consider "CBS_get_bytes c ?hl = (Some (fst r), c')"
      | l where "\<not> l + ?hl + ?nb < l" "CBS_get_bytes c (l + (?hl + ?nb)) = (Some (fst r), c')"
      using assms t lb False
      by (auto simp: cbs_get_any_asn1_element_def Let_def and_then_Some_iff split: if_splits prod.splits option.splits)
    then show ?thesis
    proof cases
      case 1
      then show ?thesis using hl by blast
    next
      case (2 l)
      then have "l \<le> l + (?hl + ?nb)" by (simp add: add.assoc not_less)
      then have "unat (l + (?hl + ?nb)) = unat l + unat (?hl + ?nb)" using unat_plus_simple by blast
      then have "0 < unat (l + (?hl + ?nb))" using s hl by simp
      then show ?thesis using 2(2) by blast
    qed
  qed
  then show ?thesis using CBS_get_bytes_takes by fastforce
qed

lemma CBS_get_any_asn1_element_decreases:
  "CBS_get_any_asn1_element c = (Some r, c') \<Longrightarrow> unat (cbs_len c') < unat (cbs_len c)"
  by (auto simp: CBS_get_any_asn1_element_def and_then_Some_iff dest: cbs_get_any_asn1_element_decreases)

lemma CBS_get_asn1_decreases:
  "CBS_get_asn1 c tag = (Some r, c') \<Longrightarrow> unat (cbs_len c') < unat (cbs_len c)"
  by (auto simp: CBS_get_asn1_def cbs_get_asn1_def and_then_Some_iff
      dest: CBS_get_any_asn1_element_decreases split: if_splits prod.splits option.splits)

end
