(* ===== verification/Asn1.thy ===== *)
theory Asn1
  imports Der
begin

section \<open>CBS: ASN.1 values (crypto/bytestring/cbs.c)\<close>

text \<open>
  The readers of INTEGER, BOOLEAN, OPTIONAL and BIT STRING. \<open>CBS_is_valid_asn1_integer\<close> returns
  \<open>Some is_negative\<close> for a valid INTEGER. An \<open>int64_t\<close> is a 64-bit word read with \<open>sint\<close>; the union
  with a byte array is the little-endian layout of the targets.
\<close>

definition CBS_is_valid_asn1_integer :: "cbs \<Rightarrow> bool option" where
  "CBS_is_valid_asn1_integer c =
     (case CBS_get_u8 c of
        (None, _) \<Rightarrow> None
      | (Some first_byte, copy) \<Rightarrow>
          let is_negative = (first_byte AND 0x80 \<noteq> 0)
          in case CBS_get_u8 copy of
               (None, _) \<Rightarrow> Some is_negative
             | (Some second_byte, _) \<Rightarrow>
                 if (first_byte = 0x00 \<and> second_byte AND 0x80 = 0)
                    \<or> (first_byte = 0xff \<and> second_byte AND 0x80 \<noteq> 0)
                 then None else Some is_negative)"

definition CBS_is_unsigned_asn1_integer :: "cbs \<Rightarrow> bool" where
  "CBS_is_unsigned_asn1_integer c \<longleftrightarrow>
     (case CBS_is_valid_asn1_integer c of None \<Rightarrow> False | Some is_negative \<Rightarrow> \<not> is_negative)"

fun asn1_uint64_loop :: "u64 \<Rightarrow> bytes \<Rightarrow> u64 option" where
  "asn1_uint64_loop out [] = Some out"
| "asn1_uint64_loop out (b # data) =
     (if drop_bit 56 out \<noteq> 0 then None
      else asn1_uint64_loop (push_bit 8 out OR ucast b) data)"

definition CBS_get_asn1_uint64 :: "cbs \<Rightarrow> u64 option \<times> cbs" where
  "CBS_get_asn1_uint64 c =
     and_then (CBS_get_asn1 c CBS_ASN1_INTEGER) (\<lambda>bytes c'.
       if CBS_is_unsigned_asn1_integer bytes
       then (asn1_uint64_loop 0 (cbs_bytes bytes), c') else (None, c'))"

definition CBS_get_asn1_int64 :: "cbs \<Rightarrow> u64 option \<times> cbs" where
  "CBS_get_asn1_int64 c =
     and_then (CBS_get_asn1 c CBS_ASN1_INTEGER) (\<lambda>bytes c'.
       case CBS_is_valid_asn1_integer bytes of
         None \<Rightarrow> (None, c')
       | Some is_negative \<Rightarrow>
           let data = cbs_data bytes; len = unat (cbs_len bytes)
           in if len > 8 then (None, c')
              else let u = foldl (\<lambda>u i. u[i := data ! (len - i - 1)])
                             (replicate 8 (if is_negative then 0xff else 0)) [0..<len]
                   in (Some (of_nat (be_val (rev u))), c'))"

definition CBS_get_asn1_bool :: "cbs \<Rightarrow> bool option \<times> cbs" where
  "CBS_get_asn1_bool c =
     and_then (CBS_get_asn1 c CBS_ASN1_BOOLEAN) (\<lambda>bytes c'.
       if cbs_len bytes \<noteq> 1 then (None, c')
       else let value = cbs_data bytes ! 0
            in if value \<noteq> 0 \<and> value \<noteq> 0xff then (None, c') else (Some (value \<noteq> 0), c'))"

text \<open>The out-parameters \<open>out\<close> and \<open>out_present\<close> together: \<open>None\<close> for an absent element.\<close>

definition CBS_get_optional_asn1 :: "cbs \<Rightarrow> u32 \<Rightarrow> cbs option option \<times> cbs" where
  "CBS_get_optional_asn1 c tag =
     (if CBS_peek_asn1_tag c tag
      then and_then (CBS_get_asn1 c tag) (\<lambda>out c'. (Some (Some out), c'))
      else (Some None, c))"

definition CBS_get_optional_asn1_octet_string :: "cbs \<Rightarrow> u32 \<Rightarrow> (cbs \<times> bool) option \<times> cbs" where
  "CBS_get_optional_asn1_octet_string c tag =
     and_then (CBS_get_optional_asn1 c tag) (\<lambda>child c'.
       case child of
         Some child \<Rightarrow>
           (case CBS_get_asn1 child CBS_ASN1_OCTETSTRING of
              (None, _) \<Rightarrow> (None, c')
            | (Some out, child') \<Rightarrow>
                if cbs_len child' \<noteq> 0 then (None, c') else (Some (out, True), c'))
       | None \<Rightarrow> (Some (CBS_init [] 0, False), c'))"

definition CBS_get_optional_asn1_uint64 :: "cbs \<Rightarrow> u32 \<Rightarrow> u64 \<Rightarrow> u64 option \<times> cbs" where
  "CBS_get_optional_asn1_uint64 c tag default_value =
     and_then (CBS_get_optional_asn1 c tag) (\<lambda>child c'.
       case child of
         Some child \<Rightarrow>
           (case CBS_get_asn1_uint64 child of
              (None, _) \<Rightarrow> (None, c')
            | (Some out, child') \<Rightarrow>
                if cbs_len child' \<noteq> 0 then (None, c') else (Some out, c'))
       | None \<Rightarrow> (Some default_value, c'))"

definition CBS_get_optional_asn1_bool :: "cbs \<Rightarrow> u32 \<Rightarrow> bool \<Rightarrow> bool option \<times> cbs" where
  "CBS_get_optional_asn1_bool c tag default_value =
     and_then (CBS_get_optional_asn1 c tag) (\<lambda>child c'.
       case child of
         Some child \<Rightarrow>
           (case CBS_get_asn1 child CBS_ASN1_BOOLEAN of
              (None, _) \<Rightarrow> (None, c')
            | (Some child2, child') \<Rightarrow>
                if cbs_len child2 \<noteq> 1 \<or> cbs_len child' \<noteq> 0 then (None, c')
                else let boolean = cbs_data child2 ! 0
                     in if boolean = 0 then (Some False, c')
                        else if boolean = 0xff then (Some True, c')
                        else (None, c'))
       | None \<Rightarrow> (Some default_value, c'))"

definition CBS_is_valid_asn1_bitstring :: "cbs \<Rightarrow> bool" where
  "CBS_is_valid_asn1_bitstring c \<longleftrightarrow>
     (case CBS_get_u8 c of
        (None, _) \<Rightarrow> False
      | (Some num_unused_bits, inp) \<Rightarrow>
          if num_unused_bits > 7 then False
          else if num_unused_bits = 0 then True
          else case CBS_get_last_u8 inp of
                 (None, _) \<Rightarrow> False
               | (Some last_byte, _) \<Rightarrow> last_byte AND (push_bit (unat num_unused_bits) 1 - 1) = 0)"

definition CBS_asn1_bitstring_has_bit :: "cbs \<Rightarrow> u32 \<Rightarrow> bool" where
  "CBS_asn1_bitstring_has_bit c bit_index \<longleftrightarrow>
     (if \<not> CBS_is_valid_asn1_bitstring c then False
      else let byte_num = drop_bit 3 bit_index + 1; bit_num = 7 - (bit_index AND 7)
           in ucast byte_num < cbs_len c
              \<and> cbs_data c ! unat byte_num AND push_bit (unat bit_num) 1 \<noteq> 0)"

subsection \<open>Element contents\<close>

definition p_asn1 :: "nat \<Rightarrow> bytes \<Rightarrow> bytes parse" where
  "p_asn1 t bs =
     Option.bind (p_element False bs) (\<lambda>((x, t', hl, _), rest).
       if t' \<noteq> t then None else Some (drop hl x, rest))"

lemma p_asn1_iff:
  "p_asn1 t bs = Some (content, rest) \<longleftrightarrow>
   t < 2 ^ 32 \<and> length content < 2 ^ 32 \<and> bs = der_enc t content @ rest"
proof
  assume "p_asn1 t bs = Some (content, rest)"
  then obtain x hl bf where "p_element False bs = Some ((x, t, hl, bf), rest)" "content = drop hl x"
    by (auto simp: p_asn1_def bind_eq_Some_conv split: if_splits)
  then show "t < 2 ^ 32 \<and> length content < 2 ^ 32 \<and> bs = der_enc t content @ rest"
    by (auto simp: p_element_der_iff der_enc_def)
next
  assume "t < 2 ^ 32 \<and> length content < 2 ^ 32 \<and> bs = der_enc t content @ rest"
  then show "p_asn1 t bs = Some (content, rest)"
    by (simp add: p_asn1_def p_element_der_complete) (simp add: der_enc_def)
qed

lemma skip_view:
  assumes "cbs_view out x" and "unat hl \<le> length x"
  obtains out' where "CBS_skip out hl = (Some (), out')" and "cbs_view out' (drop (unat hl) x)"
  using CBS_skip_refines [OF assms(1), of hl] assms(2)
  by (auto simp: p_take_def dest!: refines_SomeD)

lemma CBS_get_any_asn1_element_refines:
  "cbs_view c bs \<Longrightarrow>
   refines (\<lambda>(out, tag, hl) (x, t, n, b). cbs_view out x \<and> unat tag = t \<and> unat hl = n)
     (CBS_get_any_asn1_element c) (p_element False bs)"
  using cbs_get_any_asn1_element_refines [of c bs False]
  by (auto simp: CBS_get_any_asn1_element_def refines_def and_then_def element_rel_def
      split: prod.splits option.splits)

lemma cbs_get_asn1_cases:
  assumes "cbs_view c bs"
  shows "refines cbs_view (cbs_get_asn1 c tag skip)
    (Option.bind (p_element False bs) (\<lambda>((x, t', hl, _), rest).
       if t' \<noteq> unat tag then None else Some (if skip then drop hl x else x, rest)))"
  unfolding cbs_get_asn1_def
proof (rule refines_bind [OF CBS_get_any_asn1_element_refines [OF assms]], goal_cases)
  case (1 r c' y rest)
  obtain out tg hl where r: "r = (out, tg, hl)" by (metis prod.collapse)
  obtain x t n b where y: "y = (x, t, n, b)" by (metis prod.collapse)
  from 1 r y have v: "cbs_view out x" "unat tg = t" "unat hl = n" "cbs_view c' rest" by auto
  have "n \<le> length x" using 1(3) y by (auto simp: p_element_der_iff)
  with v(3) skip_view [OF v(1), of hl] obtain out' where
    "CBS_skip out hl = (Some (), out')" "cbs_view out' (drop n x)" by metis
  with v show ?case by (auto simp: r y cbs_view_ok word_unat_eq_iff)
qed

lemma CBS_get_asn1_refines:
  "cbs_view c bs \<Longrightarrow> refines cbs_view (CBS_get_asn1 c tag) (p_asn1 (unat tag) bs)"
  using cbs_get_asn1_cases [of c bs tag True] unfolding CBS_get_asn1_def p_asn1_def if_True .

lemma CBS_peek_asn1_tag_iff:
  assumes "cbs_view c bs"
  shows "CBS_peek_asn1_tag c tag \<longleftrightarrow> (\<exists>rest. bs = tag_enc (unat tag) @ rest)"
proof -
  have e: "cbs_len c < 1 \<longleftrightarrow> bs = []"
    using cbs_view_len [OF assms] by (auto simp: word_less_nat_alt)
  have "(\<exists>rest. bs = tag_enc (unat tag) @ rest) \<longleftrightarrow> (\<exists>rest. p_tag bs = Some (unat tag, rest))"
    by (simp add: p_tag_iff)
  moreover have "p_tag [] = None" by (simp add: p_tag_def)
  ultimately show ?thesis
    using parse_asn1_tag_refines [OF assms] e
    by (auto simp: CBS_peek_asn1_tag_def refines_def word_unat_eq_iff split: option.splits prod.splits)
qed

subsection \<open>INTEGER contents\<close>

text \<open>
  \<open>tc_val\<close>: two's complement value of the contents; \<open>int_ok\<close>: the contents are not empty and the first
  nine bits are not all equal. A value has at most one such encoding.
\<close>

definition tc_val :: "bytes \<Rightarrow> int" where
  "tc_val bs = int (be_val bs) - (if 128 \<le> unat (hd bs) then 256 ^ length bs else 0)"

fun int_ok :: "bytes \<Rightarrow> bool" where
  "int_ok [] = False"
| "int_ok [b] = True"
| "int_ok (b1 # b2 # bs) \<longleftrightarrow> \<not> (b1 = 0 \<and> unat b2 < 128) \<and> \<not> (b1 = 0xff \<and> 128 \<le> unat b2)"

lemma be_val_less_int: "int (be_val xs) < 256 ^ length xs"
  using be_val_less [of xs] by (metis of_nat_less_iff of_nat_numeral of_nat_power)

lemma tc_val_range:
  assumes "bs \<noteq> []"
  shows "- (128 * 256 ^ (length bs - 1)) \<le> tc_val bs" "tc_val bs < 128 * 256 ^ (length bs - 1)"
proof -
  obtain b xs where bs: "bs = b # xs" using assms by (cases bs) auto
  have len: "length bs - 1 = length xs" by (simp add: bs)
  let ?p = "256 ^ length xs :: int"
  have x: "0 \<le> int (be_val xs)" "int (be_val xs) < ?p"
    using be_val_less_int [of xs] by simp_all
  define n where "n = unat b"
  define k where "k = int n - (if 128 \<le> n then 256 else 0)"
  have "tc_val bs = k * ?p + int (be_val xs)"
    by (simp add: tc_val_def bs be_val_Cons k_def n_def algebra_simps)
  moreover have "n < 256" by (simp add: n_def)
  then have k: "-128 \<le> k" "k \<le> 127" by (auto simp: k_def)
  moreover have "-128 * ?p \<le> k * ?p" "k * ?p \<le> 127 * ?p"
    using k by (intro mult_right_mono; simp)+
  ultimately show "- (128 * 256 ^ (length bs - 1)) \<le> tc_val bs" "tc_val bs < 128 * 256 ^ (length bs - 1)"
    using x unfolding len by linarith+
qed

lemma tc_val_minimal:
  assumes "int_ok bs" and "2 \<le> length bs"
  shows "tc_val bs < - (128 * 256 ^ (length bs - 2)) \<or> 128 * 256 ^ (length bs - 2) \<le> tc_val bs"
proof -
  obtain b1 b2 xs where bs: "bs = b1 # b2 # xs" using assms(2)
    by (cases bs rule: int_ok.cases) auto
  let ?p = "256 ^ length xs :: int"
  have x: "0 \<le> int (be_val xs)" "int (be_val xs) < ?p"
    using be_val_less_int [of xs] by simp_all
  define n1 n2 where "n1 = unat b1" and "n2 = unat b2"
  define k where "k = (int n1 - (if 128 \<le> n1 then 256 else 0)) * 256 + int n2"
  have tc: "tc_val bs = k * ?p + int (be_val xs)"
    by (simp add: tc_val_def bs be_val_Cons k_def n1_def n2_def algebra_simps)
  have "n1 = 0 \<longrightarrow> 128 \<le> n2" "n1 = 255 \<longrightarrow> n2 < 128"
    using assms(1) bs by (auto simp: word_unat_eq_iff not_less n1_def n2_def)
  moreover have "n1 < 256" "n2 < 256" by (simp_all add: n1_def n2_def)
  ultimately have "k \<le> -129 \<or> 128 \<le> k"
    by (auto simp: k_def split: if_splits)
  then have "k * ?p \<le> -129 * ?p \<or> 128 * ?p \<le> k * ?p"
    by (elim disj_forward; intro mult_right_mono; simp)
  moreover have len: "length bs - 2 = length xs" by (simp add: bs)
  ultimately show ?thesis using x unfolding tc len by linarith
qed

lemma int_ok_unique_length:
  assumes "int_ok xs" "int_ok ys" "tc_val xs = tc_val ys"
  shows "length xs \<le> length ys"
proof (rule ccontr)
  assume "\<not> length xs \<le> length ys"
  then have l: "length ys - 1 \<le> length xs - 2" "2 \<le> length xs"
    using assms(2) by (cases ys; auto)+
  then have "(128::int) * 256 ^ (length ys - 1) \<le> 128 * 256 ^ (length xs - 2)"
    by (intro mult_left_mono power_increasing) auto
  moreover have "ys \<noteq> []" using assms(2) by auto
  ultimately show False
    using tc_val_minimal [OF assms(1) l(2)] tc_val_range [of ys] assms(3) by linarith
qed

lemma int_ok_unique:
  assumes "int_ok xs" "int_ok ys" "tc_val xs = tc_val ys"
  shows "xs = ys"
proof -
  have l: "length xs = length ys"
    using int_ok_unique_length assms by (metis le_antisym)
  have "int (be_val xs) < 256 ^ length ys" "int (be_val ys) < 256 ^ length ys"
    using be_val_less_int [of xs] be_val_less_int [of ys] l by simp_all
  then have "int (be_val xs) = int (be_val ys)"
    using assms(3) l unfolding tc_val_def
    by (cases "128 \<le> unat (hd xs)"; cases "128 \<le> unat (hd ys)"; simp only: if_True if_False; linarith)
  with l show ?thesis by (intro be_val_cong) auto
qed

lemma CBS_is_valid_asn1_integer_eq:
  assumes "cbs_view c bs"
  shows "CBS_is_valid_asn1_integer c = (if int_ok bs then Some (128 \<le> unat (hd bs)) else None)"
proof (cases bs)
  case Nil
  with CBS_get_u8_refines [OF assms] show ?thesis
    by (auto simp: CBS_is_valid_asn1_integer_def dest!: refines_NoneD)
next
  case (Cons b1 bs1)
  with CBS_get_u8_refines [OF assms] obtain c1 where
    c1: "CBS_get_u8 c = (Some b1, c1)" "cbs_view c1 bs1" by (auto dest!: refines_SomeD)
  show ?thesis
  proof (cases bs1)
    case Nil
    with CBS_get_u8_refines [OF c1(2)] c1 Cons show ?thesis
      by (auto simp: CBS_is_valid_asn1_integer_def not_less dest!: refines_NoneD)
  next
    case (Cons b2 bs2)
    with CBS_get_u8_refines [OF c1(2)] obtain c2 where "CBS_get_u8 c1 = (Some b2, c2)"
      by (auto dest!: refines_SomeD)
    with c1 Cons \<open>bs = b1 # bs1\<close> show ?thesis
      by (auto simp: CBS_is_valid_asn1_integer_def not_less)
  qed
qed

lemma CBS_is_unsigned_asn1_integer_iff:
  "cbs_view c bs \<Longrightarrow> CBS_is_unsigned_asn1_integer c \<longleftrightarrow> int_ok bs \<and> unat (hd bs) < 128"
  by (auto simp: CBS_is_unsigned_asn1_integer_def CBS_is_valid_asn1_integer_eq)

lemma asn1_uint64_loop_eq:
  "asn1_uint64_loop v bs =
   (if unat v * 256 ^ length bs + be_val bs < 2 ^ 64
    then Some (of_nat (unat v * 256 ^ length bs + be_val bs)) else None)"
proof (induction v bs rule: asn1_uint64_loop.induct)
  case (1 out)
  then show ?case by (simp add: ucast_id)
next
  case (2 out b data)
  show ?case
  proof (cases "unat out < 2 ^ 56")
    case True
    then have "drop_bit 56 out = 0" by (simp add: unat_shr div_eq_0_iff flip: unat_eq_0)
    moreover have "unat (push_bit 8 out OR ucast b) = unat out * 256 + unat b"
      using True by (simp add: unat_shl_or)
    ultimately show ?thesis
      using "2.IH" by (simp add: be_val_Cons algebra_simps)
  next
    case False
    then have "drop_bit 56 out \<noteq> 0" by (auto simp: unat_shr div_eq_0_iff simp flip: unat_eq_0)
    moreover have "2 ^ 56 * 256 * 1 \<le> unat out * 256 * 256 ^ length data"
      using False by (intro mult_le_mono) auto
    ultimately show ?thesis by (simp add: be_val_Cons algebra_simps)
  qed
qed

subsection \<open>The integer readers\<close>

definition p_uint64 :: "bytes \<Rightarrow> nat parse" where
  "p_uint64 bs =
     Option.bind (p_asn1 2 bs) (\<lambda>(x, rest).
       if int_ok x \<and> unat (hd x) < 128 \<and> be_val x < 2 ^ 64 then Some (be_val x, rest) else None)"

lemma unat_INTEGER [simp]: "unat CBS_ASN1_INTEGER = 2"
  by (simp add: CBS_ASN1_INTEGER_def)

lemma CBS_get_asn1_uint64_refines:
  assumes "cbs_view c bs"
  shows "refines (\<lambda>v n. unat v = n) (CBS_get_asn1_uint64 c) (p_uint64 bs)"
proof -
  have r: "refines cbs_view (CBS_get_asn1 c CBS_ASN1_INTEGER) (p_asn1 2 bs)"
    using CBS_get_asn1_refines [OF assms, of CBS_ASN1_INTEGER] by simp
  show ?thesis
    unfolding CBS_get_asn1_uint64_def p_uint64_def
  proof (rule refines_bind [OF r], goal_cases)
    case (1 x c y bs)
    then have "cbs_bytes x = y" by (simp add: cbs_view_def)
    with 1 show ?case
      by (auto simp: CBS_is_unsigned_asn1_integer_iff asn1_uint64_loop_eq cbs_view_ok unat_of_nat
          not_less)
  qed
qed

lemma int_ok_uint64_length:
  assumes "int_ok x" "tc_val x < 2 ^ 64" "- (2 ^ 63) \<le> tc_val x"
  shows "length x \<le> 9"
proof (rule ccontr)
  assume "\<not> length x \<le> 9"
  then have "(128::int) * 256 ^ 8 \<le> 128 * 256 ^ (length x - 2)"
    by (intro mult_left_mono power_increasing) auto
  with tc_val_minimal [OF assms(1)] assms(2,3) \<open>\<not> length x \<le> 9\<close> show False by force
qed

lemma p_uint64_iff:
  "p_uint64 bs = Some (v, rest) \<longleftrightarrow>
   v < 2 ^ 64 \<and> (\<exists>x. int_ok x \<and> tc_val x = int v \<and> bs = der_enc 2 x @ rest)"
proof
  assume "p_uint64 bs = Some (v, rest)"
  then obtain x where "p_asn1 2 bs = Some (x, rest)" "int_ok x" "unat (hd x) < 128"
      "be_val x < 2 ^ 64" "v = be_val x"
    by (auto simp: p_uint64_def bind_eq_Some_conv split: if_splits)
  then show "v < 2 ^ 64 \<and> (\<exists>x. int_ok x \<and> tc_val x = int v \<and> bs = der_enc 2 x @ rest)"
    by (auto simp: p_asn1_iff tc_val_def intro!: exI [of _ x])
next
  assume "v < 2 ^ 64 \<and> (\<exists>x. int_ok x \<and> tc_val x = int v \<and> bs = der_enc 2 x @ rest)"
  then obtain x where x: "v < 2 ^ 64" "int_ok x" "tc_val x = int v" "bs = der_enc 2 x @ rest"
    by blast
  then have "int v < 2 ^ 64" by (metis of_nat_less_iff of_nat_numeral of_nat_power)
  with x have l: "length x \<le> 9" using int_ok_uint64_length [of x] by simp
  have hd: "unat (hd x) < 128"
  proof (rule ccontr)
    assume "\<not> unat (hd x) < 128"
    then have "tc_val x < 0" using be_val_less_int [of x] by (simp add: tc_val_def)
    with x show False by simp
  qed
  have "length x < 2 ^ 32" using l by simp
  then have "p_asn1 2 bs = Some (x, rest)" using x by (simp add: p_asn1_iff)
  moreover have "be_val x = v" using x hd by (simp add: tc_val_def)
  ultimately show "p_uint64 bs = Some (v, rest)" using x hd by (simp add: p_uint64_def)
qed

definition p_int64 :: "bytes \<Rightarrow> int parse" where
  "p_int64 bs =
     Option.bind (p_asn1 2 bs) (\<lambda>(x, rest).
       if int_ok x \<and> length x \<le> 8 then Some (tc_val x, rest) else None)"

lemma foldl_list_update:
  "n \<le> k \<Longrightarrow> foldl (\<lambda>u i. u[i := f i]) (replicate k z) [0..<n] = map f [0..<n] @ replicate (k - n) z"
proof (induction n)
  case (Suc n)
  then have "replicate (k - n) z = z # replicate (k - Suc n) z"
    by (metis Suc_diff_Suc Suc_le_eq replicate_Suc)
  with Suc show ?case by (simp add: list_update_append)
qed simp

lemma be_val_fill:
  assumes "length x \<le> 8"
  shows "be_val (replicate (8 - length x) 0 @ x) = be_val x"
    and "int (be_val (replicate (8 - length x) 0xff @ x)) = 2 ^ 64 - 256 ^ length x + int (be_val x)"
proof -
  have z: "be_val (replicate n 0) = 0" for n
    by (induction n) (simp_all add: be_val_Cons)
  then show "be_val (replicate (8 - length x) 0 @ x) = be_val x" by (simp add: be_val_append)
  have f: "int (be_val (replicate n 0xff)) = 256 ^ n - 1" for n
    by (induction n) (simp_all add: be_val_Cons)
  have "(256::int) ^ (8 - length x) * 256 ^ length x = 256 ^ 8"
    using assms by (simp flip: power_add)
  then show "int (be_val (replicate (8 - length x) 0xff @ x)) = 2 ^ 64 - 256 ^ length x + int (be_val x)"
    by (simp add: be_val_append f left_diff_distrib)
qed

lemma sint_of_nat_u64:
  assumes "n < 2 ^ 64"
  shows "sint (of_nat n :: u64) = (if n < 2 ^ 63 then int n else int n - 2 ^ 64)"
proof -
  have u: "uint (of_nat n :: u64) = int n"
    using assms by (simp add: unsigned_of_nat take_bit_nat_eq_self)
  have "int n < 2 ^ 64" using assms by simp
  moreover have "(int n + 2 ^ 63) mod 2 ^ 64 = (int n - 2 ^ 63) mod 2 ^ 64"
    using minus_mod_self2 [of "int n + 2 ^ 63" "2 ^ 64"] by simp
  ultimately have "(int n + 2 ^ 63) mod 2 ^ 64 = (if n < 2 ^ 63 then int n + 2 ^ 63 else int n - 2 ^ 63)"
    by auto
  then show ?thesis
    by (simp add: u sint_uint signed_take_bit_eq_take_bit_shift take_bit_eq_mod)
qed

lemma tc_val_fill:
  assumes "int_ok x" and "length x \<le> 8"
  shows "sint (of_nat (be_val (replicate (8 - length x) (if unat (hd x) < 128 then 0 else 0xff) @ x)) :: u64)
    = tc_val x"
proof -
  have l: "(256::int) ^ length x = 256 * 256 ^ (length x - 1)"
    using assms(1) by (cases x) auto
  have ne: "x \<noteq> []" using assms(1) by auto
  have p: "(256::int) ^ (length x - 1) \<le> 256 ^ 7"
    using assms(2) by (intro power_increasing) auto
  show ?thesis
  proof (cases "unat (hd x) < 128")
    case True
    then have t: "tc_val x = int (be_val x)" by (simp add: tc_val_def)
    then have "int (be_val x) < 2 ^ 63"
      using tc_val_range [OF ne] p by auto
    then have "be_val x < 2 ^ 63" by (metis of_nat_less_iff of_nat_numeral of_nat_power)
    with True t show ?thesis
      by (simp add: be_val_fill(1) [OF assms(2)] sint_of_nat_u64)
  next
    case False
    then have t: "tc_val x = int (be_val x) - 256 ^ length x" by (simp add: tc_val_def)
    define m where "m = be_val (replicate (8 - length x) 0xff @ x)"
    have m: "int m = 2 ^ 64 + tc_val x"
      using be_val_fill(2) [OF assms(2)] t by (simp add: m_def)
    moreover have "- (2 ^ 63) \<le> tc_val x" "tc_val x < 0"
      using tc_val_range [OF ne] p False be_val_less_int [of x] t by auto
    ultimately have "m < 2 ^ 64" "\<not> m < 2 ^ 63" by simp_all
    with False m show ?thesis by (simp add: m_def [symmetric] sint_of_nat_u64)
  qed
qed

lemma CBS_get_asn1_int64_refines:
  assumes "cbs_view c bs"
  shows "refines (\<lambda>v n. sint v = n) (CBS_get_asn1_int64 c) (p_int64 bs)"
proof -
  have r: "refines cbs_view (CBS_get_asn1 c CBS_ASN1_INTEGER) (p_asn1 2 bs)"
    using CBS_get_asn1_refines [OF assms, of CBS_ASN1_INTEGER] by simp
  show ?thesis
    unfolding CBS_get_asn1_int64_def p_int64_def
  proof (rule refines_bind [OF r], goal_cases)
    case (1 x c y bs)
    have l: "unat (cbs_len x) = length y" using 1 by (simp add: cbs_view_len)
    have fill: "rev (foldl (\<lambda>u i. u[i := cbs_data x ! (length y - i - 1)]) (replicate 8 z) [0..<length y])
        = replicate (8 - length y) z @ y" if "length y \<le> 8" for z
    proof -
      have "map (\<lambda>i. cbs_data x ! (length y - i - 1)) [0..<length y] = rev y"
        using cbs_view_nth [OF 1(1)] by (intro nth_equalityI) (auto simp: rev_nth)
      then show ?thesis using that by (simp add: foldl_list_update)
    qed
    show ?case
    proof (cases "int_ok y \<and> length y \<le> 8")
      case True
      then have "sint (of_nat (be_val (rev (foldl (\<lambda>u i. u[i := cbs_data x ! (length y - i - 1)])
          (replicate 8 (if 128 \<le> unat (hd y) then 0xff else 0)) [0..<length y]))) :: u64) = tc_val y"
        using True tc_val_fill [of y] unfolding fill [OF conjunct2 [OF True]] not_less [symmetric]
        by (cases "unat (hd y) < 128") simp_all
      with True 1 show ?thesis by (simp add: l CBS_is_valid_asn1_integer_eq Let_def)
    next
      case False
      with 1 show ?thesis by (auto simp: l CBS_is_valid_asn1_integer_eq cbs_view_ok)
    qed
  qed
qed

text \<open>The minimal contents of a non-negative and of a negative INTEGER.\<close>

fun int_len :: "nat \<Rightarrow> nat" where
  "int_len v = (if v < 128 then 1 else Suc (int_len (v div 256)))"

declare int_len.simps [simp del]

definition int_contents :: "int \<Rightarrow> bytes" where
  "int_contents i =
     (if 0 \<le> i then be_bytes (int_len (nat i)) (nat i)
      else map NOT (be_bytes (int_len (nat (- i - 1))) (nat (- i - 1))))"

lemma int_len_bounds: "1 \<le> int_len v \<and> v < 128 * 256 ^ (int_len v - 1) \<and> (1 < int_len v \<longrightarrow> 128 * 256 ^ (int_len v - 2) \<le> v)"
proof (induction v rule: int_len.induct)
  case (1 v)
  show ?case
  proof (cases "v < 128")
    case False
    define k where "k = int_len (v div 256)"
    have IH: "1 \<le> k" "v div 256 < 128 * 256 ^ (k - 1)" "1 < k \<longrightarrow> 128 * 256 ^ (k - 2) \<le> v div 256"
      using 1 [OF False] by (simp_all add: k_def)
    have len: "int_len v = Suc k" using False by (simp add: int_len.simps [of v] k_def)
    obtain j where j: "k = Suc j" using IH(1) by (cases k) auto
    have "v < 128 * 256 ^ k" using IH(2) by (simp add: j div_less_iff_less_mult algebra_simps)
    moreover have "128 * 256 ^ (k - 1) \<le> v"
      using IH(3) False by (cases j) (auto simp: j less_eq_div_iff_mult_less_eq algebra_simps)
    ultimately show ?thesis by (simp add: len)
  qed (simp add: int_len.simps [of v])
qed

lemma unat_NOT_u8: "unat (NOT b :: u8) = 255 - unat b"
proof -
  have "uint (NOT b) = (- uint b - 1) mod 256"
    by (simp only: unsigned_not_eq) (simp add: not_int_def take_bit_eq_mod)
  also have "\<dots> = (255 - uint b) mod 256"
    using mod_add_self2 [of "- uint b - 1" 256] by simp
  also have "\<dots> = 255 - uint b" 
  proof -
    have "uint b < 256" "0 \<le> uint b" using uint_bounded [of b] by simp_all
    then show ?thesis by (intro mod_pos_pos_trivial; linarith)
  qed
  finally have "int (unat (NOT b)) = 255 - int (unat b)" by simp
  then show ?thesis using unat_u8_less [of b] by linarith
qed

lemma be_val_NOT: "be_val (map NOT xs) + be_val xs + 1 = 256 ^ length xs"
proof (induction xs)
  case (Cons b xs)
  have "unat (NOT b) + unat b = 255" using unat_u8_less [of b] unfolding unat_NOT_u8 by linarith
  then have "unat (NOT b) * 256 ^ length xs + unat b * 256 ^ length xs = 255 * 256 ^ length xs"
    by (metis add_mult_distrib)
  with Cons show ?case by (simp add: be_val_Cons)
qed simp

lemma hd_NOT: "xs \<noteq> [] \<Longrightarrow> unat (hd (map NOT xs :: bytes)) < 128 \<longleftrightarrow> 128 \<le> unat (hd xs)"
  using unat_u8_less [of "hd xs"] by (simp add: hd_map unat_NOT_u8 del: unat_u8_less) linarith

lemma tc_val_NOT: "xs \<noteq> [] \<Longrightarrow> tc_val (map NOT xs) = - tc_val xs - 1"
proof -
  assume ne: "xs \<noteq> []"
  have "int (be_val (map NOT xs) + be_val xs + 1) = int (256 ^ length xs)" by (simp only: be_val_NOT)
  then have "int (be_val (map NOT xs)) + int (be_val xs) + 1 = 256 ^ length xs" by simp
  then show ?thesis
    using hd_NOT [OF ne] unfolding tc_val_def length_map
    by (cases "128 \<le> unat (hd xs)"; cases "128 \<le> unat (hd (map NOT xs))"; simp only: if_True if_False; linarith)
qed

lemma int_ok_NOT: "int_ok (map NOT xs) = int_ok xs"
proof (cases xs rule: int_ok.cases)
  case (3 a b ys)
  have n: "NOT a = 0 \<longleftrightarrow> a = 0xff" "NOT a = 0xff \<longleftrightarrow> a = 0"
    using unat_u8_less [of a] by (auto simp: word_unat_eq_iff unat_NOT_u8 simp del: unat_u8_less)
  have "unat (NOT b) < 128 \<longleftrightarrow> 128 \<le> unat b" using hd_NOT [of "[b]"] by simp
  with n show ?thesis by (simp add: 3 not_less [symmetric]) blast
qed auto

lemma be_bytes_int_len:
  fixes v
  defines "x \<equiv> be_bytes (int_len v) v"
  shows "int_ok x" "unat (hd x) < 128" "be_val x = v"
proof -
  note b = int_len_bounds [of v]
  have l: "length x = int_len v" by (simp add: x_def)
  then obtain h t where x: "x = h # t" using b by (cases x) auto
  have "v < 256 ^ length x" using b l by (cases "int_len v") auto
  then show v: "be_val x = v" by (simp add: x_def be_val_be_bytes_id)
  have h: "unat h < 128"
  proof (rule ccontr)
    assume "\<not> unat h < 128"
    then have "128 * 256 ^ length t \<le> unat h * 256 ^ length t" by simp
    moreover have "v = unat h * 256 ^ length t + be_val t" using v by (simp add: x be_val_Cons)
    moreover have "v < 128 * 256 ^ length t" using b l [symmetric] by (simp add: x)
    ultimately show False by linarith
  qed
  then show "unat (hd x) < 128" by (simp add: x)
  show "int_ok x"
  proof (cases t)
    case (Cons k t')
    have "h = 0 \<Longrightarrow> \<not> unat k < 128"
    proof
      assume h0: "h = 0" and k: "unat k < 128"
      have "(unat k + 1) * 256 ^ length t' \<le> 128 * 256 ^ length t'" using k by (intro mult_le_mono1) simp
      moreover have "v = unat k * 256 ^ length t' + be_val t'" using v by (simp add: x Cons be_val_Cons h0)
      ultimately have "v < 128 * 256 ^ length t'"
        using be_val_less [of t'] unfolding add_mult_distrib by linarith
      with b l [symmetric] show False by (simp add: x Cons)
    qed
    moreover have "h \<noteq> 0xff" using h by auto
    ultimately show ?thesis by (auto simp: x Cons)
  qed (simp add: x)
qed

lemma int_contents_ok: "int_ok (int_contents i)" "tc_val (int_contents i) = i"
proof -
  have ne: "be_bytes (int_len v) v \<noteq> []" for v using int_len_bounds [of v] by (auto simp flip: length_0_conv)
  have t: "tc_val (be_bytes (int_len v) v) = int v" for v
    using be_bytes_int_len [of v] by (simp add: tc_val_def)
  show "int_ok (int_contents i)" by (simp add: int_contents_def be_bytes_int_len int_ok_NOT)
  show "tc_val (int_contents i) = i" by (simp add: int_contents_def t tc_val_NOT [OF ne])
qed

lemma int_ok_iff: "int_ok x \<and> tc_val x = i \<longleftrightarrow> x = int_contents i"
  using int_contents_ok [of i] int_ok_unique [of x "int_contents i"] by auto

lemma p_uint64_codec:
  "p_uint64 bs = Some (v, rest) \<longleftrightarrow> v < 2 ^ 64 \<and> bs = der_enc 2 (int_contents (int v)) @ rest"
  by (auto simp: p_uint64_iff int_ok_iff simp flip: conj_assoc)

lemma int_ok_length8:
  assumes "int_ok x"
  shows "length x \<le> 8 \<longleftrightarrow> - (2 ^ 63) \<le> tc_val x \<and> tc_val x < 2 ^ 63"
proof
  assume "length x \<le> 8"
  then have "(128::int) * 256 ^ (length x - 1) \<le> 128 * 256 ^ 7"
    by (intro mult_left_mono power_increasing) auto
  moreover have "x \<noteq> []" using assms by auto
  ultimately show "- (2 ^ 63) \<le> tc_val x \<and> tc_val x < 2 ^ 63" using tc_val_range [of x] by auto
next
  assume r: "- (2 ^ 63) \<le> tc_val x \<and> tc_val x < 2 ^ 63"
  show "length x \<le> 8"
  proof (rule ccontr)
    assume "\<not> length x \<le> 8"
    then have "(128::int) * 256 ^ 7 \<le> 128 * 256 ^ (length x - 2)"
      by (intro mult_left_mono power_increasing) auto
    with tc_val_minimal [OF assms] r \<open>\<not> length x \<le> 8\<close> show False by force
  qed
qed

lemma p_int64_codec:
  "p_int64 bs = Some (v, rest) \<longleftrightarrow>
   (- (2 ^ 63) \<le> v \<and> v < 2 ^ 63) \<and> bs = der_enc 2 (int_contents v) @ rest"
proof -
  have "p_int64 bs = Some (v, rest) \<longleftrightarrow>
      (\<exists>x. p_asn1 2 bs = Some (x, rest) \<and> (int_ok x \<and> tc_val x = v) \<and> length x \<le> 8)"
    by (auto simp: p_int64_def bind_eq_Some_conv split: if_splits)
  also have "\<dots> \<longleftrightarrow> length (int_contents v) \<le> 8 \<and> bs = der_enc 2 (int_contents v) @ rest"
    by (auto simp: int_ok_iff p_asn1_iff)
  finally show ?thesis using int_ok_length8 [of "int_contents v"] int_contents_ok [of v] by simp
qed

subsection \<open>BOOLEAN\<close>

definition bool_contents :: "bool \<Rightarrow> bytes" where
  "bool_contents b = [if b then 0xff else 0]"

definition p_bool :: "bytes \<Rightarrow> bool parse" where
  "p_bool bs =
     Option.bind (p_asn1 1 bs) (\<lambda>(x, rest).
       if x = [0] then Some (False, rest) else if x = [0xff] then Some (True, rest) else None)"

lemma unat_BOOLEAN [simp]: "unat CBS_ASN1_BOOLEAN = 1"
  by (simp add: CBS_ASN1_BOOLEAN_def)

lemma unat_OCTETSTRING [simp]: "unat CBS_ASN1_OCTETSTRING = 4"
  by (simp add: CBS_ASN1_OCTETSTRING_def)

lemma p_bool_codec: "p_bool bs = Some (b, rest) \<longleftrightarrow> bs = der_enc 1 (bool_contents b) @ rest"
proof -
  have "p_bool bs = Some (b, rest) \<longleftrightarrow> p_asn1 1 bs = Some (bool_contents b, rest)"
  proof (cases "p_asn1 1 bs")
    case (Some a)
    obtain x r where a: "a = (x, r)" by (cases a)
    have "p_bool bs = (if x = [0] then Some (False, r) else if x = [0xff] then Some (True, r) else None)"
      unfolding p_bool_def Some a by simp
    then show ?thesis unfolding Some a by (cases b) (simp_all add: bool_contents_def)
  qed (simp add: p_bool_def)
  then show ?thesis by (simp add: p_asn1_iff bool_contents_def)
qed

lemma cbs_view_single:
  assumes "cbs_view x y"
  shows "cbs_len x = 1 \<longleftrightarrow> length y = 1" and "length y = 1 \<Longrightarrow> y = [cbs_data x ! 0]"
  using cbs_view_len [OF assms] cbs_view_nth [OF assms, of 0]
  by (auto simp: word_unat_eq_iff length_Suc_conv)

lemma CBS_get_asn1_bool_refines:
  assumes "cbs_view c bs"
  shows "refines (=) (CBS_get_asn1_bool c) (p_bool bs)"
proof -
  have r: "refines cbs_view (CBS_get_asn1 c CBS_ASN1_BOOLEAN) (p_asn1 1 bs)"
    using CBS_get_asn1_refines [OF assms, of CBS_ASN1_BOOLEAN] by simp
  show ?thesis
    unfolding CBS_get_asn1_bool_def p_bool_def
  proof (rule refines_bind [OF r], goal_cases)
    case (1 x c y bs)
    note s = cbs_view_single [OF 1(1)]
    show ?case
    proof (cases "length y = 1")
      case True
      then obtain b where "y = [b]" "cbs_data x ! 0 = b" using s(2) by (metis list.inject)
      with 1 s show ?thesis by (auto simp: Let_def cbs_view_ok)
    next
      case False
      then have "y \<noteq> [b]" for b by auto
      with 1 s False show ?thesis by (simp add: cbs_view_ok)
    qed
  qed
qed

subsection \<open>The readers as codecs\<close>

definition elem_rel :: "cbs \<times> u32 \<Rightarrow> nat \<times> bytes \<Rightarrow> bool" where
  "elem_rel = (\<lambda>(out, tag) (t, x). cbs_view out x \<and> unat tag = t)"

definition p_any :: "bytes \<Rightarrow> (nat \<times> bytes) parse" where
  "p_any bs = map_option (\<lambda>((x, t, hl, b), rest). ((t, drop hl x), rest)) (p_element False bs)"

lemma CBS_get_any_asn1_refines:
  assumes "cbs_view c bs"
  shows "refines elem_rel (CBS_get_any_asn1 c) (p_any bs)"
proof -
  have "p_any bs = Option.bind (p_element False bs) (\<lambda>((x, t, hl, b), rest). Some ((t, drop hl x), rest))"
    by (cases "p_element False bs") (auto simp: p_any_def)
  then show ?thesis
    unfolding CBS_get_any_asn1_def
  proof (simp only:, intro refines_bind [OF CBS_get_any_asn1_element_refines [OF assms]], goal_cases)
    case (1 r c' y rest)
    obtain out tg hl where r: "r = (out, tg, hl)" by (metis prod.collapse)
    obtain x t n b where y: "y = (x, t, n, b)" by (metis prod.collapse)
    from 1 r y have v: "cbs_view out x" "unat tg = t" "unat hl = n" "cbs_view c' rest" by auto
    have "p_element False bs = Some ((x, t, n, b), rest)" using 1 y by simp
    then have "n \<le> length x" by (auto simp: p_element_der_iff)
    with v(3) skip_view [OF v(1), of hl] obtain out' where
      "CBS_skip out hl = (Some (), out')" "cbs_view out' (drop n x)" by metis
    with v show ?case by (auto simp: r y elem_rel_def)
  qed
qed

lemma p_any_iff:
  "p_any bs = Some (v, rest) \<longleftrightarrow>
   (fst v < 2 ^ 32 \<and> length (snd v) < 2 ^ 32) \<and> bs = der_enc (fst v) (snd v) @ rest"
proof
  assume "p_any bs = Some (v, rest)"
  then show "(fst v < 2 ^ 32 \<and> length (snd v) < 2 ^ 32) \<and> bs = der_enc (fst v) (snd v) @ rest"
    by (cases v) (auto simp: p_any_def p_element_der_iff der_enc_def)
next
  assume "(fst v < 2 ^ 32 \<and> length (snd v) < 2 ^ 32) \<and> bs = der_enc (fst v) (snd v) @ rest"
  then show "p_any bs = Some (v, rest)"
    by (cases v) (simp add: p_any_def p_element_der_complete, simp add: der_enc_def)
qed

interpretation r_tag: cbs_codec parse_asn1_tag "\<lambda>t n. unat t = n" p_tag tag_enc "\<lambda>t. t < 2 ^ 32"
  by unfold_locales (simp_all add: parse_asn1_tag_refines p_tag_iff)

interpretation r_base128: cbs_codec parse_base128_integer "\<lambda>v n. unat v = n" "p_base128_from 0" base128_enc
    "\<lambda>v. v < 2 ^ 64"
  by unfold_locales (simp_all add: parse_base128_integer_refines p_base128_iff)

interpretation r_any: cbs_codec CBS_get_any_asn1 elem_rel p_any "\<lambda>(t, x). der_enc t x"
    "\<lambda>(t, x). t < 2 ^ 32 \<and> length x < 2 ^ 32"
  by unfold_locales (auto simp: CBS_get_any_asn1_refines p_any_iff)

interpretation r_uint64: cbs_codec CBS_get_asn1_uint64 "\<lambda>v n. unat v = n" p_uint64
    "\<lambda>v. der_enc 2 (int_contents (int v))" "\<lambda>v. v < 2 ^ 64"
  by unfold_locales (simp_all add: CBS_get_asn1_uint64_refines p_uint64_codec)

interpretation r_int64: cbs_codec CBS_get_asn1_int64 "\<lambda>v n. sint v = n" p_int64
    "\<lambda>v. der_enc 2 (int_contents v)" "\<lambda>v. - (2 ^ 63) \<le> v \<and> v < 2 ^ 63"
  by unfold_locales (simp_all add: CBS_get_asn1_int64_refines p_int64_codec)

interpretation r_bool: cbs_codec CBS_get_asn1_bool "(=)" p_bool "\<lambda>b. der_enc 1 (bool_contents b)" "\<lambda>_. True"
  by unfold_locales (simp_all add: CBS_get_asn1_bool_refines p_bool_codec)

subsection \<open>BIT STRING\<close>

lemma CBS_get_u8_Cons:
  assumes "cbs_view c (b # bs)"
  obtains c' where "CBS_get_u8 c = (Some b, c')" "cbs_view c' bs"
  using CBS_get_u8_refines [OF assms] by (auto dest!: refines_SomeD)

lemma CBS_get_u8_Nil: "cbs_view c [] \<Longrightarrow> fst (CBS_get_u8 c) = None"
  using CBS_get_u8_refines [of c "[]"] by (auto dest!: refines_NoneD)

lemma u8_low_bits: "n \<le> 7 \<Longrightarrow> (b :: u8) AND (push_bit n 1 - 1) = 0 \<longleftrightarrow> unat b mod 2 ^ n = 0"
  using unat_and_mask [of b n] by (simp add: mask_eq_exp_minus_1 push_bit_eq_mult flip: unat_eq_0)

definition bitstring_ok :: "bytes \<Rightarrow> bool" where
  "bitstring_ok bs \<longleftrightarrow>
     bs \<noteq> [] \<and> unat (hd bs) \<le> 7 \<and> (hd bs \<noteq> 0 \<longrightarrow> tl bs \<noteq> [] \<and> unat (last bs) mod 2 ^ unat (hd bs) = 0)"

lemma CBS_is_valid_asn1_bitstring_iff:
  assumes "cbs_view c bs"
  shows "CBS_is_valid_asn1_bitstring c \<longleftrightarrow> bitstring_ok bs"
proof (cases bs)
  case Nil
  with assms CBS_get_u8_Nil [of c] show ?thesis
    by (auto simp: CBS_is_valid_asn1_bitstring_def bitstring_ok_def split: prod.splits)
next
  case (Cons n body)
  with assms obtain c' where c': "CBS_get_u8 c = (Some n, c')" "cbs_view c' body"
    using CBS_get_u8_Cons by metis
  have gt: "n > 7 \<longleftrightarrow> \<not> unat n \<le> 7" by (simp add: word_less_nat_alt not_le)
  from CBS_get_last_u8_spec [OF c'(2)] show ?thesis
  proof (elim disjE exE conjE)
    assume "CBS_get_last_u8 c' = (None, c')" "body = []"
    then show ?thesis by (auto simp: CBS_is_valid_asn1_bitstring_def c' bitstring_ok_def Cons gt)
  next
    fix b c'' xs assume "CBS_get_last_u8 c' = (Some b, c'')" "body = xs @ [b]"
    then show ?thesis
      using u8_low_bits [of "unat n" b]
      by (auto simp: CBS_is_valid_asn1_bitstring_def c' bitstring_ok_def Cons gt simp del: u8_and_7f)
  qed
qed

text \<open>Bit \<open>i\<close> of a BIT STRING, the most significant bit of a byte first.\<close>

definition bitstring_bit :: "bytes \<Rightarrow> nat \<Rightarrow> bool" where
  "bitstring_bit bs i \<longleftrightarrow> i div 8 + 1 < length bs \<and> bit (bs ! (i div 8 + 1)) (7 - i mod 8)"

lemma CBS_asn1_bitstring_has_bit_iff:
  assumes "cbs_view c bs"
  shows "CBS_asn1_bitstring_has_bit c i \<longleftrightarrow> bitstring_ok bs \<and> bitstring_bit bs (unat i)"
proof -
  have d: "unat (drop_bit 3 i) = unat i div 8" by (simp add: unat_shr)
  have "unat i div 8 < 2 ^ 29" by (simp add: div_less_iff_less_mult)
  then have n: "unat (drop_bit 3 i + 1) = unat i div 8 + 1"
    by (simp add: unat_word_ariths d)
  have m: "unat (i AND 7) = unat i mod 8" using unat_and_mask [of i 3] by (simp add: mask_eq_exp_minus_1)
  have "unat (i AND 7) \<le> unat (7 :: u32)" unfolding m by simp
  then have b: "unat (7 - (i AND 7)) = 7 - unat i mod 8"
    by (simp only: unat_sub word_le_nat_alt m) simp
  have "ucast (drop_bit 3 i + 1) < cbs_len c \<longleftrightarrow> unat i div 8 + 1 < length bs"
    using cbs_view_len [OF assms] by (simp only: word_less_nat_alt unat_ucast_widen n)
  then show ?thesis
    unfolding CBS_asn1_bitstring_has_bit_def CBS_is_valid_asn1_bitstring_iff [OF assms] Let_def n b
      bitstring_bit_def
    using cbs_view_nth [OF assms]
    by (auto simp: push_bit_eq_mult and_exp_eq_0_iff_not_bit)
qed

subsection \<open>Optional elements\<close>

lemma nested_done: "cbs_view c' r \<Longrightarrow> cbs_len c' \<noteq> 0 \<longleftrightarrow> r \<noteq> []"
  using cbs_view_len [of c' r] by (auto simp flip: unat_eq_0)

lemma optional_bool_present:
  assumes "CBS_peek_asn1_tag c tag"
  shows "CBS_get_optional_asn1_bool c tag d =
    and_then (CBS_get_asn1 c tag) (\<lambda>child c'.
      case CBS_get_asn1_bool child of
        (None, _) \<Rightarrow> (None, c')
      | (Some b, child') \<Rightarrow> if cbs_len child' \<noteq> 0 then (None, c') else (Some b, c'))"
  using assms
  by (auto simp: CBS_get_optional_asn1_bool_def CBS_get_optional_asn1_def CBS_get_asn1_bool_def
      and_then_def Let_def split: prod.splits option.splits)

lemma optional_bool_refines:
  assumes "cbs_view c bs" and "CBS_peek_asn1_tag c tag"
  shows "refines (=) (CBS_get_optional_asn1_bool c tag d)
    (Option.bind (p_asn1 (unat tag) bs) (\<lambda>(x, rest).
       case p_bool x of Some (b, []) \<Rightarrow> Some (b, rest) | _ \<Rightarrow> None))"
  unfolding optional_bool_present [OF assms(2)]
proof (rule refines_bind [OF CBS_get_asn1_refines [OF assms(1)]], goal_cases)
  case (1 child c' x rest)
  from CBS_get_asn1_bool_refines [OF 1(1)] show ?case
  proof (cases "p_bool x")
    case None
    with 1 CBS_get_asn1_bool_refines [OF 1(1)] show ?thesis by (auto simp: cbs_view_ok dest!: refines_NoneD)
  next
    case (Some a)
    with CBS_get_asn1_bool_refines [OF 1(1)] obtain child' where
      "CBS_get_asn1_bool child = (Some (fst a), child')" "cbs_view child' (snd a)"
      by (cases a) (auto dest!: refines_SomeD)
    with Some 1 show ?thesis
      by (cases a) (auto simp: cbs_view_ok nested_done split: list.splits)
  qed
qed

subsection \<open>Properties\<close>

text \<open>
  C1. \<open>CBS_get_any_asn1_element\<close> accepts exactly the DER encodings: it returns the element with tag \<open>t\<close>
  and contents \<open>x\<close> and leaves \<open>rest\<close> exactly when the input is the one definite-length, minimal
  encoding \<open>der_enc t x\<close> followed by \<open>rest\<close>. So an accepted element has no second encoding.
\<close>

theorem CBS_get_any_asn1_element_der:
  assumes "cbs_view c bs"
  shows "(\<exists>out tag hl c'. CBS_get_any_asn1_element c = (Some (out, tag, hl), c') \<and> unat tag = t
        \<and> cbs_view out (h @ x) \<and> unat hl = length h \<and> cbs_view c' rest) \<longleftrightarrow>
    t < 2 ^ 32 \<and> length x < 2 ^ 32 \<and> h @ x = der_enc t x \<and> bs = h @ x @ rest"
    (is "?L \<longleftrightarrow> ?R")
proof
  assume ?L
  then have "p_element False bs = Some ((h @ x, t, length h, False), rest)"
    using CBS_get_any_asn1_element_refines [OF assms] by (auto simp: p_element_der_iff cbs_view_def)
  then obtain x' where "length x' < 2 ^ 32" "t < 2 ^ 32" "h @ x = der_enc t x'" "length x' = length x" "bs = h @ x @ rest"
    by (auto simp: p_element_der_iff)
  moreover from this have "x' = x" by (auto simp: der_enc_def simp flip: append_assoc)
  ultimately show ?R by simp
next
  assume r: ?R
  then have "length (der_enc t x) - length x = length h" by (metis add_diff_cancel_right' length_append)
  with r have "p_element False bs = Some ((h @ x, t, length h, False), rest)"
    using p_element_der_complete [of t x rest] by (simp flip: append_assoc)
  then show ?L
    using CBS_get_any_asn1_element_refines [OF assms] by (fastforce dest!: refines_SomeD)
qed

theorem CBS_get_any_asn1_element_der_witness:
  "\<exists>out tag hl c'. CBS_get_any_asn1_element (CBS_init [4, 1, 7, 9] 4) = (Some (out, tag, hl), c') \<and> unat tag = 4
     \<and> cbs_view out ([4, 1] @ [7]) \<and> unat hl = length [4, 1 :: u8] \<and> cbs_view c' [9]"
proof -
  have "cbs_view (CBS_init [4, 1, 7, 9] 4) [4, 1, 7, 9]" using cbs_view_init [of "[4, 1, 7, 9]"] by simp
  moreover have "[4, 1] @ [7] = der_enc 4 [7]" by (simp add: der_enc_def tag_enc_def len_enc_def)
  ultimately show ?thesis
    using CBS_get_any_asn1_element_der [of "CBS_init [4, 1, 7, 9] 4" "[4, 1, 7, 9]" 4 "[4, 1]" "[7]" "[9]"] by simp
qed

text \<open>
  C2. \<open>CBS_get_asn1_int64\<close> returns \<open>v\<close> and leaves \<open>rest\<close> exactly when the input is the minimal two's
  complement DER INTEGER of \<open>v\<close> followed by \<open>rest\<close>: every signed 64-bit value is read, each from one
  encoding only, and nothing else is.
\<close>

theorem CBS_get_asn1_int64_exact:
  assumes "cbs_view c bs"
  shows "(\<exists>c'. CBS_get_asn1_int64 c = (Some v, c') \<and> cbs_view c' rest) \<longleftrightarrow>
    bs = der_enc 2 (int_contents (sint v)) @ rest"
proof -
  have "- (2 ^ 63) \<le> sint v \<and> sint v < 2 ^ 63"
    using sint_greater_eq [of v] sint_less [of v] by simp
  moreover have "(\<exists>c'. CBS_get_asn1_int64 c = (Some v, c') \<and> cbs_view c' rest) \<longleftrightarrow>
      (\<exists>x c'. CBS_get_asn1_int64 c = (Some x, c') \<and> sint x = sint v \<and> cbs_view c' rest)"
    by (metis signed_word_eqI)
  ultimately show ?thesis using r_int64.read_iff [OF assms] by simp
qed

theorem CBS_get_asn1_int64_exact_witness:
  "\<exists>c'. CBS_get_asn1_int64 (CBS_init [2, 2, 0xff, 0x7f, 1] 5) = (Some (- 129), c') \<and> cbs_view c' [1]"
proof -
  have "cbs_view (CBS_init [2, 2, 0xff, 0x7f, 1] 5) [2, 2, 0xff, 0x7f, 1]"
    using cbs_view_init [of "[2, 2, 0xff, 0x7f, 1]"] by simp
  moreover have "[2, 2, 0xff, 0x7f, 1] = der_enc 2 (int_contents (sint (- 129 :: u64))) @ [1]"
    by (simp add: der_enc_def tag_enc_def len_enc_def int_contents_def int_len.simps)
  ultimately show ?thesis using CBS_get_asn1_int64_exact by blast
qed

text \<open>
  \<open>CBS_get_asn1_uint64\<close> is the inverse of the DER encoding of the unsigned 64-bit values: it
  returns \<open>v\<close> exactly on the minimal INTEGER of \<open>v\<close>, and fails on negative numbers, on values of
  more than 64 bits and on padded encodings.
\<close>

lemma CBS_get_asn1_uint64_exact:
  assumes "cbs_view c bs"
  shows "(\<exists>c'. CBS_get_asn1_uint64 c = (Some v, c') \<and> cbs_view c' rest) \<longleftrightarrow>
    bs = der_enc 2 (int_contents (int (unat v))) @ rest"
proof -
  have "(\<exists>c'. CBS_get_asn1_uint64 c = (Some v, c') \<and> cbs_view c' rest) \<longleftrightarrow>
      (\<exists>x c'. CBS_get_asn1_uint64 c = (Some x, c') \<and> unat x = unat v \<and> cbs_view c' rest)"
    by (metis unsigned_word_eqI)
  then show ?thesis using r_uint64.read_iff [OF assms] by simp
qed

text \<open>
  \<open>CBS_get_optional_asn1_bool\<close>, on every branch: with the next tag different from \<open>tag\<close> it returns
  the default and reads nothing; otherwise it succeeds exactly on an element with that tag that holds
  one DER BOOLEAN and nothing after it, and returns its value.
\<close>

lemma CBS_get_optional_asn1_bool_exact:
  assumes "cbs_view c bs"
  shows "(\<exists>c'. CBS_get_optional_asn1_bool c tag d = (Some b, c') \<and> cbs_view c' rest) \<longleftrightarrow>
    (if \<exists>r. bs = tag_enc (unat tag) @ r
     then bs = der_enc (unat tag) (der_enc 1 (bool_contents b)) @ rest
     else b = d \<and> rest = bs)"
proof (cases "\<exists>r. bs = tag_enc (unat tag) @ r")
  case False
  with CBS_peek_asn1_tag_iff [OF assms] show ?thesis
    using assms by (auto simp: CBS_get_optional_asn1_bool_def CBS_get_optional_asn1_def cbs_view_def)
next
  case True
  let ?p = "Option.bind (p_asn1 (unat tag) bs) (\<lambda>(x, rest).
       case p_bool x of Some (b, []) \<Rightarrow> Some (b, rest) | _ \<Rightarrow> None)"
  have "refines (=) (CBS_get_optional_asn1_bool c tag d) ?p"
    using True CBS_peek_asn1_tag_iff [OF assms] by (intro optional_bool_refines assms) simp
  then have "(\<exists>c'. CBS_get_optional_asn1_bool c tag d = (Some b, c') \<and> cbs_view c' rest) \<longleftrightarrow> ?p = Some (b, rest)"
    by (auto simp: refines_def cbs_view_def split: prod.splits option.splits)
  also have "\<dots> \<longleftrightarrow> (\<exists>x. p_asn1 (unat tag) bs = Some (x, rest) \<and> p_bool x = Some (b, []))"
    by (cases "p_asn1 (unat tag) bs") (auto split: option.splits list.splits)
  also have "\<dots> \<longleftrightarrow> bs = der_enc (unat tag) (der_enc 1 (bool_contents b)) @ rest"
    by (auto simp: p_asn1_iff p_bool_codec) (simp add: der_enc_def tag_enc_def len_enc_def bool_contents_def)
  finally show ?thesis using True by simp
qed

text \<open>
  \<open>CBS_asn1_bitstring_has_bit\<close> tells whether bit \<open>i\<close> (most significant first) of a valid BIT STRING
  is set, and is false for an invalid one (more than seven unused bits, or unused bits that are not
  zero) and for a bit past the end. The index arithmetic on \<open>unsigned\<close> does not wrap.
\<close>

lemma CBS_asn1_bitstring_has_bit_spec:
  assumes "cbs_view c bs"
  shows "CBS_asn1_bitstring_has_bit c i \<longleftrightarrow>
    bitstring_ok bs \<and> unat i < 8 * (length bs - 1) \<and> bit (bs ! (unat i div 8 + 1)) (7 - unat i mod 8)"
  unfolding CBS_asn1_bitstring_has_bit_iff [OF assms] bitstring_bit_def
  by (auto simp: div_less_iff_less_mult less_diff_conv)

end
