(* ===== verification/Cbb.thy ===== *)
theory Cbb
  imports Asn1
begin

section \<open>CBB: building byte strings (crypto/bytestring/cbb.c)\<close>

text \<open>
  A builder is one growing buffer (\<open>struct cbb_buffer_st\<close>, shared by every \<open>CBB\<close> of the builder) and
  the \<open>CBB\<close> objects with a pointer to it. At any time those form a chain: the top-level \<open>CBB\<close>, its
  child with a pending length prefix, that one's child, and so on. The state keeps the chain as a
  list of the structs, each with the address of the caller's object; the field \<open>child\<close> of a struct is
  the next element of the list and the field \<open>base\<close> is NULL exactly for an object that is not on the
  list. (The one difference to the C objects: \<open>CBB_discard_child\<close> leaves the pointer \<open>base\<close> of the
  children of the discarded child, which the documentation forbids to use.)

  The operations return \<open>None\<close> for 0. A pointer into the buffer is an index.
\<close>

record cbb_buffer =
  buf :: "bytes option"
  blen :: size_t
  bcap :: size_t
  can_resize :: bool
  berror :: bool
  heap :: allocator

record cbb =
  addr :: nat
  offset :: size_t
  pending_len_len :: u8
  pending_is_asn1 :: bool
  is_child :: bool

record cbb_st =
  base :: cbb_buffer
  chain :: "cbb list"

definition buf_mem :: "cbb_buffer \<Rightarrow> bytes" where
  "buf_mem b = (case buf b of None \<Rightarrow> [] | Some m \<Rightarrow> m)"

definition set_mem :: "cbb_buffer \<Rightarrow> bytes \<Rightarrow> cbb_buffer" where
  "set_mem b m = b\<lparr>buf := map_option (\<lambda>_. m) (buf b)\<rparr>"

subsection \<open>The buffer\<close>

definition cbb_buffer_reserve :: "cbb_buffer \<Rightarrow> size_t \<Rightarrow> nat option \<times> cbb_buffer" where
  "cbb_buffer_reserve b len =
     (let newlen = blen b + len; err = b\<lparr>berror := True\<rparr>
      in if newlen < blen b then (None, err)
         else if newlen > bcap b
         then if \<not> can_resize b then (None, err)
              else let newcap = bcap b * 2;
                       newcap = (if newcap < bcap b \<or> newcap < newlen then newlen else newcap)
                   in (case OPENSSL_realloc (buf b) newcap (heap b) of
                         (None, a) \<Rightarrow> (None, err\<lparr>heap := a\<rparr>)
                       | (Some newbuf, a) \<Rightarrow>
                           (Some (unat (blen b)), b\<lparr>buf := Some newbuf, bcap := newcap, heap := a\<rparr>))
         else (Some (unat (blen b)), b))"

definition cbb_buffer_add :: "cbb_buffer \<Rightarrow> size_t \<Rightarrow> nat option \<times> cbb_buffer" where
  "cbb_buffer_add b len =
     and_then (cbb_buffer_reserve b len) (\<lambda>out b. (Some out, b\<lparr>blen := blen b + len\<rparr>))"

text \<open>The loop \<open>for (i = n - 1; i < n; i--) { p[i] = v; v >>= 8; }\<close>; the result is the memory and \<open>v\<close>.\<close>

fun store_be :: "nat \<Rightarrow> nat \<Rightarrow> u64 \<Rightarrow> bytes \<Rightarrow> bytes \<times> u64" where
  "store_be p 0 v m = (m, v)"
| "store_be p (Suc i) v m = store_be p i (drop_bit 8 v) (m[p + i := ucast v])"

definition cbb_buffer_add_u :: "cbb_buffer \<Rightarrow> u64 \<Rightarrow> size_t \<Rightarrow> unit option \<times> cbb_buffer" where
  "cbb_buffer_add_u b v len_len =
     (if len_len = 0 then (Some (), b)
      else and_then (cbb_buffer_add b len_len) (\<lambda>p b.
             let (m, v') = store_be p (unat len_len) v (buf_mem b);
                 b' = set_mem b m
             in if v' \<noteq> 0 then (None, b'\<lparr>berror := True\<rparr>) else (Some (), b')))"

subsection \<open>Flushing\<close>

text \<open>
  The second half of \<open>CBB_flush\<close>: \<open>child\<close> has been flushed itself and its contents begin at
  \<open>child_start\<close>. The result is the final value of the local \<open>len\<close> and the buffer.
\<close>

definition asn1_len_len :: "size_t \<Rightarrow> (u8 \<times> u8 \<times> size_t) option" where
  "asn1_len_len len =
     (if len > 0xfffffffe then None
      else if len > 0xffffff then Some (5, 0x80 OR 4, len)
      else if len > 0xffff then Some (4, 0x80 OR 3, len)
      else if len > 0xff then Some (3, 0x80 OR 2, len)
      else if len > 0x7f then Some (2, 0x80 OR 1, len)
      else Some (1, ucast len, 0))"

definition cbb_write_length :: "cbb \<Rightarrow> size_t \<Rightarrow> cbb_buffer \<Rightarrow> size_t option \<times> cbb_buffer" where
  "cbb_write_length child child_start b =
     (let len = blen b - child_start
      in if pending_is_asn1 child
         then case asn1_len_len len of
                None \<Rightarrow> (None, b)
              | Some (len_len, initial_length_byte, len') \<Rightarrow>
                  and_then
                    (if len_len \<noteq> 1
                     then let extra_bytes = ucast (len_len - 1)
                          in and_then (cbb_buffer_add b extra_bytes) (\<lambda>_ b.
                               let m = buf_mem b; s = unat child_start; x = unat extra_bytes; n = unat len'
                               in (Some (), set_mem b (take (s + x) m @ take n (drop s m) @ drop (s + x + n) m)))
                     else (Some (), b))
                    (\<lambda>_ b.
                       let m = (buf_mem b)[unat (offset child) := initial_length_byte];
                           (m, rest) = store_be (unat (offset child + 1)) (unat (len_len - 1)) len' m
                       in (Some rest, set_mem b m))
         else let (m, rest) = store_be (unat (offset child)) (unat (pending_len_len child)) len (buf_mem b)
              in (Some rest, set_mem b m))"

text \<open>
  \<open>CBB_flush\<close> of the \<open>CBB\<close> whose chain of children is the given list; the result is the chain of
  children it is left with.
\<close>

fun flush_chain :: "cbb list \<Rightarrow> cbb_buffer \<Rightarrow> cbb list option \<times> cbb_buffer" where
  "flush_chain below b =
     (if berror b then (None, b)
      else case below of
             [] \<Rightarrow> (Some [], b)
           | child # below' \<Rightarrow>
               if pending_len_len child = 0 then (Some below, b)
               else
                let child_start = offset child + ucast (pending_len_len child)
                in case flush_chain below' b of
                     (None, b) \<Rightarrow> (None, b\<lparr>berror := True\<rparr>)
                   | (Some _, b) \<Rightarrow>
                       if child_start < offset child \<or> blen b < child_start
                       then (None, b\<lparr>berror := True\<rparr>)
                       else case cbb_write_length child child_start b of
                              (None, b) \<Rightarrow> (None, b\<lparr>berror := True\<rparr>)
                            | (Some rest, b) \<Rightarrow>
                                if rest \<noteq> 0 then (None, b\<lparr>berror := True\<rparr>) else (Some [], b))"

declare flush_chain.simps [simp del]

text \<open>The chain down to the object at address \<open>h\<close>, and its chain of children.\<close>

fun cbb_find :: "nat \<Rightarrow> cbb list \<Rightarrow> (cbb list \<times> cbb \<times> cbb list) option" where
  "cbb_find h [] = None"
| "cbb_find h (c # cs) =
     (if addr c = h then Some ([], c, cs)
      else map_option (\<lambda>(up, x, below). (c # up, x, below)) (cbb_find h cs))"

definition CBB_flush :: "nat \<Rightarrow> cbb_st \<Rightarrow> unit option \<times> cbb_st" where
  "CBB_flush h s =
     (case cbb_find h (chain s) of
        None \<Rightarrow> (None, s)
      | Some (up, cbb, below) \<Rightarrow>
         (case flush_chain below (base s) of
            (None, b) \<Rightarrow> (None, s\<lparr>base := b\<rparr>)
          | (Some below', b) \<Rightarrow> (Some (), s\<lparr>base := b, chain := up @ cbb # below'\<rparr>)))"

text \<open>An operation on the buffer, with the chain as it is.\<close>

definition on_base :: "(cbb_buffer \<Rightarrow> 'a option \<times> cbb_buffer) \<Rightarrow> cbb_st \<Rightarrow> 'a option \<times> cbb_st" where
  "on_base f s = (case f (base s) of (r, b) \<Rightarrow> (r, s\<lparr>base := b\<rparr>))"

subsection \<open>Initialisation and completion\<close>

definition sizeof_cbb_buffer_st :: size_t where
  "sizeof_cbb_buffer_st = 32"

definition cbb_init :: "nat \<Rightarrow> bytes option \<Rightarrow> size_t \<Rightarrow> allocator \<Rightarrow> cbb_st option" where
  "cbb_init h m cap a =
     (case OPENSSL_malloc sizeof_cbb_buffer_st a of
        (None, _) \<Rightarrow> None
      | (Some _, a) \<Rightarrow>
          Some \<lparr>base = \<lparr>buf = m, blen = 0, bcap = cap, can_resize = True, berror = False, heap = a\<rparr>,
                chain = [\<lparr>addr = h, offset = 0, pending_len_len = 0, pending_is_asn1 = False,
                          is_child = False\<rparr>]\<rparr>)"

definition CBB_init :: "nat \<Rightarrow> size_t \<Rightarrow> allocator \<Rightarrow> cbb_st option" where
  "CBB_init h initial_capacity a =
     (case OPENSSL_malloc initial_capacity a of
        (m, a) \<Rightarrow> if initial_capacity > 0 \<and> m = None then None else cbb_init h m initial_capacity a)"

definition CBB_init_fixed :: "nat \<Rightarrow> bytes \<Rightarrow> size_t \<Rightarrow> allocator \<Rightarrow> cbb_st option" where
  "CBB_init_fixed h m len a =
     map_option (\<lambda>s. s\<lparr>base := (base s)\<lparr>can_resize := False\<rparr>\<rparr>) (cbb_init h (Some m) len a)"

definition CBB_cleanup :: "nat \<Rightarrow> cbb_st \<Rightarrow> cbb_st" where
  "CBB_cleanup h s =
     (case cbb_find h (chain s) of
        None \<Rightarrow> s
      | Some (_, cbb, _) \<Rightarrow> if is_child cbb then s else s\<lparr>chain := []\<rparr>)"

definition CBB_finish :: "nat \<Rightarrow> bool \<Rightarrow> bool \<Rightarrow> cbb_st \<Rightarrow> (bytes option \<times> size_t) option \<times> cbb_st" where
  "CBB_finish h want_data want_len s =
     (case cbb_find h (chain s) of
        None \<Rightarrow> (None, s)
      | Some (_, cbb, _) \<Rightarrow>
          if is_child cbb then (None, s)
          else and_then (CBB_flush h s) (\<lambda>_ s.
                 if can_resize (base s) \<and> (\<not> want_data \<or> \<not> want_len) then (None, s)
                 else (Some (buf (base s), blen (base s)),
                       CBB_cleanup h (s\<lparr>base := (base s)\<lparr>buf := None\<rparr>\<rparr>))))"

definition CBB_data :: "cbb \<Rightarrow> cbb_buffer \<Rightarrow> bytes" where
  "CBB_data cbb b = drop (unat (offset cbb + ucast (pending_len_len cbb))) (buf_mem b)"

definition CBB_len :: "cbb \<Rightarrow> cbb_buffer \<Rightarrow> size_t" where
  "CBB_len cbb b = blen b - offset cbb - ucast (pending_len_len cbb)"

subsection \<open>Adding data\<close>

definition CBB_add_space :: "nat \<Rightarrow> size_t \<Rightarrow> cbb_st \<Rightarrow> nat option \<times> cbb_st" where
  "CBB_add_space h len s =
     and_then (CBB_flush h s) (\<lambda>_. on_base (\<lambda>b. cbb_buffer_add b len))"

definition write_at :: "nat \<Rightarrow> bytes \<Rightarrow> cbb_st \<Rightarrow> cbb_st" where
  "write_at p xs s =
     (let m = buf_mem (base s)
      in s\<lparr>base := set_mem (base s) (take p m @ xs @ drop (p + length xs) m)\<rparr>)"

definition CBB_add_bytes :: "nat \<Rightarrow> bytes \<Rightarrow> size_t \<Rightarrow> cbb_st \<Rightarrow> unit option \<times> cbb_st" where
  "CBB_add_bytes h data len s =
     and_then (CBB_flush h s) (\<lambda>_ s.
     and_then (on_base (\<lambda>b. cbb_buffer_add b len) s) (\<lambda>dest s.
       (Some (), write_at dest (take (unat len) data) s)))"

definition CBB_add_zeros :: "nat \<Rightarrow> size_t \<Rightarrow> cbb_st \<Rightarrow> unit option \<times> cbb_st" where
  "CBB_add_zeros h len s =
     and_then (CBB_add_space h len s) (\<lambda>out s. (Some (), write_at out (replicate (unat len) 0) s))"

definition CBB_reserve :: "nat \<Rightarrow> size_t \<Rightarrow> cbb_st \<Rightarrow> nat option \<times> cbb_st" where
  "CBB_reserve h len s =
     and_then (CBB_flush h s) (\<lambda>_. on_base (\<lambda>b. cbb_buffer_reserve b len))"

definition CBB_did_write :: "nat \<Rightarrow> size_t \<Rightarrow> cbb_st \<Rightarrow> unit option \<times> cbb_st" where
  "CBB_did_write h len s =
     (let newlen = blen (base s) + len
      in case cbb_find h (chain s) of
           None \<Rightarrow> (None, s)
         | Some (_, _, below) \<Rightarrow>
             if below \<noteq> [] \<or> newlen < blen (base s) \<or> newlen > bcap (base s) then (None, s)
             else (Some (), s\<lparr>base := (base s)\<lparr>blen := newlen\<rparr>\<rparr>))"

definition cbb_add_u :: "nat \<Rightarrow> u64 \<Rightarrow> size_t \<Rightarrow> cbb_st \<Rightarrow> unit option \<times> cbb_st" where
  "cbb_add_u h v n s =
     and_then (CBB_flush h s) (\<lambda>_. on_base (\<lambda>b. cbb_buffer_add_u b v n))"

definition CBB_add_u8 :: "nat \<Rightarrow> u8 \<Rightarrow> cbb_st \<Rightarrow> unit option \<times> cbb_st" where
  "CBB_add_u8 h value = cbb_add_u h (ucast value) 1"

definition CBB_add_u16 :: "nat \<Rightarrow> u16 \<Rightarrow> cbb_st \<Rightarrow> unit option \<times> cbb_st" where
  "CBB_add_u16 h value = cbb_add_u h (ucast value) 2"

definition CBB_add_u16le :: "nat \<Rightarrow> u16 \<Rightarrow> cbb_st \<Rightarrow> unit option \<times> cbb_st" where
  "CBB_add_u16le h value = CBB_add_u16 h (CRYPTO_bswap2 value)"

definition CBB_add_u24 :: "nat \<Rightarrow> u32 \<Rightarrow> cbb_st \<Rightarrow> unit option \<times> cbb_st" where
  "CBB_add_u24 h value = cbb_add_u h (ucast value) 3"

definition CBB_add_u32 :: "nat \<Rightarrow> u32 \<Rightarrow> cbb_st \<Rightarrow> unit option \<times> cbb_st" where
  "CBB_add_u32 h value = cbb_add_u h (ucast value) 4"

definition CBB_add_u32le :: "nat \<Rightarrow> u32 \<Rightarrow> cbb_st \<Rightarrow> unit option \<times> cbb_st" where
  "CBB_add_u32le h value = CBB_add_u32 h (CRYPTO_bswap4 value)"

definition CBB_add_u64 :: "nat \<Rightarrow> u64 \<Rightarrow> cbb_st \<Rightarrow> unit option \<times> cbb_st" where
  "CBB_add_u64 h value = cbb_add_u h value 8"

definition CBB_add_u64le :: "nat \<Rightarrow> u64 \<Rightarrow> cbb_st \<Rightarrow> unit option \<times> cbb_st" where
  "CBB_add_u64le h value = CBB_add_u64 h (CRYPTO_bswap8 value)"

subsection \<open>Children\<close>

text \<open>\<open>cbb->child = out_contents\<close>, with the fields of the child set.\<close>

definition push_child :: "nat \<Rightarrow> nat \<Rightarrow> size_t \<Rightarrow> u8 \<Rightarrow> bool \<Rightarrow> cbb_st \<Rightarrow> cbb_st" where
  "push_child h out off len_len asn1 s =
     (case cbb_find h (chain s) of
        None \<Rightarrow> s
      | Some (up, cbb, _) \<Rightarrow>
          s\<lparr>chain := up @ [cbb, \<lparr>addr = out, offset = off, pending_len_len = len_len,
                                   pending_is_asn1 = asn1, is_child = True\<rparr>]\<rparr>)"

definition cbb_add_length_prefixed :: "nat \<Rightarrow> nat \<Rightarrow> u8 \<Rightarrow> cbb_st \<Rightarrow> unit option \<times> cbb_st" where
  "cbb_add_length_prefixed h out len_len s =
     and_then (CBB_flush h s) (\<lambda>_ s.
       let off = blen (base s)
       in and_then (on_base (\<lambda>b. cbb_buffer_add b (ucast len_len)) s) (\<lambda>prefix_bytes s.
            (Some (), push_child h out off len_len False
                        (write_at prefix_bytes (replicate (unat len_len) 0) s))))"

definition CBB_add_u8_length_prefixed :: "nat \<Rightarrow> nat \<Rightarrow> cbb_st \<Rightarrow> unit option \<times> cbb_st" where
  "CBB_add_u8_length_prefixed h out = cbb_add_length_prefixed h out 1"

definition CBB_add_u16_length_prefixed :: "nat \<Rightarrow> nat \<Rightarrow> cbb_st \<Rightarrow> unit option \<times> cbb_st" where
  "CBB_add_u16_length_prefixed h out = cbb_add_length_prefixed h out 2"

definition CBB_add_u24_length_prefixed :: "nat \<Rightarrow> nat \<Rightarrow> cbb_st \<Rightarrow> unit option \<times> cbb_st" where
  "CBB_add_u24_length_prefixed h out = cbb_add_length_prefixed h out 3"

function base128_len_len :: "u64 \<Rightarrow> nat" where
  "base128_len_len copy = (if copy > 0 then Suc (base128_len_len (drop_bit 7 copy)) else 0)"
  by pat_completeness auto
termination
  by (relation "measure unat") (simp_all add: unat_shr word_less_nat_alt)

declare base128_len_len.simps [simp del]

fun add_base128_loop :: "nat \<Rightarrow> u64 \<Rightarrow> nat \<Rightarrow> cbb_st \<Rightarrow> unit option \<times> cbb_st" where
  "add_base128_loop h v 0 s = (Some (), s)"
| "add_base128_loop h v (Suc i) s =
     (let byte = ucast (drop_bit (7 * i) v AND 0x7f);
          byte = (if i \<noteq> 0 then byte OR 0x80 else byte)
      in and_then (CBB_add_u8 h byte s) (\<lambda>_. add_base128_loop h v i))"

definition add_base128_integer :: "nat \<Rightarrow> u64 \<Rightarrow> cbb_st \<Rightarrow> unit option \<times> cbb_st" where
  "add_base128_integer h v s =
     (let n = base128_len_len v
      in add_base128_loop h v (if n = 0 then 1 else n) s)"

definition CBB_add_asn1 :: "nat \<Rightarrow> nat \<Rightarrow> u32 \<Rightarrow> cbb_st \<Rightarrow> unit option \<times> cbb_st" where
  "CBB_add_asn1 h out tag s =
     and_then (CBB_flush h s) (\<lambda>_ s.
       let tag_bits = ucast (drop_bit 24 tag) AND 0xe0;
           tag_number = tag AND CBS_ASN1_TAG_NUMBER_MASK
       in and_then
            (if tag_number \<ge> 0x1f
             then and_then (CBB_add_u8 h (tag_bits OR 0x1f) s) (\<lambda>_. add_base128_integer h (ucast tag_number))
             else CBB_add_u8 h (tag_bits OR ucast tag_number) s)
            (\<lambda>_ s.
               let off = blen (base s)
               in and_then (CBB_add_u8 h 0 s) (\<lambda>_ s. (Some (), push_child h out off 1 True s))))"

definition CBB_discard_child :: "nat \<Rightarrow> cbb_st \<Rightarrow> cbb_st" where
  "CBB_discard_child h s =
     (case cbb_find h (chain s) of
        Some (up, cbb, child # _) \<Rightarrow>
          s\<lparr>base := (base s)\<lparr>blen := offset child\<rparr>, chain := up @ [cbb]\<rparr>
      | _ \<Rightarrow> s)"

subsection \<open>ASN.1 values\<close>

text \<open>The address of a local variable: different from those of the objects in use.\<close>

definition local_addr :: "cbb_st \<Rightarrow> nat" where
  "local_addr s = Suc (foldr max (map addr (chain s)) 0)"

fun add_asn1_uint64_loop :: "nat \<Rightarrow> u64 \<Rightarrow> nat \<Rightarrow> bool \<Rightarrow> cbb_st \<Rightarrow> bool option \<times> cbb_st" where
  "add_asn1_uint64_loop child value 0 started s = (Some started, s)"
| "add_asn1_uint64_loop child value (Suc k) started s =
     (let byte = ucast (drop_bit (8 * k) value AND 0xff)
      in if \<not> started \<and> byte = 0 then add_asn1_uint64_loop child value k False s
         else and_then (if \<not> started \<and> byte AND 0x80 \<noteq> 0 then CBB_add_u8 child 0 s else (Some (), s)) (\<lambda>_ s.
              and_then (CBB_add_u8 child byte s) (\<lambda>_. add_asn1_uint64_loop child value k True)))"

definition CBB_add_asn1_uint64 :: "nat \<Rightarrow> u64 \<Rightarrow> cbb_st \<Rightarrow> unit option \<times> cbb_st" where
  "CBB_add_asn1_uint64 h value s =
     (let child = local_addr s
      in and_then (CBB_add_asn1 h child CBS_ASN1_INTEGER s) (\<lambda>_ s.
         and_then (add_asn1_uint64_loop child value 8 False s) (\<lambda>started s.
         and_then (if \<not> started then CBB_add_u8 child 0 s else (Some (), s)) (\<lambda>_.
           CBB_flush h))))"

text \<open>The bytes of the union, the least significant first, and the loop that skips sign bytes.\<close>

definition int64_bytes :: "u64 \<Rightarrow> bytes" where
  "int64_bytes value = map (\<lambda>i. ucast (drop_bit (8 * i) value)) [0..<8]"

fun int64_start :: "bytes \<Rightarrow> nat \<Rightarrow> nat" where
  "int64_start u 0 = 0"
| "int64_start u (Suc i) =
     (if u ! Suc i = 0xff \<and> u ! i AND 0x80 \<noteq> 0 then int64_start u i else Suc i)"

fun add_bytes_down :: "nat \<Rightarrow> bytes \<Rightarrow> nat \<Rightarrow> cbb_st \<Rightarrow> unit option \<times> cbb_st" where
  "add_bytes_down child u 0 s = (Some (), s)"
| "add_bytes_down child u (Suc i) s =
     and_then (CBB_add_u8 child (u ! i) s) (\<lambda>_. add_bytes_down child u i)"

definition CBB_add_asn1_int64 :: "nat \<Rightarrow> u64 \<Rightarrow> cbb_st \<Rightarrow> unit option \<times> cbb_st" where
  "CBB_add_asn1_int64 h value s =
     (if sint value \<ge> 0 then CBB_add_asn1_uint64 h value s
      else let u = int64_bytes value; start = int64_start u 7; child = local_addr s
           in and_then (CBB_add_asn1 h child CBS_ASN1_INTEGER s) (\<lambda>_ s.
              and_then (add_bytes_down child u (Suc start) s) (\<lambda>_. CBB_flush h)))"

definition CBB_add_asn1_octet_string :: "nat \<Rightarrow> bytes \<Rightarrow> size_t \<Rightarrow> cbb_st \<Rightarrow> unit option \<times> cbb_st" where
  "CBB_add_asn1_octet_string h data data_len s =
     (let child = local_addr s
      in and_then (CBB_add_asn1 h child CBS_ASN1_OCTETSTRING s) (\<lambda>_ s.
         and_then (CBB_add_bytes child data data_len s) (\<lambda>_. CBB_flush h)))"

definition CBB_add_asn1_bool :: "nat \<Rightarrow> bool \<Rightarrow> cbb_st \<Rightarrow> unit option \<times> cbb_st" where
  "CBB_add_asn1_bool h value s =
     (let child = local_addr s
      in and_then (CBB_add_asn1 h child CBS_ASN1_BOOLEAN s) (\<lambda>_ s.
         and_then (CBB_add_u8 child (if value then 0xff else 0) s) (\<lambda>_. CBB_flush h)))"

subsection \<open>Outcomes of fallible writers\<close>

text \<open>
  \<open>yields view rm s r good k v\<close>: the outcome \<open>r\<close> of an operation on \<open>s\<close> is a success if the condition
  \<open>good\<close> holds and there is room for \<open>k\<close> bytes, and a success implies \<open>good\<close>, leaves a state with the
  view \<open>v\<close> and has used up no more than \<open>k\<close> bytes of the room. The locale is the interface of a
  writer: its room for \<open>k\<close> bytes is room for fewer.
\<close>

definition yields :: "('s \<Rightarrow> 'v \<Rightarrow> bool) \<Rightarrow> ('s \<Rightarrow> nat \<Rightarrow> bool) \<Rightarrow> 's \<Rightarrow> 'a option \<times> 's \<Rightarrow> bool \<Rightarrow> nat \<Rightarrow> 'v \<Rightarrow> bool" where
  "yields view rm s r good k v \<longleftrightarrow>
     (case r of
        (None, _) \<Rightarrow> \<not> (good \<and> rm s k)
      | (Some _, s') \<Rightarrow> good \<and> view s' v \<and> (\<forall>j. rm s (k + j) \<longrightarrow> rm s' j))"

lemma yields_Some [simp]:
  "yields view rm s (Some x, s') good k v \<longleftrightarrow> good \<and> view s' v \<and> (\<forall>j. rm s (k + j) \<longrightarrow> rm s' j)"
  by (simp add: yields_def)

lemma yields_None [simp]: "yields view rm s (None, s') good k v \<longleftrightarrow> \<not> (good \<and> rm s k)"
  by (simp add: yields_def)

locale writer =
  fixes view :: "'s \<Rightarrow> 'v \<Rightarrow> bool" and rm :: "'s \<Rightarrow> nat \<Rightarrow> bool"
  assumes rm_mono: "rm s (k + j) \<Longrightarrow> rm s k"
begin

lemma bind:
  assumes "yields view rm s r g1 k1 v1"
    and "\<And>x s1. r = (Some x, s1) \<Longrightarrow> view s1 v1 \<Longrightarrow> yields view rm s1 (f x s1) g2 k2 v2"
  shows "yields view rm s (and_then r f) (g1 \<and> g2) (k1 + k2) v2"
proof (cases r)
  case (Pair y s1)
  show ?thesis
  proof (cases y)
    case None
    with assms(1) Pair show ?thesis using rm_mono by auto
  next
    case (Some x)
    with assms(1) Pair have 1: "g1" "view s1 v1" "\<forall>j. rm s (k1 + j) \<longrightarrow> rm s1 j" by auto
    with assms(2) Some Pair have "yields view rm s1 (f x s1) g2 k2 v2" by simp
    with 1 show ?thesis
      by (cases "f x s1"; cases "fst (f x s1)") (auto simp: Pair Some add.assoc)
  qed
qed

lemma bind':
  assumes "yields view rm s r g1 k1 v1"
    and "\<And>x s1. r = (Some x, s1) \<Longrightarrow> view s1 v1 \<Longrightarrow> yields view rm s1 (f x s1) g2 k2 v2"
    and "g = (g1 \<and> g2)" and "k = k1 + k2"
  shows "yields view rm s (and_then r f) g k v2"
  using bind [OF assms(1,2)] assms(3,4) by simp

lemma skip: "view s v \<Longrightarrow> yields view rm s (Some x, s) True 0 v"
  by simp

lemma success:
  assumes "yields view rm s r good k v" and "good" and "rm s k"
  obtains x s' where "r = (Some x, s')" "view s' v"
  using assms by (cases r; cases "fst r") auto

end

subsection \<open>The contents of the buffer\<close>

text \<open>
  \<open>bview b d\<close>: the buffer has seen no error and holds the bytes \<open>d\<close>. \<open>room b k\<close>: there is space for
  \<open>k\<close> more bytes, in the buffer as it is or, if it may grow, by allocations that succeed.
\<close>

definition bview :: "cbb_buffer \<Rightarrow> bytes \<Rightarrow> bool" where
  "bview b d \<longleftrightarrow> \<not> berror b \<and> unat (blen b) \<le> unat (bcap b) \<and> unat (bcap b) = length (buf_mem b)
     \<and> take (unat (blen b)) (buf_mem b) = d"

definition room :: "cbb_buffer \<Rightarrow> nat \<Rightarrow> bool" where
  "room b k \<longleftrightarrow> unat (blen b) + k \<le> unat (bcap b)
     \<or> can_resize b \<and> unat (blen b) + k < 2 ^ 62 \<and> (\<forall>i. next_ok (heap b) i)"

interpretation bw: writer bview room
  by unfold_locales (auto simp: room_def)

lemma bview_len: "bview b d \<Longrightarrow> unat (blen b) = length d"
  by (auto simp: bview_def)

lemma bview_bound: "bview b d \<Longrightarrow> length d < 2 ^ 64"
  using bview_len [of b d] unat_lt_len [of "blen b"] by simp

lemma OPENSSL_malloc_Some: "OPENSSL_malloc n a = (Some m, a') \<Longrightarrow>
    length m = unat n \<and> ((\<forall>i. next_ok a i) \<longrightarrow> (\<forall>i. next_ok a' i))"
  by (auto simp: OPENSSL_malloc_def malloc_turn_def split: if_splits)

lemma OPENSSL_malloc_None: "OPENSSL_malloc n a = (None, a') \<Longrightarrow> unat n < 2 ^ 63 \<Longrightarrow> \<not> (\<forall>i. next_ok a i)"
  by (auto simp: OPENSSL_malloc_def word_less_nat_alt unat_word_ariths split: if_splits)

lemma OPENSSL_realloc_Some:
  assumes "OPENSSL_realloc p n a = (Some m, a')" and "(case p of None \<Rightarrow> 0 | Some q \<Rightarrow> length q) \<le> unat n"
  shows "length m = unat n \<and> take (case p of None \<Rightarrow> 0 | Some q \<Rightarrow> length q) m = (case p of None \<Rightarrow> [] | Some q \<Rightarrow> q)
    \<and> ((\<forall>i. next_ok a i) \<longrightarrow> (\<forall>i. next_ok a' i))"
  using assms
  by (auto simp: OPENSSL_realloc_def and_then_Some_iff Let_def dest!: OPENSSL_malloc_Some split: option.splits)

lemma OPENSSL_realloc_None: "OPENSSL_realloc p n a = (None, a') \<Longrightarrow> unat n < 2 ^ 63 \<Longrightarrow> \<not> (\<forall>i. next_ok a i)"
  by (auto simp: OPENSSL_realloc_def and_then_def Let_def split: option.splits prod.splits
      dest: OPENSSL_malloc_None)


lemma size_add_ok:
  assumes "\<not> x + y < (x :: size_t)"
  shows "unat (x + y) = unat x + unat y"
  using assms unat_plus_simple [of x y] by (simp add: not_less)

lemma size_add_wraps: "x + y < (x :: size_t) \<Longrightarrow> 2 ^ 64 \<le> unat x + unat y"
  using no_olen_add_nat [of x y] by (simp flip: not_less)

lemma bview_realloc:
  assumes "bview b d" and "OPENSSL_realloc (buf b) c (heap b) = (Some m, a)" and "unat (bcap b) \<le> unat c"
  shows "bview (b\<lparr>buf := Some m, bcap := c, heap := a\<rparr>) d" "(\<forall>i. next_ok (heap b) i) \<longrightarrow> (\<forall>i. next_ok a i)"
proof -
  note v = assms(1) [unfolded bview_def]
  have old: "(case buf b of None \<Rightarrow> 0 | Some q \<Rightarrow> length q) = unat (bcap b)"
    using v by (auto simp: buf_mem_def split: option.splits)
  note m = OPENSSL_realloc_Some [OF assms(2), unfolded old, OF assms(3)]
  have "take (unat (bcap b)) m = buf_mem b"
    using m by (auto simp: buf_mem_def split: option.splits)
  then have "take (unat (blen b)) m = d"
    using v by (metis min.absorb1 take_take)
  then show "bview (b\<lparr>buf := Some m, bcap := c, heap := a\<rparr>) d"
    using v m assms(3) by (auto simp: bview_def buf_mem_def)
  show "(\<forall>i. next_ok (heap b) i) \<longrightarrow> (\<forall>i. next_ok a i)" using m by blast
qed

lemma reserve_grow:
  assumes "bview b d" and "\<not> blen b + n < blen b" and "bcap b < blen b + n" and "can_resize b"
  shows "yields bview room b (cbb_buffer_reserve b n) True (unat n) d"
    and "cbb_buffer_reserve b n = (Some p, b') \<Longrightarrow>
      p = length d \<and> unat (blen b) + unat n \<le> unat (bcap b') \<and> blen b' = blen b"
proof -
  let ?newlen = "blen b + n"
  define newcap where "newcap = (let c = bcap b * 2 in if c < bcap b \<or> c < ?newlen then ?newlen else c)"
  have eq: "cbb_buffer_reserve b n =
     (case OPENSSL_realloc (buf b) newcap (heap b) of
        (None, a) \<Rightarrow> (None, b\<lparr>berror := True, heap := a\<rparr>)
      | (Some newbuf, a) \<Rightarrow> (Some (unat (blen b)), b\<lparr>buf := Some newbuf, bcap := newcap, heap := a\<rparr>))"
    using assms(2-4) unfolding cbb_buffer_reserve_def newcap_def Let_def by simp
  have cap: "unat ?newlen \<le> unat newcap"
    by (auto simp: newcap_def Let_def word_less_nat_alt)
  then have le: "unat (bcap b) \<le> unat newcap" using assms(3) unfolding word_less_nat_alt by linarith
  have cap62: "unat newcap < 2 ^ 63" if "unat ?newlen < 2 ^ 62"
  proof -
    have "unat (bcap b * 2) < 2 ^ 63" using that assms(3) by (simp add: word_less_nat_alt unat_word_ariths)
    then show ?thesis using that by (simp add: newcap_def Let_def)
  qed
  show "yields bview room b (cbb_buffer_reserve b n) True (unat n) d"
    using OPENSSL_realloc_None [of "buf b" newcap "heap b"] cap62 assms(3) cap le size_add_ok [OF assms(2)]
      bview_realloc [OF assms(1) _ le]
    by (auto simp: eq room_def word_less_nat_alt split: prod.splits option.splits)
  show "cbb_buffer_reserve b n = (Some p, b') \<Longrightarrow>
      p = length d \<and> unat (blen b) + unat n \<le> unat (bcap b') \<and> blen b' = blen b"
    using cap size_add_ok [OF assms(2)] bview_len [OF assms(1)]
    by (auto simp: eq split: prod.splits option.splits)
qed

lemma reserve_yields:
  assumes "bview b d"
  shows "yields bview room b (cbb_buffer_reserve b n) True (unat n) d"
    and "cbb_buffer_reserve b n = (Some p, b') \<Longrightarrow>
      p = length d \<and> unat (blen b) + unat n \<le> unat (bcap b') \<and> blen b' = blen b"
proof -
  consider (ov) "blen b + n < blen b" | (fits) "\<not> blen b + n < blen b" "\<not> bcap b < blen b + n"
    | (fixed) "\<not> blen b + n < blen b" "bcap b < blen b + n" "\<not> can_resize b"
    | (grow) "\<not> blen b + n < blen b" "bcap b < blen b + n" "can_resize b" by blast
  then have "yields bview room b (cbb_buffer_reserve b n) True (unat n) d \<and>
      (cbb_buffer_reserve b n = (Some p, b') \<longrightarrow>
        p = length d \<and> unat (blen b) + unat n \<le> unat (bcap b') \<and> blen b' = blen b)"
  proof cases
    case ov
    then have "\<not> room b (unat n)"
      using size_add_wraps [OF ov] unat_u64_less [of "bcap b"] by (auto simp: room_def simp del: unat_u64_less)
    with ov show ?thesis by (simp add: cbb_buffer_reserve_def Let_def)
  next
    case fits
    then show ?thesis
      using size_add_ok [OF fits(1)] assms bview_len [OF assms]
      by (auto simp: cbb_buffer_reserve_def Let_def word_less_nat_alt not_less room_def)
  next
    case fixed
    then show ?thesis
      using size_add_ok [OF fixed(1)] by (auto simp: cbb_buffer_reserve_def Let_def word_less_nat_alt room_def)
  next
    case grow
    then show ?thesis using reserve_grow [OF assms grow] by blast
  qed
  then show "yields bview room b (cbb_buffer_reserve b n) True (unat n) d"
    and "cbb_buffer_reserve b n = (Some p, b') \<Longrightarrow>
      p = length d \<and> unat (blen b) + unat n \<le> unat (bcap b') \<and> blen b' = blen b"
    by blast+
qed

lemma OPENSSL_realloc_next_ok:
  "OPENSSL_realloc p n a = (Some m, a') \<Longrightarrow> \<forall>i. next_ok a i \<Longrightarrow> next_ok a' i"
  by (auto simp: OPENSSL_realloc_def and_then_Some_iff Let_def dest!: OPENSSL_malloc_Some split: option.splits)

lemma reserve_room:
  assumes "cbb_buffer_reserve b n = (Some p, b')" and "room b k"
  shows "room b' k"
proof (cases "blen b + n > bcap b")
  case True
  have "bcap b \<le> bcap b'" "can_resize b'" "blen b' = blen b" "can_resize b"
      "(\<forall>i. next_ok (heap b) i) \<longrightarrow> (\<forall>i. next_ok (heap b') i)"
    using assms(1) True
    by (auto simp: cbb_buffer_reserve_def Let_def not_less OPENSSL_realloc_next_ok
        split: if_splits prod.splits option.splits)
  with assms(2) show ?thesis by (auto simp: room_def word_le_nat_alt)
next
  case False
  with assms show ?thesis by (auto simp: cbb_buffer_reserve_def Let_def split: if_splits)
qed

lemma add_bind:
  assumes "bview b d"
    and "\<And>b' x. length x = unat n \<Longrightarrow> bview b' (d @ x) \<Longrightarrow> yields bview room b' (f (length d) b') g k v"
  shows "yields bview room b (and_then (cbb_buffer_add b n) f) g (unat n + k) v"
proof (cases "cbb_buffer_reserve b n")
  case (Pair r b1)
  note y = reserve_yields [OF assms(1), of n]
  show ?thesis
  proof (cases r)
    case None
    with y(1) Pair show ?thesis using bw.rm_mono [of b "unat n" k] by (auto simp: cbb_buffer_add_def)
  next
    case (Some p)
    let ?b = "b1\<lparr>blen := blen b1 + n\<rparr>"
    have p: "p = length d" "unat (blen b) + unat n \<le> unat (bcap b1)" "blen b1 = blen b" "bview b1 d"
      using y Some Pair by auto
    have "unat (blen b) + unat n < 2 ^ 64" using p(2) unat_u64_less [of "bcap b1"] by (simp del: unat_u64_less)
    then have l: "unat (blen b + n) = unat (blen b) + unat n" by (simp add: unat_word_ariths)
    have r: "room b (unat n + j) \<Longrightarrow> room ?b j" for j
      using reserve_room [of b n p b1 "unat n + j"] Pair Some p(3) l by (auto simp: room_def)
    define x where "x = take (unat n) (drop (unat (blen b)) (buf_mem b1))"
    have "length x = unat n" "bview ?b (d @ x)"
      using p l by (auto simp: x_def bview_def buf_mem_def take_add)
    from assms(2) [OF this] have y2: "yields bview room ?b (f (length d) ?b) g k v" .
    obtain r2 b2 where f: "f (length d) ?b = (r2, b2)" by (metis surj_pair)
    have eq: "and_then (cbb_buffer_add b n) f = (r2, b2)"
      by (simp add: cbb_buffer_add_def Pair Some p(1) f)
    show ?thesis
      using y2 r unfolding eq f by (cases r2) (simp_all add: add.assoc, blast)
  qed
qed

lemma bview_write:
  assumes "bview b (xs @ ys @ zs)" and "length ys' = length ys" and "m = buf_mem b" and "p = length xs" and "q = length xs + length ys"
  shows "bview (set_mem b (take p m @ ys' @ drop q m)) (xs @ ys' @ zs)"
proof (cases "buf b")
  case None
  then have "xs @ ys @ zs = []" using assms(1) by (auto simp: bview_def buf_mem_def)
  with assms None show ?thesis by (auto simp: set_mem_def bview_def buf_mem_def)
next
  case (Some m')
  then have m: "buf_mem b = m" "buf_mem (set_mem b x) = x" for x using assms(3) by (auto simp: buf_mem_def set_mem_def)
  note v = assms(1) [unfolded bview_def m]
  have l: "unat (blen b) = length xs + length ys + length zs" using bview_len [OF assms(1)] by simp
  then obtain t where t: "m = (xs @ ys @ zs) @ t"
    using v by (metis append_take_drop_id)
  have c: "unat (bcap b) = length m" using v by simp
  show ?thesis
    unfolding bview_def m using v l c assms(2)
    by (auto simp: set_mem_def assms(4,5) t)
qed

lemma room_set_mem [simp]: "room (set_mem b m) k = room b k"
  by (simp add: room_def set_mem_def)

lemma store_be_eq:
  "p + n \<le> length m \<Longrightarrow>
   store_be p n v m = (take p m @ be_bytes n (unat v) @ drop (p + n) m, drop_bit (8 * n) v)"
proof (induction n arbitrary: v m)
  case (Suc n)
  have b: "(ucast v :: u8) = of_nat (unat v mod 256)"
    by (rule word_unat_eq_iff [THEN iffD2]) (simp add: unat_ucast_mod)
  have "drop (p + n) (m[p + n := ucast v]) = ucast v # drop (p + Suc n) m"
    using Suc.prems by (simp add: drop_update_swap Cons_nth_drop_Suc [symmetric])
  then show ?case
    using Suc by (simp add: unat_shr b drop_bit_drop_bit add.commute)
qed simp

lemma drop_bit_bytes_0: "drop_bit (8 * n) (v :: u64) = 0 \<longleftrightarrow> unat v < 256 ^ n"
proof -
  have "(256::nat) ^ n = 2 ^ (8 * n)" by (simp add: power_mult)
  then show ?thesis by (simp add: unat_shr div_eq_0_iff flip: unat_eq_0)
qed

text \<open>Storing a big-endian number over part of the contents.\<close>

lemma store_be_view:
  assumes "bview b (xs @ ys @ zs)" and "length ys = n" and "store_be (length xs) n v (buf_mem b) = (m, v')"
  shows "bview (set_mem b m) (xs @ be_bytes n (unat v) @ zs)" and "v' = 0 \<longleftrightarrow> unat v < 256 ^ n"
proof -
  have "length xs + n \<le> length (buf_mem b)"
    using assms(1,2) bview_len [OF assms(1)] by (auto simp: bview_def)
  then have "m = take (length xs) (buf_mem b) @ be_bytes n (unat v) @ drop (length xs + n) (buf_mem b)"
    and "v' = drop_bit (8 * n) v"
    using assms(3) by (auto simp: store_be_eq)
  then show "bview (set_mem b m) (xs @ be_bytes n (unat v) @ zs)" and "v' = 0 \<longleftrightarrow> unat v < 256 ^ n"
    using bview_write [OF assms(1), of "be_bytes n (unat v)"] assms(2) by (simp_all add: drop_bit_bytes_0)
qed

lemma cbb_buffer_add_u_yields:
  assumes "bview b d" and "n \<noteq> 0"
  shows "yields bview room b (cbb_buffer_add_u b v n) (unat v < 256 ^ unat n) (unat n)
    (d @ be_bytes (unat n) (unat v))"
proof -
  have "yields bview room b
      (and_then (cbb_buffer_add b n) (\<lambda>p b.
             let (m, v') = store_be p (unat n) v (buf_mem b);
                 b' = set_mem b m
             in if v' \<noteq> 0 then (None, b'\<lparr>berror := True\<rparr>) else (Some (), b')))
      (unat v < 256 ^ unat n) (unat n + 0) (d @ be_bytes (unat n) (unat v))"
  proof (rule add_bind [OF assms(1)])
    fix b' x assume x: "length x = unat n" "bview b' (d @ x)"
    obtain m v' where s: "store_be (length d) (unat n) v (buf_mem b') = (m, v')" by (metis surj_pair)
    from store_be_view [OF _ x(1) s, of "[]"] x(2)
    show "yields bview room b'
        (let (m, v') = store_be (length d) (unat n) v (buf_mem b');
             b'' = set_mem b' m
         in if v' \<noteq> 0 then (None, b''\<lparr>berror := True\<rparr>) else (Some (), b''))
        (unat v < 256 ^ unat n) 0 (d @ be_bytes (unat n) (unat v))"
      by (simp add: s Let_def)
  qed
  with assms(2) show ?thesis by (simp add: cbb_buffer_add_u_def)
qed

subsection \<open>Pending length prefixes\<close>

text \<open>
  The abstract builder: a list of frames, the top-level \<open>CBB\<close> first, each with its address, its kind
  of length prefix and the contents written to it so far. Closing a frame puts the length of its
  contents in front of them.
\<close>

datatype prefix = Top | Fixed u8 | Asn1_len

type_synonym frame = "nat \<times> prefix \<times> bytes"

fun prefix_len :: "prefix \<Rightarrow> u8" where
  "prefix_len Top = 0"
| "prefix_len (Fixed n) = n"
| "prefix_len Asn1_len = 1"

fun prefix_enc :: "prefix \<Rightarrow> bytes \<Rightarrow> bytes" where
  "prefix_enc Top x = x"
| "prefix_enc (Fixed n) x = prefixed_enc (unat n) x"
| "prefix_enc Asn1_len x = len_enc (length x) @ x"

fun prefix_fits :: "prefix \<Rightarrow> nat \<Rightarrow> bool" where
  "prefix_fits Top n = True"
| "prefix_fits (Fixed k) n = (n < 256 ^ unat k)"
| "prefix_fits Asn1_len n = (n \<le> 0xfffffffe)"

fun layout :: "frame list \<Rightarrow> bytes" where
  "layout [] = []"
| "layout ((a, p, x) # fs) = replicate (unat (prefix_len p)) 0 @ x @ layout fs"

fun close :: "frame list \<Rightarrow> bytes" where
  "close [] = []"
| "close ((a, p, x) # fs) = prefix_enc p (x @ close fs)"

fun closable :: "frame list \<Rightarrow> bool" where
  "closable [] = True"
| "closable ((a, p, x) # fs) \<longleftrightarrow> closable fs \<and> prefix_fits p (length (x @ close fs))"

fun frames_at :: "nat \<Rightarrow> cbb list \<Rightarrow> frame list \<Rightarrow> bool" where
  "frames_at pos [] [] \<longleftrightarrow> True"
| "frames_at pos (c # cs) ((a, p, x) # fs) \<longleftrightarrow>
     addr c = a \<and> unat (offset c) = pos \<and> pending_len_len c = prefix_len p
     \<and> pending_is_asn1 c = (p = Asn1_len) \<and> is_child c = (p \<noteq> Top)
     \<and> frames_at (pos + unat (prefix_len p) + length x) cs fs"
| "frames_at pos _ _ \<longleftrightarrow> False"

definition pending :: "frame list \<Rightarrow> bool" where
  "pending fs \<longleftrightarrow> list_all (\<lambda>(a, p, x). prefix_len p \<noteq> 0) fs"

lemma length_prefix_enc: "length (prefix_enc p x) \<ge> unat (prefix_len p) + length x"
  by (cases p) (auto simp: prefixed_enc_def len_enc_def)

lemma length_close: "length (layout fs) \<le> length (close fs)"
proof (induction fs rule: close.induct)
  case (2 a p x fs)
  then show ?case using length_prefix_enc [of p "x @ close fs"] by simp
qed simp

lemma write_fixed:
  assumes "bview b (pre @ replicate (unat n) 0 @ y)" and "pending_is_asn1 c = False"
    and "pending_len_len c = n" and "unat (offset c) = length pre" and "unat start = length pre + unat n"
    and "cbb_write_length c start b = (r, b')"
  shows "\<exists>rest. r = Some rest \<and> (rest = 0 \<longleftrightarrow> length y < 256 ^ unat n)
    \<and> bview b' (pre @ prefixed_enc (unat n) y) \<and> (\<forall>j. room b' j = room b j)"
proof -
  have l: "unat (blen b) = length pre + unat n + length y" using bview_len [OF assms(1)] by simp
  have "unat (blen b - start) = length y" using l assms(5) by (simp add: unat_sub word_le_nat_alt)
  moreover obtain m v' where s: "store_be (length pre) (unat n) (blen b - start) (buf_mem b) = (m, v')"
    by (metis surj_pair)
  ultimately show ?thesis
    using assms(2-6) store_be_view [OF assms(1) _ s]
    by (auto simp: cbb_write_length_def Let_def s prefixed_enc_def)
qed

lemma set_mem_simps:
  assumes "bview b d" and "d \<noteq> []"
  shows "buf_mem (set_mem b m) = m" "set_mem (set_mem b m) m' = set_mem b m'"
  using assms by (auto simp: bview_def buf_mem_def set_mem_def split: option.splits)

lemma write_asn1_header:
  assumes "bview b (pre @ [z0] @ z @ y)"
    and "store_be (length pre + 1) (length z) len ((buf_mem b)[length pre := ib]) = (m, rest)"
  shows "bview (set_mem b m) (pre @ [ib] @ be_bytes (length z) (unat len) @ y)"
    and "rest = 0 \<longleftrightarrow> unat len < 256 ^ length z"
proof -
  let ?m = "(buf_mem b)[length pre := ib]"
  have lt: "length pre < length (buf_mem b)" using assms(1) bview_len [OF assms(1)] by (auto simp: bview_def)
  then have "?m = take (length pre) (buf_mem b) @ [ib] @ drop (length pre + 1) (buf_mem b)"
    by (simp add: upd_conv_take_nth_drop)
  then have v: "bview (set_mem b ?m) ((pre @ [ib]) @ z @ y)"
    using bview_write [OF assms(1), of "[ib]"] by simp
  have s: "store_be (length (pre @ [ib])) (length z) len (buf_mem (set_mem b ?m)) = (m, rest)"
    using assms by (simp add: set_mem_simps [OF assms(1)])
  show "bview (set_mem b m) (pre @ [ib] @ be_bytes (length z) (unat len) @ y)"
    and "rest = 0 \<longleftrightarrow> unat len < 256 ^ length z"
    using store_be_view [OF v refl s] by (simp_all add: set_mem_simps [OF assms(1)])
qed

lemma memmove_view:
  assumes "bview b (pre @ y @ x)" and "m = buf_mem b"
  shows "\<exists>z. length z = length x \<and>
    bview (set_mem b (take (length pre + length x) m @ take (length y) (drop (length pre) m)
      @ drop (length pre + length x + length y) m)) (pre @ z @ y)"
proof -
  have "m = (pre @ y @ x) @ drop (unat (blen b)) m"
    using assms by (metis append_take_drop_id bview_def)
  then obtain t where "m = (pre @ y @ x) @ t" ..
  then have y: "take (length y) (drop (length pre) m) = y" by simp
  obtain z r where zr: "y @ x = z @ r" "length z = length x" "length r = length y"
  proof (rule that [of "take (length x) (y @ x)" "drop (length x) (y @ x)"])
    show "y @ x = take (length x) (y @ x) @ drop (length x) (y @ x)" by (rule append_take_drop_id [symmetric])
  qed simp_all
  then have "bview b ((pre @ z) @ r @ [])" using assms(1) by simp
  from bview_write [OF this, of y m] assms(2) y zr show ?thesis by (intro exI [of _ z]) simp
qed

lemma asn1_len_len_eq:
  "asn1_len_len w =
   (let n = unat w
    in if n > 0xfffffffe then None
       else if n < 128 then Some (1, of_nat n, 0)
       else Some (of_nat (len_bytes n) + 1, of_nat (128 + len_bytes n), w))"
  unfolding asn1_len_len_def Let_def len_bytes_def word_less_nat_alt
  by (auto simp: not_less unat_ucast_mod word_unat_eq_iff)

lemma yields_err:
  "yields view rm s (case r of (None, b) \<Rightarrow> (None, h b) | (Some x, b) \<Rightarrow> g x b) good k v =
   yields view rm s (and_then r g) good k v"
  by (auto simp: and_then_def split: prod.splits option.splits)

lemma and_then_assoc: "and_then (and_then r f) g = and_then r (\<lambda>x s. and_then (f x s) g)"
  by (auto simp: and_then_def split: prod.splits option.splits)

lemma write_asn1_long:
  assumes "bview b (pre @ [0] @ y)" and "128 \<le> length y" "length y < 2 ^ 32" and "unat w = length y"
    and "k = len_bytes (length y)"
  shows "yields bview room b
    (and_then (cbb_buffer_add b (of_nat k)) (\<lambda>_ b.
       let m = buf_mem b; s = length pre + 1;
           b = set_mem b (take (s + k) m @ take (length y) (drop s m) @ drop (s + k + length y) m);
           (m, rest) = store_be (length pre + 1) k w ((buf_mem b)[length pre := of_nat (128 + k)])
       in if rest \<noteq> 0 then (None, (set_mem b m)\<lparr>berror := True\<rparr>) else (Some x, set_mem b m)))
    True (length (len_enc (length y)) - 1) (pre @ len_enc (length y) @ y)"
proof -
  have k: "1 \<le> k" "k \<le> 4" "length y < 256 ^ k"
    using len_bytes_bounds [OF assms(2,3)] assms(5) by simp_all
  then have uk: "unat (of_nat k :: size_t) = k" by (simp add: unat_of_nat)
  have len: "length (len_enc (length y)) - 1 = k + 0" using assms(2,5) by (simp add: len_enc_def)
  show ?thesis
    unfolding len
  proof (rule add_bind [OF assms(1), of "of_nat k", unfolded uk], goal_cases)
    case (1 b1 x)
    obtain z where z: "length z = k" and v: "bview (set_mem b1 (take (length pre + 1 + k) (buf_mem b1)
        @ take (length y) (drop (length pre + 1) (buf_mem b1)) @ drop (length pre + 1 + k + length y) (buf_mem b1)))
        (pre @ [0] @ z @ y)" (is "bview ?b2 _")
      using memmove_view [of b1 "pre @ [0]" y x] 1 by (auto simp: add.commute add.left_commute)
    obtain m rest where s: "store_be (length pre + 1) (length z) w ((buf_mem ?b2)[length pre := of_nat (128 + k)]) = (m, rest)"
      by (metis surj_pair)
    from write_asn1_header [OF v s] k assms(2,4,5) z show ?case
      using s by (simp add: Let_def len_enc_def)
  qed
qed

lemma write_asn1:
  assumes "bview b (pre @ [0] @ y)" and "pending_is_asn1 c"
    and "unat (offset c) = length pre" and "unat start = length pre + 1"
  shows "yields bview room b
    (case cbb_write_length c start b of
       (None, b) \<Rightarrow> (None, b\<lparr>berror := True\<rparr>)
     | (Some rest, b) \<Rightarrow> if rest \<noteq> 0 then (None, b\<lparr>berror := True\<rparr>) else (Some [], b))
    (length y \<le> 0xfffffffe) (length (len_enc (length y)) - 1) (pre @ len_enc (length y) @ y)"
proof -
  have l: "unat (blen b) = length pre + 1 + length y" using bview_len [OF assms(1)] by simp
  define w where "w = blen b - start"
  have w: "unat w = length y" using l assms(4) by (simp add: w_def unat_sub word_le_nat_alt)
  have o1: "unat (offset c + 1) = length pre + 1"
    using assms(3) l unat_u64_less [of "blen b"] by (simp add: unat_word_ariths del: unat_u64_less)
  consider (big) "length y > 0xfffffffe" | (short) "length y < 128" | (long) "128 \<le> length y" "length y \<le> 0xfffffffe"
    by linarith
  then show ?thesis
  proof cases
    case big
    then show ?thesis using assms(2) by (simp add: cbb_write_length_def Let_def w_def [symmetric] asn1_len_len_eq w)
  next
    case short
    obtain m rest where s: "store_be (length pre + 1) 0 0 ((buf_mem b)[length pre := of_nat (length y)]) = (m, rest)"
      by (metis surj_pair)
    from write_asn1_header [of b pre 0 "[]" y 0 "of_nat (length y)" m rest] s assms(1) short
    show ?thesis using assms(2) o1 short
      by (simp add: cbb_write_length_def Let_def w_def [symmetric] asn1_len_len_eq w assms(3) len_enc_def)
  next
    case long
    define k where "k = len_bytes (length y)"
    have lt: "length y < 2 ^ 32" using long by simp
    have k: "1 \<le> k" "k \<le> 4" using len_bytes_bounds [OF long(1) lt] by (simp_all add: k_def)
    then have u: "unat (of_nat k :: u8) = k" "unat (of_nat k :: size_t) = k" "of_nat k + (1 :: u8) \<noteq> 1" "(ucast (of_nat k :: u8) :: size_t) = of_nat k"
      by (simp_all add: unat_of_nat word_unat_eq_iff) (auto simp: unat_of_nat unat_word_ariths)
    show ?thesis
      using write_asn1_long [OF assms(1) long(1) lt w k_def, of "[]"] long assms(2,3) o1 u
      unfolding yields_err cbb_write_length_def w_def [symmetric]
      by (simp add: Let_def asn1_len_len_eq w k_def [symmetric] and_then_assoc assms(4) case_prod_unfold cong: if_cong)
  qed
qed

lemma write_step:
  assumes "bview b (pre @ replicate (unat n) 0 @ y)" and "unat (offset c) = length pre"
    and "pending_len_len c = n" "n = prefix_len p" "n \<noteq> 0" and "pending_is_asn1 c = (p = Asn1_len)"
    and "start = offset c + ucast n"
  shows "yields bview room b
    (if start < offset c \<or> blen b < start then (None, b\<lparr>berror := True\<rparr>)
     else case cbb_write_length c start b of
       (None, b) \<Rightarrow> (None, b\<lparr>berror := True\<rparr>)
     | (Some rest, b) \<Rightarrow> if rest \<noteq> 0 then (None, b\<lparr>berror := True\<rparr>) else (Some [], b))
    (prefix_fits p (length y)) (length (prefix_enc p y) - (unat n + length y)) (pre @ prefix_enc p y)"
proof -
  have l: "unat (blen b) = length pre + unat n + length y" using bview_len [OF assms(1)] by simp
  have "length pre + unat n < 2 ^ 64" using l unat_u64_less [of "blen b"] by (simp del: unat_u64_less)
  then have start: "unat start = length pre + unat n" using assms(2,7) by (simp add: unat_word_ariths)
  then have g: "\<not> (start < offset c \<or> blen b < start)" using l assms(2) by (simp add: word_less_nat_alt)
  show ?thesis
  proof (cases p)
    case Top
    with assms show ?thesis by simp
  next
    case (Fixed k)
    obtain r b' where w: "cbb_write_length c start b = (r, b')" by (metis surj_pair)
    from write_fixed [OF assms(1) _ assms(3,2) start w] Fixed assms(6)
    obtain rest where "r = Some rest" "rest = 0 \<longleftrightarrow> length y < 256 ^ unat n"
      "bview b' (pre @ prefixed_enc (unat n) y)" "\<forall>j. room b' j = room b j" by auto
    then show ?thesis using g assms(4) Fixed w by (simp add: prefixed_enc_def)
  next
    case Asn1_len
    with assms(4) have "unat n = 1" by simp
    with write_asn1 [of b pre y c start] Asn1_len assms(1,2,6) start g
    show ?thesis by (simp add: len_enc_def)
  qed
qed

lemma flush_chain_yields:
  "frames_at (length pre) cs fs \<Longrightarrow> pending fs \<Longrightarrow> bview b (pre @ layout fs) \<Longrightarrow>
   yields bview room b (flush_chain cs b) (closable fs) (length (close fs) - length (layout fs)) (pre @ close fs)
   \<and> (\<forall>x b'. flush_chain cs b = (Some x, b') \<longrightarrow> x = [])"
proof (induction fs arbitrary: pre cs b)
  case Nil
  then have "cs = []" by (cases cs) auto
  with Nil show ?case by (auto simp: flush_chain.simps [of "[]"] bview_def)
next
  case (Cons f fs)
  obtain a p x where f: "f = (a, p, x)" by (metis prod.collapse)
  with Cons.prems(1) obtain c cs' where cs: "cs = c # cs'" by (cases cs) auto
  let ?n = "prefix_len p"
  let ?pre = "pre @ replicate (unat ?n) 0 @ x"
  from Cons.prems f cs have c: "unat (offset c) = length pre" "pending_len_len c = ?n"
      "pending_is_asn1 c = (p = Asn1_len)" "?n \<noteq> 0" "pending fs" "frames_at (length ?pre) cs' fs"
    by (auto simp: pending_def add.assoc)
  have v: "bview b (?pre @ layout fs)" using Cons.prems(3) f by simp
  note IH = Cons.IH [OF c(6,5) v]
  have ne: "\<not> berror b" using v by (simp add: bview_def)
  let ?start = "offset c + ucast ?n"
  let ?y = "x @ close fs"
  have fc: "flush_chain cs b =
    (case flush_chain cs' b of
       (None, b) \<Rightarrow> (None, b\<lparr>berror := True\<rparr>)
     | (Some _, b) \<Rightarrow>
         if ?start < offset c \<or> blen b < ?start then (None, b\<lparr>berror := True\<rparr>)
         else case cbb_write_length c ?start b of
                (None, b) \<Rightarrow> (None, b\<lparr>berror := True\<rparr>)
              | (Some rest, b) \<Rightarrow> if rest \<noteq> 0 then (None, b\<lparr>berror := True\<rparr>) else (Some [], b))"
    using ne c(2,4) unfolding cs by (subst flush_chain.simps) (simp add: Let_def)
  have k: "length (close (f # fs)) - length (layout (f # fs)) =
      length (close fs) - length (layout fs) + (length (prefix_enc p ?y) - (unat ?n + length ?y))"
    using length_close [of fs] length_prefix_enc [of p ?y] by (simp add: f)
  have "yields bview room b (flush_chain cs b) (closable (f # fs))
      (length (close (f # fs)) - length (layout (f # fs))) (pre @ close (f # fs))"
    unfolding fc yields_err k
  proof (rule bw.bind' [OF conjunct1 [OF IH]], goal_cases)
    case (1 r b1)
    then show "yields bview room b1 (if ?start < offset c \<or> blen b1 < ?start then (None, b1\<lparr>berror := True\<rparr>)
         else case cbb_write_length c ?start b1 of
                (None, b) \<Rightarrow> (None, b\<lparr>berror := True\<rparr>)
              | (Some rest, b) \<Rightarrow> if rest \<noteq> 0 then (None, b\<lparr>berror := True\<rparr>) else (Some [], b))
        (prefix_fits p (length ?y)) (length (prefix_enc p ?y) - (unat ?n + length ?y)) (pre @ close (f # fs))"
      using write_step [of b1 pre ?n ?y c p ?start] c by (simp add: f del: prefix_fits.simps)
  qed (simp_all add: f)
  moreover have "flush_chain cs b = (Some z, b') \<Longrightarrow> z = []" for z b'
    unfolding fc by (auto split: prod.splits option.splits if_splits)
  ultimately show ?case by blast
qed

subsection \<open>The builder refines the list of frames\<close>

definition wf_frames :: "frame list \<Rightarrow> bool" where
  "wf_frames A \<longleftrightarrow> A \<noteq> [] \<and> fst (snd (hd A)) = Top \<and> pending (tl A) \<and> distinct (map fst A)"

definition sview :: "cbb_st \<Rightarrow> frame list \<Rightarrow> bool" where
  "sview s A \<longleftrightarrow> wf_frames A \<and> frames_at 0 (chain s) A \<and> bview (base s) (layout A)"

definition sroom :: "cbb_st \<Rightarrow> nat \<Rightarrow> bool" where
  "sroom s k \<longleftrightarrow> room (base s) k"

interpretation sw: writer sview sroom
  by unfold_locales (auto simp: sroom_def intro: bw.rm_mono)

lemma layout_append [simp]: "layout (fs @ gs) = layout fs @ layout gs"
  by (induction fs rule: layout.induct) auto

lemma frames_at_append:
  "frames_at pos cs (fs @ gs) \<longleftrightarrow>
   frames_at pos (take (length fs) cs) fs \<and> frames_at (pos + length (layout fs)) (drop (length fs) cs) gs"
proof (induction fs arbitrary: pos cs)
  case Nil
  then show ?case by simp
next
  case (Cons f fs)
  obtain a p x where f: "f = (a, p, x)" by (metis prod.collapse)
  show ?case by (cases cs) (auto simp: f Cons.IH add.assoc)
qed

lemma frames_at_addr: "frames_at pos cs fs \<Longrightarrow> map addr cs = map fst fs"
  by (induction pos cs fs rule: frames_at.induct) auto

lemma cbb_find_append: "h \<notin> set (map addr cs) \<Longrightarrow> addr c = h \<Longrightarrow> cbb_find h (cs @ c # ds) = Some (cs, c, ds)"
  by (induction cs) auto

lemma sview_split:
  assumes "sview s (up @ (h, p, x) # below)"
  obtains cs c ds where "cbb_find h (chain s) = Some (cs, c, ds)" "chain s = cs @ c # ds"
    "frames_at 0 cs up" "frames_at (length (layout up)) [c] [(h, p, x)]"
    "frames_at (length (layout (up @ [(h, p, x)]))) ds below" "pending below"
    "wf_frames (up @ [(h, p, x)])"
proof -
  have f: "frames_at 0 (chain s) (up @ [(h, p, x)] @ below)" using assms by (simp add: sview_def)
  then obtain cs r where 1: "chain s = cs @ r" "frames_at 0 cs up"
      "frames_at (length (layout up)) r ([(h, p, x)] @ below)"
    unfolding frames_at_append [of 0 _ up] by (intro that [of "take (length up) (chain s)" "drop (length up) (chain s)"]) simp_all
  then obtain c ds where 2: "r = c # ds" "frames_at (length (layout up)) [c] [(h, p, x)]"
      "frames_at (length (layout (up @ [(h, p, x)]))) ds below"
    by (cases r) (auto simp: add.assoc)
  have "h \<notin> set (map addr cs)" using assms frames_at_addr [OF 1(2)] by (auto simp: sview_def wf_frames_def)
  then have "cbb_find h (chain s) = Some (cs, c, ds)" using 1(1) 2(1,2) by (simp add: cbb_find_append)
  moreover have "pending below" "wf_frames (up @ [(h, p, x)])"
    using assms by (cases up; auto simp: sview_def wf_frames_def pending_def)+
  ultimately show thesis using that 1 2 by blast
qed

lemma CBB_flush_yields:
  assumes "sview s (up @ (h, p, x) # below)"
  shows "yields sview sroom s (CBB_flush h s) (closable below) (length (close below) - length (layout below))
    (up @ [(h, p, x @ close below)])"
  using assms
proof (rule sview_split)
  fix cs c ds
  assume f: "cbb_find h (chain s) = Some (cs, c, ds)" "frames_at 0 cs up"
    "frames_at (length (layout up)) [c] [(h, p, x)]" "frames_at (length (layout (up @ [(h, p, x)]))) ds below"
    "pending below" "wf_frames (up @ [(h, p, x)])"
  have v: "bview (base s) (layout (up @ [(h, p, x)]) @ layout below)" using assms by (simp add: sview_def)
  have "frames_at 0 (cs @ [c]) (up @ [(h, p, x @ close below)])"
    using f(2,3) frames_at_addr [OF f(2)] map_eq_imp_length_eq [of addr cs fst up] by (simp add: frames_at_append)
  moreover have "wf_frames (up @ [(h, p, x @ close below)])"
    using f(6) by (cases up) (auto simp: wf_frames_def pending_def)
  ultimately show ?thesis
    using flush_chain_yields [OF f(4,5) v] f(1)
    by (auto simp: CBB_flush_def sview_def sroom_def yields_def split: prod.splits option.splits)
qed

text \<open>An operation on the buffer that appends \<open>ys\<close> appends it to the last frame.\<close>

lemma sview_append:
  assumes "sview s (up @ [(h, p, x)])" and "bview b (layout (up @ [(h, p, x)]) @ ys)"
  shows "sview (s\<lparr>base := b\<rparr>) (up @ [(h, p, x @ ys)])"
proof -
  have "wf_frames (up @ [(h, p, x @ ys)])" using assms(1) by (cases up) (auto simp: sview_def wf_frames_def pending_def)
  moreover have "frames_at 0 (chain s) (up @ [(h, p, x @ ys)])"
    using assms(1) unfolding sview_def frames_at_append
    by (cases "drop (length up) (chain s)"; cases "tl (drop (length up) (chain s))") auto
  ultimately show ?thesis using assms(2) by (simp add: sview_def)
qed

lemma on_base_yields:
  assumes "sview s (up @ [(h, p, x)])"
    and "yields bview room (base s) (f (base s)) g k (layout (up @ [(h, p, x)]) @ ys)"
  shows "yields sview sroom s (on_base f s) g k (up @ [(h, p, x @ ys)])"
  using assms(2) sview_append [OF assms(1), of _ ys]
  by (auto simp: on_base_def yields_def sroom_def split: prod.splits option.splits)

lemma cbb_add_u_yields:
  assumes "sview s (up @ (h, p, x) # below)" and "n \<noteq> 0"
  shows "yields sview sroom s (cbb_add_u h v n s) (closable below \<and> unat v < 256 ^ unat n)
    (length (close below) - length (layout below) + unat n)
    (up @ [(h, p, x @ close below @ be_bytes (unat n) (unat v))])"
  unfolding cbb_add_u_def
proof (rule sw.bind [OF CBB_flush_yields [OF assms(1)]], goal_cases)
  case (1 r s1)
  have "yields bview room (base s1) (cbb_buffer_add_u (base s1) v n) (unat v < 256 ^ unat n) (unat n)
      (layout (up @ [(h, p, x @ close below)]) @ be_bytes (unat n) (unat v))"
    using 1 by (intro cbb_buffer_add_u_yields assms(2)) (simp add: sview_def)
  from on_base_yields [OF 1(2), of "\<lambda>b. cbb_buffer_add_u b v n", OF this] show ?case by simp
qed

lemma CBB_add_u8_yields:
  assumes "sview s (up @ (h, p, x) # below)"
  shows "yields sview sroom s (CBB_add_u8 h v s) (closable below)
    (length (close below) - length (layout below) + 1) (up @ [(h, p, x @ close below @ [v])])"
  using cbb_add_u_yields [OF assms, of 1 "ucast v"] by (simp add: CBB_add_u8_def ucast_id)

lemma add_bytes_buffer:
  assumes "bview b d" and "length xs = unat n"
  shows "yields bview room b (and_then (cbb_buffer_add b n) (\<lambda>p b.
    (Some y, set_mem b (take p (buf_mem b) @ xs @ drop (p + length xs) (buf_mem b))))) True (unat n) (d @ xs)"
proof -
  have "yields bview room b (and_then (cbb_buffer_add b n) (\<lambda>p b.
    (Some y, set_mem b (take p (buf_mem b) @ xs @ drop (p + length xs) (buf_mem b))))) True (unat n + 0) (d @ xs)"
  proof (rule add_bind [OF assms(1)], goal_cases)
    case (1 b' z)
    with bview_write [of b' d z "[]" xs] assms(2) show ?case by simp
  qed
  then show ?thesis by simp
qed

lemma add_write_on_base:
  "and_then (on_base (\<lambda>b. cbb_buffer_add b n) s) (\<lambda>p s. (Some y, write_at p xs s)) =
   on_base (\<lambda>b. and_then (cbb_buffer_add b n) (\<lambda>p b.
      (Some y, set_mem b (take p (buf_mem b) @ xs @ drop (p + length xs) (buf_mem b))))) s"
  by (auto simp: on_base_def write_at_def Let_def and_then_def split: prod.splits option.splits)

lemma add_write_yields:
  assumes "sview s (up @ [(h, p, x)])" and "length xs = unat n"
  shows "yields sview sroom s (and_then (on_base (\<lambda>b. cbb_buffer_add b n) s) (\<lambda>p s. (Some y, write_at p xs s)))
    True (unat n) (up @ [(h, p, x @ xs)])"
  unfolding add_write_on_base
  by (rule on_base_yields [OF assms(1)], rule add_bytes_buffer)
    (use assms in \<open>simp_all add: sview_def\<close>)

lemma CBB_add_bytes_yields:
  assumes "sview s (up @ (h, p, x) # below)" and "unat n \<le> length data"
  shows "yields sview sroom s (CBB_add_bytes h data n s) (closable below)
    (length (close below) - length (layout below) + unat n) (up @ [(h, p, x @ close below @ take (unat n) data)])"
proof -
  have "yields sview sroom s (CBB_add_bytes h data n s) (closable below \<and> True)
    (length (close below) - length (layout below) + unat n) (up @ [(h, p, x @ close below @ take (unat n) data)])"
    unfolding CBB_add_bytes_def
  proof (rule sw.bind [OF CBB_flush_yields [OF assms(1)]], goal_cases)
    case (1 r s1)
    with add_write_yields [OF 1(2), of "take (unat n) data" n "()"] assms(2) show ?case by simp
  qed
  then show ?thesis by simp
qed

lemma sview_push_child:
  assumes "sview s (up @ [(h, p, x @ replicate (unat (prefix_len q)) 0)])" and "out \<notin> fst ` set up" "out \<noteq> h"
    and "unat off = length (layout (up @ [(h, p, x)]))" and "n = prefix_len q" "n \<noteq> 0" "b = (q = Asn1_len)"
  shows "sview (push_child h out off n b s) (up @ [(h, p, x), (out, q, [])])"
  using assms(1)
proof (rule sview_split, goal_cases)
  case (1 cs c ds)
  then have ds: "ds = []" by (cases ds) auto
  let ?c = "\<lparr>addr = out, offset = off, pending_len_len = n, pending_is_asn1 = b, is_child = True\<rparr>"
  have q: "q \<noteq> Top" using assms(5,6) by auto
  have l: "length cs = length up" using frames_at_addr [OF 1(3)] map_eq_imp_length_eq by blast
  have "frames_at 0 (cs @ [c, ?c]) (up @ [(h, p, x), (out, q, [])])"
    using 1(3,4) assms(4-) q by (simp add: frames_at_append l)
  moreover have "wf_frames (up @ [(h, p, x), (out, q, [])])"
    using 1(7) assms(2,3,5,6) by (cases up) (auto simp: wf_frames_def pending_def)
  moreover have "bview (base s) (layout (up @ [(h, p, x), (out, q, [])]))"
    using assms(1) by (simp add: sview_def)
  ultimately show ?case using 1(1) by (simp add: sview_def push_child_def)
qed

lemma sroom_push_child [simp]: "sroom (push_child h out off n b s) j = sroom s j"
  by (auto simp: sroom_def push_child_def split: option.splits)

lemma blen_layout: "sview s A \<Longrightarrow> unat (blen (base s)) = length (layout A)"
  by (simp add: sview_def bview_len)

lemma cbb_add_length_prefixed_yields:
  assumes "sview s (up @ (h, p, x) # below)" and "out \<notin> fst ` set up" "out \<noteq> h" "n \<noteq> 0"
  shows "yields sview sroom s (cbb_add_length_prefixed h out n s) (closable below)
    (length (close below) - length (layout below) + unat n)
    (up @ [(h, p, x @ close below), (out, Fixed n, [])])"
proof -
  have "yields sview sroom s (cbb_add_length_prefixed h out n s) (closable below \<and> True)
    (length (close below) - length (layout below) + unat n)
    (up @ [(h, p, x @ close below), (out, Fixed n, [])])"
    unfolding cbb_add_length_prefixed_def
  proof (rule sw.bind [OF CBB_flush_yields [OF assms(1)]], goal_cases)
    case (1 r s1)
    have y: "yields sview sroom s1 (and_then (on_base (\<lambda>b. cbb_buffer_add b (ucast n)) s1)
        (\<lambda>p s. (Some (), write_at p (replicate (unat n) 0) s))) True (unat n)
        (up @ [(h, p, (x @ close below) @ replicate (unat n) 0)])"
      using add_write_yields [OF 1(2), of "replicate (unat n) 0" "ucast n" "()"] by simp
    have "sview s2 (up @ [(h, p, (x @ close below) @ replicate (unat n) 0)]) \<Longrightarrow>
        sview (push_child h out (blen (base s1)) n False s2) (up @ [(h, p, x @ close below), (out, Fixed n, [])])" for s2
      using sview_push_child [of s2 up h p "x @ close below" "Fixed n" out "blen (base s1)" n False] assms(2-4)
        blen_layout [OF 1(2)] by simp
    then show ?case using y
      by (auto simp: Let_def yields_def and_then_def split: prod.splits option.splits)
  qed
  then show ?thesis by simp
qed

subsection \<open>Tags\<close>

fun b128_digits :: "u64 \<Rightarrow> nat \<Rightarrow> bytes" where
  "b128_digits v 0 = []"
| "b128_digits v (Suc i) =
     (let byte = ucast (drop_bit (7 * i) v AND 0x7f)
      in (if i \<noteq> 0 then byte OR 0x80 else byte) # b128_digits v i)"

lemma b128_digit:
  "(ucast (drop_bit (7 * i) (v :: u64) AND 0x7f) :: u8) = of_nat (unat v div 128 ^ i mod 128)"
  "(ucast (drop_bit (7 * i) v AND 0x7f) OR 0x80 :: u8) = of_nat (unat v div 128 ^ i mod 128 + 128)"
proof -
  have "unat (drop_bit (7 * i) v AND 0x7f) = unat v div 128 ^ i mod 128"
    using unat_and_mask [of "drop_bit (7 * i) v" 7]
    by (simp add: mask_eq_exp_minus_1 unat_shr power_mult)
  then show 1: "(ucast (drop_bit (7 * i) v AND 0x7f) :: u8) = of_nat (unat v div 128 ^ i mod 128)"
    using less_trans [of "unat v div 128 ^ i mod 128" 128 256]
    by (simp add: word_unat_eq_iff unat_ucast_mod unat_digit_low)
  have "(push_bit 7 1 OR of_nat (unat v div 128 ^ i mod 128) :: u8) = push_bit 7 1 + of_nat (unat v div 128 ^ i mod 128)"
    by (rule shl_or_eq_add) (simp add: unat_digit_low)
  then show "(ucast (drop_bit (7 * i) v AND 0x7f) OR 0x80 :: u8) = of_nat (unat v div 128 ^ i mod 128 + 128)"
    unfolding 1 by (simp add: or.commute add.commute)
qed

lemma b128_hi_digits:
  "b128_hi (unat c) = map (\<lambda>j. of_nat (unat c div 128 ^ j mod 128 + 128)) (rev [0..<base128_len_len c])"
proof (induction c rule: base128_len_len.induct)
  case (1 c)
  show ?case
  proof (cases "c = 0")
    case False
    then have n: "base128_len_len c = Suc (base128_len_len (drop_bit 7 c))"
      by (simp add: base128_len_len.simps [of c] word_neq_0_conv)
    have d: "unat (drop_bit 7 c) = unat c div 128" by (simp add: unat_shr)
    have "b128_hi (unat c) = b128_hi (unat (drop_bit 7 c)) @ [of_nat (unat c mod 128 + 128)]"
      using False by (subst b128_hi.simps) (simp add: d unat_eq_0)
    also have "\<dots> = map (\<lambda>j. of_nat (unat c div 128 ^ Suc j mod 128 + 128)) (rev [0..<base128_len_len (drop_bit 7 c)])
        @ [of_nat (unat c mod 128 + 128)]"
      using 1 False by (simp add: word_neq_0_conv d div_mult2_eq)
    also have "\<dots> = map (\<lambda>j. of_nat (unat c div 128 ^ j mod 128 + 128)) (rev [0..<base128_len_len c])"
      unfolding n by (simp add: upt_conv_Cons map_Suc_upt [symmetric] rev_map del: upt_Suc)
    finally show ?thesis .
  qed (simp add: base128_len_len.simps)
qed

lemma b128_digits_eq:
  "b128_digits v (Suc i) = map (\<lambda>j. of_nat (unat v div 128 ^ j mod 128 + 128)) (rev [1..<Suc i]) @ [of_nat (unat v mod 128)]"
proof (induction i)
  case 0
  then show ?case using b128_digit(1) [of 0 v] by simp
next
  case (Suc i)
  have "b128_digits v (Suc (Suc i)) = of_nat (unat v div 128 ^ Suc i mod 128 + 128) # b128_digits v (Suc i)"
    using b128_digit(2) [of "Suc i" v] by (simp only: b128_digits.simps Let_def) simp
  then show ?case unfolding Suc.IH by simp
qed

lemma b128_digits_enc:
  "b128_digits v (let n = base128_len_len v in if n = 0 then 1 else n) = base128_enc (unat v)"
proof (cases "v = 0")
  case True
  then show ?thesis by (simp add: base128_len_len.simps base128_enc_def)
next
  case False
  let ?c = "drop_bit 7 v"
  have n: "base128_len_len v = Suc (base128_len_len ?c)"
    using False by (simp add: base128_len_len.simps [of v] word_neq_0_conv)
  have d: "unat ?c = unat v div 128" by (simp add: unat_shr)
  have "[1..<Suc (base128_len_len ?c)] = map Suc [0..<base128_len_len ?c]" by (simp add: map_Suc_upt del: upt_Suc)
  then have "map (\<lambda>j. of_nat (unat v div 128 ^ j mod 128 + 128)) (rev [1..<Suc (base128_len_len ?c)]) = b128_hi (unat v div 128)"
    unfolding d [symmetric] b128_hi_digits by (simp add: d div_mult2_eq rev_map [symmetric])
  then show ?thesis using n by (simp add: b128_digits_eq base128_enc_def del: b128_digits.simps)
qed

lemma add_u8_last:
  "sview s (up @ [(h, p, x)]) \<Longrightarrow> yields sview sroom s (CBB_add_u8 h v s) True 1 (up @ [(h, p, x @ [v])])"
  using CBB_add_u8_yields [of s up h p x "[]" v] by simp

lemma add_base128_loop_yields:
  "sview s (up @ [(h, p, x)]) \<Longrightarrow>
   yields sview sroom s (add_base128_loop h v n s) True n (up @ [(h, p, x @ b128_digits v n)])"
proof (induction n arbitrary: s x)
  case (Suc n)
  let ?byte = "hd (b128_digits v (Suc n))"
  have "yields sview sroom s (and_then (CBB_add_u8 h ?byte s) (\<lambda>_. add_base128_loop h v n)) (True \<and> True) (1 + n)
    (up @ [(h, p, (x @ [?byte]) @ b128_digits v n)])"
    by (rule sw.bind [OF add_u8_last [OF Suc.prems]], rule Suc.IH)
  then show ?case by (simp add: Let_def)
qed simp

lemma add_base128_integer_yields:
  assumes "sview s (up @ [(h, p, x)])"
  shows "yields sview sroom s (add_base128_integer h v s) True (length (base128_enc (unat v)))
    (up @ [(h, p, x @ base128_enc (unat v))])"
proof -
  have "length (b128_digits v n) = n" for n by (induction n) (auto simp: Let_def)
  then show ?thesis
    using add_base128_loop_yields [OF assms, of v "let n = base128_len_len v in if n = 0 then 1 else n"]
    unfolding b128_digits_enc by (metis add_base128_integer_def b128_digits_enc)
qed

lemma tag_byte:
  assumes "unat y < 32"
  shows "ucast (drop_bit 24 (tag :: u32)) AND 0xe0 OR (y :: u8) = of_nat (unat tag div 2 ^ 29 * 32 + unat y)"
proof -
  define w where "w = (ucast (drop_bit 24 tag) :: u8)"
  have e: "(0xe0 :: u8) = NOT (mask 5)" by code_simp
  have "unat tag < 2 ^ 32" by simp
  then have w: "unat w = unat tag div 2 ^ 24" by (simp add: w_def unat_ucast_mod unat_shr div_less_iff_less_mult)
  then have w5: "unat w div 32 = unat tag div 2 ^ 29" by (simp flip: div_mult2_eq)
  have "w AND 0xe0 OR y = (w AND 0xe0) + y"
    unfolding e and_not_mask using assms by (intro shl_or_eq_add) simp
  moreover have "w AND 0xe0 = of_nat (unat tag div 2 ^ 29 * 32)"
  proof -
    have "of_nat (unat (w AND 0xe0)) = (of_nat (unat tag div 2 ^ 29 * 32) :: u8)"
      unfolding u8_and_e0 w5 ..
    then show ?thesis by (simp only: of_nat_unat ucast_id)
  qed
  ultimately show ?thesis
    unfolding w_def [symmetric] by (simp add: ucast_id)
qed

lemma tag_bytes_yields:
  assumes "sview s (up @ [(h, p, x)])"
  shows "yields sview sroom s
    (let tag_bits = ucast (drop_bit 24 tag) AND 0xe0; tag_number = tag AND CBS_ASN1_TAG_NUMBER_MASK
     in if tag_number \<ge> 0x1f
        then and_then (CBB_add_u8 h (tag_bits OR 0x1f) s) (\<lambda>_. add_base128_integer h (ucast tag_number))
        else CBB_add_u8 h (tag_bits OR ucast tag_number) s)
    True (length (tag_enc (unat tag))) (up @ [(h, p, x @ tag_enc (unat tag))])"
proof -
  define num where "num = tag AND CBS_ASN1_TAG_NUMBER_MASK"
  have n: "unat num = unat tag mod 2 ^ 29"
    using unat_and_mask [of tag 29] by (simp add: num_def CBS_ASN1_TAG_NUMBER_MASK_def mask_eq_exp_minus_1)
  let ?b = "ucast (drop_bit 24 tag) AND 0xe0 OR 0x1f :: u8"
  show ?thesis
  proof (cases "num \<ge> 0x1f")
    case True
    then have ge: "31 \<le> unat tag mod 2 ^ 29" using n by (simp add: word_le_nat_alt)
    have "yields sview sroom s (and_then (CBB_add_u8 h ?b s) (\<lambda>_. add_base128_integer h (ucast num)))
        (True \<and> True) (1 + length (base128_enc (unat (ucast num :: u64))))
        (up @ [(h, p, (x @ [?b]) @ base128_enc (unat (ucast num :: u64)))])"
      by (rule sw.bind [OF add_u8_last [OF assms]], rule add_base128_integer_yields)
    then show ?thesis
      using True ge tag_byte [of "0x1f" tag] by (simp add: num_def [symmetric] n tag_enc_def Let_def)
  next
    case False
    then have lt: "unat tag mod 2 ^ 29 < 31" using n by (simp add: word_le_nat_alt)
    have "unat (ucast num :: u8) = unat tag mod 2 ^ 29" using lt by (simp add: unat_ucast_mod n)
    then show ?thesis
      using False lt add_u8_last [OF assms] tag_byte [of "ucast num" tag]
      by (simp add: num_def [symmetric] tag_enc_def Let_def)
  qed
qed

lemma CBB_add_asn1_yields:
  assumes "sview s (up @ (h, p, x) # below)" and "out \<notin> fst ` set up" "out \<noteq> h"
  shows "yields sview sroom s (CBB_add_asn1 h out tag s) (closable below)
    (length (close below) - length (layout below) + (length (tag_enc (unat tag)) + 1))
    (up @ [(h, p, x @ close below @ tag_enc (unat tag)), (out, Asn1_len, [])])"
proof -
  let ?t = "tag_enc (unat tag)"
  have "yields sview sroom s (CBB_add_asn1 h out tag s) (closable below \<and> True \<and> True)
    (length (close below) - length (layout below) + (length ?t + 1))
    (up @ [(h, p, (x @ close below) @ ?t), (out, Asn1_len, [])])"
    unfolding CBB_add_asn1_def
  proof (rule sw.bind [OF CBB_flush_yields [OF assms(1)]], goal_cases)
    case (1 r s1)
    show ?case
      unfolding Let_def
    proof (rule sw.bind [OF tag_bytes_yields [OF 1(2), unfolded Let_def]], goal_cases)
      case (1 r s2)
      have "sview s3 (up @ [(h, p, ((x @ close below) @ ?t) @ [0])]) \<Longrightarrow>
        sview (push_child h out (blen (base s2)) 1 True s3) (up @ [(h, p, (x @ close below) @ ?t), (out, Asn1_len, [])])" for s3
        using sview_push_child [of s3 up h p "(x @ close below) @ ?t" Asn1_len out "blen (base s2)" 1 True]
          assms(2,3) blen_layout [OF 1(2)] by simp
      with add_u8_last [OF 1(2), of 0] show ?case
        by (auto simp: yields_def and_then_def split: prod.splits option.splits)
    qed
  qed
  then show ?thesis by simp
qed

subsection \<open>ASN.1 values are DER\<close>

lemma local_addr_fresh: "c \<in> set (chain s) \<Longrightarrow> addr c < local_addr s"
proof -
  have "a \<in> set xs \<Longrightarrow> a \<le> foldr max xs (0::nat)" for a xs by (induction xs) auto
  then show "c \<in> set (chain s) \<Longrightarrow> addr c < local_addr s" by (auto simp: local_addr_def less_Suc_eq_le)
qed

lemma sview_local:
  assumes "sview s (up @ (h, p, x) # below)"
  shows "local_addr s \<notin> fst ` set up" "local_addr s \<noteq> h"
proof -
  have m: "map addr (chain s) = map fst (up @ (h, p, x) # below)"
    using assms unfolding sview_def by (blast dest: frames_at_addr)
  have "a < local_addr s" if "a \<in> set (map fst (up @ (h, p, x) # below))" for a
    using that local_addr_fresh unfolding m [symmetric] by auto
  then have "local_addr s \<notin> set (map fst (up @ (h, p, x) # below))" using less_irrefl by blast
  then show "local_addr s \<notin> fst ` set up" "local_addr s \<noteq> h" by auto
qed

lemma asn1_value_yields:
  assumes "sview s (up @ (h, p, x) # below)" and "child = local_addr s"
    and "\<And>s1 x'. sview s1 (up @ [(h, p, x'), (child, Asn1_len, [])]) \<Longrightarrow>
      yields sview sroom s1 (fill s1) True (length c) (up @ [(h, p, x'), (child, Asn1_len, c)])"
  shows "yields sview sroom s (and_then (CBB_add_asn1 h child tag s) (\<lambda>_ s. and_then (fill s) (\<lambda>_. CBB_flush h)))
    (closable below \<and> length c \<le> 0xfffffffe)
    (length (close below) - length (layout below) + length (der_enc (unat tag) c))
    (up @ [(h, p, x @ close below @ der_enc (unat tag) c)])"
proof -
  let ?t = "tag_enc (unat tag)"
  have k: "length (close below) - length (layout below) + length (der_enc (unat tag) c) =
    (length (close below) - length (layout below) + (length ?t + 1)) + (length c + (length (len_enc (length c)) - 1))"
    by (simp add: der_enc_def len_enc_def)
  have "yields sview sroom s (and_then (CBB_add_asn1 h child tag s) (\<lambda>_ s. and_then (fill s) (\<lambda>_. CBB_flush h)))
    (closable below \<and> True \<and> length c \<le> 0xfffffffe)
    ((length (close below) - length (layout below) + (length ?t + 1)) + (length c + (length (len_enc (length c)) - 1)))
    (up @ [(h, p, x @ close below @ der_enc (unat tag) c)])"
  proof (rule sw.bind [OF CBB_add_asn1_yields [OF assms(1)]], goal_cases)
    case (3 r s1)
    show ?case
    proof (rule sw.bind [OF assms(3) [OF 3(2)]], goal_cases)
      case (1 r s2)
      with CBB_flush_yields [of s2 up h p "x @ close below @ ?t" "[(child, Asn1_len, c)]"]
      show ?case by (simp add: der_enc_def)
    qed
  qed (use assms(2) sview_local [OF assms(1)] in simp_all)
  then show ?thesis unfolding k by simp
qed

lemma CBB_add_asn1_bool_yields:
  assumes "sview s (up @ (h, p, x) # below)"
  shows "yields sview sroom s (CBB_add_asn1_bool h v s) (closable below)
    (length (close below) - length (layout below) + length (der_enc 1 (bool_contents v)))
    (up @ [(h, p, x @ close below @ der_enc 1 (bool_contents v))])"
proof -
  let ?c = "bool_contents v"
  have "yields sview sroom s1 (CBB_add_u8 (local_addr s) (if v then 0xff else 0) s1) True (length ?c)
      (up @ [(h, p, x'), (local_addr s, Asn1_len, ?c)])"
    if "sview s1 (up @ [(h, p, x'), (local_addr s, Asn1_len, [])])" for s1 x'
    using add_u8_last [of s1 "up @ [(h, p, x')]" "local_addr s" Asn1_len "[]"] that by (simp add: bool_contents_def)
  from asn1_value_yields [OF assms refl this, of CBS_ASN1_BOOLEAN] show ?thesis
    by (cases v) (simp_all add: CBB_add_asn1_bool_def Let_def bool_contents_def)
qed

lemma CBB_add_asn1_octet_string_yields:
  assumes "sview s (up @ (h, p, x) # below)" and "unat n \<le> length data"
  shows "yields sview sroom s (CBB_add_asn1_octet_string h data n s) (closable below \<and> unat n \<le> 0xfffffffe)
    (length (close below) - length (layout below) + length (der_enc 4 (take (unat n) data)))
    (up @ [(h, p, x @ close below @ der_enc 4 (take (unat n) data))])"
proof -
  let ?c = "take (unat n) data"
  have "yields sview sroom s1 (CBB_add_bytes (local_addr s) data n s1) True (length ?c)
      (up @ [(h, p, x'), (local_addr s, Asn1_len, ?c)])"
    if "sview s1 (up @ [(h, p, x'), (local_addr s, Asn1_len, [])])" for s1 x'
    using CBB_add_bytes_yields [of s1 "up @ [(h, p, x')]" "local_addr s" Asn1_len "[]" "[]" n data] that assms(2)
    by simp
  from asn1_value_yields [OF assms(1) refl this, of CBS_ASN1_OCTETSTRING] show ?thesis
    using assms(2) by (simp add: CBB_add_asn1_octet_string_def Let_def)
qed

text \<open>The bytes the loop of \<open>CBB_add_asn1_uint64\<close> adds, with the byte for zero.\<close>

fun uint64_contents :: "nat \<Rightarrow> nat \<Rightarrow> bool \<Rightarrow> bytes" where
  "uint64_contents v 0 started = (if started then [] else [0])"
| "uint64_contents v (Suc k) started =
     (let byte = of_nat (v div 256 ^ k mod 256) :: u8
      in if \<not> started \<and> byte = 0 then uint64_contents v k False
         else (if \<not> started \<and> byte AND 0x80 \<noteq> 0 then [0] else []) @ byte # uint64_contents v k True)"

lemma uint64_contents_started: "uint64_contents v k True = be_bytes k v"
proof (induction k)
  case (Suc k)
  have "be_bytes (Suc k) v = of_nat (v div 256 ^ k mod 256) # be_bytes k v" for v
  proof (induction k arbitrary: v)
    case (Suc k)
    then show ?case by (simp add: div_mult2_eq) 
  qed simp
  with Suc show ?case by (simp add: Let_def del: be_bytes.simps)
qed simp

lemma uint64_contents_eq: "v < 256 ^ k \<Longrightarrow> uint64_contents v k False = int_contents (int v)"
proof (induction k)
  case 0
  then show ?case by (simp add: int_contents_def int_len.simps)
next
  case (Suc k)
  define b where "b = (of_nat (v div 256 ^ k mod 256) :: u8)"
  have d: "v div 256 ^ k < 256" using Suc.prems by (simp add: div_less_iff_less_mult mult.commute)
  then have ub: "unat b = v div 256 ^ k" by (simp add: b_def unat_of_nat)
  have "be_val (be_bytes (Suc k) v) = v" using Suc.prems by (intro be_val_be_bytes_id)
  then have val: "be_val (b # be_bytes k v) = v"
    using uint64_contents_started [of v "Suc k"] uint64_contents_started [of v k] by (simp add: Let_def b_def [symmetric])
  show ?case
  proof (cases "b = 0")
    case True
    then have "v < 256 ^ k" using ub by (simp add: div_eq_0_iff)
    with Suc.IH True show ?thesis by (simp add: Let_def b_def [symmetric])
  next
    case False
    let ?x = "(if unat b < 128 then [] else [0]) @ b # be_bytes k v"
    have "int_ok ?x" using False by (cases "be_bytes k v"; auto simp: word_unat_eq_iff)
    moreover have "tc_val ?x = int v" using val by (auto simp: tc_val_def be_val_Cons)
    ultimately have "?x = int_contents (int v)" by (simp flip: int_ok_iff)
    then show ?thesis using False by (simp add: Let_def b_def [symmetric] uint64_contents_started split: if_splits)
  qed
qed

lemma uint64_byte: "(ucast (drop_bit (8 * k) (v :: u64) AND 0xff) :: u8) = of_nat (unat v div 256 ^ k mod 256)"
proof -
  have "unat (drop_bit (8 * k) v AND 0xff) = unat v div 256 ^ k mod 256"
    using unat_and_mask [of "drop_bit (8 * k) v" 8] by (simp add: mask_eq_exp_minus_1 unat_shr power_mult)
  then show ?thesis by (simp add: word_unat_eq_iff unat_ucast_mod)
qed

lemma and_then_if_zero:
  "and_then (if b then f s else (Some (), s)) g = (if b then and_then (f s) g else g () s)"
  by simp

lemma uint64_loop_yields:
  "sview s (up @ [(h, p, x)]) \<Longrightarrow>
   yields sview sroom s
     (and_then (add_asn1_uint64_loop h v k started s)
        (\<lambda>started s. if \<not> started then CBB_add_u8 h 0 s else (Some (), s)))
     True (length (uint64_contents (unat v) k started)) (up @ [(h, p, x @ uint64_contents (unat v) k started)])"
proof (induction k arbitrary: s x started)
  case 0
  then show ?case using add_u8_last [OF 0, of 0] by simp
next
  case (Suc k)
  let ?fin = "\<lambda>started s. if \<not> started then CBB_add_u8 h 0 s else (Some (), s)"
  let ?b = "of_nat (unat v div 256 ^ k mod 256) :: u8"
  have go: "yields sview sroom s (and_then (CBB_add_u8 h ?b s) (\<lambda>_ s. and_then (add_asn1_uint64_loop h v k True s) ?fin))
      True (1 + length (uint64_contents (unat v) k True)) (up @ [(h, p, x @ ?b # uint64_contents (unat v) k True)])"
    if "sview s (up @ [(h, p, x)])" for s x
  proof -
    have "yields sview sroom s (and_then (CBB_add_u8 h ?b s) (\<lambda>_ s. and_then (add_asn1_uint64_loop h v k True s) ?fin))
      (True \<and> True) (1 + length (uint64_contents (unat v) k True)) (up @ [(h, p, (x @ [?b]) @ uint64_contents (unat v) k True)])"
      by (rule sw.bind [OF add_u8_last [OF that]]) (rule Suc.IH)
    then show ?thesis by simp
  qed
  have pad: "yields sview sroom s (and_then (CBB_add_u8 h 0 s) (\<lambda>_ s. and_then (CBB_add_u8 h ?b s)
      (\<lambda>_ s. and_then (add_asn1_uint64_loop h v k True s) ?fin))) (True \<and> True)
      (1 + (1 + length (uint64_contents (unat v) k True))) (up @ [(h, p, (x @ [0]) @ ?b # uint64_contents (unat v) k True)])"
    by (rule sw.bind [OF add_u8_last [OF Suc.prems]]) (rule go)
  show ?case
    using go [OF Suc.prems] pad Suc.IH [OF Suc.prems, of False]
    unfolding add_asn1_uint64_loop.simps uint64_contents.simps uint64_byte Let_def
    by (simp add: and_then_assoc and_then_if_zero)
qed

lemma int_unat_u64: "0 \<le> int (unat (v :: u64)) \<and> int (unat v) < 2 ^ 64 \<and> - (2 ^ 63) \<le> int (unat v)"
proof -
  have "unat v < 2 ^ 64" by simp
  then have "int (unat v) < int (2 ^ 64)" by (simp only: of_nat_less_iff)
  then have "int (unat v) < 2 ^ 64" by simp
  moreover have "0 \<le> int (unat v)" by simp
  moreover have "- (2 ^ 63) \<le> (0 :: int)" by simp
  ultimately show ?thesis by linarith
qed

lemma CBB_add_asn1_uint64_yields:
  assumes "sview s (up @ (h, p, x) # below)"
  shows "yields sview sroom s (CBB_add_asn1_uint64 h v s) (closable below)
    (length (close below) - length (layout below) + length (der_enc 2 (int_contents (int (unat v)))))
    (up @ [(h, p, x @ close below @ der_enc 2 (int_contents (int (unat v))))])"
proof -
  let ?c = "int_contents (int (unat v))"
  have c: "uint64_contents (unat v) 8 False = ?c" by (rule uint64_contents_eq) simp
  have f: "yields sview sroom s1 (and_then (add_asn1_uint64_loop (local_addr s) v 8 False s1)
        (\<lambda>started s'. if \<not> started then CBB_add_u8 (local_addr s) 0 s' else (Some (), s'))) True (length ?c)
      (up @ [(h, p, x'), (local_addr s, Asn1_len, ?c)])"
    if "sview s1 (up @ [(h, p, x'), (local_addr s, Asn1_len, [])])" for s1 x'
    using uint64_loop_yields [of s1 "up @ [(h, p, x')]" "local_addr s" Asn1_len "[]" v 8 False] that c by simp
  have "length ?c \<le> 9"
    using int_ok_uint64_length [of ?c] int_contents_ok [of "int (unat v)"] int_unat_u64 [of v] by simp
  then show ?thesis
    using asn1_value_yields [OF assms refl f, of CBS_ASN1_INTEGER]
    by (simp add: CBB_add_asn1_uint64_def Let_def and_then_assoc)
qed

lemma length_int64_bytes [simp]: "length (int64_bytes v) = 8"
  by (simp add: int64_bytes_def)

lemma be_val_int64_bytes: "be_val (rev (int64_bytes v)) = unat v"
proof -
  have b: "(ucast (drop_bit (8 * i) v) :: u8) = of_nat (unat v div 256 ^ i mod 256)" for i
    by (simp add: word_unat_eq_iff unat_ucast_mod unat_shr power_mult)
  have "rev (map (\<lambda>i. of_nat (w div 256 ^ i mod 256)) [0..<n]) = be_bytes n w" for n w
    by (induction n) (simp_all add: uint64_contents_started [symmetric] Let_def)
  then have "rev (int64_bytes v) = be_bytes 8 (unat v)" by (simp only: int64_bytes_def b)
  then show ?thesis by (simp only: be_val_be_bytes) simp
qed

lemma tc_val_strip:
  assumes "128 \<le> unat b"
  shows "tc_val (0xff # b # xs) = tc_val (b # xs)"
proof -
  have f: "unat (0xff :: u8) = 255" by simp
  show ?thesis
    unfolding tc_val_def list.sel be_val_Cons f length_Cons using assms by (simp add: algebra_simps)
qed

lemma rev_take_Suc: "n < length u \<Longrightarrow> rev (take (Suc n) u) = u ! n # rev (take n u)"
  by (simp add: take_Suc_conv_app_nth)

lemma int64_start_le: "int64_start u n \<le> n"
  by (induction n) auto

lemma int64_start_ok:
  assumes "n < length u" and "128 \<le> unat (u ! n)"
  shows "int_ok (rev (take (Suc (int64_start u n)) u)) \<and>
    tc_val (rev (take (Suc (int64_start u n)) u)) = tc_val (rev (take (Suc n) u))"
  using assms
proof (induction n)
  case 0
  then show ?case by (simp add: rev_take_Suc)
next
  case (Suc n)
  show ?case
  proof (cases "u ! Suc n = 0xff \<and> 128 \<le> unat (u ! n)")
    case True
    with Suc show ?thesis by (simp add: rev_take_Suc tc_val_strip not_less)
  next
    case False
    with Suc.prems show ?thesis by (auto simp: rev_take_Suc not_less)
  qed
qed

lemma int64_negative:
  assumes "sint v < 0"
  shows "rev (take (Suc (int64_start (int64_bytes v) 7)) (int64_bytes v)) = int_contents (sint v)"
proof -
  let ?u = "int64_bytes v"
  have "sint v = int (unat v) - 2 ^ 64" "2 ^ 63 \<le> unat v"
    using sint_of_nat_u64 [of "unat v"] assms by (auto simp: ucast_id split: if_splits)
  moreover have "unat (?u ! 7) = unat v div 2 ^ 56"
    by (simp add: int64_bytes_def unat_ucast_mod unat_shr div_less_iff_less_mult)
  ultimately have h: "128 \<le> unat (?u ! 7)" by (simp add: less_eq_div_iff_mult_less_eq)
  have "last ?u = ?u ! 7" using last_conv_nth [of ?u] by (simp flip: length_0_conv)
  then have "tc_val (rev (take (Suc 7) ?u)) = sint v"
    using h be_val_int64_bytes [of v] \<open>sint v = int (unat v) - 2 ^ 64\<close>
    by (simp add: tc_val_def hd_rev)
  with int64_start_ok [of 7 ?u] h show ?thesis by (simp flip: int_ok_iff)
qed

lemma add_bytes_down_yields:
  "n \<le> length u \<Longrightarrow> sview s (up @ [(h, p, x)]) \<Longrightarrow>
   yields sview sroom s (add_bytes_down h u n s) True n (up @ [(h, p, x @ rev (take n u))])"
proof (induction n arbitrary: s x)
  case (Suc n)
  have "yields sview sroom s (and_then (CBB_add_u8 h (u ! n) s) (\<lambda>_. add_bytes_down h u n)) (True \<and> True) (1 + n)
    (up @ [(h, p, (x @ [u ! n]) @ rev (take n u))])"
    using Suc.prems by (intro sw.bind [OF add_u8_last] Suc.IH) auto
  with Suc.prems show ?case by (simp add: rev_take_Suc)
qed simp

lemma CBB_add_asn1_int64_yields:
  assumes "sview s (up @ (h, p, x) # below)"
  shows "yields sview sroom s (CBB_add_asn1_int64 h v s) (closable below)
    (length (close below) - length (layout below) + length (der_enc 2 (int_contents (sint v))))
    (up @ [(h, p, x @ close below @ der_enc 2 (int_contents (sint v)))])"
proof (cases "sint v \<ge> 0")
  case True
  then have "sint v = int (unat v)"
    using sint_of_nat_u64 [of "unat v"] int_unat_u64 [of v] by (auto simp: ucast_id split: if_splits)
  with True CBB_add_asn1_uint64_yields [OF assms, of v] show ?thesis by (simp add: CBB_add_asn1_int64_def)
next
  case False
  let ?u = "int64_bytes v"
  define k where "k = Suc (int64_start ?u 7)"
  have c: "rev (take k ?u) = int_contents (sint v)" using False int64_negative by (simp add: k_def)
  have k: "k \<le> 8" using int64_start_le [of ?u 7] by (simp add: k_def)
  have f: "yields sview sroom s1 (add_bytes_down (local_addr s) ?u k s1) True (length (int_contents (sint v)))
      (up @ [(h, p, x'), (local_addr s, Asn1_len, int_contents (sint v))])"
    if "sview s1 (up @ [(h, p, x'), (local_addr s, Asn1_len, [])])" for s1 x'
    using add_bytes_down_yields [of k ?u s1 "up @ [(h, p, x')]" "local_addr s" Asn1_len "[]"] that k
    by (simp flip: c)
  have "length (int_contents (sint v)) \<le> 8" using k by (simp flip: c)
  then show ?thesis
    using asn1_value_yields [OF assms refl f, of CBS_ASN1_INTEGER] False
    by (simp add: CBB_add_asn1_int64_def Let_def k_def)
qed

subsection \<open>Fresh and finished builders\<close>

lemma cbb_init_view:
  assumes "cbb_init h m cap a = Some s" and "length (case m of None \<Rightarrow> [] | Some x \<Rightarrow> x) = unat cap"
  shows "sview s [(h, Top, [])]"
  using assms
  by (auto simp: cbb_init_def sview_def wf_frames_def pending_def bview_def buf_mem_def
      split: prod.splits option.splits)

lemma CBB_init_view:
  assumes "CBB_init h cap a = Some s"
  shows "sview s [(h, Top, [])]"
proof -
  obtain m a' where m: "OPENSSL_malloc cap a = (m, a')" by (metis surj_pair)
  with assms have i: "cbb_init h m cap a' = Some s" "cap = 0 \<or> m \<noteq> None"
    by (auto simp: CBB_init_def word_neq_0_conv split: if_splits)
  then have "length (case m of None \<Rightarrow> [] | Some x \<Rightarrow> x) = unat cap"
    using m OPENSSL_malloc_Some by (cases m) auto
  with i(1) show ?thesis by (rule cbb_init_view)
qed

lemma CBB_init_fixed_view:
  assumes "CBB_init_fixed h m len a = Some s" and "length m = unat len"
  shows "sview s [(h, Top, [])]"
proof -
  obtain t where "cbb_init h (Some m) len a = Some t" "s = t\<lparr>base := (base t)\<lparr>can_resize := False\<rparr>\<rparr>"
    using assms(1) by (auto simp: CBB_init_fixed_def)
  with cbb_init_view [of h "Some m" len a t] assms(2) show ?thesis
    by (auto simp: sview_def bview_def buf_mem_def)
qed

lemma CBB_init_room:
  assumes "CBB_init h cap a = Some s" and "\<forall>i. next_ok a i" and "k < 2 ^ 62"
  shows "sroom s k"
  using assms
  by (auto simp: CBB_init_def cbb_init_def sroom_def room_def OPENSSL_malloc_def malloc_turn_def
      split: prod.splits if_splits option.splits)

lemma finish_flush:
  assumes "sview s ((h, Top, x) # below)"
  shows "CBB_finish h True True s =
    and_then (CBB_flush h s) (\<lambda>_ s. (Some (buf (base s), blen (base s)), CBB_cleanup h (s\<lparr>base := (base s)\<lparr>buf := None\<rparr>\<rparr>)))"
proof -
  obtain c cs where "chain s = c # cs" "addr c = h" "\<not> is_child c"
    using assms by (cases "chain s") (auto simp: sview_def)
  then show ?thesis by (simp add: CBB_finish_def)
qed

subsection \<open>Properties\<close>

text \<open>
  C3. \<open>CBB_flush\<close> writes out every pending length prefix below the \<open>CBB\<close>, innermost first: if each
  contents fits its prefix and there is room for the bytes the long form of DER lengths needs, it
  succeeds, and the contents of the \<open>CBB\<close> are then the ones before followed by the closed children,
  each with its length in front (DER length form for ASN.1 children). It fails otherwise.
\<close>

theorem CBB_flush_closes_children:
  assumes "sview s (up @ (h, p, x) # below)"
  shows "case CBB_flush h s of
      (Some _, s') \<Rightarrow> closable below \<and> sview s' (up @ [(h, p, x @ close below)])
    | (None, _) \<Rightarrow> \<not> (closable below \<and> sroom s (length (close below) - length (layout below)))"
  using CBB_flush_yields [OF assms] by (auto simp: yields_def split: prod.splits option.splits)

definition ok_heap :: allocator where
  "ok_heap = \<lparr>next_ok = (\<lambda>_. True), junk = 0\<rparr>"

definition start_state :: cbb_st where
  "start_state = the (CBB_init 0 4 ok_heap)"

lemma start_state: "CBB_init 0 4 ok_heap = Some start_state" "sview start_state [(0, Top, [])]"
    "k < 2 ^ 62 \<Longrightarrow> sroom start_state k"
proof -
  show i: "CBB_init 0 4 ok_heap = Some start_state"
    by (simp add: start_state_def CBB_init_def cbb_init_def OPENSSL_malloc_def malloc_turn_def ok_heap_def
        sizeof_cbb_buffer_st_def)
  show "sview start_state [(0, Top, [])]" using CBB_init_view [OF i] .
  show "k < 2 ^ 62 \<Longrightarrow> sroom start_state k" using CBB_init_room [OF i] by (simp add: ok_heap_def)
qed

theorem CBB_flush_closes_children_witness:
  "\<exists>s s' u. cbb_add_length_prefixed 0 1 1 start_state = (Some (), s) \<and> CBB_flush 0 s = (Some u, s')
     \<and> sview s' [(0, Top, [0])]"
proof -
  have "yields sview sroom start_state (cbb_add_length_prefixed 0 1 1 start_state) True 1
      [(0, Top, []), (1, Fixed 1, [])]"
    using cbb_add_length_prefixed_yields [of start_state "[]" 0 Top "[]" "[]" 1 1] start_state(2) by simp
  then obtain s where s: "cbb_add_length_prefixed 0 1 1 start_state = (Some (), s)"
      "sview s [(0, Top, []), (1, Fixed 1, [])]"
    by (rule sw.success) (simp_all add: start_state(3))
  have "sroom s 0"
    using \<open>yields _ _ _ _ _ _ _\<close> start_state(3) [of 1] s(1) by simp
  with CBB_flush_closes_children [of s "[]" 0 Top "[]" "[(1, Fixed 1, [])]"] s(2)
  obtain s' where "CBB_flush 0 s = (Some (), s')" "sview s' [(0, Top, [0])]"
    by (auto simp: prefixed_enc_def split: prod.splits option.splits)
  with s(1) show ?thesis by blast
qed

lemma finish_contents:
  assumes "sview s ((h, Top, x) # below)"
  shows "case CBB_finish h True True s of
      (Some (m, n), s') \<Rightarrow> closable below \<and> take (unat n) (case m of None \<Rightarrow> [] | Some b \<Rightarrow> b) = x @ close below
        \<and> unat n = length (x @ close below) \<and> chain s' = []
    | (None, _) \<Rightarrow> \<not> (closable below \<and> sroom s (length (close below) - length (layout below)))"
proof -
  obtain r s' where f: "CBB_flush h s = (r, s')" by (metis surj_pair)
  note y = CBB_flush_yields [of s "[]" h Top x below, unfolded append_Nil, OF assms, unfolded f]
  show ?thesis
  proof (cases r)
    case None
    with y show ?thesis unfolding finish_flush [OF assms] f by simp
  next
    case (Some u)
    with y have v: "closable below" "sview s' [(h, Top, x @ close below)]" by auto
    then have fr: "frames_at 0 (chain s') [(h, Top, x @ close below)]" by (simp add: sview_def)
    then obtain c where c: "chain s' = [c]" using frames_at_addr [OF fr] by (auto simp: map_eq_Cons_conv)
    with fr have "addr c = h" "\<not> is_child c" by simp_all
    with c have "chain (CBB_cleanup h (s'\<lparr>base := b\<rparr>)) = []" for b by (simp add: CBB_cleanup_def)
    moreover have v': "bview (base s') (x @ close below)" using v(2) by (simp add: sview_def)
    then have "take (unat (blen (base s'))) (case buf (base s') of None \<Rightarrow> [] | Some b \<Rightarrow> b) = x @ close below"
      by (simp add: bview_def buf_mem_def)
    ultimately show ?thesis
      using v(1) bview_len [OF v'] unfolding finish_flush [OF assms] f Some and_then_simps by simp
  qed
qed

text \<open>
  \<open>CBB_finish\<close> on a resizable builder returns the contents of the top-level \<open>CBB\<close> with every pending
  child closed, and the number of bytes; it returns them whenever the lengths fit and the allocations
  that are still needed succeed.
\<close>

lemma CBB_finish_contents:
  assumes "sview s ((h, Top, x) # below)"
  shows "case CBB_finish h True True s of
      (Some (m, n), s') \<Rightarrow> closable below \<and> take (unat n) (case m of None \<Rightarrow> [] | Some b \<Rightarrow> b) = x @ close below
        \<and> unat n = length (x @ close below) \<and> chain s' = []
    | (None, _) \<Rightarrow> \<not> (closable below \<and> sroom s (length (close below) - length (layout below)))"
  by (rule finish_contents [OF assms])

text \<open>
  \<open>cbb_buffer_reserve\<close> is memory safe: on success the returned position is the end of the contents,
  \<open>len\<close> bytes from there on lie inside the allocated buffer and the contents are kept (also when the
  buffer was moved); on failure, which includes the case that \<open>base->len + len\<close> wraps around, the
  error flag is set. It fails only when there is no room.
\<close>

lemma cbb_buffer_reserve_safe:
  assumes "bview b d"
  shows "case cbb_buffer_reserve b n of
      (Some p, b') \<Rightarrow> p = length d \<and> bview b' d \<and> p + unat n \<le> length (buf_mem b')
    | (None, b') \<Rightarrow> berror b' \<and> \<not> room b (unat n)"
proof -
  have "berror b'" if "cbb_buffer_reserve b n = (None, b')" for b'
    using that by (auto simp: cbb_buffer_reserve_def Let_def split: if_splits prod.splits option.splits)
  moreover have "p = length d \<and> p + unat n \<le> length (buf_mem b')"
    if "cbb_buffer_reserve b n = (Some p, b')" "bview b' d" for p b'
    using reserve_yields(2) [OF assms that(1)] bview_len [OF assms] that(2) by (simp add: bview_def)
  ultimately show ?thesis
    using reserve_yields(1) [OF assms, of n] by (auto simp: yields_def split: prod.splits option.splits)
qed

lemma error_flush: "berror (base s) \<Longrightarrow> CBB_flush h s = (None, s)"
  by (auto simp: CBB_flush_def flush_chain.simps split: option.splits prod.splits)

text \<open>
  Errors are sticky: once the buffer of a builder has its error flag set, every operation that
  writes, opens a child, flushes or finishes fails and changes nothing, whichever \<open>CBB\<close> of the builder it is
  applied to.
\<close>

lemma error_is_sticky:
  assumes "berror (base s)"
  shows "CBB_flush h s = (None, s) \<and> CBB_add_bytes h data n s = (None, s) \<and> CBB_add_zeros h n s = (None, s)
    \<and> CBB_add_space h n s = (None, s) \<and> CBB_reserve h n s = (None, s) \<and> cbb_add_u h v n s = (None, s)
    \<and> cbb_add_length_prefixed h out k s = (None, s) \<and> CBB_add_asn1 h out tag s = (None, s)
    \<and> CBB_add_asn1_uint64 h v s = (None, s) \<and> CBB_add_asn1_int64 h v s = (None, s)
    \<and> CBB_add_asn1_octet_string h data n s = (None, s) \<and> CBB_add_asn1_bool h b s = (None, s)
    \<and> CBB_finish h wd wl s = (None, s)"
  by (auto simp: CBB_add_bytes_def CBB_add_zeros_def CBB_add_space_def CBB_reserve_def cbb_add_u_def
      cbb_add_length_prefixed_def CBB_add_asn1_def CBB_add_asn1_uint64_def CBB_add_asn1_int64_def
      CBB_add_asn1_octet_string_def CBB_add_asn1_bool_def CBB_finish_def error_flush [OF assms] Let_def
      split: option.splits)

lemma bview_truncate:
  assumes "bview b (d @ e)" and "unat n = length d"
  shows "bview (b\<lparr>blen := n\<rparr>) d"
proof -
  have l: "unat (blen b) = length d + length e" using bview_len [OF assms(1)] by simp
  then have "take (unat n) (buf_mem b) = take (unat n) (take (unat (blen b)) (buf_mem b))"
    using assms(2) by (simp add: min_def)
  with assms l show ?thesis by (simp add: bview_def) (simp add: buf_mem_def)
qed

text \<open>
  \<open>CBB_discard_child\<close> undoes the opening of a child: the \<open>CBB\<close> is back at the contents it had
  before, and everything written to the child and its own children is gone.
\<close>

lemma CBB_discard_child_undoes:
  assumes "sview s (up @ (h, p, x) # f # below)"
  shows "sview (CBB_discard_child h s) (up @ [(h, p, x)])"
  using assms
proof (rule sview_split, goal_cases)
  case (1 cs c ds)
  obtain a q y where f: "f = (a, q, y)" by (metis prod.collapse)
  from 1 f obtain c2 ds' where ds: "ds = c2 # ds'" "unat (offset c2) = length (layout (up @ [(h, p, x)]))"
    by (cases ds) auto
  have l: "length cs = length up" using frames_at_addr [OF 1(3)] map_eq_imp_length_eq by blast
  have v: "bview (base s) (layout (up @ [(h, p, x)]) @ layout (f # below))" using assms by (simp add: sview_def)
  then have "bview ((base s)\<lparr>blen := offset c2\<rparr>) (layout (up @ [(h, p, x)]))"
    using ds(2) by (rule bview_truncate)
  moreover have "frames_at 0 (cs @ [c]) (up @ [(h, p, x)])" using 1(3,4) l by (simp add: frames_at_append)
  ultimately show ?case using 1(1,7) ds by (simp add: CBB_discard_child_def sview_def)
qed

end
