(* ===== verification/Unicode.thy ===== *)
theory Unicode
  imports Cbb
begin

section \<open>Unicode code points (crypto/bytestring/unicode.c)\<close>

text \<open>
  The readers and writers of single code points in UTF-8, Latin-1, UCS-2 and UTF-32. After the
  definitions come the encodings as functions of the code point and the theorems that the readers
  accept exactly those of valid code points and the writers write them.
\<close>

definition is_valid_code_point :: "u32 \<Rightarrow> bool" where
  "is_valid_code_point v \<longleftrightarrow>
     \<not> (v > 0x10ffff \<or> v AND 0xfffe = 0xfffe \<or> (v \<ge> 0xfdd0 \<and> v \<le> 0xfdef) \<or> (v \<ge> 0xd800 \<and> v \<le> 0xdfff))"

definition BOTTOM_BITS :: "nat \<Rightarrow> u8" where
  "BOTTOM_BITS n = ucast (push_bit n 1 - 1 :: u32)"

definition TOP_BITS :: "nat \<Rightarrow> u8" where
  "TOP_BITS n = NOT (BOTTOM_BITS (8 - n))"

fun cbs_utf8_tail :: "nat \<Rightarrow> u32 \<Rightarrow> cbs \<Rightarrow> u32 option \<times> cbs" where
  "cbs_utf8_tail 0 v cbs = (Some v, cbs)"
| "cbs_utf8_tail (Suc n) v cbs =
     and_then (CBS_get_u8 cbs) (\<lambda>c cbs.
       if c AND TOP_BITS 2 \<noteq> TOP_BITS 1 then (None, cbs)
       else cbs_utf8_tail n (push_bit 6 v OR ucast (c AND BOTTOM_BITS 6)) cbs)"

definition cbs_get_utf8 :: "cbs \<Rightarrow> u32 option \<times> cbs" where
  "cbs_get_utf8 cbs =
     and_then (CBS_get_u8 cbs) (\<lambda>c cbs.
       if c \<le> 0x7f then (Some (ucast c), cbs)
       else
         let finish = (\<lambda>len v lower_bound.
               and_then (cbs_utf8_tail len v cbs) (\<lambda>v cbs.
                 if \<not> is_valid_code_point v \<or> v < lower_bound then (None, cbs) else (Some v, cbs)))
         in if c AND TOP_BITS 3 = TOP_BITS 2 then finish 1 (ucast (c AND BOTTOM_BITS 5)) 0x80
            else if c AND TOP_BITS 4 = TOP_BITS 3 then finish 2 (ucast (c AND BOTTOM_BITS 4)) 0x800
            else if c AND TOP_BITS 5 = TOP_BITS 4 then finish 3 (ucast (c AND BOTTOM_BITS 3)) 0x10000
            else (None, cbs))"

definition cbs_get_latin1 :: "cbs \<Rightarrow> u32 option \<times> cbs" where
  "cbs_get_latin1 cbs = and_then (CBS_get_u8 cbs) (\<lambda>c cbs. (Some (ucast c), cbs))"

definition cbs_get_ucs2_be :: "cbs \<Rightarrow> u32 option \<times> cbs" where
  "cbs_get_ucs2_be cbs =
     and_then (CBS_get_u16 cbs) (\<lambda>c cbs.
       if \<not> is_valid_code_point (ucast c) then (None, cbs) else (Some (ucast c), cbs))"

definition cbs_get_utf32_be :: "cbs \<Rightarrow> u32 option \<times> cbs" where
  "cbs_get_utf32_be cbs =
     and_then (CBS_get_u32 cbs) (\<lambda>out cbs.
       if is_valid_code_point out then (Some out, cbs) else (None, cbs))"

definition cbb_get_utf8_len :: "u32 \<Rightarrow> size_t" where
  "cbb_get_utf8_len u = (if u \<le> 0x7f then 1 else if u \<le> 0x7ff then 2 else if u \<le> 0xffff then 3 else 4)"

fun add_all :: "nat \<Rightarrow> bytes \<Rightarrow> cbb_st \<Rightarrow> unit option \<times> cbb_st" where
  "add_all h [] s = (Some (), s)"
| "add_all h (b # bs) s = and_then (CBB_add_u8 h b s) (\<lambda>_. add_all h bs)"

definition cbb_add_utf8 :: "nat \<Rightarrow> u32 \<Rightarrow> cbb_st \<Rightarrow> unit option \<times> cbb_st" where
  "cbb_add_utf8 h u s =
     (if \<not> is_valid_code_point u then (None, s)
      else if u \<le> 0x7f then CBB_add_u8 h (ucast u) s
      else if u \<le> 0x7ff
      then add_all h [TOP_BITS 2 OR ucast (drop_bit 6 u), TOP_BITS 1 OR ucast (u AND ucast (BOTTOM_BITS 6))] s
      else if u \<le> 0xffff
      then add_all h [TOP_BITS 3 OR ucast (drop_bit 12 u),
                      TOP_BITS 1 OR ucast (drop_bit 6 u AND ucast (BOTTOM_BITS 6)),
                      TOP_BITS 1 OR ucast (u AND ucast (BOTTOM_BITS 6))] s
      else if u \<le> 0x10ffff
      then add_all h [TOP_BITS 4 OR ucast (drop_bit 18 u),
                      TOP_BITS 1 OR ucast (drop_bit 12 u AND ucast (BOTTOM_BITS 6)),
                      TOP_BITS 1 OR ucast (drop_bit 6 u AND ucast (BOTTOM_BITS 6)),
                      TOP_BITS 1 OR ucast (u AND ucast (BOTTOM_BITS 6))] s
      else (None, s))"

definition cbb_add_latin1 :: "nat \<Rightarrow> u32 \<Rightarrow> cbb_st \<Rightarrow> unit option \<times> cbb_st" where
  "cbb_add_latin1 h u s = (if u \<le> 0xff then CBB_add_u8 h (ucast u) s else (None, s))"

definition cbb_add_ucs2_be :: "nat \<Rightarrow> u32 \<Rightarrow> cbb_st \<Rightarrow> unit option \<times> cbb_st" where
  "cbb_add_ucs2_be h u s =
     (if u \<le> 0xffff \<and> is_valid_code_point u then CBB_add_u16 h (ucast u) s else (None, s))"

definition cbb_add_utf32_be :: "nat \<Rightarrow> u32 \<Rightarrow> cbb_st \<Rightarrow> unit option \<times> cbb_st" where
  "cbb_add_utf32_be h u s = (if is_valid_code_point u then CBB_add_u32 h u s else (None, s))"

subsection \<open>Code points\<close>

definition valid_cp :: "nat \<Rightarrow> bool" where
  "valid_cp n \<longleftrightarrow> n \<le> 0x10ffff \<and> n mod 65536 < 65534 \<and> \<not> (0xfdd0 \<le> n \<and> n \<le> 0xfdef) \<and> \<not> (0xd800 \<le> n \<and> n \<le> 0xdfff)"

lemma and_shifted_mask: "w AND push_bit n (mask m) = push_bit n (drop_bit n (w :: 'a::len word) AND mask m)"
  by (rule bit_eqI) (auto simp: bit_and_iff bit_push_bit_iff bit_drop_bit_eq bit_mask_iff)

lemma is_valid_code_point_iff: "is_valid_code_point v \<longleftrightarrow> valid_cp (unat v)"
proof -
  have e: "(0xfffe :: u32) = push_bit 1 (mask 15)" by code_simp
  have "unat v div 2 mod 32768 < 32768" by simp
  then have "unat (v AND 0xfffe) = unat v div 2 mod 32768 * 2"
    by (simp only: e and_shifted_mask unat_shl unat_and_mask unat_shr) simp
  moreover have "unat v mod 65536 = 2 * (unat v div 2 mod 32768) + unat v mod 2"
    using mod_mult2_eq [of "unat v" 2 32768] by simp
  moreover have "q * 2 = 65534 \<longleftrightarrow> \<not> 2 * q + r < 65534" if "q < 32768" "r < 2" for q r :: nat
    using that by auto
  ultimately have "v AND 0xfffe = 0xfffe \<longleftrightarrow> \<not> unat v mod 65536 < 65534"
    by (simp add: word_unat_eq_iff)
  then show ?thesis
    by (auto simp: is_valid_code_point_def valid_cp_def word_less_nat_alt word_le_nat_alt)
qed

lemma BOTTOM_BITS_eq: "n \<le> 8 \<Longrightarrow> BOTTOM_BITS n = mask n"
proof -
  assume "n \<le> 8"
  then have "n \<in> set [0..<9]" by auto
  moreover have "\<forall>n \<in> set [0..<9]. BOTTOM_BITS n = mask n" by code_simp
  ultimately show ?thesis by blast
qed

lemma unat_and_BOTTOM: "n \<le> 8 \<Longrightarrow> unat (c AND BOTTOM_BITS n) = unat c mod 2 ^ n"
  by (simp add: BOTTOM_BITS_eq unat_and_mask)

lemma and_TOP_BITS: "n \<le> 8 \<Longrightarrow> unat (c AND TOP_BITS n) = unat c div 2 ^ (8 - n) * 2 ^ (8 - n)"
  by (simp add: TOP_BITS_def BOTTOM_BITS_eq unat_and_not_mask)

lemma unat_TOP_BITS: "unat (TOP_BITS 1) = 128" "unat (TOP_BITS 2) = 192" "unat (TOP_BITS 3) = 224" "unat (TOP_BITS 4) = 240"
  by (simp_all add: TOP_BITS_def BOTTOM_BITS_eq mask_eq_exp_minus_1)

lemma lead_byte:
  "c AND TOP_BITS 2 = TOP_BITS 1 \<longleftrightarrow> unat c div 64 = 2"
  "c AND TOP_BITS 3 = TOP_BITS 2 \<longleftrightarrow> unat c div 32 = 6"
  "c AND TOP_BITS 4 = TOP_BITS 3 \<longleftrightarrow> unat c div 16 = 14"
  "c AND TOP_BITS 5 = TOP_BITS 4 \<longleftrightarrow> unat c div 8 = 30"
  by (auto simp: word_unat_eq_iff and_TOP_BITS unat_TOP_BITS simp del: One_nat_def)

subsection \<open>UTF-8\<close>

fun cont_bytes :: "nat \<Rightarrow> nat \<Rightarrow> bytes" where
  "cont_bytes 0 w = []"
| "cont_bytes (Suc k) w = of_nat (128 + w div 64 ^ k mod 64) # cont_bytes k w"

definition utf8_enc :: "nat \<Rightarrow> bytes" where
  "utf8_enc n =
     (if n < 0x80 then [of_nat n]
      else if n < 0x800 then of_nat (192 + n div 64) # cont_bytes 1 n
      else if n < 0x10000 then of_nat (224 + n div 4096) # cont_bytes 2 n
      else of_nat (240 + n div 262144) # cont_bytes 3 n)"

fun p_cont :: "nat \<Rightarrow> nat \<Rightarrow> bytes \<Rightarrow> nat parse" where
  "p_cont 0 v bs = Some (v, bs)"
| "p_cont (Suc k) v bs =
     Option.bind (p_u8 bs) (\<lambda>(c, bs). if unat c div 64 \<noteq> 2 then None else p_cont k (v * 64 + unat c mod 64) bs)"

definition p_utf8 :: "bytes \<Rightarrow> nat parse" where
  "p_utf8 bs =
     Option.bind (p_u8 bs) (\<lambda>(c, bs).
       if unat c < 128 then Some (unat c, bs)
       else
         let finish = (\<lambda>k v lb. Option.bind (p_cont k v bs) (\<lambda>(w, bs).
               if valid_cp w \<and> lb \<le> w then Some (w, bs) else None))
         in if unat c div 32 = 6 then finish 1 (unat c mod 32) 0x80
            else if unat c div 16 = 14 then finish 2 (unat c mod 16) 0x800
            else if unat c div 8 = 30 then finish 3 (unat c mod 8) 0x10000
            else None)"

lemma cont_byte: "unat (of_nat (128 + r mod 64) :: u8) = 128 + r mod 64"
proof -
  have "128 + r mod 64 < 256" by (rule less_trans [of _ "128 + 64"]) simp_all
  then show ?thesis by (simp only: unat_of_nat) simp
qed

lemma u8_eq_of_nat: "n < 256 \<Longrightarrow> (c :: u8) = of_nat n \<longleftrightarrow> unat c = n"
  by (auto simp: word_unat_eq_iff unat_of_nat)

lemma cont_digit:
  fixes m q v :: nat
  shows "m div 64 = 2 \<and> q = v * 64 + m mod 64 \<longleftrightarrow> q div 64 = v \<and> m = 128 + q mod 64"
proof
  assume "m div 64 = 2 \<and> q = v * 64 + m mod 64"
  then show "q div 64 = v \<and> m = 128 + q mod 64" using div_mult_mod_eq [of m 64] by simp
next
  assume a: "q div 64 = v \<and> m = 128 + q mod 64"
  define r where "r = q mod 64"
  have "r < 64" by (simp add: r_def)
  then have d: "(128 + r) div 64 = 2" by (intro div_nat_eqI) auto
  then have "(128 + r) mod 64 = r" using minus_div_mult_eq_mod [of "128 + r" 64] by simp
  with a d show "m div 64 = 2 \<and> q = v * 64 + m mod 64"
    using div_mult_mod_eq [of q 64] by (simp add: r_def)
qed

lemma p_cont_iff: "p_cont k v bs = Some (w, rest) \<longleftrightarrow> w div 64 ^ k = v \<and> bs = cont_bytes k w @ rest"
proof (induction k arbitrary: v bs)
  case (Suc k)
  show ?case
  proof (cases bs)
    case (Cons c bs')
    let ?q = "w div 64 ^ k"
    have "p_cont (Suc k) v bs = Some (w, rest) \<longleftrightarrow>
        unat c div 64 = 2 \<and> ?q = v * 64 + unat c mod 64 \<and> bs' = cont_bytes k w @ rest"
      by (simp add: Cons Suc.IH)
    also have "\<dots> \<longleftrightarrow> ?q div 64 = v \<and> unat c = 128 + ?q mod 64 \<and> bs' = cont_bytes k w @ rest"
    proof -
      from cont_digit [of "unat c" ?q v] show ?thesis by blast
    qed
    also have "\<dots> \<longleftrightarrow> w div 64 ^ Suc k = v \<and> bs = cont_bytes (Suc k) w @ rest"
    proof -
      have "128 + ?q mod 64 < 256" by (rule less_trans [of _ "128 + 64"]) simp_all
      moreover have "w div 64 ^ Suc k = ?q div 64" by (simp only: power_Suc2 div_mult2_eq)
      ultimately show ?thesis using u8_eq_of_nat [of "128 + ?q mod 64" c] by (auto simp: Cons)
    qed
    finally show ?thesis .
  qed simp
qed auto

lemma div_mod_split: "0 < b \<Longrightarrow> m div b = a \<and> m mod b = q \<longleftrightarrow> m = a * b + q \<and> q < (b :: nat)"
  by (metis div_mult_mod_eq div_mult_self3 div_less add.right_neutral mod_mult_self3 mod_less mod_less_divisor
      less_numeral_extra(3) add.commute)

lemma utf8_lead:
  fixes m :: nat
  assumes "m = a * b + q" "q < b" "0 < b"
  shows "m div b = a" "m mod b = q"
  using div_mod_split [of b m a q] assms by auto

declare p_cont.simps [simp del] cont_bytes.simps [simp del]

lemma p_utf8_sound:
  assumes "p_utf8 bs = Some (n, rest)"
  shows "valid_cp n \<and> bs = utf8_enc n @ rest"
proof -
  obtain c bs' where bs: "bs = c # bs'" using assms by (cases bs) (auto simp: p_utf8_def)
  define m where "m = unat c"
  have c: "c = of_nat m" by (simp add: m_def ucast_id)
  consider (1) "m < 128" | (2) "\<not> m < 128" "m div 32 = 6" | (3) "\<not> m < 128" "m div 32 \<noteq> 6" "m div 16 = 14"
    | (4) "\<not> m < 128" "m div 32 \<noteq> 6" "m div 16 \<noteq> 14" "m div 8 = 30"
    using assms by (auto simp: p_utf8_def bs Let_def m_def [symmetric] split: if_splits)
  moreover note e = assms [unfolded bs p_utf8_def p_u8.simps bind.simps prod.case, folded m_def]
  ultimately show ?thesis
  proof cases
    case 1
    with e have "n = m" "rest = bs'" by simp_all
    with 1 show ?thesis by (simp add: bs c utf8_enc_def valid_cp_def)
  next
    case 2
    then have p: "n div 64 = m mod 32" "bs' = cont_bytes 1 n @ rest" "valid_cp n" "0x80 \<le> n"
      using e by (auto simp: bind_eq_Some_conv p_cont_iff split: if_splits)
    then have "m = 192 + n div 64" "n div 64 < 32" using div_mult_mod_eq [of m 32] 2 by auto
    with p show ?thesis by (simp add: bs c utf8_enc_def div_less_iff_less_mult)
  next
    case 3
    then have p: "n div 4096 = m mod 16" "bs' = cont_bytes 2 n @ rest" "valid_cp n" "0x800 \<le> n"
      using e by (auto simp: bind_eq_Some_conv p_cont_iff split: if_splits)
    then have "m = 224 + n div 4096" "n div 4096 < 16" using div_mult_mod_eq [of m 16] 3 by auto
    with p show ?thesis by (simp add: bs c utf8_enc_def div_less_iff_less_mult)
  next
    case 4
    then have p: "n div 262144 = m mod 8" "bs' = cont_bytes 3 n @ rest" "valid_cp n" "0x10000 \<le> n"
      using e by (auto simp: bind_eq_Some_conv p_cont_iff split: if_splits)
    then have "m = 240 + n div 262144" using div_mult_mod_eq [of m 8] 4 by auto
    with p show ?thesis by (simp add: bs c utf8_enc_def)
  qed
qed

lemma p_utf8_complete:
  assumes "valid_cp n"
  shows "p_utf8 (utf8_enc n @ rest) = Some (n, rest)"
proof -
  have cont: "p_cont k (n div 64 ^ k) (cont_bytes k n @ rest) = Some (n, rest)" for k
    by (simp add: p_cont_iff)
  consider (1) "n < 0x80" | (2) "0x80 \<le> n" "n < 0x800" | (3) "0x800 \<le> n" "n < 0x10000" | (4) "0x10000 \<le> n" by linarith
  then show ?thesis
  proof cases
    case 1
    then show ?thesis by (simp add: utf8_enc_def p_utf8_def unat_of_nat)
  next
    case 2
    then have q: "n div 64 < 32" by (simp add: div_less_iff_less_mult)
    define m where "m = 192 + n div 64"
    have m: "m div 32 = 6" "m mod 32 = n div 64" "\<not> m < 128" "m < 256"
      using q utf8_lead [of m 6 32 "n div 64"] by (simp_all add: m_def)
    moreover from this have "unat (of_nat m :: u8) = m" by (intro unat_of_nat_small) simp
    ultimately show ?thesis using 2 cont [of 1] assms by (simp add: utf8_enc_def p_utf8_def m_def [symmetric] del: of_nat_add)
  next
    case 3
    then have q: "n div 4096 < 16" by (simp add: div_less_iff_less_mult)
    define m where "m = 224 + n div 4096"
    have m: "m div 16 = 14" "m mod 16 = n div 4096" "\<not> m < 128" "m div 32 \<noteq> 6" "m < 256"
      using q utf8_lead [of m 14 16 "n div 4096"] by (simp_all add: m_def)
    moreover from this have "unat (of_nat m :: u8) = m" by (intro unat_of_nat_small) simp
    ultimately show ?thesis using 3 cont [of 2] assms by (simp add: utf8_enc_def p_utf8_def m_def [symmetric] del: of_nat_add)
  next
    case 4
    have "n \<le> 0x10ffff" using assms by (simp add: valid_cp_def)
    then have q: "n div 262144 < 8" by (simp add: div_less_iff_less_mult)
    define m where "m = 240 + n div 262144"
    have m: "m div 8 = 30" "m mod 8 = n div 262144" "\<not> m < 128" "m div 32 \<noteq> 6" "m div 16 \<noteq> 14" "m < 256"
      using q utf8_lead [of m 30 8 "n div 262144"] by (simp_all add: m_def)
    moreover from this have "unat (of_nat m :: u8) = m" by (intro unat_of_nat_small) simp
    ultimately show ?thesis using 4 cont [of 3] assms by (simp add: utf8_enc_def p_utf8_def m_def [symmetric] del: of_nat_add)
  qed
qed

lemma cbs_utf8_tail_refines:
  "cbs_view c bs \<Longrightarrow> (unat v + 1) * 64 ^ k \<le> 2 ^ 32 \<Longrightarrow>
   refines (\<lambda>v n. unat v = n) (cbs_utf8_tail k v c) (p_cont k (unat v) bs)"
proof (induction k arbitrary: v c bs)
  case 0
  then show ?case by (auto simp: p_cont.simps)
next
  case (Suc k)
  show ?case
    unfolding cbs_utf8_tail.simps p_cont.simps
  proof (rule refines_bind [OF CBS_get_u8_refines [OF Suc.prems(1)]], goal_cases)
    case (1 b c' b' bs')
    define d where "d = unat b mod 64"
    have d: "d < 64" by (simp add: d_def)
    have "(unat v + 1) * 64 * 64 ^ k \<le> 2 ^ 32" using Suc.prems(2) by (simp add: algebra_simps)
    then have "(unat v + 1) * 64 \<le> 2 ^ 32"
      by (metis (no_types, opaque_lifting) mult_le_cancel1 mult.right_neutral order_trans one_le_power one_le_numeral mult_le_mono2)
    then have "unat v * 64 < 2 ^ 32" by simp
    then have n: "unat (push_bit 6 v OR ucast (b AND BOTTOM_BITS 6)) = unat v * 64 + d"
      by (simp add: unat_shl_or unat_and_BOTTOM d_def)
    have "(unat v * 64 + d + 1) * 64 ^ k \<le> (unat v + 1) * 64 * 64 ^ k"
      using d by (intro mult_le_mono1) simp
    also have "\<dots> \<le> 2 ^ 32" by fact
    finally have "refines (\<lambda>v n. unat v = n) (cbs_utf8_tail k (push_bit 6 v OR ucast (b AND BOTTOM_BITS 6)) c')
        (p_cont k (unat v * 64 + d) bs')"
      using Suc.IH [OF 1(2), of "push_bit 6 v OR ucast (b AND BOTTOM_BITS 6)"] n by simp
    moreover have "b' = b" using 1(1) by simp
    ultimately show ?case using cbs_view_ok [OF 1(2)] by (simp add: lead_byte(1) d_def del: One_nat_def)
  qed
qed

lemma cbs_get_utf8_refines:
  assumes "cbs_view c bs"
  shows "refines (\<lambda>v n. unat v = n) (cbs_get_utf8 c) (p_utf8 bs)"
  unfolding cbs_get_utf8_def p_utf8_def
proof (rule refines_bind [OF CBS_get_u8_refines [OF assms]], goal_cases)
  case (1 b c' b' bs')
  have fin: "refines (\<lambda>v n. unat v = n)
      (and_then (cbs_utf8_tail k v c') (\<lambda>v cbs. if \<not> is_valid_code_point v \<or> v < lb then (None, cbs) else (Some v, cbs)))
      (Option.bind (p_cont k n bs') (\<lambda>(w, bs). if valid_cp w \<and> l \<le> w then Some (w, bs) else None))"
    if "(n + 1) * 64 ^ k \<le> 2 ^ 32" "unat v = n" "unat lb = l" for k v lb n l
    using that 1(2)
    by (intro refines_bind [OF cbs_utf8_tail_refines [of c' bs' v k, unfolded that(2)]])
      (auto simp: is_valid_code_point_iff word_less_nat_alt cbs_view_ok)
  have le: "b \<le> 0x7f \<longleftrightarrow> unat b < 128" by (auto simp: word_le_nat_alt)
  have m: "(unat b mod 32 + 1) * 64 ^ 1 \<le> 2 ^ 32" "(unat b mod 16 + 1) * 64 ^ 2 \<le> 2 ^ 32"
      "(unat b mod 8 + 1) * 64 ^ 3 \<le> 2 ^ 32"
    using mult_le_mono1 [of "unat b mod 32 + 1" 32 "64 ^ 1"] mult_le_mono1 [of "unat b mod 16 + 1" 16 "64 ^ 2"]
      mult_le_mono1 [of "unat b mod 8 + 1" 8 "64 ^ 3"] by (simp_all add: Suc_leI)
  have e: "b' = b" using 1(1) by simp
  show ?case
    unfolding e prod.case le lead_byte
    using 1(2) fin [OF m(1), of "ucast (b AND BOTTOM_BITS 5)" "0x80"] fin [OF m(2), of "ucast (b AND BOTTOM_BITS 4)" "0x800"]
      fin [OF m(3), of "ucast (b AND BOTTOM_BITS 3)" "0x10000"]
    by (cases "unat b div 32 = 6"; cases "unat b div 16 = 14"; cases "unat b div 8 = 30")
      (simp_all add: unat_and_BOTTOM Let_def cbs_view_ok del: One_nat_def)
qed

lemma p_utf8_iff: "p_utf8 bs = Some (n, rest) \<longleftrightarrow> valid_cp n \<and> bs = utf8_enc n @ rest"
  using p_utf8_sound p_utf8_complete by blast

subsection \<open>The other encodings\<close>

definition p_checked :: "('a \<Rightarrow> bool) \<Rightarrow> 'a parse \<Rightarrow> 'a parse" where
  "p_checked P r = Option.bind r (\<lambda>(v, bs). if P v then Some (v, bs) else None)"

lemma p_checked_iff: "p_checked P r = Some (v, bs) \<longleftrightarrow> r = Some (v, bs) \<and> P v"
  by (auto simp: p_checked_def bind_eq_Some_conv split: if_splits)

lemma cbs_get_latin1_refines: "cbs_view c bs \<Longrightarrow> refines (\<lambda>v n. unat v = n) (cbs_get_latin1 c) (p_uint 1 bs)"
proof -
  assume v: "cbs_view c bs"
  have "p_uint 1 bs = map_option (\<lambda>(b, r). (unat b, r)) (p_u8 bs)"
    by (cases bs) (auto simp: p_uint_def p_take_def be_val_def)
  then show ?thesis
    unfolding cbs_get_latin1_def using refines_map [OF CBS_get_u8_refines [OF v], of "\<lambda>(v :: u32) n. unat v = n" "ucast :: u8 \<Rightarrow> u32" unat] by simp
qed

lemma cbs_get_ucs2_be_refines:
  "cbs_view c bs \<Longrightarrow> refines (\<lambda>v n. unat v = n) (cbs_get_ucs2_be c) (p_checked valid_cp (p_uint 2 bs))"
  unfolding cbs_get_ucs2_be_def p_checked_def
  by (intro refines_bind [OF CBS_get_u16_refines]) (auto simp: is_valid_code_point_iff cbs_view_ok)

lemma cbs_get_utf32_be_refines:
  "cbs_view c bs \<Longrightarrow> refines (\<lambda>v n. unat v = n) (cbs_get_utf32_be c) (p_checked valid_cp (p_uint 4 bs))"
  unfolding cbs_get_utf32_be_def p_checked_def
  by (intro refines_bind [OF CBS_get_u32_refines]) (auto simp: is_valid_code_point_iff cbs_view_ok)

interpretation r_utf8: cbs_codec cbs_get_utf8 "\<lambda>v n. unat v = n" p_utf8 utf8_enc valid_cp
  by unfold_locales (simp_all add: cbs_get_utf8_refines p_utf8_iff)

interpretation r_latin1: cbs_codec cbs_get_latin1 "\<lambda>v n. unat v = n" "p_uint 1" "be_bytes 1" "\<lambda>n. n < 256 ^ 1"
  by unfold_locales (simp_all only: cbs_get_latin1_refines p_uint_iff)

interpretation r_ucs2: cbs_codec cbs_get_ucs2_be "\<lambda>v n. unat v = n" "\<lambda>bs. p_checked valid_cp (p_uint 2 bs)" "be_bytes 2"
    "\<lambda>n. n < 256 ^ 2 \<and> valid_cp n"
  by unfold_locales (auto simp: cbs_get_ucs2_be_refines p_uint_iff p_checked_iff)

interpretation r_utf32: cbs_codec cbs_get_utf32_be "\<lambda>v n. unat v = n" "\<lambda>bs. p_checked valid_cp (p_uint 4 bs)" "be_bytes 4"
    "\<lambda>n. n < 256 ^ 4 \<and> valid_cp n"
  by unfold_locales (auto simp: cbs_get_utf32_be_refines p_uint_iff p_checked_iff)


subsection \<open>The writers\<close>

lemma add_all_last:
  "sview s (up @ [(h, p, x)]) \<Longrightarrow> yields sview sroom s (add_all h bs s) True (length bs) (up @ [(h, p, x @ bs)])"
proof (induction bs arbitrary: s x)
  case (Cons b bs)
  have "yields sview sroom s (and_then (CBB_add_u8 h b s) (\<lambda>_. add_all h bs)) (True \<and> True) (1 + length bs)
    (up @ [(h, p, (x @ [b]) @ bs)])"
    by (rule sw.bind [OF add_u8_last [OF Cons.prems]], rule Cons.IH)
  then show ?case by simp
qed simp

lemma add_all_yields:
  assumes "sview s (up @ (h, p, x) # below)" and "bs \<noteq> []"
  shows "yields sview sroom s (add_all h bs s) (closable below)
    (length (close below) - length (layout below) + length bs) (up @ [(h, p, x @ close below @ bs)])"
proof -
  obtain b bs' where bs: "bs = b # bs'" using assms(2) by (cases bs) auto
  have "yields sview sroom s (and_then (CBB_add_u8 h b s) (\<lambda>_. add_all h bs')) (closable below \<and> True)
      (length (close below) - length (layout below) + 1 + length bs')
      (up @ [(h, p, (x @ close below @ [b]) @ bs')])"
    by (rule sw.bind [OF CBB_add_u8_yields [OF assms(1)]], rule add_all_last)
  then show ?thesis by (simp add: bs)
qed

lemma or_TOP_BITS:
  assumes "k \<le> 8" and "unat y < 2 ^ (8 - k)"
  shows "TOP_BITS k OR y = of_nat (unat (TOP_BITS k) + unat y)"
proof -
  have "TOP_BITS k = push_bit (8 - k) (drop_bit (8 - k) (- 1))"
    using and_not_mask [of "- 1 :: u8" "8 - k"] assms(1) by (simp add: TOP_BITS_def BOTTOM_BITS_eq)
  then have "TOP_BITS k OR y = TOP_BITS k + y" using shl_or_eq_add [OF assms(2)] by metis
  then show ?thesis by (simp add: ucast_id)
qed

lemma cont_or: "TOP_BITS 1 OR ucast (drop_bit j u AND ucast (BOTTOM_BITS 6)) = of_nat (128 + unat (u :: u32) div 2 ^ j mod 64)"
proof -
  have b: "(ucast (BOTTOM_BITS 6) :: u32) = mask 6" by code_simp
  have m: "unat u div 2 ^ j mod 64 < 64" by simp
  have e: "unat (ucast (drop_bit j u AND ucast (BOTTOM_BITS 6)) :: u8) = unat u div 2 ^ j mod 64"
    unfolding unat_ucast_mod b unat_and_mask unat_shr using m by simp
  then have "TOP_BITS 1 OR ucast (drop_bit j u AND ucast (BOTTOM_BITS 6)) =
      of_nat (unat (TOP_BITS 1) + unat (ucast (drop_bit j u AND ucast (BOTTOM_BITS 6)) :: u8))"
    using m by (intro or_TOP_BITS) simp_all
  then show ?thesis unfolding e unat_TOP_BITS .
qed

lemma lead_or:
  assumes "k \<le> 8" and "unat (u :: u32) div 2 ^ j < 2 ^ (8 - k)"
  shows "TOP_BITS k OR ucast (drop_bit j u) = of_nat (unat (TOP_BITS k) + unat u div 2 ^ j)"
proof -
  have "2 ^ (8 - k) \<le> (2 :: nat) ^ 8" by (rule power_increasing) auto
  with assms(2) have "unat (ucast (drop_bit j u) :: u8) = unat u div 2 ^ j"
    by (simp add: unat_ucast_mod unat_shr)
  then show ?thesis using or_TOP_BITS [OF assms(1), of "ucast (drop_bit j u)"] assms(2) by simp
qed

lemma cont_bytes_short:
  "cont_bytes 1 w = [of_nat (128 + w mod 64)]"
  "cont_bytes 2 w = [of_nat (128 + w div 64 mod 64), of_nat (128 + w mod 64)]"
  "cont_bytes 3 w = [of_nat (128 + w div 4096 mod 64), of_nat (128 + w div 64 mod 64), of_nat (128 + w mod 64)]"
  by (simp_all add: numeral_3_eq_3 numeral_2_eq_2 cont_bytes.simps)

lemma cbb_add_utf8_yields:
  assumes "sview s (up @ (h, p, x) # below)"
  shows "yields sview sroom s (cbb_add_utf8 h u s) (closable below \<and> valid_cp (unat u))
    (length (close below) - length (layout below) + length (utf8_enc (unat u)))
    (up @ [(h, p, x @ close below @ utf8_enc (unat u))])"
proof (cases "valid_cp (unat u)")
  case False
  then show ?thesis by (simp add: cbb_add_utf8_def is_valid_code_point_iff)
next
  case True
  note c0 = cont_or [of 0 u, unfolded drop_bit_0 id_apply]
  have "cbb_add_utf8 h u s = add_all h (utf8_enc (unat u)) s"
  proof -
    consider (1) "unat u < 0x80" | (2) "0x80 \<le> unat u" "unat u < 0x800" | (3) "0x800 \<le> unat u" "unat u < 0x10000"
      | (4) "0x10000 \<le> unat u" by linarith
    then show ?thesis
    proof cases
      case 1
      then have "(ucast u :: u8) = of_nat (unat u)" by (simp add: word_unat_eq_iff unat_ucast_mod unat_of_nat)
      with 1 True show ?thesis
        by (simp add: cbb_add_utf8_def is_valid_code_point_iff utf8_enc_def word_le_nat_alt)
          (simp add: and_then_def split: prod.splits option.splits)
    next
      case 2
      then have "TOP_BITS 2 OR ucast (drop_bit 6 u) = of_nat (192 + unat u div 64)"
        using lead_or [of 2 u 6] by (simp add: unat_TOP_BITS div_less_iff_less_mult)
      with 2 True c0 show ?thesis
        by (simp add: cbb_add_utf8_def is_valid_code_point_iff utf8_enc_def word_le_nat_alt cont_bytes_short [unfolded One_nat_def])
    next
      case 3
      then have "TOP_BITS 3 OR ucast (drop_bit 12 u) = of_nat (224 + unat u div 4096)"
        using lead_or [of 3 u 12] by (simp add: unat_TOP_BITS div_less_iff_less_mult)
      with 3 True c0 cont_or [of 6 u] show ?thesis
        by (simp add: cbb_add_utf8_def is_valid_code_point_iff utf8_enc_def word_le_nat_alt cont_bytes_short)
    next
      case 4
      have le: "unat u \<le> 0x10ffff" using True by (simp add: valid_cp_def)
      then have "TOP_BITS 4 OR ucast (drop_bit 18 u) = of_nat (240 + unat u div 262144)"
        using lead_or [of 4 u 18] by (simp add: unat_TOP_BITS div_less_iff_less_mult)
      with 4 le True c0 cont_or [of 6 u] cont_or [of 12 u] show ?thesis
        by (simp add: cbb_add_utf8_def is_valid_code_point_iff utf8_enc_def word_le_nat_alt cont_bytes_short)
    qed
  qed
  moreover have "utf8_enc (unat u) \<noteq> []" by (simp add: utf8_enc_def)
  ultimately show ?thesis using add_all_yields [OF assms] True by simp
qed

lemma cbb_get_utf8_len_eq: "unat (cbb_get_utf8_len u) = length (utf8_enc (unat u))"
  by (simp add: cbb_get_utf8_len_def utf8_enc_def word_le_nat_alt cont_bytes_short del: One_nat_def)

subsection \<open>Properties\<close>

text \<open>
  C6. \<open>cbs_get_utf8\<close> accepts exactly the UTF-8 encodings of the valid Unicode code points (no
  surrogates, no noncharacters, at most 0x10ffff), each in its shortest form only: it returns \<open>v\<close> and
  leaves \<open>rest\<close> exactly when the input is the encoding of \<open>v\<close> followed by \<open>rest\<close>.
\<close>

theorem cbs_get_utf8_exact:
  assumes "cbs_view c bs"
  shows "(\<exists>c'. cbs_get_utf8 c = (Some v, c') \<and> cbs_view c' rest) \<longleftrightarrow>
    valid_cp (unat v) \<and> bs = utf8_enc (unat v) @ rest"
proof -
  have "(\<exists>c'. cbs_get_utf8 c = (Some v, c') \<and> cbs_view c' rest) \<longleftrightarrow>
      (\<exists>x c'. cbs_get_utf8 c = (Some x, c') \<and> unat x = unat v \<and> cbs_view c' rest)"
    by (metis unsigned_word_eqI)
  then show ?thesis using r_utf8.read_iff [OF assms] by simp
qed

theorem cbs_get_utf8_exact_witness:
  "\<exists>c'. cbs_get_utf8 (CBS_init [0xe2, 0x82, 0xac, 0x21] 4) = (Some 0x20ac, c') \<and> cbs_view c' [0x21]"
proof -
  have "cbs_view (CBS_init [0xe2, 0x82, 0xac, 0x21] 4) [0xe2, 0x82, 0xac, 0x21]"
    using cbs_view_init [of "[0xe2, 0x82, 0xac, 0x21]"] by simp
  moreover have "valid_cp (unat (0x20ac :: u32)) \<and> [0xe2, 0x82, 0xac, 0x21] = utf8_enc (unat (0x20ac :: u32)) @ [0x21]"
    by (simp add: valid_cp_def utf8_enc_def cont_bytes_short)
  ultimately show ?thesis using cbs_get_utf8_exact by blast
qed

text \<open>
  \<open>cbb_add_utf8\<close> appends the UTF-8 encoding of a valid code point, after closing the open children,
  and \<open>cbb_get_utf8_len\<close> is its length; an invalid code point is refused. Together with the exactness
  of \<open>cbs_get_utf8\<close> the two are inverse to each other.
\<close>

lemma cbb_add_utf8_writes:
  assumes "sview s (up @ (h, p, x) # below)"
  shows "case cbb_add_utf8 h u s of
      (Some _, s') \<Rightarrow> valid_cp (unat u) \<and> closable below
        \<and> sview s' (up @ [(h, p, x @ close below @ utf8_enc (unat u))])
    | (None, _) \<Rightarrow> \<not> (closable below \<and> valid_cp (unat u)
        \<and> sroom s (length (close below) - length (layout below) + unat (cbb_get_utf8_len u)))"
  using cbb_add_utf8_yields [OF assms, of u] cbb_get_utf8_len_eq [of u]
  by (auto simp: yields_def split: prod.splits option.splits)

end
