(* ===== verification/Oid.thy ===== *)
theory Oid
  imports Cbb
begin

section \<open>Object identifiers in dotted decimal form (crypto/bytestring/cbb.c, cbs.c)\<close>

text \<open>
  \<open>CBB_add_asn1_oid_from_text\<close> parses a text such as \<open>1.2.840.113554\<close> and appends the contents of the
  OBJECT IDENTIFIER; \<open>CBS_asn1_oid_to_text\<close> prints such contents. The text is a list of bytes, 46 is the
  dot and 48 to 57 are the digits.
\<close>

definition UINT64_MAX :: u64 where "UINT64_MAX = - 1"

subsection \<open>From text\<close>

text \<open>The loop of \<open>parse_dotted_decimal\<close>, with the values of \<open>*out\<close> and \<open>seen_digit\<close>.\<close>

function dotted_loop :: "u64 \<Rightarrow> bool \<Rightarrow> cbs \<Rightarrow> u64 option \<times> cbs" where
  "dotted_loop out seen_digit cbs =
     (case CBS_get_u8 cbs of
        (None, cbs') \<Rightarrow> (if seen_digit then Some out else None, cbs')
      | (Some u, cbs') \<Rightarrow>
          if u = 46 \<and> cbs_len cbs' > 0 then (if seen_digit then Some out else None, cbs')
          else if u < 48 \<or> u > 57 \<or> (seen_digit \<and> out = 0) \<or> out > UINT64_MAX div 10
                  \<or> out * 10 > UINT64_MAX - (ucast u - 48)
          then (None, cbs')
          else dotted_loop (out * 10 + (ucast u - 48)) True cbs')"
  by pat_completeness auto
termination
  by (relation "measure (\<lambda>(_, _, c). unat (cbs_len c))") (auto dest: CBS_get_u8_decreases [OF sym])

declare dotted_loop.simps [simp del]

definition parse_dotted_decimal :: "cbs \<Rightarrow> u64 option \<times> cbs" where
  "parse_dotted_decimal cbs = dotted_loop 0 False cbs"

lemma CBS_get_u8_None: "CBS_get_u8 c = (None, c') \<Longrightarrow> c' = c"
  by (auto simp: CBS_get_u8_def cbs_get_def and_then_def split: if_splits)

lemma dotted_loop_le: "unat (cbs_len (snd (dotted_loop out seen c))) \<le> unat (cbs_len c)"
proof (induction out seen c rule: dotted_loop.induct)
  case (1 out seen c)
  obtain r c' where g: "CBS_get_u8 c = (r, c')" by (metis surj_pair)
  show ?case
  proof (cases r)
    case None
    then show ?thesis using g CBS_get_u8_None [of c c'] by (subst dotted_loop.simps) simp
  next
    case (Some u)
    then have l: "unat (cbs_len c') < unat (cbs_len c)" using CBS_get_u8_decreases g by simp
    show ?thesis using "1.IH" [OF g [symmetric] Some] l g Some by (subst dotted_loop.simps) auto
  qed
qed

lemma parse_dotted_decimal_less:
  assumes "parse_dotted_decimal c = (Some a, c')"
  shows "unat (cbs_len c') < unat (cbs_len c)"
proof -
  obtain r d where g: "CBS_get_u8 c = (r, d)" by (metis surj_pair)
  from assms obtain u where u: "r = Some u"
    by (cases r) (auto simp: parse_dotted_decimal_def dotted_loop.simps [of 0 False c] g)
  then have l: "unat (cbs_len d) < unat (cbs_len c)" using CBS_get_u8_decreases g by simp
  have "\<exists>o'. dotted_loop o' True d = (Some a, c')"
    using assms g u by (auto simp: parse_dotted_decimal_def dotted_loop.simps [of 0 False c] split: if_splits)
  then show ?thesis using l dotted_loop_le by (metis le_less_trans snd_conv)
qed

function oid_text_loop :: "nat \<Rightarrow> cbs \<Rightarrow> cbb_st \<Rightarrow> unit option \<times> cbb_st" where
  "oid_text_loop h cbs s =
     (if cbs_len cbs > 0
      then case parse_dotted_decimal cbs of
             (None, _) \<Rightarrow> (None, s)
           | (Some a, cbs') \<Rightarrow> and_then (add_base128_integer h a s) (\<lambda>_ s. oid_text_loop h cbs' s)
      else (Some (), s))"
  by pat_completeness auto
termination
  by (relation "measure (\<lambda>(_, c, _). unat (cbs_len c))") (auto dest: parse_dotted_decimal_less [OF sym])

declare oid_text_loop.simps [simp del]

definition CBB_add_asn1_oid_from_text :: "nat \<Rightarrow> bytes \<Rightarrow> size_t \<Rightarrow> cbb_st \<Rightarrow> unit option \<times> cbb_st" where
  "CBB_add_asn1_oid_from_text h text len s =
     and_then (CBB_flush h s) (\<lambda>_ s.
       case parse_dotted_decimal (CBS_init text len) of
         (None, _) \<Rightarrow> (None, s)
       | (Some a, cbs) \<Rightarrow>
          (case parse_dotted_decimal cbs of
             (None, _) \<Rightarrow> (None, s)
           | (Some b, cbs) \<Rightarrow>
               if a > 2 \<or> (a < 2 \<and> b > 39) \<or> b > UINT64_MAX - 80 then (None, s)
               else and_then (add_base128_integer h (40 * a + b) s) (\<lambda>_ s. oid_text_loop h cbs s)))"

subsection \<open>To text\<close>

text \<open>The digits \<open>BIO_snprintf\<close> prints for \<open>PRIu64\<close>; the buffer has room for them.\<close>

fun decimal :: "nat \<Rightarrow> bytes" where
  "decimal n = (if n < 10 then [of_nat (48 + n)] else decimal (n div 10) @ [of_nat (48 + n mod 10)])"

declare decimal.simps [simp del]

definition add_decimal :: "nat \<Rightarrow> u64 \<Rightarrow> cbb_st \<Rightarrow> unit option \<times> cbb_st" where
  "add_decimal h v s = CBB_add_bytes h (decimal (unat v)) (of_nat (length (decimal (unat v)))) s"

function oid_print_loop :: "nat \<Rightarrow> cbs \<Rightarrow> cbb_st \<Rightarrow> unit option \<times> cbb_st" where
  "oid_print_loop h copy s =
     (if cbs_len copy \<noteq> 0
      then case parse_base128_integer copy of
             (None, _) \<Rightarrow> (None, s)
           | (Some v, copy') \<Rightarrow>
               and_then (CBB_add_u8 h 46 s) (\<lambda>_ s.
               and_then (add_decimal h v s) (\<lambda>_ s. oid_print_loop h copy' s))
      else (Some (), s))"
  by pat_completeness auto
termination
  by (relation "measure (\<lambda>(_, c, _). unat (cbs_len c))")
    (auto dest: parse_base128_takes(1) [OF sym])

declare oid_print_loop.simps [simp del]

text \<open>The first two components, which are encoded as one number.\<close>

definition oid_head :: "u64 \<Rightarrow> cbb_st \<Rightarrow> unit option \<times> cbb_st" where
  "oid_head v s =
     (if v \<ge> 80
      then and_then (CBB_add_bytes 0 [50, 46] 2 s) (\<lambda>_ s. add_decimal 0 (v - 80) s)
      else and_then (add_decimal 0 (v div 40) s) (\<lambda>_ s.
           and_then (CBB_add_u8 0 46 s) (\<lambda>_ s. add_decimal 0 (v mod 40) s)))"

text \<open>
  The builder is a local variable, at address 0; the result is the block with the text and its
  terminator, or null.
\<close>

definition CBS_asn1_oid_to_text :: "cbs \<Rightarrow> allocator \<Rightarrow> bytes option" where
  "CBS_asn1_oid_to_text c a =
     (case CBB_init 0 32 a of
        None \<Rightarrow> None
      | Some s \<Rightarrow>
         (case parse_base128_integer c of
            (None, _) \<Rightarrow> None
          | (Some v, copy) \<Rightarrow>
              (case and_then (oid_head v s) (\<lambda>_ s. and_then (oid_print_loop 0 copy s) (\<lambda>_ s.
                             and_then (CBB_add_u8 0 0 s) (\<lambda>_ s. CBB_finish 0 True True s))) of
                 (None, _) \<Rightarrow> None
               | (Some (txt, txt_len), _) \<Rightarrow> txt)))"

subsection \<open>Texts\<close>

text \<open>
  An identifier is the list of its components. Valid ones have at least two; the first is 0, 1 or 2, and
  the encoding of the first two is one number.
\<close>

fun dotted :: "nat list \<Rightarrow> bytes" where
  "dotted [] = []"
| "dotted [n] = decimal n"
| "dotted (n # m # ns) = decimal n @ 46 # dotted (m # ns)"

fun oid_valid :: "nat list \<Rightarrow> bool" where
  "oid_valid (a # b # ns) \<longleftrightarrow> a \<le> 2 \<and> (a < 2 \<longrightarrow> b \<le> 39) \<and> b + 80 < 2 ^ 64 \<and> (\<forall>n \<in> set ns. n < 2 ^ 64)"
| "oid_valid _ \<longleftrightarrow> False"

fun oid_enc :: "nat list \<Rightarrow> bytes" where
  "oid_enc (a # b # ns) = base128_enc (40 * a + b) @ concat (map base128_enc ns)"
| "oid_enc _ = []"

lemma decimal_ne [simp]: "decimal n \<noteq> []"
  by (subst decimal.simps) simp

lemma dotted_Cons: "dotted (n # ns) = decimal n @ concat (map (\<lambda>m. 46 # decimal m) ns)"
proof (induction ns arbitrary: n)
  case (Cons m ns)
  then show ?case by simp
qed simp

lemma dotted_tail: "dotted (n # ns) = decimal n @ (if ns = [] then [] else 46 # dotted ns)"
  by (cases ns) simp_all

lemma dotted_ne: "ns \<noteq> [] \<Longrightarrow> dotted ns \<noteq> []"
  by (cases ns) (simp_all add: dotted_Cons)

lemma view_get_u8: "cbs_view c (b # bs) \<Longrightarrow> \<exists>c'. CBS_get_u8 c = (Some b, c') \<and> cbs_view c' bs"
  using CBS_get_u8_refines [of c "b # bs"] by (cases "CBS_get_u8 c"; cases "fst (CBS_get_u8 c)") auto

lemma view_get_u8_end: "cbs_view c [] \<Longrightarrow> CBS_get_u8 c = (None, c)"
  using CBS_get_u8_refines [of c "[]"] CBS_get_u8_None [of c] by (cases "CBS_get_u8 c"; cases "fst (CBS_get_u8 c)") auto

lemma dotted_step:
  assumes "cbs_view c (of_nat (48 + d) # rest)" and "d < 10" and "\<not> (seen \<and> out = 0)" and "unat out * 10 + d < 2 ^ 64"
  shows "\<exists>c'. cbs_view c' rest \<and> dotted_loop out seen c = dotted_loop (of_nat (unat out * 10 + d)) True c'"
proof -
  define u :: u8 where "u = of_nat (48 + d)"
  have u: "unat u = 48 + d" unfolding u_def using assms(2) by (intro unat_of_nat_small) simp
  obtain c' where c': "CBS_get_u8 c = (Some u, c')" "cbs_view c' rest" using view_get_u8 assms(1) unfolding u_def by blast
  have "48 \<le> (ucast u :: u64)" using u by (simp add: word_le_nat_alt)
  then have w: "unat (ucast u - 48 :: u64) = d" using u by (simp add: unat_sub)
  have mx: "unat UINT64_MAX = 2 ^ 64 - 1" by (simp add: UINT64_MAX_def unsigned_minus_1_eq_mask mask_eq_exp_minus_1)
  have "unat (UINT64_MAX div 10) = (2 ^ 64 - 1) div 10" by (simp add: unat_div mx)
  moreover have "unat out \<le> (2 ^ 64 - 1) div 10" using assms(4) by simp
  ultimately have c1: "\<not> out > UINT64_MAX div 10" by (simp add: word_less_nat_alt)
  have m10: "unat (out * 10) = unat out * 10" using assms(4) by (simp add: unat_word_ariths)
  have "unat (UINT64_MAX - (ucast u - 48)) = 2 ^ 64 - 1 - d" using w mx assms(2) by (subst unat_sub) (simp_all add: word_le_nat_alt)
  then have c2: "\<not> out * 10 > UINT64_MAX - (ucast u - 48)" using m10 assms(4) by (simp add: word_less_nat_alt)
  have "unat (out * 10 + (ucast u - 48)) = unat out * 10 + d" unfolding unat_word_ariths(1) m10 w using assms(4) by simp
  then have v: "out * 10 + (ucast u - 48) = of_nat (unat out * 10 + d)" by (metis of_nat_unat ucast_id)
  have dg: "u \<noteq> 46" "\<not> u < 48" "\<not> u > 57" using u assms(2) by (auto simp: word_less_nat_alt)
  have "dotted_loop out seen c = dotted_loop (out * 10 + (ucast u - 48)) True c'"
    using c' c1 c2 dg assms(3) by (subst dotted_loop.simps) auto
  then show ?thesis using c'(2) v by metis
qed

lemma dotted_decimal:
  "n < 2 ^ 64 \<Longrightarrow> cbs_view c (decimal n @ rest) \<Longrightarrow> \<exists>c'. cbs_view c' rest \<and> dotted_loop 0 False c = dotted_loop (of_nat n) True c'"
proof (induction n arbitrary: rest rule: decimal.induct)
  case (1 n)
  show ?case
  proof (cases "n < 10")
    case True
    then show ?thesis using dotted_step [of c n rest False 0] "1.prems"(2) by (simp add: decimal.simps [of n])
  next
    case False
    then have "cbs_view c (decimal (n div 10) @ of_nat (48 + n mod 10) # rest)" using "1.prems"(2) by (simp add: decimal.simps [of n])
    moreover have lt: "n div 10 < 2 ^ 64" using "1.prems"(1) by simp
    ultimately obtain c1 where c1: "cbs_view c1 (of_nat (48 + n mod 10) # rest)" "dotted_loop 0 False c = dotted_loop (of_nat (n div 10)) True c1"
      using "1.IH" [OF False] by blast
    have u: "unat (of_nat (n div 10) :: u64) = n div 10" using lt by (intro unat_of_nat_small) simp
    have "(of_nat (n div 10) :: u64) \<noteq> 0" using u False by (metis div_eq_0_iff unat_0 zero_neq_numeral)
    from dotted_step [OF c1(1) _ _, of True "of_nat (n div 10)"] this u "1.prems"(1) c1(2) show ?thesis by simp
  qed
qed

lemma parse_dotted_component:
  assumes "n < 2 ^ 64" and "cbs_view c (dotted (n # ns))"
  shows "\<exists>c'. parse_dotted_decimal c = (Some (of_nat n), c') \<and> cbs_view c' (dotted ns)"
proof -
  obtain d where d: "cbs_view d (if ns = [] then [] else 46 # dotted ns)" "dotted_loop 0 False c = dotted_loop (of_nat n) True d"
    using dotted_decimal [OF assms(1), of c "if ns = [] then [] else 46 # dotted ns"] assms(2) unfolding dotted_tail by blast
  show ?thesis
  proof (cases "ns = []")
    case True
    then have "dotted_loop (of_nat n) True d = (Some (of_nat n), d)" using view_get_u8_end d(1) by (subst dotted_loop.simps) simp
    then show ?thesis using d True by (simp add: parse_dotted_decimal_def)
  next
    case False
    then obtain d' where g: "CBS_get_u8 d = (Some 46, d')" "cbs_view d' (dotted ns)" using d(1) view_get_u8 by (metis (full_types))
    then have "cbs_len d' > 0" using cbs_view_len [OF g(2)] dotted_ne [OF False] by (metis length_greater_0_conv unat_gt_0 word_gt_0)
    then have "dotted_loop (of_nat n) True d = (Some (of_nat n), d')" using g by (subst dotted_loop.simps) simp
    then show ?thesis using d(2) g(2) by (simp add: parse_dotted_decimal_def)
  qed
qed

subsection \<open>Conversion\<close>

lemma base128_enc_ne [simp]: "base128_enc v \<noteq> []"
  by (simp add: base128_enc_def)

lemma view_len_pos: "cbs_view c bs \<Longrightarrow> bs \<noteq> [] \<Longrightarrow> cbs_len c \<noteq> 0"
  using cbs_view_len [of c bs] by auto

lemma view_len_zero: "cbs_view c [] \<Longrightarrow> cbs_len c = 0"
  using cbs_view_len [of c "[]"] by (simp add: unat_eq_0)

lemma oid_text_loop_yields:
  "\<forall>n \<in> set ns. n < 2 ^ 64 \<Longrightarrow> cbs_view c (dotted ns) \<Longrightarrow> sview s (up @ [(h, p, x)]) \<Longrightarrow>
   yields sview sroom s (oid_text_loop h c s) True (length (concat (map base128_enc ns))) (up @ [(h, p, x @ concat (map base128_enc ns))])"
proof (induction ns arbitrary: c s x)
  case Nil
  then show ?case by (subst oid_text_loop.simps) (simp add: view_len_zero)
next
  case (Cons n ns)
  then obtain c' where c': "parse_dotted_decimal c = (Some (of_nat n), c')" "cbs_view c' (dotted ns)"
    using parse_dotted_component [of n c ns] by auto
  have u: "unat (of_nat n :: u64) = n" using Cons.prems(1) by (intro unat_of_nat_small) simp
  have pos: "cbs_len c > 0" using view_len_pos [OF Cons.prems(2) dotted_ne] by (simp add: word_gt_0)
  have "yields sview sroom s (and_then (add_base128_integer h (of_nat n) s) (\<lambda>_ s. oid_text_loop h c' s)) (True \<and> True)
      (length (base128_enc n) + length (concat (map base128_enc ns))) (up @ [(h, p, (x @ base128_enc n) @ concat (map base128_enc ns))])"
  proof (rule sw.bind)
    show "yields sview sroom s (add_base128_integer h (of_nat n) s) True (length (base128_enc n)) (up @ [(h, p, x @ base128_enc n)])"
      using add_base128_integer_yields [OF Cons.prems(3), of "of_nat n"] unfolding u .
    show "yields sview sroom s1 (oid_text_loop h c' s1) True (length (concat (map base128_enc ns))) (up @ [(h, p, (x @ base128_enc n) @ concat (map base128_enc ns))])"
      if "sview s1 (up @ [(h, p, x @ base128_enc n)])" for s1 using Cons.IH [OF _ c'(2) that] Cons.prems(1) by simp
  qed
  then show ?case using c'(1) pos by (subst oid_text_loop.simps) simp
qed

lemma oid_from_text_yields:
  assumes "oid_valid ns" and "sview s (up @ (h, p, x) # below)" and "length (dotted ns) < 2 ^ 64"
  shows "yields sview sroom s (CBB_add_asn1_oid_from_text h (dotted ns) (of_nat (length (dotted ns))) s) (closable below)
    (length (close below) - length (layout below) + length (oid_enc ns)) (up @ [(h, p, x @ close below @ oid_enc ns)])"
proof -
  obtain a b ms where ns: "ns = a # b # ms" using assms(1) by (cases ns rule: oid_valid.cases) auto
  have ab: "a \<le> 2" "a < 2 \<Longrightarrow> b \<le> 39" "b + 80 < 2 ^ 64" "\<forall>n \<in> set ms. n < 2 ^ 64" using assms(1) by (auto simp: ns)
  have "cbs_view (CBS_init (dotted ns) (of_nat (length (dotted ns)))) (dotted (a # b # ms))" using cbs_view_init [OF assms(3)] by (simp only: ns)
  then obtain c1 where c1: "parse_dotted_decimal (CBS_init (dotted ns) (of_nat (length (dotted ns)))) = (Some (of_nat a), c1)" "cbs_view c1 (dotted (b # ms))"
    using parse_dotted_component [of a _ "b # ms"] ab(1) by (metis le_less_trans one_less_numeral_iff power_one_right power_strict_increasing_iff semiring_norm(76,81))
  obtain c2 where c2: "parse_dotted_decimal c1 = (Some (of_nat b), c2)" "cbs_view c2 (dotted ms)"
    using parse_dotted_component [OF _ c1(2)] ab(3) by auto
  have ua: "unat (of_nat a :: u64) = a" using ab(1) by (intro unat_of_nat_small) simp
  have ub: "unat (of_nat b :: u64) = b" using ab(3) by (intro unat_of_nat_small) simp
  have mx: "unat UINT64_MAX = 2 ^ 64 - 1" by (simp add: UINT64_MAX_def unsigned_minus_1_eq_mask mask_eq_exp_minus_1)
  have "unat (UINT64_MAX - 80) = 2 ^ 64 - 81" using mx by (subst unat_sub) (simp_all add: word_le_nat_alt)
  then have ok: "\<not> ((of_nat a :: u64) > 2 \<or> ((of_nat a :: u64) < 2 \<and> (of_nat b :: u64) > 39) \<or> (of_nat b :: u64) > UINT64_MAX - 80)"
    using ab ua ub by (auto simp: word_less_nat_alt)
  have m: "unat (40 * of_nat a :: u64) = 40 * a" using ua ab(1) by (simp add: unat_word_ariths)
  have s: "unat (40 * of_nat a + of_nat b :: u64) = 40 * a + b" unfolding unat_word_ariths(1) m ub using ab by simp
  have body: "yields sview sroom s1 (and_then (add_base128_integer h (40 * of_nat a + of_nat b) s1) (\<lambda>_ s. oid_text_loop h c2 s)) True
      (length (oid_enc ns)) (up @ [(h, p, (x @ close below) @ oid_enc ns)])" if s1: "sview s1 (up @ [(h, p, x @ close below)])" for s1
  proof (rule sw.bind')
    show "yields sview sroom s1 (add_base128_integer h (40 * of_nat a + of_nat b) s1) True (length (base128_enc (40 * a + b)))
        (up @ [(h, p, (x @ close below) @ base128_enc (40 * a + b))])"
      using add_base128_integer_yields [OF s1, of "40 * of_nat a + of_nat b"] unfolding s .
    show "yields sview sroom s2 (oid_text_loop h c2 s2) True (length (concat (map base128_enc ms))) (up @ [(h, p, (x @ close below) @ oid_enc ns)])"
      if "sview s2 (up @ [(h, p, (x @ close below) @ base128_enc (40 * a + b))])" for s2
      using oid_text_loop_yields [OF ab(4) c2(2) that] by (simp add: ns)
  qed (simp_all add: ns)
  have "yields sview sroom s (CBB_add_asn1_oid_from_text h (dotted ns) (of_nat (length (dotted ns))) s) (closable below \<and> True)
    (length (close below) - length (layout below) + length (oid_enc ns)) (up @ [(h, p, (x @ close below) @ oid_enc ns)])"
    unfolding CBB_add_asn1_oid_from_text_def c1(1)
    by (rule sw.bind [OF CBB_flush_yields [OF assms(2)]]) (simp only: prod.case option.case c2(1) if_not_P [OF ok] body)
  then show ?thesis by simp
qed

lemma decimal_length: "n < 10 ^ k \<Longrightarrow> 0 < k \<Longrightarrow> length (decimal n) \<le> k"
proof (induction k arbitrary: n)
  case (Suc k)
  show ?case
  proof (cases "n < 10")
    case False
    then have "k \<noteq> 0" using Suc.prems(1) by (intro notI) simp
    moreover have "n div 10 < 10 ^ k" using Suc.prems(1) by (simp add: less_mult_imp_div_less mult.commute)
    ultimately show ?thesis using Suc.IH [of "n div 10"] False by (simp add: decimal.simps [of n])
  qed (simp add: decimal.simps [of n])
qed simp

lemma decimal_u64: "n < 2 ^ 64 \<Longrightarrow> length (decimal n) \<le> 20"
  by (rule decimal_length) simp_all

lemma b128_hi_length: "n < 128 ^ k \<Longrightarrow> length (b128_hi n) \<le> k"
proof (induction k arbitrary: n)
  case (Suc k)
  have "n div 128 < 128 ^ k" using Suc.prems(1) by (simp add: less_mult_imp_div_less mult.commute)
  then show ?case using Suc.IH [of "n div 128"] by (subst b128_hi.simps) simp
qed (simp add: b128_hi.simps)

lemma base128_u64: "n < 2 ^ 64 \<Longrightarrow> length (base128_enc n) \<le> 10"
  using b128_hi_length [of "n div 128" 9] by (simp add: base128_enc_def)

lemma concat_length_le: "(\<And>x. x \<in> set xs \<Longrightarrow> length (f x) \<le> k) \<Longrightarrow> length (concat (map f xs)) \<le> k * length xs"
  by (induction xs) (auto intro: add_mono)

lemma dotted_length: "oid_valid ns \<Longrightarrow> length (dotted ns) \<le> 21 * length ns"
proof (cases ns rule: oid_valid.cases)
  case (1 a b ms)
  assume v: "oid_valid ns"
  have "length (decimal a) \<le> 20" "length (decimal b) \<le> 20" using v 1 by (auto intro!: decimal_u64)
  moreover have "length (concat (map (\<lambda>m. 46 # decimal m) ms)) \<le> 21 * length ms"
    by (rule concat_length_le) (use v 1 decimal_u64 in auto)
  ultimately show ?thesis by (simp add: 1 dotted_Cons)
qed simp_all

lemma oid_enc_length: "oid_valid ns \<Longrightarrow> length (oid_enc ns) \<le> 10 * length ns"
proof (cases ns rule: oid_valid.cases)
  case (1 a b ms)
  assume v: "oid_valid ns"
  have "length (base128_enc (40 * a + b)) \<le> 10" using v 1 by (intro base128_u64) auto
  moreover have "length (concat (map base128_enc ms)) \<le> 10 * length ms"
    by (rule concat_length_le) (use v 1 base128_u64 in auto)
  ultimately show ?thesis by (simp add: 1)
qed simp_all

lemma add_decimal_yields:
  assumes "sview s (up @ [(h, p, x)])"
  shows "yields sview sroom s (add_decimal h v s) True (length (decimal (unat v))) (up @ [(h, p, x @ decimal (unat v))])"
proof -
  have "unat (of_nat (length (decimal (unat v))) :: size_t) = length (decimal (unat v))"
    using decimal_u64 [of "unat v"] by (intro unat_of_nat_small) simp
  then show ?thesis using CBB_add_bytes_yields [of s up h p x "[]" "of_nat (length (decimal (unat v)))" "decimal (unat v)"] assms
    by (simp add: add_decimal_def)
qed

lemma oid_print_loop_yields:
  "\<forall>n \<in> set ns. n < 2 ^ 64 \<Longrightarrow> cbs_view c (concat (map base128_enc ns)) \<Longrightarrow> sview s (up @ [(h, p, x)]) \<Longrightarrow>
   yields sview sroom s (oid_print_loop h c s) True (length (concat (map (\<lambda>m. 46 # decimal m) ns)))
     (up @ [(h, p, x @ concat (map (\<lambda>m. 46 # decimal m) ns))])"
proof (induction ns arbitrary: c s x)
  case Nil
  then show ?case by (subst oid_print_loop.simps) (simp add: view_len_zero)
next
  case (Cons n ns)
  from Cons.prems(1,2) obtain v c' where c': "parse_base128_integer c = (Some v, c')" "unat v = n" "cbs_view c' (concat (map base128_enc ns))"
    using r_base128.read_enc [of c n "concat (map base128_enc ns)"] by auto
  have pos: "cbs_len c \<noteq> 0" using view_len_pos [OF Cons.prems(2)] by simp
  have "yields sview sroom s (and_then (CBB_add_u8 h 46 s) (\<lambda>_ s. and_then (add_decimal h v s) (\<lambda>_ s. oid_print_loop h c' s)))
      (True \<and> True \<and> True) (1 + (length (decimal n) + length (concat (map (\<lambda>m. 46 # decimal m) ns))))
      (up @ [(h, p, ((x @ [46]) @ decimal n) @ concat (map (\<lambda>m. 46 # decimal m) ns))])"
  proof (rule sw.bind [OF add_u8_last [OF Cons.prems(3)]], rule sw.bind)
    show "yields sview sroom s1 (add_decimal h v s1) True (length (decimal n)) (up @ [(h, p, (x @ [46]) @ decimal n)])"
      if "sview s1 (up @ [(h, p, x @ [46])])" for s1 using add_decimal_yields [OF that, of v] unfolding c'(2) .
    show "yields sview sroom s2 (oid_print_loop h c' s2) True (length (concat (map (\<lambda>m. 46 # decimal m) ns)))
        (up @ [(h, p, ((x @ [46]) @ decimal n) @ concat (map (\<lambda>m. 46 # decimal m) ns))])"
      if "sview s2 (up @ [(h, p, (x @ [46]) @ decimal n)])" for s2 using Cons.IH [OF _ c'(3) that] Cons.prems(1) by simp
  qed
  then show ?case using c'(1) pos by (subst oid_print_loop.simps) simp
qed

lemma oid_head_yields:
  assumes "sview s [(0, p, x)]" and "oid_valid (a # b # ms)" and "unat v = 40 * a + b"
  shows "yields sview sroom s (oid_head v s) True (length (dotted [a, b])) [(0, p, x @ dotted [a, b])]"
proof (cases "a = 2")
  case True
  then have v: "v \<ge> 80" "unat (v - 80) = b" using assms(3) by (simp_all add: word_le_nat_alt unat_sub)
  have "decimal 2 = [50]" by (simp add: decimal.simps)
  moreover have "yields sview sroom s (CBB_add_bytes 0 [50, 46] 2 s) True 2 [(0, p, x @ [50, 46])]"
    using CBB_add_bytes_yields [of s "[]" 0 p x "[]" 2 "[50, 46]"] assms(1) by (simp add: numeral_2_eq_2 [symmetric])
  have "yields sview sroom s (and_then (CBB_add_bytes 0 [50, 46] 2 s) (\<lambda>_ s. add_decimal 0 (v - 80) s)) (True \<and> True) (2 + length (decimal b)) [(0, p, (x @ [50, 46]) @ decimal b)]"
    by (rule sw.bind [OF \<open>yields _ _ _ _ _ _ _\<close>]) (rule add_decimal_yields [of _ "[]" 0 p _ "v - 80", unfolded v(2) append_Nil])
  ultimately show ?thesis using v(1) True by (simp add: oid_head_def)
next
  case False
  then have ab: "a < 2" "b \<le> 39" using assms(2) by auto
  then have n: "\<not> v \<ge> 80" "unat (v div 40) = a" "unat (v mod 40) = b"
    using assms(3) by (simp_all add: word_le_nat_alt unat_div unat_mod)
  have "yields sview sroom s (and_then (add_decimal 0 (v div 40) s) (\<lambda>_ s. and_then (CBB_add_u8 0 46 s) (\<lambda>_ s. add_decimal 0 (v mod 40) s)))
      (True \<and> True \<and> True) (length (decimal a) + (1 + length (decimal b))) [(0, p, ((x @ decimal a) @ [46]) @ decimal b)]"
    by (rule sw.bind [OF add_decimal_yields [of _ "[]" 0 p _ "v div 40", unfolded n append_Nil, OF assms(1)]],
        rule sw.bind [OF add_u8_last [of _ "[]", unfolded append_Nil]], assumption,
        rule add_decimal_yields [of _ "[]" 0 p _ "v mod 40", unfolded n append_Nil])
  then show ?thesis using n(1) by (simp add: oid_head_def)
qed

lemma oid_to_text:
  assumes "oid_valid ns" and "cbs_view c (oid_enc ns)" and "\<forall>i. next_ok a i" and "length ns < 2 ^ 32"
  shows "\<exists>m. CBS_asn1_oid_to_text c a = Some m \<and> take (length (dotted ns) + 1) m = dotted ns @ [0]"
proof -
  obtain a1 b ms where ns: "ns = a1 # b # ms" using assms(1) by (cases ns rule: oid_valid.cases) auto
  have lim: "length (dotted ns) + 1 < 2 ^ 62" using dotted_length [OF assms(1)] assms(4) by simp
  have dt: "dotted ns = dotted [a1, b] @ concat (map (\<lambda>m. 46 # decimal m) ms)" by (simp add: ns dotted_Cons)
  obtain s where s: "CBB_init 0 32 a = Some s"
    using assms(3) by (simp add: CBB_init_def cbb_init_def OPENSSL_malloc_def malloc_turn_def sizeof_cbb_buffer_st_def)
  have "40 * a1 + b < 2 ^ 64" using assms(1) by (auto simp: ns)
  then obtain v c' where v: "parse_base128_integer c = (Some v, c')" "unat v = 40 * a1 + b" "cbs_view c' (concat (map base128_enc ms))"
    using r_base128.read_enc [of c "40 * a1 + b" "concat (map base128_enc ms)"] assms(2) by (auto simp: ns)
  let ?r = "and_then (oid_head v s) (\<lambda>_ s. and_then (oid_print_loop 0 c' s) (\<lambda>_ s. CBB_add_u8 0 0 s))"
  have "yields sview sroom s ?r (True \<and> True \<and> True)
      (length (dotted [a1, b]) + (length (concat (map (\<lambda>m. 46 # decimal m) ms)) + 1))
      [(0, Top, (([] @ dotted [a1, b]) @ concat (map (\<lambda>m. 46 # decimal m) ms)) @ [0])]"
    using assms(1) CBB_init_view [OF s] v(2)
    by (intro sw.bind [OF oid_head_yields] sw.bind [OF oid_print_loop_yields [OF _ v(3), of _ "[]", unfolded append_Nil]]
        add_u8_last [of _ "[]", unfolded append_Nil]) (auto simp only: ns oid_valid.simps)
  then have y: "yields sview sroom s ?r True (length (dotted ns) + 1) [(0, Top, dotted ns @ [0])]" unfolding dt by (simp add: add.assoc)
  then obtain s' where s': "?r = (Some (), s')" "sview s' [(0, Top, dotted ns @ [0])]"
    by (rule sw.success) (use CBB_init_room [OF s assms(3) lim] in simp_all)
  then have "sroom s' 0" using y CBB_init_room [OF s assms(3) lim] by simp
  then obtain m n s'' where "CBB_finish 0 True True s' = (Some (m, n), s'')"
      "take (unat n) (case m of None \<Rightarrow> [] | Some b \<Rightarrow> b) = dotted ns @ [0]" "unat n = length (dotted ns @ [0])"
    using finish_contents [OF s'(2)] by (cases "CBB_finish 0 True True s'"; cases "fst (CBB_finish 0 True True s')") auto
  moreover from this obtain m' where "m = Some m'" by (cases m) auto
  moreover have "and_then (oid_head v s) (\<lambda>_ s. and_then (oid_print_loop 0 c' s) (\<lambda>_ s. and_then (CBB_add_u8 0 0 s) (\<lambda>_ s. CBB_finish 0 True True s)))
      = and_then ?r (\<lambda>_ s. CBB_finish 0 True True s)" by (simp add: and_then_def split: prod.splits option.splits)
  ultimately show ?thesis using s v(1) s'(1) by (simp add: CBS_asn1_oid_to_text_def)
qed

text \<open>
  C5. Printing undoes parsing. For an identifier whose first component is 0, 1 or 2, with a second one of
  at most 39 under 0 and 1, and components of 64 bits (the second such that adding 80 stays within 64
  bits), \<open>CBB_add_asn1_oid_from_text\<close> on its dotted decimal text adds the DER contents of the
  identifier to a new builder, and \<open>CBS_asn1_oid_to_text\<close> on these contents returns that text again,
  with a terminating zero, when memory can be allocated.
\<close>

theorem oid_text_roundtrip:
  assumes "oid_valid ns" and "length ns < 2 ^ 32" and "\<forall>i. next_ok a i" and "\<forall>i. next_ok a' i" and "CBB_init 0 cap a = Some s"
  shows "\<exists>s1 m n s2 t. CBB_add_asn1_oid_from_text 0 (dotted ns) (of_nat (length (dotted ns))) s = (Some (), s1)
    \<and> CBB_finish 0 True True s1 = (Some (Some m, n), s2) \<and> take (unat n) m = oid_enc ns
    \<and> CBS_asn1_oid_to_text (CBS_init m n) a' = Some t \<and> take (length (dotted ns) + 1) t = dotted ns @ [0]"
proof -
  have lim: "length (oid_enc ns) < 2 ^ 62" "length (dotted ns) < 2 ^ 64"
    using oid_enc_length [OF assms(1)] dotted_length [OF assms(1)] assms(2) by simp_all
  have y: "yields sview sroom s (CBB_add_asn1_oid_from_text 0 (dotted ns) (of_nat (length (dotted ns))) s) True (length (oid_enc ns)) [(0, Top, oid_enc ns)]"
    using oid_from_text_yields [OF assms(1), of s "[]" 0 Top "[]" "[]"] CBB_init_view [OF assms(5)] lim(2) by simp
  then obtain s1 where s1: "CBB_add_asn1_oid_from_text 0 (dotted ns) (of_nat (length (dotted ns))) s = (Some (), s1)" "sview s1 [(0, Top, oid_enc ns)]"
    by (rule sw.success) (use CBB_init_room [OF assms(5,3) lim(1)] in simp_all)
  then have "sroom s1 0" using y CBB_init_room [OF assms(5,3) lim(1)] by simp
  then obtain m n s2 where f: "CBB_finish 0 True True s1 = (Some (m, n), s2)"
      "take (unat n) (case m of None \<Rightarrow> [] | Some b \<Rightarrow> b) = oid_enc ns" "unat n = length (oid_enc ns)"
    using finish_contents [OF s1(2)] by (cases "CBB_finish 0 True True s1"; cases "fst (CBB_finish 0 True True s1)") auto
  moreover have "oid_enc ns \<noteq> []" using assms(1) by (cases ns rule: oid_valid.cases) auto
  ultimately obtain m' where m': "m = Some m'" "take (unat n) m' = oid_enc ns" by (cases m) auto
  then have "unat n \<le> length m'" using f(3) by (metis length_take min.cobounded1)
  then have "cbs_view (CBS_init m' n) (oid_enc ns)" using m'(2) by (simp add: cbs_view_def CBS_init_def cbs_ok_def cbs_bytes_def)
  from oid_to_text [OF assms(1) this assms(4,2)] show ?thesis using s1(1) f(1) m' by blast
qed

theorem oid_text_roundtrip_witness:
  "\<exists>s1 m n s2 t. CBB_add_asn1_oid_from_text 0 [50, 46, 49, 46, 51, 52] 6 start_state = (Some (), s1)
    \<and> CBB_finish 0 True True s1 = (Some (Some m, n), s2) \<and> take (unat n) m = [81, 34]
    \<and> CBS_asn1_oid_to_text (CBS_init m n) ok_heap = Some t \<and> take 7 t = [50, 46, 49, 46, 51, 52, 0]"
proof -
  have "dotted [2, 1, 34] = [50, 46, 49, 46, 51, 52]" by (simp add: decimal.simps)
  moreover have "oid_enc [2, 1, 34] = [81, 34]" by (simp add: base128_enc_def b128_hi.simps)
  moreover have "\<forall>i. next_ok ok_heap i" by (simp add: ok_heap_def)
  moreover have "length [50, 46, 49, 46, 51, 52 :: u8] + 1 = 7" by simp
  moreover have "of_nat (length [50, 46, 49, 46, 51, 52 :: u8]) = (6 :: size_t)" by simp
  ultimately show ?thesis
    using oid_text_roundtrip [of "[2, 1, 34]" ok_heap ok_heap 4 start_state, OF _ _ _ _ start_state(1)]
    by (simp del: length_Cons One_nat_def take_Suc_Cons dotted.simps oid_enc.simps)
qed

end
