(* ===== verification/Qsort.thy ===== *)
theory Qsort
  imports C_Prelude "HOL-Library.Multiset"
begin

section \<open>The contract of the C library's qsort\<close>

text \<open>
  \<open>qsort\<close> is a parameter of the components that sort (\<open>Stack\<close>, \<open>Set_Of\<close>). What they rely on is what the C
  standard documents: the array is permuted, and it is in ascending order when the comparison function
  orders its elements. Insertion sort shows that the contract can be kept.
\<close>

text \<open>A comparison function that orders a set: signs are antisymmetric and \<open>\<le>\<close> is transitive.\<close>

definition cmp_order_on :: "'a set \<Rightarrow> ('a \<Rightarrow> 'a \<Rightarrow> int) \<Rightarrow> bool" where
  "cmp_order_on A f \<longleftrightarrow> (\<forall>x \<in> A. \<forall>y \<in> A. f x y < 0 \<longleftrightarrow> f y x > 0)
     \<and> (\<forall>x \<in> A. \<forall>y \<in> A. \<forall>z \<in> A. f x y \<le> 0 \<longrightarrow> f y z \<le> 0 \<longrightarrow> f x z \<le> 0)"

abbreviation cmp_order :: "('a \<Rightarrow> 'a \<Rightarrow> int) \<Rightarrow> bool" where
  "cmp_order \<equiv> cmp_order_on UNIV"

definition in_order :: "('a \<Rightarrow> 'a \<Rightarrow> int) \<Rightarrow> 'a list \<Rightarrow> bool" where
  "in_order f xs \<longleftrightarrow> sorted_wrt (\<lambda>x y. f x y \<le> 0) xs"

definition qsort_ok :: "(('a \<Rightarrow> 'a \<Rightarrow> int) \<Rightarrow> 'a list \<Rightarrow> 'a list) \<Rightarrow> bool" where
  "qsort_ok qs \<longleftrightarrow> (\<forall>f xs. mset (qs f xs) = mset xs \<and> (cmp_order_on (set xs) f \<longrightarrow> in_order f (qs f xs)))"

lemma cmp_order_on_subset: "cmp_order_on A f \<Longrightarrow> B \<subseteq> A \<Longrightarrow> cmp_order_on B f"
  unfolding cmp_order_on_def by blast

lemma in_order_delete: "in_order f xs \<Longrightarrow> in_order f (take w xs @ drop (w + 1) xs)"
proof -
  assume "in_order f xs"
  then have "sorted_wrt (\<lambda>x y. f x y \<le> 0) (take w xs @ drop w xs)" by (simp add: in_order_def)
  then have "sorted_wrt (\<lambda>x y. f x y \<le> 0) (take w xs @ tl (drop w xs))"
    unfolding sorted_wrt_append by (cases "drop w xs") auto
  then show ?thesis by (simp add: in_order_def drop_Suc tl_drop)
qed

subsection \<open>Insertion sort\<close>

fun isort_insert :: "('a \<Rightarrow> 'a \<Rightarrow> int) \<Rightarrow> 'a \<Rightarrow> 'a list \<Rightarrow> 'a list" where
  "isort_insert f x [] = [x]"
| "isort_insert f x (y # ys) = (if f x y \<le> 0 then x # y # ys else y # isort_insert f x ys)"

definition isort :: "('a \<Rightarrow> 'a \<Rightarrow> int) \<Rightarrow> 'a list \<Rightarrow> 'a list" where
  "isort f xs = foldr (isort_insert f) xs []"

lemma isort_insert_mset: "mset (isort_insert f x xs) = add_mset x (mset xs)"
  by (induction xs) auto

lemma isort_insert_set: "set (isort_insert f x xs) = insert x (set xs)"
  using isort_insert_mset [of f x xs] by (metis set_mset_add_mset_insert set_mset_mset)

lemma isort_mset: "mset (isort f xs) = mset xs"
  by (induction xs) (simp_all add: isort_def isort_insert_mset)

lemma isort_insert_order: "cmp_order_on (insert x (set xs)) f \<Longrightarrow> in_order f xs \<Longrightarrow> in_order f (isort_insert f x xs)"
proof (induction xs)
  case (Cons y ys)
  have yx: "f y x \<le> 0" if "\<not> f x y \<le> 0" using Cons.prems(1) that by (auto simp: cmp_order_on_def)
  have xz: "f x z \<le> 0" if "f x y \<le> 0" "z \<in> set ys" for z
  proof -
    have "f y z \<le> 0" using Cons.prems(2) that(2) by (simp add: in_order_def)
    then show ?thesis using Cons.prems(1) that unfolding cmp_order_on_def by (meson insertI1 insertI2 list.set_intros)
  qed
  have "in_order f (isort_insert f x ys)"
    by (rule Cons.IH [OF cmp_order_on_subset [OF Cons.prems(1)]]) (use Cons.prems(2) in \<open>auto simp: in_order_def\<close>)
  then show ?case using Cons.prems(2) yx xz by (simp add: in_order_def isort_insert_set)
qed (simp add: in_order_def)

lemma isort_order: "cmp_order_on (set xs) f \<Longrightarrow> in_order f (isort f xs)"
proof (induction xs)
  case (Cons x xs)
  have "in_order f (isort f xs)" using Cons.IH cmp_order_on_subset [OF Cons.prems] by auto
  moreover have "set (isort f xs) = set xs" using isort_mset [of f xs] by (metis set_mset_mset)
  ultimately show ?case using isort_insert_order [of x "isort f xs" f] Cons.prems by (simp add: isort_def)
qed (simp add: isort_def in_order_def)

lemma isort_ok: "qsort_ok isort"
  by (simp add: qsort_ok_def isort_mset isort_order)

end
