(* ===== verification/Set_Of.thy ===== *)
theory Set_Of
  imports Cbb Qsort "HOL-Library.List_Lexorder"
begin

section \<open>Sorting the elements of a SET OF (crypto/bytestring/cbb.c)\<close>

text \<open>
  \<open>CBB_flush_asn1_set_of\<close> sorts the elements inside a \<open>CBB\<close>, as DER demands of a SET OF. The elements are
  split off a copy of the contents, sorted with \<open>qsort\<close> (the parameter \<open>qs\<close>) and written back. The order
  of byte strings in the theorems is that of \<open>List_Lexorder\<close>: lexicographic, a proper prefix comes first.
\<close>

definition compare_set_of_element :: "cbs \<Rightarrow> cbs \<Rightarrow> int" where
  "compare_set_of_element a b =
     (let a_len = cbs_len a; b_len = cbs_len b;
          min_len = (if a_len < b_len then a_len else b_len);
          ret = OPENSSL_memcmp (cbs_data a) (cbs_data b) min_len
      in if ret \<noteq> 0 then ret
         else if a_len = b_len then 0
         else if a_len < b_len then -1 else 1)"

text \<open>The loop that counts the children.\<close>

function count_children :: "size_t \<Rightarrow> cbs \<Rightarrow> size_t option" where
  "count_children num_children cbs =
     (if cbs_len cbs \<noteq> 0
      then case CBS_get_any_asn1_element cbs of
             (None, _) \<Rightarrow> None
           | (Some _, cbs') \<Rightarrow> count_children (num_children + 1) cbs'
      else Some num_children)"
  by pat_completeness auto
termination
  by (relation "measure (\<lambda>(_, c). unat (cbs_len c))") (auto dest: CBS_get_any_asn1_element_decreases [OF sym])

declare count_children.simps [simp del]

text \<open>The loop that fills the array of children.\<close>

fun parse_children :: "nat \<Rightarrow> cbs \<Rightarrow> cbs list option" where
  "parse_children 0 cbs = Some []"
| "parse_children (Suc n) cbs =
     (case CBS_get_any_asn1_element cbs of
        (None, _) \<Rightarrow> None
      | (Some (child, _), cbs') \<Rightarrow> map_option (\<lambda>cs. child # cs) (parse_children n cbs'))"

fun add_children :: "nat \<Rightarrow> cbs list \<Rightarrow> cbb_st \<Rightarrow> unit option \<times> cbb_st" where
  "add_children h [] s = (Some (), s)"
| "add_children h (c # cs) s =
     and_then (CBB_add_bytes h (cbs_data c) (cbs_len c) s) (\<lambda>_ s. add_children h cs s)"

definition sizeof_CBS :: size_t where
  "sizeof_CBS = 16"

text \<open>The children are parsed out of a copy of the contents, so that the builder may be rewound.\<close>

definition CBB_flush_asn1_set_of :: "((cbs \<Rightarrow> cbs \<Rightarrow> int) \<Rightarrow> cbs list \<Rightarrow> cbs list) \<Rightarrow> nat \<Rightarrow> cbb_st \<Rightarrow> unit option \<times> cbb_st" where
  "CBB_flush_asn1_set_of qs h s =
     and_then (CBB_flush h s) (\<lambda>_ s.
       case cbb_find h (chain s) of
         None \<Rightarrow> (None, s)
       | Some (_, cbb, _) \<Rightarrow>
           let data = CBB_data cbb (base s); buf_len = CBB_len cbb (base s)
           in case count_children 0 (CBS_init data buf_len) of
                None \<Rightarrow> (None, s)
              | Some num_children \<Rightarrow>
                  if num_children < 2 then (Some (), s)
                  else if num_children > (- 1) div sizeof_CBS then (None, s)
                  else
                    let (dup, a) = OPENSSL_memdup data buf_len (heap (base s));
                        (children, a) = OPENSSL_malloc (num_children * sizeof_CBS) a;
                        s = s\<lparr>base := (base s)\<lparr>heap := a\<rparr>\<rparr>
                    in if dup = None \<or> children = None then (None, s)
                       else case parse_children (unat num_children) (CBS_init (the dup) buf_len) of
                              None \<Rightarrow> (None, s)
                            | Some cs \<Rightarrow>
                                add_children h (qs compare_set_of_element cs)
                                  (s\<lparr>base := (base s)\<lparr>blen := offset cbb + ucast (pending_len_len cbb)\<rparr>\<rparr>))"

subsection \<open>Elements\<close>

definition der_elem :: "bytes \<Rightarrow> bool" where
  "der_elem e \<longleftrightarrow> (\<exists>t x. t < 2 ^ 32 \<and> length x < 2 ^ 32 \<and> e = der_enc t x)"

definition get_elem :: "cbs \<Rightarrow> cbs option \<times> cbs" where
  "get_elem c = and_then (CBS_get_any_asn1_element c) (\<lambda>(out, _) c'. (Some out, c'))"

definition p_elem :: "bytes \<Rightarrow> bytes parse" where
  "p_elem bs = map_option (\<lambda>((x, _), rest). (x, rest)) (p_element False bs)"

lemma p_elem_iff: "p_elem bs = Some (e, rest) \<longleftrightarrow> der_elem e \<and> bs = e @ rest"
proof
  assume "p_elem bs = Some (e, rest)"
  then show "der_elem e \<and> bs = e @ rest"
    by (auto simp: p_elem_def p_element_der_iff der_elem_def)
next
  assume "der_elem e \<and> bs = e @ rest"
  then obtain t x where "t < 2 ^ 32" "length x < 2 ^ 32" "e = der_enc t x" "bs = der_enc t x @ rest" by (auto simp: der_elem_def)
  then show "p_elem bs = Some (e, rest)" using p_element_der_complete [of t x rest] by (simp add: p_elem_def)
qed

lemma get_elem_refines: "cbs_view c bs \<Longrightarrow> refines cbs_view (get_elem c) (p_elem bs)"
  using CBS_get_any_asn1_element_refines [of c bs]
  by (cases "CBS_get_any_asn1_element c"; cases "fst (CBS_get_any_asn1_element c)")
    (auto simp: get_elem_def p_elem_def refines_def and_then_def)

interpretation r_elem: cbs_codec get_elem cbs_view p_elem "\<lambda>e. e" der_elem
  by unfold_locales (simp_all add: get_elem_refines p_elem_iff)

lemma get_elem_None: "fst (get_elem c) = None \<longleftrightarrow> fst (CBS_get_any_asn1_element c) = None"
  by (auto simp: get_elem_def and_then_def split: prod.splits option.splits)

lemma get_elem_Some: "get_elem c = (Some out, c') \<longleftrightarrow> (\<exists>r. CBS_get_any_asn1_element c = (Some (out, r), c'))"
  by (auto simp: get_elem_def and_then_Some_iff)

lemma der_elem_ne: "der_elem e \<Longrightarrow> e \<noteq> []"
  by (auto simp: der_elem_def der_enc_def len_enc_def)

lemma count_children_sound:
  "cbs_view c bs \<Longrightarrow> count_children n c = Some k \<Longrightarrow>
   \<exists>es. list_all der_elem es \<and> bs = concat es \<and> k = n + of_nat (length es)"
proof (induction n c arbitrary: bs rule: count_children.induct)
  case (1 n c)
  show ?case
  proof (cases "cbs_len c = 0")
    case True
    then have "bs = []" using cbs_view_len [OF "1.prems"(1)] by simp
    then show ?thesis using "1.prems"(2) True by (intro exI [of _ "[]"]) (simp add: count_children.simps [of n c])
  next
    case False
    then obtain out r c' where g: "CBS_get_any_asn1_element c = (Some (out, r), c')" "count_children (n + 1) c' = Some k"
      using "1.prems"(2) by (auto simp: count_children.simps [of n c] split: prod.splits option.splits)
    then obtain e rest where e: "der_elem e" "bs = e @ rest" "cbs_view c' rest"
      using r_elem.read_sound [OF "1.prems"(1)] get_elem_Some by metis
    from "1.IH" [OF False g(1) [symmetric] refl e(3) g(2)]
    obtain es where "list_all der_elem es" "rest = concat es" "k = n + 1 + of_nat (length es)" by auto
    then show ?thesis using e by (intro exI [of _ "e # es"]) simp
  qed
qed

lemma read_elem_view:
  assumes "cbs_view c (e @ rest)" and "der_elem e"
  obtains out r c' where "CBS_get_any_asn1_element c = (Some (out, r), c')" "cbs_view out e" "cbs_view c' rest"
  using r_elem.read_enc [OF assms] get_elem_Some by metis

lemma count_children_complete:
  "list_all der_elem es \<Longrightarrow> cbs_view c (concat es) \<Longrightarrow> count_children n c = Some (n + of_nat (length es))"
proof (induction es arbitrary: n c)
  case Nil
  then have "cbs_len c = 0" using cbs_view_len [of c "[]"] by (simp add: unat_eq_0)
  then show ?case by (subst count_children.simps) simp
next
  case (Cons e es)
  then have v: "cbs_view c (e @ concat es)" "der_elem e" by simp_all
  obtain out r c' where g: "CBS_get_any_asn1_element c = (Some (out, r), c')" "cbs_view c' (concat es)"
    by (rule read_elem_view [OF v])
  have "cbs_len c \<noteq> 0" using cbs_view_len [OF v(1)] der_elem_ne [OF v(2)] by auto
  then show ?case using g Cons.IH [OF _ g(2)] Cons.prems(1) by (subst count_children.simps) (simp add: add.assoc)
qed

lemma parse_children_complete:
  "list_all der_elem es \<Longrightarrow> cbs_view c (concat es) \<Longrightarrow> \<exists>cs. parse_children (length es) c = Some cs \<and> list_all2 cbs_view cs es"
proof (induction es arbitrary: c)
  case (Cons e es)
  then have v: "cbs_view c (e @ concat es)" "der_elem e" by simp_all
  obtain out r c' where g: "CBS_get_any_asn1_element c = (Some (out, r), c')" "cbs_view out e" "cbs_view c' (concat es)"
    by (rule read_elem_view [OF v])
  then show ?case using Cons.IH [OF _ g(3)] Cons.prems(1) by auto
qed simp

subsection \<open>Order\<close>

lemma memcmp_lex:
  "length x \<ge> n \<Longrightarrow> length y \<ge> n \<Longrightarrow>
   (memcmp x y n < 0 \<longleftrightarrow> take n x < take n y) \<and> (memcmp x y n = 0 \<longleftrightarrow> take n x = take n y)"
proof (induction x y n rule: memcmp.induct)
  case (1 a as b bs n)
  then show ?case by (auto simp: not_less)
qed auto

lemma lex_take:
  fixes x y :: bytes
  shows "n = min (length x) (length y) \<Longrightarrow>
    (x < y \<longleftrightarrow> take n x < take n y \<or> take n x = take n y \<and> length x < length y)
    \<and> (x = y \<longleftrightarrow> take n x = take n y \<and> length x = length y)"
proof (induction x y arbitrary: n rule: list_induct2')
  case (4 a as b bs)
  then obtain m where m: "n = Suc m" "m = min (length as) (length bs)" by simp
  from "4.IH" [OF m(2)] show ?case by (auto simp: m(1) simp del: min_less_iff_conj)
qed auto

lemma compare_set_of_element_lex:
  assumes "cbs_view a x" and "cbs_view b y"
  shows "compare_set_of_element a b < 0 \<longleftrightarrow> x < y" "compare_set_of_element a b = 0 \<longleftrightarrow> x = y"
proof -
  let ?n = "if cbs_len a < cbs_len b then cbs_len a else cbs_len b"
  note l = cbs_view_len [OF assms(1)] cbs_view_len [OF assms(2)]
  then have n: "unat ?n = min (length x) (length y)" by (simp add: word_less_nat_alt min_def)
  have d: "length x \<le> length (cbs_data a)" "length y \<le> length (cbs_data b)" "x = take (length x) (cbs_data a)" "y = take (length y) (cbs_data b)"
    using assms l by (auto simp: cbs_view_def cbs_ok_def cbs_bytes_def)
  then have t: "take (unat ?n) (cbs_data a) = take (unat ?n) x" "take (unat ?n) (cbs_data b) = take (unat ?n) y"
    unfolding n by (metis min.cobounded1 min.cobounded2 take_take min.absorb1)+
  have m: "OPENSSL_memcmp (cbs_data a) (cbs_data b) ?n < 0 \<longleftrightarrow> take (unat ?n) x < take (unat ?n) y"
      "OPENSSL_memcmp (cbs_data a) (cbs_data b) ?n = 0 \<longleftrightarrow> take (unat ?n) x = take (unat ?n) y"
    using memcmp_lex [of "unat ?n" "cbs_data a" "cbs_data b"] d(1,2) n unfolding OPENSSL_memcmp_def t by auto
  have w: "cbs_len a = cbs_len b \<longleftrightarrow> length x = length y" "cbs_len a < cbs_len b \<longleftrightarrow> length x < length y"
    using l by (simp_all add: word_unat_eq_iff word_less_nat_alt)
  let ?r = "OPENSSL_memcmp (cbs_data a) (cbs_data b) ?n"
  have c: "compare_set_of_element a b = (if ?r \<noteq> 0 then ?r else if length x = length y then 0 else if length x < length y then -1 else 1)"
    unfolding compare_set_of_element_def Let_def w by simp
  show "compare_set_of_element a b < 0 \<longleftrightarrow> x < y" "compare_set_of_element a b = 0 \<longleftrightarrow> x = y"
    unfolding c using lex_take [OF n] m by auto
qed

lemma compare_set_of_order: "list_all2 cbs_view cs es \<Longrightarrow> cmp_order_on (set cs) compare_set_of_element"
proof -
  assume l: "list_all2 cbs_view cs es"
  have v: "\<exists>x. cbs_view c x" if "c \<in> set cs" for c using l that by (auto simp: list_all2_conv_all_nth in_set_conv_nth)
  have le: "compare_set_of_element a b \<le> 0 \<longleftrightarrow> x \<le> y" if "cbs_view a x" "cbs_view b y" for a b x y
    unfolding le_less [of x y] le_less [of "compare_set_of_element a b" 0] compare_set_of_element_lex [OF that] ..
  have gt: "compare_set_of_element a b > 0 \<longleftrightarrow> y < x" if "cbs_view a x" "cbs_view b y" for a b x y
    using le [OF that] not_le [of x y] not_le [of "compare_set_of_element a b" 0] by blast
  have 1: "(compare_set_of_element a b < 0) = (0 < compare_set_of_element b a)" if "a \<in> set cs" "b \<in> set cs" for a b
  proof -
    from v [OF that(1)] v [OF that(2)] obtain x y where xy: "cbs_view a x" "cbs_view b y" by blast
    show ?thesis using compare_set_of_element_lex(1) [OF xy] gt [OF xy(2,1)] by simp
  qed
  have 2: "compare_set_of_element a c \<le> 0"
    if "a \<in> set cs" "b \<in> set cs" "c \<in> set cs" "compare_set_of_element a b \<le> 0" "compare_set_of_element b c \<le> 0" for a b c
  proof -
    from v [OF that(1)] v [OF that(2)] v [OF that(3)] obtain x y z where v3: "cbs_view a x" "cbs_view b y" "cbs_view c z" by blast
    have "x \<le> y" "y \<le> z" using that(4,5) le [OF v3(1,2)] le [OF v3(2,3)] by simp_all
    then have "x \<le> z" by (rule order_trans)
    then show ?thesis using le [OF v3(1,3)] by simp
  qed
  show ?thesis unfolding cmp_order_on_def by (intro conjI ballI impI, erule (1) 1, erule (4) 2)
qed

lemma view_bytes: "cbs_view c x \<Longrightarrow> cbs_bytes c = x"
  by (simp add: cbs_view_def)

lemma qsort_children:
  assumes "list_all2 cbs_view cs es" and "qsort_ok qs"
  shows "list_all cbs_ok (qs compare_set_of_element cs)" "map cbs_bytes (qs compare_set_of_element cs) = sort es"
proof -
  let ?q = "qs compare_set_of_element cs"
  have q: "mset ?q = mset cs" "in_order compare_set_of_element ?q"
    using assms(2) compare_set_of_order [OF assms(1)] by (auto simp: qsort_ok_def)
  have ok: "\<forall>c \<in> set cs. cbs_ok c"
    using assms(1) by (auto simp: list_all2_conv_all_nth in_set_conv_nth cbs_view_def)
  moreover have s: "set ?q = set cs" using q(1) by (metis set_mset_mset)
  ultimately show "list_all cbs_ok ?q" by (simp add: list_all_iff)
  have "map cbs_bytes cs = es" using assms(1) by (induction rule: list_all2_induct) (simp_all add: view_bytes)
  then have "mset (map cbs_bytes ?q) = mset es" using q(1) by (metis mset_map)
  moreover have "sorted_wrt (\<lambda>a b. cbs_bytes a \<le> cbs_bytes b) ?q"
  proof (rule sorted_wrt_mono_rel [OF _ q(2) [unfolded in_order_def]])
    fix a b assume "a \<in> set ?q" "b \<in> set ?q" and "compare_set_of_element a b \<le> 0"
    then show "cbs_bytes a \<le> cbs_bytes b"
      using compare_set_of_element_lex [OF cbs_view_self cbs_view_self, of a b] ok s by (auto simp: le_less)
  qed
  then have "sorted (map cbs_bytes ?q)" by (simp add: sorted_map)
  ultimately show "map cbs_bytes ?q = sort es" by (metis properties_for_sort)
qed

subsection \<open>The builder\<close>

lemma add_children_yields:
  "list_all cbs_ok cs \<Longrightarrow> sview s (up @ [(h, p, x)]) \<Longrightarrow>
   yields sview sroom s (add_children h cs s) True (length (concat (map cbs_bytes cs))) (up @ [(h, p, x @ concat (map cbs_bytes cs))])"
proof (induction cs arbitrary: s x)
  case (Cons c cs)
  have ok: "unat (cbs_len c) \<le> length (cbs_data c)" using Cons.prems(1) by (simp add: cbs_ok_def)
  then have b: "take (unat (cbs_len c)) (cbs_data c) = cbs_bytes c" "length (cbs_bytes c) = unat (cbs_len c)"
    by (simp_all add: cbs_bytes_def)
  have "yields sview sroom s (and_then (CBB_add_bytes h (cbs_data c) (cbs_len c) s) (\<lambda>_ s. add_children h cs s)) (True \<and> True)
      (length (cbs_bytes c) + length (concat (map cbs_bytes cs))) (up @ [(h, p, (x @ cbs_bytes c) @ concat (map cbs_bytes cs))])"
  proof (rule sw.bind)
    show "yields sview sroom s (CBB_add_bytes h (cbs_data c) (cbs_len c) s) True (length (cbs_bytes c)) (up @ [(h, p, x @ cbs_bytes c)])"
      using CBB_add_bytes_yields [of s up h p x "[]", OF _ ok] Cons.prems(2) b by simp
    show "yields sview sroom s1 (add_children h cs s1) True (length (concat (map cbs_bytes cs))) (up @ [(h, p, (x @ cbs_bytes c) @ concat (map cbs_bytes cs))])"
      if "sview s1 (up @ [(h, p, x @ cbs_bytes c)])" for s1 using Cons.IH [OF _ that] Cons.prems(1) by simp
  qed
  then show ?case by simp
qed simp

text \<open>The struct of the last frame, the contents it shows and the state rewound to its start.\<close>

lemma last_frame:
  assumes "sview s (up @ [(h, p, x)])"
  obtains cs c where "cbb_find h (chain s) = Some (cs, c, [])" "cbs_view (CBS_init (CBB_data c (base s)) (CBB_len c (base s))) x"
    "\<And>a. sview (s\<lparr>base := (base s)\<lparr>heap := a, blen := offset c + ucast (pending_len_len c)\<rparr>\<rparr>) (up @ [(h, p, [])])"
    "\<And>a. sroom (s\<lparr>base := (base s)\<lparr>heap := a, blen := offset c + ucast (pending_len_len c)\<rparr>\<rparr>) (length x)"
proof -
  obtain cs c ds where f: "cbb_find h (chain s) = Some (cs, c, ds)" "chain s = cs @ c # ds"
      "frames_at 0 cs up" "frames_at (length (layout up)) [c] [(h, p, x)]"
      "frames_at (length (layout (up @ [(h, p, x)]))) ds []" "wf_frames (up @ [(h, p, x)])"
    by (rule sview_split [of s up h p x "[]"]) (use assms in simp_all)
  have ds: "ds = []" using f(5) by (cases ds) auto
  let ?b = "base s" and ?n = "prefix_len p" and ?o = "offset c + ucast (pending_len_len c)"
  have c: "addr c = h" "unat (offset c) = length (layout up)" "pending_len_len c = ?n" "pending_is_asn1 c = (p = Asn1_len)" "is_child c = (p \<noteq> Top)"
    using f(4) by auto
  have v: "bview ?b (layout up @ replicate (unat ?n) 0 @ x)" using assms by (simp add: sview_def)
  have len: "unat (blen ?b) = length (layout up) + unat ?n + length x" using bview_len [OF v] by simp
  have "length (layout up) + unat ?n < 2 ^ 64" using len unat_lt_len [of "blen ?b"] by simp
  then have o: "unat ?o = length (layout up) + unat ?n" using c(2,3) by (simp add: unat_word_ariths)
  have sub: "unat (CBB_len c ?b) = length x"
    using len o by (simp add: CBB_len_def diff_diff_eq unat_sub word_le_nat_alt)
  have tk: "take (unat (blen ?b)) (buf_mem ?b) = layout up @ replicate (unat ?n) 0 @ x" "unat (blen ?b) \<le> length (buf_mem ?b)" "unat (blen ?b) \<le> unat (bcap ?b)"
    "\<not> berror ?b" "unat (bcap ?b) = length (buf_mem ?b)"
    using v by (auto simp: bview_def)
  have "take (length x) (drop (unat ?o) (buf_mem ?b)) = drop (unat ?o) (take (unat (blen ?b)) (buf_mem ?b))"
    using len o by (simp add: drop_take)
  then have 1: "cbs_view (CBS_init (CBB_data c ?b) (CBB_len c ?b)) x"
    unfolding tk(1) using sub o tk(2) len by (simp add: cbs_view_def cbs_ok_def cbs_bytes_def CBS_init_def CBB_data_def)
  have "take (unat ?o) (buf_mem ?b) = take (unat ?o) (take (unat (blen ?b)) (buf_mem ?b))" using len o by (simp add: min_def)
  then have "take (unat ?o) (buf_mem ?b) = layout up @ replicate (unat ?n) 0" unfolding tk(1) using o by simp
  then have 2: "bview (?b\<lparr>heap := a, blen := ?o\<rparr>) (layout up @ replicate (unat ?n) 0)" for a
    using tk len o by (simp add: bview_def buf_mem_def)
  have "frames_at 0 (chain s) (up @ [(h, p, [])])"
    using f(2,3) c ds frames_at_addr [OF f(3)] map_eq_imp_length_eq [of addr cs fst up] by (simp add: frames_at_append)
  moreover have "wf_frames (up @ [(h, p, [])])" using f(6) by (cases up) (auto simp: wf_frames_def pending_def)
  ultimately have 3: "sview (s\<lparr>base := ?b\<lparr>heap := a, blen := ?o\<rparr>\<rparr>) (up @ [(h, p, [])])" for a
    using 2 [of a] by (simp add: sview_def)
  have 4: "sroom (s\<lparr>base := ?b\<lparr>heap := a, blen := ?o\<rparr>\<rparr>) (length x)" for a
    using o len tk(3) by (simp add: sroom_def room_def)
  show thesis using that f(1) ds 1 3 4 by blast
qed

lemma der_elemI: "t < 2 ^ 32 \<Longrightarrow> length x < 2 ^ 32 \<Longrightarrow> der_elem (der_enc t x)"
  by (auto simp: der_elem_def)

lemma elems_length: "list_all der_elem es \<Longrightarrow> length es \<le> length (concat es)"
proof (induction es)
  case (Cons e es)
  then show ?case using der_elem_ne [of e] by (cases e) auto
qed simp

lemma memdup_Some: "OPENSSL_memdup m n a = (Some d, a') \<Longrightarrow> d = take (unat n) m"
  by (auto simp: OPENSSL_memdup_def and_then_Some_iff split: if_splits)

lemma set_of_alloc:
  assumes "\<forall>i. next_ok a i" and "unat n < 2 ^ 58" and "OPENSSL_memdup m n a = (dup, a1)" and "OPENSSL_malloc (k * sizeof_CBS) a1 = (ch, a2)"
    and "unat k \<le> unat n" and "2 \<le> unat k"
  shows "\<not> (k > (- 1) div sizeof_CBS \<or> dup = None \<or> ch = None)"
proof -
  have "unat ((- 1 :: size_t) div 16) = 2 ^ 60 - 1" by (simp add: unat_div unsigned_minus_1_eq_mask mask_eq_exp_minus_1)
  then have 1: "\<not> k > (- 1) div sizeof_CBS" using assms(2,5) by (simp add: sizeof_CBS_def word_less_nat_alt)
  have n: "n \<noteq> 0" using assms(5,6) by auto
  obtain r a' where r: "OPENSSL_malloc n a = (r, a')" by fastforce
  then obtain b where b: "r = Some b" using OPENSSL_malloc_None [of n a a'] assms(1,2) by (cases r) auto
  then have "dup \<noteq> None" "a1 = a'" using assms(3) r n by (auto simp: OPENSSL_memdup_def)
  moreover have "\<forall>i. next_ok a1 i" using OPENSSL_malloc_Some [of n a b a'] r b assms(1) \<open>a1 = a'\<close> by simp
  moreover have "unat (k * sizeof_CBS) < 2 ^ 63" using assms(2,5) by (simp add: sizeof_CBS_def unat_word_ariths)
  ultimately show ?thesis using 1 OPENSSL_malloc_None [of "k * sizeof_CBS" a1 a2] assms(4) by auto
qed

text \<open>\<open>CBB_flush_asn1_set_of\<close> behind its call of \<open>CBB_flush\<close>.\<close>

lemma flushed_set_of:
  assumes v: "sview s (up @ [(h, p, x)])" and qs: "qsort_ok qs" and fl: "CBB_flush h s0 = (Some u, s)"
  shows "case CBB_flush_asn1_set_of qs h s0 of
      (Some _, s') \<Rightarrow> \<exists>es. list_all der_elem es \<and> x = concat es \<and> sview s' (up @ [(h, p, concat (sort es))])
    | (None, _) \<Rightarrow> (\<nexists>es. list_all der_elem es \<and> x = concat es) \<or> 2 ^ 58 \<le> length x \<or> \<not> (\<forall>i. next_ok (heap (base s)) i)"
proof -
  obtain cs c where c: "cbb_find h (chain s) = Some (cs, c, [])" "cbs_view (CBS_init (CBB_data c (base s)) (CBB_len c (base s))) x"
    "\<And>a. sview (s\<lparr>base := (base s)\<lparr>heap := a, blen := offset c + ucast (pending_len_len c)\<rparr>\<rparr>) (up @ [(h, p, [])])"
    "\<And>a. sroom (s\<lparr>base := (base s)\<lparr>heap := a, blen := offset c + ucast (pending_len_len c)\<rparr>\<rparr>) (length x)"
    using last_frame [OF v] by metis
  let ?d = "CBB_data c (base s)" and ?n = "CBB_len c (base s)"
  have n: "unat ?n = length x" "take (unat ?n) ?d = x" using cbs_view_len [OF c(2)] view_bytes [OF c(2)] by (auto simp: CBS_init_def cbs_bytes_def)
  show ?thesis
  proof (cases "count_children 0 (CBS_init ?d ?n)")
    case None
    then have "\<nexists>es. list_all der_elem es \<and> x = concat es" using count_children_complete c(2) by (metis option.distinct(1))
    then show ?thesis using None fl c(1) by (simp add: CBB_flush_asn1_set_of_def)
  next
    case (Some k)
    from count_children_sound [OF c(2) Some] obtain es where es: "list_all der_elem es" "x = concat es" "k = of_nat (length es)" by auto
    have "length es < 2 ^ 64" using elems_length [OF es(1)] es(2) n(1) unat_lt_len [of ?n] by simp
    then have k: "unat k = length es" unfolding es(3) by (intro unat_of_nat_small) simp
    show ?thesis
    proof (cases "k < 2")
      case True
      then have "length es < 2" using k by (simp add: word_less_nat_alt)
      then have "sort es = es" by (cases es rule: remdups_adj.cases) auto
      then show ?thesis using True Some fl c(1) es v by (auto simp: CBB_flush_asn1_set_of_def)
    next
      case False
      obtain dup a1 where d: "OPENSSL_memdup ?d ?n (heap (base s)) = (dup, a1)" by fastforce
      obtain ch a2 where m: "OPENSSL_malloc (k * sizeof_CBS) a1 = (ch, a2)" by fastforce
      let ?fail = "k > (- 1) div sizeof_CBS \<or> dup = None \<or> ch = None"
      let ?s = "s\<lparr>base := (base s)\<lparr>heap := a2, blen := offset c + ucast (pending_len_len c)\<rparr>\<rparr>"
      show ?thesis
      proof (cases ?fail)
        case True
        have "2 ^ 58 \<le> length x \<or> \<not> (\<forall>i. next_ok (heap (base s)) i)"
          using set_of_alloc [OF _ _ d m] True k n(1) elems_length [OF es(1)] es(2) False by (cases "length x < 2 ^ 58") (auto simp: word_less_nat_alt)
        moreover have "fst (CBB_flush_asn1_set_of qs h s0) = None"
          using True Some fl c(1) False d m by (auto simp: CBB_flush_asn1_set_of_def Let_def)
        ultimately show ?thesis by (cases "CBB_flush_asn1_set_of qs h s0") simp
      next
        case nf: False
        then obtain dd where dd1: "dup = Some dd" by auto
        then have dd: "dup = Some dd" "dd = x" using memdup_Some [of ?d ?n "heap (base s)" dd a1] d n(2) by simp_all
        have "cbs_view (CBS_init dd ?n) (concat es)" using n dd es(2) by (simp add: cbs_view_def cbs_ok_def cbs_bytes_def CBS_init_def)
        then obtain ks where ks: "parse_children (length es) (CBS_init dd ?n) = Some ks" "list_all2 cbs_view ks es"
          using parse_children_complete [OF es(1)] by blast
        let ?q = "qs compare_set_of_element ks"
        have q: "list_all cbs_ok ?q" "map cbs_bytes ?q = sort es" using qsort_children [OF ks(2) qs] by auto
        have l: "length (concat (sort es)) = length x" using es(2) by (simp add: length_concat flip: sum_mset_sum_list)
        have e: "CBB_flush_asn1_set_of qs h s0 = add_children h ?q ?s"
          using nf Some fl c(1) False d m dd ks(1) k by (auto simp: CBB_flush_asn1_set_of_def Let_def)
        have y: "yields sview sroom ?s (add_children h ?q ?s) True (length x) (up @ [(h, p, concat (sort es))])"
          using add_children_yields [OF q(1) c(3) [of a2]] unfolding q(2) l by simp
        obtain s' where "add_children h ?q ?s = (Some (), s')" "sview s' (up @ [(h, p, concat (sort es))])"
          by (rule sw.success [OF y]) (use c(4) in auto)
        then show ?thesis using e es by auto
      qed
    qed
  qed
qed

text \<open>
  C4. \<open>CBB_flush_asn1_set_of\<close> sorts. On a \<open>CBB\<close> whose contents, after its pending children are closed,
  are a sequence of DER elements it leaves the same elements in ascending order of their encodings, and
  nothing else of the builder changes; this holds for every \<open>qsort\<close> that keeps its contract. It fails
  only when the children cannot be closed, when the contents are not such a sequence, or when memory
  runs out (contents of less than \<open>2 ^ 58\<close> bytes never overflow the size of the array of children).
\<close>

theorem CBB_flush_asn1_set_of_sorts:
  assumes "sview s (up @ (h, p, x) # below)" and "qsort_ok qs"
  shows "case CBB_flush_asn1_set_of qs h s of
      (Some _, s') \<Rightarrow> closable below
        \<and> (\<exists>es. list_all der_elem es \<and> x @ close below = concat es \<and> sview s' (up @ [(h, p, concat (sort es))]))
    | (None, _) \<Rightarrow> \<not> (closable below \<and> sroom s (length (close below) - length (layout below)))
        \<or> (\<nexists>es. list_all der_elem es \<and> x @ close below = concat es)
        \<or> 2 ^ 58 \<le> length (x @ close below)
        \<or> (\<exists>s1. CBB_flush h s = (Some (), s1) \<and> \<not> (\<forall>i. next_ok (heap (base s1)) i))"
proof -
  obtain r s1 where f: "CBB_flush h s = (r, s1)" by fastforce
  note y = CBB_flush_yields [OF assms(1), unfolded f]
  show ?thesis
  proof (cases r)
    case None
    then show ?thesis using y f by (simp add: CBB_flush_asn1_set_of_def)
  next
    case (Some u)
    then have "sview s1 (up @ [(h, p, x @ close below)])" "closable below" using y by simp_all
    then show ?thesis using flushed_set_of [OF _ assms(2), of s1 up h p "x @ close below" s u] f Some
      by (auto split: prod.splits option.splits)
  qed
qed

theorem CBB_flush_asn1_set_of_sorts_witness:
  "\<exists>s s'. CBB_add_bytes 0 [5, 0, 1, 1, 255] 5 start_state = (Some (), s)
     \<and> CBB_flush_asn1_set_of isort 0 s = (Some (), s') \<and> sview s' [(0, Top, [1, 1, 255, 5, 0])]"
proof -
  let ?x = "[5, 0, 1, 1, 255] :: bytes"
  have n: "unat (5 :: size_t) = 5" by simp
  have y: "yields sview sroom start_state (CBB_add_bytes 0 ?x 5 start_state) True 5 [(0, Top, ?x)]"
    using CBB_add_bytes_yields [of start_state "[]" 0 Top "[]" "[]" 5 ?x] start_state(2) unfolding n by simp
  then obtain s where s: "CBB_add_bytes 0 ?x 5 start_state = (Some (), s)" "sview s [(0, Top, ?x)]"
    by (rule sw.success) (simp_all add: start_state(3))
  have e: "der_elem [5, 0]" "der_elem [1, 1, 255]"
    using der_elemI [of 5 "[]"] der_elemI [of 1 "[255]"] by (simp_all add: der_enc_def tag_enc_def len_enc_def)
  have u: "es = [[5, 0], [1, 1, 255]]" if es: "list_all der_elem es" "concat es = ?x" for es
  proof -
    obtain a bs where a: "es = a # bs" "der_elem a" "a @ concat bs = [5, 0] @ [1, 1, 255]" using es by (cases es) auto
    from r_elem.prefix_free [OF a(2) e(1) a(3)] have b: "a = [5, 0]" "concat bs = [1, 1, 255]" by simp_all
    obtain c cs where c: "bs = c # cs" "der_elem c" "c @ concat cs = [1, 1, 255] @ []" using es(1) b(2) a(1) by (cases bs) auto
    from r_elem.prefix_free [OF c(2) e(2) c(3)] have d: "c = [1, 1, 255]" "concat cs = []" by simp_all
    have "cs = []" using d(2) es(1) a(1) c(1) der_elem_ne by (cases cs) auto
    then show ?thesis using a(1) b(1) c(1) d(1) by simp
  qed
  have so: "concat (sort [[5, 0], [1, 1, 255 :: u8]]) = [1, 1, 255, 5, 0]" by (simp add: less_list_code)
  have nx: "\<exists>es. list_all der_elem es \<and> ?x = concat es" using e by (intro exI [of _ "[[5, 0], [1, 1, 255]]"]) simp
  have hp: "next_ok (heap (base s1)) i" if "CBB_flush 0 s = (Some (), s1)" for s1 i
    using s(1) that start_state(1)
    by (auto simp: start_state_def CBB_init_def cbb_init_def OPENSSL_malloc_def malloc_turn_def ok_heap_def sizeof_cbb_buffer_st_def CBB_add_bytes_def CBB_flush_def flush_chain.simps
      and_then_def on_base_def cbb_buffer_add_def cbb_buffer_reserve_def Let_def OPENSSL_realloc_def write_at_def set_mem_def split: if_splits)
  obtain r s' where f: "CBB_flush_asn1_set_of isort 0 s = (r, s')" by fastforce
  have rm: "sroom s 0" using y start_state(3) [of 5] s(1) by simp
  note t = CBB_flush_asn1_set_of_sorts [of s "[]" 0 Top ?x "[]" isort, unfolded append_Nil append_Nil2 close.simps layout.simps f, OF s(2) isort_ok]
  then obtain r1 where r1: "r = Some r1" using hp nx rm by (cases r) auto
  with t obtain es where "list_all der_elem es" "concat es = ?x" "sview s' [(0, Top, concat (sort es))]" by auto
  with u so have "sview s' [(0, Top, [1, 1, 255, 5, 0])]" by metis
  then show ?thesis using s(1) f r1 by auto
qed

end
