(* ===== verification/Ber.thy ===== *)
theory Ber
  imports Cbb
begin

unbundle bit_operations_syntax

section \<open>BER to DER (crypto/bytestring/ber.c)\<close>

text \<open>
  \<open>CBS_asn1_ber_to_der\<close> looks for BER forms in its input with \<open>cbs_find_ber\<close> and, if it finds one, rewrites
  the input with \<open>cbs_convert_ber\<close>; \<open>CBS_get_asn1_implicit_string\<close> reads a string whose constructed form may
  still have to be concatenated. Both walks are loops over the elements of a \<open>CBS\<close> that call the walk again
  for the contents of an element; they end because the input gets shorter, which for \<open>cbs_convert_ber\<close>, where
  the call for an element of indefinite length moves the caller's \<open>CBS\<close>, is first shown of the function
  where it is defined.

  The theory ends with the exact set of element headers that the BER mode of \<open>cbs_get_any_asn1_element\<close>
  accepts, and with what the code's tests on tags mean. The theorems are in \<open>Ber_Spec\<close>.
\<close>

subsection \<open>Strings\<close>

definition CBS_ASN1_UTF8STRING :: u32 where "CBS_ASN1_UTF8STRING = 0xc"
definition CBS_ASN1_NUMERICSTRING :: u32 where "CBS_ASN1_NUMERICSTRING = 0x12"
definition CBS_ASN1_PRINTABLESTRING :: u32 where "CBS_ASN1_PRINTABLESTRING = 0x13"
definition CBS_ASN1_T61STRING :: u32 where "CBS_ASN1_T61STRING = 0x14"
definition CBS_ASN1_VIDEOTEXSTRING :: u32 where "CBS_ASN1_VIDEOTEXSTRING = 0x15"
definition CBS_ASN1_IA5STRING :: u32 where "CBS_ASN1_IA5STRING = 0x16"
definition CBS_ASN1_GRAPHICSTRING :: u32 where "CBS_ASN1_GRAPHICSTRING = 0x19"
definition CBS_ASN1_VISIBLESTRING :: u32 where "CBS_ASN1_VISIBLESTRING = 0x1a"
definition CBS_ASN1_GENERALSTRING :: u32 where "CBS_ASN1_GENERALSTRING = 0x1b"
definition CBS_ASN1_UNIVERSALSTRING :: u32 where "CBS_ASN1_UNIVERSALSTRING = 0x1c"
definition CBS_ASN1_BMPSTRING :: u32 where "CBS_ASN1_BMPSTRING = 0x1e"

definition kMaxDepth :: u32 where "kMaxDepth = 2048"

definition is_string_type :: "u32 \<Rightarrow> bool" where
  "is_string_type tag \<longleftrightarrow>
     tag AND NOT CBS_ASN1_CONSTRUCTED \<in>
       {CBS_ASN1_OCTETSTRING, CBS_ASN1_UTF8STRING, CBS_ASN1_NUMERICSTRING, CBS_ASN1_PRINTABLESTRING,
        CBS_ASN1_T61STRING, CBS_ASN1_VIDEOTEXSTRING, CBS_ASN1_IA5STRING, CBS_ASN1_GRAPHICSTRING,
        CBS_ASN1_VISIBLESTRING, CBS_ASN1_GENERALSTRING, CBS_ASN1_UNIVERSALSTRING, CBS_ASN1_BMPSTRING}"

subsection \<open>Looking for BER\<close>

lemma ber_element_sizes:
  assumes "cbs_get_any_asn1_element c ber_ok = (Some (out, tag, hl, bf), c')"
  shows "0 < unat hl" and "unat (cbs_len out) \<le> unat (cbs_len c)"
    and "unat (cbs_len c') < unat (cbs_len c)"
proof -
  show "unat (cbs_len c') < unat (cbs_len c)"
    by (rule cbs_get_any_asn1_element_decreases [OF assms])
  from assms obtain t d lb e where t: "parse_asn1_tag c = (Some t, d)" and lb: "CBS_get_u8 d = (Some lb, e)"
    by (auto simp: cbs_get_any_asn1_element_def split: prod.splits option.splits)
  let ?hl = "cbs_len c - cbs_len e" and ?nb = "ucast (lb AND 0x7f) :: size_t"
  have e: "unat (cbs_len e) < unat (cbs_len c)" "unat (cbs_len c) \<le> unat (cbs_len e) + 12"
    using parse_asn1_tag_takes [OF t] CBS_get_u8_takes [OF lb] by simp_all
  then have hl': "0 < unat ?hl" "unat ?hl \<le> 12" by (simp_all add: unat_sub word_le_nat_alt)
  have "unat ?nb < 128" by simp
  then have "unat (?hl + ?nb) = unat ?hl + unat ?nb" using hl' by (simp add: unat_word_ariths)
  moreover have "hl = ?hl \<or> hl = ?hl + ?nb"
    using assms t lb by (auto simp: cbs_get_any_asn1_element_def Let_def and_then_Some_iff
      split: if_splits prod.splits option.splits)
  ultimately show "0 < unat hl" using hl' by auto
  obtain n where "CBS_get_bytes c n = (Some out, c')"
    using assms t lb by (auto simp: cbs_get_any_asn1_element_def Let_def and_then_Some_iff
      split: if_splits prod.splits option.splits)
  then show "unat (cbs_len out) \<le> unat (cbs_len c)"
    by (auto simp: CBS_get_bytes_def cbs_get_def CBS_init_def and_then_def not_less word_le_nat_alt split: if_splits)
qed

lemma CBS_skip_len:
  "CBS_skip c n = (Some u, c') \<Longrightarrow> unat (cbs_len c) = unat n + unat (cbs_len c')"
  by (auto simp: CBS_skip_def cbs_get_def and_then_def not_less word_le_nat_alt unat_sub split: if_splits)

lemma element_fails: "cbs_get_any_asn1_element c ber_ok = (None, c') \<Longrightarrow> c' = c"
  by (auto simp: cbs_get_any_asn1_element_def CBS_get_bytes_def cbs_get_def Let_def and_then_def
      split: if_splits prod.splits option.splits)

lemma ber_contents_smaller:
  assumes "CBS_get_any_ber_asn1_element c = (Some (out, tag, hl, bf), c')" and "CBS_skip out hl = (Some u, x)"
  shows "unat (cbs_len x) < unat (cbs_len c)"
  using ber_element_sizes [of c True out tag hl bf c'] CBS_skip_len [OF assms(2)] assms(1)
  by (simp add: CBS_get_any_ber_asn1_element_def)

lemma ber_element_decreases:
  "CBS_get_any_ber_asn1_element c = (Some r, c') \<Longrightarrow> unat (cbs_len c') < unat (cbs_len c)"
  by (auto simp: CBS_get_any_ber_asn1_element_def dest: cbs_get_any_asn1_element_decreases)

text \<open>\<open>find_ber_loop\<close> is the \<open>while\<close> loop of \<open>cbs_find_ber\<close>, with the value of \<open>*ber_found\<close>.\<close>

function cbs_find_ber :: "cbs \<Rightarrow> u32 \<Rightarrow> bool option"
  and find_ber_loop :: "cbs \<Rightarrow> bool \<Rightarrow> u32 \<Rightarrow> bool option" where
  "cbs_find_ber orig_in depth =
     (if depth > kMaxDepth then None
      else find_ber_loop (CBS_init (cbs_data orig_in) (cbs_len orig_in)) False depth)"
| "find_ber_loop in_cbs ber_found depth =
     (if cbs_len in_cbs = 0 then Some ber_found
      else case CBS_get_any_ber_asn1_element in_cbs of
        (None, _) \<Rightarrow> None
      | (Some (contents, tag, header_len, ber_found), in_cbs) \<Rightarrow>
          if ber_found then Some True
          else if tag AND CBS_ASN1_CONSTRUCTED \<noteq> 0
          then if is_string_type tag then Some True
               else case CBS_skip contents header_len of
                   (None, _) \<Rightarrow> None
                 | (Some _, contents) \<Rightarrow>
                    (case cbs_find_ber contents (depth + 1) of
                       None \<Rightarrow> None
                     | Some ber_found \<Rightarrow> find_ber_loop in_cbs ber_found depth)
          else find_ber_loop in_cbs ber_found depth)"
  by pat_completeness auto
termination
  by (relation "measure (\<lambda>x. case x of Inl (c, _) \<Rightarrow> 2 * unat (cbs_len c) + 1 | Inr (c, _) \<Rightarrow> 2 * unat (cbs_len c))")
    (auto simp: CBS_init_def dest: ber_contents_smaller [OF sym sym] ber_element_decreases [OF sym])

declare cbs_find_ber.simps [simp del] find_ber_loop.simps [simp del]

subsection \<open>Conversion\<close>

definition is_eoc :: "size_t \<Rightarrow> cbs \<Rightarrow> bool" where
  "is_eoc header_len contents \<longleftrightarrow>
     header_len = 2 \<and> cbs_len contents = 2 \<and> OPENSSL_memcmp (cbs_data contents) [0, 0] 2 = 0"

text \<open>The state of the conversion: the input that is left, and the builder.\<close>

type_synonym conv_st = "cbs \<times> cbb_st"

definition on_cbb :: "(cbb_st \<Rightarrow> 'a option \<times> cbb_st) \<Rightarrow> conv_st \<Rightarrow> 'a option \<times> conv_st" where
  "on_cbb f = (\<lambda>(c, s). case f s of (r, s) \<Rightarrow> (r, (c, s)))"

text \<open>
  The part of the loop that decides where the contents of an element go: the result is \<open>out_contents\<close> and
  \<open>child_string_tag\<close>.
\<close>

definition open_element :: "nat \<Rightarrow> u32 \<Rightarrow> u32 \<Rightarrow> cbb_st \<Rightarrow> (nat \<times> u32) option \<times> cbb_st" where
  "open_element out string_tag tag s =
     (if string_tag \<noteq> 0
      then if tag AND NOT CBS_ASN1_CONSTRUCTED \<noteq> string_tag then (None, s)
           else (Some (out, string_tag), s)
      else let out_contents_storage = local_addr s;
               str = (tag AND CBS_ASN1_CONSTRUCTED \<noteq> 0 \<and> is_string_type tag);
               out_tag = (if str then tag AND NOT CBS_ASN1_CONSTRUCTED else tag);
               child_string_tag = (if str then out_tag else string_tag)
           in and_then (CBB_add_asn1 out out_contents_storage out_tag s) (\<lambda>_ s.
                (Some (out_contents_storage, child_string_tag), s)))"

text \<open>
  How much input is left. It does not grow in any call for which the recursion ends, and with this the
  termination proof can deal with the loop that goes on after a call that has moved \<open>*in\<close>.
\<close>

definition left :: "conv_st \<Rightarrow> nat" where
  "left st = unat (cbs_len (fst st))"

lemma left_pair [simp]: "left (c, s) = unat (cbs_len c)"
  by (simp add: left_def)

lemma left_on_cbb: "on_cbb f st = (r, st') \<Longrightarrow> left st' = left st"
  by (auto simp: on_cbb_def split: prod.splits)

lemma ber_element_lens:
  assumes "(Some (out, tag, hl, bf), c') = CBS_get_any_ber_asn1_element c"
  shows "unat (cbs_len c') < unat (cbs_len c) \<and>
    (\<forall>u x. (Some u, x) = CBS_skip out hl \<longrightarrow> Suc (2 * unat (cbs_len x)) < 2 * unat (cbs_len c))"
  using ber_element_decreases [OF assms [symmetric]] ber_contents_smaller [OF assms [symmetric] sym] by fastforce

lemma and_then_left:
  assumes "left (snd m) \<le> n" and "\<And>x st. m = (Some x, st) \<Longrightarrow> left (snd (f x st)) \<le> left st"
  shows "left (snd (and_then m f)) \<le> n"
  using assms by (cases m; cases "fst m") (auto intro: le_trans)

lemma left_on_cbb' [simp]: "left (snd (on_cbb f st)) = left st"
  by (metis left_on_cbb prod.collapse)

text \<open>
  \<open>convert_ber_loop\<close> is the \<open>while\<close> loop of \<open>cbs_convert_ber\<close>. The call for an element of definite length works
  on \<open>contents\<close>, the one for an element of indefinite length on \<open>*in\<close> itself.
\<close>

function cbs_convert_ber :: "nat \<Rightarrow> u32 \<Rightarrow> bool \<Rightarrow> u32 \<Rightarrow> conv_st \<Rightarrow> unit option \<times> conv_st"
  and convert_ber_loop :: "nat \<Rightarrow> u32 \<Rightarrow> bool \<Rightarrow> u32 \<Rightarrow> conv_st \<Rightarrow> unit option \<times> conv_st" where
  "cbs_convert_ber out string_tag looking_for_eoc depth st =
     (if depth > kMaxDepth then (None, st)
      else convert_ber_loop out string_tag looking_for_eoc depth st)"
| "convert_ber_loop out string_tag looking_for_eoc depth (in_cbs, s) =
     (if cbs_len in_cbs = 0 then (if looking_for_eoc then None else Some (), (in_cbs, s))
      else case CBS_get_any_ber_asn1_element in_cbs of
        (None, in_cbs) \<Rightarrow> (None, (in_cbs, s))
      | (Some (contents, tag, header_len, _), in_cbs) \<Rightarrow>
          if is_eoc header_len contents then (if looking_for_eoc then Some () else None, (in_cbs, s))
          else
            and_then (on_cbb (open_element out string_tag tag) (in_cbs, s)) (\<lambda>r st.
              case (r, st) of ((out_contents, child_string_tag), (in_cbs, s)) \<Rightarrow>
              if cbs_len contents = header_len \<and> header_len > 0
                 \<and> cbs_data contents ! unat (header_len - 1) = 0x80
              then and_then (cbs_convert_ber out_contents child_string_tag True (depth + 1) (in_cbs, s)) (\<lambda>_ st.
                   and_then (on_cbb (CBB_flush out) st) (\<lambda>_ st.
                     convert_ber_loop out string_tag looking_for_eoc depth st))
              else case CBS_skip contents header_len of
                  (None, _) \<Rightarrow> (None, (in_cbs, s))
                | (Some _, contents) \<Rightarrow>
                    and_then
                      (if tag AND CBS_ASN1_CONSTRUCTED \<noteq> 0
                       then case cbs_convert_ber out_contents child_string_tag False (depth + 1) (contents, s) of
                              (r, (_, s)) \<Rightarrow> (r, (in_cbs, s))
                       else on_cbb (CBB_add_bytes out_contents (cbs_data contents) (cbs_len contents)) (in_cbs, s))
                      (\<lambda>_ st.
                         and_then (on_cbb (CBB_flush out) st) (\<lambda>_ st.
                           convert_ber_loop out string_tag looking_for_eoc depth st))))"
  by pat_completeness auto


termination
proof -
  have "cbs_convert_ber_convert_ber_loop_dom (Inl (out, tag, eoc, depth, st)) \<Longrightarrow>
      left (snd (cbs_convert_ber out tag eoc depth st)) \<le> left st"
    and "cbs_convert_ber_convert_ber_loop_dom (Inr (out, tag, eoc, depth, st')) \<Longrightarrow>
      left (snd (convert_ber_loop out tag eoc depth st')) \<le> left st'" for out tag eoc depth st st'
  proof (induction out tag eoc depth st and out tag eoc depth st' rule: cbs_convert_ber_convert_ber_loop.pinduct)
    case (1 out tag eoc depth st)
    then show ?case by (simp add: cbs_convert_ber.psimps)
  next
    case (2 out string_tag eoc depth c s)
    obtain r y where e: "CBS_get_any_ber_asn1_element c = (r, y)" by (metis surj_pair)
    show ?case
    proof (cases r)
      case None
      with e show ?thesis
        using 2(1) by (auto simp: convert_ber_loop.psimps CBS_get_any_ber_asn1_element_def dest: element_fails)
    next
      case (Some el)
      obtain x tg hl bf where el: "el = (x, tg, hl, bf)" by (metis surj_pair)
      have y: "unat (cbs_len y) \<le> left (c, s)" using ber_element_decreases [OF e [unfolded Some]] by simp
      note IH = 2(2-) [OF _ e [symmetric] Some el [symmetric] refl refl]
      note eq = convert_ber_loop.psimps [OF 2(1)] e Some el option.case prod.case
      show ?thesis
      proof (cases "cbs_len c = 0 \<or> is_eoc hl x")
        case True
        with y show ?thesis unfolding eq by auto
      next
        case False
        then have nz: "cbs_len c \<noteq> 0" "\<not> is_eoc hl x" by simp_all
        show ?thesis
          unfolding eq if_not_P [OF nz(1)] if_not_P [OF nz(2)]
        proof (rule and_then_left, goal_cases)
          case 1
          show ?case using y by simp
        next
          case (2 r st)
          obtain a b where r: "(a, b) = r" by (metis surj_pair)
          obtain d t where st: "(d, t) = st" by (metis surj_pair)
          note IH' = IH [OF nz 2 refl r st]
          obtain k z where "CBS_skip x hl = (k, z)" by (metis surj_pair)
          with IH' show ?case
            by (cases k) (auto simp flip: r st intro!: and_then_left split: prod.splits)
        qed
      qed
    qed
  qed
  then have left_eq: "left st' \<le> left st"
    if "cbs_convert_ber_convert_ber_loop_dom (Inl (out, tag, eoc, depth, st))"
      "cbs_convert_ber out tag eoc depth st = (r, st')" for out tag eoc depth st r st'
    using that by (metis snd_conv)
  show ?thesis
    by (relation "measure (\<lambda>x. case x of Inl (_, _, _, _, st) \<Rightarrow> 2 * left st + 1 | Inr (_, _, _, _, st) \<Rightarrow> 2 * left st)")
      (auto dest!: ber_element_lens left_on_cbb left_eq simp: left_def split: if_splits prod.splits)
qed

declare cbs_convert_ber.simps [simp del] convert_ber_loop.simps [simp del]

definition len_form :: "bytes \<Rightarrow> nat \<Rightarrow> bool" where
  "len_form lf n \<longleftrightarrow> n < 128 \<and> lf = [of_nat n] \<or>
     (\<exists>k\<in>{1..4}. n < 256 ^ k \<and> lf = of_nat (128 + k) # be_bytes k n)"

lemma len_enc_long: "1 \<le> k \<Longrightarrow> k \<le> 4 \<Longrightarrow> n < 256 ^ k \<Longrightarrow>
  len_enc n \<noteq> of_nat (128 + k) # be_bytes k n \<longleftrightarrow> n < 128 \<or> n < 256 ^ (k - 1)"
proof -
  assume k: "1 \<le> k" "k \<le> 4" "n < 256 ^ k"
  have "len_bytes n = k \<longleftrightarrow> \<not> n < 256 ^ (k - 1)" if n: "128 \<le> n"
  proof -
    have "(256::nat) ^ k \<le> 256 ^ 4" using k by (intro power_increasing) auto
    then have "n < 2 ^ 32" using k by simp
    with len_bytes_bounds(3) [OF n] len_bytes_unique [OF k(1,2) _ k(3)] show ?thesis by auto
  qed
  moreover have "len_enc n \<noteq> of_nat (128 + k) # be_bytes k n" if "n < 128"
    using that k by (auto simp: len_enc_def dest: arg_cong [of _ _ length])
  moreover have "(of_nat (128 + a) :: u8) = of_nat (128 + k) \<longleftrightarrow> a = k" if "a \<le> 4" for a
    proof
    assume "(of_nat (128 + a) :: u8) = of_nat (128 + k)"
    then have "unat (of_nat (128 + a) :: u8) = unat (of_nat (128 + k) :: u8)" by (rule arg_cong)
    with that k show "a = k" by (simp add: unat_of_nat_small del: of_nat_add)
  qed simp
  moreover have "len_bytes n \<le> 4" by (simp add: len_bytes_def)
  ultimately show ?thesis by (auto simp: len_enc_def)
qed

lemma p_element_ber_complete:
  assumes "t < 2 ^ 32" and "len_form lf (length content)"
  shows "p_element True (tag_enc t @ lf @ content @ rest) =
    Some ((tag_enc t @ lf @ content, t, length (tag_enc t @ lf), lf \<noteq> len_enc (length content)), rest)"
  using assms(2) unfolding len_form_def
proof (elim disjE conjE bexE)
  assume n: "length content < 128" and lf: "lf = [of_nat (length content)]"
  then have lb: "unat (of_nat (length content) :: u8) = length content" by (simp add: unat_of_nat)
  with n lf assms show ?thesis
    by (simp add: p_element_def len_enc_def p_tag_complete p_take_def Let_def)
next
  fix k
  let ?n = "length content"
  assume "k \<in> {1..4}" and k: "?n < 256 ^ k" and lf: "lf = of_nat (128 + k) # be_bytes k ?n"
  then have k14: "1 \<le> k" "k \<le> 4" by auto
  then have lb: "unat (of_nat (128 + k) :: u8) = 128 + k" by (intro unat_of_nat_small) simp
  have "p_uint k (be_bytes k ?n @ content @ rest) = Some (?n, content @ rest)"
    using k by (auto simp: p_uint_Some_iff be_val_be_bytes_id intro!: exI [of _ "be_bytes k ?n"])
  then show ?thesis
    using k k14 assms(1) lb lf len_enc_long [OF k14 k]
    by (simp add: p_element_def p_tag_complete p_take_def Let_def not_less eq_commute [of _ "len_enc _"]
        del: of_nat_add)
qed

lemma p_element_ber_indef:
  assumes "t < 2 ^ 32" and "odd (t div 2 ^ 29)"
  shows "p_element True (tag_enc t @ 0x80 # rest) =
    Some ((tag_enc t @ [0x80], t, Suc (length (tag_enc t)), True), rest)"
  using assms by (simp add: p_element_def p_tag_complete p_take_def Let_def)

lemma p_element_ber_sound:
  assumes "p_element True bs = Some ((x, t, hl, bf), rest)"
  shows "t < 2 ^ 32 \<and> bs = x @ rest \<and>
    ((\<exists>lf content. len_form lf (length content) \<and> x = tag_enc t @ lf @ content
        \<and> hl = length (tag_enc t @ lf) \<and> bf = (lf \<noteq> len_enc (length content)))
     \<or> odd (t div 2 ^ 29) \<and> x = tag_enc t @ [0x80] \<and> hl = length x \<and> bf)"
proof -
  from assms obtain h0 where tag: "p_tag bs = Some (t, h0)"
    by (auto simp: p_element_def bind_eq_Some_conv Let_def split: if_splits)
  with assms obtain lb h where h0: "h0 = lb # h"
    by (cases h0) (auto simp: p_element_def)
  from tag h0 have t: "t < 2 ^ 32" and bs: "bs = tag_enc t @ lb # h" by (auto simp: p_tag_iff)
  have hl0: "length bs - length h = Suc (length (tag_enc t))" using bs by simp
  note u = p_element_def tag h0 bind.bind_lunit p_u8.simps prod.case Let_def hl0
  have definite: ?thesis if "x = tag_enc t @ lf @ content" "len_form lf (length content)" "bs = x @ rest" for lf content
    using p_element_ber_complete [OF t that(2), of rest] assms that t
    by (intro conjI disjI1 exI [of _ lf] exI [of _ content]) auto
  consider "unat lb < 128" | "lb = 0x80" | "1 \<le> unat lb mod 128" "unat lb \<ge> 128"
    by (metis One_nat_def Suc_leI add.right_neutral gr0I mod128_high le_add_diff_inverse not_less u8_eq_80_iff)
  then show ?thesis
  proof cases
    case 1
    with assms have r: "bs = x @ rest" "length x = unat lb + Suc (length (tag_enc t))"
      by (auto simp: u p_take_Some_iff)
    then obtain content where c: "x = (tag_enc t @ [lb]) @ content" "h = content @ rest"
      using append_split [of "tag_enc t @ [lb]" h x rest] bs by auto
    with r have "length content = unat lb" by simp
    with 1 have "len_form [lb] (length content)" by (simp add: len_form_def)
    with definite [of "[lb]" content] c r show ?thesis by simp
  next
    case 2
    with assms have "odd (t div 2 ^ 29)" by (auto simp: u split: if_splits)
    with p_element_ber_indef [OF t this, of h] assms 2 bs t show ?thesis by (intro conjI disjI2) auto
  next
    case 3
    let ?nb = "unat lb mod 128"
    from assms 3 have nb: "1 \<le> ?nb" "?nb \<le> 4" by (auto simp: u split: if_splits)
    with assms 3 obtain len h' where len: "p_uint ?nb h = Some (len, h')"
      by (auto simp: u bind_eq_Some_conv split: if_splits)
    with assms 3 nb have x: "bs = x @ rest" "length x = len + (Suc (length (tag_enc t)) + ?nb)"
      by (auto simp: u p_take_Some_iff not_less split: if_splits)
    from len obtain ls where ls: "h = ls @ h'" "length ls = ?nb" "be_val ls = len"
      by (auto simp: p_uint_Some_iff)
    have l: "len < 256 ^ ?nb" using be_val_less [of ls] ls by simp
    have lb_eq: "lb = of_nat (128 + ?nb)" using 3 mod128_high [of lb] by (simp add: add.commute)
    have ls_eq: "ls = be_bytes ?nb len" using ls be_bytes_be_val by metis
    obtain content where c: "x = (tag_enc t @ lb # ls) @ content" "h' = content @ rest"
      using append_split [of "tag_enc t @ lb # ls" h' x rest] x bs ls by auto
    then have "length content = len" using x ls by simp
    then have "len_form (lb # ls) (length content)"
      using nb l lb_eq ls_eq unfolding len_form_def by (intro disjI2 bexI [of _ ?nb]) auto
    with definite [of "lb # ls" content] c x show ?thesis by simp
  qed
qed

text \<open>The loop of \<open>CBS_get_asn1_implicit_string\<close> over the fragments of a string.\<close>

function add_chunks :: "u32 \<Rightarrow> cbs \<Rightarrow> cbb_st \<Rightarrow> unit option \<times> cbb_st" where
  "add_chunks inner_tag child result =
     (if cbs_len child = 0 then (Some (), result)
      else case CBS_get_asn1 child inner_tag of
        (None, _) \<Rightarrow> (None, result)
      | (Some chunk, child) \<Rightarrow>
          and_then (CBB_add_bytes 0 (cbs_data chunk) (cbs_len chunk) result) (\<lambda>_. add_chunks inner_tag child))"
  by pat_completeness auto
termination
  by (relation "measure (\<lambda>(_, c, _). unat (cbs_len c))") (auto dest: CBS_get_asn1_decreases [OF sym])

declare add_chunks.simps [simp del]

text \<open>
  The builders of both functions are local variables, at address 0; after a failure \<open>CBB_cleanup\<close> frees them,
  which leaves nothing behind. The end of both functions is \<open>CBB_finish\<close>, and the \<open>CBS\<close> over the buffer it
  returns. The result is \<open>*out\<close> and \<open>*out_storage\<close>.
\<close>

definition finish_cbs :: "cbb_st \<Rightarrow> (cbs \<times> bytes option) option" where
  "finish_cbs s =
     (case CBB_finish 0 True True s of
        (None, _) \<Rightarrow> None
      | (Some (data, len), _) \<Rightarrow> Some (CBS_init (case data of None \<Rightarrow> [] | Some m \<Rightarrow> m) len, data))"

definition CBS_asn1_ber_to_der :: "allocator \<Rightarrow> cbs \<Rightarrow> (cbs \<times> bytes option) option \<times> cbs" where
  "CBS_asn1_ber_to_der a in_cbs =
     (case cbs_find_ber in_cbs 0 of
        None \<Rightarrow> (None, in_cbs)
      | Some conversion_needed \<Rightarrow>
          if \<not> conversion_needed
          then and_then (CBS_get_any_asn1_element in_cbs) (\<lambda>(out, _, _) in_cbs. (Some (out, None), in_cbs))
          else case CBB_init 0 (cbs_len in_cbs) a of
              None \<Rightarrow> (None, in_cbs)
            | Some cbb \<Rightarrow>
               (case cbs_convert_ber 0 0 False 0 (in_cbs, cbb) of
                  (None, (in_cbs, _)) \<Rightarrow> (None, in_cbs)
                | (Some _, (in_cbs, cbb)) \<Rightarrow> (finish_cbs cbb, in_cbs)))"

definition CBS_get_asn1_implicit_string :: "allocator \<Rightarrow> u32 \<Rightarrow> u32 \<Rightarrow> cbs \<Rightarrow> (cbs \<times> bytes option) option \<times> cbs" where
  "CBS_get_asn1_implicit_string a outer_tag inner_tag in_cbs =
     (if CBS_peek_asn1_tag in_cbs outer_tag
      then and_then (CBS_get_asn1 in_cbs outer_tag) (\<lambda>out in_cbs. (Some (out, None), in_cbs))
      else case CBB_init 0 (cbs_len in_cbs) a of
          None \<Rightarrow> (None, in_cbs)
        | Some result \<Rightarrow>
            and_then (CBS_get_asn1 in_cbs (outer_tag OR CBS_ASN1_CONSTRUCTED)) (\<lambda>child in_cbs.
              case add_chunks inner_tag child result of
                (None, _) \<Rightarrow> (None, in_cbs)
              | (Some _, result) \<Rightarrow> (finish_cbs result, in_cbs)))"

subsection \<open>Tags\<close>

lemma u32_less: "unat (w :: u32) < 2 ^ 32"
  using unsigned_less [where ?'a = nat, of w] by simp

definition string_tags :: "nat set" where
  "string_tags = {4, 12, 18, 19, 20, 21, 22, 25, 26, 27, 28, 30}"

lemma unat_primitive:
  "unat (tag AND NOT CBS_ASN1_CONSTRUCTED) = (if odd (unat tag div 2 ^ 29) then unat tag - 2 ^ 29 else unat tag)"
proof -
  have e: "tag AND NOT CBS_ASN1_CONSTRUCTED = tag - of_bool (odd (unat tag div 2 ^ 29)) * 2 ^ 29"
    using unset_bit_eq [of 29 tag] unset_bit_eq_and_not [of 29 tag] bit_unsigned_iff [where ?'a = nat, of tag 29]
    by (simp add: CBS_ASN1_CONSTRUCTED_def bit_iff_odd [of "unat tag"] push_bit_eq_mult)
  have "2 ^ 29 \<le> unat tag" if "odd (unat tag div 2 ^ 29)"
    using that by (metis div_less dvd_0_right not_less)
  then have "unat (tag - 2 ^ 29) = unat tag - 2 ^ 29" if "odd (unat tag div 2 ^ 29)"
    using that by (simp add: unat_sub word_le_nat_alt)
  then show ?thesis unfolding e by simp
qed

lemma is_string_type_iff: "is_string_type tag \<longleftrightarrow> unat (tag AND NOT CBS_ASN1_CONSTRUCTED) \<in> string_tags"
proof -
  have "w = of_nat n \<longleftrightarrow> unat w = n" if "n < 2 ^ 32" for w :: u32 and n
    using that by (auto simp: unat_of_nat)
  note e = this [of 4] this [of 12] this [of 18] this [of 19] this [of 20] this [of 21] this [of 22]
    this [of 25] this [of 26] this [of 27] this [of 28] this [of 30]
  show ?thesis
    using e [of "tag AND NOT CBS_ASN1_CONSTRUCTED"]
    by (simp add: is_string_type_def string_tags_def CBS_ASN1_OCTETSTRING_def CBS_ASN1_UTF8STRING_def
        CBS_ASN1_NUMERICSTRING_def CBS_ASN1_PRINTABLESTRING_def CBS_ASN1_T61STRING_def
        CBS_ASN1_VIDEOTEXSTRING_def CBS_ASN1_IA5STRING_def CBS_ASN1_GRAPHICSTRING_def
        CBS_ASN1_VISIBLESTRING_def CBS_ASN1_GENERALSTRING_def CBS_ASN1_UNIVERSALSTRING_def
        CBS_ASN1_BMPSTRING_def)
qed

end
