(* ===== verification/Ber_Spec.thy ===== *)
theory Ber_Spec
  imports Ber
begin

unbundle bit_operations_syntax

section \<open>What the BER conversion computes\<close>

text \<open>
  The specification is the grammar of ITU-T X.690: \<open>ber d ts bs\<close> says that \<open>bs\<close> is a BER encoding of the
  trees \<open>ts\<close> with at most \<open>d\<close> levels of nesting, \<open>ders ts\<close> is their DER encoding. \<open>ber_yields\<close> shows by rule
  induction that the code of \<open>Ber\<close> converts each such input, \<open>convert_sound\<close> by induction on the length of
  the input that it accepts no other. \<open>find_der\<close> is the same for the search that precedes the conversion,
  and \<open>add_chunks_yields\<close>, \<open>add_chunks_sound\<close> for implicitly tagged strings.
\<close>

subsection \<open>The grammar\<close>

datatype asn1 = Prim nat bytes | Constr nat "asn1 list"

fun der :: "asn1 \<Rightarrow> bytes" where
  "der (Prim t x) = der_enc t x"
| "der (Constr t ts) = der_enc t (concat (map der ts))"

abbreviation ders :: "asn1 list \<Rightarrow> bytes" where
  "ders ts \<equiv> concat (map der ts)"

text \<open>The lengths that the builder can write.\<close>

fun fits :: "asn1 \<Rightarrow> bool" where
  "fits (Prim t x) \<longleftrightarrow> length x \<le> 0xfffffffe"
| "fits (Constr t ts) \<longleftrightarrow> list_all fits ts \<and> length (ders ts) \<le> 0xfffffffe"

text \<open>
  \<open>constr_form t y w\<close>: \<open>w\<close> is a constructed element with tag \<open>t\<close> and the contents \<open>y\<close>, of definite or
  indefinite length. \<open>frag d t x bs\<close>: the elements \<open>bs\<close> are fragments of a string with tag \<open>t\<close> that make
  up \<open>x\<close>.
\<close>

definition constr_form :: "nat \<Rightarrow> bytes \<Rightarrow> bytes \<Rightarrow> bool" where
  "constr_form t y w \<longleftrightarrow>
     (\<exists>lf. len_form lf (length y) \<and> w = tag_enc t @ lf @ y) \<or> w = tag_enc t @ [0x80] @ y @ [0, 0]"

inductive frag :: "nat \<Rightarrow> nat \<Rightarrow> bytes \<Rightarrow> bytes \<Rightarrow> bool" where
  frag_nil: "frag d t [] []"
| frag_prim: "len_form lf (length x) \<Longrightarrow> frag d t z bs \<Longrightarrow> frag d t (x @ z) (tag_enc t @ lf @ x @ bs)"
| frag_constr: "frag d t x y \<Longrightarrow> constr_form (t + 2 ^ 29) y w \<Longrightarrow> frag (Suc d) t z bs \<Longrightarrow>
    frag (Suc d) t (x @ z) (w @ bs)"

inductive ber :: "nat \<Rightarrow> asn1 list \<Rightarrow> bytes \<Rightarrow> bool" where
  ber_nil: "ber d [] []"
| ber_prim: "t < 2 ^ 32 \<Longrightarrow> even (t div 2 ^ 29) \<Longrightarrow> len_form lf (length x) \<Longrightarrow> tag_enc t @ lf @ x \<noteq> [0, 0] \<Longrightarrow>
    ber d ts bs \<Longrightarrow> ber d (Prim t x # ts) (tag_enc t @ lf @ x @ bs)"
| ber_constr: "t < 2 ^ 32 \<Longrightarrow> odd (t div 2 ^ 29) \<Longrightarrow> t - 2 ^ 29 \<notin> string_tags \<Longrightarrow> ber d us y \<Longrightarrow>
    constr_form t y w \<Longrightarrow> ber (Suc d) ts bs \<Longrightarrow> ber (Suc d) (Constr t us # ts) (w @ bs)"
| ber_string: "t \<in> string_tags \<Longrightarrow> frag d t x y \<Longrightarrow> constr_form (t + 2 ^ 29) y w \<Longrightarrow>
    ber (Suc d) ts bs \<Longrightarrow> ber (Suc d) (Prim t x # ts) (w @ bs)"

subsection \<open>One turn of the loop\<close>

lemma be_bytes_zero: "be_bytes k 0 = replicate k 0"
  by (induction k) (simp_all add: replicate_append_same)

lemma len_form_zero: "len_form lf 0 \<Longrightarrow> lf \<noteq> [] \<and> last lf = 0"
  by (auto simp: len_form_def be_bytes_zero simp del: of_nat_add)

lemma ber_element_view:
  assumes "cbs_view c bs" and "p_element True bs = Some ((x, t, n, b), rest)"
  obtains k tag hl c' where "CBS_get_any_ber_asn1_element c = (Some (k, tag, hl, b), c')"
    "cbs_view k x" "unat tag = t" "unat hl = n" "cbs_view c' rest"
  using cbs_get_any_asn1_element_refines [OF assms(1), of True] assms(2)
  by (fastforce simp: CBS_get_any_ber_asn1_element_def element_rel_def dest!: refines_SomeD)

lemma ber_element_none:
  assumes "cbs_view c bs" and "p_element True bs = None"
  obtains c' where "CBS_get_any_ber_asn1_element c = (None, c')"
  using cbs_get_any_asn1_element_refines [OF assms(1), of True] assms(2)
  by (auto simp: CBS_get_any_ber_asn1_element_def dest!: refines_NoneD)

lemma is_eoc_iff:
  assumes "cbs_view k x" and "unat hl = n" and "p_element True bs = Some ((x, t, n, b), rest)"
  shows "is_eoc hl k \<longleftrightarrow> x = [0, 0]"
proof -
  have "n = 2" if "x = [0, 0]"
  proof -
    have "p_tag ([0, 0] @ rest) = Some (0, 0 # rest)" using p_tag_complete [of 0 "0 # rest"] by (simp add: tag_enc_def)
    then show ?thesis
      using assms(3) p_element_ber_sound [OF assms(3)] that by (auto simp: p_element_def Let_def)
  qed
  then have "hl = 2" if "x = [0, 0]" using that assms(2) by (auto simp: word_unat_eq_iff)
  moreover have "cbs_len k = 2 \<longleftrightarrow> length x = 2"
    using cbs_view_len [OF assms(1)] by (auto simp: word_unat_eq_iff)
  moreover have "OPENSSL_memcmp (cbs_data k) [0, 0] 2 = 0 \<longleftrightarrow> x = [0, 0]" if l: "length x = 2"
  proof -
    obtain p q where x: "x = [p, q]" using l by (auto simp: length_Suc_conv eval_nat_numeral)
    then obtain r where "cbs_data k = p # q # r"
      using cbs_view_data [OF assms(1)] by (cases "cbs_data k"; cases "tl (cbs_data k)") auto
    moreover have "unat (2 :: size_t) = Suc (Suc 0)" by simp
    ultimately show ?thesis by (auto simp only: OPENSSL_memcmp_def x) (auto simp: word_gt_0 split: if_splits)
  qed
  ultimately show ?thesis by (auto simp: is_eoc_def)
qed

definition keep :: "cbs \<Rightarrow> 'a option \<times> conv_st \<Rightarrow> 'a option \<times> conv_st" where
  "keep c = (\<lambda>(r, (_, s)). (r, (c, s)))"

definition element_body where
  "element_body out string_tag eoc depth tag fill st =
     and_then (on_cbb (open_element out string_tag tag) st) (\<lambda>(a, ch) st. and_then (fill a ch st) (\<lambda>_ st.
       and_then (on_cbb (CBB_flush out) st) (\<lambda>_ st. convert_ber_loop out string_tag eoc depth st)))"

lemma loop_nil: "cbs_view c [] \<Longrightarrow> convert_ber_loop out st eoc d (c, s) = (if eoc then None else Some (), (c, s))"
  by (subst convert_ber_loop.simps) (simp add: cbs_view_len flip: unat_eq_0)

lemma loop_fails:
  assumes "cbs_view c bs" and "bs \<noteq> []" and "p_element True bs = None"
  shows "fst (convert_ber_loop out st eoc d (c, s)) = None"
proof -
  have "cbs_len c \<noteq> 0" using cbs_view_len [OF assms(1)] assms(2) by auto
  moreover obtain c' where "CBS_get_any_ber_asn1_element c = (None, c')" by (rule ber_element_none [OF assms(1,3)])
  ultimately show ?thesis by (subst convert_ber_loop.simps) simp
qed

lemma loop_eoc:
  assumes "cbs_view c ([0, 0] @ rest)"
  obtains c' where "cbs_view c' rest"
    "\<And>out st eoc d s. convert_ber_loop out st eoc d (c, s) = (if eoc then Some () else None, (c', s))"
proof -
  have nz: "cbs_len c \<noteq> 0" using cbs_view_len [OF assms(1)] by auto
  have p: "p_element True ([0, 0] @ rest) = Some (([0, 0], 0, 2, False), rest)"
    using p_element_ber_complete [of 0 "[0]" "[]" rest] by (simp add: len_form_def tag_enc_def len_enc_def)
  obtain k tag hl c' where e: "CBS_get_any_ber_asn1_element c = (Some (k, tag, hl, False), c')"
    "cbs_view k [0, 0]" "unat hl = 2" "cbs_view c' rest"
    by (rule ber_element_view [OF assms p])
  have "is_eoc hl k" using is_eoc_iff [OF e(2,3) p] by simp
  then show thesis using nz e by (intro that [of c']) (auto simp: convert_ber_loop.simps)
qed

lemma loop_body:
  assumes "cbs_len c \<noteq> 0" and "CBS_get_any_ber_asn1_element c = (Some (k, tag, hl, b), c')" and "\<not> is_eoc hl k"
  shows "cbs_len k = hl \<and> hl > 0 \<and> cbs_data k ! unat (hl - 1) = 0x80 \<Longrightarrow>
      convert_ber_loop out st eoc d (c, s) =
        element_body out st eoc d tag (\<lambda>a ch. cbs_convert_ber a ch True (d + 1)) (c', s)"
    and "\<not> (cbs_len k = hl \<and> hl > 0 \<and> cbs_data k ! unat (hl - 1) = 0x80) \<Longrightarrow> CBS_skip k hl = (Some (), k') \<Longrightarrow>
      convert_ber_loop out st eoc d (c, s) =
        element_body out st eoc d tag
         (if tag AND CBS_ASN1_CONSTRUCTED \<noteq> 0 then (\<lambda>a ch (c, s). keep c (cbs_convert_ber a ch False (d + 1) (k', s)))
          else (\<lambda>a ch. on_cbb (CBB_add_bytes a (cbs_data k') (cbs_len k')))) (c', s)"
  using assms by (subst convert_ber_loop.simps; auto simp: element_body_def keep_def intro!: and_then_cong split: prod.splits)+

lemma loop_definite:
  assumes "cbs_view c (tag_enc t @ lf @ x @ rest)" and "t < 2 ^ 32" and "len_form lf (length x)"
    and "tag_enc t @ lf @ x \<noteq> [0, 0]"
  obtains c' k tag where "cbs_view c' rest" "cbs_view k x" "unat tag = t"
    "\<And>out st eoc d s. convert_ber_loop out st eoc d (c, s) =
       element_body out st eoc d tag
         (if odd (t div 2 ^ 29) then (\<lambda>a ch (c, s). keep c (cbs_convert_ber a ch False (d + 1) (k, s)))
          else (\<lambda>a ch. on_cbb (CBB_add_bytes a (cbs_data k) (cbs_len k)))) (c', s)"
proof -
  let ?h = "tag_enc t @ lf"
  have ne: "lf \<noteq> []" using assms(3) by (auto simp: len_form_def)
  have nz: "cbs_len c \<noteq> 0" using cbs_view_len [OF assms(1)] ne by auto
  note p = p_element_ber_complete [OF assms(2,3), of rest]
  obtain k tag hl c' where e: "CBS_get_any_ber_asn1_element c = (Some (k, tag, hl, lf \<noteq> len_enc (length x)), c')"
    "cbs_view k (?h @ x)" "unat tag = t" "unat hl = length ?h" "cbs_view c' rest"
    using ber_element_view [OF assms(1) p] by (metis append_assoc)
  have eoc: "\<not> is_eoc hl k" using is_eoc_iff [OF e(2,4)] p assms(4) by simp
  have "x = []" if "cbs_len k = hl" using that e(4) cbs_view_len [OF e(2)] by simp
  moreover have "cbs_data k ! unat (hl - 1) = last lf"
  proof -
    have "unat (hl - 1) = length ?h - 1" using e(4) ne by (simp add: unat_minus_one flip: unat_eq_0)
    moreover have "cbs_data k ! (length ?h - 1) = (?h @ x) ! (length ?h - 1)"
      using ne by (intro cbs_view_nth [OF e(2)]) (cases lf; simp)
    moreover have "(?h @ x) ! (length ?h - 1) = last lf"
    proof -
      have "?h \<noteq> []" "last ?h = last lf" using ne by simp_all
      then show ?thesis using last_conv_nth [of ?h] by (simp add: nth_append del: append_assoc last_append)
    qed
    ultimately show ?thesis by simp
  qed
  ultimately have indef: "\<not> (cbs_len k = hl \<and> hl > 0 \<and> cbs_data k ! unat (hl - 1) = 0x80)"
    using len_form_zero assms(3) by auto
  obtain k' where k': "CBS_skip k hl = (Some (), k')" "cbs_view k' x"
    using skip_view [OF e(2), of hl] e(4) by auto
  show thesis
    using e(3) by (intro that [OF e(5) k'(2) e(3)] trans [OF loop_body(2) [OF nz e(1) eoc indef k'(1)]])
      (simp add: constructed_bit)
qed

lemma loop_indefinite:
  assumes "cbs_view c (tag_enc t @ 0x80 # rest)" and "t < 2 ^ 32" and "odd (t div 2 ^ 29)"
  obtains c' tag where "cbs_view c' rest" "unat tag = t"
    "\<And>out st eoc d s. convert_ber_loop out st eoc d (c, s) =
       element_body out st eoc d tag (\<lambda>a ch. cbs_convert_ber a ch True (d + 1)) (c', s)"
proof -
  let ?h = "tag_enc t @ [0x80]"
  have nz: "cbs_len c \<noteq> 0" using cbs_view_len [OF assms(1)] by auto
  note p = p_element_ber_indef [OF assms(2,3), of rest]
  obtain k tag hl c' where e: "CBS_get_any_ber_asn1_element c = (Some (k, tag, hl, True), c')"
    "cbs_view k ?h" "unat tag = t" "unat hl = Suc (length (tag_enc t))" "cbs_view c' rest"
    by (rule ber_element_view [OF assms(1) p])
  have eoc: "\<not> is_eoc hl k" using is_eoc_iff [OF e(2,4) p] by (auto simp: append_eq_Cons_conv)
  have "cbs_len k = hl" using e(4) cbs_view_len [OF e(2)] by (simp add: word_unat_eq_iff)
  moreover have "hl > 0" using e(4) by (simp add: word_less_nat_alt)
  moreover have "unat (hl - 1) = length (tag_enc t)" using e(4) by (simp add: unat_minus_one flip: unat_eq_0)
  then have "cbs_data k ! unat (hl - 1) = 0x80" using cbs_view_nth [OF e(2), of "length (tag_enc t)"] by simp
  ultimately show thesis
    by (intro that [OF e(5,3)] loop_body(1) [OF nz e(1) eoc]) simp
qed

subsection \<open>What the conversion writes\<close>

definition cview :: "conv_st \<Rightarrow> bytes \<times> frame list \<Rightarrow> bool" where
  "cview st v \<longleftrightarrow> cbs_view (fst st) (fst v) \<and> sview (snd st) (snd v)"

definition croom :: "conv_st \<Rightarrow> nat \<Rightarrow> bool" where
  "croom st k \<longleftrightarrow> sroom (snd st) k"

interpretation cw: writer cview croom
  by unfold_locales (auto simp: croom_def intro: sw.rm_mono)

lemma cview_pair [simp]: "cview (c, s) (bs, A) \<longleftrightarrow> cbs_view c bs \<and> sview s A"
  by (simp add: cview_def)

lemma croom_pair [simp]: "croom (c, s) k \<longleftrightarrow> sroom s k"
  by (simp add: croom_def)

lemma on_cbb_yields:
  assumes "cbs_view c bs" and "yields sview sroom s (f s) g k A"
  shows "yields cview croom (c, s) (on_cbb f (c, s)) g k (bs, A)"
  using assms by (auto simp: on_cbb_def yields_def split: prod.splits option.splits)

lemma keep_yields:
  assumes "cbs_view c' bs" and "yields cview croom (c, s) r g k (bs', A)"
  shows "yields cview croom (c', s) (keep c' r) g k (bs, A)"
  using assms by (auto simp: keep_def yields_def split: prod.splits option.splits)

definition out_tag :: "u32 \<Rightarrow> u32" where
  "out_tag tag = (if tag AND CBS_ASN1_CONSTRUCTED \<noteq> 0 \<and> is_string_type tag then tag AND NOT CBS_ASN1_CONSTRUCTED else tag)"

definition child_tag :: "u32 \<Rightarrow> u32" where
  "child_tag tag = (if tag AND CBS_ASN1_CONSTRUCTED \<noteq> 0 \<and> is_string_type tag then out_tag tag else 0)"

lemma element_yields:
  assumes s: "sview s (up @ [(h, p, x)])" and c: "cbs_view c b1"
    and fill: "\<And>a x' s1. sview s1 (up @ [(h, p, x'), (a, Asn1_len, [])]) \<Longrightarrow>
      yields cview croom (c, s1) (fill a (child_tag tag) (c, s1)) g (length y)
        (b2, up @ [(h, p, x'), (a, Asn1_len, y)])"
    and loop: "\<And>c2 s2. cbs_view c2 b2 \<Longrightarrow> sview s2 (up @ [(h, p, x @ der_enc (unat (out_tag tag)) y)]) \<Longrightarrow>
      yields cview croom (c2, s2) (convert_ber_loop h 0 eoc d (c2, s2)) g2 (length z)
        (b3, up @ [(h, p, (x @ der_enc (unat (out_tag tag)) y) @ z)])"
  shows "yields cview croom (c, s) (element_body h 0 eoc d tag fill (c, s))
    (g \<and> length y \<le> 0xfffffffe \<and> g2) (length (der_enc (unat (out_tag tag)) y) + length z)
    (b3, up @ [(h, p, x @ der_enc (unat (out_tag tag)) y @ z)])"
proof -
  let ?t = "out_tag tag" and ?a = "local_addr s"
  let ?te = "tag_enc (unat ?t)"
  have o: "yields sview sroom s (open_element h 0 tag s) True (length ?te + 1)
     (up @ [(h, p, x @ ?te), (?a, Asn1_len, [])])"
    using CBB_add_asn1_yields [OF s, of ?a ?t] sview_local [OF s]
    by (auto simp: open_element_def out_tag_def Let_def yields_def and_then_def split: prod.splits option.splits)
  have k: "length (der_enc (unat ?t) y) + length z =
    (length ?te + 1) + (length y + ((length (len_enc (length y)) - 1) + length z))"
    by (simp add: der_enc_def len_enc_def)
  have r: "open_element h 0 tag s = (Some r, s1) \<Longrightarrow> r = (?a, child_tag tag)" for r s1
    by (auto simp: open_element_def Let_def and_then_Some_iff out_tag_def child_tag_def)
  have "yields cview croom (c, s) (element_body h 0 eoc d tag fill (c, s))
    (True \<and> g \<and> length y \<le> 0xfffffffe \<and> g2)
    ((length ?te + 1) + (length y + ((length (len_enc (length y)) - 1) + length z)))
    (b3, up @ [(h, p, x @ der_enc (unat ?t) y @ z)])"
    unfolding element_body_def
  proof (rule cw.bind [OF on_cbb_yields [where f = "open_element h 0 tag", OF c o]], goal_cases)
    case (1 r st)
    then have r: "r = (?a, child_tag tag)" "fst st = c" using r
      by (auto simp: on_cbb_def split: prod.splits)
    obtain s1 where st: "st = (c, s1)" "sview s1 (up @ [(h, p, x @ ?te), (?a, Asn1_len, [])])"
      using 1(2) r(2) by (cases st) auto
    show ?case
      unfolding r(1) prod.case st(1)
    proof (rule cw.bind [OF fill [OF st(2)]], goal_cases)
      case (1 u st2)
      obtain c2 s2 where 2: "st2 = (c2, s2)" "cbs_view c2 b2" "sview s2 (up @ [(h, p, x @ ?te), (?a, Asn1_len, y)])"
        using 1(2) by (cases st2) auto
      have f: "yields sview sroom s2 (CBB_flush h s2) (length y \<le> 0xfffffffe) (length (len_enc (length y)) - 1)
          (up @ [(h, p, (x @ ?te) @ len_enc (length y) @ y)])"
        using CBB_flush_yields [of s2 up h p "x @ ?te" "[(?a, Asn1_len, y)]"] 2(3) by simp
      show ?case
        unfolding 2(1)
      proof (rule cw.bind [OF on_cbb_yields [where f = "CBB_flush h", OF 2(2) f]], goal_cases)
        case (1 u' st3)
        with loop [of "fst st3" "snd st3"] show ?case by (cases st3) (simp add: der_enc_def)
      qed
    qed
  qed
  then show ?thesis unfolding k by simp
qed

lemma fragment_yields:
  assumes s: "sview s (up @ [(h, p, x)])" and c: "cbs_view c b1" and tag: "tag AND NOT CBS_ASN1_CONSTRUCTED = st" "st \<noteq> 0"
    and fill: "yields cview croom (c, s) (fill h st (c, s)) g (length y) (b2, up @ [(h, p, x @ y)])"
    and loop: "\<And>c2 s2. cbs_view c2 b2 \<Longrightarrow> sview s2 (up @ [(h, p, x @ y)]) \<Longrightarrow>
      yields cview croom (c2, s2) (convert_ber_loop h st eoc d (c2, s2)) g2 (length z)
        (b3, up @ [(h, p, (x @ y) @ z)])"
  shows "yields cview croom (c, s) (element_body h st eoc d tag fill (c, s)) (g \<and> g2) (length y + length z)
    (b3, up @ [(h, p, x @ y @ z)])"
proof -
  have o: "on_cbb (open_element h st tag) (c, s) = (Some (h, st), (c, s))"
    by (simp add: open_element_def tag on_cbb_def)
  have "yields cview croom (c, s) (element_body h st eoc d tag fill (c, s)) (g \<and> True \<and> g2) (length y + (0 + length z))
    (b3, up @ [(h, p, x @ y @ z)])"
    unfolding element_body_def o and_then_simps prod.case
  proof (rule cw.bind [OF fill], goal_cases)
    case (1 u st2)
    obtain c2 s2 where 2: "st2 = (c2, s2)" "cbs_view c2 b2" "sview s2 (up @ [(h, p, x @ y)])"
      using 1(2) by (cases st2) auto
    have f: "yields sview sroom s2 (CBB_flush h s2) True 0 (up @ [(h, p, x @ y)])"
      using CBB_flush_yields [of s2 up h p "x @ y" "[]"] 2(3) by simp
    show ?case
      unfolding 2(1)
    proof (rule cw.bind [OF on_cbb_yields [where f = "CBB_flush h", OF 2(2) f]], goal_cases)
      case (1 u' st3)
      with loop [of "fst st3" "snd st3"] show ?case by (cases st3) simp
    qed
  qed
  then show ?thesis by simp
qed

lemma tag_enc_eoc: "t < 2 ^ 32 \<Longrightarrow> tag_enc t @ ys = [0, 0] \<Longrightarrow> t = 0"
  using p_tag_complete [of t ys] p_tag_complete [of 0 "[0]"] by (simp add: tag_enc_def)

lemma string_tagD:
  assumes "t \<in> string_tags"
  shows "0 < t" "t < 2 ^ 29" "even (t div 2 ^ 29)" "odd ((t + 2 ^ 29) div 2 ^ 29)" "t + 2 ^ 29 < 2 ^ 32"
    "t < 2 ^ 32"
  using assms by (auto simp: string_tags_def)

lemma primitive_tags:
  assumes "even (unat tag div 2 ^ 29)"
  shows "out_tag tag = tag" "child_tag tag = 0" "tag AND NOT CBS_ASN1_CONSTRUCTED = tag"
proof -
  have c: "tag AND CBS_ASN1_CONSTRUCTED = 0" using assms constructed_bit by simp
  then show "out_tag tag = tag" "child_tag tag = 0" by (simp_all add: out_tag_def child_tag_def)
  show "tag AND NOT CBS_ASN1_CONSTRUCTED = tag"
    using assms unat_primitive [of tag] by (intro word_unat_eq_iff [THEN iffD2]) simp
qed

lemma constructed_tags:
  assumes "odd (unat tag div 2 ^ 29)" and "unat tag - 2 ^ 29 \<notin> string_tags"
  shows "out_tag tag = tag" "child_tag tag = 0"
  using assms unat_primitive [of tag] by (simp_all add: out_tag_def child_tag_def is_string_type_iff)

lemma string_tags_of:
  assumes "t \<in> string_tags" and "unat tag = t + 2 ^ 29"
  shows "unat (out_tag tag) = t" "child_tag tag = out_tag tag" "unat (tag AND NOT CBS_ASN1_CONSTRUCTED) = t"
proof -
  have o: "odd (unat tag div 2 ^ 29)" using string_tagD(4) [OF assms(1)] assms(2) by simp
  then show n: "unat (tag AND NOT CBS_ASN1_CONSTRUCTED) = t" using unat_primitive [of tag] assms(2) by simp
  then have "is_string_type tag" using assms(1) by (simp add: is_string_type_iff)
  then show "unat (out_tag tag) = t" "child_tag tag = out_tag tag"
    using o n constructed_bit [of tag] by (simp_all add: out_tag_def child_tag_def)
qed

lemma deeper: "unat dep + Suc d \<le> 2048 \<Longrightarrow> unat (dep + 1) + d \<le> 2048 \<and> \<not> dep + 1 > kMaxDepth"
proof -
  assume a: "unat dep + Suc d \<le> 2048"
  then have "unat (dep + 1) = unat dep + 1" by (simp add: unat_word_ariths)
  with a show ?thesis by (simp add: kMaxDepth_def word_less_nat_alt)
qed

lemma start_any: "yields cview croom (c', s) r g k v \<Longrightarrow> yields cview croom (c, s) r g k v"
  by (auto simp: yields_def split: prod.splits option.splits)

definition ending :: "bool \<Rightarrow> bytes \<Rightarrow> bytes" where
  "ending eoc rest = (if eoc then [0, 0] @ rest else [])"

definition after :: "bool \<Rightarrow> bytes \<Rightarrow> bytes" where
  "after eoc rest = (if eoc then rest else [])"

text \<open>\<open>fill\<close> converts the contents \<open>y\<close> of a constructed element and leaves \<open>rest\<close>.\<close>

definition fill_ok :: "bytes \<Rightarrow> bytes \<Rightarrow> u32 \<Rightarrow> (nat \<Rightarrow> u32 \<Rightarrow> conv_st \<Rightarrow> unit option \<times> conv_st) \<Rightarrow> cbs \<Rightarrow> bool" where
  "fill_ok y rest d fill c1 \<longleftrightarrow> (\<forall>a ch s g k A.
     (\<forall>e c0 r. cbs_view c0 (y @ ending e r) \<longrightarrow>
        yields cview croom (c0, s) (cbs_convert_ber a ch e (d + 1) (c0, s)) g k (after e r, A)) \<longrightarrow>
     yields cview croom (c1, s) (fill a ch (c1, s)) g k (rest, A))"

lemma fill_okD:
  assumes "fill_ok y rest d fill c1"
    and "\<And>e c0 r. cbs_view c0 (y @ ending e r) \<Longrightarrow>
        yields cview croom (c0, s) (cbs_convert_ber a ch e (d + 1) (c0, s)) g k (after e r, A)"
  shows "yields cview croom (c1, s) (fill a ch (c1, s)) g k (rest, A)"
  using assms unfolding fill_ok_def by blast

lemma loop_ends:
  assumes "cbs_view c (ending eoc rest)" and "sview s A"
  shows "yields cview croom (c, s) (convert_ber_loop h st eoc d (c, s)) True 0 (after eoc rest, A)"
proof (cases eoc)
  case True
  from assms(1) True obtain c' where "cbs_view c' rest"
    "\<And>out st eoc d s. convert_ber_loop out st eoc d (c, s) = (if eoc then Some () else None, (c', s))"
    by (auto simp: ending_def elim: loop_eoc [of c rest, simplified])
  with True assms(2) show ?thesis by (simp add: after_def)
next
  case False
  with assms loop_nil [of c h st eoc d s] show ?thesis by (simp add: ending_def after_def)
qed

lemma loop_definite_constr:
  assumes "cbs_view c (tag_enc t @ lf @ x @ rest)" and "t < 2 ^ 32" and "len_form lf (length x)"
    and "odd (t div 2 ^ 29)"
  obtains c' k tag where "cbs_view c' rest" "cbs_view k x" "unat tag = t"
    "\<And>out st eoc d s. convert_ber_loop out st eoc d (c, s) =
       element_body out st eoc d tag (\<lambda>a ch (c, s). keep c (cbs_convert_ber a ch False (d + 1) (k, s))) (c', s)"
proof -
  have "tag_enc t @ lf @ x \<noteq> [0, 0]" using tag_enc_eoc [OF assms(2)] assms(4) by force
  from loop_definite [OF assms(1-3) this] obtain c' k tag where e: "cbs_view c' rest" "cbs_view k x" "unat tag = t"
    "\<And>out st eoc d s. convert_ber_loop out st eoc d (c, s) = element_body out st eoc d tag
       (if odd (t div 2 ^ 29) then (\<lambda>a ch (c, s). keep c (cbs_convert_ber a ch False (d + 1) (k, s)))
        else (\<lambda>a ch. on_cbb (CBB_add_bytes a (cbs_data k) (cbs_len k)))) (c', s)" by blast
  show thesis by (rule that [OF e(1-3)]) (simp only: e(4) assms(4) simp_thms if_True)
qed

lemma loop_definite_prim:
  assumes "cbs_view c (tag_enc t @ lf @ x @ rest)" and "t < 2 ^ 32" and "len_form lf (length x)"
    and "tag_enc t @ lf @ x \<noteq> [0, 0]" and "even (t div 2 ^ 29)"
  obtains c' k tag where "cbs_view c' rest" "cbs_view k x" "unat tag = t"
    "\<And>out st eoc d s. convert_ber_loop out st eoc d (c, s) =
       element_body out st eoc d tag (\<lambda>a ch. on_cbb (CBB_add_bytes a (cbs_data k) (cbs_len k))) (c', s)"
proof -
  from loop_definite [OF assms(1-4)] obtain c' k tag where e: "cbs_view c' rest" "cbs_view k x" "unat tag = t"
    "\<And>out st eoc d s. convert_ber_loop out st eoc d (c, s) = element_body out st eoc d tag
       (if odd (t div 2 ^ 29) then (\<lambda>a ch (c, s). keep c (cbs_convert_ber a ch False (d + 1) (k, s)))
        else (\<lambda>a ch. on_cbb (CBB_add_bytes a (cbs_data k) (cbs_len k)))) (c', s)" by blast
  show thesis by (rule that [OF e(1-3)]) (simp only: e(4) assms(5) simp_thms if_False)
qed

lemma constr_loop:
  assumes "constr_form t y w" and "t < 2 ^ 32" and "odd (t div 2 ^ 29)" and "cbs_view c (w @ rest)"
  obtains tag c1 b1 and fill :: "u32 \<Rightarrow> nat \<Rightarrow> u32 \<Rightarrow> conv_st \<Rightarrow> unit option \<times> conv_st" where "unat tag = t" "cbs_view c1 b1"
    "\<And>out st eoc d s. convert_ber_loop out st eoc d (c, s) = element_body out st eoc d tag (fill d) (c1, s)"
    "\<And>d. fill_ok y rest d (fill d) c1"
  using assms(1) unfolding constr_form_def
proof (elim disjE exE conjE)
  fix lf
  assume lf: "len_form lf (length y)" "w = tag_enc t @ lf @ y"
  have v: "cbs_view c (tag_enc t @ lf @ y @ rest)" using assms(4) lf(2) by simp
  obtain c' k tag where e: "cbs_view c' rest" "cbs_view k y" "unat tag = t"
    "\<And>out st eoc d s. convert_ber_loop out st eoc d (c, s) =
       element_body out st eoc d tag (\<lambda>a ch (c, s). keep c (cbs_convert_ber a ch False (d + 1) (k, s))) (c', s)"
    using loop_definite_constr [OF v assms(2) lf(1) assms(3)] by blast
  have "fill_ok y rest d (\<lambda>a ch (c, s). keep c (cbs_convert_ber a ch False (d + 1) (k, s))) c'" for d
    unfolding fill_ok_def prod.case
  proof (intro allI impI, rule keep_yields [OF e(1), where c = k and bs' = "[]"], goal_cases)
    case (1 a ch s g k' A)
    from 1 [rule_format, of k False "[]"] e(2) show ?case by (simp add: ending_def after_def)
  qed
  then show thesis by (rule that [OF e(3,1,4)])
next
  assume w: "w = tag_enc t @ [0x80] @ y @ [0, 0]"
  have v: "cbs_view c (tag_enc t @ 0x80 # y @ [0, 0] @ rest)" using assms(4) w by simp
  obtain c' tag where e: "cbs_view c' (y @ [0, 0] @ rest)" "unat tag = t"
    "\<And>out st eoc d s. convert_ber_loop out st eoc d (c, s) =
       element_body out st eoc d tag (\<lambda>a ch. cbs_convert_ber a ch True (d + 1)) (c', s)"
    using loop_indefinite [OF v assms(2,3)] by blast
  have "fill_ok y rest d (\<lambda>a ch. cbs_convert_ber a ch True (d + 1)) c'" for d
    unfolding fill_ok_def
  proof (intro allI impI, goal_cases)
    case (1 a ch s g k A)
    from 1 [rule_format, of c' True rest] e(1) show ?case by (simp add: ending_def after_def)
  qed
  then show thesis by (rule that [OF e(2,1,3)])
qed

lemma add_primitive_yields:
  assumes "sview s (up @ [(h, p, x)])" and "cbs_view c rest" and "cbs_view k y"
  shows "yields cview croom (c, s) (on_cbb (CBB_add_bytes h (cbs_data k) (cbs_len k)) (c, s)) True (length y)
    (rest, up @ [(h, p, x @ y)])"
proof -
  have "unat (cbs_len k) = length y" "take (length y) (cbs_data k) = y" "length y \<le> length (cbs_data k)"
    using cbs_view_len [OF assms(3)] cbs_view_data [OF assms(3)] by simp_all
  then show ?thesis
    using CBB_add_bytes_yields [of s up h p x "[]" "cbs_len k" "cbs_data k"] assms(1)
    by (intro on_cbb_yields assms(2)) simp
qed

lemma frag_yields:
  assumes "frag d t z bs"
  shows "unat st = t \<Longrightarrow> t \<in> string_tags \<Longrightarrow> unat dep + d \<le> 2048 \<Longrightarrow> sview s (up @ [(h, p, x)]) \<Longrightarrow>
    cbs_view c (bs @ ending eoc rest) \<Longrightarrow>
    yields cview croom (c, s) (convert_ber_loop h st eoc dep (c, s)) True (length z)
      (after eoc rest, up @ [(h, p, x @ z)])"
  using assms
proof (induction arbitrary: dep s up h p x c eoc rest rule: frag.induct)
  case (frag_nil d t)
  then show ?case using loop_ends [of c eoc rest s] by simp
next
  case (frag_prim lf x' d t z bs)
  note t = string_tagD [OF frag_prim.prems(2)]
  have ne: "tag_enc t @ lf @ x' \<noteq> [0, 0]" using tag_enc_eoc [OF t(6)] t(1) by force
  have v: "cbs_view c (tag_enc t @ lf @ x' @ bs @ ending eoc rest)" using frag_prim.prems(5) by simp
  obtain c' k tag where e: "cbs_view c' (bs @ ending eoc rest)" "cbs_view k x'" "unat tag = t"
    "\<And>out st eoc d s. convert_ber_loop out st eoc d (c, s) =
       element_body out st eoc d tag (\<lambda>a ch. on_cbb (CBB_add_bytes a (cbs_data k) (cbs_len k))) (c', s)"
    using loop_definite_prim [OF v t(6) frag_prim.hyps(1) ne t(3)] by blast
  have st: "tag AND NOT CBS_ASN1_CONSTRUCTED = st" "st \<noteq> 0"
    using e(3) frag_prim.prems(1) t(1,3) primitive_tags(3) [of tag] by (auto simp: unat_eq_0 intro: word_unat_eq_iff [THEN iffD2])
  have "yields cview croom (c, s) (convert_ber_loop h st eoc dep (c, s)) (True \<and> True) (length x' + length z)
      (after eoc rest, up @ [(h, p, x @ x' @ z)])"
    unfolding e(4)
  proof (rule start_any, rule fragment_yields [where y = x' and g = True and ?b2.0 = "bs @ ending eoc rest", OF frag_prim.prems(4) e(1) st], goal_cases)
    case 1
    show ?case by (rule add_primitive_yields [OF frag_prim.prems(4) e(1,2)])
  next
    case (2 c2 s2)
    then show ?case by (intro frag_prim.IH frag_prim.prems(1-3))
  qed
  then show ?case by simp
next
  case (frag_constr d t x' y w z bs)
  note t = string_tagD [OF frag_constr.prems(2)]
  have v: "cbs_view c (w @ bs @ ending eoc rest)" using frag_constr.prems(5) by simp
  obtain tag c1 b1 and fill :: "u32 \<Rightarrow> nat \<Rightarrow> u32 \<Rightarrow> conv_st \<Rightarrow> unit option \<times> conv_st" where e: "unat tag = t + 2 ^ 29" "cbs_view c1 b1"
    "\<And>out st eoc d s. convert_ber_loop out st eoc d (c, s) = element_body out st eoc d tag (fill d) (c1, s)"
    "\<And>d. fill_ok y (bs @ ending eoc rest) d (fill d) c1"
    using constr_loop [OF frag_constr.hyps(2) t(5,4) v] by blast
  have st: "tag AND NOT CBS_ASN1_CONSTRUCTED = st" "st \<noteq> 0"
    using string_tags_of(3) [OF frag_constr.prems(2) e(1)] frag_constr.prems(1) t(1)
    by (auto intro: word_unat_eq_iff [THEN iffD2])
  have "yields cview croom (c, s) (convert_ber_loop h st eoc dep (c, s)) (True \<and> True) (length x' + length z)
      (after eoc rest, up @ [(h, p, x @ x' @ z)])"
    unfolding e(3)
  proof (rule start_any, rule fragment_yields [where y = x' and g = True and ?b2.0 = "bs @ ending eoc rest", OF frag_constr.prems(4) e(2) st], goal_cases)
    case 1
    show ?case
    proof (rule fill_okD [OF e(4)])
      fix ec c0 r
      assume "cbs_view c0 (y @ ending ec r)"
      then show "yields cview croom (c0, s) (cbs_convert_ber h st ec (dep + 1) (c0, s)) True (length x')
        (after ec r, up @ [(h, p, x @ x')])"
        using frag_constr.IH(1) [OF frag_constr.prems(1,2) _ frag_constr.prems(4), of "dep + 1" c0 ec r]
          deeper [OF frag_constr.prems(3)] by (simp add: cbs_convert_ber.simps)
    qed
  next
    case (2 c2 s2)
    then show ?case by (intro frag_constr.IH(2) frag_constr.prems(1-3))
  qed
  then show ?case by simp
qed

lemma prim_element_yields:
  assumes el: "t < 2 ^ 32" "even (t div 2 ^ 29)" "len_form lf (length y)" "tag_enc t @ lf @ y \<noteq> [0, 0]"
    and s: "sview s (up @ [(h, p, x)])" and c: "cbs_view c (tag_enc t @ lf @ y @ b2)"
    and loop: "\<And>c2 s2. cbs_view c2 b2 \<Longrightarrow> sview s2 (up @ [(h, p, x @ der_enc t y)]) \<Longrightarrow>
      yields cview croom (c2, s2) (convert_ber_loop h 0 eoc d (c2, s2)) g (length z)
        (b3, up @ [(h, p, (x @ der_enc t y) @ z)])"
  shows "yields cview croom (c, s) (convert_ber_loop h 0 eoc d (c, s)) (length y \<le> 0xfffffffe \<and> g)
    (length (der_enc t y) + length z) (b3, up @ [(h, p, x @ der_enc t y @ z)])"
proof -
  obtain c' k tag where e: "cbs_view c' b2" "cbs_view k y" "unat tag = t"
    "\<And>out st eoc d s. convert_ber_loop out st eoc d (c, s) =
       element_body out st eoc d tag (\<lambda>a ch. on_cbb (CBB_add_bytes a (cbs_data k) (cbs_len k))) (c', s)"
    using loop_definite_prim [OF c el(1,3,4,2)] by blast
  have o: "out_tag tag = tag" using primitive_tags el(2) e(3) by simp
  have "yields cview croom (c, s) (convert_ber_loop h 0 eoc d (c, s)) (True \<and> length y \<le> 0xfffffffe \<and> g)
      (length (der_enc (unat (out_tag tag)) y) + length z) (b3, up @ [(h, p, x @ der_enc (unat (out_tag tag)) y @ z)])"
    unfolding e(4)
  proof (rule start_any, rule element_yields [where y = y and g = True and ?b2.0 = b2, OF s e(1)], goal_cases)
    case (1 a x' s1)
    then show ?case using add_primitive_yields [of s1 "up @ [(h, p, x')]" a Asn1_len "[]", OF _ e(1,2)] by simp
  next
    case (2 c2 s2)
    then show ?case using loop o e(3) by simp
  qed
  then show ?thesis using o e(3) by simp
qed

lemma constr_element_yields:
  assumes form: "constr_form t y w" "t < 2 ^ 32" "odd (t div 2 ^ 29)"
    and s: "sview s (up @ [(h, p, x)])" and c: "cbs_view c (w @ b2)"
    and out: "\<And>tag. unat tag = t \<Longrightarrow> unat (out_tag tag) = t'"
    and child: "\<And>tag a x' s1 e c0 r. unat tag = t \<Longrightarrow> sview s1 (up @ [(h, p, x'), (a, Asn1_len, [])]) \<Longrightarrow>
      cbs_view c0 (y @ ending e r) \<Longrightarrow>
      yields cview croom (c0, s1) (cbs_convert_ber a (child_tag tag) e (d + 1) (c0, s1)) g (length q)
        (after e r, up @ [(h, p, x'), (a, Asn1_len, q)])"
    and loop: "\<And>c2 s2. cbs_view c2 b2 \<Longrightarrow> sview s2 (up @ [(h, p, x @ der_enc t' q)]) \<Longrightarrow>
      yields cview croom (c2, s2) (convert_ber_loop h 0 eoc d (c2, s2)) g2 (length z)
        (b3, up @ [(h, p, (x @ der_enc t' q) @ z)])"
  shows "yields cview croom (c, s) (convert_ber_loop h 0 eoc d (c, s)) (g \<and> length q \<le> 0xfffffffe \<and> g2)
    (length (der_enc t' q) + length z) (b3, up @ [(h, p, x @ der_enc t' q @ z)])"
proof -
  obtain tag c1 b1 and fill :: "u32 \<Rightarrow> nat \<Rightarrow> u32 \<Rightarrow> conv_st \<Rightarrow> unit option \<times> conv_st" where e: "unat tag = t" "cbs_view c1 b1"
    "\<And>out st eoc d s. convert_ber_loop out st eoc d (c, s) = element_body out st eoc d tag (fill d) (c1, s)"
    "\<And>d. fill_ok y b2 d (fill d) c1"
    using constr_loop [OF form c] by blast
  note o = out [OF e(1)]
  show ?thesis
    unfolding e(3) o [symmetric]
  proof (rule start_any, rule element_yields [where y = q and g = g and ?b2.0 = b2, OF s e(2)], goal_cases)
    case (1 a x' s1)
    then show ?case by (intro fill_okD [OF e(4)] child [OF e(1)])
  next
    case (2 c2 s2)
    then show ?case using loop unfolding o by blast
  qed
qed

lemma ber_yields:
  assumes "ber d ts bs"
  shows "unat dep + d \<le> 2048 \<Longrightarrow> sview s (up @ [(h, p, x)]) \<Longrightarrow> cbs_view c (bs @ ending eoc rest) \<Longrightarrow>
    yields cview croom (c, s) (convert_ber_loop h 0 eoc dep (c, s)) (list_all fits ts) (length (ders ts))
      (after eoc rest, up @ [(h, p, x @ ders ts)])"
  using assms
proof (induction arbitrary: dep s up h p x c eoc rest rule: ber.induct)
  case (ber_nil d)
  then show ?case using loop_ends [of c eoc rest s] by simp
next
  case (ber_prim t lf y d ts bs)
  have v: "cbs_view c (tag_enc t @ lf @ y @ bs @ ending eoc rest)" using ber_prim.prems(3) by simp
  from prim_element_yields [OF ber_prim.hyps(1-4) ber_prim.prems(2) v ber_prim.IH [OF ber_prim.prems(1)]]
  show ?case by simp
next
  case (ber_constr t d us y w ts bs)
  have v: "cbs_view c (w @ bs @ ending eoc rest)" using ber_constr.prems(3) by simp
  have o: "out_tag tag = tag" "child_tag tag = 0" if "unat tag = t" for tag
    using constructed_tags ber_constr.hyps(2,3) that by simp_all
  have "yields cview croom (c0, s1) (cbs_convert_ber a (child_tag tag) e (dep + 1) (c0, s1)) (list_all fits us)
      (length (ders us)) (after e r, up @ [(h, p, x'), (a, Asn1_len, ders us)])"
    if "unat tag = t" "sview s1 (up @ [(h, p, x'), (a, Asn1_len, [])])" "cbs_view c0 (y @ ending e r)" for tag a x' s1 e c0 r
    using ber_constr.IH(1) [of "dep + 1" s1 "up @ [(h, p, x')]" a Asn1_len "[]" c0 e r] that
      deeper [OF ber_constr.prems(1)] by (simp add: cbs_convert_ber.simps o)
  from constr_element_yields [OF ber_constr.hyps(5,1,2) ber_constr.prems(2) v _ this ber_constr.IH(2) [OF ber_constr.prems(1)]]
  show ?case using o(1) by (simp add: conj_ac)
next
  case (ber_string t d z y w ts bs)
  note t = string_tagD [OF ber_string.hyps(1)] and o = string_tags_of [OF ber_string.hyps(1)]
  have v: "cbs_view c (w @ bs @ ending eoc rest)" using ber_string.prems(3) by simp
  have "yields cview croom (c0, s1) (cbs_convert_ber a (child_tag tag) e (dep + 1) (c0, s1)) True (length z)
      (after e r, up @ [(h, p, x'), (a, Asn1_len, z)])"
    if "unat tag = t + 2 ^ 29" "sview s1 (up @ [(h, p, x'), (a, Asn1_len, [])])" "cbs_view c0 (y @ ending e r)" for tag a x' s1 e c0 r
    using frag_yields [OF ber_string.hyps(2) o(1) ber_string.hyps(1), of tag "dep + 1" s1 "up @ [(h, p, x')]" a Asn1_len "[]" c0 e r]
      that deeper [OF ber_string.prems(1)] by (simp add: cbs_convert_ber.simps o(2))
  from constr_element_yields [OF ber_string.hyps(3) t(5,4) ber_string.prems(2) v o(1) this ber_string.IH [OF ber_string.prems(1)]]
  show ?case by simp
qed

subsection \<open>What the conversion accepts\<close>

definition parses :: "u32 \<Rightarrow> nat \<Rightarrow> bytes \<Rightarrow> bool" where
  "parses st d y \<longleftrightarrow> (if st = 0 then \<exists>ts. ber d ts y else \<exists>z. frag d (unat st) z y)"

definition mode_ok :: "u32 \<Rightarrow> bool" where
  "mode_ok st \<longleftrightarrow> st = 0 \<or> unat st \<in> string_tags"

text \<open>\<open>accepts\<close> is the claim for one run, \<open>sound n\<close> the induction hypothesis for inputs shorter than \<open>n\<close>.\<close>

definition accepts :: "u32 \<Rightarrow> bool \<Rightarrow> nat \<Rightarrow> bytes \<Rightarrow> cbs \<Rightarrow> bool" where
  "accepts st eoc d bs c' \<longleftrightarrow> (\<exists>y rest. bs = y @ ending eoc rest \<and> (eoc \<longrightarrow> cbs_view c' rest) \<and> parses st d y)"

definition sound :: "nat \<Rightarrow> bool" where
  "sound n \<longleftrightarrow> (\<forall>bs c h st eoc dep d s u c' s'. length bs < n \<longrightarrow> cbs_view c bs \<longrightarrow> mode_ok st \<longrightarrow>
     unat dep + d = 2048 \<longrightarrow> convert_ber_loop h st eoc dep (c, s) = (Some u, (c', s')) \<longrightarrow> accepts st eoc d bs c')"

lemma soundD:
  "sound n \<Longrightarrow> length bs < n \<Longrightarrow> cbs_view c bs \<Longrightarrow> mode_ok st \<Longrightarrow> unat dep + d = 2048 \<Longrightarrow>
   convert_ber_loop h st eoc dep (c, s) = (Some u, (c', s')) \<Longrightarrow> accepts st eoc d bs c'"
  unfolding sound_def by blast

lemma convert_success:
  assumes "cbs_convert_ber h st eoc (dep + 1) x = (Some u, y)" and "unat dep + d = 2048"
  obtains d' where "d = Suc d'" "unat (dep + 1) + d' = 2048"
    "convert_ber_loop h st eoc (dep + 1) x = (Some u, y)"
proof -
  have k: "\<not> dep + 1 > kMaxDepth" "convert_ber_loop h st eoc (dep + 1) x = (Some u, y)"
    using assms(1) by (auto simp: cbs_convert_ber.simps split: if_splits)
  have "unat (dep + 1) = unat dep + 1" using assms(2) by (simp add: unat_word_ariths)
  with k assms(2) show thesis
    by (intro that [of "d - 1"]) (auto simp: kMaxDepth_def word_less_nat_alt)
qed

lemma open_element_tags:
  assumes "open_element out st tag s = (Some (a, ch), s1)"
  shows "st = 0 \<and> ch = child_tag tag \<or> st \<noteq> 0 \<and> tag AND NOT CBS_ASN1_CONSTRUCTED = st \<and> ch = st"
  using assms by (auto simp: open_element_def child_tag_def out_tag_def Let_def and_then_Some_iff split: if_splits)

lemma on_cbb_SomeE:
  assumes "on_cbb f (c, s) = (Some x, st)"
  obtains s' where "f s = (Some x, s')" "st = (c, s')"
  using assms by (auto simp: on_cbb_def split: prod.splits)

lemma element_body_success:
  assumes "element_body out st eoc d tag fill (c, s) = (Some u, fin)"
  obtains a ch s1 v c2 s2 s3 where "fill a ch (c, s1) = (Some v, (c2, s2))"
    "st = 0 \<and> ch = child_tag tag \<or> st \<noteq> 0 \<and> tag AND NOT CBS_ASN1_CONSTRUCTED = st \<and> ch = st"
    "convert_ber_loop out st eoc d (c2, s3) = (Some u, fin)"
proof -
  obtain a ch st1 v st2 w st3 where 1: "on_cbb (open_element out st tag) (c, s) = (Some (a, ch), st1)"
      and 2: "fill a ch st1 = (Some v, st2)" and 3: "on_cbb (CBB_flush out) st2 = (Some w, st3)"
      and 4: "convert_ber_loop out st eoc d st3 = (Some u, fin)"
    using assms by (auto simp: element_body_def and_then_Some_iff)
  obtain c2 s2 where st2: "st2 = (c2, s2)" by fastforce
  obtain s1 where s1: "open_element out st tag s = (Some (a, ch), s1)" "st1 = (c, s1)" by (rule on_cbb_SomeE [OF 1])
  obtain s3 where s3: "st3 = (c2, s3)" using 3 st2 by (auto elim: on_cbb_SomeE)
  show thesis using that open_element_tags [OF s1(1)] 2 4 s1(2) s3 st2 by blast
qed

lemma child_mode:
  assumes "mode_ok st" and "st = 0 \<and> ch = child_tag tag \<or> st \<noteq> 0 \<and> tag AND NOT CBS_ASN1_CONSTRUCTED = st \<and> ch = st"
  shows "mode_ok ch"
  using assms by (auto simp: mode_ok_def child_tag_def out_tag_def is_string_type_iff)

lemma parses_constr:
  assumes "constr_form (unat tag) y w" and "odd (unat tag div 2 ^ 29)" and "mode_ok st"
    and ch: "st = 0 \<and> ch = child_tag tag \<or> st \<noteq> 0 \<and> tag AND NOT CBS_ASN1_CONSTRUCTED = st \<and> ch = st"
    and "parses ch d y" and "parses st (Suc d) bs"
  shows "parses st (Suc d) (w @ bs)"
proof -
  have big: "2 ^ 29 \<le> unat tag" using assms(2) by (metis div_less dvd_0_right not_less)
  then have n: "unat tag = unat (tag AND NOT CBS_ASN1_CONSTRUCTED) + 2 ^ 29"
    using unat_primitive [of tag] assms(2) by simp
  have con: "tag AND CBS_ASN1_CONSTRUCTED \<noteq> 0" using constructed_bit [of tag] assms(2) by simp
  consider "st \<noteq> 0" "ch = st" "unat tag = unat st + 2 ^ 29"
    | "st = 0" "ch = 0" "unat tag - 2 ^ 29 \<notin> string_tags"
    | "st = 0" "ch \<noteq> 0" "unat ch \<in> string_tags" "unat tag = unat ch + 2 ^ 29"
  proof (cases "is_string_type tag")
    case True
    then have "child_tag tag = tag AND NOT CBS_ASN1_CONSTRUCTED" "unat (tag AND NOT CBS_ASN1_CONSTRUCTED) \<in> string_tags"
      using con by (simp_all add: child_tag_def out_tag_def is_string_type_iff)
    moreover from this(2) have "tag AND NOT CBS_ASN1_CONSTRUCTED \<noteq> 0" using string_tagD(1) by fastforce
    ultimately show thesis using ch n that(1,3) by metis
  next
    case False
    then have "child_tag tag = 0" "unat tag - 2 ^ 29 \<notin> string_tags"
      using n by (auto simp: child_tag_def is_string_type_iff)
    then show thesis using ch n that(1,2) by metis
  qed
  then show ?thesis
  proof cases
    case 1
    then show ?thesis using assms(1,5,6) frag_constr by (auto simp: parses_def) blast
  next
    case 2
    then show ?thesis using assms(1,2,5,6) ber_constr [of "unat tag"] u32_less [of tag] by (auto simp: parses_def) blast
  next
    case 3
    then show ?thesis using assms(1,5,6) ber_string [of "unat ch"] by (auto simp: parses_def) blast
  qed
qed

lemma parses_prim:
  assumes "len_form lf (length x)" and "even (unat tag div 2 ^ 29)" and "tag_enc (unat tag) @ lf @ x \<noteq> [0, 0]"
    and "st \<noteq> 0 \<longrightarrow> tag AND NOT CBS_ASN1_CONSTRUCTED = st" and "parses st d bs"
  shows "parses st d (tag_enc (unat tag) @ lf @ x @ bs)"
proof -
  show ?thesis
  proof (cases "st = 0")
    case True
    with ber_prim [OF u32_less assms(2,1,3)] assms(5) show ?thesis by (auto simp: parses_def)
  next
    case False
    with assms(4) primitive_tags(3) [OF assms(2)] have "st = tag" by simp
    with False frag_prim [OF assms(1)] assms(5) show ?thesis by (auto simp: parses_def) blast
  qed
qed

lemma accepts_cons:
  assumes "accepts st eoc d bs c'" and "\<And>y. parses st d y \<Longrightarrow> parses st d (w @ y)"
  shows "accepts st eoc d (w @ bs) c'"
  using assms unfolding accepts_def by (metis append_assoc)

lemma accepts_end: "(eoc \<Longrightarrow> cbs_view c' rest) \<Longrightarrow> accepts st eoc d (ending eoc rest) c'"
  unfolding accepts_def parses_def using ber_nil [of d] frag_nil [of d "unat st"]
  by (intro exI [of _ "[]"] exI [of _ rest]) auto

lemma sound_definite:
  assumes IH: "sound (length bs)" and c: "cbs_view c bs" and bs: "bs = tag_enc t @ lf @ x @ r"
    and t: "t < 2 ^ 32" and lf: "len_form lf (length x)" and ne: "tag_enc t @ lf @ x \<noteq> [0, 0]"
    and st: "mode_ok st" and d: "unat dep + d = 2048"
    and run: "convert_ber_loop h st eoc dep (c, s) = (Some u, (c', s'))"
  shows "accepts st eoc d bs c'"
proof (cases "odd (t div 2 ^ 29)")
  case True
  obtain c1 k tag where e: "cbs_view c1 r" "cbs_view k x" "unat tag = t"
    "\<And>out st eoc d s. convert_ber_loop out st eoc d (c, s) =
       element_body out st eoc d tag (\<lambda>a ch (c, s). keep c (cbs_convert_ber a ch False (d + 1) (k, s))) (c1, s)"
    using loop_definite_constr [OF c [unfolded bs] t lf True] by blast
  obtain a ch s1 v c2 s2 s3 where f: "keep c1 (cbs_convert_ber a ch False (dep + 1) (k, s1)) = (Some v, (c2, s2))"
    "st = 0 \<and> ch = child_tag tag \<or> st \<noteq> 0 \<and> tag AND NOT CBS_ASN1_CONSTRUCTED = st \<and> ch = st"
    "convert_ber_loop h st eoc dep (c2, s3) = (Some u, (c', s'))"
    using run unfolding e(4) by (auto elim: element_body_success)
  then obtain k' where f': "cbs_convert_ber a ch False (dep + 1) (k, s1) = (Some v, (k', s2))" "c2 = c1"
    by (auto simp: keep_def split: prod.splits)
  obtain d' where d': "d = Suc d'" "unat (dep + 1) + d' = 2048"
    "convert_ber_loop a ch False (dep + 1) (k, s1) = (Some v, (k', s2))"
    by (rule convert_success [OF f'(1) d])
  have l: "length x < length bs" "length r < length bs" using bs lf by (auto simp: len_form_def)
  have "accepts ch False d' x k'" by (rule soundD [OF IH l(1) e(2) child_mode [OF st f(2)] d'(2,3)])
  then have "parses ch d' x" by (auto simp: accepts_def ending_def)
  moreover have "accepts st eoc d r c'" using soundD [OF IH l(2) e(1) st d] f(3) f'(2) by blast
  moreover have "constr_form t x (tag_enc t @ lf @ x)" using lf by (auto simp: constr_form_def)
  ultimately have "accepts st eoc d ((tag_enc t @ lf @ x) @ r) c'"
    using parses_constr [OF _ _ st f(2)] e(3) True d'(1) by (intro accepts_cons) blast+
  then show ?thesis using bs by simp
next
  case False
  obtain c1 k tag where e: "cbs_view c1 r" "cbs_view k x" "unat tag = t"
    "\<And>out st eoc d s. convert_ber_loop out st eoc d (c, s) =
       element_body out st eoc d tag (\<lambda>a ch. on_cbb (CBB_add_bytes a (cbs_data k) (cbs_len k))) (c1, s)"
    using loop_definite_prim [OF c [unfolded bs] t lf ne] False by blast
  obtain a ch s1 v c2 s2 s3 where f: "on_cbb (CBB_add_bytes a (cbs_data k) (cbs_len k)) (c1, s1) = (Some v, (c2, s2))"
    "st = 0 \<and> ch = child_tag tag \<or> st \<noteq> 0 \<and> tag AND NOT CBS_ASN1_CONSTRUCTED = st \<and> ch = st"
    "convert_ber_loop h st eoc dep (c2, s3) = (Some u, (c', s'))"
    using run unfolding e(4) by (auto elim: element_body_success)
  have "c2 = c1" using f(1) by (auto elim: on_cbb_SomeE)
  moreover have "length r < length bs" using bs lf by (auto simp: len_form_def)
  ultimately have "accepts st eoc d r c'" using soundD [OF IH _ e(1) st d] f(3) by blast
  then have "accepts st eoc d ((tag_enc t @ lf @ x) @ r) c'"
    using parses_prim [OF lf, of tag st d] e(3) False ne f(2) by (intro accepts_cons) auto
  then show ?thesis using bs by simp
qed

lemma sound_indefinite:
  assumes IH: "sound (length bs)" and c: "cbs_view c bs" and bs: "bs = tag_enc t @ 0x80 # r"
    and t: "t < 2 ^ 32" and o: "odd (t div 2 ^ 29)"
    and st: "mode_ok st" and d: "unat dep + d = 2048"
    and run: "convert_ber_loop h st eoc dep (c, s) = (Some u, (c', s'))"
  shows "accepts st eoc d bs c'"
proof -
  obtain c1 tag where e: "cbs_view c1 r" "unat tag = t"
    "\<And>out st eoc d s. convert_ber_loop out st eoc d (c, s) =
       element_body out st eoc d tag (\<lambda>a ch. cbs_convert_ber a ch True (d + 1)) (c1, s)"
    using loop_indefinite [OF c [unfolded bs] t o] by blast
  obtain a ch s1 v c2 s2 s3 where f: "cbs_convert_ber a ch True (dep + 1) (c1, s1) = (Some v, (c2, s2))"
    "st = 0 \<and> ch = child_tag tag \<or> st \<noteq> 0 \<and> tag AND NOT CBS_ASN1_CONSTRUCTED = st \<and> ch = st"
    "convert_ber_loop h st eoc dep (c2, s3) = (Some u, (c', s'))"
    using run unfolding e(3) by (auto elim: element_body_success)
  obtain d' where d': "d = Suc d'" "unat (dep + 1) + d' = 2048"
    "convert_ber_loop a ch True (dep + 1) (c1, s1) = (Some v, (c2, s2))"
    by (rule convert_success [OF f(1) d])
  have l: "length r < length bs" using bs by simp
  have "accepts ch True d' r c2" by (rule soundD [OF IH l e(1) child_mode [OF st f(2)] d'(2,3)])
  then obtain y r' where y: "r = y @ [0, 0] @ r'" "cbs_view c2 r'" "parses ch d' y"
    by (auto simp: accepts_def ending_def)
  have "accepts st eoc d r' c'" using soundD [OF IH _ y(2) st d f(3)] l y(1) by simp
  moreover have "constr_form t y (tag_enc t @ [0x80] @ y @ [0, 0])" by (simp add: constr_form_def)
  ultimately have "accepts st eoc d ((tag_enc t @ [0x80] @ y @ [0, 0]) @ r') c'"
    using parses_constr [OF _ _ st f(2)] e(2) o d'(1) y(3) by (intro accepts_cons) blast+
  then show ?thesis using bs y(1) by simp
qed

lemma convert_sound:
  assumes "cbs_view c bs" "mode_ok st" "unat dep + d = 2048"
    "convert_ber_loop h st eoc dep (c, s) = (Some u, (c', s'))"
  shows "accepts st eoc d bs c'"
proof -
  have "sound n" for n
  proof (induction n)
    case (Suc n)
    have "accepts st eoc d bs c'" if l: "length bs = n" and c: "cbs_view c bs" and st: "mode_ok st"
      and d: "unat dep + d = 2048" and run: "convert_ber_loop h st eoc dep (c, s) = (Some u, (c', s'))"
      for bs c h st eoc dep d s u c' s'
    proof (cases "p_element True bs")
      case None
      with loop_fails [OF c, of h st eoc dep s] run have b: "bs = []" by auto
      with loop_nil [of c h st eoc dep s] c run have "\<not> eoc" by (auto split: if_splits)
      then show ?thesis using b accepts_end [of eoc c' "[]" st d] by (simp add: ending_def)
    next
      case (Some a)
      then obtain x t hl b r where p: "p_element True bs = Some ((x, t, hl, b), r)" by (cases a) auto
      note p' = p_element_ber_sound [OF p]
      consider lf y where "len_form lf (length y)" "bs = tag_enc t @ lf @ y @ r" | "odd (t div 2 ^ 29)" "bs = tag_enc t @ 0x80 # r"
        using p' by auto
      then show ?thesis
      proof cases
        case (1 lf y)
        show ?thesis
        proof (cases "tag_enc t @ lf @ y = [0, 0]")
          case True
          then have b: "bs = [0, 0] @ r" using 1(2) by (metis append_assoc)
          obtain c1 where "cbs_view c1 r"
            "convert_ber_loop h st eoc dep (c, s) = (if eoc then Some () else None, (c1, s))"
            by (rule loop_eoc [OF c [unfolded b]]) blast
          with run have "eoc" "cbs_view c' r" by (auto split: if_splits)
          then show ?thesis using b accepts_end [of eoc c' r st d] by (simp add: ending_def)
        next
          case False
          show ?thesis by (rule sound_definite [OF Suc.IH [folded l] c 1(2) _ 1(1) False st d run]) (use p' in simp)
        qed
      next
        case 2
        show ?thesis by (rule sound_indefinite [OF Suc.IH [folded l] c 2(2) _ 2(1) st d run]) (use p' in simp)
      qed
    qed
    note step = this
    show ?case
      unfolding sound_def by (intro allI impI; elim less_SucE) (rule soundD [OF Suc] step, assumption+)+
  qed (simp add: sound_def)
  from soundD [OF this lessI assms] show ?thesis .
qed

subsection \<open>The result of the conversion\<close>

lemma finish_cbs_view:
  assumes "sview s [(0, Top, x)]"
  shows "case finish_cbs s of
      Some (out, st) \<Rightarrow> cbs_view out x \<and> cbs_data out = (case st of None \<Rightarrow> [] | Some m \<Rightarrow> m)
    | None \<Rightarrow> \<not> sroom s 0"
proof -
  obtain r s' where f: "CBB_finish 0 True True s = (r, s')" by (metis surj_pair)
  note c = finish_contents [OF assms, unfolded f]
  show ?thesis
  proof (cases r)
    case None
    with c show ?thesis by (simp add: finish_cbs_def f)
  next
    case (Some p)
    obtain m n where p: "p = (m, n)" by fastforce
    let ?b = "case m of None \<Rightarrow> [] | Some b \<Rightarrow> b"
    have t: "take (unat n) ?b = x" "unat n = length x" using c unfolding Some p option.case prod.case
      unfolding close.simps append_Nil2 by blast+
    have "unat n \<le> length ?b" using arg_cong [OF t(1), of length] t(2) by (simp only: length_take)
    then have "cbs_view (CBS_init ?b n) x"
      using t(1) by (simp add: cbs_view_def cbs_ok_def cbs_bytes_def CBS_init_def)
    then show ?thesis by (simp add: finish_cbs_def f Some p) (simp add: CBS_init_def)
  qed
qed

lemma CBB_init_succeeds:
  assumes "\<forall>i. next_ok a i" and "unat cap < 2 ^ 62"
  obtains s where "CBB_init h cap a = Some s" "sview s [(h, Top, [])]" "\<And>k. k < 2 ^ 62 \<Longrightarrow> sroom s k"
proof -
  have "\<not> cap + 8 < cap" using assms(2) by (simp add: word_less_nat_alt unat_word_ariths)
  then have "CBB_init h cap a \<noteq> None"
    using assms
    by (auto simp: CBB_init_def cbb_init_def OPENSSL_malloc_def malloc_turn_def sizeof_cbb_buffer_st_def
        split: prod.splits if_splits option.splits)
  then obtain s where s: "CBB_init h cap a = Some s" by blast
  show thesis by (rule that [OF s CBB_init_view [OF s] CBB_init_room [OF s assms(1)]])
qed

lemma convert_exact:
  assumes c: "cbs_view c bs" and s: "sview s [(0, Top, [])]"
  shows "case cbs_convert_ber 0 0 False 0 (c, s) of
      (Some _, (c', s')) \<Rightarrow> cbs_view c' [] \<and> (\<exists>ts. ber 2048 ts bs) \<and> (\<forall>ts. ber 2048 ts bs \<longrightarrow>
        list_all fits ts \<and> sview s' [(0, Top, ders ts)] \<and> (sroom s (length (ders ts)) \<longrightarrow> sroom s' 0))
    | (None, _) \<Rightarrow> \<not> (\<exists>ts. ber 2048 ts bs \<and> list_all fits ts \<and> sroom s (length (ders ts)))"
proof -
  have e: "cbs_convert_ber 0 0 False 0 (c, s) = convert_ber_loop 0 0 False 0 (c, s)"
    by (simp add: cbs_convert_ber.simps kMaxDepth_def)
  have y: "yields cview croom (c, s) (convert_ber_loop 0 0 False 0 (c, s)) (list_all fits ts) (length (ders ts))
      ([], [(0, Top, ders ts)])" if "ber 2048 ts bs" for ts
    using ber_yields [OF that, of 0 s "[]" 0 Top "[]" c False] c s by (simp add: ending_def after_def)
  obtain r c' s' where l: "convert_ber_loop 0 0 False 0 (c, s) = (r, (c', s'))" by (metis surj_pair)
  show ?thesis
  proof (cases r)
    case None
    with y show ?thesis unfolding e l by (auto simp: yields_def croom_def)
  next
    case (Some u)
    have "accepts 0 False 2048 bs c'"
      by (rule convert_sound [OF c _ _ l [unfolded Some]]) (simp_all add: mode_ok_def)
    then obtain ts where ts: "ber 2048 ts bs" by (auto simp: accepts_def ending_def parses_def)
    have "list_all fits ts \<and> cbs_view c' [] \<and> sview s' [(0, Top, ders ts)] \<and> (sroom s (length (ders ts)) \<longrightarrow> sroom s' 0)"
      if "ber 2048 ts bs" for ts
      using y [OF that] unfolding l Some by (auto dest: spec [of _ 0])
    with ts show ?thesis unfolding e l Some by auto
  qed
qed

lemma ber_to_der_converts:
  assumes "cbs_view c bs" and "cbs_find_ber c 0 = Some True"
  shows "case CBS_asn1_ber_to_der a c of
      (Some (out, storage), c') \<Rightarrow> cbs_view c' [] \<and> cbs_data out = (case storage of None \<Rightarrow> [] | Some m \<Rightarrow> m)
        \<and> (\<exists>ts. ber 2048 ts bs) \<and> (\<forall>ts. ber 2048 ts bs \<longrightarrow> list_all fits ts \<and> cbs_view out (ders ts))
    | (None, _) \<Rightarrow> \<not> (\<exists>ts. ber 2048 ts bs \<and> list_all fits ts \<and> length (ders ts) < 2 ^ 62)
        \<or> \<not> (\<forall>i. next_ok a i) \<or> 2 ^ 62 \<le> length bs"
proof (cases "CBB_init 0 (cbs_len c) a")
  case None
  then have "\<not> (\<forall>i. next_ok a i) \<or> 2 ^ 62 \<le> length bs"
    using CBB_init_succeeds [of a "cbs_len c" 0] cbs_view_len [OF assms(1)] by (metis not_less option.distinct(1))
  with None assms(2) show ?thesis by (simp add: CBS_asn1_ber_to_der_def)
next
  case (Some s)
  have s: "sview s [(0, Top, [])]" "\<forall>i. next_ok a i \<Longrightarrow> k < 2 ^ 62 \<Longrightarrow> sroom s k" for k
    using CBB_init_view [OF Some] CBB_init_room [OF Some] by blast+
  obtain r c' s' where l: "cbs_convert_ber 0 0 False 0 (c, s) = (r, (c', s'))" by (metis surj_pair)
  note x = convert_exact [OF assms(1) s(1), unfolded l]
  show ?thesis
  proof (cases r)
    case None
    with x have "\<not> (\<exists>ts. ber 2048 ts bs \<and> list_all fits ts \<and> sroom s (length (ders ts)))"
      by (simp only: option.case prod.case simp_thms)
    then have n: "\<not> (\<exists>ts. ber 2048 ts bs \<and> list_all fits ts \<and> length (ders ts) < 2 ^ 62) \<or> \<not> (\<forall>i. next_ok a i)"
      using s(2) by blast
    have r: "CBS_asn1_ber_to_der a c = (None, c')"
      by (simp add: CBS_asn1_ber_to_der_def assms(2) Some l None)
    show ?thesis unfolding r option.case prod.case using n by blast
  next
    case (Some u)
    then obtain ts where ts: "cbs_view c' []" "ber 2048 ts bs" and all: "\<And>ts. ber 2048 ts bs \<Longrightarrow>
        list_all fits ts \<and> sview s' [(0, Top, ders ts)] \<and> (sroom s (length (ders ts)) \<longrightarrow> sroom s' 0)"
      using x by auto
    have r: "CBS_asn1_ber_to_der a c = (finish_cbs s', c')"
      by (simp add: CBS_asn1_ber_to_der_def assms(2) \<open>CBB_init 0 _ _ = _\<close> l Some)
    show ?thesis
    proof (cases "finish_cbs s'")
      case None
      then have "\<not> sroom s' 0" using finish_cbs_view [of s' "ders ts"] all [OF ts(2)] by simp
      then show ?thesis unfolding r None option.case prod.case using all s(2) by meson
    next
      case (Some p)
      obtain out st where p: "p = (out, st)" by fastforce
      have "cbs_data out = (case st of None \<Rightarrow> [] | Some m \<Rightarrow> m)"
        using finish_cbs_view [of s' "ders ts"] all [OF ts(2)] unfolding Some p by simp
      moreover have "cbs_view out (ders us)" if "ber 2048 us bs" for us
        using finish_cbs_view [of s' "ders us"] all [OF that] unfolding Some p by simp
      ultimately show ?thesis unfolding r Some p option.case prod.case using ts all by blast
    qed
  qed
qed

subsection \<open>DER trees\<close>

fun tree_ok :: "asn1 \<Rightarrow> bool" where
  "tree_ok (Prim t x) \<longleftrightarrow> t < 2 ^ 32 \<and> even (t div 2 ^ 29) \<and> length x < 2 ^ 32"
| "tree_ok (Constr t ts) \<longleftrightarrow> t < 2 ^ 32 \<and> odd (t div 2 ^ 29) \<and> t - 2 ^ 29 \<notin> string_tags
     \<and> list_all tree_ok ts \<and> length (ders ts) < 2 ^ 32"

text \<open>\<open>within d t\<close>: the tree \<open>t\<close> has at most \<open>d\<close> levels below its root.\<close>

fun within :: "nat \<Rightarrow> asn1 \<Rightarrow> bool" where
  "within d (Prim t x) \<longleftrightarrow> True"
| "within d (Constr t ts) \<longleftrightarrow> 0 < d \<and> list_all (within (d - 1)) ts"

lemma ber_trees:
  "ber d ts bs \<Longrightarrow> list_all fits ts \<Longrightarrow> list_all tree_ok ts \<and> list_all (within d) ts"
proof (induction rule: ber.induct)
  case (ber_string t d x y w ts bs)
  then show ?case using string_tagD [OF ber_string.hyps(1)] by simp
qed simp_all

lemma len_form_enc: "n < 2 ^ 32 \<Longrightarrow> len_form (len_enc n) n"
  using len_bytes_bounds [of n] by (auto simp: len_form_def len_enc_def simp del: of_nat_add)

lemma find_element:
  assumes "cbs_view c (der_enc t x @ rest)" and "t < 2 ^ 32" and "length x < 2 ^ 32"
  obtains c' k tag where "cbs_view c' rest" "cbs_view k x" "unat tag = t"
    "\<And>b d. find_ber_loop c b d =
       (if odd (t div 2 ^ 29)
        then if is_string_type tag then Some True
             else (case cbs_find_ber k (d + 1) of None \<Rightarrow> None | Some b \<Rightarrow> find_ber_loop c' b d)
        else find_ber_loop c' False d)"
proof -
  let ?h = "tag_enc t @ len_enc (length x)"
  have nz: "cbs_len c \<noteq> 0" using cbs_view_len [OF assms(1)] by (auto simp: der_enc_def len_enc_def)
  have p: "p_element True (der_enc t x @ rest) = Some ((?h @ x, t, length ?h, False), rest)"
    using p_element_ber_complete [OF assms(2) len_form_enc [OF assms(3)], of rest] by (simp add: der_enc_def)
  obtain k tag hl c' where e: "CBS_get_any_ber_asn1_element c = (Some (k, tag, hl, False), c')"
    "cbs_view k (?h @ x)" "unat tag = t" "unat hl = length ?h" "cbs_view c' rest"
    by (rule ber_element_view [OF assms(1) p])
  obtain k' where k': "CBS_skip k hl = (Some (), k')" "cbs_view k' x"
    using skip_view [OF e(2), of hl] e(4) by auto
  show thesis
    using nz e(1,3) k'(1) constructed_bit [of tag]
    by (intro that [OF e(5) k'(2) e(3)]) (subst find_ber_loop.simps, simp)
qed

lemma find_view: "cbs_view c bs \<Longrightarrow> cbs_find_ber c d = (if d > kMaxDepth then None else find_ber_loop c False d)"
  by (cases c) (simp add: cbs_find_ber.simps CBS_init_def)

lemma find_nil: "cbs_view c [] \<Longrightarrow> find_ber_loop c b d = Some b"
  by (subst find_ber_loop.simps) (simp add: cbs_view_len flip: unat_eq_0)

lemma find_der:
  assumes "cbs_view c (ders ts)" and "list_all tree_ok ts"
  shows "find_ber_loop c False dep \<noteq> Some True
    \<and> (list_all (within d) ts \<longrightarrow> unat dep + d \<le> 2048 \<longrightarrow> find_ber_loop c False dep = Some False)"
  using assms
proof (induction "length (ders ts)" arbitrary: c ts dep d rule: less_induct)
  case less
  show ?case
  proof (cases ts)
    case Nil
    with less.prems find_nil show ?thesis by simp
  next
    case (Cons a us)
    show ?thesis
    proof (cases a)
      case (Prim t x)
      have a: "cbs_view c (der_enc t x @ ders us)" "t < 2 ^ 32" "length x < 2 ^ 32" "even (t div 2 ^ 29)"
        using less.prems Cons Prim by simp_all
      obtain c' k tag where e1: "cbs_view c' (ders us)" "cbs_view k x" "unat tag = t" "\<And>b d. find_ber_loop c b d =
       (if odd (t div 2 ^ 29)
        then if is_string_type tag then Some True
             else (case cbs_find_ber k (d + 1) of None \<Rightarrow> None | Some b \<Rightarrow> find_ber_loop c' b d)
        else find_ber_loop c' False d)"
        using find_element [OF a(1-3)] by blast
      have e: "cbs_view c' (ders us)" "find_ber_loop c False dep = find_ber_loop c' False dep"
        using e1(1,4) a(4) by simp_all
      have "length (ders us) < length (ders ts)" using Cons Prim by (simp add: der_enc_def len_enc_def)
      from less.hyps [OF this e(1), of dep d] less.prems show ?thesis unfolding e(2) by (auto simp: Cons)
    next
      case (Constr t xs)
      have a: "cbs_view c (der_enc t (ders xs) @ ders us)" "t < 2 ^ 32" "length (ders xs) < 2 ^ 32" "odd (t div 2 ^ 29)"
        using less.prems Cons Constr by simp_all
      obtain c' k tag where e1: "cbs_view c' (ders us)" "cbs_view k (ders xs)" "unat tag = t" "\<And>b d. find_ber_loop c b d =
       (if odd (t div 2 ^ 29)
        then if is_string_type tag then Some True
             else (case cbs_find_ber k (d + 1) of None \<Rightarrow> None | Some b \<Rightarrow> find_ber_loop c' b d)
        else find_ber_loop c' False d)"
        using find_element [OF a(1-3)] by blast
      have e: "cbs_view c' (ders us)" "cbs_view k (ders xs)" "unat tag = t"
        "find_ber_loop c False dep = (if is_string_type tag then Some True
           else (case cbs_find_ber k (dep + 1) of None \<Rightarrow> None | Some b \<Rightarrow> find_ber_loop c' b dep))"
        using e1 a(4) by simp_all
      have l: "length (ders us) < length (ders ts)" "length (ders xs) < length (ders ts)"
        using Cons Constr by (simp_all add: der_enc_def len_enc_def)
      have ns: "\<not> is_string_type tag"
        using less.prems(2) Cons Constr e(3) unat_primitive [of tag] by (simp add: is_string_type_iff)
      have ok: "list_all tree_ok us" "list_all tree_ok xs" using less.prems(2) Cons Constr by simp_all
      note 1 = less.hyps [OF l(1) e(1) ok(1), of dep d] and 2 = less.hyps [OF l(2) e(2) ok(2), of "dep + 1" "d - 1"]
      have "cbs_find_ber k (dep + 1) \<noteq> Some True" using 2 find_view [OF e(2)] by simp
      then have "cbs_find_ber k (dep + 1) = None \<or> cbs_find_ber k (dep + 1) = Some False"
        by (cases "cbs_find_ber k (dep + 1)") auto
      moreover have "cbs_find_ber k (dep + 1) = Some False" if "list_all (within d) ts" "unat dep + d \<le> 2048"
      proof -
        from that(1) have d: "0 < d" "list_all (within (d - 1)) xs" using Cons Constr by simp_all
        with that(2) have "unat dep + Suc (d - 1) \<le> 2048" by simp
        from deeper [OF this] 2 d show ?thesis using find_view [OF e(2)] by simp
      qed
      ultimately show ?thesis using 1 ns Cons unfolding e(4) by auto
    qed
  qed
qed

lemma find_string:
  assumes "t \<in> string_tags" and "constr_form (t + 2 ^ 29) v w" and "cbs_view c (w @ rest)"
  shows "find_ber_loop c b d = Some True"
proof -
  note t = string_tagD [OF assms(1)]
  obtain x n b' r where p: "p_element True (w @ rest) = Some ((x, t + 2 ^ 29, n, b'), r)"
    using assms(2) unfolding constr_form_def
  proof (elim disjE exE conjE)
    fix lf
    assume "len_form lf (length v)" "w = tag_enc (t + 2 ^ 29) @ lf @ v"
    with p_element_ber_complete [OF t(5), of lf v rest] show thesis by (intro that) simp
  next
    assume "w = tag_enc (t + 2 ^ 29) @ [0x80] @ v @ [0, 0]"
    with p_element_ber_indef [OF t(5,4), of "v @ [0, 0] @ rest"] show thesis by (intro that) simp
  qed
  obtain k tag hl c' where e: "CBS_get_any_ber_asn1_element c = (Some (k, tag, hl, b'), c')" "cbs_view k x"
    "unat tag = t + 2 ^ 29" "unat hl = n" "cbs_view c' r"
    by (rule ber_element_view [OF assms(3) p])
  have "w \<noteq> []" using assms(2) by (auto simp: constr_form_def len_form_def)
  then have "cbs_len c \<noteq> 0" using cbs_view_len [OF assms(3)] by auto
  moreover have "is_string_type tag" "tag AND CBS_ASN1_CONSTRUCTED \<noteq> 0"
    using string_tags_of(3) [OF assms(1) e(3)] assms(1) constructed_bit [of tag] t(4) e(3)
    by (simp_all add: is_string_type_iff)
  ultimately show ?thesis using e(1) by (subst find_ber_loop.simps) simp
qed

lemma ders_head:
  assumes "ders ts = der_enc t x @ r" and "list_all tree_ok ts" and "t < 2 ^ 32" and "length x < 2 ^ 32"
  obtains a us where "ts = a # us" "ders us = r" "a = Prim t x \<or> (\<exists>xs. a = Constr t xs \<and> ders xs = x)"
proof (cases ts)
  case Nil
  with assms(1) show thesis by (simp add: der_enc_def len_enc_def split: if_splits)
next
  case (Cons a us)
  define t' x' where "t' = (case a of Prim t _ \<Rightarrow> t | Constr t _ \<Rightarrow> t)"
    and "x' = (case a of Prim _ x \<Rightarrow> x | Constr _ xs \<Rightarrow> ders xs)"
  have "der a = der_enc t' x'" "t' < 2 ^ 32" "length x' < 2 ^ 32"
    using assms(2) Cons by (cases a; simp add: t'_def x'_def)+
  then have "(t', x') = (t, x) \<and> ders us = r"
    using r_any.prefix_free [of "(t', x')" "(t, x)" "ders us" r] assms Cons by simp
  then show thesis by (intro that [OF Cons]) (cases a; simp add: t'_def x'_def)+
qed

lemma find_sequence:
  assumes "cbs_view c (der_enc 0x20000010 x @ rest)" and "length x < 2 ^ 32"
  obtains c' k where "cbs_view c' rest" "cbs_view k x"
    "\<And>b d. find_ber_loop c b d =
       (case cbs_find_ber k (d + 1) of None \<Rightarrow> None | Some b \<Rightarrow> find_ber_loop c' b d)"
proof -
  have t: "(0x20000010 :: nat) < 2 ^ 32" "odd (0x20000010 div 2 ^ 29 :: nat)" by simp_all
  obtain c' k tag where e: "cbs_view c' rest" "cbs_view k x" "unat tag = 0x20000010"
    "\<And>b d. find_ber_loop c b d =
       (if odd (0x20000010 div 2 ^ 29 :: nat)
        then if is_string_type tag then Some True
             else (case cbs_find_ber k (d + 1) of None \<Rightarrow> None | Some b \<Rightarrow> find_ber_loop c' b d)
        else find_ber_loop c' False d)"
    using find_element [OF assms(1) t(1) assms(2)] by blast
  have "\<not> is_string_type tag"
    using e(3) unat_primitive [of tag] by (simp add: is_string_type_iff string_tags_def)
  then show thesis using e(4) t(2) by (intro that [OF e(1,2)]) (simp only: if_True if_False simp_thms)
qed

lemma first_element:
  assumes "cbs_view c (der_enc u x @ rest)" and "u < 2 ^ 32" and "length x < 2 ^ 32"
  obtains out tag hl c' where "CBS_get_any_asn1_element c = (Some (out, tag, hl), c')"
    "cbs_view out (der_enc u x)" "cbs_view c' rest"
  using CBS_get_any_asn1_element_refines [OF assms(1)]
  unfolding p_element_der_complete [OF assms(2,3)] by (auto dest!: refines_SomeD)

subsection \<open>Properties\<close>

lemma ber_to_der_output:
  assumes "cbs_view c bs" and "cbs_find_ber c 0 = Some True" and "CBS_asn1_ber_to_der a c = (Some (out, storage), c')"
  shows "\<exists>ts. cbs_view out (ders ts) \<and> list_all tree_ok ts \<and> cbs_find_ber out 0 = Some False"
proof -
  obtain ts where ts: "ber 2048 ts bs" "list_all fits ts" "cbs_view out (ders ts)"
    using ber_to_der_converts [OF assms(1,2), of a] unfolding assms(3) by auto
  note ok = ber_trees [OF ts(1,2)]
  then have "cbs_find_ber out 0 = Some False"
    using find_der [OF ts(3), of 0 2048] by (simp add: find_view [OF ts(3)] kMaxDepth_def)
  with ts(3) ok show ?thesis by blast
qed

text \<open>A constructed OCTET STRING of indefinite length with one fragment, and a NULL.\<close>

definition ber_sample :: bytes where
  "ber_sample = [0x24, 0x80, 4, 1, 7, 0, 0, 5, 0]"

lemma ber_sample:
  "cbs_view (CBS_init ber_sample 9) ber_sample"
  "ber 2048 [Prim 4 [7], Prim 5 []] ber_sample"
  "cbs_find_ber (CBS_init ber_sample 9) 0 = Some True"
proof -
  show v: "cbs_view (CBS_init ber_sample 9) ber_sample"
    by (simp add: ber_sample_def cbs_view_def cbs_ok_def cbs_bytes_def CBS_init_def)
  have w: "constr_form (4 + 2 ^ 29) [4, 1, 7] [0x24, 0x80, 4, 1, 7, 0, 0]"
    by (simp add: constr_form_def tag_enc_def)
  have "frag 2047 4 ([7] @ []) (tag_enc 4 @ [1] @ [7] @ [])"
    by (intro frag_prim frag_nil) (simp add: len_form_def)
  then have f: "frag 2047 4 [7] [4, 1, 7]" by (simp add: tag_enc_def)
  have "ber 2048 [Prim 5 []] (tag_enc 5 @ [0] @ [] @ [])"
    by (intro ber_prim ber_nil) (simp_all add: len_form_def tag_enc_def)
  then have p: "ber (Suc 2047) [Prim 5 []] [5, 0]" by (simp add: tag_enc_def)
  show "ber 2048 [Prim 4 [7], Prim 5 []] ber_sample"
    using ber_string [OF _ f w p] by (simp add: string_tags_def ber_sample_def)
  show "cbs_find_ber (CBS_init ber_sample 9) 0 = Some True"
  proof -
    have "cbs_view (CBS_init ber_sample 9) ([0x24, 0x80, 4, 1, 7, 0, 0] @ [5, 0])" using v by (simp add: ber_sample_def)
    then have "find_ber_loop (CBS_init ber_sample 9) False 0 = Some True"
      by (intro find_string [OF _ w]) (simp add: string_tags_def)
    then show ?thesis by (simp only: find_view [OF v]) (simp add: kMaxDepth_def)
  qed
qed

lemma ber_sample_converts:
  obtains out st c' where "CBS_asn1_ber_to_der ok_heap (CBS_init ber_sample 9) = (Some (out, st), c')"
proof -
  obtain r c' where r: "CBS_asn1_ber_to_der ok_heap (CBS_init ber_sample 9) = (r, c')" by fastforce
  note x = ber_to_der_converts [OF ber_sample(1,3), of ok_heap, unfolded r]
  have "r \<noteq> None"
  proof
    assume n: "r = None"
    have "list_all fits [Prim 4 [7], Prim 5 []]" "length (ders [Prim 4 [7], Prim 5 []]) < 2 ^ 62"
      "length ber_sample < 2 ^ 62" "\<forall>i. next_ok ok_heap i"
      by (simp_all add: ber_sample_def ok_heap_def der_enc_def tag_enc_def len_enc_def)
    with x ber_sample(2) show False unfolding n option.case prod.case by (metis not_le)
  qed
  with r that show thesis by (cases r) auto
qed

text \<open>
  C31. If \<open>cbs_find_ber\<close> asks for a conversion, \<open>CBS_asn1_ber_to_der\<close> accepts the input exactly if all of it
  is a BER encoding of some trees (with at most 2048 levels and lengths that fit), and its output, which
  lies in the buffer it returns, is the DER encoding of these trees, in which \<open>cbs_find_ber\<close> finds nothing
  to convert. All of the input is consumed, not only its first element. It succeeds on such an input when
  the allocations do.
\<close>

theorem CBS_asn1_ber_to_der_converts:
  assumes "cbs_view c bs" and "cbs_find_ber c 0 = Some True"
  shows "case CBS_asn1_ber_to_der a c of
      (Some (out, storage), c') \<Rightarrow> cbs_view c' [] \<and> cbs_data out = (case storage of None \<Rightarrow> [] | Some m \<Rightarrow> m)
        \<and> (\<exists>ts. ber 2048 ts bs) \<and> (\<forall>ts. ber 2048 ts bs \<longrightarrow> list_all fits ts \<and> cbs_view out (ders ts))
        \<and> cbs_find_ber out 0 = Some False
    | (None, _) \<Rightarrow> \<not> (\<exists>ts. ber 2048 ts bs \<and> list_all fits ts \<and> length (ders ts) < 2 ^ 62)
        \<or> \<not> (\<forall>i. next_ok a i) \<or> 2 ^ 62 \<le> length bs"
proof -
  obtain q c' where q: "CBS_asn1_ber_to_der a c = (q, c')" by fastforce
  note x = ber_to_der_converts [OF assms, of a, unfolded q]
  show ?thesis
  proof (cases q)
    case None
    show ?thesis using x unfolding q None option.case prod.case .
  next
    case (Some p)
    obtain out st where p: "p = (out, st)" by fastforce
    have "cbs_find_ber out 0 = Some False" using ber_to_der_output [OF assms] q Some p by blast
    then show ?thesis using x unfolding q Some p option.case prod.case by blast
  qed
qed

theorem CBS_asn1_ber_to_der_converts_witness:
  "\<exists>out storage c'. CBS_asn1_ber_to_der ok_heap (CBS_init ber_sample 9) = (Some (out, storage), c')
     \<and> cbs_view out [4, 1, 7, 5, 0] \<and> cbs_view c' []"
proof -
  have d: "ders [Prim 4 [7], Prim 5 []] = [4, 1, 7, 5, 0]" by (simp add: der_enc_def tag_enc_def len_enc_def)
  obtain out st c' where r: "CBS_asn1_ber_to_der ok_heap (CBS_init ber_sample 9) = (Some (out, st), c')"
    by (rule ber_sample_converts)
  from CBS_asn1_ber_to_der_converts [OF ber_sample(1,3), of ok_heap] ber_sample(2)
  show ?thesis unfolding r option.case prod.case d [symmetric] by blast
qed

text \<open>
  Input that is DER already is not converted: \<open>CBS_asn1_ber_to_der\<close> on the DER encoding of some trees
  returns the first element as it stands in the input, allocates nothing and leaves the elements behind it.
\<close>

lemma CBS_asn1_ber_to_der_keeps_der:
  assumes "cbs_view c (ders (t # ts))" and "list_all tree_ok (t # ts)" and "list_all (within 2048) (t # ts)"
  shows "\<exists>out c'. CBS_asn1_ber_to_der a c = (Some (out, None), c') \<and> cbs_view out (der t) \<and> cbs_view c' (ders ts)"
proof -
  have f: "cbs_find_ber c 0 = Some False"
    using find_der [OF assms(1,2), of 0 2048] assms(3) by (simp add: find_view [OF assms(1)] kMaxDepth_def)
  obtain u x where u: "der t = der_enc u x" "u < 2 ^ 32" "length x < 2 ^ 32"
    using assms(2) by (cases t) auto
  have "cbs_view c (der_enc u x @ ders ts)" using assms(1) u(1) by simp
  then obtain out tag hl c' where "CBS_get_any_asn1_element c = (Some (out, tag, hl), c')" "cbs_view out (der t)" "cbs_view c' (ders ts)"
    unfolding u(1) using u(2,3) by (rule first_element)
  then show ?thesis by (simp add: CBS_asn1_ber_to_der_def f)
qed

text \<open>
  C32. \<open>cbs_find_ber\<close> forgets what the walk over a child has found when it goes on to the next sibling, because
  \<open>CBS_get_any_ber_asn1_element\<close> sets \<open>*ber_found\<close> to zero: a constructed string inside a SEQUENCE that is
  followed by a primitive element is not noticed, and \<open>CBS_asn1_ber_to_der\<close> returns input that is not DER
  as it is.
\<close>

theorem CBS_asn1_ber_to_der_misses_ber:
  assumes "t \<in> string_tags" and "constr_form (t + 2 ^ 29) v w" and "u < 2 ^ 32" and "even (u div 2 ^ 29)"
    and len: "length (der_enc 0x20000010 (w @ y) @ der_enc u x) < 2 ^ 32"
    and c: "cbs_view c (der_enc 0x20000010 (der_enc 0x20000010 (w @ y) @ der_enc u x))"
  shows "\<exists>out c'. CBS_asn1_ber_to_der a c = (Some (out, None), c')
    \<and> cbs_view out (der_enc 0x20000010 (der_enc 0x20000010 (w @ y) @ der_enc u x))
    \<and> \<not> (\<exists>ts. list_all tree_ok ts \<and> ders ts = der_enc 0x20000010 (der_enc 0x20000010 (w @ y) @ der_enc u x))"
proof -
  let ?s = "0x20000010 :: nat" and ?in = "der_enc 0x20000010 (w @ y)"
  have l: "length (w @ y) < 2 ^ 32" "length x < 2 ^ 32" using len by (auto simp: der_enc_def)
  have s: "?s < 2 ^ 32" "odd (?s div 2 ^ 29)" "?s - 2 ^ 29 \<notin> string_tags" by (simp_all add: string_tags_def)
  have c': "cbs_view c (der_enc ?s (?in @ der_enc u x) @ [])" using c by simp
  obtain c1 k1 where 1: "cbs_view c1 []" "cbs_view k1 (?in @ der_enc u x)"
    "\<And>b d. find_ber_loop c b d = (case cbs_find_ber k1 (d + 1) of None \<Rightarrow> None | Some b \<Rightarrow> find_ber_loop c1 b d)"
    using find_sequence [OF c' len] by blast
  obtain c2 k2 where 2: "cbs_view c2 (der_enc u x @ [])" "cbs_view k2 (w @ y)"
    "\<And>b d. find_ber_loop k1 b d = (case cbs_find_ber k2 (d + 1) of None \<Rightarrow> None | Some b \<Rightarrow> find_ber_loop c2 b d)"
    using find_sequence [OF 1(2) l(1)] by (metis append_Nil2)
  obtain c3 where 3: "cbs_view c3 []" "\<And>b d. find_ber_loop c2 b d = find_ber_loop c3 False d"
    using find_element [OF 2(1) assms(3) l(2)] assms(4) by metis
  have "cbs_find_ber k2 2 = Some True"
    using find_string [OF assms(1,2) 2(2)] by (simp add: find_view [OF 2(2)] kMaxDepth_def)
  then have "cbs_find_ber k1 1 = Some False"
    using 2(3) 3(2) find_nil [OF 3(1)] by (simp add: find_view [OF 1(2)] kMaxDepth_def)
  then have "cbs_find_ber c 0 = Some False"
    using 1(3) find_nil [OF 1(1)] by (simp add: find_view [OF c] kMaxDepth_def)
  moreover obtain out tag hl c' where "CBS_get_any_asn1_element c = (Some (out, tag, hl), c')"
      "cbs_view out (der_enc ?s (?in @ der_enc u x))"
    by (rule first_element [OF c' s(1) len])
  moreover have "\<not> (list_all tree_ok ts \<and> ders ts = der_enc ?s (?in @ der_enc u x))" for ts
  proof
    assume ts: "list_all tree_ok ts \<and> ders ts = der_enc ?s (?in @ der_enc u x)"
    then have d: "ders ts = der_enc ?s (?in @ der_enc u x) @ []" by simp
    obtain xs where xs: "ders xs = ?in @ der_enc u x" "list_all tree_ok xs"
      using ders_head [OF d _ s(1) len] ts s(2) by (metis list.pred_inject(2) tree_ok.simps)
    obtain zs where zs: "ders zs = w @ y" "list_all tree_ok zs"
      using ders_head [OF xs s(1) l(1)] xs(2) s(2) by (metis list.pred_inject(2) tree_ok.simps)
    show False
      using find_der [of k2 zs 0] zs 2(2) find_string [OF assms(1,2) 2(2), of False 0] by simp
  qed
  ultimately show ?thesis by (auto simp: CBS_asn1_ber_to_der_def)
qed

theorem CBS_asn1_ber_to_der_misses_ber_witness:
  "\<exists>out c'. CBS_asn1_ber_to_der ok_heap (CBS_init [0x30, 8, 0x30, 4, 0x24, 2, 4, 0, 5, 0] 10) = (Some (out, None), c')
     \<and> cbs_view out [0x30, 8, 0x30, 4, 0x24, 2, 4, 0, 5, 0]
     \<and> \<not> (\<exists>ts. list_all tree_ok ts \<and> ders ts = [0x30, 8, 0x30, 4, 0x24, 2, 4, 0, 5, 0])"
proof -
  let ?w = "[0x24, 2, 4, 0] :: bytes"
  have w: "constr_form (4 + 2 ^ 29) [4, 0] ?w"
    unfolding constr_form_def by (intro disjI1 exI [of _ "[2]"]) (simp add: len_form_def tag_enc_def)
  have e: "der_enc 0x20000010 (der_enc 0x20000010 (?w @ []) @ der_enc 5 []) = [0x30, 8, 0x30, 4, 0x24, 2, 4, 0, 5, 0]"
    by (simp add: der_enc_def tag_enc_def len_enc_def)
  have v: "cbs_view (CBS_init [0x30, 8, 0x30, 4, 0x24, 2, 4, 0, 5, 0] 10) [0x30, 8, 0x30, 4, 0x24, 2, 4, 0, 5, 0]"
    by (simp add: cbs_view_def cbs_ok_def cbs_bytes_def CBS_init_def)
  have l: "length (der_enc 0x20000010 (?w @ []) @ der_enc 5 []) < 2 ^ 32"
    by (simp add: der_enc_def tag_enc_def len_enc_def)
  show ?thesis
    using CBS_asn1_ber_to_der_misses_ber [OF _ w _ _ l, of "CBS_init [0x30, 8, 0x30, 4, 0x24, 2, 4, 0, 5, 0] 10" ok_heap] v
    unfolding e by (simp add: string_tags_def)
qed

subsection \<open>Implicitly tagged strings\<close>

lemma add_chunks_yields:
  assumes "cbs_view c (concat (map (der_enc (unat tag)) xs))" and "list_all (\<lambda>x. length x < 2 ^ 32) xs"
    and "sview s [(0, Top, y)]"
  shows "yields sview sroom s (add_chunks tag c s) True (length (concat xs)) [(0, Top, y @ concat xs)]"
  using assms
proof (induction xs arbitrary: c s y)
  case Nil
  then have "cbs_len c = 0" using cbs_view_len [of c "[]"] by (simp add: unat_eq_0)
  then show ?case using Nil(3) by (simp add: add_chunks.simps)
next
  case (Cons x xs)
  let ?r = "concat (map (der_enc (unat tag)) xs)"
  have "cbs_len c \<noteq> 0" using cbs_view_len [OF Cons.prems(1)] by (auto simp: der_enc_def len_enc_def split: if_splits)
  moreover have "p_asn1 (unat tag) (der_enc (unat tag) x @ ?r) = Some (x, ?r)"
    using Cons.prems(2) u32_less [of tag] by (simp add: p_asn1_iff)
  then obtain k c' where k: "CBS_get_asn1 c tag = (Some k, c')" "cbs_view k x" "cbs_view c' ?r"
    using CBS_get_asn1_refines [of c "der_enc (unat tag) x @ ?r" tag] Cons.prems(1) by (auto dest!: refines_SomeD)
  ultimately have e: "add_chunks tag c s = and_then (CBB_add_bytes 0 (cbs_data k) (cbs_len k) s) (\<lambda>_. add_chunks tag c')"
    by (subst add_chunks.simps) simp
  have "unat (cbs_len k) = length x" "take (length x) (cbs_data k) = x" "length x \<le> length (cbs_data k)"
    using cbs_view_len [OF k(2)] cbs_view_data [OF k(2)] by simp_all
  then have "yields sview sroom s (CBB_add_bytes 0 (cbs_data k) (cbs_len k) s) True (length x) [(0, Top, y @ x)]"
    using CBB_add_bytes_yields [of s "[]" 0 Top y "[]" "cbs_len k" "cbs_data k"] Cons.prems(3) by simp
  then have "yields sview sroom s (add_chunks tag c s) (True \<and> True) (length x + length (concat xs)) [(0, Top, (y @ x) @ concat xs)]"
    unfolding e by (rule sw.bind) (use Cons.IH [of c' _ "y @ x"] Cons.prems(2) k(3) in simp)
  then show ?case by simp
qed

lemma add_chunks_sound:
  assumes "cbs_view c bs" and "add_chunks tag c s = (Some u, s')"
  shows "\<exists>xs. bs = concat (map (der_enc (unat tag)) xs) \<and> list_all (\<lambda>x. length x < 2 ^ 32) xs"
  using assms
proof (induction tag c s arbitrary: bs rule: add_chunks.induct)
  case (1 tag c s)
  show ?case
  proof (cases "bs = []")
    case True
    then show ?thesis by (intro exI [of _ "[]"]) simp
  next
    case False
    then have nz: "cbs_len c \<noteq> 0" using cbs_view_len [OF 1(2)] by auto
    with 1(3) obtain k c' v s1 where g: "CBS_get_asn1 c tag = (Some k, c')"
      and a: "CBB_add_bytes 0 (cbs_data k) (cbs_len k) s = (Some v, s1)" "add_chunks tag c' s1 = (Some u, s')"
      by (subst (asm) add_chunks.simps) (auto simp: and_then_Some_iff split: prod.splits option.splits)
    obtain x r where p: "p_asn1 (unat tag) bs = Some (x, r)" "cbs_view c' r"
      using CBS_get_asn1_refines [OF 1(2), of tag] unfolding g by auto
    from 1(1) [OF nz g [symmetric] refl a(1) p(2) a(2)] obtain xs where
      "r = concat (map (der_enc (unat tag)) xs)" "list_all (\<lambda>x. length x < 2 ^ 32) xs" by blast
    with p(1) show ?thesis by (intro exI [of _ "x # xs"]) (simp add: p_asn1_iff)
  qed
qed

lemma chunks_room:
  assumes "sroom s (length (concat (map (der_enc t) xs)))"
  shows "sroom s (length (concat xs))"
proof -
  have "length (concat xs) \<le> length (concat (map (der_enc t) xs))" by (induction xs) (auto simp: der_enc_def)
  then show ?thesis using assms sw.rm_mono [of s "length (concat xs)"] by (metis le_add_diff_inverse)
qed

lemma add_chunks_result:
  assumes "cbs_view c y" and "sview s [(0, Top, [])]"
  shows "case add_chunks tag c s of
      (Some _, s') \<Rightarrow> \<exists>xs. y = concat (map (der_enc (unat tag)) xs) \<and> sview s' [(0, Top, concat xs)]
        \<and> (sroom s (length y) \<longrightarrow> sroom s' 0)
    | (None, _) \<Rightarrow> \<not> (\<exists>xs. y = concat (map (der_enc (unat tag)) xs) \<and> length y < 2 ^ 32 \<and> sroom s (length y))"
proof -
  obtain u s' where l: "add_chunks tag c s = (u, s')" by fastforce
  show ?thesis
  proof (cases u)
    case None
    have "\<not> sroom s (length y)" if x: "y = concat (map (der_enc (unat tag)) xs)" "length y < 2 ^ 32" for xs
    proof -
      have "list_all (\<lambda>x. length x < 2 ^ 32) xs" using x(2) unfolding x(1) by (induction xs) (auto simp: der_enc_def)
      then have "\<not> sroom s (length (concat xs))"
        using add_chunks_yields [OF assms(1) [unfolded x(1)] _ assms(2)] unfolding l None by simp
      then show ?thesis using chunks_room unfolding x(1) by blast
    qed
    then show ?thesis unfolding l None by auto
  next
    case (Some v)
    obtain xs where xs: "y = concat (map (der_enc (unat tag)) xs)" "list_all (\<lambda>x. length x < 2 ^ 32) xs"
      using add_chunks_sound [OF assms(1) l [unfolded Some]] by blast
    have "sview s' [(0, Top, concat xs)] \<and> (sroom s (length (concat xs) + 0) \<longrightarrow> sroom s' 0)"
      using add_chunks_yields [OF assms(1) [unfolded xs(1)] xs(2) assms(2)] unfolding l Some by auto
    then show ?thesis unfolding l Some using xs(1) chunks_room [of s "unat tag" xs] by auto
  qed
qed

lemma constructed_string:
  assumes "\<not> CBS_peek_asn1_tag c outer_tag" and "cbs_view c bs"
  shows "case CBS_get_asn1_implicit_string a outer_tag inner_tag c of
      (Some (out, storage), c') \<Rightarrow> \<exists>xs rest. cbs_view c' rest
        \<and> bs = der_enc (unat (outer_tag OR CBS_ASN1_CONSTRUCTED)) (concat (map (der_enc (unat inner_tag)) xs)) @ rest
        \<and> cbs_view out (concat xs) \<and> cbs_data out = (case storage of None \<Rightarrow> [] | Some m \<Rightarrow> m)
    | (None, _) \<Rightarrow>
        \<not> (\<exists>xs rest. length (concat (map (der_enc (unat inner_tag)) xs)) < 2 ^ 32
             \<and> bs = der_enc (unat (outer_tag OR CBS_ASN1_CONSTRUCTED)) (concat (map (der_enc (unat inner_tag)) xs)) @ rest)
        \<or> \<not> (\<forall>i. next_ok a i) \<or> 2 ^ 62 \<le> length bs"
proof (cases "CBB_init 0 (cbs_len c) a")
  case None
  then have "\<not> (\<forall>i. next_ok a i) \<or> 2 ^ 62 \<le> length bs"
    using CBB_init_succeeds [of a "cbs_len c" 0] cbs_view_len [OF assms(2)] by (metis not_less option.distinct(1))
  then show ?thesis using None assms(1) by (simp add: CBS_get_asn1_implicit_string_def)
next
  case (Some s)
  have s: "sview s [(0, Top, [])]" "\<forall>i. next_ok a i \<Longrightarrow> k < 2 ^ 62 \<Longrightarrow> sroom s k" for k
    using CBB_init_view [OF Some] CBB_init_room [OF Some] by blast+
  let ?con = "outer_tag OR CBS_ASN1_CONSTRUCTED" and ?parts = "\<lambda>xs. concat (map (der_enc (unat inner_tag)) xs)"
  obtain q c' where g: "CBS_get_asn1 c ?con = (q, c')" by fastforce
  note p = CBS_get_asn1_refines [OF assms(2), of ?con, unfolded g]
  show ?thesis
  proof (cases q)
    case None
    then have "p_asn1 (unat ?con) bs = None" using p by simp
    then have "\<not> (length x < 2 ^ 32 \<and> bs = der_enc (unat ?con) x @ rest)" for x rest
      using p_asn1_iff [of "unat ?con" bs x rest] u32_less [of ?con] by auto
    moreover have "CBS_get_asn1_implicit_string a outer_tag inner_tag c = (None, c')"
      using assms(1) Some g None by (simp add: CBS_get_asn1_implicit_string_def)
    ultimately show ?thesis by simp
  next
    case q: (Some child)
    with p obtain y rest where y: "p_asn1 (unat ?con) bs = Some (y, rest)" "cbs_view child y" "cbs_view c' rest" by auto
    obtain u s' where l: "add_chunks inner_tag child s = (u, s')" by fastforce
    have e: "CBS_get_asn1_implicit_string a outer_tag inner_tag c =
        (case u of None \<Rightarrow> (None, c') | Some _ \<Rightarrow> (finish_cbs s', c'))"
      using assms(1) Some g q l by (auto simp: CBS_get_asn1_implicit_string_def split: option.splits)
    note x = add_chunks_result [OF y(2) s(1), of inner_tag, unfolded l]
    have bs: "bs = der_enc (unat ?con) y @ rest" "length y < 2 ^ 32" using y(1) by (simp_all add: p_asn1_iff)
    have same: "x = y" if "bs = der_enc (unat ?con) x @ r" "length x < 2 ^ 32" for x r
      using that y(1) p_asn1_iff [of "unat ?con" bs x r] u32_less [of ?con] by simp
    show ?thesis
    proof (cases u)
      case None
      have "\<not> (\<exists>xs. y = ?parts xs) \<or> \<not> (\<forall>i. next_ok a i)" using x bs(2) s(2) [of "length y"] unfolding None by auto
      then show ?thesis unfolding e None option.case prod.case using same by blast
    next
      case (Some v)
      then obtain xs where xs: "y = ?parts xs" "sview s' [(0, Top, concat xs)]" "sroom s (length y) \<Longrightarrow> sroom s' 0"
        using x by auto
      show ?thesis
      proof (cases "finish_cbs s'")
        case None
        then have "\<not> (\<forall>i. next_ok a i)" using finish_cbs_view [OF xs(2)] xs(3) s(2) [of "length y"] bs(2) by auto
        then show ?thesis unfolding e Some None option.case prod.case by blast
      next
        case f: (Some r)
        obtain out st where r: "r = (out, st)" by fastforce
        show ?thesis
          using finish_cbs_view [OF xs(2)] bs(1) [unfolded xs(1)] y(3) unfolding e Some f r option.case prod.case by blast
      qed
    qed
  qed
qed

lemma chunks_inj:
  "t < 2 ^ 32 \<Longrightarrow> list_all (\<lambda>x. length x < 2 ^ 32) (xs @ ys) \<Longrightarrow>
   concat (map (der_enc t) xs) = concat (map (der_enc t) ys) \<Longrightarrow> xs = ys"
proof (induction xs arbitrary: ys)
  case Nil
  then show ?case by (cases ys) (auto simp: der_enc_def len_enc_def split: if_splits)
next
  case (Cons x xs)
  then obtain y zs where ys: "ys = y # zs" by (cases ys) (auto simp: der_enc_def len_enc_def split: if_splits)
  have "(t, x) = (t, y) \<and> concat (map (der_enc t) xs) = concat (map (der_enc t) zs)"
    using r_any.prefix_free [of "(t, x)" "(t, y)"] Cons.prems ys by simp
  with Cons ys show ?case by simp
qed

text \<open>
  C33. \<open>CBS_get_asn1_implicit_string\<close> reads a string with the tag \<open>outer_tag\<close> as it stands in the input, without
  allocating, and an element with the constructed form of this tag as the concatenation of its elements,
  which must all be primitive strings with the tag \<open>inner_tag\<close>. It accepts nothing else, and accepts
  all of these when the allocations succeed.
\<close>

theorem CBS_get_asn1_implicit_string_exact:
  fixes outer_tag inner_tag :: u32
  defines "con \<equiv> unat (outer_tag OR CBS_ASN1_CONSTRUCTED)"
    and "parts \<equiv> \<lambda>xs. concat (map (der_enc (unat inner_tag)) xs)"
  assumes "cbs_view c bs"
  shows "case CBS_get_asn1_implicit_string a outer_tag inner_tag c of
      (Some (out, storage), c') \<Rightarrow> \<exists>rest. cbs_view c' rest \<and>
        ((\<exists>x. bs = der_enc (unat outer_tag) x @ rest \<and> cbs_view out x \<and> storage = None)
         \<or> (\<exists>xs. bs = der_enc con (parts xs) @ rest \<and> cbs_view out (concat xs)
              \<and> cbs_data out = (case storage of None \<Rightarrow> [] | Some m \<Rightarrow> m)))
    | (None, _) \<Rightarrow>
        \<not> (\<exists>x rest. length x < 2 ^ 32 \<and> bs = der_enc (unat outer_tag) x @ rest)
        \<and> (\<not> (\<exists>xs rest. length (parts xs) < 2 ^ 32 \<and> bs = der_enc con (parts xs) @ rest)
           \<or> \<not> (\<forall>i. next_ok a i) \<or> 2 ^ 62 \<le> length bs)"
proof (cases "CBS_peek_asn1_tag c outer_tag")
  case True
  then obtain r where r: "bs = tag_enc (unat outer_tag) @ r" using CBS_peek_asn1_tag_iff [OF assms(3)] by blast
  obtain q c' where g: "CBS_get_asn1 c outer_tag = (q, c')" by fastforce
  have e: "CBS_get_asn1_implicit_string a outer_tag inner_tag c = (map_option (\<lambda>out. (out, None)) q, c')"
    using True g by (cases q) (simp_all add: CBS_get_asn1_implicit_string_def)
  note p = CBS_get_asn1_refines [OF assms(3), of outer_tag, unfolded g]
  show ?thesis
  proof (cases q)
    case None
    then have n: "p_asn1 (unat outer_tag) bs = None" using p by simp
    have no: "\<not> (length x < 2 ^ 32 \<and> bs = der_enc (unat outer_tag) x @ rest)" for x rest
      using n p_asn1_iff [of "unat outer_tag" bs x rest] u32_less [of outer_tag] by auto
    have "\<not> (length (parts xs) < 2 ^ 32 \<and> bs = der_enc con (parts xs) @ rest)" for xs rest
    proof
      assume a: "length (parts xs) < 2 ^ 32 \<and> bs = der_enc con (parts xs) @ rest"
      then have t: "tag_enc con @ len_enc (length (parts xs)) @ parts xs @ rest = tag_enc (unat outer_tag) @ r"
        using r by (simp add: der_enc_def)
      have "con = unat outer_tag" using r_tag.prefix_free [OF _ _ t] u32_less by (simp add: con_def)
      with a no [of "parts xs" rest] show False by simp
    qed
    with no show ?thesis unfolding e None by auto
  next
    case (Some k)
    with p obtain x rest where "p_asn1 (unat outer_tag) bs = Some (x, rest)" "cbs_view k x" "cbs_view c' rest" by auto
    then show ?thesis unfolding e Some by (auto simp: p_asn1_iff)
  qed
next
  case False
  have no: "\<not> (length x < 2 ^ 32 \<and> bs = der_enc (unat outer_tag) x @ rest)" for x rest
    using False CBS_peek_asn1_tag_iff [OF assms(3), of outer_tag] by (auto simp: der_enc_def)
  obtain q c' where e: "CBS_get_asn1_implicit_string a outer_tag inner_tag c = (q, c')" by fastforce
  note k = constructed_string [OF False assms(3), where a = a and inner_tag = inner_tag, unfolded e]
  show ?thesis
  proof (cases q)
    case None
    show ?thesis using k no unfolding e None con_def parts_def option.case prod.case by blast
  next
    case (Some p)
    obtain out st where p: "p = (out, st)" by fastforce
    show ?thesis using k unfolding e Some p con_def parts_def option.case prod.case by blast
  qed
qed

theorem CBS_get_asn1_implicit_string_exact_witness:
  "\<exists>out storage c'. CBS_get_asn1_implicit_string ok_heap 0x80000000 CBS_ASN1_OCTETSTRING
       (CBS_init [0xa0, 6, 4, 1, 7, 4, 1, 8] 8) = (Some (out, storage), c') \<and> cbs_view out [7, 8]"
proof -
  let ?bs = "[0xa0, 6, 4, 1, 7, 4, 1, 8] :: bytes" and ?d = "der_enc (unat CBS_ASN1_OCTETSTRING)"
  have v: "cbs_view (CBS_init ?bs 8) ?bs" by (simp add: cbs_view_def cbs_ok_def cbs_bytes_def CBS_init_def)
  have con: "unat (0x80000000 OR CBS_ASN1_CONSTRUCTED) = 0xa0000000" by (simp add: CBS_ASN1_CONSTRUCTED_def)
  have e: "?bs = der_enc 0xa0000000 (concat (map ?d [[7], [8]])) @ []"
    by (simp add: CBS_ASN1_OCTETSTRING_def der_enc_def tag_enc_def len_enc_def)
  obtain q c' where q: "CBS_get_asn1_implicit_string ok_heap 0x80000000 CBS_ASN1_OCTETSTRING (CBS_init ?bs 8) = (q, c')"
    by fastforce
  note x = CBS_get_asn1_implicit_string_exact [OF v, where a = ok_heap and outer_tag = "0x80000000"
    and inner_tag = CBS_ASN1_OCTETSTRING, unfolded q con]
  have small: "length (concat (map ?d [[7], [8]])) < 2 ^ 32"
    by (simp add: CBS_ASN1_OCTETSTRING_def der_enc_def tag_enc_def len_enc_def)
  show ?thesis
  proof (cases q)
    case None
    have "\<forall>i. next_ok ok_heap i" "\<not> 2 ^ 62 \<le> length ?bs" by (simp_all add: ok_heap_def)
    with x e small show ?thesis unfolding None option.case prod.case by blast
  next
    case (Some p)
    obtain out st where p: "p = (out, st)" by fastforce
    have "?bs \<noteq> der_enc (unat (0x80000000 :: u32)) y @ r" for y r by (simp add: der_enc_def tag_enc_def)
    then obtain xs r where xs: "?bs = der_enc 0xa0000000 (concat (map ?d xs)) @ r" "cbs_view out (concat xs)"
      using x unfolding Some p option.case prod.case by blast
    have l: "length (concat (map ?d xs)) \<le> 8" using arg_cong [OF xs(1), of length] by (simp add: der_enc_def)
    then have "list_all (\<lambda>x. length x < 2 ^ 32) xs" by (induction xs) (auto simp: der_enc_def)
    moreover have "concat (map ?d xs) = concat (map ?d [[7], [8]])"
      using r_any.prefix_free [of "(0xa0000000, concat (map ?d xs))" "(0xa0000000, concat (map ?d [[7], [8]]))" r "[]"] l small
        xs(1) e by simp
    ultimately have "xs = [[7], [8]]"
      by (intro chunks_inj [of "unat CBS_ASN1_OCTETSTRING"]) (simp_all add: CBS_ASN1_OCTETSTRING_def)
    with xs(2) q Some p show ?thesis by auto
  qed
qed

end
