(* ===== verification/Const_Time.thy ===== *)
theory Const_Time
  imports C_Prelude
begin

section \<open>Branch-free comparisons (crypto/internal.h)\<close>

text \<open>
  The masks of internal.h, computed without branches on \<open>crypto_word_t\<close> (64 bits). \<open>value_barrier_w\<close>
  is the identity (an empty \<open>asm\<close> that hides the value from the compiler). The lemmas say which
  comparison each mask stands for; they hold for all operands, by a case analysis on the top bits.
\<close>

definition value_barrier_w :: "u64 \<Rightarrow> u64" where
  "value_barrier_w a = a"

definition constant_time_msb_w :: "u64 \<Rightarrow> u64" where
  "constant_time_msb_w a = 0 - drop_bit (8 * 8 - 1) a"

definition constant_time_lt_w :: "u64 \<Rightarrow> u64 \<Rightarrow> u64" where
  "constant_time_lt_w a b = constant_time_msb_w (a XOR ((a XOR b) OR ((a - b) XOR a)))"

definition constant_time_lt_8 :: "u64 \<Rightarrow> u64 \<Rightarrow> u8" where
  "constant_time_lt_8 a b = ucast (constant_time_lt_w a b)"

definition constant_time_ge_w :: "u64 \<Rightarrow> u64 \<Rightarrow> u64" where
  "constant_time_ge_w a b = NOT (constant_time_lt_w a b)"

definition constant_time_ge_8 :: "u64 \<Rightarrow> u64 \<Rightarrow> u8" where
  "constant_time_ge_8 a b = ucast (constant_time_ge_w a b)"

definition constant_time_is_zero_w :: "u64 \<Rightarrow> u64" where
  "constant_time_is_zero_w a = constant_time_msb_w (NOT a AND (a - 1))"

definition constant_time_is_zero_8 :: "u64 \<Rightarrow> u8" where
  "constant_time_is_zero_8 a = ucast (constant_time_is_zero_w a)"

definition constant_time_eq_w :: "u64 \<Rightarrow> u64 \<Rightarrow> u64" where
  "constant_time_eq_w a b = constant_time_is_zero_w (a XOR b)"

definition constant_time_eq_8 :: "u64 \<Rightarrow> u64 \<Rightarrow> u8" where
  "constant_time_eq_8 a b = ucast (constant_time_eq_w a b)"

definition constant_time_eq_int :: "32 word \<Rightarrow> 32 word \<Rightarrow> u64" where
  "constant_time_eq_int a b = constant_time_eq_w (scast a) (scast b)"

definition constant_time_eq_int_8 :: "32 word \<Rightarrow> 32 word \<Rightarrow> u8" where
  "constant_time_eq_int_8 a b = constant_time_eq_8 (scast a) (scast b)"

definition constant_time_select_w :: "u64 \<Rightarrow> u64 \<Rightarrow> u64 \<Rightarrow> u64" where
  "constant_time_select_w m a b = (value_barrier_w m AND a) OR (value_barrier_w (NOT m) AND b)"

definition constant_time_select_8 :: "u8 \<Rightarrow> u8 \<Rightarrow> u8 \<Rightarrow> u8" where
  "constant_time_select_8 m a b = ucast (constant_time_select_w (ucast m) (ucast a) (ucast b))"

definition constant_time_select_int :: "u64 \<Rightarrow> 32 word \<Rightarrow> 32 word \<Rightarrow> 32 word" where
  "constant_time_select_int m a b = ucast (constant_time_select_w m (scast a) (scast b))"

subsection \<open>What the masks stand for\<close>

lemma bit_top: "bit (a :: u64) 63 \<longleftrightarrow> 2 ^ 63 \<le> unat a"
proof -
  have "unat a div 2 ^ 63 < 2" by (simp add: div_less_iff_less_mult)
  then have "odd (unat a div 2 ^ 63) \<longleftrightarrow> unat a div 2 ^ 63 \<noteq> 0" by (auto simp: less_2_cases_iff)
  also have "\<dots> \<longleftrightarrow> 2 ^ 63 \<le> unat a" by (simp add: div_eq_0_iff not_less)
  finally show ?thesis by (simp only: bit_unat [of a]) (simp add: bit_iff_odd)
qed

lemma msb_w_eq: "constant_time_msb_w a = (if bit a 63 then - 1 else 0)"
proof -
  have "drop_bit 63 a = of_bool (bit a 63)"
  proof (cases "2 ^ 63 \<le> unat a")
    case True
    then have "unat a div 2 ^ 63 = 1" using unat_u64_less [of a] by (intro div_nat_eqI) (simp_all del: unat_u64_less)
    with True show ?thesis by (simp add: word_unat_eq_iff unat_shr bit_top)
  next
    case False
    then show ?thesis by (simp add: word_unat_eq_iff unat_shr bit_top)
  qed
  then show ?thesis by (simp add: constant_time_msb_w_def)
qed

lemma bit_top_minus:
  fixes a b :: u64
  assumes "bit a 63 = bit b 63"
  shows "bit (a - b) 63 \<longleftrightarrow> a < b"
proof (cases "a < b")
  case True
  then have "unat (a - b) = 2 ^ 64 + unat a - unat b"
    by (simp add: unat_sub_if_size word_less_nat_alt word_size word_le_nat_alt)
  moreover have "unat a < unat b" using True by (simp add: word_less_nat_alt)
  ultimately show ?thesis
    using True assms unat_u64_less [of b] unfolding bit_top by (auto simp del: unat_u64_less)
next
  case False
  then have "unat (a - b) = unat a - unat b" by (simp add: unat_sub not_less)
  then show ?thesis
    using False assms unat_u64_less [of a] unfolding bit_top by (auto simp del: unat_u64_less)
qed

lemma lt_w_iff: "constant_time_lt_w a b = (if a < b then - 1 else 0)"
proof (cases "bit a 63 = bit b 63")
  case True
  then show ?thesis
    by (auto simp: constant_time_lt_w_def msb_w_eq bit_xor_iff bit_or_iff bit_top_minus)
next
  case False
  then have "a < b \<longleftrightarrow> bit b 63" by (auto simp: bit_top word_less_nat_alt)
  with False show ?thesis
    by (auto simp: constant_time_lt_w_def msb_w_eq bit_xor_iff bit_or_iff)
qed

lemma is_zero_w_iff: "constant_time_is_zero_w a = (if a = 0 then - 1 else 0)"
proof (cases "a = 0")
  case False
  then have "unat (a - 1) = unat a - 1" by (simp add: unat_minus_one)
  moreover have "bit (NOT a AND (a - 1)) 63 \<longleftrightarrow> \<not> bit a 63 \<and> bit (a - 1) 63"
    by (simp add: bit_and_iff bit_not_iff)
  ultimately have "\<not> bit (NOT a AND (a - 1)) 63" by (auto simp only: bit_top)
  with False show ?thesis by (simp add: constant_time_is_zero_w_def msb_w_eq)
qed (simp add: constant_time_is_zero_w_def msb_w_eq bit_and_iff bit_not_iff)

lemma eq_w_iff: "constant_time_eq_w a b = (if a = b then - 1 else 0)"
proof -
  have "a XOR b = 0 \<longleftrightarrow> a = b" by (auto simp: bit_eq_iff bit_xor_iff)
  then show ?thesis by (simp add: constant_time_eq_w_def is_zero_w_iff)
qed

lemma ucast_m1 [simp]: "(ucast (- 1 :: u64) :: u8) = - 1"
  by code_simp

lemma eq_8_iff: "constant_time_eq_8 a b = (if a = b then - 1 else 0)"
  by (simp add: constant_time_eq_8_def eq_w_iff)

lemma ucast_u8_id: "(ucast (ucast (a :: u8) :: u64) :: u8) = a"
  by (simp add: word_unat_eq_iff unat_ucast_mod)

lemma select_8_mask: "constant_time_select_8 (if c then - 1 else 0) a b = (if c then a else b)"
proof -
  have "(ucast (ucast (- 1 :: u8) AND ucast a OR NOT (ucast (- 1 :: u8)) AND ucast b :: u64) :: u8) = a"
    by (rule bit_eqI) (auto simp: bit_ucast_iff bit_and_iff bit_or_iff bit_not_iff dest: bit_imp_le_length)
  then show ?thesis
    by (simp add: constant_time_select_8_def constant_time_select_w_def value_barrier_w_def ucast_u8_id)
qed

lemma lt_8_iff: "constant_time_lt_8 a b = (if a < b then - 1 else 0)"
  by (simp add: constant_time_lt_8_def lt_w_iff)

lemma ge_w_iff: "constant_time_ge_w a b = (if b \<le> a then - 1 else 0)"
  by (auto simp: constant_time_ge_w_def lt_w_iff)

lemma ge_8_iff: "constant_time_ge_8 a b = (if b \<le> a then - 1 else 0)"
  by (simp add: constant_time_ge_8_def ge_w_iff)

lemma is_zero_8_iff: "constant_time_is_zero_8 a = (if a = 0 then - 1 else 0)"
  by (simp add: constant_time_is_zero_8_def is_zero_w_iff)

lemma scast_u64_eq: "(scast (x :: 32 word) :: u64) = scast y \<longleftrightarrow> x = y"
proof
  assume eq: "(scast x :: u64) = scast y"
  have "bit x n \<longleftrightarrow> bit y n" if "n < 32" for n
    using arg_cong [OF eq, of "\<lambda>w. bit w n"] that by (simp add: bit_signed_iff min.absorb2)
  then show "x = y" by (intro bit_word_eqI) simp
qed simp

lemma eq_int_iff: "constant_time_eq_int x y = (if x = y then - 1 else 0)"
  by (simp add: constant_time_eq_int_def eq_w_iff scast_u64_eq)

lemma eq_int_8_iff: "constant_time_eq_int_8 x y = (if x = y then - 1 else 0)"
  by (simp add: constant_time_eq_int_8_def eq_8_iff scast_u64_eq)

lemma bit_select_w: "bit (constant_time_select_w m a b) i = (if bit m i then bit a i else bit b i)"
  by (auto simp: constant_time_select_w_def value_barrier_w_def bit_and_iff bit_or_iff bit_not_iff dest: bit_imp_le_length)

lemma select_w_mask: "constant_time_select_w (if c then - 1 else 0) a b = (if c then a else b)"
  by (simp add: constant_time_select_w_def value_barrier_w_def)

lemma ucast_scast_int: "(ucast (scast (x :: 32 word) :: u64) :: 32 word) = x"
  by (rule bit_word_eqI) (simp add: bit_unsigned_iff bit_signed_iff min.absorb2)

lemma select_int_mask: "constant_time_select_int (if c then - 1 else 0) x y = (if c then x else y)"
  by (simp add: constant_time_select_int_def select_w_mask ucast_scast_int)

subsection \<open>Properties\<close>

text \<open>
  C7. The branch-free comparisons return all ones or all zeros, on all operands: \<open>constant_time_lt_w\<close> and
  \<open>constant_time_ge_w\<close> by the unsigned order, \<open>constant_time_is_zero_w\<close>, \<open>constant_time_eq_w\<close> and
  \<open>constant_time_eq_int\<close> by equality, and their \<open>_8\<close> forms likewise with an 8-bit mask. The selections take each bit
  from the side the mask names: \<open>constant_time_select_w\<close> for every mask, and on the mask of a comparison each of the
  three selections returns its first argument when the comparison holds and its second otherwise.
\<close>

theorem constant_time_masks:
  "constant_time_lt_w a b = (if unat a < unat b then 0xffffffffffffffff else 0)
   \<and> constant_time_ge_w a b = (if unat b \<le> unat a then 0xffffffffffffffff else 0)
   \<and> constant_time_is_zero_w a = (if a = 0 then 0xffffffffffffffff else 0)
   \<and> constant_time_eq_w a b = (if a = b then 0xffffffffffffffff else 0)
   \<and> constant_time_eq_int x y = (if x = y then 0xffffffffffffffff else 0)
   \<and> constant_time_lt_8 a b = (if unat a < unat b then 0xff else 0)
   \<and> constant_time_ge_8 a b = (if unat b \<le> unat a then 0xff else 0)
   \<and> constant_time_is_zero_8 a = (if a = 0 then 0xff else 0)
   \<and> constant_time_eq_8 a b = (if a = b then 0xff else 0)
   \<and> constant_time_eq_int_8 x y = (if x = y then 0xff else 0)
   \<and> bit (constant_time_select_w m u v) i = (if bit m i then bit u i else bit v i)
   \<and> constant_time_select_w (constant_time_lt_w a b) u v = (if unat a < unat b then u else v)
   \<and> constant_time_select_w (constant_time_eq_w a b) u v = (if a = b then u else v)
   \<and> constant_time_select_8 (constant_time_lt_8 a b) j k = (if unat a < unat b then j else k)
   \<and> constant_time_select_8 (constant_time_eq_8 a b) j k = (if a = b then j else k)
   \<and> constant_time_select_int (constant_time_ge_w a b) x y = (if unat b \<le> unat a then x else y)
   \<and> constant_time_select_int (constant_time_eq_int x y) z w = (if x = y then z else w)"
proof -
  have ones: "(- 1 :: u64) = 0xffffffffffffffff" "(- 1 :: u8) = 0xff" by simp_all
  have order: "unat a < unat b \<longleftrightarrow> a < b" "unat b \<le> unat a \<longleftrightarrow> b \<le> a"
    by (simp_all add: word_less_nat_alt word_le_nat_alt)
  show ?thesis
    unfolding order ones [symmetric] lt_w_iff ge_w_iff is_zero_w_iff eq_w_iff eq_int_iff lt_8_iff ge_8_iff is_zero_8_iff
      eq_8_iff eq_int_8_iff bit_select_w select_w_mask select_8_mask select_int_mask
    by (intro conjI refl)
qed

end
