(* ===== verification/Base64.thy ===== *)
theory Base64
  imports Const_Time
begin

section \<open>Base64 (crypto/base64/base64.c)\<close>

text \<open>
  The encoder and decoder of base64.c: single blocks, and the streaming interface with its context.
  Characters are bytes. An output pointer is the list of the bytes the function writes there; a block
  of text is followed by a NUL that is part of the list.
\<close>

definition constant_time_lt_args_8 :: "u8 \<Rightarrow> u8 \<Rightarrow> u8" where
  "constant_time_lt_args_8 a b = (let aw = ucast a; bw = ucast b in ucast (constant_time_msb_w (aw - bw)))"

definition constant_time_in_range_8 :: "u8 \<Rightarrow> u8 \<Rightarrow> u8 \<Rightarrow> u8" where
  "constant_time_in_range_8 a mn mx = constant_time_lt_args_8 (a - mn) (mx - mn + 1)"

subsection \<open>Encoding\<close>

definition conv_bin2ascii :: "u8 \<Rightarrow> u8" where
  "conv_bin2ascii a =
     (let a = a AND 0x3f;
          ret = constant_time_select_8 (constant_time_eq_8 (ucast a) 62) 0x2b 0x2f;
          ret = constant_time_select_8 (constant_time_lt_args_8 a 62) (a - 52 + 0x30) ret;
          ret = constant_time_select_8 (constant_time_lt_args_8 a 52) (a - 26 + 0x61) ret
      in constant_time_select_8 (constant_time_lt_args_8 a 26) (a + 0x41) ret)"

definition EVP_EncodedLength :: "size_t \<Rightarrow> size_t option" where
  "EVP_EncodedLength len =
     (if len + 2 < len then None
      else let len = (len + 2) div 3
           in if drop_bit 2 (push_bit 2 len) \<noteq> len then None
              else let len = push_bit 2 len
                   in if len + 1 < len then None else Some (len + 1))"

fun encode_loop :: "bytes \<Rightarrow> bytes \<times> size_t" where
  "encode_loop [] = ([], 0)"
| "encode_loop [s0] =
     (let l = push_bit 16 (ucast s0) :: u32
      in ([conv_bin2ascii (ucast (drop_bit 18 l)), conv_bin2ascii (ucast (drop_bit 12 l)), 0x3d, 0x3d], 4))"
| "encode_loop [s0, s1] =
     (let l = push_bit 16 (ucast s0) OR push_bit 8 (ucast s1) :: u32
      in ([conv_bin2ascii (ucast (drop_bit 18 l)), conv_bin2ascii (ucast (drop_bit 12 l)),
           conv_bin2ascii (ucast (drop_bit 6 l)), 0x3d], 4))"
| "encode_loop (s0 # s1 # s2 # src) =
     (let l = push_bit 16 (ucast s0) OR push_bit 8 (ucast s1) OR ucast s2 :: u32;
          (dst, ret) = encode_loop src
      in ([conv_bin2ascii (ucast (drop_bit 18 l)), conv_bin2ascii (ucast (drop_bit 12 l)),
           conv_bin2ascii (ucast (drop_bit 6 l)), conv_bin2ascii (ucast l)] @ dst, 4 + ret))"

definition EVP_EncodeBlock :: "bytes \<Rightarrow> size_t \<Rightarrow> bytes \<times> size_t" where
  "EVP_EncodeBlock src src_len =
     (let (dst, ret) = encode_loop (take (unat src_len) src) in (dst @ [0], ret))"

record evp_encode_ctx =
  data_used :: u32
  data :: bytes
  eof_seen :: bool
  error_encountered :: bool

definition EVP_EncodeInit :: "evp_encode_ctx" where
  "EVP_EncodeInit = \<lparr>data_used = 0, data = replicate 48 0, eof_seen = False, error_encountered = False\<rparr>"

definition INT_MAX :: size_t where
  "INT_MAX = 0x7fffffff"

text \<open>
  One line of output: the text of \<open>EVP_EncodeBlock\<close> with its NUL overwritten by a newline. The loop of
  \<open>EVP_EncodeUpdate\<close> returns whether it left by the overflow check, the text, the running \<open>total\<close> and
  the input that is left.
\<close>

definition encode_line :: "bytes \<Rightarrow> bytes" where
  "encode_line xs = (let (dst, encoded) = EVP_EncodeBlock xs 48 in take (unat encoded) dst @ [0x0a])"

function encode_lines :: "bytes \<Rightarrow> bytes \<Rightarrow> size_t \<Rightarrow> bool \<times> bytes \<times> size_t \<times> bytes" where
  "encode_lines inp out tot =
     (if length inp \<ge> 48
      then let encoded = snd (EVP_EncodeBlock inp 48);
               out = out @ encode_line inp
           in if tot + encoded + 1 < tot then (True, out, 0, drop 48 inp)
              else encode_lines (drop 48 inp) out (tot + (encoded + 1))
      else (False, out, tot, inp))"
  by pat_completeness auto
termination
  by (relation "measure (\<lambda>(inp, _, _). length inp)") auto

declare encode_lines.simps [simp del]

definition EVP_EncodeUpdate :: "evp_encode_ctx \<Rightarrow> bytes \<Rightarrow> (bytes \<times> size_t) \<times> evp_encode_ctx" where
  "EVP_EncodeUpdate ctx inp =
     (let used = unat (data_used ctx); in_len = length inp
      in if in_len = 0 then (([], 0), ctx)
         else if 48 - used > in_len
         then (([], 0), ctx\<lparr>data := take used (data ctx) @ inp @ drop (used + in_len) (data ctx),
                            data_used := data_used ctx + of_nat in_len\<rparr>)
         else
          let (ctx, out, tot, inp) =
                (if data_used ctx \<noteq> 0
                 then let todo = 48 - used;
                          d = take used (data ctx) @ take todo inp;
                          encoded = snd (EVP_EncodeBlock d 48)
                      in (ctx\<lparr>data := d, data_used := 0\<rparr>, encode_line d, encoded + 1, drop todo inp)
                 else (ctx, [], 0, inp));
              (overflow, out, tot, inp) = encode_lines inp out tot
          in if overflow then ((out @ [0], 0), ctx)
             else let ctx = ctx\<lparr>data := inp @ drop (length inp) (data ctx), data_used := of_nat (length inp)\<rparr>
                  in ((if out = [] then [] else out @ [0], if tot > INT_MAX then 0 else tot), ctx))"

definition EVP_EncodeFinal :: "evp_encode_ctx \<Rightarrow> (bytes \<times> size_t) \<times> evp_encode_ctx" where
  "EVP_EncodeFinal ctx =
     (if data_used ctx = 0 then (([], 0), ctx)
      else let (dst, encoded) = EVP_EncodeBlock (data ctx) (ucast (data_used ctx))
           in ((take (unat encoded) dst @ [0x0a, 0], encoded + 1), ctx\<lparr>data_used := 0\<rparr>))"

subsection \<open>Decoding\<close>

definition EVP_DecodedLength :: "size_t \<Rightarrow> size_t option" where
  "EVP_DecodedLength len = (if len mod 4 \<noteq> 0 then None else Some (len div 4 * 3))"

definition base64_ascii_to_bin :: "u8 \<Rightarrow> u8" where
  "base64_ascii_to_bin a =
     (let is_upper = constant_time_in_range_8 a 0x41 0x5a;
          is_lower = constant_time_in_range_8 a 0x61 0x7a;
          is_digit = constant_time_in_range_8 a 0x30 0x39;
          is_plus = constant_time_eq_8 (ucast a) 0x2b;
          is_slash = constant_time_eq_8 (ucast a) 0x2f;
          is_equals = constant_time_eq_8 (ucast a) 0x3d;
          ret = (is_upper AND (a - 0x41)) OR (is_lower AND (a - 0x61 + 26)) OR (is_digit AND (a - 0x30 + 52))
                OR (is_plus AND 62) OR (is_slash AND 63);
          is_valid = is_upper OR is_lower OR is_digit OR is_plus OR is_slash OR is_equals
      in ret OR NOT is_valid)"

definition base64_decode_quad :: "bytes \<Rightarrow> bytes option" where
  "base64_decode_quad inp =
     (let a = base64_ascii_to_bin (inp ! 0); b = base64_ascii_to_bin (inp ! 1);
          c = base64_ascii_to_bin (inp ! 2); d = base64_ascii_to_bin (inp ! 3)
      in if a = 0xff \<or> b = 0xff \<or> c = 0xff \<or> d = 0xff then None
         else
          let v = push_bit 18 (ucast a) OR push_bit 12 (ucast b) OR push_bit 6 (ucast c) OR ucast d :: u32;
              padding_pattern = push_bit 3 (of_bool (inp ! 0 = 0x3d)) OR push_bit 2 (of_bool (inp ! 1 = 0x3d))
                OR push_bit 1 (of_bool (inp ! 2 = 0x3d)) OR of_bool (inp ! 3 = 0x3d) :: u32
          in if padding_pattern = 0 then Some [ucast (drop_bit 16 v), ucast (drop_bit 8 v), ucast v]
             else if padding_pattern = 1 then Some [ucast (drop_bit 16 v), ucast (drop_bit 8 v)]
             else if padding_pattern = 3 then Some [ucast (drop_bit 16 v)]
             else None)"

definition b64_space :: "u8 \<Rightarrow> bool" where
  "b64_space c \<longleftrightarrow> c = 0x20 \<or> c = 0x09 \<or> c = 0x0d \<or> c = 0x0a"

text \<open>The loop of \<open>EVP_DecodeUpdate\<close>: \<open>False\<close> for the early return of \<open>-1\<close>, and the bytes written.\<close>

fun decode_update_loop :: "bytes \<Rightarrow> evp_encode_ctx \<Rightarrow> bytes \<Rightarrow> (bool \<times> bytes) \<times> evp_encode_ctx" where
  "decode_update_loop out ctx [] = ((True, out), ctx)"
| "decode_update_loop out ctx (c # inp) =
     (if b64_space c then decode_update_loop out ctx inp
      else if eof_seen ctx then ((False, out), ctx\<lparr>error_encountered := True\<rparr>)
      else let ctx = ctx\<lparr>data := (data ctx)[unat (data_used ctx) := c], data_used := data_used ctx + 1\<rparr>
           in if data_used ctx = 4
              then case base64_decode_quad (data ctx) of
                     None \<Rightarrow> ((False, out), ctx\<lparr>error_encountered := True\<rparr>)
                   | Some bs \<Rightarrow>
                       decode_update_loop (out @ bs)
                         (ctx\<lparr>data_used := 0, eof_seen := eof_seen ctx \<or> length bs < 3\<rparr>) inp
              else decode_update_loop out ctx inp)"

definition EVP_DecodeUpdate :: "evp_encode_ctx \<Rightarrow> bytes \<Rightarrow> (int \<times> bytes \<times> nat) \<times> evp_encode_ctx" where
  "EVP_DecodeUpdate ctx inp =
     (if error_encountered ctx then ((- 1, [], 0), ctx)
      else case decode_update_loop [] ctx inp of
             ((False, out), ctx) \<Rightarrow> ((- 1, out, 0), ctx)
           | ((True, out), ctx) \<Rightarrow>
               if length out > unat INT_MAX then ((- 1, out, 0), ctx\<lparr>error_encountered := True\<rparr>)
               else ((if eof_seen ctx then 0 else 1, out, length out), ctx))"

definition EVP_DecodeFinal :: "evp_encode_ctx \<Rightarrow> int" where
  "EVP_DecodeFinal ctx = (if error_encountered ctx \<or> data_used ctx \<noteq> 0 then - 1 else 1)"

fun decode_loop :: "bytes \<Rightarrow> bytes option" where
  "decode_loop (a # b # c # d # inp) =
     (case base64_decode_quad [a, b, c, d] of
        None \<Rightarrow> None
      | Some bs \<Rightarrow>
          if length bs \<noteq> 3 \<and> inp \<noteq> [] then None else map_option ((@) bs) (decode_loop inp))"
| "decode_loop _ = Some []"

definition EVP_DecodeBase64 :: "size_t \<Rightarrow> bytes \<Rightarrow> size_t \<Rightarrow> bytes option" where
  "EVP_DecodeBase64 max_out inp in_len =
     (if in_len mod 4 \<noteq> 0 then None
      else case EVP_DecodedLength in_len of
             None \<Rightarrow> None
           | Some max_len \<Rightarrow>
               if max_out < max_len then None else decode_loop (take (unat in_len) inp))"

fun trim_left :: "bytes \<Rightarrow> bytes" where
  "trim_left [] = []"
| "trim_left (c # src) = (if c \<noteq> 0x20 \<and> c \<noteq> 0x09 then c # src else trim_left src)"

definition EVP_DecodeBlock :: "bytes \<Rightarrow> size_t \<Rightarrow> bytes option" where
  "EVP_DecodeBlock src src_len =
     (let src = rev (dropWhile b64_space (rev (trim_left (take (unat src_len) src))));
          src_len = of_nat (length src)
      in case EVP_DecodedLength src_len of
           None \<Rightarrow> None
         | Some dst_len \<Rightarrow>
             if dst_len > INT_MAX then None
             else case EVP_DecodeBase64 dst_len src src_len of
                    None \<Rightarrow> None
                  | Some dst \<Rightarrow> Some (dst @ replicate ((3 - length dst mod 3) mod 3) 0))"

subsection \<open>The alphabet\<close>

definition b64_alphabet :: bytes where
  "b64_alphabet = map of_nat ([65..<91] @ [97..<123] @ [48..<58] @ [43, 47])"

lemma lt_args_8_iff: "constant_time_lt_args_8 a b = (if a < b then - 1 else 0)"
proof -
  have t: "\<not> bit (ucast (c :: u8) :: u64) 63" for c
    unfolding bit_top using unat_u8_less [of c] by (simp del: unat_u8_less)
  have "bit (ucast a - ucast b :: u64) 63 \<longleftrightarrow> (ucast a :: u64) < ucast b"
    by (rule bit_top_minus) (simp add: t)
  then show ?thesis by (simp add: constant_time_lt_args_8_def msb_w_eq word_less_nat_alt)
qed

lemma conv_bin2ascii_eq: "conv_bin2ascii a = b64_alphabet ! (unat a mod 64)"
proof -
  have all: "list_all (\<lambda>n. conv_bin2ascii (of_nat n) = b64_alphabet ! n) [0..<64]"
    unfolding conv_bin2ascii_def lt_args_8_iff eq_8_iff select_8_mask Let_def b64_alphabet_def by code_simp
  have "unat (a AND 0x3f) = unat a mod 64"
    using unat_and_mask [of a 6] by (simp add: mask_eq_exp_minus_1)
  then have m: "a AND 0x3f = of_nat (unat a mod 64)" by (metis of_nat_unat ucast_id)
  have "conv_bin2ascii a = conv_bin2ascii (a AND 0x3f)"
    by (simp add: conv_bin2ascii_def and.assoc)
  then show ?thesis using all unfolding m by (simp add: list_all_iff)
qed

lemma in_range_8_iff:
  assumes "mn \<le> mx" and "unat mx < 255"
  shows "constant_time_in_range_8 a mn mx = (if mn \<le> a \<and> a \<le> mx then - 1 else 0)"
proof -
  define m where "m = unat mn"
  define k where "k = unat mx"
  define n where "n = unat a"
  have le: "m \<le> k" "k < 255" "n < 256" using assms by (simp_all add: m_def k_def n_def word_le_nat_alt)
  have "unat (mx - mn + 1) = k - m + 1"
    using assms le by (simp add: unat_word_ariths unat_sub m_def k_def)
  moreover have "unat (a - mn) = (if m \<le> n then n - m else n + 256 - m)"
    by (simp add: unat_sub_if_size word_size m_def n_def)
  ultimately have "a - mn < mx - mn + 1 \<longleftrightarrow> m \<le> n \<and> n \<le> k"
    using le by (auto simp: word_less_nat_alt)
  then show ?thesis
    by (simp add: constant_time_in_range_8_def lt_args_8_iff word_le_nat_alt m_def n_def k_def)
qed

lemma base64_ascii_to_bin_eq:
  "base64_ascii_to_bin a =
     (if 0x41 \<le> a \<and> a \<le> 0x5a then a - 0x41
      else if 0x61 \<le> a \<and> a \<le> 0x7a then a - 0x61 + 26
      else if 0x30 \<le> a \<and> a \<le> 0x39 then a - 0x30 + 52
      else if a = 0x2b then 62 else if a = 0x2f then 63 else if a = 0x3d then 0 else 0xff)"
proof -
  have e: "ucast a = (c :: u64) \<longleftrightarrow> unat a = unat c" if "unat c < 256" for c
    using that by (simp add: word_unat_eq_iff)
  have r: "constant_time_in_range_8 a 0x41 0x5a = (if 0x41 \<le> a \<and> a \<le> 0x5a then - 1 else 0)"
    "constant_time_in_range_8 a 0x61 0x7a = (if 0x61 \<le> a \<and> a \<le> 0x7a then - 1 else 0)"
    "constant_time_in_range_8 a 0x30 0x39 = (if 0x30 \<le> a \<and> a \<le> 0x39 then - 1 else 0)"
    by (rule in_range_8_iff; simp)+
  have m1: "unat (- 1 :: u8) = 255" by code_simp
  show ?thesis
    unfolding base64_ascii_to_bin_def Let_def r eq_8_iff
    by (auto simp: e word_le_nat_alt word_unat_eq_iff m1 split: if_splits)
qed

lemma alphabet_decode:
  assumes "n < 64"
  shows "base64_ascii_to_bin (b64_alphabet ! n) = of_nat n" "b64_alphabet ! n \<noteq> 0x3d" "\<not> b64_space (b64_alphabet ! n)"
proof -
  have l: "length b64_alphabet = 64" by (simp add: b64_alphabet_def)
  have "map base64_ascii_to_bin b64_alphabet = map of_nat [0..<64]"
    unfolding base64_ascii_to_bin_eq b64_alphabet_def by code_simp
  then have "map base64_ascii_to_bin b64_alphabet ! n = map of_nat [0..<64] ! n" by (rule arg_cong)
  then show "base64_ascii_to_bin (b64_alphabet ! n) = of_nat n" using assms l by simp
  have "list_all (\<lambda>c. c \<noteq> 0x3d \<and> \<not> b64_space c) b64_alphabet"
    unfolding b64_space_def b64_alphabet_def by code_simp
  with assms l show "b64_alphabet ! n \<noteq> 0x3d" "\<not> b64_space (b64_alphabet ! n)"
    by (auto simp: list_all_length)
qed

lemma bin_equals: "base64_ascii_to_bin 0x3d = 0"
  by (simp add: base64_ascii_to_bin_eq)


subsection \<open>Encoding and decoding are inverse\<close>

lemma enc_digit: "conv_bin2ascii (ucast (drop_bit k (l :: u32))) = b64_alphabet ! (unat l div 2 ^ k mod 64)"
  by (simp add: conv_bin2ascii_eq unat_ucast_mod unat_shr mod_mod_cancel)

lemma quad_value:
  fixes a b c d :: u8
  assumes "unat a < 64" "unat b < 64" "unat c < 64" "unat d < 64"
  shows "unat (push_bit 18 (ucast a) OR push_bit 12 (ucast b) OR push_bit 6 (ucast c) OR ucast d :: u32)
    = unat a * 2 ^ 18 + unat b * 2 ^ 12 + unat c * 2 ^ 6 + unat d"
  using assms by (simp add: unat_shl_or)

lemma triple_value:
  "unat (push_bit 16 (ucast (a :: u8)) OR push_bit 8 (ucast (b :: u8)) OR ucast (c :: u8) :: u32)
    = unat a * 2 ^ 16 + unat b * 2 ^ 8 + unat c"
proof -
  have "unat a * 2 ^ 16 < 2 ^ 32" "unat b * 2 ^ 8 < 2 ^ 32" "unat b * 2 ^ 8 + unat c < 2 ^ 16"
    using unat_u8_less [of a] unat_u8_less [of b] unat_u8_less [of c] by (simp_all del: unat_u8_less)
  then show ?thesis by (simp add: unat_shl_or)
qed

lemma digits_value: "n < 2 ^ 24 \<Longrightarrow>
  n div 2 ^ 18 mod 64 * 2 ^ 18 + n div 2 ^ 12 mod 64 * 2 ^ 12 + n div 2 ^ 6 mod 64 * 2 ^ 6 + n mod 64 = (n :: nat)"
proof -
  assume "n < 2 ^ 24"
  then have top: "n div 2 ^ 18 mod 64 = n div 2 ^ 18" by (simp add: div_less_iff_less_mult)
  define q1 where "q1 = n div 64"
  define q2 where "q2 = q1 div 64"
  define q3 where "q3 = q2 div 64"
  have d: "n div 2 ^ 18 = q3" "n div 2 ^ 12 = q2" "n div 2 ^ 6 = q1"
    by (simp_all add: q1_def q2_def q3_def flip: div_mult2_eq)
  have "q1 * 64 + n mod 64 = n" "q2 * 64 + q1 mod 64 = q1" "q3 * 64 + q2 mod 64 = q2"
    unfolding q3_def q2_def q1_def by (rule div_mult_mod_eq)+
  then show ?thesis unfolding top unfolding d by simp
qed

lemma unat_sextet: "unat (of_nat (r mod 64) :: u8) = r mod 64"
proof -
  have "r mod 64 < 256" by (rule less_trans [of _ 64]) simp_all
  then show ?thesis by (simp add: unat_of_nat)
qed

lemma sextet_not_ff: "(of_nat (r mod 64) :: u8) \<noteq> 0xff"
proof
  assume "(of_nat (r mod 64) :: u8) = 0xff"
  then have "r mod 64 = 255" using unat_sextet [of r] by simp
  moreover have "r mod 64 < 64" by simp
  ultimately show False by simp
qed

lemma decode_quad:
  assumes "n < 2 ^ 24" and "i0 \<noteq> 0x3d" "i1 \<noteq> 0x3d"
    and "base64_ascii_to_bin i0 = of_nat (n div 2 ^ 18 mod 64)" "base64_ascii_to_bin i1 = of_nat (n div 2 ^ 12 mod 64)"
    and "base64_ascii_to_bin i2 = of_nat (n div 2 ^ 6 mod 64)" "base64_ascii_to_bin i3 = of_nat (n mod 64)"
  shows "base64_decode_quad [i0, i1, i2, i3] =
    (let out = [of_nat (n div 2 ^ 16), of_nat (n div 2 ^ 8), of_nat n]
     in if i2 = 0x3d then if i3 = 0x3d then Some (take 1 out) else None
        else if i3 = 0x3d then Some (take 2 out) else Some out)"
proof -
  define v where "v = (push_bit 18 (ucast (base64_ascii_to_bin i0)) OR push_bit 12 (ucast (base64_ascii_to_bin i1))
    OR push_bit 6 (ucast (base64_ascii_to_bin i2)) OR ucast (base64_ascii_to_bin i3) :: u32)"
  have u: "unat (base64_ascii_to_bin i0) = n div 2 ^ 18 mod 64" "unat (base64_ascii_to_bin i1) = n div 2 ^ 12 mod 64"
    "unat (base64_ascii_to_bin i2) = n div 2 ^ 6 mod 64" "unat (base64_ascii_to_bin i3) = n mod 64"
    unfolding assms(4-7) by (rule unat_sextet)+
  then have "unat v = unat (base64_ascii_to_bin i0) * 2 ^ 18 + unat (base64_ascii_to_bin i1) * 2 ^ 12
      + unat (base64_ascii_to_bin i2) * 2 ^ 6 + unat (base64_ascii_to_bin i3)"
    unfolding v_def by (intro quad_value) (simp_all only: mod_less_divisor zero_less_numeral)
  then have "unat v = n" unfolding u digits_value [OF assms(1)] .
  then have out: "(ucast (drop_bit k v) :: u8) = of_nat (n div 2 ^ k)" for k
    by (simp add: word_unat_eq_iff unat_ucast_mod unat_shr unat_of_nat)
  have pp: "push_bit 3 (of_bool False) OR push_bit 2 (of_bool False) OR push_bit 1 (of_bool p) OR of_bool q = (if p then if q then 3 else 2 else if q then 1 else 0 :: u32)" for p q
    by (cases p; cases q) simp_all
  have ff: "base64_ascii_to_bin i0 \<noteq> 0xff" "base64_ascii_to_bin i1 \<noteq> 0xff" "base64_ascii_to_bin i2 \<noteq> 0xff"
    "base64_ascii_to_bin i3 \<noteq> 0xff"
    unfolding assms(4-7) by (rule sextet_not_ff)+
  have nth: "[i0, i1, i2, i3] ! 0 = i0" "[i0, i1, i2, i3] ! 1 = i1" "[i0, i1, i2, i3] ! 2 = i2" "[i0, i1, i2, i3] ! 3 = i3"
    by simp_all
  have e: "(i0 = 0x3d) = False" "(i1 = 0x3d) = False" using assms(2,3) by simp_all
  have eq: "base64_decode_quad [i0, i1, i2, i3] =
      (let pp = (if i2 = 0x3d then if i3 = 0x3d then 3 else 2 else if i3 = 0x3d then 1 else 0 :: u32)
       in if pp = 0 then Some [ucast (drop_bit 16 v), ucast (drop_bit 8 v), ucast v]
          else if pp = 1 then Some [ucast (drop_bit 16 v), ucast (drop_bit 8 v)]
          else if pp = 3 then Some [ucast (drop_bit 16 v)] else None)"
    unfolding base64_decode_quad_def Let_def nth v_def [symmetric] e pp using ff by simp
  have t: "take 1 [x, y, z] = [x]" "take 2 [x, y, z] = [x, y]" for x y z :: u8 by simp_all
  have "(ucast v :: u8) = of_nat n" using out [of 0] by simp
  then show ?thesis unfolding eq Let_def t out by (cases "i2 = 0x3d"; cases "i3 = 0x3d") simp_all
qed

lemma of_nat_u8_eqI: "n mod 256 = unat a \<Longrightarrow> of_nat n = (a :: u8)"
  by (simp only: word_unat_eq_iff unat_of_nat) simp

lemma triple_bytes:
  fixes a b c :: u8
  defines "n \<equiv> unat a * 2 ^ 16 + unat b * 2 ^ 8 + unat c"
  shows "of_nat (n div 2 ^ 16) = a" "of_nat (n div 2 ^ 8) = b" "of_nat n = c" "n < 2 ^ 24"
proof -
  define x y z where "x = unat a" and "y = unat b" and "z = unat c"
  have l: "x < 256" "y < 256" "z < 256" by (simp_all add: x_def y_def z_def)
  have n: "n = x * 65536 + y * 256 + z" by (simp add: n_def x_def y_def z_def)
  have "n div 65536 = x" using l unfolding n by (intro div_nat_eqI) simp_all
  moreover have "n div 256 = x * 256 + y" using l unfolding n by (intro div_nat_eqI) simp_all
  moreover have "(x * 256 + y) mod 256 = y" "n mod 256 = z"
    using l mod_mult_self3 [of "x * 256 + y" 256 z] unfolding n by (simp_all add: algebra_simps)
  ultimately show "of_nat (n div 2 ^ 16) = a" "of_nat (n div 2 ^ 8) = b" "of_nat n = c"
    using l by (intro of_nat_u8_eqI; simp add: x_def y_def z_def)+
  show "n < 2 ^ 24" using l unfolding n by simp
qed

lemma encode_char: "conv_bin2ascii (ucast (drop_bit k (l :: u32))) \<noteq> 0x3d"
  "base64_ascii_to_bin (conv_bin2ascii (ucast (drop_bit k l))) = of_nat (unat l div 2 ^ k mod 64)"
  using alphabet_decode [of "unat l div 2 ^ k mod 64"] unfolding enc_digit by simp_all

lemmas encode_char_0 = encode_char [of 0, unfolded drop_bit_0 id_apply power_0 div_by_1]

lemma decode_triple:
  fixes l :: u32
  assumes "unat l = unat a * 2 ^ 16 + unat b * 2 ^ 8 + unat (c :: u8)"
    and "chars = [conv_bin2ascii (ucast (drop_bit 18 l)), conv_bin2ascii (ucast (drop_bit 12 l))]"
  shows "base64_decode_quad (chars @ [conv_bin2ascii (ucast (drop_bit 6 l)), conv_bin2ascii (ucast l)]) = Some [a, b, c]"
    and "c = 0 \<Longrightarrow> base64_decode_quad (chars @ [conv_bin2ascii (ucast (drop_bit 6 l)), 0x3d]) = Some [a, b]"
    and "b = 0 \<Longrightarrow> c = 0 \<Longrightarrow> base64_decode_quad (chars @ [0x3d, 0x3d]) = Some [a]"
proof -
  define n where "n = unat a * 2 ^ 16 + unat b * 2 ^ 8 + unat c"
  note t = triple_bytes [of a b c, folded n_def]
  have l: "unat l = n" using assms(1) by (simp add: n_def)
  note q = decode_quad [OF t(4) encode_char(1) encode_char(1) encode_char(2) [of 18 l, unfolded l]
      encode_char(2) [of 12 l, unfolded l]]
  show "base64_decode_quad (chars @ [conv_bin2ascii (ucast (drop_bit 6 l)), conv_bin2ascii (ucast l)]) = Some [a, b, c]"
    using q [OF encode_char(2) [of 6 l, unfolded l] encode_char_0(2) [of l, unfolded l]] encode_char [of 6 l] encode_char_0 [of l] t
    by (simp add: assms(2))
  show "base64_decode_quad (chars @ [conv_bin2ascii (ucast (drop_bit 6 l)), 0x3d]) = Some [a, b]" if "c = 0"
  proof -
    have "n mod 64 = 0" using that by (simp add: n_def)
    then have "base64_ascii_to_bin 0x3d = of_nat (n mod 64)" by (simp add: bin_equals)
    from q [OF encode_char(2) [of 6 l, unfolded l] this] show ?thesis
      using encode_char [of 6 l] t by (simp add: assms(2) numeral_2_eq_2)
  qed
  show "base64_decode_quad (chars @ [0x3d, 0x3d]) = Some [a]" if "b = 0" "c = 0"
  proof -
    have n: "n = unat a * 65536" using that by (simp add: n_def)
    have "n mod 64 = 0" "n div 2 ^ 6 mod 64 = 0" unfolding n by (simp_all add: div_mult_swap [symmetric])
    then have "base64_ascii_to_bin 0x3d = of_nat (n mod 64)" "base64_ascii_to_bin 0x3d = of_nat (n div 2 ^ 6 mod 64)"
      by (simp_all add: bin_equals)
    from q [OF this(2,1)] show ?thesis using t by (simp add: assms(2))
  qed
qed

text \<open>The text of a byte string, without line breaks.\<close>

definition b64_text :: "bytes \<Rightarrow> bytes" where
  "b64_text xs = fst (encode_loop xs)"

lemma encode_loop_length: "length (b64_text xs) = 4 * ((length xs + 2) div 3)"
proof (induction xs rule: encode_loop.induct)
  case (4 a b c src)
  then show ?case
    using div_add_self2 [of 3 "length src + 2"] by (simp add: b64_text_def Let_def case_prod_unfold)
qed (simp_all add: b64_text_def Let_def)

lemma encode_loop_ret: "snd (encode_loop xs) = of_nat (length (b64_text xs))"
  by (induction xs rule: encode_loop.induct) (simp_all add: b64_text_def Let_def case_prod_unfold)

lemma decode_encode_loop: "decode_loop (b64_text xs) = Some xs"
proof (induction xs rule: encode_loop.induct)
  case 1
  then show ?case by (simp add: b64_text_def)
next
  case (2 a)
  have "unat (push_bit 16 (ucast a) :: u32) = unat a * 2 ^ 16"
    using triple_value [of a 0 0] by simp
  with decode_triple(3) [of "push_bit 16 (ucast a)" a 0 0] show ?case
    by (simp add: b64_text_def Let_def)
next
  case (3 a b)
  have "unat (push_bit 16 (ucast a) OR push_bit 8 (ucast b) :: u32) = unat a * 2 ^ 16 + unat b * 2 ^ 8"
    using triple_value [of a b 0] by simp
  with decode_triple(2) [of "push_bit 16 (ucast a) OR push_bit 8 (ucast b)" a b 0] show ?case
    by (simp add: b64_text_def Let_def)
next
  case (4 a b c src)
  then show ?case
    using decode_triple(1) [OF triple_value [of a b c] refl]
    by (simp add: b64_text_def Let_def case_prod_unfold)
qed

lemma EVP_EncodedLength_eq:
  "EVP_EncodedLength len =
     (let n = 4 * ((unat len + 2) div 3) + 1 in if n < 2 ^ 64 then Some (of_nat n) else None)"
proof (cases "len + 2 < len")
  case True
  then have "2 ^ 64 \<le> unat len + 2" using no_olen_add_nat [of len 2] by (simp flip: not_less)
  then have "6148914691236517205 \<le> (unat len + 2) div 3" by (simp add: less_eq_div_iff_mult_less_eq)
  then have "\<not> 4 * ((unat len + 2) div 3) + 1 < 2 ^ 64" by simp
  with True show ?thesis by (simp add: EVP_EncodedLength_def Let_def)
next
  case False
  define w m where "w = (len + 2) div 3" and "m = (unat len + 2) div 3"
  have "unat (len + 2) = unat len + 2"
    using False unat_plus_simple [of len 2] by (simp add: not_less)
  then have w: "unat w = m" by (simp add: w_def m_def unat_div)
  have sh: "unat (push_bit 2 w) = 4 * m mod 2 ^ 64" by (simp add: unat_shl w mult.commute)
  show ?thesis
  proof (cases "m < 2 ^ 62")
    case True
    then have u: "unat (push_bit 2 w) = 4 * m" using sh by simp
    then have "drop_bit 2 (push_bit 2 w) = w" by (simp add: word_unat_eq_iff unat_shr w)
    moreover have "\<not> push_bit 2 w + 1 < push_bit 2 w"
      using no_olen_add_nat [of "push_bit 2 w" 1] u True by (simp add: not_less)
    moreover have "push_bit 2 w + 1 = of_nat (4 * m + 1)"
      using u True by (simp add: word_unat_eq_iff unat_word_ariths unat_of_nat)
    ultimately show ?thesis
      using False True unfolding EVP_EncodedLength_def Let_def w_def [symmetric] m_def [symmetric]
      by (simp add: add.commute)
  next
    case False
    have "drop_bit 2 (push_bit 2 w) \<noteq> w"
    proof
      assume "drop_bit 2 (push_bit 2 w) = w"
      then have "unat (push_bit 2 w) div 2 ^ 2 = m" using w by (metis unat_shr)
      moreover have "unat (push_bit 2 w) div 2 ^ 2 < 2 ^ 62" by (simp add: div_less_iff_less_mult)
      ultimately show False using False by simp
    qed
    with False \<open>\<not> len + 2 < len\<close> show ?thesis
      unfolding EVP_EncodedLength_def Let_def w_def [symmetric] m_def [symmetric] by simp
  qed
qed


subsection \<open>Streaming\<close>

text \<open>
  The text of a stream: a line for every 48 bytes, and the bytes that are left. \<open>pend\<close> are the bytes a
  context holds.
\<close>

function b64_lines :: "bytes \<Rightarrow> bytes \<times> bytes" where
  "b64_lines xs =
     (if length xs \<ge> 48 then let (t, r) = b64_lines (drop 48 xs) in (b64_text (take 48 xs) @ 0x0a # t, r)
      else ([], xs))"
  by pat_completeness auto
termination
  by (relation "measure length") auto

declare b64_lines.simps [simp del]

definition b64_pem :: "bytes \<Rightarrow> bytes" where
  "b64_pem xs = (let (t, r) = b64_lines xs in t @ (if r = [] then [] else b64_text r @ [0x0a]))"

definition pend :: "evp_encode_ctx \<Rightarrow> bytes" where
  "pend ctx = take (unat (data_used ctx)) (data ctx)"

definition ctx_ok :: "evp_encode_ctx \<Rightarrow> bool" where
  "ctx_ok ctx \<longleftrightarrow> unat (data_used ctx) < 48 \<and> length (data ctx) = 48"

lemma b64_lines_short: "length xs < 48 \<Longrightarrow> b64_lines xs = ([], xs)"
  by (simp add: b64_lines.simps)

lemma b64_lines_long: "length xs \<ge> 48 \<Longrightarrow>
    b64_lines xs = (b64_text (take 48 xs) @ 0x0a # fst (b64_lines (drop 48 xs)), snd (b64_lines (drop 48 xs)))"
  by (subst b64_lines.simps) (simp add: case_prod_unfold Let_def)

lemma b64_lines_rest: "length (snd (b64_lines xs)) < 48"
  by (induction xs rule: b64_lines.induct) (metis b64_lines_long b64_lines_short not_less snd_conv)

lemma b64_lines_append:
  "b64_lines (xs @ ys) = (fst (b64_lines xs) @ fst (b64_lines (snd (b64_lines xs) @ ys)), snd (b64_lines (snd (b64_lines xs) @ ys)))"
proof (induction xs rule: b64_lines.induct)
  case (1 xs)
  show ?case
  proof (cases "length xs \<ge> 48")
    case True
    then have "b64_lines (xs @ ys) = (b64_text (take 48 xs) @ 0x0a # fst (b64_lines (drop 48 xs @ ys)), snd (b64_lines (drop 48 xs @ ys)))"
      by (subst b64_lines_long) simp_all
    with True 1 show ?thesis by (simp add: b64_lines_long [of xs])
  qed (simp add: b64_lines_short)
qed

lemma encode_48:
  assumes "length xs \<ge> 48"
  shows "encode_line xs = b64_text (take 48 xs) @ [0x0a]" "snd (EVP_EncodeBlock xs 48) = 64" "length (b64_text (take 48 xs)) = 64"
proof -
  show l: "length (b64_text (take 48 xs)) = 64" using assms by (simp add: encode_loop_length)
  then have r: "encode_loop (take 48 xs) = (b64_text (take 48 xs), 64)"
    using encode_loop_ret [of "take 48 xs"] by (simp add: b64_text_def prod_eq_iff)
  then show "encode_line xs = b64_text (take 48 xs) @ [0x0a]" "snd (EVP_EncodeBlock xs 48) = 64"
    using l by (simp_all add: encode_line_def EVP_EncodeBlock_def)
qed

lemma encode_lines_eq:
  "unat tot + length (fst (b64_lines inp)) < 2 ^ 64 \<Longrightarrow>
   encode_lines inp out tot =
     (False, out @ fst (b64_lines inp), tot + of_nat (length (fst (b64_lines inp))), snd (b64_lines inp))"
proof (induction inp out tot rule: encode_lines.induct)
  case (1 inp out tot)
  show ?case
  proof (cases "length inp \<ge> 48")
    case True
    let ?t = "fst (b64_lines (drop 48 inp))"
    note e = encode_48 [OF True] b64_lines_long [OF True]
    have b: "unat tot + 65 + length ?t < 2 ^ 64" using "1.prems" e by simp
    then have u: "unat (tot + 65) = unat tot + 65" by (simp add: unat_word_ariths)
    then have ov: "\<not> tot + 64 + 1 < tot" by (simp add: word_less_nat_alt add.assoc)
    have "encode_lines (drop 48 inp) (out @ encode_line inp) (tot + 65) =
      (False, (out @ encode_line inp) @ ?t, tot + 65 + of_nat (length ?t), snd (b64_lines (drop 48 inp)))"
      using "1.IH" [OF True refl refl] ov u b by (simp add: e)
    then show ?thesis
      using True ov by (subst encode_lines.simps) (simp add: e Let_def add.assoc)
  next
    case False
    then show ?thesis by (subst encode_lines.simps) (simp add: b64_lines_short)
  qed
qed

definition update_result :: "bytes \<Rightarrow> bytes \<times> size_t" where
  "update_result t = (if t = [] then [] else t @ [0], if of_nat (length t) > INT_MAX then 0 else of_nat (length t))"

lemma update_result_Nil [simp]: "update_result [] = ([], 0)"
  by (simp add: update_result_def)

lemma b64_lines_length: "length (fst (b64_lines xs)) \<le> 2 * length xs"
proof (induction xs rule: b64_lines.induct)
  case (1 xs)
  show ?case
  proof (cases "length xs \<ge> 48")
    case True
    with 1 have "length (fst (b64_lines (drop 48 xs))) \<le> 2 * (length xs - 48)" by simp
    then show ?thesis using True by (simp add: b64_lines_long [OF True] encode_48(3) [OF True])
  qed (simp add: b64_lines_short)
qed

lemma encode_lines_from:
  assumes "length inp < 2 ^ 62" and "length out \<le> 65" and "tot = of_nat (length out)"
  shows "encode_lines inp out tot =
    (False, out @ fst (b64_lines inp), of_nat (length (out @ fst (b64_lines inp))), snd (b64_lines inp))"
proof -
  have "unat tot = length out" using assms(2,3) by (simp add: unat_of_nat)
  then have "unat tot + length (fst (b64_lines inp)) < 2 ^ 64"
    using assms b64_lines_length [of inp] by simp
  from encode_lines_eq [OF this, of out] show ?thesis by (simp add: assms(3))
qed

lemma EVP_EncodeUpdate_eq:
  assumes "ctx_ok ctx" and "length inp < 2 ^ 62"
  shows "\<exists>ctx'. EVP_EncodeUpdate ctx inp = (update_result (fst (b64_lines (pend ctx @ inp))), ctx')
    \<and> ctx_ok ctx' \<and> pend ctx' = snd (b64_lines (pend ctx @ inp))"
proof -
  define used where "used = unat (data_used ctx)"
  have u: "used < 48" "length (data ctx) = 48" using assms(1) by (simp_all add: ctx_ok_def used_def)
  have p: "pend ctx = take used (data ctx)" "length (pend ctx) = used" using u by (simp_all add: pend_def used_def)
  have fin: "ctx_ok (c\<lparr>data := r @ drop (length r) d, data_used := of_nat (length r)\<rparr>)
      \<and> pend (c\<lparr>data := r @ drop (length r) d, data_used := of_nat (length r)\<rparr>) = r"
    if "length d = 48" "length r < 48" for c d and r :: bytes
    using that by (simp add: ctx_ok_def pend_def unat_of_nat)
  consider (empty) "inp = []" | (small) "inp \<noteq> []" "48 - used > length inp"
    | (fresh) "inp \<noteq> []" "\<not> 48 - used > length inp" "data_used ctx = 0"
    | (fill) "inp \<noteq> []" "\<not> 48 - used > length inp" "data_used ctx \<noteq> 0" by blast
  then show ?thesis
  proof cases
    case empty
    then show ?thesis using assms(1) p u by (simp add: EVP_EncodeUpdate_def b64_lines_short)
  next
    case small
    then have "length (pend ctx @ inp) < 48" using p by simp
    moreover have "unat (data_used ctx + of_nat (length inp)) = used + length inp"
      using small u by (simp add: unat_word_ariths unat_of_nat used_def [symmetric])
    ultimately show ?thesis
      using small u p by (simp add: EVP_EncodeUpdate_def Let_def used_def [symmetric] b64_lines_short ctx_ok_def pend_def)
  next
    case fresh
    then have "used = 0" "pend ctx = []" using p by (simp_all add: used_def)
    then show ?thesis
      using fresh encode_lines_from [OF assms(2), of "[]" 0] u fin [OF _ b64_lines_rest [of inp]]
      by (simp add: EVP_EncodeUpdate_def used_def [symmetric] Let_def update_result_def)
  next
    case fill
    define todo d where "todo = 48 - used" and "d = take used (data ctx) @ take todo inp"
    have l: "todo \<le> length inp" "length d = 48" "pend ctx @ inp = d @ drop todo inp"
      using fill u p by (simp_all add: todo_def d_def)
    have t: "take 48 d = d" using l(2) by simp
    note e = encode_48 [of d, unfolded l(2) t, OF order_refl]
    have b: "b64_lines (pend ctx @ inp) = (b64_text d @ 0x0a # fst (b64_lines (drop todo inp)), snd (b64_lines (drop todo inp)))"
      using l by (simp add: b64_lines_long)
    have "length (drop todo inp) < 2 ^ 62" using assms(2) by simp
    then have el: "encode_lines (drop todo inp) (encode_line d) (64 + 1) =
      (False, fst (b64_lines (pend ctx @ inp)), of_nat (length (fst (b64_lines (pend ctx @ inp)))), snd (b64_lines (drop todo inp)))"
      using encode_lines_from [of "drop todo inp" "encode_line d" "64 + 1"] e b by simp
    show ?thesis
      using fill fin [OF l(2) b64_lines_rest [of "drop todo inp"], of "ctx\<lparr>data := d, data_used := 0\<rparr>"] e(2) b
      unfolding EVP_EncodeUpdate_def Let_def used_def [symmetric] todo_def [symmetric] d_def [symmetric]
      by (simp add: el [simplified] update_result_def)
  qed
qed

text \<open>
  The use of the streaming encoder: \<open>EVP_EncodeUpdate\<close> for each piece of the input and
  \<open>EVP_EncodeFinal\<close> at the end, the output pointer moved by \<open>*out_len\<close> each time.
\<close>

fun encode_stream :: "evp_encode_ctx \<Rightarrow> bytes list \<Rightarrow> bytes" where
  "encode_stream ctx [] = (let ((out, n), _) = EVP_EncodeFinal ctx in take (unat n) out)"
| "encode_stream ctx (p # ps) = (let ((out, n), ctx) = EVP_EncodeUpdate ctx p in take (unat n) out @ encode_stream ctx ps)"

lemma EVP_EncodeFinal_text:
  assumes "ctx_ok ctx"
  shows "(let ((out, n), _) = EVP_EncodeFinal ctx in take (unat n) out) = (if pend ctx = [] then [] else b64_text (pend ctx) @ [0x0a])"
proof (cases "data_used ctx = 0")
  case True
  then show ?thesis by (simp add: EVP_EncodeFinal_def pend_def)
next
  case False
  have l: "length (pend ctx) = unat (data_used ctx)" "length (pend ctx) < 48" using assms by (simp_all add: pend_def ctx_ok_def)
  with False have ne: "pend ctx \<noteq> []" by (auto simp: unat_eq_0)
  have "(length (pend ctx) + 2) div 3 \<le> 49 div 3" using l(2) by (intro div_le_mono) simp
  then have "length (b64_text (pend ctx)) \<le> 64" by (simp add: encode_loop_length)
  then have u: "unat (of_nat (length (b64_text (pend ctx))) :: size_t) = length (b64_text (pend ctx))"
    "unat (of_nat (length (b64_text (pend ctx))) + 1 :: size_t) = length (b64_text (pend ctx)) + 1"
    by (simp_all add: unat_of_nat unat_word_ariths)
  have "encode_loop (pend ctx) = (b64_text (pend ctx), of_nat (length (b64_text (pend ctx))))"
    using encode_loop_ret [of "pend ctx"] by (simp add: b64_text_def prod_eq_iff)
  then show ?thesis
    using False ne u by (simp add: EVP_EncodeFinal_def EVP_EncodeBlock_def pend_def [symmetric] Let_def)
qed

lemma take_update_result:
  assumes "length t < 2 ^ 31"
  shows "take (unat (snd (update_result t))) (fst (update_result t)) = t"
proof -
  have "unat (of_nat (length t) :: size_t) = length t" using assms by (simp add: unat_of_nat)
  then show ?thesis using assms by (simp add: update_result_def INT_MAX_def word_less_nat_alt)
qed

lemma encode_stream_eq:
  "ctx_ok ctx \<Longrightarrow> length (concat ps) < 2 ^ 29 \<Longrightarrow> encode_stream ctx ps = b64_pem (pend ctx @ concat ps)"
proof (induction ps arbitrary: ctx)
  case Nil
  have "length (pend ctx) < 48" using Nil by (simp add: pend_def ctx_ok_def)
  then show ?case using EVP_EncodeFinal_text [OF Nil(1)] by (simp add: b64_pem_def b64_lines_short)
next
  case (Cons p ps)
  obtain ctx' where c: "EVP_EncodeUpdate ctx p = (update_result (fst (b64_lines (pend ctx @ p))), ctx')"
      "ctx_ok ctx'" "pend ctx' = snd (b64_lines (pend ctx @ p))"
    using EVP_EncodeUpdate_eq [OF Cons.prems(1), of p] Cons.prems(2) by auto
  have "length (pend ctx) < 48" using Cons.prems by (simp add: pend_def ctx_ok_def)
  then have "length (fst (b64_lines (pend ctx @ p))) < 2 ^ 31"
    using b64_lines_length [of "pend ctx @ p"] Cons.prems(2) by simp
  then have "encode_stream ctx (p # ps) = fst (b64_lines (pend ctx @ p)) @ encode_stream ctx' ps"
    using take_update_result [of "fst (b64_lines (pend ctx @ p))"] c(1) by (simp add: Let_def case_prod_unfold)
  also have "encode_stream ctx' ps = b64_pem (pend ctx' @ concat ps)" using Cons c by simp
  finally show ?case
    using b64_lines_append [of "pend ctx @ p" "concat ps"] by (simp add: b64_pem_def c(3) case_prod_unfold Let_def)
qed

subsection \<open>Streaming decoder\<close>

lemma base64_decode_quad_cong: "base64_decode_quad (i0 # i1 # i2 # i3 # xs) = base64_decode_quad [i0, i1, i2, i3]"
proof -
  have "(i0 # i1 # i2 # i3 # xs) ! k = [i0, i1, i2, i3] ! k" if "k < 4" for k
    using that by (auto simp: nth_Cons split: nat.splits)
  then show ?thesis unfolding base64_decode_quad_def by simp
qed

definition dec_ready :: "evp_encode_ctx \<Rightarrow> bool" where
  "dec_ready ctx \<longleftrightarrow> data_used ctx = 0 \<and> length (data ctx) = 48 \<and> \<not> error_encountered ctx"

lemma decode_update_quad:
  assumes "dec_ready ctx" and "\<not> eof_seen ctx" and "\<not> b64_space i0" "\<not> b64_space i1" "\<not> b64_space i2" "\<not> b64_space i3"
    and "base64_decode_quad [i0, i1, i2, i3] = Some bs"
  shows "\<exists>ctx'. dec_ready ctx' \<and> eof_seen ctx' = (length bs < 3) \<and>
    decode_update_loop out ctx (i0 # i1 # i2 # i3 # inp) = decode_update_loop (out @ bs) ctx' inp"
proof -
  obtain d0 d1 d2 d3 ds where d: "data ctx = d0 # d1 # d2 # d3 # ds"
    using assms(1) by (auto simp: dec_ready_def length_Suc_conv numeral_eq_Suc)
  have q: "base64_decode_quad (i0 # i1 # i2 # i3 # ds) = Some bs" using assms(7) base64_decode_quad_cong by metis
  have e: "data_used ctx = 0" "length ds = 44" using assms(1) d by (simp_all add: dec_ready_def)
  have upd: "(a # b # c # r)[2 := x] = a # b # x # r" "(a # b # c # d # r)[3 := x] = a # b # c # x # r"
    for a b c d x :: u8 and r by (simp_all add: numeral_2_eq_2 numeral_3_eq_3)
  let ?c = "ctx\<lparr>data := i0 # i1 # i2 # i3 # ds, data_used := 0, eof_seen := length bs < 3\<rparr>"
  have "decode_update_loop out ctx (i0 # i1 # i2 # i3 # inp) = decode_update_loop (out @ bs) ?c inp"
    using assms(2-6) q e by (simp add: d upd Let_def)
  moreover have "dec_ready ?c" using assms(1) e by (simp add: dec_ready_def)
  ultimately show ?thesis by (intro exI [of _ ?c]) simp
qed

lemma encode_char_not_space:
  "\<not> b64_space (conv_bin2ascii x)" "\<not> b64_space 0x3d"
  using alphabet_decode(3) [of "unat x mod 64"] by (simp_all add: conv_bin2ascii_eq b64_space_def)

text \<open>A text of whole groups (every group three bytes) leaves the decoder ready for more.\<close>

lemma decode_update_text:
  "dec_ready ctx \<Longrightarrow> \<not> eof_seen ctx \<Longrightarrow>
   \<exists>ctx'. dec_ready ctx' \<and> (3 dvd length xs \<longrightarrow> \<not> eof_seen ctx') \<and>
     decode_update_loop out ctx (b64_text xs @ inp) = decode_update_loop (out @ xs) ctx' inp"
proof (induction xs arbitrary: ctx out rule: encode_loop.induct)
  case 1
  then show ?case by (auto simp: b64_text_def)
next
  case (2 a)
  let ?l = "push_bit 16 (ucast a) :: u32"
  have "unat ?l = unat a * 2 ^ 16" using triple_value [of a 0 0] by simp
  from decode_triple(3) [of ?l a 0 0, OF _ refl] this
  have q: "base64_decode_quad [conv_bin2ascii (ucast (drop_bit 18 ?l)), conv_bin2ascii (ucast (drop_bit 12 ?l)), 0x3d, 0x3d] = Some [a]"
    by simp
  have t: "b64_text [a] @ inp = conv_bin2ascii (ucast (drop_bit 18 ?l)) # conv_bin2ascii (ucast (drop_bit 12 ?l)) # 0x3d # 0x3d # inp"
    unfolding b64_text_def encode_loop.simps Let_def fst_conv append_Cons append_Nil ..
  have "\<not> 3 dvd length [a]" by simp
  with decode_update_quad [OF 2 encode_char_not_space(1) encode_char_not_space(1) encode_char_not_space(2,2) q, of out inp]
  show ?case unfolding t by blast
next
  case (3 a b)
  let ?l = "push_bit 16 (ucast a) OR push_bit 8 (ucast b) :: u32"
  have "unat ?l = unat a * 2 ^ 16 + unat b * 2 ^ 8" using triple_value [of a b 0] by simp
  from decode_triple(2) [of ?l a b 0, OF _ refl] this
  have q: "base64_decode_quad [conv_bin2ascii (ucast (drop_bit 18 ?l)), conv_bin2ascii (ucast (drop_bit 12 ?l)),
      conv_bin2ascii (ucast (drop_bit 6 ?l)), 0x3d] = Some [a, b]" by simp
  have t: "b64_text [a, b] @ inp = conv_bin2ascii (ucast (drop_bit 18 ?l)) # conv_bin2ascii (ucast (drop_bit 12 ?l))
      # conv_bin2ascii (ucast (drop_bit 6 ?l)) # 0x3d # inp"
    unfolding b64_text_def encode_loop.simps Let_def fst_conv append_Cons append_Nil ..
  have "\<not> 3 dvd length [a, b]" by (auto dest: dvd_imp_le)
  with decode_update_quad [OF 3 encode_char_not_space(1) encode_char_not_space(1) encode_char_not_space(1) encode_char_not_space(2) q, of out inp]
  show ?case unfolding t by blast
next
  case (4 a b c src)
  let ?l = "push_bit 16 (ucast a) OR push_bit 8 (ucast b) OR ucast c :: u32"
  have q: "base64_decode_quad [conv_bin2ascii (ucast (drop_bit 18 ?l)), conv_bin2ascii (ucast (drop_bit 12 ?l)),
      conv_bin2ascii (ucast (drop_bit 6 ?l)), conv_bin2ascii (ucast ?l)] = Some [a, b, c]"
    using decode_triple(1) [OF triple_value [of a b c] refl] by simp
  have t: "b64_text (a # b # c # src) @ inp = conv_bin2ascii (ucast (drop_bit 18 ?l)) # conv_bin2ascii (ucast (drop_bit 12 ?l))
      # conv_bin2ascii (ucast (drop_bit 6 ?l)) # conv_bin2ascii (ucast ?l) # (b64_text src @ inp)"
    unfolding b64_text_def encode_loop.simps Let_def case_prod_unfold fst_conv append_Cons append_Nil ..
  have "\<not> length [a, b, c] < 3" by simp
  then obtain ctx1 where c1: "dec_ready ctx1" "\<not> eof_seen ctx1"
    "decode_update_loop out ctx (b64_text (a # b # c # src) @ inp) = decode_update_loop (out @ [a, b, c]) ctx1 (b64_text src @ inp)"
    using decode_update_quad [OF "4.prems" encode_char_not_space(1) encode_char_not_space(1) encode_char_not_space(1)
        encode_char_not_space(1) q, of out "b64_text src @ inp"]
    unfolding t by blast
  obtain ctx' where "dec_ready ctx'" "3 dvd length src \<longrightarrow> \<not> eof_seen ctx'"
    "decode_update_loop (out @ [a, b, c]) ctx1 (b64_text src @ inp) = decode_update_loop ((out @ [a, b, c]) @ src) ctx' inp"
    using "4.IH" [OF refl c1(1,2), of "out @ [a, b, c]"] by blast
  moreover have "length (a # b # c # src) = 3 + length src" by simp
  then have "3 dvd length (a # b # c # src) \<longleftrightarrow> 3 dvd length src" by (simp only: dvd_add_triv_left_iff)
  ultimately show ?case using c1(3) by (intro exI [of _ ctx']) simp
qed

lemma decode_update_pem:
  "dec_ready ctx \<Longrightarrow> \<not> eof_seen ctx \<Longrightarrow>
   \<exists>ctx'. dec_ready ctx' \<and> decode_update_loop out ctx (b64_pem xs) = ((True, out @ xs), ctx')"
proof (induction xs arbitrary: ctx out rule: b64_lines.induct)
  case (1 xs)
  have nl: "decode_update_loop out ctx (0x0a # inp) = decode_update_loop out ctx inp" for out ctx inp
    by (simp add: b64_space_def)
  show ?case
  proof (cases "length xs \<ge> 48")
    case True
    have p: "b64_pem xs = b64_text (take 48 xs) @ 0x0a # b64_pem (drop 48 xs)"
      by (simp add: b64_pem_def b64_lines_long [OF True] case_prod_unfold Let_def)
    have "3 dvd length (take 48 xs)" using True by simp
    then obtain ctx1 where c1: "dec_ready ctx1" "\<not> eof_seen ctx1"
      "decode_update_loop out ctx (b64_pem xs) = decode_update_loop (out @ take 48 xs) ctx1 (b64_pem (drop 48 xs))"
      using decode_update_text [OF "1.prems", of "take 48 xs" out "0x0a # b64_pem (drop 48 xs)"] unfolding p nl by blast
    from "1.IH" [OF True c1(1,2), of "out @ take 48 xs"] c1(3) show ?thesis by simp
  next
    case False
    show ?thesis
    proof (cases "xs = []")
      case True
      then show ?thesis using "1.prems" by (auto simp: b64_pem_def b64_lines_short)
    next
      case ne: False
      obtain ctx1 where "dec_ready ctx1"
        "decode_update_loop out ctx (b64_text xs @ [0x0a]) = decode_update_loop (out @ xs) ctx1 [0x0a]"
        using decode_update_text [OF "1.prems", of xs out "[0x0a]"] by blast
      then show ?thesis using False ne by (auto simp: b64_pem_def b64_lines_short b64_space_def)
    qed
  qed
qed

subsection \<open>Properties\<close>

text \<open>
  \<open>EVP_DecodeBase64\<close> is the inverse of \<open>EVP_EncodeBlock\<close>: whatever bytes are encoded, decoding
  the text gives them back, provided the output buffer has the size \<open>EVP_DecodedLength\<close> asks for and
  \<open>EVP_EncodedLength\<close> did not report an overflow for the input.
\<close>

lemma base64_block_roundtrip:
  assumes "EVP_EncodedLength (of_nat (length src)) = Some sz" and "length src < 2 ^ 64"
    and "EVP_EncodeBlock src (of_nat (length src)) = (dst, n)"
    and "EVP_DecodedLength n = Some m" and "m \<le> max_out"
  shows "EVP_DecodeBase64 max_out dst n = Some src"
proof -
  have u: "unat (of_nat (length src) :: size_t) = length src" using assms(2) by (simp add: unat_of_nat)
  have "4 * ((length src + 2) div 3) + 1 < 2 ^ 64"
    using assms(1) unfolding EVP_EncodedLength_eq u by (auto simp: Let_def split: if_splits)
  then have l: "length (b64_text src) < 2 ^ 64" by (simp add: encode_loop_length)
  have d: "dst = b64_text src @ [0]" "n = of_nat (length (b64_text src))"
    using assms(3) encode_loop_ret [of src] by (auto simp: EVP_EncodeBlock_def u b64_text_def case_prod_unfold Let_def)
  have n: "unat n = length (b64_text src)" using l by (simp add: d(2) unat_of_nat)
  have "n mod 4 = 0" using assms(4) by (simp add: EVP_DecodedLength_def split: if_splits)
  then show ?thesis
    using assms(4,5) n decode_encode_loop [of src] by (simp add: EVP_DecodeBase64_def d(1) not_less)
qed

text \<open>
  The streaming encoder does not depend on how the input is cut into pieces: for every sequence
  of \<open>EVP_EncodeUpdate\<close> calls followed by \<open>EVP_EncodeFinal\<close> the output is the one text of the whole
  input, in lines of 48 bytes each ended by a newline.
\<close>

lemma base64_stream_text:
  assumes "length (concat ps) < 2 ^ 29"
  shows "encode_stream EVP_EncodeInit ps = b64_pem (concat ps)"
  using encode_stream_eq [of EVP_EncodeInit ps] assms by (simp add: ctx_ok_def pend_def EVP_EncodeInit_def)

text \<open>
  C8. The streaming decoder inverts the streaming encoder: fed with its output, line breaks
  included, \<open>EVP_DecodeUpdate\<close> writes the original bytes, reports their number, and
  \<open>EVP_DecodeFinal\<close> accepts.
\<close>

theorem base64_stream_roundtrip:
  assumes "length (concat ps) < 2 ^ 29"
  shows "\<exists>r ctx. EVP_DecodeUpdate EVP_EncodeInit (encode_stream EVP_EncodeInit ps) = ((r, concat ps, length (concat ps)), ctx)
    \<and> r \<in> {0, 1} \<and> EVP_DecodeFinal ctx = 1"
proof -
  have r: "dec_ready EVP_EncodeInit" "\<not> eof_seen EVP_EncodeInit" by (simp_all add: dec_ready_def EVP_EncodeInit_def)
  obtain ctx where c: "dec_ready ctx"
    "decode_update_loop [] EVP_EncodeInit (b64_pem (concat ps)) = ((True, concat ps), ctx)"
    using decode_update_pem [OF r, of "[]" "concat ps"] by auto
  have s: "encode_stream EVP_EncodeInit ps = b64_pem (concat ps)"
    using encode_stream_eq [of EVP_EncodeInit ps] assms by (simp add: ctx_ok_def pend_def EVP_EncodeInit_def)
  have "\<not> length (concat ps) > unat INT_MAX" using assms by (simp add: INT_MAX_def)
  then show ?thesis
    using c unfolding s by (auto simp: EVP_DecodeUpdate_def EVP_DecodeFinal_def dec_ready_def EVP_EncodeInit_def)
qed

theorem base64_stream_roundtrip_witness:
  "\<exists>r ctx. EVP_DecodeUpdate EVP_EncodeInit (encode_stream EVP_EncodeInit [[1, 2], [3]]) = ((r, [1, 2, 3], 3), ctx)
     \<and> r \<in> {0, 1} \<and> EVP_DecodeFinal ctx = 1"
  using base64_stream_roundtrip [of "[[1, 2], [3]]"] by (simp del: encode_stream.simps add: numeral_3_eq_3)

end
