(* ===== verification/Lhash.thy ===== *)
theory Lhash
  imports Mem "HOL-Library.Multiset"
begin

section \<open>The hash table (crypto/lhash/lhash.c)\<close>

text \<open>
  A table of elements of type \<open>'d\<close> (the \<open>void *\<close> of the source) with the hash and comparison
  functions the caller gave to \<open>OPENSSL_lh_new\<close>. A chain of \<open>LHASH_ITEM\<close>s is the list of its items,
  the array of chains a list of lists. The pointer to a pointer that \<open>get_next_ptr_and_hash\<close> returns is
  a position in a chain: position \<open>k\<close> is the bucket slot for \<open>k = 0\<close> and the \<open>next\<close> field of item
  \<open>k - 1\<close> otherwise, and holds NULL when \<open>k\<close> is the length of the chain.

  \<open>sizeof(_LHASH)\<close> is 48, \<open>sizeof(LHASH_ITEM)\<close> is 24 and a pointer has 8 bytes on the LP64 targets.
\<close>

definition kMinNumBuckets :: size_t where
  "kMinNumBuckets = 16"

definition kMaxAverageChainLength :: size_t where
  "kMaxAverageChainLength = 2"

definition kMinAverageChainLength :: size_t where
  "kMinAverageChainLength = 1"

record 'd lhash_item =
  item_data :: 'd
  item_hash :: u32

record 'd lhash =
  num_items :: size_t
  buckets :: "'d lhash_item list list"
  num_buckets :: size_t
  callback_depth :: u32
  comp :: "'d \<Rightarrow> 'd \<Rightarrow> int"
  hash :: "'d \<Rightarrow> u32"

definition OPENSSL_lh_new :: "('d \<Rightarrow> u32) \<Rightarrow> ('d \<Rightarrow> 'd \<Rightarrow> int) \<Rightarrow> allocator \<Rightarrow> 'd lhash option \<times> allocator" where
  "OPENSSL_lh_new h c a =
     and_then (OPENSSL_malloc 48 a) (\<lambda>_ a.
     and_then (OPENSSL_malloc (8 * kMinNumBuckets) a) (\<lambda>_ a.
       (Some \<lparr>num_items = 0, buckets = replicate (unat kMinNumBuckets) [], num_buckets = kMinNumBuckets,
              callback_depth = 0, comp = c, hash = h\<rparr>, a)))"

definition OPENSSL_lh_num_items :: "'d lhash \<Rightarrow> size_t" where
  "OPENSSL_lh_num_items lh = num_items lh"

fun chain_pos :: "('d \<Rightarrow> bool) \<Rightarrow> 'd lhash_item list \<Rightarrow> nat" where
  "chain_pos match [] = 0"
| "chain_pos match (cur # rest) = (if match (item_data cur) then 0 else Suc (chain_pos match rest))"

definition get_next_ptr_and_hash :: "'d lhash \<Rightarrow> 'd \<Rightarrow> (nat \<times> nat) \<times> u32" where
  "get_next_ptr_and_hash lh d =
     (let h = hash lh d; i = unat (ucast h mod num_buckets lh)
      in ((i, chain_pos (\<lambda>x. comp lh x d = 0) (buckets lh ! i)), h))"

definition get_next_ptr_by_key :: "'d lhash \<Rightarrow> 'k \<Rightarrow> u32 \<Rightarrow> ('k \<Rightarrow> 'd \<Rightarrow> int) \<Rightarrow> nat \<times> nat" where
  "get_next_ptr_by_key lh key key_hash cmp_key =
     (let i = unat (ucast key_hash mod num_buckets lh)
      in (i, chain_pos (\<lambda>x. cmp_key key x = 0) (buckets lh ! i)))"

text \<open>\<open>*next_ptr\<close>: the item the position points to, or NULL.\<close>

definition deref :: "'d lhash \<Rightarrow> nat \<times> nat \<Rightarrow> 'd lhash_item option" where
  "deref lh p = (let chain = buckets lh ! fst p in if snd p < length chain then Some (chain ! snd p) else None)"

definition OPENSSL_lh_retrieve :: "'d lhash \<Rightarrow> 'd \<Rightarrow> 'd option" where
  "OPENSSL_lh_retrieve lh d = map_option item_data (deref lh (fst (get_next_ptr_and_hash lh d)))"

definition OPENSSL_lh_retrieve_key :: "'d lhash \<Rightarrow> 'k \<Rightarrow> u32 \<Rightarrow> ('k \<Rightarrow> 'd \<Rightarrow> int) \<Rightarrow> 'd option" where
  "OPENSSL_lh_retrieve_key lh key key_hash cmp_key =
     map_option item_data (deref lh (get_next_ptr_by_key lh key key_hash cmp_key))"

text \<open>The two loops of \<open>lh_rebucket\<close>: every item of every chain, in order, to the front of its new chain.\<close>

definition rebucket_item :: "size_t \<Rightarrow> 'd lhash_item \<Rightarrow> 'd lhash_item list list \<Rightarrow> 'd lhash_item list list" where
  "rebucket_item n cur bs = (let i = unat (ucast (item_hash cur) mod n) in bs[i := cur # bs ! i])"

definition lh_rebucket :: "'d lhash \<Rightarrow> size_t \<Rightarrow> allocator \<Rightarrow> 'd lhash \<times> allocator" where
  "lh_rebucket lh n a =
     (let alloc_size = 8 * n
      in if alloc_size div 8 \<noteq> n then (lh, a)
         else case OPENSSL_malloc alloc_size a of
                (None, a) \<Rightarrow> (lh, a)
              | (Some _, a) \<Rightarrow>
                  (lh\<lparr>num_buckets := n,
                      buckets := fold (rebucket_item n) (concat (buckets lh)) (replicate (unat n) [])\<rparr>, a))"

definition lh_maybe_resize :: "'d lhash \<Rightarrow> allocator \<Rightarrow> 'd lhash \<times> allocator" where
  "lh_maybe_resize lh a =
     (if callback_depth lh > 0 then (lh, a)
      else let avg_chain_length = num_items lh div num_buckets lh
           in if avg_chain_length > kMaxAverageChainLength
              then let n = num_buckets lh * 2
                   in if n > num_buckets lh then lh_rebucket lh n a else (lh, a)
              else if avg_chain_length < kMinAverageChainLength \<and> num_buckets lh > kMinNumBuckets
              then let n = num_buckets lh div 2;
                       n = (if n < kMinNumBuckets then kMinNumBuckets else n)
                   in lh_rebucket lh n a
              else (lh, a))"

definition set_chain :: "nat \<Rightarrow> 'd lhash_item list \<Rightarrow> 'd lhash \<Rightarrow> 'd lhash" where
  "set_chain i chain lh = lh\<lparr>buckets := (buckets lh)[i := chain]\<rparr>"

text \<open>The result of \<open>OPENSSL_lh_insert\<close>: \<open>None\<close> for 0, \<open>Some old_data\<close> for 1.\<close>

definition OPENSSL_lh_insert :: "'d lhash \<Rightarrow> 'd \<Rightarrow> allocator \<Rightarrow> 'd option option \<times> 'd lhash \<times> allocator" where
  "OPENSSL_lh_insert lh d a =
     (let ((i, k), h) = get_next_ptr_and_hash lh d; chain = buckets lh ! i
      in case deref lh (i, k) of
           Some item \<Rightarrow> (Some (Some (item_data item)), set_chain i (chain[k := item\<lparr>item_data := d\<rparr>]) lh, a)
         | None \<Rightarrow>
             (case OPENSSL_malloc 24 a of
                (None, a) \<Rightarrow> (None, lh, a)
              | (Some _, a) \<Rightarrow>
                  let lh = set_chain i (chain @ [\<lparr>item_data = d, item_hash = h\<rparr>]) lh;
                      lh = lh\<lparr>num_items := num_items lh + 1\<rparr>
                  in (Some None, lh_maybe_resize lh a)))"

definition OPENSSL_lh_delete :: "'d lhash \<Rightarrow> 'd \<Rightarrow> allocator \<Rightarrow> 'd option \<times> 'd lhash \<times> allocator" where
  "OPENSSL_lh_delete lh d a =
     (let ((i, k), h) = get_next_ptr_and_hash lh d; chain = buckets lh ! i
      in case deref lh (i, k) of
           None \<Rightarrow> (None, lh, a)
         | Some item \<Rightarrow>
             let lh = set_chain i (take k chain @ drop (Suc k) chain) lh;
                 lh = lh\<lparr>num_items := num_items lh - 1\<rparr>
             in (Some (item_data item), lh_maybe_resize lh a))"

text \<open>
  \<open>OPENSSL_lh_doall_arg\<close> for callbacks that act on their own argument \<open>arg\<close> and not on the table.
  The depth counter saturates at \<open>UINT_MAX\<close>.
\<close>

definition OPENSSL_lh_doall_arg :: "('d \<Rightarrow> 'a \<Rightarrow> 'a) \<Rightarrow> 'd lhash \<Rightarrow> 'a \<Rightarrow> allocator \<Rightarrow> 'a \<times> 'd lhash \<times> allocator" where
  "OPENSSL_lh_doall_arg func lh arg a =
     (let lh = (if callback_depth lh < 0xffffffff then lh\<lparr>callback_depth := callback_depth lh + 1\<rparr> else lh);
          arg = fold func (map item_data (concat (buckets lh))) arg;
          lh = (if callback_depth lh < 0xffffffff then lh\<lparr>callback_depth := callback_depth lh - 1\<rparr> else lh)
      in (arg, lh_maybe_resize lh a))"

subsection \<open>Invariant\<close>

text \<open>
  \<open>elems\<close> are the elements of a table. The contract of the caller's functions on the elements it uses
  (\<open>ok\<close>): the comparison is an equivalence and equal elements have equal hashes.
\<close>

definition elems :: "'d lhash \<Rightarrow> 'd list" where
  "elems lh = map item_data (concat (buckets lh))"

definition bucket_of :: "size_t \<Rightarrow> u32 \<Rightarrow> nat" where
  "bucket_of n h = unat (ucast h mod n)"

definition placed :: "size_t \<Rightarrow> ('d \<Rightarrow> u32) \<Rightarrow> 'd lhash_item list list \<Rightarrow> bool" where
  "placed n h bs \<longleftrightarrow> length bs = unat n \<and>
     (\<forall>i < length bs. \<forall>x \<in> set (bs ! i). item_hash x = h (item_data x) \<and> bucket_of n (h (item_data x)) = i)"

definition cls :: "('d \<Rightarrow> 'd \<Rightarrow> int) \<Rightarrow> ('d \<Rightarrow> bool) \<Rightarrow> 'd \<Rightarrow> 'd set" where
  "cls c ok x = {y. ok y \<and> c x y = 0}"

definition lh_inv :: "('d \<Rightarrow> bool) \<Rightarrow> 'd lhash \<Rightarrow> bool" where
  "lh_inv ok lh \<longleftrightarrow> num_buckets lh \<ge> 16 \<and> placed (num_buckets lh) (hash lh) (buckets lh)
     \<and> num_items lh = of_nat (length (elems lh))
     \<and> (\<forall>x \<in> set (elems lh). ok x) \<and> distinct (map (cls (comp lh) ok) (elems lh))"

locale hash_eq =
  fixes ok :: "'d \<Rightarrow> bool" and h :: "'d \<Rightarrow> u32" and c :: "'d \<Rightarrow> 'd \<Rightarrow> int"
  assumes cmp_refl: "ok x \<Longrightarrow> c x x = 0"
    and cmp_sym: "ok x \<Longrightarrow> ok y \<Longrightarrow> c x y = 0 \<Longrightarrow> c y x = 0"
    and cmp_trans: "ok x \<Longrightarrow> ok y \<Longrightarrow> ok z \<Longrightarrow> c x y = 0 \<Longrightarrow> c y z = 0 \<Longrightarrow> c x z = 0"
    and cmp_hash: "ok x \<Longrightarrow> ok y \<Longrightarrow> c x y = 0 \<Longrightarrow> h x = h y"

lemma bucket_of_less: "n \<noteq> 0 \<Longrightarrow> bucket_of n h < unat n"
  by (simp add: bucket_of_def unat_mod unat_gt_0)

lemma chain_pos_le: "chain_pos P ch \<le> length ch"
  by (induction ch) auto

lemma chain_pos_match: "chain_pos P ch < length ch \<Longrightarrow> P (item_data (ch ! chain_pos P ch))"
  by (induction ch) (auto split: if_splits)

lemma chain_pos_none: "chain_pos P ch < length ch \<longleftrightarrow> (\<exists>x \<in> set ch. P (item_data x))"
  by (induction ch) auto

lemma mset_concat_update:
  "i < length bs \<Longrightarrow> mset (concat (bs[i := c])) + mset (bs ! i) = mset (concat bs) + mset c"
proof (induction bs arbitrary: i)
  case (Cons b bs)
  then show ?case by (cases i) (auto simp: ac_simps)
qed simp

lemma placedD:
  "placed n h bs \<Longrightarrow> x \<in> set (concat bs) \<Longrightarrow> item_hash x = h (item_data x) \<and> x \<in> set (bs ! bucket_of n (h (item_data x)))"
  unfolding placed_def set_concat by (metis UN_E in_set_conv_nth)

lemma placed_update:
  assumes "placed n h bs" and "\<And>x. x \<in> set ch \<Longrightarrow> item_hash x = h (item_data x) \<and> bucket_of n (h (item_data x)) = i"
  shows "placed n h (bs[i := ch])"
  using assms by (cases "i < length bs") (auto simp: placed_def nth_list_update)

lemma rebucket_placed:
  assumes "n \<noteq> 0"
  shows "placed n h bs \<Longrightarrow> (\<forall>x \<in> set xs. item_hash x = h (item_data x)) \<Longrightarrow>
    placed n h (fold (rebucket_item n) xs bs) \<and> mset (concat (fold (rebucket_item n) xs bs)) = mset xs + mset (concat bs)"
proof (induction xs arbitrary: bs)
  case (Cons x xs)
  let ?i = "bucket_of n (item_hash x)"
  have i: "?i < length bs" using Cons.prems bucket_of_less [OF assms] by (simp add: placed_def)
  have r: "rebucket_item n x bs = bs[?i := x # bs ! ?i]" by (simp add: rebucket_item_def bucket_of_def Let_def)
  have "placed n h (rebucket_item n x bs)"
    unfolding r using Cons.prems i by (intro placed_update) (auto simp: placed_def)
  moreover have "mset (concat (rebucket_item n x bs)) = add_mset x (mset (concat bs))"
    using mset_concat_update [OF i, of "x # bs ! ?i"] unfolding r by simp
  ultimately show ?case using Cons by simp
qed simp

lemma placed_empty: "placed n h (replicate (unat n) [])"
  by (simp add: placed_def)

text \<open>Resizing, if it happens, keeps the elements and the invariant.\<close>

lemma lh_inv_mset:
  assumes "lh_inv ok lh" and "num_buckets lh' \<ge> 16" and "placed (num_buckets lh') (hash lh) (buckets lh')"
    and "mset (concat (buckets lh')) = mset (concat (buckets lh))"
    and "num_items lh' = num_items lh" "hash lh' = hash lh" "comp lh' = comp lh"
  shows "lh_inv ok lh' \<and> mset (elems lh') = mset (elems lh)"
proof -
  have m: "mset (elems lh') = mset (elems lh)" using assms(4) by (simp add: elems_def)
  have "mset (map (cls (comp lh) ok) (elems lh')) = mset (map (cls (comp lh) ok) (elems lh))" using m by simp
  then have "distinct (map (cls (comp lh) ok) (elems lh')) = distinct (map (cls (comp lh) ok) (elems lh))"
    by (rule mset_eq_imp_distinct_iff)
  then show ?thesis
    using assms m mset_eq_setD [OF m] mset_eq_length [OF m] unfolding lh_inv_def by simp
qed

definition same_table :: "('d \<Rightarrow> bool) \<Rightarrow> 'd lhash \<Rightarrow> 'd lhash \<Rightarrow> bool" where
  "same_table ok lh lh' \<longleftrightarrow> lh_inv ok lh' \<and> mset (elems lh') = mset (elems lh) \<and> comp lh' = comp lh \<and> hash lh' = hash lh
     \<and> callback_depth lh' = callback_depth lh"

lemma lh_rebucket_keeps:
  assumes "lh_inv ok lh" and "n \<ge> 16"
  shows "same_table ok lh (fst (lh_rebucket lh n a))"
proof -
  have n: "n \<noteq> 0" using assms(2) by auto
  let ?lh = "lh\<lparr>num_buckets := n, buckets := fold (rebucket_item n) (concat (buckets lh)) (replicate (unat n) [])\<rparr>"
  have "\<forall>x \<in> set (concat (buckets lh)). item_hash x = hash lh (item_data x)"
    using assms(1) placedD unfolding lh_inv_def by blast
  from rebucket_placed [OF n placed_empty this] have "lh_inv ok ?lh \<and> mset (elems ?lh) = mset (elems lh)"
    using assms by (intro lh_inv_mset) simp_all
  then show ?thesis
    using assms(1) by (simp add: lh_rebucket_def same_table_def Let_def split: prod.split option.split)
qed

lemma lh_maybe_resize_keeps:
  assumes "lh_inv ok lh"
  shows "same_table ok lh (fst (lh_maybe_resize lh a))"
proof -
  have n: "num_buckets lh \<ge> 16" using assms by (simp add: lh_inv_def)
  have id: "same_table ok lh lh" using assms by (simp add: same_table_def)
  show ?thesis
    unfolding lh_maybe_resize_def Let_def kMinNumBuckets_def
    using n id lh_rebucket_keeps [OF assms] by (simp add: not_less)
qed

subsection \<open>The operations\<close>

definition opt_mset :: "'a option \<Rightarrow> 'a multiset" where
  "opt_mset x = (case x of None \<Rightarrow> {#} | Some y \<Rightarrow> {#y#})"

lemma set_minus_opt: "distinct xs \<Longrightarrow> set_mset (mset xs - opt_mset x) = set xs - set_option x"
  by (cases x) (simp_all add: opt_mset_def set_remove1_eq flip: mset_remove1)

lemma inv_bucket:
  "lh_inv ok lh \<Longrightarrow> bucket_of (num_buckets lh) w < length (buckets lh)"
proof -
  assume i: "lh_inv ok lh"
  then have "num_buckets lh \<noteq> 0" by (auto simp: lh_inv_def)
  then show ?thesis using bucket_of_less [of "num_buckets lh" w] i by (simp add: lh_inv_def placed_def)
qed

lemma get_next_eq:
  "get_next_ptr_and_hash lh d =
    ((bucket_of (num_buckets lh) (hash lh d),
      chain_pos (\<lambda>x. comp lh x d = 0) (buckets lh ! bucket_of (num_buckets lh) (hash lh d))), hash lh d)"
  by (simp add: get_next_ptr_and_hash_def bucket_of_def Let_def)

lemma set_chain_simps [simp]:
  "buckets (set_chain i ch lh) = (buckets lh)[i := ch]" "num_buckets (set_chain i ch lh) = num_buckets lh"
  "num_items (set_chain i ch lh) = num_items lh" "hash (set_chain i ch lh) = hash lh"
  "comp (set_chain i ch lh) = comp lh" "callback_depth (set_chain i ch lh) = callback_depth lh"
  by (simp_all add: set_chain_def)

lemma set_chain_elems:
  assumes "i < length (buckets lh)"
  shows "mset (elems (set_chain i ch lh)) + mset (map item_data (buckets lh ! i)) = mset (elems lh) + mset (map item_data ch)"
  using arg_cong [OF mset_concat_update [OF assms, of ch], of "image_mset item_data"] by (simp add: elems_def)

lemma mset_swap:
  fixes A B C D X Y :: "'a multiset"
  assumes "A + C = B + D" and "D + X = C + Y"
  shows "A + X = B + Y"
proof -
  have "(A + X) + C = (A + C) + X" by (simp add: ac_simps)
  also have "\<dots> = B + (D + X)" by (simp add: assms(1) ac_simps)
  also have "\<dots> = (B + Y) + C" by (simp add: assms(2) ac_simps)
  finally show ?thesis by simp
qed

text \<open>A well-formed table made with the functions \<open>h\<close> and \<open>c\<close>.\<close>

definition lh_table :: "('d \<Rightarrow> bool) \<Rightarrow> ('d \<Rightarrow> u32) \<Rightarrow> ('d \<Rightarrow> 'd \<Rightarrow> int) \<Rightarrow> 'd lhash \<Rightarrow> bool" where
  "lh_table ok h c lh \<longleftrightarrow> lh_inv ok lh \<and> hash lh = h \<and> comp lh = c"

context hash_eq
begin

lemma cls_eq_iff: "ok x \<Longrightarrow> ok y \<Longrightarrow> cls c ok x = cls c ok y \<longleftrightarrow> c x y = 0"
  using cmp_refl cmp_sym cmp_trans unfolding cls_def by blast

lemma table_ok: "lh_table ok h c lh \<Longrightarrow> x \<in> set (elems lh) \<Longrightarrow> ok x"
  by (simp add: lh_table_def lh_inv_def)

lemma table_unique:
  assumes "lh_table ok h c lh" and "x \<in> set (elems lh)" "y \<in> set (elems lh)" and "c x y = 0"
  shows "x = y"
proof -
  have "inj_on (cls c ok) (set (elems lh))" using assms(1) by (auto simp: lh_table_def lh_inv_def distinct_map)
  moreover have "cls c ok x = cls c ok y" using assms table_ok cls_eq_iff by blast
  ultimately show ?thesis using assms(2,3) by (rule inj_onD)
qed

lemma table_distinct: "lh_table ok h c lh \<Longrightarrow> distinct (elems lh)"
  by (simp add: lh_table_def lh_inv_def distinct_map)

lemma elem_in_bucket:
  assumes "lh_table ok h c lh" and "ok d" and "x \<in> set (elems lh)" and "c x d = 0"
  shows "x \<in> item_data ` set (buckets lh ! bucket_of (num_buckets lh) (h d))"
proof -
  obtain it where it: "it \<in> set (concat (buckets lh))" "x = item_data it" using assms(3) by (auto simp: elems_def)
  have "h x = h d" using assms table_ok cmp_hash by blast
  then show ?thesis using it placedD [OF _ it(1), of "num_buckets lh" h] assms(1) by (auto simp: lh_table_def lh_inv_def)
qed

lemma bucket_in_elems:
  "lh_table ok h c lh \<Longrightarrow> it \<in> set (buckets lh ! bucket_of (num_buckets lh) w) \<Longrightarrow> item_data it \<in> set (elems lh)"
  using inv_bucket [of ok lh w] nth_mem [of "bucket_of (num_buckets lh) w" "buckets lh"]
  unfolding lh_table_def elems_def set_map set_concat by blast

text \<open>The position found for \<open>d\<close> points at the element equal to \<open>d\<close>, if there is one.\<close>

lemma deref_next:
  assumes "lh_table ok h c lh" and "ok d"
  shows "map_option item_data (deref lh (fst (get_next_ptr_and_hash lh d))) = Some x \<longleftrightarrow> x \<in> set (elems lh) \<and> c x d = 0"
proof -
  let ?ch = "buckets lh ! bucket_of (num_buckets lh) (h d)"
  let ?k = "chain_pos (\<lambda>x. c x d = 0) ?ch"
  have d: "map_option item_data (deref lh (fst (get_next_ptr_and_hash lh d))) = (if ?k < length ?ch then Some (item_data (?ch ! ?k)) else None)"
    using assms(1) by (simp add: get_next_eq deref_def lh_table_def Let_def)
  show ?thesis
  proof (cases "?k < length ?ch")
    case True
    let ?y = "item_data (?ch ! ?k)"
    have y: "?y \<in> set (elems lh)" "c ?y d = 0"
      using bucket_in_elems [OF assms(1) nth_mem [OF True]] chain_pos_match [OF True] by auto
    have "c ?y x = 0" if "x \<in> set (elems lh)" "c x d = 0" for x
      using that y table_ok [OF assms(1)] cmp_trans [of ?y d x] cmp_sym [of x d] assms(2) by blast
    then show ?thesis using d True y table_unique [OF assms(1) y(1)] by auto
  next
    case False
    then have "\<not> (\<exists>x \<in> item_data ` set ?ch. c x d = 0)" using chain_pos_none [of _ ?ch] by auto
    then show ?thesis using d False elem_in_bucket [OF assms] by auto
  qed
qed

lemma retrieve_iff:
  "lh_table ok h c lh \<Longrightarrow> ok d \<Longrightarrow> OPENSSL_lh_retrieve lh d = Some x \<longleftrightarrow> x \<in> set (elems lh) \<and> c x d = 0"
  unfolding OPENSSL_lh_retrieve_def by (rule deref_next)

lemma table_resize:
  "lh_table ok h c lh \<Longrightarrow> lh_table ok h c (fst (lh_maybe_resize lh a)) \<and> mset (elems (fst (lh_maybe_resize lh a))) = mset (elems lh)"
  using lh_maybe_resize_keeps [of ok lh a] by (simp add: lh_table_def same_table_def)

lemma table_intro:
  assumes "lh_table ok h c lh" and "num_buckets lh' = num_buckets lh" "hash lh' = hash lh" "comp lh' = comp lh"
    and "placed (num_buckets lh) h (buckets lh')"
    and "mset (elems lh') = M" and "num_items lh' = of_nat (size M)"
    and "\<And>x. x \<in># M \<Longrightarrow> ok x" and "mset (map (cls c ok) xs) = image_mset (cls c ok) M" and "distinct (map (cls c ok) xs)"
  shows "lh_table ok h c lh'"
proof -
  have "mset (map (cls c ok) (elems lh')) = mset (map (cls c ok) xs)" using assms by simp
  then have "distinct (map (cls c ok) (elems lh'))" using assms(10) mset_eq_imp_distinct_iff by blast
  moreover have "size M = length (elems lh')" "set_mset M = set (elems lh')" using assms(6) by auto
  ultimately show ?thesis using assms by (auto simp: lh_table_def lh_inv_def)
qed

text \<open>What both updates know about the chain they change.\<close>

lemma table_facts:
  assumes "lh_table ok h c lh"
  shows "hash lh = h" "comp lh = c" "placed (num_buckets lh) h (buckets lh)" "num_items lh = of_nat (length (elems lh))"
    "distinct (map (cls c ok) (elems lh))" "bucket_of (num_buckets lh) (h d) < length (buckets lh)"
    "x \<in> set (buckets lh ! bucket_of (num_buckets lh) (h d)) \<Longrightarrow>
      item_hash x = h (item_data x) \<and> bucket_of (num_buckets lh) (h (item_data x)) = bucket_of (num_buckets lh) (h d)"
  using assms inv_bucket [of ok lh "h d"] by (auto simp: lh_table_def lh_inv_def placed_def)

lemma table_add:
  assumes "lh_table ok h c lh" and "ok d" and no: "OPENSSL_lh_retrieve lh d = None"
    and l: "lh1 = set_chain (bucket_of (num_buckets lh) (h d))
      (buckets lh ! bucket_of (num_buckets lh) (h d) @ [\<lparr>item_data = d, item_hash = h d\<rparr>]) lh\<lparr>num_items := num_items lh + 1\<rparr>"
  shows "lh_table ok h c lh1 \<and> mset (elems lh1) = add_mset d (mset (elems lh))"
proof -
  let ?i = "bucket_of (num_buckets lh) (h d)"
  let ?ch = "buckets lh ! ?i"
  note t = table_facts(1-5) [OF assms(1)] and i = table_facts(6) [OF assms(1), of d] and pl = table_facts(7) [OF assms(1), of _ d]
  have f: "num_buckets lh1 = num_buckets lh" "hash lh1 = hash lh" "comp lh1 = comp lh" "num_items lh1 = num_items lh + 1"
    by (simp_all add: l)
  have e: "mset (elems lh1) = add_mset d (mset (elems lh))"
    using set_chain_elems [OF i, of "?ch @ [\<lparr>item_data = d, item_hash = h d\<rparr>]"] by (simp add: elems_def l)
  have "placed (num_buckets lh) h (buckets lh1)" using t(3) pl by (auto simp: l intro!: placed_update)
  moreover have "cls c ok d \<noteq> cls c ok x" if "x \<in> set (elems lh)" for x
    using no that retrieve_iff [OF assms(1,2), of x] cls_eq_iff [of x d] table_ok [OF assms(1)] assms(2) by auto
  then have "cls c ok d \<notin> cls c ok ` set (elems lh)" by blast
  ultimately show ?thesis
    using e f t(4,5) table_ok [OF assms(1)] assms(2) by (intro conjI table_intro [OF assms(1) _ _ _ _ e, where xs = "d # elems lh"]) auto
qed

lemma table_replace:
  assumes "lh_table ok h c lh" and "ok d" and "i = bucket_of (num_buckets lh) (h d)" "ch = buckets lh ! i"
    and k: "k < length ch" and y: "item_data (ch ! k) \<in> set (elems lh)" "c (item_data (ch ! k)) d = 0"
    and l: "lh1 = set_chain i (ch[k := (ch ! k)\<lparr>item_data := d\<rparr>]) lh"
  shows "lh_table ok h c lh1 \<and> mset (elems lh1) = add_mset d (mset (elems lh) - {#item_data (ch ! k)#})"
proof -
  let ?it = "ch ! k"
  let ?ch = "ch[k := ?it\<lparr>item_data := d\<rparr>]"
  note t = table_facts(1-5) [OF assms(1)] and b = table_facts(6) [OF assms(1), of d] and pl = table_facts(7) [OF assms(1), of _ d]
  have "mset ?ch + {#?it#} = mset ch + {#?it\<lparr>item_data := d\<rparr>#}" using k by (simp add: mset_update)
  from arg_cong [OF this, of "image_mset item_data"]
  have "mset (map item_data ?ch) + {#item_data ?it#} = mset (map item_data ch) + {#d#}" by simp
  then have "mset (elems lh1) + {#item_data ?it#} = mset (elems lh) + {#d#}"
    unfolding l assms(3,4) by (rule mset_swap [OF set_chain_elems [OF b]])
  moreover obtain M where M: "mset (elems lh) = add_mset (item_data ?it) M"
    using y(1) by (metis mset_add set_mset_mset)
  ultimately have e: "mset (elems lh1) = add_mset d (mset (elems lh) - {#item_data ?it#})" by simp
  have sM: "set (elems lh) = insert (item_data ?it) (set_mset M)" and sz: "length (elems lh) = Suc (size M)"
    using arg_cong [OF M, of set_mset] arg_cong [OF M, of size] by simp_all
  have eq: "cls c ok (item_data ?it) = cls c ok d" "h (item_data ?it) = h d"
    using y assms(2) table_ok [OF assms(1)] cls_eq_iff cmp_hash by blast+
  have "item_hash x = h (item_data x) \<and> bucket_of (num_buckets lh) (h (item_data x)) = i" if "x \<in> set ?ch" for x
    using pl pl [OF nth_mem] k eq(2) subsetD [OF set_update_subset_insert that] assms(3,4) by auto
  then have "placed (num_buckets lh) h (buckets lh1)" using placed_update [OF t(3)] by (simp add: l)
  then show ?thesis
    using t M eq(1) sM sz table_ok [OF assms(1)] assms(2) l e
    by (intro conjI table_intro [OF assms(1) _ _ _ _ e, where xs = "elems lh"]) auto
qed

lemma insert_spec:
  assumes "lh_table ok h c lh" and "ok d" and "OPENSSL_lh_insert lh d a = (r, lh', a')"
  shows "case r of None \<Rightarrow> lh' = lh \<and> OPENSSL_lh_retrieve lh d = None \<and> fst (OPENSSL_malloc 24 a) = None
    | Some old \<Rightarrow> lh_table ok h c lh' \<and> old = OPENSSL_lh_retrieve lh d
        \<and> mset (elems lh') = add_mset d (mset (elems lh) - opt_mset old)"
proof -
  let ?i = "bucket_of (num_buckets lh) (h d)"
  let ?ch = "buckets lh ! ?i"
  let ?k = "chain_pos (\<lambda>x. c x d = 0) ?ch"
  have g: "get_next_ptr_and_hash lh d = ((?i, ?k), h d)" by (simp add: get_next_eq table_facts(1,2) [OF assms(1)])
  show ?thesis
  proof (cases "deref lh (?i, ?k)")
    case None
    have no: "OPENSSL_lh_retrieve lh d = None" using None by (simp add: OPENSSL_lh_retrieve_def g)
    define lh1 where l: "lh1 = set_chain ?i (?ch @ [\<lparr>item_data = d, item_hash = h d\<rparr>]) lh\<lparr>num_items := num_items lh + 1\<rparr>"
    note tb = table_add [OF assms(1,2) no l]
    obtain m a1 where m: "OPENSSL_malloc 24 a = (m, a1)" by fastforce
    have "(r, lh', a') = (case m of None \<Rightarrow> (None, lh, a1) | Some _ \<Rightarrow> (Some None, lh_maybe_resize lh1 a1))"
      using assms(3) None by (cases m) (simp_all add: OPENSSL_lh_insert_def g m Let_def l)
    then consider "m = None" "r = None" "lh' = lh" | "m \<noteq> None" "r = Some None" "lh' = fst (lh_maybe_resize lh1 a1)"
      by (cases m) (auto dest: arg_cong [where f = fst])
    then show ?thesis using m no tb table_resize [of lh1 a1] by cases (simp_all add: opt_mset_def)
  next
    case (Some it)
    then have k: "?k < length ?ch" "it = ?ch ! ?k" by (auto simp: deref_def Let_def split: if_splits)
    have yes: "OPENSSL_lh_retrieve lh d = Some (item_data it)" using Some by (simp add: OPENSSL_lh_retrieve_def g)
    then have y: "item_data (?ch ! ?k) \<in> set (elems lh)" "c (item_data (?ch ! ?k)) d = 0"
      using retrieve_iff [OF assms(1,2)] k(2) by auto
    show ?thesis
      using assms(3) Some yes table_replace [OF assms(1,2) refl refl k(1) y refl] k(2)
      by (auto simp: OPENSSL_lh_insert_def g opt_mset_def Let_def)
  qed
qed

lemma delete_spec:
  assumes "lh_table ok h c lh" and "ok d" and "OPENSSL_lh_delete lh d a = (r, lh', a')"
  shows "lh_table ok h c lh' \<and> r = OPENSSL_lh_retrieve lh d \<and> mset (elems lh') = mset (elems lh) - opt_mset r"
proof -
  let ?i = "bucket_of (num_buckets lh) (h d)"
  let ?ch = "buckets lh ! ?i"
  let ?k = "chain_pos (\<lambda>x. c x d = 0) ?ch"
  note t = table_facts(1-5) [OF assms(1)] and i = table_facts(6) [OF assms(1), of d] and pl = table_facts(7) [OF assms(1), of _ d]
  have g: "get_next_ptr_and_hash lh d = ((?i, ?k), h d)" by (simp add: get_next_eq t)
  show ?thesis
  proof (cases "deref lh (?i, ?k)")
    case None
    moreover have "OPENSSL_lh_retrieve lh d = None" using None by (simp add: OPENSSL_lh_retrieve_def g)
    ultimately show ?thesis using assms by (simp add: OPENSSL_lh_delete_def g opt_mset_def Let_def)
  next
    case (Some it)
    then have k: "?k < length ?ch" "it = ?ch ! ?k" by (auto simp: deref_def Let_def split: if_splits)
    let ?c = "take ?k ?ch @ drop (Suc ?k) ?ch"
    let ?lh = "set_chain ?i ?c lh"
    define lh1 where l: "lh1 = ?lh\<lparr>num_items := num_items ?lh - 1\<rparr>"
    have f: "num_buckets lh1 = num_buckets lh" "hash lh1 = hash lh" "comp lh1 = comp lh" "num_items lh1 = num_items lh - 1"
      by (simp_all add: l)
    have "mset ?ch = mset ?c + {#it#}"
      using arg_cong [OF id_take_nth_drop [OF k(1)], of mset] k(2) by simp
    then have "mset (map item_data ?ch) = mset (map item_data ?c) + {#item_data it#}"
      by (metis (no_types, lifting) image_mset_union image_mset_single mset_map)
    then have "mset (elems lh1) + {#item_data it#} = mset (elems lh)"
      using set_chain_elems [OF i, of ?c] by (simp add: elems_def l)
    then have M: "mset (elems lh) = add_mset (item_data it) (mset (elems lh1))" by simp
    have yes: "OPENSSL_lh_retrieve lh d = Some (item_data it)" using Some by (simp add: OPENSSL_lh_retrieve_def g)
    have sub: "x \<in> set ?ch" if "x \<in> set ?c" for x using that by (auto dest: in_set_takeD in_set_dropD)
    have "placed (num_buckets lh) h (buckets lh1)"
      using placed_update [OF t(3), of ?c, OF pl [OF sub]] by (simp add: l)
    moreover have "distinct (map (cls c ok) (elems lh1))"
      using t(5) mset_eq_imp_distinct_iff [of "map (cls c ok) (elems lh)" "cls c ok (item_data it) # map (cls c ok) (elems lh1)"] M
      by simp
    moreover have "length (elems lh) = Suc (length (elems lh1))" "set (elems lh) = insert (item_data it) (set (elems lh1))"
      using arg_cong [OF M, of size] arg_cong [OF M, of set_mset] by simp_all
    ultimately have tb: "lh_table ok h c lh1"
      using f t(4) table_ok [OF assms(1)]
      by (intro table_intro [OF assms(1) _ _ _ _ refl, where xs = "elems lh1"]) simp_all
    have "(r, lh', a') = (Some (item_data it), lh_maybe_resize lh1 a)"
      using assms(3) Some by (simp add: OPENSSL_lh_delete_def g Let_def l)
    then show ?thesis
      using yes M table_resize [OF tb, of a] by (cases "lh_maybe_resize lh1 a") (simp add: opt_mset_def)
  qed
qed

text \<open>Looking up after an update.\<close>

lemma retrieve_eqI:
  assumes "lh_table ok h c lh" "lh_table ok h c lh'" "ok e"
    and "\<And>x. x \<in> set (elems lh') \<Longrightarrow> c x e = 0 \<Longrightarrow> x \<in> set (elems lh)"
    and "\<And>x. x \<in> set (elems lh) \<Longrightarrow> c x e = 0 \<Longrightarrow> x \<in> set (elems lh')"
  shows "OPENSSL_lh_retrieve lh' e = OPENSSL_lh_retrieve lh e"
  using assms retrieve_iff by (metis option.exhaust)

lemma cmp_swap: "ok x \<Longrightarrow> ok d \<Longrightarrow> ok e \<Longrightarrow> c x d = 0 \<Longrightarrow> c x e = 0 \<Longrightarrow> c d e = 0"
  using cmp_sym cmp_trans by blast

lemma unequal_kept:
  assumes "lh_table ok h c lh" "ok d" "ok e" "x \<in> set (elems lh)" "c x e = 0" "c d e \<noteq> 0"
  shows "OPENSSL_lh_retrieve lh d \<noteq> Some x"
  using assms retrieve_iff [OF assms(1,2), of x] cmp_swap [of x d e] table_ok [OF assms(1,4)] by blast

lemma insert_retrieve:
  assumes "lh_table ok h c lh" "ok d" "ok e" and "OPENSSL_lh_insert lh d a = (Some old, lh', a')"
  shows "OPENSSL_lh_retrieve lh' e = (if c d e = 0 then Some d else OPENSSL_lh_retrieve lh e)"
proof -
  have i: "lh_table ok h c lh'" "old = OPENSSL_lh_retrieve lh d" "mset (elems lh') = add_mset d (mset (elems lh) - opt_mset old)"
    using insert_spec [OF assms(1,2,4)] by auto
  have s: "set (elems lh') = insert d (set (elems lh) - set_option old)"
    using arg_cong [OF i(3), of set_mset] set_minus_opt [OF table_distinct [OF assms(1)]] by simp
  have "OPENSSL_lh_retrieve lh' e = Some d" if "c d e = 0" using s that retrieve_iff [OF i(1) assms(3)] by simp
  moreover have "OPENSSL_lh_retrieve lh' e = OPENSSL_lh_retrieve lh e" if ne: "c d e \<noteq> 0"
  proof (rule retrieve_eqI [OF assms(1) i(1) assms(3)])
    show "x \<in> set (elems lh)" if "x \<in> set (elems lh')" "c x e = 0" for x using that ne s by auto
    show "x \<in> set (elems lh')" if "x \<in> set (elems lh)" "c x e = 0" for x
      using that ne s i(2) unequal_kept [OF assms(1-3), of x] by auto
  qed
  ultimately show ?thesis by simp
qed

lemma delete_retrieve:
  assumes "lh_table ok h c lh" "ok d" "ok e" and "OPENSSL_lh_delete lh d a = (r, lh', a')"
  shows "OPENSSL_lh_retrieve lh' e = (if c d e = 0 then None else OPENSSL_lh_retrieve lh e)"
proof -
  have i: "lh_table ok h c lh'" "r = OPENSSL_lh_retrieve lh d" "mset (elems lh') = mset (elems lh) - opt_mset r"
    using delete_spec [OF assms(1,2,4)] by auto
  have s: "set (elems lh') = set (elems lh) - set_option r"
    using arg_cong [OF i(3), of set_mset] set_minus_opt [OF table_distinct [OF assms(1)]] by simp
  have "c x d \<noteq> 0" if "x \<in> set (elems lh')" for x
    using that s i(2) retrieve_iff [OF assms(1,2), of x] by auto
  then have "\<not> (x \<in> set (elems lh') \<and> c x e = 0)" if "c d e = 0" for x
    using that table_ok [OF i(1)] assms(2,3) cmp_sym [of d e] cmp_trans [of x e d] by blast
  then have "OPENSSL_lh_retrieve lh' e = None" if "c d e = 0"
    using that retrieve_iff [OF i(1) assms(3)] by (metis option.exhaust)
  moreover have "OPENSSL_lh_retrieve lh' e = OPENSSL_lh_retrieve lh e" if ne: "c d e \<noteq> 0"
  proof (rule retrieve_eqI [OF assms(1) i(1) assms(3)])
    show "x \<in> set (elems lh)" if "x \<in> set (elems lh')" "c x e = 0" for x using that ne s by auto
    show "x \<in> set (elems lh')" if "x \<in> set (elems lh)" "c x e = 0" for x
      using that ne s i(2) unequal_kept [OF assms(1-3), of x] by auto
  qed
  ultimately show ?thesis by simp
qed

lemma new_table:
  assumes "OPENSSL_lh_new h c a = (Some lh, a')"
  shows "lh_table ok h c lh \<and> elems lh = []"
proof -
  have "lh = \<lparr>num_items = 0, buckets = replicate 16 [], num_buckets = 16, callback_depth = 0, comp = c, hash = h\<rparr>"
    using assms by (auto simp: OPENSSL_lh_new_def kMinNumBuckets_def elim!: and_then_SomeE)
  then show ?thesis
    using placed_empty [of 16 h] by (simp add: lh_table_def lh_inv_def elems_def)
qed

end

subsection \<open>Properties\<close>

text \<open>
  C9. The hash table is a finite map modulo the comparison function of its owner: after a successful
  \<open>OPENSSL_lh_insert\<close> of \<open>d\<close> a lookup of any \<open>e\<close> equal to \<open>d\<close> finds \<open>d\<close> itself and every other lookup is
  unchanged, whether or not the insertion resized the bucket array; \<open>*old_data\<close> is what a lookup of
  \<open>d\<close> found before. The insertion fails only when there is no such element and the allocation of the
  item fails, and then the table is unchanged.
\<close>

theorem lh_insert_correct:
  assumes "hash_eq ok h c" and "lh_table ok h c lh" and "ok d" and "OPENSSL_lh_insert lh d a = (r, lh', a')"
  shows "(r = None \<longrightarrow> lh' = lh \<and> OPENSSL_lh_retrieve lh d = None \<and> fst (OPENSSL_malloc 24 a) = None)
    \<and> (\<forall>old. r = Some old \<longrightarrow> lh_table ok h c lh' \<and> old = OPENSSL_lh_retrieve lh d
         \<and> (\<forall>e. ok e \<longrightarrow> OPENSSL_lh_retrieve lh' e = (if c d e = 0 then Some d else OPENSSL_lh_retrieve lh e)))"
  using hash_eq.insert_spec [OF assms] hash_eq.insert_retrieve [OF assms(1,2,3)] assms(4)
  by (cases r) auto

text \<open>
  \<open>OPENSSL_lh_delete\<close> removes exactly the element equal to \<open>d\<close> and returns it: afterwards lookups of
  elements equal to \<open>d\<close> find nothing, all other lookups are unchanged, and \<open>num_items\<close> counts the
  elements that are left.
\<close>

lemma lh_delete_correct:
  assumes "hash_eq ok h c" and "lh_table ok h c lh" and "ok d" and "OPENSSL_lh_delete lh d a = (r, lh', a')"
  shows "r = OPENSSL_lh_retrieve lh d \<and> lh_table ok h c lh'
    \<and> (\<forall>e. ok e \<longrightarrow> OPENSSL_lh_retrieve lh' e = (if c d e = 0 then None else OPENSSL_lh_retrieve lh e))
    \<and> OPENSSL_lh_num_items lh' = OPENSSL_lh_num_items lh - (if r = None then 0 else 1)"
proof -
  have d: "lh_table ok h c lh'" "r = OPENSSL_lh_retrieve lh d" "mset (elems lh') = mset (elems lh) - opt_mset r"
    using hash_eq.delete_spec [OF assms] by auto
  have "opt_mset r \<subseteq># mset (elems lh)"
    using hash_eq.retrieve_iff [OF assms(1-3), of "the r"] d(2) by (cases r) (auto simp: opt_mset_def split: option.split)
  then have n: "length (elems lh) = length (elems lh') + size (opt_mset r)"
    using arg_cong [OF d(3), of size] size_mset_mono by (fastforce simp: size_Diff_submset)
  have "num_items lh = of_nat (length (elems lh))" "num_items lh' = of_nat (length (elems lh'))"
    using assms(2) d(1) by (simp_all add: lh_table_def lh_inv_def)
  then show ?thesis
    using d(1,2) n hash_eq.delete_retrieve [OF assms(1-3) _ assms(4)]
    by (cases r) (auto simp: OPENSSL_lh_num_items_def opt_mset_def)
qed

text \<open>The load of a table: the resizing rule keeps the average chain length below three.\<close>

lemma lh_rebucket_ok:
  assumes "\<And>i. next_ok a i" and "unat n < 2 ^ 60"
  shows "num_buckets (fst (lh_rebucket lh n a)) = n" "num_items (fst (lh_rebucket lh n a)) = num_items lh"
proof -
  have u: "unat (8 * n) = 8 * unat n" using assms(2) by (simp add: unat_word_ariths)
  then have d: "8 * n div 8 = n" by (simp add: word_unat_eq_iff unat_div)
  have "unat (8 * n + 8) = 8 * unat n + 8" using u assms(2) by (simp add: unat_word_ariths)
  then have "\<not> 8 * n + 8 < 8 * n" using u by (simp add: word_less_nat_alt)
  then obtain b a' where "OPENSSL_malloc (8 * n) a = (Some b, a')" using assms(1) by (simp add: OPENSSL_malloc_def)
  then show "num_buckets (fst (lh_rebucket lh n a)) = n" "num_items (fst (lh_rebucket lh n a)) = num_items lh"
    by (simp_all add: lh_rebucket_def d Let_def)
qed

definition load_ok :: "'d lhash \<Rightarrow> bool" where
  "load_ok lh \<longleftrightarrow> unat (num_items lh) < 3 * unat (num_buckets lh)"

lemma lh_maybe_resize_load:
  assumes "num_buckets lh \<ge> 16" and "callback_depth lh = 0" and "\<And>i. next_ok a i" and "unat (num_buckets lh) < 2 ^ 59"
    and "unat (num_items lh) \<le> 3 * unat (num_buckets lh)"
  shows "load_ok (fst (lh_maybe_resize lh a)) \<and> num_items (fst (lh_maybe_resize lh a)) = num_items lh"
proof -
  define n where "n = unat (num_items lh)"
  define b where "b = unat (num_buckets lh)"
  have b: "16 \<le> b" "b < 2 ^ 59" "n \<le> 3 * b" using assms by (simp_all add: b_def n_def word_le_nat_alt)
  have m2: "unat (num_buckets lh * 2) = b * 2" using b by (simp add: unat_word_ariths b_def)
  have grow: "num_buckets lh * 2 > num_buckets lh" using m2 b by (simp add: word_less_nat_alt b_def)
  consider "num_items lh div num_buckets lh > 2" | "\<not> num_items lh div num_buckets lh > 2" "num_items lh div num_buckets lh < 1" "num_buckets lh > 16"
    | "\<not> num_items lh div num_buckets lh > 2" "\<not> (num_items lh div num_buckets lh < 1 \<and> num_buckets lh > 16)" by blast
  then show ?thesis
  proof cases
    case 1
    then show ?thesis
      using grow m2 b lh_rebucket_ok [OF assms(3), of "num_buckets lh * 2" lh] assms(2)
      by (simp add: lh_maybe_resize_def kMaxAverageChainLength_def load_ok_def n_def [symmetric])
  next
    case 2
    define k where "k = (if num_buckets lh div 2 < 16 then 16 else num_buckets lh div 2)"
    have "n div b < 1" using 2(2) by (simp add: word_less_nat_alt unat_div n_def b_def)
    then have "n < b" using b by (auto simp: div_eq_0_iff)
    moreover have "b < 2 * unat k + 2" "unat k < 2 ^ 60" "16 \<le> unat k"
      using b by (auto simp: k_def word_less_nat_alt unat_div b_def split: if_splits)
    moreover have "lh_maybe_resize lh a = lh_rebucket lh k a"
      using 2 assms(2)
      by (simp add: lh_maybe_resize_def kMaxAverageChainLength_def kMinAverageChainLength_def kMinNumBuckets_def k_def Let_def)
    ultimately show ?thesis
      using lh_rebucket_ok [OF assms(3), of k lh] by (simp add: load_ok_def n_def [symmetric])
  next
    case 3
    have "n div b < 3" using 3(1) by (simp add: word_less_nat_alt unat_div n_def b_def)
    then have "n < 3 * b" using b by (simp add: div_less_iff_less_mult)
    then show ?thesis
      using 3 assms(2)
      by (auto simp: lh_maybe_resize_def kMaxAverageChainLength_def kMinAverageChainLength_def kMinNumBuckets_def load_ok_def
          n_def [symmetric] b_def [symmetric])
  qed
qed

text \<open>
  Chains stay short: while memory is available and no \<open>OPENSSL_lh_doall_arg\<close> is running, inserting
  into and deleting from a table with fewer than three items per bucket leaves a table with fewer
  than three items per bucket.
\<close>

lemma lh_load_bounded:
  assumes "hash_eq ok h c" and "lh_table ok h c lh" and "ok d" and "load_ok lh"
    and "callback_depth lh = 0" and "\<And>i. next_ok a i" and "unat (num_buckets lh) < 2 ^ 59" and "length (elems lh) < 2 ^ 64"
  shows "load_ok (fst (snd (OPENSSL_lh_insert lh d a))) \<and> load_ok (fst (snd (OPENSSL_lh_delete lh d a)))"
proof -
  have b: "num_buckets lh \<ge> 16" using assms(2) by (simp add: lh_table_def lh_inv_def)
  obtain i k w where g: "get_next_ptr_and_hash lh d = ((i, k), w)" by (metis surj_pair)
  obtain x a1 where m: "OPENSSL_malloc 24 a = (Some x, a1)" "\<And>i. next_ok a1 i"
    using assms(6) by (fastforce simp: OPENSSL_malloc_def malloc_turn_def)
  let ?add = "set_chain i (buckets lh ! i @ [\<lparr>item_data = d, item_hash = w\<rparr>]) lh\<lparr>num_items := num_items lh + 1\<rparr>"
  let ?del = "set_chain i (take k (buckets lh ! i) @ drop (Suc k) (buckets lh ! i)) lh\<lparr>num_items := num_items lh - 1\<rparr>"
  have s: "unat (num_items lh + 1) \<le> 3 * unat (num_buckets lh)" using assms(4,7) by (simp add: load_ok_def unat_word_ariths)
  have "load_ok (fst (snd (OPENSSL_lh_insert lh d a)))"
  proof (cases "deref lh (i, k)")
    case None
    then show ?thesis
      using lh_maybe_resize_load [of ?add a1] b s m assms(5,7) by (simp add: OPENSSL_lh_insert_def g Let_def)
  next
    case (Some it)
    then show ?thesis using assms(4) by (simp add: OPENSSL_lh_insert_def g load_ok_def Let_def)
  qed
  moreover have "load_ok (fst (snd (OPENSSL_lh_delete lh d a)))"
  proof (cases "deref lh (i, k)")
    case None
    then show ?thesis using assms(4) by (simp add: OPENSSL_lh_delete_def g)
  next
    case (Some it)
    then have "OPENSSL_lh_retrieve lh d \<noteq> None" by (simp add: OPENSSL_lh_retrieve_def g)
    then have "elems lh \<noteq> []" using hash_eq.retrieve_iff [OF assms(1-3)] by force
    moreover have "num_items lh = of_nat (length (elems lh))" using assms(2) by (simp add: lh_table_def lh_inv_def)
    ultimately have "num_items lh \<noteq> 0" using assms(8) unat_of_nat_small [of "length (elems lh)", where 'a = 64] by force
    from unat_minus_one [OF this] have "unat (num_items lh - 1) \<le> 3 * unat (num_buckets lh)"
      using assms(4) by (simp add: load_ok_def)
    then show ?thesis
      using Some lh_maybe_resize_load [of ?del a] b assms(4-7)
      by (simp add: OPENSSL_lh_delete_def g Let_def)
  qed
  ultimately show ?thesis ..
qed

subsection \<open>Witnesses\<close>

text \<open>A table of pairs, compared and hashed by their first component, with one element.\<close>

definition pair_hash :: "u32 \<times> u32 \<Rightarrow> u32" where
  "pair_hash x = fst x"

definition pair_cmp :: "u32 \<times> u32 \<Rightarrow> u32 \<times> u32 \<Rightarrow> int" where
  "pair_cmp x y = (if fst x = fst y then 0 else 1)"

definition pair_table :: "(u32 \<times> u32) lhash" where
  "pair_table = \<lparr>num_items = 1, buckets = (replicate 16 [])[5 := [\<lparr>item_data = (5, 1), item_hash = 5\<rparr>]], num_buckets = 16,
     callback_depth = 0, comp = pair_cmp, hash = pair_hash\<rparr>"

definition all_ok :: allocator where
  "all_ok = \<lparr>next_ok = \<lambda>_. True, junk = 0\<rparr>"

lemma pair_hash_eq: "hash_eq (\<lambda>_. True) pair_hash pair_cmp"
  by unfold_locales (auto simp: pair_hash_def pair_cmp_def split: if_splits)

lemma pair_table_ok: "lh_table (\<lambda>_. True) pair_hash pair_cmp pair_table" "elems pair_table = [(5, 1)]"
proof -
  have b: "buckets pair_table = [[], [], [], [], [], [\<lparr>item_data = (5, 1), item_hash = 5\<rparr>], [], [], [], [], [], [], [], [], [], []]"
    by (simp add: pair_table_def eval_nat_numeral)
  then show e: "elems pair_table = [(5, 1)]" by (simp add: elems_def)
  have "placed 16 pair_hash (replicate 16 [])" using placed_empty [of 16] by simp
  then have "placed 16 pair_hash ((replicate 16 [])[5 := [\<lparr>item_data = (5, 1), item_hash = 5\<rparr>]])"
    by (rule placed_update) (simp add: pair_hash_def bucket_of_def)
  then show "lh_table (\<lambda>_. True) pair_hash pair_cmp pair_table"
    using e by (simp add: lh_table_def lh_inv_def) (simp add: pair_table_def)
qed

theorem lh_insert_correct_witness:
  "\<exists>lh' a'. OPENSSL_lh_insert pair_table (5, 2) all_ok = (Some (Some (5, 1)), lh', a') \<and> OPENSSL_lh_retrieve lh' (5, 9) = Some (5, 2)"
proof -
  obtain r lh' a' where i: "OPENSSL_lh_insert pair_table (5, 2) all_ok = (r, lh', a')" by (metis surj_pair)
  have "OPENSSL_lh_retrieve pair_table (5, 2) = Some (5, 1)"
    using hash_eq.retrieve_iff [OF pair_hash_eq pair_table_ok(1), of "(5, 2)" "(5, 1)"] by (simp add: pair_table_ok pair_cmp_def)
  then show ?thesis
    using lh_insert_correct [OF pair_hash_eq pair_table_ok(1) _ i] i by (cases r) (auto simp: pair_cmp_def)
qed

end
