(* ===== verification/Pool.thy ===== *)
theory Pool
  imports Lhash Cbs
begin

section \<open>The buffer pool (crypto/pool/pool.c, crypto/refcount_c11.c)\<close>

text \<open>
  Reference-counted immutable byte buffers, shared through a pool. A \<open>CRYPTO_BUFFER\<close> is the record of
  its fields that never change after its creation together with its address; the mutable field
  \<open>references\<close> is a map from the live buffers to their counts in the state, so a buffer that was freed
  has no count. Addresses are drawn from a counter. A function returns \<open>None\<close> at the outermost level
  when it aborts (\<open>CRYPTO_refcount_dec_and_test_zero\<close> on a zero count) or touches a buffer that is no
  longer live.

  The pool of the state is the only pool; \<open>in_pool\<close> says whether \<open>buf->pool\<close> points to it or is NULL.
  The lock of the pool makes its critical sections atomic: \<open>crypto_buffer_lookup\<close> is the section under
  the read lock and \<open>crypto_buffer_create\<close> what follows it, whose accesses to shared state are one
  section under the write lock. Other threads may run between the two.
\<close>

record crypto_buffer =
  addr :: nat
  in_pool :: bool
  buf_data :: bytes
  buf_len :: size_t
  data_is_static :: bool

record pool_st =
  bufs :: "crypto_buffer lhash"
  references :: "crypto_buffer \<rightharpoonup> u32"
  next_addr :: nat
  mem :: allocator

definition CRYPTO_REFCOUNT_MAX :: u32 where
  "CRYPTO_REFCOUNT_MAX = 0xffffffff"

definition CRYPTO_refcount_inc :: "u32 \<Rightarrow> u32" where
  "CRYPTO_refcount_inc n = (if n \<noteq> CRYPTO_REFCOUNT_MAX then n + 1 else n)"

definition CRYPTO_refcount_dec_and_test_zero :: "u32 \<Rightarrow> (bool \<times> u32) option" where
  "CRYPTO_refcount_dec_and_test_zero n =
     (if n = 0 then None
      else if n = CRYPTO_REFCOUNT_MAX then Some (False, n)
      else Some (n - 1 = 0, n - 1))"

definition CRYPTO_BUFFER_hash :: "crypto_buffer \<Rightarrow> u32" where
  "CRYPTO_BUFFER_hash buf = OPENSSL_hash32 (buf_data buf) (buf_len buf)"

definition CRYPTO_BUFFER_cmp :: "crypto_buffer \<Rightarrow> crypto_buffer \<Rightarrow> int" where
  "CRYPTO_BUFFER_cmp a b =
     (if buf_len a \<noteq> buf_len b then 1 else OPENSSL_memcmp (buf_data a) (buf_data b) (buf_len a))"

definition CRYPTO_BUFFER_POOL_new :: "allocator \<Rightarrow> pool_st option" where
  "CRYPTO_BUFFER_POOL_new a =
     (case and_then (OPENSSL_malloc 208 a) (\<lambda>_ a. OPENSSL_lh_new CRYPTO_BUFFER_hash CRYPTO_BUFFER_cmp a) of
        (None, a) \<Rightarrow> None
      | (Some lh, a) \<Rightarrow> Some \<lparr>bufs = lh, references = Map.empty, next_addr = 0, mem = a\<rparr>)"

definition crypto_buffer_free_object :: "crypto_buffer \<Rightarrow> pool_st \<Rightarrow> pool_st" where
  "crypto_buffer_free_object buf ps = ps\<lparr>references := (references ps)(buf := None)\<rparr>"

definition inc_references :: "crypto_buffer \<Rightarrow> pool_st \<Rightarrow> pool_st option" where
  "inc_references buf ps =
     (case references ps buf of
        None \<Rightarrow> None
      | Some n \<Rightarrow> Some (ps\<lparr>references := (references ps)(buf \<mapsto> CRYPTO_refcount_inc n)\<rparr>))"

text \<open>The search for a duplicate, which both critical sections begin with.\<close>

definition find_duplicate :: "crypto_buffer \<Rightarrow> bool \<Rightarrow> pool_st \<Rightarrow> crypto_buffer option" where
  "find_duplicate buf is_static ps =
     (case OPENSSL_lh_retrieve (bufs ps) buf of
        None \<Rightarrow> None
      | Some duplicate \<Rightarrow> if is_static \<and> \<not> data_is_static duplicate then None else Some duplicate)"

definition crypto_buffer_lookup :: "bytes \<Rightarrow> size_t \<Rightarrow> bool \<Rightarrow> pool_st \<Rightarrow> (crypto_buffer option \<times> pool_st) option" where
  "crypto_buffer_lookup data len is_static ps =
     (let tmp = \<lparr>addr = 0, in_pool = False, buf_data = take (unat len) data, buf_len = len, data_is_static = False\<rparr>
      in case find_duplicate tmp is_static ps of
           None \<Rightarrow> Some (None, ps)
         | Some duplicate \<Rightarrow> map_option (Pair (Some duplicate)) (inc_references duplicate ps))"

text \<open>Allocation of the object and of its copy of the data; the count of the new object is 1.\<close>

definition new_object :: "bytes \<Rightarrow> size_t \<Rightarrow> bool \<Rightarrow> bool \<Rightarrow> pool_st \<Rightarrow> crypto_buffer option \<times> pool_st" where
  "new_object data len is_static pooled ps =
     (case OPENSSL_malloc 32 (mem ps) of
        (None, a) \<Rightarrow> (None, ps\<lparr>mem := a\<rparr>)
      | (Some _, a) \<Rightarrow>
          let (copy, a) = (if is_static then (Some (take (unat len) data), a) else OPENSSL_memdup data len a)
          in if \<not> is_static \<and> len \<noteq> 0 \<and> copy = None then (None, ps\<lparr>mem := a\<rparr>)
             else let buf = \<lparr>addr = next_addr ps, in_pool = pooled, buf_data = (case copy of None \<Rightarrow> [] | Some d \<Rightarrow> d),
                             buf_len = len, data_is_static = is_static\<rparr>
                  in (Some buf, ps\<lparr>references := (references ps)(buf \<mapsto> 1), next_addr := next_addr ps + 1, mem := a\<rparr>))"

definition crypto_buffer_create :: "bytes \<Rightarrow> size_t \<Rightarrow> bool \<Rightarrow> bool \<Rightarrow> pool_st \<Rightarrow> (crypto_buffer option \<times> pool_st) option" where
  "crypto_buffer_create data len is_static pooled ps =
     (case new_object data len is_static pooled ps of
        (None, ps) \<Rightarrow> Some (None, ps)
      | (Some buf, ps) \<Rightarrow>
          if \<not> pooled then Some (Some buf, ps)
          else case find_duplicate buf is_static ps of
                 None \<Rightarrow>
                   let (inserted, lh, a) = OPENSSL_lh_insert (bufs ps) buf (mem ps);
                       ps = ps\<lparr>bufs := lh, mem := a\<rparr>
                   in if inserted = None then Some (None, crypto_buffer_free_object buf ps) else Some (Some buf, ps)
               | Some duplicate \<Rightarrow>
                   map_option (\<lambda>ps. (Some duplicate, crypto_buffer_free_object buf ps)) (inc_references duplicate ps))"

definition crypto_buffer_new :: "bytes \<Rightarrow> size_t \<Rightarrow> bool \<Rightarrow> bool \<Rightarrow> pool_st \<Rightarrow> (crypto_buffer option \<times> pool_st) option" where
  "crypto_buffer_new data len is_static pooled ps =
     (if pooled
      then case crypto_buffer_lookup data len is_static ps of
             None \<Rightarrow> None
           | Some (Some duplicate, ps) \<Rightarrow> Some (Some duplicate, ps)
           | Some (None, ps) \<Rightarrow> crypto_buffer_create data len is_static pooled ps
      else crypto_buffer_create data len is_static pooled ps)"

definition CRYPTO_BUFFER_new :: "bytes \<Rightarrow> size_t \<Rightarrow> bool \<Rightarrow> pool_st \<Rightarrow> (crypto_buffer option \<times> pool_st) option" where
  "CRYPTO_BUFFER_new data len pooled ps = crypto_buffer_new data len False pooled ps"

definition CRYPTO_BUFFER_alloc :: "size_t \<Rightarrow> pool_st \<Rightarrow> crypto_buffer option \<times> pool_st" where
  "CRYPTO_BUFFER_alloc len ps =
     (case OPENSSL_malloc 32 (mem ps) of
        (None, a) \<Rightarrow> (None, ps\<lparr>mem := a\<rparr>)
      | (Some _, a) \<Rightarrow>
          let (blk, a) = OPENSSL_malloc len a
          in if len \<noteq> 0 \<and> blk = None then (None, ps\<lparr>mem := a\<rparr>)
             else let buf = \<lparr>addr = next_addr ps, in_pool = False, buf_data = (case blk of None \<Rightarrow> [] | Some d \<Rightarrow> d),
                             buf_len = len, data_is_static = False\<rparr>
                  in (Some buf, ps\<lparr>references := (references ps)(buf \<mapsto> 1), next_addr := next_addr ps + 1, mem := a\<rparr>))"

definition CRYPTO_BUFFER_new_from_CBS :: "cbs \<Rightarrow> bool \<Rightarrow> pool_st \<Rightarrow> (crypto_buffer option \<times> pool_st) option" where
  "CRYPTO_BUFFER_new_from_CBS cbs pooled ps = CRYPTO_BUFFER_new (cbs_data cbs) (cbs_len cbs) pooled ps"

definition CRYPTO_BUFFER_new_from_static_data_unsafe ::
    "bytes \<Rightarrow> size_t \<Rightarrow> bool \<Rightarrow> pool_st \<Rightarrow> (crypto_buffer option \<times> pool_st) option" where
  "CRYPTO_BUFFER_new_from_static_data_unsafe data len pooled ps = crypto_buffer_new data len True pooled ps"

definition CRYPTO_BUFFER_free :: "crypto_buffer \<Rightarrow> pool_st \<Rightarrow> pool_st option" where
  "CRYPTO_BUFFER_free buf ps =
     (case Option.bind (references ps buf) CRYPTO_refcount_dec_and_test_zero of
        None \<Rightarrow> None
      | Some (zero, n) \<Rightarrow>
          let ps = ps\<lparr>references := (references ps)(buf \<mapsto> n)\<rparr>
          in if \<not> zero then Some ps
             else if \<not> in_pool buf then Some (crypto_buffer_free_object buf ps)
             else case OPENSSL_lh_retrieve (bufs ps) buf of
                    None \<Rightarrow> Some (crypto_buffer_free_object buf ps)
                  | Some found \<Rightarrow>
                      if addr found = addr buf
                      then let (_, lh, a) = OPENSSL_lh_delete (bufs ps) buf (mem ps)
                           in Some (crypto_buffer_free_object buf (ps\<lparr>bufs := lh, mem := a\<rparr>))
                      else Some (crypto_buffer_free_object buf ps))"

definition CRYPTO_BUFFER_up_ref :: "crypto_buffer \<Rightarrow> pool_st \<Rightarrow> pool_st option" where
  "CRYPTO_BUFFER_up_ref buf ps = inc_references buf ps"

definition CRYPTO_BUFFER_data :: "crypto_buffer \<Rightarrow> bytes" where
  "CRYPTO_BUFFER_data buf = buf_data buf"

definition CRYPTO_BUFFER_len :: "crypto_buffer \<Rightarrow> size_t" where
  "CRYPTO_BUFFER_len buf = buf_len buf"

definition CRYPTO_BUFFER_init_CBS :: "crypto_buffer \<Rightarrow> cbs" where
  "CRYPTO_BUFFER_init_CBS buf = CBS_init (buf_data buf) (buf_len buf)"

subsection \<open>The table of the pool\<close>

definition buf_ok :: "crypto_buffer \<Rightarrow> bool" where
  "buf_ok b \<longleftrightarrow> length (buf_data b) = unat (buf_len b)"

lemma memcmp_eq_0: "length xs = n \<Longrightarrow> length ys = n \<Longrightarrow> memcmp xs ys n = 0 \<longleftrightarrow> xs = ys"
proof (induction xs ys n rule: memcmp.induct)
  case (1 a as b bs n)
  then show ?case by (auto simp: not_less)
qed auto

lemma cmp_iff: "buf_ok a \<Longrightarrow> buf_ok b \<Longrightarrow> CRYPTO_BUFFER_cmp a b = 0 \<longleftrightarrow> buf_data a = buf_data b"
  using memcmp_eq_0 [of "buf_data a" "unat (buf_len a)" "buf_data b"]
  by (auto simp: CRYPTO_BUFFER_cmp_def OPENSSL_memcmp_def buf_ok_def word_unat_eq_iff)

interpretation cb: hash_eq buf_ok CRYPTO_BUFFER_hash CRYPTO_BUFFER_cmp
proof unfold_locales
  show "CRYPTO_BUFFER_hash x = CRYPTO_BUFFER_hash y" if "buf_ok x" "buf_ok y" "CRYPTO_BUFFER_cmp x y = 0" for x y
    using that cmp_iff [OF that(1,2)] by (metis CRYPTO_BUFFER_hash_def buf_ok_def word_unat_eq_iff)
qed (simp_all add: cmp_iff)

abbreviation pool_table :: "crypto_buffer lhash \<Rightarrow> bool" where
  "pool_table \<equiv> lh_table buf_ok CRYPTO_BUFFER_hash CRYPTO_BUFFER_cmp"

subsection \<open>Invariant\<close>

text \<open>
  \<open>owned b\<close> is the number of references to \<open>b\<close> the clients hold. A live buffer's count is that number,
  unless it is saturated; a buffer in the table is live.
\<close>

definition counts :: "u32 \<Rightarrow> nat \<Rightarrow> bool" where
  "counts n k \<longleftrightarrow> n = CRYPTO_REFCOUNT_MAX \<or> (n \<noteq> 0 \<and> unat n = k)"

definition pool_inv :: "(crypto_buffer \<Rightarrow> nat) \<Rightarrow> pool_st \<Rightarrow> bool" where
  "pool_inv owned ps \<longleftrightarrow> pool_table (bufs ps)
     \<and> (\<forall>b \<in> dom (references ps). buf_ok b \<and> addr b < next_addr ps)
     \<and> inj_on addr (dom (references ps))
     \<and> set (elems (bufs ps)) \<subseteq> dom (references ps)
     \<and> (\<forall>b \<in> set (elems (bufs ps)). in_pool b)
     \<and> (\<forall>b n. references ps b = Some n \<longrightarrow> counts n (owned b))
     \<and> (\<forall>b. references ps b = None \<longrightarrow> owned b = 0)"

lemma pool_inv_mem [simp]: "pool_inv owned (ps\<lparr>mem := a\<rparr>) = pool_inv owned ps"
  by (simp add: pool_inv_def)

lemma refcount_inc:
  assumes "counts n k"
  shows "counts (CRYPTO_refcount_inc n) (k + 1)"
proof -
  have "unat (n + 1) = unat n + 1" if "n \<noteq> 0xffffffff"
  proof -
    have "unat n \<noteq> 0xffffffff" using that by (simp add: word_unat_eq_iff)
    then show ?thesis using unat_u32_less [of n] by (simp add: unat_word_ariths del: unat_u32_less)
  qed
  then show ?thesis using assms by (auto simp: counts_def CRYPTO_refcount_inc_def CRYPTO_REFCOUNT_MAX_def word_unat_eq_iff)
qed

lemma inc_inv:
  assumes "pool_inv owned ps" and "b \<in> dom (references ps)"
  shows "\<exists>ps'. inc_references b ps = Some ps' \<and> pool_inv (owned(b := owned b + 1)) ps' \<and> bufs ps' = bufs ps"
proof -
  obtain n where n: "references ps b = Some n" using assms(2) by blast
  have "counts n (owned b)" using assms(1) n by (auto simp: pool_inv_def)
  note r = refcount_inc [OF this]
  have d: "dom ((references ps)(b \<mapsto> m)) = dom (references ps)" for m using assms(2) by auto
  have "pool_inv (owned(b := owned b + 1)) (ps\<lparr>references := (references ps)(b \<mapsto> CRYPTO_refcount_inc n)\<rparr>)"
    using assms(1) r unfolding pool_inv_def by (simp add: d del: dom_fun_upd)
  then show ?thesis by (simp add: inc_references_def n)
qed

lemma free_object_inv:
  assumes "pool_inv owned ps" and "b \<notin> set (elems (bufs ps))"
  shows "pool_inv (owned(b := 0)) (crypto_buffer_free_object b ps)"
  using assms unfolding pool_inv_def crypto_buffer_free_object_def by (auto intro: inj_on_subset)

lemma find_duplicate_spec:
  assumes "pool_inv owned ps" and "buf_ok t" and "find_duplicate t st ps = Some b"
  shows "b \<in> set (elems (bufs ps))" "buf_data b = buf_data t" "b \<in> dom (references ps)" "st \<longrightarrow> data_is_static b"
proof -
  have p: "pool_table (bufs ps)" using assms(1) by (simp add: pool_inv_def)
  have "OPENSSL_lh_retrieve (bufs ps) t = Some b" and st: "st \<longrightarrow> data_is_static b"
    using assms(3) by (auto simp: find_duplicate_def split: option.splits if_splits)
  then have e: "b \<in> set (elems (bufs ps))" "CRYPTO_BUFFER_cmp b t = 0" using cb.retrieve_iff [OF p assms(2)] by auto
  then show "b \<in> set (elems (bufs ps))" "buf_data b = buf_data t" "b \<in> dom (references ps)" "st \<longrightarrow> data_is_static b"
    using st assms(1,2) cmp_iff cb.table_ok [OF p] by (auto simp: pool_inv_def)
qed

lemma lookup_inv:
  assumes "pool_inv owned ps" and "unat len = length data"
  shows "\<exists>r ps'. crypto_buffer_lookup data len st ps = Some (r, ps') \<and>
    (case r of None \<Rightarrow> ps' = ps | Some b \<Rightarrow> pool_inv (owned(b := owned b + 1)) ps' \<and> buf_data b = data \<and> b \<in> set (elems (bufs ps)))"
proof -
  let ?t = "\<lparr>addr = 0, in_pool = False, buf_data = take (unat len) data, buf_len = len, data_is_static = False\<rparr>"
  have t: "buf_ok ?t" "buf_data ?t = data" using assms(2) by (simp_all add: buf_ok_def)
  show ?thesis
  proof (cases "find_duplicate ?t st ps")
    case None
    then show ?thesis by (simp add: crypto_buffer_lookup_def Let_def)
  next
    case (Some b)
    note f = find_duplicate_spec [OF assms(1) t(1) Some]
    then show ?thesis
      using inc_inv [OF assms(1) f(3)] Some t(2) by (auto simp: crypto_buffer_lookup_def Let_def)
  qed
qed

lemma new_object_inv:
  assumes "pool_inv owned ps" and "unat len = length data" and "new_object data len st pooled ps = (r, ps')"
  shows "bufs ps' = bufs ps \<and> (case r of None \<Rightarrow> pool_inv owned ps'
    | Some b \<Rightarrow> references ps b = None \<and> references ps' = (references ps)(b \<mapsto> 1) \<and> owned b = 0 \<and> pool_inv (owned(b := 1)) ps'
        \<and> buf_ok b \<and> buf_data b = data \<and> in_pool b = pooled \<and> data_is_static b = st)"
proof (cases r)
  case None
  then show ?thesis
    using assms by (auto simp: new_object_def Let_def split: prod.splits option.splits if_splits)
next
  case (Some b)
  have b: "addr b = next_addr ps" "buf_data b = data" "in_pool b = pooled" "data_is_static b = st" "buf_len b = len"
      "bufs ps' = bufs ps" "references ps' = (references ps)(b \<mapsto> 1)" "next_addr ps' = next_addr ps + 1"
    using assms(2,3) Some
    by (auto simp: new_object_def OPENSSL_memdup_def and_then_def Let_def split: prod.splits option.splits if_splits)
  have ok: "buf_ok b" using b assms(2) by (simp add: buf_ok_def)
  have fresh: "references ps b = None" using assms(1) b(1) by (force simp: pool_inv_def)
  then have "owned b = 0" using assms(1) by (simp add: pool_inv_def)
  moreover have "addr b \<notin> addr ` dom (references ps)"
    using assms(1) b(1) unfolding pool_inv_def by (metis imageE less_irrefl)
  then have "inj_on addr (insert b (dom (references ps)))"
    using assms(1) unfolding pool_inv_def inj_on_insert by blast
  then have "pool_inv (owned(b := 1)) ps'"
    using assms(1) b ok fresh unfolding pool_inv_def by (auto simp: less_SucI counts_def)
  ultimately show ?thesis using Some b ok fresh by simp
qed

lemma insert_inv:
  assumes "pool_inv owned ps" and "b \<in> dom (references ps)" and "in_pool b"
    and "OPENSSL_lh_insert (bufs ps) b a = (r, lh, a')"
  shows "pool_inv owned (ps\<lparr>bufs := lh\<rparr>) \<and> (if r = None then lh = bufs ps else b \<in> set (elems lh))"
proof -
  have p: "pool_table (bufs ps)" and ok: "buf_ok b" using assms(1,2) by (auto simp: pool_inv_def)
  note i = cb.insert_spec [OF p ok assms(4)]
  show ?thesis
  proof (cases r)
    case None
    then show ?thesis using i assms(1) by (simp add: pool_inv_def)
  next
    case (Some old)
    then have e: "pool_table lh" "mset (elems lh) = add_mset b (mset (elems (bufs ps)) - opt_mset old)" using i by auto
    have "set (elems lh) \<subseteq> insert b (set (elems (bufs ps)))"
      using arg_cong [OF e(2), of set_mset] by (auto dest: in_diffD)
    then have "pool_inv owned (ps\<lparr>bufs := lh\<rparr>)" using assms(1-3) e(1) unfolding pool_inv_def by auto
    moreover have "b \<in> set (elems lh)" using arg_cong [OF e(2), of set_mset] by simp
    ultimately show ?thesis using Some by simp
  qed
qed

lemma create_inv:
  assumes "pool_inv owned ps" and "unat len = length data"
  shows "\<exists>r ps'. crypto_buffer_create data len st pooled ps = Some (r, ps') \<and>
    (case r of None \<Rightarrow> pool_inv owned ps' | Some b \<Rightarrow> pool_inv (owned(b := owned b + 1)) ps' \<and> buf_data b = data
      \<and> (pooled \<longrightarrow> b \<in> set (elems (bufs ps'))))"
proof -
  obtain r ps1 where n: "new_object data len st pooled ps = (r, ps1)" by fastforce
  note new = new_object_inv [OF assms n]
  show ?thesis
  proof (cases r)
    case None
    then show ?thesis using n new by (simp add: crypto_buffer_create_def)
  next
    case (Some b)
    then have b: "references ps b = None" "references ps1 = (references ps)(b \<mapsto> 1)" "owned b = 0" "pool_inv (owned(b := 1)) ps1"
        "buf_ok b" "buf_data b = data" "in_pool b = pooled" "bufs ps1 = bufs ps"
      using new by auto
    have out: "b \<notin> set (elems (bufs ps1))" using assms(1) b(1,8) by (auto simp: pool_inv_def)
    have back_eq: "(owned(b := 1))(b := 0) = owned" using b(3) by auto
    consider (alone) "\<not> pooled" | (first) "pooled = True" "find_duplicate b st ps1 = None"
      | (dup) d where "pooled = True" "find_duplicate b st ps1 = Some d"
      by (cases "find_duplicate b st ps1") auto
    then show ?thesis
    proof cases
      case alone
      then show ?thesis using n Some b by (simp add: crypto_buffer_create_def)
    next
      case first
      obtain i lh a where l: "OPENSSL_lh_insert (bufs ps1) b (mem ps1) = (i, lh, a)" by (metis surj_pair)
      have inv: "pool_inv (owned(b := 1)) (ps1\<lparr>bufs := lh\<rparr>)" "if i = None then lh = bufs ps1 else b \<in> set (elems lh)"
        using insert_inv [OF b(4) _ _ l] b(2,7) first(1) by auto
      have "pool_inv ((owned(b := 1))(b := 0)) (crypto_buffer_free_object b (ps1\<lparr>bufs := lh, mem := a\<rparr>))" if "i = None"
        using that inv out by (intro free_object_inv) simp_all
      then show ?thesis
        using n Some first l inv b(3,6) unfolding back_eq by (cases i) (auto simp: crypto_buffer_create_def Let_def)
    next
      case dup
      note f = find_duplicate_spec [OF b(4,5) dup(2)]
      have ne: "d \<noteq> b" using f(1) out by blast
      obtain ps2 where p: "inc_references d ps1 = Some ps2" "pool_inv ((owned(b := 1))(d := owned d + 1)) ps2" "bufs ps2 = bufs ps1"
        using inc_inv [OF b(4) f(3)] ne by auto
      have "pool_inv (((owned(b := 1))(d := owned d + 1))(b := 0)) (crypto_buffer_free_object b ps2)"
        by (rule free_object_inv [OF p(2)]) (simp add: out p(3))
      moreover have "((owned(b := 1))(d := owned d + 1))(b := 0) = owned(d := owned d + 1)" using b(3) ne by auto
      ultimately show ?thesis
        using n Some dup p(1,3) f(1,2) b(6) by (simp add: crypto_buffer_create_def) (simp add: crypto_buffer_free_object_def)
    qed
  qed
qed

lemma refcount_dec:
  assumes "counts n (Suc k)"
  shows "\<exists>z m. CRYPTO_refcount_dec_and_test_zero n = Some (z, m) \<and> (if z then k = 0 else counts m k)"
proof (cases "n = CRYPTO_REFCOUNT_MAX")
  case True
  then show ?thesis by (auto simp: CRYPTO_refcount_dec_and_test_zero_def counts_def CRYPTO_REFCOUNT_MAX_def)
next
  case False
  then have n: "n \<noteq> 0" "unat n = Suc k" using assms by (simp_all add: counts_def)
  have "unat (n - 1) = k" using unat_minus_one [OF n(1)] n(2) by simp
  then show ?thesis using n False by (auto simp: CRYPTO_refcount_dec_and_test_zero_def counts_def unat_eq_0)
qed

lemma free_from_table:
  assumes "pool_inv owned ps" and "pool_table lh" and "set (elems lh) \<subseteq> set (elems (bufs ps)) - {b}"
  shows "pool_inv (owned(b := 0)) (crypto_buffer_free_object b (ps\<lparr>references := (references ps)(b \<mapsto> m), bufs := lh, mem := a\<rparr>))"
proof -
  have "pool_inv owned (ps\<lparr>bufs := lh\<rparr>)" using assms unfolding pool_inv_def by auto
  from free_object_inv [OF this, of b] assms(3) show ?thesis
    by (simp add: crypto_buffer_free_object_def subset_Diff_insert pool_inv_def)
qed

text \<open>The look-up \<open>CRYPTO_BUFFER_free\<close> makes to decide whether the buffer is in the table.\<close>

lemma retrieve_self:
  assumes "pool_inv owned ps" and "b \<in> dom (references ps)"
  shows "OPENSSL_lh_retrieve (bufs ps) b = Some b \<longleftrightarrow> b \<in> set (elems (bufs ps))"
    "OPENSSL_lh_retrieve (bufs ps) b = Some found \<Longrightarrow> addr found = addr b \<Longrightarrow> found = b"
proof -
  have ok: "buf_ok b" "pool_table (bufs ps)" using assms by (auto simp: pool_inv_def)
  show "OPENSSL_lh_retrieve (bufs ps) b = Some b \<longleftrightarrow> b \<in> set (elems (bufs ps))"
    using cb.retrieve_iff [OF ok(2,1), of b] cmp_iff [OF ok(1,1)] by simp
  assume f: "OPENSSL_lh_retrieve (bufs ps) b = Some found" "addr found = addr b"
  have "found \<in> dom (references ps)" "inj_on addr (dom (references ps))"
    using f(1) cb.retrieve_iff [OF ok(2,1), of found] assms(1) by (auto simp: pool_inv_def)
  then show "found = b" using f(2) assms(2) by (simp add: inj_on_eq_iff)
qed

lemma free_inv_zero:
  assumes "pool_inv owned ps" and "references ps b = Some n" and "CRYPTO_refcount_dec_and_test_zero n = Some (True, m)"
  shows "\<exists>ps'. CRYPTO_BUFFER_free b ps = Some ps' \<and> pool_inv (owned(b := 0)) ps'"
proof -
  have b: "b \<in> dom (references ps)" "buf_ok b" "pool_table (bufs ps)" using assms(1,2) by (auto simp: pool_inv_def)
  note self = retrieve_self [OF assms(1) b(1)]
  let ?ps = "ps\<lparr>references := (references ps)(b \<mapsto> m)\<rparr>"
  show ?thesis
  proof (cases "b \<in> set (elems (bufs ps))")
    case True
    obtain r lh a where l: "OPENSSL_lh_delete (bufs ps) b (mem ps) = (r, lh, a)" by (metis surj_pair)
    note del = cb.delete_spec [OF b(3,2) l]
    have "set (elems lh) = set (elems (bufs ps)) - {b}"
      using set_minus_opt [OF cb.table_distinct [OF b(3)], of "Some b"] del self(1) True by (metis option.simps(15) set_mset_mset)
    then have "pool_inv (owned(b := 0)) (crypto_buffer_free_object b (?ps\<lparr>bufs := lh, mem := a\<rparr>))"
      using free_from_table [OF assms(1), where lh = lh and b = b and m = m and a = a] del by simp
    moreover have "in_pool b" using assms(1) True by (simp add: pool_inv_def)
    ultimately show ?thesis using assms(2,3) self(1) True l by (simp add: CRYPTO_BUFFER_free_def)
  next
    case False
    then have "pool_inv (owned(b := 0)) (crypto_buffer_free_object b ?ps)"
      using free_from_table [OF assms(1) b(3), where b = b and m = m and a = "mem ps"] by (simp add: crypto_buffer_free_object_def)
    moreover have "addr found \<noteq> addr b" if "OPENSSL_lh_retrieve (bufs ps) b = Some found" for found
      using that self False by metis
    ultimately show ?thesis using assms(2,3) by (auto simp: CRYPTO_BUFFER_free_def Let_def split: option.split)
  qed
qed

lemma free_inv:
  assumes "pool_inv owned ps" and "owned b > 0"
  shows "\<exists>ps'. CRYPTO_BUFFER_free b ps = Some ps' \<and> pool_inv (owned(b := owned b - 1)) ps'"
proof -
  obtain n where n: "references ps b = Some n" using assms by (cases "references ps b") (auto simp: pool_inv_def)
  obtain k where k: "owned b = Suc k" using assms(2) by (cases "owned b") auto
  have "counts n (Suc k)" using assms(1) n unfolding k [symmetric] by (auto simp: pool_inv_def)
  then obtain z m where z: "CRYPTO_refcount_dec_and_test_zero n = Some (z, m)" "if z then k = 0 else counts m k"
    using refcount_dec by blast
  have d: "dom ((references ps)(b \<mapsto> m)) = dom (references ps)" using n by auto
  show ?thesis
  proof (cases z)
    case True
    then show ?thesis using free_inv_zero [OF assms(1) n] z k by simp
  next
    case False
    then have "pool_inv (owned(b := k)) (ps\<lparr>references := (references ps)(b \<mapsto> m)\<rparr>)"
      using assms(1) z(2) unfolding pool_inv_def by (simp add: d del: dom_fun_upd)
    then show ?thesis using n z(1) False k by (simp add: CRYPTO_BUFFER_free_def)
  qed
qed

subsection \<open>Threads\<close>

text \<open>
  The clients as a transition system: the state of the pool, the references the clients own, and the
  requests of threads that have left the first critical section of \<open>crypto_buffer_new\<close> without a
  duplicate and have not entered the second. A client may use a buffer only while it owns a reference.
\<close>

type_synonym request = "bytes \<times> size_t \<times> bool"
type_synonym world = "pool_st \<times> (crypto_buffer \<Rightarrow> nat) \<times> request multiset"

inductive pool_step :: "world \<Rightarrow> world \<Rightarrow> bool" where
  hit: "unat len = length data \<Longrightarrow> crypto_buffer_lookup data len st ps = Some (Some b, ps') \<Longrightarrow>
    pool_step (ps, owned, pending) (ps', owned(b := owned b + 1), pending)"
| miss: "unat len = length data \<Longrightarrow> crypto_buffer_lookup data len st ps = Some (None, ps') \<Longrightarrow>
    pool_step (ps, owned, pending) (ps', owned, add_mset (data, len, st) pending)"
| create: "crypto_buffer_create data len st True ps = Some (r, ps') \<Longrightarrow>
    pool_step (ps, owned, add_mset (data, len, st) pending)
      (ps', case r of None \<Rightarrow> owned | Some b \<Rightarrow> owned(b := owned b + 1), pending)"
| alone: "unat len = length data \<Longrightarrow> crypto_buffer_new data len st False ps = Some (r, ps') \<Longrightarrow>
    pool_step (ps, owned, pending) (ps', case r of None \<Rightarrow> owned | Some b \<Rightarrow> owned(b := owned b + 1), pending)"
| up_ref: "owned b > 0 \<Longrightarrow> CRYPTO_BUFFER_up_ref b ps = Some ps' \<Longrightarrow>
    pool_step (ps, owned, pending) (ps', owned(b := owned b + 1), pending)"
| free: "owned b > 0 \<Longrightarrow> CRYPTO_BUFFER_free b ps = Some ps' \<Longrightarrow>
    pool_step (ps, owned, pending) (ps', owned(b := owned b - 1), pending)"

inductive_cases pool_stepE: "pool_step w w'"

definition world_inv :: "world \<Rightarrow> bool" where
  "world_inv w \<longleftrightarrow> (case w of (ps, owned, pending) \<Rightarrow>
     pool_inv owned ps \<and> (\<forall>(data, len, st) \<in># pending. unat len = length data))"

lemma owned_live: "pool_inv owned ps \<Longrightarrow> owned b > 0 \<Longrightarrow> b \<in> dom (references ps)"
  by (cases "references ps b") (auto simp: pool_inv_def)

lemma world_inv_step: "pool_step w w' \<Longrightarrow> world_inv w \<Longrightarrow> world_inv w'"
proof (induction rule: pool_step.induct)
  case (hit len data st ps b ps' owned pending)
  then show ?case using lookup_inv [of owned ps len data st] by (auto simp: world_inv_def)
next
  case (miss len data st ps ps' owned pending)
  then show ?case using lookup_inv [of owned ps len data st] by (auto simp: world_inv_def)
next
  case (create data len st ps r ps' owned pending)
  then show ?case using create_inv [of owned ps len data st True] by (auto simp: world_inv_def split: option.splits)
next
  case (alone len data st ps r ps' owned pending)
  then show ?case
    using create_inv [of owned ps len data st False] by (auto simp: world_inv_def crypto_buffer_new_def split: option.splits)
next
  case (up_ref owned b ps ps' pending)
  then show ?case using inc_inv [of owned ps b] owned_live by (auto simp: world_inv_def CRYPTO_BUFFER_up_ref_def)
next
  case (free owned b ps ps' pending)
  then show ?case using free_inv [of owned ps b] by (auto simp: world_inv_def)
qed

lemma world_inv_reach: "pool_step\<^sup>*\<^sup>* w w' \<Longrightarrow> world_inv w \<Longrightarrow> world_inv w'"
  by (induction rule: rtranclp_induct) (auto intro: world_inv_step)

lemma pool_new_inv: "CRYPTO_BUFFER_POOL_new a = Some ps \<Longrightarrow> world_inv (ps, \<lambda>_. 0, {#})"
  using cb.new_table
  by (auto simp: CRYPTO_BUFFER_POOL_new_def world_inv_def pool_inv_def and_then_Some_iff split: prod.splits option.splits)

subsection \<open>Properties\<close>

text \<open>
  C10. However the critical sections of any number of threads interleave, starting from a new pool: no
  operation of a client that owns the reference it uses ever aborts or touches a freed buffer, and
  every buffer in the table of the pool is live. So a look-up never revives a buffer whose last
  reference was dropped, also when reference counts saturate and when a static buffer has replaced
  an older one in the table.
\<close>

theorem pool_interleavings_safe:
  assumes "CRYPTO_BUFFER_POOL_new a = Some ps0" and "pool_step\<^sup>*\<^sup>* (ps0, \<lambda>_. 0, {#}) (ps, owned, pending)"
  shows "(\<forall>b \<in> set (elems (bufs ps)). references ps b \<noteq> None)
    \<and> (\<forall>b. owned b > 0 \<longrightarrow> CRYPTO_BUFFER_free b ps \<noteq> None \<and> CRYPTO_BUFFER_up_ref b ps \<noteq> None)
    \<and> (\<forall>data len st. unat len = length data \<longrightarrow> crypto_buffer_lookup data len st ps \<noteq> None)
    \<and> (\<forall>data len st. (data, len, st) \<in># pending \<longrightarrow> crypto_buffer_create data len st True ps \<noteq> None)"
proof -
  have w: "world_inv (ps, owned, pending)" using world_inv_reach [OF assms(2) pool_new_inv [OF assms(1)]] .
  then have inv: "pool_inv owned ps" by (simp add: world_inv_def)
  have "references ps b \<noteq> None" if "b \<in> set (elems (bufs ps))" for b using inv that by (auto simp: pool_inv_def)
  moreover have "CRYPTO_BUFFER_free b ps \<noteq> None \<and> CRYPTO_BUFFER_up_ref b ps \<noteq> None" if "owned b > 0" for b
    using free_inv [OF inv that] inc_inv [OF inv owned_live [OF inv that]] by (auto simp: CRYPTO_BUFFER_up_ref_def)
  moreover have "crypto_buffer_lookup data len st ps \<noteq> None" if "unat len = length data" for data len st
    using lookup_inv [OF inv that, of st] by auto
  moreover have "crypto_buffer_create data len st True ps \<noteq> None" if "(data, len, st) \<in># pending" for data len st
  proof -
    have "unat len = length data" using w that by (force simp: world_inv_def)
    then show ?thesis using create_inv [OF inv, of len data st True] by auto
  qed
  ultimately show ?thesis by blast
qed

theorem pool_interleavings_safe_witness:
  "\<exists>ps ps'. CRYPTO_BUFFER_POOL_new all_ok = Some ps \<and> crypto_buffer_lookup [7] 1 False ps = Some (None, ps')
     \<and> crypto_buffer_create [7] 1 False True ps' \<noteq> None"
proof -
  obtain ps where n: "CRYPTO_BUFFER_POOL_new all_ok = Some ps"
    by (simp add: CRYPTO_BUFFER_POOL_new_def OPENSSL_lh_new_def OPENSSL_malloc_def all_ok_def malloc_turn_def kMinNumBuckets_def)
  have inv: "pool_inv (\<lambda>_. 0) ps" using pool_new_inv [OF n] by (simp add: world_inv_def)
  have "elems (bufs ps) = []"
    using n cb.new_table by (auto simp: CRYPTO_BUFFER_POOL_new_def and_then_Some_iff split: prod.splits option.splits)
  then obtain ps' where l: "crypto_buffer_lookup [7] 1 False ps = Some (None, ps')"
    using lookup_inv [OF inv, of 1 "[7]" False] by (auto split: option.splits)
  have "pool_step (ps, \<lambda>_. 0, {#}) (ps', \<lambda>_. 0, {#([7], 1, False)#})" by (rule miss [OF _ l]) simp
  then show ?thesis using pool_interleavings_safe [OF n r_into_rtranclp] n l by fastforce
qed

text \<open>
  \<open>CRYPTO_BUFFER_new\<close> interns: the buffer it returns holds exactly the given bytes and is in the
  table; if the pool had a buffer with these bytes, that very buffer is returned with its reference
  count raised by one (saturating), so equal contents are stored once.
\<close>

lemma pool_new_interns:
  assumes "pool_inv owned ps" and "unat len = length data" and "CRYPTO_BUFFER_new data len True ps = Some (Some c, ps')"
  shows "CRYPTO_BUFFER_data c = data \<and> CRYPTO_BUFFER_len c = len \<and> c \<in> set (elems (bufs ps'))
    \<and> pool_inv (owned(c := owned c + 1)) ps'
    \<and> (\<forall>b \<in> set (elems (bufs ps)). buf_data b = data \<longrightarrow>
         c = b \<and> references ps' b = map_option CRYPTO_refcount_inc (references ps b))"
proof -
  let ?t = "\<lparr>addr = 0, in_pool = False, buf_data = take (unat len) data, buf_len = len, data_is_static = False\<rparr>"
  have t: "buf_ok ?t" "pool_table (bufs ps)" using assms(1,2) by (simp_all add: buf_ok_def pool_inv_def)
  have dup: "find_duplicate ?t False ps = Some b" if "b \<in> set (elems (bufs ps))" "buf_data b = data" for b
    using that cb.retrieve_iff [OF t(2,1), of b] cmp_iff [of b ?t] t(1) cb.table_ok [OF t(2)] assms(2)
    by (simp add: find_duplicate_def)
  obtain r ps1 where l: "crypto_buffer_lookup data len False ps = Some (r, ps1)"
      "case r of None \<Rightarrow> ps1 = ps | Some b \<Rightarrow> pool_inv (owned(b := owned b + 1)) ps1 \<and> buf_data b = data \<and> b \<in> set (elems (bufs ps))"
    using lookup_inv [OF assms(1,2), of False] by blast
  have res: "pool_inv (owned(c := owned c + 1)) ps' \<and> buf_data c = data \<and> c \<in> set (elems (bufs ps'))
      \<and> (r = None \<or> r = Some c \<and> inc_references c ps = Some ps')"
  proof (cases r)
    case None
    then show ?thesis
      using assms(3) l create_inv [OF assms(1,2), of False True] by (simp add: CRYPTO_BUFFER_new_def crypto_buffer_new_def)
  next
    case (Some b)
    then have "b = c" "ps1 = ps'" using assms(3) l by (simp_all add: CRYPTO_BUFFER_new_def crypto_buffer_new_def)
    moreover have "inc_references b ps = Some ps1"
      using l(1) Some by (auto simp: crypto_buffer_lookup_def Let_def split: option.splits)
    ultimately show ?thesis using l(2) Some by (auto simp: inc_references_def split: option.splits)
  qed
  then have "buf_ok c" using owned_live [of "owned(c := owned c + 1)" ps' c] by (auto simp: pool_inv_def)
  then have "buf_len c = len" using res assms(2) by (simp add: buf_ok_def word_unat_eq_iff)
  moreover have "c = b \<and> references ps' b = map_option CRYPTO_refcount_inc (references ps b)"
    if "b \<in> set (elems (bufs ps))" "buf_data b = data" for b
    using dup [OF that] l(1) res
    by (auto simp: crypto_buffer_lookup_def inc_references_def Let_def split: option.splits)
  ultimately show ?thesis using res by (simp add: CRYPTO_BUFFER_data_def CRYPTO_BUFFER_len_def)
qed

end
