(* ===== verification/Stack.thy ===== *)
theory Stack
  imports Mem Qsort
begin

section \<open>The pointer stack (crypto/stack/stack.c)\<close>

text \<open>
  A growable array of pointers. A pointer is an \<open>'a option\<close>, \<open>None\<close> being NULL; \<open>data\<close> is the whole
  allocated array, of which the first \<open>num\<close> cells are in use. Comparison functions are function
  pointers of type \<open>'c\<close>; \<open>call_cmp_func\<close>, which the type-safe wrappers pass in, says what calling one
  does. A null \<open>_STACK *\<close> is \<open>None\<close>. The contents of freshly allocated array cells is a parameter \<open>g\<close>.
  \<open>sizeof(_STACK)\<close> is 40 and \<open>sizeof(void * )\<close> is 8 on the LP64 targets.
\<close>

type_synonym 'a ptr = "'a option"

record ('a, 'c) stack =
  num :: size_t
  data :: "'a ptr list"
  sorted :: bool
  num_alloc :: size_t
  comp :: "'c option"

definition kMinSize :: size_t where
  "kMinSize = 4"

definition sk_new :: "'c option \<Rightarrow> allocator \<Rightarrow> ('a, 'c) stack option \<times> allocator" where
  "sk_new c a =
     and_then (OPENSSL_malloc 40 a) (\<lambda>_ a.
     and_then (OPENSSL_malloc (8 * kMinSize) a) (\<lambda>_ a.
       (Some \<lparr>num = 0, data = replicate (unat kMinSize) None, sorted = False, num_alloc = kMinSize, comp = c\<rparr>, a)))"

definition sk_new_null :: "allocator \<Rightarrow> ('a, 'c) stack option \<times> allocator" where
  "sk_new_null a = sk_new None a"

definition sk_num :: "('a, 'c) stack option \<Rightarrow> size_t" where
  "sk_num sk = (case sk of None \<Rightarrow> 0 | Some s \<Rightarrow> num s)"

definition sk_zero :: "('a, 'c) stack option \<Rightarrow> ('a, 'c) stack option" where
  "sk_zero sk =
     (case sk of
        None \<Rightarrow> None
      | Some s \<Rightarrow>
          if num s = 0 then Some s
          else Some (s\<lparr>data := replicate (unat (num s)) None @ drop (unat (num s)) (data s), num := 0, sorted := False\<rparr>))"

definition sk_value :: "('a, 'c) stack option \<Rightarrow> size_t \<Rightarrow> 'a ptr" where
  "sk_value sk i =
     (case sk of None \<Rightarrow> None | Some s \<Rightarrow> if i \<ge> num s then None else data s ! unat i)"

definition sk_set :: "('a, 'c) stack option \<Rightarrow> size_t \<Rightarrow> 'a ptr \<Rightarrow> 'a ptr \<times> ('a, 'c) stack option" where
  "sk_set sk i p =
     (case sk of
        None \<Rightarrow> (None, None)
      | Some s \<Rightarrow> if i \<ge> num s then (None, Some s) else (p, Some (s\<lparr>data := (data s)[unat i := p]\<rparr>)))"

text \<open>The pointers handed to \<open>free_func\<close>, in order.\<close>

definition sk_pop_free_ex :: "('a, 'c) stack option \<Rightarrow> 'a list" where
  "sk_pop_free_ex sk =
     (case sk of None \<Rightarrow> [] | Some s \<Rightarrow> concat (map (\<lambda>i. case data s ! i of None \<Rightarrow> [] | Some p \<Rightarrow> [p]) [0..<unat (num s)]))"

text \<open>
  The reallocation at the start of \<open>sk_insert\<close>: the new number of cells (\<open>None\<close> when doubling and
  incrementing both overflow), and the array after it (\<open>None\<close> for \<open>return 0\<close>).
\<close>

definition sk_new_alloc :: "size_t \<Rightarrow> size_t option" where
  "sk_new_alloc n =
     (let new_alloc = push_bit 1 n; alloc_size = new_alloc * 8;
          (new_alloc, alloc_size) =
            (if new_alloc < n \<or> alloc_size div 8 \<noteq> new_alloc then (n + 1, (n + 1) * 8) else (new_alloc, alloc_size))
      in if new_alloc < n \<or> alloc_size div 8 \<noteq> new_alloc then None else Some new_alloc)"

definition sk_grow :: "'a ptr \<Rightarrow> ('a, 'c) stack \<Rightarrow> allocator \<Rightarrow> ('a, 'c) stack option \<times> allocator" where
  "sk_grow g s a =
     (if num_alloc s \<le> num s + 1
      then case sk_new_alloc (num_alloc s) of
             None \<Rightarrow> (None, a)
           | Some new_alloc \<Rightarrow>
               and_then (OPENSSL_malloc (new_alloc * 8) a) (\<lambda>_ a.
                 (Some (s\<lparr>data := take (unat new_alloc) (data s) @ replicate (unat new_alloc - length (data s)) g,
                          num_alloc := new_alloc\<rparr>), a))
      else (Some s, a))"

definition sk_insert :: "'a ptr \<Rightarrow> ('a, 'c) stack option \<Rightarrow> 'a ptr \<Rightarrow> size_t \<Rightarrow> allocator \<Rightarrow>
    size_t \<times> ('a, 'c) stack option \<times> allocator" where
  "sk_insert g sk p loc a =
     (case sk of
        None \<Rightarrow> (0, None, a)
      | Some s \<Rightarrow>
         (case sk_grow g s a of
            (None, a) \<Rightarrow> (0, Some s, a)
          | (Some s, a) \<Rightarrow>
              let n = unat (num s); w = unat loc;
                  d = (if loc \<ge> num s then (data s)[n := p]
                       else (take (w + 1) (data s) @ take (n - w) (drop w (data s)) @ drop (n + 1) (data s))[w := p])
              in (num s + 1, Some (s\<lparr>data := d, num := num s + 1, sorted := False\<rparr>), a)))"

definition sk_delete :: "('a, 'c) stack option \<Rightarrow> size_t \<Rightarrow> 'a ptr \<times> ('a, 'c) stack option" where
  "sk_delete sk loc =
     (case sk of
        None \<Rightarrow> (None, None)
      | Some s \<Rightarrow>
          if loc \<ge> num s then (None, Some s)
          else let n = unat (num s); w = unat loc; ret = data s ! w;
                   d = (if loc \<noteq> num s - 1
                        then take w (data s) @ take (n - w - 1) (drop (w + 1) (data s)) @ drop (n - 1) (data s)
                        else data s)
               in (ret, Some (s\<lparr>data := d, num := num s - 1\<rparr>)))"

text \<open>The first index below \<open>n\<close>, from \<open>i\<close> on, whose cell satisfies the condition of the loop.\<close>

function first_index :: "('a ptr \<Rightarrow> bool) \<Rightarrow> 'a ptr list \<Rightarrow> nat \<Rightarrow> nat \<Rightarrow> nat option" where
  "first_index P d i n = (if i < n then if P (d ! i) then Some i else first_index P d (i + 1) n else None)"
  by pat_completeness auto
termination
  by (relation "measure (\<lambda>(_, _, i, n). n - i)") auto

declare first_index.simps [simp del]

definition sk_delete_ptr :: "('a, 'c) stack option \<Rightarrow> 'a ptr \<Rightarrow> 'a ptr \<times> ('a, 'c) stack option" where
  "sk_delete_ptr sk p =
     (case sk of
        None \<Rightarrow> (None, None)
      | Some s \<Rightarrow>
         (case first_index (\<lambda>x. x = p) (data s) 0 (unat (num s)) of
            None \<Rightarrow> (None, Some s)
          | Some i \<Rightarrow> sk_delete sk (of_nat i)))"

definition sk_is_sorted :: "('a, 'c) stack option \<Rightarrow> bool" where
  "sk_is_sorted sk = (case sk of None \<Rightarrow> True | Some s \<Rightarrow> sorted s)"

text \<open>The middle of the interval, and that it lies in it: the \<open>assert\<close>s of \<open>sk_find\<close>.\<close>

lemma mid_bounds:
  fixes lo hi :: size_t
  assumes "lo < hi"
  defines "m \<equiv> lo + (hi - lo - 1) div 2"
  shows "unat lo \<le> unat m" "unat m < unat hi" "unat (m + 1) = unat m + 1" "hi - lo = 1 \<longleftrightarrow> unat hi = unat lo + 1"
    "hi - lo \<noteq> 1 \<Longrightarrow> unat m + 1 < unat hi"
proof -
  have lt: "unat lo < unat hi" using assms(1) by (simp add: word_less_nat_alt)
  have d: "unat (hi - lo) = unat hi - unat lo" using lt by (simp add: unat_sub word_le_nat_alt)
  have "hi - lo \<noteq> 0" using d lt by (metis unat_0 zero_less_diff less_irrefl)
  then have q: "unat ((hi - lo - 1) div 2) = (unat hi - unat lo - 1) div 2" by (simp add: unat_div unat_minus_one d)
  have l: "unat lo + (unat hi - unat lo - 1) div 2 < unat hi" using lt by linarith
  then have b: "unat lo + (unat hi - unat lo - 1) div 2 + 1 < 2 ^ 64" using unat_u64_less [of hi] by (simp del: unat_u64_less)
  then have m: "unat m = unat lo + (unat hi - unat lo - 1) div 2" unfolding m_def unat_word_ariths(1) q by simp
  show "unat (m + 1) = unat m + 1" using b by (simp add: unat_word_ariths m)
  show "unat lo \<le> unat m" "unat m < unat hi" using m l by simp_all
  show one: "hi - lo = 1 \<longleftrightarrow> unat hi = unat lo + 1" using d lt by (simp add: word_unat_eq_iff) linarith
  show "unat m + 1 < unat hi" if "hi - lo \<noteq> 1" using that m lt one by linarith
qed

lemma mid_decreases:
  fixes lo hi :: size_t
  assumes "lo < hi"
  shows "unat hi - unat (lo + (hi - lo - 1) div 2 + 1) < unat hi - unat lo"
    "unat (lo + (hi - lo - 1) div 2) - unat lo < unat hi - unat lo"
    "hi - lo \<noteq> 1 \<Longrightarrow> unat (lo + (hi - lo - 1) div 2 + 1) - unat lo < unat hi - unat lo"
proof -
  note m = mid_bounds [OF assms]
  show "unat hi - unat (lo + (hi - lo - 1) div 2 + 1) < unat hi - unat lo" using m(1,2) unfolding m(3) by linarith
  show "unat (lo + (hi - lo - 1) div 2) - unat lo < unat hi - unat lo" using m(1,2) by linarith
  show "unat (lo + (hi - lo - 1) div 2 + 1) - unat lo < unat hi - unat lo" if "hi - lo \<noteq> 1"
    using m(1) m(5) [OF that] unfolding m(3) by linarith
qed

function binary_search :: "('a ptr \<Rightarrow> int) \<Rightarrow> 'a ptr list \<Rightarrow> size_t \<Rightarrow> size_t \<Rightarrow> size_t option" where
  "binary_search cmp d lo hi =
     (if lo < hi
      then let mid = lo + (hi - lo - 1) div 2;
               r = cmp (d ! unat mid)
           in if r > 0 then binary_search cmp d (mid + 1) hi
              else if r < 0 then binary_search cmp d lo mid
              else if hi - lo = 1 then Some mid
              else binary_search cmp d lo (mid + 1)
      else None)"
  by pat_completeness auto
termination
  by (relation "measure (\<lambda>(_, _, lo, hi). unat hi - unat lo)")
    (auto intro: mid_decreases)

declare binary_search.simps [simp del]

text \<open>\<open>None\<close> for the result 0; \<open>Some i\<close> for 1 with \<open>*out_index = i\<close>.\<close>

definition sk_find :: "('c \<Rightarrow> 'a ptr \<Rightarrow> 'a ptr \<Rightarrow> int) \<Rightarrow> ('a, 'c) stack option \<Rightarrow> 'a ptr \<Rightarrow> size_t option" where
  "sk_find call_cmp_func sk p =
     (case sk of
        None \<Rightarrow> None
      | Some s \<Rightarrow>
         (case comp s of
            None \<Rightarrow> map_option of_nat (first_index (\<lambda>x. x = p) (data s) 0 (unat (num s)))
          | Some c \<Rightarrow>
              if p = None then None
              else if \<not> sk_is_sorted sk
              then map_option of_nat (first_index (\<lambda>x. call_cmp_func c p x = 0) (data s) 0 (unat (num s)))
              else binary_search (call_cmp_func c p) (data s) 0 (num s)))"

definition sk_shift :: "('a, 'c) stack option \<Rightarrow> 'a ptr \<times> ('a, 'c) stack option" where
  "sk_shift sk =
     (case sk of None \<Rightarrow> (None, None) | Some s \<Rightarrow> if num s = 0 then (None, sk) else sk_delete sk 0)"

text \<open>\<open>sk_push\<close> dereferences its argument without a null check: \<open>None\<close> is the fault.\<close>

definition sk_push :: "'a ptr \<Rightarrow> ('a, 'c) stack option \<Rightarrow> 'a ptr \<Rightarrow> allocator \<Rightarrow> (size_t \<times> ('a, 'c) stack option \<times> allocator) option" where
  "sk_push g sk p a = (case sk of None \<Rightarrow> None | Some s \<Rightarrow> Some (sk_insert g sk p (num s) a))"

definition sk_pop :: "('a, 'c) stack option \<Rightarrow> 'a ptr \<times> ('a, 'c) stack option" where
  "sk_pop sk =
     (case sk of None \<Rightarrow> (None, None) | Some s \<Rightarrow> if num s = 0 then (None, sk) else sk_delete sk (num s - 1))"

definition sk_dup :: "'a ptr \<Rightarrow> ('a, 'c) stack option \<Rightarrow> allocator \<Rightarrow> ('a, 'c) stack option \<times> allocator" where
  "sk_dup g sk a =
     (case sk of
        None \<Rightarrow> (None, a)
      | Some s \<Rightarrow>
          and_then (OPENSSL_malloc 40 a) (\<lambda>_ a.
          and_then (OPENSSL_malloc (8 * num_alloc s) a) (\<lambda>_ a.
            (Some (s\<lparr>data := take (unat (num s)) (data s) @ replicate (unat (num_alloc s) - unat (num s)) g\<rparr>), a))))"

text \<open>\<open>qsort\<close> of the C library is the parameter \<open>qs\<close>, applied to the array of pointers.\<close>

definition sk_sort :: "(('a ptr \<Rightarrow> 'a ptr \<Rightarrow> int) \<Rightarrow> 'a ptr list \<Rightarrow> 'a ptr list) \<Rightarrow> ('c \<Rightarrow> 'a ptr \<Rightarrow> 'a ptr \<Rightarrow> int) \<Rightarrow>
    ('a, 'c) stack option \<Rightarrow> ('a, 'c) stack option" where
  "sk_sort qs call_cmp_func sk =
     (case sk of
        None \<Rightarrow> None
      | Some s \<Rightarrow>
         (case comp s of
            None \<Rightarrow> sk
          | Some c \<Rightarrow>
              if sorted s then sk
              else let n = unat (num s);
                       s = (if num s \<ge> 2 then s\<lparr>data := qs (call_cmp_func c) (take n (data s)) @ drop n (data s)\<rparr> else s)
                   in Some (s\<lparr>sorted := True\<rparr>)))"

definition sk_set_cmp_func :: "('a, 'c) stack \<Rightarrow> 'c option \<Rightarrow> 'c option \<times> ('a, 'c) stack" where
  "sk_set_cmp_func s c =
     (comp s, (if comp s \<noteq> c then s\<lparr>sorted := False\<rparr> else s)\<lparr>comp := c\<rparr>)"

text \<open>
  The loop of \<open>sk_deep_copy\<close> from index \<open>i\<close> on: the copied array, or the pointers that were freed when
  a copy failed. \<open>copy\<close> is the caller's copy function.
\<close>

function deep_copy_loop :: "('a \<Rightarrow> 'a ptr) \<Rightarrow> 'a ptr list \<Rightarrow> nat \<Rightarrow> nat \<Rightarrow> 'a list + 'a ptr list" where
  "deep_copy_loop copy d i n =
     (if i < n
      then case d ! i of
             None \<Rightarrow> deep_copy_loop copy d (i + 1) n
           | Some p \<Rightarrow>
              (case copy p of
                 None \<Rightarrow> Inl (concat (map (\<lambda>j. case d ! j of None \<Rightarrow> [] | Some q \<Rightarrow> [q]) [0..<i]))
               | Some q \<Rightarrow> deep_copy_loop copy (d[i := Some q]) (i + 1) n)
      else Inr d)"
  by pat_completeness auto
termination
  by (relation "measure (\<lambda>(_, _, i, n). n - i)") auto

declare deep_copy_loop.simps [simp del]

definition sk_deep_copy :: "'a ptr \<Rightarrow> ('a \<Rightarrow> 'a ptr) \<Rightarrow> ('a, 'c) stack option \<Rightarrow> allocator \<Rightarrow> (('a, 'c) stack option \<times> 'a list) \<times> allocator" where
  "sk_deep_copy g copy sk a =
     (case sk_dup g sk a of
        (None, a) \<Rightarrow> ((None, []), a)
      | (Some r, a) \<Rightarrow>
         (case deep_copy_loop copy (data r) 0 (unat (num r)) of
            Inl freed \<Rightarrow> ((None, freed), a)
          | Inr d \<Rightarrow> ((Some (r\<lparr>data := d\<rparr>), []), a)))"

subsection \<open>Contents and invariant\<close>

definition contents :: "('a, 'c) stack \<Rightarrow> 'a ptr list" where
  "contents s = take (unat (num s)) (data s)"

definition sk_ok :: "('a, 'c) stack \<Rightarrow> bool" where
  "sk_ok s \<longleftrightarrow> length (data s) = unat (num_alloc s) \<and> unat (num s) < unat (num_alloc s) \<and> unat (num_alloc s) < 2 ^ 61"

lemma length_contents: "sk_ok s \<Longrightarrow> length (contents s) = unat (num s)"
  by (simp add: contents_def sk_ok_def)

lemma sk_ok_bounds: "sk_ok s \<Longrightarrow> unat (num s + 1) = unat (num s) + 1" "sk_ok s \<Longrightarrow> unat (num s) < 2 ^ 61"
  by (simp_all add: sk_ok_def unat_word_ariths)

lemma insert_shift:
  assumes "w < n" "n < length d"
  shows "take (n + 1) ((take (w + 1) d @ take (n - w) (drop w d) @ drop (n + 1) d)[w := p]) = take w (take n d) @ p # drop w (take n d)"
proof -
  have "take (w + 1) d = take w d @ [d ! w]" using assms by (simp add: take_Suc_conv_app_nth)
  then have "(take (w + 1) d @ take (n - w) (drop w d) @ drop (n + 1) d)[w := p]
      = take w d @ p # (take (n - w) (drop w d) @ drop (n + 1) d)"
    using assms by (simp add: list_update_append)
  moreover have "n + 1 - w = Suc (n - w)" "length (take (n - w) (drop w d)) = n - w" using assms by simp_all
  ultimately show ?thesis using assms by (simp add: drop_take min_def)
qed

lemma delete_shift:
  assumes "w + 1 < n" "n \<le> length d"
  shows "take (n - 1) (take w d @ take (n - w - 1) (drop (w + 1) d) @ drop (n - 1) d) = take w (take n d) @ drop (w + 1) (take n d)"
proof -
  have "length (take w d @ take (n - w - 1) (drop (w + 1) d)) = n - 1" using assms by simp
  then have "take (n - 1) ((take w d @ take (n - w - 1) (drop (w + 1) d)) @ drop (n - 1) d) = take w d @ take (n - w - 1) (drop (w + 1) d)"
    by (metis append_eq_conv_conj)
  then show ?thesis using assms by (simp add: drop_take min_def)
qed

lemma sk_new_alloc_spec:
  assumes "sk_new_alloc n = Some k" and "n \<noteq> 0" and "unat n < 2 ^ 61"
  shows "unat n < unat k" "unat k < 2 ^ 61"
proof -
  have k: "k = push_bit 1 n \<or> k = n + 1" "k * 8 div 8 = k"
    using assms(1) by (auto simp: sk_new_alloc_def Let_def split: if_splits)
  have "unat (push_bit 1 n) = 2 * unat n" "unat (n + 1) = unat n + 1" "unat n \<noteq> 0"
    using assms(2,3) by (simp_all add: unat_word_ariths unat_eq_0)
  then show "unat n < unat k" using k(1) by auto
  have "unat (k * 8 div 8) < 2 ^ 61" by (simp add: unat_div unat_word_ariths div_less_iff_less_mult)
  then show "unat k < 2 ^ 61" using k(2) by simp
qed

lemma sk_grow_spec:
  assumes "sk_ok s" and "sk_grow g s a = (Some s', a')"
  shows "contents s' = contents s" "num s' = num s" "sorted s' = sorted s" "comp s' = comp s"
    "length (data s') = unat (num_alloc s')" "unat (num s) + 1 < unat (num_alloc s')" "unat (num_alloc s') < 2 ^ 61"
proof -
  have ok: "length (data s) = unat (num_alloc s)" "unat (num s) < unat (num_alloc s)" "unat (num_alloc s) < 2 ^ 61" "num_alloc s \<noteq> 0"
    using assms(1) by (auto simp: sk_ok_def)
  have n1: "unat (num s + 1) = unat (num s) + 1" using sk_ok_bounds [OF assms(1)] by simp
  have "contents s' = contents s \<and> num s' = num s \<and> sorted s' = sorted s \<and> comp s' = comp s
    \<and> length (data s') = unat (num_alloc s') \<and> unat (num s) + 1 < unat (num_alloc s') \<and> unat (num_alloc s') < 2 ^ 61"
  proof (cases "num_alloc s \<le> num s + 1")
    case False
    then show ?thesis using assms(2) ok n1 by (simp add: sk_grow_def word_le_nat_alt)
  next
    case True
    then obtain k b where k: "sk_new_alloc (num_alloc s) = Some k"
        "s' = s\<lparr>data := take (unat k) (data s) @ replicate (unat k - length (data s)) g, num_alloc := k\<rparr>"
      using assms(2) by (auto simp: sk_grow_def and_then_Some_iff split: option.splits)
    show ?thesis using k(2) sk_new_alloc_spec [OF k(1) ok(4,3)] ok by (simp add: contents_def)
  qed
  then show "contents s' = contents s" "num s' = num s" "sorted s' = sorted s" "comp s' = comp s"
    "length (data s') = unat (num_alloc s')" "unat (num s) + 1 < unat (num_alloc s')" "unat (num_alloc s') < 2 ^ 61"
    by simp_all
qed

lemma sk_insert_spec:
  assumes "sk_ok s" and "sk_insert g (Some s) p loc a = (r, sk, a')"
  shows "r = 0 \<and> sk = Some s \<or>
    (\<exists>s'. sk = Some s' \<and> sk_ok s' \<and> r = num s' \<and> r \<noteq> 0 \<and> comp s' = comp s \<and> \<not> sorted s'
      \<and> contents s' = take (unat loc) (contents s) @ p # drop (unat loc) (contents s))"
proof (cases "sk_grow g s a")
  case (Pair t a1)
  show ?thesis
  proof (cases t)
    case None
    then show ?thesis using assms(2) Pair by (simp add: sk_insert_def)
  next
    case (Some u)
    note g = sk_grow_spec [OF assms(1) Pair [unfolded Some]]
    have n: "unat (num s + 1) = unat (num s) + 1" "num s + 1 \<noteq> 0"
      using sk_ok_bounds(1) [OF assms(1)] by (auto simp: word_unat_eq_iff)
    have l: "unat (num s) < length (data u)" using g by simp
    define d where "d = (if loc \<ge> num u then (data u)[unat (num u) := p]
        else (take (unat loc + 1) (data u) @ take (unat (num u) - unat loc) (drop (unat loc) (data u)) @ drop (unat (num u) + 1) (data u))[unat loc := p])"
    have res: "r = num s + 1" "sk = Some (u\<lparr>data := d, num := num s + 1, sorted := False\<rparr>)"
      using assms(2) Pair Some g(2) unfolding d_def by (auto simp: sk_insert_def Let_def)
    have "take (unat (num s) + 1) d = take (unat loc) (contents s) @ p # drop (unat loc) (contents s)"
    proof (cases "loc \<ge> num s")
      case True
      then have "take (unat loc) (contents s) = contents s" "drop (unat loc) (contents s) = []"
        using length_contents [OF assms(1)] by (simp_all add: word_le_nat_alt)
      then show ?thesis using True g(1,2) l by (simp add: d_def contents_def take_Suc_conv_app_nth)
    next
      case False
      then have w: "unat loc < unat (num s)" by (simp add: word_le_nat_alt)
      have c: "contents s = take (unat (num s)) (data u)" using g(1,2) by (simp add: contents_def)
      have "d = (take (unat loc + 1) (data u) @ take (unat (num s) - unat loc) (drop (unat loc) (data u))
          @ drop (unat (num s) + 1) (data u))[unat loc := p]"
        using False g(2) by (simp add: d_def)
      then show ?thesis by (simp only: c insert_shift [OF w l])
    qed
    moreover have "length d = length (data u)" using l g(2) by (auto simp: d_def not_le word_less_nat_alt)
    ultimately show ?thesis using res n g by (simp add: sk_ok_def contents_def)
  qed
qed

lemma times_8_div_8: "(k :: u64) * 8 div 8 = k \<longleftrightarrow> unat k < 2 ^ 61"
proof
  have "unat (k * 8 div 8) < 2 ^ 61" by (simp add: unat_div unat_word_ariths div_less_iff_less_mult)
  then show "k * 8 div 8 = k \<Longrightarrow> unat k < 2 ^ 61" by simp
qed (simp add: word_unat_eq_iff unat_div unat_word_ariths)

lemma sk_new_alloc_exact:
  assumes "unat n < 2 ^ 61"
  shows "sk_new_alloc n = (if unat n < 2 ^ 60 then Some (2 * n) else if unat n + 1 < 2 ^ 61 then Some (n + 1) else None)"
proof -
  define m k where "m = 2 * n" and "k = n + 1"
  have u: "push_bit 1 n = m" "unat m = 2 * unat n" "unat k = unat n + 1"
    using assms by (simp_all add: m_def k_def unat_word_ariths push_bit_eq_mult)
  have "\<not> m < n" "\<not> k < n" using u(2,3) by (simp_all add: word_less_nat_alt)
  then show ?thesis
    using u(2,3) unfolding m_def [symmetric] k_def [symmetric] sk_new_alloc_def Let_def u(1) by (simp add: times_8_div_8)
qed

text \<open>Growing fails only for want of memory: \<open>malloc\<close> refuses, or the array's size with its prefix does not fit a \<open>size_t\<close>.\<close>

definition grow_fails :: "('a, 'c) stack \<Rightarrow> allocator \<Rightarrow> bool" where
  "grow_fails s a \<longleftrightarrow> unat (num_alloc s) \<le> unat (num s) + 1 \<and> (\<not> next_ok a 0 \<or> 2 ^ 61 - 2 \<le> unat (num_alloc s))"

lemma malloc_cells:
  assumes "unat k < 2 ^ 61"
  shows "fst (OPENSSL_malloc (k * 8) a) = None \<longleftrightarrow> \<not> next_ok a 0 \<or> unat k = 2 ^ 61 - 1"
proof -
  have "unat (k * 8) = unat k * 8" using assms by (simp add: unat_word_ariths)
  then have "k * 8 + 8 < k * 8 \<longleftrightarrow> unat k = 2 ^ 61 - 1"
    using assms by (auto simp: word_less_nat_alt unat_word_ariths(1) mod_if)
  then show ?thesis by (simp add: OPENSSL_malloc_def)
qed

lemma and_then_Some_None: "fst (and_then x (\<lambda>_ a. (Some y, a))) = None \<longleftrightarrow> fst x = None"
  by (cases x) (simp add: and_then_def split: option.splits)

lemma sk_grow_fails:
  assumes "sk_ok s"
  shows "fst (sk_grow g s a) = None \<longleftrightarrow> grow_fails s a"
proof -
  let ?n = "unat (num_alloc s)"
  have n: "?n < 2 ^ 61" "unat (num s + 1) = unat (num s) + 1"
    using assms sk_ok_bounds [OF assms] by (simp_all add: sk_ok_def)
  then have u: "unat (2 * num_alloc s) = 2 * ?n" "unat (num_alloc s + 1) = ?n + 1" by (simp_all add: unat_word_ariths)
  have grow: "fst (sk_grow g s a) = None \<longleftrightarrow> ?n \<le> unat (num s) + 1 \<and> (\<not> next_ok a 0 \<or> unat k = 2 ^ 61 - 1)"
    if "sk_new_alloc (num_alloc s) = Some k" "unat k < 2 ^ 61" for k
    using that n(2) by (simp add: sk_grow_def and_then_Some_None malloc_cells word_le_nat_alt)
  consider "?n < 2 ^ 60" | "2 ^ 60 \<le> ?n" "?n + 1 < 2 ^ 61" | "?n = 2 ^ 61 - 1" using n(1) by linarith
  then show ?thesis
  proof cases
    case 1
    then have "sk_new_alloc (num_alloc s) = Some (2 * num_alloc s)" using sk_new_alloc_exact [OF n(1)] by simp
    from grow [OF this] 1 show ?thesis unfolding u grow_fails_def by auto
  next
    case 2
    then have "sk_new_alloc (num_alloc s) = Some (num_alloc s + 1)" using sk_new_alloc_exact [OF n(1)] by simp
    from grow [OF this] 2 show ?thesis unfolding u grow_fails_def by auto
  next
    case 3
    then show ?thesis using n by (simp add: sk_grow_def sk_new_alloc_exact grow_fails_def word_le_nat_alt)
  qed
qed

lemma sk_insert_fails:
  assumes "sk_ok s" and "sk_insert g (Some s) p loc a = (r, sk, a')"
  shows "r = 0 \<longleftrightarrow> grow_fails s a"
proof -
  obtain t a1 where t: "sk_grow g s a = (t, a1)" by fastforce
  have "unat (num s + 1) \<noteq> 0" using sk_ok_bounds [OF assms(1)] by simp
  then have n: "num s + 1 \<noteq> 0" by auto
  have "r = 0 \<longleftrightarrow> t = None"
  proof (cases t)
    case None
    then show ?thesis using assms(2) t by (simp add: sk_insert_def)
  next
    case (Some u)
    then have "r = num s + 1" using assms(2) t sk_grow_spec(2) [OF assms(1)] by (simp add: sk_insert_def Let_def)
    then show ?thesis using n Some by simp
  qed
  then show ?thesis using sk_grow_fails [OF assms(1), of g a] t by simp
qed

lemma sk_delete_spec:
  assumes "sk_ok s" and "sk_delete (Some s) loc = (r, sk)"
  shows "\<exists>s'. sk = Some s' \<and> sk_ok s' \<and> comp s' = comp s \<and> sorted s' = sorted s
    \<and> contents s' = take (unat loc) (contents s) @ drop (unat loc + 1) (contents s)
    \<and> r = (if unat loc < length (contents s) then contents s ! unat loc else None)"
proof (cases "loc \<ge> num s")
  case True
  then show ?thesis
    using assms length_contents [OF assms(1)] by (auto simp: sk_delete_def word_le_nat_alt)
next
  case False
  have w: "unat loc < unat (num s)" using False by (simp add: word_le_nat_alt)
  then have n0: "num s \<noteq> 0" by auto
  have n1: "unat (num s - 1) = unat (num s) - 1" using unat_minus_one [OF n0] by simp
  have l: "unat (num s) < length (data s)" using assms(1) by (simp add: sk_ok_def)
  define d where "d = (if loc \<noteq> num s - 1
      then take (unat loc) (data s) @ take (unat (num s) - unat loc - 1) (drop (unat loc + 1) (data s)) @ drop (unat (num s) - 1) (data s)
      else data s)"
  have res: "r = data s ! unat loc" "sk = Some (s\<lparr>data := d, num := num s - 1\<rparr>)"
    using assms(2) False unfolding d_def by (auto simp: sk_delete_def Let_def)
  have "take (unat (num s) - 1) d = take (unat loc) (contents s) @ drop (unat loc + 1) (contents s)"
  proof (cases "loc = num s - 1")
    case True
    then show ?thesis using n1 l by (simp add: d_def contents_def)
  next
    case False
    then have "unat loc + 1 < unat (num s)" using w n1 by (auto simp: word_unat_eq_iff)
    then show ?thesis using delete_shift [of "unat loc" "unat (num s)" "data s"] False l by (simp add: d_def contents_def)
  qed
  moreover have "length d = length (data s)" using w l by (auto simp: d_def)
  ultimately show ?thesis
    using res n1 w assms(1) l by (auto simp: sk_ok_def contents_def)
qed

subsection \<open>Searching\<close>

definition first_at :: "('a ptr \<Rightarrow> bool) \<Rightarrow> 'a ptr list \<Rightarrow> nat \<Rightarrow> nat \<Rightarrow> nat \<Rightarrow> bool" where
  "first_at P d i n j \<longleftrightarrow> i \<le> j \<and> j < n \<and> P (d ! j) \<and> (\<forall>k. i \<le> k \<longrightarrow> k < j \<longrightarrow> \<not> P (d ! k))"

lemma first_at_Suc: "\<not> P (d ! i) \<Longrightarrow> first_at P d (Suc i) n j \<longleftrightarrow> first_at P d i n j"
  unfolding first_at_def by (metis Suc_leD Suc_leI le_neq_implies_less)

lemma first_index_Some: "first_index P d i n = Some j \<longleftrightarrow> first_at P d i n j"
proof (induction P d i n rule: first_index.induct)
  case (1 P d i n)
  consider "\<not> i < n" | "i < n" "P (d ! i)" | "i < n" "\<not> P (d ! i)" by blast
  then show ?case
  proof cases
    case 1
    then show ?thesis by (subst first_index.simps) (auto simp: first_at_def)
  next
    case 2
    then have "first_at P d i n j \<longleftrightarrow> j = i" by (auto simp: first_at_def le_less)
    then show ?thesis using 2 by (subst first_index.simps) auto
  next
    case 3
    then show ?thesis using 1 first_at_Suc by (subst first_index.simps) simp
  qed
qed

lemma first_index_eqI:
  assumes "\<And>j. first_at P d i n j \<longleftrightarrow> first_at P d i' n' j"
  shows "first_index P d i n = first_index P d i' n'"
proof -
  have "first_index P d i n = Some j \<longleftrightarrow> first_index P d i' n' = Some j" for j using assms by (simp add: first_index_Some)
  then show ?thesis by (metis option.exhaust)
qed

lemma first_index_skip:
  assumes "i \<le> j" and "\<And>k. i \<le> k \<Longrightarrow> k < j \<Longrightarrow> \<not> P (d ! k)"
  shows "first_index P d i n = first_index P d j n"
proof (rule first_index_eqI)
  fix x
  show "first_at P d i n x \<longleftrightarrow> first_at P d j n x"
    using assms by (cases "x < j") (auto simp: first_at_def not_less, meson not_le)
qed

lemma first_index_cut:
  assumes "j \<le> n" and "\<And>k. j \<le> k \<Longrightarrow> k < n \<Longrightarrow> \<not> P (d ! k)"
  shows "first_index P d i n = first_index P d i j"
proof (rule first_index_eqI)
  fix x
  show "first_at P d i n x \<longleftrightarrow> first_at P d i j x"
    using assms by (cases "x < j") (auto simp: first_at_def not_less)
qed

lemma first_index_hit:
  assumes "i \<le> j" and "j < n" and "P (d ! j)"
  shows "first_index P d i n = first_index P d i (j + 1)"
proof (rule first_index_eqI)
  fix x
  show "first_at P d i n x \<longleftrightarrow> first_at P d i (j + 1) x"
    using assms by (cases "x \<le> j") (auto simp: first_at_def not_le)
qed

text \<open>What sortedness gives: the comparison of the key is positive, then zero, then negative.\<close>

definition descending :: "('a ptr \<Rightarrow> int) \<Rightarrow> 'a ptr list \<Rightarrow> nat \<Rightarrow> bool" where
  "descending f d n \<longleftrightarrow> (\<forall>i j. i < j \<longrightarrow> j < n \<longrightarrow> (f (d ! j) > 0 \<longrightarrow> f (d ! i) > 0) \<and> (f (d ! i) < 0 \<longrightarrow> f (d ! j) < 0))"

lemma binary_search_eq:
  "descending f d (unat hi) \<Longrightarrow> binary_search f d lo hi = map_option of_nat (first_index (\<lambda>x. f x = 0) d (unat lo) (unat hi))"
proof (induction f d lo hi rule: binary_search.induct)
  case (1 f d lo hi)
  let ?F = "first_index (\<lambda>x. f x = 0) d"
  have mono: "f (d ! i) > 0" if "f (d ! j) > 0" "i \<le> j" "j < unat hi" for i j
    using 1(4) that unfolding descending_def by (cases "i = j") (simp, metis le_neq_implies_less)
  have mono': "f (d ! j) < 0" if "f (d ! i) < 0" "i \<le> j" "j < unat hi" for i j
    using 1(4) that unfolding descending_def by (cases "i = j") (simp, metis le_neq_implies_less)
  show ?case
  proof (cases "lo < hi")
    case False
    then show ?thesis by (subst binary_search.simps, subst first_index.simps) (simp add: word_less_nat_alt)
  next
    case True
    define m where "m = lo + (hi - lo - 1) div 2"
    note b = mid_bounds [OF True, folded m_def]
    have desc: "descending f d k" if "k \<le> unat hi" for k using 1(4) that by (auto simp: descending_def)
    note IH = "1.IH" [OF True m_def refl]
    note eq = binary_search.simps [of f d lo hi, unfolded Let_def, folded m_def]
    consider "f (d ! unat m) > 0" | "f (d ! unat m) < 0" | "f (d ! unat m) = 0" by linarith
    then show ?thesis
    proof cases
      case 1
      have "?F (unat lo) (unat hi) = ?F (unat m + 1) (unat hi)"
        using b(1,2) mono [OF 1] by (intro first_index_skip) (fastforce simp: less_Suc_eq_le)+
      then show ?thesis using 1 True IH(1) "1.prems" b(3) by (simp add: eq)
    next
      case 2
      have "?F (unat lo) (unat hi) = ?F (unat lo) (unat m)"
        using b(1,2) mono' [OF 2] by (intro first_index_cut) fastforce+
      then show ?thesis using 2 True IH(2) desc [of "unat m"] b(2) by (simp add: eq)
    next
      case 3
      have h: "?F (unat lo) (unat hi) = ?F (unat lo) (unat m + 1)"
        using b 3 by (intro first_index_hit) auto
      show ?thesis
      proof (cases "hi - lo = 1")
        case True
        then have "unat m = unat lo" using b(1,2,4) by simp
        then show ?thesis using 3 True \<open>lo < hi\<close> h by (simp add: eq first_index.simps word_unat_eq_iff)
      next
        case False
        then show ?thesis using 3 True IH(3) desc [of "unat m + 1"] b(3) b(5) [OF False] h by (simp add: eq)
      qed
    qed
  qed
qed

lemma binary_search_above:
  assumes "\<And>k. unat lo \<le> k \<Longrightarrow> k < unat hi \<Longrightarrow> 0 < f (d ! k)"
  shows "binary_search f d lo hi = None"
  using assms
proof (induction f d lo hi rule: binary_search.induct)
  case (1 f d lo hi)
  show ?case
  proof (cases "lo < hi")
    case False
    then show ?thesis by (simp add: binary_search.simps)
  next
    case True
    define m where "m = lo + (hi - lo - 1) div 2"
    note b = mid_bounds [OF True, folded m_def]
    have "0 < f (d ! unat m)" using "1.prems" b(1,2) by blast
    moreover have "binary_search f d (m + 1) hi = None"
      by (rule "1.IH"(1) [OF True m_def refl]) (use calculation "1.prems" b in auto)
    ultimately show ?thesis using True by (simp add: binary_search.simps [of f d lo hi] Let_def flip: m_def)
  qed
qed

text \<open>A key above everything to the right of the first probe is not found: the search never goes back left.\<close>

lemma binary_search_misses:
  assumes "0 < unat n" and "\<And>k. (unat n - 1) div 2 \<le> k \<Longrightarrow> k < unat n \<Longrightarrow> 0 < f (d ! k)"
  shows "binary_search f d 0 n = None"
proof -
  have n: "(0 :: size_t) < n" using assms(1) by (simp add: word_less_nat_alt)
  define m where "m = (n - 1) div 2"
  note b = mid_bounds [OF n, simplified, folded m_def]
  have "unat (n - 1) = unat n - 1" using n by (intro unat_minus_one) auto
  then have m: "unat m = (unat n - 1) div 2" by (simp add: m_def unat_div)
  have pos: "0 < f (d ! unat m)" by (rule assms(2)) (use b(2) m in simp_all)
  have "binary_search f d (m + 1) n = None"
    by (rule binary_search_above) (use assms(2) b(3) m in simp)
  then show ?thesis using n pos by (simp add: binary_search.simps [of f d 0 n] Let_def flip: m_def)
qed

subsection \<open>Order\<close>

text \<open>What the header says of the field: \<open>sorted\<close> is set only if the elements are in ascending order.\<close>

definition flag_ok :: "('c \<Rightarrow> 'a ptr \<Rightarrow> 'a ptr \<Rightarrow> int) \<Rightarrow> ('a, 'c) stack \<Rightarrow> bool" where
  "flag_ok call s \<longleftrightarrow> (\<forall>c. sorted s \<longrightarrow> comp s = Some c \<longrightarrow> in_order (call c) (contents s))"

lemma in_order_descending:
  assumes "cmp_order f" and "in_order f (take n d)" and "n \<le> length d"
  shows "descending (f p) d n"
  unfolding descending_def
proof (intro allI impI)
  fix i j assume ij: "i < j" "j < n"
  have anti: "\<And>x y. f x y < 0 \<longleftrightarrow> f y x > 0" and trans: "\<And>x y z. f x y \<le> 0 \<Longrightarrow> f y z \<le> 0 \<Longrightarrow> f x z \<le> 0"
    using assms(1) unfolding cmp_order_on_def by blast+
  have le: "f (d ! i) (d ! j) \<le> 0" using assms(2,3) ij by (auto simp: in_order_def sorted_wrt_iff_nth_less)
  have "f p (d ! i) > 0" if "f p (d ! j) > 0"
    using trans [of p "d ! i" "d ! j"] le that by linarith
  moreover have "f p (d ! j) < 0" if "f p (d ! i) < 0"
    using trans [of "d ! i" "d ! j" p] le that anti [of p "d ! i"] anti [of p "d ! j"] by linarith
  ultimately show "(f p (d ! j) > 0 \<longrightarrow> f p (d ! i) > 0) \<and> (f p (d ! i) < 0 \<longrightarrow> f p (d ! j) < 0)" by blast
qed

lemma first_index_contents:
  "sk_ok s \<Longrightarrow> first_index P (data s) 0 (unat (num s)) = Some j \<longleftrightarrow> first_at P (contents s) 0 (length (contents s)) j"
  by (auto simp: first_index_Some first_at_def length_contents contents_def sk_ok_def)

lemma sk_find_unsorted:
  assumes "sk_ok s" and "\<not> sorted s" and "comp s = Some c" and "p \<noteq> None"
    and "i < length (contents s)" and "call c p (contents s ! i) = 0"
  shows "\<exists>j. sk_find call (Some s) p = Some j"
proof -
  have "\<exists>j. first_at (\<lambda>x. call c p x = 0) (contents s) 0 (length (contents s)) j"
    using exists_least_iff [of "\<lambda>k. k < length (contents s) \<and> call c p (contents s ! k) = 0"] assms(5,6)
    by (auto simp: first_at_def)
  then obtain j where "first_index (\<lambda>x. call c p x = 0) (data s) 0 (unat (num s)) = Some j"
    using first_index_contents [OF assms(1)] by blast
  then show ?thesis using assms(2-4) by (auto simp: sk_find_def sk_is_sorted_def)
qed

lemma sk_set_contents:
  assumes "sk_ok s" and "unat i < length (contents s)"
  shows "sk_set (Some s) i p = (p, Some (s\<lparr>data := (data s)[unat i := p]\<rparr>))"
    "contents (s\<lparr>data := (data s)[unat i := p]\<rparr>) = (contents s)[unat i := p]"
    "sk_ok (s\<lparr>data := (data s)[unat i := p]\<rparr>)"
  using assms length_contents [OF assms(1)]
  by (simp_all add: sk_set_def contents_def sk_ok_def word_le_nat_alt take_update_swap)

subsection \<open>Properties\<close>

text \<open>
  C11. \<open>sk_insert\<close> and \<open>sk_delete\<close> are list insertion and deletion on the contents. The insertion puts
  \<open>p\<close> at position \<open>loc\<close> (at the end when \<open>loc\<close> is larger) and returns the new length. It fails, returning 0 and
  leaving the stack as it was, exactly when the array has to grow and cannot: \<open>malloc\<close> refuses, or the size of the
  larger array (with the prefix \<open>OPENSSL_malloc\<close> adds) overflows \<open>size_t\<close>, which takes \<open>2 ^ 61 - 2\<close> cells. The
  deletion returns the element it removes, or NULL when \<open>loc\<close> is out of range. Both keep the array bounds of the stack.
\<close>

theorem sk_insert_delete_refine:
  assumes "sk_ok s" and "sk_insert g (Some s) p loc a = (r, sk, a')" and "sk_delete (Some s) loc = (q, sk2)"
  shows "(if unat (num_alloc s) \<le> length (contents s) + 1 \<and> (\<not> next_ok a 0 \<or> 2 ^ 61 - 2 \<le> unat (num_alloc s))
      then r = 0 \<and> sk = Some s
      else \<exists>s'. sk = Some s' \<and> sk_ok s' \<and> unat r = length (contents s') \<and> r \<noteq> 0
        \<and> contents s' = take (unat loc) (contents s) @ p # drop (unat loc) (contents s))
    \<and> (\<exists>s'. sk2 = Some s' \<and> sk_ok s' \<and> contents s' = take (unat loc) (contents s) @ drop (unat loc + 1) (contents s))
    \<and> q = (if unat loc < length (contents s) then contents s ! unat loc else None)"
proof -
  have "r = 0 \<longleftrightarrow> unat (num_alloc s) \<le> length (contents s) + 1 \<and> (\<not> next_ok a 0 \<or> 2 ^ 61 - 2 \<le> unat (num_alloc s))"
    using sk_insert_fails [OF assms(1,2)] by (simp add: grow_fails_def length_contents [OF assms(1)])
  then show ?thesis
    using sk_insert_spec [OF assms(1,2)] sk_delete_spec [OF assms(1,3)] by (metis length_contents)
qed

text \<open>
  C12. \<open>sk_find\<close> returns the first index whose element compares equal to the key, by linear search or by
  binary search alike, when the \<open>sorted\<close> flag tells the truth.
\<close>

theorem sk_find_first:
  assumes "sk_ok s" and "comp s = Some c" and "p \<noteq> None" and "cmp_order (call c)" and "flag_ok call s"
  shows "sk_find call (Some s) p = Some i \<longleftrightarrow>
    unat i < length (contents s) \<and> call c p (contents s ! unat i) = 0 \<and> (\<forall>k < unat i. call c p (contents s ! k) \<noteq> 0)"
proof -
  let ?F = "first_index (\<lambda>x. call c p x = 0) (data s) 0 (unat (num s))"
  have "sk_find call (Some s) p = map_option of_nat ?F"
  proof (cases "sorted s")
    case True
    then have "descending (call c p) (data s) (unat (num s))"
      using assms by (intro in_order_descending) (auto simp: flag_ok_def contents_def sk_ok_def)
    then show ?thesis using True assms(2,3) binary_search_eq [of "call c p" "data s" "num s" 0]
      by (auto simp: sk_find_def sk_is_sorted_def)
  next
    case False
    then show ?thesis using assms(2,3) by (auto simp: sk_find_def sk_is_sorted_def)
  qed
  moreover have "map_option of_nat ?F = Some i \<longleftrightarrow> ?F = Some (unat i)"
  proof -
    have "unat (of_nat j :: size_t) = j" if "?F = Some j" for j
      using that sk_ok_bounds(2) [OF assms(1)] by (intro unat_of_nat_small) (auto simp: first_index_Some first_at_def)
    then show ?thesis by (cases ?F) (auto simp: word_unat_eq_iff)
  qed
  ultimately show ?thesis
    by (simp add: first_index_contents [OF assms(1)] first_at_def)
qed

text \<open>
  C13. The \<open>sorted\<close> flag tells the truth after \<open>sk_sort\<close> (for any \<open>qsort\<close> that keeps its contract), and
  \<open>sk_insert\<close>, \<open>sk_delete\<close> and \<open>sk_set_cmp_func\<close> keep it truthful; \<open>sk_sort\<close> only permutes the elements.
\<close>

theorem sk_flag_truthful:
  assumes "sk_ok s" and "flag_ok call s" and "qsort_ok qs" and "\<And>c. cmp_order (call c)"
  shows "(\<exists>s'. sk_sort qs call (Some s) = Some s' \<and> sk_ok s' \<and> flag_ok call s' \<and> mset (contents s') = mset (contents s)
      \<and> (comp s \<noteq> None \<longrightarrow> sorted s'))
    \<and> (\<forall>g p loc a. \<exists>s'. fst (snd (sk_insert g (Some s) p loc a)) = Some s' \<and> flag_ok call s')
    \<and> (\<forall>loc. \<exists>s'. snd (sk_delete (Some s) loc) = Some s' \<and> flag_ok call s')
    \<and> (\<forall>c. flag_ok call (snd (sk_set_cmp_func s c)))"
proof (intro conjI allI)
  show "\<exists>s'. sk_sort qs call (Some s) = Some s' \<and> sk_ok s' \<and> flag_ok call s' \<and> mset (contents s') = mset (contents s)
      \<and> (comp s \<noteq> None \<longrightarrow> sorted s')"
  proof (cases "comp s = None \<or> sorted s")
    case True
    then show ?thesis using assms(1,2) by (cases "comp s") (auto simp: sk_sort_def)
  next
    case False
    then obtain c where c: "comp s = Some c" "\<not> sorted s" by auto
    have q: "mset (qs (call c) (contents s)) = mset (contents s)" "in_order (call c) (qs (call c) (contents s))"
      using assms(3) cmp_order_on_subset [OF assms(4)] by (auto simp: qsort_ok_def)
    from mset_eq_length [OF q(1)] have l: "length (qs (call c) (contents s)) = unat (num s)"
      using length_contents [OF assms(1)] by simp
    have "in_order (call c) (contents s)" if "\<not> num s \<ge> 2"
    proof -
      have "length (contents s) < 2" using that length_contents [OF assms(1)] by (simp add: word_le_nat_alt)
      then show ?thesis by (cases "contents s" rule: remdups_adj.cases) (auto simp: in_order_def)
    qed
    then show ?thesis
      using c q l assms(1)
      by (auto simp: sk_sort_def flag_ok_def sk_ok_def Let_def contents_def)
  qed
  show "\<exists>s'. fst (snd (sk_insert g (Some s) p loc a)) = Some s' \<and> flag_ok call s'" for g p loc a
  proof -
    obtain r sk a' where i: "sk_insert g (Some s) p loc a = (r, sk, a')" by (metis surj_pair)
    show ?thesis using sk_insert_spec [OF assms(1) i] assms(2) i by (auto simp: flag_ok_def)
  qed
  show "\<exists>s'. snd (sk_delete (Some s) loc) = Some s' \<and> flag_ok call s'" for loc
  proof -
    obtain q sk where d: "sk_delete (Some s) loc = (q, sk)" by fastforce
    obtain s' where s: "sk = Some s'" "comp s' = comp s" "sorted s' = sorted s"
        "contents s' = take (unat loc) (contents s) @ drop (unat loc + 1) (contents s)"
      using sk_delete_spec [OF assms(1) d] by blast
    then have "flag_ok call s'" using assms(2) in_order_delete unfolding flag_ok_def by metis
    then show ?thesis using d s(1) by simp
  qed
  show "flag_ok call (snd (sk_set_cmp_func s c))" for c
    using assms(2) by (auto simp: sk_set_cmp_func_def flag_ok_def contents_def)
qed

text \<open>
  C14. \<open>sk_set\<close> does not keep the flag truthful. Overwrite any element in the left half of a stack that is sorted
  and flagged so by one that is above all elements to its right: the flag is still set although the elements are out
  of order, and \<open>sk_find\<close> of the new element, which the stack now holds, returns 0. The flag is what misleads it:
  with the flag cleared the same search finds the element.
\<close>

theorem sk_set_breaks_order:
  assumes "sk_ok s" and "flag_ok call s" and "sorted s" and "comp s = Some c" and "p \<noteq> None" and "call c p p = 0"
    and "unat i < (length (contents s) - 1) div 2" and "\<forall>k < length (contents s). unat i < k \<longrightarrow> 0 < call c p (contents s ! k)"
  shows "\<exists>s'. sk_set (Some s) i p = (p, Some s') \<and> contents s' = (contents s)[unat i := p] \<and> sk_value (Some s') i = p
    \<and> sorted s' \<and> comp s' = Some c \<and> \<not> flag_ok call s' \<and> sk_find call (Some s') p = None
    \<and> (\<exists>j. sk_find call (Some (s'\<lparr>sorted := False\<rparr>)) p = Some j)"
proof -
  let ?s = "s\<lparr>data := (data s)[unat i := p]\<rparr>"
  let ?n = "length (contents s)"
  have i: "unat i < ?n" "unat i < ?n - 1" using assms(7) by linarith+
  note S = sk_set_contents [OF assms(1) i(1), of p]
  have n: "unat (num s) = ?n" "?n < length (data s)" using assms(1) by (simp_all add: length_contents sk_ok_def)
  have d: "0 < call c p (data ?s ! k)" if "unat i < k" "k < ?n" for k
  proof -
    have "data ?s ! k = contents s ! k" using that(1) that(2) [folded n(1)] by (simp add: contents_def)
    then show ?thesis using assms(8) that by simp
  qed
  have "\<not> in_order (call c) ((contents s)[unat i := p])"
  proof
    assume "in_order (call c) ((contents s)[unat i := p])"
    then have "call c p (contents s ! (?n - 1)) \<le> 0"
      using i sorted_wrt_nth_less [of "\<lambda>x y. call c x y \<le> 0" "(contents s)[unat i := p]" "unat i" "?n - 1"]
      by (simp add: in_order_def)
    moreover have "0 < call c p (contents s ! (?n - 1))" using assms(8) i by simp
    ultimately show False by simp
  qed
  then have "\<not> flag_ok call ?s" using assms(3,4) S(2) by (simp add: flag_ok_def)
  moreover have "binary_search (call c p) (data ?s) 0 (num s) = None"
  proof (rule binary_search_misses)
    show "0 < call c p (data ?s ! k)" if "(unat (num s) - 1) div 2 \<le> k" "k < unat (num s)" for k
      using that assms(7) d unfolding n(1) by (meson less_le_trans)
  qed (use n(1) i(1) in linarith)
  then have "sk_find call (Some ?s) p = None" using assms(3-5) by (auto simp: sk_find_def sk_is_sorted_def)
  moreover have "sk_ok (?s\<lparr>sorted := False\<rparr>)" using S(3) by (simp add: sk_ok_def)
  then have "\<exists>j. sk_find call (Some (?s\<lparr>sorted := False\<rparr>)) p = Some j"
    by (rule sk_find_unsorted [where i = "unat i" and c = c]) (use assms(4-6) i S(2) in \<open>simp_all add: contents_def\<close>)
  moreover have "sk_value (Some ?s) i = p" using n i by (simp add: sk_value_def word_le_nat_alt)
  ultimately show ?thesis using S(1,2) assms(3,4) by (intro exI [of _ ?s] conjI) simp_all
qed

subsection \<open>Witnesses\<close>

text \<open>A stack of numbers with its natural order.\<close>

definition int_cmp :: "unit \<Rightarrow> int ptr \<Rightarrow> int ptr \<Rightarrow> int" where
  "int_cmp _ x y = (case (x, y) of (Some a, Some b) \<Rightarrow> a - b | (None, None) \<Rightarrow> 0 | (None, _) \<Rightarrow> - 1 | (_, None) \<Rightarrow> 1)"

definition sorted_stack :: "(int, unit) stack" where
  "sorted_stack = \<lparr>num = 3, data = [Some 1, Some 2, Some 3, None], sorted = True, num_alloc = 4, comp = Some ()\<rparr>"

lemma int_cmp_order: "cmp_order (int_cmp u)"
  by (auto simp: cmp_order_on_def int_cmp_def split: option.splits)

lemma sorted_stack_ok: "sk_ok sorted_stack" "flag_ok int_cmp sorted_stack" "contents sorted_stack = [Some 1, Some 2, Some 3]"
  by (simp_all add: sorted_stack_def sk_ok_def flag_ok_def contents_def in_order_def int_cmp_def)

theorem sk_insert_delete_refine_witness:
  "\<exists>s1 s2 a'. sk_insert None (Some sorted_stack) (Some 7) 1 \<lparr>next_ok = \<lambda>_. True, junk = 0\<rparr> = (4, Some s1, a')
     \<and> contents s1 = [Some 1, Some 7, Some 2, Some 3]
     \<and> sk_delete (Some sorted_stack) 1 = (Some 2, Some s2) \<and> contents s2 = [Some 1, Some 3]"
proof -
  obtain r sk a' where i: "sk_insert None (Some sorted_stack) (Some 7) 1 \<lparr>next_ok = \<lambda>_. True, junk = 0\<rparr> = (r, sk, a')" by (metis surj_pair)
  obtain q sk2 where d: "sk_delete (Some sorted_stack) 1 = (q, sk2)" by fastforce
  have "num_alloc sorted_stack = 4" by (simp add: sorted_stack_def)
  with sk_insert_delete_refine [OF sorted_stack_ok(1) i d] obtain s1 s2 where
    s: "sk = Some s1" "unat r = 4" "contents s1 = [Some 1, Some 7, Some 2, Some 3]" "q = Some 2" "sk2 = Some s2" "contents s2 = [Some 1, Some 3]"
    by (auto simp: sorted_stack_ok(3))
  then have "r = 4" by (simp add: word_unat_eq_iff)
  then show ?thesis using i d s by auto
qed

theorem sk_find_first_witness: "sk_find int_cmp (Some sorted_stack) (Some 3) = Some 2"
  using sk_find_first [of sorted_stack "()" "Some 3" int_cmp 2] sorted_stack_ok int_cmp_order
  by (auto simp: sorted_stack_def int_cmp_def less_2_cases_iff)

theorem sk_flag_truthful_witness:
  "\<exists>s'. sk_sort isort int_cmp (Some sorted_stack) = Some s' \<and> flag_ok int_cmp s' \<and> mset (contents s') = mset [Some 1, Some 2, Some 3]"
  using sk_flag_truthful [OF sorted_stack_ok(1,2) isort_ok int_cmp_order] sorted_stack_ok(3) by auto

theorem sk_set_breaks_order_witness:
  "\<exists>s'. sk_set (Some sorted_stack) 0 (Some 9) = (Some 9, Some s') \<and> contents s' = [Some 9, Some 2, Some 3]
     \<and> sk_find int_cmp (Some s') (Some 9) = None"
proof -
  have "\<forall>k < length (contents sorted_stack). unat (0 :: size_t) < k \<longrightarrow> 0 < int_cmp () (Some 9) (contents sorted_stack ! k)"
    unfolding sorted_stack_ok(3) by (simp add: less_Suc_eq numeral_3_eq_3 int_cmp_def)
  from sk_set_breaks_order [OF sorted_stack_ok(1,2) _ _ _ _ _ this] show ?thesis
    by (simp add: sorted_stack_ok(3)) (auto simp: sorted_stack_def int_cmp_def)
qed

end
