(* ===== verification/Pb_Stream.thy ===== *)
theory Pb_Stream
  imports C_Prelude
begin

section \<open>Protocol buffer streams (nanopb/pb_decode.c, nanopb/pb_encode.c)\<close>

text \<open>
  Input and output streams over memory buffers, and the wire-level values: varints, zig-zag varints,
  fixed-width numbers, tags, length-prefixed strings. The configuration is the one of the pod: 64 bit
  support, error messages, and \<open>PB_FIELD_32BIT\<close>, so that \<open>pb_size_t\<close> has 32 bits.

  An input stream's \<open>state\<close> pointer is the list of the bytes from there to the end of the block; its
  callback is \<open>buf_read\<close>. An output stream either writes to memory with \<open>buf_write\<close>, and \<open>written\<close> are
  the bytes stored through its \<open>state\<close> pointer so far, or has no callback and only counts (\<open>sizing\<close>).
  A function returns \<open>Some\<close> of its results for \<open>true\<close> and \<open>None\<close> for \<open>false\<close>, with the stream afterwards.
\<close>

record pb_istream =
  state :: bytes
  bytes_left :: size_t
  errmsg :: "string option"

definition PB_SET_ERROR :: "string \<Rightarrow> pb_istream \<Rightarrow> pb_istream" where
  "PB_SET_ERROR msg s = s\<lparr>errmsg := (case errmsg s of Some m \<Rightarrow> Some m | None \<Rightarrow> Some msg)\<rparr>"

subsection \<open>Reading\<close>

definition buf_read :: "pb_istream \<Rightarrow> size_t \<Rightarrow> bytes \<times> pb_istream" where
  "buf_read s n = (take (unat n) (state s), s\<lparr>state := drop (unat n) (state s)\<rparr>)"

definition pb_read :: "pb_istream \<Rightarrow> size_t \<Rightarrow> bytes option \<times> pb_istream" where
  "pb_read s n =
     (if n = 0 then (Some [], s)
      else if bytes_left s < n then (None, PB_SET_ERROR ''end-of-stream'' s)
      else let (buf, s) = buf_read s n in (Some buf, s\<lparr>bytes_left := bytes_left s - n\<rparr>))"

definition pb_readbyte :: "pb_istream \<Rightarrow> u8 option \<times> pb_istream" where
  "pb_readbyte s =
     (if bytes_left s = 0 then (None, PB_SET_ERROR ''end-of-stream'' s)
      else let (buf, s) = buf_read s 1 in (Some (buf ! 0), s\<lparr>bytes_left := bytes_left s - 1\<rparr>))"

definition pb_istream_from_buffer :: "bytes \<Rightarrow> size_t \<Rightarrow> pb_istream" where
  "pb_istream_from_buffer buf bufsize = \<lparr>state = buf, bytes_left = bufsize, errmsg = None\<rparr>"

lemma pb_readbyte_less: "pb_readbyte s = (Some b, s') \<Longrightarrow> unat (bytes_left s') < unat (bytes_left s)"
proof -
  assume r: "pb_readbyte s = (Some b, s')"
  then have "bytes_left s \<noteq> 0" "bytes_left s' = bytes_left s - 1"
    by (auto simp: pb_readbyte_def buf_read_def split: if_splits)
  then show ?thesis by (simp add: unat_minus_one unat_gt_0)
qed

lemma pb_read_less: "pb_read s n = (Some b, s') \<Longrightarrow> n \<noteq> 0 \<Longrightarrow> unat (bytes_left s') < unat (bytes_left s)"
proof -
  assume r: "pb_read s n = (Some b, s')" and n: "n \<noteq> 0"
  then have "n \<le> bytes_left s" "bytes_left s' = bytes_left s - n"
    by (auto simp: pb_read_def buf_read_def split: if_splits)
  moreover have "0 < unat n" using n by (simp add: unat_gt_0)
  ultimately show ?thesis by (simp add: unat_sub word_le_nat_alt)
qed

text \<open>
  The multibyte case of a 32 bit varint. \<open>uint_fast8_t\<close> has 8 bits on the targets, so \<open>bitpos\<close> wraps.
  The result is the value, the final \<open>bitpos\<close> and the last byte.
\<close>

function varint32_loop :: "u8 \<Rightarrow> u32 \<Rightarrow> pb_istream \<Rightarrow> (u32 \<times> u8 \<times> u8) option \<times> pb_istream" where
  "varint32_loop bitpos result s =
     and_then (pb_readbyte s) (\<lambda>byte s.
       let sign_extension = (if bitpos < 63 then 0xff else 0x01)
       in if bitpos \<ge> 32 \<and> byte AND 0x7f \<noteq> 0 \<and> (drop_bit 31 result = 0 \<or> byte \<noteq> sign_extension)
          then (None, PB_SET_ERROR ''varint overflow'' s)
          else
            let result = (if bitpos \<ge> 32 then result
                          else result OR push_bit (unat bitpos) (ucast (byte AND 0x7f)));
                bitpos = bitpos + 7
            in if byte AND 0x80 \<noteq> 0 then varint32_loop bitpos result s else (Some (result, bitpos, byte), s))"
  by pat_completeness auto
termination
  by (relation "measure (\<lambda>(_, _, s). unat (bytes_left s))") (auto dest: pb_readbyte_less)

declare varint32_loop.simps [simp del]

text \<open>The flag that comes with the result is \<open>*eof\<close> afterwards; \<open>eof\<close> is its value before.\<close>

definition pb_decode_varint32_eof :: "bool \<Rightarrow> pb_istream \<Rightarrow> (u32 option \<times> pb_istream) \<times> bool" where
  "pb_decode_varint32_eof eof s =
     (case pb_readbyte s of
        (None, s) \<Rightarrow> ((None, s), eof \<or> bytes_left s = 0)
      | (Some byte, s) \<Rightarrow>
          (if byte AND 0x80 = 0 then (Some (ucast byte), s)
           else and_then (varint32_loop 7 (ucast (byte AND 0x7f)) s) (\<lambda>(result, bitpos, byte) s.
                  if bitpos = 35 \<and> byte AND 0x70 \<noteq> 0 then (None, PB_SET_ERROR ''varint overflow'' s)
                  else (Some result, s)), eof))"

definition pb_decode_varint32 :: "pb_istream \<Rightarrow> u32 option \<times> pb_istream" where
  "pb_decode_varint32 s = fst (pb_decode_varint32_eof False s)"

function varint_loop :: "u8 \<Rightarrow> u64 \<Rightarrow> pb_istream \<Rightarrow> u64 option \<times> pb_istream" where
  "varint_loop bitpos result s =
     (if bitpos \<ge> 64 then (None, PB_SET_ERROR ''varint overflow'' s)
      else and_then (pb_readbyte s) (\<lambda>byte s.
             let result = result OR push_bit (unat bitpos) (ucast (byte AND 0x7f));
                 bitpos = bitpos + 7
             in if byte AND 0x80 \<noteq> 0 then varint_loop bitpos result s else (Some result, s)))"
  by pat_completeness auto
termination
  by (relation "measure (\<lambda>(_, _, s). unat (bytes_left s))") (auto dest: pb_readbyte_less)

declare varint_loop.simps [simp del]

definition pb_decode_varint :: "pb_istream \<Rightarrow> u64 option \<times> pb_istream" where
  "pb_decode_varint s = varint_loop 0 0 s"

function pb_skip_varint :: "pb_istream \<Rightarrow> unit option \<times> pb_istream" where
  "pb_skip_varint s =
     and_then (pb_read s 1) (\<lambda>buf s. if buf ! 0 AND 0x80 \<noteq> 0 then pb_skip_varint s else (Some (), s))"
  by pat_completeness auto
termination
  by (relation "measure (\<lambda>s. unat (bytes_left s))") (auto dest: pb_read_less)

declare pb_skip_varint.simps [simp del]

definition pb_skip_string :: "pb_istream \<Rightarrow> unit option \<times> pb_istream" where
  "pb_skip_string s =
     and_then (pb_decode_varint32 s) (\<lambda>len s.
     and_then (pb_read s (ucast len)) (\<lambda>_ s. (Some (), s)))"

text \<open>Wire types are the numbers of the enumeration, as \<open>pb_decode_tag\<close> casts any three bits to it.\<close>

definition PB_WT_VARINT :: u32 where "PB_WT_VARINT = 0"
definition PB_WT_64BIT :: u32 where "PB_WT_64BIT = 1"
definition PB_WT_STRING :: u32 where "PB_WT_STRING = 2"
definition PB_WT_32BIT :: u32 where "PB_WT_32BIT = 5"

lemmas wire_types = PB_WT_VARINT_def PB_WT_64BIT_def PB_WT_STRING_def PB_WT_32BIT_def

definition pb_decode_tag :: "pb_istream \<Rightarrow> ((u32 \<times> u32) option \<times> pb_istream) \<times> bool" where
  "pb_decode_tag s =
     (case pb_decode_varint32_eof False s of
        ((None, s), eof) \<Rightarrow> ((None, s), eof)
      | ((Some temp, s), eof) \<Rightarrow>
          if temp = 0 then ((None, s), True) else ((Some (temp AND 7, drop_bit 3 temp), s), eof))"

definition pb_skip_field :: "pb_istream \<Rightarrow> u32 \<Rightarrow> unit option \<times> pb_istream" where
  "pb_skip_field s wire_type =
     (if wire_type = PB_WT_VARINT then pb_skip_varint s
      else if wire_type = PB_WT_64BIT then and_then (pb_read s 8) (\<lambda>_ s. (Some (), s))
      else if wire_type = PB_WT_STRING then pb_skip_string s
      else if wire_type = PB_WT_32BIT then and_then (pb_read s 4) (\<lambda>_ s. (Some (), s))
      else (None, PB_SET_ERROR ''invalid wire_type'' s))"

function raw_varint :: "bytes \<Rightarrow> size_t \<Rightarrow> pb_istream \<Rightarrow> bytes option \<times> pb_istream" where
  "raw_varint buf max_size s =
     (if of_nat (length buf + 1) > max_size then (None, s)
      else and_then (pb_read s 1) (\<lambda>b s.
             if b ! 0 AND 0x80 \<noteq> 0 then raw_varint (buf @ b) max_size s else (Some (buf @ b), s)))"
  by pat_completeness auto
termination
  by (relation "measure (\<lambda>(_, _, s). unat (bytes_left s))") (auto dest: pb_read_less)

declare raw_varint.simps [simp del]

text \<open>The raw value read; its length is \<open>*size\<close> on return.\<close>

definition read_raw_value :: "pb_istream \<Rightarrow> u32 \<Rightarrow> size_t \<Rightarrow> bytes option \<times> pb_istream" where
  "read_raw_value s wire_type max_size =
     (if wire_type = PB_WT_VARINT then raw_varint [] max_size s
      else if wire_type = PB_WT_64BIT then pb_read s 8
      else if wire_type = PB_WT_32BIT then pb_read s 4
      else (None, PB_SET_ERROR ''invalid wire_type'' s))"

definition pb_make_string_substream :: "pb_istream \<Rightarrow> pb_istream option \<times> pb_istream" where
  "pb_make_string_substream s =
     and_then (pb_decode_varint32 s) (\<lambda>size s.
       if bytes_left s < ucast size then (None, PB_SET_ERROR ''parent stream too short'' s)
       else (Some (s\<lparr>bytes_left := ucast size\<rparr>), s\<lparr>bytes_left := bytes_left s - ucast size\<rparr>))"

definition pb_close_string_substream :: "pb_istream \<Rightarrow> pb_istream \<Rightarrow> unit option \<times> pb_istream" where
  "pb_close_string_substream s sub =
     (case (if bytes_left sub \<noteq> 0 then pb_read sub (bytes_left sub) else (Some [], sub)) of
        (None, sub) \<Rightarrow> (None, s)
      | (Some _, sub) \<Rightarrow> (Some (), s\<lparr>state := state sub, errmsg := errmsg sub\<rparr>))"

definition pb_decode_svarint :: "pb_istream \<Rightarrow> u64 option \<times> pb_istream" where
  "pb_decode_svarint s =
     and_then (pb_decode_varint s) (\<lambda>v s.
       (Some (if v AND 1 \<noteq> 0 then NOT (drop_bit 1 v) else drop_bit 1 v), s))"

definition pb_decode_fixed32 :: "pb_istream \<Rightarrow> u32 option \<times> pb_istream" where
  "pb_decode_fixed32 s =
     and_then (pb_read s 4) (\<lambda>b s.
       (Some (ucast (b ! 0) OR push_bit 8 (ucast (b ! 1)) OR push_bit 16 (ucast (b ! 2)) OR push_bit 24 (ucast (b ! 3))), s))"

definition pb_decode_fixed64 :: "pb_istream \<Rightarrow> u64 option \<times> pb_istream" where
  "pb_decode_fixed64 s =
     and_then (pb_read s 8) (\<lambda>b s.
       (Some (ucast (b ! 0) OR push_bit 8 (ucast (b ! 1)) OR push_bit 16 (ucast (b ! 2)) OR push_bit 24 (ucast (b ! 3))
         OR push_bit 32 (ucast (b ! 4)) OR push_bit 40 (ucast (b ! 5)) OR push_bit 48 (ucast (b ! 6)) OR push_bit 56 (ucast (b ! 7))), s))"

subsection \<open>Writing\<close>

record pb_ostream =
  sizing :: bool
  written :: bytes
  max_size :: size_t
  bytes_written :: size_t
  os_errmsg :: "string option"

definition PB_SET_OERROR :: "string \<Rightarrow> pb_ostream \<Rightarrow> pb_ostream" where
  "PB_SET_OERROR msg s = s\<lparr>os_errmsg := (case os_errmsg s of Some m \<Rightarrow> Some m | None \<Rightarrow> Some msg)\<rparr>"

definition buf_write :: "pb_ostream \<Rightarrow> bytes \<Rightarrow> pb_ostream" where
  "buf_write s buf = s\<lparr>written := written s @ buf\<rparr>"

definition pb_ostream_from_buffer :: "size_t \<Rightarrow> pb_ostream" where
  "pb_ostream_from_buffer bufsize =
     \<lparr>sizing = False, written = [], max_size = bufsize, bytes_written = 0, os_errmsg = None\<rparr>"

definition PB_OSTREAM_SIZING :: pb_ostream where
  "PB_OSTREAM_SIZING = \<lparr>sizing = True, written = [], max_size = 0, bytes_written = 0, os_errmsg = None\<rparr>"

text \<open>\<open>n\<close> bytes at \<open>buf\<close>; when sizing, \<open>buf\<close> is not read.\<close>

definition pb_write :: "pb_ostream \<Rightarrow> bytes \<Rightarrow> size_t \<Rightarrow> unit option \<times> pb_ostream" where
  "pb_write s buf n =
     (if n > 0 \<and> \<not> sizing s
      then if bytes_written s + n < bytes_written s \<or> bytes_written s + n > max_size s
           then (None, PB_SET_OERROR ''stream full'' s)
           else let s = buf_write s (take (unat n) buf) in (Some (), s\<lparr>bytes_written := bytes_written s + n\<rparr>)
      else (Some (), s\<lparr>bytes_written := bytes_written s + n\<rparr>))"

function encode_varint_loop :: "u64 \<Rightarrow> bytes \<Rightarrow> bytes" where
  "encode_varint_loop v buffer =
     (if v \<noteq> 0 then encode_varint_loop (drop_bit 7 v) (buffer @ [ucast (v AND 0x7f) OR 0x80]) else buffer)"
  by pat_completeness auto
termination
proof (relation "measure (\<lambda>(v, _). unat v)", goal_cases)
  case (2 v buffer)
  then have "0 < unat v" by (simp add: unat_gt_0)
  then show ?case by (simp add: unat_shr)
qed simp

declare encode_varint_loop.simps [simp del]

definition pb_encode_varint :: "pb_ostream \<Rightarrow> u64 \<Rightarrow> unit option \<times> pb_ostream" where
  "pb_encode_varint s v =
     (if v \<le> 0x7f then pb_write s [ucast v] 1
      else let buffer = encode_varint_loop v []; i = length buffer;
               buffer = buffer[i - 1 := buffer ! (i - 1) AND 0x7f]
           in pb_write s buffer (of_nat i))"

definition pb_encode_svarint :: "pb_ostream \<Rightarrow> u64 \<Rightarrow> unit option \<times> pb_ostream" where
  "pb_encode_svarint s v = pb_encode_varint s (if sint v < 0 then NOT (push_bit 1 v) else push_bit 1 v)"

definition pb_encode_fixed32 :: "pb_ostream \<Rightarrow> u32 \<Rightarrow> unit option \<times> pb_ostream" where
  "pb_encode_fixed32 s v = pb_write s (map (\<lambda>i. ucast (drop_bit (8 * i) v AND 0xff)) [0..<4]) 4"

definition pb_encode_fixed64 :: "pb_ostream \<Rightarrow> u64 \<Rightarrow> unit option \<times> pb_ostream" where
  "pb_encode_fixed64 s v = pb_write s (map (\<lambda>i. ucast (drop_bit (8 * i) v AND 0xff)) [0..<8]) 8"

definition pb_encode_tag :: "pb_ostream \<Rightarrow> u32 \<Rightarrow> u32 \<Rightarrow> unit option \<times> pb_ostream" where
  "pb_encode_tag s wiretype field_number =
     pb_encode_varint s (push_bit 3 (ucast field_number) OR ucast wiretype)"

definition pb_encode_string :: "pb_ostream \<Rightarrow> bytes \<Rightarrow> size_t \<Rightarrow> unit option \<times> pb_ostream" where
  "pb_encode_string s buffer sz = and_then (pb_encode_varint s sz) (\<lambda>_ s. pb_write s buffer sz)"

text \<open>
  \<open>pb_encode_submessage\<close>, \<open>enc\<close> being \<open>pb_encode\<close> applied to the submessage: once on a sizing stream and
  once on a substream limited to the size found.
\<close>

definition pb_encode_submessage :: "(pb_ostream \<Rightarrow> unit option \<times> pb_ostream) \<Rightarrow> pb_ostream \<Rightarrow> unit option \<times> pb_ostream" where
  "pb_encode_submessage enc s =
     (case enc PB_OSTREAM_SIZING of
        (None, sub) \<Rightarrow> (None, s\<lparr>os_errmsg := os_errmsg sub\<rparr>)
      | (Some _, sub) \<Rightarrow>
          let size = bytes_written sub
          in and_then (pb_encode_varint s size) (\<lambda>_ s.
               if sizing s then pb_write s [] size
               else if bytes_written s + size > max_size s then (None, PB_SET_OERROR ''stream full'' s)
               else
                 let (status, sub) =
                       enc \<lparr>sizing = False, written = written s, max_size = size, bytes_written = 0, os_errmsg = None\<rparr>;
                     s = s\<lparr>bytes_written := bytes_written s + bytes_written sub, written := written sub, os_errmsg := os_errmsg sub\<rparr>
                 in if bytes_written sub \<noteq> size then (None, PB_SET_OERROR ''submsg size changed'' s) else (status, s)))"

subsection \<open>Streams as byte lists\<close>

text \<open>
  \<open>is_view s bs\<close>: the unread part of the stream is \<open>bs\<close>, all of it inside the block. \<open>emits r s bs\<close>: \<open>r\<close>
  is the outcome of writing \<open>bs\<close> to \<open>s\<close>; it fails exactly when \<open>bs\<close> does not fit.
\<close>

definition is_view :: "pb_istream \<Rightarrow> bytes \<Rightarrow> bool" where
  "is_view s bs \<longleftrightarrow> unat (bytes_left s) = length bs \<and> take (length bs) (state s) = bs"

definition os_ok :: "pb_ostream \<Rightarrow> bool" where
  "os_ok s \<longleftrightarrow> (\<not> sizing s \<longrightarrow> unat (bytes_written s) \<le> unat (max_size s))"

definition fits :: "pb_ostream \<Rightarrow> bytes \<Rightarrow> bool" where
  "fits s bs \<longleftrightarrow> unat (bytes_written s) + length bs \<le> unat (max_size s)"

definition emitted :: "pb_ostream \<Rightarrow> bytes \<Rightarrow> pb_ostream" where
  "emitted s bs = s\<lparr>written := (if sizing s then written s else written s @ bs), bytes_written := bytes_written s + of_nat (length bs)\<rparr>"

definition emits :: "unit option \<times> pb_ostream \<Rightarrow> pb_ostream \<Rightarrow> bytes \<Rightarrow> bool" where
  "emits r s bs \<longleftrightarrow> (if sizing s \<or> fits s bs then r = (Some (), emitted s bs) else fst r = None)"

lemma is_view_from_buffer: "length bs < 2 ^ 64 \<Longrightarrow> is_view (pb_istream_from_buffer bs (of_nat (length bs))) bs"
  by (simp add: is_view_def pb_istream_from_buffer_def unat_of_nat)

lemma is_view_length: "is_view s bs \<Longrightarrow> length bs \<le> length (state s)" "is_view s bs \<Longrightarrow> length bs < 2 ^ 64"
  using unat_u64_less [of "bytes_left s"] by (auto simp: is_view_def simp del: unat_u64_less) (metis length_take min.absorb_iff2)

lemma is_view_drop:
  assumes "is_view s (xs @ ys)" and "unat n = length xs"
  shows "is_view (s\<lparr>state := drop (length xs) (state s), bytes_left := bytes_left s - n\<rparr>) ys" "take (length xs) (state s) = xs" "n \<le> bytes_left s"
proof -
  have l: "unat (bytes_left s) = length xs + length ys" and t: "take (length xs + length ys) (state s) = xs @ ys"
    using assms(1) by (simp_all add: is_view_def)
  show le: "n \<le> bytes_left s" using l assms(2) by (simp add: word_le_nat_alt)
  show "take (length xs) (state s) = xs" using arg_cong [OF t, of "take (length xs)"] by simp
  have "take (length ys) (drop (length xs) (state s)) = ys" using arg_cong [OF t, of "drop (length xs)"] by (simp add: drop_take)
  then show "is_view (s\<lparr>state := drop (length xs) (state s), bytes_left := bytes_left s - n\<rparr>) ys"
    using l le assms(2) by (simp add: is_view_def unat_sub)
qed

lemma pb_read_view:
  assumes "is_view s (xs @ ys)" and "unat n = length xs"
  shows "\<exists>s'. pb_read s n = (Some xs, s') \<and> is_view s' ys \<and> errmsg s' = errmsg s"
proof (cases "n = 0")
  case True
  then show ?thesis using assms by (simp add: pb_read_def)
next
  case False
  then show ?thesis
    using is_view_drop [OF assms] assms(2) by (auto simp: pb_read_def buf_read_def)
qed

lemma pb_read_short:
  assumes "is_view s bs" and "length bs < unat n"
  shows "fst (pb_read s n) = None"
  using assms by (auto simp: pb_read_def is_view_def word_less_nat_alt)

lemma pb_readbyte_view:
  assumes "is_view s (b # bs)"
  shows "\<exists>s'. pb_readbyte s = (Some b, s') \<and> is_view s' bs \<and> errmsg s' = errmsg s"
proof -
  have "bytes_left s \<noteq> 0" using assms by (auto simp: is_view_def)
  then show ?thesis
    using is_view_drop [of s "[b]" bs 1] assms by (auto simp: pb_readbyte_def buf_read_def)
qed

lemma pb_readbyte_end: "is_view s [] \<Longrightarrow> pb_readbyte s = (None, PB_SET_ERROR ''end-of-stream'' s)"
  by (auto simp: pb_readbyte_def is_view_def unat_eq_0)

lemma pb_write_emits:
  assumes "os_ok s" and "unat n = length bs"
  shows "emits (pb_write s bs n) s bs"
proof -
  have n: "n = of_nat (length bs)" by (metis assms(2) of_nat_unat ucast_id)
  show ?thesis
  proof (cases "sizing s \<or> n = 0")
    case True
    then show ?thesis using n assms by (auto simp: pb_write_def emits_def emitted_def fits_def os_ok_def)
  next
    case False
    have le: "unat (bytes_written s) \<le> unat (max_size s)" using assms(1) False by (simp add: os_ok_def)
    have "bytes_written s + n < bytes_written s \<or> bytes_written s + n > max_size s \<longleftrightarrow> \<not> fits s bs"
    proof (cases "unat (bytes_written s) + unat n < 2 ^ 64")
      case True
      then have "unat (bytes_written s + n) = unat (bytes_written s) + unat n" by (simp add: unat_word_ariths)
      then show ?thesis using assms(2) by (auto simp: fits_def word_less_nat_alt)
    next
      case False
      have "unat (bytes_written s + n) = unat (bytes_written s) + unat n - 2 ^ 64"
        using False unat_u64_less [of "bytes_written s"] unat_u64_less [of n]
        by (simp add: unat_word_ariths le_mod_geq del: unat_u64_less)
      then have "bytes_written s + n < bytes_written s"
        using unat_u64_less [of n] False by (simp add: word_less_nat_alt del: unat_u64_less)
      moreover have "\<not> fits s bs" using False assms(2) unat_u64_less [of "max_size s"] by (simp add: fits_def del: unat_u64_less)
      ultimately show ?thesis by simp
    qed
    moreover have "n > 0" using False by (simp add: word_neq_0_conv)
    ultimately show ?thesis
      using False n assms(2) by (auto simp: pb_write_def emits_def emitted_def buf_write_def Let_def)
  qed
qed

lemma emitted_ok: "os_ok s \<Longrightarrow> sizing s \<or> fits s bs \<Longrightarrow> os_ok (emitted s bs)"
  using unat_u64_less [of "max_size s"]
  by (auto simp: os_ok_def emitted_def fits_def unat_word_ariths unat_of_nat simp del: unat_u64_less)

text \<open>One write after another.\<close>

lemma emits_append:
  assumes "os_ok s" and "emits r s xs" and "\<And>s'. os_ok s' \<Longrightarrow> emits (f s') s' ys" and "length xs < 2 ^ 64"
  shows "emits (and_then r (\<lambda>_ s. f s)) s (xs @ ys)"
proof (cases "sizing s \<or> fits s xs")
  case True
  then have r: "r = (Some (), emitted s xs)" using assms(2) by (simp add: emits_def)
  have "unat (bytes_written (emitted s xs)) = unat (bytes_written s) + length xs" if "\<not> sizing s"
    using True that unat_u64_less [of "max_size s"] by (simp add: emitted_def fits_def unat_word_ariths unat_of_nat del: unat_u64_less)
  then have "sizing s \<or> fits (emitted s xs) ys \<longleftrightarrow> sizing s \<or> fits s (xs @ ys)"
    by (cases "sizing s") (auto simp: fits_def emitted_def add.assoc)
  moreover have "emitted (emitted s xs) ys = emitted s (xs @ ys)" by (simp add: emitted_def)
  moreover have "sizing (emitted s xs) = sizing s" by (simp add: emitted_def)
  ultimately show ?thesis
    using assms(3) [OF emitted_ok [OF assms(1) True]] r by (auto simp: emits_def)
next
  case False
  then have "fst r = None" "\<not> fits s (xs @ ys)" using assms(2) by (auto simp: emits_def fits_def)
  then show ?thesis using False by (cases r) (auto simp: emits_def)
qed

subsection \<open>Values on the wire\<close>

text \<open>
  The contract of a wire value: a writer and a reader that agree on its encoding. What a buffer
  stream received is then read back, whatever follows it.
\<close>

locale pb_value =
  fixes wr :: "pb_ostream \<Rightarrow> 'a \<Rightarrow> unit option \<times> pb_ostream"
    and rd :: "pb_istream \<Rightarrow> 'a option \<times> pb_istream"
    and enc :: "'a \<Rightarrow> bytes"
    and ok :: "'a \<Rightarrow> bool"
  assumes writes: "ok x \<Longrightarrow> os_ok s \<Longrightarrow> emits (wr s x) s (enc x)"
    and reads: "ok x \<Longrightarrow> is_view i (enc x @ rest) \<Longrightarrow> \<exists>i'. rd i = (Some x, i') \<and> is_view i' rest \<and> errmsg i' = errmsg i"
    and short: "ok x \<Longrightarrow> length (enc x) < 2 ^ 63"
begin

lemma roundtrip:
  assumes "ok x" and "wr (pb_ostream_from_buffer n) x = (Some (), s)"
  shows "\<exists>i. rd (pb_istream_from_buffer (written s @ rest) (bytes_written s)) = (Some x, i) \<and> bytes_left i = 0 \<and> errmsg i = None"
proof -
  let ?o = "pb_ostream_from_buffer n"
  have o: "os_ok ?o" "\<not> sizing ?o" by (simp_all add: os_ok_def pb_ostream_from_buffer_def)
  then have "s = emitted ?o (enc x)"
    using writes [OF assms(1) o(1)] assms(2) by (auto simp: emits_def split: if_splits)
  then have s: "written s = enc x" "bytes_written s = of_nat (length (enc x))"
    by (simp_all add: emitted_def pb_ostream_from_buffer_def)
  have "is_view (pb_istream_from_buffer (enc x @ rest) (of_nat (length (enc x)))) (enc x @ [])"
    using short [OF assms(1)] by (simp add: is_view_def pb_istream_from_buffer_def unat_of_nat)
  from reads [OF assms(1) this] show ?thesis
    unfolding s by (auto simp: is_view_def unat_eq_0 pb_istream_from_buffer_def)
qed

lemma writes_size:
  assumes "ok x"
  shows "wr PB_OSTREAM_SIZING x = (Some (), PB_OSTREAM_SIZING\<lparr>bytes_written := of_nat (length (enc x))\<rparr>)"
  using writes [OF assms, of PB_OSTREAM_SIZING] by (simp add: os_ok_def emits_def emitted_def PB_OSTREAM_SIZING_def)

end

text \<open>The varint encoding: seven bits per byte, least significant first, the top bit marks all but the last.\<close>

definition cont_byte :: "nat \<Rightarrow> u8" where
  "cont_byte n = of_nat (n mod 128 + 128)"

fun varint_enc :: "nat \<Rightarrow> bytes" where
  "varint_enc n = (if n < 128 then [of_nat n] else cont_byte n # varint_enc (n div 128))"

declare varint_enc.simps [simp del]

lemma varint_enc_small: "n < 128 \<Longrightarrow> varint_enc n = [of_nat n]"
  by (subst varint_enc.simps) simp

lemma varint_enc_big: "128 \<le> n \<Longrightarrow> varint_enc n = cont_byte n # varint_enc (n div 128)"
  by (subst varint_enc.simps) simp

lemma varint_enc_ne [simp]: "varint_enc n \<noteq> []"
  by (subst varint_enc.simps) simp

lemma varint_enc_length: "n < 128 ^ k \<Longrightarrow> 0 < k \<Longrightarrow> length (varint_enc n) \<le> k"
proof (induction k arbitrary: n)
  case (Suc k)
  show ?case
  proof (cases "n < 128")
    case False
    then have "n div 128 < 128 ^ k" using Suc.prems by (simp add: div_less_iff_less_mult mult.commute)
    moreover have "0 < k" using False Suc.prems by (cases k) auto
    ultimately show ?thesis using Suc.IH False by (simp add: varint_enc_big)
  qed (simp add: varint_enc_small)
qed simp

lemma varint_enc_length64: "length (varint_enc (unat (v :: u64))) \<le> 10"
  using varint_enc_length [of "unat v" 10] unat_u64_less [of v] by (simp del: unat_u64_less)

lemma unat_cont_byte [simp]: "unat (cont_byte n) = n mod 128 + 128"
proof -
  have "n mod 128 < 128" by simp
  then show ?thesis unfolding cont_byte_def by (intro unat_of_nat_small) simp
qed

lemma unat_small_byte: "n < 128 \<Longrightarrow> unat (of_nat n :: u8) = n"
  by (rule unat_of_nat_small) simp

lemma unat_low_bits: "unat ((v :: u64) AND 0x7f) = unat v mod 128"
  using unat_and_mask [of v 7] by (simp add: mask_eq_exp_minus_1)

lemma low_bits_or_80: "ucast (v AND 0x7f) OR (0x80 :: u8) = cont_byte (unat (v :: u64))"
proof -
  have u: "unat (ucast (v AND 0x7f) :: u8) = unat v mod 128" by (simp add: unat_ucast_mod unat_low_bits)
  have "ucast (v AND 0x7f) OR (0x80 :: u8) = push_bit 7 1 OR ucast (v AND 0x7f)" by (simp add: or.commute)
  also have "\<dots> = push_bit 7 1 + ucast (v AND 0x7f)" using u by (intro shl_or_eq_add) simp
  finally have "unat (ucast (v AND 0x7f) OR (0x80 :: u8)) = (128 + unat v mod 128) mod 256"
    using u unat_word_ariths(1) [of "128 :: u8" "ucast (v AND 0x7f)"] by simp
  moreover have "128 + unat v mod 128 < 256" using mod_less_divisor [of 128 "unat v"] by linarith
  ultimately have "unat (ucast (v AND 0x7f) OR (0x80 :: u8)) = unat v mod 128 + 128" by (simp only: mod_less add.commute)
  then show ?thesis by (simp only: word_unat_eq_iff unat_cont_byte)
qed

lemma encode_varint_loop_eq:
  "v \<noteq> 0 \<Longrightarrow> \<exists>b. encode_varint_loop v buf = buf @ butlast (varint_enc (unat v)) @ [b] \<and> b AND 0x7f = last (varint_enc (unat v))"
proof (induction v buf rule: encode_varint_loop.induct)
  case (1 v buf)
  have step: "encode_varint_loop v buf = encode_varint_loop (drop_bit 7 v) (buf @ [cont_byte (unat v)])"
    using 1(2) by (subst encode_varint_loop.simps) (simp add: low_bits_or_80)
  show ?case
  proof (cases "unat v < 128")
    case True
    then have "drop_bit 7 v = 0" using unat_shr [of 7 v] by (simp add: unat_eq_0)
    moreover have "cont_byte (unat v) AND 0x7f = of_nat (unat v)" using True by (simp only: word_unat_eq_iff u8_and_7f unat_cont_byte unat_small_byte) simp
    ultimately show ?thesis
      using True step by (simp add: varint_enc_small encode_varint_loop.simps [of 0])
  next
    case False
    have u: "unat (drop_bit 7 v) = unat v div 128" using unat_shr [of 7 v] by simp
    then have nz: "drop_bit 7 v \<noteq> 0" using False by (metis div_eq_0_iff unat_0 zero_neq_numeral)
    from "1.IH" [OF 1(2)] nz u False step show ?thesis
      by (auto simp: low_bits_or_80 varint_enc_big)
  qed
qed

lemma pb_encode_varint_emits:
  assumes "os_ok s"
  shows "emits (pb_encode_varint s v) s (varint_enc (unat v))"
proof (cases "v \<le> 0x7f")
  case True
  then have l: "unat v < 128" by (simp add: word_le_nat_alt)
  then have "varint_enc (unat v) = [ucast v]" by (simp add: varint_enc_small)
  then show ?thesis using pb_write_emits [OF assms, of 1 "[ucast v]"] True by (simp add: pb_encode_varint_def)
next
  case False
  then have nz: "v \<noteq> 0" by auto
  obtain b where b: "encode_varint_loop v [] = butlast (varint_enc (unat v)) @ [b]" "b AND 0x7f = last (varint_enc (unat v))"
    using encode_varint_loop_eq [OF nz, of "[]"] by auto
  let ?e = "butlast (varint_enc (unat v))"
  have e: "?e @ [last (varint_enc (unat v))] = varint_enc (unat v)" by simp
  have "(?e @ [b])[length (?e @ [b]) - 1 := (?e @ [b]) ! (length (?e @ [b]) - 1) AND 0x7f] = varint_enc (unat v)"
    by (simp add: list_update_append nth_append b(2) del: length_butlast)
  moreover have "length (?e @ [b]) = length (varint_enc (unat v))" using arg_cong [OF e, of length] by simp
  moreover have "unat (of_nat (length (varint_enc (unat v))) :: u64) = length (varint_enc (unat v))"
    using varint_enc_length64 [of v] by (simp add: unat_of_nat)
  ultimately show ?thesis
    using False pb_write_emits [OF assms, of "of_nat (length (varint_enc (unat v)))"] unfolding pb_encode_varint_def b(1) Let_def by simp
qed

lemma or_shifted:
  fixes r :: "'a::len word"
  assumes "unat r < 2 ^ b" and "unat r + n * 2 ^ b < 2 ^ LENGTH('a)" and "unat x = n"
  shows "unat (r OR push_bit b x) = unat r + n * 2 ^ b"
proof -
  have "r OR push_bit b x = push_bit b x + r" using shl_or_eq_add [OF assms(1)] by (simp add: or.commute)
  moreover have "unat (push_bit b x) = n * 2 ^ b" using assms(2,3) by (simp add: unat_shl)
  ultimately show ?thesis using assms(2) by (simp add: unat_word_ariths add.commute)
qed

lemma digit_less:
  assumes "r < (p :: nat)" and "m < 128"
  shows "r + m * p < p * 128"
proof -
  have "(m + 1) * p \<le> 128 * p" using assms(2) by (intro mult_le_mono1) linarith
  then show ?thesis using assms(1) unfolding distrib_right by linarith
qed

lemma varint_loop_view:
  "is_view s (varint_enc n @ rest) \<Longrightarrow> unat r < 2 ^ unat b \<Longrightarrow> unat r + n * 2 ^ unat b < 2 ^ 64 \<Longrightarrow> (n = 0 \<Longrightarrow> b = 0) \<Longrightarrow>
   \<exists>s'. varint_loop b r s = (Some (of_nat (unat r + n * 2 ^ unat b)), s') \<and> is_view s' rest \<and> errmsg s' = errmsg s"
proof (induction n arbitrary: b r s rule: varint_enc.induct)
  case (1 n)
  have b: "unat b < 64"
  proof (cases "n = 0")
    case False
    then have "2 ^ unat b \<le> n * 2 ^ unat b" by simp
    then have "(2::nat) ^ unat b < 2 ^ 64" using "1.prems"(3) by linarith
    then show ?thesis by (rule power_less_imp_less_exp [rotated]) simp
  qed (use "1.prems"(4) in simp)
  then have b64: "\<not> b \<ge> 64" by (simp add: word_le_nat_alt)
  have b7: "unat (b + 7) = unat b + 7" using b by (simp add: unat_word_ariths)
  show ?case
  proof (cases "n < 128")
    case True
    obtain s' where s: "pb_readbyte s = (Some (of_nat n), s')" "is_view s' rest" "errmsg s' = errmsg s"
      using pb_readbyte_view [of s "of_nat n" rest] "1.prems"(1) True by (auto simp: varint_enc_small)
    have "unat (ucast ((of_nat n :: u8) AND 0x7f) :: u64) = n" using True by (simp add: unat_small_byte)
    from or_shifted [OF "1.prems"(2) _ this]
    have "unat (r OR push_bit (unat b) (ucast ((of_nat n :: u8) AND 0x7f))) = unat r + n * 2 ^ unat b" using "1.prems"(3) by simp
    then have "r OR push_bit (unat b) (ucast ((of_nat n :: u8) AND 0x7f)) = of_nat (unat r + n * 2 ^ unat b)"
      using "1.prems"(3) by (metis of_nat_unat ucast_id)
    moreover have "(of_nat n :: u8) AND 0x80 = 0" using True by (simp add: unat_small_byte)
    ultimately show ?thesis using s b64 by (subst varint_loop.simps) (simp add: Let_def del: of_nat_add of_nat_mult u8_and_80)
  next
    case False
    obtain s' where s: "pb_readbyte s = (Some (cont_byte n), s')" "is_view s' (varint_enc (n div 128) @ rest)" "errmsg s' = errmsg s"
      using pb_readbyte_view [of s "cont_byte n" "varint_enc (n div 128) @ rest"] "1.prems"(1) False by (auto simp: varint_enc_big)
    let ?r = "r OR push_bit (unat b) (ucast (cont_byte n AND 0x7f)) :: u64"
    have "(n div 128 * 128 + n mod 128) * 2 ^ unat b = n * 2 ^ unat b" by simp
    then have tot: "unat r + n mod 128 * 2 ^ unat b + n div 128 * 2 ^ (unat b + 7) = unat r + n * 2 ^ unat b"
      unfolding power_add distrib_right by simp
    have x: "unat (ucast (cont_byte n AND 0x7f) :: u64) = n mod 128" by simp
    have r: "unat ?r = unat r + n mod 128 * 2 ^ unat b"
      using or_shifted [OF "1.prems"(2) _ x] "1.prems"(3) tot by simp
    have lt: "unat ?r < 2 ^ unat (b + 7)"
      using r digit_less [OF "1.prems"(2), of "n mod 128"] unfolding b7 by (simp add: power_add)
    have nd: "n div 128 \<noteq> 0" using False by (simp add: div_eq_0_iff)
    have bd: "unat ?r + n div 128 * 2 ^ unat (b + 7) < 2 ^ 64" using "1.prems"(3) tot r unfolding b7 by linarith
    have c80: "cont_byte n AND 0x80 \<noteq> 0" by simp
    have "\<exists>s''. varint_loop (b + 7) ?r s' = (Some (of_nat (unat ?r + n div 128 * 2 ^ unat (b + 7))), s'') \<and> is_view s'' rest \<and> errmsg s'' = errmsg s'"
      by (rule "1.IH" [OF False s(2) lt bd]) (use nd in blast)
    then show ?thesis
      using s(1,3) b64 c80 tot unfolding r b7
      by (subst varint_loop.simps) (simp add: Let_def del: of_nat_add of_nat_mult u8_and_80)
  qed
qed

interpretation vi: pb_value pb_encode_varint pb_decode_varint "\<lambda>v. varint_enc (unat v)" "\<lambda>_. True"
proof unfold_locales
  show "emits (pb_encode_varint s x) s (varint_enc (unat x))" if "os_ok s" for s x by (rule pb_encode_varint_emits [OF that])
  show "\<exists>i'. pb_decode_varint i = (Some x, i') \<and> is_view i' rest \<and> errmsg i' = errmsg i"
    if "is_view i (varint_enc (unat x) @ rest)" for i x rest
    using varint_loop_view [OF that, of 0 0] by (simp add: pb_decode_varint_def)
  show "length (varint_enc (unat x)) < 2 ^ 63" for x :: u64 using varint_enc_length64 [of x] by simp
qed

text \<open>Zig-zag and fixed-width numbers.\<close>

definition zigzag :: "u64 \<Rightarrow> u64" where
  "zigzag v = (if sint v < 0 then NOT (push_bit 1 v) else push_bit 1 v)"

lemma bit_ge_len: "64 \<le> k \<Longrightarrow> \<not> bit (v :: u64) k"
  using bit_imp_le_length [of v k] by auto

lemma unzigzag: "(if zigzag v AND 1 \<noteq> 0 then NOT (drop_bit 1 (zigzag v)) else drop_bit 1 (zigzag v)) = v"
proof -
  have s: "sint v < 0 \<longleftrightarrow> bit v 63" using bit_last_iff [of v] by simp
  have one: "w AND 1 \<noteq> 0 \<longleftrightarrow> bit w 0" for w :: u64 by (simp add: and_one_eq bit_0 even_iff_mod_2_eq_zero odd_iff_mod_2_eq_one)
  show ?thesis
  proof (cases "bit v 63")
    case True
    have "NOT (drop_bit 1 (NOT (push_bit 1 v))) = v"
    proof (rule bit_eqI)
      fix n assume "possible_bit TYPE(u64) n"
      then have "n < 64" by simp
      then show "bit (NOT (drop_bit 1 (NOT (push_bit 1 v)))) n = bit v n"
        using True by (cases "n = 63") (simp_all only: bit_not_iff bit_drop_bit_eq bit_push_bit_iff comp_def, auto)
    qed
    moreover have "bit (NOT (push_bit 1 v)) 0" by (simp only: bit_not_iff bit_push_bit_iff) simp
    ultimately show ?thesis using True s by (simp add: zigzag_def one)
  next
    case False
    have "drop_bit 1 (push_bit 1 v) = v"
    proof (rule bit_eqI)
      fix n assume "possible_bit TYPE(u64) n"
      then have "n < 64" by simp
      then show "bit (drop_bit 1 (push_bit 1 v)) n = bit v n"
        using False by (cases "n = 63") (simp_all only: bit_drop_bit_eq bit_push_bit_iff comp_def, auto)
    qed
    moreover have "\<not> bit (push_bit 1 v) 0" by (simp only: bit_push_bit_iff) simp
    ultimately show ?thesis using False s by (simp add: zigzag_def one)
  qed
qed

interpretation sv: pb_value pb_encode_svarint pb_decode_svarint "\<lambda>v. varint_enc (unat (zigzag v))" "\<lambda>_. True"
proof unfold_locales
  show "emits (pb_encode_svarint s x) s (varint_enc (unat (zigzag x)))" if "os_ok s" for s x
    using vi.writes [OF TrueI that, of "zigzag x"] by (simp add: pb_encode_svarint_def zigzag_def)
  show "\<exists>i'. pb_decode_svarint i = (Some x, i') \<and> is_view i' rest \<and> errmsg i' = errmsg i"
    if "is_view i (varint_enc (unat (zigzag x)) @ rest)" for i x rest
    using vi.reads [OF TrueI that] unzigzag [of x] by (auto simp: pb_decode_svarint_def)
  show "length (varint_enc (unat (zigzag x))) < 2 ^ 63" for x by (rule vi.short) simp
qed

definition le_bytes :: "nat \<Rightarrow> 'a::len word \<Rightarrow> bytes" where
  "le_bytes k v = map (\<lambda>i. ucast (drop_bit (8 * i) v AND 0xff)) [0..<k]"

lemma length_le_bytes [simp]: "length (le_bytes k v) = k"
  by (simp add: le_bytes_def)

lemma bit_ff: "bit (0xff :: 'a::len word) n \<longleftrightarrow> n < 8 \<and> n < LENGTH('a)"
proof -
  have "(0xff :: 'a word) = mask 8" by (simp add: mask_eq_exp_minus_1)
  then show ?thesis by (simp only: bit_mask_iff possible_bit_word) blast
qed

lemma bit_le_byte: "i < k \<Longrightarrow> bit (le_bytes k (v :: 'a::len word) ! i) n \<longleftrightarrow> n < 8 \<and> bit v (8 * i + n)"
  using bit_imp_le_length [of v "8 * i + n"]
  by (simp add: le_bytes_def del: unsigned_and_eq) (simp only: bit_unsigned_iff bit_and_iff bit_drop_bit_eq bit_ff comp_def, auto)

lemma bit_le_part:
  assumes "i < k" and "n < LENGTH('b)"
  shows "bit (push_bit (8 * i) (ucast (le_bytes k (v :: 'a::len word) ! i)) :: 'b::len word) n \<longleftrightarrow> n div 8 = i \<and> bit v n"
proof (cases "8 * i \<le> n")
  case True
  have "n - 8 * i < 8 \<longleftrightarrow> n div 8 = i" using True by auto
  then show ?thesis using True assms by (simp add: bit_push_bit_iff bit_unsigned_iff bit_le_byte less_imp_diff_less)
qed (auto simp: bit_push_bit_iff)

lemma le_join32:
  "(ucast (le_bytes 4 v ! 0) OR push_bit 8 (ucast (le_bytes 4 v ! 1)) OR push_bit 16 (ucast (le_bytes 4 v ! 2))
    OR push_bit 24 (ucast (le_bytes 4 v ! 3))) = (v :: u32)" (is "?l = v")
proof (rule bit_eqI)
  fix n assume "possible_bit TYPE(u32) n"
  then have n: "n < 32" by simp
  then have "n div 8 = 0 \<or> n div 8 = 1 \<or> n div 8 = 2 \<or> n div 8 = 3" by linarith
  moreover have "bit ?l n \<longleftrightarrow> n div 8 = 0 \<and> bit v n \<or> n div 8 = 1 \<and> bit v n \<or> n div 8 = 2 \<and> bit v n \<or> n div 8 = 3 \<and> bit v n"
    using bit_le_part [of 0 4 n v, where 'b = 32] bit_le_part [of 1 4 n v, where 'b = 32]
      bit_le_part [of 2 4 n v, where 'b = 32] bit_le_part [of 3 4 n v, where 'b = 32] n by (simp add: bit_or_iff)
  ultimately show "bit ?l n = bit v n" by blast
qed

lemma le_join64:
  "(ucast (le_bytes 8 v ! 0) OR push_bit 8 (ucast (le_bytes 8 v ! 1)) OR push_bit 16 (ucast (le_bytes 8 v ! 2))
    OR push_bit 24 (ucast (le_bytes 8 v ! 3)) OR push_bit 32 (ucast (le_bytes 8 v ! 4)) OR push_bit 40 (ucast (le_bytes 8 v ! 5))
    OR push_bit 48 (ucast (le_bytes 8 v ! 6)) OR push_bit 56 (ucast (le_bytes 8 v ! 7))) = (v :: u64)"
  (is "?l = v")
proof (rule bit_eqI)
  fix n assume "possible_bit TYPE(u64) n"
  then have n: "n < 64" by simp
  then have "n div 8 = 0 \<or> n div 8 = 1 \<or> n div 8 = 2 \<or> n div 8 = 3 \<or> n div 8 = 4 \<or> n div 8 = 5 \<or> n div 8 = 6 \<or> n div 8 = 7"
    by linarith
  moreover have "bit ?l n \<longleftrightarrow> n div 8 = 0 \<and> bit v n \<or> n div 8 = 1 \<and> bit v n \<or> n div 8 = 2 \<and> bit v n \<or> n div 8 = 3 \<and> bit v n
     \<or> n div 8 = 4 \<and> bit v n \<or> n div 8 = 5 \<and> bit v n \<or> n div 8 = 6 \<and> bit v n \<or> n div 8 = 7 \<and> bit v n"
    using bit_le_part [of 0 8 n v, where 'b = 64] bit_le_part [of 1 8 n v, where 'b = 64]
      bit_le_part [of 2 8 n v, where 'b = 64] bit_le_part [of 3 8 n v, where 'b = 64]
      bit_le_part [of 4 8 n v, where 'b = 64] bit_le_part [of 5 8 n v, where 'b = 64]
      bit_le_part [of 6 8 n v, where 'b = 64] bit_le_part [of 7 8 n v, where 'b = 64] n by (simp add: bit_or_iff)
  ultimately show "bit ?l n = bit v n" by blast
qed

interpretation f32: pb_value pb_encode_fixed32 pb_decode_fixed32 "le_bytes 4" "\<lambda>_. True"
proof unfold_locales
  show "emits (pb_encode_fixed32 s x) s (le_bytes 4 x)" if "os_ok s" for s x
    using pb_write_emits [OF that, of 4 "le_bytes 4 x"] by (simp add: pb_encode_fixed32_def le_bytes_def)
  show "\<exists>i'. pb_decode_fixed32 i = (Some x, i') \<and> is_view i' rest \<and> errmsg i' = errmsg i"
    if "is_view i (le_bytes 4 x @ rest)" for i x rest
    using pb_read_view [OF that, of 4] le_join32 [of x] by (auto simp: pb_decode_fixed32_def)
qed simp

interpretation f64: pb_value pb_encode_fixed64 pb_decode_fixed64 "le_bytes 8" "\<lambda>_. True"
proof unfold_locales
  show "emits (pb_encode_fixed64 s x) s (le_bytes 8 x)" if "os_ok s" for s x
    using pb_write_emits [OF that, of 8 "le_bytes 8 x"] by (simp add: pb_encode_fixed64_def le_bytes_def)
  show "\<exists>i'. pb_decode_fixed64 i = (Some x, i') \<and> is_view i' rest \<and> errmsg i' = errmsg i"
    if "is_view i (le_bytes 8 x @ rest)" for i x rest
    using pb_read_view [OF that, of 8] le_join64 [of x] by (auto simp: pb_decode_fixed64_def)
qed simp

text \<open>A varint below \<open>2 ^ 32\<close> is read by the 32 bit decoder too.\<close>

lemma and_70: "unat (b :: u8) < 16 \<Longrightarrow> b AND 0x70 = 0"
proof -
  assume "unat b < 16"
  moreover have "unat b < 16 \<longrightarrow> b AND 0x70 = 0" by (rule u8_all) code_simp
  ultimately show ?thesis by blast
qed

lemma varint32_loop_view:
  "is_view s (varint_enc n @ rest) \<Longrightarrow> unat r < 2 ^ unat b \<Longrightarrow> unat r + n * 2 ^ unat b < 2 ^ 32 \<Longrightarrow> 0 < n \<Longrightarrow>
   \<exists>s' bp lb. varint32_loop b r s = (Some (of_nat (unat r + n * 2 ^ unat b), bp, lb), s') \<and> is_view s' rest \<and> errmsg s' = errmsg s
     \<and> \<not> (bp = 35 \<and> lb AND 0x70 \<noteq> 0)"
proof (induction n arbitrary: b r s rule: varint_enc.induct)
  case (1 n)
  have le: "2 ^ unat b \<le> n * 2 ^ unat b" using "1.prems"(4) by simp
  then have "(2::nat) ^ unat b < 2 ^ 32" using "1.prems"(3) by linarith
  then have b: "unat b < 32" by (rule power_less_imp_less_exp [rotated]) simp
  then have b32: "\<not> b \<ge> 32" by (simp add: word_le_nat_alt)
  have b7: "unat (b + 7) = unat b + 7" using b by (simp add: unat_word_ariths)
  show ?case
  proof (cases "n < 128")
    case True
    obtain s' where s: "pb_readbyte s = (Some (of_nat n), s')" "is_view s' rest" "errmsg s' = errmsg s"
      using pb_readbyte_view [of s "of_nat n" rest] "1.prems"(1) True by (auto simp: varint_enc_small)
    have "unat (ucast ((of_nat n :: u8) AND 0x7f) :: u32) = n" using True by (simp add: unat_small_byte)
    from or_shifted [OF "1.prems"(2) _ this]
    have "unat (r OR push_bit (unat b) (ucast ((of_nat n :: u8) AND 0x7f))) = unat r + n * 2 ^ unat b" using "1.prems"(3) by simp
    then have r: "r OR push_bit (unat b) (ucast ((of_nat n :: u8) AND 0x7f)) = of_nat (unat r + n * 2 ^ unat b)"
      by (metis of_nat_unat ucast_id)
    have n80: "(of_nat n :: u8) AND 0x80 = 0" using True by (simp add: unat_small_byte)
    have "n < 16" if "b + 7 = 35"
    proof -
      have "unat b = 28" using b7 that by simp
      then show ?thesis using "1.prems"(3) by simp
    qed
    then have "\<not> (b + 7 = 35 \<and> (of_nat n :: u8) AND 0x70 \<noteq> 0)" using and_70 [of "of_nat n"] by (auto simp: unat_small_byte)
    then show ?thesis
      using s b32 n80 by (subst varint32_loop.simps) (simp add: Let_def r del: of_nat_add of_nat_mult u8_and_80)
  next
    case False
    obtain s' where s: "pb_readbyte s = (Some (cont_byte n), s')" "is_view s' (varint_enc (n div 128) @ rest)" "errmsg s' = errmsg s"
      using pb_readbyte_view [of s "cont_byte n" "varint_enc (n div 128) @ rest"] "1.prems"(1) False by (auto simp: varint_enc_big)
    let ?r = "r OR push_bit (unat b) (ucast (cont_byte n AND 0x7f)) :: u32"
    have "(n div 128 * 128 + n mod 128) * 2 ^ unat b = n * 2 ^ unat b" by simp
    then have tot: "unat r + n mod 128 * 2 ^ unat b + n div 128 * 2 ^ (unat b + 7) = unat r + n * 2 ^ unat b"
      unfolding power_add distrib_right by simp
    have x: "unat (ucast (cont_byte n AND 0x7f) :: u32) = n mod 128" by simp
    have r: "unat ?r = unat r + n mod 128 * 2 ^ unat b"
      using or_shifted [OF "1.prems"(2) _ x] "1.prems"(3) tot by simp
    have lt: "unat ?r < 2 ^ unat (b + 7)"
      using r digit_less [OF "1.prems"(2), of "n mod 128"] unfolding b7 by (simp add: power_add)
    have nd: "0 < n div 128" using False by (simp add: div_greater_zero_iff)
    have bd: "unat ?r + n div 128 * 2 ^ unat (b + 7) < 2 ^ 32" using "1.prems"(3) tot r unfolding b7 by linarith
    have c80: "cont_byte n AND 0x80 \<noteq> 0" by simp
    show ?thesis
      using "1.IH" [OF False s(2) lt bd nd] s(1,3) b32 c80 tot unfolding r b7
      by (subst varint32_loop.simps) (simp add: Let_def del: of_nat_add of_nat_mult u8_and_80)
  qed
qed

lemma pb_decode_varint32_eof_view:
  assumes "is_view s (varint_enc (unat (v :: u32)) @ rest)"
  shows "\<exists>s'. pb_decode_varint32_eof e s = ((Some v, s'), e) \<and> is_view s' rest \<and> errmsg s' = errmsg s"
proof (cases "unat v < 128")
  case True
  obtain s' where s: "pb_readbyte s = (Some (of_nat (unat v)), s')" "is_view s' rest" "errmsg s' = errmsg s"
    using pb_readbyte_view [of s "of_nat (unat v)" rest] assms True by (auto simp: varint_enc_small)
  have u: "unat (of_nat (unat v) :: u8) = unat v" using True by (rule unat_small_byte)
  have "ucast (of_nat (unat v) :: u8) = v" by (simp only: word_unat_eq_iff unat_ucast_widen u)
  then show ?thesis using s u True by (simp add: pb_decode_varint32_eof_def)
next
  case False
  let ?n = "unat v"
  obtain s' where s: "pb_readbyte s = (Some (cont_byte ?n), s')" "is_view s' (varint_enc (?n div 128) @ rest)" "errmsg s' = errmsg s"
    using pb_readbyte_view [of s "cont_byte ?n" "varint_enc (?n div 128) @ rest"] assms False by (auto simp: varint_enc_big)
  let ?r = "ucast (cont_byte ?n AND 0x7f) :: u32"
  have r: "unat ?r = ?n mod 128" by simp
  have tot: "unat ?r + ?n div 128 * 2 ^ unat (7 :: u8) = ?n" unfolding r by simp
  have "unat ?r < 2 ^ unat (7 :: u8)" unfolding r by simp
  moreover have "unat ?r + ?n div 128 * 2 ^ unat (7 :: u8) < 2 ^ 32" unfolding tot using unat_u32_less by simp
  moreover have "0 < ?n div 128" using False by (simp add: div_greater_zero_iff)
  ultimately obtain s'' bp lb where l: "varint32_loop 7 ?r s' = (Some (of_nat ?n, bp, lb), s'')" "is_view s'' rest"
      "errmsg s'' = errmsg s'" "\<not> (bp = 35 \<and> lb AND 0x70 \<noteq> 0)"
    using varint32_loop_view [OF s(2), of ?r 7] unfolding tot by blast
  have c80: "cont_byte ?n AND 0x80 \<noteq> 0" by simp
  have "of_nat ?n = v" by (metis of_nat_unat ucast_id)
  then show ?thesis using s l c80 by (auto simp: pb_decode_varint32_eof_def simp del: u8_and_80)
qed

lemma pb_decode_varint32_view:
  assumes "is_view s (varint_enc (unat (v :: u32)) @ rest)"
  shows "\<exists>s'. pb_decode_varint32 s = (Some v, s') \<and> is_view s' rest \<and> errmsg s' = errmsg s"
  using pb_decode_varint32_eof_view [OF assms, of False] by (auto simp: pb_decode_varint32_def)

subsection \<open>Tags\<close>

definition tag_ok :: "u32 \<times> u32 \<Rightarrow> bool" where
  "tag_ok t = (case t of (wt, n) \<Rightarrow> unat wt < 8 \<and> unat n < 2 ^ 29 \<and> t \<noteq> (0, 0))"

definition tag_value :: "u32 \<times> u32 \<Rightarrow> nat" where
  "tag_value t = (case t of (wt, n) \<Rightarrow> 8 * unat n + unat wt)"

lemma tag_value_less: "tag_ok t \<Longrightarrow> tag_value t < 2 ^ 32"
  by (auto simp: tag_ok_def tag_value_def split: prod.splits)

lemma pb_encode_tag_emits:
  assumes "tag_ok (wt, n)" and "os_ok s"
  shows "emits (pb_encode_tag s wt n) s (varint_enc (tag_value (wt, n)))"
proof -
  have "unat (push_bit 3 (ucast n) OR ucast wt :: u64) = unat (ucast n :: u64) * 2 ^ 3 mod 2 ^ 64 + unat (ucast wt :: u64)"
    using assms(1) unat_shl_or [of "ucast wt :: u64" 3 "ucast n"] by (simp add: tag_ok_def)
  moreover have "unat n * 8 < 2 ^ 64" using unat_u32_less [of n] by (simp del: unat_u32_less)
  ultimately have "unat (push_bit 3 (ucast n) OR ucast wt :: u64) = tag_value (wt, n)" by (simp add: tag_value_def)
  then show ?thesis using pb_encode_varint_emits [OF assms(2), of "push_bit 3 (ucast n) OR ucast wt"] by (simp only: pb_encode_tag_def)
qed

lemma pb_decode_tag_view:
  assumes "tag_ok t" and "is_view s (varint_enc (tag_value t) @ rest)"
  shows "\<exists>s'. pb_decode_tag s = ((Some t, s'), False) \<and> is_view s' rest \<and> errmsg s' = errmsg s"
proof -
  obtain wt n where t: "t = (wt, n)" by (cases t)
  define v :: u32 where "v = of_nat (tag_value t)"
  have v: "unat v = tag_value t" unfolding v_def using tag_value_less [OF assms(1)] by (simp add: unat_of_nat)
  obtain s' where s: "pb_decode_varint32_eof False s = ((Some v, s'), False)" "is_view s' rest" "errmsg s' = errmsg s"
    using pb_decode_varint32_eof_view [of s v rest False] assms(2) v by auto
  have lt: "unat wt < 8" using assms(1) t by (simp add: tag_ok_def)
  have "v \<noteq> 0" using assms(1) v t by (auto simp: tag_ok_def tag_value_def unat_eq_0)
  moreover have "v AND 7 = wt"
    using unat_and_mask [of v 3] lt v t by (simp add: word_unat_eq_iff mask_eq_exp_minus_1 tag_value_def)
  moreover have "drop_bit 3 v = n" using lt v t by (simp add: word_unat_eq_iff unat_shr tag_value_def)
  ultimately show ?thesis using s t by (simp add: pb_decode_tag_def)
qed

lemma pb_decode_tag_end: "is_view s [] \<Longrightarrow> \<exists>s'. pb_decode_tag s = ((None, s'), True)"
  by (auto simp: pb_decode_tag_def pb_decode_varint32_eof_def pb_readbyte_end PB_SET_ERROR_def is_view_def unat_eq_0)

subsection \<open>Strings\<close>

text \<open>\<open>sub_view\<close>: a substream over \<open>bs\<close>, with the parent's remaining bytes \<open>rest\<close> behind it.\<close>

definition sub_view :: "pb_istream \<Rightarrow> bytes \<Rightarrow> bytes \<Rightarrow> bool" where
  "sub_view s bs rest \<longleftrightarrow> unat (bytes_left s) = length bs \<and> take (length bs + length rest) (state s) = bs @ rest"

lemma sub_view_is_view: "sub_view s bs rest \<Longrightarrow> is_view s bs"
proof -
  assume s: "sub_view s bs rest"
  then have "take (length bs) (take (length bs + length rest) (state s)) = bs" by (simp add: sub_view_def)
  then show ?thesis using s by (simp add: sub_view_def is_view_def min_def)
qed

lemma pb_read_sub_view:
  assumes "sub_view s (xs @ ys) rest" and "unat n = length xs"
  shows "\<exists>s'. pb_read s n = (Some xs, s') \<and> sub_view s' ys rest \<and> errmsg s' = errmsg s"
proof (cases "n = 0")
  case True
  then show ?thesis using assms by (simp add: pb_read_def)
next
  case False
  note v = is_view_drop [OF sub_view_is_view [OF assms(1)] assms(2)]
  have "take (length xs + (length ys + length rest)) (state s) = xs @ ys @ rest" using assms(1) by (simp add: sub_view_def add.assoc)
  from arg_cong [OF this, of "drop (length xs)"] have "take (length ys + length rest) (drop (length xs) (state s)) = ys @ rest"
    by (simp add: drop_take)
  then show ?thesis
    using False v assms(2) by (auto simp: pb_read_def buf_read_def sub_view_def is_view_def)
qed

lemma pb_make_string_substream_view:
  assumes "is_view s (varint_enc (length bs) @ bs @ rest)" and "length bs < 2 ^ 32"
  shows "\<exists>sub s'. pb_make_string_substream s = (Some sub, s') \<and> sub_view sub bs rest \<and> errmsg sub = errmsg s
           \<and> unat (bytes_left s') = length rest \<and> errmsg s' = errmsg s"
proof -
  have u: "unat (of_nat (length bs) :: u32) = length bs" using assms(2) by (simp add: unat_of_nat)
  obtain s' where s: "pb_decode_varint32 s = (Some (of_nat (length bs)), s')" "is_view s' (bs @ rest)" "errmsg s' = errmsg s"
    using pb_decode_varint32_view [of s "of_nat (length bs)" "bs @ rest"] assms(1) u by auto
  have c: "unat (ucast (of_nat (length bs) :: u32) :: size_t) = length bs" using u by (simp only: unat_ucast_widen)
  then have le: "ucast (of_nat (length bs) :: u32) \<le> bytes_left s'" using s(2) by (simp only: is_view_def word_le_nat_alt) simp
  then have "unat (bytes_left s' - ucast (of_nat (length bs) :: u32)) = length rest" using s(2) c by (simp only: unat_sub is_view_def) simp
  then show ?thesis using s c le unfolding pb_make_string_substream_def
    by (simp add: sub_view_def is_view_def not_less [symmetric] del: unat_ucast_widen)
qed

lemma pb_close_string_substream_view:
  assumes "sub_view sub bs rest" and "unat (bytes_left s) = length rest"
  shows "\<exists>s'. pb_close_string_substream s sub = (Some (), s') \<and> is_view s' rest \<and> errmsg s' = errmsg sub"
proof -
  have n: "unat (bytes_left sub) = length bs" using assms(1) by (simp add: sub_view_def)
  obtain sub' where r: "pb_read sub (bytes_left sub) = (Some bs, sub')" "sub_view sub' [] rest" "errmsg sub' = errmsg sub"
    using pb_read_sub_view [of sub bs "[]" rest "bytes_left sub"] assms(1) n by auto
  have "bs = [] \<and> sub' = sub" if "bytes_left sub = 0" using r that by (simp add: pb_read_def)
  then show ?thesis
    using r assms(2) by (cases "bytes_left sub = 0") (auto simp: pb_close_string_substream_def sub_view_def is_view_def)
qed

text \<open>How a callback reads a length-prefixed field: open the substream, read it, close it.\<close>

definition read_string :: "pb_istream \<Rightarrow> bytes option \<times> pb_istream" where
  "read_string s =
     and_then (pb_make_string_substream s) (\<lambda>sub s.
       case pb_read sub (bytes_left sub) of
         (None, sub) \<Rightarrow> (None, s)
       | (Some bs, sub) \<Rightarrow> and_then (pb_close_string_substream s sub) (\<lambda>_ s. (Some bs, s)))"

interpretation st: pb_value "\<lambda>s bs. pb_encode_string s bs (of_nat (length bs))" read_string
  "\<lambda>bs. varint_enc (length bs) @ bs" "\<lambda>bs. length bs < 2 ^ 32"
proof unfold_locales
  fix bs :: bytes assume l: "length bs < 2 ^ 32"
  then have u: "unat (of_nat (length bs) :: size_t) = length bs" by (simp add: unat_of_nat)
  then have e: "length (varint_enc (length bs)) \<le> 10" using varint_enc_length64 [of "of_nat (length bs)"] by simp
  show "length (varint_enc (length bs) @ bs) < 2 ^ 63" using l e by simp
  show "emits (pb_encode_string s bs (of_nat (length bs))) s (varint_enc (length bs) @ bs)" if s: "os_ok s" for s
    unfolding pb_encode_string_def
  proof (rule emits_append [OF s])
    show "emits (pb_encode_varint s (of_nat (length bs))) s (varint_enc (length bs))"
      using pb_encode_varint_emits [OF s, of "of_nat (length bs)"] unfolding u .
    show "emits (pb_write s' bs (of_nat (length bs))) s' bs" if "os_ok s'" for s' by (rule pb_write_emits [OF that u])
    show "length (varint_enc (length bs)) < 2 ^ 64" using e by simp
  qed
  show "\<exists>i'. read_string i = (Some bs, i') \<and> is_view i' rest \<and> errmsg i' = errmsg i"
    if i: "is_view i ((varint_enc (length bs) @ bs) @ rest)" for i rest
  proof -
    have i: "is_view i (varint_enc (length bs) @ bs @ rest)" using i by simp
    obtain sub s' where m: "pb_make_string_substream i = (Some sub, s')" "sub_view sub bs rest" "errmsg sub = errmsg i"
        "unat (bytes_left s') = length rest" "errmsg s' = errmsg i"
      using pb_make_string_substream_view [OF i l] by blast
    have n: "unat (bytes_left sub) = length bs" using m(2) by (simp add: sub_view_def)
    obtain sub' where r: "pb_read sub (bytes_left sub) = (Some bs, sub')" "sub_view sub' [] rest" "errmsg sub' = errmsg sub"
      using pb_read_sub_view [of sub bs "[]" rest "bytes_left sub"] m(2) n by auto
    show ?thesis using pb_close_string_substream_view [OF r(2) m(4)] m r by (auto simp: read_string_def)
  qed
qed

subsection \<open>Skipping\<close>

lemma pb_skip_varint_view:
  "is_view s (varint_enc n @ rest) \<Longrightarrow> \<exists>s'. pb_skip_varint s = (Some (), s') \<and> is_view s' rest \<and> errmsg s' = errmsg s"
proof (induction n arbitrary: s rule: varint_enc.induct)
  case (1 n)
  show ?case
  proof (cases "n < 128")
    case True
    then have "is_view s ([of_nat n] @ rest)" using "1.prems" by (simp add: varint_enc_small)
    from pb_read_view [OF this, of 1] True show ?thesis
      by (subst pb_skip_varint.simps) (auto simp: unat_small_byte)
  next
    case False
    then have "is_view s ([cont_byte n] @ varint_enc (n div 128) @ rest)" using "1.prems" by (simp add: varint_enc_big)
    from pb_read_view [OF this, of 1] obtain s' where "pb_read s 1 = (Some [cont_byte n], s')"
        "is_view s' (varint_enc (n div 128) @ rest)" "errmsg s' = errmsg s" by auto
    with "1.IH" [OF False, of s'] show ?thesis
      by (subst pb_skip_varint.simps) auto
  qed
qed

text \<open>The four kinds of value a field may have on the wire.\<close>

datatype wire = Varint u64 | Fixed64 u64 | String bytes | Fixed32 u32

fun wire_type :: "wire \<Rightarrow> u32" where
  "wire_type (Varint v) = PB_WT_VARINT"
| "wire_type (Fixed64 v) = PB_WT_64BIT"
| "wire_type (String bs) = PB_WT_STRING"
| "wire_type (Fixed32 v) = PB_WT_32BIT"

fun wire_ok :: "wire \<Rightarrow> bool" where
  "wire_ok (String bs) \<longleftrightarrow> length bs < 2 ^ 32"
| "wire_ok _ \<longleftrightarrow> True"

fun encode_wire :: "pb_ostream \<Rightarrow> wire \<Rightarrow> unit option \<times> pb_ostream" where
  "encode_wire s (Varint v) = pb_encode_varint s v"
| "encode_wire s (Fixed64 v) = pb_encode_fixed64 s v"
| "encode_wire s (String bs) = pb_encode_string s bs (of_nat (length bs))"
| "encode_wire s (Fixed32 v) = pb_encode_fixed32 s v"

text \<open>A field as a caller of the encoder writes it: its tag, then its value.\<close>

definition put_tagged :: "pb_ostream \<Rightarrow> u32 \<Rightarrow> wire \<Rightarrow> unit option \<times> pb_ostream" where
  "put_tagged s n w = and_then (pb_encode_tag s (wire_type w) n) (\<lambda>_ s. encode_wire s w)"

fun wire_enc :: "wire \<Rightarrow> bytes" where
  "wire_enc (Varint v) = varint_enc (unat v)"
| "wire_enc (Fixed64 v) = le_bytes 8 v"
| "wire_enc (String bs) = varint_enc (length bs) @ bs"
| "wire_enc (Fixed32 v) = le_bytes 4 v"

lemma encode_wire_emits: "wire_ok w \<Longrightarrow> os_ok s \<Longrightarrow> emits (encode_wire s w) s (wire_enc w)"
  by (cases w) (auto intro: vi.writes st.writes f64.writes f32.writes)

lemma varint_enc_length32: "n < 2 ^ 32 \<Longrightarrow> length (varint_enc n) \<le> 5"
  using varint_enc_length [of n 5] by simp

lemma put_tagged_emits:
  assumes "wire_ok w" and "tag_ok (wire_type w, n)" and "os_ok s"
  shows "emits (put_tagged s n w) s (varint_enc (tag_value (wire_type w, n)) @ wire_enc w)"
  unfolding put_tagged_def
  using varint_enc_length32 [OF tag_value_less [OF assms(2)]]
  by (intro emits_append assms pb_encode_tag_emits encode_wire_emits) simp_all

lemma pb_skip_field_view:
  assumes "wire_ok w" and "is_view s (wire_enc w @ rest)"
  shows "\<exists>s'. pb_skip_field s (wire_type w) = (Some (), s') \<and> is_view s' rest \<and> errmsg s' = errmsg s"
proof (cases w)
  case (Varint v)
  then show ?thesis using pb_skip_varint_view assms(2) by (simp add: pb_skip_field_def)
next
  case (Fixed64 v)
  then show ?thesis using pb_read_view [of s "le_bytes 8 v" rest 8] assms(2) by (auto simp: pb_skip_field_def wire_types)
next
  case (Fixed32 v)
  then show ?thesis using pb_read_view [of s "le_bytes 4 v" rest 4] assms(2) by (auto simp: pb_skip_field_def wire_types)
next
  case (String bs)
  then have u: "unat (of_nat (length bs) :: u32) = length bs" using assms(1) by (simp add: unat_of_nat)
  then obtain s' where s: "pb_decode_varint32 s = (Some (of_nat (length bs)), s')" "is_view s' (bs @ rest)" "errmsg s' = errmsg s"
    using pb_decode_varint32_view [of s "of_nat (length bs)" "bs @ rest"] assms(2) String by auto
  have "unat (ucast (of_nat (length bs) :: u32) :: size_t) = length bs" using u by (simp only: unat_ucast_widen)
  from pb_read_view [OF s(2) this] s String show ?thesis by (auto simp: pb_skip_field_def pb_skip_string_def wire_types)
qed

subsection \<open>Submessages\<close>

text \<open>
  A message encoder that writes the same bytes on every stream gets them written with their length
  in front.
\<close>

lemma pb_encode_submessage_emits:
  assumes enc: "\<And>s. os_ok s \<Longrightarrow> emits (enc s) s m" and m: "length m < 2 ^ 63"
    and s: "os_ok s" "unat (max_size s) < 2 ^ 63" "os_errmsg s = None"
  shows "emits (pb_encode_submessage enc s) s (varint_enc (length m) @ m)"
proof -
  let ?n = "of_nat (length m) :: size_t"
  have u: "unat ?n = length m" using m by (simp add: unat_of_nat)
  have sz: "enc PB_OSTREAM_SIZING = (Some (), PB_OSTREAM_SIZING\<lparr>bytes_written := ?n\<rparr>)"
    using enc [of PB_OSTREAM_SIZING] by (simp add: os_ok_def emits_def emitted_def PB_OSTREAM_SIZING_def)
  define body where "body s =
     (if sizing s then pb_write s [] ?n
      else if bytes_written s + ?n > max_size s then (None, PB_SET_OERROR ''stream full'' s)
      else let (status, sub) = enc \<lparr>sizing = False, written = written s, max_size = ?n, bytes_written = 0, os_errmsg = None\<rparr>;
               s = s\<lparr>bytes_written := bytes_written s + bytes_written sub, written := written sub, os_errmsg := os_errmsg sub\<rparr>
           in if bytes_written sub \<noteq> ?n then (None, PB_SET_OERROR ''submsg size changed'' s) else (status, s))" for s
  have body: "emits (body t) t m" if t: "os_ok t" "unat (max_size t) < 2 ^ 63" "os_errmsg t = None" for t
  proof (cases "sizing t")
    case True
    then show ?thesis by (auto simp: body_def pb_write_def emits_def emitted_def)
  next
    case False
    then have "unat (bytes_written t) < 2 ^ 63" using t by (simp add: os_ok_def)
    then have b: "unat (bytes_written t + ?n) = unat (bytes_written t) + length m" using m u by (simp add: unat_word_ariths)
    define sub where "sub = \<lparr>sizing = False, written = written t, max_size = ?n, bytes_written = 0, os_errmsg = None\<rparr>"
    have "os_ok sub" "fits sub m" "\<not> sizing sub" using u by (simp_all add: sub_def os_ok_def fits_def)
    then have "enc sub = (Some (), emitted sub m)" using enc [of sub] by (simp add: emits_def)
    then show ?thesis
      using False b t(3) unfolding body_def sub_def [symmetric]
      by (auto simp: emits_def fits_def emitted_def word_less_nat_alt sub_def)
  qed
  have bw: "bytes_written (PB_OSTREAM_SIZING\<lparr>bytes_written := ?n\<rparr>) = ?n" by simp
  have ve: "length (varint_enc (length m)) \<le> 10" using varint_enc_length64 [of ?n] unfolding u .
  have "pb_encode_submessage enc s = and_then (pb_encode_varint s ?n) (\<lambda>_ s. body s)"
    unfolding pb_encode_submessage_def sz body_def bw prod.case option.case by (simp only: Let_def bw)
  moreover have "pb_encode_varint s ?n = (None, s') \<Longrightarrow> \<not> sizing s \<and> \<not> fits s (varint_enc (length m))" for s'
    using vi.writes [OF TrueI s(1), of ?n] unfolding u by (auto simp: emits_def split: if_splits)
  moreover have v: "emits (pb_encode_varint s ?n) s (varint_enc (length m))" using vi.writes [OF TrueI s(1), of ?n] unfolding u .
  moreover have "emits (and_then (pb_encode_varint s ?n) (\<lambda>_ s. body s)) s (varint_enc (length m) @ m)"
  proof -
    let ?f = "\<lambda>t. if unat (max_size t) < 2 ^ 63 \<and> os_errmsg t = None then body t else pb_write t m ?n"
    have f: "emits (?f t) t m" if "os_ok t" for t using body [OF that] pb_write_emits [OF that u] by auto
    have "and_then (pb_encode_varint s ?n) (\<lambda>_ s. body s) = and_then (pb_encode_varint s ?n) (\<lambda>_ s. ?f s)"
    proof (cases "sizing s \<or> fits s (varint_enc (length m))")
      case True
      then show ?thesis using v s by (simp add: emits_def emitted_def)
    next
      case False
      then show ?thesis using v by (cases "pb_encode_varint s ?n") (auto simp: emits_def)
    qed
    then show ?thesis using emits_append [OF s(1) v f] ve by simp
  qed
  ultimately show ?thesis by simp
qed

subsection \<open>The invariant of an output stream\<close>

text \<open>
  A buffer stream has stored exactly \<open>bytes_written\<close> bytes, and no more than the buffer holds. Every
  writer keeps this, also when it fails half-way.
\<close>

definition os_inv :: "pb_ostream \<Rightarrow> bool" where
  "os_inv s \<longleftrightarrow> (\<not> sizing s \<longrightarrow> length (written s) = unat (bytes_written s) \<and> unat (bytes_written s) \<le> unat (max_size s))"

lemma os_inv_ok: "os_inv s \<Longrightarrow> os_ok s"
  by (simp add: os_inv_def os_ok_def)

lemma os_inv_emitted: "os_inv s \<Longrightarrow> sizing s \<or> fits s bs \<Longrightarrow> os_inv (emitted s bs)"
  using unat_u64_less [of "max_size s"]
  by (auto simp: os_inv_def emitted_def fits_def unat_word_ariths unat_of_nat simp del: unat_u64_less)

lemma pb_write_inv:
  assumes "os_inv s" and "unat n = length bs"
  shows "os_inv (snd (pb_write s bs n))"
proof (cases "sizing s \<or> fits s bs")
  case True
  then show ?thesis using pb_write_emits [OF os_inv_ok [OF assms(1)] assms(2)] os_inv_emitted [OF assms(1)] by (simp add: emits_def)
next
  case False
  then have "fst (pb_write s bs n) = None" using pb_write_emits [OF os_inv_ok [OF assms(1)] assms(2)] by (simp add: emits_def)
  then have "snd (pb_write s bs n) = PB_SET_OERROR ''stream full'' s" by (auto simp: pb_write_def Let_def split: if_splits)
  then show ?thesis using assms(1) by (simp add: os_inv_def PB_SET_OERROR_def)
qed

lemma and_then_inv:
  "P (snd r) \<Longrightarrow> (\<And>x s. P s \<Longrightarrow> P (snd (f x s))) \<Longrightarrow> P (snd (and_then r f))"
  by (cases r rule: prod.exhaust; cases "fst r") auto

lemma encode_varint_loop_length: "length (encode_varint_loop v buf) \<le> length buf + 10"
proof (cases "v = 0")
  case True
  then show ?thesis by (simp add: encode_varint_loop.simps)
next
  case False
  then obtain b where "encode_varint_loop v buf = buf @ butlast (varint_enc (unat v)) @ [b]" using encode_varint_loop_eq by blast
  then show ?thesis using varint_enc_length64 [of v] by simp
qed

lemma pb_encode_varint_inv: "os_inv s \<Longrightarrow> os_inv (snd (pb_encode_varint s v))"
proof -
  assume s: "os_inv s"
  have "unat (of_nat (length (encode_varint_loop v [])) :: size_t) = length (encode_varint_loop v [])"
    using encode_varint_loop_length [of v "[]"] by (intro unat_of_nat_small) simp
  then show ?thesis using s by (simp add: pb_encode_varint_def Let_def pb_write_inv)
qed

lemma pb_encode_fixed_le:
  "pb_encode_fixed32 s v = pb_write s (le_bytes 4 v) 4" "pb_encode_fixed64 s w = pb_write s (le_bytes 8 w) 8"
  unfolding pb_encode_fixed32_def pb_encode_fixed64_def le_bytes_def by (rule refl)+

lemma pb_encode_string_inv:
  assumes "os_inv s" and "unat n = length bs"
  shows "os_inv (snd (pb_encode_string s bs n))"
  unfolding pb_encode_string_def
proof (rule and_then_inv [where P = os_inv])
  show "os_inv (snd (pb_encode_varint s n))" by (rule pb_encode_varint_inv [OF assms(1)])
  show "os_inv (snd (pb_write s' bs n))" if "os_inv s'" for s' by (rule pb_write_inv [OF that assms(2)])
qed

lemma encode_wire_inv:
  assumes "os_inv s" and "wire_ok w"
  shows "os_inv (snd (encode_wire s w))"
proof (cases w)
  case (String bs)
  then have "length bs < 2 ^ 32" using assms(2) by (simp only: wire_ok.simps)
  then have "unat (of_nat (length bs) :: size_t) = length bs" by (intro unat_of_nat_small) simp
  then show ?thesis unfolding String encode_wire.simps by (rule pb_encode_string_inv [OF assms(1)])
next
  case (Fixed32 v)
  show ?thesis unfolding Fixed32 encode_wire.simps pb_encode_fixed_le by (rule pb_write_inv [OF assms(1)]) simp
next
  case (Fixed64 v)
  show ?thesis unfolding Fixed64 encode_wire.simps pb_encode_fixed_le by (rule pb_write_inv [OF assms(1)]) simp
next
  case (Varint v)
  show ?thesis unfolding Varint encode_wire.simps by (rule pb_encode_varint_inv [OF assms(1)])
qed

lemma put_tagged_inv:
  assumes "os_inv s" and "wire_ok w"
  shows "os_inv (snd (put_tagged s n w))"
  unfolding put_tagged_def
proof (rule and_then_inv [where P = os_inv])
  show "os_inv (snd (pb_encode_tag s (wire_type w) n))" unfolding pb_encode_tag_def by (rule pb_encode_varint_inv [OF assms(1)])
  show "os_inv (snd (encode_wire s' w))" if "os_inv s'" for s' by (rule encode_wire_inv [OF that assms(2)])
qed

subsection \<open>Properties\<close>

text \<open>
  \<open>roundtrips n wr rd x rest\<close>: writing \<open>x\<close> to a buffer of \<open>n\<close> bytes succeeds, and reading the bytes
  written, with anything behind them in memory, gives \<open>x\<close> and the end of the stream.
\<close>

definition roundtrips :: "size_t \<Rightarrow> (pb_ostream \<Rightarrow> 'a \<Rightarrow> unit option \<times> pb_ostream) \<Rightarrow> (pb_istream \<Rightarrow> 'a option \<times> pb_istream) \<Rightarrow> 'a \<Rightarrow> bytes \<Rightarrow> bool" where
  "roundtrips n wr rd x rest =
     (case wr (pb_ostream_from_buffer n) x of
        (None, _) \<Rightarrow> False
      | (Some _, s) \<Rightarrow>
          (case rd (pb_istream_from_buffer (written s @ rest) (bytes_written s)) of
             (None, _) \<Rightarrow> False
           | (Some y, i) \<Rightarrow> y = x \<and> bytes_left i = 0 \<and> errmsg i = None))"

context pb_value
begin

lemma room_roundtrips:
  assumes "ok x" and "length (enc x) \<le> unat n"
  shows "roundtrips n wr rd x rest"
proof -
  let ?o = "pb_ostream_from_buffer n"
  have o: "os_ok ?o" "\<not> sizing ?o" "fits ?o (enc x)" using assms(2) by (simp_all add: os_ok_def pb_ostream_from_buffer_def fits_def)
  then have w: "wr ?o x = (Some (), emitted ?o (enc x))" using writes [OF assms(1) o(1)] by (auto simp: emits_def)
  from roundtrip [OF assms(1) w, of rest] w show ?thesis by (auto simp: roundtrips_def)
qed

end

text \<open>
  C15. Numbers and strings written by the wire-level encoders are read back by the matching decoders,
  for every value: plain, zig-zag, 32 bit and 64 bit fixed numbers in a buffer of ten bytes or more,
  and strings below 4 GiB in a buffer with five bytes to spare for the length; the decoder stops
  exactly at the end of the encoding.
\<close>

theorem pb_wire_roundtrip:
  assumes "10 \<le> n" and "length bs < 2 ^ 32" and "length bs + 5 \<le> unat m"
  shows "roundtrips n pb_encode_varint pb_decode_varint v rest \<and> roundtrips n pb_encode_svarint pb_decode_svarint v rest
       \<and> roundtrips n pb_encode_fixed64 pb_decode_fixed64 v rest \<and> roundtrips n pb_encode_fixed32 pb_decode_fixed32 w rest
       \<and> roundtrips m (\<lambda>s bs. pb_encode_string s bs (of_nat (length bs))) read_string bs rest"
proof -
  have n: "10 \<le> unat n" using assms(1) by (simp add: word_le_nat_alt)
  have l: "length (varint_enc (unat v)) \<le> unat n" "length (varint_enc (unat (zigzag v))) \<le> unat n"
    using varint_enc_length64 [of v] varint_enc_length64 [of "zigzag v"] n by linarith+
  have k: "length (varint_enc (length bs) @ bs) \<le> unat m" using varint_enc_length32 [OF assms(2)] assms(3) by simp
  show ?thesis
    using vi.room_roundtrips [OF TrueI l(1)] sv.room_roundtrips [OF TrueI l(2)] f64.room_roundtrips [OF TrueI, of v n]
      f32.room_roundtrips [OF TrueI, of w n] st.room_roundtrips [OF assms(2) k] n by auto
qed

theorem pb_wire_roundtrip_witness:
  "10 \<le> (12 :: size_t) \<and> length [1, 2 :: u8] < 2 ^ 32 \<and> length [1, 2 :: u8] + 5 \<le> unat (9 :: size_t)
   \<and> roundtrips 12 pb_encode_svarint pb_decode_svarint (- 3) [7]"
  using pb_wire_roundtrip [of 12 "[1, 2]" 9 "- 3" "[7]" 5] by simp

lemma wire_enc_length: "wire_ok w \<Longrightarrow> length (wire_enc w) < 2 ^ 63"
  by (cases w) (use vi.short st.short in auto)

text \<open>
  A field (tag and value) written to a stream is skipped exactly: decoding the tag gives back the
  wire type and the field number, and \<open>pb_skip_field\<close> then leaves the stream at what follows the value,
  whichever of the four wire types it has.
\<close>

lemma pb_skip_field_exact:
  assumes "wire_ok w" and "tag_ok (wire_type w, n)" and "put_tagged (pb_ostream_from_buffer m) n w = (Some (), s)"
    and "length (written s @ rest) < 2 ^ 64"
  shows "\<exists>i j. pb_decode_tag (pb_istream_from_buffer (written s @ rest) (of_nat (length (written s @ rest)))) = ((Some (wire_type w, n), i), False)
           \<and> pb_skip_field i (wire_type w) = (Some (), j) \<and> is_view j rest"
proof -
  let ?o = "pb_ostream_from_buffer m"
  let ?e = "varint_enc (tag_value (wire_type w, n)) @ wire_enc w"
  let ?b = "written s @ rest"
  have o: "os_ok ?o" "\<not> sizing ?o" by (simp_all add: os_ok_def pb_ostream_from_buffer_def)
  then have "s = emitted ?o ?e" using put_tagged_emits [OF assms(1,2) o(1)] assms(3) by (auto simp: emits_def split: if_splits)
  then have s: "written s = ?e" by (simp add: emitted_def pb_ostream_from_buffer_def)
  have "is_view (pb_istream_from_buffer ?b (of_nat (length ?b))) ?b" by (rule is_view_from_buffer [OF assms(4)])
  then have v: "is_view (pb_istream_from_buffer ?b (of_nat (length ?b))) (varint_enc (tag_value (wire_type w, n)) @ wire_enc w @ rest)"
    unfolding s by simp
  obtain i where i: "pb_decode_tag (pb_istream_from_buffer ?b (of_nat (length ?b))) = ((Some (wire_type w, n), i), False)"
      "is_view i (wire_enc w @ rest)" using pb_decode_tag_view [OF assms(2) v] by blast
  obtain j where j: "pb_skip_field i (wire_type w) = (Some (), j)" "is_view j rest" using pb_skip_field_view [OF assms(1) i(2)] by blast
  show ?thesis using i j by blast
qed

text \<open>
  A submessage is written as its length and then its bytes, on a buffer and when only sizing, and
  the call fails exactly when these do not fit in what is left of the buffer. This holds for every
  message encoder that writes the same bytes on each of its two runs.
\<close>

lemma pb_encode_submessage_exact:
  assumes "\<And>s. os_ok s \<Longrightarrow> emits (enc s) s m" and "length m < 2 ^ 63"
    and "os_ok s" and "unat (max_size s) < 2 ^ 63" and "os_errmsg s = None"
  shows "emits (pb_encode_submessage enc s) s (varint_enc (length m) @ m)"
  by (rule pb_encode_submessage_emits [OF assms])

text \<open>
  C16. Writing a field to a buffer stream stores exactly the bytes it counts and never more than the
  buffer holds, whether the call succeeds or fails half-way; it succeeds exactly when the size that a
  dry run on a sizing stream reports fits in the space left, and then it stores that many bytes.
\<close>

theorem pb_field_write_bounded:
  assumes "os_inv s" and "\<not> sizing s" and "wire_ok w" and "tag_ok (wire_type w, n)"
    and "put_tagged s n w = (r, s')" and "put_tagged PB_OSTREAM_SIZING n w = (q, z)"
  shows "os_inv s' \<and> q = Some () \<and> (r = Some () \<longleftrightarrow> unat (bytes_written s) + unat (bytes_written z) \<le> unat (max_size s))
       \<and> (r = Some () \<longrightarrow> length (written s') = length (written s) + unat (bytes_written z) \<and> take (length (written s)) (written s') = written s)"
proof -
  let ?e = "varint_enc (tag_value (wire_type w, n)) @ wire_enc w"
  have z: "os_ok PB_OSTREAM_SIZING" "sizing PB_OSTREAM_SIZING" by (simp_all add: os_ok_def PB_OSTREAM_SIZING_def)
  have l: "length ?e < 2 ^ 64" using wire_enc_length [OF assms(3)] varint_enc_length32 [OF tag_value_less [OF assms(4)]] by simp
  have "q = Some ()" "z = emitted PB_OSTREAM_SIZING ?e"
    using put_tagged_emits [OF assms(3,4) z(1)] z assms(6) by (auto simp: emits_def)
  then have "bytes_written z = of_nat (length ?e)" by (simp only: emitted_def PB_OSTREAM_SIZING_def pb_ostream.simps add_0)
  then have b: "unat (bytes_written z) = length ?e" using unat_of_nat_small [of "length ?e", where 'a = 64] l by (simp del: of_nat_add length_append)
  have e: "emits (r, s') s ?e" using put_tagged_emits [OF assms(3,4) os_inv_ok [OF assms(1)]] assms(5) by simp
  have "os_inv s'" using put_tagged_inv [OF assms(1,3), of n] assms(5) by simp
  moreover have "r = Some () \<longleftrightarrow> fits s ?e" using e assms(2) by (auto simp: emits_def split: if_splits)
  moreover have "r = Some () \<Longrightarrow> written s' = written s @ ?e" using e assms(2) by (auto simp: emits_def emitted_def split: if_splits)
  ultimately show ?thesis using \<open>q = Some ()\<close> b by (auto simp: fits_def)
qed

theorem pb_field_write_bounded_witness:
  "\<exists>s r s' q z. os_inv s \<and> put_tagged s 5 (String [0x80, 2]) = (r, s') \<and> r = None \<and> put_tagged PB_OSTREAM_SIZING 5 (String [0x80, 2]) = (q, z)
     \<and> unat (bytes_written z) = 4 \<and> os_inv s'"
proof -
  define s where "s = pb_ostream_from_buffer 3"
  define s' where "s' = \<lparr>sizing = False, written = [42, 2], max_size = 3, bytes_written = 2, os_errmsg = Some ''stream full''\<rparr>"
  define z where "z = PB_OSTREAM_SIZING\<lparr>bytes_written := 4\<rparr>"
  have e: "put_tagged s 5 (String [0x80, 2]) = (None, s')" unfolding s_def s'_def by code_simp
  have q: "put_tagged PB_OSTREAM_SIZING 5 (String [0x80, 2]) = (Some (), z)" unfolding z_def by code_simp
  have t: "tag_ok (wire_type (String [0x80, 2]), 5)" by (simp add: tag_ok_def PB_WT_STRING_def)
  have i: "os_inv s" "\<not> sizing s" by (simp_all add: s_def os_inv_def pb_ostream_from_buffer_def)
  have "os_inv s'" using pb_field_write_bounded [OF i _ t e q] by simp
  then show ?thesis using e q i by (auto simp: z_def)
qed

text \<open>Padding bytes \<open>0x80\<close> add no bits: they only move the position, which in the 32 bit decoder wraps at 256.\<close>

lemma varint32_padding:
  assumes "is_view s (replicate k 0x80 @ b # rest)" and "b AND 0x80 = 0"
  shows "fst (varint32_loop p 0 s) =
    (let q = p + of_nat (7 * k) in
     if q \<ge> 32 \<and> b AND 0x7f \<noteq> 0 then None
     else Some (if q \<ge> 32 then 0 else push_bit (unat q) (ucast (b AND 0x7f)), q + 7, b))"
  using assms(1)
proof (induction k arbitrary: p s)
  case 0
  then obtain s' where s: "pb_readbyte s = (Some b, s')" using pb_readbyte_view by fastforce
  then show ?case using assms(2) by (subst varint32_loop.simps) (simp add: Let_def del: u8_and_80)
next
  case (Suc k)
  then obtain s' where s: "pb_readbyte s = (Some 0x80, s')" "is_view s' (replicate k 0x80 @ b # rest)"
    using pb_readbyte_view by fastforce
  then have "varint32_loop p 0 s = varint32_loop (p + 7) 0 s'" by (subst varint32_loop.simps) (simp add: Let_def)
  moreover have "p + 7 + of_nat (7 * k) = p + of_nat (7 * Suc k)" by simp
  ultimately show ?case using Suc.IH [OF s(2), of "p + 7"] by (simp only:)
qed

lemma varint_padding:
  assumes "is_view s (replicate k 0x80 @ b # rest)" and "b AND 0x80 = 0" and "unat p < 71"
  shows "fst (varint_loop p 0 s) =
    (if unat p + 7 * k < 64 then Some (push_bit (unat p + 7 * k) (ucast (b AND 0x7f))) else None)"
  using assms(1,3)
proof (induction k arbitrary: p s)
  case 0
  then obtain s' where s: "pb_readbyte s = (Some b, s')" using pb_readbyte_view by fastforce
  then show ?case using assms(2) by (subst varint_loop.simps) (simp add: Let_def word_le_nat_alt del: u8_and_80)
next
  case (Suc k)
  then obtain s' where s: "pb_readbyte s = (Some 0x80, s')" "is_view s' (replicate k 0x80 @ b # rest)"
    using pb_readbyte_view by fastforce
  show ?case
  proof (cases "64 \<le> p")
    case True
    then show ?thesis by (subst varint_loop.simps) (simp add: word_le_nat_alt)
  next
    case False
    then have p: "unat p < 64" by (simp add: word_le_nat_alt)
    then have q: "unat (p + 7) = unat p + 7" by (simp add: unat_word_ariths)
    have "varint_loop p 0 s = varint_loop (p + 7) 0 s'" using False s(1) by (subst varint_loop.simps) (simp add: Let_def)
    then show ?thesis using Suc.IH [OF s(2), of "p + 7"] p unfolding q by (simp add: add.assoc)
  qed
qed

lemma and_70_iff: "unat (b :: u8) < 128 \<Longrightarrow> b AND 0x70 = 0 \<longleftrightarrow> unat b < 16"
proof -
  have "unat b < 128 \<longrightarrow> (b AND 0x70 = 0 \<longleftrightarrow> unat b < 16)" by (rule u8_all) code_simp
  then show "unat b < 128 \<Longrightarrow> b AND 0x70 = 0 \<longleftrightarrow> unat b < 16" by blast
qed

text \<open>
  C17. The eight bit position counter of the 32 bit varint decoder wraps. On \<open>n\<close> padding bytes followed by a last byte
  \<open>b\<close>, which encode \<open>b * 2 ^ (7 * n)\<close>, the 64 bit decoder puts \<open>b\<close> at position \<open>7 * n\<close> and reports an overflow for
  every \<open>n \<ge> 10\<close>. The 32 bit decoder puts it at position \<open>7 * n mod 256\<close> and reports an overflow only where that
  position is past its 32 bits, or is 28 with more than four bits to place: so it accepts overlong encodings, from
  \<open>n = 37\<close> on, with a wrong value.
\<close>

theorem pb_decode_varint32_wraps:
  assumes "is_view s (replicate n 0x80 @ b # rest)" and "0 < b" and "b < 0x80"
  shows "fst (pb_decode_varint s) = (if n < 10 then Some (push_bit (7 * n) (ucast b)) else None)
    \<and> fst (pb_decode_varint32 s) =
      (if 7 * n mod 256 < 32 \<and> (7 * n mod 256 = 28 \<longrightarrow> unat b < 16) then Some (push_bit (7 * n mod 256) (ucast b)) else None)"
proof
  have "unat b < 128" "b \<noteq> 0" using assms(2,3) by (auto simp: word_less_nat_alt)
  moreover have "b AND 0x7f = b" using calculation(1) by (simp add: word_unat_eq_iff)
  ultimately have b: "b AND 0x80 = 0" "b AND 0x7f = b" "b \<noteq> 0" "unat b < 128" by simp_all
  have b70: "b AND 0x70 = 0 \<longleftrightarrow> unat b < 16" using and_70_iff b(4) by blast
  show "fst (pb_decode_varint s) = (if n < 10 then Some (push_bit (7 * n) (ucast b)) else None)"
    using varint_padding [OF assms(1) b(1), of 0] b(2) by (auto simp: pb_decode_varint_def)
  show "fst (pb_decode_varint32 s) =
      (if 7 * n mod 256 < 32 \<and> (7 * n mod 256 = 28 \<longrightarrow> unat b < 16) then Some (push_bit (7 * n mod 256) (ucast b)) else None)"
  proof (cases n)
    case 0
    then obtain s' where "pb_readbyte s = (Some b, s')" using pb_readbyte_view assms(1) by fastforce
    then show ?thesis using 0 b(1) by (simp add: pb_decode_varint32_def pb_decode_varint32_eof_def del: u8_and_80)
  next
    case (Suc m)
    then obtain s' where s: "pb_readbyte s = (Some 0x80, s')" "is_view s' (replicate m 0x80 @ b # rest)"
      using pb_readbyte_view assms(1) by fastforce
    define q where "q = (7 :: u8) + of_nat (7 * m)"
    have "q = of_nat (7 * n)" by (simp add: q_def Suc)
    then have q: "unat q = 7 * n mod 256" by (simp only: unat_of_nat) simp
    have "fst (varint32_loop 7 0 s') = (if q \<ge> 32 then None else Some (push_bit (unat q) (ucast b), q + 7, b))"
      using varint32_padding [OF s(2) b(1), of 7] unfolding q_def [symmetric] Let_def b(2) using b(3) by simp
    moreover have "q + 7 = 35 \<longleftrightarrow> q = 28" using add_right_cancel [of q 7 28] by simp
    then have "q + 7 = 35 \<longleftrightarrow> unat q = 28" by (simp add: word_unat_eq_iff)
    ultimately show ?thesis using s(1) b70 unfolding q [symmetric]
      by (auto simp: pb_decode_varint32_def pb_decode_varint32_eof_def and_then_def word_le_nat_alt split: option.splits prod.splits if_splits simp del: u8_and_80)
  qed
qed

theorem pb_decode_varint32_wraps_witness:
  "fst (pb_decode_varint (pb_istream_from_buffer (replicate 37 0x80 @ [1]) 38)) = None
   \<and> fst (pb_decode_varint32 (pb_istream_from_buffer (replicate 37 0x80 @ [1]) 38)) = Some 8"
proof -
  have "is_view (pb_istream_from_buffer (replicate 37 0x80 @ [1]) 38) (replicate 37 0x80 @ 1 # [])"
    by (simp add: is_view_def pb_istream_from_buffer_def)
  from pb_decode_varint32_wraps [OF this] show ?thesis by simp
qed

end
