(* ===== verification/Pb_Fields.thy ===== *)
theory Pb_Fields
  imports Pb_Stream
begin

section \<open>Protocol buffer fields (nanopb/pb_encode.c, nanopb/pb_decode.c)\<close>

text \<open>
  The encoders and decoders of single fields, static arrays, and the allocation of pointer fields.
  A struct member is the list of the bytes from its address to the end of the struct, integers in it
  are little-endian (all targets of the pods are). A decoder works on the stream and this memory and
  returns both, also when it fails. A null pointer is \<open>None\<close>.
\<close>

record pb_field =
  tag :: u32
  ftype :: u8
  data_size :: u32
  array_size :: u32

type_synonym encoder = "pb_ostream \<Rightarrow> pb_field \<Rightarrow> bytes option \<Rightarrow> unit option \<times> pb_ostream"
type_synonym decoder = "pb_field \<Rightarrow> pb_istream \<times> bytes \<Rightarrow> unit option \<times> (pb_istream \<times> bytes)"

definition PB_LTYPE_BOOL :: u8 where "PB_LTYPE_BOOL = 0x00"
definition PB_LTYPE_VARINT :: u8 where "PB_LTYPE_VARINT = 0x01"
definition PB_LTYPE_UVARINT :: u8 where "PB_LTYPE_UVARINT = 0x02"
definition PB_LTYPE_SVARINT :: u8 where "PB_LTYPE_SVARINT = 0x03"
definition PB_LTYPE_FIXED32 :: u8 where "PB_LTYPE_FIXED32 = 0x04"
definition PB_LTYPE_FIXED64 :: u8 where "PB_LTYPE_FIXED64 = 0x05"
definition PB_LTYPE_LAST_PACKABLE :: u8 where "PB_LTYPE_LAST_PACKABLE = 0x05"
definition PB_LTYPE_BYTES :: u8 where "PB_LTYPE_BYTES = 0x06"
definition PB_LTYPE_STRING :: u8 where "PB_LTYPE_STRING = 0x07"
definition PB_LTYPE_SUBMESSAGE :: u8 where "PB_LTYPE_SUBMESSAGE = 0x08"
definition PB_LTYPE_FIXED_LENGTH_BYTES :: u8 where "PB_LTYPE_FIXED_LENGTH_BYTES = 0x0A"
definition PB_HTYPE_REQUIRED :: u8 where "PB_HTYPE_REQUIRED = 0x00"
definition PB_HTYPE_OPTIONAL :: u8 where "PB_HTYPE_OPTIONAL = 0x10"
definition PB_HTYPE_REPEATED :: u8 where "PB_HTYPE_REPEATED = 0x20"
definition PB_HTYPE_ONEOF :: u8 where "PB_HTYPE_ONEOF = 0x30"
definition PB_ATYPE_STATIC :: u8 where "PB_ATYPE_STATIC = 0x00"
definition PB_ATYPE_POINTER :: u8 where "PB_ATYPE_POINTER = 0x80"

definition PB_ATYPE :: "u8 \<Rightarrow> u8" where "PB_ATYPE x = x AND 0xC0"
definition PB_HTYPE :: "u8 \<Rightarrow> u8" where "PB_HTYPE x = x AND 0x30"
definition PB_LTYPE :: "u8 \<Rightarrow> u8" where "PB_LTYPE x = x AND 0x0F"

lemmas field_types = PB_LTYPE_BOOL_def PB_LTYPE_VARINT_def PB_LTYPE_UVARINT_def PB_LTYPE_SVARINT_def PB_LTYPE_FIXED32_def
  PB_LTYPE_FIXED64_def PB_LTYPE_LAST_PACKABLE_def PB_LTYPE_BYTES_def PB_LTYPE_STRING_def PB_LTYPE_SUBMESSAGE_def
  PB_LTYPE_FIXED_LENGTH_BYTES_def PB_HTYPE_REQUIRED_def PB_HTYPE_OPTIONAL_def PB_HTYPE_REPEATED_def PB_HTYPE_ONEOF_def
  PB_ATYPE_STATIC_def PB_ATYPE_POINTER_def

text \<open>Loads and stores of integers: \<open>load k p\<close> reads \<open>k\<close> bytes at \<open>p\<close>, \<open>store k v p\<close> overwrites them.\<close>

definition le_val :: "bytes \<Rightarrow> nat" where
  "le_val bs = foldr (\<lambda>b v. unat b + 256 * v) bs 0"

definition load :: "nat \<Rightarrow> bytes \<Rightarrow> 'a::len word" where
  "load k p = of_nat (le_val (take k p))"

definition store :: "nat \<Rightarrow> 'a::len word \<Rightarrow> bytes \<Rightarrow> bytes" where
  "store k v p = le_bytes k v @ drop k p"

subsection \<open>Field encoders\<close>

definition safe_read_bool :: "bytes \<Rightarrow> bool" where
  "safe_read_bool p \<longleftrightarrow> p ! 0 \<noteq> 0"

definition pb_encode_tag_for_field :: "pb_ostream \<Rightarrow> pb_field \<Rightarrow> unit option \<times> pb_ostream" where
  "pb_encode_tag_for_field s f =
     (let lt = PB_LTYPE (ftype f)
      in if lt \<in> {PB_LTYPE_BOOL, PB_LTYPE_VARINT, PB_LTYPE_UVARINT, PB_LTYPE_SVARINT} then pb_encode_tag s PB_WT_VARINT (tag f)
         else if lt = PB_LTYPE_FIXED32 then pb_encode_tag s PB_WT_32BIT (tag f)
         else if lt = PB_LTYPE_FIXED64 then pb_encode_tag s PB_WT_64BIT (tag f)
         else if lt \<in> {PB_LTYPE_BYTES, PB_LTYPE_STRING, PB_LTYPE_SUBMESSAGE, PB_LTYPE_FIXED_LENGTH_BYTES}
         then pb_encode_tag s PB_WT_STRING (tag f)
         else (None, PB_SET_OERROR ''invalid field type'' s))"

definition pb_enc_bool :: encoder where
  "pb_enc_bool s f src = pb_encode_varint s (if safe_read_bool (the src) then 1 else 0)"

definition pb_enc_varint :: encoder where
  "pb_enc_varint s f src =
     (if data_size f = 1 then pb_encode_varint s (scast (load 1 (the src) :: 8 word))
      else if data_size f = 2 then pb_encode_varint s (scast (load 2 (the src) :: 16 word))
      else if data_size f = 4 then pb_encode_varint s (scast (load 4 (the src) :: 32 word))
      else if data_size f = 8 then pb_encode_varint s (load 8 (the src))
      else (None, PB_SET_OERROR ''invalid data_size'' s))"

definition pb_enc_uvarint :: encoder where
  "pb_enc_uvarint s f src =
     (if data_size f = 1 then pb_encode_varint s (ucast (load 1 (the src) :: 8 word))
      else if data_size f = 2 then pb_encode_varint s (ucast (load 2 (the src) :: 16 word))
      else if data_size f = 4 then pb_encode_varint s (ucast (load 4 (the src) :: 32 word))
      else if data_size f = 8 then pb_encode_varint s (load 8 (the src))
      else (None, PB_SET_OERROR ''invalid data_size'' s))"

definition pb_enc_svarint :: encoder where
  "pb_enc_svarint s f src =
     (if data_size f = 1 then pb_encode_svarint s (scast (load 1 (the src) :: 8 word))
      else if data_size f = 2 then pb_encode_svarint s (scast (load 2 (the src) :: 16 word))
      else if data_size f = 4 then pb_encode_svarint s (scast (load 4 (the src) :: 32 word))
      else if data_size f = 8 then pb_encode_svarint s (load 8 (the src))
      else (None, PB_SET_OERROR ''invalid data_size'' s))"

definition pb_enc_fixed64 :: encoder where
  "pb_enc_fixed64 s f src = pb_encode_fixed64 s (load 8 (the src))"

definition pb_enc_fixed32 :: encoder where
  "pb_enc_fixed32 s f src = pb_encode_fixed32 s (load 4 (the src))"

text \<open>A \<open>pb_bytes_array_t\<close> is its four byte \<open>size\<close> followed by the bytes.\<close>

definition pb_enc_bytes :: encoder where
  "pb_enc_bytes s f src =
     (case src of
        None \<Rightarrow> pb_encode_string s [] 0
      | Some p \<Rightarrow>
          let size = load 4 p :: u32
          in if PB_ATYPE (ftype f) = PB_ATYPE_STATIC \<and> (ucast size :: size_t) > ucast (data_size f) - 4
             then (None, PB_SET_OERROR ''bytes size exceeded'' s)
             else pb_encode_string s (drop 4 p) (ucast size))"

text \<open>
  The block at \<open>p\<close> holds a terminator or \<open>max_size\<close> bytes, so the loop ends inside it.
\<close>

fun enc_strlen :: "size_t \<Rightarrow> bytes \<Rightarrow> size_t \<Rightarrow> size_t" where
  "enc_strlen n [] limit = n"
| "enc_strlen n (c # p) limit = (if n < limit \<and> c \<noteq> 0 then enc_strlen (n + 1) p limit else n)"

definition pb_enc_string :: encoder where
  "pb_enc_string s f src =
     (let max_size = (if PB_ATYPE (ftype f) = PB_ATYPE_POINTER then - 1 else ucast (data_size f));
          size = (case src of None \<Rightarrow> 0 | Some p \<Rightarrow> enc_strlen 0 p max_size)
      in pb_encode_string s (case src of None \<Rightarrow> [] | Some p \<Rightarrow> p) size)"

definition pb_enc_fixed_length_bytes :: encoder where
  "pb_enc_fixed_length_bytes s f src = pb_encode_string s (the src) (ucast (data_size f))"

text \<open>The table of the encoders; \<open>sub\<close> is \<open>pb_enc_submessage\<close>. The entry for extensions is a null pointer.\<close>

definition PB_ENCODERS :: "encoder \<Rightarrow> u8 \<Rightarrow> encoder option" where
  "PB_ENCODERS sub lt =
     (if lt = PB_LTYPE_BOOL then Some pb_enc_bool
      else if lt = PB_LTYPE_VARINT then Some pb_enc_varint
      else if lt = PB_LTYPE_UVARINT then Some pb_enc_uvarint
      else if lt = PB_LTYPE_SVARINT then Some pb_enc_svarint
      else if lt = PB_LTYPE_FIXED32 then Some pb_enc_fixed32
      else if lt = PB_LTYPE_FIXED64 then Some pb_enc_fixed64
      else if lt = PB_LTYPE_BYTES then Some pb_enc_bytes
      else if lt = PB_LTYPE_STRING then Some pb_enc_string
      else if lt = PB_LTYPE_SUBMESSAGE then Some sub
      else if lt = PB_LTYPE_FIXED_LENGTH_BYTES then Some pb_enc_fixed_length_bytes
      else None)"

text \<open>
  The loops over the items of an array, \<open>n\<close> of them left. \<open>deref p\<close> is the block whose address is stored
  at \<open>p\<close>.
\<close>

fun items_loop :: "(pb_ostream \<Rightarrow> bytes \<Rightarrow> unit option \<times> pb_ostream) \<Rightarrow> nat \<Rightarrow> nat \<Rightarrow> bytes \<Rightarrow> pb_ostream \<Rightarrow> unit option \<times> pb_ostream" where
  "items_loop enc sz 0 p s = (Some (), s)"
| "items_loop enc sz (Suc n) p s = and_then (enc s p) (\<lambda>_ s. items_loop enc sz n (drop sz p) s)"

definition encode_array :: "(bytes \<Rightarrow> bytes option) \<Rightarrow> pb_ostream \<Rightarrow> pb_field \<Rightarrow> bytes \<Rightarrow> size_t \<Rightarrow> encoder \<Rightarrow> unit option \<times> pb_ostream" where
  "encode_array deref s f pData n func =
     (let lt = PB_LTYPE (ftype f); sz = unat (data_size f) in
      if n = 0 then (Some (), s)
      else if PB_ATYPE (ftype f) \<noteq> PB_ATYPE_POINTER \<and> n > ucast (array_size f)
      then (None, PB_SET_OERROR ''array max size exceeded'' s)
      else if lt \<le> PB_LTYPE_LAST_PACKABLE
      then
        and_then (pb_encode_tag s PB_WT_STRING (tag f)) (\<lambda>_ s.
          let (ok, size) =
                (if lt = PB_LTYPE_FIXED32 then (True, 4 * n)
                 else if lt = PB_LTYPE_FIXED64 then (True, 8 * n)
                 else case items_loop (\<lambda>s p. func s f (Some p)) sz (unat n) pData PB_OSTREAM_SIZING of
                        (r, sizestream) \<Rightarrow> (r \<noteq> None, bytes_written sizestream))
          in if \<not> ok then (None, s)
             else and_then (pb_encode_varint s size) (\<lambda>_ s.
                    if sizing s then pb_write s [] size
                    else items_loop (\<lambda>s p. func s f (Some p)) sz (unat n) pData s))
      else
        items_loop (\<lambda>s p.
            and_then (pb_encode_tag_for_field s f) (\<lambda>_ s.
              if PB_ATYPE (ftype f) = PB_ATYPE_POINTER \<and> (lt = PB_LTYPE_STRING \<or> lt = PB_LTYPE_BYTES)
              then func s f (deref p) else func s f (Some p)))
          sz (unat n) pData s)"

subsection \<open>Field decoders\<close>

text \<open>Go on with the value read from the stream, or fail with the memory unchanged.\<close>

definition reading :: "'a option \<times> pb_istream \<Rightarrow> bytes \<Rightarrow> ('a \<Rightarrow> pb_istream \<Rightarrow> unit option \<times> (pb_istream \<times> bytes)) \<Rightarrow> unit option \<times> (pb_istream \<times> bytes)" where
  "reading r dest k = (case r of (None, s) \<Rightarrow> (None, (s, dest)) | (Some v, s) \<Rightarrow> k v s)"

definition pb_dec_bool :: decoder where
  "pb_dec_bool f = (\<lambda>(s, dest). reading (pb_decode_varint32 s) dest (\<lambda>v s. (Some (), (s, store 1 (if v \<noteq> 0 then 1 else 0 :: 8 word) dest))))"

text \<open>The end of the integer decoders: an error when the value stored is not the value read.\<close>

definition clamp :: "pb_istream \<Rightarrow> bytes \<Rightarrow> u64 \<Rightarrow> u64 \<Rightarrow> unit option \<times> (pb_istream \<times> bytes)" where
  "clamp s dest clamped v = (if clamped \<noteq> v then (None, (PB_SET_ERROR ''integer too large'' s, dest)) else (Some (), (s, dest)))"

definition pb_dec_varint :: decoder where
  "pb_dec_varint f = (\<lambda>(s, dest). reading (pb_decode_varint s) dest (\<lambda>v s.
     let svalue = (if data_size f = 8 then v else scast (ucast v :: 32 word)) :: u64
     in if data_size f = 8 then clamp s (store 8 svalue dest) svalue svalue
        else if data_size f = 4 then clamp s (store 4 (ucast svalue :: 32 word) dest) (scast (ucast svalue :: 32 word)) svalue
        else if data_size f = 2 then clamp s (store 2 (ucast svalue :: 16 word) dest) (scast (ucast svalue :: 16 word)) svalue
        else if data_size f = 1 then clamp s (store 1 (ucast svalue :: 8 word) dest) (scast (ucast svalue :: 8 word)) svalue
        else (None, (PB_SET_ERROR ''invalid data_size'' s, dest))))"

definition pb_dec_uvarint :: decoder where
  "pb_dec_uvarint f = (\<lambda>(s, dest). reading (pb_decode_varint s) dest (\<lambda>v s.
     if data_size f = 8 then clamp s (store 8 v dest) v v
     else if data_size f = 4 then clamp s (store 4 (ucast v :: 32 word) dest) (ucast (ucast v :: 32 word)) v
     else if data_size f = 2 then clamp s (store 2 (ucast v :: 16 word) dest) (ucast (ucast v :: 16 word)) v
     else if data_size f = 1 then clamp s (store 1 (ucast v :: 8 word) dest) (ucast (ucast v :: 8 word)) v
     else (None, (PB_SET_ERROR ''invalid data_size'' s, dest))))"

definition pb_dec_svarint :: decoder where
  "pb_dec_svarint f = (\<lambda>(s, dest). reading (pb_decode_svarint s) dest (\<lambda>v s.
     if data_size f = 8 then clamp s (store 8 v dest) v v
     else if data_size f = 4 then clamp s (store 4 (ucast v :: 32 word) dest) (scast (ucast v :: 32 word)) v
     else if data_size f = 2 then clamp s (store 2 (ucast v :: 16 word) dest) (scast (ucast v :: 16 word)) v
     else if data_size f = 1 then clamp s (store 1 (ucast v :: 8 word) dest) (scast (ucast v :: 8 word)) v
     else (None, (PB_SET_ERROR ''invalid data_size'' s, dest))))"

definition pb_dec_fixed32 :: decoder where
  "pb_dec_fixed32 f = (\<lambda>(s, dest). reading (pb_decode_fixed32 s) dest (\<lambda>v s. (Some (), (s, store 4 v dest))))"

definition pb_dec_fixed64 :: decoder where
  "pb_dec_fixed64 f = (\<lambda>(s, dest). reading (pb_decode_fixed64 s) dest (\<lambda>v s. (Some (), (s, store 8 v dest))))"

text \<open>\<open>pb_read\<close> into \<open>dest\<close>: the bytes read replace the first ones there.\<close>

definition read_into :: "pb_istream \<Rightarrow> size_t \<Rightarrow> bytes \<Rightarrow> unit option \<times> (pb_istream \<times> bytes)" where
  "read_into s n dest = reading (pb_read s n) dest (\<lambda>bs s. (Some (), (s, bs @ drop (length bs) dest)))"

definition PB_BYTES_ARRAY_T_ALLOCSIZE :: "u32 \<Rightarrow> size_t" where
  "PB_BYTES_ARRAY_T_ALLOCSIZE n = ucast n + 4"

text \<open>
  \<open>pb_dec_bytes\<close> and \<open>pb_dec_string\<close> for static fields; \<open>pb_dec_bytes_pointer\<close> and \<open>pb_dec_string_pointer\<close>
  are the same functions for fields of \<open>PB_ATYPE_POINTER\<close>, whose memory is an allocated block.
\<close>

definition bytes_body :: "pb_istream \<Rightarrow> u32 \<Rightarrow> bytes \<Rightarrow> unit option \<times> (pb_istream \<times> bytes)" where
  "bytes_body s n bdest =
     (case read_into s (ucast n) (drop 4 (store 4 n bdest)) of
        (r, (s, mem)) \<Rightarrow> (r, (s, take 4 (store 4 n bdest) @ mem)))"

definition pb_dec_bytes :: decoder where
  "pb_dec_bytes f = (\<lambda>(s, dest). reading (pb_decode_varint32 s) dest (\<lambda>size s.
     let alloc_size = PB_BYTES_ARRAY_T_ALLOCSIZE size
     in if ucast size > alloc_size then (None, (PB_SET_ERROR ''size too large'' s, dest))
        else if alloc_size > ucast (data_size f) then (None, (PB_SET_ERROR ''bytes overflow'' s, dest))
        else bytes_body s size dest))"

definition string_body :: "pb_istream \<Rightarrow> u32 \<Rightarrow> bytes \<Rightarrow> unit option \<times> (pb_istream \<times> bytes)" where
  "string_body s n dest =
     (case read_into s (ucast n) dest of (status, (s, dest)) \<Rightarrow> (status, (s, dest[unat n := 0])))"

definition pb_dec_string :: decoder where
  "pb_dec_string f = (\<lambda>(s, dest). reading (pb_decode_varint32 s) dest (\<lambda>size s.
     let alloc_size = ucast (size + 1) :: size_t
     in if alloc_size < ucast size then (None, (PB_SET_ERROR ''size too large'' s, dest))
        else if alloc_size > ucast (data_size f) then (None, (PB_SET_ERROR ''string overflow'' s, dest))
        else string_body s size dest))"

definition pb_dec_fixed_length_bytes :: decoder where
  "pb_dec_fixed_length_bytes f = (\<lambda>(s, dest). reading (pb_decode_varint32 s) dest (\<lambda>size s.
     if size = 0 then (Some (), (s, replicate (unat (data_size f)) 0 @ drop (unat (data_size f)) dest))
     else if size \<noteq> data_size f then (None, (PB_SET_ERROR ''incorrect fixed length bytes size'' s, dest))
     else read_into s (ucast (data_size f)) dest))"

text \<open>
  Pointer fields. \<open>realloc p n\<close> is the block \<open>pb_realloc\<close> returns for the block \<open>p\<close> (or null) and a new
  size, \<open>None\<close> when there is no memory.
\<close>

definition allocate_field :: "(bytes option \<Rightarrow> size_t \<Rightarrow> bytes option) \<Rightarrow> pb_istream \<Rightarrow> bytes option \<Rightarrow> size_t \<Rightarrow> size_t \<Rightarrow> unit option \<times> (pb_istream \<times> bytes option)" where
  "allocate_field realloc s ptr dsize asize =
     (let check_limit = push_bit 32 1 in
      if dsize = 0 \<or> asize = 0 then (None, (PB_SET_ERROR ''invalid size'' s, ptr))
      else if (dsize \<ge> check_limit \<or> asize \<ge> check_limit) \<and> (- 1) div asize < dsize
      then (None, (PB_SET_ERROR ''size too large'' s, ptr))
      else case realloc ptr (asize * dsize) of
             None \<Rightarrow> (None, (PB_SET_ERROR ''realloc failed'' s, ptr))
           | Some p \<Rightarrow> (Some (), (s, Some p)))"

definition pb_dec_pointer :: "(pb_istream \<Rightarrow> u32 \<Rightarrow> bytes \<Rightarrow> unit option \<times> (pb_istream \<times> bytes)) \<Rightarrow> (bytes option \<Rightarrow> size_t \<Rightarrow> bytes option) \<Rightarrow>
    (u32 \<Rightarrow> size_t) \<Rightarrow> pb_istream \<times> bytes option \<Rightarrow> unit option \<times> (pb_istream \<times> bytes option)" where
  "pb_dec_pointer body realloc alloc = (\<lambda>(s, ptr).
     case pb_decode_varint32 s of
       (None, s) \<Rightarrow> (None, (s, ptr))
     | (Some n, s) \<Rightarrow>
         if alloc n < ucast n then (None, (PB_SET_ERROR ''size too large'' s, ptr))
         else if bytes_left s < ucast n then (None, (PB_SET_ERROR ''end-of-stream'' s, ptr))
         else case allocate_field realloc s ptr (alloc n) 1 of
                (None, (s, ptr)) \<Rightarrow> (None, (s, ptr))
              | (Some _, (s, ptr)) \<Rightarrow> (case body s n (the ptr) of (r, (s, mem)) \<Rightarrow> (r, (s, Some mem))))"

definition pb_dec_bytes_pointer :: "(bytes option \<Rightarrow> size_t \<Rightarrow> bytes option) \<Rightarrow> pb_istream \<times> bytes option \<Rightarrow> unit option \<times> (pb_istream \<times> bytes option)" where
  "pb_dec_bytes_pointer realloc = pb_dec_pointer bytes_body realloc PB_BYTES_ARRAY_T_ALLOCSIZE"

definition pb_dec_string_pointer :: "(bytes option \<Rightarrow> size_t \<Rightarrow> bytes option) \<Rightarrow> pb_istream \<times> bytes option \<Rightarrow> unit option \<times> (pb_istream \<times> bytes option)" where
  "pb_dec_string_pointer realloc = pb_dec_pointer string_body realloc (\<lambda>size. ucast (size + 1))"

definition PB_DECODERS :: "decoder \<Rightarrow> u8 \<Rightarrow> decoder option" where
  "PB_DECODERS sub lt =
     (if lt = PB_LTYPE_BOOL then Some pb_dec_bool
      else if lt = PB_LTYPE_VARINT then Some pb_dec_varint
      else if lt = PB_LTYPE_UVARINT then Some pb_dec_uvarint
      else if lt = PB_LTYPE_SVARINT then Some pb_dec_svarint
      else if lt = PB_LTYPE_FIXED32 then Some pb_dec_fixed32
      else if lt = PB_LTYPE_FIXED64 then Some pb_dec_fixed64
      else if lt = PB_LTYPE_BYTES then Some pb_dec_bytes
      else if lt = PB_LTYPE_STRING then Some pb_dec_string
      else if lt = PB_LTYPE_SUBMESSAGE then Some sub
      else if lt = PB_LTYPE_FIXED_LENGTH_BYTES then Some pb_dec_fixed_length_bytes
      else None)"

subsection \<open>Static fields\<close>

text \<open>
  What \<open>pb_field_iter_t\<close> points at: the field's memory \<open>pData\<close>, and at \<open>pSize\<close> the has-flag, item count or
  oneof tag; \<open>has_size\<close> says that \<open>pSize\<close> is not \<open>pData\<close> itself. \<open>on_item\<close> lets a decoder work on the item at an offset.
\<close>

record slot =
  pData :: bytes
  pSize :: u32
  has_size :: bool

definition on_item :: "decoder \<Rightarrow> pb_field \<Rightarrow> nat \<Rightarrow> pb_istream \<Rightarrow> slot \<Rightarrow> unit option \<times> (pb_istream \<times> slot)" where
  "on_item func f off s sl =
     (case func f (s, drop off (pData sl)) of (r, (s, mem)) \<Rightarrow> (r, (s, sl\<lparr>pData := take off (pData sl) @ mem\<rparr>)))"

function packed_loop :: "decoder \<Rightarrow> pb_field \<Rightarrow> pb_istream \<Rightarrow> slot \<Rightarrow> unit option \<times> (pb_istream \<times> slot)" where
  "packed_loop func f sub sl =
     (if bytes_left sub > 0 \<and> pSize sl < array_size f
      then case on_item func f (unat (data_size f * pSize sl)) sub sl of
             (None, (sub, sl')) \<Rightarrow> (None, (sub, sl'))
           | (Some _, (sub, sl')) \<Rightarrow> packed_loop func f sub (sl'\<lparr>pSize := pSize sl + 1\<rparr>)
      else (Some (), (sub, sl)))"
  by pat_completeness auto
termination
proof (relation "measure (\<lambda>(func, f, sub, sl). unat (array_size f - pSize sl))", goal_cases)
  case (2 func f sub sl a s' x sub' sl')
  then have "pSize sl < array_size f" by simp
  then have "array_size f - pSize sl \<noteq> 0" by auto
  then have "unat (array_size f - pSize sl - 1) < unat (array_size f - pSize sl)" by (simp add: unat_minus_one unat_gt_0)
  then show ?case by (simp add: algebra_simps)
qed simp

declare packed_loop.simps [simp del]

text \<open>
  \<open>func\<close> is the entry of \<open>PB_DECODERS\<close> for the field's type; \<open>set_defaults\<close> is \<open>pb_message_set_to_defaults\<close> for
  the fields of a submessage.
\<close>

definition decode_static_field :: "decoder \<Rightarrow> (bytes \<Rightarrow> bytes) \<Rightarrow> pb_istream \<Rightarrow> u32 \<Rightarrow> pb_field \<Rightarrow> slot \<Rightarrow> unit option \<times> (pb_istream \<times> slot)" where
  "decode_static_field func set_defaults s wt f sl =
     (let ht = PB_HTYPE (ftype f); lt = PB_LTYPE (ftype f) in
      if ht = PB_HTYPE_REQUIRED then on_item func f 0 s sl
      else if ht = PB_HTYPE_OPTIONAL
      then on_item func f 0 s (if has_size sl then sl\<lparr>pSize := 1\<rparr> else sl)
      else if ht = PB_HTYPE_REPEATED
      then
        if wt = PB_WT_STRING \<and> lt \<le> PB_LTYPE_LAST_PACKABLE
        then case pb_make_string_substream s of
               (None, s) \<Rightarrow> (None, (s, sl))
             | (Some sub, s) \<Rightarrow>
                 (case packed_loop func f sub sl of
                    (status, (sub, sl)) \<Rightarrow>
                      if bytes_left sub \<noteq> 0 then (None, (PB_SET_ERROR ''array overflow'' s, sl))
                      else case pb_close_string_substream s sub of
                             (None, s) \<Rightarrow> (None, (s, sl))
                           | (Some _, s) \<Rightarrow> (status, (s, sl)))
        else
          let n = pSize sl; sl = sl\<lparr>pSize := n + 1\<rparr>
          in if n \<ge> array_size f then (None, (PB_SET_ERROR ''array overflow'' s, sl))
             else on_item func f (unat (data_size f * n)) s sl
      else if ht = PB_HTYPE_ONEOF
      then
        let sl = (if lt = PB_LTYPE_SUBMESSAGE \<and> pSize sl \<noteq> tag f
                  then sl\<lparr>pData := set_defaults (replicate (unat (data_size f)) 0 @ drop (unat (data_size f)) (pData sl))\<rparr>
                  else sl)
        in on_item func f 0 s (sl\<lparr>pSize := tag f\<rparr>)
      else (None, (PB_SET_ERROR ''invalid field type'' s, sl)))"

subsection \<open>How far a reader advances\<close>

text \<open>\<open>adv i j\<close>: going from \<open>i\<close> to \<open>j\<close> the pointer has moved by as many bytes as were taken off \<open>bytes_left\<close>.\<close>

definition adv :: "pb_istream \<Rightarrow> pb_istream \<Rightarrow> bool" where
  "adv i j \<longleftrightarrow> unat (bytes_left j) \<le> unat (bytes_left i) \<and> state j = drop (unat (bytes_left i) - unat (bytes_left j)) (state i)"

lemma adv_refl [simp]: "adv i i"
  by (simp add: adv_def)

lemma adv_err [simp]: "adv i (PB_SET_ERROR m j) = adv i j"
  by (simp add: adv_def PB_SET_ERROR_def)

lemma adv_trans: "adv i j \<Longrightarrow> adv j k \<Longrightarrow> adv i k"
  by (auto simp: adv_def)

lemma adv_and_then: "adv i (snd r) \<Longrightarrow> (\<And>x s. r = (Some x, s) \<Longrightarrow> adv s (snd (f x s))) \<Longrightarrow> adv i (snd (and_then r f))"
  by (cases r; cases "fst r") (auto intro: adv_trans)

lemma pb_read_adv: "adv s (snd (pb_read s n))"
proof (cases "n = 0 \<or> bytes_left s < n")
  case False
  then have "n \<le> bytes_left s" by (simp add: not_less)
  then have "unat (bytes_left s - n) = unat (bytes_left s) - unat n" "unat n \<le> unat (bytes_left s)"
    by (simp_all add: unat_sub word_le_nat_alt)
  then show ?thesis using False by (simp add: pb_read_def buf_read_def adv_def)
qed (auto simp: pb_read_def)

lemma pb_readbyte_adv: "adv s (snd (pb_readbyte s))"
proof (cases "bytes_left s = 0")
  case False
  then have "unat (bytes_left s - 1) = unat (bytes_left s) - 1" "0 < unat (bytes_left s)" by (simp_all add: unat_minus_one unat_gt_0)
  then show ?thesis using False by (simp add: pb_readbyte_def buf_read_def adv_def)
qed (simp add: pb_readbyte_def)

lemma varint_loop_adv: "adv s (snd (varint_loop b r s))"
proof (induction b r s rule: varint_loop.induct)
  case (1 b r s)
  show ?case
  proof (cases "b \<ge> 64")
    case False
    then show ?thesis
      by (subst varint_loop.simps) (auto intro!: adv_and_then pb_readbyte_adv simp: Let_def intro: "1.IH" simp del: u8_and_80)
  qed (simp add: varint_loop.simps)
qed

lemma varint32_loop_adv: "adv s (snd (varint32_loop b r s))"
proof (induction b r s rule: varint32_loop.induct)
  case (1 b r s)
  show ?case
    by (subst varint32_loop.simps) (rule adv_and_then [OF pb_readbyte_adv], simp only: Let_def, auto intro: "1.IH" simp del: u8_and_80)
qed

lemma pb_decode_varint32_adv: "adv s (snd (pb_decode_varint32 s))"
proof -
  have "adv t (snd (and_then (varint32_loop b r t) (\<lambda>(result, bitpos, byte) s.
          if bitpos = 35 \<and> byte AND 0x70 \<noteq> 0 then (None, PB_SET_ERROR ''varint overflow'' s) else (Some result, s))))" for t b r
    by (rule adv_and_then [OF varint32_loop_adv]) auto
  then show ?thesis using pb_readbyte_adv [of s]
    by (auto simp: pb_decode_varint32_def pb_decode_varint32_eof_def intro: adv_trans split: prod.splits option.splits)
qed

lemma pb_decode_adv [intro, simp]:
  "adv s (snd (pb_decode_varint s))" "adv s (snd (pb_decode_svarint s))"
  "adv s (snd (pb_decode_fixed32 s))" "adv s (snd (pb_decode_fixed64 s))"
  unfolding pb_decode_varint_def pb_decode_svarint_def pb_decode_fixed32_def pb_decode_fixed64_def
  by (rule varint_loop_adv, (rule adv_and_then, rule varint_loop_adv pb_read_adv, simp)+)

lemma sub_view_adv:
  assumes "sub_view i (xs @ ys) rest" and "adv i j" and "is_view j ys"
  shows "sub_view j ys rest"
proof -
  have l: "unat (bytes_left i) - unat (bytes_left j) = length xs" using assms(1,3) by (simp add: sub_view_def is_view_def)
  have "take (length xs + (length ys + length rest)) (state i) = xs @ ys @ rest" using assms(1) by (simp add: sub_view_def add.assoc)
  from arg_cong [OF this, of "drop (length xs)"] have "take (length ys + length rest) (state j) = ys @ rest"
    using assms(2) l by (simp add: drop_take adv_def)
  then show ?thesis using assms(3) by (simp add: sub_view_def is_view_def)
qed

subsection \<open>Decoders stay inside their field\<close>

text \<open>
  \<open>inside k mem mem'\<close>: only the first \<open>k\<close> bytes may differ. \<open>size_ok\<close>: the descriptor gives the types of fixed
  size the size they have.
\<close>

definition inside :: "nat \<Rightarrow> bytes \<Rightarrow> bytes \<Rightarrow> bool" where
  "inside k mem mem' \<longleftrightarrow> length mem' = length mem \<and> drop k mem' = drop k mem"

definition size_ok :: "pb_field \<Rightarrow> bool" where
  "size_ok f \<longleftrightarrow> (let lt = PB_LTYPE (ftype f); k = unat (data_size f) in
     (lt = PB_LTYPE_BOOL \<longrightarrow> k = 1) \<and> (lt = PB_LTYPE_FIXED32 \<longrightarrow> k = 4) \<and> (lt = PB_LTYPE_FIXED64 \<longrightarrow> k = 8))"

lemma inside_refl [simp]: "inside k mem mem"
  by (simp add: inside_def)

lemma inside_trans: "inside k a b \<Longrightarrow> inside k b c \<Longrightarrow> inside k a c"
  by (simp add: inside_def)

lemma inside_store: "j \<le> k \<Longrightarrow> k \<le> length mem \<Longrightarrow> inside k mem (store j v mem)"
  by (auto simp: inside_def store_def)

lemma inside_put: "length bs \<le> k \<Longrightarrow> k \<le> length mem \<Longrightarrow> inside k mem (bs @ drop (length bs) mem)"
  by (auto simp: inside_def)

lemma inside_update: "i < k \<Longrightarrow> inside k mem (mem[i := v])"
  by (simp add: inside_def)

definition confined :: "nat \<Rightarrow> bytes \<Rightarrow> unit option \<times> (pb_istream \<times> bytes) \<Rightarrow> bool" where
  "confined k mem r \<longleftrightarrow> inside k mem (snd (snd r))"

lemma confined_reading:
  "(\<And>v s. confined k mem (g v s)) \<Longrightarrow> confined k mem (reading r mem g)"
  by (auto simp: confined_def reading_def split: prod.splits option.splits)

lemma confined_Pair [simp]: "confined k mem (r, (s, mem')) = inside k mem mem'"
  by (simp add: confined_def)

lemma confined_clamp [simp]: "confined k mem (clamp s mem' c v) = inside k mem mem'"
  by (simp add: clamp_def confined_def)

lemma pb_read_length: "pb_read s n = (Some bs, s') \<Longrightarrow> length bs \<le> unat n"
  by (auto simp: pb_read_def buf_read_def split: if_splits)

lemma confined_read_into:
  assumes "unat n \<le> k" and "k \<le> length mem"
  shows "confined k mem (read_into s n mem)"
  using assms pb_read_length [of s n]
  by (auto simp: read_into_def reading_def inside_put split: prod.splits option.splits)

lemma confined_string_body:
  assumes "unat n < k" and "k \<le> length mem"
  shows "confined k mem (string_body s n mem)"
proof -
  obtain r s' mem' where r: "read_into s (ucast n) mem = (r, (s', mem'))" by (metis prod_cases3)
  then have "inside k mem mem'" using confined_read_into [of "ucast n" k mem s] assms by simp
  then show ?thesis using r inside_update [OF assms(1), of mem' 0] by (auto simp: string_body_def intro: inside_trans)
qed

lemma confined_bytes_body:
  assumes "unat n + 4 \<le> k" and "k \<le> length mem"
  shows "confined k mem (bytes_body s n mem)"
proof -
  let ?m = "store 4 n mem"
  obtain r s' mem' where r: "read_into s (ucast n) (drop 4 ?m) = (r, (s', mem'))" by (metis prod_cases3)
  have l: "length ?m = length mem" using assms by (simp add: store_def)
  have "inside (k - 4) (drop 4 ?m) mem'" using confined_read_into [of "ucast n" "k - 4" "drop 4 ?m" s] r assms l by simp
  then have "inside k ?m (take 4 ?m @ mem')" using assms l by (auto simp: inside_def)
  then show ?thesis using r inside_store [of 4 k mem n] assms by (auto simp: bytes_body_def intro: inside_trans)
qed

text \<open>Each decoder of the table, on a field whose memory has at least \<open>data_size\<close> bytes.\<close>

lemma decoder_confined:
  assumes "PB_DECODERS sub (PB_LTYPE (ftype f)) = Some dec" and "PB_LTYPE (ftype f) \<noteq> PB_LTYPE_SUBMESSAGE"
    and "size_ok f" and "unat (data_size f) \<le> length mem"
  shows "confined (unat (data_size f)) mem (dec f (s, mem))"
proof -
  let ?k = "unat (data_size f)"
  have int: "confined ?k mem (pb_dec_varint f (s, mem))" "confined ?k mem (pb_dec_uvarint f (s, mem))" "confined ?k mem (pb_dec_svarint f (s, mem))"
    unfolding pb_dec_varint_def pb_dec_uvarint_def pb_dec_svarint_def prod.case
    by (rule confined_reading, use assms(4) in \<open>auto simp: Let_def inside_store\<close>)+
  have fx: "?k = 1 \<Longrightarrow> confined ?k mem (pb_dec_bool f (s, mem))" "?k = 4 \<Longrightarrow> confined ?k mem (pb_dec_fixed32 f (s, mem))"
    "?k = 8 \<Longrightarrow> confined ?k mem (pb_dec_fixed64 f (s, mem))"
    unfolding pb_dec_bool_def pb_dec_fixed32_def pb_dec_fixed64_def prod.case
    by (rule confined_reading, use assms(4) in \<open>simp add: inside_store\<close>)+
  have st: "confined ?k mem (pb_dec_string f (s, mem))" unfolding pb_dec_string_def prod.case
  proof (rule confined_reading)
    fix n :: u32 and s
    have "unat n < ?k" if "\<not> (ucast (n + 1) :: size_t) < ucast n" "\<not> (ucast (n + 1) :: size_t) > ucast (data_size f)"
    proof -
      have "unat n \<le> unat (n + 1)" "unat (n + 1) \<le> ?k" using that by (simp_all add: word_less_nat_alt not_less)
      moreover have "unat (n + 1) = (if unat n + 1 = 2 ^ 32 then 0 else unat n + 1)"
        using unat_u32_less [of n] by (simp add: unat_word_ariths mod_if del: unat_u32_less)
      ultimately show ?thesis by (auto split: if_splits)
    qed
    then show "confined ?k mem (let alloc_size = ucast (n + 1) :: size_t
       in if alloc_size < ucast n then (None, (PB_SET_ERROR ''size too large'' s, mem))
          else if alloc_size > ucast (data_size f) then (None, (PB_SET_ERROR ''string overflow'' s, mem))
          else string_body s n mem)"
      using confined_string_body [OF _ assms(4)] by (simp add: Let_def)
  qed
  have bt: "confined ?k mem (pb_dec_bytes f (s, mem))" unfolding pb_dec_bytes_def prod.case
  proof (rule confined_reading)
    fix n :: u32 and s
    have a: "unat (PB_BYTES_ARRAY_T_ALLOCSIZE n) = unat n + 4"
      using unat_u32_less [of n] by (simp add: PB_BYTES_ARRAY_T_ALLOCSIZE_def unat_word_ariths del: unat_u32_less)
    then show "confined ?k mem (let alloc_size = PB_BYTES_ARRAY_T_ALLOCSIZE n
       in if ucast n > alloc_size then (None, (PB_SET_ERROR ''size too large'' s, mem))
          else if alloc_size > ucast (data_size f) then (None, (PB_SET_ERROR ''bytes overflow'' s, mem))
          else bytes_body s n mem)"
      using confined_bytes_body [OF _ assms(4), of n s] by (auto simp: Let_def word_less_nat_alt not_less)
  qed
  have fl: "confined ?k mem (pb_dec_fixed_length_bytes f (s, mem))" unfolding pb_dec_fixed_length_bytes_def prod.case
    using inside_put [of "replicate ?k 0" ?k mem] assms(4)
    by (intro confined_reading) (auto intro!: confined_read_into)
  show ?thesis
    using assms(1-3) int fx st bt fl by (auto simp: PB_DECODERS_def size_ok_def Let_def split: if_splits)
qed

definition field_extent :: "pb_field \<Rightarrow> nat" where
  "field_extent f = (if PB_HTYPE (ftype f) = PB_HTYPE_REPEATED then unat (data_size f) * unat (array_size f) else unat (data_size f))"

definition confined_dec :: "decoder \<Rightarrow> pb_field \<Rightarrow> bool" where
  "confined_dec dec f \<longleftrightarrow> (\<forall>s mem. unat (data_size f) \<le> length mem \<longrightarrow> confined (unat (data_size f)) mem (dec f (s, mem)))"

lemma on_item_inside:
  assumes "confined_dec dec f" and "off + unat (data_size f) \<le> k" and "k \<le> length (pData sl)" and "on_item dec f off s sl = (r, (s', sl'))"
  shows "inside k (pData sl) (pData sl') \<and> pSize sl' = pSize sl"
proof -
  obtain q t mem where d: "dec f (s, drop off (pData sl)) = (q, (t, mem))" by (metis prod_cases3)
  have "unat (data_size f) \<le> length (drop off (pData sl))" using assms(2,3) by simp
  then have i: "inside (unat (data_size f)) (drop off (pData sl)) mem" using assms(1) d by (metis confined_dec_def confined_Pair)
  have sl: "sl' = sl\<lparr>pData := take off (pData sl) @ mem\<rparr>" using d assms(4) by (simp add: on_item_def)
  have "drop (k - off) mem = drop (k - off) (drop off (pData sl))"
  proof -
    have e: "k - off = (k - off - unat (data_size f)) + unat (data_size f)" using assms(2) by linarith
    have "drop (k - off - unat (data_size f)) (drop (unat (data_size f)) mem)
        = drop (k - off - unat (data_size f)) (drop (unat (data_size f)) (drop off (pData sl)))" using i by (simp add: inside_def)
    then show ?thesis using e by (simp add: add_ac)
  qed
  then show ?thesis using i sl assms(2,3) by (auto simp: inside_def)
qed

lemma item_offset:
  assumes "unat n < unat (array_size f)" and "unat (data_size f) * unat (array_size f) < 2 ^ 32"
  shows "unat (data_size f * n) = unat (data_size f) * unat n" "unat (data_size f * n) + unat (data_size f) \<le> unat (data_size f) * unat (array_size f)"
proof -
  have "unat (data_size f) * (unat n + 1) \<le> unat (data_size f) * unat (array_size f)" using assms(1) by (intro mult_le_mono2) simp
  then have le: "unat (data_size f) * unat n + unat (data_size f) \<le> unat (data_size f) * unat (array_size f)" by simp
  then have "unat (data_size f) * unat n < 2 ^ 32" using assms(2) by linarith
  then show e: "unat (data_size f * n) = unat (data_size f) * unat n" by (simp add: unat_word_ariths)
  show "unat (data_size f * n) + unat (data_size f) \<le> unat (data_size f) * unat (array_size f)" using le e by simp
qed

lemma packed_loop_inside:
  "confined_dec dec f \<Longrightarrow> unat (data_size f) * unat (array_size f) < 2 ^ 32 \<Longrightarrow> unat (data_size f) * unat (array_size f) \<le> length (pData sl) \<Longrightarrow>
   packed_loop dec f sub sl = (r, (sub', sl')) \<Longrightarrow>
   inside (unat (data_size f) * unat (array_size f)) (pData sl) (pData sl') \<and> (pSize sl \<le> array_size f \<longrightarrow> pSize sl' \<le> array_size f)"
proof (induction dec f sub sl arbitrary: r sub' sl' rule: packed_loop.induct)
  case (1 dec f sub sl)
  show ?case
  proof (cases "bytes_left sub > 0 \<and> pSize sl < array_size f")
    case True
    obtain q t tl where o: "on_item dec f (unat (data_size f * pSize sl)) sub sl = (q, (t, tl))" by (metis prod_cases3)
    have lt: "unat (pSize sl) < unat (array_size f)" using True by (simp add: word_less_nat_alt)
    have i: "inside (unat (data_size f) * unat (array_size f)) (pData sl) (pData tl)" "pSize tl = pSize sl"
      using on_item_inside [OF "1.prems"(1) item_offset(2) [OF lt "1.prems"(2)] "1.prems"(3) o] by auto
    show ?thesis
    proof (cases q)
      case None
      then show ?thesis using "1.prems"(4) True o i by (simp add: packed_loop.simps [of dec f sub sl])
    next
      case (Some x)
      let ?tl = "tl\<lparr>pSize := pSize sl + 1\<rparr>"
      have p: "packed_loop dec f t ?tl = (r, (sub', sl'))" using "1.prems"(4) True o Some by (simp add: packed_loop.simps [of dec f sub sl])
      have "length (pData ?tl) = length (pData sl)" using i by (simp add: inside_def)
      then have "inside (unat (data_size f) * unat (array_size f)) (pData ?tl) (pData sl') \<and> (pSize ?tl \<le> array_size f \<longrightarrow> pSize sl' \<le> array_size f)"
        using "1.IH" [OF True o [symmetric] Some refl "1.prems"(1,2) _ p] "1.prems"(3) by simp
      moreover have "pSize ?tl \<le> array_size f" using True by (simp add: inc_le)
      ultimately show ?thesis using i(1) inside_trans by auto
    qed
  next
    case False
    then show ?thesis using "1.prems"(4) by (auto simp: packed_loop.simps [of dec f sub sl] split: if_splits)
  qed
qed

text \<open>
  C19. Decoding a field into a static struct member writes only inside the member: a single field stays
  within its \<open>data_size\<close> bytes and an array within \<open>data_size * array_size\<close>, whatever the message
  contains and whether or not decoding succeeds; the item count after success is at most the array size.
  The field is not a submessage, its sizes are those of its type (\<open>size_ok\<close>), and the member is in the struct's memory.
\<close>

theorem decode_static_field_confined:
  assumes "PB_DECODERS sub (PB_LTYPE (ftype f)) = Some dec" and "PB_LTYPE (ftype f) \<noteq> PB_LTYPE_SUBMESSAGE" and "size_ok f"
    and "unat (data_size f) * unat (array_size f) < 2 ^ 32" and "field_extent f \<le> length (pData sl)"
    and "decode_static_field dec set_defaults s wt f sl = (r, (s', sl'))"
  shows "inside (field_extent f) (pData sl) (pData sl')
       \<and> (r = Some () \<and> PB_HTYPE (ftype f) = PB_HTYPE_REPEATED \<and> pSize sl \<le> array_size f \<longrightarrow> pSize sl' \<le> array_size f)"
proof -
  have c: "confined_dec dec f" unfolding confined_dec_def using decoder_confined [OF assms(1-3)] by blast
  let ?sz = "unat (data_size f)"
  have one: "inside ?sz (pData sl) (pData sl')"
    if "on_item dec f 0 s (sl\<lparr>pSize := n\<rparr>) = (r, (s', sl'))" "?sz \<le> length (pData sl)" for n
    using on_item_inside [OF c, of 0 ?sz "sl\<lparr>pSize := n\<rparr>"] that by simp
  have upd: "sl\<lparr>pSize := pSize sl\<rparr> = sl" by simp
  consider (single) "PB_HTYPE (ftype f) \<noteq> PB_HTYPE_REPEATED" | (packed) "PB_HTYPE (ftype f) = PB_HTYPE_REPEATED" "wt = PB_WT_STRING \<and> PB_LTYPE (ftype f) \<le> PB_LTYPE_LAST_PACKABLE"
    | (item) "PB_HTYPE (ftype f) = PB_HTYPE_REPEATED" "\<not> (wt = PB_WT_STRING \<and> PB_LTYPE (ftype f) \<le> PB_LTYPE_LAST_PACKABLE)" by blast
  then show ?thesis
  proof cases
    case single
    then have e: "field_extent f = ?sz" by (simp add: field_extent_def)
    have "inside ?sz (pData sl) (pData sl')"
      using assms(2,5,6) single one [of 1] one [of "tag f"] one [of "pSize sl", unfolded upd] unfolding e
      by (auto simp: decode_static_field_def Let_def split: if_splits)
    then show ?thesis using single e by simp
  next
    case packed
    then have e: "field_extent f = ?sz * unat (array_size f)" by (simp add: field_extent_def)
    note p = packed_loop_inside [OF c assms(4) assms(5) [unfolded e]]
    show ?thesis using assms(6) packed p unfolding e
      by (auto simp: decode_static_field_def Let_def field_types split: if_splits option.splits prod.splits)
  next
    case item
    then have e: "field_extent f = ?sz * unat (array_size f)" by (simp add: field_extent_def)
    show ?thesis
    proof (cases "pSize sl \<ge> array_size f")
      case True
      then show ?thesis using assms(6) item by (auto simp: decode_static_field_def Let_def field_types)
    next
      case False
      then have lt: "unat (pSize sl) < unat (array_size f)" by (simp add: word_le_nat_alt)
      have o: "on_item dec f (unat (data_size f * pSize sl)) s (sl\<lparr>pSize := pSize sl + 1\<rparr>) = (r, (s', sl'))"
        using assms(6) item False by (auto simp: decode_static_field_def Let_def field_types split: if_splits)
      have "pSize sl + 1 \<le> array_size f" using False by (simp add: inc_le)
      then show ?thesis
        using on_item_inside [OF c item_offset(2) [OF lt assms(4)] _ o] assms(5) unfolding e by simp
    qed
  qed
qed

text \<open>An \<open>int32\<close> array of three items in a struct with two bytes behind it, and a message with five items.\<close>

theorem decode_static_field_confined_witness:
  "\<exists>f sl r s' sl'. ftype f = 0x21 \<and> field_extent f = 12 \<and> length (pData sl) = 14
     \<and> decode_static_field pb_dec_varint id (pb_istream_from_buffer [5, 1, 2, 3, 4, 5] 6) PB_WT_STRING f sl = (r, (s', sl')) \<and> r = None
     \<and> inside (field_extent f) (pData sl) (pData sl')"
proof -
  define f where "f = \<lparr>tag = 7, ftype = 0x21, data_size = 4, array_size = 3\<rparr>"
  define sl where "sl = \<lparr>pData = replicate 14 0, pSize = 0, has_size = True\<rparr>"
  obtain r s' sl' where d: "decode_static_field pb_dec_varint id (pb_istream_from_buffer [5, 1, 2, 3, 4, 5] 6) PB_WT_STRING f sl = (r, (s', sl'))"
    by (metis prod_cases3)
  have n: "fst (decode_static_field pb_dec_varint id (pb_istream_from_buffer [5, 1, 2, 3, 4, 5] 6) PB_WT_STRING f sl) = None"
    unfolding f_def sl_def by code_simp
  have lt: "PB_DECODERS pb_dec_bool (PB_LTYPE (ftype f)) = Some pb_dec_varint" "PB_LTYPE (ftype f) \<noteq> PB_LTYPE_SUBMESSAGE" "size_ok f"
    by (simp_all add: f_def PB_LTYPE_def PB_DECODERS_def field_types size_ok_def)
  have x: "field_extent f = 12" by (simp add: f_def field_extent_def PB_HTYPE_def field_types)
  have b: "unat (data_size f) * unat (array_size f) < 2 ^ 32" "length (pData sl) = 14" by (simp_all add: f_def sl_def)
  have "inside (field_extent f) (pData sl) (pData sl')"
    using decode_static_field_confined [OF lt b(1) _ d] x b(2) by simp
  moreover have "ftype f = 0x21" "r = None" using d n by (simp_all add: f_def)
  ultimately show ?thesis using x b(2) d by blast
qed

subsection \<open>Loads and stores\<close>

lemma le_val_Nil [simp]: "le_val [] = 0" and le_val_Cons [simp]: "le_val (b # bs) = unat b + 256 * le_val bs"
  by (simp_all add: le_val_def)

lemma le_val_less: "le_val bs < 256 ^ length bs"
proof (induction bs)
  case (Cons b bs)
  then have "unat b + 256 * le_val bs < 256 * 256 ^ length bs" using unat_u8_less [of b] by linarith
  then show ?case by simp
qed simp

lemma le_val_digit: "i < length bs \<Longrightarrow> le_val bs div 256 ^ i mod 256 = unat (bs ! i)"
proof (induction bs arbitrary: i)
  case (Cons b bs)
  show ?case
  proof (cases i)
    case (Suc j)
    have "(unat b + 256 * le_val bs) div 256 = le_val bs" by simp
    then have "(unat b + 256 * le_val bs) div (256 * 256 ^ j) = le_val bs div 256 ^ j" by (simp only: div_mult2_eq)
    then show ?thesis using Cons Suc by simp
  qed simp
qed simp

lemma le_byte_digit: "i < k \<Longrightarrow> unat (le_bytes k (v :: 'a::len word) ! i) = unat v div 256 ^ i mod 256"
proof -
  assume i: "i < k"
  have "bit (unat (le_bytes k v ! i)) n = bit (unat v div 256 ^ i mod 256) n" for n
  proof -
    have "bit (unat v div 256 ^ i mod 256) n \<longleftrightarrow> n < 8 \<and> bit (unat v) (8 * i + n)"
    proof -
      have "unat v div 256 ^ i mod 256 = take_bit 8 (drop_bit (8 * i) (unat v))" by (simp add: take_bit_eq_mod drop_bit_eq_div power_mult)
      then show ?thesis by (simp only: bit_take_bit_iff bit_drop_bit_eq comp_def)
    qed
    then show ?thesis using bit_le_byte [OF i, of v n] by (simp add: bit_unat)
  qed
  then show ?thesis by (intro bit_eqI) simp
qed

lemma le_bytes_load:
  assumes "length x = k" and "8 * k = LENGTH('a)"
  shows "le_bytes k (load k (x @ behind) :: 'a::len word) = x"
proof (rule nth_equalityI)
  show "length (le_bytes k (load k (x @ behind) :: 'a word)) = length x" using assms(1) by simp
  fix i assume "i < length (le_bytes k (load k (x @ behind) :: 'a word))"
  then have i: "i < k" by simp
  have "(256 :: nat) ^ k = 2 ^ LENGTH('a)" using assms(2) by (simp add: power_mult flip: assms(2))
  then have "unat (load k (x @ behind) :: 'a word) = le_val x" using le_val_less [of x] assms(1) by (simp add: load_def unat_of_nat)
  then show "le_bytes k (load k (x @ behind) :: 'a word) ! i = x ! i"
    using le_byte_digit [OF i, of "load k (x @ behind) :: 'a word"] le_val_digit [of i x] i assms(1) by (simp add: word_unat_eq_iff)
qed

lemma store_load:
  assumes "length x = k" and "8 * k = LENGTH('a)"
  shows "store k (load k (x @ behind) :: 'a::len word) dest = x @ drop k dest"
  using le_bytes_load [OF assms, of behind] by (simp add: store_def)

lemma ucast_scast:
  assumes "LENGTH('b) \<le> LENGTH('c)"
  shows "ucast (scast (w :: 'a::len word) :: 'c::len word) = (scast w :: 'b::len word)"
  by (rule bit_eqI) (use assms in \<open>simp add: bit_unsigned_iff bit_signed_iff\<close>)

lemma scast_scast:
  assumes "LENGTH('a) \<le> LENGTH('b)"
  shows "scast (scast (w :: 'a::len word) :: 'b::len word) = (scast w :: 'c::len word)"
proof (rule bit_eqI)
  fix n assume n: "possible_bit TYPE('c word) n"
  have "0 < LENGTH('a)" by simp
  then have "min (LENGTH('a) - Suc 0) (min (LENGTH('b) - Suc 0) n) = min (LENGTH('a) - Suc 0) n" "min (LENGTH('b) - Suc 0) n < LENGTH('b)"
    using assms by linarith+
  then show "bit (scast (scast w :: 'b word) :: 'c word) n = bit (scast w :: 'c word) n" using n by (simp add: bit_signed_iff)
qed

lemma ucast_ucast_same:
  assumes "LENGTH('a) \<le> LENGTH('c)"
  shows "ucast (ucast (w :: 'a::len word) :: 'c::len word) = w"
  by (rule bit_eqI) (use assms in \<open>auto simp: bit_unsigned_iff dest: bit_imp_le_length\<close>)

subsection \<open>Arrays of numbers\<close>

text \<open>
  The contract of a numeric field type: \<open>item f x\<close> are the memory contents of one value, \<open>ev f x\<close> its
  encoding. The encoder writes \<open>ev f x\<close>, the decoder takes it off the stream and stores \<open>x\<close>.
\<close>

locale pb_item =
  fixes lt :: u8
    and enc :: encoder
    and dec :: decoder
    and item :: "pb_field \<Rightarrow> bytes \<Rightarrow> bool"
    and ev :: "pb_field \<Rightarrow> bytes \<Rightarrow> bytes"
  assumes item_length: "item f x \<Longrightarrow> length x = unat (data_size f)"
    and enc_item: "item f x \<Longrightarrow> os_ok s \<Longrightarrow> emits (enc s f (Some (x @ behind))) s (ev f x)"
    and dec_item: "item f x \<Longrightarrow> is_view i (ev f x @ rest) \<Longrightarrow>
          \<exists>j. dec f (i, mem) = (Some (), (j, x @ drop (length x) mem)) \<and> is_view j rest \<and> errmsg j = errmsg i \<and> adv i j"
    and ev_length: "item f x \<Longrightarrow> ev f x \<noteq> [] \<and> length (ev f x) \<le> 10"
    and ev_fixed: "item f x \<Longrightarrow> lt = PB_LTYPE_FIXED32 \<Longrightarrow> length (ev f x) = 4" "item f x \<Longrightarrow> lt = PB_LTYPE_FIXED64 \<Longrightarrow> length (ev f x) = 8"
    and packable: "lt \<le> PB_LTYPE_LAST_PACKABLE"

definition int_size :: "pb_field \<Rightarrow> bool" where
  "int_size f \<longleftrightarrow> data_size f \<in> {1, 2, 4, 8}"

definition int_item :: "pb_field \<Rightarrow> bytes \<Rightarrow> bool" where
  "int_item f x \<longleftrightarrow> int_size f \<and> length x = unat (data_size f)"

definition signed_value :: "pb_field \<Rightarrow> bytes \<Rightarrow> u64" where
  "signed_value f x =
     (if data_size f = 1 then scast (load 1 x :: 8 word) else if data_size f = 2 then scast (load 2 x :: 16 word)
      else if data_size f = 4 then scast (load 4 x :: 32 word) else load 8 x)"

definition unsigned_value :: "pb_field \<Rightarrow> bytes \<Rightarrow> u64" where
  "unsigned_value f x =
     (if data_size f = 1 then ucast (load 1 x :: 8 word) else if data_size f = 2 then ucast (load 2 x :: 16 word)
      else if data_size f = 4 then ucast (load 4 x :: 32 word) else load 8 x)"

lemma load_append [simp]: "length x = k \<Longrightarrow> load k (x @ behind) = load k x"
  by (simp add: load_def)

lemma store_load_id: "length x = k \<Longrightarrow> 8 * k = LENGTH('a) \<Longrightarrow> store k (load k x :: 'a::len word) mem = x @ drop k mem"
  using store_load [of x k, where 'a = 'a and behind = "[]"] by simp

lemma int_enc:
  assumes "int_item f x"
  shows "pb_enc_varint s f (Some (x @ behind)) = pb_encode_varint s (signed_value f x)"
    "pb_enc_uvarint s f (Some (x @ behind)) = pb_encode_varint s (unsigned_value f x)"
    "pb_enc_svarint s f (Some (x @ behind)) = pb_encode_svarint s (signed_value f x)"
  using assms
  by (auto simp: int_item_def int_size_def pb_enc_varint_def pb_enc_uvarint_def pb_enc_svarint_def signed_value_def unsigned_value_def)

lemma int_dec:
  assumes "int_item f x"
  shows "pb_decode_varint i = (Some (signed_value f x), j) \<Longrightarrow> pb_dec_varint f (i, mem) = (Some (), (j, x @ drop (length x) mem))"
    "pb_decode_varint i = (Some (unsigned_value f x), j) \<Longrightarrow> pb_dec_uvarint f (i, mem) = (Some (), (j, x @ drop (length x) mem))"
    "pb_decode_svarint i = (Some (signed_value f x), j) \<Longrightarrow> pb_dec_svarint f (i, mem) = (Some (), (j, x @ drop (length x) mem))"
proof -
  have s1: "scast (ucast (scast w :: u64) :: 32 word) = (scast w :: u64)" "ucast (scast w :: u64) = w" for w :: "8 word"
    by (simp_all add: ucast_scast scast_scast)
  have s2: "scast (ucast (scast w :: u64) :: 32 word) = (scast w :: u64)" "ucast (scast w :: u64) = w" for w :: "16 word"
    by (simp_all add: ucast_scast scast_scast)
  have s4: "ucast (scast w :: u64) = w" for w :: "32 word" by (simp add: ucast_scast)
  have u: "ucast (ucast a :: u64) = a" "ucast (ucast b :: u64) = b" "ucast (ucast c :: u64) = c" for a :: "8 word" and b :: "16 word" and c :: "32 word"
    by (simp_all add: ucast_ucast_same)
  note st = store_load_id [of x "Suc 0", where 'a = 8] store_load_id [of x 2, where 'a = 16] store_load_id [of x 4, where 'a = 32] store_load_id [of x 8, where 'a = 64]
  consider (a) "data_size f = 1" "length x = 1" | (b) "data_size f = 2" "length x = 2" | (c) "data_size f = 4" "length x = 4" | (d) "data_size f = 8" "length x = 8"
    using assms by (auto simp: int_item_def int_size_def)
  note cs = this
  show "pb_dec_varint f (i, mem) = (Some (), (j, x @ drop (length x) mem))" if "pb_decode_varint i = (Some (signed_value f x), j)"
    using cs by cases (simp_all add: pb_dec_varint_def reading_def that clamp_def signed_value_def s1 s2 s4 st)
  show "pb_dec_uvarint f (i, mem) = (Some (), (j, x @ drop (length x) mem))" if "pb_decode_varint i = (Some (unsigned_value f x), j)"
    using cs by cases (simp_all add: pb_dec_uvarint_def reading_def that clamp_def unsigned_value_def u st)
  show "pb_dec_svarint f (i, mem) = (Some (), (j, x @ drop (length x) mem))" if "pb_decode_svarint i = (Some (signed_value f x), j)"
    using cs by cases (simp_all add: pb_dec_svarint_def reading_def that clamp_def signed_value_def s1 s2 s4 st)
qed

text \<open>One lemma of the wire values for all number types: what a reader returns and how far it advances.\<close>

context pb_value
begin

lemma reads_adv:
  assumes "ok x" and "is_view i (enc x @ rest)" and "\<And>i. adv i (snd (rd i))"
  obtains j where "rd i = (Some x, j)" "is_view j rest" "errmsg j = errmsg i" "adv i j"
  using reads [OF assms(1,2)] assms(3) [of i] by force

end

lemma varint_enc_bounds: "varint_enc (unat (v :: u64)) \<noteq> [] \<and> length (varint_enc (unat v)) \<le> 10"
  using varint_enc_length64 [of v] by simp

interpretation vi_item: pb_item PB_LTYPE_VARINT pb_enc_varint pb_dec_varint int_item "\<lambda>f x. varint_enc (unat (signed_value f x))"
proof unfold_locales
  fix f x assume x: "int_item f x"
  show "length x = unat (data_size f)" using x by (simp add: int_item_def)
  show "emits (pb_enc_varint s f (Some (x @ behind))) s (varint_enc (unat (signed_value f x)))" if "os_ok s" for s behind
    unfolding int_enc [OF x] by (rule vi.writes [OF TrueI that])
  show "\<exists>j. pb_dec_varint f (i, mem) = (Some (), (j, x @ drop (length x) mem)) \<and> is_view j rest \<and> errmsg j = errmsg i \<and> adv i j"
    if "is_view i (varint_enc (unat (signed_value f x)) @ rest)" for i mem rest
    using vi.reads_adv [OF TrueI that pb_decode_adv(1)] int_dec(1) [OF x] by metis
qed (simp_all add: varint_enc_bounds field_types)

interpretation uv_item: pb_item PB_LTYPE_UVARINT pb_enc_uvarint pb_dec_uvarint int_item "\<lambda>f x. varint_enc (unat (unsigned_value f x))"
proof unfold_locales
  fix f x assume x: "int_item f x"
  show "length x = unat (data_size f)" using x by (simp add: int_item_def)
  show "emits (pb_enc_uvarint s f (Some (x @ behind))) s (varint_enc (unat (unsigned_value f x)))" if "os_ok s" for s behind
    unfolding int_enc [OF x] by (rule vi.writes [OF TrueI that])
  show "\<exists>j. pb_dec_uvarint f (i, mem) = (Some (), (j, x @ drop (length x) mem)) \<and> is_view j rest \<and> errmsg j = errmsg i \<and> adv i j"
    if "is_view i (varint_enc (unat (unsigned_value f x)) @ rest)" for i mem rest
    using vi.reads_adv [OF TrueI that pb_decode_adv(1)] int_dec(2) [OF x] by metis
qed (simp_all add: varint_enc_bounds field_types)

interpretation sv_item: pb_item PB_LTYPE_SVARINT pb_enc_svarint pb_dec_svarint int_item "\<lambda>f x. varint_enc (unat (zigzag (signed_value f x)))"
proof unfold_locales
  fix f x assume x: "int_item f x"
  show "length x = unat (data_size f)" using x by (simp add: int_item_def)
  show "emits (pb_enc_svarint s f (Some (x @ behind))) s (varint_enc (unat (zigzag (signed_value f x))))" if "os_ok s" for s behind
    unfolding int_enc [OF x] by (rule sv.writes [OF TrueI that])
  show "\<exists>j. pb_dec_svarint f (i, mem) = (Some (), (j, x @ drop (length x) mem)) \<and> is_view j rest \<and> errmsg j = errmsg i \<and> adv i j"
    if "is_view i (varint_enc (unat (zigzag (signed_value f x))) @ rest)" for i mem rest
    using sv.reads_adv [OF TrueI that pb_decode_adv(2)] int_dec(3) [OF x] by metis
qed (simp_all add: varint_enc_bounds field_types)

text \<open>The fixed-size numbers are copied, and a \<open>bool\<close> holds 0 or 1.\<close>

definition fixed_item :: "nat \<Rightarrow> pb_field \<Rightarrow> bytes \<Rightarrow> bool" where
  "fixed_item k f x \<longleftrightarrow> unat (data_size f) = k \<and> length x = k"

definition bool_item :: "pb_field \<Rightarrow> bytes \<Rightarrow> bool" where
  "bool_item f x \<longleftrightarrow> data_size f = 1 \<and> (x = [0] \<or> x = [1])"

interpretation f32_item: pb_item PB_LTYPE_FIXED32 pb_enc_fixed32 pb_dec_fixed32 "fixed_item 4" "\<lambda>f x. x"
proof unfold_locales
  fix f x assume x: "fixed_item 4 f x"
  then have l: "length x = 4" by (simp add: fixed_item_def)
  have b: "le_bytes 4 (load 4 x :: u32) = x" using le_bytes_load [OF l, where 'a = 32 and behind = "[]"] by simp
  show "emits (pb_enc_fixed32 s f (Some (x @ behind))) s x" if "os_ok s" for s behind
    using f32.writes [OF TrueI that, of "load 4 x"] b l by (simp add: pb_enc_fixed32_def)
  show "\<exists>j. pb_dec_fixed32 f (i, mem) = (Some (), (j, x @ drop (length x) mem)) \<and> is_view j rest \<and> errmsg j = errmsg i \<and> adv i j"
    if iv: "is_view i (x @ rest)" for i mem rest
  proof -
    obtain j where j: "pb_decode_fixed32 i = (Some (load 4 x), j)" "is_view j rest" "errmsg j = errmsg i" "adv i j"
      by (rule f32.reads_adv [OF TrueI, of i "load 4 x" rest]) (use iv b in simp_all)
    then show ?thesis using b l by (simp add: pb_dec_fixed32_def reading_def store_def)
  qed
qed (auto simp: fixed_item_def field_types)

interpretation f64_item: pb_item PB_LTYPE_FIXED64 pb_enc_fixed64 pb_dec_fixed64 "fixed_item 8" "\<lambda>f x. x"
proof unfold_locales
  fix f x assume x: "fixed_item 8 f x"
  then have l: "length x = 8" by (simp add: fixed_item_def)
  have b: "le_bytes 8 (load 8 x :: u64) = x" using le_bytes_load [OF l, where 'a = 64 and behind = "[]"] by simp
  show "emits (pb_enc_fixed64 s f (Some (x @ behind))) s x" if "os_ok s" for s behind
    using f64.writes [OF TrueI that, of "load 8 x"] b l by (simp add: pb_enc_fixed64_def)
  show "\<exists>j. pb_dec_fixed64 f (i, mem) = (Some (), (j, x @ drop (length x) mem)) \<and> is_view j rest \<and> errmsg j = errmsg i \<and> adv i j"
    if iv: "is_view i (x @ rest)" for i mem rest
  proof -
    obtain j where j: "pb_decode_fixed64 i = (Some (load 8 x), j)" "is_view j rest" "errmsg j = errmsg i" "adv i j"
      by (rule f64.reads_adv [OF TrueI, of i "load 8 x" rest]) (use iv b in simp_all)
    then show ?thesis using b l by (simp add: pb_dec_fixed64_def reading_def store_def)
  qed
qed (auto simp: fixed_item_def field_types)

interpretation bool_item: pb_item PB_LTYPE_BOOL pb_enc_bool pb_dec_bool bool_item "\<lambda>f x. x"
proof unfold_locales
  fix f x assume x: "bool_item f x"
  then have v: "x = varint_enc (unat (if x = [0] then 0 else 1 :: u64))" "x = varint_enc (unat (if x = [0] then 0 else 1 :: u32))"
    by (auto simp: bool_item_def varint_enc_small)
  show "emits (pb_enc_bool s f (Some (x @ behind))) s x" if "os_ok s" for s behind
    using vi.writes [OF TrueI that, of "if x = [0] then 0 else 1"] x
    by (auto simp: bool_item_def pb_enc_bool_def safe_read_bool_def varint_enc_small)
  show "\<exists>j. pb_dec_bool f (i, mem) = (Some (), (j, x @ drop (length x) mem)) \<and> is_view j rest \<and> errmsg j = errmsg i \<and> adv i j"
    if iv: "is_view i (x @ rest)" for i mem rest
  proof -
    obtain j where j: "pb_decode_varint32 i = (Some (if x = [0] then 0 else 1), j)" "is_view j rest" "errmsg j = errmsg i"
      using pb_decode_varint32_view [of i "if x = [0] then 0 else 1" rest] iv v(2) by auto
    moreover have "adv i j" using pb_decode_varint32_adv [of i] j(1) by simp
    moreover have "le_bytes 1 (0 :: 8 word) = [0]" "le_bytes 1 (1 :: 8 word) = [1]" by code_simp+
    ultimately show ?thesis using x by (auto simp: pb_dec_bool_def reading_def store_def bool_item_def)
  qed
qed (auto simp: bool_item_def field_types)

context pb_item
begin

definition payload :: "pb_field \<Rightarrow> bytes list \<Rightarrow> bytes" where
  "payload f xs = concat (map (ev f) xs)"

lemma payload_length: "\<forall>x \<in> set xs. item f x \<Longrightarrow> length (payload f xs) \<le> 10 * length xs"
  unfolding payload_def by (induction xs) (use ev_length in fastforce)+

lemma payload_fixed:
  "\<forall>x \<in> set xs. item f x \<Longrightarrow> lt = PB_LTYPE_FIXED32 \<Longrightarrow> length (payload f xs) = 4 * length xs"
  "\<forall>x \<in> set xs. item f x \<Longrightarrow> lt = PB_LTYPE_FIXED64 \<Longrightarrow> length (payload f xs) = 8 * length xs"
  unfolding payload_def by (induction xs) (auto simp: ev_fixed)

lemma concat_length: "\<forall>x \<in> set xs. item f x \<Longrightarrow> length (concat xs) = unat (data_size f) * length xs"
  by (induction xs) (auto simp: item_length)

lemma items_loop_emits:
  "\<forall>x \<in> set xs. item f x \<Longrightarrow> os_ok s \<Longrightarrow>
   emits (items_loop (\<lambda>s p. enc s f (Some p)) (unat (data_size f)) (length xs) (concat xs @ behind) s) s (payload f xs)"
proof (induction xs arbitrary: s)
  case Nil
  then show ?case by (auto simp: payload_def emits_def emitted_def fits_def os_ok_def)
next
  case (Cons x xs)
  have d: "drop (unat (data_size f)) (concat (x # xs) @ behind) = concat xs @ behind" using item_length [of f x] Cons.prems(1) by simp
  have e: "emits (enc s f (Some (x @ concat xs @ behind))) s (ev f x)" using enc_item Cons.prems by simp
  have l: "length (ev f x) < 2 ^ 64" using ev_length [of f x] Cons.prems(1) by simp
  have "emits (items_loop (\<lambda>s p. enc s f (Some p)) (unat (data_size f)) (length xs) (concat xs @ behind) t) t (payload f xs)" if "os_ok t" for t
    using Cons.IH Cons.prems(1) that by simp
  from emits_append [OF Cons.prems(2) e this l] show ?case using d by (simp add: payload_def)
qed

text \<open>The packed encoding of an array: tag, length, items.\<close>

lemma encode_array_emits:
  assumes f: "PB_LTYPE (ftype f) = lt" "PB_ATYPE (ftype f) \<noteq> PB_ATYPE_POINTER" "tag_ok (PB_WT_STRING, tag f)"
    and xs: "\<forall>x \<in> set xs. item f x" "xs \<noteq> []" "length xs \<le> unat (array_size f)" and s: "os_ok s"
  shows "emits (encode_array deref s f (concat xs @ behind) (of_nat (length xs)) enc) s
           (varint_enc (tag_value (PB_WT_STRING, tag f)) @ varint_enc (length (payload f xs)) @ payload f xs)"
proof -
  let ?n = "of_nat (length xs) :: size_t"
  let ?loop = "items_loop (\<lambda>s p. enc s f (Some p)) (unat (data_size f)) (length xs) (concat xs @ behind)"
  have lx: "length xs < 2 ^ 32" using xs(3) unat_u32_less [of "array_size f"] by (simp del: unat_u32_less)
  then have u: "unat ?n = length xs" by (simp add: unat_of_nat)
  have n0: "?n \<noteq> 0" using xs(2) u by (metis length_0_conv unat_0)
  have le: "\<not> ?n > ucast (array_size f)" using u xs(3) by (simp add: word_less_nat_alt)
  define sz :: size_t where "sz = of_nat (length (payload f xs))"
  have pl: "length (payload f xs) < 2 ^ 64" using payload_length [OF xs(1)] lx by simp
  then have usz: "unat sz = length (payload f xs)" by (simp add: sz_def unat_of_nat)
  have z: "os_ok PB_OSTREAM_SIZING" "sizing PB_OSTREAM_SIZING" by (simp_all add: os_ok_def PB_OSTREAM_SIZING_def)
  have "?loop PB_OSTREAM_SIZING = (Some (), emitted PB_OSTREAM_SIZING (payload f xs))"
    using items_loop_emits [OF xs(1) z(1)] z(2) by (simp add: emits_def)
  then have dry: "?loop PB_OSTREAM_SIZING = (Some (), PB_OSTREAM_SIZING\<lparr>bytes_written := sz\<rparr>)"
    by (simp add: emitted_def sz_def PB_OSTREAM_SIZING_def)
  have f32: "4 * ?n = sz" if "lt = PB_LTYPE_FIXED32" using payload_fixed(1) [OF xs(1) that] by (simp add: sz_def)
  have f64: "8 * ?n = sz" if "lt = PB_LTYPE_FIXED64" using payload_fixed(2) [OF xs(1) that] by (simp add: sz_def)
  define body where "body t = (if sizing t then pb_write t [] sz else ?loop t)" for t
  have b: "emits (body t) t (payload f xs)" if "os_ok t" for t
  proof (cases "sizing t")
    case True
    then show ?thesis by (auto simp: body_def pb_write_def emits_def emitted_def sz_def)
  next
    case False
    then show ?thesis using items_loop_emits [OF xs(1) that] by (simp add: body_def)
  qed
  have size: "(if lt = PB_LTYPE_FIXED32 then (True, 4 * ?n) else if lt = PB_LTYPE_FIXED64 then (True, 8 * ?n)
        else case ?loop PB_OSTREAM_SIZING of (r, z) \<Rightarrow> (r \<noteq> None, bytes_written z)) = (True, sz)"
    using f32 f64 dry by simp
  have "encode_array deref s f (concat xs @ behind) ?n enc
      = and_then (pb_encode_tag s PB_WT_STRING (tag f)) (\<lambda>_ s. and_then (pb_encode_varint s sz) (\<lambda>_ s. body s))"
    using n0 le f(1,2) packable unfolding encode_array_def Let_def f(1) u size body_def by simp
  moreover have "emits (and_then (pb_encode_varint t sz) (\<lambda>_ s. body s)) t (varint_enc (length (payload f xs)) @ payload f xs)" if t: "os_ok t" for t
    using emits_append [OF t vi.writes [OF TrueI t, of sz] b] varint_enc_length64 [of sz] unfolding usz by simp
  moreover have "length (varint_enc (tag_value (PB_WT_STRING, tag f))) < 2 ^ 64" using varint_enc_length32 [OF tag_value_less [OF f(3)]] by simp
  ultimately show ?thesis using emits_append [OF s pb_encode_tag_emits [OF f(3) s]] by simp
qed

lemma packed_loop_items:
  "\<forall>x \<in> set xs. item f x \<Longrightarrow> sub_view sub (payload f xs) rest \<Longrightarrow> pData sl = pre @ mem \<Longrightarrow> length pre = unat (data_size f) * unat (pSize sl) \<Longrightarrow>
   unat (pSize sl) + length xs \<le> unat (array_size f) \<Longrightarrow> unat (data_size f) * unat (array_size f) < 2 ^ 32 \<Longrightarrow>
   \<exists>sub'. packed_loop dec f sub sl = (Some (), (sub', sl\<lparr>pData := pre @ concat xs @ drop (length (concat xs)) mem, pSize := pSize sl + of_nat (length xs)\<rparr>))
     \<and> sub_view sub' [] rest \<and> errmsg sub' = errmsg sub"
proof (induction xs arbitrary: sub sl pre mem)
  case Nil
  have "bytes_left sub = 0" using Nil.prems(2) by (simp add: sub_view_def payload_def unat_eq_0)
  moreover have "sl\<lparr>pData := pre @ concat [] @ drop (length (concat [])) mem, pSize := pSize sl + of_nat (length ([] :: bytes list))\<rparr> = sl"
    using Nil.prems(3) by (cases sl) simp
  ultimately have "packed_loop dec f sub sl = (Some (), (sub, sl\<lparr>pData := pre @ concat [] @ drop (length (concat [])) mem, pSize := pSize sl + of_nat (length ([] :: bytes list))\<rparr>))"
    by (subst packed_loop.simps) simp
  then show ?case using Nil.prems(2) unfolding payload_def by auto
next
  case (Cons x xs)
  have x: "item f x" and xs: "\<forall>x \<in> set xs. item f x" using Cons.prems(1) by simp_all
  have v: "sub_view sub (ev f x @ payload f xs) rest" using Cons.prems(2) by (simp add: payload_def)
  have lt: "unat (pSize sl) < unat (array_size f)" using Cons.prems(5) by simp
  have off: "unat (data_size f * pSize sl) = length pre" using item_offset(1) [OF lt Cons.prems(6)] Cons.prems(4) by simp
  obtain j where j: "dec f (sub, mem) = (Some (), (j, x @ drop (length x) mem))" "is_view j (payload f xs)" "errmsg j = errmsg sub" "adv sub j"
    using dec_item [OF x sub_view_is_view [OF v], of mem] by blast
  have vj: "sub_view j (payload f xs) rest" by (rule sub_view_adv [OF v j(4,2)])
  define tl where "tl = sl\<lparr>pData := (pre @ x) @ drop (length x) mem, pSize := pSize sl + 1\<rparr>"
  have "bytes_left sub \<noteq> 0"
  proof
    assume "bytes_left sub = 0"
    then show False using v ev_length [OF x] by (simp add: sub_view_def)
  qed
  then have c: "bytes_left sub > 0 \<and> pSize sl < array_size f" using lt by (simp add: word_less_nat_alt [of "pSize sl"] word_gt_0)
  then have step: "packed_loop dec f sub sl = packed_loop dec f j tl"
    using j(1) Cons.prems(3) off by (subst packed_loop.simps) (simp add: on_item_def tl_def)
  have sz: "unat (pSize tl) = unat (pSize sl) + 1"
    using lt unat_u32_less [of "array_size f"] by (simp add: tl_def unat_word_ariths del: unat_u32_less)
  have "\<exists>sub'. packed_loop dec f j tl = (Some (), (sub', tl\<lparr>pData := (pre @ x) @ concat xs @ drop (length (concat xs)) (drop (length x) mem), pSize := pSize tl + of_nat (length xs)\<rparr>))
     \<and> sub_view sub' [] rest \<and> errmsg sub' = errmsg j"
  proof (rule Cons.IH [OF xs vj])
    show "pData tl = (pre @ x) @ drop (length x) mem" by (simp add: tl_def)
    show "length (pre @ x) = unat (data_size f) * unat (pSize tl)" unfolding sz using Cons.prems(4) item_length [OF x] by simp
    show "unat (pSize tl) + length xs \<le> unat (array_size f)" unfolding sz using Cons.prems(5) by simp
  qed (rule Cons.prems(6))
  moreover have "tl\<lparr>pData := (pre @ x) @ concat xs @ drop (length (concat xs)) (drop (length x) mem), pSize := pSize tl + of_nat (length xs)\<rparr>
      = sl\<lparr>pData := pre @ concat (x # xs) @ drop (length (concat (x # xs))) mem, pSize := pSize sl + of_nat (length (x # xs))\<rparr>"
    by (simp add: tl_def add_ac)
  ultimately show ?case unfolding step j(3) by simp
qed

lemma decode_packed_view:
  assumes f: "PB_LTYPE (ftype f) = lt" "PB_HTYPE (ftype f) = PB_HTYPE_REPEATED" "unat (data_size f) * unat (array_size f) < 2 ^ 32"
    and xs: "\<forall>x \<in> set xs. item f x" "length xs \<le> unat (array_size f)" "length (payload f xs) < 2 ^ 32"
    and s: "is_view s (varint_enc (length (payload f xs)) @ payload f xs @ rest)"
  shows "\<exists>s'. decode_static_field dec sd s PB_WT_STRING f \<lparr>pData = mem, pSize = 0, has_size = h\<rparr>
      = (Some (), (s', \<lparr>pData = concat xs @ drop (length (concat xs)) mem, pSize = of_nat (length xs), has_size = h\<rparr>)) \<and> is_view s' rest"
proof -
  obtain sub t where m: "pb_make_string_substream s = (Some sub, t)" "sub_view sub (payload f xs) rest" "errmsg sub = errmsg s"
      "unat (bytes_left t) = length rest" using pb_make_string_substream_view [OF s xs(3)] by blast
  obtain sub' where l: "packed_loop dec f sub \<lparr>pData = mem, pSize = 0, has_size = h\<rparr>
      = (Some (), (sub', \<lparr>pData = concat xs @ drop (length (concat xs)) mem, pSize = of_nat (length xs), has_size = h\<rparr>))" "sub_view sub' [] rest"
    using packed_loop_items [OF xs(1) m(2), of "\<lparr>pData = mem, pSize = 0, has_size = h\<rparr>" "[]" mem] xs(2) f(3) by auto
  obtain t' where c: "pb_close_string_substream t sub' = (Some (), t')" "is_view t' rest"
    using pb_close_string_substream_view [OF l(2) m(4)] by blast
  have "bytes_left sub' = 0" using l(2) by (simp add: sub_view_def unat_eq_0)
  then show ?thesis using m l c packable f by (simp add: decode_static_field_def Let_def field_types)
qed

lemma packed_roundtrip:
  assumes f: "PB_LTYPE (ftype f) = lt" "PB_HTYPE (ftype f) = PB_HTYPE_REPEATED" "PB_ATYPE (ftype f) = PB_ATYPE_STATIC"
      "tag_ok (PB_WT_STRING, tag f)" "unat (data_size f) * unat (array_size f) < 2 ^ 32"
    and xs: "\<forall>x \<in> set xs. item f x" "xs \<noteq> []" "length xs \<le> unat (array_size f)" "10 * length xs < 2 ^ 32"
    and e: "encode_array deref (pb_ostream_from_buffer m) f (concat xs @ behind) (of_nat (length xs)) enc = (Some (), s)"
    and l: "length (written s @ rest) < 2 ^ 64"
  shows "\<exists>i j. pb_decode_tag (pb_istream_from_buffer (written s @ rest) (of_nat (length (written s @ rest)))) = ((Some (PB_WT_STRING, tag f), i), False)
      \<and> decode_static_field dec sd i PB_WT_STRING f \<lparr>pData = mem, pSize = 0, has_size = h\<rparr>
          = (Some (), (j, \<lparr>pData = concat xs @ drop (length (concat xs)) mem, pSize = of_nat (length xs), has_size = h\<rparr>)) \<and> is_view j rest"
proof -
  let ?o = "pb_ostream_from_buffer m"
  let ?t = "varint_enc (tag_value (PB_WT_STRING, tag f))"
  let ?p = "varint_enc (length (payload f xs)) @ payload f xs"
  have o: "os_ok ?o" "\<not> sizing ?o" by (simp_all add: os_ok_def pb_ostream_from_buffer_def)
  have np: "PB_ATYPE (ftype f) \<noteq> PB_ATYPE_POINTER" using f(3) by (simp add: field_types)
  have "s = emitted ?o (?t @ ?p)"
    using encode_array_emits [OF f(1) np f(4) xs(1,2,3) o(1), of deref behind] e o by (auto simp: emits_def split: if_splits)
  then have s: "written s = ?t @ ?p" by (simp add: emitted_def pb_ostream_from_buffer_def)
  have "is_view (pb_istream_from_buffer (written s @ rest) (of_nat (length (written s @ rest)))) (?t @ ?p @ rest)"
    using is_view_from_buffer [OF l] by (simp add: s)
  then obtain i where i: "pb_decode_tag (pb_istream_from_buffer (written s @ rest) (of_nat (length (written s @ rest)))) = ((Some (PB_WT_STRING, tag f), i), False)"
      "is_view i (?p @ rest)" using pb_decode_tag_view [OF f(4)] by blast
  have "length (payload f xs) < 2 ^ 32" using payload_length [OF xs(1)] xs(4) by linarith
  from decode_packed_view [OF f(1,2,5) xs(1,3) this, of i rest sd mem h] i show ?thesis by auto
qed

end

text \<open>The memory contents of one value of a numeric field.\<close>

definition num_item :: "pb_field \<Rightarrow> bytes \<Rightarrow> bool" where
  "num_item f x =
     (let lt = PB_LTYPE (ftype f)
      in if lt = PB_LTYPE_BOOL then bool_item f x
         else if lt \<in> {PB_LTYPE_VARINT, PB_LTYPE_UVARINT, PB_LTYPE_SVARINT} then int_item f x
         else if lt = PB_LTYPE_FIXED32 then fixed_item 4 f x
         else if lt = PB_LTYPE_FIXED64 then fixed_item 8 f x
         else False)"

text \<open>
  C18. A repeated numeric field survives the round trip: \<open>encode_array\<close> writes the items of a static array
  in packed form, and reading the tag and calling \<open>decode_static_field\<close> on it fills the array of the
  receiving struct with the same bytes and sets the same count, for each of the six numeric types and
  every integer width, and leaves the stream at what follows the field.
\<close>

theorem packed_array_roundtrip:
  assumes "PB_ENCODERS esub (PB_LTYPE (ftype f)) = Some enc" and "PB_DECODERS dsub (PB_LTYPE (ftype f)) = Some dec"
    and "PB_HTYPE (ftype f) = PB_HTYPE_REPEATED" and "PB_ATYPE (ftype f) = PB_ATYPE_STATIC" and "tag_ok (PB_WT_STRING, tag f)"
    and "unat (data_size f) * unat (array_size f) < 2 ^ 32"
    and "\<forall>x \<in> set xs. num_item f x" and "xs \<noteq> []" and "length xs \<le> unat (array_size f)" and "10 * length xs < 2 ^ 32"
    and "encode_array deref (pb_ostream_from_buffer m) f (concat xs @ behind) (of_nat (length xs)) enc = (Some (), s)"
    and "length (written s @ rest) < 2 ^ 64"
  shows "\<exists>i j. pb_decode_tag (pb_istream_from_buffer (written s @ rest) (of_nat (length (written s @ rest)))) = ((Some (PB_WT_STRING, tag f), i), False)
      \<and> decode_static_field dec set_defaults i PB_WT_STRING f \<lparr>pData = mem, pSize = 0, has_size = h\<rparr>
          = (Some (), (j, \<lparr>pData = concat xs @ drop (length (concat xs)) mem, pSize = of_nat (length xs), has_size = h\<rparr>)) \<and> is_view j rest"
proof -
  obtain x where x: "num_item f x" using assms(7,8) by (cases xs) auto
  consider "PB_LTYPE (ftype f) = PB_LTYPE_BOOL" | "PB_LTYPE (ftype f) = PB_LTYPE_VARINT" | "PB_LTYPE (ftype f) = PB_LTYPE_UVARINT"
    | "PB_LTYPE (ftype f) = PB_LTYPE_SVARINT" | "PB_LTYPE (ftype f) = PB_LTYPE_FIXED32" | "PB_LTYPE (ftype f) = PB_LTYPE_FIXED64"
    using x by (auto simp: num_item_def Let_def split: if_splits)
  then show ?thesis
  proof cases
    case 1
    with assms(1,2,7) have d: "enc = pb_enc_bool" "dec = pb_dec_bool" "\<forall>x \<in> set xs. bool_item f x"
      by (simp_all add: PB_ENCODERS_def PB_DECODERS_def num_item_def Let_def)
    show ?thesis using bool_item.packed_roundtrip [OF 1 assms(3-6) d(3) assms(8-10) _ assms(12)] assms(11) unfolding d(1,2) by blast
  next
    case 2
    with assms(1,2,7) have d: "enc = pb_enc_varint" "dec = pb_dec_varint" "\<forall>x \<in> set xs. int_item f x"
      by (simp_all add: PB_ENCODERS_def PB_DECODERS_def num_item_def Let_def field_types)
    show ?thesis using vi_item.packed_roundtrip [OF 2 assms(3-6) d(3) assms(8-10) _ assms(12)] assms(11) unfolding d(1,2) by blast
  next
    case 3
    with assms(1,2,7) have d: "enc = pb_enc_uvarint" "dec = pb_dec_uvarint" "\<forall>x \<in> set xs. int_item f x"
      by (simp_all add: PB_ENCODERS_def PB_DECODERS_def num_item_def Let_def field_types)
    show ?thesis using uv_item.packed_roundtrip [OF 3 assms(3-6) d(3) assms(8-10) _ assms(12)] assms(11) unfolding d(1,2) by blast
  next
    case 4
    with assms(1,2,7) have d: "enc = pb_enc_svarint" "dec = pb_dec_svarint" "\<forall>x \<in> set xs. int_item f x"
      by (simp_all add: PB_ENCODERS_def PB_DECODERS_def num_item_def Let_def field_types)
    show ?thesis using sv_item.packed_roundtrip [OF 4 assms(3-6) d(3) assms(8-10) _ assms(12)] assms(11) unfolding d(1,2) by blast
  next
    case 5
    with assms(1,2,7) have d: "enc = pb_enc_fixed32" "dec = pb_dec_fixed32" "\<forall>x \<in> set xs. fixed_item 4 f x"
      by (simp_all add: PB_ENCODERS_def PB_DECODERS_def num_item_def Let_def field_types)
    show ?thesis using f32_item.packed_roundtrip [OF 5 assms(3-6) d(3) assms(8-10) _ assms(12)] assms(11) unfolding d(1,2) by blast
  next
    case 6
    with assms(1,2,7) have d: "enc = pb_enc_fixed64" "dec = pb_dec_fixed64" "\<forall>x \<in> set xs. fixed_item 8 f x"
      by (simp_all add: PB_ENCODERS_def PB_DECODERS_def num_item_def Let_def field_types)
    show ?thesis using f64_item.packed_roundtrip [OF 6 assms(3-6) d(3) assms(8-10) _ assms(12)] assms(11) unfolding d(1,2) by blast
  qed
qed

text \<open>A \<open>uint16\<close> array \<open>{300, 5}\<close>.\<close>

theorem packed_array_roundtrip_witness:
  "\<exists>f s i j. ftype f = 0x22 \<and> encode_array (\<lambda>_. None) (pb_ostream_from_buffer 40) f [44, 1, 5, 0] 2 pb_enc_uvarint = (Some (), s)
     \<and> pb_decode_tag (pb_istream_from_buffer (written s @ [9]) (of_nat (length (written s @ [9])))) = ((Some (PB_WT_STRING, tag f), i), False)
     \<and> decode_static_field pb_dec_uvarint id i PB_WT_STRING f \<lparr>pData = replicate 6 0, pSize = 0, has_size = True\<rparr>
         = (Some (), (j, \<lparr>pData = [44, 1, 5, 0, 0, 0], pSize = 2, has_size = True\<rparr>))"
proof -
  define f where "f = \<lparr>tag = 7, ftype = 0x22, data_size = 2, array_size = 3\<rparr>"
  define s where "s = snd (encode_array (\<lambda>_. None) (pb_ostream_from_buffer 40) f [44, 1, 5, 0] 2 pb_enc_uvarint)"
  have "fst (encode_array (\<lambda>_. None) (pb_ostream_from_buffer 40) f [44, 1, 5, 0] 2 pb_enc_uvarint) = Some ()" unfolding f_def by code_simp
  then have e: "encode_array (\<lambda>_. None) (pb_ostream_from_buffer 40) f [44, 1, 5, 0] 2 pb_enc_uvarint = (Some (), s)" by (simp add: s_def prod_eq_iff)
  have l: "length (written s) = 5" unfolding s_def f_def by code_simp
  have t: "PB_LTYPE (ftype f) = 2" "PB_HTYPE (ftype f) = PB_HTYPE_REPEATED" "PB_ATYPE (ftype f) = PB_ATYPE_STATIC" unfolding f_def by code_simp+
  have d: "PB_ENCODERS pb_enc_bool (PB_LTYPE (ftype f)) = Some pb_enc_uvarint" "PB_DECODERS pb_dec_bool (PB_LTYPE (ftype f)) = Some pb_dec_uvarint"
    by (simp_all add: t PB_ENCODERS_def PB_DECODERS_def field_types)
  have i: "\<forall>x \<in> set [[44, 1], [5, 0]]. num_item f x" using t(1) by (simp add: num_item_def field_types int_item_def int_size_def Let_def) (simp add: f_def)
  have tg: "tag_ok (PB_WT_STRING, tag f)" by (simp add: f_def tag_ok_def PB_WT_STRING_def)
  have b: "unat (data_size f) * unat (array_size f) < 2 ^ 32" "length [[44, 1], [5, 0 :: u8]] \<le> unat (array_size f)" by (simp_all add: f_def)
  have e': "encode_array (\<lambda>_. None) (pb_ostream_from_buffer 40) f (concat [[44, 1], [5, 0]] @ []) (of_nat (length [[44, 1], [5, 0 :: u8]])) pb_enc_uvarint = (Some (), s)"
    using e by simp
  have r: "length (written s @ [9]) < 2 ^ 64" using l by simp
  have m: "concat [[44, 1], [5, 0 :: u8]] @ drop (length (concat [[44, 1], [5, 0 :: u8]])) (replicate 6 0) = [44, 1, 5, 0, 0, 0]"
    "of_nat (length [[44, 1], [5, 0 :: u8]]) = (2 :: u32)" by code_simp+
  have "[[44, 1], [5, 0 :: u8]] \<noteq> []" "10 * length [[44, 1], [5, 0 :: u8]] < 2 ^ 32" by simp_all
  from packed_array_roundtrip [OF d t(2,3) tg b(1) i this(1) b(2) this(2) e' r, where set_defaults = id and mem = "replicate 6 0" and h = True]
  obtain i' j where "pb_decode_tag (pb_istream_from_buffer (written s @ [9]) (of_nat (length (written s @ [9])))) = ((Some (PB_WT_STRING, tag f), i'), False)"
     "decode_static_field pb_dec_uvarint id i' PB_WT_STRING f \<lparr>pData = replicate 6 0, pSize = 0, has_size = True\<rparr>
         = (Some (), (j, \<lparr>pData = [44, 1, 5, 0, 0, 0], pSize = 2, has_size = True\<rparr>))" unfolding m by blast
  moreover have "ftype f = 0x22" by (simp add: f_def)
  ultimately show ?thesis using e by blast
qed

subsection \<open>Text and binary fields\<close>

lemma enc_strlen_eq: "\<forall>c \<in> set x. c \<noteq> 0 \<Longrightarrow> unat n + length x < unat limit \<Longrightarrow> enc_strlen n (x @ 0 # junk) limit = n + of_nat (length x)"
proof (induction x arbitrary: n)
  case (Cons c x)
  have "unat n + 1 < 2 ^ 64" using Cons.prems(2) unat_u64_less [of limit] by (simp del: unat_u64_less)
  then have u: "unat (n + 1) = unat n + 1" by (simp add: unat_word_ariths)
  have "n < limit" using Cons.prems(2) by (simp add: word_less_nat_alt)
  then show ?case using Cons u by (simp add: add_ac)
qed simp

lemma pb_encode_string_prefix:
  assumes "length x < 2 ^ 32"
  shows "pb_encode_string s (x @ junk) (of_nat (length x)) = pb_encode_string s x (of_nat (length x))"
proof -
  have u: "unat (of_nat (length x) :: size_t) = length x" using assms by (intro unat_of_nat_small) simp
  have "pb_write t (x @ junk) (of_nat (length x)) = pb_write t x (of_nat (length x))" for t
    unfolding pb_write_def u by simp
  then show ?thesis unfolding pb_encode_string_def by simp
qed

lemma pb_enc_string_emits:
  assumes "\<forall>c \<in> set x. c \<noteq> 0" and "length x < unat (data_size f)" and "os_ok s"
  shows "emits (pb_enc_string s f (Some (x @ 0 # junk))) s (varint_enc (length x) @ x)"
proof -
  define limit :: size_t where "limit = (if PB_ATYPE (ftype f) = PB_ATYPE_POINTER then - 1 else ucast (data_size f))"
  have "unat (- 1 :: size_t) = 2 ^ 64 - 1" by (simp add: unsigned_minus_1_eq_mask mask_eq_exp_minus_1)
  then have "length x < unat limit" using assms(2) unat_u32_less [of "data_size f"] by (auto simp: limit_def simp del: unat_u32_less)
  then have n: "enc_strlen 0 (x @ 0 # junk) limit = of_nat (length x)" using enc_strlen_eq [OF assms(1), of 0 limit] by simp
  have l: "length x < 2 ^ 32" using assms(2) unat_u32_less [of "data_size f"] by (simp del: unat_u32_less)
  have "pb_encode_string s (x @ 0 # junk) (of_nat (length x)) = pb_encode_string s x (of_nat (length x))"
    by (rule pb_encode_string_prefix [OF l])
  then show ?thesis using st.writes [OF l assms(3)] n unfolding pb_enc_string_def Let_def limit_def [symmetric] by simp
qed

lemma read_into_view:
  assumes "is_view s (x @ rest)" and "unat n = length x"
  shows "\<exists>s'. read_into s n mem = (Some (), (s', x @ drop (length x) mem)) \<and> is_view s' rest"
  using pb_read_view [OF assms] by (auto simp: read_into_def reading_def)

lemma pb_dec_string_view:
  assumes "length x < unat (data_size f)" and "length x < length mem" and "is_view s (varint_enc (length x) @ x @ rest)"
  shows "\<exists>s'. pb_dec_string f (s, mem) = (Some (), (s', x @ 0 # drop (length x + 1) mem)) \<and> is_view s' rest"
proof -
  let ?n = "of_nat (length x) :: u32"
  have l: "length x < 2 ^ 32 - 1" using assms(1) unat_u32_less [of "data_size f"] by (simp del: unat_u32_less)
  have u: "unat ?n = length x" using l by (simp add: unat_of_nat)
  then have u1: "unat (?n + 1) = length x + 1" using l by (simp add: unat_word_ariths)
  obtain t where t: "pb_decode_varint32 s = (Some ?n, t)" "is_view t (x @ rest)"
    using pb_decode_varint32_view [of s ?n "x @ rest"] assms(3) u by auto
  have "unat (ucast ?n :: size_t) = length x" using u by (simp only: unat_ucast_widen)
  then obtain t' where r: "read_into t (ucast ?n) mem = (Some (), (t', x @ drop (length x) mem))" "is_view t' rest"
    using read_into_view [OF t(2)] by blast
  have c: "\<not> (ucast (?n + 1) :: size_t) < ucast ?n" "\<not> (ucast (?n + 1) :: size_t) > ucast (data_size f)"
    using assms(1) by (simp_all only: word_less_nat_alt unat_ucast_widen u u1)
  obtain y ys where "drop (length x) mem = y # ys" "ys = drop (length x + 1) mem"
    using assms(2) by (metis Cons_nth_drop_Suc Suc_eq_plus1)
  then have "(x @ drop (length x) mem)[unat ?n := 0] = x @ 0 # drop (length x + 1) mem" unfolding u by (simp add: list_update_append)
  then show ?thesis using t r c by (simp add: pb_dec_string_def reading_def string_body_def Let_def)
qed

lemma load_le_bytes: "(load 4 (le_bytes 4 v) :: u32) = v"
proof -
  have "le_bytes 4 (load 4 (le_bytes 4 v) :: u32) = le_bytes 4 v" using le_bytes_load [of "le_bytes 4 v" 4 "[]", where 'a = 32] by simp
  then show ?thesis using le_join32 [of v] le_join32 [of "load 4 (le_bytes 4 v)"] by simp
qed

lemma pb_enc_bytes_emits:
  assumes "length x + 4 \<le> unat (data_size f)" and "os_ok s"
  shows "emits (pb_enc_bytes s f (Some (le_bytes 4 (of_nat (length x) :: u32) @ x @ junk))) s (varint_enc (length x) @ x)"
proof -
  let ?n = "of_nat (length x) :: u32"
  have l: "length x < 2 ^ 32" using assms(1) unat_u32_less [of "data_size f"] by (simp del: unat_u32_less)
  have u: "unat ?n = length x" using l by (simp add: unat_of_nat)
  have ld: "(load 4 (le_bytes 4 ?n @ x @ junk) :: u32) = ?n"
    using load_le_bytes [of ?n] by simp
  have c: "(ucast ?n :: size_t) = of_nat (length x)" by (simp only: word_unat_eq_iff unat_ucast_widen u) (use l in \<open>simp add: unat_of_nat\<close>)
  have "unat (ucast (data_size f) - 4 :: size_t) = unat (data_size f) - 4"
  proof -
    have "4 \<le> (ucast (data_size f) :: size_t)" using assms(1) by (simp add: word_le_nat_alt)
    then show ?thesis by (simp add: unat_sub)
  qed
  then have "\<not> (ucast ?n :: size_t) > ucast (data_size f) - 4" using assms(1) by (simp only: word_less_nat_alt unat_ucast_widen u)
  moreover have "pb_encode_string s (x @ junk) (of_nat (length x)) = pb_encode_string s x (of_nat (length x))"
    by (rule pb_encode_string_prefix [OF l])
  ultimately show ?thesis using st.writes [OF l assms(2)] ld by (simp add: pb_enc_bytes_def Let_def c)
qed

lemma pb_dec_bytes_view:
  assumes "length x + 4 \<le> unat (data_size f)" and "length x + 4 \<le> length mem" and "is_view s (varint_enc (length x) @ x @ rest)"
  shows "\<exists>s'. pb_dec_bytes f (s, mem) = (Some (), (s', le_bytes 4 (of_nat (length x) :: u32) @ x @ drop (length x + 4) mem)) \<and> is_view s' rest"
proof -
  let ?n = "of_nat (length x) :: u32"
  have l: "length x < 2 ^ 32 - 4" using assms(1) unat_u32_less [of "data_size f"] by (simp del: unat_u32_less)
  have u: "unat ?n = length x" using l by (simp add: unat_of_nat)
  obtain t where t: "pb_decode_varint32 s = (Some ?n, t)" "is_view t (x @ rest)"
    using pb_decode_varint32_view [of s ?n "x @ rest"] assms(3) u by auto
  have un: "unat (ucast ?n :: size_t) = length x" using u by (simp only: unat_ucast_widen)
  obtain t' where r: "read_into t (ucast ?n) (drop 4 mem) = (Some (), (t', x @ drop (length x) (drop 4 mem)))" "is_view t' rest"
    using read_into_view [OF t(2) un] by blast
  have "unat (PB_BYTES_ARRAY_T_ALLOCSIZE ?n) = length x + 4"
    unfolding PB_BYTES_ARRAY_T_ALLOCSIZE_def unat_word_ariths un using l by simp
  then have c: "\<not> ucast ?n > PB_BYTES_ARRAY_T_ALLOCSIZE ?n" "\<not> PB_BYTES_ARRAY_T_ALLOCSIZE ?n > ucast (data_size f)"
    using assms(1) by (simp_all only: word_less_nat_alt unat_ucast_widen u)
  then show ?thesis using t r by (simp add: pb_dec_bytes_def reading_def bytes_body_def store_def Let_def)
qed

lemma written_view:
  assumes "emits (Some (), s) (pb_ostream_from_buffer m) e" and "length e < 2 ^ 63"
  shows "is_view (pb_istream_from_buffer (written s @ rest) (bytes_written s)) (e @ [])"
proof -
  have "s = emitted (pb_ostream_from_buffer m) e" using assms(1) by (auto simp: emits_def split: if_splits)
  then have s: "written s = e" "bytes_written s = of_nat (length e)" by (simp_all add: emitted_def pb_ostream_from_buffer_def)
  show ?thesis unfolding s using assms(2) by (simp add: is_view_def pb_istream_from_buffer_def unat_of_nat)
qed

text \<open>
  String and bytes fields of a struct survive the round trip: a zero-terminated string shorter than
  the field is read back with its terminator, a \<open>pb_bytes_array_t\<close> with its size, and the memory behind
  them in the receiving struct is left as it was.
\<close>

lemma pb_text_field_roundtrip:
  assumes "\<forall>c \<in> set x. c \<noteq> 0" and "length x < unat (data_size f)" and "unat (data_size f) \<le> length mem"
    and "pb_enc_string (pb_ostream_from_buffer m) f (Some (x @ 0 # junk)) = (Some (), s)"
    and "length y + 4 \<le> unat (data_size g)" and "unat (data_size g) \<le> length mem"
    and "pb_enc_bytes (pb_ostream_from_buffer m) g (Some (le_bytes 4 (of_nat (length y) :: u32) @ y @ junk)) = (Some (), t)"
  shows "(\<exists>i. pb_dec_string f (pb_istream_from_buffer (written s @ rest) (bytes_written s), mem) = (Some (), (i, x @ 0 # drop (length x + 1) mem))
             \<and> bytes_left i = 0)
       \<and> (\<exists>i. pb_dec_bytes g (pb_istream_from_buffer (written t @ rest) (bytes_written t), mem)
             = (Some (), (i, le_bytes 4 (of_nat (length y) :: u32) @ y @ drop (length y + 4) mem)) \<and> bytes_left i = 0)"
proof -
  have o: "os_ok (pb_ostream_from_buffer m)" by (simp add: os_ok_def pb_ostream_from_buffer_def)
  have lx: "length x < 2 ^ 32" using assms(2) unat_u32_less [of "data_size f"] by (simp del: unat_u32_less)
  have ly: "length y < 2 ^ 32" using assms(5) unat_u32_less [of "data_size g"] by (simp del: unat_u32_less)
  have vx: "is_view (pb_istream_from_buffer (written s @ rest) (bytes_written s)) (varint_enc (length x) @ x @ [])"
    using written_view [of s m "varint_enc (length x) @ x" rest] pb_enc_string_emits [OF assms(1,2) o, of junk] assms(4) st.short [OF lx] by simp
  have vy: "is_view (pb_istream_from_buffer (written t @ rest) (bytes_written t)) (varint_enc (length y) @ y @ [])"
    using written_view [of t m "varint_enc (length y) @ y" rest] pb_enc_bytes_emits [OF assms(5) o, of junk] assms(7) st.short [OF ly] by simp
  have "length x < length mem" "length y + 4 \<le> length mem" using assms(2,3,5,6) by simp_all
  then show ?thesis
    using pb_dec_string_view [OF assms(2) _ vx] pb_dec_bytes_view [OF assms(5) _ vy] by (fastforce simp: is_view_def unat_eq_0)
qed

end
