(* ===== verification/Idna.thy ===== *)
theory Idna
  imports Unicode
begin

section \<open>Internationalised host names (Libuv-gRPC/src/idna.c)\<close>

text \<open>
  UTF-8 decoding and the conversion of host names to the ASCII form of RFC 3490 and RFC 3492. Pointers
  into the host name are indices into the block of memory \<open>mem\<close> that holds it; a read outside the block
  is undefined behaviour and has the result \<open>None\<close>. The output is the list of the bytes written, at most
  \<open>cap\<close> of them (\<open>de - d\<close> at the start). \<open>(unsigned) -1\<close> marks an invalid sequence.
\<close>

datatype uv_error = UV_EINVAL | UV_E2BIG

definition byte_at :: "bytes \<Rightarrow> nat \<Rightarrow> u32 option" where
  "byte_at mem p = (if p < length mem then Some (ucast (mem ! p)) else None)"

subsection \<open>UTF-8\<close>

text \<open>The checks that follow the \<open>switch\<close>: continuation bytes, overlong forms, range, surrogates.\<close>

definition utf8_finish :: "u32 \<Rightarrow> u32 \<Rightarrow> u32 \<Rightarrow> u32 \<Rightarrow> u32 \<Rightarrow> u32" where
  "utf8_finish mn a b c d =
     (if 0x80 \<noteq> 0xC0 AND (b XOR c XOR d) then - 1
      else
        let b = b AND 63; c = c AND 63; d = d AND 63;
            a = push_bit 18 a OR push_bit 12 b OR push_bit 6 c OR d
        in if a < mn then - 1
           else if a > 0x10FFFF then - 1
           else if a \<ge> 0xD800 \<and> a \<le> 0xDFFF then - 1
           else a)"

text \<open>The code point (or -1) and the position after it. The \<open>switch\<close> is on \<open>*p - pe\<close>.\<close>

definition uv__utf8_decode1_slow :: "bytes \<Rightarrow> nat \<Rightarrow> nat \<Rightarrow> u32 \<Rightarrow> (u32 \<times> nat) option" where
  "uv__utf8_decode1_slow mem p pe a =
     (let left = int p - int pe in
      if a > 0xF7 then Some (- 1, p)
      else if left \<noteq> 2 \<and> left \<noteq> 1 \<and> a > 0xEF
      then case (byte_at mem p, byte_at mem (p + 1), byte_at mem (p + 2)) of
             (Some b, Some c, Some d) \<Rightarrow> Some (utf8_finish 0x10000 (a AND 7) b c d, p + 3)
           | _ \<Rightarrow> None
      else if left \<noteq> 1 \<and> a > 0xDF
      then case (byte_at mem p, byte_at mem (p + 1)) of
             (Some c, Some d) \<Rightarrow> Some (utf8_finish 0x800 0 (0x80 OR (a AND 15)) c d, p + 2)
           | _ \<Rightarrow> None
      else if a > 0xBF
      then case byte_at mem p of
             Some d \<Rightarrow> Some (utf8_finish 0x80 0 0x80 (0x80 OR (a AND 31)) d, p + 1)
           | None \<Rightarrow> None
      else Some (- 1, p))"

definition uv__utf8_decode1 :: "bytes \<Rightarrow> nat \<Rightarrow> nat \<Rightarrow> (u32 \<times> nat) option" where
  "uv__utf8_decode1 mem p pe =
     (case byte_at mem p of
        None \<Rightarrow> None
      | Some a \<Rightarrow> if a < 128 then Some (a, p + 1) else uv__utf8_decode1_slow mem (p + 1) pe a)"

lemma decode1_advances: "uv__utf8_decode1 mem p pe = Some (c, q) \<Longrightarrow> p < q"
  by (auto simp: uv__utf8_decode1_def uv__utf8_decode1_slow_def Let_def split: if_splits option.splits)

text \<open>
  The values for which the body of a \<open>foreach_codepoint\<close> loop runs. A code point is decoded as long as
  \<open>*p <= pe\<close>, also at \<open>pe\<close> itself, and the body runs when \<open>*p <= pe\<close> still holds after it. The loops that
  end early only leave out reads that an earlier loop over the same range has made.
\<close>

function foreach_codepoint :: "bytes \<Rightarrow> nat \<Rightarrow> nat \<Rightarrow> u32 list option" where
  "foreach_codepoint mem p pe =
     (if p \<le> pe
      then case uv__utf8_decode1 mem p pe of
             None \<Rightarrow> None
           | Some (c, q) \<Rightarrow>
               if q \<le> pe then (case foreach_codepoint mem q pe of None \<Rightarrow> None | Some cs \<Rightarrow> Some (c # cs)) else Some []
      else Some [])"
  by pat_completeness auto
termination
  by (relation "measure (\<lambda>(mem, p, pe). Suc pe - p)") (auto dest: decode1_advances)

declare foreach_codepoint.simps [simp del]

subsection \<open>Punycode\<close>

definition put :: "nat \<Rightarrow> u8 \<Rightarrow> bytes \<Rightarrow> bytes" where
  "put cap b d = (if length d < cap then d @ [b] else d)"

definition alphabet :: bytes where
  "alphabet = map (\<lambda>i. 97 + of_nat i) [0..<26] @ map (\<lambda>i. 48 + of_nat i) [0..<10]"

definition threshold :: "u32 \<Rightarrow> u32 \<Rightarrow> u32" where
  "threshold k bias = (let t = (if k > bias then k - bias else 1) in if t > 26 then 26 else t)"

lemma threshold_bounds: "1 \<le> threshold k bias" "threshold k bias \<le> 26"
proof -
  have "1 \<le> k - bias" if "k > bias"
  proof -
    have "k - bias \<noteq> 0" using that by auto
    then show ?thesis by (simp add: word_le_nat_alt Suc_leI unat_gt_0)
  qed
  then show "1 \<le> threshold k bias" "threshold k bias \<le> 26" by (auto simp: threshold_def Let_def)
qed

lemma vli_less: "\<not> q < threshold k bias \<Longrightarrow> unat ((q - threshold k bias) div (36 - threshold k bias)) < unat q"
proof -
  assume q: "\<not> q < threshold k bias"
  have t: "1 \<le> unat (threshold k bias)" "unat (threshold k bias) \<le> 26" using threshold_bounds [of k bias] by (simp_all add: word_le_nat_alt)
  have le: "unat (threshold k bias) \<le> unat q" using q by (simp add: word_less_nat_alt)
  have "unat ((q - threshold k bias) div (36 - threshold k bias)) \<le> unat (q - threshold k bias)" by (simp add: unat_div)
  also have "\<dots> < unat q" using t le by (simp add: unat_sub word_le_nat_alt)
  finally show ?thesis .
qed

function vli_loop :: "nat \<Rightarrow> u32 \<Rightarrow> u32 \<Rightarrow> u32 \<Rightarrow> bytes \<Rightarrow> bytes" where
  "vli_loop cap bias k q d =
     (let t = threshold k bias in
      if q < t then put cap (alphabet ! unat q) d
      else
        let x = q - t; y = 36 - t; q = x div y; t = t + x mod y
        in vli_loop cap bias (k + 36) q (put cap (alphabet ! unat t) d))"
  by pat_completeness auto
termination
  by (relation "measure (\<lambda>(cap, bias, k, q, d). unat q)") (auto dest: vli_less)

declare vli_loop.simps [simp del]

function bias_loop :: "u32 \<Rightarrow> u32 \<Rightarrow> u32 \<times> u32" where
  "bias_loop bias delta = (if delta > 35 * 26 div 2 then bias_loop (bias + 36) (delta div 35) else (bias, delta))"
  by pat_completeness auto
termination
proof (relation "measure (\<lambda>(bias, delta). unat delta)", goal_cases)
  case (2 bias delta)
  then have "455 < unat delta" by (simp add: word_less_nat_alt)
  then have "unat delta div 35 < unat delta" by simp
  then show ?case by (simp add: unat_div)
qed simp

declare bias_loop.simps [simp del]

record puny =
  h :: u32
  bias :: u32
  delta :: u32
  first :: bool
  todo :: u32
  dst :: bytes

text \<open>The code point \<open>n\<close> is written and the bias adapted.\<close>

definition encode_cp :: "nat \<Rightarrow> puny \<Rightarrow> puny" where
  "encode_cp cap st =
     (let d = vli_loop cap (bias st) 36 (delta st) (dst st);
          del = delta st div 2;
          del = (if first st then del div 350 else del);
          h' = h st + 1;
          del = del + del div h';
          (b, del) = bias_loop 0 del;
          b = b + 36 * del div (del + 38)
      in st\<lparr>h := h', bias := b, delta := 0, first := False, todo := todo st - 1, dst := d\<rparr>)"

fun each_cp :: "nat \<Rightarrow> u32 \<Rightarrow> u32 list \<Rightarrow> puny \<Rightarrow> uv_error + puny" where
  "each_cp cap n [] st = Inr st"
| "each_cp cap n (c # cs) st =
     (let st = (if c < n then st\<lparr>delta := delta st + 1\<rparr> else st) in
      if c < n \<and> delta st = 0 then Inl UV_E2BIG
      else if c \<noteq> n then each_cp cap n cs st
      else each_cp cap n cs (encode_cp cap st))"

definition next_cp :: "u32 \<Rightarrow> u32 list \<Rightarrow> u32" where
  "next_cp n cs = foldl (\<lambda>m c. if c \<ge> n \<and> c < m then c else m) (- 1) cs"

text \<open>\<open>None\<close> would mean that the loop does not end.\<close>

partial_function (option) todo_loop :: "nat \<Rightarrow> u32 list \<Rightarrow> u32 \<Rightarrow> puny \<Rightarrow> (uv_error + puny) option" where
  "todo_loop cap cs n st =
     (if todo st > 0
      then
        let m = next_cp n cs; x = m - n; y = h st + 1 in
        if x > NOT (delta st) div y then Some (Inl UV_E2BIG)
        else
          let r = each_cp cap m cs (st\<lparr>delta := delta st + x * y\<rparr>) in
          if isl r then Some (Inl (projl r))
          else todo_loop cap cs (m + 1) ((projr r)\<lparr>delta := delta (projr r) + 1\<rparr>)
      else Some (Inr st))"

declare todo_loop.simps [code]

text \<open>Counting the code points: \<open>h\<close> ASCII ones and \<open>todo\<close> others.\<close>

fun count_cps :: "u32 list \<Rightarrow> u32 \<Rightarrow> u32 \<Rightarrow> uv_error + (u32 \<times> u32)" where
  "count_cps [] hh td = Inr (hh, td)"
| "count_cps (c # cs) hh td =
     (if c < 128 then count_cps cs (hh + 1) td
      else if c = - 1 then Inl UV_EINVAL
      else count_cps cs hh (td + 1))"

fun copy_ascii :: "nat \<Rightarrow> u32 list \<Rightarrow> u32 \<Rightarrow> u32 \<Rightarrow> bytes \<Rightarrow> bytes" where
  "copy_ascii cap [] x hh d = d"
| "copy_ascii cap (c # cs) x hh d =
     (if c > 127 then copy_ascii cap cs x hh d
      else let d = put cap (ucast c) d; x = x + 1 in if x = hh then d else copy_ascii cap cs x hh d)"

text \<open>
  The result is the return value and the output so far; when the function fails, \<open>uv__idna_toascii\<close> fails
  too and nobody looks at the output.
\<close>

definition uv__idna_toascii_label :: "bytes \<Rightarrow> nat \<Rightarrow> nat \<Rightarrow> nat \<Rightarrow> bytes \<Rightarrow> (uv_error + (u32 \<times> bytes)) option" where
  "uv__idna_toascii_label mem s se cap d =
     (case foreach_codepoint mem s se of
        None \<Rightarrow> None
      | Some cs \<Rightarrow>
          (case count_cps cs 0 0 of
             Inl e \<Rightarrow> Some (Inl e)
           | Inr (hh, td) \<Rightarrow>
               let d = (if td > 0 then put cap 45 (put cap 45 (put cap 110 (put cap 120 d))) else d);
                   d = copy_ascii cap cs 0 hh d
               in if td = 0 then Some (Inr (hh, d))
                  else
                    let d = (if hh > 0 then put cap 45 d else d)
                    in case todo_loop cap cs 128 \<lparr>h = hh, bias = 72, delta = 0, first = True, todo = td, dst = d\<rparr> of
                         None \<Rightarrow> None
                       | Some (Inl e) \<Rightarrow> Some (Inl e)
                       | Some (Inr st) \<Rightarrow> Some (Inr (0, dst st))))"

subsection \<open>Host names\<close>

definition is_dot :: "u32 \<Rightarrow> bool" where
  "is_dot c \<longleftrightarrow> c = 46 \<or> c = 0x3002 \<or> c = 0xFF0E \<or> c = 0xFF61"

text \<open>The loop over the labels: the start of the last label and the output, or an error.\<close>

function toascii_loop :: "bytes \<Rightarrow> nat \<Rightarrow> nat \<Rightarrow> nat \<Rightarrow> nat \<Rightarrow> bytes \<Rightarrow> (uv_error + (nat \<times> bytes)) option" where
  "toascii_loop mem s si se cap d =
     (if si < se
      then case uv__utf8_decode1 mem si se of
             None \<Rightarrow> None
           | Some (c, si') \<Rightarrow>
               if \<not> is_dot c then toascii_loop mem s si' se cap d
               else case uv__idna_toascii_label mem s si cap d of
                      None \<Rightarrow> None
                    | Some (Inl e) \<Rightarrow> Some (Inl e)
                    | Some (Inr (_, d)) \<Rightarrow> toascii_loop mem si' si' se cap (put cap 46 d)
      else Some (Inr (s, d)))"
  by pat_completeness auto
termination
  by (relation "measure (\<lambda>(mem, s, si, se, cap, d). se - si)") (auto dest: decode1_advances)

declare toascii_loop.simps [simp del]

text \<open>The bytes written; their number is the value returned.\<close>

definition uv__idna_toascii :: "bytes \<Rightarrow> nat \<Rightarrow> nat \<Rightarrow> nat \<Rightarrow> (uv_error + bytes) option" where
  "uv__idna_toascii mem s se cap =
     (case toascii_loop mem s s se cap [] of
        None \<Rightarrow> None
      | Some (Inl e) \<Rightarrow> Some (Inl e)
      | Some (Inr (s, d)) \<Rightarrow>
          if s < se
          then case uv__idna_toascii_label mem s se cap d of
                 None \<Rightarrow> None
               | Some (Inl e) \<Rightarrow> Some (Inl e)
               | Some (Inr (_, d)) \<Rightarrow> Some (Inr (put cap 0 d))
          else Some (Inr (put cap 0 d)))"

subsection \<open>Decoding what was encoded\<close>

text \<open>Code points as this file accepts them: up to U+10FFFF, without the surrogates.\<close>

definition uv_cp :: "nat \<Rightarrow> bool" where
  "uv_cp n \<longleftrightarrow> n \<le> 0x10FFFF \<and> \<not> (0xD800 \<le> n \<and> n \<le> 0xDFFF)"

lemma valid_cp_uv_cp: "valid_cp n \<Longrightarrow> uv_cp n"
  by (simp add: valid_cp_def uv_cp_def)

lemma unat_and_63: "unat ((w :: u32) AND 63) = unat w mod 64"
  using unat_and_mask [of w 6] by (simp add: mask_eq_exp_minus_1)

lemma cont_bits: "unat (w :: u32) = 128 + x \<Longrightarrow> x < 64 \<Longrightarrow> bit w 7 \<and> \<not> bit w 6"
proof -
  assume w: "unat w = 128 + x" and x: "x < 64"
  have "(128 + x) div 128 = 1" "(128 + x) div 64 = 2" using x by (auto intro!: div_nat_eqI)
  then show ?thesis by (simp add: bit_unat w bit_iff_odd)
qed

lemma xor_check:
  assumes "unat (b :: u32) = 128 + x" "x < 64" "unat c = 128 + y" "y < 64" "unat d = 128 + z" "z < 64"
  shows "0x80 = 0xC0 AND (b XOR c XOR d)"
proof (rule bit_eqI)
  fix n
  have c0: "(0xC0 :: u32) = push_bit 6 (mask 2)" and e80: "(0x80 :: u32) = push_bit 7 1" by (simp_all add: mask_eq_exp_minus_1)
  have "bit (0x80 :: u32) n \<longleftrightarrow> n = 7" unfolding e80 by (simp only: bit_push_bit_iff bit_1_iff possible_bit_word) auto
  moreover have "bit (0xC0 :: u32) n \<longleftrightarrow> n = 6 \<or> n = 7" unfolding c0 by (simp only: bit_push_bit_iff bit_mask_iff possible_bit_word) auto
  moreover note cont_bits [OF assms(1,2)] cont_bits [OF assms(3,4)] cont_bits [OF assms(5,6)]
  ultimately show "bit (0x80 :: u32) n = bit (0xC0 AND (b XOR c XOR d)) n" by (auto simp: bit_and_iff bit_xor_iff)
qed

lemma join_groups:
  assumes "unat a < 8" "unat b = 128 + x" "x < 64" "unat c = 128 + y" "y < 64" "unat d = 128 + z" "z < 64"
  shows "unat (push_bit 18 a OR push_bit 12 (b AND 63) OR push_bit 6 (c AND 63) OR (d AND 63) :: u32) = unat a * 262144 + x * 4096 + y * 64 + z"
proof -
  have m: "unat (b AND 63) = x" "unat (c AND 63) = y" "unat (d AND 63) = z" using assms utf8_lead(2) [of _ 2 64] by (simp_all add: unat_and_63)
  have 1: "unat (push_bit 6 (c AND 63) OR (d AND 63)) = y * 64 + z" using unat_shl_or [of "d AND 63" 6 "c AND 63"] m assms by simp
  have 2: "unat (push_bit 12 (b AND 63) OR push_bit 6 (c AND 63) OR (d AND 63)) = x * 4096 + (y * 64 + z)"
    using unat_shl_or [of "push_bit 6 (c AND 63) OR (d AND 63)" 12 "b AND 63"] m 1 assms by simp
  have 3: "unat (push_bit 18 a OR push_bit 12 (b AND 63) OR push_bit 6 (c AND 63) OR (d AND 63)) = unat a * 262144 + (x * 4096 + (y * 64 + z))"
    using unat_shl_or [of "push_bit 12 (b AND 63) OR push_bit 6 (c AND 63) OR (d AND 63)" 18 a] 2 assms by simp
  then show ?thesis by simp
qed

lemma utf8_finish_value:
  assumes "unat a < 8" "unat b = 128 + x" "x < 64" "unat c = 128 + y" "y < 64" "unat d = 128 + z" "z < 64"
    and "n = unat a * 262144 + x * 4096 + y * 64 + z" and "uv_cp n" and "unat mn \<le> n"
  shows "utf8_finish mn a b c d = of_nat n"
proof -
  let ?v = "push_bit 18 a OR push_bit 12 (b AND 63) OR push_bit 6 (c AND 63) OR (d AND 63) :: u32"
  have v: "unat ?v = n" using join_groups [OF assms(1-7)] assms(8) by simp
  have "?v = of_nat n" using v by (metis of_nat_unat ucast_id)
  moreover have "\<not> ?v < mn" "\<not> ?v > 0x10FFFF" "\<not> (?v \<ge> 0xD800 \<and> ?v \<le> 0xDFFF)"
    using assms(9,10) v by (simp_all only: word_less_nat_alt word_le_nat_alt) (auto simp: uv_cp_def)
  ultimately show ?thesis using xor_check [OF assms(2-7)] unfolding utf8_finish_def Let_def by auto
qed

lemma byte_at_append: "byte_at (pre @ bs @ post) (length pre + i) = (if i < length bs then Some (ucast (bs ! i)) else byte_at (pre @ bs @ post) (length pre + i))"
  by (simp add: byte_at_def nth_append)

lemma unat_lead: "m < 256 \<Longrightarrow> unat (ucast (of_nat m :: u8) :: u32) = m"
  by (simp add: unat_of_nat)

lemma unat_or_80: "unat (w :: u32) < 64 \<Longrightarrow> unat (0x80 OR w) = 128 + unat w"
proof -
  assume w: "unat w < 64"
  have "push_bit 7 1 OR w = push_bit 7 1 + w" using w by (intro shl_or_eq_add) simp
  then show ?thesis using w by (simp add: unat_word_ariths)
qed

lemma decode1_2:
  assumes "length pre + 2 \<le> pe" and "192 \<le> unat A" and "unat A < 224"
  shows "uv__utf8_decode1 (pre @ A # D # post) (length pre) pe = Some (utf8_finish 0x80 0 0x80 (0x80 OR (ucast A AND 31)) (ucast D), length pre + 2)"
proof -
  have "byte_at (pre @ A # D # post) (length pre) = Some (ucast A)" "byte_at (pre @ A # D # post) (length pre + 1) = Some (ucast D)"
    by (simp_all add: byte_at_def nth_append)
  moreover have "\<not> (ucast A :: u32) < 128" "\<not> (ucast A :: u32) > 0xF7" "\<not> (ucast A :: u32) > 0xEF" "\<not> (ucast A :: u32) > 0xDF" "(ucast A :: u32) > 0xBF"
    using assms(2,3) by (simp_all add: word_less_nat_alt)
  ultimately show ?thesis using assms(1) unfolding uv__utf8_decode1_def uv__utf8_decode1_slow_def Let_def by simp
qed

lemma decode1_3:
  assumes "length pre + 3 \<le> pe" and "224 \<le> unat A" and "unat A < 240"
  shows "uv__utf8_decode1 (pre @ A # C # D # post) (length pre) pe = Some (utf8_finish 0x800 0 (0x80 OR (ucast A AND 15)) (ucast C) (ucast D), length pre + 3)"
proof -
  have "byte_at (pre @ A # C # D # post) (length pre) = Some (ucast A)" "byte_at (pre @ A # C # D # post) (length pre + 1) = Some (ucast C)"
    "byte_at (pre @ A # C # D # post) (length pre + 1 + 1) = Some (ucast D)"
    by (simp_all add: byte_at_def nth_append)
  moreover have "\<not> (ucast A :: u32) < 128" "\<not> (ucast A :: u32) > 0xF7" "\<not> (ucast A :: u32) > 0xEF" "(ucast A :: u32) > 0xDF"
    using assms(2,3) by (simp_all add: word_less_nat_alt)
  ultimately show ?thesis using assms(1) unfolding uv__utf8_decode1_def uv__utf8_decode1_slow_def Let_def by simp
qed

lemma decode1_4:
  assumes "length pre + 4 \<le> pe" and "240 \<le> unat A" and "unat A < 248"
  shows "uv__utf8_decode1 (pre @ A # B # C # D # post) (length pre) pe = Some (utf8_finish 0x10000 (ucast A AND 7) (ucast B) (ucast C) (ucast D), length pre + 4)"
proof -
  have "byte_at (pre @ A # B # C # D # post) (length pre) = Some (ucast A)" "byte_at (pre @ A # B # C # D # post) (length pre + 1) = Some (ucast B)"
    "byte_at (pre @ A # B # C # D # post) (length pre + 1 + 1) = Some (ucast C)" "byte_at (pre @ A # B # C # D # post) (length pre + 1 + 2) = Some (ucast D)"
    by (simp_all add: byte_at_def nth_append)
  moreover have "\<not> (ucast A :: u32) < 128" "\<not> (ucast A :: u32) > 0xF7" "(ucast A :: u32) > 0xEF"
    using assms(2,3) by (simp_all add: word_less_nat_alt)
  ultimately show ?thesis using assms(1) unfolding uv__utf8_decode1_def uv__utf8_decode1_slow_def Let_def by simp
qed

lemma decode1_enc:
  assumes "uv_cp n" and "length pre + length (utf8_enc n) \<le> pe"
  shows "uv__utf8_decode1 (pre @ utf8_enc n @ post) (length pre) pe = Some (of_nat n, length pre + length (utf8_enc n))"
proof -
  let ?m = "pre @ utf8_enc n @ post"
  let ?p = "length pre"
  have at: "byte_at ?m (?p + i) = Some (ucast (utf8_enc n ! i))" if "i < length (utf8_enc n)" for i
    using that by (simp add: byte_at_append)
  have cont: "unat (ucast (of_nat (128 + w mod 64) :: u8) :: u32) = 128 + w mod 64" for w using cont_byte [of w] by simp
  have z: "n mod 64 < 64" "n div 64 mod 64 < 64" "n div 4096 mod 64 < 64" by simp_all
  have "n \<le> 0x10FFFF" using assms(1) by (simp add: uv_cp_def)
  then consider (1) "n < 0x80" | (2) "0x80 \<le> n" "n < 0x800" | (3) "0x800 \<le> n" "n < 0x10000" | (4) "0x10000 \<le> n" "n \<le> 0x10FFFF"
    by linarith
  then show ?thesis
  proof cases
    case 1
    then have e: "utf8_enc n = [of_nat n]" by (simp add: utf8_enc_def)
    have u: "unat (ucast (of_nat n :: u8) :: u32) = n" using 1 by (intro unat_lead) simp
    then have "ucast (of_nat n :: u8) = (of_nat n :: u32)" by (metis of_nat_unat ucast_id)
    moreover have "(ucast (of_nat n :: u8) :: u32) < 128" using 1 u by (simp add: word_less_nat_alt)
    ultimately show ?thesis using at [of 0] e by (simp add: uv__utf8_decode1_def)
  next
    case 2
    define a :: u32 where "a = ucast (of_nat (192 + n div 64) :: u8)"
    have e: "utf8_enc n = [of_nat (192 + n div 64), of_nat (128 + n mod 64)]" using 2 by (simp add: utf8_enc_def cont_bytes.simps)
    have q: "n div 64 < 32" using 2 by (simp add: div_less_iff_less_mult)
    have a: "unat a = 192 + n div 64" unfolding a_def using q by (intro unat_lead) simp
    have "unat (a AND 31) = unat a mod 32" using unat_and_mask [of a 5] by (simp add: mask_eq_exp_minus_1)
    then have am: "unat (a AND 31) = n div 64" using a q utf8_lead [of "unat a" 6 32 "n div 64"] by simp
    have "utf8_finish 0x80 0 0x80 (0x80 OR (a AND 31)) (ucast (of_nat (128 + n mod 64) :: u8)) = of_nat n"
      by (rule utf8_finish_value [of _ _ 0 _ "n div 64" _ "n mod 64"]) (use assms(1) 2 q am cont unat_or_80 [of "a AND 31"] in simp_all)
    moreover have "unat a = unat (of_nat (192 + n div 64) :: u8)" unfolding a_def by (simp only: unat_ucast_widen)
    ultimately show ?thesis
      using decode1_2 [of pre pe "of_nat (192 + n div 64)" "of_nat (128 + n mod 64)" post] assms(2) a q unfolding e a_def [symmetric] by (simp del: of_nat_add)
  next
    case 3
    define a :: u32 where "a = ucast (of_nat (224 + n div 4096) :: u8)"
    have e: "utf8_enc n = [of_nat (224 + n div 4096), of_nat (128 + n div 64 mod 64), of_nat (128 + n mod 64)]"
      using 3 by (simp add: utf8_enc_def cont_bytes.simps numeral_2_eq_2)
    have q: "n div 4096 < 16" using 3 by (simp add: div_less_iff_less_mult)
    have a: "unat a = 224 + n div 4096" unfolding a_def using q by (intro unat_lead) simp
    have "unat (a AND 15) = unat a mod 16" using unat_and_mask [of a 4] by (simp add: mask_eq_exp_minus_1)
    then have am: "unat (a AND 15) = n div 4096" using a q utf8_lead [of "unat a" 14 16 "n div 4096"] by simp
    have s: "n = n div 4096 * 4096 + n div 64 mod 64 * 64 + n mod 64" using mod_mult2_eq [of n 64 64] div_mult_mod_eq [of n 4096] by simp
    have "utf8_finish 0x800 0 (0x80 OR (a AND 15)) (ucast (of_nat (128 + n div 64 mod 64) :: u8)) (ucast (of_nat (128 + n mod 64) :: u8)) = of_nat n"
      by (rule utf8_finish_value [of _ _ "n div 4096" _ "n div 64 mod 64" _ "n mod 64"])
        (use assms(1) 3 q am s cont unat_or_80 [of "a AND 15"] in simp_all)
    moreover have "unat a = unat (of_nat (224 + n div 4096) :: u8)" unfolding a_def by (simp only: unat_ucast_widen)
    ultimately show ?thesis
      using decode1_3 [of pre pe "of_nat (224 + n div 4096)" "of_nat (128 + n div 64 mod 64)" "of_nat (128 + n mod 64)" post] assms(2) a q unfolding e a_def [symmetric] by (simp del: of_nat_add)
  next
    case 4
    define a :: u32 where "a = ucast (of_nat (240 + n div 262144) :: u8)"
    have e: "utf8_enc n = [of_nat (240 + n div 262144), of_nat (128 + n div 4096 mod 64), of_nat (128 + n div 64 mod 64), of_nat (128 + n mod 64)]"
      using 4 by (simp add: utf8_enc_def cont_bytes.simps numeral_3_eq_3)
    have q: "n div 262144 < 5" using 4 by (simp add: div_less_iff_less_mult)
    have a: "unat a = 240 + n div 262144" unfolding a_def using q by (intro unat_lead) simp
    have "unat (a AND 7) = unat a mod 8" using unat_and_mask [of a 3] by (simp add: mask_eq_exp_minus_1)
    then have am: "unat (a AND 7) = n div 262144" using a q utf8_lead [of "unat a" 30 8 "n div 262144"] by simp
    have s: "n = n div 262144 * 262144 + n div 4096 mod 64 * 4096 + n div 64 mod 64 * 64 + n mod 64"
      using mod_mult2_eq [of n 64 64] mod_mult2_eq [of n 4096 64] div_mult_mod_eq [of n 262144] by simp
    have "utf8_finish 0x10000 (a AND 7) (ucast (of_nat (128 + n div 4096 mod 64) :: u8)) (ucast (of_nat (128 + n div 64 mod 64) :: u8))
        (ucast (of_nat (128 + n mod 64) :: u8)) = of_nat n"
      by (rule utf8_finish_value [of _ _ "n div 4096 mod 64" _ "n div 64 mod 64" _ "n mod 64"])
        (use assms(1) 4 q am s cont in simp_all)
    moreover have "unat a = unat (of_nat (240 + n div 262144) :: u8)" unfolding a_def by (simp only: unat_ucast_widen)
    ultimately show ?thesis
      using decode1_4 [of pre pe "of_nat (240 + n div 262144)" "of_nat (128 + n div 4096 mod 64)" "of_nat (128 + n div 64 mod 64)" "of_nat (128 + n mod 64)" post] assms(2) a q unfolding e a_def [symmetric] by (simp del: of_nat_add)
  qed
qed

lemma utf8_enc_ne [simp]: "utf8_enc n \<noteq> []"
  by (simp add: utf8_enc_def)

lemma decode1_ascii:
  assumes "unat e < 128"
  shows "uv__utf8_decode1 (pre @ e # post) (length pre) pe = Some (ucast e, length pre + 1)"
  using assms by (simp add: uv__utf8_decode1_def byte_at_def nth_append word_less_nat_alt)

lemma foreach_enc:
  "\<forall>n \<in> set ns. uv_cp n \<Longrightarrow> unat e < 128 \<Longrightarrow>
   foreach_codepoint (pre @ concat (map utf8_enc ns) @ e # post) (length pre) (length pre + length (concat (map utf8_enc ns))) = Some (map of_nat ns)"
proof (induction ns arbitrary: pre)
  case Nil
  then show ?case by (subst foreach_codepoint.simps) (simp add: decode1_ascii)
next
  case (Cons n ns)
  let ?tail = "concat (map utf8_enc ns) @ e # post"
  let ?pe = "length pre + length (concat (map utf8_enc (n # ns)))"
  have d: "uv__utf8_decode1 (pre @ utf8_enc n @ ?tail) (length pre) ?pe = Some (of_nat n, length pre + length (utf8_enc n))"
    using decode1_enc [of n pre ?pe ?tail] Cons.prems(1) by simp
  have "foreach_codepoint ((pre @ utf8_enc n) @ ?tail) (length (pre @ utf8_enc n)) (length (pre @ utf8_enc n) + length (concat (map utf8_enc ns))) = Some (map of_nat ns)"
    by (rule Cons.IH) (use Cons.prems in simp_all)
  then show ?case using d by (subst foreach_codepoint.simps) (simp add: add.assoc)
qed

subsection \<open>ASCII names\<close>

lemma put_take: "put cap b (take cap d) = take cap (d @ [b])"
  by (simp add: put_def min_def)

lemma ascii_concat: "\<forall>b \<in> set bs. unat b < 128 \<Longrightarrow> concat (map utf8_enc (map unat bs)) = bs"
  by (induction bs) (simp_all add: utf8_enc_def)

lemma foreach_ascii:
  assumes "\<forall>b \<in> set bs. unat b < 128" and "unat e < 128"
  shows "foreach_codepoint (pre @ bs @ e # post) (length pre) (length pre + length bs) = Some (map ucast bs)"
proof -
  have "\<forall>n \<in> set (map unat bs). uv_cp n" using assms(1) by (auto simp: uv_cp_def)
  from foreach_enc [OF this assms(2), of pre post] ascii_concat [OF assms(1)] show ?thesis by simp
qed

lemma count_ascii: "\<forall>b \<in> set bs. unat (b :: u8) < 128 \<Longrightarrow> count_cps (map ucast bs) hh td = Inr (hh + of_nat (length bs), td)"
proof (induction bs arbitrary: hh)
  case (Cons b bs)
  then have "(ucast b :: u32) < 128" by (simp add: word_less_nat_alt)
  then show ?case using Cons by (simp add: add_ac)
qed simp

lemma copy_ascii_all:
  "\<forall>b \<in> set bs. unat (b :: u8) < 128 \<Longrightarrow> unat x + length bs = unat hh \<Longrightarrow> copy_ascii cap (map ucast bs) x hh (take cap d) = take cap (d @ bs)"
proof (induction bs arbitrary: x d)
  case (Cons b bs)
  have c: "\<not> (ucast b :: u32) > 127" using Cons.prems(1) by (simp add: word_less_nat_alt not_less)
  have u: "ucast (ucast b :: u32) = b" by (simp add: word_unat_eq_iff unat_ucast_mod)
  show ?case
  proof (cases bs)
    case Nil
    then have "x + 1 = hh" using Cons.prems(2) by (metis Suc_eq_plus1 length_Cons list.size(3) of_nat_Suc of_nat_unat ucast_id add.commute add_0)
    then show ?thesis using Nil c u by (simp add: put_take)
  next
    case more: (Cons b' bs')
    then have "unat x + 1 < unat hh" using Cons.prems(2) by simp
    then have x1: "unat (x + 1) = unat x + 1" using unat_u32_less [of hh] by (simp add: unat_word_ariths del: unat_u32_less)
    then have "x + 1 \<noteq> hh" using \<open>unat x + 1 < unat hh\<close> by auto
    then show ?thesis using Cons.IH [of "x + 1" "d @ [b]"] Cons.prems c u x1 by (simp add: put_take)
  qed
qed simp

lemma label_ascii:
  assumes "\<forall>b \<in> set bs. unat b < 128" and "unat e < 128" and "length bs < 2 ^ 32"
  shows "uv__idna_toascii_label (pre @ bs @ e # post) (length pre) (length pre + length bs) cap (take cap d)
       = Some (Inr (of_nat (length bs), take cap (d @ bs)))"
proof -
  have "unat (of_nat (length bs) :: u32) = length bs" using assms(3) by (simp add: unat_of_nat)
  then have "copy_ascii cap (map ucast bs) 0 (of_nat (length bs)) (take cap d) = take cap (d @ bs)" using copy_ascii_all [OF assms(1), of 0] by simp
  then show ?thesis unfolding uv__idna_toascii_label_def foreach_ascii [OF assms(1,2)] by (simp add: count_ascii [OF assms(1)])
qed

lemma split_at: "s \<le> si \<Longrightarrow> si < length xs \<Longrightarrow> xs @ ys = take s xs @ take (si - s) (drop s xs) @ xs ! si # drop (Suc si) xs @ ys"
  by (metis append.assoc append_Cons append_take_drop_id id_take_nth_drop le_add_diff_inverse take_add)

lemma toascii_loop_ascii:
  assumes "\<forall>b \<in> set xs. unat b < 128" and "unat e < 128" and "length xs < 2 ^ 32"
  shows "s \<le> si \<Longrightarrow> si \<le> length xs \<Longrightarrow>
    \<exists>s'. s' \<le> length xs \<and> toascii_loop (xs @ e # post) s si (length xs) cap (take cap (take s xs)) = Some (Inr (s', take cap (take s' xs)))"
proof (induction "length xs - si" arbitrary: s si)
  case 0
  then show ?case by (subst toascii_loop.simps) auto
next
  case (Suc k)
  then have si: "si < length xs" by simp
  have a: "unat (xs ! si) < 128" using assms(1) si by simp
  have "uv__utf8_decode1 (take si xs @ xs ! si # drop (Suc si) xs @ e # post) (length (take si xs)) (length xs) = Some (ucast (xs ! si), length (take si xs) + 1)"
    by (rule decode1_ascii [OF a])
  moreover have "take si xs @ xs ! si # drop (Suc si) xs @ e # post = xs @ e # post" using split_at [of 0 si xs "e # post"] si by simp
  ultimately have d: "uv__utf8_decode1 (xs @ e # post) si (length xs) = Some (ucast (xs ! si), si + 1)" using si by (simp add: min_def)
  show ?case
  proof (cases "is_dot (ucast (xs ! si))")
    case False
    have "\<exists>s'. s' \<le> length xs \<and> toascii_loop (xs @ e # post) s (si + 1) (length xs) cap (take cap (take s xs)) = Some (Inr (s', take cap (take s' xs)))"
      using Suc.hyps(1) [of "si + 1" s] Suc.hyps(2) Suc.prems si by simp
    then show ?thesis using False si d by (subst toascii_loop.simps) simp
  next
    case True
    let ?bs = "take (si - s) (drop s xs)"
    have dot: "xs ! si = 46"
    proof -
      have "unat (ucast (xs ! si) :: u32) = unat (xs ! si)" by simp
      then have "(ucast (xs ! si) :: u32) = 46" using True a by (auto simp: is_dot_def word_unat_eq_iff)
      then show ?thesis by (simp add: word_unat_eq_iff)
    qed
    have bs: "\<forall>b \<in> set ?bs. unat b < 128" using assms(1) by (meson in_set_dropD in_set_takeD)
    have len: "length ?bs = si - s" "length (take s xs) = s" using si Suc.prems by simp_all
    have tk: "take s xs @ ?bs = take si xs" using Suc.prems(1) by (metis le_add_diff_inverse take_add)
    have "length ?bs < 2 ^ 32" using len si assms(3) by linarith
    from label_ascii [OF bs a this, of "take s xs" "drop (Suc si) xs @ e # post" cap "take s xs"] Suc.prems(1)
    have lab: "uv__idna_toascii_label (xs @ e # post) s si cap (take cap (take s xs)) = Some (Inr (of_nat (si - s), take cap (take si xs)))"
      unfolding len tk split_at [OF Suc.prems(1) si, of "e # post", symmetric] by (simp del: of_nat_diff)
    have "put cap 46 (take cap (take si xs)) = take cap (take (si + 1) xs)" unfolding put_take using dot si by (simp add: take_Suc_conv_app_nth)
    moreover have "\<exists>s'. s' \<le> length xs \<and> toascii_loop (xs @ e # post) (si + 1) (si + 1) (length xs) cap (take cap (take (si + 1) xs)) = Some (Inr (s', take cap (take s' xs)))"
      using Suc.hyps(1) [of "si + 1" "si + 1"] Suc.hyps(2) si by simp
    ultimately show ?thesis using True si d lab by (subst toascii_loop.simps) simp
  qed
qed

subsection \<open>The loops end\<close>

lemma encode_cp_todo [simp]: "todo (encode_cp cap st) = todo st - 1"
  by (simp add: encode_cp_def Let_def split: prod.splits)

lemma each_cp_todo:
  "each_cp cap n cs st = Inr st' \<Longrightarrow> todo st' = todo st - of_nat (length (filter (\<lambda>c. c = n) cs))"
proof (induction cs arbitrary: st)
  case (Cons c cs)
  let ?st = "if c < n then st\<lparr>delta := delta st + 1\<rparr> else st"
  show ?case
  proof (cases "c = n")
    case True
    then have "each_cp cap n cs (encode_cp cap st) = Inr st'" using Cons.prems by simp
    then show ?thesis using Cons.IH True by simp
  next
    case False
    then have "each_cp cap n cs ?st = Inr st'" using Cons.prems by (auto simp: Let_def split: if_splits)
    from Cons.IH [OF this] False show ?thesis by simp
  qed
qed simp

text \<open>The next code point is the smallest one at or above \<open>n\<close>.\<close>

definition lower_cp :: "u32 \<Rightarrow> u32 \<Rightarrow> u32 \<Rightarrow> u32" where
  "lower_cp n m c = (if c \<ge> n \<and> c < m then c else m)"

lemma lower_cp_fold_le: "foldl (lower_cp n) a cs \<le> a"
proof (induction cs arbitrary: a)
  case (Cons c cs)
  have "lower_cp n a c \<le> a" by (auto simp: lower_cp_def)
  then show ?case using Cons.IH [of "lower_cp n a c"] by (simp add: order_trans)
qed simp

lemma lower_cp_fold_least: "c \<in> set cs \<Longrightarrow> n \<le> c \<Longrightarrow> foldl (lower_cp n) a cs \<le> c"
proof (induction cs arbitrary: a)
  case (Cons d cs)
  show ?case
  proof (cases "c = d")
    case True
    then have "lower_cp n a d \<le> c" using Cons.prems(2) by (auto simp: lower_cp_def)
    then show ?thesis using lower_cp_fold_le [of n "lower_cp n a d" cs] by (simp add: order_trans)
  qed (use Cons in simp)
qed simp

lemma lower_cp_fold_in: "foldl (lower_cp n) a cs = a \<or> foldl (lower_cp n) a cs \<in> set cs \<and> n \<le> foldl (lower_cp n) a cs"
proof (induction cs arbitrary: a)
  case (Cons c cs)
  have "lower_cp n a c = a \<or> lower_cp n a c = c \<and> n \<le> c" by (auto simp: lower_cp_def)
  then show ?case using Cons.IH [of "lower_cp n a c"] by auto
qed simp

lemma next_cp_eq: "next_cp n cs = foldl (lower_cp n) (- 1) cs"
  unfolding next_cp_def lower_cp_def by (rule refl)

lemma next_cp_least:
  assumes "c \<in> set cs" and "n \<le> c" and "\<forall>c \<in> set cs. c \<noteq> - 1"
  shows "next_cp n cs \<in> set cs" "n \<le> next_cp n cs" "\<And>x. x \<in> set cs \<Longrightarrow> n \<le> x \<Longrightarrow> next_cp n cs \<le> x" "next_cp n cs \<noteq> - 1"
proof -
  have "next_cp n cs \<le> c" unfolding next_cp_eq using lower_cp_fold_least [OF assms(1,2)] .
  moreover have "c \<noteq> - 1" using assms(1,3) by blast
  ultimately have ne: "next_cp n cs \<noteq> - 1" by (metis word_order.extremum_uniqueI)
  then show "next_cp n cs \<in> set cs" "n \<le> next_cp n cs" "next_cp n cs \<noteq> - 1"
    using lower_cp_fold_in [of n "- 1" cs] unfolding next_cp_eq by blast+
  show "next_cp n cs \<le> x" if "x \<in> set cs" "n \<le> x" for x unfolding next_cp_eq using lower_cp_fold_least [OF that] .
qed

lemma succ_le_word: "m \<noteq> - 1 \<Longrightarrow> m + 1 \<le> (c :: u32) \<longleftrightarrow> m < c"
proof -
  assume "m \<noteq> - 1"
  then have "1 + m \<noteq> 0" by (metis add.commute eq_neg_iff_add_eq_0)
  then have "unat (m + 1) = Suc (unat m)" using unatSuc [of m] by (simp add: add.commute)
  then show ?thesis by (simp only: word_le_nat_alt word_less_nat_alt Suc_le_eq)
qed

lemma todo_split:
  assumes "\<forall>c \<in> set cs. n \<le> c \<longrightarrow> m \<le> c" and "n \<le> m" and "m \<noteq> - 1"
  shows "length (filter (\<lambda>c. n \<le> c) cs) = length (filter (\<lambda>c. c = m) cs) + length (filter (\<lambda>c. m + 1 \<le> (c :: u32)) cs)"
  using assms(1)
proof (induction cs)
  case (Cons c cs)
  consider "c < n" | "n \<le> c" "c = m" | "n \<le> c" "m < c" using Cons.prems by force
  then show ?case using Cons assms(2,3) by cases (auto simp: succ_le_word not_less)
qed simp

text \<open>No step writes past the end of the output.\<close>

lemma put_le: "length d \<le> cap \<Longrightarrow> length (put cap b d) \<le> cap"
  by (simp add: put_def)

lemma vli_loop_le: "length d \<le> cap \<Longrightarrow> length (vli_loop cap b k q d) \<le> cap"
proof (induction cap b k q d rule: vli_loop.induct)
  case (1 cap b k q d)
  show ?case
  proof (cases "q < threshold k b")
    case False
    then show ?thesis using "1.IH" "1.prems" by (subst vli_loop.simps) (simp add: Let_def put_le)
  qed (use "1.prems" in \<open>simp add: vli_loop.simps Let_def put_le\<close>)
qed

lemma encode_cp_le: "length (dst st) \<le> cap \<Longrightarrow> length (dst (encode_cp cap st)) \<le> cap"
  by (simp add: encode_cp_def Let_def vli_loop_le split: prod.splits)

lemma each_cp_le: "each_cp cap n cs st = Inr st' \<Longrightarrow> length (dst st) \<le> cap \<Longrightarrow> length (dst st') \<le> cap"
proof (induction cs arbitrary: st)
  case (Cons c cs)
  let ?st = "if c < n then st\<lparr>delta := delta st + 1\<rparr> else st"
  have d: "length (dst ?st) \<le> cap" using Cons.prems(2) by simp
  have "each_cp cap n cs ?st = Inr st' \<or> each_cp cap n cs (encode_cp cap ?st) = Inr st'"
    using Cons.prems(1) by (auto simp: Let_def split: if_splits)
  then show ?case using Cons.IH d encode_cp_le by blast
qed simp

lemma copy_ascii_le: "length d \<le> cap \<Longrightarrow> length (copy_ascii cap cs x hh d) \<le> cap"
  by (induction cap cs x hh d rule: copy_ascii.induct) (simp_all add: Let_def put_le)

definition dst_le :: "nat \<Rightarrow> uv_error + puny \<Rightarrow> bool" where
  "dst_le cap r = (case r of Inl e \<Rightarrow> True | Inr st \<Rightarrow> length (dst st) \<le> cap)"

lemma todo_loop_ends:
  assumes "\<forall>c \<in> set cs. c \<noteq> - 1" and "length cs < 2 ^ 32"
  shows "unat (todo st) = length (filter (\<lambda>c. n \<le> c) cs) \<Longrightarrow> length (dst st) \<le> cap \<Longrightarrow> \<exists>r. todo_loop cap cs n st = Some r \<and> dst_le cap r"
proof (induction "length (filter (\<lambda>c. n \<le> c) cs)" arbitrary: n st rule: less_induct)
  case less
  show ?case
  proof (cases "todo st > 0")
    case False
    then show ?thesis using less.prems(2) by (subst todo_loop.simps) (simp add: dst_le_def)
  next
    case True
    then have "filter (\<lambda>c. n \<le> c) cs \<noteq> []" using less.prems by (auto simp: word_gt_0 unat_eq_0)
    then obtain c where c: "c \<in> set cs" "n \<le> c" by (metis (mono_tags) filter_False)
    let ?m = "next_cp n cs"
    note m = next_cp_least [OF c assms(1)]
    have split: "length (filter (\<lambda>c. n \<le> c) cs) = length (filter (\<lambda>c. c = ?m) cs) + length (filter (\<lambda>c. ?m + 1 \<le> c) cs)"
      by (rule todo_split) (use m in auto)
    have pos: "0 < length (filter (\<lambda>c. c = ?m) cs)" using m(1) by (simp add: filter_empty_conv)
    define r where "r = each_cp cap ?m cs (st\<lparr>delta := delta st + (?m - n) * (h st + 1)\<rparr>)"
    have "\<exists>x. todo_loop cap cs (?m + 1) (st'\<lparr>delta := delta st' + 1\<rparr>) = Some x \<and> dst_le cap x" if "r = Inr st'" for st'
    proof (rule less.hyps)
      show "length (filter (\<lambda>c. ?m + 1 \<le> c) cs) < length (filter (\<lambda>c. n \<le> c) cs)" using split pos by linarith
      have k: "length (filter (\<lambda>c. c = ?m) cs) < 2 ^ 32" using assms(2) length_filter_le [of "\<lambda>c. c = ?m" cs] by linarith
      have t: "todo st' = todo st - of_nat (length (filter (\<lambda>c. c = ?m) cs))" using each_cp_todo that by (fastforce simp: r_def)
      have "unat (of_nat (length (filter (\<lambda>c. c = ?m) cs)) :: u32) = length (filter (\<lambda>c. c = ?m) cs)" using k by (simp add: unat_of_nat)
      moreover have "of_nat (length (filter (\<lambda>c. c = ?m) cs)) \<le> todo st"
        using split less.prems calculation unfolding word_le_nat_alt [of "of_nat (length (filter (\<lambda>c. c = ?m) cs))"] by linarith
      ultimately have "unat (todo st') = unat (todo st) - length (filter (\<lambda>c. c = ?m) cs)" unfolding t by (simp add: unat_sub)
      then show "unat (todo (st'\<lparr>delta := delta st' + 1\<rparr>)) = length (filter (\<lambda>c. ?m + 1 \<le> c) cs)" using split less.prems(1) by simp
      show "length (dst (st'\<lparr>delta := delta st' + 1\<rparr>)) \<le> cap" using each_cp_le [of cap ?m cs] that less.prems(2) by (fastforce simp: r_def)
    qed
    then show ?thesis using True by (subst todo_loop.simps) (cases r; auto simp: Let_def r_def dst_le_def)
  qed
qed

lemma count_cps_todo:
  "count_cps cs hh td = Inr (hh', td') \<Longrightarrow> unat td + length cs < 2 ^ 32 \<Longrightarrow>
   unat td' = unat td + length (filter (\<lambda>c. 128 \<le> c) cs) \<and> (\<forall>c \<in> set cs. c \<noteq> - 1)"
proof (induction cs arbitrary: hh td)
  case (Cons c cs)
  show ?case
  proof (cases "c < 128")
    case True
    moreover have "c \<noteq> - 1" using True by auto
    ultimately show ?thesis using Cons.IH [of "hh + 1" td] Cons.prems by (simp add: not_less)
  next
    case False
    then have n: "c \<noteq> - 1" "count_cps cs hh (td + 1) = Inr (hh', td')" using Cons.prems(1) by (auto split: if_splits)
    have "unat (td + 1) = unat td + 1" using Cons.prems(2) by (simp add: unat_word_ariths)
    then show ?thesis using Cons.IH [OF n(2)] Cons.prems(2) n(1) False by (simp add: not_less)
  qed
qed simp

lemma if_Some_ex: "\<exists>r. x = Some r \<and> P r \<Longrightarrow> \<exists>r. y = Some r \<and> P r \<Longrightarrow> \<exists>r. (if b then x else y) = Some r \<and> P r"
  by simp

definition out_le :: "nat \<Rightarrow> uv_error + (u32 \<times> bytes) \<Rightarrow> bool" where
  "out_le cap r = (case r of Inl e \<Rightarrow> True | Inr (n, d) \<Rightarrow> length d \<le> cap)"

lemma label_ends:
  assumes "foreach_codepoint mem s se = Some cs" and "length cs < 2 ^ 32" and "length d \<le> cap"
  shows "\<exists>r. uv__idna_toascii_label mem s se cap d = Some r \<and> out_le cap r"
proof (cases "count_cps cs 0 0")
  case (Inl e)
  then show ?thesis using assms(1) by (simp add: uv__idna_toascii_label_def out_le_def)
next
  case (Inr p)
  obtain hh td where p: "p = (hh, td)" by (cases p)
  have t: "unat td = length (filter (\<lambda>c. 128 \<le> c) cs)" "\<forall>c \<in> set cs. c \<noteq> - 1"
    using count_cps_todo [of cs 0 0 hh td] Inr p assms(2) by simp_all
  have "\<exists>r. todo_loop cap cs 128 \<lparr>h = hh, bias = 72, delta = 0, first = True, todo = td, dst = d'\<rparr> = Some r \<and> dst_le cap r" if "length d' \<le> cap" for d'
    by (rule todo_loop_ends [OF t(2) assms(2)]) (simp_all add: t(1) that)
  note ends = this
  have c: "\<exists>r. (case todo_loop cap cs 128 \<lparr>h = hh, bias = 72, delta = 0, first = True, todo = td, dst = d'\<rparr> of
      None \<Rightarrow> None | Some (Inl e) \<Rightarrow> Some (Inl e) | Some (Inr st) \<Rightarrow> Some (Inr (0, dst st))) = Some r \<and> out_le cap r" if d': "length d' \<le> cap" for d'
  proof -
    obtain r where r: "todo_loop cap cs 128 \<lparr>h = hh, bias = 72, delta = 0, first = True, todo = td, dst = d'\<rparr> = Some r" "dst_le cap r" using ends [OF d'] by blast
    show ?thesis unfolding r(1) using r(2) by (cases r) (simp_all add: dst_le_def out_le_def)
  qed
  show ?thesis unfolding uv__idna_toascii_label_def assms(1) option.case Inr p sum.case prod.case Let_def
    by (rule if_Some_ex, use assms(3) in \<open>simp add: out_le_def copy_ascii_le put_le\<close>, rule c) (use assms(3) in \<open>simp add: copy_ascii_le put_le\<close>)
qed

subsection \<open>Variable-length integers\<close>

text \<open>
  How RFC 3492 reads a number: digits in base 36, \<open>a\<close> to \<open>z\<close> and \<open>0\<close> to \<open>9\<close>, least significant first; a digit
  below the threshold of its position is the last one.
\<close>

definition digit_value :: "u8 \<Rightarrow> nat option" where
  "digit_value c = (if 97 \<le> unat c \<and> unat c < 123 then Some (unat c - 97) else if 48 \<le> unat c \<and> unat c < 58 then Some (unat c - 22) else None)"

fun vli_read :: "u32 \<Rightarrow> u32 \<Rightarrow> bytes \<Rightarrow> (nat \<times> bytes) option" where
  "vli_read b k [] = None"
| "vli_read b k (c # cs) =
     (case digit_value c of
        None \<Rightarrow> None
      | Some x \<Rightarrow>
          let t = unat (threshold k b) in
          if x < t then Some (x, cs)
          else case vli_read b (k + 36) cs of None \<Rightarrow> None | Some (v, rest) \<Rightarrow> Some (x + (36 - t) * v, rest))"

lemma digit_alphabet: "n < 36 \<Longrightarrow> digit_value (alphabet ! n) = Some n"
proof -
  assume "n < 36"
  then have "n \<in> set [0..<36]" by simp
  moreover have "\<forall>n \<in> set [0..<36]. digit_value (alphabet ! n) = Some n" by code_simp
  ultimately show ?thesis by blast
qed

text \<open>The number written when the buffer has room for it.\<close>

lemma vli_loop_reads:
  "\<exists>ds. vli_loop cap b k q d = take cap (d @ ds) \<and> vli_read b k (ds @ rest) = Some (unat q, rest)" if "length d \<le> cap"
  using that
proof (induction cap b k q d rule: vli_loop.induct)
  case (1 cap b k q d)
  define t where "t = threshold k b"
  have t: "1 \<le> unat t" "unat t \<le> 26" using threshold_bounds [of k b] by (simp_all add: t_def word_le_nat_alt)
  have pd: "put cap c d = take cap (d @ [c])" for c using put_take [of cap c d] "1.prems" by simp
  show ?case
  proof (cases "q < t")
    case True
    then have q: "unat q < unat t" by (simp add: word_less_nat_alt)
    then have "digit_value (alphabet ! unat q) = Some (unat q)" using t by (intro digit_alphabet) simp
    then have "vli_read b k ([alphabet ! unat q] @ rest) = Some (unat q, rest)" using q by (simp add: t_def [symmetric] Let_def)
    moreover have "vli_loop cap b k q d = take cap (d @ [alphabet ! unat q])" using True by (subst vli_loop.simps) (simp add: t_def [symmetric] Let_def pd)
    ultimately show ?thesis by blast
  next
    case False
    define x where "x = q - t"
    define y where "y = 36 - t"
    define c where "c = alphabet ! unat (t + x mod y)"
    have le: "unat t \<le> unat q" using False by (simp add: word_less_nat_alt)
    have x: "unat x = unat q - unat t" using le by (simp add: x_def unat_sub word_le_nat_alt)
    have y: "unat y = 36 - unat t" using t by (simp add: y_def unat_sub word_le_nat_alt)
    have ypos: "0 < unat y" "unat y \<le> 35" using t y by simp_all
    have md: "unat (x mod y) = unat x mod unat y" "unat (x div y) = unat x div unat y" by (simp_all add: unat_mod unat_div)
    have ml: "unat x mod unat y < unat y" using ypos(1) by simp
    have dg: "unat (t + x mod y) = unat t + unat x mod unat y" 
    proof -
      have "unat t + unat x mod unat y < 61" using ml ypos(2) t(2) by linarith
      then show ?thesis unfolding unat_word_ariths md(1) by simp
    qed
    then have "unat (t + x mod y) < 36" using ml t y by linarith
    then have v: "digit_value c = Some (unat t + unat x mod unat y)" unfolding c_def using digit_alphabet dg by metis
    have step: "vli_loop cap b k q d = vli_loop cap b (k + 36) (x div y) (put cap c d)"
      using False by (subst vli_loop.simps) (simp add: t_def [symmetric] Let_def c_def x_def y_def)
    have "length (put cap c d) \<le> cap" using pd by simp
    then obtain ds where ds: "vli_loop cap b (k + 36) (x div y) (put cap c d) = take cap (put cap c d @ ds)"
        "vli_read b (k + 36) (ds @ rest) = Some (unat (x div y), rest)"
      using "1.IH" [OF t_def False x_def y_def refl refl] by (auto simp: c_def)
    have "take cap (take cap (d @ [c]) @ ds) = take cap (d @ c # ds)"
      by (cases "length d < cap") (simp_all add: min_def)
    then have l: "vli_loop cap b k q d = take cap (d @ c # ds)" using step ds(1) pd by simp
    have "unat t + unat x mod unat y + (36 - unat t) * (unat x div unat y) = unat t + unat x" unfolding y [symmetric] by simp
    also have "\<dots> = unat q" using x le by simp
    finally have "vli_read b k ((c # ds) @ rest) = Some (unat q, rest)"
      using v ds(2) md(2) by (simp add: t_def [symmetric] Let_def)
    then show ?thesis using l by blast
  qed
qed

subsection \<open>Properties\<close>

text \<open>
  Iterating over well-formed UTF-8 text yields exactly its code points, for one to four byte forms
  and any text before and behind it, when the byte at the end of the range is an ASCII one (the terminator
  or the dot behind a label).
\<close>

lemma idna_utf8_roundtrip:
  assumes "\<forall>n \<in> set ns. uv_cp n" and "unat e < 128"
  shows "foreach_codepoint (pre @ concat (map utf8_enc ns) @ e # post) (length pre) (length pre + length (concat (map utf8_enc ns))) = Some (map of_nat ns)"
  by (rule foreach_enc [OF assms])

text \<open>
  C21. The decoder reads outside the memory of a truncated name: its \<open>switch\<close> computes \<open>*p - pe\<close>, not the
  number of bytes left, so a four byte form that starts in the last byte before the terminator is followed
  past the terminator. For a name held in a block of exactly its length and terminator this is a read
  outside the block, and the conversion of such a host name makes it.
\<close>

theorem idna_truncated_overread:
  assumes "0xF0 \<le> unat b" and "unat b \<le> 0xF7"
  shows "uv__utf8_decode1 (pre @ [b, 0]) (length pre) (length (pre @ [b])) = None \<and> uv__idna_toascii [b, 0] 0 1 cap = None"
proof -
  have d: "uv__utf8_decode1 (pre @ [b, 0]) (length pre) (length (pre @ [b])) = None" for pre
  proof -
    have "byte_at (pre @ [b, 0]) (length pre) = Some (ucast b)" "byte_at (pre @ [b, 0]) (length pre + 1 + 1) = None"
      by (simp_all add: byte_at_def nth_append)
    moreover have "\<not> (ucast b :: u32) < 128" "\<not> (ucast b :: u32) > 0xF7" "(ucast b :: u32) > 0xEF"
      using assms by (simp_all add: word_less_nat_alt)
    ultimately show ?thesis unfolding uv__utf8_decode1_def uv__utf8_decode1_slow_def Let_def by (simp split: option.splits)
  qed
  from d [of "[]"] have "toascii_loop [b, 0] 0 0 1 cap [] = None" by (subst toascii_loop.simps) simp
  then show ?thesis using d by (simp add: uv__idna_toascii_def)
qed

theorem idna_truncated_overread_witness: "uv__idna_toascii [0xF0, 0] 0 1 255 = None"
  using idna_truncated_overread [of "0xF0" "[]" 255] by simp

text \<open>
  An ASCII host name is copied: whatever labels it has, empty ones included, the output is the name
  with its terminator, cut off at the end of the output buffer.
\<close>

lemma idna_ascii_unchanged:
  assumes "\<forall>b \<in> set xs. unat b < 128" and "unat e < 128" and "length xs < 2 ^ 32"
  shows "uv__idna_toascii (xs @ e # post) 0 (length xs) cap = Some (Inr (take cap (xs @ [0])))"
proof -
  obtain s where s: "s \<le> length xs" "toascii_loop (xs @ e # post) 0 0 (length xs) cap [] = Some (Inr (s, take cap (take s xs)))"
    using toascii_loop_ascii [OF assms, of 0 0 post cap] by auto
  show ?thesis
  proof (cases "s < length xs")
    case True
    have "\<forall>b \<in> set (drop s xs). unat b < 128" using assms(1) by (meson in_set_dropD)
    moreover have "length (drop s xs) < 2 ^ 32" using assms(3) by simp
    ultimately have "uv__idna_toascii_label (take s xs @ drop s xs @ e # post) (length (take s xs)) (length (take s xs) + length (drop s xs)) cap (take cap (take s xs))
        = Some (Inr (of_nat (length (drop s xs)), take cap (take s xs @ drop s xs)))" using label_ascii [OF _ assms(2)] by blast
    moreover have "take s xs @ drop s xs @ e # post = xs @ e # post" by (metis append.assoc append_take_drop_id)
    moreover have "length (take s xs) = s" "length (take s xs) + length (drop s xs) = length xs" using s(1) by simp_all
    ultimately have "uv__idna_toascii_label (xs @ e # post) s (length xs) cap (take cap (take s xs)) = Some (Inr (of_nat (length (drop s xs)), take cap xs))"
      by simp
    then show ?thesis using s(2) True put_take [of cap 0 xs] by (simp add: uv__idna_toascii_def)
  next
    case False
    then have "s = length xs" using s(1) by simp
    then show ?thesis using s(2) put_take [of cap 0 xs] by (simp add: uv__idna_toascii_def)
  qed
qed

text \<open>
  C20. The conversion of a label ends: whenever its code points can be read, all loops of the Punycode
  encoder run to their end (each round of the main loop finds a code point that is still to do), and
  nothing is written past the end of the output buffer.
\<close>

theorem idna_label_terminates:
  assumes "foreach_codepoint mem s se = Some cs" and "length cs < 2 ^ 32" and "length d \<le> cap"
  shows "\<exists>r. uv__idna_toascii_label mem s se cap d = Some r \<and> (case r of Inl e \<Rightarrow> True | Inr (n, d') \<Rightarrow> length d' \<le> cap)"
  using label_ends [OF assms] by (simp add: out_le_def)

theorem idna_label_terminates_witness:
  "\<exists>r. uv__idna_toascii_label [0xC3, 0xBC, 0x62, 0] 0 3 20 [] = Some r \<and> (case r of Inl e \<Rightarrow> True | Inr (n, d') \<Rightarrow> length d' \<le> 20)"
proof -
  have "foreach_codepoint [0xC3, 0xBC, 0x62, 0] 0 3 = Some [0xFC, 0x62]" by code_simp
  from idna_label_terminates [OF this] show ?thesis by simp
qed

lemma vli_read_append: "vli_read b k ds = Some (v, r) \<Longrightarrow> vli_read b k (ds @ rest) = Some (v, r @ rest)"
  by (induction ds arbitrary: k v r) (fastforce simp: Let_def split: option.splits if_splits)+

text \<open>
  A Punycode number is read back: the digits the encoder writes for \<open>delta\<close>, read by the rules of
  RFC 3492 with the same bias, give \<open>delta\<close> and leave what follows them, whatever follows.
\<close>

lemma idna_vli_roundtrip:
  assumes "length d \<le> cap"
  shows "\<exists>ds. vli_loop cap b k q d = take cap (d @ ds) \<and> (\<forall>rest. vli_read b k (ds @ rest) = Some (unat q, rest))"
proof -
  obtain ds where ds: "vli_loop cap b k q d = take cap (d @ ds)" "vli_read b k (ds @ []) = Some (unat q, [])"
    using vli_loop_reads [OF assms] by blast
  have "vli_read b k (ds @ rest) = Some (unat q, rest)" for rest using vli_read_append [OF ds(2), of rest] by simp
  then show ?thesis using ds(1) by blast
qed

end
