(* ===== verification/Uv_Errno.thy ===== *)
theory Uv_Errno
  imports C_Prelude
begin

section \<open>Error codes of libuv (Libuv-gRPC/include/uv/errno.h)\<close>

text \<open>The codes the modelled functions return: negated \<^verbatim>\<open>errno\<close> values, with the numbers of the Darwin targets.\<close>

definition UV_E2BIG :: int where "UV_E2BIG = - 7"
definition UV_EINVAL :: int where "UV_EINVAL = - 22"
definition UV_ENOSPC :: int where "UV_ENOSPC = - 28"
definition UV_EAFNOSUPPORT :: int where "UV_EAFNOSUPPORT = - 47"

lemmas uv_errors = UV_E2BIG_def UV_EINVAL_def UV_ENOSPC_def UV_EAFNOSUPPORT_def

end
