(* ===== verification/Inet.thy ===== *)
theory Inet
  imports Uv_Errno "HOL-Library.Monad_Syntax"
begin

unbundle bit_operations_syntax

section \<open>Network addresses as text (Libuv-gRPC/src/inet.c, strscpy.c, uv-common.c)\<close>

text \<open>
  A block of memory is a list of bytes; a read or a write outside it is undefined and has no result. A string
  argument is the list of its characters without the terminator, which is what a pointer at its end shows.
  Functions that fill a buffer return their status and the buffer as the call leaves it.
\<close>

definition peek :: "bytes \<Rightarrow> nat \<Rightarrow> u8 option" where
  "peek m i = (if i < length m then Some (m ! i) else None)"

definition poke :: "bytes \<Rightarrow> nat \<Rightarrow> u8 \<Rightarrow> bytes option" where
  "poke m i v = (if i < length m then Some (m[i := v]) else None)"

definition deref :: "bytes \<Rightarrow> u8" where
  "deref s = (case s of [] \<Rightarrow> 0 | c # _ \<Rightarrow> c)"

text \<open>\<open>strchr\<close>, as the position that is found; the terminator belongs to the string.\<close>

fun strchr :: "bytes \<Rightarrow> u8 \<Rightarrow> nat option" where
  "strchr [] c = (if c = 0 then Some 0 else None)"
| "strchr (x # s) c = (if x = c then Some 0 else map_option Suc (strchr s c))"

fun strlen :: "bytes \<Rightarrow> nat option" where
  "strlen [] = None"
| "strlen (c # s) = (if c = 0 then Some 0 else map_option Suc (strlen s))"

text \<open>The conversions \<^verbatim>\<open>%u\<close> and \<^verbatim>\<open>%x\<close> of the C library, and a \<^verbatim>\<open>sprintf\<close> of a converted text to the address \<open>p\<close> of a block.\<close>

definition digits :: bytes where "digits = map of_nat [48..<58]"
definition xdigits_l :: bytes where "xdigits_l = digits @ map of_nat [97..<103]"
definition xdigits_u :: bytes where "xdigits_u = digits @ map of_nat [65..<71]"

fun numeral_text :: "nat \<Rightarrow> nat \<Rightarrow> bytes" where
  "numeral_text b n =
     (if n < b \<or> b < 2 then [xdigits_l ! n] else numeral_text b (n div b) @ [xdigits_l ! (n mod b)])"

declare numeral_text.simps [simp del]

definition snprintf :: "nat \<Rightarrow> bytes \<Rightarrow> nat \<times> bytes" where
  "snprintf n text = (length text, take (n - 1) text @ [0])"

definition sprintf :: "bytes \<Rightarrow> nat \<Rightarrow> bytes \<Rightarrow> bytes option" where
  "sprintf m p text =
     (if p + length text < length m then Some (take p m @ text @ 0 # drop (p + length text + 1) m) else None)"

subsection \<open>uv__strscpy\<close>

definition SSIZE_MAX :: int where "SSIZE_MAX = 2 ^ 63 - 1"

function strscpy_loop :: "nat \<Rightarrow> nat \<Rightarrow> bytes \<Rightarrow> bytes \<Rightarrow> (int \<times> bytes) option" where
  "strscpy_loop i n d s =
     (if i < n
      then do {
        c \<leftarrow> peek s i;
        d \<leftarrow> poke d i c;
        if c = 0 then Some (if int i > SSIZE_MAX then UV_E2BIG else int i, d)
        else strscpy_loop (i + 1) n d s
      }
      else if i = 0 then Some (0, d)
      else do { d \<leftarrow> poke d (i - 1) 0; Some (UV_E2BIG, d) })"
  by pat_completeness auto
termination
  by (relation "measure (\<lambda>(i, n, _). n - i)") auto

declare strscpy_loop.simps [simp del]

definition uv__strscpy :: "bytes \<Rightarrow> bytes \<Rightarrow> size_t \<Rightarrow> (int \<times> bytes) option" where
  "uv__strscpy d s n = strscpy_loop 0 (unat n) d s"

subsection \<open>From bytes to text\<close>

definition AF_INET :: int where "AF_INET = 2"
definition AF_INET6 :: int where "AF_INET6 = 30"
definition UV__INET_ADDRSTRLEN :: nat where "UV__INET_ADDRSTRLEN = 16"
definition UV__INET6_ADDRSTRLEN :: nat where "UV__INET6_ADDRSTRLEN = 46"

definition inet_ntop4 :: "bytes \<Rightarrow> bytes \<Rightarrow> size_t \<Rightarrow> (int \<times> bytes) option" where
  "inet_ntop4 src dst sz = do {
     a \<leftarrow> peek src 0;
     b \<leftarrow> peek src 1;
     c \<leftarrow> peek src 2;
     d \<leftarrow> peek src 3;
     let (l, tmp) = snprintf UV__INET_ADDRSTRLEN
       (numeral_text 10 (unat a) @ [46] @ numeral_text 10 (unat b) @ [46] @ numeral_text 10 (unat c) @ [46] @ numeral_text 10 (unat d));
     if l = 0 \<or> l \<ge> unat sz then Some (UV_ENOSPC, dst)
     else do { (_, dst) \<leftarrow> uv__strscpy dst tmp sz; Some (0, dst) }
   }"

record zero_run =
  run_base :: int
  run_len :: int

text \<open>The loops of \<open>inet_ntop6\<close>: the words, the runs of zeros, the text.\<close>

primrec words_loop :: "nat list \<Rightarrow> bytes \<Rightarrow> u32 list \<Rightarrow> u32 list option" where
  "words_loop [] src words = Some words"
| "words_loop (i # is) src words = do {
     c \<leftarrow> peek src i;
     words_loop is src (words[i div 2 := words ! (i div 2) OR push_bit ((1 - i mod 2) * 8) (ucast c)])
   }"

primrec runs_loop :: "nat list \<Rightarrow> u32 list \<Rightarrow> zero_run \<Rightarrow> zero_run \<Rightarrow> zero_run \<times> zero_run" where
  "runs_loop [] words best cur = (best, cur)"
| "runs_loop (i # is) words best cur =
     (if words ! i = 0
      then runs_loop is words best
             (if run_base cur = - 1 then \<lparr>run_base = int i, run_len = 1\<rparr> else cur\<lparr>run_len := run_len cur + 1\<rparr>)
      else if run_base cur \<noteq> - 1
      then runs_loop is words (if run_base best = - 1 \<or> run_len cur > run_len best then cur else best) (cur\<lparr>run_base := - 1\<rparr>)
      else runs_loop is words best cur)"

definition best_run :: "u32 list \<Rightarrow> zero_run" where
  "best_run words =
     (let (best, cur) = runs_loop [0..<8] words \<lparr>run_base = - 1, run_len = 0\<rparr> \<lparr>run_base = - 1, run_len = 0\<rparr>;
          best = (if run_base cur \<noteq> - 1 \<and> (run_base best = - 1 \<or> run_len cur > run_len best) then cur else best)
      in if run_base best \<noteq> - 1 \<and> run_len best < 2 then best\<lparr>run_base := - 1\<rparr> else best)"

primrec text_loop :: "nat list \<Rightarrow> bytes \<Rightarrow> u32 list \<Rightarrow> zero_run \<Rightarrow> nat \<Rightarrow> bytes \<Rightarrow> (int + nat \<times> bytes) option" where
  "text_loop [] src words best tp tmp = Some (Inr (tp, tmp))"
| "text_loop (i # is) src words best tp tmp =
     (if run_base best \<noteq> - 1 \<and> int i \<ge> run_base best \<and> int i < run_base best + run_len best
      then if int i = run_base best
           then do { tmp \<leftarrow> poke tmp tp 58; text_loop is src words best (tp + 1) tmp }
           else text_loop is src words best tp tmp
      else do {
        (tp, tmp) \<leftarrow> (if i \<noteq> 0 then map_option (Pair (tp + 1)) (poke tmp tp 58) else Some (tp, tmp));
        if i = 6 \<and> run_base best = 0
             \<and> (run_len best = 6 \<or> (run_len best = 7 \<and> words ! 7 \<noteq> 1) \<or> (run_len best = 5 \<and> words ! 5 = 0xffff))
        then do {
          (err, sub) \<leftarrow> inet_ntop4 (drop 12 src) (drop tp tmp) (of_nat (length tmp - tp));
          let tmp = take tp tmp @ sub;
          if err \<noteq> 0 then Some (Inl err)
          else do { n \<leftarrow> strlen (drop tp tmp); Some (Inr (tp + n, tmp)) }
        }
        else do {
          tmp \<leftarrow> sprintf tmp tp (numeral_text 16 (unat (words ! i)));
          text_loop is src words best (tp + length (numeral_text 16 (unat (words ! i)))) tmp
        }
      })"

definition inet_ntop6 :: "bytes \<Rightarrow> bytes \<Rightarrow> size_t \<Rightarrow> (int \<times> bytes) option" where
  "inet_ntop6 src dst sz = do {
     words \<leftarrow> words_loop [0..<16] src (replicate 8 0);
     let best = best_run words;
     r \<leftarrow> text_loop [0..<8] src words best 0 (replicate UV__INET6_ADDRSTRLEN 0);
     (case r of
        Inl err \<Rightarrow> Some (err, dst)
      | Inr (tp, tmp) \<Rightarrow> do {
          (tp, tmp) \<leftarrow> (if run_base best \<noteq> - 1 \<and> run_base best + run_len best = 8
                         then map_option (Pair (tp + 1)) (poke tmp tp 58) else Some (tp, tmp));
          tmp \<leftarrow> poke tmp tp 0;
          (r, dst) \<leftarrow> uv__strscpy dst tmp sz;
          Some (if UV_E2BIG = r then UV_ENOSPC else 0, dst)
        })
   }"

definition uv_inet_ntop :: "int \<Rightarrow> bytes \<Rightarrow> bytes \<Rightarrow> size_t \<Rightarrow> (int \<times> bytes) option" where
  "uv_inet_ntop af src dst sz =
     (if af = AF_INET then inet_ntop4 src dst sz
      else if af = AF_INET6 then inet_ntop6 src dst sz
      else Some (UV_EAFNOSUPPORT, dst))"

subsection \<open>From text to bytes\<close>

fun pton4_loop :: "bytes \<Rightarrow> bool \<Rightarrow> nat \<Rightarrow> nat \<Rightarrow> bytes \<Rightarrow> (int + nat \<times> bytes) option" where
  "pton4_loop [] saw_digit octets tp tmp = Some (Inr (octets, tmp))"
| "pton4_loop (ch # src) saw_digit octets tp tmp =
     (if ch = 0 then Some (Inr (octets, tmp))
      else case strchr digits ch of
        Some pch \<Rightarrow> do {
          v \<leftarrow> peek tmp tp;
          let nw = (ucast v * 10 + of_nat pch :: u32);
          if saw_digit \<and> v = 0 then Some (Inl UV_EINVAL)
          else if nw > 255 then Some (Inl UV_EINVAL)
          else do {
            tmp \<leftarrow> poke tmp tp (ucast nw);
            if \<not> saw_digit
            then if octets + 1 > 4 then Some (Inl UV_EINVAL) else pton4_loop src True (octets + 1) tp tmp
            else pton4_loop src saw_digit octets tp tmp
          }
        }
      | None \<Rightarrow>
          if ch = 46 \<and> saw_digit
          then if octets = 4 then Some (Inl UV_EINVAL)
               else do { tmp \<leftarrow> poke tmp (tp + 1) 0; pton4_loop src False octets (tp + 1) tmp }
          else Some (Inl UV_EINVAL))"

definition inet_pton4 :: "bytes \<Rightarrow> bytes \<Rightarrow> (int \<times> bytes) option" where
  "inet_pton4 src dst = do {
     r \<leftarrow> pton4_loop src False 0 0 (replicate 4 0);
     (case r of
        Inl err \<Rightarrow> Some (err, dst)
      | Inr (octets, tmp) \<Rightarrow>
          if octets < 4 then Some (UV_EINVAL, dst)
          else if length dst < 4 then None
          else Some (0, tmp @ drop 4 dst))
   }"

text \<open>The value of a hexadecimal digit, and the two bytes of a group.\<close>

definition xdigit :: "u8 \<Rightarrow> nat option" where
  "xdigit ch = (case strchr xdigits_l ch of Some p \<Rightarrow> Some p | None \<Rightarrow> strchr xdigits_u ch)"

definition put_group :: "bytes \<Rightarrow> nat \<Rightarrow> u32 \<Rightarrow> bytes option" where
  "put_group tmp tp v = do {
     tmp \<leftarrow> poke tmp tp (ucast (drop_bit 8 v) AND 0xff);
     poke tmp (tp + 1) (ucast v AND 0xff)
   }"

text \<open>The results: \<open>seen_xdigits\<close>, \<open>val\<close>, \<open>tp\<close>, \<open>colonp\<close> and the bytes; \<open>endp\<close> is 16.\<close>

fun pton6_loop ::
  "bytes \<Rightarrow> bytes \<Rightarrow> nat \<Rightarrow> u32 \<Rightarrow> nat \<Rightarrow> nat option \<Rightarrow> bytes \<Rightarrow> (int + nat \<times> u32 \<times> nat \<times> nat option \<times> bytes) option" where
  "pton6_loop [] curtok seen v tp colonp tmp = Some (Inr (seen, v, tp, colonp, tmp))"
| "pton6_loop (ch # src) curtok seen v tp colonp tmp =
     (if ch = 0 then Some (Inr (seen, v, tp, colonp, tmp))
      else case xdigit ch of
        Some d \<Rightarrow>
          if seen + 1 > 4 then Some (Inl UV_EINVAL)
          else pton6_loop src curtok (seen + 1) (push_bit 4 v OR of_nat d) tp colonp tmp
      | None \<Rightarrow>
          if ch = 58
          then if seen = 0
               then if colonp \<noteq> None then Some (Inl UV_EINVAL) else pton6_loop src src seen v tp (Some tp) tmp
               else if deref src = 0 then Some (Inl UV_EINVAL)
               else if tp + 2 > 16 then Some (Inl UV_EINVAL)
               else do { tmp \<leftarrow> put_group tmp tp v; pton6_loop src src 0 0 (tp + 2) colonp tmp }
          else if ch = 46 \<and> tp + 4 \<le> 16
          then do {
            (err, sub) \<leftarrow> inet_pton4 curtok (drop tp tmp);
            if err = 0 then Some (Inr (0, v, tp + 4, colonp, take tp tmp @ sub)) else Some (Inl UV_EINVAL)
          }
          else Some (Inl UV_EINVAL))"

text \<open>The shift of the bytes behind \<open>::\<close> to the end, one at a time.\<close>

primrec shift_loop :: "nat list \<Rightarrow> nat \<Rightarrow> nat \<Rightarrow> bytes \<Rightarrow> bytes option" where
  "shift_loop [] n colonp tmp = Some tmp"
| "shift_loop (i # is) n colonp tmp = do {
     c \<leftarrow> peek tmp (colonp + (n - i));
     tmp \<leftarrow> poke tmp (16 - i) c;
     tmp \<leftarrow> poke tmp (colonp + (n - i)) 0;
     shift_loop is n colonp tmp
   }"

definition inet_pton6 :: "bytes \<Rightarrow> bytes \<Rightarrow> (int \<times> bytes) option" where
  "inet_pton6 src dst =
     (if deref src = 58 \<and> deref (tl src) \<noteq> 58 then Some (UV_EINVAL, dst)
      else let src = (if deref src = 58 then tl src else src) in do {
        r \<leftarrow> pton6_loop src src 0 0 0 None (replicate 16 0);
        (case r of
           Inl err \<Rightarrow> Some (err, dst)
         | Inr (seen, v, tp, colonp, tmp) \<Rightarrow>
             if seen \<noteq> 0 \<and> tp + 2 > 16 then Some (UV_EINVAL, dst)
             else do {
               (tp, tmp) \<leftarrow> (if seen \<noteq> 0 then map_option (Pair (tp + 2)) (put_group tmp tp v) else Some (tp, tmp));
               (case colonp of
                  None \<Rightarrow>
                    if tp \<noteq> 16 then Some (UV_EINVAL, dst)
                    else if length dst < 16 then None else Some (0, tmp @ drop 16 dst)
                | Some cp \<Rightarrow>
                    if tp = 16 then Some (UV_EINVAL, dst)
                    else do {
                      tmp \<leftarrow> shift_loop [1..<tp - cp + 1] (tp - cp) cp tmp;
                      if length dst < 16 then None else Some (0, tmp @ drop 16 dst)
                    })
             })
      })"

text \<open>\<open>len\<close> is an \<^verbatim>\<open>int\<close>: the distance to the \<^verbatim>\<open>%\<close> is cut to 32 bits.\<close>

definition uv_inet_pton :: "int \<Rightarrow> bytes option \<Rightarrow> bytes option \<Rightarrow> (int \<times> bytes option) option" where
  "uv_inet_pton af src dst =
     (case (src, dst) of
        (Some s, Some d) \<Rightarrow>
          if af = AF_INET then map_option (map_prod id Some) (inet_pton4 s d)
          else if af = AF_INET6
          then case strchr s 37 of
                 None \<Rightarrow> map_option (map_prod id Some) (inet_pton6 s d)
               | Some p \<Rightarrow>
                   let len = sint (of_nat p :: u32)
                   in if len > int UV__INET6_ADDRSTRLEN - 1 then Some (UV_EINVAL, dst)
                      else if len < 0 then None
                      else map_option (map_prod id Some) (inet_pton6 (take (nat len) s) d)
          else Some (UV_EAFNOSUPPORT, dst)
      | _ \<Rightarrow> Some (UV_EINVAL, dst))"

subsection \<open>Socket addresses (uv-common.c)\<close>

record sockaddr_in =
  sin_len :: u8
  sin_family :: int
  sin_port :: u16
  sin_addr :: bytes

record sockaddr_in6 =
  sin6_len :: u8
  sin6_family :: int
  sin6_port :: u16
  sin6_addr :: bytes
  sin6_scope_id :: u32

definition htons :: "int \<Rightarrow> u16" where
  "htons port = (let p = (of_int port :: u16) in push_bit 8 p OR drop_bit 8 p)"

definition uv_ip4_addr :: "bytes \<Rightarrow> int \<Rightarrow> (int \<times> sockaddr_in) option" where
  "uv_ip4_addr ip port =
     map_option (\<lambda>(r, a). (r, \<lparr>sin_len = 16, sin_family = AF_INET, sin_port = htons port, sin_addr = (case a of None \<Rightarrow> [] | Some b \<Rightarrow> b)\<rparr>))
       (uv_inet_pton AF_INET (Some ip) (Some (replicate 4 0)))"

text \<open>The names of the network interfaces are known to the operating system: \<open>if_nametoindex\<close> is a parameter.\<close>

definition uv_ip6_addr :: "(bytes \<Rightarrow> u32) \<Rightarrow> bytes \<Rightarrow> int \<Rightarrow> (int \<times> sockaddr_in6) option" where
  "uv_ip6_addr if_nametoindex ip port =
     (let (ip, scope) = (case strchr ip 37 of
            None \<Rightarrow> (ip, 0)
          | Some zone_index \<Rightarrow>
              let size = (if zone_index \<ge> 40 then 39 else zone_index)
              in (take size ip, if_nametoindex (drop (zone_index + 1) ip)))
      in map_option (\<lambda>(r, a). (r, \<lparr>sin6_len = 28, sin6_family = AF_INET6, sin6_port = htons port,
             sin6_addr = (case a of None \<Rightarrow> [] | Some b \<Rightarrow> b), sin6_scope_id = scope\<rparr>))
           (uv_inet_pton AF_INET6 (Some ip) (Some (replicate 16 0))))"

definition uv_ip4_name :: "sockaddr_in \<Rightarrow> bytes \<Rightarrow> size_t \<Rightarrow> (int \<times> bytes) option" where
  "uv_ip4_name src dst sz = uv_inet_ntop AF_INET (sin_addr src) dst sz"

definition uv_ip6_name :: "sockaddr_in6 \<Rightarrow> bytes \<Rightarrow> size_t \<Rightarrow> (int \<times> bytes) option" where
  "uv_ip6_name src dst sz = uv_inet_ntop AF_INET6 (sin6_addr src) dst sz"

subsection \<open>Copying\<close>

lemma strscpy_loop_text:
  assumes "i \<le> length str" and "i \<le> n" and "n \<le> length d" and "0 \<notin> set str" and "length str < 2 ^ 63"
  shows "strscpy_loop i n (take i str @ drop i d) (str @ 0 # junk) =
    (if length str < n then Some (int (length str), str @ 0 # drop (length str + 1) d)
     else if n = 0 then Some (0, d) else Some (UV_E2BIG, take (n - 1) str @ 0 # drop n d))"
  using assms
proof (induction "n - i" arbitrary: i)
  case 0
  then have i: "i = n" "n \<le> length str" by auto
  have "(take n str @ drop n d)[n - 1 := 0] = take (n - 1) str @ 0 # drop n d" if "0 < n"
  proof -
    have "take n str = take (n - 1) str @ [str ! (n - 1)]" using that i(2) take_Suc_conv_app_nth [of "n - 1" str] by simp
    then show ?thesis using that i(2) by (simp add: list_update_append)
  qed
  then show ?case using 0 i by (cases "n = 0") (simp_all add: poke_def strscpy_loop.simps [of n n] strscpy_loop.simps [of 0 0])
next
  case (Suc k)
  then have i: "i < n" "i < length d" by auto
  let ?m = "take i str @ drop i d"
  have upd: "?m[i := c] = take i str @ c # drop (i + 1) d" for c
  proof -
    have "drop i d = d ! i # drop (i + 1) d" using i(2) by (simp add: Cons_nth_drop_Suc)
    then show ?thesis using Suc.prems(1) by (simp add: list_update_append)
  qed
  show ?case
  proof (cases "i = length str")
    case True
    then have "(str @ 0 # junk) ! i = 0" by (simp add: nth_append)
    moreover have "int i \<le> SSIZE_MAX" using Suc.prems(5) True by (simp add: SSIZE_MAX_def)
    ultimately show ?thesis using True i Suc.prems(1) upd [of 0] by (subst strscpy_loop.simps) (simp add: peek_def poke_def)
  next
    case False
    then have l: "i < length str" using Suc.prems(1) by simp
    have c: "(str @ 0 # junk) ! i = str ! i" "str ! i \<noteq> 0" using l Suc.prems(4) by (simp add: nth_append) (metis l nth_mem Suc.prems(4))
    have "?m[i := str ! i] = take (i + 1) str @ drop (i + 1) d" using l upd [of "str ! i"] by (simp add: take_Suc_conv_app_nth)
    moreover have "k = n - (i + 1)" "i + 1 \<le> length str" "i + 1 \<le> n" using Suc.hyps(2) l i by auto
    ultimately show ?thesis using Suc.hyps(1) [of "i + 1"] Suc.prems(3-5) c i l
      by (subst strscpy_loop.simps) (simp add: peek_def poke_def)
  qed
qed

lemma uv__strscpy_text:
  assumes "unat n \<le> length d" and "0 \<notin> set str" and "length str < 2 ^ 63"
  shows "uv__strscpy d (str @ 0 # junk) n =
    (if length str < unat n then Some (int (length str), str @ 0 # drop (length str + 1) d)
     else if n = 0 then Some (0, d) else Some (UV_E2BIG, take (unat n - 1) str @ 0 # drop (unat n) d))"
  using strscpy_loop_text [of 0 str "unat n" d junk] assms by (simp add: uv__strscpy_def unat_eq_0)

subsection \<open>Digits\<close>

lemma digit_values: "\<forall>k \<in> {..<10}. strchr digits (xdigits_l ! k) = Some k" "\<forall>k \<in> {..<16}. xdigit (xdigits_l ! k) = Some k"
  "\<forall>k \<in> {..<16}. xdigits_l ! k \<notin> {0, 46, 58, 37}"
  by code_simp+

lemma strchr_digit: "k < 10 \<Longrightarrow> strchr digits (xdigits_l ! k) = Some k"
  using digit_values(1) by simp

lemma xdigit_digit: "k < 16 \<Longrightarrow> xdigit (xdigits_l ! k) = Some k"
  using digit_values(2) by simp

lemma digit_char: "k < 16 \<Longrightarrow> xdigits_l ! k \<notin> {0, 46, 58, 37}"
  using digit_values(3) by blast

lemma strchr_Some: "c \<noteq> 0 \<Longrightarrow> strchr s c = Some p \<Longrightarrow> p < length s \<and> s ! p = c"
  by (induction s arbitrary: p) (auto split: if_splits)

lemma strchr_digits_Some: "ch \<noteq> 0 \<Longrightarrow> strchr digits ch = Some p \<Longrightarrow> p < 10 \<and> ch = xdigits_l ! p"
proof -
  assume "ch \<noteq> 0" "strchr digits ch = Some p"
  from strchr_Some [OF this] have "p < length digits" "digits ! p = ch" by auto
  moreover have "length digits = 10" by (simp add: digits_def)
  ultimately show ?thesis by (simp add: xdigits_l_def nth_append)
qed

lemma dot_no_digit: "strchr digits 46 = None" "xdigit 46 = None" "xdigit 58 = None"
  by code_simp+

lemma numeral_text_chars: "2 \<le> b \<Longrightarrow> b \<le> 16 \<Longrightarrow> c \<in> set (numeral_text b n) \<Longrightarrow> c \<notin> {0, 46, 58, 37}"
proof (induction b n rule: numeral_text.induct)
  case (1 b n)
  show ?case
  proof (cases "n < b")
    case True
    then show ?thesis using "1.prems" digit_char [of n] by (simp add: numeral_text.simps [of b n])
  next
    case False
    then have "c \<in> set (numeral_text b (n div b)) \<or> c = xdigits_l ! (n mod b)" using "1.prems" by (auto simp: numeral_text.simps [of b n])
    moreover have "n mod b < 16" using "1.prems" using mod_less_divisor [of b n] by linarith
    ultimately show ?thesis using False "1.IH" "1.prems" digit_char by auto
  qed
qed

lemma numeral_text_append: "n \<noteq> 0 \<Longrightarrow> d < b \<Longrightarrow> 2 \<le> b \<Longrightarrow> numeral_text b (b * n + d) = numeral_text b n @ [xdigits_l ! d]"
proof -
  assume n: "n \<noteq> 0" and b: "d < b" "2 \<le> b"
  have "\<not> b * n + d < b" using n b by (simp add: not_less trans_le_add1)
  then show ?thesis using b by (subst numeral_text.simps) simp
qed

lemma numeral_text_one: "d < b \<Longrightarrow> numeral_text b d = [xdigits_l ! d]"
  by (simp add: numeral_text.simps)

lemma numeral_text_nonempty: "numeral_text b n \<noteq> []"
  by (simp add: numeral_text.simps)

lemma numeral_text_length: "2 \<le> b \<Longrightarrow> n < b ^ Suc k \<Longrightarrow> length (numeral_text b n) \<le> Suc k"
proof (induction k arbitrary: n)
  case 0
  then show ?case by (simp add: numeral_text.simps)
next
  case (Suc k)
  have "n div b < b ^ Suc k" using Suc.prems by (simp add: less_mult_imp_div_less mult.commute)
  then show ?case using Suc by (subst numeral_text.simps) simp
qed

lemma numeral_text_take:
  assumes "2 \<le> b" and "b ^ k \<le> n"
  shows "k < length (numeral_text b n)" "take (length (numeral_text b n) - k) (numeral_text b n) = numeral_text b (n div b ^ k)"
proof -
  have "k < length (numeral_text b n) \<and> take (length (numeral_text b n) - k) (numeral_text b n) = numeral_text b (n div b ^ k)"
    using assms(2)
  proof (induction k arbitrary: n)
    case 0
    then show ?case by (simp add: numeral_text_nonempty)
  next
    case (Suc k)
    have "1 \<le> b ^ k" using assms(1) by simp
    then have "\<not> n < b" using Suc.prems by (metis le_trans mult.commute mult_le_mono2 nat_mult_1_right not_le power_Suc)
    then have e: "numeral_text b n = numeral_text b (n div b) @ [xdigits_l ! (n mod b)]"
      using assms(1) by (simp add: numeral_text.simps [of b n])
    have "b ^ k \<le> n div b" using Suc.prems assms(1) by (simp add: less_eq_div_iff_mult_less_eq mult.commute)
    from Suc.IH [OF this] show ?case by (simp add: e div_mult2_eq)
  qed
  then show "k < length (numeral_text b n)" "take (length (numeral_text b n) - k) (numeral_text b n) = numeral_text b (n div b ^ k)"
    by blast+
qed

lemma numeral_text_digits: "length (numeral_text b n) = (if n < b \<or> b < 2 then 1 else length (numeral_text b (n div b)) + 1)"
  by (simp add: numeral_text.simps [of b n])

subsection \<open>IPv4\<close>

text \<open>The dotted form of an address, and the part of it that the parser has read when it is at the byte \<open>tp\<close>.\<close>

definition dotted4 :: "bytes \<Rightarrow> bytes" where
  "dotted4 a = numeral_text 10 (unat (a ! 0)) @ [46] @ numeral_text 10 (unat (a ! 1)) @ [46] @ numeral_text 10 (unat (a ! 2)) @ [46] @ numeral_text 10 (unat (a ! 3))"

definition shown :: "nat \<Rightarrow> bool \<Rightarrow> bytes \<Rightarrow> bytes" where
  "shown tp saw a = concat (map (\<lambda>i. numeral_text 10 (unat (a ! i)) @ [46]) [0..<tp]) @ (if saw then numeral_text 10 (unat (a ! tp)) else [])"

lemma shown_all: "shown 3 True a = dotted4 a"
  by (simp add: shown_def dotted4_def upt_rec numeral_2_eq_2)

lemma shown_upd: "tp \<le> k \<Longrightarrow> shown tp False (a[k := v]) = shown tp False a"
proof -
  assume "tp \<le> k"
  then have "map (\<lambda>i. numeral_text 10 (unat (a[k := v] ! i)) @ [46]) [0..<tp] = map (\<lambda>i. numeral_text 10 (unat (a ! i)) @ [46]) [0..<tp]"
    by (intro map_cong) auto
  then show ?thesis by (simp only: shown_def if_False)
qed

lemma shown_saw: "shown tp True a = shown tp False a @ numeral_text 10 (unat (a ! tp))" "shown (tp + 1) False a = shown tp False a @ numeral_text 10 (unat (a ! tp)) @ [46]"
  by (simp_all add: shown_def)

lemma shown_dot: "shown (tp + 1) False (a[tp + 1 := 0]) = shown tp True a @ [46]"
  using shown_upd [of "tp + 1" "tp + 1" a 0] shown_saw [of tp a] by simp

lemma shown_digit:
  assumes "tp < length a" and "d < 10" and "saw \<Longrightarrow> a ! tp \<noteq> 0" and "\<not> saw \<Longrightarrow> a ! tp = 0" and "unat v = unat (a ! tp) * 10 + d"
  shows "shown tp True (a[tp := v]) = shown tp saw a @ [xdigits_l ! d]"
proof -
  have "numeral_text 10 (unat v) = (if saw then numeral_text 10 (unat (a ! tp)) else []) @ [xdigits_l ! d]"
  proof (cases saw)
    case True
    then have "unat (a ! tp) \<noteq> 0" using assms(3) by (simp add: unat_eq_0)
    then show ?thesis using True assms(2,5) numeral_text_append [of "unat (a ! tp)" d 10] by (simp add: mult.commute)
  qed (use assms(2,4,5) in \<open>simp add: numeral_text_one\<close>)
  moreover have "shown tp saw a = shown tp False a @ (if saw then numeral_text 10 (unat (a ! tp)) else [])" by (simp add: shown_def)
  ultimately show ?thesis using assms(1) shown_saw(1) [of tp "a[tp := v]"] shown_upd [of tp tp a v] by simp
qed

lemma decimal_step: "d < 10 \<Longrightarrow> unat (ucast (v :: u8) * 10 + of_nat d :: u32) = unat v * 10 + d"
proof -
  assume d: "d < 10"
  have "(ucast v * 10 + of_nat d :: u32) = of_nat (unat v * 10 + d)" by simp
  also have "unat \<dots> = unat v * 10 + d" using d unat_u8_less [of v] by (simp add: unat_of_nat del: of_nat_add of_nat_mult unat_u8_less)
  finally show ?thesis .
qed

text \<open>Every step of the loop reads what it shows; nothing is written outside \<open>tmp\<close>.\<close>

lemma pton4_loop_shown:
  assumes "length tmp = 4" and "tp \<le> 3" and "octets = tp + (if saw then 1 else 0)" and "\<not> saw \<Longrightarrow> tmp ! tp = 0" and "0 \<notin> set src"
  shows "pton4_loop src saw octets tp tmp = Some (Inl UV_EINVAL) \<or>
    (\<exists>tp' saw' tmp'. pton4_loop src saw octets tp tmp = Some (Inr (tp' + (if saw' then 1 else 0), tmp'))
       \<and> length tmp' = 4 \<and> tp' \<le> 3 \<and> shown tp' saw' tmp' = shown tp saw tmp @ src)"
  using assms
proof (induction src arbitrary: saw octets tp tmp)
  case Nil
  then show ?case by auto
next
  case (Cons ch src)
  then have ch: "ch \<noteq> 0" "0 \<notin> set src" and tp: "tp < length tmp" by auto
  show ?case
  proof (cases "strchr digits ch")
    case (Some d)
    then have d: "d < 10" "ch = xdigits_l ! d" using strchr_digits_Some [OF ch(1)] by auto
    let ?nw = "ucast (tmp ! tp) * 10 + of_nat d :: u32"
    have nw: "unat ?nw = unat (tmp ! tp) * 10 + d" by (rule decimal_step) (use d in simp)
    show ?thesis
    proof (cases "saw \<and> tmp ! tp = 0 \<or> ?nw > 255")
      case True
      then show ?thesis using Some ch tp by (auto simp: peek_def Let_def)
    next
      case False
      let ?t = "tmp[tp := ucast ?nw]"
      have v: "unat (ucast ?nw :: u8) = unat (tmp ! tp) * 10 + d" using False nw by (simp add: unat_ucast_mod word_less_nat_alt)
      have sh: "shown tp True ?t = shown tp saw tmp @ [ch]"
        unfolding d(2) by (rule shown_digit [OF tp d(1) _ _ v]) (use False Cons.prems(4) in auto)
      have "pton4_loop (ch # src) saw octets tp tmp = pton4_loop src True (tp + 1) tp ?t"
        using Some ch tp False Cons.prems(1-3) by (simp add: peek_def poke_def Let_def)
      then show ?thesis using Cons.IH [of ?t tp "tp + 1" True] Cons.prems(1,2) ch(2) sh by simp
    qed
  next
    case None
    show ?thesis
    proof (cases "ch = 46 \<and> saw \<and> octets \<noteq> 4")
      case True
      then have "tp + 1 \<le> 3" "tp + 1 < length tmp" using Cons.prems(1-3) by auto
      moreover from this have "pton4_loop (ch # src) saw octets tp tmp = pton4_loop src False octets (tp + 1) (tmp[tp + 1 := 0])"
        using None True by (simp add: poke_def)
      ultimately show ?thesis using Cons.IH [of "tmp[tp + 1 := 0]" "tp + 1" octets False] Cons.prems(1,3) ch(2) True shown_dot [of tp tmp] by simp
    qed (use None ch in auto)
  qed
qed

lemma pton4_loop_number:
  assumes "n < 256" and "tp < length tmp" and "tmp ! tp = 0" and "octets < 4"
  shows "pton4_loop (numeral_text 10 n @ rest) False octets tp tmp = pton4_loop rest True (octets + 1) tp (tmp[tp := of_nat n])"
  using assms(1)
proof (induction n arbitrary: rest rule: less_induct)
  case (less n)
  have d: "xdigits_l ! (n mod 10) \<noteq> 0" "strchr digits (xdigits_l ! (n mod 10)) = Some (n mod 10)"
    using digit_char [of "n mod 10"] strchr_digit [of "n mod 10"] by auto
  have val: "(ucast (of_nat n :: u32) :: u8) = of_nat n" using less.prems by (simp add: word_unat_eq_iff unat_ucast_mod unat_of_nat)
  show ?case
  proof (cases "n < 10")
    case True
    then show ?thesis using d assms(2-4) val by (simp add: numeral_text_one peek_def poke_def Let_def word_less_nat_alt unat_of_nat)
  next
    case False
    let ?t = "tmp[tp := of_nat (n div 10)]"
    have e: "numeral_text 10 n @ rest = numeral_text 10 (n div 10) @ xdigits_l ! (n mod 10) # rest" using False by (simp add: numeral_text.simps [of 10 n])
    have v: "unat (of_nat (n div 10) :: u8) = n div 10" using less.prems by (simp add: unat_of_nat)
    have "n = n div 10 * 10 + n mod 10" by simp
    then have nw: "(ucast (of_nat (n div 10) :: u8) * 10 + of_nat (n mod 10) :: u32) = of_nat n"
      using decimal_step [of "n mod 10" "of_nat (n div 10)"] v less.prems by (simp add: word_unat_eq_iff unat_of_nat)
    have "n div 10 \<noteq> 0" using False by simp
    then have nz: "(of_nat (n div 10) :: u8) \<noteq> 0" using v by (metis unat_0)
    have "pton4_loop (numeral_text 10 n @ rest) False octets tp tmp = pton4_loop (xdigits_l ! (n mod 10) # rest) True (octets + 1) tp ?t"
      unfolding e using less.IH [of "n div 10"] less.prems False by simp
    also have "\<dots> = pton4_loop rest True (octets + 1) tp (tmp[tp := of_nat n])"
      using d assms(2) nz nw less.prems val by (simp add: peek_def poke_def Let_def word_less_nat_alt unat_of_nat)
    finally show ?thesis .
  qed
qed

lemma pton4_loop_group:
  assumes "tp + 1 < length tmp" and "tmp ! tp = 0" and "octets < 3"
  shows "pton4_loop (numeral_text 10 (unat v) @ 46 # z) False octets tp tmp = pton4_loop z False (octets + 1) (tp + 1) (tmp[tp := v, tp + 1 := 0])"
  using pton4_loop_number [of "unat v" tp tmp octets "46 # z"] assms by (simp add: dot_no_digit poke_def)

lemma pton4_dotted:
  assumes "length a = 4"
  shows "pton4_loop (dotted4 a) False 0 0 (replicate 4 0) = Some (Inr (4, a))"
proof -
  obtain p q r s where a: "a = [p, q, r, s]" using assms by (auto simp: length_Suc_conv numeral_eq_Suc)
  let ?z = "replicate 4 0 :: bytes"
  let ?t = "\<lambda>x. numeral_text 10 (unat (x :: u8))"
  have "pton4_loop (?t p @ 46 # ?t q @ 46 # ?t r @ 46 # ?t s) False 0 0 ?z
      = pton4_loop (?t q @ 46 # ?t r @ 46 # ?t s) False (0 + 1) (0 + 1) (?z[0 := p, 0 + 1 := 0])" by (rule pton4_loop_group) simp_all
  also have "\<dots> = pton4_loop (?t r @ 46 # ?t s) False (0 + 1 + 1) (0 + 1 + 1) (?z[0 := p, 0 + 1 := 0, 0 + 1 := q, 0 + 1 + 1 := 0])"
    by (rule pton4_loop_group) simp_all
  also have "\<dots> = pton4_loop (?t s) False (0 + 1 + 1 + 1) (0 + 1 + 1 + 1)
      (?z[0 := p, 0 + 1 := 0, 0 + 1 := q, 0 + 1 + 1 := 0, 0 + 1 + 1 := r, 0 + 1 + 1 + 1 := 0])" by (rule pton4_loop_group) simp_all
  also have "\<dots> = Some (Inr (4, ?z[0 := p, 0 + 1 := 0, 0 + 1 := q, 0 + 1 + 1 := 0, 0 + 1 + 1 := r, 0 + 1 + 1 + 1 := 0, 0 + 1 + 1 + 1 := s]))"
    using pton4_loop_number [of "unat s" "0 + 1 + 1 + 1" "?z[0 := p, 0 + 1 := 0, 0 + 1 := q, 0 + 1 + 1 := 0, 0 + 1 + 1 := r, 0 + 1 + 1 + 1 := 0]" "0 + 1 + 1 + 1" "[]"] by simp
  finally show ?thesis by (simp add: dotted4_def a numeral_eq_Suc)
qed

lemma dotted4_chars: "c \<in> set (dotted4 a) \<Longrightarrow> c \<notin> {0, 58, 37}"
  using numeral_text_chars [of 10 c] by (auto simp: dotted4_def)

lemma dotted4_length: "length (dotted4 a) \<le> 15" "0 < length (dotted4 a)"
proof -
  have "length (numeral_text 10 (unat (x :: u8))) \<le> 3" for x
    using numeral_text_length [of 10 "unat x" 2] unat_u8_less [of x] by (simp add: numeral_eq_Suc del: unat_u8_less)
  from this [of "a ! 0"] this [of "a ! 1"] this [of "a ! 2"] this [of "a ! 3"] show "length (dotted4 a) \<le> 15" by (simp add: dotted4_def)
qed (simp add: dotted4_def)

lemma dotted4_inj: "length a = 4 \<Longrightarrow> length b = 4 \<Longrightarrow> dotted4 a = dotted4 b \<Longrightarrow> a = b"
  using pton4_dotted by (metis option.inject prod.inject sum.inject(2))

lemma inet_pton4_value:
  assumes "0 \<notin> set s" and "4 \<le> length dst"
  shows "inet_pton4 s dst = Some (UV_EINVAL, dst) \<and> (\<forall>a. length a = 4 \<longrightarrow> s \<noteq> dotted4 a)
    \<or> (\<exists>a. length a = 4 \<and> s = dotted4 a \<and> inet_pton4 s dst = Some (0, a @ drop 4 dst))"
proof (cases "\<exists>a. length a = 4 \<and> s = dotted4 a")
  case True
  then obtain a where a: "length a = 4" "s = dotted4 a" by blast
  have "inet_pton4 s dst = Some (0, a @ drop 4 dst)" unfolding inet_pton4_def a(2) pton4_dotted [OF a(1)] using assms(2) by simp
  then show ?thesis using a by blast
next
  case False
  have z: "shown 0 False (replicate 4 0) = []" by (simp add: shown_def)
  have "pton4_loop s False 0 0 (replicate 4 0) = Some (Inl UV_EINVAL) \<or>
    (\<exists>tp' saw' tmp'. pton4_loop s False 0 0 (replicate 4 0) = Some (Inr (tp' + (if saw' then 1 else 0), tmp'))
       \<and> length tmp' = 4 \<and> tp' \<le> 3 \<and> shown tp' saw' tmp' = shown 0 False (replicate 4 0) @ s)"
    by (rule pton4_loop_shown) (use assms(1) in simp_all)
  then consider "pton4_loop s False 0 0 (replicate 4 0) = Some (Inl UV_EINVAL)"
    | tp saw tmp where "pton4_loop s False 0 0 (replicate 4 0) = Some (Inr (tp + (if saw then 1 else 0), tmp))" "length tmp = 4" "tp \<le> 3" "shown tp saw tmp = s"
    unfolding z append_Nil by blast
  then show ?thesis
  proof cases
    case 2
    have "\<not> (saw \<and> tp = 3)" using False 2(2,4) shown_all [of tmp] by auto
    then have "tp + (if saw then 1 else 0) < 4" using 2(3) by auto
    then show ?thesis using 2(1) False by (simp add: inet_pton4_def)
  qed (use False in \<open>simp add: inet_pton4_def\<close>)
qed

lemma inet_ntop4_value:
  assumes "4 \<le> length src" and "unat sz \<le> length dst"
  shows "inet_ntop4 src dst sz = Some (if length (dotted4 src) < unat sz then (0, dotted4 src @ 0 # drop (length (dotted4 src) + 1) dst) else (UV_ENOSPC, dst))"
proof -
  let ?s = "dotted4 src"
  have "snprintf UV__INET_ADDRSTRLEN ?s = (length ?s, ?s @ [0])" using dotted4_length(1) [of src] by (simp add: snprintf_def UV__INET_ADDRSTRLEN_def)
  moreover have p: "peek src 0 = Some (src ! 0)" "peek src 1 = Some (src ! 1)" "peek src 2 = Some (src ! 2)" "peek src 3 = Some (src ! 3)"
    using assms(1) by (auto simp: peek_def)
  have "inet_ntop4 src dst sz = (case snprintf UV__INET_ADDRSTRLEN ?s of (l, tmp) \<Rightarrow>
      if l = 0 \<or> l \<ge> unat sz then Some (UV_ENOSPC, dst) else do { (_, dst) \<leftarrow> uv__strscpy dst tmp sz; Some (0, dst) })"
    unfolding inet_ntop4_def dotted4_def p by simp
  moreover have "0 \<notin> set ?s" using dotted4_chars by blast
  moreover have "length ?s < 2 ^ 63" using dotted4_length(1) [of src] by simp
  ultimately show ?thesis using assms(2) dotted4_length(2) [of src] uv__strscpy_text [of sz dst ?s "[]"] by simp
qed

subsection \<open>Reading IPv6 groups\<close>

definition word_at :: "bytes \<Rightarrow> nat \<Rightarrow> u32" where
  "word_at src i = push_bit 8 (ucast (src ! (2 * i))) OR ucast (src ! (2 * i + 1))"

definition grp :: "bytes \<Rightarrow> nat \<Rightarrow> bytes" where
  "grp src i = numeral_text 16 (unat (word_at src i))"

definition groups :: "bytes \<Rightarrow> nat list \<Rightarrow> bytes" where
  "groups src is = concat (map (\<lambda>i. grp src i @ [58]) is)"

text \<open>The bytes that have been read, in the block of 16.\<close>

definition padded :: "bytes \<Rightarrow> bytes" where
  "padded d = d @ replicate (16 - length d) 0"

definition pairs :: "bytes \<Rightarrow> nat list \<Rightarrow> bytes" where
  "pairs src is = concat (map (\<lambda>i. [src ! (2 * i), src ! (2 * i + 1)]) is)"

lemma pairs_simps [simp]: "pairs src [] = []" "pairs src (i # is) = src ! (2 * i) # src ! (2 * i + 1) # pairs src is"
    "pairs src (is @ js) = pairs src is @ pairs src js" "length (pairs src is) = 2 * length is"
  by (simp_all add: pairs_def) (induction "is", simp_all)

lemma word_at_unat: "unat (word_at src i) = 256 * unat (src ! (2 * i)) + unat (src ! (2 * i + 1))"
proof -
  let ?a = "ucast (src ! (2 * i)) :: u32" and ?b = "ucast (src ! (2 * i + 1)) :: u32"
  have "unat ?b < 2 ^ 8" using unat_u8_less [of "src ! (2 * i + 1)"] by simp
  then have "word_at src i = push_bit 8 ?a + ?b" unfolding word_at_def by (rule shl_or_eq_add)
  moreover have "unat (push_bit 8 ?a) = 256 * unat (src ! (2 * i))" using unat_u8_less [of "src ! (2 * i)"] by (simp add: unat_shl del: unat_u8_less)
  moreover have "256 * unat (src ! (2 * i)) + unat (src ! (2 * i + 1)) < 2 ^ 32"
    using unat_u8_less [of "src ! (2 * i)"] unat_u8_less [of "src ! (2 * i + 1)"] by (simp del: unat_u8_less)
  ultimately show ?thesis by (simp add: unat_plus_if_size word_size)
qed

lemma word_at_less: "unat (word_at src i) < 65536"
  using unat_u8_less [of "src ! (2 * i)"] unat_u8_less [of "src ! (2 * i + 1)"] by (simp add: word_at_unat del: unat_u8_less)

lemma word_at_bytes: "(ucast (drop_bit 8 (word_at src i)) AND 0xff :: u8) = src ! (2 * i)" "(ucast (word_at src i) AND 0xff :: u8) = src ! (2 * i + 1)"
proof -
  have m: "x AND 0xff = x" for x :: u8
  proof -
    have "(0xff :: u8) = - 1" by simp
    then show ?thesis by (simp only: and.right_neutral)
  qed
  have "unat (drop_bit 8 (word_at src i)) = unat (src ! (2 * i))"
    using unat_u8_less [of "src ! (2 * i + 1)"] by (simp add: unat_shr word_at_unat del: unat_u8_less)
  then show "(ucast (drop_bit 8 (word_at src i)) AND 0xff :: u8) = src ! (2 * i)" unfolding m by (simp add: word_unat_eq_iff unat_ucast_mod)
  have "unat (ucast (word_at src i) :: u8) = unat (src ! (2 * i + 1))" by (simp add: unat_ucast_mod word_at_unat)
  then show "(ucast (word_at src i) AND 0xff :: u8) = src ! (2 * i + 1)" unfolding m by (simp add: word_unat_eq_iff)
qed

lemma padded_length [simp]: "length d \<le> 16 \<Longrightarrow> length (padded d) = 16"
  by (simp add: padded_def)

lemma padded_add:
  assumes "length d < 16"
  shows "(padded d)[length d := c] = padded (d @ [c])"
proof -
  have "replicate (16 - length d) 0 = 0 # replicate (16 - length (d @ [c])) (0 :: u8)" using assms by (simp flip: replicate_Suc add: Suc_diff_Suc)
  then show ?thesis by (simp add: padded_def)
qed

lemma put_group_padded:
  assumes "length d + 2 \<le> 16"
  shows "put_group (padded d) (length d) (word_at src i) = Some (padded (d @ [src ! (2 * i), src ! (2 * i + 1)]))"
proof -
  have "(padded d)[length d := x, length d + 1 := y] = padded (d @ [x, y])" for x y
    using padded_add [of d x] padded_add [of "d @ [x]" y] assms by simp
  then show ?thesis using assms by (simp add: put_group_def poke_def word_at_bytes)
qed

lemma push4: "n < 2 ^ 28 \<Longrightarrow> d < 16 \<Longrightarrow> push_bit 4 (of_nat n :: u32) OR of_nat d = of_nat (16 * n + d)"
proof -
  assume n: "n < 2 ^ 28" and d: "d < 16"
  have "unat (of_nat d :: u32) < 2 ^ 4" using d by (simp add: unat_of_nat)
  then have "push_bit 4 (of_nat n :: u32) OR of_nat d = push_bit 4 (of_nat n) + of_nat d" by (rule shl_or_eq_add)
  moreover have "push_bit 4 (of_nat n :: u32) = of_nat (16 * n)" by (simp add: push_bit_eq_mult mult.commute)
  ultimately show ?thesis by (simp only: of_nat_add)
qed

lemma pton6_loop_number:
  assumes "n < 16 ^ Suc k" and "k \<le> 3"
  shows "pton6_loop (numeral_text 16 n @ rest) cur 0 0 tp cp tmp = pton6_loop rest cur (length (numeral_text 16 n)) (of_nat n) tp cp tmp"
  using assms
proof (induction k arbitrary: n rest)
  case 0
  then have "xdigits_l ! n \<noteq> 0" "xdigit (xdigits_l ! n) = Some n" using digit_char [of n] xdigit_digit [of n] by auto
  then show ?case using 0 by (simp add: numeral_text_one)
next
  case (Suc k)
  have d: "xdigits_l ! (n mod 16) \<noteq> 0" "xdigit (xdigits_l ! (n mod 16)) = Some (n mod 16)"
    using digit_char [of "n mod 16"] xdigit_digit [of "n mod 16"] by auto
  have q: "n div 16 < 16 ^ Suc k" using Suc.prems(1) by (simp add: less_mult_imp_div_less mult.commute)
  show ?case
  proof (cases "n < 16")
    case True
    then show ?thesis using d by (simp add: numeral_text_one)
  next
    case False
    then have e: "numeral_text 16 n = numeral_text 16 (n div 16) @ [xdigits_l ! (n mod 16)]" by (simp add: numeral_text.simps [of 16 n])
    have l: "length (numeral_text 16 (n div 16)) \<le> 3" using numeral_text_length [OF _ q] Suc.prems(2) by simp
    have "16 ^ Suc k \<le> (16 :: nat) ^ 4" using Suc.prems(2) by (intro power_increasing) auto
    then have "n div 16 < 2 ^ 28" using q by simp
    from push4 [OF this, of "n mod 16"] have v: "push_bit 4 (of_nat (n div 16) :: u32) OR of_nat (n mod 16) = of_nat n" by simp
    show ?thesis unfolding e using Suc.IH [OF q, of "xdigits_l ! (n mod 16) # rest"] Suc.prems(2) d l v by simp
  qed
qed

lemma grp_facts: "grp src i \<noteq> []" "length (grp src i) \<le> 4"
  using numeral_text_nonempty numeral_text_length [of 16 "unat (word_at src i)" 3] word_at_less [of src i] by (simp_all add: grp_def)

lemma grp_chars: "c \<in> set (grp src i) \<Longrightarrow> c \<notin> {0, 46, 58, 37}"
  unfolding grp_def by (rule numeral_text_chars) simp_all

lemma pton6_loop_grp:
  "pton6_loop (grp src i @ rest) cur 0 0 tp cp tmp = pton6_loop rest cur (length (grp src i)) (word_at src i) tp cp tmp"
  using pton6_loop_number [of "unat (word_at src i)" 3 rest cur tp cp tmp] word_at_less [of src i] by (simp add: grp_def)

lemma pton6_loop_groups:
  assumes "length d + 2 * length is \<le> 16" and "deref rest \<noteq> 0"
  shows "pton6_loop (groups src is @ rest) cur 0 0 (length d) cp (padded d)
    = pton6_loop rest (if is = [] then cur else rest) 0 0 (length (d @ pairs src is)) cp (padded (d @ pairs src is))"
  using assms
proof (induction "is" arbitrary: d cur)
  case (Cons i "is")
  let ?rest = "groups src is @ rest"
  have nz: "deref ?rest \<noteq> 0"
  proof (cases "is")
    case (Cons j js)
    then show ?thesis using grp_facts(1) [of src j] grp_chars [of _ src j] by (cases "grp src j") (auto simp: groups_def deref_def)
  qed (use Cons.prems(2) in \<open>simp add: groups_def\<close>)
  have "pton6_loop (groups src (i # is) @ rest) cur 0 0 (length d) cp (padded d) = pton6_loop (58 # ?rest) cur (length (grp src i)) (word_at src i) (length d) cp (padded d)"
    using pton6_loop_grp [of src i "58 # ?rest"] by (simp add: groups_def)
  also have "\<dots> = pton6_loop ?rest ?rest 0 0 (length d + 2) cp (padded (d @ [src ! (2 * i), src ! (2 * i + 1)]))"
    using Cons.prems(1) nz grp_facts(1) [of src i] put_group_padded [of d src i] by (simp add: dot_no_digit)
  also have "\<dots> = pton6_loop rest rest 0 0 (length (d @ pairs src (i # is))) cp (padded (d @ pairs src (i # is)))"
    using Cons.IH [of "d @ [src ! (2 * i), src ! (2 * i + 1)]" ?rest] Cons.prems by (cases "is = []") (simp_all add: groups_def)
  finally show ?case by simp
qed (simp add: groups_def)

lemma pton6_loop_last:
  assumes "length d + 2 * length is \<le> 16"
  shows "pton6_loop (groups src is @ grp src i) cur 0 0 (length d) cp (padded d)
    = Some (Inr (length (grp src i), word_at src i, length (d @ pairs src is), cp, padded (d @ pairs src is)))"
proof -
  have "deref (grp src i) \<noteq> 0" using grp_facts(1) [of src i] grp_chars [of _ src i] by (cases "grp src i") (auto simp: deref_def)
  then show ?thesis using pton6_loop_groups [OF assms, of "grp src i" src] pton6_loop_grp [of src i "[]"] by simp
qed

lemma pton6_loop_hex:
  assumes "n < 10 ^ Suc k" and "k \<le> 3"
  shows "\<exists>v. pton6_loop (numeral_text 10 n @ rest) cur 0 0 tp cp tmp = pton6_loop rest cur (length (numeral_text 10 n)) v tp cp tmp"
  using assms
proof (induction k arbitrary: n rest)
  case 0
  then have "xdigits_l ! n \<noteq> 0" "xdigit (xdigits_l ! n) = Some n" using digit_char [of n] xdigit_digit [of n] by auto
  then show ?case using 0 by (auto simp: numeral_text_one)
next
  case (Suc k)
  have "n mod 10 < 16" using mod_less_divisor [of 10 n] by linarith
  then have d: "xdigits_l ! (n mod 10) \<noteq> 0" "xdigit (xdigits_l ! (n mod 10)) = Some (n mod 10)"
    using digit_char [of "n mod 10"] xdigit_digit [of "n mod 10"] by auto
  have q: "n div 10 < 10 ^ Suc k" using Suc.prems(1) by (simp add: less_mult_imp_div_less mult.commute)
  show ?case
  proof (cases "n < 10")
    case True
    then show ?thesis using d by (auto simp: numeral_text_one)
  next
    case False
    then have e: "numeral_text 10 n = numeral_text 10 (n div 10) @ [xdigits_l ! (n mod 10)]" by (simp add: numeral_text.simps [of 10 n])
    have l: "length (numeral_text 10 (n div 10)) \<le> 3" using numeral_text_length [OF _ q] Suc.prems(2) by simp
    from Suc.IH [OF q, of "xdigits_l ! (n mod 10) # rest"] Suc.prems(2)
    obtain v where "pton6_loop (numeral_text 10 (n div 10) @ xdigits_l ! (n mod 10) # rest) cur 0 0 tp cp tmp
      = pton6_loop (xdigits_l ! (n mod 10) # rest) cur (length (numeral_text 10 (n div 10))) v tp cp tmp" by auto
    then show ?thesis unfolding e using d l by auto
  qed
qed

lemma pton6_loop_dotted:
  assumes "length q = 4" and "length d + 4 \<le> 16"
  shows "\<exists>v. pton6_loop (dotted4 q) (dotted4 q) 0 0 (length d) cp (padded d) = Some (Inr (0, v, length d + 4, cp, padded (d @ q)))"
proof -
  define r where "r = numeral_text 10 (unat (q ! 1)) @ [46] @ numeral_text 10 (unat (q ! 2)) @ [46] @ numeral_text 10 (unat (q ! 3))"
  have e: "dotted4 q = numeral_text 10 (unat (q ! 0)) @ 46 # r" by (simp add: dotted4_def r_def)
  have "unat (q ! 0) < 10 ^ Suc 2" using unat_u8_less [of "q ! 0"] by (simp del: unat_u8_less)
  from pton6_loop_hex [OF this, of "46 # r" "dotted4 q" "length d" cp "padded d"]
  obtain v where v: "pton6_loop (dotted4 q) (dotted4 q) 0 0 (length d) cp (padded d)
    = pton6_loop (46 # r) (dotted4 q) (length (numeral_text 10 (unat (q ! 0)))) v (length d) cp (padded d)" by (auto simp: e)
  have "0 \<notin> set (dotted4 q)" using dotted4_chars by blast
  moreover have "4 \<le> length (drop (length d) (padded d))" using assms(2) by simp
  ultimately have "inet_pton4 (dotted4 q) (drop (length d) (padded d)) = Some (0, q @ drop 4 (drop (length d) (padded d)))"
    using inet_pton4_value [of "dotted4 q"] assms(1) dotted4_inj by blast
  moreover have "take (length d) (padded d) @ q @ drop 4 (drop (length d) (padded d)) = padded (d @ q)" using assms by (simp add: padded_def)
  ultimately show ?thesis using v assms(2) by (simp add: dot_no_digit)
qed

lemma pton6_loop_v4:
  assumes "length q = 4" and "length d + 2 * length is + 4 \<le> 16" and "is = [] \<Longrightarrow> cur = dotted4 q"
  shows "\<exists>v. pton6_loop (groups src is @ dotted4 q) cur 0 0 (length d) cp (padded d)
    = Some (Inr (0, v, length (d @ pairs src is @ q), cp, padded (d @ pairs src is @ q)))"
proof -
  have "deref (dotted4 q) \<noteq> 0" using dotted4_length(2) [of q] dotted4_chars [of _ q] by (cases "dotted4 q") (auto simp: deref_def)
  then have "pton6_loop (groups src is @ dotted4 q) cur 0 0 (length d) cp (padded d)
    = pton6_loop (dotted4 q) (dotted4 q) 0 0 (length (d @ pairs src is)) cp (padded (d @ pairs src is))"
    using pton6_loop_groups [of d "is" "dotted4 q" src cur cp] assms(2,3) by (cases "is = []") auto
  then show ?thesis using pton6_loop_dotted [OF assms(1), of "d @ pairs src is" cp] assms(1,2) by (simp add: add.assoc)
qed

subsection \<open>The shift behind the double colon\<close>

lemma shift_step:
  "(A @ x # replicate z 0 @ 0 # R)[length A + Suc z := x, length A := 0] = A @ replicate (Suc z) 0 @ x # (R :: bytes)"
  by (simp add: list_update_append replicate_append_same [symmetric])

lemma shift_loop_from:
  assumes "length p + length q + Suc z = 16" and "m \<le> length q"
  shows "shift_loop [length q - m + 1..<length q + 1] (length q) (length p) (p @ take m q @ replicate (Suc z) 0 @ drop m q) = Some (p @ replicate (Suc z) 0 @ q)"
  using assms(2)
proof (induction m)
  case 0
  then show ?case by simp
next
  case (Suc m)
  let ?A = "p @ take m q" and ?R = "drop (Suc m) q" and ?i = "length q - m"
  have x: "take (Suc m) q = take m q @ [q ! m]" "drop m q = q ! m # ?R" using Suc.prems by (simp_all add: take_Suc_conv_app_nth Cons_nth_drop_Suc)
  let ?t = "?A @ q ! m # replicate z 0 @ 0 # ?R"
  have t: "p @ take (Suc m) q @ replicate (Suc z) 0 @ ?R = ?t" using x(1) by (simp add: replicate_append_same [symmetric])
  have len: "length ?A = length p + m" "length ?t = 16" using Suc.prems assms(1) by auto
  have pos: "length p + (length q - ?i) = length ?A" "16 - ?i = length ?A + Suc z" using Suc.prems assms(1) len(1) by auto
  have rd: "?t ! length ?A = q ! m" by (simp add: nth_append)
  have "length q - Suc m + 1 = ?i" "?i < length q + 1" using Suc.prems by auto
  then have "[length q - Suc m + 1..<length q + 1] = ?i # [?i + 1..<length q + 1]" by (simp only: upt_conv_Cons Suc_eq_plus1)
  then have "shift_loop [length q - Suc m + 1..<length q + 1] (length q) (length p) ?t
      = shift_loop [?i + 1..<length q + 1] (length q) (length p) (?t[length ?A + Suc z := q ! m, length ?A := 0])"
    using pos rd len assms(1) Suc.prems by (simp add: peek_def poke_def)
  also have "?t[length ?A + Suc z := q ! m, length ?A := 0] = p @ take m q @ replicate (Suc z) 0 @ drop m q"
    unfolding shift_step x(2) by simp
  finally show ?case unfolding t using Suc by simp
qed

lemma shift_loop_all:
  assumes "length p + length q < 16"
  shows "shift_loop [1..<length q + 1] (length q) (length p) (padded (p @ q)) = Some (p @ replicate (16 - length p - length q) 0 @ q)"
proof -
  obtain z where z: "16 - length p - length q = Suc z" using assms by (cases "16 - length p - length q") auto
  then have "length p + length q + Suc z = 16" using assms by simp
  from shift_loop_from [OF this, of "length q"] show ?thesis using z by (simp add: padded_def)
qed

subsection \<open>Parsing the two forms of an IPv6 address\<close>

lemma groups_start: "is \<noteq> [] \<Longrightarrow> deref (groups src is @ rest) \<notin> {0, 58}" "deref (grp src i @ rest) \<notin> {0, 58}"
proof -
  show g: "deref (grp src i @ rest) \<notin> {0, 58}" for i rest
    using grp_facts(1) [of src i] grp_chars [of _ src i] by (cases "grp src i") (auto simp: deref_def)
  show "deref (groups src is @ rest) \<notin> {0, 58}" if "is \<noteq> []"
    using that g [of _ "58 # groups src (tl is) @ rest"] by (cases "is") (auto simp: groups_def)
qed

lemma inet_pton6_plain:
  assumes "16 \<le> length dst"
  shows "inet_pton6 (groups src [0..<7] @ grp src 7) dst = Some (0, pairs src [0..<8] @ drop 16 dst)"
proof -
  let ?s = "groups src [0..<7] @ grp src 7"
  have s: "deref ?s \<noteq> 58" using groups_start(1) [of "[0..<7]" src "grp src 7"] by auto
  have l: "pton6_loop ?s ?s 0 0 0 None (replicate 16 0) = Some (Inr (length (grp src 7), word_at src 7, 14, None, padded (pairs src [0..<7])))"
    using pton6_loop_last [of "[]" "[0..<7]" src 7 ?s None] by (simp add: padded_def)
  have p: "put_group (padded (pairs src [0..<7])) 14 (word_at src 7) = Some (padded (pairs src [0..<8]))"
  proof -
    have "[0..<8] = [0..<7] @ [7 :: nat]" by (simp add: upt_rec)
    then have "pairs src [0..<8] = pairs src [0..<7] @ [src ! (2 * 7), src ! (2 * 7 + 1)]" by simp
    moreover have "length (pairs src [0..<7]) = 14" by simp
    ultimately show ?thesis using put_group_padded [of "pairs src [0..<7]" src 7] by simp
  qed
  have "padded (pairs src [0..<8]) = pairs src [0..<8]" by (simp add: padded_def)
  then show ?thesis using s l p assms grp_facts(1) [of src 7] by (simp add: inet_pton6_def)
qed

lemma inet_pton6_run:
  assumes "2 * length pre + length post < 16" and "16 \<le> length dst"
    and tail: "pton6_loop rest rest 0 0 (2 * length pre) (Some (2 * length pre)) (padded (pairs src pre)) = Some (Inr (seen, v, tp, Some (2 * length pre), tmp))"
    and fin: "if seen = 0 then tp = 2 * length pre + length post \<and> tmp = padded (pairs src pre @ post)
       else tp + 2 = 2 * length pre + length post \<and> put_group tmp tp v = Some (padded (pairs src pre @ post))"
  shows "inet_pton6 ((if pre = [] then [58] else []) @ groups src pre @ 58 # rest) dst
    = Some (0, pairs src pre @ replicate (16 - 2 * length pre - length post) 0 @ post @ drop 16 dst)"
proof -
  let ?n = "2 * length pre" and ?s = "groups src pre @ 58 # rest"
  have l: "pton6_loop ?s ?s 0 0 0 None (replicate 16 0) = Some (Inr (seen, v, tp, Some ?n, tmp))"
  proof -
    have "pton6_loop ?s ?s 0 0 0 None (replicate 16 0) = pton6_loop (58 # rest) (if pre = [] then ?s else 58 # rest) 0 0 ?n None (padded (pairs src pre))"
      using pton6_loop_groups [of "[]" pre "58 # rest" src ?s None] assms(1) by (simp add: padded_def deref_def)
    also have "\<dots> = pton6_loop rest rest 0 0 ?n (Some ?n) (padded (pairs src pre))" by (simp add: dot_no_digit)
    finally show ?thesis using tail by simp
  qed
  have sh: "shift_loop [1..<length post + 1] (length post) ?n (padded (pairs src pre @ post)) = Some (pairs src pre @ replicate (16 - ?n - length post) 0 @ post)"
    using shift_loop_all [of "pairs src pre" post] assms(1) by simp
  have st: "deref ((if pre = [] then [58] else []) @ ?s) = 58 \<longleftrightarrow> pre = []" "pre = [] \<Longrightarrow> deref ?s = 58"
    using groups_start(1) [of pre src "58 # rest"] by (auto simp: deref_def groups_def)
  show ?thesis
  proof (cases "seen = 0")
    case True
    then show ?thesis using l fin sh st assms(1,2) by (cases "pre = []") (simp_all add: inet_pton6_def)
  next
    case False
    then have "\<not> tp + 2 > 16" using fin assms(1) by simp
    then show ?thesis using False l fin sh st assms(1,2) by (cases "pre = []") (simp_all add: inet_pton6_def)
  qed
qed

subsection \<open>Printing IPv6 addresses\<close>

lemma words_loop_from:
  assumes "16 \<le> length src" and "k \<le> 8" and "length ws = 8"
  shows "words_loop [2 * k..<16] src ws = Some (take k ws @ map (\<lambda>i. ws ! i OR word_at src i) [k..<8])"
  using assms(2,3)
proof (induction "8 - k" arbitrary: k ws)
  case 0
  then show ?case by simp
next
  case (Suc n)
  then have k: "k < 8" by simp
  let ?w = "ws ! k OR push_bit 8 (ucast (src ! (2 * k)))"
  have "[2 * k..<16] = 2 * k # (2 * k + 1) # [2 * (k + 1)..<16]" using k by (simp add: upt_conv_Cons)
  moreover have "peek src (2 * k) = Some (src ! (2 * k))" "peek src (2 * k + 1) = Some (src ! (2 * k + 1))" using assms(1) k by (simp_all add: peek_def)
  ultimately have "words_loop [2 * k..<16] src ws = words_loop [2 * (k + 1)..<16] src (ws[k := ?w OR ucast (src ! (2 * k + 1))])"
    using k Suc.prems(2) by simp
  also have "?w OR ucast (src ! (2 * k + 1)) = ws ! k OR word_at src k" by (simp add: word_at_def or.assoc)
  also have "words_loop [2 * (k + 1)..<16] src (ws[k := ws ! k OR word_at src k])
      = Some (take (k + 1) (ws[k := ws ! k OR word_at src k]) @ map (\<lambda>i. ws[k := ws ! k OR word_at src k] ! i OR word_at src i) [k + 1..<8])"
    using Suc.hyps(1) [of "k + 1" "ws[k := ws ! k OR word_at src k]"] Suc.hyps(2) k Suc.prems(2) by simp
  also have "take (k + 1) (ws[k := ws ! k OR word_at src k]) = take k ws @ [ws ! k OR word_at src k]" using k Suc.prems(2) by (simp add: take_Suc_conv_app_nth)
  also have "map (\<lambda>i. ws[k := ws ! k OR word_at src k] ! i OR word_at src i) [k + 1..<8] = map (\<lambda>i. ws ! i OR word_at src i) [k + 1..<8]" by simp
  finally show ?case using k by (simp add: upt_conv_Cons)
qed

definition words_of :: "bytes \<Rightarrow> u32 list" where
  "words_of src = map (word_at src) [0..<8]"

lemma words_loop_all: "16 \<le> length src \<Longrightarrow> words_loop [0..<16] src (replicate 8 0) = Some (words_of src)"
  using words_loop_from [of src 0 "replicate 8 0"] by (simp add: words_of_def cong: map_cong)

text \<open>A run that the search has found up to the position \<open>k\<close>.\<close>

definition zeros :: "u32 list \<Rightarrow> nat \<Rightarrow> zero_run \<Rightarrow> bool" where
  "zeros ws k r \<longleftrightarrow> run_base r = - 1 \<or>
     (\<exists>b n. run_base r = int b \<and> run_len r = int n \<and> 1 \<le> n \<and> b + n \<le> k \<and> (\<forall>i \<in> {b..<b + n}. ws ! i = 0))"

lemma zeros_mono: "zeros ws k r \<Longrightarrow> k \<le> m \<Longrightarrow> zeros ws m r"
  by (auto simp: zeros_def)

lemma runs_loop_zeros:
  assumes "k \<le> m" and "zeros ws k best" and "zeros ws k cur" and "run_base cur \<noteq> - 1 \<Longrightarrow> run_base cur + run_len cur = int k"
    and "runs_loop [k..<m] ws best cur = (best', cur')"
  shows "zeros ws m best' \<and> zeros ws m cur'"
  using assms
proof (induction "m - k" arbitrary: k best cur)
  case 0
  then show ?case by simp
next
  case (Suc n)
  then have k: "k < m" by simp
  have u: "[k..<m] = k # [k + 1..<m]" using k by (simp add: upt_conv_Cons)
  show ?case
  proof (cases "ws ! k = 0")
    case True
    define c where "c = (if run_base cur = - 1 then \<lparr>run_base = int k, run_len = 1\<rparr> else cur\<lparr>run_len := run_len cur + 1\<rparr>)"
    have "zeros ws (k + 1) c \<and> run_base c + run_len c = int (k + 1)"
    proof (cases "run_base cur = - 1")
      case False
      then obtain b l where b': "run_base cur = int b" "run_len cur = int l" "1 \<le> l" "\<forall>i \<in> {b..<b + l}. ws ! i = 0"
        using Suc.prems(3) unfolding zeros_def by blast
      have "b + l = k" using Suc.prems(4) False b'(1,2) by simp
      note b = b'(1-3) this b'(4)
      have "\<forall>i \<in> {b..<b + (l + 1)}. ws ! i = 0" using b(4,5) True by (auto simp: less_Suc_eq)
      then show ?thesis using False b unfolding zeros_def c_def by (intro conjI disjI2 exI [of _ b] exI [of _ "l + 1"]) auto
    next
      case t: True
      show ?thesis unfolding zeros_def c_def using t True by (intro conjI disjI2 exI [of _ k] exI [of _ 1]) auto
    qed
    moreover have "zeros ws (k + 1) best" using zeros_mono [OF Suc.prems(2)] by simp
    moreover have "runs_loop [k + 1..<m] ws best c = (best', cur')" using Suc.prems(5) True unfolding u c_def by simp
    ultimately show ?thesis using Suc.hyps(1) [of "k + 1" best c] Suc.hyps(2) k by simp
  next
    case False
    define b where "b = (if run_base cur \<noteq> - 1 \<and> (run_base best = - 1 \<or> run_len cur > run_len best) then cur else best)"
    define c where "c = (if run_base cur = - 1 then cur else cur\<lparr>run_base := - 1\<rparr>)"
    have "runs_loop [k + 1..<m] ws b c = (best', cur')"
      using Suc.prems(5) False unfolding u b_def c_def by (cases "run_base cur = - 1") auto
    moreover have "zeros ws (k + 1) b" using zeros_mono [OF Suc.prems(2)] zeros_mono [OF Suc.prems(3)] by (simp add: b_def)
    moreover have "zeros ws (k + 1) c" "run_base c = - 1" by (simp_all add: zeros_def c_def)
    ultimately show ?thesis using Suc.hyps(1) [of "k + 1" b c] Suc.hyps(2) k by simp
  qed
qed

lemma best_run_zeros:
  "run_base (best_run ws) = - 1 \<or> (\<exists>b n. run_base (best_run ws) = int b \<and> run_len (best_run ws) = int n \<and> 2 \<le> n \<and> b + n \<le> 8 \<and> (\<forall>i \<in> {b..<b + n}. ws ! i = 0))"
proof -
  obtain best cur where r: "runs_loop [0..<8] ws \<lparr>run_base = - 1, run_len = 0\<rparr> \<lparr>run_base = - 1, run_len = 0\<rparr> = (best, cur)" by fastforce
  define b where "b = (if run_base cur \<noteq> - 1 \<and> (run_base best = - 1 \<or> run_len cur > run_len best) then cur else best)"
  have "zeros ws 8 best \<and> zeros ws 8 cur" by (rule runs_loop_zeros [OF _ _ _ _ r]) (simp_all add: zeros_def)
  then have z: "zeros ws 8 b" by (simp add: b_def)
  have e: "best_run ws = (if run_base b \<noteq> - 1 \<and> run_len b < 2 then b\<lparr>run_base := - 1\<rparr> else b)"
    by (simp add: best_run_def r b_def Let_def)
  show ?thesis
  proof (cases "run_base b = - 1 \<or> run_len b < 2")
    case False
    then show ?thesis using z unfolding zeros_def e by auto
  qed (auto simp: e)
qed

definition inside :: "zero_run \<Rightarrow> nat \<Rightarrow> bool" where
  "inside best i \<longleftrightarrow> run_base best \<noteq> - 1 \<and> int i \<ge> run_base best \<and> int i < run_base best + run_len best"

definition embeds :: "u32 list \<Rightarrow> zero_run \<Rightarrow> bool" where
  "embeds ws best \<longleftrightarrow> run_base best = 0 \<and> (run_len best = 6 \<or> (run_len best = 7 \<and> ws ! 7 \<noteq> 1) \<or> (run_len best = 5 \<and> ws ! 5 = 0xffff))"

definition chunk :: "bytes \<Rightarrow> zero_run \<Rightarrow> nat \<Rightarrow> bytes" where
  "chunk src best i = (if inside best i then if int i = run_base best then [58] else [] else (if i \<noteq> 0 then [58] else []) @ grp src i)"

lemma poke_end: "rest \<noteq> [] \<Longrightarrow> poke (out @ rest) (length out) c = Some (out @ [c] @ tl rest)"
  by (cases rest) (simp_all add: poke_def)

lemma sprintf_end: "length t < length rest \<Longrightarrow> sprintf (out @ rest) (length out) t = Some (out @ t @ 0 # drop (length t + 1) rest)"
  by (simp add: sprintf_def)

lemma text_loop_step:
  assumes "i < 8" and "inside best i \<or> \<not> (i = 6 \<and> embeds (words_of src) best)" and "length (chunk src best i) < length rest"
  shows "\<exists>rest'. length (chunk src best i) + length rest' = length rest \<and>
    text_loop (i # is) src (words_of src) best (length out) (out @ rest)
      = text_loop is src (words_of src) best (length (out @ chunk src best i)) (out @ chunk src best i @ rest')"
proof (cases "inside best i")
  case True
  show ?thesis
  proof (cases "int i = run_base best")
    case t: True
    have "rest \<noteq> []" using assms(3) by auto
    then have "text_loop (i # is) src (words_of src) best (length out) (out @ rest) = text_loop is src (words_of src) best (length out + 1) (out @ [58] @ tl rest)"
      using True t poke_end [of rest out 58] by (simp add: inside_def)
    then show ?thesis using True t \<open>rest \<noteq> []\<close> by (intro exI [of _ "tl rest"]) (simp add: chunk_def)
  next
    case False
    then show ?thesis using True by (intro exI [of _ rest]) (simp add: inside_def chunk_def)
  qed
next
  case False
  define o1 where "o1 = out @ (if i \<noteq> 0 then [58] else [])"
  define r1 where "r1 = (if i \<noteq> 0 then tl rest else rest)"
  have ne: "rest \<noteq> []" using assms(3) by auto
  have c: "chunk src best i = (if i \<noteq> 0 then [58] else []) @ grp src i" using False by (simp add: chunk_def)
  have p: "(if i \<noteq> 0 then map_option (Pair (length out + 1)) (poke (out @ rest) (length out) 58) else Some (length out, out @ rest)) = Some (length o1, o1 @ r1)"
    using poke_end [OF ne, of out 58] by (simp add: o1_def r1_def)
  have l: "length (grp src i) < length r1" using assms(3) ne unfolding c r1_def by (cases rest) auto
  have w: "numeral_text 16 (unat (words_of src ! i)) = grp src i" using assms(1) by (simp add: words_of_def grp_def)
  have ne6: "\<not> (i = 6 \<and> run_base best = 0 \<and> (run_len best = 6 \<or> (run_len best = 7 \<and> words_of src ! 7 \<noteq> 1) \<or> (run_len best = 5 \<and> words_of src ! 5 = 0xffff)))"
    using assms(2) False by (auto simp: embeds_def)
  have ins: "\<not> (run_base best \<noteq> - 1 \<and> int i \<ge> run_base best \<and> int i < run_base best + run_len best)" using False by (simp add: inside_def)
  have "text_loop (i # is) src (words_of src) best (length out) (out @ rest)
      = text_loop is src (words_of src) best (length o1 + length (grp src i)) (o1 @ grp src i @ 0 # drop (length (grp src i) + 1) r1)"
    unfolding text_loop.simps if_not_P [OF ins] p using sprintf_end [OF l, of o1] by (simp only: bind.simps if_not_P [OF ne6] w prod.case)
  moreover have "length (chunk src best i) + length (0 # drop (length (grp src i) + 1) r1) = length rest"
    using l ne unfolding c r1_def by (cases rest) auto
  ultimately show ?thesis unfolding c o1_def by (intro exI [of _ "0 # drop (length (grp src i) + 1) r1"]) simp
qed

lemma text_loop_chunks:
  assumes "\<forall>i \<in> set is. i < 8 \<and> (inside best i \<or> \<not> (i = 6 \<and> embeds (words_of src) best))"
    and "length (concat (map (chunk src best) is)) < length rest"
  shows "\<exists>rest'. length (concat (map (chunk src best) is)) + length rest' = length rest \<and>
    text_loop (is @ js) src (words_of src) best (length out) (out @ rest)
      = text_loop js src (words_of src) best (length (out @ concat (map (chunk src best) is))) (out @ concat (map (chunk src best) is) @ rest')"
  using assms
proof (induction "is" arbitrary: out rest)
  case Nil
  then show ?case by (intro exI [of _ rest]) simp
next
  case (Cons i "is")
  have "i < 8" "inside best i \<or> \<not> (i = 6 \<and> embeds (words_of src) best)" "length (chunk src best i) < length rest" using Cons.prems by auto
  from text_loop_step [OF this, of "is @ js" out] obtain r1 where r1: "length (chunk src best i) + length r1 = length rest"
    "text_loop ((i # is) @ js) src (words_of src) best (length out) (out @ rest)
      = text_loop (is @ js) src (words_of src) best (length (out @ chunk src best i)) ((out @ chunk src best i) @ r1)" by auto
  have "length (concat (map (chunk src best) is)) < length r1" using Cons.prems(2) r1(1) by simp
  then obtain r2 where r2: "length (concat (map (chunk src best) is)) + length r2 = length r1"
    "text_loop (is @ js) src (words_of src) best (length (out @ chunk src best i)) ((out @ chunk src best i) @ r1)
      = text_loop js src (words_of src) best (length ((out @ chunk src best i) @ concat (map (chunk src best) is))) ((out @ chunk src best i) @ concat (map (chunk src best) is) @ r2)"
    using Cons.IH [of r1 "out @ chunk src best i"] Cons.prems(1) by auto
  show ?case
  proof (intro exI conjI)
    show "length (concat (map (chunk src best) (i # is))) + length r2 = length rest" using r1(1) r2(1) by simp
    show "text_loop ((i # is) @ js) src (words_of src) best (length out) (out @ rest)
      = text_loop js src (words_of src) best (length (out @ concat (map (chunk src best) (i # is)))) (out @ concat (map (chunk src best) (i # is)) @ r2)"
      unfolding r1(2) r2(2) by simp
  qed
qed

definition text6 :: "bytes \<Rightarrow> bytes" where
  "text6 src = (let best = best_run (words_of src) in
     (if embeds (words_of src) best \<and> \<not> inside best 6
      then concat (map (chunk src best) [0..<6]) @ [58] @ dotted4 (drop 12 src)
      else concat (map (chunk src best) [0..<8]))
     @ (if run_base best \<noteq> - 1 \<and> run_base best + run_len best = 8 then [58] else []))"

lemma chunk_length: "length (chunk src best i) \<le> 5"
  using grp_facts(2) [of src i] by (cases "i = 0") (simp_all add: chunk_def)

lemma chunks_length: "length (concat (map (chunk src best) is)) \<le> 5 * length is"
  using chunk_length by (induction "is") (auto simp: add_mono)

lemma embeds_cases: "embeds ws best \<Longrightarrow> \<not> inside best 6 \<Longrightarrow> run_base best = 0 \<and> (run_len best = 5 \<or> run_len best = 6)"
  by (auto simp: embeds_def inside_def)

lemma embedded_chunks:
  assumes "embeds ws best" and "\<not> inside best 6"
  shows "concat (map (chunk src best) [0..<6]) = [58] @ (if run_len best = 5 then 58 # grp src 5 else [])"
proof -
  have "[0..<6] = [0, 1, 2, 3, 4, 5 :: nat]" by (simp add: upt_rec)
  then show ?thesis using embeds_cases [OF assms] by (auto simp: chunk_def inside_def)
qed

lemma text6_chars: "c \<in> set (text6 src) \<Longrightarrow> c \<notin> {0, 37}"
proof -
  have "c \<notin> {0, 37}" if "c \<in> set (chunk src best i)" for best i using that grp_chars [of c src i] by (auto simp: chunk_def split: if_splits)
  moreover have "c \<notin> {0, 37}" if "c \<in> set (dotted4 (drop 12 src))" using dotted4_chars [OF that] by auto
  moreover assume "c \<in> set (text6 src)"
  ultimately show ?thesis unfolding text6_def Let_def by (auto split: if_splits)
qed

lemma strlen_text: "0 \<notin> set t \<Longrightarrow> strlen (t @ 0 # z) = Some (length t)"
  by (induction t) auto

lemma text_loop_v4:
  assumes "16 \<le> length src" and "length out \<le> 6" and "length out + length r = 46" and "embeds (words_of src) best" and "\<not> inside best 6"
  shows "\<exists>junk. text_loop [6, 7] src (words_of src) best (length out) (out @ r)
      = Some (Inr (length (out @ [58] @ dotted4 (drop 12 src)), (out @ [58] @ dotted4 (drop 12 src)) @ junk))
    \<and> length (out @ [58] @ dotted4 (drop 12 src)) + length junk = 46"
proof -
  let ?q = "drop 12 src"
  obtain x m where r: "r = x # m" and m: "length out + 1 + length m = 46" using assms(2,3) by (cases r) auto
  define o1 where "o1 = out @ [58]"
  have o1: "length o1 + length m = 46" "length o1 \<le> 7" using m assms(2) by (simp_all add: o1_def)
  define sz where "sz = (of_nat (length (o1 @ m) - length o1) :: size_t)"
  have "length (o1 @ m) - length o1 = length m" "length m < 2 ^ 64" using o1 by simp_all
  then have n: "unat sz = length m" unfolding sz_def by (simp only: unat_of_nat) simp
  let ?junk = "0 # drop (length (dotted4 ?q) + 1) m"
  have fits: "length (dotted4 ?q) < unat sz" using n o1 dotted4_length(1) [of ?q] by linarith
  have "inet_ntop4 ?q m sz = Some (if length (dotted4 ?q) < unat sz then (0, dotted4 ?q @ ?junk) else (UV_ENOSPC, m))"
    by (rule inet_ntop4_value) (use assms(1) n in simp_all)
  then have v4: "inet_ntop4 ?q m sz = Some (0, dotted4 ?q @ ?junk)" using fits by simp
  have "0 \<notin> set (dotted4 ?q)" using dotted4_chars by blast
  then have sl: "strlen (dotted4 ?q @ ?junk) = Some (length (dotted4 ?q))" by (rule strlen_text)
  have p: "map_option (Pair (length out + 1)) (poke (out @ r) (length out) 58) = Some (length o1, o1 @ m)"
    using poke_end [of r out 58] by (simp add: r o1_def)
  have ins: "\<not> (run_base best \<noteq> - 1 \<and> int 6 \<ge> run_base best \<and> int 6 < run_base best + run_len best)" using assms(5) unfolding inside_def .
  have six: "6 = (6 :: nat) \<and> run_base best = 0 \<and> (run_len best = 6 \<or> (run_len best = 7 \<and> words_of src ! 7 \<noteq> 1) \<or> (run_len best = 5 \<and> words_of src ! 5 = 0xffff))"
    using assms(4) unfolding embeds_def by blast
  have "text_loop [6, 7] src (words_of src) best (length out) (out @ r)
      = do { (err, sub) \<leftarrow> inet_ntop4 ?q (drop (length o1) (o1 @ m)) sz;
             let tmp = take (length o1) (o1 @ m) @ sub;
             if err \<noteq> 0 then Some (Inl err) else do { n \<leftarrow> strlen (drop (length o1) tmp); Some (Inr (length o1 + n, tmp)) } }"
    unfolding text_loop.simps(2) [of 6] if_not_P [OF ins] sz_def using p
    by (simp only: if_P [OF six] bind.simps prod.case) simp
  also have "\<dots> = Some (Inr (length o1 + length (dotted4 ?q), o1 @ dotted4 ?q @ ?junk))" using v4 sl by simp
  finally show ?thesis using fits n o1 by (intro exI [of _ ?junk]) (simp add: o1_def)
qed

lemma text_loop_all:
  assumes "16 \<le> length src" and "best = best_run (words_of src)"
  obtains out junk where "text_loop [0..<8] src (words_of src) best 0 (replicate 46 0) = Some (Inr (length out, out @ junk))"
    "length out + length junk = 46" "length out \<le> 40"
    "text6 src = out @ (if run_base best \<noteq> - 1 \<and> run_base best + run_len best = 8 then [58] else [])"
proof (cases "embeds (words_of src) best \<and> \<not> inside best 6")
  case False
  let ?o = "concat (map (chunk src best) [0..<8])"
  have l: "length ?o \<le> 40" using chunks_length [of src best "[0..<8]"] by simp
  have "\<forall>i \<in> set [0..<8]. i < 8 \<and> (inside best i \<or> \<not> (i = 6 \<and> embeds (words_of src) best))" using False by auto
  from text_loop_chunks [OF this, of "replicate 46 0" "[]" "[]"] l
  obtain junk where "length ?o + length junk = 46" "text_loop [0..<8] src (words_of src) best 0 (replicate 46 0) = Some (Inr (length ?o, ?o @ junk))" by auto
  moreover have "text6 src = ?o @ (if run_base best \<noteq> - 1 \<and> run_base best + run_len best = 8 then [58] else [])"
    using False unfolding text6_def Let_def assms(2) [symmetric] by (simp only: if_False)
  ultimately show thesis using that l by blast
next
  case True
  let ?o = "concat (map (chunk src best) [0..<6])" and ?q = "drop 12 src"
  have l: "length ?o \<le> 6" using embedded_chunks [of "words_of src" best src] True grp_facts(2) [of src 5] by simp
  have "\<forall>i \<in> set [0..<6]. i < 8 \<and> (inside best i \<or> \<not> (i = 6 \<and> embeds (words_of src) best))" by auto
  from text_loop_chunks [OF this, of "replicate 46 0" "[6, 7]" "[]"] l
  obtain r where r: "length ?o + length r = 46" "text_loop ([0..<6] @ [6, 7]) src (words_of src) best 0 (replicate 46 0) = text_loop [6, 7] src (words_of src) best (length ?o) (?o @ r)" by auto
  from text_loop_v4 [OF assms(1) l r(1)] True
  obtain junk where "text_loop [6, 7] src (words_of src) best (length ?o) (?o @ r) = Some (Inr (length (?o @ [58] @ dotted4 ?q), (?o @ [58] @ dotted4 ?q) @ junk))"
    "length (?o @ [58] @ dotted4 ?q) + length junk = 46" by blast
  moreover have "[0..<8] = [0..<6] @ [6, 7 :: nat]" by (simp add: upt_rec)
  moreover have "text6 src = (?o @ [58] @ dotted4 ?q) @ (if run_base best \<noteq> - 1 \<and> run_base best + run_len best = 8 then [58] else [])"
    using True unfolding text6_def Let_def assms(2) [symmetric] by simp
  moreover have "length (?o @ [58] @ dotted4 ?q) \<le> 40" using l dotted4_length(1) [of ?q] by simp
  ultimately show thesis using that r(2) by metis
qed

lemma text6_length: "16 \<le> length src \<Longrightarrow> length (text6 src) \<le> 41"
  by (rule text_loop_all [of src, OF _ refl]) auto

lemma inet_ntop6_value:
  assumes "16 \<le> length src" and "unat sz \<le> length dst"
  shows "inet_ntop6 src dst sz =
    (if length (text6 src) < unat sz then Some (0, text6 src @ 0 # drop (length (text6 src) + 1) dst)
     else if sz = 0 then Some (0, dst) else Some (UV_ENOSPC, take (unat sz - 1) (text6 src) @ 0 # drop (unat sz) dst))"
proof -
  define best where "best = best_run (words_of src)"
  obtain out junk where t: "text_loop [0..<8] src (words_of src) best 0 (replicate 46 0) = Some (Inr (length out, out @ junk))"
      "length out + length junk = 46" "length out \<le> 40"
      "text6 src = out @ (if run_base best \<noteq> - 1 \<and> run_base best + run_len best = 8 then [58] else [])"
    using text_loop_all [OF assms(1) best_def] .
  have j: "junk \<noteq> []" "tl junk \<noteq> []" using t(2,3) by (cases junk; cases "tl junk"; auto)+
  define t1 where "t1 = (if run_base best \<noteq> - 1 \<and> run_base best + run_len best = 8 then tl junk else junk)"
  have p: "(if run_base best \<noteq> - 1 \<and> run_base best + run_len best = 8 then map_option (Pair (length out + 1)) (poke (out @ junk) (length out) 58)
      else Some (length out, out @ junk)) = Some (length (text6 src), text6 src @ t1)"
    using poke_end [OF j(1), of out 58] by (simp add: t(4) t1_def)
  have "t1 \<noteq> []" using j by (simp add: t1_def)
  then have q: "poke (text6 src @ t1) (length (text6 src)) 0 = Some (text6 src @ 0 # tl t1)" using poke_end [of t1 "text6 src" 0] by simp
  have z: "0 \<notin> set (text6 src)" using text6_chars by blast
  have c: "uv__strscpy dst (text6 src @ 0 # tl t1) sz =
    (if length (text6 src) < unat sz then Some (int (length (text6 src)), text6 src @ 0 # drop (length (text6 src) + 1) dst)
     else if sz = 0 then Some (0, dst) else Some (UV_E2BIG, take (unat sz - 1) (text6 src) @ 0 # drop (unat sz) dst))"
    by (rule uv__strscpy_text [OF assms(2) z]) (use text6_length [OF assms(1)] in simp)
  have "inet_ntop6 src dst sz = do { (r, dst) \<leftarrow> uv__strscpy dst (text6 src @ 0 # tl t1) sz; Some (if UV_E2BIG = r then UV_ENOSPC else 0, dst) }"
    using words_loop_all [OF assms(1)] t(1) p q by (simp add: inet_ntop6_def UV__INET6_ADDRSTRLEN_def best_def Let_def)
  then show ?thesis unfolding c by (simp add: UV_E2BIG_def)
qed

subsection \<open>The round trip of IPv6 addresses\<close>

lemma join_words: "i \<le> j \<Longrightarrow> groups src [i..<j] @ grp src j = grp src i @ concat (map (\<lambda>k. 58 # grp src k) [Suc i..<Suc j])"
proof (induction "j - i" arbitrary: i)
  case 0
  then show ?case by (simp add: groups_def)
next
  case (Suc n)
  then have "groups src [i..<j] @ grp src j = grp src i @ 58 # groups src [Suc i..<j] @ grp src j" by (simp add: groups_def upt_conv_Cons)
  also have "groups src [Suc i..<j] @ grp src j = grp src (Suc i) @ concat (map (\<lambda>k. 58 # grp src k) [Suc (Suc i)..<Suc j])"
    using Suc.hyps(1) [of "Suc i"] Suc.hyps(2) by simp
  also have "grp src i @ 58 # \<dots> = grp src i @ concat (map (\<lambda>k. 58 # grp src k) [Suc i..<Suc j])"
    using Suc.hyps(2) upt_conv_Cons [of "Suc i" "Suc j"] by simp
  finally show ?case .
qed

lemma concat_colon: "i \<le> j \<Longrightarrow> concat (map (\<lambda>k. 58 # grp src k) [i..<Suc j]) = 58 # groups src [i..<j] @ grp src j"
  using join_words [of i j src] upt_conv_Cons [of i "Suc j"] by simp

lemma chunks_outside:
  assumes "\<forall>k \<in> set is. \<not> inside best k \<and> k \<noteq> 0"
  shows "concat (map (chunk src best) is) = concat (map (\<lambda>k. 58 # grp src k) is)"
proof -
  have "map (chunk src best) is = map (\<lambda>k. 58 # grp src k) is" using assms by (intro map_cong) (auto simp: chunk_def)
  then show ?thesis by (simp only:)
qed

lemma chunks_inside:
  assumes "run_base best = int b" and "run_len best = int n" and "1 \<le> n"
  shows "concat (map (chunk src best) [b..<b + n]) = [58]"
proof -
  have "[b..<b + n] = b # [Suc b..<b + n]" using assms(3) by (simp add: upt_conv_Cons)
  moreover have "concat (map (chunk src best) [Suc b..<b + n]) = []" using assms by (auto simp: chunk_def inside_def)
  ultimately show ?thesis using assms by (simp add: chunk_def inside_def)
qed

lemma chunks_before:
  assumes "\<forall>k < b. \<not> inside best k" and "0 < b"
  shows "concat (map (chunk src best) [0..<b]) @ [58] = groups src [0..<b]"
proof -
  have "[0..<b] = 0 # [Suc 0..<b]" using assms(2) by (simp add: upt_conv_Cons)
  moreover have "chunk src best 0 = grp src 0" using assms by (simp add: chunk_def)
  moreover have "concat (map (chunk src best) [Suc 0..<b]) = concat (map (\<lambda>k. 58 # grp src k) [Suc 0..<b])" by (rule chunks_outside) (use assms in auto)
  ultimately have "concat (map (chunk src best) [0..<b]) = grp src 0 @ concat (map (\<lambda>k. 58 # grp src k) [Suc 0..<b])" by simp
  also have "\<dots> = groups src [0..<b - 1] @ grp src (b - 1)" using join_words [of 0 "b - 1" src] assms(2) by simp
  finally show ?thesis using assms(2) by (cases b) (simp_all add: groups_def)
qed

lemma pairs_take: "length src = 16 \<Longrightarrow> k \<le> 8 \<Longrightarrow> pairs src [0..<k] = take (2 * k) src"
proof (induction k)
  case (Suc k)
  then have "take (2 * Suc k) src = take (2 * k) src @ [src ! (2 * k), src ! (2 * k + 1)]" by (simp add: take_Suc_conv_app_nth)
  then show ?case using Suc by simp
qed simp

lemma pairs_all: "length src = 16 \<Longrightarrow> pairs src [0..<8] = src"
  using pairs_take [of src 8] by simp

lemma pairs_zero: "\<forall>i \<in> set is. word_at src i = 0 \<Longrightarrow> pairs src is = replicate (2 * length is) 0"
proof (induction "is")
  case (Cons i "is")
  then have "unat (word_at src i) = 0" by simp
  then have "src ! (2 * i) = 0" "src ! (2 * i + 1) = 0" by (simp_all add: word_at_unat unat_eq_0)
  then show ?case using Cons by simp
qed simp

lemma text6_plain:
  assumes "run_base (best_run (words_of src)) = - 1"
  shows "text6 src = groups src [0..<7] @ grp src 7"
proof -
  let ?b = "best_run (words_of src)"
  have "concat (map (chunk src ?b) [0..<8]) = chunk src ?b 0 @ concat (map (chunk src ?b) [Suc 0..<8])" by (simp add: upt_conv_Cons)
  also have "concat (map (chunk src ?b) [Suc 0..<8]) = concat (map (\<lambda>k. 58 # grp src k) [Suc 0..<8])"
    by (rule chunks_outside) (use assms in \<open>auto simp: inside_def\<close>)
  also have "chunk src ?b 0 = grp src 0" using assms by (simp add: chunk_def inside_def)
  finally show ?thesis using join_words [of 0 7 src] assms by (simp add: text6_def embeds_def Let_def)
qed

lemma text6_run:
  assumes "best = best_run (words_of src)" and "run_base best = int b" and "run_len best = int n" and "1 \<le> n" and "b + n \<le> 8"
  shows "text6 src = (if [0..<b] = [] then [58] else []) @ groups src [0..<b] @ 58 #
    (if embeds (words_of src) best \<and> \<not> inside best 6 then groups src (if n = 5 then [5] else []) @ dotted4 (drop 12 src)
     else if b + n = 8 then [] else groups src [b + n..<7] @ grp src 7)"
proof (cases "embeds (words_of src) best \<and> \<not> inside best 6")
  case True
  then have b: "b = 0" "n = 5 \<or> n = 6" using embeds_cases [of "words_of src" best] assms(2,3) by auto
  then have "text6 src = ([58] @ (if n = 5 then 58 # grp src 5 else [])) @ [58] @ dotted4 (drop 12 src)"
    using True embedded_chunks [of "words_of src" best src] assms(2,3) unfolding text6_def Let_def assms(1) [symmetric] by auto
  then show ?thesis using True b by (auto simp: groups_def)
next
  case False
  let ?C = "\<lambda>is. concat (map (chunk src best) is)"
  have "[0..<8] = [0..<b] @ [b..<b + n] @ [b + n..<8]" using assms(5) upt_add_eq_append [of 0 b "8 - b"] upt_add_eq_append [of b "b + n" "8 - (b + n)"] by simp
  then have c0: "?C [0..<8] = ?C [0..<b] @ ?C [b..<b + n] @ ?C [b + n..<8]" by (simp del: upt_conv_Nil)
  have c1: "?C [b..<b + n] = [58]" by (rule chunks_inside [OF assms(2-4)])
  have c2: "?C [0..<b] @ [58] = (if [0..<b] = [] then [58] else groups src [0..<b])"
    using chunks_before [of b best src] assms(2) by (auto simp: inside_def)
  have c3: "?C [b + n..<8] = (if b + n = 8 then [] else 58 # groups src [b + n..<7] @ grp src 7)"
  proof (cases "b + n = 8")
    case f: False
    have "?C [b + n..<8] = concat (map (\<lambda>k. 58 # grp src k) [b + n..<8])" by (rule chunks_outside) (use assms in \<open>auto simp: inside_def\<close>)
    then show ?thesis using f concat_colon [of "b + n" 7 src] assms(5) by simp
  qed simp
  have "text6 src = ?C [0..<8] @ (if b + n = 8 then [58] else [])"
    using False assms(2,3) unfolding text6_def Let_def assms(1) [symmetric] by auto
  then have "text6 src = (?C [0..<b] @ [58]) @ ?C [b + n..<8] @ (if b + n = 8 then [58] else [])" unfolding c0 c1 by simp
  then show ?thesis unfolding c2 c3 using False by (auto simp: groups_def)
qed

lemma inet_pton6_embedded:
  assumes "length q = 4" and "length is \<le> 5" and "16 \<le> length dst"
  shows "inet_pton6 (58 # 58 # groups src is @ dotted4 q) dst = Some (0, replicate (12 - 2 * length is) 0 @ pairs src is @ q @ drop 16 dst)"
proof -
  let ?rest = "groups src is @ dotted4 q" and ?p = "pairs src is @ q"
  have cur: "is = [] \<Longrightarrow> ?rest = dotted4 q" by (simp add: groups_def)
  have len: "length ?p = 2 * length is + 4" "length ([] :: bytes) + 2 * length is + 4 \<le> 16" using assms(1,2) by simp_all
  obtain v where v: "pton6_loop ?rest ?rest 0 0 0 (Some 0) (padded []) = Some (Inr (0, v, length ?p, Some 0, padded ?p))"
    using pton6_loop_v4 [OF assms(1) len(2) cur, of src "Some 0"] by auto
  have "inet_pton6 ((if [] = ([] :: nat list) then [58] else []) @ groups src [] @ 58 # ?rest) dst
    = Some (0, pairs src [] @ replicate (16 - 2 * length ([] :: nat list) - length ?p) 0 @ ?p @ drop 16 dst)"
    by (rule inet_pton6_run [where seen = 0 and v = v and tp = "length ?p" and tmp = "padded ?p"]) (use v len assms(2,3) in simp_all)
  then show ?thesis using assms(1) by (simp add: groups_def)
qed

lemma inet_pton6_trailing:
  assumes "length pre \<le> 7" and "16 \<le> length dst"
  shows "inet_pton6 ((if pre = [] then [58] else []) @ groups src pre @ 58 # []) dst = Some (0, pairs src pre @ replicate (16 - 2 * length pre) 0 @ drop 16 dst)"
proof -
  have "inet_pton6 ((if pre = [] then [58] else []) @ groups src pre @ 58 # []) dst
    = Some (0, pairs src pre @ replicate (16 - 2 * length pre - length ([] :: bytes)) 0 @ [] @ drop 16 dst)"
    by (rule inet_pton6_run [where seen = 0 and v = 0 and tp = "2 * length pre" and tmp = "padded (pairs src pre)"]) (use assms in simp_all)
  then show ?thesis by simp
qed

lemma inet_pton6_middle:
  assumes "length pre + length is \<le> 6" and "16 \<le> length dst"
  shows "inet_pton6 ((if pre = [] then [58] else []) @ groups src pre @ 58 # groups src is @ grp src i) dst
    = Some (0, pairs src pre @ replicate (14 - 2 * length pre - 2 * length is) 0 @ pairs src (is @ [i]) @ drop 16 dst)"
proof -
  let ?post = "pairs src (is @ [i])" and ?rest = "groups src is @ grp src i" and ?d = "pairs src pre @ pairs src is" and ?n = "2 * length pre"
  have l: "pton6_loop ?rest ?rest 0 0 ?n (Some ?n) (padded (pairs src pre)) = Some (Inr (length (grp src i), word_at src i, length ?d, Some ?n, padded ?d))"
    using pton6_loop_last [of "pairs src pre" "is" src i ?rest "Some ?n"] assms(1) by simp
  have p: "put_group (padded ?d) (length ?d) (word_at src i) = Some (padded (pairs src pre @ ?post))"
    using put_group_padded [of ?d src i] assms(1) by simp
  have "inet_pton6 ((if pre = [] then [58] else []) @ groups src pre @ 58 # ?rest) dst
    = Some (0, pairs src pre @ replicate (16 - 2 * length pre - length ?post) 0 @ ?post @ drop 16 dst)"
    by (rule inet_pton6_run [OF _ assms(2) l]) (use assms(1) grp_facts(1) [of src i] p in simp_all)
  moreover have "16 - 2 * length pre - length ?post = 14 - 2 * length pre - 2 * length is" by simp
  ultimately show ?thesis by simp
qed

lemma pairs_split: "i \<le> j \<Longrightarrow> j \<le> k \<Longrightarrow> pairs src [i..<k] = pairs src [i..<j] @ pairs src [j..<k]"
proof -
  assume "i \<le> j" "j \<le> k"
  then have "[i..<k] = [i..<j] @ [j..<k]" using upt_add_eq_append [of i j "k - j"] by simp
  then show ?thesis by simp
qed

lemma pton6_text6:
  assumes "length src = 16" and "16 \<le> length dst"
  shows "inet_pton6 (text6 src) dst = Some (0, src @ drop 16 dst)"
proof -
  define best where "best = best_run (words_of src)"
  consider "run_base best = - 1"
    | b n where "run_base best = int b" "run_len best = int n" "2 \<le> n" "b + n \<le> 8" "\<forall>i \<in> {b..<b + n}. words_of src ! i = 0"
    using best_run_zeros [of "words_of src"] unfolding best_def by blast
  then show ?thesis
  proof cases
    case 1
    then show ?thesis using text6_plain [of src] inet_pton6_plain [OF assms(2)] pairs_all [OF assms(1)] unfolding best_def by simp
  next
    case 2
    then have t: "text6 src = (if [0..<b] = [] then [58] else []) @ groups src [0..<b] @ 58 #
      (if embeds (words_of src) best \<and> \<not> inside best 6 then groups src (if n = 5 then [5] else []) @ dotted4 (drop 12 src)
       else if b + n = 8 then [] else groups src [b + n..<7] @ grp src 7)"
      using text6_run [OF best_def] by simp
    have "pairs src [b..<b + n] = replicate (2 * length [b..<b + n]) 0" by (rule pairs_zero) (use 2(4,5) in \<open>auto simp: words_of_def\<close>)
    then have z: "src = pairs src [0..<b] @ replicate (2 * n) 0 @ pairs src [b + n..<8]"
      using pairs_all [OF assms(1)] pairs_split [of 0 b 8 src] pairs_split [of b "b + n" 8 src] 2(4) by simp
    consider "embeds (words_of src) best" "\<not> inside best 6" | "\<not> (embeds (words_of src) best \<and> \<not> inside best 6)" "b + n = 8"
      | "\<not> (embeds (words_of src) best \<and> \<not> inside best 6)" "b + n < 8" using 2(4) by linarith
    then show ?thesis
    proof cases
      case e: 1
      then have b: "b = 0" "n = 5 \<or> n = 6" using embeds_cases [of "words_of src" best] 2(1,2) by auto
      let ?is = "[n..<6]"
      have five: "(if n = 5 then [5] else []) = ?is" using b(2) by auto
      have "pairs src [0..<6] @ pairs src [6..<8] = src" using pairs_split [of 0 6 8 src] pairs_all [OF assms(1)] by (simp only:)
      moreover have "drop 12 (pairs src [0..<6] @ pairs src [6..<8]) = pairs src [6..<8]" by simp
      ultimately have q: "drop 12 src = pairs src [6..<8]" by (simp only:)
      have "text6 src = 58 # 58 # groups src ?is @ dotted4 (drop 12 src)" using t e b(1) unfolding five by (simp add: groups_def)
      then have "inet_pton6 (text6 src) dst = Some (0, replicate (12 - 2 * length ?is) 0 @ pairs src ?is @ drop 12 src @ drop 16 dst)"
        using inet_pton6_embedded [of "drop 12 src" ?is dst src] assms b(2) by auto
      moreover have "12 - 2 * length ?is = 2 * n" using b(2) by auto
      moreover have "pairs src ?is @ pairs src [6..<8] = pairs src [n..<8]" using pairs_split [of n 6 8 src] b(2) by auto
      ultimately show ?thesis using z b(1) unfolding q by simp
    next
      case e: 2
      have "text6 src = (if [0..<b] = [] then [58] else []) @ groups src [0..<b] @ 58 # []" using t unfolding if_not_P [OF e(1)] if_P [OF e(2)] .
      then have "inet_pton6 (text6 src) dst = Some (0, pairs src [0..<b] @ replicate (16 - 2 * length [0..<b]) 0 @ drop 16 dst)"
        using inet_pton6_trailing [of "[0..<b]" dst src] assms(2) e(2) 2(3) by simp
      moreover have "16 - 2 * length [0..<b] = 2 * n" using e(2) by simp
      moreover have "pairs src [0..<b] @ replicate (2 * n) 0 = src" using z e(2) by simp
      ultimately show ?thesis by (metis append_assoc)
    next
      case e: 3
      have "[b + n..<8] = [b + n..<7] @ [7]" using e(2) upt_add_eq_append [of "b + n" 7 1] by simp
      then have p: "pairs src ([b + n..<7] @ [7]) = pairs src [b + n..<8]" by (simp only:)
      have "b + n \<noteq> 8" using e(2) by simp
      then have "text6 src = (if [0..<b] = [] then [58] else []) @ groups src [0..<b] @ 58 # groups src [b + n..<7] @ grp src 7"
        using t unfolding if_not_P [OF e(1)] by (simp only: if_False)
      then have "inet_pton6 (text6 src) dst
        = Some (0, pairs src [0..<b] @ replicate (14 - 2 * length [0..<b] - 2 * length [b + n..<7]) 0 @ pairs src [b + n..<8] @ drop 16 dst)"
        using inet_pton6_middle [of "[0..<b]" "[b + n..<7]" dst src 7, unfolded p] assms(2) e(2) 2(3) by simp
      moreover have "14 - 2 * length [0..<b] - 2 * length [b + n..<7] = 2 * n" using e(2) by simp
      ultimately show ?thesis using z by (metis append_assoc)
    qed
  qed
qed

subsection \<open>Any text\<close>

lemma put_group_some: "tp + 2 \<le> length tmp \<Longrightarrow> \<exists>tmp'. put_group tmp tp v = Some tmp' \<and> length tmp' = length tmp"
  by (simp add: put_group_def poke_def)

lemma pton6_loop_safe:
  assumes "length tmp = 16" and "tp \<le> 16" and "case cp of None \<Rightarrow> True | Some c \<Rightarrow> c \<le> tp" and "0 \<notin> set src" and "0 \<notin> set cur"
  shows "pton6_loop src cur seen v tp cp tmp = Some (Inl UV_EINVAL) \<or>
    (\<exists>seen' v' tp' cp' tmp'. pton6_loop src cur seen v tp cp tmp = Some (Inr (seen', v', tp', cp', tmp'))
       \<and> length tmp' = 16 \<and> tp' \<le> 16 \<and> (case cp' of None \<Rightarrow> True | Some c \<Rightarrow> c \<le> tp'))"
  using assms
proof (induction src arbitrary: cur seen v tp cp tmp)
  case Nil
  then show ?case by simp
next
  case (Cons ch src)
  have z: "ch \<noteq> 0" "0 \<notin> set src" using Cons.prems(4) by auto
  show ?case
  proof (cases "xdigit ch")
    case (Some d)
    then show ?thesis using Cons.IH [of tmp tp cp cur "seen + 1" "push_bit 4 v OR of_nat d"] Cons.prems z by simp
  next
    case None
    consider "ch = 58" "seen = 0" | "ch = 58" "seen \<noteq> 0" | "ch = 46" | "ch \<noteq> 58" "ch \<noteq> 46" by blast
    then show ?thesis
    proof cases
      case 1
      then show ?thesis using Cons.IH [of tmp tp "Some tp" src seen v] Cons.prems z None by simp
    next
      case 2
      show ?thesis
      proof (cases "deref src = 0 \<or> tp + 2 > 16")
        case False
        then obtain tmp' where t: "put_group tmp tp v = Some tmp'" "length tmp' = 16" using put_group_some [of tp tmp v] Cons.prems(1) by auto
        have "case cp of None \<Rightarrow> True | Some c \<Rightarrow> c \<le> tp + 2" using Cons.prems(3) by (auto split: option.splits)
        then show ?thesis using Cons.IH [of tmp' "tp + 2" cp src 0 0] 2 None z t False by simp
      qed (use 2 None z in auto)
    next
      case 3
      show ?thesis
      proof (cases "tp + 4 \<le> 16")
        case True
        have "4 \<le> length (drop tp tmp)" using True Cons.prems(1) by simp
        from inet_pton4_value [OF Cons.prems(5) this] consider "inet_pton4 cur (drop tp tmp) = Some (UV_EINVAL, drop tp tmp)"
          | a where "length a = 4" "inet_pton4 cur (drop tp tmp) = Some (0, a @ drop 4 (drop tp tmp))" by blast
        then show ?thesis
        proof cases
          case 1
          then show ?thesis using 3 None True by (simp add: uv_errors)
        next
          case a: 2
          have "length (take tp tmp @ a @ drop 4 (drop tp tmp)) = 16" using a(1) True Cons.prems(1) by simp
          moreover have "case cp of None \<Rightarrow> True | Some c \<Rightarrow> c \<le> tp + 4" using Cons.prems(3) by (auto split: option.splits)
          ultimately show ?thesis using 3 None True a(2) by simp
        qed
      qed (use 3 None in simp)
    qed (use None z in simp)
  qed
qed

lemma shift_loop_safe:
  assumes "length tmp = 16" and "cp + n < 16" and "\<forall>i \<in> set is. 1 \<le> i \<and> i \<le> n"
  shows "\<exists>tmp'. shift_loop is n cp tmp = Some tmp' \<and> length tmp' = 16"
  using assms by (induction "is" arbitrary: tmp) (auto simp: peek_def poke_def)

lemma inet_pton6_defined:
  assumes "0 \<notin> set s" and "16 \<le> length dst"
  shows "inet_pton6 s dst = Some (UV_EINVAL, dst) \<or> (\<exists>a. length a = 16 \<and> inet_pton6 s dst = Some (0, a @ drop 16 dst))"
proof (cases "deref s = 58 \<and> deref (tl s) \<noteq> 58")
  case True
  then show ?thesis by (simp add: inet_pton6_def)
next
  case start: False
  define t where "t = (if deref s = 58 then tl s else s)"
  have z: "0 \<notin> set t" using assms(1) by (cases s) (auto simp: t_def)
  have "pton6_loop t t 0 0 0 None (replicate 16 0) = Some (Inl UV_EINVAL) \<or>
    (\<exists>seen' v' tp' cp' tmp'. pton6_loop t t 0 0 0 None (replicate 16 0) = Some (Inr (seen', v', tp', cp', tmp'))
       \<and> length tmp' = 16 \<and> tp' \<le> 16 \<and> (case cp' of None \<Rightarrow> True | Some c \<Rightarrow> c \<le> tp'))"
    by (rule pton6_loop_safe) (use z in simp_all)
  then consider "pton6_loop t t 0 0 0 None (replicate 16 0) = Some (Inl UV_EINVAL)"
    | seen v tp cp tmp where "pton6_loop t t 0 0 0 None (replicate 16 0) = Some (Inr (seen, v, tp, cp, tmp))" "length tmp = 16" "tp \<le> 16" "case cp of None \<Rightarrow> True | Some c \<Rightarrow> c \<le> tp"
    by blast
  then show ?thesis
  proof cases
    case 1
    then show ?thesis using start unfolding inet_pton6_def t_def by simp
  next
    case l: 2
    define rest where "rest = (\<lambda>(tp, tmp). case cp of
          None \<Rightarrow> if tp \<noteq> 16 then Some (UV_EINVAL, dst) else if length dst < 16 then None else Some (0, tmp @ drop 16 dst)
        | Some c \<Rightarrow> if tp = 16 then Some (UV_EINVAL, dst)
            else do { tmp \<leftarrow> shift_loop [1..<tp - c + 1] (tp - c) c tmp; if length dst < 16 then None else Some (0, tmp @ drop 16 dst) })"
    have e: "inet_pton6 s dst = (if seen \<noteq> 0 \<and> tp + 2 > 16 then Some (UV_EINVAL, dst)
        else Option.bind (if seen \<noteq> 0 then map_option (Pair (tp + 2)) (put_group tmp tp v) else Some (tp, tmp)) rest)"
      unfolding inet_pton6_def if_not_P [OF start] Let_def t_def [symmetric] l(1) rest_def by simp
    have fin: "rest (p, m) = Some (UV_EINVAL, dst) \<or> (\<exists>a. length a = 16 \<and> rest (p, m) = Some (0, a @ drop 16 dst))"
      if m: "length m = 16" "p \<le> 16" "case cp of None \<Rightarrow> True | Some c \<Rightarrow> c \<le> p" for p m
    proof (cases cp)
      case (Some c)
      show ?thesis
      proof (cases "p = 16")
        case False
        then have "c + (p - c) < 16" using m(2,3) Some by simp
        moreover have "\<forall>i \<in> set [1..<p - c + 1]. 1 \<le> i \<and> i \<le> p - c" by auto
        ultimately obtain a where "shift_loop [1..<p - c + 1] (p - c) c m = Some a" "length a = 16" using shift_loop_safe [OF m(1)] by blast
        then show ?thesis using False Some assms(2) by (simp add: rest_def)
      qed (simp add: rest_def Some)
    qed (use m assms(2) in \<open>auto simp: rest_def\<close>)
    show ?thesis
    proof (cases "seen = 0")
      case True
      then show ?thesis using e fin [OF l(2-4)] by simp
    next
      case False
      show ?thesis
      proof (cases "tp + 2 > 16")
        case True
        then show ?thesis using e False by simp
      next
        case f: False
        then obtain m where m: "put_group tmp tp v = Some m" "length m = 16" using put_group_some [of tp tmp v] l(2) by auto
        have "case cp of None \<Rightarrow> True | Some c \<Rightarrow> c \<le> tp + 2" using l(4) by (auto split: option.splits)
        then show ?thesis using e False f m fin [of m "tp + 2"] by simp
      qed
    qed
  qed
qed

text \<open>
  C23. IPv4 addresses and their texts correspond exactly. \<open>uv_inet_ntop\<close> writes the dotted decimal form and a terminator when they
  fit, and otherwise leaves the buffer alone and returns \<open>UV_ENOSPC\<close>. \<open>uv_inet_pton\<close> accepts precisely the texts that \<open>uv_inet_ntop\<close>
  writes (so no leading zeros, no missing or extra numbers, none above 255) and gives the address back; every other text gives
  \<open>UV_EINVAL\<close> with the output untouched. Neither reads or writes outside its buffers.
\<close>

theorem inet4_exact:
  assumes "length src = 4" and "unat sz \<le> length buf" and "0 \<notin> set s" and "4 \<le> length dst"
  shows "uv_inet_ntop AF_INET src buf sz = Some (if length (dotted4 src) < unat sz
      then (0, dotted4 src @ 0 # drop (length (dotted4 src) + 1) buf) else (UV_ENOSPC, buf))
    \<and> uv_inet_pton AF_INET (Some (dotted4 src)) (Some dst) = Some (0, Some (src @ drop 4 dst))
    \<and> ((\<nexists>a. length a = 4 \<and> s = dotted4 a) \<longrightarrow> uv_inet_pton AF_INET (Some s) (Some dst) = Some (UV_EINVAL, Some dst))"
proof (intro conjI impI)
  show "uv_inet_ntop AF_INET src buf sz = Some (if length (dotted4 src) < unat sz
      then (0, dotted4 src @ 0 # drop (length (dotted4 src) + 1) buf) else (UV_ENOSPC, buf))"
    using inet_ntop4_value [of src sz buf] assms(1,2) by (simp add: uv_inet_ntop_def)
  have "0 \<notin> set (dotted4 src)" using dotted4_chars by blast
  then have "inet_pton4 (dotted4 src) dst = Some (0, src @ drop 4 dst)" using inet_pton4_value [OF _ assms(4)] assms(1) dotted4_inj by blast
  then show "uv_inet_pton AF_INET (Some (dotted4 src)) (Some dst) = Some (0, Some (src @ drop 4 dst))" by (simp add: uv_inet_pton_def)
  assume "\<nexists>a. length a = 4 \<and> s = dotted4 a"
  then have "inet_pton4 s dst = Some (UV_EINVAL, dst)" using inet_pton4_value [OF assms(3,4)] by blast
  then show "uv_inet_pton AF_INET (Some s) (Some dst) = Some (UV_EINVAL, Some dst)" by (simp add: uv_inet_pton_def)
qed

theorem inet4_exact_witness:
  "dotted4 [127, 0, 0, 1] = [49, 50, 55, 46, 48, 46, 48, 46, 49]
   \<and> uv_inet_ntop AF_INET [127, 0, 0, 1] (replicate 10 9) 10 = Some (0, [49, 50, 55, 46, 48, 46, 48, 46, 49, 0])
   \<and> uv_inet_pton AF_INET (Some [49, 50, 55, 46, 48, 46, 48, 46, 49]) (Some [5, 5, 5, 5, 6]) = Some (0, Some [127, 0, 0, 1, 6])"
proof -
  have d: "dotted4 [127, 0, 0, 1] = [49, 50, 55, 46, 48, 46, 48, 46, 49]" by code_simp
  have "length ([127, 0, 0, 1] :: bytes) = 4" "unat (10 :: size_t) \<le> length (replicate 10 9 :: bytes)" "0 \<notin> set ([49] :: bytes)" "4 \<le> length ([5, 5, 5, 5, 6] :: bytes)" by simp_all
  from inet4_exact [OF this] show ?thesis unfolding d by simp
qed

text \<open>
  C22. The text of an IPv6 address that \<open>uv_inet_ntop\<close> writes (with a run of zero groups as \<open>::\<close>, or with an embedded IPv4
  address) is short enough for a buffer of 46 bytes, and \<open>uv_inet_pton\<close> reads the same 16 bytes back from it, also when a zone follows
  behind a percent sign.
\<close>

theorem inet6_roundtrip:
  assumes "length src = 16" and "46 \<le> unat sz" and "unat sz \<le> length buf" and "16 \<le> length dst"
  shows "\<exists>t. uv_inet_ntop AF_INET6 src buf sz = Some (0, t @ 0 # drop (length t + 1) buf) \<and> 0 \<notin> set t \<and> length t \<le> 45
    \<and> uv_inet_pton AF_INET6 (Some t) (Some dst) = Some (0, Some (src @ drop 16 dst))
    \<and> (\<forall>zone. uv_inet_pton AF_INET6 (Some (t @ 37 # zone)) (Some dst) = Some (0, Some (src @ drop 16 dst)))"
proof -
  let ?t = "text6 src"
  have l: "length ?t \<le> 41" using text6_length assms(1) by simp
  have c: "0 \<notin> set ?t" "37 \<notin> set ?t" using text6_chars by blast+
  have nf: "strchr s 37 = None" if "37 \<notin> set s" for s using that by (induction s) auto
  have pos: "strchr (s @ 37 # z) 37 = Some (length s)" if "37 \<notin> set s" for s z using that by (induction s) auto
  have "sint (of_nat (length ?t) :: u32) = int (length ?t)" using l by (simp add: signed_of_nat signed_take_bit_int_eq_self)
  then have "uv_inet_pton AF_INET6 (Some (?t @ 37 # zone)) (Some dst) = Some (0, Some (src @ drop 16 dst))" for zone
    using pton6_text6 [OF assms(1,4)] pos [OF c(2)] l by (simp add: uv_inet_pton_def AF_INET_def AF_INET6_def UV__INET6_ADDRSTRLEN_def)
  moreover have "uv_inet_pton AF_INET6 (Some ?t) (Some dst) = Some (0, Some (src @ drop 16 dst))"
    using pton6_text6 [OF assms(1,4)] nf [OF c(2)] by (simp add: uv_inet_pton_def AF_INET_def AF_INET6_def)
  moreover have "uv_inet_ntop AF_INET6 src buf sz = Some (0, ?t @ 0 # drop (length ?t + 1) buf)"
    using inet_ntop6_value [of src sz buf] assms(1-3) l by (simp add: uv_inet_ntop_def AF_INET_def AF_INET6_def)
  ultimately show ?thesis using c(1) l by (intro exI [of _ ?t]) simp
qed

theorem inet6_roundtrip_witness:
  "\<exists>t. uv_inet_ntop AF_INET6 (replicate 15 0 @ [1]) (replicate 46 9) 46 = Some (0, t @ 0 # drop (length t + 1) (replicate 46 9))
     \<and> uv_inet_pton AF_INET6 (Some (t @ [37, 101, 110, 48])) (Some (replicate 16 7)) = Some (0, Some (replicate 15 0 @ [1]))"
proof -
  have "length (replicate 15 0 @ [1 :: u8]) = 16" "46 \<le> unat (46 :: size_t)" "unat (46 :: size_t) \<le> length (replicate 46 9 :: bytes)" "16 \<le> length (replicate 16 7 :: bytes)" by simp_all
  from inet6_roundtrip [OF this] show ?thesis by auto
qed

text \<open>
  C24. \<open>uv_inet_pton\<close> for IPv6 is safe on every text: it returns, with \<open>UV_EINVAL\<close> and the output untouched, or with 0 and exactly 16
  bytes written. In particular the parser's own block of 16 bytes is never left, whatever groups, colons and dotted parts follow each other.
\<close>

theorem inet_pton6_safe:
  assumes "0 \<notin> set s" and "16 \<le> length dst" and "length s < 2 ^ 31"
  shows "uv_inet_pton AF_INET6 (Some s) (Some dst) = Some (UV_EINVAL, Some dst)
    \<or> (\<exists>a. length a = 16 \<and> uv_inet_pton AF_INET6 (Some s) (Some dst) = Some (0, Some (a @ drop 16 dst)))"
proof (cases "strchr s 37")
  case None
  then show ?thesis using inet_pton6_defined [OF assms(1,2)] by (auto simp: uv_inet_pton_def AF_INET_def AF_INET6_def)
next
  case (Some p)
  then have "p < length s" using strchr_Some [of 37 s p] by simp
  then have p: "sint (of_nat p :: u32) = int p" using assms(3) by (simp add: signed_of_nat signed_take_bit_int_eq_self)
  have "0 \<notin> set (take p s)" using assms(1) in_set_takeD by fast
  from inet_pton6_defined [OF this assms(2)] show ?thesis using Some p by (auto simp: uv_inet_pton_def AF_INET_def AF_INET6_def Let_def)
qed

theorem inet_pton6_safe_witness:
  "uv_inet_pton AF_INET6 (Some (replicate 40 58)) (Some (replicate 16 7)) = Some (UV_EINVAL, Some (replicate 16 7))
    \<or> (\<exists>a. length a = 16 \<and> uv_inet_pton AF_INET6 (Some (replicate 40 58)) (Some (replicate 16 7)) = Some (0, Some (a @ drop 16 (replicate 16 7))))"
  by (rule inet_pton6_safe) simp_all

subsection \<open>Addresses with a zone\<close>

text \<open>The mixed form: six groups, then the last four bytes dotted.\<close>

definition mixed6 :: "bytes \<Rightarrow> bytes" where
  "mixed6 a = groups a [0..<6] @ dotted4 (drop 12 a)"

lemma mixed6_chars: "c \<in> set (mixed6 a) \<Longrightarrow> c \<notin> {0, 37}"
  using grp_chars [of c a] dotted4_chars [of c "drop 12 a"] by (auto simp: mixed6_def groups_def)

lemma mixed6_length: "length (mixed6 a) \<le> 45"
proof -
  have "length (groups a is) \<le> 5 * length is" for "is"
    using grp_facts(2) [of a] by (induction "is") (auto simp: groups_def intro: order_trans [OF add_mono])
  from this [of "[0..<6]"] show ?thesis using dotted4_length(1) [of "drop 12 a"] by (simp add: mixed6_def)
qed

lemma inet_pton6_mixed:
  assumes "length a = 16" and "16 \<le> length dst"
  shows "inet_pton6 (mixed6 a) dst = Some (0, a @ drop 16 dst)"
proof -
  let ?q = "drop 12 a"
  have s: "deref (mixed6 a) \<noteq> 58" using groups_start(1) [of "[0..<6]" a "dotted4 ?q"] by (simp add: mixed6_def)
  have q: "length ?q = 4" using assms(1) by simp
  have "pairs a [0..<6] = take 12 a" using pairs_take [OF assms(1), of 6] by simp
  then have p: "[] @ pairs a [0..<6] @ ?q = a" by simp
  have "length ([] :: bytes) + 2 * length [0..<6] + 4 \<le> 16" by simp
  from pton6_loop_v4 [OF q this, of "mixed6 a" a None] obtain v where
    "pton6_loop (mixed6 a) (mixed6 a) 0 0 0 None (replicate 16 0) = Some (Inr (0, v, 16, None, a))"
    unfolding p using assms(1) by (auto simp: mixed6_def padded_def)
  then show ?thesis using s assms(2) by (simp add: inet_pton6_def)
qed

lemma unat_u8_div: "unat (of_nat (unat (x :: u8) div m) :: u8) = unat x div m"
proof (rule unat_of_nat_small)
  have "unat x div m \<le> unat x" by (rule div_le_dividend)
  also have "\<dots> < 2 ^ LENGTH(8)" by (rule unat_lt_len)
  finally show "unat x div m < 2 ^ LENGTH(8)" .
qed

lemma mixed6_take:
  assumes "length a = 16" and "10 ^ k \<le> unat (a ! 15)"
  shows "take (length (mixed6 a) - k) (mixed6 a) = mixed6 (a[15 := of_nat (unat (a ! 15) div 10 ^ k)])"
proof -
  let ?n = "unat (a ! 15)" and ?a = "a[15 := of_nat (unat (a ! 15) div 10 ^ k)]"
  define pre where "pre = groups a [0..<6] @ numeral_text 10 (unat (a ! 12)) @ [46] @ numeral_text 10 (unat (a ! 13)) @ [46] @ numeral_text 10 (unat (a ! 14)) @ [46]"
  have e: "mixed6 a = pre @ numeral_text 10 ?n" using assms(1) by (simp add: mixed6_def dotted4_def pre_def)
  have "groups ?a [0..<6] = groups a [0..<6]"
    unfolding groups_def grp_def word_at_def by (intro arg_cong [where f = concat] map_cong refl) auto
  moreover have "unat (of_nat (?n div 10 ^ k) :: u8) = ?n div 10 ^ k" by (rule unat_u8_div)
  ultimately have e': "mixed6 ?a = pre @ numeral_text 10 (?n div 10 ^ k)" using assms(1) by (simp add: mixed6_def dotted4_def pre_def)
  note d = numeral_text_take [OF _ assms(2), simplified]
  from d(1) have "length (mixed6 a) - k = length pre + (length (numeral_text 10 ?n) - k)" by (simp add: e)
  then show ?thesis by (simp add: e e' d(2))
qed

lemma strchr_zone: "37 \<notin> set u \<Longrightarrow> strchr (u @ 37 # z) 37 = Some (length u)"
  by (induction u) auto

lemma strchr_absent: "37 \<notin> set u \<Longrightarrow> strchr u 37 = None"
  by (induction u) auto

lemma uv_ip6_addr_zone:
  assumes "37 \<notin> set u"
  shows "uv_ip6_addr f (u @ 37 # z) port =
    map_option (\<lambda>(r, x). (r, \<lparr>sin6_len = 28, sin6_family = AF_INET6, sin6_port = htons port, sin6_addr = x, sin6_scope_id = f z\<rparr>))
      (inet_pton6 (take 39 u) (replicate 16 0))"
proof -
  have "take (if 40 \<le> length u then 39 else length u) (u @ 37 # z) = take 39 u" by simp
  moreover have "strchr (take 39 u) 37 = None" using assms in_set_takeD by (fast intro: strchr_absent)
  ultimately show ?thesis
    by (simp add: uv_ip6_addr_def strchr_zone [OF assms] Let_def uv_inet_pton_def AF_INET_def AF_INET6_def option.map_comp comp_def map_prod_def split_def)
qed

text \<open>
  C25. \<open>uv_ip6_addr\<close> copies the part of its argument before the percent sign into a block of 40 bytes, and cuts a longer text
  off there without an error: of every text \<open>u\<close> followed by a zone it reads what \<open>inet_pton6\<close> makes of the first 39
  characters. The texts of IPv6 addresses have up to 45. So take any address whose mixed form (six groups, then the last four bytes
  dotted) has \<open>39 + k\<close> characters, with more than \<open>k\<close> of them in the last number: \<open>uv_inet_pton\<close> reads the address from that
  text with its zone, and \<open>uv_ip6_addr\<close> returns 0 with the last byte divided by \<open>10 ^ k\<close>, another address if \<open>k\<close> is not 0.
\<close>

theorem uv_ip6_addr_truncates:
  assumes "length a = 16" and "length (mixed6 a) = 39 + k" and "10 ^ k \<le> unat (a ! 15)"
  shows "(\<forall>u. 0 \<notin> set u \<and> 37 \<notin> set u \<longrightarrow>
      map_option (map_prod id sin6_addr) (uv_ip6_addr f (u @ 37 # z) port) = inet_pton6 (take 39 u) (replicate 16 0))
    \<and> map_option (map_prod id sin6_addr) (uv_ip6_addr f (mixed6 a @ 37 # z) port) = Some (0, a[15 := of_nat (unat (a ! 15) div 10 ^ k)])
    \<and> uv_inet_pton AF_INET6 (Some (mixed6 a @ 37 # z)) (Some (replicate 16 0)) = Some (0, Some a)
    \<and> (0 < k \<longrightarrow> a[15 := of_nat (unat (a ! 15) div 10 ^ k)] \<noteq> a)"
proof (intro conjI allI impI)
  let ?n = "unat (a ! 15)" and ?a = "a[15 := of_nat (unat (a ! 15) div 10 ^ k)]"
  have cut: "map_option (map_prod id sin6_addr) (uv_ip6_addr f (u @ 37 # z) port) = inet_pton6 (take 39 u) (replicate 16 0)"
    if "37 \<notin> set u" for u
    by (simp add: uv_ip6_addr_zone [OF that] option.map_comp comp_def map_prod_def split_def option.map_ident)
  then show "map_option (map_prod id sin6_addr) (uv_ip6_addr f (u @ 37 # z) port) = inet_pton6 (take 39 u) (replicate 16 0)"
    if "0 \<notin> set u \<and> 37 \<notin> set u" for u
    using that by blast
  have m: "37 \<notin> set (mixed6 a)" using mixed6_chars by blast
  have "take 39 (mixed6 a) = mixed6 ?a" using mixed6_take [OF assms(1,3)] assms(2) by simp
  then show "map_option (map_prod id sin6_addr) (uv_ip6_addr f (mixed6 a @ 37 # z) port) = Some (0, ?a)"
    using cut [OF m] inet_pton6_mixed [of ?a] assms(1) by simp
  have "length (mixed6 a) \<le> 45" by (rule mixed6_length)
  moreover have "sint (of_nat (length (mixed6 a)) :: u32) = int (length (mixed6 a))"
    using mixed6_length [of a] by (simp add: signed_of_nat signed_take_bit_int_eq_self)
  ultimately show "uv_inet_pton AF_INET6 (Some (mixed6 a @ 37 # z)) (Some (replicate 16 0)) = Some (0, Some a)"
    using inet_pton6_mixed [OF assms(1), of "replicate 16 0"]
    by (simp add: uv_inet_pton_def strchr_zone [OF m] Let_def AF_INET_def AF_INET6_def UV__INET6_ADDRSTRLEN_def)
  show "?a \<noteq> a" if "0 < k"
  proof
    assume "?a = a"
    moreover have "?a ! 15 = of_nat (?n div 10 ^ k)" using assms(1) by simp
    ultimately have "a ! 15 = of_nat (?n div 10 ^ k)" by simp
    moreover have "unat (of_nat (?n div 10 ^ k) :: u8) = ?n div 10 ^ k" by (rule unat_u8_div)
    ultimately have "?n = ?n div 10 ^ k" by metis
    moreover have "0 < ?n" using assms(3) less_le_trans [of 0 "10 ^ k" ?n] by simp
    then have "?n div 10 ^ k < ?n" using that one_less_power [of "10 :: nat" k] by (intro div_less_dividend) simp_all
    ultimately show False by simp
  qed
qed

theorem uv_ip6_addr_truncates_witness:
  "map_option (map_prod id sin6_addr) (uv_ip6_addr (\<lambda>_. 4) (mixed6 (replicate 12 255 @ [1, 22, 33, 44]) @ [37, 101, 110, 48]) 443)
     = Some (0, replicate 12 255 @ [1, 22, 33, 4])
   \<and> uv_inet_pton AF_INET6 (Some (mixed6 (replicate 12 255 @ [1, 22, 33, 44]) @ [37, 101, 110, 48])) (Some (replicate 16 0))
     = Some (0, Some (replicate 12 255 @ [1, 22, 33, 44]))"
proof -
  define a :: bytes where "a = replicate 12 255 @ [1, 22, 33, 44]"
  have a: "length a = 16" "a ! 15 = 44" by (simp_all add: a_def nth_append)
  have u: "a[15 := of_nat (unat (a ! 15) div 10 ^ 1)] = replicate 12 255 @ [1, 22, 33, 4]"
    unfolding a(2) by (simp add: a_def list_update_append numeral_3_eq_3)
  have "word_at a i = 65535" if "i < 6" for i
  proof -
    have "a ! (2 * i) = 255" "a ! (2 * i + 1) = 255" using that by (simp_all add: a_def nth_append)
    then show ?thesis using word_at_unat [of a i] by (simp add: word_unat_eq_iff)
  qed
  then have g: "length (grp a i) = 4" if "i < 6" for i using that by (simp add: grp_def numeral_text_digits)
  have "length (groups a [0..<k]) = 5 * k" if "k \<le> 6" for k using that by (induction k) (simp_all add: groups_def g)
  from this [of 6] have "length (groups a [0..<6]) = 30" by simp
  moreover have "length (dotted4 [1, 22, 33, 44]) = 10" by (simp add: dotted4_def numeral_text_digits)
  ultimately have "length (mixed6 a) = 39 + 1" by (simp add: mixed6_def a_def)
  moreover have "10 ^ 1 \<le> unat (a ! 15)" by (simp add: a(2))
  ultimately show ?thesis using uv_ip6_addr_truncates [OF a(1), of 1 "\<lambda>_. 4" "[101, 110, 48]" 443] unfolding u unfolding a_def [symmetric] append_Cons append_Nil by blast
qed

text \<open>With room for nothing \<open>inet_ntop6\<close> reports success and writes no terminator, where \<open>inet_ntop4\<close> reports \<open>UV_ENOSPC\<close>.\<close>

lemma inet_ntop6_no_room: "length src = 16 \<Longrightarrow> uv_inet_ntop AF_INET6 src [] 0 = Some (0, [])"
  "length a = 4 \<Longrightarrow> uv_inet_ntop AF_INET a [] 0 = Some (UV_ENOSPC, [])"
  using inet_ntop6_value [of src 0 "[]"] inet_ntop4_value [of a 0 "[]"] by (simp_all add: uv_inet_ntop_def AF_INET_def AF_INET6_def)

end
