(* ===== verification/Timer_Heap.thy ===== *)
theory Timer_Heap
  imports C_Prelude "HOL-Library.Monad_Syntax"
begin

section \<open>The binary heap of linked nodes (Libuv-gRPC/src/heap-inl.h)\<close>

text \<open>
  The nodes lie in a store, a partial map from addresses to nodes; a pointer is an address or null
  (\<open>None\<close>). An operation has no result (\<open>None\<close>) when it would follow a null pointer or a pointer to
  something that is not a node, which is undefined behaviour in C, or when it would not end. The
  comparison function \<open>less_than\<close> is the parameter \<open>lt\<close>.
\<close>

record heap_node =
  left :: "nat option"
  right :: "nat option"
  parent :: "nat option"

record heap =
  hmin :: "nat option"
  nelts :: u32
  mem :: "nat \<rightharpoonup> heap_node"

subsection \<open>Memory\<close>

definition store :: "nat \<Rightarrow> (heap_node \<Rightarrow> heap_node) \<Rightarrow> heap \<Rightarrow> heap option" where
  "store a f h = map_option (\<lambda>n. h\<lparr>mem := (mem h)(a \<mapsto> f n)\<rparr>) (mem h a)"

text \<open>An assignment to \<open>p->parent\<close> behind the test \<open>p != NULL\<close>.\<close>

definition set_parent :: "nat option \<Rightarrow> nat \<Rightarrow> heap \<Rightarrow> heap option" where
  "set_parent p q h = (case p of None \<Rightarrow> Some h | Some a \<Rightarrow> store a (\<lambda>n. n\<lparr>parent := Some q\<rparr>) h)"

text \<open>The values of type \<^verbatim>\<open>struct heap_node**\<close>: the address of \<open>heap->min\<close> or of a field of a node.\<close>

datatype place = Min | Left nat | Right nat

definition read_place :: "place \<Rightarrow> heap \<Rightarrow> nat option option" where
  "read_place l h =
     (case l of Min \<Rightarrow> Some (hmin h) | Left a \<Rightarrow> map_option left (mem h a) | Right a \<Rightarrow> map_option right (mem h a))"

definition write_place :: "place \<Rightarrow> nat option \<Rightarrow> heap \<Rightarrow> heap option" where
  "write_place l v h =
     (case l of
        Min \<Rightarrow> Some (h\<lparr>hmin := v\<rparr>)
      | Left a \<Rightarrow> store a (\<lambda>n. n\<lparr>left := v\<rparr>) h
      | Right a \<Rightarrow> store a (\<lambda>n. n\<lparr>right := v\<rparr>) h)"

subsection \<open>Operations\<close>

definition heap_init :: "heap \<Rightarrow> heap" where
  "heap_init h = h\<lparr>hmin := None, nelts := 0\<rparr>"

definition heap_min :: "heap \<Rightarrow> nat option" where
  "heap_min h = hmin h"

text \<open>The code that makes the parent of a node point to the node that has taken its place.\<close>

definition relink :: "nat option \<Rightarrow> nat \<Rightarrow> nat \<Rightarrow> heap \<Rightarrow> heap option" where
  "relink up old new h =
     (case up of
        None \<Rightarrow> Some (h\<lparr>hmin := Some new\<rparr>)
      | Some g \<Rightarrow> do {
          n \<leftarrow> mem h g;
          if left n = Some old then store g (\<lambda>n. n\<lparr>left := Some new\<rparr>) h
          else store g (\<lambda>n. n\<lparr>right := Some new\<rparr>) h
        })"

definition heap_node_swap :: "nat \<Rightarrow> nat \<Rightarrow> heap \<Rightarrow> heap option" where
  "heap_node_swap p c h = do {
     t \<leftarrow> mem h p;
     u \<leftarrow> mem h c;
     h \<leftarrow> store p (\<lambda>_. u) h;
     h \<leftarrow> store c (\<lambda>_. t) h;
     h \<leftarrow> store p (\<lambda>n. n\<lparr>parent := Some c\<rparr>) h;
     cn \<leftarrow> mem h c;
     h \<leftarrow> (if left cn = Some c then store c (\<lambda>n. n\<lparr>left := Some p\<rparr>) h else store c (\<lambda>n. n\<lparr>right := Some p\<rparr>) h);
     h \<leftarrow> set_parent (if left cn = Some c then right cn else left cn) c h;
     pn \<leftarrow> mem h p;
     h \<leftarrow> set_parent (left pn) p h;
     pn \<leftarrow> mem h p;
     h \<leftarrow> set_parent (right pn) p h;
     cn \<leftarrow> mem h c;
     relink (parent cn) p c h
   }"

text \<open>The path from the root to the position \<open>n\<close>: the bits of \<open>n\<close> below the leading one, and their number.\<close>

function calc_path :: "u32 \<Rightarrow> u32 \<Rightarrow> u32 \<Rightarrow> u32 \<times> u32" where
  "calc_path path k n =
     (if n \<ge> 2 then calc_path (push_bit 1 path OR (n AND 1)) (k + 1) (n div 2) else (path, k))"
  by pat_completeness auto
termination
  by (relation "measure (\<lambda>(_, _, n). unat n)") (auto simp: word_le_nat_alt word_less_nat_alt unat_div)

declare calc_path.simps [simp del]

text \<open>The walk along the path; the results are the places \<open>parent\<close> and \<open>child\<close>.\<close>

function walk :: "u32 \<Rightarrow> u32 \<Rightarrow> place \<Rightarrow> place \<Rightarrow> heap \<Rightarrow> (place \<times> place) option" where
  "walk k path par child h =
     (if k > 0
      then do {
        p \<leftarrow> read_place child h;
        a \<leftarrow> p;
        walk (k - 1) (drop_bit 1 path) child (if path AND 1 \<noteq> 0 then Right a else Left a) h
      }
      else Some (par, child))"
  by pat_completeness auto
termination
  by (relation "measure (\<lambda>(k, _). unat k)") (auto simp: word_gt_0 unat_minus_one unat_gt_0)

declare walk.simps [simp del]

partial_function (option) sift_up :: "(nat \<Rightarrow> nat \<Rightarrow> bool) \<Rightarrow> nat \<Rightarrow> heap \<Rightarrow> heap option" where
  "sift_up lt a h = do {
     n \<leftarrow> mem h a;
     (case parent n of
        None \<Rightarrow> Some h
      | Some p \<Rightarrow>
          if lt a p then do { h \<leftarrow> heap_node_swap p a h; sift_up lt a h }
          else Some h)
   }"

partial_function (option) sift_down :: "(nat \<Rightarrow> nat \<Rightarrow> bool) \<Rightarrow> nat \<Rightarrow> heap \<Rightarrow> heap option" where
  "sift_down lt a h = do {
     n \<leftarrow> mem h a;
     let s = (case left n of None \<Rightarrow> a | Some l \<Rightarrow> if lt l a then l else a);
     let s = (case right n of None \<Rightarrow> s | Some r \<Rightarrow> if lt r s then r else s);
     (if s = a then Some h
      else do { h \<leftarrow> heap_node_swap a s h; sift_down lt a h })
   }"

definition heap_insert :: "(nat \<Rightarrow> nat \<Rightarrow> bool) \<Rightarrow> nat \<Rightarrow> heap \<Rightarrow> heap option" where
  "heap_insert lt newnode h = do {
     h \<leftarrow> store newnode (\<lambda>n. n\<lparr>left := None, right := None, parent := None\<rparr>) h;
     (case calc_path 0 0 (1 + nelts h) of (path, k) \<Rightarrow> do {
        (par, child) \<leftarrow> walk k path Min Min h;
        p \<leftarrow> read_place par h;
        h \<leftarrow> store newnode (\<lambda>n. n\<lparr>parent := p\<rparr>) h;
        h \<leftarrow> write_place child (Some newnode) h;
        sift_up lt newnode (h\<lparr>nelts := nelts h + 1\<rparr>)
      })
   }"

definition heap_remove :: "(nat \<Rightarrow> nat \<Rightarrow> bool) \<Rightarrow> nat \<Rightarrow> heap \<Rightarrow> heap option" where
  "heap_remove lt node h =
     (if nelts h = 0 then Some h
      else case calc_path 0 0 (nelts h) of (path, k) \<Rightarrow> do {
        (_, max_place) \<leftarrow> walk k path Min Min h;
        child \<leftarrow> read_place max_place h;
        h \<leftarrow> write_place max_place None (h\<lparr>nelts := nelts h - 1\<rparr>);
        if child = Some node
        then Some (if child = hmin h then h\<lparr>hmin := None\<rparr> else h)
        else do {
          c \<leftarrow> child;
          n \<leftarrow> mem h node;
          h \<leftarrow> store c (\<lambda>m. m\<lparr>left := left n, right := right n, parent := parent n\<rparr>) h;
          h \<leftarrow> set_parent (left n) c h;
          h \<leftarrow> set_parent (right n) c h;
          m \<leftarrow> mem h node;
          h \<leftarrow> relink (parent m) node c h;
          h \<leftarrow> sift_down lt c h;
          sift_up lt c h
        }
      })"

text \<open>\<open>heap->min\<close> is passed on unchecked; with an empty heap \<open>heap_remove\<close> returns before it looks at it.\<close>

definition heap_dequeue :: "(nat \<Rightarrow> nat \<Rightarrow> bool) \<Rightarrow> heap \<Rightarrow> heap option" where
  "heap_dequeue lt h =
     (if nelts h = 0 then Some h else do { a \<leftarrow> hmin h; heap_remove lt a h })"

subsection \<open>Positions\<close>

text \<open>
  The nodes of the complete tree are numbered: the root is 1, the children of \<open>i\<close> are \<open>2 * i\<close> and
  \<open>2 * i + 1\<close>. \<open>heap_at n pos h\<close>: the links of the store are exactly those of the complete tree with the
  node \<open>pos i\<close> at each position \<open>i\<close> from 1 to \<open>n\<close>.
\<close>

definition node_at :: "nat \<Rightarrow> (nat \<Rightarrow> nat) \<Rightarrow> nat \<Rightarrow> nat option" where
  "node_at n pos i = (if 1 \<le> i \<and> i \<le> n then Some (pos i) else None)"

definition links :: "nat \<Rightarrow> (nat \<Rightarrow> nat) \<Rightarrow> nat \<Rightarrow> heap_node" where
  "links n pos i = \<lparr>left = node_at n pos (2 * i), right = node_at n pos (2 * i + 1), parent = node_at n pos (i div 2)\<rparr>"

definition heap_at :: "nat \<Rightarrow> (nat \<Rightarrow> nat) \<Rightarrow> heap \<Rightarrow> bool" where
  "heap_at n pos h \<longleftrightarrow> n < 2 ^ 32 \<and> unat (nelts h) = n \<and> hmin h = node_at n pos 1 \<and> inj_on pos {1..n}
     \<and> (\<forall>i \<in> {1..n}. mem h (pos i) = Some (links n pos i))"

definition swap_at :: "nat \<Rightarrow> nat \<Rightarrow> (nat \<Rightarrow> nat) \<Rightarrow> nat \<Rightarrow> nat" where
  "swap_at i j pos = pos(i := pos j, j := pos i)"

lemma heap_atD:
  assumes "heap_at n pos h" and "1 \<le> i" and "i \<le> n"
  shows "mem h (pos i) = Some (links n pos i)"
  using assms by (simp add: heap_at_def)

lemma pos_eq_iff: "inj_on pos {1..n} \<Longrightarrow> 1 \<le> i \<Longrightarrow> i \<le> n \<Longrightarrow> 1 \<le> j \<Longrightarrow> j \<le> n \<Longrightarrow> pos i = pos j \<longleftrightarrow> i = j"
  using inj_on_eq_iff [of pos "{1..n}" i j] by simp

lemma node_at_eq_iff:
  assumes "inj_on pos {1..n}" and "1 \<le> j" and "j \<le> n"
  shows "node_at n pos i = Some (pos j) \<longleftrightarrow> i = j"
  using assms pos_eq_iff [OF assms(1), of i j] by (auto simp: node_at_def)

text \<open>
  \<open>tracks n pos m0 h M\<close>: the store holds \<open>M i\<close> for the node at position \<open>i\<close>, and agrees with \<open>m0\<close> outside of
  the heap. The operations on the store become updates of \<open>M\<close>.
\<close>

definition tracks :: "nat \<Rightarrow> (nat \<Rightarrow> nat) \<Rightarrow> (nat \<rightharpoonup> heap_node) \<Rightarrow> heap \<Rightarrow> (nat \<Rightarrow> heap_node) \<Rightarrow> bool" where
  "tracks n pos m0 h M \<longleftrightarrow> inj_on pos {1..n} \<and> (\<forall>i \<in> {1..n}. mem h (pos i) = Some (M i))
     \<and> (\<forall>a. a \<notin> pos ` {1..n} \<longrightarrow> mem h a = m0 a)"

lemma tracksD: "tracks n pos m0 h M \<Longrightarrow> 1 \<le> i \<Longrightarrow> i \<le> n \<Longrightarrow> mem h (pos i) = Some (M i)"
  by (simp add: tracks_def)

lemma tracks_hmin [simp]: "tracks n pos m0 (h\<lparr>hmin := v\<rparr>) M \<longleftrightarrow> tracks n pos m0 h M"
  by (simp add: tracks_def)

lemma tracks_nelts [simp]: "tracks n pos m0 (h\<lparr>nelts := v\<rparr>) M \<longleftrightarrow> tracks n pos m0 h M"
  by (simp add: tracks_def)

lemma heap_at_tracks:
  "heap_at n pos h \<longleftrightarrow> n < 2 ^ 32 \<and> unat (nelts h) = n \<and> hmin h = node_at n pos 1 \<and> tracks n pos (mem h) h (links n pos)"
  by (auto simp: heap_at_def tracks_def)

lemma store_tracks:
  assumes "tracks n pos m0 h M" and "1 \<le> a" and "a \<le> n"
  obtains h' where "store (pos a) f h = Some h'" "tracks n pos m0 h' (M(a := f (M a)))" "hmin h' = hmin h" "nelts h' = nelts h"
proof
  let ?h = "h\<lparr>mem := (mem h)(pos a \<mapsto> f (M a))\<rparr>"
  show "store (pos a) f h = Some ?h" using tracksD [OF assms] by (simp add: store_def)
  have "mem ?h (pos i) = Some ((M(a := f (M a))) i)" if "1 \<le> i" "i \<le> n" for i
    using assms that pos_eq_iff [of pos n i a] by (auto simp: tracks_def)
  then show "tracks n pos m0 ?h (M(a := f (M a)))" using assms by (auto simp: tracks_def)
qed simp_all

lemma set_parent_tracks:
  assumes "tracks n pos m0 h M"
  obtains h' where "set_parent (node_at n pos a) q h = Some h'"
    "tracks n pos m0 h' (if 1 \<le> a \<and> a \<le> n then M(a := (M a)\<lparr>parent := Some q\<rparr>) else M)" "hmin h' = hmin h" "nelts h' = nelts h"
proof (cases "1 \<le> a \<and> a \<le> n")
  case True
  then show thesis using store_tracks [OF assms, of a "\<lambda>n. n\<lparr>parent := Some q\<rparr>"] that
    by (auto simp: set_parent_def node_at_def)
next
  case False
  then have "node_at n pos a = None" by (simp add: node_at_def)
  with False show thesis using that [of h] assms by (auto simp: set_parent_def)
qed

text \<open>The links after a node has taken the place of the node at position \<open>i\<close>: the parent points to it.\<close>

definition child_link :: "nat \<Rightarrow> nat \<Rightarrow> heap_node \<Rightarrow> heap_node" where
  "child_link i q n = (if even i then n\<lparr>left := Some q\<rparr> else n\<lparr>right := Some q\<rparr>)"

lemma left_link:
  assumes "inj_on pos {1..n}" and "2 \<le> i" and "i \<le> n"
  shows "left (links n pos (i div 2)) = Some (pos i) \<longleftrightarrow> even i"
proof -
  have "left (links n pos (i div 2)) = Some (pos i) \<longleftrightarrow> 2 * (i div 2) = i"
    using node_at_eq_iff [OF assms(1), of i] assms(2,3) by (simp add: links_def)
  then show ?thesis by presburger
qed

lemma relink_tracks:
  assumes "tracks n pos m0 h M" and "1 \<le> i" and "i \<le> n" and "2 \<le> i \<Longrightarrow> left (M (i div 2)) = Some old \<longleftrightarrow> even i"
  obtains h' where "relink (node_at n pos (i div 2)) old q h = Some h'" "nelts h' = nelts h"
    "hmin h' = (if i = 1 then Some q else hmin h)"
    "tracks n pos m0 h' (if i = 1 then M else M(i div 2 := child_link i q (M (i div 2))))"
proof (cases "i = 1")
  case True
  then show thesis using that [of "h\<lparr>hmin := Some q\<rparr>"] assms(1) by (simp add: relink_def node_at_def)
next
  case False
  then have g: "1 \<le> i div 2" "i div 2 \<le> n" "2 \<le> i" using assms(2,3) by auto
  then have at: "node_at n pos (i div 2) = Some (pos (i div 2))" by (simp add: node_at_def)
  obtain h' where "store (pos (i div 2)) (child_link i q) h = Some h'" "tracks n pos m0 h' (M(i div 2 := child_link i q (M (i div 2))))" "hmin h' = hmin h" "nelts h' = nelts h"
    by (rule store_tracks [OF assms(1) g(1,2)])
  moreover have "relink (node_at n pos (i div 2)) old q h = store (pos (i div 2)) (child_link i q) h"
    using tracksD [OF assms(1) g(1,2)] assms(4) [OF g(3)] by (auto simp: relink_def at child_link_def [abs_def])
  ultimately show thesis using that False by simp
qed

text \<open>Swapping the nodes at position \<open>j\<close> and at its parent.\<close>

definition sibling :: "nat \<Rightarrow> nat" where
  "sibling j = (if even j then j + 1 else j - 1)"

lemma node_at_swap:
  assumes "1 \<le> i" and "i < j" and "j \<le> n"
  shows "node_at n (swap_at i j pos) m = (if m = i then Some (pos j) else if m = j then Some (pos i) else node_at n pos m)"
  using assms by (auto simp: node_at_def swap_at_def)

lemma swap_at_apply: "swap_at i j pos k = pos (if k = i then j else if k = j then i else k)"
  by (simp add: swap_at_def)

lemma swap_at_inj:
  assumes "inj_on pos {1..n}" and "i \<in> {1..n}" and "j \<in> {1..n}"
  shows "inj_on (swap_at i j pos) {1..n}"
proof (rule inj_onI)
  fix x y assume xy: "x \<in> {1..n}" "y \<in> {1..n}" and e: "swap_at i j pos x = swap_at i j pos y"
  let ?f = "\<lambda>k. if k = i then j else if k = j then i else k"
  have "?f x \<in> {1..n}" "?f y \<in> {1..n}" using xy assms(2,3) by auto
  then have "?f x = ?f y" using inj_onD [OF assms(1) e [unfolded swap_at_apply]] by blast
  then show "x = y" by (simp split: if_splits)
qed

lemma swap_at_image: "i \<in> S \<Longrightarrow> j \<in> S \<Longrightarrow> swap_at i j pos ` S = pos ` S"
  by (auto simp: swap_at_def image_iff)

text \<open>What \<open>heap_node_swap\<close> leaves at each position of the old numbering.\<close>

definition swapped :: "nat \<Rightarrow> (nat \<Rightarrow> nat) \<Rightarrow> nat \<Rightarrow> nat \<Rightarrow> heap_node" where
  "swapped n pos j k =
     (let i = j div 2; L = links n pos in
      if k = i then (L j)\<lparr>parent := Some (pos j)\<rparr>
      else if k = j then child_link j (pos i) (L i)
      else if k = sibling j then (L k)\<lparr>parent := Some (pos j)\<rparr>
      else if k div 2 = j then (L k)\<lparr>parent := Some (pos i)\<rparr>
      else if i \<noteq> 1 \<and> k = i div 2 then child_link i (pos j) (L k)
      else L k)"

lemma sibling_cases:
  fixes i j :: nat
  assumes "i = j div 2" and "2 \<le> j"
  obtains "j = 2 * i" "sibling j = 2 * i + 1" | "j = 2 * i + 1" "sibling j = 2 * i"
  using assms by (cases "even j") (auto simp: sibling_def)

lemma swapped_links:
  assumes "2 \<le> j" and "j \<le> n" and "1 \<le> k" and "k \<le> n" and i: "i = j div 2"
  shows "swapped n pos j (if k = i then j else if k = j then i else k) = links n (swap_at i j pos) k"
proof -
  have ij: "1 \<le> i" "i < j" "i div 2 < i" using assms(1) i by auto
  note at = node_at_swap [OF ij(1,2) assms(2), of pos]
  consider (top) "k = i" | (child) "k = j" | (sib) "k = sibling j" "k \<noteq> i" "k \<noteq> j"
    | (down) "k div 2 = j" "k \<noteq> i" "k \<noteq> j" "k \<noteq> sibling j"
    | (up) "k = i div 2" "k \<noteq> i" "k \<noteq> j" "k \<noteq> sibling j" "k div 2 \<noteq> j" "i \<noteq> 1"
    | (rest) "k \<noteq> i div 2" "k \<noteq> i" "k \<noteq> j" "k \<noteq> sibling j" "k div 2 \<noteq> j"
    using assms(3) ij by (cases "i = 1") fastforce+
  then show ?thesis
  proof cases
    case top
    have "swapped n pos j j = links n (swap_at i j pos) i"
      unfolding swapped_def links_def at child_link_def Let_def i [symmetric]
      by (rule sibling_cases [OF i assms(1)]) (use ij in simp_all)
    then show ?thesis using top by simp
  next
    case child
    have "swapped n pos j i = links n (swap_at i j pos) j"
      using ij by (simp add: i [symmetric] swapped_def links_def at)
    then show ?thesis using child ij by simp
  next
    case sib
    have "k div 2 = i" "2 * k \<noteq> i" "2 * k + 1 \<noteq> i" "2 * k \<noteq> j" "2 * k + 1 \<noteq> j"
      by (rule sibling_cases [OF i assms(1)]; use sib in simp)+
    then show ?thesis using sib ij by (simp add: i [symmetric] swapped_def links_def at)
  next
    case down
    then have "2 * k \<noteq> i" "2 * k + 1 \<noteq> i" "2 * k \<noteq> j" "2 * k + 1 \<noteq> j" using ij by auto
    then show ?thesis using down ij by (simp add: i [symmetric] swapped_def links_def at)
  next
    case up
    then have "k div 2 \<noteq> i" "k div 2 \<noteq> j" using ij by auto
    moreover have "2 * k \<noteq> j" "2 * k + 1 \<noteq> j" by (rule sibling_cases [OF i assms(1)]; use up ij in simp)+
    moreover have "2 * k = i \<longleftrightarrow> even i" "2 * k + 1 = i \<longleftrightarrow> odd i" using up(1) by presburger+
    ultimately have "links n (swap_at i j pos) k = child_link i (pos j) (links n pos k)"
      unfolding links_def at child_link_def by simp
    moreover have "swapped n pos j k = child_link i (pos j) (links n pos k)"
      using up ij by (simp add: swapped_def i [symmetric])
    ultimately show ?thesis using up by simp
  next
    case rest
    then have "2 * k \<noteq> i" "2 * k + 1 \<noteq> i" by auto
    moreover have "k div 2 \<noteq> i" "2 * k \<noteq> j" "2 * k + 1 \<noteq> j"
      by (rule sibling_cases [OF i assms(1)]; use rest in force)+
    ultimately show ?thesis using rest ij by (simp add: i [symmetric] swapped_def links_def at)
  qed
qed

lemma upd_chain:
  fixes L M4 M5 M6 M7 :: "nat \<Rightarrow> heap_node"
  assumes "M4 = L(i := B, j := A)"
    and "M5 = (if 1 \<le> s \<and> s \<le> n then M4(s := (M4 s)\<lparr>parent := Some c\<rparr>) else M4)"
    and "M6 = (if 1 \<le> l \<and> l \<le> n then M5(l := (M5 l)\<lparr>parent := Some p\<rparr>) else M5)"
    and "M7 = (if 1 \<le> r \<and> r \<le> n then M6(r := (M6 r)\<lparr>parent := Some p\<rparr>) else M6)"
    and d: "distinct [i, j, s, l, r]" and p: "1 \<le> s" "1 \<le> l" "1 \<le> r"
  shows "M5 i = B" "M6 i = B" "M7 j = A" "k \<notin> {i, j, s, l, r} \<Longrightarrow> M7 k = L k"
    and "k \<le> n \<Longrightarrow> M7 k = (if k = i then B else if k = j then A else if k = s then (L k)\<lparr>parent := Some c\<rparr>
        else if k = l \<or> k = r then (L k)\<lparr>parent := Some p\<rparr> else L k)"
proof -
  have M4: "M4 k = (if k = j then A else if k = i then B else L k)" for k using assms(1) by simp
  have M5: "M5 k = (if k = s \<and> s \<le> n then (M4 k)\<lparr>parent := Some c\<rparr> else M4 k)" for k using assms(2) p by simp
  have M6: "M6 k = (if k = l \<and> l \<le> n then (M5 k)\<lparr>parent := Some p\<rparr> else M5 k)" for k using assms(3) p by simp
  have M7: "M7 k = (if k = r \<and> r \<le> n then (M6 k)\<lparr>parent := Some p\<rparr> else M6 k)" for k using assms(4) p by simp
  have ne: "i \<noteq> j" "i \<noteq> s" "i \<noteq> l" "i \<noteq> r" "j \<noteq> s" "j \<noteq> l" "j \<noteq> r" "s \<noteq> l" "s \<noteq> r" "l \<noteq> r"
    using d by auto
  show "M5 i = B" "M6 i = B" "M7 j = A" unfolding M7 M6 M5 M4 using ne by simp_all
  show "k \<notin> {i, j, s, l, r} \<Longrightarrow> M7 k = L k" unfolding M7 M6 M5 M4 by simp
  show "M7 k = (if k = i then B else if k = j then A else if k = s then (L k)\<lparr>parent := Some c\<rparr>
        else if k = l \<or> k = r then (L k)\<lparr>parent := Some p\<rparr> else L k)" if "k \<le> n"
  proof -
    consider "k = i" | "k = j" | "k = s" | "k = l" | "k = r" | "k \<notin> {i, j, s, l, r}" by blast
    then show ?thesis unfolding M7 M6 M5 M4 by cases (use ne that in simp_all)
  qed
qed

lemma tracks_cong: "tracks n pos m h M \<Longrightarrow> (\<And>k. k \<le> n \<Longrightarrow> M k = M' k) \<Longrightarrow> tracks n pos m h M'"
  by (simp add: tracks_def)

lemma heap_node_swap_run:
  assumes "heap_at n pos h" and "2 \<le> j" and "j \<le> n" and i: "i = j div 2"
  obtains h' where "heap_node_swap (pos i) (pos j) h = Some h'" "nelts h' = nelts h"
    "hmin h' = (if i = 1 then Some (pos j) else hmin h)" "tracks n pos (mem h) h' (swapped n pos j)"
proof -
  let ?L = "links n pos" and ?m = "mem h"
  have ij: "1 \<le> i" "i < j" "i \<le> n" "1 \<le> j" "i div 2 < i" using assms(2,3) i by auto
  note t0 = heap_at_tracks [THEN iffD1, OF assms(1)]
  then have inj: "inj_on pos {1..n}" by (simp add: tracks_def)
  obtain h1 where h1: "store (pos i) (\<lambda>_. ?L j) h = Some h1" "tracks n pos ?m h1 (?L(i := ?L j))" "hmin h1 = hmin h" "nelts h1 = nelts h"
    by (rule store_tracks [of n pos ?m h ?L i "\<lambda>_. ?L j"]) (use t0 ij in auto)
  obtain h2 where h2: "store (pos j) (\<lambda>_. ?L i) h1 = Some h2" "tracks n pos ?m h2 (?L(i := ?L j, j := ?L i))" "hmin h2 = hmin h" "nelts h2 = nelts h"
    by (rule store_tracks [OF h1(2), of j "\<lambda>_. ?L i"]) (use h1 ij assms(3) in auto)
  obtain h3 where h3: "store (pos i) (\<lambda>n. n\<lparr>parent := Some (pos j)\<rparr>) h2 = Some h3"
      "tracks n pos ?m h3 (?L(j := ?L i, i := (?L j)\<lparr>parent := Some (pos j)\<rparr>))" "hmin h3 = hmin h" "nelts h3 = nelts h"
    by (rule store_tracks [OF h2(2), of i "\<lambda>n. n\<lparr>parent := Some (pos j)\<rparr>"]) (use h2 ij in \<open>auto simp: fun_upd_twist\<close>)
  let ?A = "child_link j (pos i) (?L i)" and ?B = "(?L j)\<lparr>parent := Some (pos j)\<rparr>" and ?s = "sibling j"
  define M4 where "M4 = ?L(i := ?B, j := ?A)"
  obtain h4 where h4: "store (pos j) (child_link j (pos i)) h3 = Some h4" "tracks n pos ?m h4 M4" "hmin h4 = hmin h" "nelts h4 = nelts h"
    by (rule store_tracks [OF h3(2), of j "child_link j (pos i)"]) (use h3 ij assms(3) in \<open>auto simp: M4_def fun_upd_twist\<close>)
  define M5 where "M5 = (if 1 \<le> ?s \<and> ?s \<le> n then M4(?s := (M4 ?s)\<lparr>parent := Some (pos j)\<rparr>) else M4)"
  obtain h5 where h5: "set_parent (node_at n pos ?s) (pos j) h4 = Some h5" "tracks n pos ?m h5 M5" "hmin h5 = hmin h" "nelts h5 = nelts h"
    unfolding M5_def h4(3) [symmetric] h4(4) [symmetric] by (rule set_parent_tracks [OF h4(2)])
  define l r g where lr: "l = 2 * j" "r = 2 * j + 1" "g = i div 2"
  define M6 where "M6 = (if 1 \<le> l \<and> l \<le> n then M5(l := (M5 l)\<lparr>parent := Some (pos i)\<rparr>) else M5)"
  obtain h6 where h6: "set_parent (node_at n pos l) (pos i) h5 = Some h6" "tracks n pos ?m h6 M6" "hmin h6 = hmin h" "nelts h6 = nelts h"
    unfolding M6_def h5(3) [symmetric] h5(4) [symmetric] by (rule set_parent_tracks [OF h5(2)])
  define M7 where "M7 = (if 1 \<le> r \<and> r \<le> n then M6(r := (M6 r)\<lparr>parent := Some (pos i)\<rparr>) else M6)"
  obtain h7 where h7: "set_parent (node_at n pos r) (pos i) h6 = Some h7" "tracks n pos ?m h7 M7" "hmin h7 = hmin h" "nelts h7 = nelts h"
    unfolding M7_def h6(3) [symmetric] h6(4) [symmetric] by (rule set_parent_tracks [OF h6(2)])
  have d: "distinct [i, j, ?s, l, r]" "1 \<le> ?s" "1 \<le> l" "1 \<le> r" "g \<notin> {i, j, ?s, l, r}"
    unfolding lr by (rule sibling_cases [OF i assms(2)]; use ij in simp)+
  note M = upd_chain [OF M4_def M5_def M6_def M7_def d(1-4)]
  have "left (M7 (i div 2)) = Some (pos i) \<longleftrightarrow> even i" if "2 \<le> i"
    using left_link [OF inj that ij(3)] unfolding lr(3) [symmetric] M(4) [OF d(5)] .
  then obtain h8 where h8: "relink (node_at n pos g) (pos i) (pos j) h7 = Some h8" "nelts h8 = nelts h"
      "hmin h8 = (if i = 1 then Some (pos j) else hmin h)"
      "tracks n pos ?m h8 (if i = 1 then M7 else M7(g := child_link i (pos j) (M7 g)))"
    unfolding h7(3) [symmetric] h7(4) [symmetric] lr(3) by (rule relink_tracks [OF h7(2) ij(1,3)])
  have sw: "(if i = 1 then M7 else M7(g := child_link i (pos j) (M7 g))) k = swapped n pos j k" if "k \<le> n" for k
  proof -
    have kl: "k div 2 = j \<longleftrightarrow> k = l \<or> k = r" unfolding lr by auto
    have "swapped n pos j k = (if i \<noteq> 1 \<and> k = g then child_link i (pos j) (?L g) else M7 k)"
      unfolding swapped_def Let_def i [symmetric] lr(3) [symmetric] kl M(5) [OF that] using d(5) by auto
    then show ?thesis unfolding M(4) [OF d(5)] by simp
  qed
  have lj: "left (?L i) = Some (pos j) \<longleftrightarrow> even j"
  proof -
    have "left (?L i) = Some (pos j) \<longleftrightarrow> 2 * i = j" by (simp add: links_def node_at_eq_iff [OF inj ij(4) assms(3)])
    moreover have "2 * i = j \<longleftrightarrow> even j" using i by presburger
    ultimately show ?thesis by simp
  qed
  have sib: "(if even j then right (?L i) else left (?L i)) = node_at n pos ?s"
    by (rule sibling_cases [OF i assms(2)]) (simp_all add: links_def)
  have cl: "(if even j then store (pos j) (\<lambda>n. n\<lparr>left := Some (pos i)\<rparr>) h3 else store (pos j) (\<lambda>n. n\<lparr>right := Some (pos i)\<rparr>) h3) = Some h4"
    using h4(1) by (cases "even j") (simp_all add: child_link_def [abs_def])
  have m: "mem h (pos i) = Some (?L i)" "mem h (pos j) = Some (?L j)" "mem h3 (pos j) = Some (?L i)"
      "mem h5 (pos i) = Some ?B" "mem h6 (pos i) = Some ?B" "mem h7 (pos j) = Some ?A"
    using heap_atD [OF assms(1)] tracksD [OF h3(2)] tracksD [OF h5(2)] tracksD [OF h6(2)] tracksD [OF h7(2)] M(1-3) ij assms(3) by simp_all
  have f: "left ?B = node_at n pos l" "right ?B = node_at n pos r" "parent ?A = node_at n pos g"
    by (simp_all add: links_def lr child_link_def)
  have "heap_node_swap (pos i) (pos j) h = Some h8"
    by (simp only: heap_node_swap_def m bind.bind_lunit h1(1) h2(1) h3(1) lj cl sib h5(1) f h6(1) h7(1) h8(1))
  then show thesis using that h8(2,3) tracks_cong [OF h8(4) sw] by blast
qed

lemma heap_node_swap_at:
  assumes "heap_at n pos h" and "2 \<le> j" and "j \<le> n"
  obtains h' where "heap_node_swap (pos (j div 2)) (pos j) h = Some h'" "heap_at n (swap_at (j div 2) j pos) h'"
    "\<And>a. a \<notin> pos ` {1..n} \<Longrightarrow> mem h' a = mem h a"
proof -
  define i where i: "i = j div 2"
  let ?pos = "swap_at i j pos"
  have ij: "1 \<le> i" "i < j" using assms(2) i by auto
  obtain h' where h': "heap_node_swap (pos i) (pos j) h = Some h'" "nelts h' = nelts h"
      "hmin h' = (if i = 1 then Some (pos j) else hmin h)" "tracks n pos (mem h) h' (swapped n pos j)"
    by (rule heap_node_swap_run [OF assms i])
  have "heap_at n ?pos h'" unfolding heap_at_def
  proof (intro conjI ballI)
    show "n < 2 ^ 32" "unat (nelts h') = n" using assms(1) h'(2) by (simp_all add: heap_at_def)
    show "hmin h' = node_at n ?pos 1" using assms(1) h'(3) ij assms(3) by (auto simp: heap_at_def node_at_def swap_at_def)
    show "inj_on ?pos {1..n}" using swap_at_inj [of pos n i j] assms(1,3) ij by (simp add: heap_at_def)
    fix k assume k: "k \<in> {1..n}"
    let ?k = "if k = i then j else if k = j then i else k"
    have k': "1 \<le> ?k" "?k \<le> n" using k ij assms(3) by auto
    have "mem h' (?pos k) = Some (swapped n pos j ?k)" unfolding swap_at_apply using tracksD [OF h'(4) k'] .
    then show "mem h' (?pos k) = Some (links n ?pos k)" using swapped_links [OF assms(2,3) _ _ i, of k pos] k by simp
  qed
  moreover have "mem h' a = mem h a" if "a \<notin> pos ` {1..n}" for a using h'(4) that by (simp add: tracks_def)
  ultimately show thesis using that h'(1) by (simp add: i)
qed

subsection \<open>Sifting\<close>

text \<open>
  \<open>permuted\<close>: the heap has the same nodes, perhaps at other positions, and the rest of the store is as it
  was. \<open>ordered\<close>: no node is less than its parent. \<open>ordered_but\<close>: so it is, but for the links of the node
  at \<open>i\<close> to its parent and its children, and the children are in order with the parent.
\<close>

definition permuted :: "nat \<Rightarrow> (nat \<Rightarrow> nat) \<Rightarrow> heap \<Rightarrow> (nat \<Rightarrow> nat) \<Rightarrow> heap \<Rightarrow> bool" where
  "permuted n pos h pos' h' \<longleftrightarrow> heap_at n pos' h' \<and> pos' ` {1..n} = pos ` {1..n}
     \<and> (\<forall>a. a \<notin> pos ` {1..n} \<longrightarrow> mem h' a = mem h a)"

definition ordered :: "(nat \<Rightarrow> nat \<Rightarrow> bool) \<Rightarrow> nat \<Rightarrow> (nat \<Rightarrow> nat) \<Rightarrow> bool" where
  "ordered lt n pos \<longleftrightarrow> (\<forall>k. 2 \<le> k \<longrightarrow> k \<le> n \<longrightarrow> \<not> lt (pos k) (pos (k div 2)))"

definition ordered_but :: "(nat \<Rightarrow> nat \<Rightarrow> bool) \<Rightarrow> nat \<Rightarrow> nat \<Rightarrow> (nat \<Rightarrow> nat) \<Rightarrow> bool" where
  "ordered_but lt i n pos \<longleftrightarrow>
     (\<forall>k. 2 \<le> k \<longrightarrow> k \<le> n \<longrightarrow> k \<noteq> i \<longrightarrow> k div 2 \<noteq> i \<longrightarrow> \<not> lt (pos k) (pos (k div 2)))
     \<and> (\<forall>k \<le> n. k div 2 = i \<longrightarrow> 2 \<le> i \<longrightarrow> \<not> lt (pos k) (pos (i div 2)))"

definition above_children :: "(nat \<Rightarrow> nat \<Rightarrow> bool) \<Rightarrow> nat \<Rightarrow> nat \<Rightarrow> (nat \<Rightarrow> nat) \<Rightarrow> bool" where
  "above_children lt i n pos \<longleftrightarrow> (\<forall>k \<le> n. k div 2 = i \<longrightarrow> \<not> lt (pos k) (pos i))"

lemma permuted_trans: "permuted n pos h pos1 h1 \<Longrightarrow> permuted n pos1 h1 pos2 h2 \<Longrightarrow> permuted n pos h pos2 h2"
  by (simp add: permuted_def)

lemma permuted_refl: "heap_at n pos h \<Longrightarrow> permuted n pos h pos h"
  by (simp add: permuted_def)

lemma swap_permuted:
  assumes "heap_at n pos h" and "2 \<le> j" and "j \<le> n"
  obtains h' where "heap_node_swap (pos (j div 2)) (pos j) h = Some h'" "permuted n pos h (swap_at (j div 2) j pos) h'"
proof -
  have "swap_at (j div 2) j pos ` {1..n} = pos ` {1..n}" using assms(2,3) by (intro swap_at_image) auto
  moreover obtain h' where "heap_node_swap (pos (j div 2)) (pos j) h = Some h'" "heap_at n (swap_at (j div 2) j pos) h'"
      "\<And>a. a \<notin> pos ` {1..n} \<Longrightarrow> mem h' a = mem h a" using heap_node_swap_at [OF assms] by metis
  ultimately show thesis using that by (simp add: permuted_def)
qed

lemma swap_at_simps [simp]: "swap_at i j pos i = pos j" "swap_at i j pos j = pos i" "k \<noteq> i \<Longrightarrow> k \<noteq> j \<Longrightarrow> swap_at i j pos k = pos k"
  by (simp_all add: swap_at_def)

text \<open>The position of the least among a node and its children, as \<open>heap_remove\<close> finds it.\<close>

definition least :: "(nat \<Rightarrow> nat \<Rightarrow> bool) \<Rightarrow> nat \<Rightarrow> (nat \<Rightarrow> nat) \<Rightarrow> nat \<Rightarrow> nat" where
  "least lt n pos i =
     (let c = (if 2 * i \<le> n \<and> lt (pos (2 * i)) (pos i) then 2 * i else i)
      in if 2 * i + 1 \<le> n \<and> lt (pos (2 * i + 1)) (pos c) then 2 * i + 1 else c)"

lemma child_cases: "k div 2 = i \<longleftrightarrow> k = 2 * i \<or> k = 2 * i + 1" for k i :: nat
  by auto

text \<open>What the heap relies on: the comparison function is the strict part of a total preorder.\<close>

locale heap_order =
  fixes lt :: "nat \<Rightarrow> nat \<Rightarrow> bool"
  assumes asym: "lt a b \<Longrightarrow> \<not> lt b a"
    and neg_trans: "\<not> lt b a \<Longrightarrow> \<not> lt c b \<Longrightarrow> \<not> lt c a"
begin

lemma irrefl: "\<not> lt a a"
  using asym by blast

lemma up_step:
  assumes o: "ordered_but lt j n pos" and ab: "above_children lt j n pos" and "2 \<le> j" and x: "lt (pos j) (pos i)" and i: "i = j div 2" and "j \<le> n"
  shows "ordered_but lt i n (swap_at i j pos)" "above_children lt i n (swap_at i j pos)"
proof -
  have ij: "i \<noteq> j" "1 \<le> i" "i \<le> n" "i div 2 \<noteq> i" "i div 2 \<noteq> j" using assms(3,6) i by auto
  have o1: "\<not> lt (pos k) (pos (k div 2))" if "2 \<le> k" "k \<le> n" "k \<noteq> j" "k div 2 \<noteq> j" for k using o that by (simp add: ordered_but_def)
  have o2: "\<not> lt (pos k) (pos i)" if "k \<le> n" "k div 2 = j" for k using o that assms(3) i by (simp add: ordered_but_def)
  have sib: "\<not> lt (pos k) (pos i)" if "k \<le> n" "k div 2 = i" "k \<noteq> j" for k using o1 [of k] that ij by (cases "2 \<le> k") auto
  have c: "k \<noteq> i" if "k div 2 = i" for k using that ij by auto
  show "ordered_but lt i n (swap_at i j pos)" unfolding ordered_but_def
  proof (intro conjI allI impI)
    fix k assume k: "2 \<le> k" "k \<le> n" "k \<noteq> i" "k div 2 \<noteq> i"
    then have "k \<noteq> j" using i by auto
    then show "\<not> lt (swap_at i j pos k) (swap_at i j pos (k div 2))"
      using k o1 [of k] o2 [of k] by (cases "k div 2 = j") auto
  next
    fix k assume k: "k \<le> n" "k div 2 = i" "2 \<le> i"
    have up: "\<not> lt (pos i) (pos (i div 2))" using o1 [of i] ij k(3) by simp
    then show "\<not> lt (swap_at i j pos k) (swap_at i j pos (i div 2))"
      using neg_trans [OF up sib [OF k(1,2)]] ij c [OF k(2)] by (cases "k = j") auto
  qed
  show "above_children lt i n (swap_at i j pos)" unfolding above_children_def
  proof (intro allI impI)
    fix k assume k: "k \<le> n" "k div 2 = i"
    show "\<not> lt (swap_at i j pos k) (swap_at i j pos i)"
      using neg_trans [OF asym [OF x] sib [OF k]] asym [OF x] c [OF k(2)] by (cases "k = j") auto
  qed
qed

lemma up_end:
  assumes "ordered_but lt j n pos" and "above_children lt j n pos" and "j = 1 \<or> \<not> lt (pos j) (pos (j div 2))"
  shows "ordered lt n pos"
  using assms by (auto simp: ordered_def ordered_but_def above_children_def)

lemma down_step:
  assumes o: "ordered_but lt i n pos" and "1 \<le> i" and "j div 2 = i" and "j \<le> n"
    and small: "\<And>k. k \<le> n \<Longrightarrow> k div 2 = i \<Longrightarrow> \<not> lt (pos k) (pos j)"
  shows "ordered_but lt j n (swap_at i j pos)"
  unfolding ordered_but_def
proof (intro conjI allI impI)
  have ij: "i \<noteq> j" "i div 2 \<noteq> i" "i div 2 \<noteq> j" using assms(2,3) by auto
  fix k assume k: "2 \<le> k" "k \<le> n" "k \<noteq> j" "k div 2 \<noteq> j"
  consider "k = i" | "k \<noteq> i" "k div 2 = i" | "k \<noteq> i" "k div 2 \<noteq> i" by blast
  then show "\<not> lt (swap_at i j pos k) (swap_at i j pos (k div 2))"
  proof cases
    case 1
    then show ?thesis using o assms(3,4) k(1) ij by (simp add: ordered_but_def)
  next
    case 2
    then show ?thesis using small [OF k(2)] k(3) by simp
  next
    case 3
    then show ?thesis using o k by (simp add: ordered_but_def)
  qed
next
  fix k assume k: "k \<le> n" "k div 2 = j" "2 \<le> j"
  then have "k \<noteq> i" "k \<noteq> j" "k div 2 \<noteq> i" "2 \<le> k" using assms(2,3) by auto
  moreover from this have "\<not> lt (pos k) (pos (k div 2))" using o k(1) unfolding ordered_but_def by blast
  ultimately show "\<not> lt (swap_at i j pos k) (swap_at i j pos (j div 2))" using k(2) assms(3) by simp
qed

lemma sift_up_at:
  "heap_at n pos h \<Longrightarrow> 1 \<le> i \<Longrightarrow> i \<le> n \<Longrightarrow> ordered_but lt i n pos \<Longrightarrow> above_children lt i n pos \<Longrightarrow>
   \<exists>h' pos'. sift_up lt (pos i) h = Some h' \<and> permuted n pos h pos' h' \<and> ordered lt n pos'"
proof (induction i arbitrary: h pos rule: less_induct)
  case (less i)
  have m: "mem h (pos i) = Some (links n pos i)" using less.prems(1-3) by (rule heap_atD)
  show ?case
  proof (cases "2 \<le> i \<and> lt (pos i) (pos (i div 2))")
    case True
    then have at: "parent (links n pos i) = Some (pos (i div 2))" using less.prems(3) by (auto simp: links_def node_at_def)
    obtain h1 where h1: "heap_node_swap (pos (i div 2)) (pos i) h = Some h1" "permuted n pos h (swap_at (i div 2) i pos) h1"
      by (rule swap_permuted [OF less.prems(1)]) (use True less.prems(3) in auto)
    have s: "sift_up lt (pos i) h = sift_up lt (swap_at (i div 2) i pos (i div 2)) h1"
      using m at h1(1) True by (subst sift_up.simps) simp
    have "heap_at n (swap_at (i div 2) i pos) h1" using h1(2) by (simp add: permuted_def)
    moreover have "i div 2 < i" "1 \<le> i div 2" "i div 2 \<le> n" using True less.prems(3) by auto
    moreover note up_step [OF less.prems(4,5) _ _ refl less.prems(3)]
    ultimately obtain h' pos' where "sift_up lt (pos i) h = Some h'" "permuted n (swap_at (i div 2) i pos) h1 pos' h'" "ordered lt n pos'"
      using less.IH [of "i div 2" "swap_at (i div 2) i pos" h1] True s by auto
    then show ?thesis using permuted_trans [OF h1(2)] by blast
  next
    case False
    then have "i = 1 \<or> \<not> lt (pos i) (pos (i div 2))" using less.prems(2) by auto
    then have "ordered lt n pos" using up_end less.prems(4,5) by blast
    moreover have "sift_up lt (pos i) h = Some h"
      using m False less.prems(2,3) by (subst sift_up.simps) (auto simp: links_def node_at_def)
    ultimately show ?thesis using permuted_refl [OF less.prems(1)] by blast
  qed
qed

lemma least_small: "k \<le> n \<Longrightarrow> k div 2 = i \<Longrightarrow> \<not> lt (pos k) (pos (least lt n pos i))"
proof -
  let ?l = "pos (2 * i)" and ?r = "pos (2 * i + 1)" and ?a = "pos i"
  assume "k \<le> n" "k div 2 = i"
  then have k: "k = 2 * i \<or> k = 2 * i + 1" "k \<le> n" by (simp_all add: child_cases)
  have 1: "lt ?r ?l \<Longrightarrow> \<not> lt ?l ?r" by (rule asym)
  have 2: "\<not> lt ?l ?a \<Longrightarrow> lt ?r ?a \<Longrightarrow> \<not> lt ?l ?r" using neg_trans [OF asym, of ?r ?a ?l] by blast
  show ?thesis using k 1 2 irrefl by (auto simp: least_def Let_def)
qed

lemma least_cases: "1 \<le> i \<Longrightarrow> i \<le> n \<Longrightarrow> least lt n pos i = i \<or> 2 \<le> least lt n pos i \<and> least lt n pos i \<le> n \<and> least lt n pos i div 2 = i"
  by (auto simp: least_def Let_def)

lemma sift_down_unfold:
  assumes "heap_at n pos h" and "1 \<le> i" and "i \<le> n"
  shows "sift_down lt (pos i) h =
    (if least lt n pos i = i then Some h
     else Option.bind (heap_node_swap (pos i) (pos (least lt n pos i)) h) (sift_down lt (pos i)))"
proof -
  let ?n = "links n pos i"
  have m: "mem h (pos i) = Some ?n" using assms by (rule heap_atD)
  let ?c = "if 2 * i \<le> n \<and> lt (pos (2 * i)) (pos i) then 2 * i else i"
  have c: "(case left ?n of None \<Rightarrow> pos i | Some l \<Rightarrow> if lt l (pos i) then l else pos i) = pos ?c"
    using assms(2) by (simp add: links_def node_at_def)
  have d: "(case right ?n of None \<Rightarrow> pos ?c | Some r \<Rightarrow> if lt r (pos ?c) then r else pos ?c) = pos (least lt n pos i)"
    by (simp add: links_def node_at_def least_def Let_def)
  have "1 \<le> least lt n pos i" "least lt n pos i \<le> n" using least_cases [OF assms(2,3), of pos] assms(2,3) by auto
  then have e: "pos (least lt n pos i) = pos i \<longleftrightarrow> least lt n pos i = i"
    using pos_eq_iff [of pos n] assms by (simp add: heap_at_def)
  show ?thesis by (subst sift_down.simps) (simp only: m bind.bind_lunit c d e Let_def)
qed

lemma sift_down_at:
  "heap_at n pos h \<Longrightarrow> 1 \<le> i \<Longrightarrow> i \<le> n \<Longrightarrow> ordered_but lt i n pos \<Longrightarrow>
   \<exists>h' pos' j. sift_down lt (pos i) h = Some h' \<and> permuted n pos h pos' h' \<and> 1 \<le> j \<and> j \<le> n \<and> pos' j = pos i
     \<and> ordered_but lt j n pos' \<and> above_children lt j n pos'"
proof (induction "n - i" arbitrary: i h pos rule: less_induct)
  case less
  let ?j = "least lt n pos i"
  show ?case
  proof (cases "?j = i")
    case True
    then have "above_children lt i n pos" using least_small [of _ n i pos] by (simp add: above_children_def)
    then show ?thesis using sift_down_unfold [OF less.prems(1-3)] True permuted_refl [OF less.prems(1)] less.prems by auto
  next
    case False
    then have j: "2 \<le> ?j" "?j \<le> n" "?j div 2 = i" using least_cases [OF less.prems(2,3), of pos] by auto
    obtain h1 where h1: "heap_node_swap (pos i) (pos ?j) h = Some h1" "permuted n pos h (swap_at i ?j pos) h1"
      using swap_permuted [OF less.prems(1) j(1,2)] unfolding j(3) by blast
    have "heap_at n (swap_at i ?j pos) h1" using h1(2) by (simp add: permuted_def)
    moreover have "ordered_but lt ?j n (swap_at i ?j pos)"
      using less.prems(2,4) j least_small [of _ n i pos] by (intro down_step) auto
    moreover have "n - ?j < n - i" "1 \<le> ?j" using j less.prems(2) by auto
    ultimately obtain h' pos' j' where "sift_down lt (swap_at i ?j pos ?j) h1 = Some h'" "permuted n (swap_at i ?j pos) h1 pos' h'"
        "1 \<le> j'" "j' \<le> n" "pos' j' = swap_at i ?j pos ?j" "ordered_but lt j' n pos'" "above_children lt j' n pos'"
      using less.hyps [of ?j "swap_at i ?j pos" h1] j(2) by blast
    then show ?thesis using sift_down_unfold [OF less.prems(1-3)] False h1 permuted_trans [OF h1(2)] by auto
  qed
qed

end

subsection \<open>Paths\<close>

text \<open>The position reached from \<open>m\<close> by the \<open>k\<close> lowest bits of the path, lowest bit first.\<close>

fun target :: "nat \<Rightarrow> nat \<Rightarrow> nat \<Rightarrow> nat" where
  "target 0 path m = m"
| "target (Suc k) path m = target k (path div 2) (2 * m + path mod 2)"

definition place_of :: "(nat \<Rightarrow> nat) \<Rightarrow> nat \<Rightarrow> place" where
  "place_of pos i = (if i = 1 then Min else if even i then Left (pos (i div 2)) else Right (pos (i div 2)))"

lemma target_ge: "m \<le> target k path m"
proof (induction k path m rule: target.induct)
  case (2 k path m)
  then show ?case by simp
qed simp

lemma calc_path_target:
  "1 \<le> unat n \<Longrightarrow> unat path < 2 ^ unat k \<Longrightarrow> unat n * 2 ^ unat k < 2 ^ 32 \<Longrightarrow> calc_path path k n = (p, l) \<Longrightarrow>
   target (unat l) (unat p) 1 = target (unat k) (unat path) (unat n)"
proof (induction path k n rule: calc_path.induct)
  case (1 path k n)
  show ?case
  proof (cases "n \<ge> 2")
    case True
    then have n2: "2 \<le> unat n" by (simp add: word_le_nat_alt)
    then have "2 ^ Suc (unat k) \<le> unat n * 2 ^ unat k" by simp
    then have "2 ^ Suc (unat k) < (2 :: nat) ^ 32" using "1.prems"(3) by (rule le_less_trans)
    then have k31: "Suc (unat k) < 32" by (rule power_less_imp_less_exp [rotated]) simp
    then have k: "unat (k + 1) = Suc (unat k)" by (simp add: unat_word_ariths)
    have "(2 :: nat) ^ unat k \<le> 2 ^ 31" by (rule power_increasing) (use k31 in simp_all)
    then have "unat path < 2 ^ 31" using "1.prems"(2) by (rule less_le_trans [rotated])
    moreover have one: "unat (n AND 1) = unat n mod 2" using unat_and_mask [of n 1] by simp
    ultimately have p: "unat (push_bit 1 path OR (n AND 1)) = 2 * unat path + unat n mod 2"
      by (subst unat_shl_or) simp_all
    have nd: "unat (n div 2) = unat n div 2" by (simp add: unat_div)
    have "unat n div 2 * 2 ^ Suc (unat k) \<le> unat n * 2 ^ unat k" by simp
    then have lim: "unat (n div 2) * 2 ^ unat (k + 1) < 2 ^ 32" unfolding k nd using "1.prems"(3) by (rule le_less_trans)
    have path: "unat (push_bit 1 path OR (n AND 1)) < 2 ^ unat (k + 1)" unfolding p k using "1.prems"(2) by simp
    have c: "calc_path (push_bit 1 path OR (n AND 1)) (k + 1) (n div 2) = (p, l)"
      using "1.prems"(4) unfolding calc_path.simps [of path k n] if_P [OF True] .
    have "1 \<le> unat (n div 2)" using n2 by (simp add: nd)
    from "1.IH" [OF True this path lim c]
    have "target (unat l) (unat p) 1 = target (Suc (unat k)) (2 * unat path + unat n mod 2) (unat n div 2)"
      unfolding p k nd .
    then show ?thesis by simp
  next
    case False
    then have "unat n = 1" using "1.prems"(1) by (simp add: word_le_nat_alt)
    then show ?thesis using "1.prems"(4) False by (simp add: calc_path.simps [of path k n])
  qed
qed

lemma read_place_at:
  assumes "heap_at n pos h" and "1 \<le> i" and "i div 2 \<le> n"
  shows "read_place (place_of pos i) h = Some (node_at n pos i)"
proof (cases "i = 1")
  case True
  then show ?thesis using assms(1) by (simp add: place_of_def read_place_def heap_at_def)
next
  case False
  then have "mem h (pos (i div 2)) = Some (links n pos (i div 2))" using heap_atD [OF assms(1), of "i div 2"] assms(2,3) by auto
  then show ?thesis using False by (auto simp: place_of_def read_place_def links_def elim!: evenE oddE)
qed

lemma walk_at:
  "heap_at n pos h \<Longrightarrow> 1 \<le> m \<Longrightarrow> target (unat k) (unat path) m div 2 \<le> n \<Longrightarrow>
   walk k path par (place_of pos m) h =
     Some (if k = 0 then par else place_of pos (target (unat k) (unat path) m div 2), place_of pos (target (unat k) (unat path) m))"
proof (induction "unat k" arbitrary: k path m par)
  case 0
  then have "k = 0" by (simp add: unat_eq_0)
  then show ?case by (subst walk.simps) simp
next
  case (Suc l)
  let ?m = "2 * m + unat path mod 2"
  have k0: "k \<noteq> 0" using Suc.hyps(2) by auto
  have k: "k \<noteq> 0" "k > 0" "unat (k - 1) = l" using k0 Suc.hyps(2) unat_minus_one [OF k0] by (simp_all add: word_gt_0)
  have t: "target (unat k) (unat path) m = target l (unat path div 2) ?m" using Suc.hyps(2) by (metis target.simps(2))
  have p: "unat (drop_bit 1 path) = unat path div 2" by (simp add: unat_shr)
  have "?m \<le> target l (unat path div 2) ?m" by (rule target_ge)
  then have m: "m \<le> n" using Suc.prems(3) t by simp
  have one: "path AND 1 \<noteq> 0 \<longleftrightarrow> odd (unat path)" using and_pow_eq_0 [of path 0] by simp
  have pl: "(if path AND 1 \<noteq> 0 then Right (pos m) else Left (pos m)) = place_of pos ?m"
    unfolding one using Suc.prems(2) by (auto simp: place_of_def even_iff_mod_2_eq_zero odd_iff_mod_2_eq_one)
  have r: "read_place (place_of pos m) h = Some (Some (pos m))" using read_place_at [OF Suc.prems(1,2)] m Suc.prems(2) by (simp add: node_at_def)
  have w: "walk k path par (place_of pos m) h = walk (k - 1) (drop_bit 1 path) (place_of pos m) (place_of pos ?m) h"
    unfolding walk.simps [of k] if_P [OF k(2)] r bind.bind_lunit pl ..
  have l0: "l = 0 \<Longrightarrow> target l (unat path div 2) ?m div 2 = m" by simp
  have k1: "k - 1 = 0 \<longleftrightarrow> l = 0" using k(3) by (metis unat_0 unat_eq_0)
  have "target (unat (k - 1)) (unat (drop_bit 1 path)) ?m div 2 \<le> n" using Suc.prems(3) t unfolding k(3) p by simp
  from Suc.hyps(1) [OF k(3) [symmetric] Suc.prems(1) _ this, of "place_of pos m"]
  show ?case unfolding w t using Suc.prems(2) k1 l0 k(1) unfolding k(3) p by auto
qed

text \<open>The walk of \<open>heap_insert\<close> and \<open>heap_remove\<close> to the position \<open>N\<close>.\<close>

lemma walk_to:
  assumes "heap_at n pos h" and "unat N div 2 \<le> n" and "N \<noteq> 0" and "calc_path 0 0 N = (path, k)"
  shows "walk k path Min Min h = Some (if unat N = 1 then Min else place_of pos (unat N div 2), place_of pos (unat N))"
proof -
  have N: "1 \<le> unat N" using assms(3) by (simp add: Suc_le_eq unat_gt_0)
  have t: "target (unat k) (unat path) 1 = unat N" using calc_path_target [OF N _ _ assms(4)] unat_lt_len [of N] by simp
  have "k = 0 \<longleftrightarrow> unat N = 1"
  proof
    assume "unat N = 1"
    then have "\<not> N \<ge> 2" by (simp add: word_le_nat_alt)
    then show "k = 0" using assms(4) by (simp add: calc_path.simps [of 0 0 N])
  qed (use t in auto)
  then show ?thesis using walk_at [OF assms(1), of 1 k path Min] assms(2) unfolding t by (simp add: place_of_def)
qed

subsection \<open>Insertion\<close>

lemma write_place_tracks:
  assumes "tracks n pos m0 h M" and "1 \<le> i" and "i div 2 \<le> n"
  obtains h' where "write_place (place_of pos i) v h = Some h'" "nelts h' = nelts h" "hmin h' = (if i = 1 then v else hmin h)"
    "tracks n pos m0 h' (if i = 1 then M
       else M(i div 2 := (if even i then (M (i div 2))\<lparr>left := v\<rparr> else (M (i div 2))\<lparr>right := v\<rparr>)))"
proof (cases "i = 1")
  case True
  then show thesis using that [of "h\<lparr>hmin := v\<rparr>"] assms(1) by (simp add: write_place_def place_of_def)
next
  case False
  then have i: "1 \<le> i div 2" using assms(2) by auto
  let ?f = "\<lambda>n. if even i then n\<lparr>left := v\<rparr> else n\<lparr>right := v\<rparr>"
  obtain h' where h': "store (pos (i div 2)) ?f h = Some h'" "tracks n pos m0 h' (M(i div 2 := ?f (M (i div 2))))" "hmin h' = hmin h" "nelts h' = nelts h"
    by (rule store_tracks [OF assms(1) i assms(3)])
  moreover have "write_place (place_of pos i) v h = store (pos (i div 2)) ?f h"
    using False by (cases "even i") (simp_all add: write_place_def place_of_def)
  ultimately show thesis using that False by simp
qed

lemma place_of_cong: "pos (i div 2) = pos' (i div 2) \<Longrightarrow> place_of pos i = place_of pos' i"
  by (simp add: place_of_def)

lemma node_at_insert: "N = n + 1 \<Longrightarrow> node_at N (pos(N := new)) m = (if m = N then Some new else node_at n pos m)"
  by (auto simp: node_at_def)

lemma insert_links:
  assumes "i \<le> n" and "N = n + 1" and "1 \<le> i"
  shows "links N (pos(N := new)) i =
    (if N \<noteq> 1 \<and> i = N div 2 then (if even N then (links n pos i)\<lparr>left := Some new\<rparr> else (links n pos i)\<lparr>right := Some new\<rparr>)
     else links n pos i)"
proof -
  have "2 * i = N \<longleftrightarrow> N \<noteq> 1 \<and> i = N div 2 \<and> even N" "2 * i + 1 = N \<longleftrightarrow> N \<noteq> 1 \<and> i = N div 2 \<and> odd N" "i div 2 \<noteq> N"
    using assms by presburger+
  then show ?thesis unfolding links_def node_at_insert [OF assms(2)] by simp
qed

text \<open>The store with one more node, at position \<open>N\<close>.\<close>

lemma extend_tracks:
  assumes "heap_at n pos h" and N: "N = n + 1" and new: "new \<notin> pos ` {1..n}"
  shows "tracks N (pos(N := new)) (mem h) (h\<lparr>mem := (mem h)(new \<mapsto> x)\<rparr>) ((links n pos)(N := x))"
    "(pos(N := new)) ` {1..N} = insert new (pos ` {1..n})"
proof -
  let ?pos = "pos(N := new)" and ?h = "h\<lparr>mem := (mem h)(new \<mapsto> x)\<rparr>"
  have set: "{1..N} = insert N {1..n}" "N \<notin> {1..n}" "?pos ` {1..n} = pos ` {1..n}" "{1..n} - {N} = {1..n}" using N by auto
  show img: "?pos ` {1..N} = insert new (pos ` {1..n})" unfolding set(1) image_insert set(3) fun_upd_same ..
  have at1: "heap_at n pos ?h" using assms(1) new unfolding heap_at_def by auto
  have "inj_on ?pos {1..n}" using assms(1) inj_on_cong [of "{1..n}" ?pos pos] N by (simp add: heap_at_def)
  then have inj: "inj_on ?pos {1..N}" unfolding set(1) inj_on_insert set(3,4) fun_upd_same using new by blast
  have "mem ?h (?pos i) = Some (((links n pos)(N := x)) i)" if "i \<in> {1..N}" for i
    using that heap_atD [OF at1, of i] N by (cases "i = N") simp_all
  then show "tracks N ?pos (mem h) ?h ((links n pos)(N := x))"
    using inj unfolding tracks_def img by simp
qed

text \<open>Linking the new node below position \<open>N div 2\<close>.\<close>

lemma heap_insert_link:
  assumes "heap_at n pos h" and N: "N = n + 1" "N < 2 ^ 32" and "new \<notin> pos ` {1..n}" and "mem h new \<noteq> None"
  obtains h' where "heap_insert lt new h = sift_up lt new h'" "heap_at N (pos(N := new)) h'"
    "\<And>a. a \<notin> insert new (pos ` {1..n}) \<Longrightarrow> mem h' a = mem h a"
proof -
  let ?pos = "pos(N := new)" and ?nil = "\<lparr>left = None, right = None, parent = None\<rparr>"
  obtain x where x: "mem h new = Some x" using assms(5) by auto
  define h1 where "h1 = h\<lparr>mem := (mem h)(new \<mapsto> ?nil)\<rparr>"
  have s1: "store new (\<lambda>n. n\<lparr>left := None, right := None, parent := None\<rparr>) h = Some h1" by (cases x) (simp add: store_def x h1_def)
  have at1: "heap_at n pos h1" using assms(1,4) unfolding heap_at_def h1_def by auto
  note ext = extend_tracks(1) [OF assms(1) N(1) assms(4), of ?nil, folded h1_def] extend_tracks(2) [OF assms(1) N(1) assms(4)]
  have inj: "inj_on ?pos {1..N}" using ext(1) by (simp add: tracks_def)
  obtain path k where c: "calc_path 0 0 (1 + nelts h1) = (path, k)" by fastforce
  have un: "unat (1 + nelts h1) = N" using at1 N by (simp add: heap_at_def unat_word_ariths)
  then have nz: "1 + nelts h1 \<noteq> 0" using N(1) by (metis add_is_0 unat_0 zero_neq_one)
  have d: "N div 2 \<le> n" "1 \<le> N" "N div 2 \<le> N" "N div 2 \<noteq> N" using N(1) by auto
  have w: "walk k path Min Min h1 = Some (if N = 1 then Min else place_of pos (N div 2), place_of ?pos N)"
    using walk_to [OF at1 _ nz c] d(1) place_of_cong [of pos N ?pos] d(4) unfolding un by simp
  have r: "read_place (if N = 1 then Min else place_of pos (N div 2)) h1 = Some (node_at n pos (N div 2))"
  proof (cases "N = 1")
    case True
    then show ?thesis using at1 N(1) by (simp add: read_place_def heap_at_def node_at_def)
  next
    case False
    then show ?thesis using read_place_at [OF at1, of "N div 2"] d by simp
  qed
  let ?new = "?nil\<lparr>parent := node_at n pos (N div 2)\<rparr>"
  obtain h2 where h2: "store new (\<lambda>x. x\<lparr>parent := node_at n pos (N div 2)\<rparr>) h1 = Some h2"
      "tracks N ?pos (mem h) h2 ((links n pos)(N := ?new))" "hmin h2 = hmin h1" "nelts h2 = nelts h1"
    by (rule store_tracks [OF ext(1) d(2) order_refl, of "\<lambda>x. x\<lparr>parent := node_at n pos (N div 2)\<rparr>"]) simp
  obtain h3 where h3: "write_place (place_of ?pos N) (Some new) h2 = Some h3" "nelts h3 = nelts h2" "hmin h3 = (if N = 1 then Some new else hmin h2)"
    "tracks N ?pos (mem h) h3 (if N = 1 then (links n pos)(N := ?new)
       else ((links n pos)(N := ?new))(N div 2 := (if even N then (((links n pos)(N := ?new)) (N div 2))\<lparr>left := Some new\<rparr>
         else (((links n pos)(N := ?new)) (N div 2))\<lparr>right := Some new\<rparr>)))"
    by (rule write_place_tracks [OF h2(2) d(2,3)])
  have new: "?new = links N ?pos N" using d by (simp add: links_def node_at_insert [OF N(1)] node_at_def N(1))
  define M where "M = (if N = 1 then (links n pos)(N := ?new)
       else ((links n pos)(N := ?new))(N div 2 := (if even N then (((links n pos)(N := ?new)) (N div 2))\<lparr>left := Some new\<rparr>
         else (((links n pos)(N := ?new)) (N div 2))\<lparr>right := Some new\<rparr>)))"
  have M: "M i = links N ?pos i" if "1 \<le> i" "i \<le> N" for i
  proof (cases "i = N")
    case True
    have "M N = ?new" unfolding M_def using d(4) by auto
    then show ?thesis using True new by simp
  next
    case False
    then have "i \<le> n" using that N(1) by simp
    from insert_links [OF this N(1) that(1)] False d(4) show ?thesis by (simp add: M_def)
  qed
  let ?h = "h3\<lparr>nelts := nelts h3 + 1\<rparr>"
  have t: "tracks N ?pos (mem h) ?h M" using h3(4) by (simp add: M_def)
  have "heap_at N ?pos ?h" unfolding heap_at_def
  proof (intro conjI ballI)
    show "N < 2 ^ 32" "inj_on ?pos {1..N}" by (fact N(2), fact inj)
    show "unat (nelts ?h) = N" using un h3(2) h2(4) by (simp add: add.commute)
    have "hmin h1 = node_at n pos 1" using at1 by (simp add: heap_at_def)
    then show "hmin ?h = node_at N ?pos 1" using h3(3) h2(3) N(1) by (simp add: node_at_def)
    show "mem ?h (?pos i) = Some (links N ?pos i)" if "i \<in> {1..N}" for i using tracksD [OF t] M [of i] that by simp
  qed
  moreover have "heap_insert lt new h = sift_up lt new ?h"
    unfolding heap_insert_def s1 bind.bind_lunit c prod.case w r h2(1) h3(1) by simp
  moreover have "mem ?h a = mem h a" if "a \<notin> insert new (pos ` {1..n})" for a
    using t that unfolding tracks_def ext(2) by blast
  ultimately show thesis using that by blast
qed

context heap_order
begin

lemma heap_insert_at:
  assumes "heap_at n pos h" and "n + 1 < 2 ^ 32" and "new \<notin> pos ` {1..n}" and "mem h new \<noteq> None" and "ordered lt n pos"
  shows "\<exists>h' pos'. heap_insert lt new h = Some h' \<and> heap_at (n + 1) pos' h' \<and> ordered lt (n + 1) pos'
    \<and> pos' ` {1..n + 1} = insert new (pos ` {1..n}) \<and> (\<forall>a. a \<notin> insert new (pos ` {1..n}) \<longrightarrow> mem h' a = mem h a)"
proof -
  let ?N = "n + 1" and ?pos = "pos(n + 1 := new)"
  obtain h1 where h1: "heap_insert lt new h = sift_up lt new h1" "heap_at ?N ?pos h1"
      "\<And>a. a \<notin> insert new (pos ` {1..n}) \<Longrightarrow> mem h1 a = mem h a"
    using heap_insert_link [OF assms(1) refl assms(2-4)] by metis
  note img = extend_tracks(2) [OF assms(1) refl assms(3)]
  have "ordered_but lt ?N ?N ?pos" "above_children lt ?N ?N ?pos"
    using assms(5) by (auto simp: ordered_but_def ordered_def above_children_def)
  then obtain h' pos' where u: "sift_up lt (?pos ?N) h1 = Some h'" "permuted ?N ?pos h1 pos' h'" "ordered lt ?N pos'"
    using sift_up_at [OF h1(2)] by fastforce
  note p = u(2) [unfolded permuted_def img]
  have "heap_insert lt new h = Some h'" using h1(1) u(1) by simp
  moreover have "mem h' a = mem h a" if "a \<notin> insert new (pos ` {1..n})" for a using p that h1(3) [OF that] by metis
  ultimately show ?thesis using p u(3) by blast
qed

end

subsection \<open>Removal\<close>

lemma node_at_less: "n = N - 1 \<Longrightarrow> 1 \<le> N \<Longrightarrow> node_at n pos m = (if m = N then None else node_at N pos m)"
  by (auto simp: node_at_def)

text \<open>The links after the last node has been unlinked.\<close>

lemma unlink_links:
  assumes "1 \<le> i" and "i < N" and "n = N - 1"
  shows "links n pos i =
    (if N \<noteq> 1 \<and> i = N div 2 then (if even N then (links N pos i)\<lparr>left := None\<rparr> else (links N pos i)\<lparr>right := None\<rparr>)
     else links N pos i)"
proof -
  have "2 * i = N \<longleftrightarrow> N \<noteq> 1 \<and> i = N div 2 \<and> even N" "2 * i + 1 = N \<longleftrightarrow> N \<noteq> 1 \<and> i = N div 2 \<and> odd N" "i div 2 \<noteq> N"
    using assms by presburger+
  then show ?thesis unfolding links_def using node_at_less [OF assms(3)] assms(1,2) by simp
qed

lemma unlink_last:
  assumes "heap_at N pos h" and N: "1 \<le> N" "n = N - 1"
  obtains path k h1 where "calc_path 0 0 (nelts h) = (path, k)"
    "walk k path Min Min h = Some (if N = 1 then Min else place_of pos (N div 2), place_of pos N)"
    "read_place (place_of pos N) h = Some (Some (pos N))"
    "write_place (place_of pos N) None (h\<lparr>nelts := nelts h - 1\<rparr>) = Some h1" "heap_at n pos h1"
    "\<And>a. a \<notin> pos ` {1..n} \<Longrightarrow> mem h1 a = mem h a"
proof -
  obtain path k where c: "calc_path 0 0 (nelts h) = (path, k)" by fastforce
  have un: "unat (nelts h) = N" "nelts h \<noteq> 0" using assms(1) N(1) by (auto simp: heap_at_def)
  have w: "walk k path Min Min h = Some (if N = 1 then Min else place_of pos (N div 2), place_of pos N)"
    using walk_to [OF assms(1) _ un(2) c] unfolding un(1) by simp
  have r: "read_place (place_of pos N) h = Some (Some (pos N))" using read_place_at [OF assms(1) N(1)] N(1) by (simp add: node_at_def)
  note t0 = heap_at_tracks [THEN iffD1, OF assms(1)]
  obtain h1 where h1: "write_place (place_of pos N) None (h\<lparr>nelts := nelts h - 1\<rparr>) = Some h1" "nelts h1 = nelts h - 1"
      "hmin h1 = (if N = 1 then None else hmin h)"
      "tracks N pos (mem h) h1 (if N = 1 then links N pos
         else (links N pos)(N div 2 := (if even N then (links N pos (N div 2))\<lparr>left := None\<rparr> else (links N pos (N div 2))\<lparr>right := None\<rparr>)))"
    by (rule write_place_tracks [of N pos "mem h" "h\<lparr>nelts := nelts h - 1\<rparr>" "links N pos" N None]) (use t0 N in auto)
  have m: "mem h1 (pos i) = Some (links n pos i)" if "1 \<le> i" "i \<le> n" for i
    using tracksD [OF h1(4), of i] unlink_links [of i N n pos] that N by auto
  have last: "mem h1 (pos N) = Some (links N pos N)"
    using tracksD [OF h1(4) N(1)] N(1) by simp
  have img: "pos ` {1..N} = insert (pos N) (pos ` {1..n})" using N by (metis Suc_pred' atLeastAtMostSuc_conv image_insert less_eq_Suc_le One_nat_def)
  have "heap_at n pos h1" unfolding heap_at_def
  proof (intro conjI ballI)
    show "n < 2 ^ 32" using t0 N(2) by linarith
    show "unat (nelts h1) = n" using un N(2) by (simp add: h1(2) unat_minus_one)
    show "hmin h1 = node_at n pos 1" using h1(3) t0 N node_at_less [OF N(2,1), of pos 1] by simp
    show "inj_on pos {1..n}" using inj_on_subset [of pos "{1..N}" "{1..n}"] t0 N(2) by (auto simp: tracks_def)
    show "mem h1 (pos i) = Some (links n pos i)" if "i \<in> {1..n}" for i using m that by simp
  qed
  moreover have "mem h1 a = mem h a" if "a \<notin> pos ` {1..n}" for a
  proof (cases "a = pos N")
    case True
    then show ?thesis using last heap_atD [OF assms(1) N(1)] by simp
  next
    case False
    then show ?thesis using h1(4) that img by (simp add: tracks_def)
  qed
  ultimately show thesis using that c w r h1(1) by blast
qed

text \<open>The links after the node at position \<open>i\<close> has been replaced by \<open>c\<close>.\<close>

definition replaced :: "nat \<Rightarrow> (nat \<Rightarrow> nat) \<Rightarrow> nat \<Rightarrow> nat \<Rightarrow> nat \<Rightarrow> heap_node" where
  "replaced n pos i c k =
     (if k div 2 = i then (links n pos k)\<lparr>parent := Some c\<rparr>
      else if i \<noteq> 1 \<and> k = i div 2 then child_link i c (links n pos k)
      else links n pos k)"

lemma replaced_links:
  assumes "1 \<le> i" and "i \<le> n" and "1 \<le> k"
  shows "replaced n pos i c k = links n (pos(i := c)) k"
proof -
  have at: "node_at n (pos(i := c)) m = (if m = i then Some c else node_at n pos m)" for m
    using assms(1,2) by (simp add: node_at_def)
  have "2 * k = i \<longleftrightarrow> i \<noteq> 1 \<and> k = i div 2 \<and> even i" "2 * k + 1 = i \<longleftrightarrow> i \<noteq> 1 \<and> k = i div 2 \<and> odd i"
    using assms by presburger+
  moreover have "k div 2 = i \<Longrightarrow> k \<noteq> i div 2" using assms by auto
  ultimately show ?thesis unfolding replaced_def links_def at child_link_def by simp
qed

lemma replace_node:
  assumes "heap_at n pos h" and i: "1 \<le> i" "i \<le> n" and c: "c \<notin> pos ` {1..n}" "mem h c \<noteq> None"
  defines "x \<equiv> links n pos i"
  obtains h1 h2 h3 h4 where "store c (\<lambda>m. m\<lparr>left := left x, right := right x, parent := parent x\<rparr>) h = Some h1"
    "set_parent (left x) c h1 = Some h2" "set_parent (right x) c h2 = Some h3" "mem h3 (pos i) = Some x"
    "relink (parent x) (pos i) c h3 = Some h4" "heap_at n (pos(i := c)) h4"
    "\<And>a. a \<notin> (pos(i := c)) ` {1..n} \<Longrightarrow> mem h4 a = mem h a"
proof -
  let ?pos = "pos(i := c)"
  obtain y where y: "mem h c = Some y" using c(2) by auto
  define h1 where "h1 = h\<lparr>mem := (mem h)(c \<mapsto> x)\<rparr>"
  have s1: "store c (\<lambda>m. m\<lparr>left := left x, right := right x, parent := parent x\<rparr>) h = Some h1"
    by (cases y; cases x) (simp add: store_def y h1_def)
  have inj0: "inj_on pos {1..n}" using assms(1) by (simp add: heap_at_def)
  have inj: "inj_on ?pos {1..n}" using inj_on_fun_updI [OF inj0 c(1)] .
  have "mem h1 (?pos k) = Some (links n pos k)" if "k \<in> {1..n}" for k
    using that heap_atD [OF assms(1), of k] c(1) by (cases "k = i") (auto simp: h1_def x_def)
  moreover have "c \<in> ?pos ` {1..n}" using i by auto
  ultimately have t1: "tracks n ?pos (mem h) h1 (links n pos)"
    using inj by (auto simp: tracks_def h1_def)
  define M2 where "M2 = (if 1 \<le> 2 * i \<and> 2 * i \<le> n then (links n pos)(2 * i := (links n pos (2 * i))\<lparr>parent := Some c\<rparr>) else links n pos)"
  obtain h2 where h2: "set_parent (node_at n ?pos (2 * i)) c h1 = Some h2" "tracks n ?pos (mem h) h2 M2" "hmin h2 = hmin h1" "nelts h2 = nelts h1"
    unfolding M2_def by (rule set_parent_tracks [OF t1])
  define M3 where "M3 = (if 1 \<le> 2 * i + 1 \<and> 2 * i + 1 \<le> n then M2(2 * i + 1 := (M2 (2 * i + 1))\<lparr>parent := Some c\<rparr>) else M2)"
  obtain h3 where h3: "set_parent (node_at n ?pos (2 * i + 1)) c h2 = Some h3" "tracks n ?pos (mem h) h3 M3" "hmin h3 = hmin h2" "nelts h3 = nelts h2"
    unfolding M3_def by (rule set_parent_tracks [OF h2(2)])
  have M3: "M3 k = (if k div 2 = i then (links n pos k)\<lparr>parent := Some c\<rparr> else links n pos k)" if "k \<le> n" for k
    using that i(1) unfolding child_cases by (auto simp: M3_def M2_def)
  have old: "pos i \<notin> ?pos ` {1..n}"
  proof
    assume "pos i \<in> ?pos ` {1..n}"
    then obtain k where k: "k \<in> {1..n}" "pos i = ?pos k" by blast
    then show False using pos_eq_iff [OF inj0 i, of k] c(1) i by (cases "k = i") auto
  qed
  then have m3: "mem h3 (pos i) = Some x" using h3(2) heap_atD [OF assms(1) i] by (simp add: tracks_def x_def)
  have at: "node_at n ?pos m = node_at n pos m" if "m \<noteq> i" for m using that by (simp add: node_at_def)
  have "left (M3 (i div 2)) = Some (pos i) \<longleftrightarrow> even i" if "2 \<le> i"
  proof -
    have "i div 2 div 2 \<noteq> i" "i div 2 \<le> n" using that i(2) by auto
    then show ?thesis using left_link [OF inj0 that i(2)] M3 [of "i div 2"] by simp
  qed
  then obtain h4 where h4: "relink (node_at n ?pos (i div 2)) (pos i) c h3 = Some h4" "nelts h4 = nelts h3"
      "hmin h4 = (if i = 1 then Some c else hmin h3)"
      "tracks n ?pos (mem h) h4 (if i = 1 then M3 else M3(i div 2 := child_link i c (M3 (i div 2))))"
    by (rule relink_tracks [OF h3(2) i])
  have M: "(if i = 1 then M3 else M3(i div 2 := child_link i c (M3 (i div 2)))) k = links n ?pos k" if "1 \<le> k" "k \<le> n" for k
    using replaced_links [OF i that(1), of pos c] M3 [OF that(2)] i by (auto simp: replaced_def)
  have "heap_at n ?pos h4" unfolding heap_at_def
  proof (intro conjI ballI)
    show "n < 2 ^ 32" "unat (nelts h4) = n" using assms(1) h4(2) h3(4) h2(4) by (simp_all add: heap_at_def h1_def)
    show "hmin h4 = node_at n ?pos 1" using assms(1) h4(3) h3(3) h2(3) i by (simp add: heap_at_def h1_def node_at_def)
    show "inj_on ?pos {1..n}" by (rule inj)
    show "mem h4 (?pos k) = Some (links n ?pos k)" if "k \<in> {1..n}" for k using tracksD [OF h4(4), of k] M [of k] that by simp
  qed
  moreover have "left x = node_at n ?pos (2 * i)" "right x = node_at n ?pos (2 * i + 1)" "parent x = node_at n ?pos (i div 2)"
    using i by (simp_all add: x_def links_def at)
  moreover have "mem h4 a = mem h a" if "a \<notin> ?pos ` {1..n}" for a using h4(4) that by (simp add: tracks_def)
  ultimately show thesis using that [OF s1] h2(1) h3(1) m3 h4(1) by simp
qed

lemma heap_at_mem: "heap_at n pos h \<Longrightarrow> a \<in> pos ` {1..n} \<Longrightarrow> mem h a \<noteq> None"
  by (auto simp: heap_at_def)

text \<open>\<open>heap_remove\<close> behind the unlinking of the last node.\<close>

definition replace_by :: "(nat \<Rightarrow> nat \<Rightarrow> bool) \<Rightarrow> nat \<Rightarrow> nat \<Rightarrow> heap \<Rightarrow> heap option" where
  "replace_by lt node c h = do {
     n \<leftarrow> mem h node;
     h \<leftarrow> store c (\<lambda>m. m\<lparr>left := left n, right := right n, parent := parent n\<rparr>) h;
     h \<leftarrow> set_parent (left n) c h;
     h \<leftarrow> set_parent (right n) c h;
     m \<leftarrow> mem h node;
     h \<leftarrow> relink (parent m) node c h;
     h \<leftarrow> sift_down lt c h;
     sift_up lt c h
   }"

lemma heap_remove_unlink:
  assumes at: "heap_at N pos h" and i: "1 \<le> i" "i \<le> N" and n: "n = N - 1"
  obtains h1 where "heap_remove lt (pos i) h = (if N = i then Some h1 else replace_by lt (pos i) (pos N) h1)" "heap_at n pos h1"
    "\<And>a. a \<notin> pos ` {1..n} \<Longrightarrow> mem h1 a = mem h a"
proof -
  have N: "1 \<le> N" and nz: "nelts h \<noteq> 0" using i at by (auto simp: heap_at_def)
  obtain path k h1 where u: "calc_path 0 0 (nelts h) = (path, k)"
    "walk k path Min Min h = Some (if N = 1 then Min else place_of pos (N div 2), place_of pos N)"
    "read_place (place_of pos N) h = Some (Some (pos N))"
    "write_place (place_of pos N) None (h\<lparr>nelts := nelts h - 1\<rparr>) = Some h1" "heap_at n pos h1"
    "\<And>a. a \<notin> pos ` {1..n} \<Longrightarrow> mem h1 a = mem h a"
    using unlink_last [OF at N n] by metis
  have inj: "inj_on pos {1..N}" using at by (simp add: heap_at_def)
  have eq: "pos N = pos j \<longleftrightarrow> N = j" if "1 \<le> j" "j \<le> N" for j using pos_eq_iff [OF inj N order_refl that] .
  have "Some (pos N) \<noteq> hmin h1" using u(5) eq [of 1] n N by (auto simp: heap_at_def node_at_def)
  then have "heap_remove lt (pos i) h = (if N = i then Some h1 else replace_by lt (pos i) (pos N) h1)"
    using nz u(1-4) eq [OF i] by (auto simp: heap_remove_def replace_by_def)
  then show thesis using that u(5,6) by blast
qed

context heap_order
begin

lemma remove_ordered_but:
  assumes "ordered lt N pos" and "1 \<le> i" and "i < N" and "n = N - 1"
  shows "ordered_but lt i n (pos(i := c))"
  unfolding ordered_but_def
proof (intro conjI allI impI)
  fix k assume "2 \<le> k" "k \<le> n" "k \<noteq> i" "k div 2 \<noteq> i"
  then show "\<not> lt ((pos(i := c)) k) ((pos(i := c)) (k div 2))" using assms by (simp add: ordered_def)
next
  fix k assume k: "k \<le> n" "k div 2 = i" "2 \<le> i"
  then have ne: "k \<noteq> i" "i div 2 \<noteq> i" "2 \<le> k" using assms(2) by auto
  have "\<not> lt (pos i) (pos (i div 2))" using assms k by (simp add: ordered_def)
  moreover have "\<not> lt (pos k) (pos i)" using assms(1,4) k ne(3) unfolding ordered_def by (metis diff_le_self le_trans)
  ultimately show "\<not> lt ((pos(i := c)) k) ((pos(i := c)) (i div 2))" using neg_trans ne(1,2) by (metis fun_upd_other)
qed

lemma heap_remove_at:
  assumes at: "heap_at N pos h" and "ordered lt N pos" and i: "1 \<le> i" "i \<le> N" and n: "n = N - 1"
  shows "\<exists>h' pos'. heap_remove lt (pos i) h = Some h' \<and> heap_at n pos' h' \<and> ordered lt n pos'
    \<and> pos' ` {1..n} = pos ` {1..N} - {pos i} \<and> (\<forall>a. mem h' a = None \<longleftrightarrow> mem h a = None)"
proof -
  have N: "1 \<le> N" using i by simp
  have inj: "inj_on pos {1..N}" using at by (simp add: heap_at_def)
  obtain h1 where h1: "heap_remove lt (pos i) h = (if N = i then Some h1 else replace_by lt (pos i) (pos N) h1)" "heap_at n pos h1"
    "\<And>a. a \<notin> pos ` {1..n} \<Longrightarrow> mem h1 a = mem h a"
    using heap_remove_unlink [OF at i n] by metis
  have set: "{1..N} = insert N {1..n}" "N \<notin> {1..n}" using N n by auto
  have eqN: "pos N = pos i \<longleftrightarrow> N = i" using pos_eq_iff [OF inj N order_refl i] .
  have lastn: "pos N \<notin> pos ` {1..n}" using inj unfolding set(1) inj_on_insert using set(2) by simp
  have dom1: "mem h1 a = None \<longleftrightarrow> mem h a = None" for a
    using h1(3) [of a] heap_at_mem [OF h1(2), of a] heap_at_mem [OF at, of a] set(1) by (cases "a \<in> pos ` {1..n}") auto
  show ?thesis
  proof (cases "i = N")
    case True
    moreover have "ordered lt n pos" using assms(2) n by (simp add: ordered_def)
    moreover have "pos ` {1..n} = pos ` {1..N} - {pos N}" using lastn unfolding set(1) by auto
    ultimately show ?thesis using h1(1,2) dom1 by auto
  next
    case False
    then have i': "i \<le> n" "i < N" using i n by auto
    let ?pos = "pos(i := pos N)" and ?x = "links n pos i"
    have cN: "mem h1 (pos N) \<noteq> None" using dom1 heap_atD [OF at N order_refl] by auto
    obtain h2 h3 h4 h5 where s: "store (pos N) (\<lambda>m. m\<lparr>left := left ?x, right := right ?x, parent := parent ?x\<rparr>) h1 = Some h2"
        "set_parent (left ?x) (pos N) h2 = Some h3" "set_parent (right ?x) (pos N) h3 = Some h4" "mem h4 (pos i) = Some ?x"
        "relink (parent ?x) (pos i) (pos N) h4 = Some h5" "heap_at n ?pos h5"
        "\<And>a. a \<notin> ?pos ` {1..n} \<Longrightarrow> mem h5 a = mem h1 a"
      using replace_node [OF h1(2) i(1) i'(1) lastn cN] by metis
    obtain h6 pos6 j where d: "sift_down lt (?pos i) h5 = Some h6" "permuted n ?pos h5 pos6 h6" "1 \<le> j" "j \<le> n" "pos6 j = ?pos i"
        "ordered_but lt j n pos6" "above_children lt j n pos6"
      using sift_down_at [OF s(6) i(1) i'(1) remove_ordered_but [OF assms(2) i(1) i'(2) n]] by blast
    have at6: "heap_at n pos6 h6" using d(2) by (simp add: permuted_def)
    obtain h7 pos7 where e: "sift_up lt (pos6 j) h6 = Some h7" "permuted n pos6 h6 pos7 h7" "ordered lt n pos7"
      using sift_up_at [OF at6 d(3,4,6,7)] by blast
    have p: "permuted n ?pos h5 pos7 h7" using permuted_trans [OF d(2) e(2)] .
    then have at7: "heap_at n pos7 h7" and img7: "pos7 ` {1..n} = ?pos ` {1..n}" by (simp_all add: permuted_def)
    have "heap_remove lt (pos i) h = Some h7"
      using False heap_atD [OF h1(2) i(1) i'(1)] s(1-5) d(1,5) e(1) by (simp add: h1(1) replace_by_def)
    moreover have img: "?pos ` {1..n} = pos ` {1..N} - {pos i}"
    proof -
      have "i \<in> {1..n}" "pos N \<noteq> pos i" using i i' eqN False by auto
      moreover have "pos ` ({1..n} - {i}) = pos ` {1..n} - {pos i}"
        using inj_on_image_set_diff [OF inj, of "{1..n}" "{i}"] set(1) i' i by auto
      ultimately show ?thesis unfolding set(1) fun_upd_image by auto
    qed
    moreover have "mem h7 a = None \<longleftrightarrow> mem h a = None" for a
    proof (cases "a \<in> ?pos ` {1..n}")
      case True
      then have "a \<in> pos7 ` {1..n}" "a \<in> pos ` {1..N}" using img img7 by auto
      then show ?thesis using heap_at_mem [OF at7] heap_at_mem [OF at] by blast
    next
      case False
      then show ?thesis using p s(7) [OF False] dom1 by (simp add: permuted_def)
    qed
    ultimately show ?thesis using at7 img7 e(3) by auto
  qed
qed

end

subsection \<open>The heap as a set\<close>

text \<open>
  \<open>heap_rep lt h S\<close>: the store holds a complete tree whose nodes are \<open>S\<close>, in heap order. This is what a
  user of the heap relies on.
\<close>

definition heap_rep :: "(nat \<Rightarrow> nat \<Rightarrow> bool) \<Rightarrow> heap \<Rightarrow> nat set \<Rightarrow> bool" where
  "heap_rep lt h S \<longleftrightarrow> (\<exists>n pos. heap_at n pos h \<and> ordered lt n pos \<and> S = pos ` {1..n})"

lemma dom_None_eq: "(\<And>a. f a = None \<longleftrightarrow> g a = None) \<Longrightarrow> dom f = dom g"
  by (auto simp: dom_def simp del: not_None_eq)

lemma heap_rep_card: "heap_at n pos h \<Longrightarrow> card (pos ` {1..n}) = n"
  by (simp add: heap_at_def card_image)

lemma heap_rep_finite: "heap_rep lt h S \<Longrightarrow> finite S"
  by (auto simp: heap_rep_def)

lemma heap_rep_nelts: "heap_rep lt h S \<Longrightarrow> unat (nelts h) = card S"
  unfolding heap_rep_def using heap_rep_card by (auto simp: heap_at_def card_image)

lemma heap_rep_mem: "heap_rep lt h S \<Longrightarrow> a \<in> S \<Longrightarrow> mem h a \<noteq> None"
  using heap_at_mem by (auto simp: heap_rep_def)

lemma heap_rep_init: "heap_rep lt (heap_init h) {}"
  unfolding heap_rep_def by (rule exI [of _ 0]) (simp add: heap_at_def heap_init_def node_at_def ordered_def)

lemma heap_rep_empty: "heap_rep lt h S \<Longrightarrow> heap_min h = None \<longleftrightarrow> S = {}"
  by (auto simp: heap_rep_def heap_at_def heap_min_def node_at_def)

lemma heap_rep_cong:
  assumes "heap_rep lt h S" and "\<And>a b. a \<in> S \<Longrightarrow> b \<in> S \<Longrightarrow> lt a b = lt' a b"
  shows "heap_rep lt' h S"
proof -
  obtain n pos where h: "heap_at n pos h" "ordered lt n pos" "S = pos ` {1..n}" using assms(1) by (auto simp: heap_rep_def)
  have "lt (pos k) (pos (k div 2)) = lt' (pos k) (pos (k div 2))" if "2 \<le> k" "k \<le> n" for k
  proof (rule assms(2))
    have "k div 2 \<in> {1..n}" using that by auto
    then show "pos k \<in> S" "pos (k div 2) \<in> S" using that h(3) by auto
  qed
  then have "ordered lt' n pos" using h(2) by (simp add: ordered_def)
  then show ?thesis using h by (auto simp: heap_rep_def)
qed

context heap_order
begin

lemma root_least: "ordered lt n pos \<Longrightarrow> 1 \<le> k \<Longrightarrow> k \<le> n \<Longrightarrow> \<not> lt (pos k) (pos 1)"
proof (induction k rule: less_induct)
  case (less k)
  show ?case
  proof (cases "k = 1")
    case False
    then have k: "k div 2 < k" "1 \<le> k div 2" "k div 2 \<le> n" "2 \<le> k" using less.prems(2,3) by auto
    have "\<not> lt (pos k) (pos (k div 2))" using less.prems(1,3) k(4) by (simp add: ordered_def)
    then show ?thesis using neg_trans [OF less.IH [OF k(1) less.prems(1) k(2,3)]] by blast
  qed (simp add: irrefl)
qed

lemma heap_rep_min:
  assumes "heap_rep lt h S" and "heap_min h = Some a"
  shows "a \<in> S" "b \<in> S \<Longrightarrow> \<not> lt b a"
proof -
  obtain n pos where h: "heap_at n pos h" "ordered lt n pos" "S = pos ` {1..n}" using assms(1) by (auto simp: heap_rep_def)
  then have a: "a = pos 1" "1 \<le> n" using assms(2) by (auto simp: heap_at_def heap_min_def node_at_def split: if_splits)
  then show "a \<in> S" using h(3) by auto
  show "b \<in> S \<Longrightarrow> \<not> lt b a" using root_least [OF h(2)] h(3) a(1) by auto
qed

lemma heap_rep_insert:
  assumes "heap_rep lt h S" and "card S + 1 < 2 ^ 32" and "a \<notin> S" and "mem h a \<noteq> None"
  shows "\<exists>h'. heap_insert lt a h = Some h' \<and> heap_rep lt h' (insert a S) \<and> dom (mem h') = dom (mem h)"
proof -
  obtain n pos where h: "heap_at n pos h" "ordered lt n pos" "S = pos ` {1..n}" using assms(1) by (auto simp: heap_rep_def)
  then have "n + 1 < 2 ^ 32" "a \<notin> pos ` {1..n}" using heap_rep_card [OF h(1)] assms(2,3) by auto
  from heap_insert_at [OF h(1) this assms(4) h(2)] obtain h' pos' where
    i: "heap_insert lt a h = Some h'" "heap_at (n + 1) pos' h'" "ordered lt (n + 1) pos'" "pos' ` {1..n + 1} = insert a S"
      "\<forall>b. b \<notin> insert a S \<longrightarrow> mem h' b = mem h b"
    unfolding h(3) by blast
  then have r: "heap_rep lt h' (insert a S)" unfolding heap_rep_def by metis
  have "mem h' b = None \<longleftrightarrow> mem h b = None" for b
  proof (cases "b \<in> insert a S")
    case True
    then show ?thesis using heap_rep_mem [OF r True] heap_rep_mem [OF assms(1), of b] assms(4) by blast
  next
    case False
    then show ?thesis using i(5) by simp
  qed
  then have "dom (mem h') = dom (mem h)" by (rule dom_None_eq)
  then show ?thesis using i(1) r by blast
qed

lemma heap_rep_remove:
  assumes "heap_rep lt h S" and "a \<in> S"
  shows "\<exists>h'. heap_remove lt a h = Some h' \<and> heap_rep lt h' (S - {a}) \<and> dom (mem h') = dom (mem h)"
proof -
  obtain n pos where h: "heap_at n pos h" "ordered lt n pos" "S = pos ` {1..n}" using assms(1) by (auto simp: heap_rep_def)
  then obtain i where i: "a = pos i" "1 \<le> i" "i \<le> n" using assms(2) by auto
  from heap_remove_at [OF h(1,2) i(2,3) refl] obtain h' pos' where
    r: "heap_remove lt a h = Some h'" "heap_at (n - 1) pos' h'" "ordered lt (n - 1) pos'" "pos' ` {1..n - 1} = S - {a}"
      "\<forall>b. mem h' b = None \<longleftrightarrow> mem h b = None"
    unfolding i(1) h(3) by blast
  then have "heap_rep lt h' (S - {a})" unfolding heap_rep_def by metis
  moreover have "dom (mem h') = dom (mem h)" by (rule dom_None_eq) (use r(5) in blast)
  ultimately show ?thesis using r(1) by blast
qed

end

text \<open>
  C26. The linked heap is a priority queue, whatever total order the comparison function defines. From a
  complete tree in heap order with the nodes \<open>S\<close>, inserting a node that is not in it and removing one that
  is end without following a bad pointer, and give a complete tree in heap order with the nodes
  \<open>insert a S\<close> and \<open>S - {b}\<close>; \<open>heap_min\<close> is a least node. (The count of 32 bits bounds the size.)
\<close>

theorem heap_refines_set:
  assumes "heap_order lt" and "heap_rep lt h S"
  shows "(card S + 1 < 2 ^ 32 \<longrightarrow> a \<notin> S \<longrightarrow> mem h a \<noteq> None \<longrightarrow>
      (\<exists>h'. heap_insert lt a h = Some h' \<and> heap_rep lt h' (insert a S) \<and> dom (mem h') = dom (mem h)))
    \<and> (b \<in> S \<longrightarrow> (\<exists>h'. heap_remove lt b h = Some h' \<and> heap_rep lt h' (S - {b}) \<and> dom (mem h') = dom (mem h)))
    \<and> (case heap_min h of None \<Rightarrow> S = {} | Some m \<Rightarrow> m \<in> S \<and> (\<forall>c \<in> S. \<not> lt c m))"
proof (intro conjI impI)
  show "\<exists>h'. heap_insert lt a h = Some h' \<and> heap_rep lt h' (insert a S) \<and> dom (mem h') = dom (mem h)"
    if "card S + 1 < 2 ^ 32" "a \<notin> S" "mem h a \<noteq> None" using heap_order.heap_rep_insert [OF assms that] .
  show "\<exists>h'. heap_remove lt b h = Some h' \<and> heap_rep lt h' (S - {b}) \<and> dom (mem h') = dom (mem h)"
    if "b \<in> S" using heap_order.heap_rep_remove [OF assms that] .
  show "case heap_min h of None \<Rightarrow> S = {} | Some m \<Rightarrow> m \<in> S \<and> (\<forall>c \<in> S. \<not> lt c m)"
    using heap_order.heap_rep_min [OF assms] heap_rep_empty [OF assms(2)] by (cases "heap_min h") auto
qed

theorem heap_refines_set_witness:
  "\<exists>h1 h2 h3. heap_insert (<) 7 (heap_init \<lparr>hmin = None, nelts = 9, mem = (\<lambda>_. Some \<lparr>left = None, right = None, parent = None\<rparr>)\<rparr>) = Some h1
     \<and> heap_insert (<) 5 h1 = Some h2 \<and> heap_remove (<) 7 h2 = Some h3 \<and> heap_min h3 = Some 5"
proof -
  let ?h = "heap_init \<lparr>hmin = None, nelts = 9, mem = (\<lambda>_. Some \<lparr>left = None, right = None, parent = None\<rparr>)\<rparr>"
  have o: "heap_order ((<) :: nat \<Rightarrow> nat \<Rightarrow> bool)" by unfold_locales auto
  note t = heap_refines_set [OF o]
  have d: "dom (mem ?h) = UNIV" by (auto simp: heap_init_def)
  from d obtain h1 where h1: "heap_insert (<) 7 ?h = Some h1" "heap_rep (<) h1 {7}" "dom (mem h1) = UNIV"
    using t [OF heap_rep_init, of 7 "\<lparr>hmin = None, nelts = 9, mem = (\<lambda>_. Some \<lparr>left = None, right = None, parent = None\<rparr>)\<rparr>"]
    by (auto simp: heap_init_def)
  moreover obtain h2 where h2: "heap_insert (<) 5 h1 = Some h2" "heap_rep (<) h2 {5, 7}"
  proof -
    have "mem h1 5 \<noteq> None" using h1(3) by (auto simp: dom_def)
    then show thesis using that t [OF h1(2), of 5 5] by auto
  qed
  moreover obtain h3 where h3: "heap_remove (<) 7 h2 = Some h3" "heap_rep (<) h3 {5}"
    using t [OF h2(2), of 0 7] by (auto simp: insert_Diff_if)
  moreover have "heap_min h3 = Some 5" using t [OF h3(2), of 0 0] by (auto split: option.splits)
  ultimately show ?thesis by blast
qed

end
