(* ===== verification/Timer.thy ===== *)
theory Timer
  imports Timer_Heap Uv_Errno
begin

section \<open>Timers (Libuv-gRPC/src/timer.c, uv-common.h)\<close>

text \<open>
  A loop with the timers that belong to it. A timer is known by its address, which is also the address
  of the heap node inside the struct (\<open>container_of\<close>). \<open>handles\<close> is the memory of the \<open>uv_timer_t\<close>
  structs. A callback is a value of type \<open>'cb\<close>; what it does is given by the calls of this interface that
  it makes. Operations have no result when they would touch memory that is no timer, run into an
  assertion, or tear a list of handles. The ring \<open>handle_queue\<close> and the chain \<open>closing_handles\<close> are lists of addresses.
\<close>

record 'cb uv_timer =
  timer_cb :: "'cb option"
  timeout :: u64
  repeat :: u64
  start_id :: u64
  flags :: u32
  close_cb :: "'cb option"

record 'cb uv_loop =
  time :: u64
  timer_counter :: u64
  active_handles :: u32
  active_reqs :: u32
  stop_flag :: u32
  idle_handles :: "nat list"
  pending_queue :: "nat list"
  handle_queue :: "nat list"
  closing_handles :: "nat list"
  timer_heap :: heap
  handles :: "nat \<rightharpoonup> 'cb uv_timer"

definition UV_HANDLE_CLOSING :: u32 where "UV_HANDLE_CLOSING = 1"
definition UV_HANDLE_CLOSED :: u32 where "UV_HANDLE_CLOSED = 2"
definition UV_HANDLE_ACTIVE :: u32 where "UV_HANDLE_ACTIVE = 4"
definition UV_HANDLE_REF :: u32 where "UV_HANDLE_REF = 8"

definition INT_MAX :: u64 where "INT_MAX = 0x7fffffff"

definition set_timer :: "nat \<Rightarrow> 'cb uv_timer \<Rightarrow> 'cb uv_loop \<Rightarrow> 'cb uv_loop" where
  "set_timer a t l = l\<lparr>handles := (handles l)(a \<mapsto> t)\<rparr>"

subsection \<open>Handles\<close>

definition uv__is_active :: "'cb uv_timer \<Rightarrow> bool" where
  "uv__is_active t \<longleftrightarrow> flags t AND UV_HANDLE_ACTIVE \<noteq> 0"

definition uv__is_closing :: "'cb uv_timer \<Rightarrow> bool" where
  "uv__is_closing t \<longleftrightarrow> flags t AND (UV_HANDLE_CLOSING OR UV_HANDLE_CLOSED) \<noteq> 0"

definition uv__has_ref :: "'cb uv_timer \<Rightarrow> bool" where
  "uv__has_ref t \<longleftrightarrow> flags t AND UV_HANDLE_REF \<noteq> 0"

definition uv__active_handle_add :: "'cb uv_loop \<Rightarrow> 'cb uv_loop" where
  "uv__active_handle_add l = l\<lparr>active_handles := active_handles l + 1\<rparr>"

definition uv__active_handle_rm :: "'cb uv_loop \<Rightarrow> 'cb uv_loop" where
  "uv__active_handle_rm l = l\<lparr>active_handles := active_handles l - 1\<rparr>"

definition uv__handle_start :: "nat \<Rightarrow> 'cb uv_loop \<Rightarrow> 'cb uv_loop option" where
  "uv__handle_start a l = do {
     t \<leftarrow> handles l a;
     if flags t AND UV_HANDLE_ACTIVE \<noteq> 0 then Some l
     else let t = t\<lparr>flags := flags t OR UV_HANDLE_ACTIVE\<rparr>; l = set_timer a t l
          in Some (if flags t AND UV_HANDLE_REF \<noteq> 0 then uv__active_handle_add l else l)
   }"

definition uv__handle_stop :: "nat \<Rightarrow> 'cb uv_loop \<Rightarrow> 'cb uv_loop option" where
  "uv__handle_stop a l = do {
     t \<leftarrow> handles l a;
     if flags t AND UV_HANDLE_ACTIVE = 0 then Some l
     else let t = t\<lparr>flags := flags t AND NOT UV_HANDLE_ACTIVE\<rparr>; l = set_timer a t l
          in Some (if flags t AND UV_HANDLE_REF \<noteq> 0 then uv__active_handle_rm l else l)
   }"

definition uv__handle_ref :: "nat \<Rightarrow> 'cb uv_loop \<Rightarrow> 'cb uv_loop option" where
  "uv__handle_ref a l = do {
     t \<leftarrow> handles l a;
     if flags t AND UV_HANDLE_REF \<noteq> 0 then Some l
     else let t = t\<lparr>flags := flags t OR UV_HANDLE_REF\<rparr>; l = set_timer a t l
          in Some (if flags t AND UV_HANDLE_CLOSING \<noteq> 0 then l
                   else if flags t AND UV_HANDLE_ACTIVE \<noteq> 0 then uv__active_handle_add l else l)
   }"

definition uv__handle_unref :: "nat \<Rightarrow> 'cb uv_loop \<Rightarrow> 'cb uv_loop option" where
  "uv__handle_unref a l = do {
     t \<leftarrow> handles l a;
     if flags t AND UV_HANDLE_REF = 0 then Some l
     else let t = t\<lparr>flags := flags t AND NOT UV_HANDLE_REF\<rparr>; l = set_timer a t l
          in Some (if flags t AND UV_HANDLE_CLOSING \<noteq> 0 then l
                   else if flags t AND UV_HANDLE_ACTIVE \<noteq> 0 then uv__active_handle_rm l else l)
   }"

text \<open>
  \<open>uv__handle_init\<close> writes the links of the handle: \<open>QUEUE_INSERT_TAIL\<close> (queue.h) its \<open>handle_queue\<close> links, and
  \<open>uv__handle_platform_init\<close> its \<open>next_closing\<close>. On a handle that is in one of these lists already this tears the list
  (the ring of handles skips the nodes after it, the list of closing handles ends early), which the lists of the model
  cannot show: there is no result then. On any other handle the queue gains the handle at its end, and \<open>next_closing\<close> is
  not read before \<open>uv__make_close_pending\<close> writes it.
\<close>

definition uv__handle_init :: "nat \<Rightarrow> 'cb uv_loop \<Rightarrow> 'cb uv_loop option" where
  "uv__handle_init a l = do {
     t \<leftarrow> handles l a;
     if a \<in> set (handle_queue l) \<or> a \<in> set (closing_handles l) then None
     else Some ((set_timer a (t\<lparr>flags := UV_HANDLE_REF\<rparr>) l)\<lparr>handle_queue := handle_queue l @ [a]\<rparr>)
   }"

subsection \<open>Timers\<close>

text \<open>Reading a struct that is not in memory is undefined; the order is completed there by a zero key.\<close>

definition timer_key :: "(nat \<rightharpoonup> 'cb uv_timer) \<Rightarrow> nat \<Rightarrow> u64 \<times> u64" where
  "timer_key hs a = (case hs a of None \<Rightarrow> (0, 0) | Some t \<Rightarrow> (timeout t, start_id t))"

definition timer_less_than :: "(nat \<rightharpoonup> 'cb uv_timer) \<Rightarrow> nat \<Rightarrow> nat \<Rightarrow> bool" where
  "timer_less_than hs a b =
     (case (timer_key hs a, timer_key hs b) of
        ((a_timeout, a_id), (b_timeout, b_id)) \<Rightarrow>
          if a_timeout < b_timeout then True
          else if b_timeout < a_timeout then False
          else a_id < b_id)"

definition uv_timer_init :: "nat \<Rightarrow> 'cb uv_loop \<Rightarrow> (int \<times> 'cb uv_loop) option" where
  "uv_timer_init a l = do {
     l \<leftarrow> uv__handle_init a l;
     t \<leftarrow> handles l a;
     Some (0, set_timer a (t\<lparr>timer_cb := None, repeat := 0\<rparr>) l)
   }"

definition uv_timer_stop :: "nat \<Rightarrow> 'cb uv_loop \<Rightarrow> (int \<times> 'cb uv_loop) option" where
  "uv_timer_stop a l = do {
     t \<leftarrow> handles l a;
     if \<not> uv__is_active t then Some (0, l)
     else do {
       h \<leftarrow> heap_remove (timer_less_than (handles l)) a (timer_heap l);
       l \<leftarrow> uv__handle_stop a (l\<lparr>timer_heap := h\<rparr>);
       Some (0, l)
     }
   }"

definition clamp_timeout :: "u64 \<Rightarrow> u64 \<Rightarrow> u64" where
  "clamp_timeout now to = (let c = now + to in if c < to then - 1 else c)"

definition uv_timer_start :: "nat \<Rightarrow> 'cb option \<Rightarrow> u64 \<Rightarrow> u64 \<Rightarrow> 'cb uv_loop \<Rightarrow> (int \<times> 'cb uv_loop) option" where
  "uv_timer_start a cb to rep l = do {
     t \<leftarrow> handles l a;
     if uv__is_closing t \<or> cb = None then Some (UV_EINVAL, l)
     else do {
       l \<leftarrow> (if uv__is_active t then map_option snd (uv_timer_stop a l) else Some l);
       t \<leftarrow> handles l a;
       let t = t\<lparr>timer_cb := cb, timeout := clamp_timeout (time l) to, repeat := rep, start_id := timer_counter l\<rparr>;
       let l = (set_timer a t l)\<lparr>timer_counter := timer_counter l + 1\<rparr>;
       h \<leftarrow> heap_insert (timer_less_than (handles l)) a (timer_heap l);
       l \<leftarrow> uv__handle_start a (l\<lparr>timer_heap := h\<rparr>);
       Some (0, l)
     }
   }"

definition uv_timer_again :: "nat \<Rightarrow> 'cb uv_loop \<Rightarrow> (int \<times> 'cb uv_loop) option" where
  "uv_timer_again a l = do {
     t \<leftarrow> handles l a;
     if timer_cb t = None then Some (UV_EINVAL, l)
     else if repeat t \<noteq> 0 then do {
       (_, l) \<leftarrow> uv_timer_stop a l;
       t \<leftarrow> handles l a;
       (_, l) \<leftarrow> uv_timer_start a (timer_cb t) (repeat t) (repeat t) l;
       Some (0, l)
     }
     else Some (0, l)
   }"

definition uv_timer_set_repeat :: "nat \<Rightarrow> u64 \<Rightarrow> 'cb uv_loop \<Rightarrow> 'cb uv_loop option" where
  "uv_timer_set_repeat a rep l = map_option (\<lambda>t. set_timer a (t\<lparr>repeat := rep\<rparr>) l) (handles l a)"

definition uv_timer_get_repeat :: "nat \<Rightarrow> 'cb uv_loop \<Rightarrow> u64 option" where
  "uv_timer_get_repeat a l = map_option repeat (handles l a)"

definition uv__next_timeout :: "'cb uv_loop \<Rightarrow> int option" where
  "uv__next_timeout l =
     (case heap_min (timer_heap l) of
        None \<Rightarrow> Some (- 1)
      | Some a \<Rightarrow> do {
          t \<leftarrow> handles l a;
          if timeout t \<le> time l then Some 0
          else let diff = timeout t - time l; diff = (if diff > INT_MAX then INT_MAX else diff)
               in Some (int (unat diff))
        })"

definition uv__timer_close :: "nat \<Rightarrow> 'cb uv_loop \<Rightarrow> 'cb uv_loop option" where
  "uv__timer_close a l = map_option snd (uv_timer_stop a l)"

subsection \<open>Closing (unix/core.c, for timers)\<close>

definition uv__make_close_pending :: "nat \<Rightarrow> 'cb uv_loop \<Rightarrow> 'cb uv_loop option" where
  "uv__make_close_pending a l = do {
     t \<leftarrow> handles l a;
     if flags t AND UV_HANDLE_CLOSING = 0 \<or> flags t AND UV_HANDLE_CLOSED \<noteq> 0 then None
     else Some (l\<lparr>closing_handles := a # closing_handles l\<rparr>)
   }"

definition uv_close :: "nat \<Rightarrow> 'cb option \<Rightarrow> 'cb uv_loop \<Rightarrow> 'cb uv_loop option" where
  "uv_close a cb l = do {
     t \<leftarrow> handles l a;
     if uv__is_closing t then None
     else do {
       l \<leftarrow> uv__timer_close a (set_timer a (t\<lparr>flags := flags t OR UV_HANDLE_CLOSING, close_cb := cb\<rparr>) l);
       uv__make_close_pending a l
     }
   }"

subsection \<open>Running the timers\<close>

datatype 'cb call = Start nat "'cb option" u64 u64 | Stop nat | Again nat | Set_Repeat nat u64 | Close nat "'cb option" | Ref nat | Unref nat

fun run_call :: "'cb call \<Rightarrow> 'cb uv_loop \<Rightarrow> 'cb uv_loop option" where
  "run_call (Start a cb to rep) l = map_option snd (uv_timer_start a cb to rep l)"
| "run_call (Stop a) l = map_option snd (uv_timer_stop a l)"
| "run_call (Again a) l = map_option snd (uv_timer_again a l)"
| "run_call (Set_Repeat a rep) l = uv_timer_set_repeat a rep l"
| "run_call (Close a cb) l = uv_close a cb l"
| "run_call (Ref a) l = uv__handle_ref a l"
| "run_call (Unref a) l = uv__handle_unref a l"

fun run_calls :: "'cb call list \<Rightarrow> 'cb uv_loop \<Rightarrow> 'cb uv_loop option" where
  "run_calls [] l = Some l"
| "run_calls (c # cs) l = Option.bind (run_call c l) (run_calls cs)"

text \<open>
  \<open>body cb a l\<close> are the calls the callback \<open>cb\<close> makes when it is called with the handle \<open>a\<close> in the state \<open>l\<close>.
  The first result is the list of handles whose callbacks were called, in order.
\<close>

partial_function (option) uv__run_timers ::
  "('cb \<Rightarrow> nat \<Rightarrow> 'cb uv_loop \<Rightarrow> 'cb call list) \<Rightarrow> 'cb uv_loop \<Rightarrow> (nat list \<times> 'cb uv_loop) option" where
  "uv__run_timers body l =
     (case heap_min (timer_heap l) of
        None \<Rightarrow> Some ([], l)
      | Some a \<Rightarrow> do {
          t \<leftarrow> handles l a;
          if timeout t > time l then Some ([], l)
          else do {
            (_, l) \<leftarrow> uv_timer_stop a l;
            (_, l) \<leftarrow> uv_timer_again a l;
            t \<leftarrow> handles l a;
            cb \<leftarrow> timer_cb t;
            l \<leftarrow> run_calls (body cb a l) l;
            (called, l) \<leftarrow> uv__run_timers body l;
            Some (a # called, l)
          }
        })"

subsection \<open>Finishing to close (unix/core.c, for timers)\<close>

text \<open>The first result is the list of handles whose close callbacks were called.\<close>

definition uv__finish_close ::
  "('cb \<Rightarrow> nat \<Rightarrow> 'cb uv_loop \<Rightarrow> 'cb call list) \<Rightarrow> nat \<Rightarrow> 'cb uv_loop \<Rightarrow> (nat list \<times> 'cb uv_loop) option" where
  "uv__finish_close body a l = do {
     t \<leftarrow> handles l a;
     if flags t AND UV_HANDLE_CLOSING = 0 \<or> flags t AND UV_HANDLE_CLOSED \<noteq> 0 then None
     else do {
       l \<leftarrow> uv__handle_unref a (set_timer a (t\<lparr>flags := flags t OR UV_HANDLE_CLOSED\<rparr>) l);
       let l = l\<lparr>handle_queue := remove1 a (handle_queue l)\<rparr>;
       (case close_cb t of
          None \<Rightarrow> Some ([], l)
        | Some cb \<Rightarrow> map_option (\<lambda>l. ([a], l)) (run_calls (body cb a l) l))
     }
   }"

primrec finish_closing ::
  "('cb \<Rightarrow> nat \<Rightarrow> 'cb uv_loop \<Rightarrow> 'cb call list) \<Rightarrow> nat list \<Rightarrow> 'cb uv_loop \<Rightarrow> (nat list \<times> 'cb uv_loop) option" where
  "finish_closing body [] l = Some ([], l)"
| "finish_closing body (p # q) l = do {
     (called, l) \<leftarrow> uv__finish_close body p l;
     (more_called, l) \<leftarrow> finish_closing body q l;
     Some (called @ more_called, l)
   }"

definition uv__run_closing_handles ::
  "('cb \<Rightarrow> nat \<Rightarrow> 'cb uv_loop \<Rightarrow> 'cb call list) \<Rightarrow> 'cb uv_loop \<Rightarrow> (nat list \<times> 'cb uv_loop) option" where
  "uv__run_closing_handles body l = finish_closing body (closing_handles l) (l\<lparr>closing_handles := []\<rparr>)"

subsection \<open>Whether and how long the loop waits (unix/core.c)\<close>

definition uv__has_active_handles :: "'cb uv_loop \<Rightarrow> bool" where
  "uv__has_active_handles l \<longleftrightarrow> active_handles l > 0"

definition uv__has_active_reqs :: "'cb uv_loop \<Rightarrow> bool" where
  "uv__has_active_reqs l \<longleftrightarrow> active_reqs l > 0"

definition uv__loop_alive :: "'cb uv_loop \<Rightarrow> bool" where
  "uv__loop_alive l \<longleftrightarrow> uv__has_active_handles l \<or> uv__has_active_reqs l \<or> closing_handles l \<noteq> []"

definition uv_backend_timeout :: "'cb uv_loop \<Rightarrow> int option" where
  "uv_backend_timeout l =
     (if stop_flag l \<noteq> 0 then Some 0
      else if \<not> uv__has_active_handles l \<and> \<not> uv__has_active_reqs l then Some 0
      else if idle_handles l \<noteq> [] then Some 0
      else if pending_queue l \<noteq> [] then Some 0
      else if closing_handles l \<noteq> [] then Some 0
      else uv__next_timeout l)"

subsection \<open>Flags\<close>

lemma flag_bits:
  "uv__is_active t \<longleftrightarrow> bit (flags t) 2" "uv__has_ref t \<longleftrightarrow> bit (flags t) 3"
  "uv__is_closing t \<longleftrightarrow> bit (flags t) 0 \<or> bit (flags t) 1"
  "(x :: u32) AND UV_HANDLE_ACTIVE = 0 \<longleftrightarrow> \<not> bit x 2" "x AND UV_HANDLE_REF = 0 \<longleftrightarrow> \<not> bit x 3"
  "x AND UV_HANDLE_CLOSING = 0 \<longleftrightarrow> \<not> bit x 0" "x AND UV_HANDLE_CLOSED = 0 \<longleftrightarrow> \<not> bit x 1"
proof -
  show 1: "x AND UV_HANDLE_ACTIVE = 0 \<longleftrightarrow> \<not> bit x 2" "x AND UV_HANDLE_REF = 0 \<longleftrightarrow> \<not> bit x 3"
    "x AND UV_HANDLE_CLOSING = 0 \<longleftrightarrow> \<not> bit x 0" "x AND UV_HANDLE_CLOSED = 0 \<longleftrightarrow> \<not> bit x 1" for x :: u32
    using and_exp_eq_0_iff_not_bit [of x 2] and_exp_eq_0_iff_not_bit [of x 3] and_exp_eq_0_iff_not_bit [of x 0] and_exp_eq_0_iff_not_bit [of x 1]
    by (simp_all add: UV_HANDLE_ACTIVE_def UV_HANDLE_REF_def UV_HANDLE_CLOSING_def UV_HANDLE_CLOSED_def)
  show "uv__is_active t \<longleftrightarrow> bit (flags t) 2" "uv__has_ref t \<longleftrightarrow> bit (flags t) 3"
    by (simp_all add: uv__is_active_def uv__has_ref_def 1)
  have "flags t AND (UV_HANDLE_CLOSING OR UV_HANDLE_CLOSED) = 0 \<longleftrightarrow> flags t AND UV_HANDLE_CLOSING = 0 \<and> flags t AND UV_HANDLE_CLOSED = 0"
    by (simp add: bit.conj_disj_distrib or_eq_0_iff)
  then show "uv__is_closing t \<longleftrightarrow> bit (flags t) 0 \<or> bit (flags t) 1" by (simp add: uv__is_closing_def 1)
qed

lemma flag_updates [simp]:
  "bit (x OR UV_HANDLE_ACTIVE) n \<longleftrightarrow> bit x n \<or> n = 2" "bit (x OR UV_HANDLE_REF) n \<longleftrightarrow> bit x n \<or> n = 3"
  "bit (x OR UV_HANDLE_CLOSING) n \<longleftrightarrow> bit x n \<or> n = 0"
  "bit (x AND NOT UV_HANDLE_ACTIVE) n \<longleftrightarrow> bit x n \<and> n \<noteq> 2" "bit (x AND NOT UV_HANDLE_REF) n \<longleftrightarrow> bit x n \<and> n \<noteq> 3"
  "bit UV_HANDLE_REF n \<longleftrightarrow> n = 3"
proof -
  have b: "bit UV_HANDLE_ACTIVE n \<longleftrightarrow> n = 2" "bit UV_HANDLE_REF n \<longleftrightarrow> n = 3" "bit UV_HANDLE_CLOSING n \<longleftrightarrow> n = 0" for n
    using bit_exp_iff [of 2 n, where 'a = "32 word"] bit_exp_iff [of 3 n, where 'a = "32 word"] bit_exp_iff [of 0 n, where 'a = "32 word"]
    by (auto simp: UV_HANDLE_ACTIVE_def UV_HANDLE_REF_def UV_HANDLE_CLOSING_def)
  show "bit UV_HANDLE_REF n \<longleftrightarrow> n = 3" by (fact b(2))
  show "bit (x OR UV_HANDLE_ACTIVE) n \<longleftrightarrow> bit x n \<or> n = 2" "bit (x OR UV_HANDLE_REF) n \<longleftrightarrow> bit x n \<or> n = 3"
    "bit (x OR UV_HANDLE_CLOSING) n \<longleftrightarrow> bit x n \<or> n = 0"
    by (auto simp: bit_or_iff b)
  show "bit (x AND NOT UV_HANDLE_ACTIVE) n \<longleftrightarrow> bit x n \<and> n \<noteq> 2" "bit (x AND NOT UV_HANDLE_REF) n \<longleftrightarrow> bit x n \<and> n \<noteq> 3"
    using bit_imp_le_length [of x n] by (auto simp: bit_and_iff bit_not_iff b)
qed

subsection \<open>The order of timers\<close>

lemma timer_less_than_lex:
  "timer_less_than hs a b \<longleftrightarrow> fst (timer_key hs a) < fst (timer_key hs b)
     \<or> fst (timer_key hs a) = fst (timer_key hs b) \<and> snd (timer_key hs a) < snd (timer_key hs b)"
  by (auto simp: timer_less_than_def split: prod.splits)

interpretation timer_order: heap_order "timer_less_than hs" for hs
  by unfold_locales (auto simp: timer_less_than_lex)

lemma timer_less_than_cong: "timer_key hs a = timer_key hs' a \<Longrightarrow> timer_key hs b = timer_key hs' b \<Longrightarrow> timer_less_than hs a b = timer_less_than hs' a b"
  by (simp add: timer_less_than_lex)

lemma clamp_later:
  assumes "to \<noteq> 0" and "now \<noteq> - 1"
  shows "now < clamp_timeout now to"
proof (cases "now + to < to")
  case True
  have "now < - 1" using assms(2) by (simp add: word_order.not_eq_extremum)
  then show ?thesis using True by (simp add: clamp_timeout_def)
next
  case False
  then have "unat (now + to) = unat now + unat to" using unat_plus_simple [of to now] by (simp add: add.commute not_less)
  moreover have "0 < unat to" using assms(1) by (simp add: unat_gt_0)
  ultimately have "now < now + to" by (simp add: word_less_nat_alt)
  then show ?thesis using False by (simp add: clamp_timeout_def)
qed

subsection \<open>The invariant\<close>

text \<open>
  \<open>heap_ok\<close>: the heap holds exactly the active timers, in their order, and every struct has its heap node.
  \<open>count_ok\<close>: \<open>active_handles\<close> counts the timers that keep the loop alive. \<open>timers_ok\<close> adds that an active
  timer has a callback and is not being closed.
\<close>

definition active_set :: "'cb uv_loop \<Rightarrow> nat set" where
  "active_set l = {a. \<exists>t. handles l a = Some t \<and> uv__is_active t}"

definition alive_set :: "'cb uv_loop \<Rightarrow> nat set" where
  "alive_set l = {a. \<exists>t. handles l a = Some t \<and> uv__is_active t \<and> uv__has_ref t}"

definition heap_ok :: "'cb uv_loop \<Rightarrow> bool" where
  "heap_ok l \<longleftrightarrow> heap_rep (timer_less_than (handles l)) (timer_heap l) (active_set l)
     \<and> finite (dom (handles l)) \<and> card (dom (handles l)) < 2 ^ 32 \<and> dom (handles l) \<subseteq> dom (mem (timer_heap l))"

definition count_ok :: "'cb uv_loop \<Rightarrow> bool" where
  "count_ok l \<longleftrightarrow> active_handles l = of_nat (card (alive_set l))"

definition timers_ok :: "'cb uv_loop \<Rightarrow> bool" where
  "timers_ok l \<longleftrightarrow> heap_ok l \<and> count_ok l
     \<and> (\<forall>a t. handles l a = Some t \<longrightarrow> uv__is_active t \<longrightarrow> timer_cb t \<noteq> None \<and> \<not> uv__is_closing t)"

text \<open>One struct changes, and nothing else but the heap and the count of active handles.\<close>

definition touches :: "nat \<Rightarrow> 'cb uv_timer \<Rightarrow> 'cb uv_loop \<Rightarrow> 'cb uv_loop \<Rightarrow> bool" where
  "touches a t l l' \<longleftrightarrow> handles l' = (handles l)(a \<mapsto> t) \<and> time l' = time l"

lemma active_set_upd: "handles l' = (handles l)(a \<mapsto> t) \<Longrightarrow>
    active_set l' = (if uv__is_active t then insert a (active_set l) else active_set l - {a})"
  by (auto simp: active_set_def)

lemma alive_set_upd: "handles l' = (handles l)(a \<mapsto> t) \<Longrightarrow>
    alive_set l' = (if uv__is_active t \<and> uv__has_ref t then insert a (alive_set l) else alive_set l - {a})"
  by (auto simp: alive_set_def)

lemma alive_finite: "heap_ok l \<Longrightarrow> finite (alive_set l)"
  by (rule finite_subset [of _ "dom (handles l)"]) (auto simp: alive_set_def heap_ok_def)

lemma active_dom: "active_set l \<subseteq> dom (handles l)"
  by (auto simp: active_set_def)

lemma key_upd: "timer_key (hs(a \<mapsto> t)) b = (if b = a then (timeout t, start_id t) else timer_key hs b)"
  by (simp add: timer_key_def)

lemma heap_rep_upd:
  assumes "heap_rep (timer_less_than hs) h S" and "a \<notin> S \<or> timer_key hs a = (timeout t, start_id t)"
  shows "heap_rep (timer_less_than (hs(a \<mapsto> t))) h S"
  by (rule heap_rep_cong [OF assms(1)], rule timer_less_than_cong) (use assms(2) in \<open>auto simp: key_upd\<close>)

text \<open>A change of the struct at \<open>a\<close> that keeps \<open>active\<close> and the key; the count follows the flags.\<close>

lemma count_upd:
  assumes "heap_ok l" and "count_ok l" and "handles l a = Some t0" and "handles l' = (handles l)(a \<mapsto> t)"
    and "active_handles l' = active_handles l
      + (if uv__is_active t \<and> uv__has_ref t then 1 else 0) - (if uv__is_active t0 \<and> uv__has_ref t0 then 1 else 0)"
  shows "count_ok l'"
proof -
  let ?A = "alive_set l"
  have a: "a \<in> ?A \<longleftrightarrow> uv__is_active t0 \<and> uv__has_ref t0" using assms(3) by (auto simp: alive_set_def)
  have f: "finite ?A" by (rule alive_finite [OF assms(1)])
  have "(of_nat (card (insert a ?A)) :: u32) = of_nat (card ?A) + (if a \<in> ?A then 0 else 1)"
    using f by (simp add: insert_absorb)
  moreover have "(of_nat (card (?A - {a})) :: u32) = of_nat (card ?A) - (if a \<in> ?A then 1 else 0)"
  proof (cases "a \<in> ?A")
    case True
    then have "card ?A = Suc (card (?A - {a}))" using f by (metis card_Suc_Diff1)
    then show ?thesis using True by simp
  qed (simp add: f)
  ultimately show ?thesis
    using assms(2,5) a unfolding count_ok_def alive_set_upd [OF assms(4)] by auto
qed


lemma heap_ok_upd:
  assumes "heap_ok l" and "handles l a = Some t0" and "handles l' = (handles l)(a \<mapsto> t)"
    and "heap_rep (timer_less_than (handles l')) (timer_heap l') (active_set l')" "dom (mem (timer_heap l')) = dom (mem (timer_heap l))"
  shows "heap_ok l'"
proof -
  have "dom (handles l') = dom (handles l)" using assms(2,3) by auto
  then show ?thesis using assms(1,4,5) by (simp add: heap_ok_def)
qed

lemma no_flag: "\<not> uv__is_active t \<Longrightarrow> t\<lparr>flags := flags t AND NOT UV_HANDLE_ACTIVE\<rparr> = t"
proof -
  assume "\<not> uv__is_active t"
  then have "flags t AND NOT UV_HANDLE_ACTIVE = flags t" by (intro bit_word_eqI) (auto simp: flag_bits)
  then show ?thesis by simp
qed

lemma uv_timer_stop_run:
  assumes "heap_ok l" and "count_ok l" and t: "handles l a = Some t"
  obtains l' where "uv_timer_stop a l = Some (0, l')" "heap_ok l'" "count_ok l'"
    "touches a (t\<lparr>flags := flags t AND NOT UV_HANDLE_ACTIVE\<rparr>) l l'" "timer_counter l' = timer_counter l" "closing_handles l' = closing_handles l"
proof (cases "uv__is_active t")
  case False
  have "(handles l)(a \<mapsto> t) = handles l" using t by (simp add: fun_upd_idem)
  then show thesis using that [of l] False assms no_flag [OF False] by (simp add: uv_timer_stop_def touches_def)
next
  case True
  let ?t = "t\<lparr>flags := flags t AND NOT UV_HANDLE_ACTIVE\<rparr>"
  have a: "a \<in> active_set l" using t True by (auto simp: active_set_def)
  obtain h where h: "heap_remove (timer_less_than (handles l)) a (timer_heap l) = Some h"
      "heap_rep (timer_less_than (handles l)) h (active_set l - {a})" "dom (mem h) = dom (mem (timer_heap l))"
    using timer_order.heap_rep_remove [of "handles l" "timer_heap l" "active_set l" a] assms(1) a by (auto simp: heap_ok_def)
  define l' where "l' = (set_timer a ?t (l\<lparr>timer_heap := h\<rparr>))\<lparr>active_handles := (if uv__has_ref t then active_handles l - 1 else active_handles l)\<rparr>"
  have hs: "handles l' = (handles l)(a \<mapsto> ?t)" and th: "timer_heap l' = h" by (simp_all add: l'_def set_timer_def)
  have "uv__handle_stop a (l\<lparr>timer_heap := h\<rparr>) = Some l'"
    using t True by (simp add: uv__handle_stop_def l'_def flag_bits Let_def uv__active_handle_rm_def set_timer_def)
  then have "uv_timer_stop a l = Some (0, l')" using t True h(1) by (simp add: uv_timer_stop_def)
  moreover have "heap_ok l'"
  proof (rule heap_ok_upd [OF assms(1) t hs])
    have "active_set l' = active_set l - {a}" unfolding active_set_upd [OF hs] by (simp add: flag_bits)
    then show "heap_rep (timer_less_than (handles l')) (timer_heap l') (active_set l')"
      unfolding hs th using heap_rep_upd [OF h(2), of a ?t] by simp
  qed (simp add: th h(3))
  moreover have "count_ok l'"
    by (rule count_upd [OF assms hs]) (use True in \<open>simp add: l'_def flag_bits set_timer_def\<close>)
  ultimately show thesis using that hs by (simp add: touches_def l'_def set_timer_def)
qed

text \<open>The second half of \<open>uv_timer_start\<close>, on a timer that is not in the heap.\<close>

lemma start_run:
  assumes "heap_ok l" and "count_ok l" and t: "handles l a = Some t" and n: "\<not> uv__is_active t"
    and tt: "tt = t\<lparr>timer_cb := cb, timeout := to, repeat := rep, start_id := i\<rparr>"
    and k: "k = (set_timer a tt l)\<lparr>timer_counter := c\<rparr>"
  obtains h l' where "heap_insert (timer_less_than (handles k)) a (timer_heap k) = Some h"
    "uv__handle_start a (k\<lparr>timer_heap := h\<rparr>) = Some l'" "heap_ok l'" "count_ok l'"
    "touches a (tt\<lparr>flags := flags t OR UV_HANDLE_ACTIVE\<rparr>) l l'" "timer_counter l' = c" "closing_handles l' = closing_handles l"
proof -
  let ?t = "tt\<lparr>flags := flags t OR UV_HANDLE_ACTIVE\<rparr>"
  have a: "a \<notin> active_set l" using t n by (auto simp: active_set_def)
  have kh: "handles k = (handles l)(a \<mapsto> tt)" "timer_heap k = timer_heap l" by (simp_all add: k set_timer_def)
  have fin: "finite (dom (handles l))" "card (dom (handles l)) < 2 ^ 32" using assms(1) by (simp_all add: heap_ok_def)
  have "insert a (active_set l) \<subseteq> dom (handles l)" using active_dom [of l] t by auto
  then have "card (insert a (active_set l)) \<le> card (dom (handles l))" by (rule card_mono [OF fin(1)])
  moreover have "finite (active_set l)" by (rule finite_subset [OF active_dom fin(1)])
  ultimately have c: "card (active_set l) + 1 < 2 ^ 32" using a fin(2) by simp
  have m: "mem (timer_heap k) a \<noteq> None" using assms(1) t by (auto simp: heap_ok_def kh)
  have "heap_rep (timer_less_than (handles k)) (timer_heap k) (active_set l)"
    unfolding kh by (rule heap_rep_upd) (use assms(1) a in \<open>auto simp: heap_ok_def\<close>)
  then obtain h where h: "heap_insert (timer_less_than (handles k)) a (timer_heap k) = Some h"
      "heap_rep (timer_less_than (handles k)) h (insert a (active_set l))" "dom (mem h) = dom (mem (timer_heap k))"
    using timer_order.heap_rep_insert [OF _ c a m, of "handles k"] by auto
  define l' where "l' = (set_timer a ?t (k\<lparr>timer_heap := h\<rparr>))\<lparr>active_handles := (if uv__has_ref t then active_handles l + 1 else active_handles l)\<rparr>"
  have hs: "handles l' = (handles l)(a \<mapsto> ?t)" and th: "timer_heap l' = h" by (simp_all add: l'_def set_timer_def kh)
  have "uv__handle_start a (k\<lparr>timer_heap := h\<rparr>) = Some l'"
    using t n by (simp add: uv__handle_start_def l'_def flag_bits Let_def uv__active_handle_add_def k tt set_timer_def)
  moreover have "heap_ok l'"
  proof (rule heap_ok_upd [OF assms(1) t hs])
    have "active_set l' = insert a (active_set l)" unfolding active_set_upd [OF hs] by (simp add: flag_bits)
    moreover have "handles l' = (handles k)(a \<mapsto> ?t)" by (simp add: hs kh)
    ultimately show "heap_rep (timer_less_than (handles l')) (timer_heap l') (active_set l')"
      unfolding th using heap_rep_upd [OF h(2), of a ?t] by (simp add: key_upd kh)
  qed (simp add: th h(3) kh)
  moreover have "count_ok l'"
    by (rule count_upd [OF assms(1,2) t hs]) (use n in \<open>simp add: l'_def flag_bits set_timer_def tt\<close>)
  ultimately show thesis using that [OF h(1)] hs by (simp add: touches_def l'_def set_timer_def k)
qed

lemma timers_ok_upd:
  assumes "timers_ok l" and "heap_ok l'" and "count_ok l'" and "touches a t' l l'"
    and "uv__is_active t' \<Longrightarrow> timer_cb t' \<noteq> None \<and> \<not> uv__is_closing t'"
  shows "timers_ok l'"
  using assms by (auto simp: timers_ok_def touches_def split: if_splits)

lemma touches_trans: "touches a t l l1 \<Longrightarrow> touches a t' l1 l' \<Longrightarrow> touches a t' l l'"
  by (simp add: touches_def)

lemma touches_self: "handles l a = Some t \<Longrightarrow> touches a t l l"
  by (simp add: touches_def fun_upd_idem)

lemma heap_ok_key:
  assumes "heap_ok l" and "handles l a = Some t0" and "handles l' = (handles l)(a \<mapsto> t)" and "timer_heap l' = timer_heap l"
    and "uv__is_active t = uv__is_active t0" and "timeout t = timeout t0" and "start_id t = start_id t0"
  shows "heap_ok l'"
proof (rule heap_ok_upd [OF assms(1-3)])
  have "active_set l' = active_set l" unfolding active_set_upd [OF assms(3)] using assms(2,5) by (auto simp: active_set_def)
  moreover have "heap_rep (timer_less_than ((handles l)(a \<mapsto> t))) (timer_heap l) (active_set l)"
    by (rule heap_rep_upd) (use assms in \<open>auto simp: heap_ok_def timer_key_def\<close>)
  ultimately show "heap_rep (timer_less_than (handles l')) (timer_heap l') (active_set l')" using assms(3,4) by simp
qed (simp add: assms(4))

lemma set_active: "(x AND NOT UV_HANDLE_ACTIVE) OR UV_HANDLE_ACTIVE = x OR UV_HANDLE_ACTIVE"
  by (intro bit_word_eqI) auto

lemma uv_timer_stop_ok:
  assumes "timers_ok l" and t: "handles l a = Some t"
  obtains l' where "uv_timer_stop a l = Some (0, l')" "timers_ok l'"
    "touches a (t\<lparr>flags := flags t AND NOT UV_HANDLE_ACTIVE\<rparr>) l l'" "timer_counter l' = timer_counter l"
proof -
  have ok: "heap_ok l" "count_ok l" using assms(1) by (simp_all add: timers_ok_def)
  obtain l' where l': "uv_timer_stop a l = Some (0, l')" "heap_ok l'" "count_ok l'"
      "touches a (t\<lparr>flags := flags t AND NOT UV_HANDLE_ACTIVE\<rparr>) l l'" "timer_counter l' = timer_counter l"
    using uv_timer_stop_run [OF ok t] by metis
  moreover have "timers_ok l'" by (rule timers_ok_upd [OF assms(1) l'(2-4)]) (simp add: flag_bits)
  ultimately show thesis using that by blast
qed

lemma uv_timer_start_ok:
  assumes "timers_ok l" and t: "handles l a = Some t" and "\<not> uv__is_closing t" and "cb \<noteq> None"
  obtains l' where "uv_timer_start a cb to rep l = Some (0, l')" "timers_ok l'"
    "touches a (t\<lparr>timer_cb := cb, timeout := clamp_timeout (time l) to, repeat := rep, start_id := timer_counter l,
      flags := flags t OR UV_HANDLE_ACTIVE\<rparr>) l l'" "timer_counter l' = timer_counter l + 1"
proof -
  let ?u = "t\<lparr>flags := flags t AND NOT UV_HANDLE_ACTIVE\<rparr>"
  obtain k where k: "uv_timer_stop a l = Some (0, k)" "timers_ok k" "touches a ?u l k" "timer_counter k = timer_counter l"
    using uv_timer_stop_ok [OF assms(1,2)] by blast
  have s: "(if uv__is_active t then map_option snd (uv_timer_stop a l) else Some l) = Some k"
    using k(1) t by (auto simp: uv_timer_stop_def)
  have ok: "heap_ok k" "count_ok k" using k(2) by (simp_all add: timers_ok_def)
  have u: "handles k a = Some ?u" and tm: "time k = time l" using k(3) by (simp_all add: touches_def)
  have n: "\<not> uv__is_active ?u" by (simp add: flag_bits)
  obtain h l' where l': "heap_insert (timer_less_than (handles (set_timer a (?u\<lparr>timer_cb := cb, timeout := clamp_timeout (time l) to, repeat := rep, start_id := timer_counter l\<rparr>) k))) a (timer_heap k) = Some h"
      "uv__handle_start a ((set_timer a (?u\<lparr>timer_cb := cb, timeout := clamp_timeout (time l) to, repeat := rep, start_id := timer_counter l\<rparr>) k)\<lparr>timer_counter := timer_counter l + 1, timer_heap := h\<rparr>) = Some l'"
      "heap_ok l'" "count_ok l'"
      "touches a (?u\<lparr>timer_cb := cb, timeout := clamp_timeout (time l) to, repeat := rep, start_id := timer_counter l, flags := flags t OR UV_HANDLE_ACTIVE\<rparr>) k l'"
      "timer_counter l' = timer_counter l + 1"
    by (rule start_run [OF ok u n refl refl, where cb = cb and to = "clamp_timeout (time l) to" and rep = rep and i = "timer_counter l" and c = "timer_counter l + 1"])
      (auto simp: set_active set_timer_def)
  have tc: "touches a (t\<lparr>timer_cb := cb, timeout := clamp_timeout (time l) to, repeat := rep, start_id := timer_counter l, flags := flags t OR UV_HANDLE_ACTIVE\<rparr>) l l'"
    using touches_trans [OF k(3) l'(5)] by simp
  have "uv_timer_start a cb to rep l = Some (0, l')"
    using assms(3,4) t s u tm k(4) l'(1,2) by (auto simp: uv_timer_start_def Let_def set_timer_def)
  moreover have "timers_ok l'" by (rule timers_ok_upd [OF assms(1) l'(3,4) tc]) (use assms(3,4) in \<open>simp add: flag_bits\<close>)
  ultimately show thesis using that tc l'(6) by blast
qed

lemma uv_timer_again_ok:
  assumes "timers_ok l" and t: "handles l a = Some t"
  obtains r l' t' where "uv_timer_again a l = Some (r, l')" "timers_ok l'" "touches a t' l l'"
    "t' = (if timer_cb t \<noteq> None \<and> repeat t \<noteq> 0 \<and> \<not> uv__is_closing t
           then t\<lparr>timeout := clamp_timeout (time l) (repeat t), start_id := timer_counter l, flags := flags t OR UV_HANDLE_ACTIVE\<rparr> else t)"
proof (cases "timer_cb t \<noteq> None \<and> repeat t \<noteq> 0")
  case False
  then have "\<exists>r. uv_timer_again a l = Some (r, l)" using t by (auto simp: uv_timer_again_def)
  then show thesis using that [OF _ assms(1) touches_self [OF t]] False by auto
next
  case True
  let ?u = "t\<lparr>flags := flags t AND NOT UV_HANDLE_ACTIVE\<rparr>"
  obtain k where k: "uv_timer_stop a l = Some (0, k)" "timers_ok k" "touches a ?u l k" "timer_counter k = timer_counter l"
    using uv_timer_stop_ok [OF assms] by blast
  have u: "handles k a = Some ?u" and tm: "time k = time l" using k(3) by (simp_all add: touches_def)
  show thesis
  proof (cases "uv__is_closing t")
    case c: True
    then have "uv__is_closing ?u" by (simp add: flag_bits)
    then have "uv_timer_start a (timer_cb t) (repeat t) (repeat t) k = Some (UV_EINVAL, k)"
      using u by (simp add: uv_timer_start_def)
    moreover have "uv_timer_again a l = do { (_, m) \<leftarrow> uv_timer_start a (timer_cb t) (repeat t) (repeat t) k; Some (0, m) }"
      using True t k(1) u by (auto simp: uv_timer_again_def)
    ultimately have "uv_timer_again a l = Some (0, k)" by simp
    moreover have "?u = t" using assms t c by (intro no_flag) (auto simp: timers_ok_def)
    ultimately show thesis using that [of 0 k t] k(2,3) c by auto
  next
    case c: False
    then have c': "\<not> uv__is_closing ?u" by (simp add: flag_bits)
    from True have "timer_cb t \<noteq> None" by simp
    from uv_timer_start_ok [OF k(2) u c' this, of "repeat t" "repeat t"]
    obtain l' where l': "uv_timer_start a (timer_cb t) (repeat t) (repeat t) k = Some (0, l')" "timers_ok l'"
      "touches a (t\<lparr>timeout := clamp_timeout (time l) (repeat t), start_id := timer_counter l, flags := flags t OR UV_HANDLE_ACTIVE\<rparr>) k l'"
      by (auto simp: tm k(4) set_active)
    have "uv_timer_again a l = do { (_, m) \<leftarrow> uv_timer_start a (timer_cb t) (repeat t) (repeat t) k; Some (0, m) }"
      using True t k(1) u by (auto simp: uv_timer_again_def)
    then have "uv_timer_again a l = Some (0, l')" by (simp add: l'(1))
    then show thesis using that l'(2) touches_trans [OF k(3) l'(3)] True c by auto
  qed
qed

text \<open>An operation that leaves the timer's key and whether it is active.\<close>

lemma keep_key_ok:
  assumes "timers_ok l" and t: "handles l a = Some t" and "touches a t' l l'" and "timer_heap l' = timer_heap l"
    and "uv__is_active t' = uv__is_active t" and "timeout t' = timeout t" and "start_id t' = start_id t"
    and "timer_cb t' = timer_cb t" and "uv__is_closing t' = uv__is_closing t"
    and "active_handles l' = active_handles l
      + (if uv__is_active t' \<and> uv__has_ref t' then 1 else 0) - (if uv__is_active t \<and> uv__has_ref t then 1 else 0)"
  shows "timers_ok l'"
proof -
  have hs: "handles l' = (handles l)(a \<mapsto> t')" using assms(3) by (simp add: touches_def)
  have ok: "heap_ok l" "count_ok l" using assms(1) by (simp_all add: timers_ok_def)
  show ?thesis
  proof (rule timers_ok_upd [OF assms(1) _ _ assms(3)])
    show "heap_ok l'" by (rule heap_ok_key [OF ok(1) t hs assms(4-7)])
    show "count_ok l'" by (rule count_upd [OF ok t hs assms(10)])
  qed (use assms(1,5,8,9) t in \<open>auto simp: timers_ok_def\<close>)
qed

lemma uv__handle_ref_ok:
  assumes "timers_ok l" and t: "handles l a = Some t"
  obtains l' where "uv__handle_ref a l = Some l'" "timers_ok l'" "touches a (t\<lparr>flags := flags t OR UV_HANDLE_REF\<rparr>) l l'"
proof (cases "uv__has_ref t")
  case True
  then have "flags t OR UV_HANDLE_REF = flags t" by (intro bit_word_eqI) (auto simp: flag_bits)
  then have "t\<lparr>flags := flags t OR UV_HANDLE_REF\<rparr> = t" by simp
  then show thesis using that [of l] True t assms(1) touches_self [OF t] by (simp add: uv__handle_ref_def flag_bits)
next
  case False
  let ?t = "t\<lparr>flags := flags t OR UV_HANDLE_REF\<rparr>"
  define l' where "l' = (set_timer a ?t l)\<lparr>active_handles := active_handles l + (if uv__is_active t then 1 else 0)\<rparr>"
  have nc: "uv__is_active t \<Longrightarrow> \<not> uv__is_closing t" using assms by (auto simp: timers_ok_def)
  have tc: "touches a ?t l l'" by (simp add: l'_def touches_def set_timer_def)
  have "uv__handle_ref a l = Some l'"
    using False t nc by (auto simp: uv__handle_ref_def flag_bits Let_def l'_def uv__active_handle_add_def set_timer_def)
  moreover have "timers_ok l'"
    by (rule keep_key_ok [OF assms tc]) (use False in \<open>auto simp: flag_bits l'_def set_timer_def\<close>)
  ultimately show thesis using that tc by blast
qed

lemma uv__handle_unref_ok:
  assumes "timers_ok l" and t: "handles l a = Some t"
  obtains l' where "uv__handle_unref a l = Some l'" "timers_ok l'" "touches a (t\<lparr>flags := flags t AND NOT UV_HANDLE_REF\<rparr>) l l'"
proof (cases "uv__has_ref t")
  case False
  then have "flags t AND NOT UV_HANDLE_REF = flags t" by (intro bit_word_eqI) (auto simp: flag_bits)
  then have "t\<lparr>flags := flags t AND NOT UV_HANDLE_REF\<rparr> = t" by simp
  then show thesis using that [of l] False t assms(1) touches_self [OF t] by (simp add: uv__handle_unref_def flag_bits)
next
  case True
  let ?t = "t\<lparr>flags := flags t AND NOT UV_HANDLE_REF\<rparr>"
  define l' where "l' = (set_timer a ?t l)\<lparr>active_handles := active_handles l - (if uv__is_active t then 1 else 0)\<rparr>"
  have nc: "uv__is_active t \<Longrightarrow> \<not> uv__is_closing t" using assms by (auto simp: timers_ok_def)
  have tc: "touches a ?t l l'" by (simp add: l'_def touches_def set_timer_def)
  have "uv__handle_unref a l = Some l'"
    using True t nc by (auto simp: uv__handle_unref_def flag_bits Let_def l'_def uv__active_handle_rm_def set_timer_def)
  moreover have "timers_ok l'"
    by (rule keep_key_ok [OF assms tc]) (use True in \<open>auto simp: flag_bits l'_def set_timer_def\<close>)
  ultimately show thesis using that tc by blast
qed

lemma uv_close_ok:
  assumes "timers_ok l" and t: "handles l a = Some t" and nc: "\<not> uv__is_closing t"
  obtains l' t' where "uv_close a cb l = Some l'" "timers_ok l'" "touches a t' l l'"
    "t' = t\<lparr>flags := (flags t OR UV_HANDLE_CLOSING) AND NOT UV_HANDLE_ACTIVE, close_cb := cb\<rparr>" "closing_handles l' = a # closing_handles l"
proof -
  let ?u = "t\<lparr>flags := flags t OR UV_HANDLE_CLOSING, close_cb := cb\<rparr>"
  let ?t = "?u\<lparr>flags := flags ?u AND NOT UV_HANDLE_ACTIVE\<rparr>"
  let ?k = "set_timer a ?u l"
  have ok: "heap_ok l" "count_ok l" using assms(1) by (simp_all add: timers_ok_def)
  have hs: "handles ?k = (handles l)(a \<mapsto> ?u)" by (simp add: set_timer_def)
  have ok': "heap_ok ?k" by (rule heap_ok_key [OF ok(1) t hs]) (simp_all add: set_timer_def flag_bits)
  have ct: "count_ok ?k" by (rule count_upd [OF ok t hs]) (simp add: set_timer_def flag_bits)
  have u: "handles ?k a = Some ?u" by (simp add: hs)
  obtain m where m: "uv_timer_stop a ?k = Some (0, m)" "heap_ok m" "count_ok m" "touches a ?t ?k m" "closing_handles m = closing_handles l"
    by (rule uv_timer_stop_run [OF ok' ct u]) (simp add: set_timer_def)
  define l' where "l' = m\<lparr>closing_handles := a # closing_handles m\<rparr>"
  have tc: "touches a ?t l l'" using m(4) by (simp add: touches_def set_timer_def l'_def)
  have "handles m a = Some ?t" using m(4) by (simp add: touches_def)
  then have "uv__make_close_pending a m = Some l'"
    using nc by (simp add: uv__make_close_pending_def flag_bits l'_def)
  then have r: "uv_close a cb l = Some l'" using nc t m(1) by (simp add: uv_close_def uv__timer_close_def)
  have "heap_ok l'" "count_ok l'" using m(2,3) by (simp_all add: heap_ok_def count_ok_def l'_def active_set_def alive_set_def)
  then have k: "timers_ok l'" by (rule timers_ok_upd [OF assms(1) _ _ tc]) (simp add: flag_bits)
  have eq: "?t = t\<lparr>flags := (flags t OR UV_HANDLE_CLOSING) AND NOT UV_HANDLE_ACTIVE, close_cb := cb\<rparr>" by (cases t) simp
  have "closing_handles l' = a # closing_handles l" using m(5) by (simp add: l'_def)
  then show thesis by (rule that [OF r k tc eq])
qed

subsection \<open>The calls\<close>

text \<open>
  \<open>allowed\<close>: the struct is in memory, and a handle is closed only once. \<open>due\<close>: the active timers whose time has
  come. \<open>later l l'\<close>: nothing has become due on the way from \<open>l\<close> to \<open>l'\<close>, and what still is due has kept its place
  in the order.
\<close>

fun handle_of :: "'cb call \<Rightarrow> nat" where
  "handle_of (Start a cb to rep) = a"
| "handle_of (Stop a) = a"
| "handle_of (Again a) = a"
| "handle_of (Set_Repeat a rep) = a"
| "handle_of (Close a cb) = a"
| "handle_of (Ref a) = a"
| "handle_of (Unref a) = a"

fun allowed :: "'cb call \<Rightarrow> 'cb uv_loop \<Rightarrow> bool" where
  "allowed (Close a cb) l = (case handles l a of None \<Rightarrow> False | Some t \<Rightarrow> \<not> uv__is_closing t)"
| "allowed c l = (handles l (handle_of c) \<noteq> None)"

fun immediate :: "'cb call \<Rightarrow> bool" where
  "immediate (Start a cb to rep) = (to = 0)"
| "immediate c = False"

definition due :: "'cb uv_loop \<Rightarrow> nat set" where
  "due l = {a. \<exists>t. handles l a = Some t \<and> uv__is_active t \<and> timeout t \<le> time l}"

definition later :: "'cb uv_loop \<Rightarrow> 'cb uv_loop \<Rightarrow> bool" where
  "later l l' \<longleftrightarrow> time l' = time l \<and> dom (handles l') = dom (handles l) \<and> due l' \<subseteq> due l \<and> (\<forall>b \<in> due l'. timer_key (handles l') b = timer_key (handles l) b)"

definition run_call_effect :: "'cb call \<Rightarrow> 'cb uv_timer \<Rightarrow> 'cb uv_timer \<Rightarrow> 'cb uv_loop \<Rightarrow> bool" where
  "run_call_effect c t t' l \<longleftrightarrow> (uv__is_active t' \<longrightarrow>
     uv__is_active t \<and> timeout t' = timeout t \<and> start_id t' = start_id t
     \<or> (\<exists>to. timeout t' = clamp_timeout (time l) to \<and> (to = 0 \<longrightarrow> immediate c)))"

lemma run_call_ok:
  assumes "timers_ok l" and "allowed c l" and t: "handles l (handle_of c) = Some t"
  shows "\<exists>l' t'. run_call c l = Some l' \<and> timers_ok l' \<and> touches (handle_of c) t' l l' \<and> run_call_effect c t t' l"
proof -
  have R: ?thesis if "run_call c l = Some l'" "timers_ok l'" "touches (handle_of c) t' l l'" "run_call_effect c t t' l" for l' t'
    using that by blast
  show ?thesis
  proof (cases c)
    case (Start a cb to rep)
    with t have t: "handles l a = Some t" by simp
    show ?thesis
    proof (cases "uv__is_closing t \<or> cb = None")
      case True
      then have "uv_timer_start a cb to rep l = Some (UV_EINVAL, l)" using t by (auto simp: uv_timer_start_def)
      then show ?thesis using Start t assms(1) touches_self [OF t] by (intro R [of l t]) (simp_all add: run_call_effect_def)
    next
      case False
      then obtain l' where l': "uv_timer_start a cb to rep l = Some (0, l')" "timers_ok l'"
          "touches a (t\<lparr>timer_cb := cb, timeout := clamp_timeout (time l) to, repeat := rep, start_id := timer_counter l,
            flags := flags t OR UV_HANDLE_ACTIVE\<rparr>) l l'"
        using uv_timer_start_ok [OF assms(1) t] by metis
      show ?thesis by (rule R [OF _ l'(2)]) (use Start l' in \<open>auto simp: run_call_effect_def\<close>)
    qed
  next
    case (Stop a)
    with t have "handles l a = Some t" by simp
    then obtain l' where l': "uv_timer_stop a l = Some (0, l')" "timers_ok l'" "touches a (t\<lparr>flags := flags t AND NOT UV_HANDLE_ACTIVE\<rparr>) l l'"
      using uv_timer_stop_ok [OF assms(1)] by metis
    show ?thesis by (rule R [OF _ l'(2)]) (use Stop l' in \<open>auto simp: run_call_effect_def flag_bits\<close>)
  next
    case (Again a)
    with t have "handles l a = Some t" by simp
    from uv_timer_again_ok [OF assms(1) this] obtain r l' t' where l': "uv_timer_again a l = Some (r, l')" "timers_ok l'" "touches a t' l l'"
      "t' = (if timer_cb t \<noteq> None \<and> repeat t \<noteq> 0 \<and> \<not> uv__is_closing t
             then t\<lparr>timeout := clamp_timeout (time l) (repeat t), start_id := timer_counter l, flags := flags t OR UV_HANDLE_ACTIVE\<rparr> else t)"
      by blast
    from l'(4) have "run_call_effect c t t' l" by (auto simp: run_call_effect_def)
    then show ?thesis using Again l'(1-3) by (intro R [of l' t']) simp_all
  next
    case (Set_Repeat a rep)
    with t have t: "handles l a = Some t" by simp
    let ?t = "t\<lparr>repeat := rep\<rparr>"
    have tc: "touches a ?t l (set_timer a ?t l)" by (simp add: touches_def set_timer_def)
    have "timers_ok (set_timer a ?t l)"
      by (rule keep_key_ok [OF assms(1) t tc]) (simp_all add: flag_bits set_timer_def)
    then show ?thesis
      by (intro R [of "set_timer a ?t l" ?t]) (use Set_Repeat t tc in \<open>auto simp: run_call_effect_def uv_timer_set_repeat_def flag_bits\<close>)
  next
    case (Close a cb)
    with t assms(2) have "handles l a = Some t" "\<not> uv__is_closing t" by auto
    from uv_close_ok [OF assms(1) this] obtain l' t' where l': "uv_close a cb l = Some l'" "timers_ok l'" "touches a t' l l'"
      "t' = t\<lparr>flags := (flags t OR UV_HANDLE_CLOSING) AND NOT UV_HANDLE_ACTIVE, close_cb := cb\<rparr>" by metis
    from l'(4) have "run_call_effect c t t' l" by (simp add: run_call_effect_def flag_bits)
    then show ?thesis using Close l'(1-3) by (intro R [of l' t']) simp_all
  next
    case (Ref a)
    with t have "handles l a = Some t" by simp
    from uv__handle_ref_ok [OF assms(1) this] obtain l' where l': "uv__handle_ref a l = Some l'" "timers_ok l'"
      "touches a (t\<lparr>flags := flags t OR UV_HANDLE_REF\<rparr>) l l'" by blast
    show ?thesis by (rule R [OF _ l'(2)]) (use Ref l' in \<open>auto simp: run_call_effect_def flag_bits\<close>)
  next
    case (Unref a)
    with t have "handles l a = Some t" by simp
    from uv__handle_unref_ok [OF assms(1) this] obtain l' where l': "uv__handle_unref a l = Some l'" "timers_ok l'"
      "touches a (t\<lparr>flags := flags t AND NOT UV_HANDLE_REF\<rparr>) l l'" by blast
    show ?thesis by (rule R [OF _ l'(2)]) (use Unref l' in \<open>auto simp: run_call_effect_def flag_bits\<close>)
  qed
qed

lemma run_call_allowed: "run_call c l = Some l' \<Longrightarrow> allowed c l"
  by (cases c) (auto simp: uv_timer_start_def uv_timer_stop_def uv_timer_again_def uv_timer_set_repeat_def uv_close_def
      uv__handle_ref_def uv__handle_unref_def split: bind_splits option.splits if_splits)

lemma allowed_mem: "allowed c l \<Longrightarrow> \<exists>t. handles l (handle_of c) = Some t"
  by (cases c) (auto split: option.splits)

lemma run_call_returns:
  assumes "timers_ok l" and "allowed c l"
  obtains l' where "run_call c l = Some l'" "timers_ok l'" "time l' = time l" "dom (handles l') = dom (handles l)"
    "\<And>b. b \<noteq> handle_of c \<Longrightarrow> handles l' b = handles l b"
proof -
  obtain t where t: "handles l (handle_of c) = Some t" using allowed_mem [OF assms(2)] by blast
  obtain l' t' where l': "run_call c l = Some l'" "timers_ok l'" "touches (handle_of c) t' l l'" using run_call_ok [OF assms t] by blast
  have "dom (handles l') = dom (handles l)" using l'(3) t by (auto simp: touches_def)
  then show thesis using that l' by (simp add: touches_def)
qed

lemma later_trans: "later l k \<Longrightarrow> later k l' \<Longrightarrow> later l l'"
  by (auto simp: later_def)

lemma later_refl: "later l l"
  by (simp add: later_def)

lemma touches_later:
  assumes "time l \<noteq> - 1" and "handles l a = Some t" and "touches a t' l l'" and "run_call_effect c t t' l" and "\<not> immediate c"
  shows "later l l'"
proof -
  have h: "handles l' = (handles l)(a \<mapsto> t')" "time l' = time l" using assms(3) by (simp_all add: touches_def)
  have "a \<in> due l \<and> timer_key (handles l') a = timer_key (handles l) a" if "a \<in> due l'"
  proof -
    from that have 1: "uv__is_active t'" "timeout t' \<le> time l" by (simp_all add: due_def h)
    then have "timeout t' \<noteq> clamp_timeout (time l) to" if "to \<noteq> 0" for to
      using clamp_later [OF that assms(1)] by auto
    then have "uv__is_active t" "timeout t' = timeout t" "start_id t' = start_id t"
      using 1(1) assms(4,5) by (auto simp: run_call_effect_def)
    then show ?thesis using 1(2) assms(2) by (simp add: due_def timer_key_def h)
  qed
  moreover have "b \<in> due l \<and> timer_key (handles l') b = timer_key (handles l) b" if "b \<in> due l'" "b \<noteq> a" for b
    using that by (simp add: due_def timer_key_def h)
  moreover have "dom (handles l') = dom (handles l)" using h(1) assms(2) by auto
  ultimately show ?thesis using h(2) by (auto simp: later_def)
qed

lemma run_calls_ok:
  assumes "timers_ok l" and "time l \<noteq> - 1" and "run_calls cs l = Some l'" and "\<forall>c \<in> set cs. \<not> immediate c"
  shows "timers_ok l' \<and> later l l' \<and> (\<forall>a. a \<notin> handle_of ` set cs \<longrightarrow> handles l' a = handles l a)"
  using assms
proof (induction cs arbitrary: l)
  case Nil
  then show ?case by (simp add: later_refl)
next
  case (Cons c cs)
  from Cons.prems(3) obtain k where k: "run_call c l = Some k" "run_calls cs k = Some l'" by (auto split: bind_splits)
  from run_call_allowed [OF k(1)] obtain t where t: "handles l (handle_of c) = Some t" and al: "allowed c l" using allowed_mem by blast
  from run_call_ok [OF Cons.prems(1) al t] k(1)
  obtain t' where 1: "timers_ok k" "touches (handle_of c) t' l k" "run_call_effect c t t' l" by auto
  then have l: "later l k" using touches_later [OF Cons.prems(2) t] Cons.prems(4) by auto
  then have "time k \<noteq> - 1" using Cons.prems(2) by (simp add: later_def)
  from Cons.IH [OF 1(1) this k(2)] Cons.prems(4)
  have "timers_ok l'" "later k l'" "\<forall>a. a \<notin> handle_of ` set cs \<longrightarrow> handles l' a = handles k a" by auto
  then show ?case using later_trans [OF l] 1(2) by (auto simp: touches_def)
qed

subsection \<open>The loop's timers stay consistent\<close>

lemma idle_ok:
  assumes "finite (dom (handles l))" "card (dom (handles l)) < 2 ^ 32" "dom (handles l) \<subseteq> dom (mem (timer_heap l))"
    and "timer_heap l = heap_init h" and "active_handles l = 0" and "\<And>a t. handles l a = Some t \<Longrightarrow> \<not> uv__is_active t"
  shows "timers_ok l"
proof -
  have "active_set l = {}" "alive_set l = {}" using assms(6) by (auto simp: active_set_def alive_set_def)
  then show ?thesis using assms heap_rep_init [of _ h] by (auto simp: timers_ok_def heap_ok_def count_ok_def)
qed

lemma uv_timer_init_ok:
  assumes "timers_ok l" and t: "handles l a = Some t" and n: "\<not> uv__is_active t"
    and "a \<notin> set (handle_queue l)" and "a \<notin> set (closing_handles l)"
  shows "\<exists>l'. uv_timer_init a l = Some (0, l') \<and> timers_ok l' \<and> handle_queue l' = handle_queue l @ [a]
    \<and> handles l' = (handles l)(a \<mapsto> t\<lparr>flags := UV_HANDLE_REF, timer_cb := None, repeat := 0\<rparr>)"
proof -
  let ?t = "t\<lparr>flags := UV_HANDLE_REF, timer_cb := None, repeat := 0\<rparr>"
  define l' where "l' = (set_timer a ?t l)\<lparr>handle_queue := handle_queue l @ [a]\<rparr>"
  have ok: "heap_ok l" "count_ok l" using assms(1) by (simp_all add: timers_ok_def)
  have hs: "handles l' = (handles l)(a \<mapsto> ?t)" and tc: "touches a ?t l l'" by (simp_all add: l'_def set_timer_def touches_def)
  have n': "\<not> uv__is_active ?t" by (simp add: flag_bits)
  have "uv_timer_init a l = Some (0, l')"
    using t assms(4,5) by (simp add: uv_timer_init_def uv__handle_init_def l'_def set_timer_def)
  moreover have "timers_ok l'"
  proof (rule timers_ok_upd [OF assms(1) _ _ tc])
    show "heap_ok l'" by (rule heap_ok_key [OF ok(1) t hs]) (use n n' in \<open>simp_all add: l'_def set_timer_def\<close>)
    show "count_ok l'" by (rule count_upd [OF ok t hs]) (use n n' in \<open>simp add: l'_def set_timer_def\<close>)
  qed (use n' in simp)
  ultimately show ?thesis using hs by (auto simp: l'_def set_timer_def)
qed

text \<open>
  C27. The state of a loop's timers stays well-formed: the heap holds exactly the active timers in heap order,
  \<open>active_handles\<close> counts the referenced active ones, and no active timer is closing or without a callback. From such a
  state every call on a timer in memory (with \<open>uv_close\<close> on one that is not closing) returns, without touching
  memory that is no timer or hitting an assertion, keeps the loop well-formed and leaves every other timer and the
  loop's time alone. So does \<open>uv_timer_init\<close> of a struct that is inactive and in neither of the loop's lists of handles (one never
  used, or finished closing), which ends up referenced, inactive, not closing, and at the end of the queue of handles.
\<close>

theorem timer_calls_keep_loop:
  assumes "timers_ok l"
  shows "(allowed c l \<longrightarrow> (\<exists>l'. run_call c l = Some l' \<and> timers_ok l' \<and> time l' = time l
      \<and> (\<forall>b. b \<noteq> handle_of c \<longrightarrow> handles l' b = handles l b)))
    \<and> (handles l a = Some t \<and> \<not> uv__is_active t \<and> a \<notin> set (handle_queue l) \<and> a \<notin> set (closing_handles l) \<longrightarrow> (\<exists>l'. uv_timer_init a l = Some (0, l') \<and> timers_ok l'
      \<and> handle_queue l' = handle_queue l @ [a] \<and> handles l' = (handles l)(a \<mapsto> t\<lparr>flags := UV_HANDLE_REF, timer_cb := None, repeat := 0\<rparr>)))"
proof (intro conjI impI)
  assume "allowed c l"
  then show "\<exists>l'. run_call c l = Some l' \<and> timers_ok l' \<and> time l' = time l \<and> (\<forall>b. b \<noteq> handle_of c \<longrightarrow> handles l' b = handles l b)"
    using run_call_returns [OF assms] by metis
qed (use uv_timer_init_ok [OF assms] in blast)

text \<open>A loop with three fresh timers, at the addresses 1, 2 and 3.\<close>

definition fresh_loop :: "nat uv_loop" where
  "fresh_loop = \<lparr>time = 10, timer_counter = 0, active_handles = 0, active_reqs = 0, stop_flag = 0, idle_handles = [], pending_queue = [], handle_queue = [1, 2, 3], closing_handles = [],
     timer_heap = \<lparr>hmin = None, nelts = 0, mem = (\<lambda>_. Some \<lparr>left = None, right = None, parent = None\<rparr>)\<rparr>,
     handles = (\<lambda>a. if a \<in> {1, 2, 3} then Some \<lparr>timer_cb = None, timeout = 0, repeat = 0, start_id = 0, flags = UV_HANDLE_REF, close_cb = None\<rparr> else None)\<rparr>"

lemma fresh_loop_ok: "timers_ok fresh_loop"
proof (rule idle_ok [where h = "timer_heap fresh_loop"])
  have d: "dom (handles fresh_loop) = {1, 2, 3}" by (auto simp: fresh_loop_def split: if_splits)
  show "finite (dom (handles fresh_loop))" "card (dom (handles fresh_loop)) < 2 ^ 32" "dom (handles fresh_loop) \<subseteq> dom (mem (timer_heap fresh_loop))"
    unfolding d by (auto simp: fresh_loop_def)
qed (auto simp: fresh_loop_def heap_init_def flag_bits split: if_splits)

lemma fresh_loop_time: "time fresh_loop = 10"
  by (simp add: fresh_loop_def)

text \<open>The same memory before any of the timers has been initialised.\<close>

definition blank_loop :: "nat uv_loop" where
  "blank_loop = fresh_loop\<lparr>handle_queue := []\<rparr>"

lemma blank_loop_ok: "timers_ok blank_loop"
  using fresh_loop_ok by (simp add: blank_loop_def timers_ok_def heap_ok_def count_ok_def active_set_def alive_set_def)

theorem timer_calls_keep_loop_witness:
  "\<exists>i l k. uv_timer_init 1 blank_loop = Some (0, i) \<and> handle_queue i = [1]
     \<and> run_call (Start 2 (Some 7) 5 0) i = Some l \<and> handles l 1 = handles i 1
     \<and> run_call (Close 1 None) l = Some k \<and> timers_ok k \<and> time k = time i"
proof -
  let ?t = "\<lparr>timer_cb = None, timeout = 0, repeat = 0, start_id = 0, flags = UV_HANDLE_REF, close_cb = None\<rparr> :: nat uv_timer"
  have t: "handles blank_loop 1 = Some ?t"
    by (simp add: blank_loop_def fresh_loop_def)
  have "handle_queue blank_loop = []" "closing_handles blank_loop = []" by (simp_all add: blank_loop_def fresh_loop_def)
  then obtain i where i: "uv_timer_init 1 blank_loop = Some (0, i)" "timers_ok i" "handle_queue i = [1]"
      "handles i = (handles blank_loop)(1 \<mapsto> ?t)"
    using conjunct2 [OF timer_calls_keep_loop [OF blank_loop_ok, of "Stop 1" 1 ?t]] t by (auto simp: flag_bits)
  have "allowed (Start 2 (Some 7) 5 0) i" using i(4) by (simp add: blank_loop_def fresh_loop_def)
  then obtain l where l: "run_call (Start 2 (Some 7) 5 0) i = Some l" "timers_ok l" "time l = time i" "handles l 1 = handles i 1"
    using conjunct1 [OF timer_calls_keep_loop [OF i(2), of "Start 2 (Some 7) 5 0"]] by auto
  moreover have "allowed (Close 1 None) l" using l(4) i(4) by (simp add: flag_bits)
  ultimately show ?thesis using conjunct1 [OF timer_calls_keep_loop [OF l(2), of "Close 1 None"]] i by auto
qed

subsection \<open>How long the loop may wait\<close>

lemma heap_min_due:
  assumes "timers_ok l" and "heap_min (timer_heap l) = Some a"
  obtains t where "handles l a = Some t" "uv__is_active t" "\<And>b. b \<in> active_set l \<Longrightarrow> \<not> timer_less_than (handles l) b a"
    "\<And>b u. handles l b = Some u \<Longrightarrow> uv__is_active u \<Longrightarrow> timeout t \<le> timeout u"
proof -
  have r: "heap_rep (timer_less_than (handles l)) (timer_heap l) (active_set l)" using assms(1) by (simp add: timers_ok_def heap_ok_def)
  from timer_order.heap_rep_min [OF r assms(2)] obtain t where t: "handles l a = Some t" "uv__is_active t"
    and m: "\<And>b. b \<in> active_set l \<Longrightarrow> \<not> timer_less_than (handles l) b a" by (auto simp: active_set_def)
  have "timeout t \<le> timeout u" if "handles l b = Some u" "uv__is_active u" for b u
  proof -
    have "b \<in> active_set l" using that by (auto simp: active_set_def)
    from m [OF this] show ?thesis using t that by (auto simp: timer_less_than_lex timer_key_def)
  qed
  then show thesis using that t m by blast
qed

lemma heap_min_none: "timers_ok l \<Longrightarrow> heap_min (timer_heap l) = None \<longleftrightarrow> active_set l = {}"
  using heap_rep_empty by (auto simp: timers_ok_def heap_ok_def)

definition remaining :: "'cb uv_loop \<Rightarrow> nat \<Rightarrow> nat" where
  "remaining l a = (case handles l a of None \<Rightarrow> 0 | Some t \<Rightarrow> unat (timeout t) - unat (time l))"

lemma next_timeout_value:
  assumes "timers_ok l"
  shows "uv__next_timeout l = Some
    (if active_set l = {} then - 1 else if due l \<noteq> {} then 0
     else int (min (unat INT_MAX) (linorder_class.Min (remaining l ` active_set l))))
    \<and> (due l = {} \<longrightarrow> active_set l \<noteq> {} \<longrightarrow> 0 < linorder_class.Min (remaining l ` active_set l))"
proof (cases "heap_min (timer_heap l)")
  case None
  then have "active_set l = {}" using heap_min_none [OF assms] by simp
  then show ?thesis using None by (simp add: uv__next_timeout_def)
next
  case (Some a)
  then have ne: "active_set l \<noteq> {}" using heap_min_none [OF assms] by auto
  obtain t where t: "handles l a = Some t" "uv__is_active t" and least: "\<And>b u. handles l b = Some u \<Longrightarrow> uv__is_active u \<Longrightarrow> timeout t \<le> timeout u"
    using heap_min_due [OF assms Some] by metis
  have d: "due l = {} \<longleftrightarrow> \<not> timeout t \<le> time l" using t least by (fastforce simp: due_def)
  have fin: "finite (remaining l ` active_set l)"
    using assms finite_subset [OF active_dom] by (auto simp: timers_ok_def heap_ok_def)
  have "linorder_class.Min (remaining l ` active_set l) = remaining l a"
  proof (rule Min_eqI [OF fin])
    show "remaining l a \<in> remaining l ` active_set l" using t by (auto simp: active_set_def)
    show "remaining l a \<le> y" if "y \<in> remaining l ` active_set l" for y
    proof -
      from that obtain b u where b: "handles l b = Some u" "uv__is_active u" "y = remaining l b" by (auto simp: active_set_def)
      from least [OF b(1,2)] have "unat (timeout t) \<le> unat (timeout u)" by (simp add: word_le_nat_alt)
      then show ?thesis using t b by (simp add: remaining_def)
    qed
  qed
  moreover have "unat (timeout t - time l) = unat (timeout t) - unat (time l)" "0 < unat (timeout t) - unat (time l)" if "\<not> timeout t \<le> time l"
    using that by (simp_all add: unat_sub not_le word_less_nat_alt order.strict_implies_order)
  moreover have "unat (if INT_MAX < x then INT_MAX else x) = min (unat INT_MAX) (unat x)" for x :: u64
    by (simp add: word_less_nat_alt min_def)
  then have "uv__next_timeout l = Some (if timeout t \<le> time l then 0 else int (min (unat INT_MAX) (unat (timeout t - time l))))"
    using Some t by (simp add: uv__next_timeout_def Let_def del: of_nat_unat)
  ultimately show ?thesis using t ne d by (simp add: remaining_def)
qed

subsection \<open>Every due timer is called, once\<close>

lemma due_active: "due l \<subseteq> active_set l"
  by (auto simp: due_def active_set_def)

lemma due_finite: "timers_ok l \<Longrightarrow> finite (due l)"
  using finite_subset [OF due_active] finite_subset [OF active_dom] by (auto simp: timers_ok_def heap_ok_def)

text \<open>One round of the loop: the timer that is called leaves the due ones, by being stopped or by starting again later.\<close>

lemma run_timers_step:
  assumes "timers_ok l" and "time l \<noteq> - 1" and "handles l a = Some t" and "uv__is_active t"
  obtains r k m u cb where "uv_timer_stop a l = Some (0, k)" "uv_timer_again a k = Some (r, m)" "timers_ok m"
    "handles m a = Some u" "timer_cb u = Some cb" "uv__is_closing u = uv__is_closing t" "later l m" "a \<notin> due m" "\<And>b. b \<noteq> a \<Longrightarrow> handles m b = handles l b"
proof -
  obtain cb where cb: "timer_cb t = Some cb" using assms(1,3,4) by (auto simp: timers_ok_def)
  let ?u = "t\<lparr>flags := flags t AND NOT UV_HANDLE_ACTIVE\<rparr>"
  obtain k where k: "uv_timer_stop a l = Some (0, k)" "timers_ok k" "touches a ?u l k" using uv_timer_stop_ok [OF assms(1,3)] by blast
  have hk: "handles k a = Some ?u" "time k = time l" using k(3) by (simp_all add: touches_def)
  obtain r m u where m: "uv_timer_again a k = Some (r, m)" "timers_ok m" "touches a u k m"
      "u = (if timer_cb ?u \<noteq> None \<and> repeat ?u \<noteq> 0 \<and> \<not> uv__is_closing ?u
           then ?u\<lparr>timeout := clamp_timeout (time k) (repeat ?u), start_id := timer_counter k, flags := flags ?u OR UV_HANDLE_ACTIVE\<rparr> else ?u)"
    by (rule uv_timer_again_ok [OF k(2) hk(1)])
  have hm: "handles m = (handles l)(a \<mapsto> u)" "time m = time l" using touches_trans [OF k(3) m(3)] by (simp_all add: touches_def)
  have "timer_cb u = Some cb" "uv__is_closing u = uv__is_closing t" using m(4) cb by (simp_all add: flag_bits)
  moreover have nd: "a \<notin> due m"
  proof (cases "u = ?u")
    case True
    then show ?thesis by (simp add: due_def hm flag_bits)
  next
    case False
    then have "timeout u = clamp_timeout (time l) (repeat t)" "repeat t \<noteq> 0" using m(4) hk(2) by (auto split: if_splits)
    then show ?thesis using clamp_later [of "repeat t" "time l"] assms(2) by (simp add: due_def hm not_le)
  qed
  moreover have "later l m" unfolding later_def
    using nd assms(3) by (auto simp: due_def timer_key_def hm split: if_splits)
  ultimately show thesis using that [OF k(1) m(1,2)] hm cb by simp
qed

lemma uv__run_timers_run:
  assumes "timers_ok l" and "time l \<noteq> - 1" and "dom (handles l) = D"
    and returns: "\<forall>cb a k. timers_ok k \<and> dom (handles k) = D \<and> a \<in> D \<longrightarrow> run_calls (body cb a k) k \<noteq> None"
    and delay: "\<forall>cb a k. \<forall>c \<in> set (body cb a k). \<not> immediate c"
  shows "\<exists>called l'. uv__run_timers body l = Some (called, l') \<and> timers_ok l' \<and> later l l' \<and> due l' = {}
    \<and> distinct called \<and> set called \<subseteq> due l \<and> sorted_wrt (\<lambda>a b. \<not> timer_less_than (handles l) b a) called
    \<and> (\<forall>a \<in> due l. (\<forall>cb b k. b \<noteq> a \<longrightarrow> (\<forall>c \<in> set (body cb b k). handle_of c \<noteq> a)) \<longrightarrow> a \<in> set called)"
  using assms(1-3)
proof (induction "card (due l)" arbitrary: l rule: less_induct)
  case less
  show ?case
  proof (cases "heap_min (timer_heap l)")
    case None
    then have "uv__run_timers body l = Some ([], l)" by (simp add: uv__run_timers.simps)
    moreover have "due l = {}" using None heap_min_none [OF less.prems(1)] due_active [of l] by auto
    ultimately show ?thesis using less.prems(1) by (simp add: later_refl)
  next
    case (Some a)
    obtain t where t: "handles l a = Some t" "uv__is_active t" and m: "\<And>b. b \<in> active_set l \<Longrightarrow> \<not> timer_less_than (handles l) b a"
      and least: "\<And>b u. handles l b = Some u \<Longrightarrow> uv__is_active u \<Longrightarrow> timeout t \<le> timeout u"
      using heap_min_due [OF less.prems(1) Some] by metis
    show ?thesis
    proof (cases "time l < timeout t")
      case True
      then have "uv__run_timers body l = Some ([], l)" using Some t by (simp add: uv__run_timers.simps)
      moreover have "due l = {}" using True least by (fastforce simp: due_def)
      ultimately show ?thesis using less.prems(1) by (simp add: later_refl)
    next
      case False
      then have a: "a \<in> due l" using t by (simp add: due_def not_less)
      obtain r k m' u cb where s: "uv_timer_stop a l = Some (0, k)" "uv_timer_again a k = Some (r, m')" "timers_ok m'"
        "handles m' a = Some u" "timer_cb u = Some cb" "later l m'" "a \<notin> due m'" "\<And>b. b \<noteq> a \<Longrightarrow> handles m' b = handles l b"
        using run_timers_step [OF less.prems(1,2) t] by metis
      have tm: "time m' \<noteq> - 1" using s(6) less.prems(2) by (simp add: later_def)
      have "dom (handles m') = D" "a \<in> D" using less.prems(3) t(1) s(6) by (auto simp: later_def)
      then obtain n where n: "run_calls (body cb a m') m' = Some n" using returns s(3) by blast
      from run_calls_ok [OF s(3) tm n] delay
      have n': "timers_ok n" "later m' n" "\<And>b. b \<notin> handle_of ` set (body cb a m') \<Longrightarrow> handles n b = handles m' b" by auto
      have ln: "later l n" by (rule later_trans [OF s(6) n'(2)])
      have sub: "due n \<subseteq> due l - {a}" using ln n'(2) s(7) by (auto simp: later_def)
      then have "card (due n) < card (due l)" using a due_finite [OF less.prems(1)] by (intro psubset_card_mono) auto
      moreover have "time n \<noteq> - 1" "dom (handles n) = D" using ln less.prems(2,3) by (simp_all add: later_def)
      ultimately obtain called l' where IH: "uv__run_timers body n = Some (called, l')" "timers_ok l'" "later n l'" "due l' = {}"
        "distinct called" "set called \<subseteq> due n" "sorted_wrt (\<lambda>a b. \<not> timer_less_than (handles n) b a) called"
        "\<forall>a \<in> due n. (\<forall>cb b k. b \<noteq> a \<longrightarrow> (\<forall>c \<in> set (body cb b k). handle_of c \<noteq> a)) \<longrightarrow> a \<in> set called"
        using less.hyps [OF _ n'(1)] by blast
      have "uv__run_timers body l = Some (a # called, l')"
        using Some t(1) False s(1,2,4,5) n IH(1) by (subst uv__run_timers.simps) simp
      moreover have "sorted_wrt (\<lambda>a b. \<not> timer_less_than (handles l) b a) (a # called)"
      proof -
        have "timer_key (handles n) b = timer_key (handles l) b" if "b \<in> set called" for b
          using that IH(6) ln by (auto simp: later_def)
        then have "timer_less_than (handles n) b c = timer_less_than (handles l) b c" if "b \<in> set called" "c \<in> set called" for b c
          using that by (intro timer_less_than_cong) auto
        then have "sorted_wrt (\<lambda>a b. \<not> timer_less_than (handles l) b a) called"
          by (intro sorted_wrt_mono_rel [OF _ IH(7)]) auto
        moreover have "set called \<subseteq> active_set l" using IH(6) sub due_active [of l] by blast
        ultimately show ?thesis using m by auto
      qed
      moreover have "x \<in> set (a # called)" if x: "x \<in> due l" "\<forall>cb b k. b \<noteq> x \<longrightarrow> (\<forall>c \<in> set (body cb b k). handle_of c \<noteq> x)" for x
      proof (cases "x = a")
        case False
        then have "\<forall>c \<in> set (body cb a m'). handle_of c \<noteq> x" using x(2) [rule_format, of a] by auto
        then have "x \<notin> handle_of ` set (body cb a m')" by auto
        then have "handles n x = handles l x" using n'(3) [of x] s(8) [OF False] by simp
        then have "x \<in> due n" using x(1) ln by (simp add: due_def later_def)
        then show ?thesis using IH(8) x(2) by simp
      qed simp
      ultimately show ?thesis
        using IH(2,4,5,6) sub a later_trans [OF ln IH(3)] by auto
    qed
  qed
qed

text \<open>
  C28. \<open>uv__run_timers\<close> returns, and no timer is due when it does. The callbacks make calls of this interface that return on a
  consistent loop with the same timers in memory, and start no timer with a zero timeout; the loop's clock is not at its last
  value. Each callback is called at most once, for timers that were due when the loop was entered, in the order of their timeouts
  and, among equals, of their starts; a due timer that no other timer's callback deals with is called. The clock and the
  consistency of the loop are kept.
\<close>

theorem uv__run_timers_calls_due:
  assumes "timers_ok l" and "time l \<noteq> - 1"
    and "\<forall>cb a k. timers_ok k \<and> dom (handles k) = dom (handles l) \<and> a \<in> dom (handles l) \<longrightarrow> run_calls (body cb a k) k \<noteq> None"
    and "\<forall>cb a k. \<forall>c \<in> set (body cb a k). \<not> immediate c"
  shows "\<exists>called l'. uv__run_timers body l = Some (called, l') \<and> timers_ok l' \<and> time l' = time l \<and> due l' = {}
    \<and> distinct called \<and> set called \<subseteq> due l \<and> sorted_wrt (\<lambda>a b. \<not> timer_less_than (handles l) b a) called
    \<and> (\<forall>a \<in> due l. (\<forall>cb b k. b \<noteq> a \<longrightarrow> (\<forall>c \<in> set (body cb b k). handle_of c \<noteq> a)) \<longrightarrow> a \<in> set called)"
  using uv__run_timers_run [OF assms(1,2) refl assms(3,4)] by (auto simp: later_def)

text \<open>Two timers due at once; the callback of the first starts it again.\<close>

lemma two_due:
  obtains l where "run_calls [Start 2 (Some 7) 0 0, Start 3 (Some 8) 0 0] fresh_loop = Some l" "timers_ok l" "time l = 10"
    "due l = {2, 3}" "timer_less_than (handles l) 2 3" "dom (handles l) = {1, 2, 3}"
proof -
  let ?t = "\<lparr>timer_cb = None, timeout = 0, repeat = 0, start_id = 0, flags = UV_HANDLE_REF, close_cb = None\<rparr>"
  have t: "handles fresh_loop 2 = Some ?t" by (simp add: fresh_loop_def)
  obtain k where k: "uv_timer_start 2 (Some 7) 0 0 fresh_loop = Some (0, k)" "timers_ok k" "timer_counter k = 1"
    "handles k = (handles fresh_loop)(2 \<mapsto> \<lparr>timer_cb = Some 7, timeout = 10, repeat = 0, start_id = 0, flags = UV_HANDLE_REF OR UV_HANDLE_ACTIVE, close_cb = None\<rparr>)" "time k = 10"
    by (rule uv_timer_start_ok [OF fresh_loop_ok t, of "Some 7" 0 0]) (auto simp: touches_def flag_bits clamp_timeout_def fresh_loop_def)
  have t': "handles k 3 = Some ?t" using k(4) by (simp add: fresh_loop_def)
  obtain l where l: "uv_timer_start 3 (Some 8) 0 0 k = Some (0, l)" "timers_ok l"
    "handles l = (handles k)(3 \<mapsto> \<lparr>timer_cb = Some 8, timeout = 10, repeat = 0, start_id = 1, flags = UV_HANDLE_REF OR UV_HANDLE_ACTIVE, close_cb = None\<rparr>)" "time l = 10"
    by (rule uv_timer_start_ok [OF k(2) t', of "Some 8" 0 0]) (use k(3,5) in \<open>auto simp: touches_def flag_bits clamp_timeout_def\<close>)
  have h: "handles l = (\<lambda>a. if a = 2 then Some \<lparr>timer_cb = Some 7, timeout = 10, repeat = 0, start_id = 0, flags = UV_HANDLE_REF OR UV_HANDLE_ACTIVE, close_cb = None\<rparr>
      else if a = 3 then Some \<lparr>timer_cb = Some 8, timeout = 10, repeat = 0, start_id = 1, flags = UV_HANDLE_REF OR UV_HANDLE_ACTIVE, close_cb = None\<rparr>
      else if a = 1 then Some ?t else None)"
    by (auto simp: l(3) k(4) fresh_loop_def fun_eq_iff)
  show thesis
  proof (rule that)
    show "run_calls [Start 2 (Some 7) 0 0, Start 3 (Some 8) 0 0] fresh_loop = Some l" using k(1) l(1) by simp
    show "due l = {2, 3}" by (auto simp: due_def h l(4) flag_bits split: if_splits)
    show "timer_less_than (handles l) 2 3" by (simp add: timer_less_than_lex timer_key_def h)
    show "dom (handles l) = {1, 2, 3}" by (auto simp: h split: if_splits)
  qed (fact l(2,4))+
qed

theorem uv__run_timers_calls_due_witness:
  "\<exists>l l'. run_calls [Start 2 (Some 7) 0 0, Start 3 (Some 8) 0 0] fresh_loop = Some l
     \<and> uv__run_timers (\<lambda>cb a k. if a = 2 then [Start 2 (Some 7) 5 0] else []) l = Some ([2, 3], l') \<and> due l' = {}"
proof -
  obtain l where l: "run_calls [Start 2 (Some 7) 0 0, Start 3 (Some 8) 0 0] fresh_loop = Some l" "timers_ok l" "time l = 10"
    "due l = {2, 3}" "timer_less_than (handles l) 2 3" "dom (handles l) = {1, 2, 3}" by (rule two_due)
  let ?b = "\<lambda>(cb :: nat) (a :: nat) (k :: nat uv_loop). if a = 2 then [Start 2 (Some 7) 5 0] else []"
  have ret: "run_calls (?b cb a k) k \<noteq> None" if k: "timers_ok k" "dom (handles k) = dom (handles l)" for cb a k
  proof -
    from k(2) l(6) have "2 \<in> dom (handles k)" by simp
    then obtain t where "handles k 2 = Some t" by blast
    then show ?thesis using run_call_ok [OF k(1), of "Start 2 (Some 7) 5 0" t] by auto
  qed
  have "time l \<noteq> - 1" by (simp add: l(3))
  from uv__run_timers_calls_due [OF l(2) this, of ?b] ret
  obtain called l' where r: "uv__run_timers ?b l = Some (called, l')" "due l' = {}" "distinct called" "set called \<subseteq> {2, 3}"
      "sorted_wrt (\<lambda>a b. \<not> timer_less_than (handles l) b a) called" "2 \<in> set called" "3 \<in> set called"
    unfolding l(4) by (auto split: if_splits)
  then have "length called = 2" using distinct_card [OF r(3)] by (metis card_2_iff insert_subset subset_antisym empty_subsetI num.distinct(1) numeral_eq_iff semiring_norm(89))
  then obtain x y where "called = [x, y]" by (auto simp: length_Suc_conv numeral_2_eq_2)
  then have "called = [2, 3]" using r(3-7) l(5) by auto
  then show ?thesis using l(1) r(1,2) by blast
qed

text \<open>
  The zero timeout is a true exception: a timer whose callback starts it again at once is due again at once, and the loop
  never leaves \<open>uv__run_timers\<close>.
\<close>

lemma restart_due:
  assumes "timers_ok l" and "handles l a = Some t" and "\<not> uv__is_closing t"
  shows "\<exists>l'. run_calls [Start a (Some cb) 0 0] l = Some l' \<and> timers_ok l' \<and> a \<in> due l' \<and> time l' = time l"
proof -
  obtain l' where "uv_timer_start a (Some cb) 0 0 l = Some (0, l')" "timers_ok l'"
      "touches a (t\<lparr>timer_cb := Some cb, timeout := clamp_timeout (time l) 0, repeat := 0, start_id := timer_counter l,
        flags := flags t OR UV_HANDLE_ACTIVE\<rparr>) l l'"
    using uv_timer_start_ok [OF assms] by (metis option.discI)
  then show ?thesis by (auto simp: touches_def due_def flag_bits clamp_timeout_def)
qed

lemma restart_round:
  assumes "timers_ok l" and "time l \<noteq> - 1" and "due l \<noteq> {}"
  shows "\<exists>a t k r m u cb n. heap_min (timer_heap l) = Some a \<and> handles l a = Some t \<and> \<not> time l < timeout t
    \<and> uv_timer_stop a l = Some (0, k) \<and> uv_timer_again a k = Some (r, m) \<and> handles m a = Some u \<and> timer_cb u = Some cb
    \<and> run_calls [Start a (Some cb) 0 0] m = Some n \<and> timers_ok n \<and> time n \<noteq> - 1 \<and> due n \<noteq> {}"
proof -
  have "active_set l \<noteq> {}" using assms(3) due_active [of l] by auto
  then obtain a where a: "heap_min (timer_heap l) = Some a" using heap_min_none [OF assms(1)] by auto
  obtain t where t: "handles l a = Some t" "uv__is_active t" and least: "\<And>b u. handles l b = Some u \<Longrightarrow> uv__is_active u \<Longrightarrow> timeout t \<le> timeout u"
    using heap_min_due [OF assms(1) a] by metis
  have d: "\<not> time l < timeout t" using assms(3) least by (fastforce simp: due_def)
  obtain r k m u cb where s: "uv_timer_stop a l = Some (0, k)" "uv_timer_again a k = Some (r, m)" "timers_ok m"
    "handles m a = Some u" "timer_cb u = Some cb" "uv__is_closing u = uv__is_closing t" "later l m"
    using run_timers_step [OF assms(1,2) t] by metis
  have "\<not> uv__is_closing u" using s(6) assms(1) t by (auto simp: timers_ok_def)
  then obtain n where "run_calls [Start a (Some cb) 0 0] m = Some n" "timers_ok n" "a \<in> due n" "time n = time m"
    using restart_due [OF s(3,4)] by blast
  then show ?thesis using a t(1) d s(1,2,4,5,7) assms(2) by (auto simp: later_def)
qed

lemma uv__run_timers_restart_diverges:
  assumes "timers_ok l" and "time l \<noteq> - 1" and "due l \<noteq> {}"
  shows "uv__run_timers (\<lambda>cb a k. [Start a (Some cb) 0 0]) l = None"
proof -
  define body where "body = (\<lambda>(cb :: 'a) a (k :: 'a uv_loop). [Start a (Some cb) 0 0])"
  have "body = (\<lambda>cb a k. [Start a (Some cb) 0 0]) \<longrightarrow> timers_ok l \<longrightarrow> time l \<noteq> - 1 \<longrightarrow> due l = {}" if "uv__run_timers body l = Some r" for r
    using that
  proof (rule uv__run_timers.raw_induct [rotated])
    fix run and body' :: "'a \<Rightarrow> nat \<Rightarrow> 'a uv_loop \<Rightarrow> 'a call list" and l :: "'a uv_loop" and y
    assume IH: "\<And>b l y. run b l = Some y \<Longrightarrow> b = (\<lambda>cb a k. [Start a (Some cb) 0 0]) \<longrightarrow> timers_ok l \<longrightarrow> time l \<noteq> - 1 \<longrightarrow> due l = {}"
      and y: "(case heap_min (timer_heap l) of None \<Rightarrow> Some ([], l)
        | Some a \<Rightarrow> do {
            t \<leftarrow> handles l a;
            if time l < timeout t then Some ([], l)
            else do {
              (_, l) \<leftarrow> uv_timer_stop a l;
              (_, l) \<leftarrow> uv_timer_again a l;
              t \<leftarrow> handles l a;
              cb \<leftarrow> timer_cb t;
              l \<leftarrow> run_calls (body' cb a l) l;
              (called, l) \<leftarrow> run body' l;
              Some (a # called, l)
            }
          }) = Some y"
    show "body' = (\<lambda>cb a k. [Start a (Some cb) 0 0]) \<longrightarrow> timers_ok l \<longrightarrow> time l \<noteq> - 1 \<longrightarrow> due l = {}"
    proof (intro impI, rule ccontr)
      assume b: "body' = (\<lambda>cb a k. [Start a (Some cb) 0 0])" and l: "timers_ok l" "time l \<noteq> - 1" "due l \<noteq> {}"
      from restart_round [OF l] obtain a t k r m u cb n where s: "heap_min (timer_heap l) = Some a" "handles l a = Some t" "\<not> time l < timeout t"
        "uv_timer_stop a l = Some (0, k)" "uv_timer_again a k = Some (r, m)" "handles m a = Some u" "timer_cb u = Some cb"
        "run_calls (body' cb a m) m = Some n" "timers_ok n" "time n \<noteq> - 1" "due n \<noteq> {}" unfolding b by blast
      then have "run body' n \<noteq> None" using y by (cases "run body' n") simp_all
      then show False using IH [of body' n] s(9-11) b by blast
    qed
  qed
  then show ?thesis using assms unfolding body_def by (cases "uv__run_timers (\<lambda>cb a k. [Start a (Some cb) 0 0]) l") auto
qed

subsection \<open>Closing\<close>

text \<open>
  How far a handle is closed, with the callback that waits for it. \<open>pending_ok rest l\<close>: the handles on their way to be closed
  are in \<open>rest\<close> (what \<open>uv__run_closing_handles\<close> still has to look at) or on the loop's list, once.
\<close>

definition stage :: "'cb uv_loop \<Rightarrow> nat \<rightharpoonup> bool \<times> bool \<times> 'cb option" where
  "stage l a = map_option (\<lambda>t. (bit (flags t) 0, bit (flags t) 1, close_cb t)) (handles l a)"

definition pending_ok :: "nat list \<Rightarrow> 'cb uv_loop \<Rightarrow> bool" where
  "pending_ok rest l \<longleftrightarrow> distinct (rest @ closing_handles l) \<and> set (rest @ closing_handles l) = {a. \<exists>cb. stage l a = Some (True, False, cb)}"

definition undisturbed :: "'cb uv_loop \<Rightarrow> 'cb uv_loop \<Rightarrow> bool" where
  "undisturbed l l' \<longleftrightarrow> stage l' = stage l \<and> closing_handles l' = closing_handles l \<and> handle_queue l' = handle_queue l"

lemma undisturbed_trans [trans]: "undisturbed l k \<Longrightarrow> undisturbed k l' \<Longrightarrow> undisturbed l l'"
  by (simp add: undisturbed_def)

lemma undisturbed_set:
  "handles l a = Some t \<Longrightarrow> bit (flags t') 0 = bit (flags t) 0 \<Longrightarrow> bit (flags t') 1 = bit (flags t) 1 \<Longrightarrow> close_cb t' = close_cb t
     \<Longrightarrow> undisturbed l (set_timer a t' l)"
  by (auto simp: undisturbed_def stage_def set_timer_def fun_eq_iff)

lemma undisturbed_fields [simp]:
  "undisturbed l (l'\<lparr>active_handles := n\<rparr>) = undisturbed l l'" "undisturbed l (l'\<lparr>timer_heap := h\<rparr>) = undisturbed l l'"
  "undisturbed l (l'\<lparr>timer_counter := c\<rparr>) = undisturbed l l'" "undisturbed (l\<lparr>timer_heap := h\<rparr>) l' = undisturbed l l'"
  "undisturbed l l"
  by (simp_all add: undisturbed_def stage_def fun_eq_iff)

lemma handle_ops_undisturbed:
  "uv__handle_start a l = Some l' \<Longrightarrow> undisturbed l l'" "uv__handle_stop a l = Some l' \<Longrightarrow> undisturbed l l'"
  "uv__handle_ref a l = Some l' \<Longrightarrow> undisturbed l l'" "uv__handle_unref a l = Some l' \<Longrightarrow> undisturbed l l'"
  by (auto simp: uv__handle_start_def uv__handle_stop_def uv__handle_ref_def uv__handle_unref_def Let_def uv__active_handle_add_def uv__active_handle_rm_def
      intro!: undisturbed_set split: bind_splits if_splits)

lemma stop_undisturbed: "uv_timer_stop a l = Some (r, l') \<Longrightarrow> undisturbed l l'"
  using handle_ops_undisturbed(2) by (fastforce simp: uv_timer_stop_def split: bind_splits if_splits)

lemma start_undisturbed:
  assumes "uv_timer_start a cb to rep l = Some (r, l')"
  shows "undisturbed l l'"
proof -
  obtain t where t: "handles l a = Some t" using assms by (auto simp: uv_timer_start_def split: bind_splits)
  show ?thesis
  proof (cases "uv__is_closing t \<or> cb = None")
    case False
    let ?upd = "\<lambda>k (u :: 'a uv_timer). u\<lparr>timer_cb := cb, timeout := clamp_timeout (time k) to, repeat := rep, start_id := timer_counter k\<rparr>"
    from False assms t obtain k u h where k: "(if uv__is_active t then map_option snd (uv_timer_stop a l) else Some l) = Some k"
        "handles k a = Some u" "uv__handle_start a ((set_timer a (?upd k u) k)\<lparr>timer_counter := timer_counter k + 1, timer_heap := h\<rparr>) = Some l'"
      by (auto simp: uv_timer_start_def Let_def split: bind_splits)
    have "undisturbed l k" using k(1) stop_undisturbed by (auto split: if_splits)
    also have "undisturbed k (set_timer a (?upd k u) k)" by (rule undisturbed_set [OF k(2)]) simp_all
    also have "undisturbed (set_timer a (?upd k u) k) l'" using handle_ops_undisturbed(1) [OF k(3)] by (simp add: undisturbed_def stage_def fun_eq_iff)
    finally show ?thesis .
  qed (use assms t in \<open>auto simp: uv_timer_start_def\<close>)
qed

lemma again_undisturbed: "uv_timer_again a l = Some (r, l') \<Longrightarrow> undisturbed l l'"
  using undisturbed_trans [OF stop_undisturbed start_undisturbed] by (fastforce simp: uv_timer_again_def split: bind_splits if_splits)

lemma run_call_stage:
  assumes "run_call c l = Some l'"
  shows "(\<forall>a cb. c \<noteq> Close a cb) \<and> undisturbed l l' \<or> (\<exists>a cb cb0. c = Close a cb \<and> stage l a = Some (False, False, cb0) \<and> stage l' = (stage l)(a \<mapsto> (True, False, cb))
    \<and> closing_handles l' = a # closing_handles l \<and> handle_queue l' = handle_queue l)"
proof (cases c)
  case (Close a cb)
  with assms obtain t m r where t: "handles l a = Some t" "\<not> uv__is_closing t"
      and m: "uv_timer_stop a (set_timer a (t\<lparr>flags := flags t OR UV_HANDLE_CLOSING, close_cb := cb\<rparr>) l) = Some (r, m)"
      and l': "l' = m\<lparr>closing_handles := a # closing_handles m\<rparr>"
    by (auto simp: uv_close_def uv__timer_close_def uv__make_close_pending_def split: bind_splits if_splits)
  from stop_undisturbed [OF m] have "stage l' = (stage l)(a \<mapsto> (True, False, cb))" "closing_handles l' = a # closing_handles l" "handle_queue l' = handle_queue l"
    using t(2) unfolding l' by (auto simp: undisturbed_def stage_def set_timer_def fun_eq_iff flag_bits)
  moreover have "stage l a = Some (False, False, close_cb t)" using t by (simp add: stage_def flag_bits)
  ultimately show ?thesis using Close by blast
qed (use assms handle_ops_undisturbed stop_undisturbed start_undisturbed again_undisturbed in
    \<open>auto simp: uv_timer_set_repeat_def intro!: undisturbed_set\<close>)

lemma pending_ok_call:
  assumes "pending_ok rest l" and "run_call c l = Some l'"
  shows "pending_ok rest l' \<and> handle_queue l' = handle_queue l \<and> (\<forall>b cb d. stage l b = Some (True, d, cb) \<longrightarrow> stage l' b = Some (True, d, cb))"
  using run_call_stage [OF assms(2)]
proof
  assume "(\<forall>a cb. c \<noteq> Close a cb) \<and> undisturbed l l'"
  then show ?thesis using assms(1) by (simp add: undisturbed_def pending_ok_def)
next
  assume "\<exists>a cb cb0. c = Close a cb \<and> stage l a = Some (False, False, cb0) \<and> stage l' = (stage l)(a \<mapsto> (True, False, cb))
    \<and> closing_handles l' = a # closing_handles l \<and> handle_queue l' = handle_queue l"
  then obtain a cb cb0 where a: "stage l a = Some (False, False, cb0)" "stage l' = (stage l)(a \<mapsto> (True, False, cb))"
    "closing_handles l' = a # closing_handles l" "handle_queue l' = handle_queue l" by blast
  have n: "a \<notin> set (rest @ closing_handles l)" using assms(1) a(1) by (simp add: pending_ok_def)
  have "set (rest @ closing_handles l') = insert a (set (rest @ closing_handles l))" by (simp add: a(3))
  also have "\<dots> = {b. \<exists>cb. stage l' b = Some (True, False, cb)}" using assms(1) a(1,2) unfolding pending_ok_def by auto
  finally have "set (rest @ closing_handles l') = {b. \<exists>cb. stage l' b = Some (True, False, cb)}" .
  moreover have "distinct (rest @ closing_handles l')" using assms(1) n unfolding pending_ok_def by (auto simp: a(3))
  ultimately have "pending_ok rest l'" by (simp add: pending_ok_def)
  then show ?thesis using a by auto
qed

lemma run_calls_closing:
  assumes "timers_ok l" and "pending_ok rest l" and "run_calls cs l = Some l'"
  shows "timers_ok l' \<and> dom (handles l') = dom (handles l) \<and> pending_ok rest l' \<and> handle_queue l' = handle_queue l
    \<and> (\<forall>b cb d. stage l b = Some (True, d, cb) \<longrightarrow> stage l' b = Some (True, d, cb))"
  using assms
proof (induction cs arbitrary: l)
  case (Cons c cs)
  from Cons.prems(3) obtain k where k: "run_call c l = Some k" "run_calls cs k = Some l'" by (auto split: bind_splits)
  have 1: "timers_ok k" "dom (handles k) = dom (handles l)"
    using run_call_returns [OF Cons.prems(1) run_call_allowed [OF k(1)]] k(1) by (metis option.inject)+
  then show ?case using Cons.IH [OF 1(1) _ k(2)] pending_ok_call [OF Cons.prems(2) k(1)] by simp
qed simp

lemma uv__finish_close_ok:
  assumes "timers_ok l" and "pending_ok (a # rest) l" and "handles l a = Some t" and "dom (handles l) = D"
    and returns: "\<forall>cb a k. timers_ok k \<and> dom (handles k) = D \<longrightarrow> run_calls (body cb a k) k \<noteq> None"
  obtains l' where "uv__finish_close body a l = Some (if close_cb t = None then [] else [a], l')" "timers_ok l'" "dom (handles l') = D"
    "pending_ok rest l'" "handle_queue l' = remove1 a (handle_queue l)"
    "\<And>b cb. b \<noteq> a \<Longrightarrow> stage l b = Some (True, False, cb) \<Longrightarrow> stage l' b = Some (True, False, cb)"
    "\<And>b cb. b = a \<or> stage l b = Some (True, True, cb) \<Longrightarrow> \<exists>cb. stage l' b = Some (True, True, cb)"
proof -
  let ?t = "t\<lparr>flags := flags t OR UV_HANDLE_CLOSED\<rparr>"
  have "stage l a \<in> {Some (True, False, cb) | cb. True}" using assms(2) unfolding pending_ok_def by auto
  then have b: "bit (flags t) 0" "\<not> bit (flags t) 1" using assms(3) by (auto simp: stage_def)
  have n: "\<not> uv__is_active t" using b assms(1,3) by (auto simp: timers_ok_def flag_bits)
  have tc: "touches a ?t l (set_timer a ?t l)" by (simp add: touches_def set_timer_def)
  have f: "bit (x OR UV_HANDLE_CLOSED) i \<longleftrightarrow> bit x i \<or> i = 1" for x i
    using bit_exp_iff [of 1 i, where 'a = "32 word"] by (auto simp: bit_or_iff UV_HANDLE_CLOSED_def)
  have "timers_ok (set_timer a ?t l)"
    by (rule keep_key_ok [OF assms(1,3) tc]) (use b n in \<open>simp_all add: flag_bits set_timer_def f\<close>)
  moreover have "handles (set_timer a ?t l) a = Some ?t" by (simp add: set_timer_def)
  ultimately obtain k where k: "uv__handle_unref a (set_timer a ?t l) = Some k" "timers_ok k"
      "touches a (?t\<lparr>flags := flags ?t AND NOT UV_HANDLE_REF\<rparr>) (set_timer a ?t l) k" by (rule uv__handle_unref_ok)
  define m where "m = k\<lparr>handle_queue := remove1 a (handle_queue k)\<rparr>"
  have u: "undisturbed (set_timer a ?t l) k" by (rule handle_ops_undisturbed(4) [OF k(1)])
  have "dom (handles k) = dom (handles l)" using k(3) assms(3) by (auto simp: touches_def set_timer_def)
  then have m: "timers_ok m" "dom (handles m) = D" "handle_queue m = remove1 a (handle_queue l)" "closing_handles m = closing_handles l"
    using k(2) u assms(4) by (simp_all add: m_def timers_ok_def heap_ok_def count_ok_def active_set_def alive_set_def undisturbed_def set_timer_def)
  have "stage m = stage (set_timer a ?t l)" using u by (simp add: m_def undisturbed_def stage_def fun_eq_iff)
  also have "\<dots> = (stage l)(a \<mapsto> (True, True, close_cb t))" using b by (auto simp: stage_def set_timer_def f fun_eq_iff)
  finally have st: "stage m = (stage l)(a \<mapsto> (True, True, close_cb t))" .
  have p: "pending_ok rest m" using assms(2) unfolding pending_ok_def m(4) st by auto
  show thesis
  proof (cases "close_cb t")
    case None
    then have "uv__finish_close body a l = Some ([], m)" using assms(3) b k(1) by (simp add: uv__finish_close_def flag_bits m_def)
    then show thesis by (intro that [of m]) (use m p None in \<open>auto simp: st\<close>)
  next
    case (Some cb)
    obtain l' where l': "run_calls (body cb a m) m = Some l'" using returns m(1,2) by blast
    then have "uv__finish_close body a l = Some ([a], l')" using assms(3) b k(1) Some by (simp add: uv__finish_close_def flag_bits m_def)
    moreover note c = run_calls_closing [OF m(1) p l']
    moreover have "\<exists>cb. stage l' b = Some (True, True, cb)" if b: "b = a \<or> stage l b = Some (True, True, cb)" for b cb
    proof -
      from b obtain cb' where "stage m b = Some (True, True, cb')" by (cases "b = a") (auto simp: st)
      then show ?thesis using c by blast
    qed
    moreover have "stage l' b = Some (True, False, cb)" if "b \<noteq> a" "stage l b = Some (True, False, cb)" for b cb
      using that c by (simp add: st)
    ultimately show thesis using m(2,3) Some by (intro that [of l']) simp_all
  qed
qed

text \<open>The handles of \<open>rest\<close> whose owners asked for a callback.\<close>

definition with_callback :: "'cb uv_loop \<Rightarrow> nat list \<Rightarrow> nat list" where
  "with_callback l = filter (\<lambda>a. \<exists>d e cb. stage l a = Some (d, e, Some cb))"

lemma finish_closing_ok:
  assumes "timers_ok l" and "pending_ok rest l" and "dom (handles l) = D"
    and "\<forall>cb a k. timers_ok k \<and> dom (handles k) = D \<longrightarrow> run_calls (body cb a k) k \<noteq> None"
  shows "\<exists>l'. finish_closing body rest l = Some (with_callback l rest, l') \<and> timers_ok l' \<and> dom (handles l') = D \<and> pending_ok [] l'
    \<and> handle_queue l' = fold remove1 rest (handle_queue l)
    \<and> (\<forall>b cb. b \<in> set rest \<or> stage l b = Some (True, True, cb) \<longrightarrow> (\<exists>cb. stage l' b = Some (True, True, cb)))"
  using assms(1-3)
proof (induction rest arbitrary: l)
  case Nil
  then show ?case by (simp add: with_callback_def)
next
  case (Cons a rest)
  have sa: "\<And>b. b \<in> set (a # rest) \<Longrightarrow> \<exists>cb. stage l b = Some (True, False, cb)" and na: "a \<notin> set rest"
    using Cons.prems(2) unfolding pending_ok_def by auto
  from sa [of a] obtain t where t: "handles l a = Some t" "stage l a = Some (True, False, close_cb t)" by (auto simp: stage_def)
  obtain k where k: "uv__finish_close body a l = Some (if close_cb t = None then [] else [a], k)" "timers_ok k" "dom (handles k) = D"
      "pending_ok rest k" "handle_queue k = remove1 a (handle_queue l)"
      "\<And>b cb. b \<noteq> a \<Longrightarrow> stage l b = Some (True, False, cb) \<Longrightarrow> stage k b = Some (True, False, cb)"
      "\<And>b cb. b = a \<or> stage l b = Some (True, True, cb) \<Longrightarrow> \<exists>cb. stage k b = Some (True, True, cb)"
    by (rule uv__finish_close_ok [OF Cons.prems(1,2) t(1) Cons.prems(3) assms(4)]) blast
  have "stage k b = stage l b" if "b \<in> set rest" for b
  proof -
    from sa [of b] that obtain cb where "stage l b = Some (True, False, cb)" by auto
    then show ?thesis using k(6) [of b] that na by auto
  qed
  then have "with_callback k rest = with_callback l rest" unfolding with_callback_def by (intro filter_cong) auto
  moreover have "(if close_cb t = None then [] else [a]) @ with_callback l rest = with_callback l (a # rest)" using t(2) by (auto simp: with_callback_def)
  moreover from Cons.IH [OF k(2,4,3)] obtain l' where l': "finish_closing body rest k = Some (with_callback k rest, l')" "timers_ok l'" "dom (handles l') = D"
      "pending_ok [] l'" "handle_queue l' = fold remove1 rest (handle_queue k)"
      "\<And>b cb. b \<in> set rest \<or> stage k b = Some (True, True, cb) \<Longrightarrow> \<exists>cb. stage l' b = Some (True, True, cb)" by auto
  ultimately have "finish_closing body (a # rest) l = Some (with_callback l (a # rest), l')" using k(1) by simp
  moreover have "\<exists>cb. stage l' b = Some (True, True, cb)" if "b \<in> set (a # rest) \<or> stage l b = Some (True, True, cb)" for b cb
  proof (cases "b \<in> set rest")
    case False
    with that k(7) [of b cb] obtain cb where "stage k b = Some (True, True, cb)" by auto
    then show ?thesis using l'(6) by blast
  qed (use l'(6) in blast)
  ultimately show ?case using l'(2-5) k(5) by auto
qed

lemma uv_backend_timeout_safe:
  assumes "timers_ok l"
  shows "\<exists>r. uv_backend_timeout l = Some r \<and> (\<forall>a \<in> active_set l. r \<noteq> 0 \<longrightarrow> 0 < r \<and> r \<le> int (remaining l a))
    \<and> (r \<noteq> 0 \<longrightarrow> uv__loop_alive l \<and> stop_flag l = 0 \<and> idle_handles l = [] \<and> pending_queue l = [] \<and> closing_handles l = [] \<and> due l = {})"
proof (cases "uv_backend_timeout l = Some 0")
  case False
  then have b: "uv_backend_timeout l = uv__next_timeout l" "uv__loop_alive l \<and> stop_flag l = 0 \<and> idle_handles l = [] \<and> pending_queue l = [] \<and> closing_handles l = []"
    by (auto simp: uv_backend_timeout_def uv__loop_alive_def split: if_splits)
  show ?thesis
  proof (cases "active_set l = {}")
    case True
    then have "uv_backend_timeout l = Some (- 1)" "due l = {}" using next_timeout_value [OF assms] b(1) due_active [of l] by auto
    then show ?thesis using b True by simp
  next
    case ne: False
    have d: "due l = {}" using False next_timeout_value [OF assms] b(1) ne by (auto split: if_splits)
    let ?m = "linorder_class.Min (remaining l ` active_set l)"
    have fin: "finite (active_set l)" using assms finite_subset [OF active_dom] by (auto simp: timers_ok_def heap_ok_def)
    have "uv_backend_timeout l = Some (int (min (unat INT_MAX) ?m))" "0 < ?m" using next_timeout_value [OF assms] b(1) ne d by auto
    moreover have "?m \<le> remaining l a" if "a \<in> active_set l" for a using fin that by simp
    moreover have "0 < unat INT_MAX" by (simp add: INT_MAX_def)
    ultimately show ?thesis using b d by (intro exI [of _ "int (min (unat INT_MAX) ?m)"]) (auto simp: min_le_iff_disj simp del: of_nat_unat)
  qed
qed simp

text \<open>
  C29. \<open>uv__next_timeout\<close> is the time until the first timer: -1 (for ever) exactly when no timer is active, 0 when one is due, and
  otherwise the smallest time left until an active timer's timeout, cut off at \<open>INT_MAX\<close>. \<open>uv_backend_timeout\<close> never makes the loop
  sleep past an active timer, and lets it sleep only when it is alive and not stopped, nothing is due, idle or pending, and no handle
  waits to be closed.
\<close>

theorem uv__next_timeout_correct:
  assumes "timers_ok l"
  shows "uv__next_timeout l = Some
    (if active_set l = {} then - 1 else if due l \<noteq> {} then 0
     else int (min (unat INT_MAX) (linorder_class.Min (remaining l ` active_set l))))
    \<and> (\<exists>r. uv_backend_timeout l = Some r \<and> (\<forall>a \<in> active_set l. r \<noteq> 0 \<longrightarrow> 0 < r \<and> r \<le> int (remaining l a))
      \<and> (r \<noteq> 0 \<longrightarrow> uv__loop_alive l \<and> stop_flag l = 0 \<and> idle_handles l = [] \<and> pending_queue l = [] \<and> closing_handles l = [] \<and> due l = {}))"
  using next_timeout_value [OF assms] uv_backend_timeout_safe [OF assms] by blast

theorem uv__next_timeout_correct_witness:
  "uv__next_timeout fresh_loop = Some (- 1) \<and> (\<exists>l. run_call (Start 2 (Some 7) 5 0) fresh_loop = Some l \<and> uv__next_timeout l = Some 5)"
proof -
  have f: "active_set fresh_loop = {}" by (auto simp: active_set_def fresh_loop_def flag_bits split: if_splits)
  have t: "handles fresh_loop 2 = Some \<lparr>timer_cb = None, timeout = 0, repeat = 0, start_id = 0, flags = UV_HANDLE_REF, close_cb = None\<rparr>" by (simp add: fresh_loop_def)
  obtain l where l: "uv_timer_start 2 (Some 7) 5 0 fresh_loop = Some (0, l)" "timers_ok l"
    "handles l = (handles fresh_loop)(2 \<mapsto> \<lparr>timer_cb = Some 7, timeout = 15, repeat = 0, start_id = 0, flags = UV_HANDLE_REF OR UV_HANDLE_ACTIVE, close_cb = None\<rparr>)" "time l = 10"
    by (rule uv_timer_start_ok [OF fresh_loop_ok t, of "Some 7" 5 0]) (auto simp: touches_def flag_bits clamp_timeout_def fresh_loop_def)
  have a: "active_set l = {2}" using f by (simp add: active_set_upd [OF l(3)] flag_bits)
  have d: "due l = {}" using l(3,4) f by (auto simp: due_def active_set_def)
  have "remaining l 2 = 5" using l(3,4) by (simp add: remaining_def)
  then have "uv__next_timeout l = Some 5" using uv__next_timeout_correct [OF l(2)] a d by (simp add: INT_MAX_def)
  then show ?thesis using l(1) uv__next_timeout_correct [OF fresh_loop_ok] f by auto
qed

text \<open>
  C30. \<open>uv__run_closing_handles\<close> finishes every handle that was closed since its last run: it returns when the close callbacks make
  calls that return, and then each of those handles is marked closed and out of the loop's queue, and their close callbacks have been
  called, once each, for those that have one, last closed first. What the callbacks close is left on the list for the next run, and the
  list again holds exactly the handles between \<open>uv_close\<close> and its end, without repetition; the timers stay consistent.
\<close>

theorem uv__run_closing_handles_finishes:
  assumes "timers_ok l" and "pending_ok [] l"
    and "\<forall>cb a k. timers_ok k \<and> dom (handles k) = dom (handles l) \<longrightarrow> run_calls (body cb a k) k \<noteq> None"
  shows "\<exists>l'. uv__run_closing_handles body l = Some (with_callback l (closing_handles l), l') \<and> timers_ok l' \<and> pending_ok [] l'
    \<and> handle_queue l' = fold remove1 (closing_handles l) (handle_queue l)
    \<and> (\<forall>a \<in> set (closing_handles l). \<exists>cb. stage l' a = Some (True, True, cb))"
proof -
  let ?k = "l\<lparr>closing_handles := []\<rparr>"
  have s: "stage ?k = stage l" by (simp add: stage_def fun_eq_iff)
  have "timers_ok ?k" using assms(1) by (simp add: timers_ok_def heap_ok_def count_ok_def active_set_def alive_set_def)
  moreover have "pending_ok (closing_handles l) ?k" using assms(2) by (simp add: pending_ok_def s)
  ultimately obtain l' where "finish_closing body (closing_handles l) ?k = Some (with_callback ?k (closing_handles l), l')" "timers_ok l'" "pending_ok [] l'"
      "handle_queue l' = fold remove1 (closing_handles l) (handle_queue ?k)"
      "\<forall>b cb. b \<in> set (closing_handles l) \<or> stage ?k b = Some (True, True, cb) \<longrightarrow> (\<exists>cb. stage l' b = Some (True, True, cb))"
    using finish_closing_ok [OF _ _ _ assms(3), of ?k "closing_handles l"] by auto
  then show ?thesis by (auto simp: uv__run_closing_handles_def with_callback_def s)
qed

theorem uv__run_closing_handles_finishes_witness:
  "\<exists>l l'. run_calls [Close 2 (Some 7), Close 1 None] fresh_loop = Some l
     \<and> uv__run_closing_handles (\<lambda>cb a k. if uv__is_closing (the (handles k 3)) then [] else [Close 3 None]) l = Some ([2], l')
     \<and> handle_queue l' = [3] \<and> (\<exists>cb. stage l' 2 = Some (True, True, cb))"
proof -
  let ?b = "\<lambda>(cb :: nat) (a :: nat) (k :: nat uv_loop). if uv__is_closing (the (handles k 3)) then [] else [Close 3 None]"
  have p: "pending_ok [] fresh_loop" by (auto simp: pending_ok_def stage_def fresh_loop_def split: if_splits)
  have d: "dom (handles fresh_loop) = {1, 2, 3}" by (auto simp: fresh_loop_def split: if_splits)
  have s: "stage fresh_loop a = (if a \<in> {1, 2, 3} then Some (False, False, None) else None)" for a by (simp add: stage_def fresh_loop_def)
  have "allowed (Close 2 (Some 7)) fresh_loop" by (simp add: fresh_loop_def flag_bits)
  then obtain k where k: "run_call (Close 2 (Some 7)) fresh_loop = Some k" "timers_ok k" "handles k 1 = handles fresh_loop 1" "dom (handles k) = {1, 2, 3}"
    by (rule run_call_returns [OF fresh_loop_ok]) (simp add: d)
  have "allowed (Close 1 None) k" using k(3) by (simp add: fresh_loop_def flag_bits)
  then obtain l where l: "run_call (Close 1 None) k = Some l" "timers_ok l" "dom (handles l) = {1, 2, 3}"
    by (rule run_call_returns [OF k(2)]) (simp add: k(4))
  have "stage k = (stage fresh_loop)(2 \<mapsto> (True, False, Some 7))" "closing_handles k = [2]" "handle_queue k = [1, 2, 3]"
    using run_call_stage [OF k(1)] by (auto simp: fresh_loop_def)
  then have st: "stage l = (stage fresh_loop)(2 \<mapsto> (True, False, Some 7), 1 \<mapsto> (True, False, None))" "closing_handles l = [1, 2]" "handle_queue l = [1, 2, 3]"
    using run_call_stage [OF l(1)] by auto
  have "pending_ok [] l" using pending_ok_call [OF _ l(1)] pending_ok_call [OF p k(1)] by blast
  moreover have "run_calls (?b cb a m) m \<noteq> None" if m: "timers_ok m" "dom (handles m) = dom (handles l)" for cb a m
  proof (cases "uv__is_closing (the (handles m 3))")
    case False
    from m(2) l(3) have "3 \<in> dom (handles m)" by simp
    then have "allowed (Close 3 None) m" using False by auto
    then obtain m' where "run_call (Close 3 None) m = Some m'" by (rule run_call_returns [OF m(1)])
    then show ?thesis using False by simp
  qed simp
  ultimately obtain l' where l': "uv__run_closing_handles ?b l = Some (with_callback l [1, 2], l')" "handle_queue l' = fold remove1 [1, 2] [1, 2, 3]"
      "\<exists>cb. stage l' 2 = Some (True, True, cb)"
    using uv__run_closing_handles_finishes [OF l(2), of ?b] unfolding st(2,3) by (metis list.set_intros)
  have "with_callback l [1, 2] = [2]" by (auto simp: with_callback_def st(1))
  moreover have "run_calls [Close 2 (Some 7), Close 1 None] fresh_loop = Some l" using k(1) l(1) by simp
  ultimately show ?thesis using l' by (intro exI [of _ l] exI [of _ l']) simp
qed

end
