(* ===== verification/Block_Mode.thy ===== *)
theory Block_Mode
  imports Mem
begin

unbundle bit_operations_syntax

section \<open>What the block cipher modes share (crypto/internal.h, fipsmodule/modes/internal.h)\<close>

text \<open>
  The loads and stores of machine words that the modes use to XOR eight bytes at a time, and two
  interfaces. A block cipher is the function pointer \<open>block128_f\<close> of the sources: the modes are given
  it as the argument \<open>block\<close>, with the key, and rely on nothing but that it maps 16 bytes to 16 bytes
  (\<open>block_ok\<close>). The locale \<open>stream_pair\<close> states what the modes promise that keep a position inside a
  block between calls: an encryption and a decryption routine that both work byte by byte, undo each
  other, and so may be called on pieces of any length.
\<close>

subsection \<open>Words in memory\<close>

text \<open>
  The targets are little-endian: the \<open>memcpy\<close> of a load reads the least significant byte first.
\<close>

fun load_le :: "bytes \<Rightarrow> 'a::len word" where
  "load_le [] = 0"
| "load_le (b # bs) = ucast b OR push_bit 8 (load_le bs)"

definition store_le :: "nat \<Rightarrow> 'a::len word \<Rightarrow> bytes" where
  "store_le n v = map (\<lambda>i. ucast (drop_bit (8 * i) v)) [0..<n]"

definition CRYPTO_load_word_le :: "bytes \<Rightarrow> u64" where
  "CRYPTO_load_word_le p = load_le (take 8 p)"

definition CRYPTO_store_word_le :: "u64 \<Rightarrow> bytes" where
  "CRYPTO_store_word_le v = store_le 8 v"

definition CRYPTO_load_u32_be :: "bytes \<Rightarrow> u32" where
  "CRYPTO_load_u32_be p = CRYPTO_bswap4 (load_le (take 4 p))"

definition CRYPTO_store_u32_be :: "u32 \<Rightarrow> bytes" where
  "CRYPTO_store_u32_be v = store_le 4 (CRYPTO_bswap4 v)"

text \<open>
  The loop \<^verbatim>\<open>for (; n < 16; n += sizeof(crypto_word_t))\<close> around a word operation on two blocks: the
  bytes it writes.
\<close>

function xor_words :: "nat \<Rightarrow> bytes \<Rightarrow> bytes \<Rightarrow> bytes" where
  "xor_words n a b =
     (if n < 16
      then CRYPTO_store_word_le (CRYPTO_load_word_le (drop n a) XOR CRYPTO_load_word_le (drop n b))
             @ xor_words (n + 8) a b
      else [])"
  by pat_completeness auto
termination
  by (relation "measure (\<lambda>(n, a, b). 16 - n)") auto

declare xor_words.simps [simp del]

lemma u8_high_bit: "8 \<le> k \<Longrightarrow> \<not> bit (b :: u8) k"
  using bit_imp_le_length [of b k] by auto

lemma u32_high_bit: "32 \<le> k \<Longrightarrow> \<not> bit (v :: u32) k"
  using bit_imp_le_length [of v k] by auto

lemma bit_load_le:
  "bit (load_le bs :: 'a::len word) k \<longleftrightarrow>
     k < LENGTH('a) \<and> k div 8 < length bs \<and> bit (bs ! (k div 8)) (k mod 8)"
proof (induction bs arbitrary: k)
  case (Cons b bs)
  show ?case
  proof (cases "k < 8")
    case True
    then show ?thesis by (auto simp: bit_or_iff bit_push_bit_iff bit_ucast_iff)
  next
    case False
    then have "k div 8 = Suc ((k - 8) div 8)" "k mod 8 = (k - 8) mod 8" "\<not> bit b k"
      by (simp_all add: le_div_geq le_mod_geq u8_high_bit)
    moreover have "k - 8 < LENGTH('a) \<or> \<not> k < LENGTH('a)" by linarith
    ultimately show ?thesis using False
      unfolding load_le.simps bit_or_iff bit_push_bit_iff bit_ucast_iff Cons.IH by auto
  qed
qed simp

lemma length_store_le [simp]: "length (store_le n v) = n"
  by (simp add: store_le_def)

lemma store_xor_load:
  assumes "length a = 8" and "length b = 8"
  shows "store_le 8 (load_le a XOR load_le b :: u64) = map2 (XOR) a b"
proof (rule nth_equalityI)
  fix i
  assume "i < length (store_le 8 (load_le a XOR load_le b :: u64))"
  then have i: "i < 8" by simp
  show "store_le 8 (load_le a XOR load_le b :: u64) ! i = map2 (XOR) a b ! i"
  proof (rule bit_word_eqI)
    fix k
    assume "k < LENGTH(8)"
    then have "k < 8" by simp
    then have "(8 * i + k) div 8 = i" "(8 * i + k) mod 8 = k" "8 * i + k < 64" using i by auto
    then show "bit (store_le 8 (load_le a XOR load_le b :: u64) ! i) k \<longleftrightarrow> bit (map2 (XOR) a b ! i) k"
      using i assms \<open>k < 8\<close>
      by (simp add: store_le_def bit_ucast_iff bit_drop_bit_eq bit_xor_iff bit_load_le)
  qed
qed (use assms in simp)

lemma store_load_word: "length a = 8 \<Longrightarrow> store_le 8 (load_le a :: u64) = a"
proof -
  assume a: "length a = 8"
  have z: "(load_le (replicate n 0) :: u64) = 0" for n by (induction n) simp_all
  have "map2 (XOR) a (replicate 8 (0 :: u8)) = a" using a by (intro nth_equalityI) simp_all
  then show ?thesis using store_xor_load [of a "replicate 8 0"] a z by simp
qed

text \<open>Eight bytes at a time or one by one makes no difference.\<close>

lemma xor_words_16:
  assumes "16 \<le> length a" and "16 \<le> length b"
  shows "xor_words 0 a b = map2 (XOR) (take 16 a) (take 16 b)"
proof -
  have w: "CRYPTO_store_word_le (CRYPTO_load_word_le (drop n a) XOR CRYPTO_load_word_le (drop n b))
       = map2 (XOR) (take 8 (drop n a)) (take 8 (drop n b))" if "n \<le> 8" for n
    unfolding CRYPTO_store_word_le_def CRYPTO_load_word_le_def
    by (rule store_xor_load) (use assms that in auto)
  have s: "take 16 c = take 8 c @ take 8 (drop 8 c)" for c :: bytes
    by (metis numeral_Bit0 take_add)
  have "xor_words 0 a b = map2 (XOR) (take 8 a) (take 8 b) @ map2 (XOR) (take 8 (drop 8 a)) (take 8 (drop 8 b))"
    using w [of 0] w [of 8] by (simp add: xor_words.simps)
  also have "\<dots> = map2 (XOR) (take 16 a) (take 16 b)"
    unfolding s using assms by (simp add: zip_append)
  finally show ?thesis .
qed

subsection \<open>The big-endian 32 bit words\<close>

lemma load_u32_be_4: "CRYPTO_load_u32_be [a, b, c, d] = load_le [d, c, b, a]"
proof (rule bit_word_eqI)
  fix k :: nat
  assume "k < LENGTH(32)"
  then have "k \<in> {0..<32}" by simp
  then have "k \<in> set [0..<32]" by simp
  then show "bit (CRYPTO_load_u32_be [a, b, c, d]) k \<longleftrightarrow> bit (load_le [d, c, b, a] :: u32) k"
    unfolding CRYPTO_load_u32_be_def CRYPTO_bswap4_def
    by (simp add: upt_rec) (elim disjE; simp add: bit_load_le bit_or_iff bit_and_iff bit_push_bit_iff
        bit_drop_bit_eq bit_ucast_iff u8_high_bit Let_def; simp add: eval_nat_numeral)
qed

lemma unat_load_le:
  "8 * length bs \<le> LENGTH('a) \<Longrightarrow> unat (load_le bs :: 'a::len word) = be_val (rev bs)"
proof (induction bs)
  case (Cons b bs)
  have "unat (ucast b :: 'a word) = unat b" using Cons.prems by (intro unat_ucast_up) simp
  moreover have "be_val (rev bs) * 2 ^ 8 < 2 ^ LENGTH('a)"
  proof -
    have "be_val (rev bs) * 2 ^ 8 < 256 ^ length bs * 256" using be_val_less [of "rev bs"] by simp
    also have "(256 :: nat) ^ length bs * 256 = 2 ^ (8 * Suc (length bs))"
      by (simp add: power_mult power_add)
    also have "\<dots> \<le> 2 ^ LENGTH('a)" using Cons.prems by (intro power_increasing) simp_all
    finally show ?thesis .
  qed
  ultimately show ?case
    using Cons unat_shl_or [of "ucast b :: 'a word" 8 "load_le bs"]
    by (simp add: or.commute)
qed simp

lemma list_4: "length xs = 4 \<Longrightarrow> \<exists>a b c d. xs = [a, b, c, d]"
  by (auto simp: numeral_eq_Suc length_Suc_conv)

lemma unat_load_u32_be: "length p = 4 \<Longrightarrow> unat (CRYPTO_load_u32_be p) = be_val p"
  using list_4 [of p] by (auto simp: load_u32_be_4 unat_load_le simp del: load_le.simps)

lemma bit_bswap4: "k < 32 \<Longrightarrow> bit (CRYPTO_bswap4 v) k \<longleftrightarrow> bit v (8 * (3 - k div 8) + k mod 8)"
proof -
  assume "k < 32"
  then have "k \<in> set [0..<32]" by simp
  then show ?thesis unfolding CRYPTO_bswap4_def
    by (simp add: upt_rec) (elim disjE; simp add: bit_or_iff bit_and_iff bit_push_bit_iff bit_drop_bit_eq
        u32_high_bit Let_def; simp add: eval_nat_numeral)
qed

lemma byte_bswap4: "i < 4 \<Longrightarrow> (ucast (drop_bit (8 * i) (CRYPTO_bswap4 v)) :: u8) = ucast (drop_bit (8 * (3 - i)) v)"
proof (rule bit_word_eqI)
  fix k :: nat
  assume "i < 4" "k < LENGTH(8)"
  then have "8 * i + k < 32" "(8 * i + k) div 8 = i" "(8 * i + k) mod 8 = k" by auto
  with \<open>k < LENGTH(8)\<close> show
    "bit (ucast (drop_bit (8 * i) (CRYPTO_bswap4 v)) :: u8) k \<longleftrightarrow> bit (ucast (drop_bit (8 * (3 - i)) v) :: u8) k"
    by (simp add: bit_ucast_iff bit_drop_bit_eq bit_bswap4)
qed

lemma store_u32_be_4:
  "CRYPTO_store_u32_be v = [ucast (drop_bit 24 v), ucast (drop_bit 16 v), ucast (drop_bit 8 v), ucast v]"
  using byte_bswap4 [of 0 v] byte_bswap4 [of 1 v] byte_bswap4 [of 2 v] byte_bswap4 [of 3 v]
  by (simp add: CRYPTO_store_u32_be_def store_le_def upt_rec)

lemma load_store_u32_be: "CRYPTO_load_u32_be (CRYPTO_store_u32_be v) = v"
proof (rule bit_word_eqI)
  fix k :: nat
  assume "k < LENGTH(32)"
  then have "k \<in> {0..<32}" by simp
  then have "k \<in> set [0..<32]" by simp
  then show "bit (CRYPTO_load_u32_be (CRYPTO_store_u32_be v)) k \<longleftrightarrow> bit v k"
    by (simp add: load_u32_be_4 store_u32_be_4 upt_rec) (elim disjE; simp add: bit_load_le bit_or_iff bit_push_bit_iff
        bit_drop_bit_eq bit_ucast_iff u8_high_bit; simp add: eval_nat_numeral)
qed

lemma store_u32_be: "CRYPTO_store_u32_be v = be_bytes 4 (unat v)"
  using unat_load_u32_be [of "CRYPTO_store_u32_be v"]
  by (intro be_bytes_unique [symmetric]) (simp_all add: load_store_u32_be, simp_all add: CRYPTO_store_u32_be_def)

subsection \<open>The contract of a block cipher\<close>

definition block_ok :: "(bytes \<Rightarrow> 'k \<Rightarrow> bytes) \<Rightarrow> 'k \<Rightarrow> bool" where
  "block_ok block key \<longleftrightarrow> (\<forall>x. length x = 16 \<longrightarrow> length (block x key) = 16)"

lemma block_length: "block_ok block key \<Longrightarrow> length x = 16 \<Longrightarrow> length (block x key) = 16"
  by (simp add: block_ok_def)

text \<open>A cipher that can be run: it XORs the key into the block, reverses it and adds 1 to every byte.\<close>

definition toy_block :: "bytes \<Rightarrow> bytes \<Rightarrow> bytes" where
  "toy_block x key = map (\<lambda>b. b + 1) (rev (map2 (XOR) x key))"

definition toy_unblock :: "bytes \<Rightarrow> bytes \<Rightarrow> bytes" where
  "toy_unblock x key = map2 (XOR) (rev (map (\<lambda>b. b - 1) x)) key"

lemma toy_block_ok: "length key = 16 \<Longrightarrow> block_ok toy_block key"
  by (simp add: block_ok_def toy_block_def)

subsection \<open>Modes that work byte by byte\<close>

text \<open>
  \<open>run step\<close> is the reference: the state goes through one byte after the other. \<open>feed\<close> is what a
  client does: it calls the routine on one piece of the text after the other, and puts the outputs
  together. \<open>None\<close> is a failed assertion or an access out of bounds.
\<close>

fun run :: "('s \<Rightarrow> 'a \<Rightarrow> 'a \<times> 's) \<Rightarrow> 's \<Rightarrow> 'a list \<Rightarrow> 'a list \<times> 's" where
  "run step s [] = ([], s)"
| "run step s (b # bs) = (let (c, s') = step s b; (cs, t) = run step s' bs in (c # cs, t))"

fun feed :: "('s \<Rightarrow> 'a list \<Rightarrow> ('a list \<times> 's) option) \<Rightarrow> 's \<Rightarrow> 'a list list \<Rightarrow> ('a list \<times> 's) option" where
  "feed crypt s [] = Some ([], s)"
| "feed crypt s (p # ps) =
     (case crypt s p of
        None \<Rightarrow> None
      | Some (c, s') \<Rightarrow> (case feed crypt s' ps of None \<Rightarrow> None | Some (cs, t) \<Rightarrow> Some (c @ cs, t)))"

lemma run_append:
  "run step s (xs @ ys) =
     (let (cs, t) = run step s xs; (ds, u) = run step t ys in (cs @ ds, u))"
  by (induction xs arbitrary: s) (simp_all add: case_prod_beta Let_def)

lemma length_run [simp]: "length (fst (run step s bs)) = length bs"
  by (induction bs arbitrary: s) (simp_all add: case_prod_beta Let_def)

locale stream_step =
  fixes ok :: "'s \<Rightarrow> bool"
    and step :: "'s \<Rightarrow> 'a \<Rightarrow> 'a \<times> 's"
  assumes step_ok: "ok s \<Longrightarrow> ok (snd (step s b))"
begin

lemma run_ok: "ok s \<Longrightarrow> ok (snd (run step s bs))"
proof (induction bs arbitrary: s)
  case (Cons b bs)
  show ?case using Cons.IH [OF step_ok [OF Cons.prems]] by (simp add: case_prod_beta Let_def)
qed simp

end

text \<open>Two steps, one of which takes back what the other does.\<close>

locale step_pair =
  enc: stream_step ok estep + dec: stream_step ok dstep
  for ok :: "'s \<Rightarrow> bool" and estep dstep :: "'s \<Rightarrow> 'a \<Rightarrow> 'a \<times> 's" +
  assumes undo: "ok s \<Longrightarrow> estep s b = (c, t) \<Longrightarrow> dstep s c = (b, t)"
begin

lemma run_back: "ok s \<Longrightarrow> run estep s bs = (cs, t) \<Longrightarrow> run dstep s cs = (bs, t)"
proof (induction bs arbitrary: s cs t)
  case (Cons b bs)
  obtain c s' where c: "estep s b = (c, s')" by (cases "estep s b")
  obtain ds u where ds: "run estep s' bs = (ds, u)" by (cases "run estep s' bs")
  have "ok s'" using enc.step_ok [OF Cons.prems(1), of b] c by simp
  then have "run dstep s' ds = (bs, u)" using Cons.IH ds by blast
  with Cons.prems c ds undo [OF Cons.prems(1) c] show ?case by auto
qed simp

end

text \<open>A routine that implements a step on texts of any length.\<close>

locale stream_mode = stream_step ok step
  for ok :: "'s \<Rightarrow> bool" and step :: "'s \<Rightarrow> 'a \<Rightarrow> 'a \<times> 's" +
  fixes crypt :: "'s \<Rightarrow> 'a list \<Rightarrow> ('a list \<times> 's) option"
  assumes crypt_run: "ok s \<Longrightarrow> crypt s bs = Some (run step s bs)"
begin

lemma feed_run: "ok s \<Longrightarrow> feed crypt s ps = Some (run step s (concat ps))"
proof (induction ps arbitrary: s)
  case (Cons p ps)
  show ?case using Cons.IH [OF run_ok [OF Cons.prems]] Cons.prems
    by (simp add: crypt_run run_append case_prod_beta Let_def)
qed simp

end

locale stream_pair =
  step_pair ok estep dstep + enc: stream_mode ok estep enc + dec: stream_mode ok dstep dec
  for ok :: "'s \<Rightarrow> bool"
    and estep dstep :: "'s \<Rightarrow> 'a \<Rightarrow> 'a \<times> 's"
    and enc dec :: "'s \<Rightarrow> 'a list \<Rightarrow> ('a list \<times> 's) option"
begin

text \<open>However the ciphertext is cut, the plaintext comes back, and both sides end in one state.\<close>

lemma feed_roundtrip:
  assumes "ok s"
  shows "\<exists>cs t. feed enc s ps = Some (cs, t) \<and> length cs = length (concat ps)
           \<and> (\<forall>qs. concat qs = cs \<longrightarrow> feed dec s qs = Some (concat ps, t))"
proof -
  obtain cs t where r: "run estep s (concat ps) = (cs, t)" by (cases "run estep s (concat ps)")
  then have "feed enc s ps = Some (cs, t)" using assms by (simp add: enc.feed_run)
  moreover have "length cs = length (concat ps)"
    using length_run [of estep s "concat ps"] unfolding r by simp
  moreover have "feed dec s qs = Some (concat ps, t)" if "concat qs = cs" for qs
    using assms that run_back [OF assms r] by (simp add: dec.feed_run)
  ultimately show ?thesis by blast
qed

end

end
