(* ===== verification/Ctr.thy ===== *)
theory Ctr
  imports Block_Mode
begin

unbundle bit_operations_syntax

section \<open>Counter mode (crypto/fipsmodule/modes/ctr.c)\<close>

text \<open>
  The two routines of ctr.c: \<open>CRYPTO_ctr128_encrypt\<close> calls the block cipher for every counter value,
  \<open>CRYPTO_ctr128_encrypt_ctr32\<close> hands runs of blocks to a routine \<open>func\<close> that only counts in 32 bits.
  The loops that write \<open>out\<close> return the bytes they write, in order. Every byte is read before the one at
  its place is written, so \<open>out\<close> may be \<open>in\<close>; other overlaps are not modelled. \<open>None\<close> is the failed
  assertion \<^verbatim>\<open>*num < 16\<close>.
\<close>

record ctr_state =
  ivec :: bytes
  ecount_buf :: bytes
  num :: nat

text \<open>The do-while loop of \<open>ctr128_inc\<close> and \<open>ctr96_inc\<close> from index \<open>n\<close> down, \<open>c\<close> the carry.\<close>

fun inc_loop :: "nat \<Rightarrow> u32 \<Rightarrow> bytes \<Rightarrow> bytes" where
  "inc_loop 0 c counter = counter"
| "inc_loop (Suc n) c counter =
     (let c = c + ucast (counter ! n)
      in inc_loop n (drop_bit 8 c) (counter[n := ucast c]))"

definition ctr128_inc :: "bytes \<Rightarrow> bytes" where
  "ctr128_inc counter = inc_loop 16 1 counter"

definition ctr96_inc :: "bytes \<Rightarrow> bytes" where
  "ctr96_inc counter = inc_loop 12 1 counter"

text \<open>The first loop, \<^verbatim>\<open>while (n && len)\<close>: the bytes written, the input left, and \<open>n\<close>.\<close>

fun head_loop :: "nat \<Rightarrow> bytes \<Rightarrow> bytes \<Rightarrow> bytes \<times> bytes \<times> nat" where
  "head_loop n ks [] = ([], [], n)"
| "head_loop n ks (b # inp) =
     (if n = 0 then ([], b # inp, n)
      else let (out, rest, n') = head_loop ((n + 1) mod 16) ks inp in ((b XOR ks ! n) # out, rest, n'))"

text \<open>The second loop, \<^verbatim>\<open>while (len >= 16)\<close>.\<close>

function blocks_loop ::
  "(bytes \<Rightarrow> 'k \<Rightarrow> bytes) \<Rightarrow> 'k \<Rightarrow> nat \<Rightarrow> bytes \<Rightarrow> bytes \<Rightarrow> bytes \<Rightarrow> bytes \<times> bytes \<times> bytes \<times> bytes \<times> nat" where
  "blocks_loop block key n iv ec inp =
     (if 16 \<le> length inp
      then let ec = block iv key;
               iv = ctr128_inc iv;
               (out, rest) = blocks_loop block key 0 iv ec (drop 16 inp)
           in (xor_words 0 inp ec @ out, rest)
      else ([], inp, iv, ec, n))"
  by pat_completeness auto
termination
  by (relation "measure (\<lambda>(block, key, n, iv, ec, inp). length inp)") auto

declare blocks_loop.simps [simp del]

text \<open>The last loop, \<^verbatim>\<open>while (len--)\<close>: \<open>n\<close> counts on from its value.\<close>

definition tail_loop :: "nat \<Rightarrow> bytes \<Rightarrow> bytes \<Rightarrow> bytes \<times> nat" where
  "tail_loop n ks inp = (map (\<lambda>i. inp ! i XOR ks ! i) [n..<n + length inp], n + length inp)"

definition CRYPTO_ctr128_encrypt ::
  "(bytes \<Rightarrow> 'k \<Rightarrow> bytes) \<Rightarrow> 'k \<Rightarrow> ctr_state \<Rightarrow> bytes \<Rightarrow> (bytes \<times> ctr_state) option" where
  "CRYPTO_ctr128_encrypt block key s inp =
     (if \<not> num s < 16 then None
      else let (out1, inp, n) = head_loop (num s) (ecount_buf s) inp;
               (out2, inp, iv, ec, n) = blocks_loop block key n (ivec s) (ecount_buf s) inp
           in if inp \<noteq> []
              then let ec = block iv key;
                       iv = ctr128_inc iv;
                       (out3, n) = tail_loop n ec inp
                   in Some (out1 @ out2 @ out3, \<lparr>ivec = iv, ecount_buf = ec, num = n\<rparr>)
              else Some (out1 @ out2, \<lparr>ivec = iv, ecount_buf = ec, num = n\<rparr>))"

text \<open>
  The loop of the second routine: \<open>ctr32\<close> shadows the last four bytes of the counter. At most \<open>2 ^ 28\<close>
  blocks go to \<open>func\<close> at once, and fewer when the 32 bit counter would wrap inside the run.
\<close>

definition ctr32_take :: "u32 \<Rightarrow> nat \<Rightarrow> nat \<times> u32" where
  "ctr32_take ctr32 len =
     (let blocks = len div 16;
          blocks = (if blocks > 2 ^ 28 then 2 ^ 28 else blocks);
          ctr32 = ctr32 + of_nat blocks
      in if unat ctr32 < blocks then (blocks - unat ctr32, 0) else (blocks, ctr32))"

lemma ctr32_take_pos: "16 \<le> len \<Longrightarrow> (blocks, d) = ctr32_take c len \<Longrightarrow> 0 < blocks"
  using div_le_mono [of 16 len 16] by (auto simp: ctr32_take_def Let_def split: if_splits)

definition put_ctr32 :: "bytes \<Rightarrow> u32 \<Rightarrow> bytes" where
  "put_ctr32 iv ctr32 =
     (let iv = take 12 iv @ CRYPTO_store_u32_be ctr32 @ drop 16 iv
      in if ctr32 = 0 then ctr96_inc iv else iv)"

function ctr32_loop ::
  "(bytes \<Rightarrow> nat \<Rightarrow> 'k \<Rightarrow> bytes \<Rightarrow> bytes) \<Rightarrow> 'k \<Rightarrow> u32 \<Rightarrow> bytes \<Rightarrow> bytes \<Rightarrow> bytes \<times> bytes \<times> bytes \<times> u32" where
  "ctr32_loop func key ctr32 iv inp =
     (if 16 \<le> length inp
      then let (blocks, ctr32) = ctr32_take ctr32 (length inp);
               out1 = func inp blocks key iv;
               iv = put_ctr32 iv ctr32;
               (out2, rest) = ctr32_loop func key ctr32 iv (drop (blocks * 16) inp)
           in (out1 @ out2, rest)
      else ([], inp, iv, ctr32))"
  by pat_completeness auto
termination
  by (relation "measure (\<lambda>(func, key, ctr32, iv, inp). length inp)")
    (auto, metis ctr32_take_pos diff_less less_le_trans mult_pos_pos zero_less_numeral)

declare ctr32_loop.simps [simp del]

definition CRYPTO_ctr128_encrypt_ctr32 ::
  "(bytes \<Rightarrow> nat \<Rightarrow> 'k \<Rightarrow> bytes \<Rightarrow> bytes) \<Rightarrow> 'k \<Rightarrow> ctr_state \<Rightarrow> bytes \<Rightarrow> (bytes \<times> ctr_state) option" where
  "CRYPTO_ctr128_encrypt_ctr32 func key s inp =
     (if \<not> num s < 16 then None
      else let (out1, inp, n) = head_loop (num s) (ecount_buf s) inp;
               ctr32 = CRYPTO_load_u32_be (drop 12 (ivec s));
               (out2, inp, iv, ctr32) = ctr32_loop func key ctr32 (ivec s) inp
           in if inp \<noteq> []
              then let ec = func (replicate 16 0) 1 key iv;
                       iv = put_ctr32 iv (ctr32 + 1);
                       (out3, n) = tail_loop n ec inp
                   in Some (out1 @ out2 @ out3, \<lparr>ivec = iv, ecount_buf = ec, num = n\<rparr>)
              else Some (out1 @ out2, \<lparr>ivec = iv, ecount_buf = ecount_buf s, num = n\<rparr>))"

text \<open>What \<open>ctr128_f\<close> promises: the blocks are XORed with the cipher of a counter whose last 32 bits go up.\<close>

definition ctr32_ok :: "(bytes \<Rightarrow> nat \<Rightarrow> 'k \<Rightarrow> bytes \<Rightarrow> bytes) \<Rightarrow> (bytes \<Rightarrow> 'k \<Rightarrow> bytes) \<Rightarrow> 'k \<Rightarrow> bool" where
  "ctr32_ok func block key \<longleftrightarrow>
     (\<forall>inp blocks iv. 16 * blocks \<le> length inp \<longrightarrow> length iv = 16 \<longrightarrow>
        func inp blocks key iv =
          map (\<lambda>i. inp ! i XOR block (take 12 iv @ be_bytes 4 (be_val (drop 12 iv) + i div 16)) key ! (i mod 16))
            [0..<16 * blocks])"

subsection \<open>The counter\<close>

lemma length_inc_loop [simp]: "length (inc_loop n c ctr) = length ctr"
  by (induction n c ctr rule: inc_loop.induct) (simp_all add: Let_def)

lemma len32: "(2 :: nat) ^ LENGTH(32) = 4294967296"
  by simp

lemma inc_loop_val:
  assumes "n \<le> length ctr" and "unat c \<le> 1"
  shows "take n (inc_loop n c ctr) = be_bytes n (be_val (take n ctr) + unat c) \<and>
         drop n (inc_loop n c ctr) = drop n ctr"
  using assms
proof (induction n arbitrary: c ctr)
  case (Suc n)
  let ?s = "c + ucast (ctr ! n)" and ?c = "drop_bit 8 (c + ucast (ctr ! n)) :: u32"
  let ?r = "inc_loop n ?c (ctr[n := ucast ?s])"
  have s: "unat ?s = unat c + unat (ctr ! n)"
  proof -
    have "unat c + unat (ctr ! n) < 2 ^ LENGTH(32)" using Suc.prems(2) unat_u8_less [of "ctr ! n"] unfolding len32 by linarith
    then show ?thesis by (simp add: unat_word_ariths)
  qed
  have c: "unat ?c = (unat c + unat (ctr ! n)) div 256" unfolding unat_shr s by simp
  have "unat ?c \<le> 1" using c Suc.prems(2) unat_u8_less [of "ctr ! n"] by linarith
  then have ih: "take n ?r = be_bytes n (be_val (take n ctr) + unat ?c)" "drop n ?r = drop n (ctr[n := ucast ?s])"
    using Suc.IH [of "ctr[n := ucast ?s]" ?c] Suc.prems(1) by simp_all
  have n: "n < length ctr" using Suc.prems(1) by simp
  have r: "?r = take n ?r @ drop n (ctr[n := ucast ?s])" using ih(2) by (metis append_take_drop_id)
  have d: "drop n (ctr[n := ucast ?s]) = ucast ?s # drop (Suc n) ctr"
    using n by (simp add: Cons_nth_drop_Suc [symmetric] drop_update_cancel)
  have v: "be_val (take (Suc n) ctr) + unat c = be_val (take n ctr) * 256 + (unat c + unat (ctr ! n))"
    using n by (simp add: take_Suc_conv_app_nth)
  have q: "(be_val (take n ctr) * 256 + (unat c + unat (ctr ! n))) div 256 = be_val (take n ctr) + unat ?c"
    unfolding c by simp
  have m: "(ucast ?s :: u8) = of_nat ((be_val (take n ctr) * 256 + (unat c + unat (ctr ! n))) mod 256)"
    using s by (intro unsigned_word_eqI [where ?'a = nat]) (simp add: unat_ucast_mod mod_mult_self3 del: of_nat_add)
  have "?r = be_bytes (Suc n) (be_val (take (Suc n) ctr) + unat c) @ drop (Suc n) ctr"
    unfolding v be_bytes.simps q m [symmetric] using r ih(1) d by simp
  then show ?case by (simp add: Let_def)
qed simp

lemma length_ctr128_inc [simp]: "length (ctr128_inc iv) = length iv"
  by (simp add: ctr128_inc_def)

lemma ctr128_inc_val: "length iv = 16 \<Longrightarrow> ctr128_inc iv = be_bytes 16 (be_val iv + 1)"
  using inc_loop_val [of 16 iv 1] by (simp add: ctr128_inc_def)

lemma ctr96_inc_val:
  "length iv = 16 \<Longrightarrow> ctr96_inc iv = be_bytes 12 (be_val (take 12 iv) + 1) @ drop 12 iv"
proof -
  assume "length iv = 16"
  then have "take 12 (inc_loop 12 1 iv) = be_bytes 12 (be_val (take 12 iv) + 1)" "drop 12 (inc_loop 12 1 iv) = drop 12 iv"
    using inc_loop_val [of 12 iv 1] by simp_all
  then show ?thesis unfolding ctr96_inc_def by (metis append_take_drop_id)
qed

lemma be_bytes_add: "be_bytes (m + n) v = be_bytes m (v div 256 ^ n) @ be_bytes n v"
proof (induction n arbitrary: v)
  case (Suc n)
  have "v div 256 div 256 ^ n = v div 256 ^ Suc n" by (simp add: div_mult2_eq)
  with Suc show ?case by simp
qed simp

lemma be_bytes_split: "be_bytes 16 (h * 4294967296 + l) = be_bytes 12 (h + l div 4294967296) @ be_bytes 4 l"
proof -
  have "be_bytes 4 (h * 4294967296 + l) = be_bytes 4 l"
    by (rule be_val_cong) (simp_all add: be_val_be_bytes del: be_bytes.simps)
  then show ?thesis using be_bytes_add [of 12 4 "h * 4294967296 + l"] by simp
qed

text \<open>The counter is the number in its upper 12 bytes, times \<open>2 ^ 32\<close>, plus the one in its last 4.\<close>

lemma counter_split:
  "length iv = 16 \<Longrightarrow> be_val iv = be_val (take 12 iv) * 4294967296 + be_val (drop 12 iv)"
  using be_val_append [of "take 12 iv" "drop 12 iv"] by simp

lemma counter_low:
  assumes "length iv = 16" and "be_val (drop 12 iv) + j < 4294967296"
  shows "take 12 iv @ be_bytes 4 (be_val (drop 12 iv) + j) = be_bytes 16 (be_val iv + j)"
proof -
  have "be_bytes 12 (be_val (take 12 iv)) = take 12 iv" using assms(1) by (intro be_bytes_unique) simp_all
  then show ?thesis
    using assms be_bytes_split [of "be_val (take 12 iv)" "be_val (drop 12 iv) + j"]
    unfolding counter_split [OF assms(1)] by (simp add: add.assoc)
qed

lemma put_ctr32_val:
  assumes iv: "length iv = 16" and k: "0 < k" "be_val (drop 12 iv) + k \<le> 4294967296"
  shows "put_ctr32 iv (of_nat (be_val (drop 12 iv) + k)) = be_bytes 16 (be_val iv + k)"
proof (cases "be_val (drop 12 iv) + k = 4294967296")
  case True
  then have "(of_nat (be_val (drop 12 iv) + k) :: u32) = 0" by (simp del: of_nat_add)
  moreover have "be_bytes 16 (be_val iv + k) = be_bytes 12 (be_val (take 12 iv) + 1) @ be_bytes 4 0"
  proof -
    have "be_val iv + k = (be_val (take 12 iv) + 1) * 4294967296 + 0" using True counter_split [OF iv] by simp
    then show ?thesis using be_bytes_split [of "be_val (take 12 iv) + 1" 0] by simp
  qed
  ultimately show ?thesis using iv
    by (simp add: put_ctr32_def store_u32_be ctr96_inc_val)
next
  case False
  let ?c = "of_nat (be_val (drop 12 iv) + k) :: u32"
  have u: "unat ?c = be_val (drop 12 iv) + k" using False k by (intro unat_of_nat_small) simp
  then have "?c \<noteq> 0" using k(1) by (metis add_is_0 less_numeral_extra(3) unsigned_0)
  then show ?thesis using iv False k u counter_low [of iv k]
    by (simp add: put_ctr32_def store_u32_be del: of_nat_add)
qed

subsection \<open>The reference: one byte after the other\<close>

definition ctr_step :: "(bytes \<Rightarrow> 'k \<Rightarrow> bytes) \<Rightarrow> 'k \<Rightarrow> ctr_state \<Rightarrow> u8 \<Rightarrow> u8 \<times> ctr_state" where
  "ctr_step block key s b =
     (let s = (if num s = 0 then s\<lparr>ivec := ctr128_inc (ivec s), ecount_buf := block (ivec s) key\<rparr> else s)
      in (b XOR ecount_buf s ! num s, s\<lparr>num := (num s + 1) mod 16\<rparr>))"

definition ctr_ok :: "(bytes \<Rightarrow> 'k \<Rightarrow> bytes) \<Rightarrow> 'k \<Rightarrow> ctr_state \<Rightarrow> bool" where
  "ctr_ok block key s \<longleftrightarrow> block_ok block key \<and> length (ivec s) = 16 \<and> length (ecount_buf s) = 16 \<and> num s < 16"

lemma ctr_step_ok: "ctr_ok block key s \<Longrightarrow> ctr_ok block key (snd (ctr_step block key s b))"
  by (simp add: ctr_ok_def ctr_step_def block_length Let_def)

lemma ctr_within:
  "0 < num s \<Longrightarrow> num s < 16 \<Longrightarrow> num s + length bs \<le> 16 \<Longrightarrow> length (ecount_buf s) = 16 \<Longrightarrow>
     run (ctr_step block key) s bs
       = (map2 (XOR) bs (drop (num s) (ecount_buf s)), s\<lparr>num := (num s + length bs) mod 16\<rparr>)"
proof (induction bs arbitrary: s)
  case (Cons b bs)
  have d: "drop (num s) (ecount_buf s) = ecount_buf s ! num s # drop (Suc (num s)) (ecount_buf s)"
    using Cons.prems by (simp add: Cons_nth_drop_Suc)
  show ?case
  proof (cases "bs = []")
    case True
    then show ?thesis using Cons.prems d by (simp add: ctr_step_def)
  next
    case False
    then have "Suc (num s) < 16" using Cons.prems by (cases bs) auto
    then show ?thesis using Cons.IH [of "s\<lparr>num := Suc (num s)\<rparr>"] Cons.prems d by (simp add: ctr_step_def)
  qed
qed simp

text \<open>At the start of a block the cipher is called once and up to 16 bytes are XORed with the result.\<close>

lemma ctr_block:
  assumes "num s = 0" and "bs \<noteq> []" and "length bs \<le> 16" and "length (block (ivec s) key) = 16"
  shows "run (ctr_step block key) s bs = (map2 (XOR) bs (block (ivec s) key),
     \<lparr>ivec = ctr128_inc (ivec s), ecount_buf = block (ivec s) key, num = length bs mod 16\<rparr>)"
proof -
  obtain b bs' where bs: "bs = b # bs'" using assms(2) by (cases bs) auto
  let ?s = "\<lparr>ivec = ctr128_inc (ivec s), ecount_buf = block (ivec s) key, num = 1\<rparr>"
  obtain x xs where d: "block (ivec s) key = x # xs" using assms(4) by (cases "block (ivec s) key") auto
  have "ctr_step block key s b = (b XOR x, ?s)"
    using assms(1) d by (simp add: ctr_step_def)
  moreover have "run (ctr_step block key) ?s bs' = (map2 (XOR) bs' xs, ?s\<lparr>num := length bs mod 16\<rparr>)"
    using ctr_within [of ?s bs' block key] assms(3,4) bs d by simp
  ultimately show ?thesis unfolding bs using d by simp
qed

lemma head_loop_run:
  assumes "num s < 16" and "head_loop (num s) (ecount_buf s) inp = (out, rest, n)"
  shows "n < 16 \<and> (rest \<noteq> [] \<longrightarrow> n = 0) \<and>
    run (ctr_step block key) s inp =
      (let (cs, t) = run (ctr_step block key) (s\<lparr>num := n\<rparr>) rest in (out @ cs, t))"
  using assms
proof (induction inp arbitrary: s out)
  case (Cons b inp)
  show ?case
  proof (cases "num s = 0")
    case False
    obtain out' where o: "head_loop ((num s + 1) mod 16) (ecount_buf s) inp = (out', rest, n)"
        "out = (b XOR ecount_buf s ! num s) # out'"
      using Cons.prems False by (auto split: prod.splits)
    then show ?thesis
      using Cons.IH [of "s\<lparr>num := (num s + 1) mod 16\<rparr>" out'] False
      by (auto simp: ctr_step_def split: prod.splits)
  next
    case True
    then have o: "n = 0" "rest = b # inp" "out = []" using Cons.prems by auto
    have "s\<lparr>num := 0\<rparr> = s" using True by (cases s) simp
    then show ?thesis unfolding o by (simp only: Let_def case_prod_beta append_Nil prod.collapse) simp
  qed
qed auto

lemma blocks_loop_run:
  assumes "blocks_loop block key n iv ec inp = (out, rest, iv', ec', n')"
    and "block_ok block key" and "length iv = 16" and "16 \<le> length inp \<longrightarrow> n = 0"
  shows "length rest < 16 \<and> length iv' = 16 \<and> (n = 0 \<longrightarrow> n' = 0) \<and> (n \<noteq> 0 \<longrightarrow> n' = n) \<and>
    (length ec = 16 \<longrightarrow> length ec' = 16) \<and>
    run (ctr_step block key) \<lparr>ivec = iv, ecount_buf = ec, num = n\<rparr> inp =
      (let (cs, t) = run (ctr_step block key) \<lparr>ivec = iv', ecount_buf = ec', num = n'\<rparr> rest in (out @ cs, t))"
  using assms
proof (induction block key n iv ec inp arbitrary: out rule: blocks_loop.induct)
  case (1 block key n iv ec inp)
  show ?case
  proof (cases "16 \<le> length inp")
    case True
    let ?ec = "block iv key" and ?iv = "ctr128_inc iv"
    have ec: "length ?ec = 16" using "1.prems"(2,3) by (rule block_length)
    obtain out' where o: "blocks_loop block key 0 ?iv ?ec (drop 16 inp) = (out', rest, iv', ec', n')"
        "out = xor_words 0 inp ?ec @ out'"
      using "1.prems"(1) True by (subst (asm) blocks_loop.simps) (auto split: prod.splits simp: Let_def)
    have "take 16 inp \<noteq> []" using True by (cases inp) auto
    then have "run (ctr_step block key) \<lparr>ivec = iv, ecount_buf = ec, num = n\<rparr> inp =
        (let (ds, u) = run (ctr_step block key) \<lparr>ivec = ?iv, ecount_buf = ?ec, num = 0\<rparr> (drop 16 inp)
         in (xor_words 0 inp ?ec @ ds, u))"
      using run_append [of "ctr_step block key" _ "take 16 inp" "drop 16 inp"] True "1.prems"(4) ec
        ctr_block [of "\<lparr>ivec = iv, ecount_buf = ec, num = n\<rparr>" "take 16 inp" block key]
      by (auto simp: xor_words_16 split: prod.splits)
    moreover note "1.IH" [OF True refl refl o(1)]
    ultimately show ?thesis using o(2) "1.prems" True ec by (auto split: prod.splits)
  next
    case False
    then show ?thesis using "1.prems" by (subst (asm) blocks_loop.simps) auto
  qed
qed

lemma tail_loop_0: "length inp \<le> length ks \<Longrightarrow> tail_loop 0 ks inp = (map2 (XOR) inp ks, length inp)"
  by (auto simp: tail_loop_def intro!: nth_equalityI)

text \<open>The three loops together go through the bytes one by one, whatever the position they start from.\<close>

lemma CRYPTO_ctr128_encrypt_run:
  assumes ok: "ctr_ok block key s"
  shows "CRYPTO_ctr128_encrypt block key s inp = Some (run (ctr_step block key) s inp)"
proof -
  obtain out1 inp1 n1 where h: "head_loop (num s) (ecount_buf s) inp = (out1, inp1, n1)"
    by (cases "head_loop (num s) (ecount_buf s) inp") auto
  obtain out2 inp2 iv2 ec2 n2 where
    b: "blocks_loop block key n1 (ivec s) (ecount_buf s) inp1 = (out2, inp2, iv2, ec2, n2)"
    by (cases "blocks_loop block key n1 (ivec s) (ecount_buf s) inp1") auto
  have r1: "n1 < 16" "inp1 \<noteq> [] \<longrightarrow> n1 = 0"
    "run (ctr_step block key) s inp =
      (let (cs, t) = run (ctr_step block key) (s\<lparr>num := n1\<rparr>) inp1 in (out1 @ cs, t))"
    using head_loop_run [OF _ h, of block key] ok by (auto simp: ctr_ok_def)
  have "block_ok block key" "length (ivec s) = 16" "16 \<le> length inp1 \<longrightarrow> n1 = 0"
    using ok r1(2) by (auto simp: ctr_ok_def)
  note r2 = blocks_loop_run [OF b this]
  have s1: "s\<lparr>num := n1\<rparr> = \<lparr>ivec = ivec s, ecount_buf = ecount_buf s, num = n1\<rparr>" by (cases s) simp
  let ?t = "\<lparr>ivec = iv2, ecount_buf = ec2, num = n2\<rparr>"
  have r: "run (ctr_step block key) s inp =
      (let (cs, t) = run (ctr_step block key) ?t inp2 in (out1 @ out2 @ cs, t))"
    unfolding r1(3) s1 using r2 by (simp add: case_prod_beta Let_def)
  have e: "inp1 = [] \<Longrightarrow> inp2 = []" using b by (subst (asm) blocks_loop.simps) auto
  show ?thesis
  proof (cases "inp2 = []")
    case True
    then show ?thesis using h b r ok by (simp add: CRYPTO_ctr128_encrypt_def ctr_ok_def)
  next
    case False
    then have "n2 = 0" using e r1(2) r2 by auto
    moreover have "length (block iv2 key) = 16" using ok r2 by (auto simp: ctr_ok_def intro: block_length)
    ultimately have "run (ctr_step block key) ?t inp2 = (map2 (XOR) inp2 (block iv2 key),
        \<lparr>ivec = ctr128_inc iv2, ecount_buf = block iv2 key, num = length inp2\<rparr>)"
        "tail_loop n2 (block iv2 key) inp2 = (map2 (XOR) inp2 (block iv2 key), length inp2)"
      using ctr_block [of ?t inp2 block key] False r2 by (auto simp: tail_loop_0)
    then show ?thesis using h b r ok False by (simp add: CRYPTO_ctr128_encrypt_def ctr_ok_def Let_def)
  qed
qed

interpretation ctr_mode: stream_pair "ctr_ok block key" "ctr_step block key" "ctr_step block key"
    "CRYPTO_ctr128_encrypt block key" "CRYPTO_ctr128_encrypt block key" for block key
proof unfold_locales
  fix s t :: ctr_state and b c
  assume "ctr_step block key s b = (c, t)"
  then show "ctr_step block key s c = (b, t)"
    by (auto simp: ctr_step_def Let_def xor.assoc split: if_splits)
qed (auto intro: ctr_step_ok CRYPTO_ctr128_encrypt_run)

subsection \<open>The key stream\<close>

text \<open>Byte \<open>i\<close> of the key stream of the counter \<open>iv\<close>, which is a number of 128 bits that wraps.\<close>

definition keystream :: "(bytes \<Rightarrow> 'k \<Rightarrow> bytes) \<Rightarrow> 'k \<Rightarrow> bytes \<Rightarrow> nat \<Rightarrow> u8" where
  "keystream block key iv i = block (be_bytes 16 (be_val iv + i div 16)) key ! (i mod 16)"

lemma be_bytes_inc:
  "ctr128_inc (be_bytes 16 v) = be_bytes 16 (v + 1)"
  by (rule be_val_cong) (simp_all add: ctr128_inc_val be_val_be_bytes mod_Suc_eq del: be_bytes.simps)

text \<open>The number of blocks begun after \<open>n\<close> bytes.\<close>

lemma blocks_begun:
  fixes n :: nat
  shows "n mod 16 = 0 \<Longrightarrow> (n + 15) div 16 = n div 16 \<and> (Suc n + 15) div 16 = n div 16 + 1"
    and "n mod 16 \<noteq> 0 \<Longrightarrow> (Suc n + 15) div 16 = (n + 15) div 16"
proof -
  obtain q r where n: "n = q * 16 + r" "r < 16" "q = n div 16" "r = n mod 16" by simp
  have "(q * 16 + r + 15) div 16 = q + (r + 15) div 16" "(Suc (q * 16 + r) + 15) div 16 = q + (Suc r + 15) div 16"
    unfolding add_Suc [symmetric] add.assoc by simp_all
  then have e: "(n + 15) div 16 = q + (r + 15) div 16" "(Suc n + 15) div 16 = q + (Suc r + 15) div 16"
    unfolding n(1) .
  have "(Suc r + 15) div 16 = 1" using n(2) by (intro div_nat_eqI) simp_all
  moreover have "(r + 15) div 16 = 1" if "r \<noteq> 0" using n(2) that by (intro div_nat_eqI) simp_all
  ultimately show "n mod 16 = 0 \<Longrightarrow> (n + 15) div 16 = n div 16 \<and> (Suc n + 15) div 16 = n div 16 + 1"
    and "n mod 16 \<noteq> 0 \<Longrightarrow> (Suc n + 15) div 16 = (n + 15) div 16"
    using e unfolding n(3,4) [symmetric] by simp_all
qed

lemma keystream_run:
  assumes "ctr_ok block key s" and "num s = 0"
  shows "\<exists>t. run (ctr_step block key) s bs = (map (\<lambda>i. bs ! i XOR keystream block key (ivec s) i) [0..<length bs], t)
    \<and> num t = length bs mod 16 \<and> ivec t = be_bytes 16 (be_val (ivec s) + (length bs + 15) div 16)
    \<and> (num t \<noteq> 0 \<longrightarrow> ecount_buf t = block (be_bytes 16 (be_val (ivec s) + length bs div 16)) key)"
proof (induction bs rule: rev_induct)
  case Nil
  have "be_bytes 16 (be_val (ivec s)) = ivec s" using assms(1) by (intro be_bytes_unique) (simp_all add: ctr_ok_def)
  then show ?case using assms(2) by simp
next
  case (snoc b bs)
  let ?v = "be_val (ivec s)" and ?n = "length bs"
  obtain t where t: "run (ctr_step block key) s bs = (map (\<lambda>i. bs ! i XOR keystream block key (ivec s) i) [0..<?n], t)"
      "num t = ?n mod 16" "ivec t = be_bytes 16 (?v + (?n + 15) div 16)"
      "num t \<noteq> 0 \<longrightarrow> ecount_buf t = block (be_bytes 16 (?v + ?n div 16)) key"
    using snoc by blast
  let ?ks = "block (be_bytes 16 (?v + ?n div 16)) key"
  have step: "ctr_step block key t b = (b XOR ?ks ! (?n mod 16),
      \<lparr>ivec = be_bytes 16 (?v + (Suc ?n + 15) div 16), ecount_buf = ?ks, num = Suc ?n mod 16\<rparr>)"
  proof (cases "?n mod 16 = 0")
    case True
    have m: "Suc (?n mod 16) mod 16 = Suc ?n mod 16" by (rule mod_Suc_eq)
    from True have e: "(?n + 15) div 16 = ?n div 16" "(Suc ?n + 15) div 16 = ?n div 16 + 1" by (simp_all only: blocks_begun(1))
    have "num t = 0" "ivec t = be_bytes 16 (?v + ?n div 16)" using t(2,3) True e(1) by simp_all
    then show ?thesis unfolding e(2) m [symmetric] True ctr_step_def by (simp add: be_bytes_inc add.assoc)
  next
    case False
    then have e: "(Suc ?n + 15) div 16 = (?n + 15) div 16" by (rule blocks_begun(2))
    have m: "(num t + 1) mod 16 = Suc ?n mod 16" unfolding t(2) by (simp add: mod_Suc_eq)
    have "num t \<noteq> 0" "ecount_buf t = ?ks" using t(2,4) False by simp_all
    have u: "t\<lparr>num := x\<rparr> = \<lparr>ivec = ivec t, ecount_buf = ecount_buf t, num = x\<rparr>" for x by (cases t) simp
    have "ctr_step block key t b = (b XOR ecount_buf t ! num t, t\<lparr>num := (num t + 1) mod 16\<rparr>)"
      using \<open>num t \<noteq> 0\<close> by (simp add: ctr_step_def)
    then show ?thesis unfolding u m \<open>ecount_buf t = ?ks\<close> t(2,3) e
      by (simp only: mod_Suc_eq Suc_eq_plus1 [symmetric])
  qed
  have m: "map (\<lambda>i. (bs @ [b]) ! i XOR keystream block key (ivec s) i) [0..<?n]
      = map (\<lambda>i. bs ! i XOR keystream block key (ivec s) i) [0..<?n]"
    by (rule map_cong) (simp_all add: nth_append)
  have d: "Suc ?n mod 16 \<noteq> 0 \<Longrightarrow> Suc ?n div 16 = ?n div 16" by (simp add: div_Suc)
  show ?case
  proof (intro exI [of _ "\<lparr>ivec = be_bytes 16 (?v + (Suc ?n + 15) div 16), ecount_buf = ?ks, num = Suc ?n mod 16\<rparr>"]
      conjI)
    have k: "(bs @ [b]) ! ?n XOR keystream block key (ivec s) ?n = b XOR ?ks ! (?n mod 16)"
      by (simp add: keystream_def)
    have l: "[0..<length (bs @ [b])] = [0..<?n] @ [?n]" by simp
    show "run (ctr_step block key) s (bs @ [b]) =
        (map (\<lambda>i. (bs @ [b]) ! i XOR keystream block key (ivec s) i) [0..<length (bs @ [b])],
         \<lparr>ivec = be_bytes 16 (?v + (Suc ?n + 15) div 16), ecount_buf = ?ks, num = Suc ?n mod 16\<rparr>)"
      unfolding l map_append m list.map k run_append t(1) by (simp only: Let_def case_prod_conv run.simps step)
  qed (use d in simp_all)
qed

subsection \<open>Counting in 32 bits\<close>

lemma ctr32_take_val:
  assumes "(k, d) = ctr32_take c len" and "16 \<le> len"
  shows "0 < k \<and> 16 * k \<le> len \<and> unat c + k \<le> 4294967296 \<and> d = of_nat (unat c + k)"
proof -
  define B where "B = (if len div 16 > 2 ^ 28 then 2 ^ 28 else len div 16)"
  have B: "0 < B" "16 * B \<le> len" "B \<le> 268435456" using assms(2) unfolding B_def by (auto simp: div_greater_zero_iff)
  have u: "unat (c + of_nat B) = (unat c + B) mod 4294967296"
    using B(3) by (simp add: unat_word_ariths unat_of_nat_small)
  have kd: "(k, d) = (if unat (c + of_nat B) < B then (B - unat (c + of_nat B), 0) else (B, c + of_nat B))"
    using assms(1) by (simp add: ctr32_take_def B_def Let_def split: if_splits)
  show ?thesis
  proof (cases "unat c + B < 4294967296")
    case True
    then have "k = B" "d = c + of_nat B" using kd u by simp_all
    then show ?thesis using True B by simp
  next
    case False
    then have "unat (c + of_nat B) = unat c + B - 4294967296"
      using u B(3) unat_u32_less [of c] by (simp add: le_mod_geq)
    moreover have lt: "unat c + B - 4294967296 < B" using B(1) unat_u32_less [of c] by linarith
    ultimately have "k = B - (unat c + B - 4294967296)" "d = 0" using kd by simp_all
    then have kd': "k = 4294967296 - unat c" "d = 0" using False by simp_all
    have sum: "unat c + k = 4294967296" using kd'(1) unat_u32_less [of c] by linarith
    then have "d = of_nat (unat c + k)" using kd'(2) by (simp del: of_nat_add)
    moreover have "0 < k" "k \<le> B" using kd'(1) False unat_u32_less [of c] by linarith+
    ultimately show ?thesis using sum B(2) by simp
  qed
qed

text \<open>A 32 bit routine over the toy cipher.\<close>

definition toy_ctr32 :: "bytes \<Rightarrow> nat \<Rightarrow> bytes \<Rightarrow> bytes \<Rightarrow> bytes" where
  "toy_ctr32 inp blocks key iv =
     map (\<lambda>i. inp ! i XOR toy_block (take 12 iv @ be_bytes 4 (be_val (drop 12 iv) + i div 16)) key ! (i mod 16))
       [0..<16 * blocks]"

lemma toy_ctr32_ok: "ctr32_ok toy_ctr32 toy_block key"
  by (simp add: ctr32_ok_def toy_ctr32_def)

definition ctr_same :: "ctr_state \<Rightarrow> ctr_state \<Rightarrow> bool" where
  "ctr_same t u \<longleftrightarrow> ivec u = ivec t \<and> num u = num t \<and> (num t \<noteq> 0 \<longrightarrow> ecount_buf u = ecount_buf t)
     \<and> length (ecount_buf u) = length (ecount_buf t)"

lemma ctr_same_step: "ctr_same t u \<Longrightarrow> ctr_step block key u b = ctr_step block key t b"
  by (cases t; cases u) (auto simp: ctr_same_def ctr_step_def Let_def)

lemma ctr_same_run:
  assumes "ctr_same t u"
  shows "fst (run (ctr_step block key) u bs) = fst (run (ctr_step block key) t bs) \<and>
    ctr_same (snd (run (ctr_step block key) t bs)) (snd (run (ctr_step block key) u bs))"
proof (cases bs)
  case (Cons b bs')
  have "run (ctr_step block key) u bs = run (ctr_step block key) t bs"
    unfolding Cons run.simps ctr_same_step [OF assms] ..
  then show ?thesis by (simp add: ctr_same_def)
qed (use assms in simp)

text \<open>One turn of the loop is the byte-wise run over the blocks it takes.\<close>

lemma ctr32_turn:
  assumes f: "ctr32_ok func block key" and s: "ctr_ok block key s" "num s = 0"
    and k: "16 * k \<le> length inp" "be_val (drop 12 (ivec s)) + k \<le> 4294967296" "0 < k"
  shows "\<exists>t. run (ctr_step block key) s (take (16 * k) inp) = (func inp k key (ivec s), t) \<and> num t = 0
     \<and> ctr_ok block key t \<and> ivec t = put_ctr32 (ivec s) (of_nat (be_val (drop 12 (ivec s)) + k))
     \<and> CRYPTO_load_u32_be (drop 12 (ivec t)) = of_nat (be_val (drop 12 (ivec s)) + k)"
proof -
  let ?iv = "ivec s" and ?lo = "be_val (drop 12 (ivec s))"
  have iv: "length ?iv = 16" using s(1) by (simp add: ctr_ok_def)
  obtain t where t: "run (ctr_step block key) s (take (16 * k) inp)
        = (map (\<lambda>i. take (16 * k) inp ! i XOR keystream block key ?iv i) [0..<length (take (16 * k) inp)], t)"
      "num t = length (take (16 * k) inp) mod 16" "ivec t = be_bytes 16 (be_val ?iv + (length (take (16 * k) inp) + 15) div 16)"
    using keystream_run [OF s, of "take (16 * k) inp"] by blast
  have len: "length (take (16 * k) inp) = 16 * k" "(16 * k + 15) div 16 = k" using k(1) by simp_all
  have "func inp k key ?iv = map (\<lambda>i. take (16 * k) inp ! i XOR keystream block key ?iv i) [0..<16 * k]"
  proof -
    have "func inp k key ?iv =
        map (\<lambda>i. inp ! i XOR block (take 12 ?iv @ be_bytes 4 (?lo + i div 16)) key ! (i mod 16)) [0..<16 * k]"
      using f k(1) iv by (simp add: ctr32_ok_def)
    also have "\<dots> = map (\<lambda>i. take (16 * k) inp ! i XOR keystream block key ?iv i) [0..<16 * k]"
    proof (rule map_cong [OF refl])
      fix i assume "i \<in> set [0..<16 * k]"
      then have "i < 16 * k" by simp
      then have "i div 16 < k" by (simp add: div_less_iff_less_mult mult.commute)
      then show "inp ! i XOR block (take 12 ?iv @ be_bytes 4 (?lo + i div 16)) key ! (i mod 16)
          = take (16 * k) inp ! i XOR keystream block key ?iv i"
        using counter_low [OF iv, of "i div 16"] k(2) \<open>i < 16 * k\<close> by (simp add: keystream_def)
    qed
    finally show ?thesis .
  qed
  moreover have "ctr_ok block key t" using ctr_mode.enc.run_ok [OF s(1), of "take (16 * k) inp"] t(1) by simp
  moreover have put: "ivec t = put_ctr32 ?iv (of_nat (?lo + k))"
    using t(3) put_ctr32_val [OF iv k(3,2)] len by simp
  moreover have "CRYPTO_load_u32_be (drop 12 (ivec t)) = of_nat (?lo + k)"
  proof -
    have "drop 12 (ivec t) = be_bytes 4 (?lo + k)"
      using be_bytes_split [of "be_val (take 12 ?iv)" "?lo + k"] t(3) len counter_split [OF iv]
      by (simp add: add.assoc)
    then show ?thesis
      by (intro unsigned_word_eqI [where ?'a = nat]) (simp add: unat_load_u32_be be_val_be_bytes unat_of_nat del: of_nat_add)
  qed
  ultimately show ?thesis using t(1,2) len by simp
qed

lemma ctr32_loop_run:
  assumes "ctr32_ok func block key" and "ctr32_loop func key c (ivec s) inp = (out, rest, iv', c')"
    and "ctr_ok block key s" and "num s = 0" and "c = CRYPTO_load_u32_be (drop 12 (ivec s))"
  shows "\<exists>t. run (ctr_step block key) s inp = (let (cs, u) = run (ctr_step block key) t rest in (out @ cs, u))
    \<and> ctr_ok block key t \<and> num t = 0 \<and> ivec t = iv' \<and> c' = CRYPTO_load_u32_be (drop 12 iv') \<and> length rest < 16"
  using assms(2-)
proof (induction "length inp" arbitrary: inp c s out rule: less_induct)
  case less
  have iv: "length (ivec s) = 16" using less.prems(2) by (simp add: ctr_ok_def)
  have c: "unat c = be_val (drop 12 (ivec s))" using less.prems(4) iv by (simp add: unat_load_u32_be)
  show ?case
  proof (cases "16 \<le> length inp")
    case False
    then have "out = [] \<and> rest = inp \<and> iv' = ivec s \<and> c' = c"
      using less.prems(1) by (subst (asm) ctr32_loop.simps) auto
    then show ?thesis using less.prems False by (intro exI [of _ s]) auto
  next
    case True
    obtain k d where kd: "(k, d) = ctr32_take c (length inp)" by (metis surj_pair)
    have v: "16 * k \<le> length inp" "be_val (drop 12 (ivec s)) + k \<le> 4294967296" "0 < k"
        "d = of_nat (be_val (drop 12 (ivec s)) + k)"
      using ctr32_take_val [OF kd True] unfolding c by blast+
    obtain out' where o: "ctr32_loop func key d (put_ctr32 (ivec s) d) (drop (k * 16) inp) = (out', rest, iv', c')"
        "out = func inp k key (ivec s) @ out'"
      using less.prems(1) True unfolding ctr32_loop.simps [of func key c] kd [symmetric]
      by (cases "ctr32_loop func key d (put_ctr32 (ivec s) d) (drop (k * 16) inp)") (simp add: Let_def)
    obtain t where t: "run (ctr_step block key) s (take (16 * k) inp) = (func inp k key (ivec s), t)" "num t = 0"
        "ctr_ok block key t" "ivec t = put_ctr32 (ivec s) d" "CRYPTO_load_u32_be (drop 12 (ivec t)) = d"
      using ctr32_turn [OF assms(1) less.prems(2,3) v(1-3)] unfolding v(4) by blast
    have "length (drop (k * 16) inp) < length inp" using v(3) True by auto
    then obtain u where u: "run (ctr_step block key) t (drop (k * 16) inp)
          = (let (cs, w) = run (ctr_step block key) u rest in (out' @ cs, w))"
        "ctr_ok block key u" "num u = 0" "ivec u = iv'" "c' = CRYPTO_load_u32_be (drop 12 iv')" "length rest < 16"
      using less.hyps [of "drop (k * 16) inp" d t out'] o(1) t(2-5) unfolding t(4) by metis
    have "run (ctr_step block key) s inp = (let (cs, w) = run (ctr_step block key) u rest in (out @ cs, w))"
      using run_append [of "ctr_step block key" s "take (16 * k) inp" "drop (16 * k) inp"] t(1) u(1) o(2)
      by (simp add: mult.commute case_prod_beta Let_def)
    then show ?thesis using u by blast
  qed
qed

lemma func_one:
  assumes "ctr32_ok func block key" and "block_ok block key" and "length iv = 16"
  shows "func (replicate 16 0) 1 key iv = block iv key"
proof -
  have "be_bytes 4 (be_val (drop 12 iv)) = drop 12 iv" using assms(3) by (intro be_bytes_unique) simp_all
  then have "func (replicate 16 0) 1 key iv = map (\<lambda>i. block iv key ! i) [0..<16]"
    using assms(1,3) by (simp add: ctr32_ok_def del: upt_rec_numeral) (simp cong: map_cong add: map_eq_conv)?
  also have "\<dots> = block iv key"
    using map_nth_upt_take [of 16 "block iv key"] block_length [OF assms(2,3)] by simp
  finally show ?thesis .
qed

lemma CRYPTO_ctr128_encrypt_ctr32_run:
  assumes f: "ctr32_ok func block key" and ok: "ctr_ok block key s"
  shows "\<exists>u. CRYPTO_ctr128_encrypt_ctr32 func key s inp = Some (fst (run (ctr_step block key) s inp), u) \<and>
    ctr_same (snd (run (ctr_step block key) s inp)) u"
proof -
  obtain out1 inp1 n1 where h: "head_loop (num s) (ecount_buf s) inp = (out1, inp1, n1)"
    by (cases "head_loop (num s) (ecount_buf s) inp") auto
  let ?c = "CRYPTO_load_u32_be (drop 12 (ivec s))"
  obtain out2 inp2 iv2 c2 where b: "ctr32_loop func key ?c (ivec s) inp1 = (out2, inp2, iv2, c2)"
    by (cases "ctr32_loop func key ?c (ivec s) inp1") auto
  have r1: "n1 < 16" "inp1 \<noteq> [] \<longrightarrow> n1 = 0"
    "run (ctr_step block key) s inp =
      (let (cs, t) = run (ctr_step block key) (s\<lparr>num := n1\<rparr>) inp1 in (out1 @ cs, t))"
    using head_loop_run [OF _ h, of block key] ok by (auto simp: ctr_ok_def)
  show ?thesis
  proof (cases "inp1 = []")
    case True
    then have "out2 = [] \<and> inp2 = [] \<and> iv2 = ivec s" using b by (subst (asm) ctr32_loop.simps) auto
    then show ?thesis using h b r1 ok True
      by (simp add: CRYPTO_ctr128_encrypt_ctr32_def ctr_ok_def ctr_same_def)
  next
    case False
    then have n1: "n1 = 0" using r1(2) by simp
    have ok1: "ctr_ok block key (s\<lparr>num := n1\<rparr>)" using ok r1(1) by (simp add: ctr_ok_def)
    have sel: "ivec (s\<lparr>num := n1\<rparr>) = ivec s" "num (s\<lparr>num := n1\<rparr>) = n1" by simp_all
    obtain t where t: "run (ctr_step block key) (s\<lparr>num := n1\<rparr>) inp1
          = (let (cs, u) = run (ctr_step block key) t inp2 in (out2 @ cs, u))"
        "ctr_ok block key t" "num t = 0" "ivec t = iv2" "c2 = CRYPTO_load_u32_be (drop 12 iv2)" "length inp2 < 16"
      using ctr32_loop_run [OF f _ ok1, of ?c inp1 out2 inp2 iv2 c2] b n1 unfolding sel by metis
    have r: "run (ctr_step block key) s inp = (let (cs, u) = run (ctr_step block key) t inp2 in (out1 @ out2 @ cs, u))"
      unfolding r1(3) t(1) by (simp add: case_prod_beta Let_def)
    have iv2: "length iv2 = 16" and ec: "length (ecount_buf t) = 16" and bk: "block_ok block key"
      using t(2,4) by (auto simp: ctr_ok_def)
    show ?thesis
    proof (cases "inp2 = []")
      case True
      then show ?thesis using h b r ok t ec n1
        by (simp add: CRYPTO_ctr128_encrypt_ctr32_def ctr_ok_def ctr_same_def)
    next
      case inp2: False
      have one: "func (replicate 16 0) 1 key iv2 = block iv2 key" by (rule func_one [OF f bk iv2])
      have "be_val (drop 12 iv2) < 4294967296" using be_val_less [of "drop 12 iv2"] iv2 by simp
      moreover have "c2 + 1 = of_nat (be_val (drop 12 iv2) + 1)"
        using t(5) iv2 by (simp add: add.commute flip: unat_load_u32_be)
      ultimately have put: "put_ctr32 iv2 (c2 + 1) = ctr128_inc iv2"
        using put_ctr32_val [OF iv2, of 1] ctr128_inc_val [OF iv2] by (simp add: add.commute)
      have "run (ctr_step block key) t inp2 = (map2 (XOR) inp2 (block iv2 key),
          \<lparr>ivec = ctr128_inc iv2, ecount_buf = block iv2 key, num = length inp2\<rparr>)"
        using ctr_block [of t inp2 block key] inp2 t block_length [OF bk iv2] by simp
      then show ?thesis using h b r ok inp2 one put n1 t(6) block_length [OF bk iv2]
        by (simp add: CRYPTO_ctr128_encrypt_ctr32_def ctr_ok_def ctr_same_def tail_loop_0 Let_def)
    qed
  qed
qed

text \<open>The two routines agree on every sequence of pieces; only a used-up \<open>ecount_buf\<close> may differ.\<close>

lemma ctr32_feed:
  assumes f: "ctr32_ok func block key"
  shows "ctr_ok block key t \<Longrightarrow> ctr_ok block key u \<Longrightarrow> ctr_same t u \<Longrightarrow>
    \<exists>v w. feed (CRYPTO_ctr128_encrypt block key) t ps = Some (fst (run (ctr_step block key) t (concat ps)), v) \<and>
      feed (CRYPTO_ctr128_encrypt_ctr32 func key) u ps = Some (fst (run (ctr_step block key) t (concat ps)), w) \<and>
      ctr_same v w"
proof (induction ps arbitrary: t u)
  case (Cons p ps)
  let ?run = "run (ctr_step block key)"
  obtain w where w: "CRYPTO_ctr128_encrypt_ctr32 func key u p = Some (fst (?run u p), w)" "ctr_same (snd (?run u p)) w"
    using CRYPTO_ctr128_encrypt_ctr32_run [OF f Cons.prems(2)] by blast
  note tu = ctr_same_run [OF Cons.prems(3), of block key p]
  have tw: "ctr_same (snd (?run t p)) w" using tu w(2) by (auto simp: ctr_same_def)
  have okt: "ctr_ok block key (snd (?run t p))" using ctr_mode.enc.run_ok [OF Cons.prems(1)] .
  then have "ctr_ok block key w" using tw by (simp add: ctr_ok_def ctr_same_def)
  from Cons.IH [OF okt this tw] show ?case
    using w(1) tu CRYPTO_ctr128_encrypt_run [OF Cons.prems(1), of p]
    by (auto simp: run_append case_prod_beta Let_def)
qed simp

lemma be_val_ones: "be_val (replicate n 255) = 256 ^ n - 1"
proof (induction n)
  case (Suc n)
  have "(1 :: nat) \<le> 256 ^ n" by simp
  with Suc show ?case by (simp add: be_val_Cons)
qed simp

subsection \<open>The properties\<close>

text \<open>
  C34. However a text is cut into calls, \<open>CRYPTO_ctr128_encrypt\<close> XORs byte \<open>i\<close> of it with byte
  \<open>i mod 16\<close> of the cipher of the counter \<open>ivec + i div 16\<close> (modulo \<open>2 ^ 128\<close>, big-endian), and leaves
  the counter of the next block and the position inside the current one behind.
\<close>

theorem ctr128_keystream:
  assumes "block_ok block key" and "length iv = 16" and "length ec = 16"
  shows "\<exists>t. feed (CRYPTO_ctr128_encrypt block key) \<lparr>ivec = iv, ecount_buf = ec, num = 0\<rparr> pieces =
      Some (map (\<lambda>i. concat pieces ! i XOR keystream block key iv i) [0..<length (concat pieces)], t)
    \<and> num t = length (concat pieces) mod 16
    \<and> ivec t = be_bytes 16 (be_val iv + (length (concat pieces) + 15) div 16)"
proof -
  let ?s = "\<lparr>ivec = iv, ecount_buf = ec, num = 0\<rparr>"
  have ok: "ctr_ok block key ?s" using assms by (simp add: ctr_ok_def)
  from keystream_run [OF ok, of "concat pieces"] show ?thesis
    unfolding ctr_mode.enc.feed_run [OF ok] by auto
qed

theorem ctr128_keystream_witness:
  "\<exists>t. feed (CRYPTO_ctr128_encrypt toy_block (replicate 16 7))
        \<lparr>ivec = replicate 16 255, ecount_buf = replicate 16 0, num = 0\<rparr> [[1, 2, 3], replicate 30 9] =
      Some (map (\<lambda>i. concat [[1, 2, 3], replicate 30 9] ! i
              XOR keystream toy_block (replicate 16 7) (replicate 16 255) i) [0..<33], t)
    \<and> num t = 1 \<and> ivec t = be_bytes 16 2"
proof -
  have len: "length (concat [[1, 2, 3], replicate 30 (9 :: u8)]) = 33" by simp
  have iv: "be_bytes 16 (be_val (replicate 16 255) + (33 + 15) div 16) = be_bytes 16 2"
    by (rule be_val_cong) (simp_all add: be_val_be_bytes be_val_ones)
  have "\<exists>t. feed (CRYPTO_ctr128_encrypt toy_block (replicate 16 7))
        \<lparr>ivec = replicate 16 255, ecount_buf = replicate 16 0, num = 0\<rparr> [[1, 2, 3], replicate 30 9] =
      Some (map (\<lambda>i. concat [[1, 2, 3], replicate 30 9] ! i
              XOR keystream toy_block (replicate 16 7) (replicate 16 255) i) [0..<33], t)
    \<and> num t = 33 mod 16 \<and> ivec t = be_bytes 16 (be_val (replicate 16 255) + (33 + 15) div 16)"
    unfolding len [symmetric] by (rule ctr128_keystream) (simp_all add: toy_block_ok)
  moreover have "(33 :: nat) mod 16 = 1" by simp
  ultimately show ?thesis by (simp only: iv)
qed

text \<open>
  C35. \<open>CRYPTO_ctr128_encrypt_ctr32\<close>, which hands whole blocks to a routine that counts in 32 bits only,
  and must stop it before its counter wraps and carry into the upper 96 bits itself, computes the same
  as \<open>CRYPTO_ctr128_encrypt\<close> with the 128 bit counter, on every text, from every position and counter,
  however the text is cut.
\<close>

theorem ctr32_matches_ctr128:
  assumes "ctr32_ok func block key" and "ctr_ok block key s"
  shows "\<exists>out t u. feed (CRYPTO_ctr128_encrypt block key) s pieces = Some (out, t)
    \<and> feed (CRYPTO_ctr128_encrypt_ctr32 func key) s pieces = Some (out, u)
    \<and> ivec u = ivec t \<and> num u = num t \<and> (num t \<noteq> 0 \<longrightarrow> u = t)"
proof -
  have "ctr_same s s" by (simp add: ctr_same_def)
  from ctr32_feed [OF assms(1,2,2) this, of pieces] obtain v w where
    vw: "feed (CRYPTO_ctr128_encrypt block key) s pieces = Some (fst (run (ctr_step block key) s (concat pieces)), v)"
      "feed (CRYPTO_ctr128_encrypt_ctr32 func key) s pieces = Some (fst (run (ctr_step block key) s (concat pieces)), w)"
      "ctr_same v w" by blast
  have "num v \<noteq> 0 \<longrightarrow> w = v" using vw(3) by (cases v; cases w) (auto simp: ctr_same_def)
  with vw show ?thesis unfolding ctr_same_def by blast
qed

theorem ctr32_matches_ctr128_witness:
  "\<exists>out t u. feed (CRYPTO_ctr128_encrypt toy_block (replicate 16 7))
        \<lparr>ivec = replicate 15 255 @ [254], ecount_buf = replicate 16 1, num = 5\<rparr> [replicate 60 2] = Some (out, t)
    \<and> feed (CRYPTO_ctr128_encrypt_ctr32 toy_ctr32 (replicate 16 7))
        \<lparr>ivec = replicate 15 255 @ [254], ecount_buf = replicate 16 1, num = 5\<rparr> [replicate 60 2] = Some (out, u)
    \<and> ivec u = ivec t \<and> num u = num t \<and> (num t \<noteq> 0 \<longrightarrow> u = t)"
  by (rule ctr32_matches_ctr128) (simp_all add: toy_ctr32_ok ctr_ok_def toy_block_ok)

end
