(* ===== verification/Feedback.thy ===== *)
theory Feedback
  imports Ctr
begin

unbundle bit_operations_syntax

section \<open>Feedback modes (crypto/fipsmodule/modes/ofb.c, cfb.c)\<close>

text \<open>
  Output feedback, and cipher feedback with 128, 8 and 1 bit. As in \<open>Ctr\<close> the loops return the bytes
  they write, \<open>None\<close> is an access outside \<open>ivec\<close> or a failed assertion, and the first and the last loop
  of ofb.c are those of ctr.c over \<open>ivec\<close> (\<open>head_loop\<close>, \<open>tail_loop\<close>).
\<close>

record feedback =
  fb_iv :: bytes
  fb_num :: nat

subsection \<open>Output feedback\<close>

function ofb_loop :: "(bytes \<Rightarrow> 'k \<Rightarrow> bytes) \<Rightarrow> 'k \<Rightarrow> nat \<Rightarrow> bytes \<Rightarrow> bytes \<Rightarrow> bytes \<times> bytes \<times> bytes \<times> nat" where
  "ofb_loop block key n iv inp =
     (if 16 \<le> length inp
      then let iv = block iv key;
               (out, rest) = ofb_loop block key 0 iv (drop 16 inp)
           in (xor_words n inp iv @ out, rest)
      else ([], inp, iv, n))"
  by pat_completeness auto
termination
  by (relation "measure (\<lambda>(block, key, n, iv, inp). length inp)") auto

declare ofb_loop.simps [simp del]

definition CRYPTO_ofb128_encrypt ::
  "(bytes \<Rightarrow> 'k \<Rightarrow> bytes) \<Rightarrow> 'k \<Rightarrow> feedback \<Rightarrow> bytes \<Rightarrow> (bytes \<times> feedback) option" where
  "CRYPTO_ofb128_encrypt block key s inp =
     (if 16 \<le> fb_num s \<and> inp \<noteq> [] then None
      else let (out1, inp, n) = head_loop (fb_num s) (fb_iv s) inp;
               (out2, inp, iv, n) = ofb_loop block key n (fb_iv s) inp
           in if inp \<noteq> []
              then let iv = block iv key;
                       (out3, n) = tail_loop n iv inp
                   in Some (out1 @ out2 @ out3, \<lparr>fb_iv = iv, fb_num = n\<rparr>)
              else Some (out1 @ out2, \<lparr>fb_iv = iv, fb_num = n\<rparr>))"

subsection \<open>Cipher feedback, 128 bits\<close>

text \<open>
  What is done with a byte: \<open>v\<close> is the byte of \<open>ivec\<close>, \<open>b\<close> the one of \<open>in\<close>; the results go to \<open>out\<close> and
  to \<open>ivec\<close>. Encryption feeds back what it writes, decryption what it reads.
\<close>

definition cfb_byte :: "bool \<Rightarrow> u8 \<Rightarrow> u8 \<Rightarrow> u8 \<times> u8" where
  "cfb_byte enc v b = (if enc then (v XOR b, v XOR b) else (v XOR b, b))"

fun cfb_head :: "bool \<Rightarrow> nat \<Rightarrow> bytes \<Rightarrow> bytes \<Rightarrow> bytes \<times> bytes \<times> bytes \<times> nat" where
  "cfb_head enc n iv [] = ([], [], iv, n)"
| "cfb_head enc n iv (b # inp) =
     (if n = 0 then ([], b # inp, iv, n)
      else let (c, v) = cfb_byte enc (iv ! n) b;
               (out, rest) = cfb_head enc ((n + 1) mod 16) (iv[n := v]) inp
           in (c # out, rest))"

text \<open>The loop over the words of a block.\<close>

function cfb_words :: "bool \<Rightarrow> nat \<Rightarrow> bytes \<Rightarrow> bytes \<Rightarrow> bytes \<times> bytes" where
  "cfb_words enc n iv inp =
     (if n < 16
      then let t = CRYPTO_load_word_le (drop n inp);
               x = CRYPTO_load_word_le (drop n iv) XOR t;
               iv = take n iv @ CRYPTO_store_word_le (if enc then x else t) @ drop (n + 8) iv;
               (out, iv) = cfb_words enc (n + 8) iv inp
           in (CRYPTO_store_word_le x @ out, iv)
      else ([], iv))"
  by pat_completeness auto
termination
  by (relation "measure (\<lambda>(enc, n, iv, inp). 16 - n)") auto

declare cfb_words.simps [simp del]

function cfb_loop :: "(bytes \<Rightarrow> 'k \<Rightarrow> bytes) \<Rightarrow> 'k \<Rightarrow> bool \<Rightarrow> nat \<Rightarrow> bytes \<Rightarrow> bytes \<Rightarrow> bytes \<times> bytes \<times> bytes \<times> nat" where
  "cfb_loop block key enc n iv inp =
     (if 16 \<le> length inp
      then let iv = block iv key;
               (out1, iv) = cfb_words enc n iv inp;
               (out2, rest) = cfb_loop block key enc 0 iv (drop 16 inp)
           in (out1 @ out2, rest)
      else ([], inp, iv, n))"
  by pat_completeness auto
termination
  by (relation "measure (\<lambda>(block, key, enc, n, iv, inp). length inp)") auto

declare cfb_loop.simps [simp del]

fun cfb_tail :: "bool \<Rightarrow> nat \<Rightarrow> nat \<Rightarrow> bytes \<Rightarrow> bytes \<Rightarrow> bytes \<times> bytes \<times> nat" where
  "cfb_tail enc 0 n iv inp = ([], iv, n)"
| "cfb_tail enc (Suc len) n iv inp =
     (let (c, v) = cfb_byte enc (iv ! n) (inp ! n);
          (out, rest) = cfb_tail enc len (Suc n) (iv[n := v]) inp
      in (c # out, rest))"

definition CRYPTO_cfb128_encrypt ::
  "(bytes \<Rightarrow> 'k \<Rightarrow> bytes) \<Rightarrow> 'k \<Rightarrow> bool \<Rightarrow> feedback \<Rightarrow> bytes \<Rightarrow> (bytes \<times> feedback) option" where
  "CRYPTO_cfb128_encrypt block key enc s inp =
     (if 16 \<le> fb_num s \<and> inp \<noteq> [] then None
      else let (out1, inp, iv, n) = cfb_head enc (fb_num s) (fb_iv s) inp;
               (out2, inp, iv, n) = cfb_loop block key enc n iv inp
           in if inp \<noteq> []
              then let iv = block iv key;
                       (out3, iv, n) = cfb_tail enc (length inp) n iv inp
                   in Some (out1 @ out2 @ out3, \<lparr>fb_iv = iv, fb_num = n\<rparr>)
              else Some (out1 @ out2, \<lparr>fb_iv = iv, fb_num = n\<rparr>))"

subsection \<open>Cipher feedback, 8 bits and 1 bit\<close>

text \<open>
  \<open>ovec\<close> is the old \<open>ivec\<close>, followed by the bytes of the ciphertext; what the C array holds after them is
  not read. The result is the bytes written to \<open>out\<close> and the new \<open>ivec\<close>.
\<close>

definition cfbr_encrypt_block ::
  "(bytes \<Rightarrow> 'k \<Rightarrow> bytes) \<Rightarrow> 'k \<Rightarrow> bool \<Rightarrow> nat \<Rightarrow> bytes \<Rightarrow> bytes \<Rightarrow> bytes \<times> bytes" where
  "cfbr_encrypt_block block key enc nbits iv inp =
     (if nbits = 0 \<or> 128 < nbits then ([], iv)
      else let old = iv;
               iv = block iv key;
               num = (nbits + 7) div 8;
               out = map (\<lambda>n. inp ! n XOR iv ! n) [0..<num];
               ovec = old @ (if enc then out else map (\<lambda>n. inp ! n) [0..<num]);
               rem = nbits mod 8;
               num = nbits div 8
           in (out,
               if rem = 0 then take 16 (drop num ovec)
               else map (\<lambda>n. push_bit rem (ovec ! (n + num)) OR drop_bit (8 - rem) (ovec ! (n + num + 1))) [0..<16]))"

fun cfb8_loop :: "(bytes \<Rightarrow> 'k \<Rightarrow> bytes) \<Rightarrow> 'k \<Rightarrow> bool \<Rightarrow> bytes \<Rightarrow> bytes \<Rightarrow> bytes \<times> bytes" where
  "cfb8_loop block key enc iv [] = ([], iv)"
| "cfb8_loop block key enc iv (b # inp) =
     (let (out1, iv) = cfbr_encrypt_block block key enc 8 iv (b # inp);
          (out2, iv) = cfb8_loop block key enc iv inp
      in (out1 @ out2, iv))"

definition CRYPTO_cfb128_8_encrypt ::
  "(bytes \<Rightarrow> 'k \<Rightarrow> bytes) \<Rightarrow> 'k \<Rightarrow> bool \<Rightarrow> feedback \<Rightarrow> bytes \<Rightarrow> (bytes \<times> feedback) option" where
  "CRYPTO_cfb128_8_encrypt block key enc s inp =
     (if fb_num s \<noteq> 0 then None
      else let (out, iv) = cfb8_loop block key enc (fb_iv s) inp in Some (out, s\<lparr>fb_iv := iv\<rparr>))"

text \<open>
  One turn of the loop of \<open>CRYPTO_cfb128_1_encrypt\<close>: bit \<open>n\<close> of \<open>in\<close>, the highest bit of a byte first,
  goes into \<open>c[0]\<close>, and the result in \<open>d[0]\<close> is put in its place in \<open>out\<close>.
\<close>

definition cfb1_turn ::
  "(bytes \<Rightarrow> 'k \<Rightarrow> bytes) \<Rightarrow> 'k \<Rightarrow> bool \<Rightarrow> bytes \<Rightarrow> nat \<Rightarrow> bytes \<times> bytes \<Rightarrow> bytes \<times> bytes" where
  "cfb1_turn block key enc inp n = (\<lambda>(out, iv).
     let c = (if inp ! (n div 8) AND push_bit (7 - n mod 8) 1 \<noteq> 0 then 0x80 else 0);
         (d, iv) = cfbr_encrypt_block block key enc 1 iv [c]
     in (out[n div 8 := (out ! (n div 8) AND NOT (push_bit (7 - n mod 8) 1))
               OR drop_bit (n mod 8) (d ! 0 AND 0x80)], iv))"

definition CRYPTO_cfb128_1_encrypt ::
  "(bytes \<Rightarrow> 'k \<Rightarrow> bytes) \<Rightarrow> 'k \<Rightarrow> bool \<Rightarrow> feedback \<Rightarrow> bytes \<Rightarrow> nat \<Rightarrow> bytes \<Rightarrow> (bytes \<times> feedback) option" where
  "CRYPTO_cfb128_1_encrypt block key enc s inp bits out =
     (if fb_num s \<noteq> 0 then None
      else let (out, iv) = fold (cfb1_turn block key enc inp) [0..<bits] (out, fb_iv s)
           in Some (out, s\<lparr>fb_iv := iv\<rparr>))"

subsection \<open>Output feedback, byte by byte\<close>

definition fb_ok :: "(bytes \<Rightarrow> 'k \<Rightarrow> bytes) \<Rightarrow> 'k \<Rightarrow> feedback \<Rightarrow> bool" where
  "fb_ok block key s \<longleftrightarrow> block_ok block key \<and> length (fb_iv s) = 16 \<and> fb_num s < 16"

definition ofb_step :: "(bytes \<Rightarrow> 'k \<Rightarrow> bytes) \<Rightarrow> 'k \<Rightarrow> feedback \<Rightarrow> u8 \<Rightarrow> u8 \<times> feedback" where
  "ofb_step block key s b =
     (let iv = (if fb_num s = 0 then block (fb_iv s) key else fb_iv s)
      in (b XOR iv ! fb_num s, \<lparr>fb_iv = iv, fb_num = (fb_num s + 1) mod 16\<rparr>))"

lemma ofb_step_ok: "fb_ok block key s \<Longrightarrow> fb_ok block key (snd (ofb_step block key s b))"
  by (simp add: fb_ok_def ofb_step_def block_length Let_def)

lemma ofb_within:
  "0 < n \<Longrightarrow> n < 16 \<Longrightarrow> n + length bs \<le> 16 \<Longrightarrow> length iv = 16 \<Longrightarrow>
     run (ofb_step block key) \<lparr>fb_iv = iv, fb_num = n\<rparr> bs
       = (map2 (XOR) bs (drop n iv), \<lparr>fb_iv = iv, fb_num = (n + length bs) mod 16\<rparr>)"
proof (induction bs arbitrary: n)
  case (Cons b bs)
  have d: "drop n iv = iv ! n # drop (Suc n) iv" using Cons.prems by (simp add: Cons_nth_drop_Suc)
  show ?case
  proof (cases "bs = []")
    case False
    then have "Suc n < 16" using Cons.prems by (cases bs) auto
    then show ?thesis using Cons.IH [of "Suc n"] Cons.prems d by (simp add: ofb_step_def)
  qed (use Cons.prems d in \<open>simp add: ofb_step_def\<close>)
qed simp

lemma ofb_block:
  assumes "bs \<noteq> []" and "length bs \<le> 16" and iv: "length (block iv key) = 16"
  shows "run (ofb_step block key) \<lparr>fb_iv = iv, fb_num = 0\<rparr> bs
    = (map2 (XOR) bs (block iv key), \<lparr>fb_iv = block iv key, fb_num = length bs mod 16\<rparr>)"
proof -
  obtain b bs' where bs: "bs = b # bs'" using assms(1) by (cases bs) auto
  obtain x xs where d: "block iv key = x # xs" using iv by (cases "block iv key") auto
  have "ofb_step block key \<lparr>fb_iv = iv, fb_num = 0\<rparr> b = (b XOR x, \<lparr>fb_iv = block iv key, fb_num = 1\<rparr>)"
    using d by (simp add: ofb_step_def)
  moreover have "run (ofb_step block key) \<lparr>fb_iv = block iv key, fb_num = 1\<rparr> bs'
      = (map2 (XOR) bs' xs, \<lparr>fb_iv = block iv key, fb_num = length bs mod 16\<rparr>)"
    using ofb_within [of 1 bs' "block iv key" block key] assms bs d by simp
  ultimately show ?thesis unfolding bs using d by simp
qed

lemma ofb_head_run:
  assumes "n < 16" and "head_loop n iv inp = (out, rest, n')"
  shows "n' < 16 \<and> (rest \<noteq> [] \<longrightarrow> n' = 0) \<and>
    run (ofb_step block key) \<lparr>fb_iv = iv, fb_num = n\<rparr> inp =
      (let (cs, t) = run (ofb_step block key) \<lparr>fb_iv = iv, fb_num = n'\<rparr> rest in (out @ cs, t))"
  using assms
proof (induction inp arbitrary: n out)
  case (Cons b inp)
  show ?case
  proof (cases "n = 0")
    case False
    obtain out' where o: "head_loop ((n + 1) mod 16) iv inp = (out', rest, n')" "out = (b XOR iv ! n) # out'"
      using Cons.prems False by (auto split: prod.splits)
    then show ?thesis using Cons.IH [of "(n + 1) mod 16" out'] False
      by (auto simp: ofb_step_def split: prod.splits)
  qed (use Cons.prems in \<open>auto split: prod.splits\<close>)
qed auto

lemma ofb_loop_run:
  assumes "ofb_loop block key n iv inp = (out, rest, iv', n')"
    and "block_ok block key" and "length iv = 16" and "16 \<le> length inp \<longrightarrow> n = 0"
  shows "length rest < 16 \<and> length iv' = 16 \<and> n' = n \<and>
    run (ofb_step block key) \<lparr>fb_iv = iv, fb_num = n\<rparr> inp =
      (let (cs, t) = run (ofb_step block key) \<lparr>fb_iv = iv', fb_num = n'\<rparr> rest in (out @ cs, t))"
  using assms
proof (induction block key n iv inp arbitrary: out rule: ofb_loop.induct)
  case (1 block key n iv inp)
  show ?case
  proof (cases "16 \<le> length inp")
    case True
    let ?iv = "block iv key"
    have n: "n = 0" using True "1.prems"(4) by simp
    have iv: "length ?iv = 16" using "1.prems"(2,3) by (rule block_length)
    obtain out' where o: "ofb_loop block key 0 ?iv (drop 16 inp) = (out', rest, iv', n')"
        "out = xor_words 0 inp ?iv @ out'"
      using "1.prems"(1) True n by (subst (asm) ofb_loop.simps) (auto split: prod.splits simp: Let_def)
    have "take 16 inp \<noteq> []" using True by (cases inp) auto
    then have "run (ofb_step block key) \<lparr>fb_iv = iv, fb_num = n\<rparr> inp =
        (let (ds, u) = run (ofb_step block key) \<lparr>fb_iv = ?iv, fb_num = 0\<rparr> (drop 16 inp)
         in (xor_words 0 inp ?iv @ ds, u))"
      using run_append [of "ofb_step block key" _ "take 16 inp" "drop 16 inp"] True n iv
        ofb_block [of "take 16 inp" block iv key]
      by (auto simp: xor_words_16 split: prod.splits)
    moreover note "1.IH" [OF True refl o(1)]
    ultimately show ?thesis using o(2) "1.prems" n iv by (auto split: prod.splits)
  next
    case False
    then show ?thesis using "1.prems" by (subst (asm) ofb_loop.simps) auto
  qed
qed

lemma CRYPTO_ofb128_encrypt_run:
  assumes ok: "fb_ok block key s"
  shows "CRYPTO_ofb128_encrypt block key s inp = Some (run (ofb_step block key) s inp)"
proof -
  obtain out1 inp1 n1 where h: "head_loop (fb_num s) (fb_iv s) inp = (out1, inp1, n1)"
    by (cases "head_loop (fb_num s) (fb_iv s) inp") auto
  obtain out2 inp2 iv2 n2 where b: "ofb_loop block key n1 (fb_iv s) inp1 = (out2, inp2, iv2, n2)"
    by (cases "ofb_loop block key n1 (fb_iv s) inp1") auto
  have s: "\<lparr>fb_iv = fb_iv s, fb_num = fb_num s\<rparr> = s" by (cases s) simp
  have r1: "n1 < 16" "inp1 \<noteq> [] \<longrightarrow> n1 = 0"
    "run (ofb_step block key) s inp =
      (let (cs, t) = run (ofb_step block key) \<lparr>fb_iv = fb_iv s, fb_num = n1\<rparr> inp1 in (out1 @ cs, t))"
    using ofb_head_run [OF _ h, of block key] ok s by (auto simp: fb_ok_def)
  have "block_ok block key" "length (fb_iv s) = 16" "16 \<le> length inp1 \<longrightarrow> n1 = 0"
    using ok r1(2) by (auto simp: fb_ok_def)
  note r2 = ofb_loop_run [OF b this]
  let ?t = "\<lparr>fb_iv = iv2, fb_num = n2\<rparr>"
  have r: "run (ofb_step block key) s inp =
      (let (cs, t) = run (ofb_step block key) ?t inp2 in (out1 @ out2 @ cs, t))"
    unfolding r1(3) using r2 by (simp add: case_prod_beta Let_def)
  have e: "inp1 = [] \<Longrightarrow> inp2 = []" using b by (subst (asm) ofb_loop.simps) auto
  show ?thesis
  proof (cases "inp2 = []")
    case True
    then show ?thesis using h b r ok by (simp add: CRYPTO_ofb128_encrypt_def fb_ok_def)
  next
    case False
    then have "n2 = 0" using e r1(2) r2 by auto
    moreover have "length (block iv2 key) = 16" using ok r2 by (auto simp: fb_ok_def intro: block_length)
    ultimately have "run (ofb_step block key) ?t inp2 = (map2 (XOR) inp2 (block iv2 key),
        \<lparr>fb_iv = block iv2 key, fb_num = length inp2\<rparr>)"
        "tail_loop n2 (block iv2 key) inp2 = (map2 (XOR) inp2 (block iv2 key), length inp2)"
      using ofb_block [of inp2 block iv2 key] False r2 by (auto simp: tail_loop_0)
    then show ?thesis using h b r ok False by (simp add: CRYPTO_ofb128_encrypt_def fb_ok_def Let_def)
  qed
qed

interpretation ofb_mode: stream_pair "fb_ok block key" "ofb_step block key" "ofb_step block key"
    "CRYPTO_ofb128_encrypt block key" "CRYPTO_ofb128_encrypt block key" for block key
proof unfold_locales
  fix s t :: feedback and b c
  assume "ofb_step block key s b = (c, t)"
  then show "ofb_step block key s c = (b, t)"
    by (auto simp: ofb_step_def Let_def xor.assoc split: if_splits)
qed (auto intro: ofb_step_ok CRYPTO_ofb128_encrypt_run)

subsection \<open>Cipher feedback, byte by byte\<close>

definition cfb_step :: "(bytes \<Rightarrow> 'k \<Rightarrow> bytes) \<Rightarrow> 'k \<Rightarrow> bool \<Rightarrow> feedback \<Rightarrow> u8 \<Rightarrow> u8 \<times> feedback" where
  "cfb_step block key enc s b =
     (let iv = (if fb_num s = 0 then block (fb_iv s) key else fb_iv s);
          (c, v) = cfb_byte enc (iv ! fb_num s) b
      in (c, \<lparr>fb_iv = iv[fb_num s := v], fb_num = (fb_num s + 1) mod 16\<rparr>))"

lemma cfb_step_ok: "fb_ok block key s \<Longrightarrow> fb_ok block key (snd (cfb_step block key enc s b))"
  by (simp add: fb_ok_def cfb_step_def cfb_byte_def block_length Let_def)

definition cfb_feed :: "bool \<Rightarrow> bytes \<Rightarrow> bytes \<Rightarrow> bytes" where
  "cfb_feed enc vs bs = (if enc then map2 (XOR) vs bs else bs)"

lemma cfb_byte_simps: "fst (cfb_byte enc v b) = v XOR b" "cfb_feed enc (v # vs) (b # bs) = snd (cfb_byte enc v b) # cfb_feed enc vs bs"
  "cfb_feed enc vs [] = []"
  by (simp_all add: cfb_byte_def cfb_feed_def)

lemma cfb_feed_take: "length bs \<le> length vs \<Longrightarrow> length (cfb_feed enc vs bs) = length bs"
  by (simp add: cfb_feed_def)

lemma cfb_within:
  "n < 16 \<Longrightarrow> n + length bs \<le> 16 \<Longrightarrow> length iv = 16 \<Longrightarrow> (n = 0 \<longrightarrow> bs = []) \<Longrightarrow>
     run (cfb_step block key enc) \<lparr>fb_iv = iv, fb_num = n\<rparr> bs
       = (map2 (XOR) (drop n iv) bs,
          \<lparr>fb_iv = take n iv @ cfb_feed enc (drop n iv) bs @ drop (n + length bs) iv, fb_num = (n + length bs) mod 16\<rparr>)"
proof (induction bs arbitrary: n iv)
  case (Cons b bs)
  let ?v = "snd (cfb_byte enc (iv ! n) b)"
  have d: "drop n iv = iv ! n # drop (Suc n) iv" using Cons.prems by (simp add: Cons_nth_drop_Suc)
  have t: "take (Suc n) (iv[n := ?v]) = take n iv @ [?v]"
    using Cons.prems by (simp add: take_Suc_conv_app_nth)
  have step: "cfb_step block key enc \<lparr>fb_iv = iv, fb_num = n\<rparr> b
      = (iv ! n XOR b, \<lparr>fb_iv = iv[n := ?v], fb_num = Suc n mod 16\<rparr>)"
    using Cons.prems by (simp add: cfb_step_def cfb_byte_def)
  show ?case
  proof (cases "bs = []")
    case True
    have "iv[n := ?v] = take n iv @ ?v # drop (Suc n) iv" using Cons.prems by (simp add: upd_conv_take_nth_drop)
    then show ?thesis using step d True by (simp add: cfb_byte_simps)
  next
    case False
    then have "Suc n < 16" using Cons.prems by (cases bs) auto
    then show ?thesis using Cons.IH [of "Suc n" "iv[n := ?v]"] Cons.prems d step t
      by (simp add: cfb_byte_simps)
  qed
qed (simp add: cfb_byte_simps)

lemma cfb_block:
  assumes "bs \<noteq> []" and "length bs \<le> 16" and iv: "length (block iv key) = 16"
  shows "run (cfb_step block key enc) \<lparr>fb_iv = iv, fb_num = 0\<rparr> bs
    = (map2 (XOR) (block iv key) bs,
       \<lparr>fb_iv = cfb_feed enc (block iv key) bs @ drop (length bs) (block iv key), fb_num = length bs mod 16\<rparr>)"
proof -
  obtain b bs' where bs: "bs = b # bs'" using assms(1) by (cases bs) auto
  obtain x xs where d: "block iv key = x # xs" using iv by (cases "block iv key") auto
  let ?v = "snd (cfb_byte enc x b)"
  have "cfb_step block key enc \<lparr>fb_iv = iv, fb_num = 0\<rparr> b = (x XOR b, \<lparr>fb_iv = ?v # xs, fb_num = 1\<rparr>)"
    using d by (simp add: cfb_step_def cfb_byte_def)
  moreover have "run (cfb_step block key enc) \<lparr>fb_iv = ?v # xs, fb_num = 1\<rparr> bs'
      = (map2 (XOR) xs bs', \<lparr>fb_iv = ?v # cfb_feed enc xs bs' @ drop (length bs') xs, fb_num = length bs mod 16\<rparr>)"
    using cfb_within [of 1 bs' "?v # xs" block key enc] assms bs d by simp
  ultimately show ?thesis unfolding bs using d by (simp add: cfb_byte_simps)
qed

lemma cfb_words_16:
  assumes "length iv = 16" and "16 \<le> length inp"
  shows "cfb_words enc 0 iv inp = (map2 (XOR) iv (take 16 inp), cfb_feed enc iv (take 16 inp))"
proof -
  have x: "CRYPTO_store_word_le (CRYPTO_load_word_le a XOR CRYPTO_load_word_le b) = map2 (XOR) (take 8 a) (take 8 b)"
    if "8 \<le> length a" "8 \<le> length b" for a b
    unfolding CRYPTO_store_word_le_def CRYPTO_load_word_le_def by (rule store_xor_load) (use that in simp_all)
  have l: "CRYPTO_store_word_le (CRYPTO_load_word_le a) = take 8 a" if "8 \<le> length a" for a
    unfolding CRYPTO_store_word_le_def CRYPTO_load_word_le_def by (rule store_load_word) (use that in simp)
  have s: "take 16 c = take 8 c @ take 8 (drop 8 c)" for c :: bytes
    by (metis numeral_Bit0 take_add)
  have i: "iv = take 8 iv @ drop 8 iv" "take 8 (drop 8 iv) = drop 8 iv" using assms(1) by simp_all
  have "map2 (XOR) iv (take 16 inp) = map2 (XOR) (take 8 iv) (take 8 inp) @ map2 (XOR) (drop 8 iv) (take 8 (drop 8 inp))"
    unfolding s by (subst i(1), subst zip_append) (use assms in simp_all)
  then show ?thesis using assms i x l s [of inp]
    by (simp add: cfb_words.simps cfb_feed_def Let_def)
qed

lemma cfb_head_run:
  assumes "n < 16" and "length iv = 16" and "cfb_head enc n iv inp = (out, rest, iv', n')"
  shows "n' < 16 \<and> length iv' = 16 \<and> (rest \<noteq> [] \<longrightarrow> n' = 0) \<and>
    run (cfb_step block key enc) \<lparr>fb_iv = iv, fb_num = n\<rparr> inp =
      (let (cs, t) = run (cfb_step block key enc) \<lparr>fb_iv = iv', fb_num = n'\<rparr> rest in (out @ cs, t))"
  using assms
proof (induction inp arbitrary: n iv out)
  case (Cons b inp)
  show ?case
  proof (cases "n = 0")
    case False
    obtain c v where v: "cfb_byte enc (iv ! n) b = (c, v)" by (cases "cfb_byte enc (iv ! n) b")
    obtain out' where o: "cfb_head enc ((n + 1) mod 16) (iv[n := v]) inp = (out', rest, iv', n')" "out = c # out'"
      using Cons.prems False v by (auto split: prod.splits)
    then show ?thesis using Cons.IH [of "(n + 1) mod 16" "iv[n := v]" out'] Cons.prems False v
      by (auto simp: cfb_step_def split: prod.splits)
  qed (use Cons.prems in \<open>auto split: prod.splits\<close>)
qed auto

lemma cfb_loop_run:
  assumes "cfb_loop block key enc n iv inp = (out, rest, iv', n')"
    and "block_ok block key" and "length iv = 16" and "16 \<le> length inp \<longrightarrow> n = 0"
  shows "length rest < 16 \<and> length iv' = 16 \<and> n' = n \<and>
    run (cfb_step block key enc) \<lparr>fb_iv = iv, fb_num = n\<rparr> inp =
      (let (cs, t) = run (cfb_step block key enc) \<lparr>fb_iv = iv', fb_num = n'\<rparr> rest in (out @ cs, t))"
  using assms
proof (induction "length inp" arbitrary: n iv inp out rule: less_induct)
  case less
  show ?case
  proof (cases "16 \<le> length inp")
    case True
    let ?iv = "block iv key"
    have n: "n = 0" using True less.prems(4) by simp
    have iv: "length ?iv = 16" using less.prems(2,3) by (rule block_length)
    let ?x = "map2 (XOR) ?iv (take 16 inp)" and ?f = "cfb_feed enc ?iv (take 16 inp)"
    have w: "cfb_words enc 0 ?iv inp = (?x, ?f)" by (rule cfb_words_16 [OF iv True])
    obtain out' where o: "cfb_loop block key enc 0 ?f (drop 16 inp) = (out', rest, iv', n')" "out = ?x @ out'"
      using less.prems(1) True n w by (subst (asm) cfb_loop.simps) (auto split: prod.splits simp: Let_def)
    have f: "length ?f = 16" using iv True by (simp add: cfb_feed_take)
    have ne: "take 16 inp \<noteq> []" using True by (cases inp) auto
    have "run (cfb_step block key enc) \<lparr>fb_iv = iv, fb_num = n\<rparr> (take 16 inp) = (?x, \<lparr>fb_iv = ?f, fb_num = 0\<rparr>)"
      using cfb_block [of "take 16 inp" block iv key enc] True n iv ne by simp
    then have r: "run (cfb_step block key enc) \<lparr>fb_iv = iv, fb_num = n\<rparr> inp =
        (let (ds, u) = run (cfb_step block key enc) \<lparr>fb_iv = ?f, fb_num = 0\<rparr> (drop 16 inp) in (?x @ ds, u))"
      using run_append [of "cfb_step block key enc" _ "take 16 inp" "drop 16 inp"] by simp
    have "length (drop 16 inp) < length inp" using True by simp
    note less.hyps [OF this o(1) less.prems(2) f]
    then show ?thesis unfolding r o(2) using n by (simp add: case_prod_beta Let_def)
  next
    case False
    then show ?thesis using less.prems by (subst (asm) cfb_loop.simps) auto
  qed
qed

lemma cfb_tail_run:
  "n + length rest \<le> 16 \<Longrightarrow> n + length rest = length inp \<Longrightarrow> drop n inp = rest \<Longrightarrow> length iv = 16 \<Longrightarrow>
    cfb_tail enc (length rest) n iv inp = (map2 (XOR) (drop n iv) rest,
      take n iv @ cfb_feed enc (drop n iv) rest @ drop (n + length rest) iv, n + length rest)"
proof (induction rest arbitrary: n iv)
  case (Cons b rest)
  obtain v where c: "cfb_byte enc (iv ! n) b = (iv ! n XOR b, v)" by (cases enc) (simp_all add: cfb_byte_def)
  have d: "drop n iv = iv ! n # drop (Suc n) iv" using Cons.prems by (simp add: Cons_nth_drop_Suc)
  have t: "take (Suc n) (iv[n := v]) = take n iv @ [v]"
    using Cons.prems by (simp add: take_Suc_conv_app_nth)
  have b: "inp ! n = b" "drop (Suc n) inp = rest"
    using Cons.prems(2,3) Cons_nth_drop_Suc [of n inp] by simp_all
  show ?case using Cons.IH [of "Suc n" "iv[n := v]"] Cons.prems b c d t
    by (simp add: cfb_byte_simps)
qed (simp add: cfb_byte_simps)

lemma CRYPTO_cfb128_encrypt_run:
  assumes ok: "fb_ok block key s"
  shows "CRYPTO_cfb128_encrypt block key enc s inp = Some (run (cfb_step block key enc) s inp)"
proof -
  obtain out1 inp1 iv1 n1 where h: "cfb_head enc (fb_num s) (fb_iv s) inp = (out1, inp1, iv1, n1)"
    by (cases "cfb_head enc (fb_num s) (fb_iv s) inp") auto
  obtain out2 inp2 iv2 n2 where b: "cfb_loop block key enc n1 iv1 inp1 = (out2, inp2, iv2, n2)"
    by (cases "cfb_loop block key enc n1 iv1 inp1") auto
  have s: "\<lparr>fb_iv = fb_iv s, fb_num = fb_num s\<rparr> = s" by (cases s) simp
  have r1: "n1 < 16" "length iv1 = 16" "inp1 \<noteq> [] \<longrightarrow> n1 = 0"
    "run (cfb_step block key enc) s inp =
      (let (cs, t) = run (cfb_step block key enc) \<lparr>fb_iv = iv1, fb_num = n1\<rparr> inp1 in (out1 @ cs, t))"
    using cfb_head_run [OF _ _ h, of block key] ok s by (auto simp: fb_ok_def)
  have bk: "block_ok block key" and "16 \<le> length inp1 \<longrightarrow> n1 = 0" using ok r1(3) by (auto simp: fb_ok_def)
  note r2 = cfb_loop_run [OF b bk r1(2) this(2)]
  let ?t = "\<lparr>fb_iv = iv2, fb_num = n2\<rparr>"
  have r: "run (cfb_step block key enc) s inp =
      (let (cs, t) = run (cfb_step block key enc) ?t inp2 in (out1 @ out2 @ cs, t))"
    unfolding r1(4) using r2 by (simp add: case_prod_beta Let_def)
  have e: "inp1 = [] \<Longrightarrow> inp2 = []" using b by (subst (asm) cfb_loop.simps) auto
  show ?thesis
  proof (cases "inp2 = []")
    case True
    then show ?thesis using h b r ok by (simp add: CRYPTO_cfb128_encrypt_def fb_ok_def)
  next
    case False
    then have n2: "n2 = 0" using e r1(3) r2 by auto
    have iv: "length (block iv2 key) = 16" using bk r2 by (auto intro: block_length)
    let ?iv = "cfb_feed enc (block iv2 key) inp2 @ drop (length inp2) (block iv2 key)"
    have "run (cfb_step block key enc) ?t inp2 = (map2 (XOR) (block iv2 key) inp2, \<lparr>fb_iv = ?iv, fb_num = length inp2\<rparr>)"
      using cfb_block [of inp2 block iv2 key enc] False n2 r2 iv by simp
    moreover have "cfb_tail enc (length inp2) n2 (block iv2 key) inp2 = (map2 (XOR) (block iv2 key) inp2, ?iv, length inp2)"
      using cfb_tail_run [of 0 inp2 inp2 "block iv2 key" enc] n2 r2 iv by simp
    ultimately show ?thesis using h b r ok False by (simp add: CRYPTO_cfb128_encrypt_def fb_ok_def Let_def)
  qed
qed

interpretation cfb_mode: stream_pair "fb_ok block key" "cfb_step block key True" "cfb_step block key False"
    "CRYPTO_cfb128_encrypt block key True" "CRYPTO_cfb128_encrypt block key False" for block key
proof unfold_locales
  fix s t :: feedback and b c
  assume "cfb_step block key True s b = (c, t)"
  then show "cfb_step block key False s c = (b, t)"
    by (auto simp: cfb_step_def cfb_byte_def Let_def xor.assoc [symmetric] split: if_splits)
qed (auto intro: cfb_step_ok CRYPTO_cfb128_encrypt_run)

subsection \<open>Eight bits\<close>

definition cfb8_step :: "(bytes \<Rightarrow> 'k \<Rightarrow> bytes) \<Rightarrow> 'k \<Rightarrow> bool \<Rightarrow> feedback \<Rightarrow> u8 \<Rightarrow> u8 \<times> feedback" where
  "cfb8_step block key enc s b =
     (let c = b XOR block (fb_iv s) key ! 0
      in (c, s\<lparr>fb_iv := tl (fb_iv s) @ [if enc then c else b]\<rparr>))"

definition cfbr_ok :: "(bytes \<Rightarrow> 'k \<Rightarrow> bytes) \<Rightarrow> 'k \<Rightarrow> feedback \<Rightarrow> bool" where
  "cfbr_ok block key s \<longleftrightarrow> block_ok block key \<and> length (fb_iv s) = 16 \<and> fb_num s = 0"

lemma cfbr_8:
  assumes "length iv = 16"
  shows "cfbr_encrypt_block block key enc 8 iv (b # inp)
    = ([b XOR block iv key ! 0], tl iv @ [if enc then b XOR block iv key ! 0 else b])"
proof -
  obtain v iv' where "iv = v # iv'" using assms by (cases iv) auto
  then show ?thesis using assms by (simp add: cfbr_encrypt_block_def Let_def)
qed

lemma cfb8_loop_run:
  "length iv = 16 \<Longrightarrow> run (cfb8_step block key enc) \<lparr>fb_iv = iv, fb_num = n\<rparr> inp
     = (case cfb8_loop block key enc iv inp of (out, iv') \<Rightarrow> (out, \<lparr>fb_iv = iv', fb_num = n\<rparr>))"
proof (induction inp arbitrary: iv)
  case (Cons b inp)
  let ?iv = "tl iv @ [if enc then b XOR block iv key ! 0 else b]"
  have l: "length ?iv = 16" using Cons.prems by simp
  show ?case using cfbr_8 [OF Cons.prems, of block key enc b inp] Cons.IH [OF l]
    by (auto simp: cfb8_step_def Let_def split: prod.splits)
qed simp

lemma CRYPTO_cfb128_8_encrypt_run:
  assumes ok: "cfbr_ok block key s"
  shows "CRYPTO_cfb128_8_encrypt block key enc s inp = Some (run (cfb8_step block key enc) s inp)"
proof -
  obtain iv where s: "s = \<lparr>fb_iv = iv, fb_num = 0\<rparr>" "length iv = 16" using ok by (cases s) (simp add: cfbr_ok_def)
  show ?thesis using cfb8_loop_run [OF s(2), of block key enc 0 inp]
    by (auto simp: CRYPTO_cfb128_8_encrypt_def s(1) split: prod.splits)
qed

interpretation cfb8_mode: stream_pair "cfbr_ok block key" "cfb8_step block key True" "cfb8_step block key False"
    "CRYPTO_cfb128_8_encrypt block key True" "CRYPTO_cfb128_8_encrypt block key False" for block key
proof unfold_locales
  fix s t :: feedback and b c
  assume "cfb8_step block key True s b = (c, t)"
  then show "cfb8_step block key False s c = (b, t)"
    by (auto simp: cfb8_step_def Let_def xor.assoc split: if_splits)
qed (auto intro: CRYPTO_cfb128_8_encrypt_run simp: cfbr_ok_def cfb8_step_def Let_def)

text \<open>
  C36. Output feedback, and cipher feedback with 128 and with 8 bits, give the plaintext back: whatever
  pieces the text is encrypted in, and whatever pieces the ciphertext is decrypted in, starting from
  the same \<open>ivec\<close> and position, and both sides end in the same state.
\<close>

theorem feedback_modes_roundtrip:
  assumes "block_ok block key" and "length (fb_iv s) = 16" and "fb_num s < 16"
  shows "(\<exists>cs t. feed (CRYPTO_ofb128_encrypt block key) s pieces = Some (cs, t) \<and> length cs = length (concat pieces)
      \<and> (\<forall>cuts. concat cuts = cs \<longrightarrow> feed (CRYPTO_ofb128_encrypt block key) s cuts = Some (concat pieces, t)))
    \<and> (\<exists>cs t. feed (CRYPTO_cfb128_encrypt block key True) s pieces = Some (cs, t) \<and> length cs = length (concat pieces)
      \<and> (\<forall>cuts. concat cuts = cs \<longrightarrow> feed (CRYPTO_cfb128_encrypt block key False) s cuts = Some (concat pieces, t)))
    \<and> (fb_num s = 0 \<longrightarrow>
       (\<exists>cs t. feed (CRYPTO_cfb128_8_encrypt block key True) s pieces = Some (cs, t) \<and> length cs = length (concat pieces)
      \<and> (\<forall>cuts. concat cuts = cs \<longrightarrow> feed (CRYPTO_cfb128_8_encrypt block key False) s cuts = Some (concat pieces, t))))"
proof (intro conjI impI)
  have ok: "fb_ok block key s" using assms by (simp add: fb_ok_def)
  show "\<exists>cs t. feed (CRYPTO_ofb128_encrypt block key) s pieces = Some (cs, t) \<and> length cs = length (concat pieces)
      \<and> (\<forall>cuts. concat cuts = cs \<longrightarrow> feed (CRYPTO_ofb128_encrypt block key) s cuts = Some (concat pieces, t))"
    by (rule ofb_mode.feed_roundtrip [OF ok])
  show "\<exists>cs t. feed (CRYPTO_cfb128_encrypt block key True) s pieces = Some (cs, t) \<and> length cs = length (concat pieces)
      \<and> (\<forall>cuts. concat cuts = cs \<longrightarrow> feed (CRYPTO_cfb128_encrypt block key False) s cuts = Some (concat pieces, t))"
    by (rule cfb_mode.feed_roundtrip [OF ok])
  assume "fb_num s = 0"
  then have "cfbr_ok block key s" using assms by (simp add: cfbr_ok_def)
  then show "\<exists>cs t. feed (CRYPTO_cfb128_8_encrypt block key True) s pieces = Some (cs, t) \<and> length cs = length (concat pieces)
      \<and> (\<forall>cuts. concat cuts = cs \<longrightarrow> feed (CRYPTO_cfb128_8_encrypt block key False) s cuts = Some (concat pieces, t))"
    by (rule cfb8_mode.feed_roundtrip)
qed

theorem feedback_modes_roundtrip_witness:
  "(\<exists>cs t. feed (CRYPTO_ofb128_encrypt toy_block (replicate 16 7)) \<lparr>fb_iv = replicate 16 1, fb_num = 0\<rparr> [[1], [], replicate 20 4]
        = Some (cs, t) \<and> length cs = length (concat [[1 :: u8], [], replicate 20 4])
      \<and> (\<forall>cuts. concat cuts = cs \<longrightarrow> feed (CRYPTO_ofb128_encrypt toy_block (replicate 16 7))
            \<lparr>fb_iv = replicate 16 1, fb_num = 0\<rparr> cuts = Some (concat [[1], [], replicate 20 4], t)))
    \<and> (\<exists>cs t. feed (CRYPTO_cfb128_8_encrypt toy_block (replicate 16 7) True) \<lparr>fb_iv = replicate 16 1, fb_num = 0\<rparr> [[1], [], replicate 20 4]
        = Some (cs, t) \<and> length cs = length (concat [[1 :: u8], [], replicate 20 4])
      \<and> (\<forall>cuts. concat cuts = cs \<longrightarrow> feed (CRYPTO_cfb128_8_encrypt toy_block (replicate 16 7) False)
            \<lparr>fb_iv = replicate 16 1, fb_num = 0\<rparr> cuts = Some (concat [[1], [], replicate 20 4], t)))"
proof -
  have "block_ok toy_block (replicate 16 7)" by (simp add: toy_block_ok)
  note feedback_modes_roundtrip [OF this, of "\<lparr>fb_iv = replicate 16 1, fb_num = 0\<rparr>" "[[1], [], replicate 20 4]"]
  then show ?thesis by (simp only: feedback.simps length_replicate simp_thms zero_less_numeral)
qed

subsection \<open>One bit\<close>

text \<open>Bit \<open>n\<close> of a buffer, the highest bit of a byte first, and the shift of \<open>ivec\<close> by one bit.\<close>

definition buf_bit :: "bytes \<Rightarrow> nat \<Rightarrow> bool" where
  "buf_bit buf n = bit (buf ! (n div 8)) (7 - n mod 8)"

definition shift_bit :: "bytes \<Rightarrow> bool \<Rightarrow> bytes" where
  "shift_bit iv x = map (\<lambda>n. push_bit 1 (iv ! n) OR (if n < 15 then drop_bit 7 (iv ! (n + 1)) else of_bool x)) [0..<16]"

definition cfb1_step :: "(bytes \<Rightarrow> 'k \<Rightarrow> bytes) \<Rightarrow> 'k \<Rightarrow> bool \<Rightarrow> bytes \<Rightarrow> bool \<Rightarrow> bool \<times> bytes" where
  "cfb1_step block key enc iv i =
     (let c = (i \<noteq> bit (block iv key ! 0) 7) in (c, shift_bit iv (if enc then c else i)))"

lemma length_shift_bit [simp]: "length (shift_bit iv x) = 16"
  by (simp add: shift_bit_def)

interpretation cfb1_mode: step_pair "\<lambda>iv. block_ok block key \<and> length iv = 16"
    "cfb1_step block key True" "cfb1_step block key False" for block key
  by unfold_locales (auto simp: cfb1_step_def Let_def)

lemma u8_top: "drop_bit 7 (x :: u8) = of_bool (bit x 7)"
proof (rule bit_word_eqI)
  fix k :: nat
  show "bit (drop_bit 7 x) k \<longleftrightarrow> bit (of_bool (bit x 7) :: u8) k"
    by (cases k) (simp_all add: bit_drop_bit_eq u8_high_bit bit_of_bool_iff)
qed

lemma cfbr_1:
  assumes "length iv = 16"
  shows "\<exists>d. cfbr_encrypt_block block key enc 1 iv [if i then 0x80 else 0] = ([d], snd (cfb1_step block key enc iv i))
    \<and> bit d 7 = fst (cfb1_step block key enc iv i)"
proof -
  define c :: u8 where "c = (if i then 0x80 else 0)"
  define d where "d = c XOR block iv key ! 0"
  define x where "x = (if enc then d else c)"
  have b: "bit c 7 = i" "bit d 7 = (i \<noteq> bit (block iv key ! 0) 7)"
    by (auto simp: c_def d_def bit_xor_iff)
  then have x: "bit x 7 = (if enc then i \<noteq> bit (block iv key ! 0) 7 else i)" by (simp add: x_def)
  have "map (\<lambda>n. push_bit 1 ((iv @ [x]) ! n) OR drop_bit 7 ((iv @ [x]) ! (n + 1))) [0..<16] = shift_bit iv (bit x 7)"
    unfolding shift_bit_def
  proof (rule map_cong [OF refl])
    fix n :: nat
    assume "n \<in> set [0..<16]"
    then have "n < 15 \<or> n = 15" by auto
    then show "push_bit 1 ((iv @ [x]) ! n) OR drop_bit 7 ((iv @ [x]) ! (n + 1))
        = push_bit 1 (iv ! n) OR (if n < 15 then drop_bit 7 (iv ! (n + 1)) else of_bool (bit x 7))"
      using assms by (elim disjE) (simp_all add: nth_append u8_top)
  qed
  then have "cfbr_encrypt_block block key enc 1 iv [c] = ([d], shift_bit iv (bit x 7))"
    by (cases enc) (simp_all add: cfbr_encrypt_block_def d_def x_def Let_def)
  then show ?thesis using b(2) x unfolding c_def [symmetric] by (auto simp: cfb1_step_def Let_def)
qed

lemma bit_test: "(b AND push_bit k 1 \<noteq> (0 :: u8)) \<longleftrightarrow> bit b k"
  by (metis and_exp_eq_0_iff_not_bit push_bit_of_1)

lemma put_bit:
  assumes "n < 8"
  shows "bit ((b AND NOT (push_bit (7 - n) 1)) OR drop_bit n (d AND 0x80) :: u8) k
    \<longleftrightarrow> (if k = 7 - n then bit d 7 else bit b k)"
proof (cases "k < 8")
  case True
  have p: "bit (push_bit m 1 :: u8) j \<longleftrightarrow> j < 8 \<and> m = j" for m j
    by (auto simp: push_bit_of_1 bit_exp_iff)
  have "(0x80 :: u8) = push_bit 7 1" by simp
  then have t: "bit (0x80 :: u8) j \<longleftrightarrow> j = 7" for j using p [of 7 j] by auto
  have "bit (NOT (push_bit (7 - n) 1) :: u8) k \<longleftrightarrow> k \<noteq> 7 - n"
    using True p [of "7 - n" k] by (simp add: bit_not_iff) blast
  moreover have "n + k = 7 \<longleftrightarrow> k = 7 - n" using assms by linarith
  ultimately show ?thesis
    unfolding bit_or_iff bit_and_iff bit_drop_bit_eq comp_def t by (cases "k = 7 - n") simp_all
next
  case False
  then have "k \<noteq> 7 - n" by linarith
  then show ?thesis using False u8_high_bit [of k] by (simp only: if_False not_less)
qed

lemma buf_bit_put:
  assumes "n < 8 * length out" and "m < 8 * length out"
  shows "buf_bit (out[n div 8 := (out ! (n div 8) AND NOT (push_bit (7 - n mod 8) 1)) OR drop_bit (n mod 8) (d AND 0x80)]) m
    \<longleftrightarrow> (if m = n then bit d 7 else buf_bit out m)"
proof -
  have l: "n div 8 < length out" "m div 8 < length out" "n mod 8 < 8" "m mod 8 < 8"
    using assms by (simp_all add: div_less_iff_less_mult mult.commute)
  show ?thesis
  proof (cases "m div 8 = n div 8")
    case True
    then have "m = n \<longleftrightarrow> m mod 8 = n mod 8" by (metis div_mult_mod_eq)
    moreover have "7 - m mod 8 = 7 - n mod 8 \<longleftrightarrow> m mod 8 = n mod 8" using l by linarith
    ultimately show ?thesis unfolding buf_bit_def True using l put_bit [OF l(3)] by simp
  next
    case False
    then have "m \<noteq> n" by auto
    with False show ?thesis by (simp add: buf_bit_def)
  qed
qed

lemma cfb1_fold:
  assumes "block_ok block key" and "length iv = 16" and "bits \<le> 8 * length out"
  shows "\<exists>cs iv' out'. run (cfb1_step block key enc) iv (map (buf_bit inp) [0..<bits]) = (cs, iv') \<and> length cs = bits
    \<and> fold (cfb1_turn block key enc inp) [0..<bits] (out, iv) = (out', iv') \<and> length out' = length out
    \<and> (\<forall>m < 8 * length out. buf_bit out' m = (if m < bits then cs ! m else buf_bit out m))"
  using assms(3)
proof (induction bits)
  case (Suc n)
  then obtain cs iv' out' where ih: "run (cfb1_step block key enc) iv (map (buf_bit inp) [0..<n]) = (cs, iv')" "length cs = n"
      "fold (cfb1_turn block key enc inp) [0..<n] (out, iv) = (out', iv')" "length out' = length out"
      "\<forall>m < 8 * length out. buf_bit out' m = (if m < n then cs ! m else buf_bit out m)"
    using Suc_leD by blast
  have iv': "length iv' = 16"
    using cfb1_mode.enc.run_ok [of block key iv "map (buf_bit inp) [0..<n]"]
      cfb1_mode.dec.run_ok [of block key iv "map (buf_bit inp) [0..<n]"] assms(1,2) ih(1)
    by (cases enc) simp_all
  let ?s = "cfb1_step block key enc iv' (buf_bit inp n)"
  obtain d where d: "cfbr_encrypt_block block key enc 1 iv' [if buf_bit inp n then 0x80 else 0] = ([d], snd ?s)"
      "bit d 7 = fst ?s" using cfbr_1 [OF iv', of block key enc "buf_bit inp n"] by (elim exE conjE)
  let ?out = "out'[n div 8 := (out' ! (n div 8) AND NOT (push_bit (7 - n mod 8) 1)) OR drop_bit (n mod 8) (d AND 0x80)]"
  have test: "(inp ! (n div 8) AND push_bit (7 - n mod 8) 1 \<noteq> 0) = buf_bit inp n"
    unfolding buf_bit_def by (rule bit_test)
  have turn: "cfb1_turn block key enc inp n (out', iv') = (?out, snd ?s)"
    by (simp only: cfb1_turn_def test d(1) Let_def case_prod_conv nth_Cons_0)
  have "run (cfb1_step block key enc) iv (map (buf_bit inp) [0..<Suc n]) = (cs @ [fst ?s], snd ?s)"
    using ih(1) by (simp add: run_append Let_def split: prod.split)
  moreover have "fold (cfb1_turn block key enc inp) [0..<Suc n] (out, iv) = (?out, snd ?s)"
    using ih(3) turn by simp
  moreover have "\<forall>m < 8 * length out. buf_bit ?out m = (if m < Suc n then (cs @ [fst ?s]) ! m else buf_bit out m)"
  proof (intro allI impI)
    fix m
    assume m: "m < 8 * length out"
    then have "buf_bit ?out m = (if m = n then fst ?s else buf_bit out' m)"
      using buf_bit_put [of n out' m d] ih(4) Suc.prems d(2) by simp
    then show "buf_bit ?out m = (if m < Suc n then (cs @ [fst ?s]) ! m else buf_bit out m)"
      using ih(2,5) m by (simp add: nth_append less_Suc_eq)
  qed
  moreover have "length ?out = length out" "length (cs @ [fst ?s]) = Suc n" using ih(2,4) by (simp_all only: length_list_update) simp
  ultimately show ?case by blast
qed (intro exI [of _ "[]"] exI [of _ iv] exI [of _ out], simp)

text \<open>
  C37. Cipher feedback with one bit works on buffers of bits: encryption writes exactly the first \<open>bits\<close>
  bits of \<open>out\<close> and no other, and decrypting them, into any other buffer, gives the first \<open>bits\<close> bits of
  the input back and leaves the rest of that buffer alone; both sides end with the same \<open>ivec\<close>.
\<close>

theorem cfb1_roundtrip:
  assumes "block_ok block key" and "length (fb_iv s) = 16" and "fb_num s = 0"
    and "bits \<le> 8 * length out" and "bits \<le> 8 * length out2"
  shows "\<exists>c p t. CRYPTO_cfb128_1_encrypt block key True s inp bits out = Some (c, t)
    \<and> CRYPTO_cfb128_1_encrypt block key False s c bits out2 = Some (p, t)
    \<and> length c = length out \<and> (\<forall>m < 8 * length out. bits \<le> m \<longrightarrow> buf_bit c m = buf_bit out m)
    \<and> length p = length out2 \<and> (\<forall>m < 8 * length out2. buf_bit p m = (if m < bits then buf_bit inp m else buf_bit out2 m))"
proof -
  let ?bits = "map (buf_bit inp) [0..<bits]"
  obtain cs iv' c where e: "run (cfb1_step block key True) (fb_iv s) ?bits = (cs, iv')" "length cs = bits"
      "fold (cfb1_turn block key True inp) [0..<bits] (out, fb_iv s) = (c, iv')" "length c = length out"
      "\<forall>m < 8 * length out. buf_bit c m = (if m < bits then cs ! m else buf_bit out m)"
    using cfb1_fold [OF assms(1,2,4), of True inp] by (elim exE conjE)
  have cs: "map (buf_bit c) [0..<bits] = cs" using e(2,5) assms(4) by (intro nth_equalityI) auto
  have "run (cfb1_step block key False) (fb_iv s) cs = (?bits, iv')"
    using cfb1_mode.run_back [OF _ e(1)] assms(1,2) by blast
  moreover obtain ds iv'' p where d: "run (cfb1_step block key False) (fb_iv s) (map (buf_bit c) [0..<bits]) = (ds, iv'')"
      "fold (cfb1_turn block key False c) [0..<bits] (out2, fb_iv s) = (p, iv'')" "length p = length out2"
      "\<forall>m < 8 * length out2. buf_bit p m = (if m < bits then ds ! m else buf_bit out2 m)"
    using cfb1_fold [OF assms(1,2,5), of False c] by (elim exE conjE)
  ultimately have ds: "ds = ?bits" "iv'' = iv'" unfolding cs by simp_all
  have "CRYPTO_cfb128_1_encrypt block key True s inp bits out = Some (c, s\<lparr>fb_iv := iv'\<rparr>)"
    "CRYPTO_cfb128_1_encrypt block key False s c bits out2 = Some (p, s\<lparr>fb_iv := iv'\<rparr>)"
    using assms(3) e(3) d(2) ds(2) by (simp_all add: CRYPTO_cfb128_1_encrypt_def)
  moreover have "\<forall>m < 8 * length out2. buf_bit p m = (if m < bits then buf_bit inp m else buf_bit out2 m)"
    using d(4) unfolding ds(1) by simp
  moreover have "\<forall>m < 8 * length out. bits \<le> m \<longrightarrow> buf_bit c m = buf_bit out m" using e(5) by auto
  ultimately show ?thesis using e(4) d(3) by (intro exI conjI)
qed

theorem cfb1_roundtrip_witness:
  "\<exists>c p t. CRYPTO_cfb128_1_encrypt toy_block (replicate 16 7) True \<lparr>fb_iv = replicate 16 1, fb_num = 0\<rparr>
        [0xA5, 0x3C] 11 [0, 255] = Some (c, t)
    \<and> CRYPTO_cfb128_1_encrypt toy_block (replicate 16 7) False \<lparr>fb_iv = replicate 16 1, fb_num = 0\<rparr>
        c 11 [0, 0, 9] = Some (p, t)
    \<and> length c = length [0, 255 :: u8] \<and> (\<forall>m < 8 * length [0, 255 :: u8]. 11 \<le> m \<longrightarrow> buf_bit c m = buf_bit [0, 255] m)
    \<and> length p = length [0, 0, 9 :: u8] \<and> (\<forall>m < 8 * length [0, 0, 9 :: u8].
        buf_bit p m = (if m < 11 then buf_bit [0xA5, 0x3C] m else buf_bit [0, 0, 9] m))"
  by (rule cfb1_roundtrip) (simp_all add: toy_block_ok)

end
