(* ===== verification/Cbc.thy ===== *)
theory Cbc
  imports Block_Mode "HOL-Library.Monad_Syntax"
begin

unbundle bit_operations_syntax

section \<open>Cipher block chaining (crypto/fipsmodule/modes/cbc.c)\<close>

text \<open>
  The routines of cbc.c take their source and destination as pointers that may overlap, choose their
  algorithm by comparing the pointers, and keep a pointer to the previous ciphertext block. So memory
  is explicit here: \<open>in\<close> and \<open>out\<close> are offsets into one block of bytes, \<open>ivec\<close> is an object of its own,
  and \<open>iv\<close> points to \<open>ivec\<close> or into the block. \<open>None\<close> is undefined behaviour or a failed assertion: an
  access outside the block, \<open>memcpy\<close> from an object to itself, operands that overlap the wrong way.
\<close>

datatype iv_ptr = Ivec | At nat

definition get_bytes :: "bytes \<Rightarrow> nat \<Rightarrow> nat \<Rightarrow> bytes" where
  "get_bytes m p k = take k (drop p m)"

definition put_bytes :: "bytes \<Rightarrow> nat \<Rightarrow> bytes \<Rightarrow> bytes" where
  "put_bytes m p bs = take p m @ bs @ drop (p + length bs) m"

definition rd :: "bytes \<Rightarrow> nat \<Rightarrow> nat \<Rightarrow> bytes option" where
  "rd m p k = (if p + k \<le> length m then Some (get_bytes m p k) else None)"

definition wr :: "bytes \<Rightarrow> nat \<Rightarrow> bytes \<Rightarrow> bytes option" where
  "wr m p bs = (if p + length bs \<le> length m then Some (put_bytes m p bs) else None)"

definition rd_iv :: "bytes \<Rightarrow> bytes \<Rightarrow> iv_ptr \<Rightarrow> nat \<Rightarrow> nat \<Rightarrow> bytes option" where
  "rd_iv m ivec iv n k = (case iv of Ivec \<Rightarrow> rd ivec n k | At p \<Rightarrow> rd m (p + n) k)"

text \<open>A loop with a known range of its counter; it stops at the first undefined access.\<close>

fun foldM :: "(nat \<Rightarrow> 's \<Rightarrow> 's option) \<Rightarrow> nat list \<Rightarrow> 's \<Rightarrow> 's option" where
  "foldM f [] s = Some s"
| "foldM f (n # ns) s = do { s \<leftarrow> f n s; foldM f ns s }"

text \<open>\<open>(*block)(in, out, key)\<close>: 16 bytes are read before any are written.\<close>

definition call_block :: "(bytes \<Rightarrow> 'k \<Rightarrow> bytes) \<Rightarrow> 'k \<Rightarrow> nat \<Rightarrow> nat \<Rightarrow> bytes \<Rightarrow> bytes option" where
  "call_block block key inp out m = do { x \<leftarrow> rd m inp 16; wr m out (block x key) }"

definition memcpy_iv :: "bytes \<Rightarrow> iv_ptr \<Rightarrow> bytes option" where
  "memcpy_iv m iv = (case iv of Ivec \<Rightarrow> None | At p \<Rightarrow> rd m p 16)"

subsection \<open>Encryption\<close>

text \<open>One step of the loop over the words of a block, at \<open>n = 0\<close> and \<open>n = 8\<close>.\<close>

definition xor_word :: "nat \<Rightarrow> bytes \<Rightarrow> iv_ptr \<Rightarrow> nat \<Rightarrow> nat \<Rightarrow> bytes \<Rightarrow> bytes option" where
  "xor_word src ivec iv out n m = do {
     a \<leftarrow> rd m (src + n) 8;
     b \<leftarrow> rd_iv m ivec iv n 8;
     wr m (out + n) (CRYPTO_store_word_le (CRYPTO_load_word_le a XOR CRYPTO_load_word_le b)) }"

fun cbc_enc_blocks ::
  "(bytes \<Rightarrow> 'k \<Rightarrow> bytes) \<Rightarrow> 'k \<Rightarrow> nat \<Rightarrow> nat \<Rightarrow> nat \<Rightarrow> iv_ptr \<Rightarrow> bytes \<Rightarrow> bytes
     \<Rightarrow> (nat \<times> nat \<times> nat \<times> iv_ptr \<times> bytes) option" where
  "cbc_enc_blocks block key len inp out iv ivec m =
     (if 16 \<le> len then do {
        m \<leftarrow> foldM (xor_word inp ivec iv out) [0, 8] m;
        m \<leftarrow> call_block block key out out m;
        cbc_enc_blocks block key (len - 16) (inp + 16) (out + 16) (At out) ivec m }
      else Some (len, inp, out, iv, m))"

fun cbc_enc_tail ::
  "(bytes \<Rightarrow> 'k \<Rightarrow> bytes) \<Rightarrow> 'k \<Rightarrow> nat \<Rightarrow> nat \<Rightarrow> nat \<Rightarrow> iv_ptr \<Rightarrow> bytes \<Rightarrow> bytes \<Rightarrow> (iv_ptr \<times> bytes) option" where
  "cbc_enc_tail block key len inp out iv ivec m =
     (if 0 < len then do {
        m \<leftarrow> foldM (\<lambda>n m. do {
               a \<leftarrow> rd m (inp + n) 1;
               b \<leftarrow> rd_iv m ivec iv n 1;
               wr m (out + n) (map2 (XOR) a b) }) [0..<min 16 len] m;
        m \<leftarrow> foldM (\<lambda>n m. do { b \<leftarrow> rd_iv m ivec iv n 1; wr m (out + n) b }) [min 16 len..<16] m;
        m \<leftarrow> call_block block key out out m;
        if len \<le> 16 then Some (At out, m)
        else cbc_enc_tail block key (len - 16) (inp + 16) (out + 16) (At out) ivec m }
      else Some (iv, m))"

declare cbc_enc_blocks.simps [simp del] cbc_enc_tail.simps [simp del]

text \<open>The results are the memory and \<open>ivec\<close>.\<close>

definition CRYPTO_cbc128_encrypt ::
  "(bytes \<Rightarrow> 'k \<Rightarrow> bytes) \<Rightarrow> 'k \<Rightarrow> nat \<Rightarrow> nat \<Rightarrow> nat \<Rightarrow> bytes \<Rightarrow> bytes \<Rightarrow> (bytes \<times> bytes) option" where
  "CRYPTO_cbc128_encrypt block key inp out len ivec m =
     (if len = 0 then Some (m, ivec)
      else do {
        (len, inp, out, iv, m) \<leftarrow> cbc_enc_blocks block key len inp out Ivec ivec m;
        (iv, m) \<leftarrow> cbc_enc_tail block key len inp out iv ivec m;
        ivec \<leftarrow> memcpy_iv m iv;
        Some (m, ivec) })"

subsection \<open>Decryption\<close>

text \<open>The first branch: the cipher writes to \<open>out\<close> directly, \<open>iv\<close> points back into the source.\<close>

fun cbc_dec_far ::
  "(bytes \<Rightarrow> 'k \<Rightarrow> bytes) \<Rightarrow> 'k \<Rightarrow> nat \<Rightarrow> nat \<Rightarrow> nat \<Rightarrow> iv_ptr \<Rightarrow> bytes \<Rightarrow> bytes
     \<Rightarrow> (nat \<times> nat \<times> nat \<times> iv_ptr \<times> bytes) option" where
  "cbc_dec_far block key len inp out iv ivec m =
     (if 16 \<le> len then do {
        m \<leftarrow> call_block block key inp out m;
        m \<leftarrow> foldM (xor_word out ivec iv out) [0, 8] m;
        cbc_dec_far block key (len - 16) (inp + 16) (out + 16) (At inp) ivec m }
      else Some (len, inp, out, iv, m))"

text \<open>The second branch: the cipher writes to \<open>tmp\<close>, and \<open>ivec\<close> takes the source block word by word.\<close>

definition dec_word :: "bytes \<Rightarrow> nat \<Rightarrow> nat \<Rightarrow> nat \<Rightarrow> bytes \<times> bytes \<Rightarrow> (bytes \<times> bytes) option" where
  "dec_word tmp inp out n = (\<lambda>(m, ivec). do {
     c \<leftarrow> rd m (inp + n) 8;
     t \<leftarrow> rd tmp n 8;
     v \<leftarrow> rd ivec n 8;
     m \<leftarrow> wr m (out + n) (CRYPTO_store_word_le (CRYPTO_load_word_le t XOR CRYPTO_load_word_le v));
     ivec \<leftarrow> wr ivec n (CRYPTO_store_word_le (CRYPTO_load_word_le c));
     Some (m, ivec) })"

fun cbc_dec_near ::
  "(bytes \<Rightarrow> 'k \<Rightarrow> bytes) \<Rightarrow> 'k \<Rightarrow> nat \<Rightarrow> nat \<Rightarrow> nat \<Rightarrow> bytes \<Rightarrow> bytes
     \<Rightarrow> (nat \<times> nat \<times> nat \<times> bytes \<times> bytes) option" where
  "cbc_dec_near block key len inp out ivec m =
     (if 16 \<le> len then do {
        x \<leftarrow> rd m inp 16;
        (m, ivec) \<leftarrow> foldM (dec_word (block x key) inp out) [0, 8] (m, ivec);
        cbc_dec_near block key (len - 16) (inp + 16) (out + 16) ivec m }
      else Some (len, inp, out, ivec, m))"

definition dec_byte :: "bytes \<Rightarrow> nat \<Rightarrow> nat \<Rightarrow> nat \<Rightarrow> bytes \<times> bytes \<Rightarrow> (bytes \<times> bytes) option" where
  "dec_byte tmp inp out n = (\<lambda>(m, ivec). do {
     c \<leftarrow> rd m (inp + n) 1;
     t \<leftarrow> rd tmp n 1;
     v \<leftarrow> rd ivec n 1;
     m \<leftarrow> wr m (out + n) (map2 (XOR) t v);
     ivec \<leftarrow> wr ivec n c;
     Some (m, ivec) })"

fun cbc_dec_tail ::
  "(bytes \<Rightarrow> 'k \<Rightarrow> bytes) \<Rightarrow> 'k \<Rightarrow> nat \<Rightarrow> nat \<Rightarrow> nat \<Rightarrow> bytes \<Rightarrow> bytes \<Rightarrow> (bytes \<times> bytes) option" where
  "cbc_dec_tail block key len inp out ivec m =
     (if 0 < len then do {
        x \<leftarrow> rd m inp 16;
        (m, ivec) \<leftarrow> foldM (dec_byte (block x key) inp out) [0..<min 16 len] (m, ivec);
        if len \<le> 16 then do {
          ivec \<leftarrow> foldM (\<lambda>n ivec. do { c \<leftarrow> rd m (inp + n) 1; wr ivec n c }) [min 16 len..<16] ivec;
          Some (m, ivec) }
        else cbc_dec_tail block key (len - 16) (inp + 16) (out + 16) ivec m }
      else Some (m, ivec))"

declare cbc_dec_far.simps [simp del] cbc_dec_near.simps [simp del] cbc_dec_tail.simps [simp del]

definition CRYPTO_cbc128_decrypt ::
  "(bytes \<Rightarrow> 'k \<Rightarrow> bytes) \<Rightarrow> 'k \<Rightarrow> nat \<Rightarrow> nat \<Rightarrow> nat \<Rightarrow> bytes \<Rightarrow> bytes \<Rightarrow> (bytes \<times> bytes) option" where
  "CRYPTO_cbc128_decrypt block key inp out len ivec m =
     (if len = 0 then Some (m, ivec)
      else if \<not> (out \<le> inp \<or> inp + len \<le> out) then None
      else if (32 \<le> inp \<and> out \<le> inp - 32) \<or> inp < out
      then do {
        (len, inp, out, iv, m) \<leftarrow> cbc_dec_far block key len inp out Ivec ivec m;
        ivec \<leftarrow> memcpy_iv m iv;
        cbc_dec_tail block key len inp out ivec m }
      else do {
        (len, inp, out, ivec, m) \<leftarrow> cbc_dec_near block key len inp out ivec m;
        cbc_dec_tail block key len inp out ivec m })"

subsection \<open>Reading and writing the block of memory\<close>

lemma length_put [simp]: "p + length bs \<le> length m \<Longrightarrow> length (put_bytes m p bs) = length m"
  by (simp add: put_bytes_def)

lemma length_get [simp]: "p + k \<le> length m \<Longrightarrow> length (get_bytes m p k) = k"
  by (simp add: get_bytes_def)

lemma put_Nil [simp]: "put_bytes m p [] = m"
  by (simp add: put_bytes_def)

lemma nth_put:
  "p + length bs \<le> length m \<Longrightarrow> i < length m \<Longrightarrow>
     put_bytes m p bs ! i = (if p \<le> i \<and> i < p + length bs then bs ! (i - p) else m ! i)"
  by (auto simp: put_bytes_def nth_append)

lemma nth_get: "p + k \<le> length m \<Longrightarrow> i < k \<Longrightarrow> get_bytes m p k ! i = m ! (p + i)"
  by (simp add: get_bytes_def)

lemma get_put_other:
  assumes "p + length bs \<le> length m" and "q + k \<le> length m" and "q + k \<le> p \<or> p + length bs \<le> q"
  shows "get_bytes (put_bytes m p bs) q k = get_bytes m q k"
  using assms by (intro nth_equalityI) (auto simp: nth_get nth_put)

lemma get_put_same:
  assumes "p + length bs \<le> length m"
  shows "get_bytes (put_bytes m p bs) p (length bs) = bs"
  using assms by (intro nth_equalityI) (simp_all add: nth_get nth_put)

lemma put_put_next:
  assumes "p + length a + length b \<le> length m"
  shows "put_bytes (put_bytes m p a) (p + length a) b = put_bytes m p (a @ b)"
  using assms by (intro nth_equalityI) (auto simp: nth_put nth_append add.assoc)

lemma put_put_same:
  assumes "p + length a \<le> length m" and "length b = length a"
  shows "put_bytes (put_bytes m p a) p b = put_bytes m p b"
  using assms by (intro nth_equalityI) (auto simp: nth_put)

lemma get_append:
  "p + i + j \<le> length m \<Longrightarrow> get_bytes m p (i + j) = get_bytes m p i @ get_bytes m (p + i) j"
  by (simp add: get_bytes_def take_add add.commute)

lemma take_get: "i \<le> k \<Longrightarrow> take i (get_bytes m p k) = get_bytes m p i"
  by (simp add: get_bytes_def min_def)

lemma drop_get: "drop i (get_bytes m p k) = get_bytes m (p + i) (k - i)"
  by (simp add: get_bytes_def drop_take add.commute)

lemma rd_Some: "p + k \<le> length m \<Longrightarrow> rd m p k = Some (get_bytes m p k)"
  by (simp add: rd_def)

lemma wr_Some: "p + length bs \<le> length m \<Longrightarrow> wr m p bs = Some (put_bytes m p bs)"
  by (simp add: wr_def)

lemma foldM_append: "foldM f (xs @ ys) s = Option.bind (foldM f xs s) (foldM f ys)"
  by (induction xs arbitrary: s) (auto split: bind_splits)

text \<open>The previous block: \<open>V\<close> is what \<open>iv\<close> points to, and the destination does not touch it.\<close>

definition iv_is :: "bytes \<Rightarrow> bytes \<Rightarrow> iv_ptr \<Rightarrow> nat \<Rightarrow> bytes \<Rightarrow> bool" where
  "iv_is m ivec iv out V \<longleftrightarrow> length V = 16 \<and>
     (case iv of Ivec \<Rightarrow> ivec = V
      | At p \<Rightarrow> p + 16 \<le> length m \<and> get_bytes m p 16 = V \<and> (p + 16 \<le> out \<or> out + 16 \<le> p))"

lemma get_get: "n + k \<le> j \<Longrightarrow> p + j \<le> length m \<Longrightarrow> get_bytes (get_bytes m p j) n k = get_bytes m (p + n) k"
  by (intro nth_equalityI) (simp_all add: nth_get add.assoc)

lemma rd_iv_Some:
  "iv_is m ivec iv out V \<Longrightarrow> n + k \<le> 16 \<Longrightarrow> rd_iv m ivec iv n k = Some (get_bytes V n k)"
  using get_get [of n k 16] by (auto simp: iv_is_def rd_iv_def rd_def split: iv_ptr.splits)

lemma iv_is_put:
  assumes "iv_is m ivec iv out V" and "i + length bs \<le> 16" and "out + i + length bs \<le> length m"
  shows "iv_is (put_bytes m (out + i) bs) ivec iv out V"
  using assms by (auto simp: iv_is_def get_put_other split: iv_ptr.splits)

lemma store_xor_get:
  assumes "length a = 8" and "length b = 8"
  shows "CRYPTO_store_word_le (CRYPTO_load_word_le a XOR CRYPTO_load_word_le b) = map2 (XOR) a b"
  using assms store_xor_load [of a b] by (simp add: CRYPTO_store_word_le_def CRYPTO_load_word_le_def)

lemma get_halves: "p + 16 \<le> length m \<Longrightarrow> get_bytes m p 16 = get_bytes m p 8 @ get_bytes m (p + 8) 8"
  using get_append [of p 8 8 m] by simp

lemma get_all: "length V = 16 \<Longrightarrow> get_bytes V 0 16 = V"
  by (simp add: get_bytes_def)

text \<open>The loop over the words XORs a block with the previous one, also in place.\<close>

lemma xor_word_step:
  assumes "iv_is m ivec iv out V" and "n + 8 \<le> 16" and "src + n + 8 \<le> length m" and "out + n + 8 \<le> length m"
  shows "xor_word src ivec iv out n m = Some (put_bytes m (out + n) (map2 (XOR) (get_bytes m (src + n) 8) (get_bytes V n 8)))"
proof -
  have "length (get_bytes V n 8) = 8" using assms(1,2) by (intro length_get) (simp add: iv_is_def)
  then show ?thesis using assms by (simp add: xor_word_def rd_Some rd_iv_Some store_xor_get wr_Some)
qed

lemma xor_block:
  assumes iv: "iv_is m ivec iv out V" and "src + 16 \<le> length m" and "out + 16 \<le> length m"
    and "out \<le> src \<or> src + 16 \<le> out"
  shows "foldM (xor_word src ivec iv out) [0, 8] m = Some (put_bytes m out (map2 (XOR) (get_bytes m src 16) V))"
proof -
  have V: "length V = 16" using iv by (simp add: iv_is_def)
  define a where "a = map2 (XOR) (get_bytes m src 8) (get_bytes V 0 8)"
  define b where "b = map2 (XOR) (get_bytes m (src + 8) 8) (get_bytes V 8 8)"
  have la: "length a = 8" "length b = 8" using assms V by (simp_all add: a_def b_def)
  have 1: "xor_word src ivec iv out 0 m = Some (put_bytes m out a)"
    using xor_word_step [OF iv, of 0 src] assms by (simp add: a_def)
  have iv': "iv_is (put_bytes m out a) ivec iv out V" using iv_is_put [OF iv, of 0 a] la assms by simp
  have g: "get_bytes (put_bytes m out a) (src + 8) 8 = get_bytes m (src + 8) 8"
    using assms la by (intro get_put_other) auto
  have 2: "xor_word src ivec iv out 8 (put_bytes m out a) = Some (put_bytes (put_bytes m out a) (out + 8) b)"
    using xor_word_step [OF iv', of 8 src] assms la unfolding b_def [folded g] by simp
  have "map2 (XOR) (get_bytes m src 16) V = a @ b"
  proof -
    have "V = get_bytes V 0 8 @ get_bytes V 8 8" using get_halves [of 0 V] get_all [OF V] V by simp
    then have "map2 (XOR) (get_bytes m src 16) V
        = map2 (XOR) (get_bytes m src 8 @ get_bytes m (src + 8) 8) (get_bytes V 0 8 @ get_bytes V 8 8)"
      using get_halves [of src m] assms by simp
    also have "\<dots> = a @ b" unfolding a_def b_def by (subst zip_append) (use assms V in simp_all)
    finally show ?thesis .
  qed
  moreover have "put_bytes (put_bytes m out a) (out + 8) b = put_bytes m out (a @ b)"
    using put_put_next [of out a b m] la assms by simp
  ultimately show ?thesis using 1 2 by simp
qed

subsection \<open>Encryption is the chain of blocks over the zero-padded text\<close>

definition pad16 :: "bytes \<Rightarrow> bytes" where
  "pad16 xs = xs @ replicate (16 - length xs) 0"

function cbc_cipher :: "(bytes \<Rightarrow> 'k \<Rightarrow> bytes) \<Rightarrow> 'k \<Rightarrow> bytes \<Rightarrow> bytes \<Rightarrow> bytes" where
  "cbc_cipher block key V ps =
     (if ps = [] then []
      else let c = block (map2 (XOR) (pad16 (take 16 ps)) V) key in c @ cbc_cipher block key c (drop 16 ps))"
  by pat_completeness auto
termination
  by (relation "measure (\<lambda>(block, key, V, ps). length ps)") auto

declare cbc_cipher.simps [simp del]

definition last_block :: "bytes \<Rightarrow> bytes \<Rightarrow> bytes" where
  "last_block V cs = (if cs = [] then V else drop (length cs - 16) cs)"

lemma cbc_cipher_Nil [simp]: "cbc_cipher block key V [] = []"
  by (subst cbc_cipher.simps) simp

text \<open>The two byte loops of a partial block: the text is XORed in, then the rest of the previous block.\<close>

lemma xor_bytes_loop:
  assumes iv: "iv_is m ivec iv out V" and "src + k \<le> length m" and "out + 16 \<le> length m" and "k \<le> 16"
    and "out \<le> src \<or> src + k \<le> out"
  shows "foldM (\<lambda>n m. do { a \<leftarrow> rd m (src + n) 1; b \<leftarrow> rd_iv m ivec iv n 1; wr m (out + n) (map2 (XOR) a b) }) [0..<k] m
    = Some (put_bytes m out (map2 (XOR) (get_bytes m src k) (get_bytes V 0 k)))"
  using assms(2,4,5)
proof (induction k)
  case (Suc k)
  have V: "length V = 16" using iv by (simp add: iv_is_def)
  let ?w = "map2 (XOR) (get_bytes m src k) (get_bytes V 0 k)"
  let ?x = "map2 (XOR) (get_bytes m (src + k) 1) (get_bytes V k 1)"
  have w: "length ?w = k" using Suc.prems V by simp
  have x: "length ?x = 1" using Suc.prems V by simp
  have iv': "iv_is (put_bytes m out ?w) ivec iv out V" using iv_is_put [OF iv, of 0 ?w] w Suc.prems assms(3) by simp
  have g: "get_bytes (put_bytes m out ?w) (src + k) 1 = get_bytes m (src + k) 1"
    using Suc.prems w assms(3) by (intro get_put_other) auto
  let ?f = "\<lambda>n m. do { a \<leftarrow> rd m (src + n) 1; b \<leftarrow> rd_iv m ivec iv n 1; wr m (out + n) (map2 (XOR) a b) }"
  have "src + k \<le> length m" "k \<le> 16" "out \<le> src \<or> src + k \<le> out" using Suc.prems by linarith+
  then have ih: "foldM ?f [0..<k] m = Some (put_bytes m out ?w)" by (rule Suc.IH)
  have "map2 (XOR) (get_bytes m src (Suc k)) (get_bytes V 0 (Suc k)) = ?w @ ?x"
    using get_append [of src k 1 m] get_append [of 0 k 1 V] Suc.prems V by simp
  moreover have "put_bytes (put_bytes m out ?w) (out + k) ?x = put_bytes m out (?w @ ?x)"
    using put_put_next [of out ?w ?x m] w x Suc.prems assms(3) by simp
  moreover have "?f k (put_bytes m out ?w) = Some (put_bytes (put_bytes m out ?w) (out + k) ?x)"
    using rd_iv_Some [OF iv', of k 1] w x g Suc.prems assms(3) by (simp add: rd_Some wr_Some)
  ultimately show ?case unfolding upt_Suc_append [OF le0] foldM_append ih by simp
qed (simp add: get_bytes_def)

lemma copy_iv_loop:
  assumes iv: "iv_is m ivec iv out V" and "out + 16 \<le> length m" and "k \<le> 16"
  shows "foldM (\<lambda>n m. do { b \<leftarrow> rd_iv m ivec iv n 1; wr m (out + n) b }) [k..<16] m
    = Some (put_bytes m (out + k) (get_bytes V k (16 - k)))"
  using assms
proof (induction "16 - k" arbitrary: k m)
  case (Suc j)
  have V: "length V = 16" using Suc.prems by (simp add: iv_is_def)
  have k: "[k..<16] = k # [Suc k..<16]" using Suc by (intro upt_conv_Cons) simp
  let ?x = "get_bytes V k 1"
  have x: "length ?x = 1" using Suc V by simp
  have iv': "iv_is (put_bytes m (out + k) ?x) ivec iv out V" using iv_is_put [OF Suc.prems(1), of k ?x] x Suc by simp
  have "get_bytes V k (16 - k) = ?x @ get_bytes V (k + 1) (16 - Suc k)"
  proof -
    have "16 - k = 1 + (16 - Suc k)" using Suc by linarith
    then show ?thesis using get_append [of k 1 "16 - Suc k" V] Suc V by simp
  qed
  moreover have "put_bytes (put_bytes m (out + k) ?x) (out + k + 1) (get_bytes V (k + 1) (16 - Suc k))
      = put_bytes m (out + k) (?x @ get_bytes V (k + 1) (16 - Suc k))"
    using put_put_next [of "out + k" ?x "get_bytes V (k + 1) (16 - Suc k)" m] x V Suc by simp
  ultimately show ?case
    using Suc.hyps(1) [OF _ iv', of "Suc k"] Suc.hyps(2) Suc.prems rd_iv_Some [OF Suc.prems(1), of k 1] x
    unfolding k by (simp add: wr_Some)
qed (simp add: get_bytes_def)

lemma pad_xor:
  assumes "length V = 16" and "length xs = k" and "k \<le> 16"
  shows "map2 (XOR) xs (get_bytes V 0 k) @ get_bytes V k (16 - k) = map2 (XOR) (pad16 xs) V"
proof -
  have "V = get_bytes V 0 k @ get_bytes V k (16 - k)"
    using get_append [of 0 k "16 - k" V] get_all [OF assms(1)] assms by simp
  then have "map2 (XOR) (pad16 xs) V = map2 (XOR) (xs @ replicate (16 - k) 0) (get_bytes V 0 k @ get_bytes V k (16 - k))"
    using assms(2) by (simp add: pad16_def)
  also have "\<dots> = map2 (XOR) xs (get_bytes V 0 k) @ map2 (XOR) (replicate (16 - k) 0) (get_bytes V k (16 - k))"
    by (subst zip_append) (use assms in simp_all)
  also have "map2 (XOR) (replicate (16 - k) 0) (get_bytes V k (16 - k)) = get_bytes V k (16 - k)"
    using assms by (intro nth_equalityI) simp_all
  finally show ?thesis by simp
qed

text \<open>The number of bytes in the blocks that hold \<open>len\<close> bytes.\<close>

definition round16 :: "nat \<Rightarrow> nat" where
  "round16 len = (len + 15) div 16 * 16"

lemma round16_0 [simp]: "round16 0 = 0"
  by (simp add: round16_def)

lemma round16_small: "0 < len \<Longrightarrow> len \<le> 16 \<Longrightarrow> round16 len = 16"
proof -
  assume "0 < len" "len \<le> 16"
  then have "(len + 15) div 16 = 1" by (intro div_nat_eqI) simp_all
  then show ?thesis by (simp add: round16_def)
qed

lemma round16_step: "16 \<le> len \<Longrightarrow> round16 len = 16 + round16 (len - 16)"
proof -
  assume "16 \<le> len"
  then obtain l where "len = l + 16" using le_Suc_ex by (metis add.commute)
  moreover have "(l + 16 + 15) div 16 = (l + 15) div 16 + 1"
    using div_add_self2 [of 16 "l + 15"] by (simp add: add.commute add.left_commute)
  ultimately show ?thesis by (simp add: round16_def)
qed

lemma round16_ge: "len \<le> round16 len"
proof (induction len rule: less_induct)
  case (less len)
  show ?case
  proof (cases "16 \<le> len")
    case True
    then have "len - 16 \<le> round16 (len - 16)" by (intro less) simp
    then show ?thesis using round16_step [OF True] True by linarith
  next
    case False
    then show ?thesis using round16_small [of len] by (cases "len = 0") simp_all
  qed
qed

definition enc_rest ::
  "(bytes \<Rightarrow> 'k \<Rightarrow> bytes) \<Rightarrow> 'k \<Rightarrow> nat \<Rightarrow> nat \<Rightarrow> nat \<Rightarrow> iv_ptr \<Rightarrow> bytes \<Rightarrow> bytes \<Rightarrow> (iv_ptr \<times> bytes) option" where
  "enc_rest block key len inp out iv ivec m = do {
     (len, inp, out, iv, m) \<leftarrow> cbc_enc_blocks block key len inp out iv ivec m;
     cbc_enc_tail block key len inp out iv ivec m }"

lemma enc_rest_block:
  "16 \<le> len \<Longrightarrow> enc_rest block key len inp out iv ivec m = do {
     m \<leftarrow> foldM (xor_word inp ivec iv out) [0, 8] m;
     m \<leftarrow> call_block block key out out m;
     enc_rest block key (len - 16) (inp + 16) (out + 16) (At out) ivec m }"
  unfolding enc_rest_def by (subst cbc_enc_blocks.simps) (simp del: foldM.simps)

lemma enc_rest_tail:
  "len < 16 \<Longrightarrow> enc_rest block key len inp out iv ivec m = cbc_enc_tail block key len inp out iv ivec m"
  unfolding enc_rest_def by (subst cbc_enc_blocks.simps) simp

lemma call_block_same:
  assumes "block_ok block key" and "length x = 16" and "out + 16 \<le> length m"
  shows "call_block block key out out (put_bytes m out x) = Some (put_bytes m out (block x key))"
  using assms get_put_same [of out x m] put_put_same [of out x m "block x key"] block_length [OF assms(1,2)]
  by (simp add: call_block_def rd_Some wr_Some)

lemma length_pad16 [simp]: "length xs \<le> 16 \<Longrightarrow> length (pad16 xs) = 16"
  by (simp add: pad16_def)

lemma pad16_full: "length xs = 16 \<Longrightarrow> pad16 xs = xs"
  by (simp add: pad16_def)

lemma cbc_cipher_step:
  assumes "16 \<le> len" and "inp + len \<le> length m"
  shows "cbc_cipher block key V (get_bytes m inp len) =
    (let c = block (map2 (XOR) (get_bytes m inp 16) V) key in c @ cbc_cipher block key c (get_bytes m (inp + 16) (len - 16)))"
proof -
  have "get_bytes m inp len \<noteq> []" using assms length_get [of inp len m] by force
  moreover have "take 16 (get_bytes m inp len) = get_bytes m inp 16" using assms by (intro take_get)
  ultimately show ?thesis using assms
    by (subst cbc_cipher.simps) (simp add: drop_get pad16_full)
qed

lemma cbc_cipher_last:
  assumes "0 < len" "len \<le> 16" and "inp + len \<le> length m"
  shows "cbc_cipher block key V (get_bytes m inp len) = block (map2 (XOR) (pad16 (get_bytes m inp len)) V) key"
proof -
  have "get_bytes m inp len \<noteq> []" "length (get_bytes m inp len) \<le> 16" using assms length_get [of inp len m] by force+
  then show ?thesis by (subst cbc_cipher.simps) simp
qed

lemma enc_rest_correct:
  assumes "block_ok block key"
  shows "iv_is m ivec iv out V \<Longrightarrow> inp + len \<le> length m \<Longrightarrow> out + round16 len \<le> length m \<Longrightarrow>
    out \<le> inp \<or> inp + len \<le> out \<Longrightarrow> 0 < len \<Longrightarrow>
    enc_rest block key len inp out iv ivec m
      = Some (At (out + round16 len - 16), put_bytes m out (cbc_cipher block key V (get_bytes m inp len)))
    \<and> length (cbc_cipher block key V (get_bytes m inp len)) = round16 len"
proof (induction len arbitrary: inp out iv m V rule: less_induct)
  case (less len)
  have V: "length V = 16" using less.prems(1) by (simp add: iv_is_def)
  show ?case
  proof (cases "16 \<le> len")
    case True
    let ?x = "map2 (XOR) (get_bytes m inp 16) V"
    let ?c = "block ?x key" and ?rest = "get_bytes m (inp + 16) (len - 16)"
    let ?m = "put_bytes m out ?c"
    have r: "round16 len = 16 + round16 (len - 16)" by (rule round16_step [OF True])
    then have out: "out + 16 \<le> length m" using less.prems(3) by linarith
    have x: "length ?x = 16" using True less.prems V by simp
    have c: "length ?c = 16" by (rule block_length [OF assms x])
    have iv': "iv_is ?m ivec (At out) (out + 16) ?c"
      using c out get_put_same [of out ?c m] by (simp add: iv_is_def)
    have g: "get_bytes ?m (inp + 16) (len - 16) = ?rest"
      using True c out less.prems(2,4) by (intro get_put_other) auto
    have "out \<le> inp \<or> inp + 16 \<le> out" using less.prems(4) True by linarith
    then have "foldM (xor_word inp ivec iv out) [0, 8] m = Some (put_bytes m out ?x)"
      using less.prems(1,2) True out by (intro xor_block) simp_all
    then have step: "enc_rest block key len inp out iv ivec m
        = enc_rest block key (len - 16) (inp + 16) (out + 16) (At out) ivec ?m"
      using call_block_same [OF assms x out] unfolding enc_rest_block [OF True] by (simp del: foldM.simps)
    show ?thesis
    proof (cases "len = 16")
      case True
      then show ?thesis using step g r c unfolding cbc_cipher_step [OF \<open>16 \<le> len\<close> less.prems(2)]
        by (simp add: enc_rest_tail cbc_enc_tail.simps get_bytes_def)
    next
      case False
      have "len - 16 < len" "0 < len - 16" using False True by linarith+
      moreover have "inp + 16 + (len - 16) \<le> length ?m" "out + 16 + round16 (len - 16) \<le> length ?m"
        using less.prems r c out True by simp_all
      moreover have "out + 16 \<le> inp + 16 \<or> inp + 16 + (len - 16) \<le> out + 16" using less.prems(4) True by linarith
      ultimately have ih: "enc_rest block key (len - 16) (inp + 16) (out + 16) (At out) ivec ?m
          = Some (At (out + 16 + round16 (len - 16) - 16), put_bytes ?m (out + 16) (cbc_cipher block key ?c ?rest))"
          "length (cbc_cipher block key ?c ?rest) = round16 (len - 16)"
        using less.IH [OF _ iv', of "len - 16" "inp + 16"] unfolding g by blast+
      have "put_bytes ?m (out + 16) (cbc_cipher block key ?c ?rest) = put_bytes m out (?c @ cbc_cipher block key ?c ?rest)"
        using put_put_next [of out ?c "cbc_cipher block key ?c ?rest" m] c ih(2) less.prems(3) r by simp
      then show ?thesis using step ih c r unfolding cbc_cipher_step [OF True less.prems(2)] by (simp add: Let_def)
    qed
  next
    case False
    let ?p = "get_bytes m inp len"
    let ?w = "map2 (XOR) ?p (get_bytes V 0 len)" and ?v = "get_bytes V len (16 - len)"
    let ?x = "map2 (XOR) (pad16 ?p) V"
    have r: "round16 len = 16" using False less.prems by (intro round16_small) simp_all
    then have out: "out + 16 \<le> length m" using less.prems(3) by simp
    have p: "length ?p = len" "length ?w = len" "length ?v = 16 - len" using less.prems False V by simp_all
    have x: "length ?x = 16" using p False V by simp
    have c: "length (block ?x key) = 16" by (rule block_length [OF assms x])
    have "foldM (\<lambda>n m. do { a \<leftarrow> rd m (inp + n) 1; b \<leftarrow> rd_iv m ivec iv n 1; wr m (out + n) (map2 (XOR) a b) }) [0..<len] m
        = Some (put_bytes m out ?w)"
      by (rule xor_bytes_loop [OF less.prems(1,2) out]) (use False less.prems in simp_all)
    moreover have "iv_is (put_bytes m out ?w) ivec iv out V"
      using iv_is_put [OF less.prems(1), of 0 ?w] p out False by simp
    then have "foldM (\<lambda>n m. do { b \<leftarrow> rd_iv m ivec iv n 1; wr m (out + n) b }) [len..<16] (put_bytes m out ?w)
        = Some (put_bytes (put_bytes m out ?w) (out + len) ?v)"
      by (rule copy_iv_loop) (use out p False in simp_all)
    moreover have "put_bytes (put_bytes m out ?w) (out + len) ?v = put_bytes m out ?x"
      using put_put_next [of out ?w ?v m] pad_xor [OF V p(1)] p out False by simp
    ultimately show ?thesis
      using False less.prems(5) r c call_block_same [OF assms x out] cbc_cipher_last [OF less.prems(5) _ less.prems(2), of block key V]
      by (simp add: enc_rest_tail cbc_enc_tail.simps min_def del: foldM.simps)
  qed
qed

lemma CRYPTO_cbc128_encrypt_exact:
  assumes "block_ok block key" and "length ivec = 16" and "inp + len \<le> length m" and "out + round16 len \<le> length m"
    and "out \<le> inp \<or> inp + len \<le> out"
  shows "CRYPTO_cbc128_encrypt block key inp out len ivec m =
      Some (put_bytes m out (cbc_cipher block key ivec (get_bytes m inp len)),
        last_block ivec (cbc_cipher block key ivec (get_bytes m inp len)))
    \<and> length (cbc_cipher block key ivec (get_bytes m inp len)) = round16 len"
proof (cases "len = 0")
  case False
  let ?cs = "cbc_cipher block key ivec (get_bytes m inp len)"
  have iv: "iv_is m ivec Ivec out ivec" using assms(2) by (simp add: iv_is_def)
  have e: "enc_rest block key len inp out Ivec ivec m = Some (At (out + round16 len - 16), put_bytes m out ?cs)"
      "length ?cs = round16 len"
    using enc_rest_correct [OF assms(1) iv assms(3-5)] False by simp_all
  have r: "16 \<le> round16 len" using False round16_ge [of len] round16_step [of len] round16_small [of len] by (cases "16 \<le> len") simp_all
  have "get_bytes (put_bytes m out ?cs) (out + round16 len - 16) 16 = drop (round16 len - 16) (get_bytes (put_bytes m out ?cs) out (round16 len))"
    using r by (simp add: drop_get)
  also have "\<dots> = last_block ivec ?cs"
    using get_put_same [of out ?cs m] assms(4) e(2) r by (auto simp: last_block_def)
  finally have "memcpy_iv (put_bytes m out ?cs) (At (out + round16 len - 16)) = Some (last_block ivec ?cs)"
    using assms(4) e(2) r by (simp add: memcpy_iv_def rd_Some)
  then show ?thesis using e False
    by (simp add: CRYPTO_cbc128_encrypt_def enc_rest_def bind_eq_Some_conv split_beta)
      (auto simp: bind_eq_Some_conv split: prod.splits bind_splits)
qed (simp add: CRYPTO_cbc128_encrypt_def get_bytes_def last_block_def)

subsection \<open>Decryption undoes the chain\<close>

function cbc_plain :: "(bytes \<Rightarrow> 'k \<Rightarrow> bytes) \<Rightarrow> 'k \<Rightarrow> bytes \<Rightarrow> bytes \<Rightarrow> bytes" where
  "cbc_plain unblock key V cs =
     (if cs = [] then []
      else map2 (XOR) (unblock (take 16 cs) key) V @ cbc_plain unblock key (take 16 cs) (drop 16 cs))"
  by pat_completeness auto
termination
  by (relation "measure (\<lambda>(unblock, key, V, cs). length cs)") auto

declare cbc_plain.simps [simp del]

lemma cbc_plain_Nil [simp]: "cbc_plain unblock key V [] = []"
  by (subst cbc_plain.simps) simp

lemma cbc_plain_step:
  "length c = 16 \<Longrightarrow> cbc_plain unblock key V (c @ cs) = map2 (XOR) (unblock c key) V @ cbc_plain unblock key c cs"
  by (subst cbc_plain.simps) auto

lemma last_block_append: "length c = 16 \<Longrightarrow> last_block V (c @ cs) = last_block c cs \<or> 0 < length cs \<and> length cs < 16"
  by (auto simp: last_block_def)

lemma last_block_self: "length c = 16 \<Longrightarrow> last_block V c = c"
  by (auto simp: last_block_def)

lemma store_load_get: "length a = 8 \<Longrightarrow> CRYPTO_store_word_le (CRYPTO_load_word_le a) = a"
  using store_load_word [of a] by (simp add: CRYPTO_store_word_le_def CRYPTO_load_word_le_def)

lemma dec_word_step:
  assumes "length tmp = 16" and "length V = 16" and "n + 8 \<le> 16" and "inp + n + 8 \<le> length m" and "out + n + 8 \<le> length m"
  shows "dec_word tmp inp out n (m, V) = Some
    (put_bytes m (out + n) (map2 (XOR) (get_bytes tmp n 8) (get_bytes V n 8)), put_bytes V n (get_bytes m (inp + n) 8))"
  using assms by (simp add: dec_word_def rd_Some wr_Some store_xor_get store_load_get)

lemma put_all: "length bs = length m \<Longrightarrow> put_bytes m 0 bs = bs"
  by (simp add: put_bytes_def)

lemma dec_block:
  assumes l: "length tmp = 16" "length V = 16" and "inp + 16 \<le> length m" and "out + 16 \<le> length m"
    and "out \<le> inp \<or> inp + 16 \<le> out"
  shows "foldM (dec_word tmp inp out) [0, 8] (m, V) = Some (put_bytes m out (map2 (XOR) tmp V), get_bytes m inp 16)"
proof -
  define a where "a = map2 (XOR) (get_bytes tmp 0 8) (get_bytes V 0 8)"
  define b where "b = map2 (XOR) (get_bytes tmp 8 8) (get_bytes V 8 8)"
  define W where "W = put_bytes V 0 (get_bytes m inp 8)"
  have la: "length a = 8" "length b = 8" "length W = 16" using assms by (simp_all add: a_def b_def W_def)
  have 1: "dec_word tmp inp out 0 (m, V) = Some (put_bytes m out a, W)"
    using dec_word_step [OF l, of 0 inp m out] assms by (simp add: a_def W_def)
  have g: "get_bytes (put_bytes m out a) (inp + 8) 8 = get_bytes m (inp + 8) 8"
    using assms la by (intro get_put_other) auto
  have w: "get_bytes W 8 8 = get_bytes V 8 8" unfolding W_def using assms by (intro get_put_other) simp_all
  have 2: "dec_word tmp inp out 8 (put_bytes m out a, W)
      = Some (put_bytes (put_bytes m out a) (out + 8) b, put_bytes W 8 (get_bytes m (inp + 8) 8))"
    using dec_word_step [OF l(1) la(3), of 8 inp "put_bytes m out a" out] assms la g w by (simp add: b_def)
  have "tmp = get_bytes tmp 0 8 @ get_bytes tmp 8 8" "V = get_bytes V 0 8 @ get_bytes V 8 8"
    using get_halves [of 0 tmp] get_all [OF l(1)] get_halves [of 0 V] get_all [OF l(2)] l by simp_all
  then have "map2 (XOR) tmp V = map2 (XOR) (get_bytes tmp 0 8 @ get_bytes tmp 8 8) (get_bytes V 0 8 @ get_bytes V 8 8)" by simp
  also have "\<dots> = a @ b" unfolding a_def b_def by (subst zip_append) (use l in simp_all)
  finally have "put_bytes (put_bytes m out a) (out + 8) b = put_bytes m out (map2 (XOR) tmp V)"
    using put_put_next [of out a b m] la assms by simp
  moreover have "put_bytes W 8 (get_bytes m (inp + 8) 8) = get_bytes m inp 16"
    using put_put_next [of 0 "get_bytes m inp 8" "get_bytes m (inp + 8) 8" V] get_halves [of inp m] assms
      put_all [of "get_bytes m inp 16" V] by (simp add: W_def)
  ultimately show ?thesis using 1 2 by simp
qed

lemma dec_byte_loop:
  assumes l: "length tmp = 16" "length V = 16" and "inp + k \<le> length m" and "out + k \<le> length m" and "k \<le> 16"
    and "out \<le> inp \<or> inp + k \<le> out"
  shows "foldM (dec_byte tmp inp out) [0..<k] (m, V)
    = Some (put_bytes m out (take k (map2 (XOR) tmp V)), put_bytes V 0 (get_bytes m inp k))"
  using assms(3-)
proof (induction k)
  case (Suc k)
  let ?w = "take k (map2 (XOR) tmp V)" and ?V = "put_bytes V 0 (get_bytes m inp k)"
  let ?m = "put_bytes m out ?w"
  let ?x = "map2 (XOR) (get_bytes tmp k 1) (get_bytes V k 1)"
  have k: "inp + k \<le> length m" "out + k \<le> length m" "k \<le> 16" "out \<le> inp \<or> inp + k \<le> out" using Suc.prems by linarith+
  note ih = Suc.IH [OF k]
  have w: "length ?w = k" "length ?V = 16" "length ?x = 1" "length ?m = length m" using k l Suc.prems by simp_all
  have g: "get_bytes ?m (inp + k) 1 = get_bytes m (inp + k) 1"
    using w k Suc.prems by (intro get_put_other) auto
  have v: "get_bytes ?V k 1 = get_bytes V k 1"
    using w k l Suc.prems by (intro get_put_other) simp_all
  have "dec_byte tmp inp out k (?m, ?V) = Some (put_bytes ?m (out + k) ?x, put_bytes ?V k (get_bytes m (inp + k) 1))"
    using w l Suc.prems g v by (simp add: dec_byte_def rd_Some wr_Some)
  moreover have "take (Suc k) (map2 (XOR) tmp V) = ?w @ ?x"
  proof -
    have "?x = [tmp ! k XOR V ! k]" using Suc.prems l
      by (simp add: get_bytes_def take_Suc_conv_app_nth hd_drop_conv_nth take_Suc Cons_nth_drop_Suc [symmetric])
    then show ?thesis using Suc.prems l by (simp add: take_Suc_conv_app_nth)
  qed
  moreover have "put_bytes ?m (out + k) ?x = put_bytes m out (?w @ ?x)"
    using put_put_next [of out ?w ?x m] w Suc.prems by simp
  moreover have "put_bytes ?V k (get_bytes m (inp + k) 1) = put_bytes V 0 (get_bytes m inp (Suc k))"
    using put_put_next [of 0 "get_bytes m inp k" "get_bytes m (inp + k) 1" V] get_append [of inp k 1 m] Suc.prems l by simp
  ultimately show ?case unfolding upt_Suc_append [OF le0] foldM_append ih by simp
qed (simp add: get_bytes_def)

lemma dec_copy_loop:
  "length V = 16 \<Longrightarrow> inp + 16 \<le> length m \<Longrightarrow> k \<le> 16 \<Longrightarrow>
    foldM (\<lambda>n ivec. do { c \<leftarrow> rd m (inp + n) 1; wr ivec n c }) [k..<16] V
    = Some (put_bytes V k (get_bytes m (inp + k) (16 - k)))"
proof (induction "16 - k" arbitrary: k V)
  case (Suc j)
  have k: "[k..<16] = k # [Suc k..<16]" using Suc by (intro upt_conv_Cons) simp
  let ?x = "get_bytes m (inp + k) 1"
  have x: "length ?x = 1" using Suc by simp
  have "16 - k = 1 + (16 - Suc k)" using Suc by linarith
  then have "get_bytes m (inp + k) (16 - k) = ?x @ get_bytes m (inp + Suc k) (16 - Suc k)"
    using get_append [of "inp + k" 1 "16 - Suc k" m] Suc by simp
  moreover have "put_bytes (put_bytes V k ?x) (Suc k) (get_bytes m (inp + Suc k) (16 - Suc k))
      = put_bytes V k (?x @ get_bytes m (inp + Suc k) (16 - Suc k))"
    using put_put_next [of k ?x "get_bytes m (inp + Suc k) (16 - Suc k)" V] x Suc by simp
  moreover have "foldM (\<lambda>n ivec. do { c \<leftarrow> rd m (inp + n) 1; wr ivec n c }) [Suc k..<16] (put_bytes V k ?x)
      = Some (put_bytes (put_bytes V k ?x) (Suc k) (get_bytes m (inp + Suc k) (16 - Suc k)))"
    by (rule Suc.hyps(1)) (use Suc x in simp_all)
  ultimately show ?case using Suc.prems Suc.hyps(2) x unfolding k by (simp add: rd_Some wr_Some)
qed (simp add: get_bytes_def)

text \<open>The loop over partial blocks, for the last one.\<close>

lemma dec_tail:
  assumes "block_ok unblock key" and V: "length V = 16" and "0 < len" "len \<le> 16"
    and "inp + 16 \<le> length m" and "out + len \<le> length m" and "out \<le> inp \<or> inp + 16 \<le> out"
  shows "cbc_dec_tail unblock key len inp out V m = Some
    (put_bytes m out (take len (map2 (XOR) (unblock (get_bytes m inp 16) key) V)), get_bytes m inp 16)"
proof -
  let ?t = "unblock (get_bytes m inp 16) key"
  let ?m = "put_bytes m out (take len (map2 (XOR) ?t V))" and ?W = "put_bytes V 0 (get_bytes m inp len)"
  have t: "length ?t = 16" by (rule block_length [OF assms(1)]) (use assms(5) in simp)
  have w: "length (take len (map2 (XOR) ?t V)) = len" "length ?W = 16" "length ?m = length m" using t V assms by simp_all
  have 1: "foldM (dec_byte ?t inp out) [0..<len] (m, V) = Some (?m, ?W)"
    by (rule dec_byte_loop [OF t V]) (use assms in linarith)+
  have 2: "foldM (\<lambda>n ivec. do { c \<leftarrow> rd ?m (inp + n) 1; wr ivec n c }) [len..<16] ?W
      = Some (put_bytes ?W len (get_bytes ?m (inp + len) (16 - len)))"
    by (rule dec_copy_loop) (use w assms in simp_all)
  have g: "get_bytes ?m (inp + len) (16 - len) = get_bytes m (inp + len) (16 - len)"
    using w assms by (intro get_put_other) auto
  have "put_bytes ?W len (get_bytes m (inp + len) (16 - len)) = get_bytes m inp 16"
    using put_put_next [of 0 "get_bytes m inp len" "get_bytes m (inp + len) (16 - len)" V]
      get_append [of inp len "16 - len" m] put_all [of "get_bytes m inp 16" V] assms by simp
  note 3 = 2 [unfolded g this]
  have "min 16 len = len" using assms(4) by simp
  moreover have "rd m inp 16 = Some (get_bytes m inp 16)" using assms(5) by (rule rd_Some)
  ultimately show ?thesis using assms(3,4)
    by (subst cbc_dec_tail.simps) (simp only: 1 3 if_True bind.bind_lunit prod.case)
qed

definition near_rest ::
  "(bytes \<Rightarrow> 'k \<Rightarrow> bytes) \<Rightarrow> 'k \<Rightarrow> nat \<Rightarrow> nat \<Rightarrow> nat \<Rightarrow> bytes \<Rightarrow> bytes \<Rightarrow> (bytes \<times> bytes) option" where
  "near_rest unblock key len inp out ivec m = do {
     (len, inp, out, ivec, m) \<leftarrow> cbc_dec_near unblock key len inp out ivec m;
     cbc_dec_tail unblock key len inp out ivec m }"

definition far_rest ::
  "(bytes \<Rightarrow> 'k \<Rightarrow> bytes) \<Rightarrow> 'k \<Rightarrow> nat \<Rightarrow> nat \<Rightarrow> nat \<Rightarrow> iv_ptr \<Rightarrow> bytes \<Rightarrow> bytes \<Rightarrow> (bytes \<times> bytes) option" where
  "far_rest unblock key len inp out iv ivec m = do {
     (len, inp, out, iv, m) \<leftarrow> cbc_dec_far unblock key len inp out iv ivec m;
     ivec \<leftarrow> memcpy_iv m iv;
     cbc_dec_tail unblock key len inp out ivec m }"

lemma near_rest_block:
  "16 \<le> len \<Longrightarrow> near_rest unblock key len inp out ivec m = do {
     x \<leftarrow> rd m inp 16;
     (m, ivec) \<leftarrow> foldM (dec_word (unblock x key) inp out) [0, 8] (m, ivec);
     near_rest unblock key (len - 16) (inp + 16) (out + 16) ivec m }"
  unfolding near_rest_def by (subst cbc_dec_near.simps) (simp add: case_prod_unfold del: foldM.simps)

lemma near_rest_tail:
  "len < 16 \<Longrightarrow> near_rest unblock key len inp out ivec m = cbc_dec_tail unblock key len inp out ivec m"
  unfolding near_rest_def by (subst cbc_dec_near.simps) simp

lemma far_rest_block:
  "16 \<le> len \<Longrightarrow> far_rest unblock key len inp out iv ivec m = do {
     m \<leftarrow> call_block unblock key inp out m;
     m \<leftarrow> foldM (xor_word out ivec iv out) [0, 8] m;
     far_rest unblock key (len - 16) (inp + 16) (out + 16) (At inp) ivec m }"
  unfolding far_rest_def by (subst cbc_dec_far.simps) (simp del: foldM.simps)

lemma far_rest_tail:
  "len < 16 \<Longrightarrow> far_rest unblock key len inp out iv ivec m =
     do { ivec \<leftarrow> memcpy_iv m iv; cbc_dec_tail unblock key len inp out ivec m }"
  unfolding far_rest_def by (subst cbc_dec_far.simps) simp

text \<open>What decryption has to leave behind, by blocks.\<close>

definition dec_result :: "(bytes \<Rightarrow> 'k \<Rightarrow> bytes) \<Rightarrow> 'k \<Rightarrow> nat \<Rightarrow> nat \<Rightarrow> nat \<Rightarrow> bytes \<Rightarrow> bytes \<Rightarrow> bytes \<times> bytes" where
  "dec_result unblock key len inp out V m =
     (put_bytes m out (take len (cbc_plain unblock key V (get_bytes m inp (round16 len)))),
      last_block V (get_bytes m inp (round16 len)))"

lemma dec_result_0: "dec_result unblock key 0 inp out V m = (m, V)"
  by (simp add: dec_result_def get_bytes_def last_block_def)

lemma dec_result_last:
  assumes "0 < len" "len \<le> 16" "inp + 16 \<le> length m"
  shows "dec_result unblock key len inp out V m =
    (put_bytes m out (take len (map2 (XOR) (unblock (get_bytes m inp 16) key) V)), get_bytes m inp 16)"
  using cbc_plain_step [of "get_bytes m inp 16" unblock key V "[]"] assms round16_small [OF assms(1,2)]
  by (simp add: dec_result_def last_block_self)

lemma length_cbc_plain:
  "block_ok unblock key \<Longrightarrow> length V = 16 \<Longrightarrow> length cs = 16 * n \<Longrightarrow> length (cbc_plain unblock key V cs) = 16 * n"
proof (induction n arbitrary: V cs)
  case (Suc n)
  have c: "length (take 16 cs) = 16" using Suc.prems by simp
  then show ?case
    using Suc.IH [of "take 16 cs" "drop 16 cs"] cbc_plain_step [OF c, of unblock key V "drop 16 cs"] Suc.prems
      block_length [OF Suc.prems(1) c] by simp
qed simp

lemma dec_result_step:
  assumes bk: "block_ok unblock key" and V: "length V = 16" and len: "16 \<le> len"
    and "inp + round16 len \<le> length m" and "out + len \<le> length m" and o: "out \<le> inp \<or> inp + round16 len \<le> out"
  shows "dec_result unblock key (len - 16) (inp + 16) (out + 16) (get_bytes m inp 16)
      (put_bytes m out (map2 (XOR) (unblock (get_bytes m inp 16) key) V)) = dec_result unblock key len inp out V m"
proof -
  let ?c = "get_bytes m inp 16" and ?cs = "get_bytes m (inp + 16) (round16 (len - 16))"
  let ?x = "map2 (XOR) (unblock ?c key) V"
  have r: "round16 len = 16 + round16 (len - 16)" by (rule round16_step [OF len])
  have c: "length ?c = 16" using assms r by simp
  have x: "length ?x = 16" using block_length [OF bk c] V by simp
  have g: "get_bytes m inp (round16 len) = ?c @ ?cs"
    using get_append [of inp 16 "round16 (len - 16)" m] assms r by simp
  have g': "get_bytes (put_bytes m out ?x) (inp + 16) (round16 (len - 16)) = ?cs"
    using x assms r by (intro get_put_other) auto
  let ?p = "take (len - 16) (cbc_plain unblock key ?c ?cs)"
  have "length (cbc_plain unblock key ?c ?cs) = round16 (len - 16)"
    using length_cbc_plain [OF bk c, of ?cs "(len - 16 + 15) div 16"] assms r by (simp add: round16_def)
  then have p: "length ?p = len - 16" using round16_ge [of "len - 16"] by simp
  have "take len (cbc_plain unblock key V (?c @ ?cs)) = ?x @ ?p"
    using cbc_plain_step [OF c, of unblock key V ?cs] x len by simp
  moreover have "put_bytes (put_bytes m out ?x) (out + 16) ?p = put_bytes m out (?x @ ?p)"
    using put_put_next [of out ?x ?p m] x p assms by simp
  moreover have "last_block ?c ?cs = last_block V (?c @ ?cs)"
  proof (cases "?cs = []")
    case False
    have "length ?cs = round16 (len - 16)" using assms r by simp
    then have "16 \<le> length ?cs" using False by (cases "(len - 16 + 15) div 16") (auto simp: round16_def)
    then show ?thesis using False c by (simp add: last_block_def)
  qed (simp add: last_block_self c, simp add: last_block_def)
  ultimately show ?thesis unfolding dec_result_def g g' by simp
qed

lemma near_correct:
  assumes "block_ok unblock key"
  shows "length V = 16 \<Longrightarrow> inp + round16 len \<le> length m \<Longrightarrow> out + len \<le> length m \<Longrightarrow>
    out \<le> inp \<or> inp + round16 len \<le> out \<Longrightarrow>
    near_rest unblock key len inp out V m = Some (dec_result unblock key len inp out V m)"
proof (induction len arbitrary: inp out V m rule: less_induct)
  case (less len)
  show ?case
  proof (cases "16 \<le> len")
    case True
    let ?c = "get_bytes m inp 16"
    let ?x = "map2 (XOR) (unblock ?c key) V"
    have r: "round16 len = 16 + round16 (len - 16)" by (rule round16_step [OF True])
    have c: "length ?c = 16" using less.prems r by simp
    note t = block_length [OF assms c]
    have x: "length ?x = 16" using t less.prems(1) by simp
    have "foldM (dec_word (unblock ?c key) inp out) [0, 8] (m, V) = Some (put_bytes m out ?x, ?c)"
      by (rule dec_block [OF t less.prems(1)]) (use less.prems r True in linarith)+
    then have "near_rest unblock key len inp out V m
        = near_rest unblock key (len - 16) (inp + 16) (out + 16) ?c (put_bytes m out ?x)"
      unfolding near_rest_block [OF True] using less.prems r by (simp add: rd_Some del: foldM.simps)
    also have "\<dots> = Some (dec_result unblock key (len - 16) (inp + 16) (out + 16) ?c (put_bytes m out ?x))"
      using less.prems r c x True by (intro less.IH) auto
    also have "\<dots> = Some (dec_result unblock key len inp out V m)"
      using dec_result_step [OF assms less.prems(1) True less.prems(2-4)] by simp
    finally show ?thesis .
  next
    case False
    show ?thesis
    proof (cases "len = 0")
      case True
      then show ?thesis by (simp add: near_rest_tail cbc_dec_tail.simps dec_result_0)
    next
      case l: False
      then have r: "round16 len = 16" using False by (intro round16_small) simp_all
      then show ?thesis using dec_tail [OF assms less.prems(1), of len inp m out] dec_result_last [of len inp m unblock key out V] False l less.prems
        by (simp add: near_rest_tail)
    qed
  qed
qed

lemma far_correct:
  assumes "block_ok unblock key"
  shows "iv_is m ivec iv out V \<Longrightarrow> (case iv of Ivec \<Rightarrow> 16 \<le> len | At p \<Rightarrow> p + 16 = inp) \<Longrightarrow>
    inp + round16 len \<le> length m \<Longrightarrow> out + len \<le> length m \<Longrightarrow> out + 32 \<le> inp \<or> inp + round16 len \<le> out \<Longrightarrow>
    far_rest unblock key len inp out iv ivec m = Some (dec_result unblock key len inp out V m)"
proof (induction len arbitrary: inp out iv V m rule: less_induct)
  case (less len)
  have V: "length V = 16" using less.prems(1) by (simp add: iv_is_def)
  show ?case
  proof (cases "16 \<le> len")
    case True
    let ?c = "get_bytes m inp 16"
    let ?x = "map2 (XOR) (unblock ?c key) V"
    have r: "round16 len = 16 + round16 (len - 16)" by (rule round16_step [OF True])
    have c: "length ?c = 16" using less.prems r by simp
    note t = block_length [OF assms c]
    let ?m = "put_bytes m out (unblock ?c key)"
    have x: "length ?x = 16" using t V by simp
    have out: "out + 16 \<le> length m" using less.prems(4) True by linarith
    have 1: "call_block unblock key inp out m = Some ?m"
      using less.prems r out t by (simp add: call_block_def rd_Some wr_Some)
    have "iv_is ?m ivec iv out V" using iv_is_put [OF less.prems(1), of 0 "unblock ?c key"] t out by simp
    then have "foldM (xor_word out ivec iv out) [0, 8] ?m = Some (put_bytes ?m out (map2 (XOR) (get_bytes ?m out 16) V))"
      by (rule xor_block) (use out t in simp_all)
    then have 2: "foldM (xor_word out ivec iv out) [0, 8] ?m = Some (put_bytes m out ?x)"
      using get_put_same [of out "unblock ?c key" m] put_put_same [of out "unblock ?c key" m ?x] t x out by simp
    have "get_bytes (put_bytes m out ?x) inp 16 = ?c"
      using x out less.prems r by (intro get_put_other) auto
    then have iv: "iv_is (put_bytes m out ?x) ivec (At inp) (out + 16) ?c"
      using c x out less.prems r by (auto simp: iv_is_def)
    have "far_rest unblock key len inp out iv ivec m
        = far_rest unblock key (len - 16) (inp + 16) (out + 16) (At inp) ivec (put_bytes m out ?x)"
      unfolding far_rest_block [OF True] using 1 2 by (simp del: foldM.simps)
    also have "\<dots> = Some (dec_result unblock key (len - 16) (inp + 16) (out + 16) ?c (put_bytes m out ?x))"
      using less.prems r x True by (intro less.IH [OF _ iv]) auto
    also have "\<dots> = Some (dec_result unblock key len inp out V m)"
      using dec_result_step [OF assms V True less.prems(3,4)] less.prems(5) by auto
    finally show ?thesis .
  next
    case False
    then obtain p where p: "iv = At p" "p + 16 = inp" using less.prems(2) by (cases iv) auto
    then have iv: "memcpy_iv m iv = Some V" using less.prems(1) by (simp add: memcpy_iv_def iv_is_def rd_Some)
    show ?thesis
    proof (cases "len = 0")
      case True
      then show ?thesis using iv by (simp add: far_rest_tail cbc_dec_tail.simps dec_result_0)
    next
      case l: False
      then have r: "round16 len = 16" using False by (intro round16_small) simp_all
      moreover have "out \<le> inp \<or> inp + 16 \<le> out" using less.prems(5) r by linarith
      ultimately show ?thesis
        using dec_tail [OF assms V, of len inp m out] dec_result_last [of len inp m unblock key out V] False l less.prems(3,4) iv
        by (simp add: far_rest_tail)
    qed
  qed
qed

text \<open>The first branch of \<open>CRYPTO_cbc128_decrypt\<close> is taken when the regions are disjoint or far enough apart.\<close>

definition dec_far_away :: "nat \<Rightarrow> nat \<Rightarrow> bool" where
  "dec_far_away inp out \<longleftrightarrow> (32 \<le> inp \<and> out \<le> inp - 32) \<or> inp < out"

lemma CRYPTO_cbc128_decrypt_exact:
  assumes bk: "block_ok unblock key" and V: "length ivec = 16" and m: "inp + round16 len \<le> length m" "out + len \<le> length m"
    and o: "out \<le> inp \<or> inp + round16 len \<le> out" and short: "len = 0 \<or> 16 \<le> len \<or> \<not> dec_far_away inp out"
  shows "CRYPTO_cbc128_decrypt unblock key inp out len ivec m = Some (dec_result unblock key len inp out ivec m)"
proof (cases "len = 0")
  case True
  then show ?thesis by (simp add: CRYPTO_cbc128_decrypt_def dec_result_0)
next
  case False
  have apart: "out \<le> inp \<or> inp + len \<le> out" using o round16_ge [of len] by linarith
  show ?thesis
  proof (cases "dec_far_away inp out")
    case True
    then have "out + 32 \<le> inp \<or> inp + round16 len \<le> out" using o by (auto simp: dec_far_away_def)
    moreover have "iv_is m ivec Ivec out ivec" using V by (simp add: iv_is_def)
    moreover have "16 \<le> len" using True short False by simp
    ultimately have "far_rest unblock key len inp out Ivec ivec m = Some (dec_result unblock key len inp out ivec m)"
      using far_correct [OF bk, of m ivec Ivec out ivec len inp] m by simp
    then show ?thesis using True False apart
      by (simp add: CRYPTO_cbc128_decrypt_def far_rest_def dec_far_away_def)
  next
    case far: False
    then show ?thesis using near_correct [OF bk V m o] False apart
      by (auto simp: CRYPTO_cbc128_decrypt_def near_rest_def dec_far_away_def)
  qed
qed

lemma cbc_plain_cipher:
  assumes "block_ok block key" and inv: "\<forall>x. length x = 16 \<longrightarrow> unblock (block x key) key = x"
  shows "length V = 16 \<Longrightarrow> take (length ps) (cbc_plain unblock key V (cbc_cipher block key V ps)) = ps"
proof (induction "length ps" arbitrary: ps V rule: less_induct)
  case less
  show ?case
  proof (cases "ps = []")
    case False
    let ?p = "pad16 (take 16 ps)"
    let ?c = "block (map2 (XOR) ?p V) key"
    have x: "length (map2 (XOR) ?p V) = 16" using less.prems by simp
    have c: "length ?c = 16" by (rule block_length [OF assms(1) x])
    have "map2 (XOR) (map2 (XOR) ?p V) V = ?p"
      using less.prems by (intro nth_equalityI) (simp_all add: xor.assoc)
    then have p: "map2 (XOR) (unblock ?c key) V = ?p" using inv x by simp
    have "length (drop 16 ps) < length ps" using False by (cases ps) auto
    then have ih: "take (length (drop 16 ps)) (cbc_plain unblock key ?c (cbc_cipher block key ?c (drop 16 ps))) = drop 16 ps"
      using c by (rule less.hyps)
    have "cbc_plain unblock key V (cbc_cipher block key V ps) = ?p @ cbc_plain unblock key ?c (cbc_cipher block key ?c (drop 16 ps))"
      using False by (subst cbc_cipher.simps) (simp add: Let_def cbc_plain_step [OF c] p)
    moreover have "take (length ps) (?p @ qs) = take 16 ps @ take (length (drop 16 ps)) qs" for qs
      by (cases "16 \<le> length ps") (simp_all add: pad16_def)
    ultimately show ?thesis using ih by simp
  qed simp
qed

subsection \<open>The properties\<close>

text \<open>
  C38. What \<open>CRYPTO_cbc128_encrypt\<close> writes \<open>CRYPTO_cbc128_decrypt\<close> turns back into the text, for every
  length and for all the ways the regions may lie that the code allows: the source behind the
  destination or overlapping it from behind, in place, or apart from it. Encryption writes the length
  rounded up to 16 and nothing else, decryption exactly the text, and both leave the same \<open>ivec\<close>. The
  one exception, fewer than 16 bytes decrypted to somewhere else, is the next property.
\<close>

theorem cbc_roundtrip:
  assumes "block_ok block key" and "block_ok unblock key" and "\<forall>x. length x = 16 \<longrightarrow> unblock (block x key) key = x"
    and "length ivec = 16"
    and "inp + len \<le> length m" and "mid + round16 len \<le> length m" and "out + len \<le> length m"
    and "mid \<le> inp \<or> inp + len \<le> mid" and "out \<le> mid \<or> mid + round16 len \<le> out"
    and "16 \<le> len \<or> (out \<le> mid \<and> mid < out + 32)"
  shows "\<exists>cs ivec'. length cs = round16 len
    \<and> CRYPTO_cbc128_encrypt block key inp mid len ivec m = Some (put_bytes m mid cs, ivec')
    \<and> CRYPTO_cbc128_decrypt unblock key mid out len ivec (put_bytes m mid cs)
        = Some (put_bytes (put_bytes m mid cs) out (get_bytes m inp len), ivec')"
proof -
  let ?ps = "get_bytes m inp len"
  let ?cs = "cbc_cipher block key ivec ?ps"
  note e = CRYPTO_cbc128_encrypt_exact [OF assms(1,4,5,6,8)]
  then have l: "length ?cs = round16 len" by simp
  have "len = 0 \<or> 16 \<le> len \<or> \<not> dec_far_away mid out" using assms(10) by (auto simp: dec_far_away_def)
  then have "CRYPTO_cbc128_decrypt unblock key mid out len ivec (put_bytes m mid ?cs)
      = Some (dec_result unblock key len mid out ivec (put_bytes m mid ?cs))"
    using assms l by (intro CRYPTO_cbc128_decrypt_exact) simp_all
  moreover have "get_bytes (put_bytes m mid ?cs) mid (round16 len) = ?cs"
    using get_put_same [of mid ?cs m] l assms(6) by simp
  then have "dec_result unblock key len mid out ivec (put_bytes m mid ?cs)
      = (put_bytes (put_bytes m mid ?cs) out ?ps, last_block ivec ?cs)"
    using cbc_plain_cipher [of block key unblock ivec ?ps] assms(1,3,4,5) by (simp add: dec_result_def)
  ultimately show ?thesis using e l by (intro exI [of _ ?cs] exI [of _ "last_block ivec ?cs"]) simp
qed

lemma toy_unblock_ok: "length key = 16 \<Longrightarrow> block_ok toy_unblock key"
  by (simp add: block_ok_def toy_unblock_def)

lemma toy_inverse: "length key = 16 \<Longrightarrow> length x = 16 \<Longrightarrow> toy_unblock (toy_block x key) key = x"
  by (intro nth_equalityI) (simp_all add: toy_block_def toy_unblock_def rev_nth xor.assoc rev_map comp_def)

theorem cbc_roundtrip_witness:
  "\<exists>cs ivec'. length cs = round16 21
    \<and> CRYPTO_cbc128_encrypt toy_block (replicate 16 7) 40 30 21 (replicate 16 1) (map of_nat [0..<100])
        = Some (put_bytes (map of_nat [0..<100]) 30 cs, ivec')
    \<and> CRYPTO_cbc128_decrypt toy_unblock (replicate 16 7) 30 28 21 (replicate 16 1) (put_bytes (map of_nat [0..<100]) 30 cs)
        = Some (put_bytes (put_bytes (map of_nat [0..<100]) 30 cs) 28 (get_bytes (map of_nat [0..<100]) 40 21), ivec')"
proof -
  have "round16 21 = 32" by (simp add: round16_def)
  then show ?thesis
    by (intro cbc_roundtrip) (simp_all add: toy_block_ok toy_unblock_ok toy_inverse)
qed

text \<open>
  C39. Decrypting fewer than 16 bytes, but some, into a region apart from the source is undefined: no whole
  block is read, \<open>iv\<close> still points to \<open>ivec\<close>, and the code calls \<open>memcpy(ivec, iv, 16)\<close> with equal
  pointers, which its own comment on \<open>len == 0\<close> says is not legal in C. Encryption has no such case.
\<close>

theorem cbc_decrypt_short_undefined:
  assumes "0 < len" and "len < 16" and "dec_far_away inp out"
  shows "CRYPTO_cbc128_decrypt unblock key inp out len ivec m = None"
proof -
  have "far_rest unblock key len inp out Ivec ivec m = None"
    using assms by (simp add: far_rest_tail memcpy_iv_def)
  then show ?thesis using assms by (simp add: CRYPTO_cbc128_decrypt_def far_rest_def dec_far_away_def)
qed

theorem cbc_decrypt_short_undefined_witness:
  "CRYPTO_cbc128_decrypt toy_unblock (replicate 16 7) 0 40 5 (replicate 16 1) (replicate 80 9) = None
   \<and> CRYPTO_cbc128_encrypt toy_block (replicate 16 7) 0 40 5 (replicate 16 1) (replicate 80 9) \<noteq> None"
proof
  show "CRYPTO_cbc128_decrypt toy_unblock (replicate 16 7) 0 40 5 (replicate 16 1) (replicate 80 9) = None"
    by (rule cbc_decrypt_short_undefined) (simp_all add: dec_far_away_def)
  have "round16 5 = 16" by (rule round16_small) simp_all
  then show "CRYPTO_cbc128_encrypt toy_block (replicate 16 7) 0 40 5 (replicate 16 1) (replicate 80 9) \<noteq> None"
    using CRYPTO_cbc128_encrypt_exact [of toy_block "replicate 16 7" "replicate 16 1" 0 5 "replicate 80 9" 40]
    by (simp add: toy_block_ok)
qed

text \<open>
  The assertion \<^verbatim>\<open>inptr + len <= outptr\<close> counts the bytes of the text, but whole blocks are read from the
  source: here the destination starts right behind 20 bytes of source, the assertion holds, the first
  block overwrites the second before it is read, and the result is not the plaintext.
\<close>

lemma cbc_decrypt_overlap:
  "CRYPTO_cbc128_decrypt toy_unblock (replicate 16 0) 0 20 20 (replicate 16 0) (replicate 16 1 @ replicate 44 2)
     \<notin> {None, Some (dec_result toy_unblock (replicate 16 0) 20 0 20 (replicate 16 0) (replicate 16 1 @ replicate 44 2))}"
  by code_simp

end
