(* ===== verification/Spec2Isabelle.thy ===== *)
theory Spec2Isabelle
  imports Unicode Oid Set_Of Ber_Spec Base64 Pool Stack Pb_Fields Idna Inet Timer
    Feedback Cbc
begin

text \<open>
  A verification library for the C code of the InstagramClone repository.

  The repository is an iOS application in Swift whose \<^verbatim>\<open>Pods\<close> directory holds the source of the libraries
  it is built with. The C code that parses and produces bytes for the network lies in three of them:
  the crypto library of \<^verbatim>\<open>BoringSSL-GRPC\<close>, the protocol buffer runtime \<^verbatim>\<open>nanopb\<close> (Firestore's messages) and the
  event loop library \<^verbatim>\<open>Libuv-gRPC\<close>. This development models the parts of them that carry their own logic:
  parsers, builders, encoders, containers. All paths below are under
  \<^verbatim>\<open>src/InstagramFirebaseWork/Pods/\<close>; \<^verbatim>\<open>crypto/\<close> stands for \<^verbatim>\<open>BoringSSL-GRPC/src/crypto/\<close>.

  \<^bold>\<open>Conventions.\<close> Integers keep their width: \<open>u8\<close>, \<open>u16\<close>, \<open>u32\<close>, \<open>u64\<close> and \<open>size_t\<close> (64 bits) are words whose
  arithmetic wraps. A C function that returns 1 or 0 and fills out-parameters returns \<open>Some\<close> of the
  out-parameters or \<open>None\<close>, with the state as the call leaves it, also when it fails; \<open>and_then\<close> is the idiom
  \<^verbatim>\<open>if (!f(...)) return 0;\<close>. Structs are records, memory blocks are lists of bytes, a pointer into a block is an
  index or the rest of the block. Memory allocation is an oracle that may refuse any request.

  \<^bold>\<open>The theories.\<close>
    \<^item> \<open>C_Prelude\<close>: the types, \<open>and_then\<close>, and the facts on words, bytes and big-endian numbers that all
      components share.
    \<^item> \<open>Mem\<close> (\<^verbatim>\<open>crypto/mem.c\<close>): allocation with its oracle, comparison, hashing and string helpers.
    \<^item> \<open>Cbs\<close> (\<^verbatim>\<open>crypto/bytestring/cbs.c\<close>): byte string readers. The locale \<open>cbs_codec\<close> is the contract between a
      reader and the encoding it inverts; every reader of the next two theories interprets it.
    \<^item> \<open>Der\<close>, \<open>Asn1\<close> (\<^verbatim>\<open>cbs.c\<close>): DER and BER element headers, INTEGER, BOOLEAN, OPTIONAL, BIT STRING. Shown: the
      readers accept exactly the canonical encodings and return the encoded values.
    \<^item> \<open>Cbb\<close> (\<^verbatim>\<open>crypto/bytestring/cbb.c\<close>): the builder, a growing buffer with a chain of open children whose
      length prefixes are written later. Shown: every operation refines appending to a list of open frames,
      \<open>CBB_flush\<close> closes them, \<open>CBB_finish\<close> returns the closed contents, reservations stay in the buffer, errors
      are sticky.
    \<^item> \<open>Oid\<close>, \<open>Set_Of\<close> (\<^verbatim>\<open>cbb.c\<close>, \<^verbatim>\<open>cbs.c\<close>): object identifiers from and to dotted decimal text, inverse to each other;
      the elements of a SET OF are sorted. \<open>Qsort\<close> is the contract of the C library function, also used by
      \<open>Stack\<close>.
    \<^item> \<open>Ber\<close>, \<open>Ber_Spec\<close> (\<^verbatim>\<open>crypto/bytestring/ber.c\<close>): the search for BER forms, the conversion to DER over the reader and the
      builder, implicitly tagged strings. \<open>Ber_Spec\<close> gives the grammar of BER and the trees it describes. Shown: the
      conversion accepts exactly this grammar and writes the DER of the same trees, in which there is nothing left to
      convert; DER is returned as it is; a BER form in front of a sibling is missed; implicitly tagged strings are
      read exactly.
    \<^item> \<open>Unicode\<close> (\<^verbatim>\<open>crypto/bytestring/unicode.c\<close>): reading and writing code points; UTF-8 is exact.
    \<^item> \<open>Const_Time\<close> (\<^verbatim>\<open>crypto/internal.h\<close>) and \<open>Base64\<close> (\<^verbatim>\<open>crypto/base64/base64.c\<close>): the branch-free comparisons agree with
      the ordinary ones and the selections choose by their masks; block and streaming Base64 round trips, for any way of cutting the input.
    \<^item> \<open>Lhash\<close> (\<^verbatim>\<open>crypto/lhash/lhash.c\<close>): the chained hash table. The locale \<open>hash_eq\<close> is what it relies on: equal
      elements have equal hashes. Shown: insertion, retrieval and deletion are those of a finite map, across
      resizing and failing allocations; the load stays bounded.
    \<^item> \<open>Pool\<close> (\<^verbatim>\<open>crypto/pool/pool.c\<close>): shared buffers with reference counts over the hash table, whose locale it
      interprets. The critical sections are the steps of a transition relation; shown for all
      interleavings: no abort, no use after free; buffers with equal contents are shared.
    \<^item> \<open>Stack\<close> (\<^verbatim>\<open>crypto/stack/stack.c\<close>): growable arrays with a sorted flag. Shown: they refine lists, insertion
      failing only when the array cannot grow; searching finds the first match, the flag is truthful; \<open>sk_set\<close> breaks it.
    \<^item> \<open>Pb_Stream\<close> (\<^verbatim>\<open>nanopb/pb_encode.c\<close>, \<^verbatim>\<open>nanopb/pb_decode.c\<close>): streams over buffers, varints, fixed numbers, tags,
      strings, submessages. The locale \<open>pb_value\<close> is the contract of a wire value; shown: round trips, exact
      skipping, writes stay in the buffer and agree with the dry run; the position
      of the 32 bit varint decoder wraps.
    \<^item> \<open>Pb_Fields\<close> (the same files): field encoders and decoders on struct memory. The locale \<open>pb_item\<close> is the
      contract of a numeric field type, interpreted for all six; shown: packed arrays, strings and bytes
      survive the round trip, decoding never writes outside the struct member.
    \<^item> \<open>Idna\<close> (\<^verbatim>\<open>Libuv-gRPC/src/idna.c\<close>): UTF-8 decoding and Punycode. Shown: ASCII names are copied, UTF-8 text is
      decoded, the encoder ends, its numbers can be read back; truncated input is read past its end.
    \<^item> \<open>Inet\<close> (\<^verbatim>\<open>Libuv-gRPC/src/inet.c\<close>, \<^verbatim>\<open>strscpy.c\<close>, the address functions of \<^verbatim>\<open>uv-common.c\<close>), with the error codes of \<open>Uv_Errno\<close>: IPv4 and
      IPv6 addresses as text. A read or write outside a block has no result. Shown: the IPv4 parser accepts exactly what the printer
      writes; IPv6 addresses survive the round trip, with \<open>::\<close>, embedded IPv4 and zones; the parser is safe on every text;
      \<open>uv_ip6_addr\<close> cuts the text in front of a zone to 39 characters, and which addresses it then gets wrong.
    \<^item> \<open>Timer_Heap\<close> (\<^verbatim>\<open>Libuv-gRPC/src/heap-inl.h\<close>): the binary heap of linked nodes, in a store of structs. The locale
      \<open>heap_order\<close> is what it relies on, a strict weak order; shown: it refines a finite set with a least element.
    \<^item> \<open>Timer\<close> (\<^verbatim>\<open>Libuv-gRPC/src/timer.c\<close>, the handle macros of \<^verbatim>\<open>uv-common.h\<close>, closing and waiting of \<^verbatim>\<open>unix/core.c\<close>): timers
      ordered by timeout and start, an interpretation of \<open>heap_order\<close>. A callback is the list of calls it makes, chosen from the state
      it sees. The queue of handles and the chain of closing ones are lists, and an
      initialisation that would link a handle a second time has no result. Shown: every call keeps the heap, the flags and the count of active handles consistent; the loop never
      sleeps past a timer; \<open>uv__run_timers\<close> ends with no timer due after calling the due ones in order, when no callback
      starts a timer with a zero timeout (one that restarts itself so is called for ever, \<open>uv__run_timers_restart_diverges\<close>);
      closed handles are finished once.
    \<^item> \<open>Block_Mode\<close>, \<open>Ctr\<close>, \<open>Feedback\<close>, \<open>Cbc\<close> (\<^verbatim>\<open>crypto/fipsmodule/modes/\<close>: \<^verbatim>\<open>ctr.c\<close>, \<^verbatim>\<open>ofb.c\<close>, \<^verbatim>\<open>cfb.c\<close>, \<^verbatim>\<open>cbc.c\<close>): the modes of operation, over
      a block cipher that is a parameter. The locale \<open>stream_pair\<close> is the contract of the modes that keep a position inside a
      block; it is interpreted for counter mode, output feedback and cipher feedback. Shown: counter mode XORs the cipher
      of a 128 bit counter; the variant that counts in 32 bits equals it; every mode gives the text back however it is cut.
      Cipher block chaining is modelled on a memory in which source and destination may overlap; shown: the text comes back in all
      layouts the code allows, but for two that it lets through (\<open>cbc_decrypt_short_undefined\<close>, \<open>cbc_decrypt_overlap\<close>).
    \<^item> This theory: how the builder and the reader of DER interact.

  \<^bold>\<open>Loops.\<close> All loops are total functions with termination proofs, but for four whose end depends on the state they
  are given: the main loop of the Punycode encoder, the two walks through the heap, and \<open>uv__run_timers\<close>. They are
  partial functions, and that they return is part of the theorems. No model uses fuel. The one nested recursion is
  \<open>cbs_convert_ber\<close>, whose calls move the caller's input: that the input does not grow is shown of the function on its
  domain, before its termination. Its bound on the nesting, \<open>kMaxDepth\<close>, is the one of the code.

  \<^bold>\<open>Not modelled.\<close> The Swift sources, the Objective-C and C++ pods (Firebase, gRPC, abseil, leveldb, SDWebImage
  and others), and generated code (upb, certificates, tables). Of BoringSSL: TLS, X.509, block ciphers and the
  authenticated modes, digests, big numbers and curves, much of it assembler or table driven; of libuv: everything that calls the
  operating system, with \<open>uv_run\<close> and the handles that are not timers; of nanopb: the iteration over message descriptors (\<^verbatim>\<open>pb_common.c\<close>,
  \<open>pb_encode\<close>, \<open>pb_decode\<close>), pointer and callback fields, extensions.
\<close>

text \<open>
  C40. What the builder writes the reader reads: for every 64 bit integer, \<open>CBB_add_asn1_int64\<close> on a fresh
  builder followed by \<open>CBB_finish\<close> gives bytes from which \<open>CBS_get_asn1_int64\<close> returns the same integer,
  with nothing left over, wherever the allocator moved the buffer in between.
\<close>

theorem der_int64_roundtrip:
  assumes "CBB_init hdl cap a = Some s" and "CBB_add_asn1_int64 hdl v s = (Some (), s1)"
    and "CBB_finish hdl True True s1 = (Some (Some m, n), s2)"
  shows "\<exists>c. CBS_get_asn1_int64 (CBS_init m n) = (Some v, c) \<and> cbs_len c = 0"
proof -
  let ?e = "der_enc 2 (int_contents (sint v))"
  have "sview s [(hdl, Top, [])]" by (rule CBB_init_view [OF assms(1)])
  then have "sview s1 [(hdl, Top, ?e)]"
    using CBB_add_asn1_int64_yields [of s "[]" hdl Top "[]" "[]" v] assms(2) by simp
  from finish_contents [OF this] assms(3) have c: "take (unat n) m = ?e" "unat n = length ?e" by auto
  then have "cbs_view (CBS_init m n) (?e @ [])" by (simp add: cbs_view_def cbs_ok_def CBS_init_def cbs_bytes_def, metis length_take min.cobounded1)
  from r_int64.read_enc [OF this] obtain x c where "CBS_get_asn1_int64 (CBS_init m n) = (Some x, c)" "sint x = sint v" "cbs_view c []"
    using sint_greater_eq [of v] sint_less [of v] by auto
  then show ?thesis by (metis cbs_view_len list.size(3) signed_word_eqI unat_eq_0)
qed

theorem der_int64_roundtrip_witness:
  "\<exists>s s1 m n s2 c. CBB_init 0 4 ok_heap = Some s \<and> CBB_add_asn1_int64 0 (- 129) s = (Some (), s1)
     \<and> CBB_finish 0 True True s1 = (Some (Some m, n), s2) \<and> CBS_get_asn1_int64 (CBS_init m n) = (Some (- 129), c) \<and> cbs_len c = 0"
proof -
  let ?e = "der_enc 2 (int_contents (sint (- 129 :: u64)))"
  have l: "length ?e = 4" by (simp add: der_enc_def tag_enc_def len_enc_def int_contents_def int_len.simps)
  have room: "sroom start_state (length ?e)" unfolding l by (rule start_state(3)) simp
  have y: "yields sview sroom start_state (CBB_add_asn1_int64 0 (- 129) start_state) True (length ?e) [(0, Top, ?e)]"
    using CBB_add_asn1_int64_yields [of start_state "[]" 0 Top "[]" "[]" "- 129"] start_state(2) by simp
  then obtain s1 where s1: "CBB_add_asn1_int64 0 (- 129) start_state = (Some (), s1)" "sview s1 [(0, Top, ?e)]"
    by (rule sw.success) (use room in simp_all)
  have r: "sroom s1 0" using y room s1(1) by simp
  obtain m n s2 where f: "CBB_finish 0 True True s1 = (Some (m, n), s2)" "take (unat n) (case m of None \<Rightarrow> [] | Some b \<Rightarrow> b) = ?e"
    using finish_contents [OF s1(2)] r by (auto split: prod.splits option.splits)
  then obtain b where "m = Some b" using l by (cases m) auto
  with der_int64_roundtrip [OF start_state(1) s1(1)] f(1) start_state(1) s1(1) show ?thesis by blast
qed

end
